(* ===== verification/Prelude.thy ===== *)
theory Prelude
  imports Main "HOL-Library.Word" "HOL-Library.Monad_Syntax"
begin

text \<open>
  Shared vocabulary of the development: the machine types of
  \<^verbatim>\<open>src/includes/geos/algorithm/ttmath/ttmathtypes.h\<close> on a 64-bit platform, the number
  a table of words stands for (\<open>uval\<close>), the table of a given size that stands for a number
  (\<open>utab\<close>), and the generic facts on words, tables and lists that the components share.
  Collections: \<open>uval_simps\<close> (evaluation of \<open>uval\<close> over list constructors) and
  \<open>word_bounds\<close> (the range of a machine word).
\<close>

unbundle bit_operations_syntax

named_theorems uval_simps \<open>equations for the number a table stands for\<close>
named_theorems word_bounds \<open>range facts for machine words\<close>

section \<open>Machine types\<close>

type_synonym uint = "64 word"
type_synonym sint = "64 word"
type_synonym uint32 = "32 word"
type_synonym utable = "uint list"

definition TTMATH_BITS_PER_UINT :: nat where
  "TTMATH_BITS_PER_UINT = 64"

definition TTMATH_UINT_HIGHEST_BIT :: uint where
  "TTMATH_UINT_HIGHEST_BIT = 9223372036854775808"

definition TTMATH_UINT_MAX_VALUE :: uint where
  "TTMATH_UINT_MAX_VALUE = 18446744073709551615"

definition TTMATH_USE_KARATSUBA_MULTIPLICATION_FROM_SIZE :: nat where
  "TTMATH_USE_KARATSUBA_MULTIPLICATION_FROM_SIZE = 3"

text \<open>The radix of a table: one digit is one word.\<close>

definition W :: nat where
  "W = 2 ^ 64"

lemma W_gt_1 [simp]: "Suc 0 < W"
  by (simp add: W_def)

lemma W_pos [simp]: "0 < W"
  by (simp add: W_def)

lemma W_ge_1: "1 \<le> W"
  by (simp add: W_def)

lemma W_power_mono: "m \<le> n \<Longrightarrow> W ^ m \<le> W ^ n"
  by (rule power_increasing [OF _ W_ge_1])

lemma W_neq_0 [simp]: "W \<noteq> 0"
  by (simp add: W_def)

lemma unat_less_W [simp, word_bounds]: "unat (w :: uint) < W"
  using unsigned_less [of w, where ?'a = nat] by (simp add: W_def)

lemma unat_le_W [word_bounds]: "unat (w :: uint) \<le> W - 1"
  using unat_less_W [of w] by linarith

lemma unat_uint_bound [word_bounds]: "unat (w :: uint) < 18446744073709551616"
  using unsigned_less [of w, where ?'a = nat] by simp

lemma unat_uint32_bound [word_bounds]: "unat (w :: uint32) < 4294967296"
  using unsigned_less [of w, where ?'a = nat] by simp

lemma unat_of_nat_uint: "unat (of_nat n :: uint) = n mod W"
  by (simp add: unat_of_nat W_def)

lemma unat_of_nat_small: "n < W \<Longrightarrow> unat (of_nat n :: uint) = n"
  by (simp add: unat_of_nat_uint)

lemma of_nat_mod_W [simp]: "(of_nat (n mod W) :: uint) = of_nat n"
  by (simp add: word_unat_eq_iff unat_of_nat_uint)

lemma of_nat_W [simp]: "(of_nat W :: uint) = 0"
  by (simp add: W_def)

lemma of_nat_W_mult [simp]: "(of_nat (n + W * m) :: uint) = of_nat n"
  by simp

lemma unat_max_value: "unat TTMATH_UINT_MAX_VALUE = W - 1"
  by (simp add: TTMATH_UINT_MAX_VALUE_def W_def)

lemma max_value_mask: "TTMATH_UINT_MAX_VALUE = - 1"
  by (simp add: TTMATH_UINT_MAX_VALUE_def)

lemma highest_bit_power: "TTMATH_UINT_HIGHEST_BIT = 2 ^ 63"
  by (simp add: TTMATH_UINT_HIGHEST_BIT_def)

lemma and_highest_bit_iff: "(w AND TTMATH_UINT_HIGHEST_BIT \<noteq> 0) = bit w 63"
  unfolding highest_bit_power and_exp_eq_0_iff_not_bit by simp

lemma and_highest_bit_eq_0_iff: "(w AND TTMATH_UINT_HIGHEST_BIT = 0) = (\<not> bit w 63)"
  using and_highest_bit_iff [of w] by blast

lemma bit_63_iff: "bit (w :: uint) 63 = (W div 2 \<le> unat w)"
proof -
  have "bit w 63 = bit (unat w) 63"
    by (simp add: bit_unsigned_iff)
  then have "bit w 63 = odd (unat w div 2 ^ 63)"
    by (simp only: bit_iff_odd)
  moreover have "unat w div 2 ^ 63 = of_bool (2 ^ 63 \<le> unat w)"
  proof (cases "2 ^ 63 \<le> unat w")
    case True
    moreover have "unat w < 2 * 2 ^ 63"
      using unsigned_less [of w, where ?'a = nat] by simp
    ultimately have "unat w div 2 ^ 63 = 1"
      by (intro div_nat_eqI) simp_all
    with True show ?thesis by simp
  qed simp
  ultimately show ?thesis
    by (simp add: W_def)
qed

lemma and_1_eq_0_iff: "(w AND 1 = 0) = even (unat (w :: uint))"
proof -
  have "(w AND 1 = 0) = (\<not> bit w 0)"
    by (simp add: and_one_eq bit_0 mod2_eq_if)
  also have "\<dots> = (\<not> bit (unat w) 0)"
    by (simp add: bit_unsigned_iff)
  finally show ?thesis by (simp add: bit_0)
qed

lemma drop_bit_uint: "unat (drop_bit n (w :: uint)) = unat w div 2 ^ n"
  by (rule trans [OF unat_drop_bit_eq]) (simp only: drop_bit_eq_div)

lemma push_bit_uint: "unat (push_bit n (w :: uint)) = (unat w * 2 ^ n) mod W"
proof -
  have "unat (push_bit n w) = take_bit 64 (push_bit n (unat w))"
    by (simp only: unsigned_push_bit_eq) simp
  then show ?thesis
    by (simp only: push_bit_eq_mult take_bit_eq_mod W_def)
qed

text \<open>Disjoint \<open>OR\<close> is addition: the shift loops put bits side by side this way.\<close>

lemma unat_or_disjoint:
  assumes "(x :: uint) AND y = 0"
  shows "unat (x OR y) = unat x + unat y"
proof -
  have "unat (x OR y) = unat x OR unat y"
    by (simp only: unsigned_or_eq)
  moreover have "unat x AND unat y = 0"
    using assms by (simp only: flip: unsigned_and_eq) simp
  ultimately show ?thesis
    by (simp add: disjunctive_add_eq_or)
qed

lemma push_bit_and_small:
  assumes "unat (y :: uint) < 2 ^ n"
  shows "push_bit n x AND y = 0"
proof (rule bit_word_eqI)
  fix k assume "k < LENGTH(64)"
  have "\<not> bit y k" if "n \<le> k"
  proof -
    have "unat y < 2 ^ k"
      using assms that by (meson order_less_le_trans one_le_numeral power_increasing)
    then have "\<not> bit (unat y) k"
      by (simp add: bit_iff_odd)
    with \<open>k < LENGTH(64)\<close> show ?thesis
      by (simp add: bit_unsigned_iff)
  qed
  then show "bit (push_bit n x AND y) k = bit (0 :: uint) k"
    by (auto simp: bit_and_iff bit_push_bit_iff)
qed

lemma unat_push_bit_or:
  assumes "unat (y :: uint) < 2 ^ n"
  shows "unat (push_bit n x OR y) = (unat x * 2 ^ n) mod W + unat y"
  using unat_or_disjoint [OF push_bit_and_small [OF assms]] by (simp add: push_bit_uint)

section \<open>Tables of words as numbers\<close>

text \<open>\<open>table[0]\<close> is the lowest word.\<close>

fun uval :: "utable \<Rightarrow> nat" where
  "uval [] = 0"
| "uval (w # ws) = unat w + W * uval ws"

fun utab :: "nat \<Rightarrow> nat \<Rightarrow> utable" where
  "utab 0 v = []"
| "utab (Suc n) v = of_nat v # utab n (v div W)"

lemma uval_append [uval_simps]: "uval (xs @ ys) = uval xs + W ^ length xs * uval ys"
  by (induction xs) (simp_all add: algebra_simps)

lemma uval_snoc [uval_simps]: "uval (xs @ [w]) = uval xs + W ^ length xs * unat w"
  by (simp add: uval_append)

lemma uval_less: "uval xs < W ^ length xs"
proof (induction xs)
  case (Cons w ws)
  have "unat w + W * uval ws < W + W * uval ws"
    by simp
  also have "\<dots> = W * Suc (uval ws)"
    by simp
  also have "\<dots> \<le> W * W ^ length ws"
    using Cons.IH by (intro mult_le_mono2) simp
  finally show ?case by simp
qed simp

lemma uval_less_le: "length xs \<le> n \<Longrightarrow> uval xs < W ^ n"
  using uval_less [of xs] W_power_mono [of "length xs" n] by linarith

lemma uval_replicate_0 [simp]: "uval (replicate n 0) = 0"
  by (induction n) simp_all

lemma uval_append_zeros [simp]: "uval (xs @ replicate n 0) = uval xs"
  by (simp add: uval_append)

lemma uval_eq_0_iff: "uval xs = 0 \<longleftrightarrow> (\<forall>w \<in> set xs. w = 0)"
  by (induction xs) (simp_all add: unat_eq_0)

lemma uval_eq_0_replicate: "uval xs = 0 \<longleftrightarrow> xs = replicate (length xs) 0"
  by (metis in_set_replicate replicate_eqI uval_eq_0_iff uval_replicate_0)

lemma uval_replicate_max: "uval (replicate n TTMATH_UINT_MAX_VALUE) = W ^ n - 1"
proof (induction n)
  case (Suc n)
  have "1 \<le> W ^ n" by (simp add: Suc_le_eq)
  then have "W \<le> W * W ^ n" by simp
  moreover have "uval (replicate (Suc n) TTMATH_UINT_MAX_VALUE) = (W - 1) + (W * W ^ n - W)"
    by (simp add: Suc unat_max_value diff_mult_distrib2)
  ultimately show ?case
    using W_ge_1 by (simp only: power_Suc)
qed simp

lemma length_utab [simp]: "length (utab n v) = n"
  by (induction n arbitrary: v) simp_all

lemma uval_utab: "uval (utab n v) = v mod W ^ n"
proof (induction n arbitrary: v)
  case (Suc n)
  have "uval (utab (Suc n) v) = v mod W + W * (v div W mod W ^ n)"
    by (simp add: Suc.IH unat_of_nat_uint)
  also have "\<dots> = v mod (W * W ^ n)"
    by (simp add: mod_mult2_eq algebra_simps)
  finally show ?case by simp
qed simp

lemma utab_uval [simp]: "utab (length xs) (uval xs) = xs"
proof (induction xs)
  case (Cons w ws)
  have "(unat w + W * uval ws) div W = uval ws"
    by (simp add: div_mult_self4)
  with Cons show ?case by simp
qed simp

lemma uval_inject: "length xs = length ys \<Longrightarrow> uval xs = uval ys \<longleftrightarrow> xs = ys"
  by (metis utab_uval)

lemma utab_eqI: "length xs = n \<Longrightarrow> uval xs = v mod W ^ n \<Longrightarrow> xs = utab n v"
  by (metis length_utab uval_inject uval_utab)

lemma utab_mod [simp]: "utab n (v mod W ^ n) = utab n v"
  by (rule utab_eqI) (simp_all add: uval_utab)

lemma uval_split: "uval xs = uval (take i xs) + W ^ min i (length xs) * uval (drop i xs)"
  using uval_append [of "take i xs" "drop i xs"] by (simp add: min.commute)

lemma uval_take: "uval (take i xs) = uval xs mod W ^ i"
proof (cases "i \<le> length xs")
  case True
  moreover have "uval (take i xs) < W ^ i"
    by (rule uval_less_le) simp
  ultimately show ?thesis
    using uval_split [of xs i] by (simp add: min_absorb1)
next
  case False
  then show ?thesis using uval_less_le [of xs i] by simp
qed

lemma uval_drop: "uval (drop i xs) = uval xs div W ^ i"
proof (cases "i \<le> length xs")
  case True
  moreover have "uval (take i xs) < W ^ i"
    by (rule uval_less_le) simp
  ultimately show ?thesis
    using uval_split [of xs i] by (simp add: min_absorb1)
next
  case False
  then show ?thesis using uval_less_le [of xs i] by simp
qed

lemma uval_nth: "i < length xs \<Longrightarrow> unat (xs ! i) = uval xs div W ^ i mod W"
  by (metis Cons_nth_drop_Suc uval.simps(2) uval_drop mod_mult_self2 mod_less unat_less_W)

lemma uval_update:
  assumes "i < length xs"
  shows "uval (xs[i := w]) + W ^ i * unat (xs ! i) = uval xs + W ^ i * unat w"
proof -
  have "uval (xs[i := w]) = uval (take i xs) + W ^ i * (unat w + W * uval (drop (Suc i) xs))"
    using assms by (simp add: upd_conv_take_nth_drop uval_append min_def)
  moreover have "uval xs = uval (take i xs) + W ^ i * (unat (xs ! i) + W * uval (drop (Suc i) xs))"
    using assms uval_split [of xs i] by (simp add: Cons_nth_drop_Suc [symmetric] min_def)
  ultimately show ?thesis by (simp add: algebra_simps)
qed

section \<open>Carries\<close>

lemma mod_mult_add_left: "((x mod m) * y + z) mod m = (x * y + z) mod (m :: nat)"
  by (metis mod_add_left_eq mod_mult_left_eq)

lemma mod_div_scale: "(s mod m * p + f) + m * (s div m * p) = s * p + (f :: nat)"
proof -
  have "(m * (s div m) + s mod m) * p = s * p" by (simp only: mult_div_mod_eq)
  then have "m * (s div m * p) + s mod m * p = s * p" by (simp only: distrib_right mult.assoc)
  then show ?thesis by linarith
qed

lemma pred_mult_div: "0 < p \<Longrightarrow> 0 < q \<Longrightarrow> (p * q - 1) div q = p - (1 :: nat)"
proof -
  assume "0 < p" "0 < q"
  then obtain p' q' where "p = Suc p'" "q = Suc q'" by (metis gr0_implies_Suc)
  then have "p * q - 1 = q' + q * p'" by simp
  then have "(p * q - 1) div q = p' + q' div q"
    using \<open>0 < q\<close> by (simp only: div_mult_self2)
  with \<open>p = Suc p'\<close> \<open>q = Suc q'\<close> show ?thesis by simp
qed

lemma pred_mult_mod: "0 < p \<Longrightarrow> 0 < q \<Longrightarrow> (p * q - 1) mod p = p - (1 :: nat)"
proof -
  assume "0 < p" "0 < q"
  then obtain p' q' where "p = Suc p'" "q = Suc q'" by (metis gr0_implies_Suc)
  then have "p * q - 1 = p' + p * q'" by simp
  then have "(p * q - 1) mod p = p' mod p" by (simp only: mod_mult_self2)
  with \<open>p = Suc p'\<close> show ?thesis by simp
qed

text \<open>One more digit of a carry chain.\<close>

lemma carry_chain:
  fixes x y c c2 a b :: nat
  assumes "x + w * c = a" "y + v * c2 = b + c"
  shows "x + w * y + w * v * c2 = a + w * b"
proof -
  have "w * (y + v * c2) = w * (b + c)" by (simp only: assms(2))
  with assms(1) show ?thesis by (simp add: algebra_simps)
qed

lemma borrow_chain:
  fixes x y c c2 a b s t :: nat
  assumes "x + s = a + w * c" "y + t + c = b + v * c2"
  shows "(x + w * y) + (s + w * t) = (a + w * b) + w * v * c2"
proof -
  have "w * (y + t + c) = w * (b + v * c2)" by (simp only: assms(2))
  with assms(1) show ?thesis by (simp add: algebra_simps)
qed

text \<open>An operation on the words from index \<open>i\<close> on, seen on the whole table.\<close>

lemma uval_offset_add:
  assumes "i \<le> length t" "uval rs + W ^ (length t - i) * c = uval (drop i t) + d"
  shows "uval (take i t @ rs) + W ^ length t * c = uval t + W ^ i * d"
proof -
  have p: "W ^ i * W ^ (length t - i) = W ^ length t"
    using assms(1) by (simp flip: power_add)
  have "W ^ i * (uval rs + W ^ (length t - i) * c) = W ^ i * (uval (drop i t) + d)"
    by (simp only: assms(2))
  then have "W ^ i * uval rs + W ^ length t * c = W ^ i * uval (drop i t) + W ^ i * d"
    by (simp only: distrib_left p mult.assoc [symmetric])
  moreover have "uval (take i t @ rs) = uval (take i t) + W ^ i * uval rs"
    using assms(1) by (simp add: uval_append min_absorb2)
  moreover have "uval t = uval (take i t) + W ^ i * uval (drop i t)"
    using assms(1) uval_split [of t i] by (simp add: min_absorb1)
  ultimately show ?thesis by linarith
qed

lemma uval_offset_sub:
  assumes "i \<le> length t" "uval rs + d = uval (drop i t) + W ^ (length t - i) * c"
  shows "uval (take i t @ rs) + W ^ i * d = uval t + W ^ length t * c"
proof -
  have p: "W ^ i * W ^ (length t - i) = W ^ length t"
    using assms(1) by (simp flip: power_add)
  have "W ^ i * (uval rs + d) = W ^ i * (uval (drop i t) + W ^ (length t - i) * c)"
    by (simp only: assms(2))
  then have "W ^ i * uval rs + W ^ i * d = W ^ i * uval (drop i t) + W ^ length t * c"
    by (simp only: distrib_left p mult.assoc [symmetric])
  moreover have "uval (take i t @ rs) = uval (take i t) + W ^ i * uval rs"
    using assms(1) by (simp add: uval_append min_absorb2)
  moreover have "uval t = uval (take i t) + W ^ i * uval (drop i t)"
    using assms(1) uval_split [of t i] by (simp add: min_absorb1)
  ultimately show ?thesis by linarith
qed

text \<open>
  The result of a carrying operation on a table of size \<open>n\<close> whose exact result is \<open>s\<close>:
  the carry word and the table.
\<close>

definition carry_result :: "nat \<Rightarrow> nat \<Rightarrow> uint \<times> utable" where
  "carry_result n s = (of_nat (s div W ^ n), utab n s)"

lemma carry_resultI:
  assumes "length r = n" "uval r + W ^ n * unat c = s"
  shows "(c, r) = carry_result n s"
proof -
  have "uval r < W ^ n" using assms(1) uval_less by blast
  then have "s mod W ^ n = uval r" "s div W ^ n = unat c"
    using assms(2) by auto
  with assms(1) show ?thesis
    by (simp add: carry_result_def utab_eqI)
qed

definition borrow_result :: "nat \<Rightarrow> nat \<Rightarrow> nat \<Rightarrow> uint \<times> utable" where
  "borrow_result n a b = (of_bool (a < b), utab n (a + W ^ n - b))"

lemma borrow_resultI:
  assumes "length r = n" "uval r + b = a + W ^ n * unat c" "c = 0 \<or> c = 1" "a < W ^ n"
  shows "(c, r) = borrow_result n a b"
proof -
  have r: "uval r < W ^ n" using assms(1) uval_less by blast
  show ?thesis
  proof (cases "c = 0")
    case True
    with assms(2) have "a = uval r + b" by simp
    with assms(1) r True show ?thesis
      by (simp add: borrow_result_def utab_eqI)
  next
    case False
    with assms(3) have "c = 1" by simp
    with assms(2) have eq: "uval r + b = a + W ^ n" by simp
    with r have "a < b" by linarith
    moreover have "a + W ^ n - b = uval r" using eq by linarith
    ultimately show ?thesis
      using assms(1) r \<open>c = 1\<close> by (simp add: borrow_result_def utab_eqI)
  qed
qed

lemma uval_utab_exact: "v < W ^ n \<Longrightarrow> uval (utab n v) = v"
  by (simp add: uval_utab)

lemma carry_result_exact: "s < W ^ n \<Longrightarrow> carry_result n s = (0, utab n s)"
  by (simp add: carry_result_def)

lemma carry_result_bit:
  assumes "s < 2 * W ^ n"
  shows "carry_result n s = (of_bool (W ^ n \<le> s), utab n s)"
proof -
  have "s div W ^ n = of_bool (W ^ n \<le> s)"
    using assms by (cases "W ^ n \<le> s") (auto intro!: div_nat_eqI)
  then show ?thesis by (simp add: carry_result_def)
qed

lemma utab_add_multiple [simp]: "utab n (v + W ^ n * k) = utab n v"
  by (metis mod_mult_self2 utab_mod)

lemma borrow_result_exact: "b \<le> a \<Longrightarrow> borrow_result n a b = (0, utab n (a - b))"
  using utab_add_multiple [of n "a - b" 1] by (simp add: borrow_result_def)

section \<open>Counting loops\<close>

text \<open>
  A \<^verbatim>\<open>for\<close> loop over the given indices whose body may fail an assertion, and its invariant rule:
  the loop returns, and what the invariant says at the last index holds of its state.
\<close>

fun for_loop :: "'i list \<Rightarrow> ('i \<Rightarrow> 's \<Rightarrow> 's option) \<Rightarrow> 's \<Rightarrow> 's option" where
  "for_loop [] body s = Some s"
| "for_loop (i # is) body s = do { s \<leftarrow> body i s; for_loop is body s }"

lemma for_loop_upt:
  assumes "P a s" "a \<le> b"
    and "\<And>i s. a \<le> i \<Longrightarrow> i < b \<Longrightarrow> P i s \<Longrightarrow> \<exists>s'. body i s = Some s' \<and> P (Suc i) s'"
  shows "\<exists>s'. for_loop [a..<b] body s = Some s' \<and> P b s'"
  using assms
proof (induction "b - a" arbitrary: a s)
  case 0
  then show ?case by simp
next
  case (Suc k)
  then have "a < b" by simp
  then obtain s' where s': "body a s = Some s'" "P (Suc a) s'"
    using Suc.prems(3) [of a s] Suc.prems(1) by auto
  have "\<exists>s''. for_loop [Suc a..<b] body s' = Some s'' \<and> P b s''"
    using Suc.hyps(2) \<open>a < b\<close> by (intro Suc.hyps(1) s'(2) Suc.prems(3)) auto
  with s'(1) \<open>a < b\<close> show ?case by (simp add: upt_conv_Cons)
qed

end
