(* ===== verification/UInt_Words.thy ===== *)
theory UInt_Words
  imports Prelude
begin

text \<open>
  The word-level primitives of the assembler-free build of the big-integer class
  \<^verbatim>\<open>UInt\<close>, \<^verbatim>\<open>src/includes/geos/algorithm/ttmath/ttmathuint_noasm.h\<close>: addition and
  subtraction of two words with a carry, the search for the highest and the lowest set bit,
  setting a bit, and the double-word product. A C++ reference or pointer parameter that is
  written is a component of the result; a return value comes first.
  \<^verbatim>\<open>TTMATH_ASSERT(e)\<close> is modelled as in the build with \<^verbatim>\<open>TTMATH_DEBUG\<close>: when \<open>e\<close> is
  false the call throws \<^verbatim>\<open>RuntimeError\<close>, and the result is \<open>None\<close>.
\<close>

section \<open>Addition and subtraction of two words\<close>

definition UInt_AddTwoWords :: "uint \<Rightarrow> uint \<Rightarrow> uint \<Rightarrow> uint \<times> uint" where
  "UInt_AddTwoWords a b carry =
     (if carry = 0
      then let temp = a + b in (if temp < a then 1 else carry, temp)
      else let carry = 1; temp = a + b + carry in (if temp > a then 0 else carry, temp))"

definition UInt_SubTwoWords :: "uint \<Rightarrow> uint \<Rightarrow> uint \<Rightarrow> uint \<times> uint" where
  "UInt_SubTwoWords a b carry =
     (if carry = 0
      then (if a < b then 1 else carry, a - b)
      else let carry = 1 in (if a > b then 0 else carry, a - b - carry))"

lemma AddTwoWords_value:
  assumes "UInt_AddTwoWords a b c = (c', r)"
  shows "unat r + W * unat c' = unat a + unat b + of_bool (c \<noteq> 0)"
  using assms unat_uint_bound [of a] unat_uint_bound [of b]
  by (auto simp: UInt_AddTwoWords_def Let_def W_def word_less_nat_alt unat_plus_if'
      split: if_splits)

lemma AddTwoWords_carry:
  assumes "UInt_AddTwoWords a b c = (c', r)"
  shows "c' = 0 \<or> c' = 1"
  using assms by (auto simp: UInt_AddTwoWords_def Let_def split: if_splits)

lemma SubTwoWords_value:
  assumes "UInt_SubTwoWords a b c = (c', r)"
  shows "unat r + unat b + of_bool (c \<noteq> 0) = unat a + W * unat c'"
  using assms unat_uint_bound [of a] unat_uint_bound [of b]
  by (auto simp: UInt_SubTwoWords_def Let_def W_def word_less_nat_alt unat_sub_if'
      split: if_splits)

lemma SubTwoWords_carry:
  assumes "UInt_SubTwoWords a b c = (c', r)"
  shows "c' = 0 \<or> c' = 1"
  using assms by (auto simp: UInt_SubTwoWords_def Let_def split: if_splits)

section \<open>Bits of a word\<close>

text \<open>The two search loops do not end on zero; \<open>None\<close> is "does not return".\<close>

partial_function (option) FindLeadingBit_loop :: "uint \<Rightarrow> uint \<Rightarrow> uint option" where
  "FindLeadingBit_loop x b =
     (if x AND TTMATH_UINT_HIGHEST_BIT = 0
      then FindLeadingBit_loop (push_bit 1 x) (b - 1)
      else Some b)"

declare FindLeadingBit_loop.simps [code]

definition UInt_FindLeadingBitInWord :: "uint \<Rightarrow> sint option" where
  "UInt_FindLeadingBitInWord x =
     (if x = 0 then Some (- 1)
      else FindLeadingBit_loop x (of_nat (TTMATH_BITS_PER_UINT - 1)))"

partial_function (option) FindLowestBit_loop :: "uint \<Rightarrow> uint \<Rightarrow> uint option" where
  "FindLowestBit_loop x b =
     (if x AND 1 = 0
      then FindLowestBit_loop (drop_bit 1 x) (b + 1)
      else Some b)"

declare FindLowestBit_loop.simps [code]

definition UInt_FindLowestBitInWord :: "uint \<Rightarrow> sint option" where
  "UInt_FindLowestBitInWord x = (if x = 0 then Some (- 1) else FindLowestBit_loop x 0)"

definition UInt_SetBitInWord :: "uint \<Rightarrow> nat \<Rightarrow> (uint \<times> uint) option" where
  "UInt_SetBitInWord v b =
     (if b < TTMATH_BITS_PER_UINT
      then let m = (if b > 0 then push_bit b 1 else 1);
               last = v AND m
           in Some (if last \<noteq> 0 then 1 else 0, v OR m)
      else None)"


lemma FindLeadingBit_loop_value:
  assumes "2 ^ k \<le> unat x" "unat x < 2 ^ Suc k" "k \<le> 63"
  shows "FindLeadingBit_loop x b = Some (b - of_nat (63 - k))"
  using assms
proof (induction "63 - k" arbitrary: k x b)
  case 0
  then have "k = 63" by simp
  with 0 have "bit x 63" by (simp add: bit_63_iff W_def)
  with \<open>k = 63\<close> show ?case
    by (subst FindLeadingBit_loop.simps) (simp add: and_highest_bit_eq_0_iff)
next
  case (Suc d)
  then have k: "Suc k \<le> 63" and d: "d = 63 - Suc k" by simp_all
  have lt: "unat x < 2 ^ 63"
    using Suc.prems(2) power_increasing [OF k, of "2 :: nat"] by linarith
  then have "unat (push_bit 1 x) = unat x * 2"
    by (simp only: push_bit_uint W_def) simp
  with Suc.prems have "2 ^ Suc k \<le> unat (push_bit 1 x)" "unat (push_bit 1 x) < 2 ^ Suc (Suc k)"
    by simp_all
  from Suc.hyps(1) [OF d this k]
  have "FindLeadingBit_loop (push_bit 1 x) (b - 1) = Some (b - 1 - of_nat (63 - Suc k))" .
  moreover have "\<not> bit x 63"
    using lt by (simp add: bit_63_iff W_def)
  moreover have "63 - k = Suc (63 - Suc k)"
    using k by simp
  ultimately show ?case
    by (subst FindLeadingBit_loop.simps) (simp add: and_highest_bit_eq_0_iff diff_diff_eq)
qed

lemma uint_leading_bit:
  assumes "(x :: uint) \<noteq> 0"
  obtains k where "2 ^ k \<le> unat x" "unat x < 2 ^ Suc k" "k \<le> 63"
proof -
  from assms have "1 \<le> unat x"
    by (simp add: Suc_le_eq unat_gt_0)
  then obtain k where k: "2 ^ k \<le> unat x" "unat x < 2 ^ (k + 1)"
    using ex_power_ivl1 [of 2 "unat x"] by auto
  have "k < 64"
  proof (rule ccontr)
    assume "\<not> k < 64"
    then have "(2 :: nat) ^ 64 \<le> 2 ^ k" by (intro power_increasing) simp_all
    with k unat_less_W [of x] show False by (simp add: W_def)
  qed
  with k show ?thesis by (intro that [of k]) simp_all
qed

lemma FindLeadingBitInWord_value:
  assumes "2 ^ k \<le> unat x" "unat x < 2 ^ Suc k" "k \<le> 63"
  shows "UInt_FindLeadingBitInWord x = Some (of_nat k)"
proof -
  have "x \<noteq> 0" using assms(1) by auto
  moreover have "(of_nat 63 :: uint) - of_nat (63 - k) = of_nat k"
    using assms(3) by (metis add_diff_cancel_left' diff_diff_cancel of_nat_add le_add_diff_inverse2)
  ultimately show ?thesis
    using FindLeadingBit_loop_value [OF assms]
    by (simp add: UInt_FindLeadingBitInWord_def TTMATH_BITS_PER_UINT_def)
qed

lemma FindLowestBit_loop_value:
  assumes "odd m" "unat x = 2 ^ k * m"
  shows "FindLowestBit_loop x b = Some (b + of_nat k)"
  using assms
proof (induction k arbitrary: x b)
  case 0
  then show ?case
    by (subst FindLowestBit_loop.simps) (simp add: and_1_eq_0_iff)
next
  case (Suc k)
  have "unat (drop_bit 1 x) = 2 ^ k * m"
    using Suc.prems by (simp add: drop_bit_uint)
  from Suc.IH [OF Suc.prems(1) this]
  have "FindLowestBit_loop (drop_bit 1 x) (b + 1) = Some (b + 1 + of_nat k)" .
  with Suc.prems(2) show ?case
    by (subst FindLowestBit_loop.simps) (simp add: and_1_eq_0_iff algebra_simps)
qed

lemma FindLowestBitInWord_value:
  assumes "odd m" "unat x = 2 ^ k * m"
  shows "UInt_FindLowestBitInWord x = Some (of_nat k)"
proof -
  have "x \<noteq> 0" using assms by (auto simp: odd_pos)
  then show ?thesis
    using FindLowestBit_loop_value [OF assms] by (simp add: UInt_FindLowestBitInWord_def)
qed

lemma SetBitInWord_value:
  assumes "b < 64"
  shows "UInt_SetBitInWord v b = Some (of_bool (bit v b), set_bit b v)"
proof -
  have m: "(if b > 0 then push_bit b 1 else 1) = (2 ^ b :: uint)"
    by (simp add: push_bit_eq_mult)
  have "v OR 2 ^ b = set_bit b v"
    by (simp only: set_bit_eq_or push_bit_of_1)
  moreover have "(v AND 2 ^ b \<noteq> 0) = bit v b"
    by (simp only: and_exp_eq_0_iff_not_bit not_not)
  ultimately show ?thesis
    using assms unfolding UInt_SetBitInWord_def m Let_def TTMATH_BITS_PER_UINT_def by simp
qed

section \<open>The two halves of a word\<close>

text \<open>
  The union \<^verbatim>\<open>uint_\<close> overlays one 64-bit word \<open>u\<close> with two 32-bit halves \<open>u_.low\<close> and
  \<open>u_.high\<close>. The model keeps \<open>u\<close>; reading and writing a half are functions on it.
\<close>

definition u_low :: "uint \<Rightarrow> uint32" where
  "u_low u = ucast u"

definition u_high :: "uint \<Rightarrow> uint32" where
  "u_high u = ucast (drop_bit 32 u)"

definition u_make :: "uint32 \<Rightarrow> uint32 \<Rightarrow> uint" where
  "u_make high low = push_bit 32 (ucast high) OR ucast low"

definition set_u_low :: "uint32 \<Rightarrow> uint \<Rightarrow> uint" where
  "set_u_low x u = u_make (u_high u) x"

definition set_u_high :: "uint32 \<Rightarrow> uint \<Rightarrow> uint" where
  "set_u_high x u = u_make x (u_low u)"

lemma unat_ucast_32_64 [simp]: "unat (ucast (h :: uint32) :: uint) = unat h"
  by (simp add: unsigned_ucast_eq take_bit_nat_eq_self_iff)
    (use unat_uint32_bound [of h] in simp)

lemma unat_u_low: "unat (u_low u) = unat u mod 2 ^ 32"
  by (simp only: u_low_def unsigned_ucast_eq take_bit_eq_mod) simp

lemma unat_u_high: "unat (u_high u) = unat u div 2 ^ 32"
proof -
  have "unat u div 2 ^ 32 < 2 ^ 32"
    using unat_uint_bound [of u] by simp
  then show ?thesis
    by (simp only: u_high_def unsigned_ucast_eq take_bit_eq_mod drop_bit_uint) simp
qed

lemma unat_u_make: "unat (u_make h l) = unat h * 2 ^ 32 + unat l"
proof -
  have "unat (ucast l :: uint) < 2 ^ 32"
    using unat_uint32_bound [of l] by simp
  then have "unat (u_make h l) = (unat (ucast h :: uint) * 2 ^ 32) mod W + unat (ucast l :: uint)"
    unfolding u_make_def by (rule unat_push_bit_or)
  moreover have "unat h * 2 ^ 32 < W"
    using unat_uint32_bound [of h] by (simp add: W_def)
  ultimately show ?thesis by simp
qed

lemma unat_halves: "unat u = unat (u_high u) * 2 ^ 32 + unat (u_low u)"
  by (simp only: unat_u_high unat_u_low div_mult_mod_eq)

section \<open>The double-word product\<close>

definition UInt_MulTwoWords :: "uint \<Rightarrow> uint \<Rightarrow> uint \<times> uint" where
  "UInt_MulTwoWords a b =
     (let res_low1 = ucast (u_low b) * ucast (u_low a);
          temp = ucast (u_high res_low1) + ucast (u_low b) * ucast (u_high a);
          res_low1 = set_u_high (u_low temp) res_low1;
          res_high1 = u_make 0 (u_high temp);
          temp = ucast (u_high b) * ucast (u_low a);
          res_low2 = u_make (u_low temp) 0;
          res_high2 = ucast (u_high b) * ucast (u_high a) + ucast (u_high temp);
          (c, res_low2) = UInt_AddTwoWords res_low1 res_low2 0;
          (_, res_high2) = UInt_AddTwoWords res_high1 res_high2 c
      in (res_high2, res_low2))"

lemma half_product_bound:
  "unat (x :: uint32) * unat (y :: uint32) \<le> 18446744065119617025"
  using mult_le_mono [of "unat x" 4294967295 "unat y" 4294967295]
    unat_uint32_bound [of x] unat_uint32_bound [of y] by simp

lemma unat_half_mult:
  "unat ((ucast (x :: uint32) :: uint) * ucast (y :: uint32)) = unat x * unat y"
proof -
  have "unat (ucast x :: uint) * unat (ucast y :: uint) < 2 ^ LENGTH(64)"
    using half_product_bound [of x y] by simp
  then show ?thesis
    by (simp only: unat_mult_lem) simp
qed

lemma unat_half_mult_add:
  "unat ((ucast (z :: uint32) :: uint) + ucast (x :: uint32) * ucast (y :: uint32))
     = unat z + unat x * unat y"
proof -
  have "unat (ucast z :: uint) + unat ((ucast x :: uint) * ucast y) < 2 ^ LENGTH(64)"
    using half_product_bound [of x y] unat_uint32_bound [of z] by (simp add: unat_half_mult)
  then show ?thesis
    by (simp only: unat_add_lem) (simp add: unat_half_mult)
qed

lemma half_sums_algebra:
  fixes n :: nat
  assumes "n * td + tm = p0d + p1" "n * p2d + p2m = p2" "n * p0d + p0m = p0"
  shows "(tm * n + p0m) + p2m * n + n * n * (td + (p3 + p2d)) = p0 + n * p1 + n * p2 + n * n * p3"
proof -
  have "n * (n * td + tm) = n * (p0d + p1)" by (simp only: assms(1))
  then show ?thesis
    by (simp add: algebra_simps flip: assms(2,3))
qed

lemma half_sums:
  fixes n p0 p1 p2 p3 :: nat
  defines "t \<equiv> p0 div n + p1"
  shows "((t mod n) * n + p0 mod n) + (p2 mod n) * n + n * n * (t div n + (p3 + p2 div n))
     = p0 + n * p1 + n * p2 + n * n * p3"
  by (rule half_sums_algebra [of n "t div n" _ "p0 div n"]) (simp_all only: mult_div_mod_eq t_def)

lemma MulTwoWords_value:
  assumes "UInt_MulTwoWords a b = (hi, lo)"
  shows "unat lo + W * unat hi = unat a * unat b"
proof -
  let ?ah = "unat (u_high a)" and ?al = "unat (u_low a)"
  let ?bh = "unat (u_high b)" and ?bl = "unat (u_low b)"
  define low1 :: uint where "low1 = ucast (u_low b) * ucast (u_low a)"
  define temp :: uint where "temp = ucast (u_high low1) + ucast (u_low b) * ucast (u_high a)"
  define temp2 :: uint where "temp2 = ucast (u_high b) * ucast (u_low a)"
  define high2 :: uint where "high2 = ucast (u_high b) * ucast (u_high a) + ucast (u_high temp2)"
  obtain c lo' c2 hi' where
    lo: "UInt_AddTwoWords (set_u_high (u_low temp) low1) (u_make (u_low temp2) 0) 0 = (c, lo')" and
    hi: "UInt_AddTwoWords (u_make 0 (u_high temp)) high2 c = (c2, hi')"
    by (metis surj_pair)
  have res: "hi = hi'" "lo = lo'"
    using assms lo hi
    by (simp_all add: UInt_MulTwoWords_def Let_def flip: low1_def temp_def temp2_def high2_def)
  have low1: "unat low1 = ?bl * ?al"
    by (simp add: low1_def unat_half_mult)
  have temp: "unat temp = ?bl * ?al div 2 ^ 32 + ?bl * ?ah"
    by (simp only: temp_def unat_half_mult_add unat_u_high low1)
  have temp2: "unat temp2 = ?bh * ?al"
    by (simp add: temp2_def unat_half_mult)
  have high2: "unat high2 = ?bh * ?ah + ?bh * ?al div 2 ^ 32"
    unfolding high2_def by (subst add.commute) (simp only: unat_half_mult_add unat_u_high temp2 add.commute)
  have "unat lo + W * unat c = unat temp mod 2 ^ 32 * 2 ^ 32 + unat low1 mod 2 ^ 32
      + unat temp2 mod 2 ^ 32 * 2 ^ 32"
    using AddTwoWords_value [OF lo]
    by (simp add: res set_u_high_def unat_u_make unat_u_low)
  moreover have "unat hi + W * unat c2 = unat temp div 2 ^ 32 + unat high2 + unat c"
    using AddTwoWords_value [OF hi] AddTwoWords_carry [OF lo]
    by (auto simp: res unat_u_make unat_u_high)
  ultimately have "unat lo + W * unat hi + W * W * unat c2
      = (unat temp mod 2 ^ 32 * 2 ^ 32 + unat low1 mod 2 ^ 32)
        + unat temp2 mod 2 ^ 32 * 2 ^ 32 + W * (unat temp div 2 ^ 32 + unat high2)"
    by (rule carry_chain)
  also have "\<dots> = ?bl * ?al + 2 ^ 32 * (?bl * ?ah) + 2 ^ 32 * (?bh * ?al) + 2 ^ 64 * (?bh * ?ah)"
    using half_sums [of "?bl * ?al" "2 ^ 32" "?bl * ?ah" "?bh * ?al" "?bh * ?ah"]
    unfolding temp high2 temp2 low1 W_def by (simp add: ac_simps)
  also have "\<dots> = unat a * unat b"
    unfolding unat_halves [of a] unat_halves [of b] by (simp add: algebra_simps)
  finally have eq: "unat lo + W * unat hi + W * W * unat c2 = unat a * unat b" .
  moreover have "unat a * unat b < W * W"
    by (intro mult_strict_mono) simp_all
  ultimately have "W * W * unat c2 < W * W * 1" by linarith
  then have "unat c2 = 0" by (simp only: mult_less_cancel1) simp
  with eq show ?thesis by simp
qed

end
