(* ===== verification/UInt_Vectors.thy ===== *)
theory UInt_Vectors
  imports UInt_Words
begin

text \<open>
  The loops of \<^verbatim>\<open>ttmathuint_noasm.h\<close> over a table of words: addition and subtraction of
  tables, of one word or two words at an index, of vectors of different sizes, and the
  shifts by one bit and by fewer bits than a word. Loops that run upwards recurse on the
  table, loops that run downwards on the reversed table. A pointer to the middle of a
  table with a size is the list of the words it spans.
\<close>

section \<open>Addition\<close>

fun AddWords_loop :: "utable \<Rightarrow> utable \<Rightarrow> uint \<Rightarrow> uint \<times> utable" where
  "AddWords_loop [] ys c = (c, [])"
| "AddWords_loop (x # xs) [] c =
     (let (c, r) = UInt_AddTwoWords x 0 c; (c, rs) = AddWords_loop xs [] c in (c, r # rs))"
| "AddWords_loop (x # xs) (y # ys) c =
     (let (c, r) = UInt_AddTwoWords x y c; (c, rs) = AddWords_loop xs ys c in (c, r # rs))"

definition UInt_Add :: "utable \<Rightarrow> utable \<Rightarrow> uint \<Rightarrow> uint \<times> utable" where
  "UInt_Add table ss2 c = AddWords_loop table ss2 c"

definition UInt_AddVector :: "utable \<Rightarrow> utable \<Rightarrow> (uint \<times> utable) option" where
  "UInt_AddVector ss1 ss2 =
     (if length ss1 \<ge> length ss2 then Some (AddWords_loop ss1 ss2 0) else None)"

fun AddCarry_loop :: "utable \<Rightarrow> uint \<Rightarrow> uint \<times> utable" where
  "AddCarry_loop [] c = (c, [])"
| "AddCarry_loop (x # xs) c =
     (if c = 0 then (c, x # xs)
      else let (c, r) = UInt_AddTwoWords x 0 c; (c, rs) = AddCarry_loop xs c in (c, r # rs))"

definition UInt_AddInt :: "utable \<Rightarrow> uint \<Rightarrow> nat \<Rightarrow> (uint \<times> utable) option" where
  "UInt_AddInt table v index =
     (if index < length table
      then let (c, r) = UInt_AddTwoWords (table ! index) v 0;
               (c, rs) = AddCarry_loop (drop (index + 1) table) c
           in Some (c, take index table @ r # rs)
      else None)"

definition UInt_AddTwoInts :: "utable \<Rightarrow> uint \<Rightarrow> uint \<Rightarrow> nat \<Rightarrow> (uint \<times> utable) option" where
  "UInt_AddTwoInts table x2 x1 index =
     (if index < length table - 1
      then let (c, r1) = UInt_AddTwoWords (table ! index) x1 0;
               (c, r2) = UInt_AddTwoWords (table ! (index + 1)) x2 c;
               (c, rs) = AddCarry_loop (drop (index + 2) table) c
           in Some (c, take index table @ r1 # r2 # rs)
      else None)"

lemma length_AddWords_loop: "AddWords_loop xs ys c = (c', rs) \<Longrightarrow> length rs = length xs"
  by (induction xs ys c arbitrary: c' rs rule: AddWords_loop.induct)
    (auto simp: Let_def split: prod.splits)

lemma AddWords_loop_value:
  "AddWords_loop xs ys c = (c', rs) \<Longrightarrow> length ys \<le> length xs \<Longrightarrow> c = 0 \<or> c = 1 \<Longrightarrow>
   uval rs + W ^ length xs * unat c' = uval xs + uval ys + unat c \<and> (c' = 0 \<or> c' = 1)"
proof (induction xs ys c arbitrary: c' rs rule: AddWords_loop.induct)
  case (2 x xs c)
  obtain c1 r where 1: "UInt_AddTwoWords x 0 c = (c1, r)" by (metis surj_pair)
  obtain c2 rs' where 2: "AddWords_loop xs [] c1 = (c2, rs')" by (metis surj_pair)
  have eq: "c' = c2" "rs = r # rs'" using "2.prems"(1) 1 2 by simp_all
  have IH: "uval rs' + W ^ length xs * unat c2 = uval xs + unat c1 \<and> (c2 = 0 \<or> c2 = 1)"
    using "2.IH" [OF 1 [symmetric] refl 2] AddTwoWords_carry [OF 1] by simp
  have "unat r + W * unat c1 = unat x + unat c"
    using AddTwoWords_value [OF 1] "2.prems"(3) by auto
  from carry_chain [OF this conjunct1 [OF IH]] IH show ?case
    by (simp add: eq algebra_simps)
next
  case (3 x xs y ys c)
  obtain c1 r where 1: "UInt_AddTwoWords x y c = (c1, r)" by (metis surj_pair)
  obtain c2 rs' where 2: "AddWords_loop xs ys c1 = (c2, rs')" by (metis surj_pair)
  have eq: "c' = c2" "rs = r # rs'" using "3.prems"(1) 1 2 by simp_all
  have IH: "uval rs' + W ^ length xs * unat c2 = (uval xs + uval ys) + unat c1 \<and> (c2 = 0 \<or> c2 = 1)"
    using "3.IH" [OF 1 [symmetric] refl 2] AddTwoWords_carry [OF 1] "3.prems"(2) by simp
  have "unat r + W * unat c1 = unat x + unat y + unat c"
    using AddTwoWords_value [OF 1] "3.prems"(3) by auto
  from carry_chain [OF this conjunct1 [OF IH]] IH show ?case
    by (simp add: eq algebra_simps)
qed auto

lemma AddTwoWords_normal: "c \<noteq> 0 \<Longrightarrow> UInt_AddTwoWords a b c = UInt_AddTwoWords a b 1"
  by (simp add: UInt_AddTwoWords_def)

lemma AddWords_loop_normal:
  "xs \<noteq> [] \<Longrightarrow> c \<noteq> 0 \<Longrightarrow> AddWords_loop xs ys c = AddWords_loop xs ys 1"
  by (cases xs; cases ys) (simp_all add: AddTwoWords_normal [of c])

lemma AddWords_loop_result:
  assumes "length ys \<le> length xs" "xs \<noteq> [] \<or> c = 0"
  shows "AddWords_loop xs ys c = carry_result (length xs) (uval xs + uval ys + of_bool (c \<noteq> 0))"
proof -
  define d :: uint where "d = of_bool (c \<noteq> 0)"
  have d: "AddWords_loop xs ys c = AddWords_loop xs ys d" "d = 0 \<or> d = 1" "unat d = of_bool (c \<noteq> 0)"
    using assms(2) AddWords_loop_normal [of xs c ys] by (auto simp: d_def)
  obtain c' rs where eq: "AddWords_loop xs ys d = (c', rs)" by (metis surj_pair)
  have "uval rs + W ^ length xs * unat c' = uval xs + uval ys + of_bool (c \<noteq> 0)"
    using AddWords_loop_value [OF eq assms(1) d(2)] by (simp only: d(3))
  from carry_resultI [OF length_AddWords_loop [OF eq] this] show ?thesis
    using eq d(1) by simp
qed

lemma Add_result:
  assumes "length ss2 = length table" "table \<noteq> []"
  shows "UInt_Add table ss2 c = carry_result (length table) (uval table + uval ss2 + of_bool (c \<noteq> 0))"
  using assms by (simp add: UInt_Add_def AddWords_loop_result)

lemma AddVector_result:
  assumes "length ss2 \<le> length ss1"
  shows "UInt_AddVector ss1 ss2 = Some (carry_result (length ss1) (uval ss1 + uval ss2))"
  using assms by (simp add: UInt_AddVector_def AddWords_loop_result)

lemma AddCarry_loop_eq: "AddCarry_loop xs c = AddWords_loop xs [] c"
proof (induction xs arbitrary: c)
  case (Cons x xs)
  have "AddWords_loop xs [] 0 = (0, xs)"
  proof (induction xs)
    case (Cons a xs)
    then show ?case by (simp add: UInt_AddTwoWords_def)
  qed simp
  moreover have "UInt_AddTwoWords x 0 0 = (0, x)"
    by (simp add: UInt_AddTwoWords_def)
  ultimately show ?case
    by (simp add: Cons.IH)
qed simp

lemma AddInt_result:
  assumes "i < length t"
  shows "UInt_AddInt t v i = Some (carry_result (length t) (uval t + W ^ i * unat v))"
proof -
  obtain c r where 1: "UInt_AddTwoWords (t ! i) v 0 = (c, r)" by (metis surj_pair)
  obtain c' rs where 2: "AddCarry_loop (drop (Suc i) t) c = (c', rs)" by (metis surj_pair)
  have len: "length rs = length t - Suc i"
    using length_AddWords_loop [OF 2 [unfolded AddCarry_loop_eq]] by simp
  have "unat r + W * unat c = unat (t ! i) + unat v"
    using AddTwoWords_value [OF 1] by simp
  moreover have "uval rs + W ^ (length t - Suc i) * unat c' = uval (drop (Suc i) t) + unat c"
    using AddWords_loop_value [OF 2 [unfolded AddCarry_loop_eq]] AddTwoWords_carry [OF 1] by simp
  ultimately have "unat r + W * uval rs + W * W ^ (length t - Suc i) * unat c'
      = unat (t ! i) + unat v + W * uval (drop (Suc i) t)"
    by (rule carry_chain)
  then have "uval (r # rs) + W ^ (length t - i) * unat c' = uval (drop i t) + unat v"
    using assms by (simp add: Cons_nth_drop_Suc [symmetric] Suc_diff_Suc flip: power_Suc)
  from uval_offset_add [OF less_imp_le [OF assms] this]
  have "uval (take i t @ r # rs) + W ^ length t * unat c' = uval t + W ^ i * unat v" .
  from carry_resultI [OF _ this] assms 1 2 len show ?thesis
    by (simp add: UInt_AddInt_def)
qed

lemma AddTwoInts_result:
  assumes "Suc i < length t"
  shows "UInt_AddTwoInts t x2 x1 i
    = Some (carry_result (length t) (uval t + W ^ i * (unat x1 + W * unat x2)))"
proof -
  have split: "drop i t = t ! i # t ! Suc i # drop (i + 2) t"
    using assms by (simp add: Cons_nth_drop_Suc)
  let ?l = "AddWords_loop (drop i t) [x1, x2] 0"
  obtain c rs where l: "?l = (c, rs)" by (metis surj_pair)
  have def: "UInt_AddTwoInts t x2 x1 i = Some (c, take i t @ rs)"
    using assms l unfolding split
    by (auto simp: UInt_AddTwoInts_def AddCarry_loop_eq split: prod.splits)
  have "uval rs + W ^ (length t - i) * unat c = uval (drop i t) + (unat x1 + W * unat x2)"
    using AddWords_loop_value [OF l] assms by simp
  from uval_offset_add [OF _ this]
  have "uval (take i t @ rs) + W ^ length t * unat c = uval t + W ^ i * (unat x1 + W * unat x2)"
    using assms by simp
  from carry_resultI [OF _ this] assms length_AddWords_loop [OF l] show ?thesis
    by (simp add: def)
qed

section \<open>Subtraction\<close>

fun SubWords_loop :: "utable \<Rightarrow> utable \<Rightarrow> uint \<Rightarrow> uint \<times> utable" where
  "SubWords_loop [] ys c = (c, [])"
| "SubWords_loop (x # xs) [] c =
     (let (c, r) = UInt_SubTwoWords x 0 c; (c, rs) = SubWords_loop xs [] c in (c, r # rs))"
| "SubWords_loop (x # xs) (y # ys) c =
     (let (c, r) = UInt_SubTwoWords x y c; (c, rs) = SubWords_loop xs ys c in (c, r # rs))"

definition UInt_Sub :: "utable \<Rightarrow> utable \<Rightarrow> uint \<Rightarrow> uint \<times> utable" where
  "UInt_Sub table ss2 c = SubWords_loop table ss2 c"

definition UInt_SubVector :: "utable \<Rightarrow> utable \<Rightarrow> (uint \<times> utable) option" where
  "UInt_SubVector ss1 ss2 =
     (if length ss1 \<ge> length ss2 then Some (SubWords_loop ss1 ss2 0) else None)"

fun SubCarry_loop :: "utable \<Rightarrow> uint \<Rightarrow> uint \<times> utable" where
  "SubCarry_loop [] c = (c, [])"
| "SubCarry_loop (x # xs) c =
     (if c = 0 then (c, x # xs)
      else let (c, r) = UInt_SubTwoWords x 0 c; (c, rs) = SubCarry_loop xs c in (c, r # rs))"

definition UInt_SubInt :: "utable \<Rightarrow> uint \<Rightarrow> nat \<Rightarrow> (uint \<times> utable) option" where
  "UInt_SubInt table v index =
     (if index < length table
      then let (c, r) = UInt_SubTwoWords (table ! index) v 0;
               (c, rs) = SubCarry_loop (drop (index + 1) table) c
           in Some (c, take index table @ r # rs)
      else None)"

lemma length_SubWords_loop: "SubWords_loop xs ys c = (c', rs) \<Longrightarrow> length rs = length xs"
  by (induction xs ys c arbitrary: c' rs rule: SubWords_loop.induct)
    (auto simp: Let_def split: prod.splits)

lemma SubWords_loop_value:
  "SubWords_loop xs ys c = (c', rs) \<Longrightarrow> length ys \<le> length xs \<Longrightarrow> c = 0 \<or> c = 1 \<Longrightarrow>
   uval rs + uval ys + unat c = uval xs + W ^ length xs * unat c' \<and> (c' = 0 \<or> c' = 1)"
proof (induction xs ys c arbitrary: c' rs rule: SubWords_loop.induct)
  case (2 x xs c)
  obtain c1 r where 1: "UInt_SubTwoWords x 0 c = (c1, r)" by (metis surj_pair)
  obtain c2 rs' where 2: "SubWords_loop xs [] c1 = (c2, rs')" by (metis surj_pair)
  have eq: "c' = c2" "rs = r # rs'" using "2.prems"(1) 1 2 by simp_all
  have IH: "uval rs' + 0 + unat c1 = uval xs + W ^ length xs * unat c2 \<and> (c2 = 0 \<or> c2 = 1)"
    using "2.IH" [OF 1 [symmetric] refl 2] SubTwoWords_carry [OF 1] by simp
  have "unat r + unat c = unat x + W * unat c1"
    using SubTwoWords_value [OF 1] "2.prems"(3) by auto
  from borrow_chain [OF this conjunct1 [OF IH]] IH show ?case
    by (simp add: eq algebra_simps)
next
  case (3 x xs y ys c)
  obtain c1 r where 1: "UInt_SubTwoWords x y c = (c1, r)" by (metis surj_pair)
  obtain c2 rs' where 2: "SubWords_loop xs ys c1 = (c2, rs')" by (metis surj_pair)
  have eq: "c' = c2" "rs = r # rs'" using "3.prems"(1) 1 2 by simp_all
  have IH: "uval rs' + uval ys + unat c1 = uval xs + W ^ length xs * unat c2 \<and> (c2 = 0 \<or> c2 = 1)"
    using "3.IH" [OF 1 [symmetric] refl 2] SubTwoWords_carry [OF 1] "3.prems"(2) by simp
  have "unat r + (unat y + unat c) = unat x + W * unat c1"
    using SubTwoWords_value [OF 1] "3.prems"(3) by auto
  from borrow_chain [OF this conjunct1 [OF IH]] IH show ?case
    by (simp add: eq algebra_simps)
qed auto

lemma SubTwoWords_normal: "c \<noteq> 0 \<Longrightarrow> UInt_SubTwoWords a b c = UInt_SubTwoWords a b 1"
  by (simp add: UInt_SubTwoWords_def)

lemma SubWords_loop_normal:
  "xs \<noteq> [] \<Longrightarrow> c \<noteq> 0 \<Longrightarrow> SubWords_loop xs ys c = SubWords_loop xs ys 1"
  by (cases xs; cases ys) (simp_all add: SubTwoWords_normal [of c])

lemma SubWords_loop_result:
  assumes "length ys \<le> length xs" "xs \<noteq> [] \<or> c = 0"
  shows "SubWords_loop xs ys c = borrow_result (length xs) (uval xs) (uval ys + of_bool (c \<noteq> 0))"
proof -
  define d :: uint where "d = of_bool (c \<noteq> 0)"
  have d: "SubWords_loop xs ys c = SubWords_loop xs ys d" "d = 0 \<or> d = 1" "unat d = of_bool (c \<noteq> 0)"
    using assms(2) SubWords_loop_normal [of xs c ys] by (auto simp: d_def)
  obtain c' rs where eq: "SubWords_loop xs ys d = (c', rs)" by (metis surj_pair)
  have "uval rs + (uval ys + of_bool (c \<noteq> 0)) = uval xs + W ^ length xs * unat c'" "c' = 0 \<or> c' = 1"
    using SubWords_loop_value [OF eq assms(1) d(2)] by (simp_all add: d(3))
  from borrow_resultI [OF length_SubWords_loop [OF eq] this uval_less] show ?thesis
    using eq d(1) by simp
qed

lemma Sub_result:
  assumes "length ss2 = length table" "table \<noteq> []"
  shows "UInt_Sub table ss2 c = borrow_result (length table) (uval table) (uval ss2 + of_bool (c \<noteq> 0))"
  using assms by (simp add: UInt_Sub_def SubWords_loop_result)

lemma SubVector_result:
  assumes "length ss2 \<le> length ss1"
  shows "UInt_SubVector ss1 ss2 = Some (borrow_result (length ss1) (uval ss1) (uval ss2))"
  using assms by (simp add: UInt_SubVector_def SubWords_loop_result)

lemma SubCarry_loop_eq: "SubCarry_loop xs c = SubWords_loop xs [] c"
proof (induction xs arbitrary: c)
  case (Cons x xs)
  have "SubWords_loop xs [] 0 = (0, xs)"
  proof (induction xs)
    case (Cons a xs)
    then show ?case by (simp add: UInt_SubTwoWords_def)
  qed simp
  moreover have "UInt_SubTwoWords x 0 0 = (0, x)"
    by (simp add: UInt_SubTwoWords_def)
  ultimately show ?case
    by (simp add: Cons.IH)
qed simp

lemma SubInt_result:
  assumes "i < length t"
  shows "UInt_SubInt t v i = Some (borrow_result (length t) (uval t) (W ^ i * unat v))"
proof -
  have split: "drop i t = t ! i # drop (Suc i) t"
    using assms by (simp add: Cons_nth_drop_Suc)
  obtain c rs where l: "SubWords_loop (drop i t) [v] 0 = (c, rs)" by (metis surj_pair)
  have def: "UInt_SubInt t v i = Some (c, take i t @ rs)"
    using assms l unfolding split
    by (auto simp: UInt_SubInt_def SubCarry_loop_eq split: prod.splits)
  have v: "uval rs + unat v = uval (drop i t) + W ^ (length t - i) * unat c" and c: "c = 0 \<or> c = 1"
    using SubWords_loop_value [OF l] assms by simp_all
  from uval_offset_sub [OF less_imp_le [OF assms] v]
  have "uval (take i t @ rs) + W ^ i * unat v = uval t + W ^ length t * unat c" .
  from borrow_resultI [OF _ this c uval_less] assms length_SubWords_loop [OF l] show ?thesis
    by (simp add: def)
qed

end
