(* ===== verification/UInt_Shifts.thy ===== *)
theory UInt_Shifts
  imports UInt_Vectors
begin

text \<open>
  The shifts of the class \<^verbatim>\<open>UInt\<close>: by one bit and by fewer bits than a word
  (\<^verbatim>\<open>ttmathuint_noasm.h\<close>), by whole words and by any number of bits
  (\<^verbatim>\<open>ttmathuint.h\<close>). The results are given in closed form: a shift to the left is a
  multiplication by a power of two that fills the free places with the carry, a shift to the
  right a division.
\<close>

section \<open>Shifts by less than a word\<close>

fun Rcl2_one_loop :: "utable \<Rightarrow> uint \<Rightarrow> uint \<times> utable" where
  "Rcl2_one_loop [] c = (c, [])"
| "Rcl2_one_loop (x # xs) c =
     (let new_c = (if x AND TTMATH_UINT_HIGHEST_BIT \<noteq> 0 then 1 else 0);
          (c', rs) = Rcl2_one_loop xs new_c
      in (c', (push_bit 1 x OR c) # rs))"

definition UInt_Rcl2_one :: "utable \<Rightarrow> uint \<Rightarrow> uint \<times> utable" where
  "UInt_Rcl2_one table c = Rcl2_one_loop table (if c \<noteq> 0 then 1 else c)"

fun Rcr2_one_loop :: "utable \<Rightarrow> uint \<Rightarrow> uint \<times> utable" where
  "Rcr2_one_loop [] c = (c, [])"
| "Rcr2_one_loop (x # xs) c =
     (let new_c = (if x AND 1 \<noteq> 0 then TTMATH_UINT_HIGHEST_BIT else 0);
          (c', rs) = Rcr2_one_loop xs new_c
      in (c', (drop_bit 1 x OR c) # rs))"

definition UInt_Rcr2_one :: "utable \<Rightarrow> uint \<Rightarrow> uint \<times> utable" where
  "UInt_Rcr2_one table c =
     (let (c, rs) = Rcr2_one_loop (rev table) (if c \<noteq> 0 then TTMATH_UINT_HIGHEST_BIT else c)
      in (if c \<noteq> 0 then 1 else 0, rev rs))"

fun Rcl2_loop :: "nat \<Rightarrow> utable \<Rightarrow> uint \<Rightarrow> uint \<times> utable" where
  "Rcl2_loop bits [] c = (c, [])"
| "Rcl2_loop bits (x # xs) c =
     (let new_c = drop_bit (TTMATH_BITS_PER_UINT - bits) x;
          (c', rs) = Rcl2_loop bits xs new_c
      in (c', (push_bit bits x OR c) # rs))"

definition UInt_Rcl2 :: "utable \<Rightarrow> nat \<Rightarrow> uint \<Rightarrow> (uint \<times> utable) option" where
  "UInt_Rcl2 table bits c =
     (if bits > 0 \<and> bits < TTMATH_BITS_PER_UINT
      then let move = TTMATH_BITS_PER_UINT - bits;
               (c, rs) = Rcl2_loop bits table
                 (if c \<noteq> 0 then drop_bit move TTMATH_UINT_MAX_VALUE else c)
           in Some (c AND 1, rs)
      else None)"

fun Rcr2_loop :: "nat \<Rightarrow> utable \<Rightarrow> uint \<Rightarrow> uint \<times> utable" where
  "Rcr2_loop bits [] c = (c, [])"
| "Rcr2_loop bits (x # xs) c =
     (let new_c = push_bit (TTMATH_BITS_PER_UINT - bits) x;
          (c', rs) = Rcr2_loop bits xs new_c
      in (c', (drop_bit bits x OR c) # rs))"

definition UInt_Rcr2 :: "utable \<Rightarrow> nat \<Rightarrow> uint \<Rightarrow> (uint \<times> utable) option" where
  "UInt_Rcr2 table bits c =
     (if bits > 0 \<and> bits < TTMATH_BITS_PER_UINT
      then let move = TTMATH_BITS_PER_UINT - bits;
               (c, rs) = Rcr2_loop bits (rev table)
                 (if c \<noteq> 0 then push_bit move TTMATH_UINT_MAX_VALUE else c)
           in Some (if c AND TTMATH_UINT_HIGHEST_BIT \<noteq> 0 then 1 else 0, rev rs)
      else None)"

lemma length_Rcl2_loop: "Rcl2_loop b xs c = (c', rs) \<Longrightarrow> length rs = length xs"
  by (induction b xs c arbitrary: c' rs rule: Rcl2_loop.induct)
    (auto simp: Let_def split: prod.splits)

lemma length_Rcr2_loop: "Rcr2_loop b xs c = (c', rs) \<Longrightarrow> length rs = length xs"
  by (induction b xs c arbitrary: c' rs rule: Rcr2_loop.induct)
    (auto simp: Let_def split: prod.splits)

text \<open>The value of the fill bits: all ones when the carry is set.\<close>

definition fill_bits :: "nat \<Rightarrow> uint \<Rightarrow> nat" where
  "fill_bits b c = of_bool (c \<noteq> 0) * (2 ^ b - 1)"

lemma fill_bits_less: "fill_bits b c < 2 ^ b"
  by (simp add: fill_bits_def)

lemma W_split: "b \<le> 64 \<Longrightarrow> W = 2 ^ b * 2 ^ (64 - b)"
  by (simp add: W_def flip: power_add)

lemma Rcl2_loop_value:
  "Rcl2_loop b xs c = (c', rs) \<Longrightarrow> b \<le> 64 \<Longrightarrow> unat c < 2 ^ b \<Longrightarrow>
   uval rs + W ^ length xs * unat c' = uval xs * 2 ^ b + unat c \<and> unat c' < 2 ^ b"
proof (induction b xs c arbitrary: c' rs rule: Rcl2_loop.induct)
  case (2 b x xs c)
  let ?n = "drop_bit (64 - b) x"
  obtain rs' where rec: "Rcl2_loop b xs ?n = (c', rs')" and rs: "rs = (push_bit b x OR c) # rs'"
    using "2.prems"(1) by (auto simp: TTMATH_BITS_PER_UINT_def split: prod.splits)
  note W = W_split [OF "2.prems"(2)]
  have n: "unat ?n = unat x * 2 ^ b div W"
    unfolding W by (simp add: drop_bit_uint mult.commute [of "unat x"])
  have "unat x * 2 ^ b < W * 2 ^ b" by simp
  then have "unat ?n < 2 ^ b"
    unfolding n by (simp add: less_mult_imp_div_less mult.commute)
  from "2.IH" [OF _ rec [symmetric, symmetric] "2.prems"(2) this] rec
  have IH: "uval rs' + W ^ length xs * unat c' = uval xs * 2 ^ b + unat ?n \<and> unat c' < 2 ^ b"
    by (simp add: TTMATH_BITS_PER_UINT_def)
  have "unat (push_bit b x OR c) + W * unat ?n = unat x * 2 ^ b + unat c"
    using unat_push_bit_or [OF "2.prems"(3), of x] by (simp add: n)
  from carry_chain [OF this conjunct1 [OF IH]] IH rs show ?case
    by (simp add: algebra_simps)
qed auto

lemma drop_or_high:
  assumes "b \<le> 64" "unat (c :: uint) = cc * 2 ^ (64 - b)"
  shows "unat (drop_bit b x OR c) = unat x div 2 ^ b + unat c"
proof -
  have "c = of_nat (cc * 2 ^ (64 - b))"
    by (simp only: assms(2) [symmetric] of_nat_unat) simp
  then have "c = push_bit (64 - b) (of_nat cc)"
    by (simp add: push_bit_eq_mult)
  moreover have "unat (drop_bit b x) < 2 ^ (64 - b)"
    using unat_less_W [of x] unfolding W_split [OF assms(1)] drop_bit_uint
    by (simp add: less_mult_imp_div_less mult.commute)
  ultimately have "c AND drop_bit b x = 0"
    using push_bit_and_small by blast
  from unat_or_disjoint [OF this] show ?thesis
    by (simp add: or.commute drop_bit_uint)
qed

lemma Rcr2_loop_value:
  "Rcr2_loop b xs c = (c', rs) \<Longrightarrow> b \<le> 64 \<Longrightarrow> unat c = cc * 2 ^ (64 - b) \<Longrightarrow> cc < 2 ^ b \<Longrightarrow>
   \<exists>cc'. 2 ^ b * uval (rev rs) + cc' = uval (rev xs) + W ^ length xs * cc \<and>
     unat c' = cc' * 2 ^ (64 - b) \<and> cc' < 2 ^ b"
proof (induction b xs c arbitrary: c' rs cc rule: Rcr2_loop.induct)
  case (2 b x xs c)
  let ?n = "push_bit (64 - b) x" and ?m = "unat x mod 2 ^ b"
  obtain rs' where rec: "Rcr2_loop b xs ?n = (c', rs')" and rs: "rs = (drop_bit b x OR c) # rs'"
    using "2.prems"(1) by (auto simp: TTMATH_BITS_PER_UINT_def split: prod.splits)
  note W = W_split [OF "2.prems"(2)]
  have "unat ?n = ?m * 2 ^ (64 - b)"
    by (simp only: push_bit_uint W mult_mod_left)
  from "2.IH" [OF _ _ "2.prems"(2) this] rec obtain cc' where
    IH: "2 ^ b * uval (rev rs') + cc' = uval (rev xs) + W ^ length xs * ?m"
      "unat c' = cc' * 2 ^ (64 - b)" "cc' < 2 ^ b"
    by (auto simp: TTMATH_BITS_PER_UINT_def)
  have "2 ^ b * unat c = W * cc"
    unfolding "2.prems"(3) W by simp
  then have x: "2 ^ b * unat (drop_bit b x OR c) + ?m = unat x + W * cc"
    using drop_or_high [OF "2.prems"(2,3), of x] mult_div_mod_eq [of "2 ^ b" "unat x"]
    by (simp add: distrib_left)
  have "2 ^ b * uval (rev rs) + cc' = uval (rev (x # xs)) + W ^ length (x # xs) * cc"
    using IH(1) arg_cong [OF x, of "\<lambda>z. W ^ length xs * z"] length_Rcr2_loop [OF rec]
    by (simp add: rs uval_append algebra_simps)
  with IH show ?case by blast
qed auto

lemma Rcl2_one_loop_eq: "Rcl2_one_loop xs c = Rcl2_loop 1 xs c"
proof (induction xs arbitrary: c)
  case (Cons x xs)
  have "drop_bit 63 x = of_bool (bit x 63)"
  proof (rule bit_word_eqI)
    fix n assume "n < LENGTH(64)"
    then show "bit (drop_bit 63 x) n = bit (of_bool (bit x 63) :: uint) n"
      by (cases "n = 0") (auto simp: bit_drop_bit_eq bit_1_iff dest: bit_imp_le_length)
  qed
  with Cons show ?case
    by (simp add: TTMATH_BITS_PER_UINT_def and_highest_bit_iff)
qed simp

lemma Rcr2_one_loop_eq: "Rcr2_one_loop xs c = Rcr2_loop 1 xs c"
proof (induction xs arbitrary: c)
  case (Cons x xs)
  have "push_bit 63 x = (if x AND 1 \<noteq> 0 then TTMATH_UINT_HIGHEST_BIT else 0)"
  proof (rule bit_word_eqI)
    fix n assume "n < LENGTH(64)"
    moreover have "(x AND 1 \<noteq> 0) = bit x 0"
      by (simp add: and_one_eq bit_0 mod2_eq_if)
    ultimately show "bit (push_bit 63 x) n
        = bit (if x AND 1 \<noteq> 0 then TTMATH_UINT_HIGHEST_BIT else 0) n"
      unfolding highest_bit_power by (auto simp only: bit_simps split: if_splits) auto
  qed
  with Cons show ?case
    by (simp add: TTMATH_BITS_PER_UINT_def)
qed simp

lemma unat_mask_low: "b \<le> 64 \<Longrightarrow> unat (drop_bit (64 - b) TTMATH_UINT_MAX_VALUE) = 2 ^ b - 1"
  by (simp only: drop_bit_uint unat_max_value W_split pred_mult_div zero_less_power zero_less_numeral)

lemma unat_mask_high:
  "b \<le> 64 \<Longrightarrow> unat (push_bit (64 - b) TTMATH_UINT_MAX_VALUE) = (2 ^ b - 1) * 2 ^ (64 - b)"
  by (simp only: push_bit_uint unat_max_value W_split mult_mod_left [symmetric] pred_mult_mod
      zero_less_power zero_less_numeral)

lemma Rcl2_loop_result:
  assumes "b \<le> 64" "unat c < 2 ^ b"
  shows "Rcl2_loop b t c = carry_result (length t) (uval t * 2 ^ b + unat c)"
proof -
  obtain c' rs where eq: "Rcl2_loop b t c = (c', rs)" by (metis surj_pair)
  from carry_resultI [OF length_Rcl2_loop [OF eq]] Rcl2_loop_value [OF eq assms]
  show ?thesis by (simp add: eq)
qed

lemma Rcl2_one_result:
  "UInt_Rcl2_one t c = carry_result (length t) (uval t * 2 + of_bool (c \<noteq> 0))"
  using Rcl2_loop_result [of 1 "if c \<noteq> 0 then 1 else c" t]
  by (auto simp: UInt_Rcl2_one_def Rcl2_one_loop_eq split: if_splits)

lemma Rcl2_result:
  assumes "0 < b" "b < 64"
  shows "UInt_Rcl2 t b c = Some (of_bool (odd ((uval t * 2 ^ b + fill_bits b c) div W ^ length t)),
    utab (length t) (uval t * 2 ^ b + fill_bits b c))"
proof -
  let ?c = "if c \<noteq> 0 then drop_bit (64 - b) TTMATH_UINT_MAX_VALUE else c"
  have c: "unat ?c = fill_bits b c"
    using assms by (simp add: fill_bits_def unat_mask_low)
  then have "Rcl2_loop b t ?c = carry_result (length t) (uval t * 2 ^ b + fill_bits b c)"
    using assms fill_bits_less [of b c] Rcl2_loop_result [of b ?c t] by simp
  moreover obtain c' rs where eq: "Rcl2_loop b t ?c = (c', rs)" by (metis surj_pair)
  moreover have "unat c' < 2 ^ b" "uval rs + W ^ length t * unat c' = uval t * 2 ^ b + fill_bits b c"
    using Rcl2_loop_value [OF eq] assms c fill_bits_less [of b c] by auto
  then have "unat c' = (uval t * 2 ^ b + fill_bits b c) div W ^ length t"
    using uval_less [of rs] length_Rcl2_loop [OF eq]
    by (metis add.commute div_less div_mult_self2 less_not_refl2 uval_less add_0 gr_implies_not_zero)
  moreover have "c' AND 1 = of_bool (odd (unat c'))"
    using and_1_eq_0_iff [of c'] by (simp add: and_one_eq mod2_eq_if split: if_splits)
  ultimately show ?thesis
    using assms by (simp add: UInt_Rcl2_def TTMATH_BITS_PER_UINT_def carry_result_def)
qed

lemma Rcr2_loop_result:
  assumes "b \<le> 64" "unat c = cc * 2 ^ (64 - b)" "cc < 2 ^ b"
  shows "\<exists>c'. Rcr2_loop b (rev t) c
      = (c', rev (utab (length t) ((uval t + W ^ length t * cc) div 2 ^ b))) \<and>
    unat c' = (uval t + W ^ length t * cc) mod 2 ^ b * 2 ^ (64 - b)"
proof -
  obtain c' rs where eq: "Rcr2_loop b (rev t) c = (c', rs)" by (metis surj_pair)
  obtain cc' where v: "2 ^ b * uval (rev rs) + cc' = uval t + W ^ length t * cc"
      "unat c' = cc' * 2 ^ (64 - b)" "cc' < 2 ^ b"
    using Rcr2_loop_value [OF eq assms] by auto
  have d: "(uval t + W ^ length t * cc) div 2 ^ b = uval (rev rs)"
    and m: "(uval t + W ^ length t * cc) mod 2 ^ b = cc'"
    using v(3) unfolding v(1) [symmetric] by simp_all
  have "rev rs = utab (length t) (uval (rev rs))"
    using length_Rcr2_loop [OF eq] by (metis length_rev utab_uval)
  then have "rs = rev (utab (length t) (uval (rev rs)))"
    by (metis rev_rev_ident)
  with eq have "Rcr2_loop b (rev t) c = (c', rev (utab (length t) ((uval t + W ^ length t * cc) div 2 ^ b)))"
    by (simp add: d)
  with v(2) m show ?thesis by blast
qed

lemma Rcr2_one_result:
  "UInt_Rcr2_one t c = (of_bool (odd (uval t + W ^ length t * of_bool (c \<noteq> 0))),
     utab (length t) ((uval t + W ^ length t * of_bool (c \<noteq> 0)) div 2))"
proof -
  let ?c = "if c \<noteq> 0 then TTMATH_UINT_HIGHEST_BIT else c"
  have "unat ?c = of_bool (c \<noteq> 0) * 2 ^ (64 - 1)"
    by (simp add: TTMATH_UINT_HIGHEST_BIT_def)
  then obtain c' where
    "Rcr2_loop 1 (rev t) ?c = (c', rev (utab (length t) ((uval t + W ^ length t * of_bool (c \<noteq> 0)) div 2)))"
    and c': "unat c' = (uval t + W ^ length t * of_bool (c \<noteq> 0)) mod 2 * 2 ^ (64 - 1)"
    using Rcr2_loop_result [of 1 ?c "of_bool (c \<noteq> 0)" t] by (cases "c = 0") auto
  moreover have "(c' \<noteq> 0) = odd (uval t + W ^ length t * of_bool (c \<noteq> 0))"
    unfolding odd_iff_mod_2_eq_one by (subst unat_eq_0 [symmetric]) (simp add: c')
  ultimately show ?thesis
    by (simp add: UInt_Rcr2_one_def Rcr2_one_loop_eq)
qed

lemma mod_pow_high_bit:
  assumes "0 < b"
  shows "(2 ^ (b - 1) \<le> x mod 2 ^ b) = odd (x div 2 ^ (b - 1) :: nat)"
proof -
  obtain k where k: "b = Suc k" using assms by (cases b) auto
  have "x mod 2 ^ b = x mod 2 ^ k + 2 ^ k * (x div 2 ^ k mod 2)"
    by (simp add: k mod_mult2_eq mult.commute [of 2])
  moreover have "x mod 2 ^ k < 2 ^ k" by simp
  ultimately show ?thesis
    unfolding k by (cases "even (x div 2 ^ k)") (simp_all add: even_iff_mod_2_eq_zero odd_iff_mod_2_eq_one not_le)
qed

lemma Rcr2_result:
  assumes "0 < b" "b < 64" "t \<noteq> []"
  shows "UInt_Rcr2 t b c = Some (of_bool (odd (uval t div 2 ^ (b - 1))),
    utab (length t) ((uval t + W ^ length t * fill_bits b c) div 2 ^ b))"
proof -
  let ?s = "uval t + W ^ length t * fill_bits b c"
  let ?c = "if c \<noteq> 0 then push_bit (64 - b) TTMATH_UINT_MAX_VALUE else c"
  have "unat ?c = fill_bits b c * 2 ^ (64 - b)"
    using assms by (simp add: fill_bits_def unat_mask_high)
  then obtain c' where
    r: "Rcr2_loop b (rev t) ?c = (c', rev (utab (length t) (?s div 2 ^ b)))"
    and c': "unat c' = ?s mod 2 ^ b * 2 ^ (64 - b)"
    using Rcr2_loop_result [of b ?c "fill_bits b c" t] assms fill_bits_less by auto
  have "W div 2 = 2 ^ (b - 1) * 2 ^ (64 - b)"
    using assms by (simp add: W_def flip: power_add)
  then have "bit c' 63 = (2 ^ (b - 1) \<le> ?s mod 2 ^ b)"
    unfolding bit_63_iff c' by simp
  also have "?s mod 2 ^ b = uval t mod 2 ^ b"
  proof -
    obtain k where "length t = Suc k" using assms(3) by (cases t) auto
    then have "W ^ length t = 2 ^ b * (2 ^ (64 - b) * W ^ k)"
      using W_split [of b] assms(2) by simp
    then show ?thesis by (simp only: mult.assoc mod_mult_self2)
  qed
  also have "(2 ^ (b - 1) \<le> uval t mod 2 ^ b) = odd (uval t div 2 ^ (b - 1))"
    by (rule mod_pow_high_bit [OF assms(1)])
  finally show ?thesis
    using assms r by (simp add: UInt_Rcr2_def TTMATH_BITS_PER_UINT_def and_highest_bit_iff)
qed

section \<open>Moves by whole words\<close>

text \<open>
  The copy loops run inside one table, so their direction matters: \<open>MoveUp_loop\<close> copies
  from the top down, \<open>MoveDown_loop\<close> from the bottom up.
\<close>

fun MoveUp_loop :: "nat \<Rightarrow> nat \<Rightarrow> utable \<Rightarrow> utable" where
  "MoveUp_loop 0 k t = t"
| "MoveUp_loop (Suc second) k t = MoveUp_loop second k (t[second + k := t ! second])"

fun FillDown_loop :: "nat \<Rightarrow> uint \<Rightarrow> utable \<Rightarrow> utable" where
  "FillDown_loop 0 m t = t"
| "FillDown_loop (Suc first) m t = FillDown_loop first m (t[first := m])"

function MoveDown_loop :: "nat \<Rightarrow> nat \<Rightarrow> utable \<Rightarrow> utable" where
  "MoveDown_loop first second t =
     (if second < length t
      then MoveDown_loop (first + 1) (second + 1) (t[first := t ! second]) else t)"
  by pat_completeness auto
termination
  by (relation "measure (\<lambda>(first, second, t). length t - second)") auto

function FillUp_loop :: "nat \<Rightarrow> uint \<Rightarrow> utable \<Rightarrow> utable" where
  "FillUp_loop first m t =
     (if first < length t then FillUp_loop (first + 1) m (t[first := m]) else t)"
  by pat_completeness auto
termination
  by (relation "measure (\<lambda>(first, m, t). length t - first)") auto

declare MoveDown_loop.simps [simp del] FillUp_loop.simps [simp del]

lemma MoveUp_loop_eq:
  "s + k \<le> length t \<Longrightarrow> MoveUp_loop s k t = take k t @ take s t @ drop (s + k) t"
proof (induction s arbitrary: t)
  case (Suc s)
  then have "MoveUp_loop (Suc s) k t
      = take k (t[s + k := t ! s]) @ take s (t[s + k := t ! s]) @ drop (s + k) (t[s + k := t ! s])"
    by simp
  also have "drop (s + k) (t[s + k := t ! s]) = t ! s # drop (Suc s + k) t"
    using Suc.prems by (simp add: drop_update_swap Cons_nth_drop_Suc [symmetric, of "s + k"])
  finally show ?case
    using Suc.prems by (simp add: take_Suc_conv_app_nth)
qed simp

lemma FillDown_loop_eq:
  "f \<le> length t \<Longrightarrow> FillDown_loop f m t = replicate f m @ drop f t"
proof (induction f arbitrary: t)
  case (Suc f)
  then have "FillDown_loop (Suc f) m t = replicate f m @ drop f (t[f := m])"
    by simp
  also have "drop f (t[f := m]) = m # drop (Suc f) t"
    using Suc.prems by (simp add: drop_update_swap Cons_nth_drop_Suc [symmetric, of f])
  finally show ?case
    by (simp add: replicate_append_same)
qed simp

lemma MoveDown_loop_eq:
  "first \<le> second \<Longrightarrow> second \<le> length t \<Longrightarrow>
   MoveDown_loop first second t
     = take first t @ drop second t @ drop (first + (length t - second)) t"
proof (induction first second t rule: MoveDown_loop.induct)
  case (1 first second t)
  show ?case
  proof (cases "second < length t")
    case True
    let ?t = "t[first := t ! second]"
    have "MoveDown_loop first second t = MoveDown_loop (first + 1) (second + 1) ?t"
      using True by (subst MoveDown_loop.simps) simp
    also have "\<dots> = take (Suc first) ?t @ drop (Suc second) ?t
        @ drop (Suc first + (length t - Suc second)) ?t"
      using "1.IH" [OF True] "1.prems" True by simp
    also have "take (Suc first) ?t = take first t @ [t ! second]"
      using "1.prems" True by (simp add: take_Suc_conv_app_nth)
    also have "Suc first + (length t - Suc second) = first + (length t - second)"
      using True by simp
    also have "drop (first + (length t - second)) ?t = drop (first + (length t - second)) t"
      using True by simp
    finally show ?thesis
      using "1.prems" True by (simp add: Cons_nth_drop_Suc)
  next
    case False
    with "1.prems" show ?thesis
      by (subst MoveDown_loop.simps) simp
  qed
qed

lemma FillUp_loop_eq:
  "first \<le> length t \<Longrightarrow> FillUp_loop first m t = take first t @ replicate (length t - first) m"
proof (induction first m t rule: FillUp_loop.induct)
  case (1 first m t)
  show ?case
  proof (cases "first < length t")
    case True
    then have "FillUp_loop first m t = FillUp_loop (first + 1) m (t[first := m])"
      by (subst FillUp_loop.simps) simp
    also have "\<dots> = take (Suc first) (t[first := m]) @ replicate (length t - Suc first) m"
      using "1.IH" True by simp
    also have "take (Suc first) (t[first := m]) = take first t @ [m]"
      using True by (simp add: take_Suc_conv_app_nth)
    finally show ?thesis
      using True by (simp add: Suc_diff_Suc flip: replicate_Suc)
  next
    case False
    with "1.prems" show ?thesis
      by (subst FillUp_loop.simps) simp
  qed
qed

definition UInt_RclMoveAllWords :: "utable \<Rightarrow> uint \<Rightarrow> nat \<Rightarrow> uint \<Rightarrow> nat \<times> uint \<times> utable" where
  "UInt_RclMoveAllWords table last_c bits c =
     (let rest_bits = bits mod TTMATH_BITS_PER_UINT;
          all_words = bits div TTMATH_BITS_PER_UINT;
          m = (if c \<noteq> 0 then TTMATH_UINT_MAX_VALUE else 0);
          value_size = length table
      in if all_words \<ge> value_size
         then (0, if all_words = value_size \<and> rest_bits = 0 then table ! 0 AND 1 else last_c,
               FillUp_loop 0 m table)
         else if all_words > 0
         then (rest_bits, table ! (value_size - all_words) AND 1,
               FillDown_loop all_words m (MoveUp_loop (value_size - all_words) all_words table))
         else (rest_bits, last_c, table))"

definition UInt_Rcl :: "utable \<Rightarrow> nat \<Rightarrow> uint \<Rightarrow> (uint \<times> utable) option" where
  "UInt_Rcl table bits c =
     (if bits = 0 then Some (0, table)
      else let (rest_bits, last_c, table) =
                 (if bits \<ge> TTMATH_BITS_PER_UINT then UInt_RclMoveAllWords table 0 bits c
                  else (bits, 0, table))
           in if rest_bits = 0 then Some (last_c, table)
              else if rest_bits = 1 then Some (UInt_Rcl2_one table c)
              else if rest_bits = 2
              then let (_, table) = UInt_Rcl2_one table c in Some (UInt_Rcl2_one table c)
              else UInt_Rcl2 table rest_bits c)"

definition UInt_RcrMoveAllWords :: "utable \<Rightarrow> uint \<Rightarrow> nat \<Rightarrow> uint \<Rightarrow> nat \<times> uint \<times> utable" where
  "UInt_RcrMoveAllWords table last_c bits c =
     (let rest_bits = bits mod TTMATH_BITS_PER_UINT;
          all_words = bits div TTMATH_BITS_PER_UINT;
          m = (if c \<noteq> 0 then TTMATH_UINT_MAX_VALUE else 0);
          value_size = length table
      in if all_words \<ge> value_size
         then (0, if all_words = value_size \<and> rest_bits = 0
                  then if table ! (value_size - 1) AND TTMATH_UINT_HIGHEST_BIT \<noteq> 0 then 1 else 0
                  else last_c,
               FillUp_loop 0 m table)
         else if all_words > 0
         then (rest_bits, if table ! (all_words - 1) AND TTMATH_UINT_HIGHEST_BIT \<noteq> 0 then 1 else 0,
               FillUp_loop (value_size - all_words) m (MoveDown_loop 0 all_words table))
         else (rest_bits, last_c, table))"

definition UInt_Rcr :: "utable \<Rightarrow> nat \<Rightarrow> uint \<Rightarrow> (uint \<times> utable) option" where
  "UInt_Rcr table bits c =
     (if bits = 0 then Some (0, table)
      else let (rest_bits, last_c, table) =
                 (if bits \<ge> TTMATH_BITS_PER_UINT then UInt_RcrMoveAllWords table 0 bits c
                  else (bits, 0, table))
           in if rest_bits = 0 then Some (last_c, table)
              else if rest_bits = 1 then Some (UInt_Rcr2_one table c)
              else if rest_bits = 2
              then let (_, table) = UInt_Rcr2_one table c in Some (UInt_Rcr2_one table c)
              else UInt_Rcr2 table rest_bits c)"

section \<open>Shifts by any number of bits\<close>

lemma W_power: "W ^ k = 2 ^ (64 * k)"
  by (simp add: W_def power_mult)

lemma fill_bits_add: "fill_bits a c * 2 ^ b + fill_bits b c = fill_bits (a + b) c"
  by (simp add: fill_bits_def power_add diff_mult_distrib)

lemma fill_bits_mod: "b \<le> a \<Longrightarrow> fill_bits a c mod 2 ^ b = fill_bits b c"
proof -
  assume "b \<le> a"
  then have "(2 :: nat) ^ a = 2 ^ b * 2 ^ (a - b)" by (simp flip: power_add)
  then have "(2 ^ a - 1) mod 2 ^ b = (2 ^ b - 1 :: nat)"
    by (simp only: pred_mult_mod zero_less_power zero_less_numeral)
  then show ?thesis by (cases "c = 0") (simp_all add: fill_bits_def)
qed

lemma uval_fill: "uval (replicate k (if c \<noteq> 0 then TTMATH_UINT_MAX_VALUE else 0)) = fill_bits (64 * k) c"
  by (simp add: uval_replicate_max fill_bits_def W_power)

definition shl_value :: "utable \<Rightarrow> nat \<Rightarrow> uint \<Rightarrow> nat" where
  "shl_value t b c = uval t * 2 ^ b + fill_bits b c"

definition shr_value :: "utable \<Rightarrow> nat \<Rightarrow> uint \<Rightarrow> nat" where
  "shr_value t b c = (uval t + W ^ length t * fill_bits b c) div 2 ^ b"

lemma shl_value_0 [simp]: "shl_value t 0 c = uval t"
  by (simp add: shl_value_def fill_bits_def)

lemma shl_value_add: "shl_value t a c * 2 ^ b + fill_bits b c = shl_value t (a + b) c"
  by (simp add: shl_value_def fill_bits_add [symmetric] power_add algebra_simps)

lemma shl_value_utab:
  "utab n (shl_value (utab n (shl_value t a c)) b c) = utab n (shl_value t (a + b) c)"
proof -
  have "shl_value (utab n (shl_value t a c)) b c mod W ^ n
      = (shl_value t a c * 2 ^ b + fill_bits b c) mod W ^ n"
    by (simp add: shl_value_def [of "utab n _"] uval_utab mod_mult_add_left)
  then show ?thesis
    by (metis shl_value_add utab_mod)
qed

lemma shl_all_out:
  assumes "64 * length t \<le> b"
  shows "utab (length t) (shl_value t b c)
    = replicate (length t) (if c \<noteq> 0 then TTMATH_UINT_MAX_VALUE else 0)"
proof -
  let ?n = "length t"
  have "(2 :: nat) ^ b = W ^ ?n * 2 ^ (b - 64 * ?n)"
    using assms by (simp add: W_power flip: power_add)
  then have "shl_value t b c = fill_bits b c + W ^ ?n * (uval t * 2 ^ (b - 64 * ?n))"
    by (simp add: shl_value_def)
  then have "shl_value t b c mod W ^ ?n = fill_bits b c mod 2 ^ (64 * ?n)"
    by (simp only: mod_mult_self2 W_power)
  also have "\<dots> = fill_bits (64 * ?n) c"
    by (rule fill_bits_mod [OF assms])
  finally have "uval (replicate ?n (if c \<noteq> 0 then TTMATH_UINT_MAX_VALUE else 0))
      = shl_value t b c mod W ^ ?n"
    by (simp only: uval_fill)
  then show ?thesis
    by (intro utab_eqI [symmetric]) simp_all
qed

lemma shl_words:
  assumes "k \<le> length t"
  shows "replicate k (if c \<noteq> 0 then TTMATH_UINT_MAX_VALUE else 0) @ take (length t - k) t
    = utab (length t) (shl_value t (64 * k) c)"
proof (rule utab_eqI)
  let ?n = "length t" and ?m = "if c \<noteq> 0 then TTMATH_UINT_MAX_VALUE else 0"
  show "length (replicate k ?m @ take (?n - k) t) = ?n" using assms by simp
  have p: "W ^ ?n = W ^ k * W ^ (?n - k)"
    using assms by (simp flip: power_add)
  have f: "fill_bits (64 * k) c < W ^ k"
    unfolding W_power by (rule fill_bits_less)
  have "shl_value t (64 * k) c = fill_bits (64 * k) c + W ^ k * uval t"
    by (simp add: shl_value_def W_power)
  then have "shl_value t (64 * k) c mod W ^ ?n = (fill_bits (64 * k) c + W ^ k * uval t) mod (W ^ k * W ^ (?n - k))"
    by (simp only: p)
  also have "\<dots> = fill_bits (64 * k) c + W ^ k * (uval t mod W ^ (?n - k))"
    using f by (simp add: mod_mult2_eq)
  also have "\<dots> = uval (replicate k ?m @ take (?n - k) t)"
    by (simp only: uval_append uval_fill uval_take length_replicate)
  finally show "uval (replicate k ?m @ take (?n - k) t) = shl_value t (64 * k) c mod W ^ ?n" ..
qed

lemma RclMoveAllWords_result:
  fixes t :: utable and b :: nat
  assumes "t \<noteq> []"
  defines "n \<equiv> length t" and "k \<equiv> b div 64"
  shows "UInt_RclMoveAllWords t 0 b c =
    (if n \<le> k then 0 else b mod 64,
     of_bool (0 < k \<and> (k < n \<or> b = 64 * n) \<and> odd (uval t div W ^ (n - k))),
     utab n (shl_value t (if n \<le> k then b else 64 * k) c))"
proof (cases "n \<le> k")
  case True
  then have "64 * n \<le> b" by (simp add: k_def)
  moreover have "t ! 0 AND 1 = of_bool (odd (uval t))"
    using and_1_eq_0_iff [of "t ! 0"] assms(1)
    by (cases t) (auto simp: and_one_eq mod2_eq_if W_def split: if_splits)
  moreover have "(k = n \<and> b mod 64 = 0) = (b = 64 * n)"
    unfolding k_def by auto
  moreover have "0 < k" using True assms(1) by (cases t) (auto simp: n_def)
  ultimately show ?thesis
    using True assms(1) shl_all_out [of t b c]
    by (auto simp: UInt_RclMoveAllWords_def TTMATH_BITS_PER_UINT_def Let_def FillUp_loop_eq
        simp flip: n_def k_def)
next
  case False
  then have k: "k < n" by simp
  have last: "t ! (n - k) AND 1 = of_bool (odd (uval t div W ^ (n - k)))" if "0 < k"
  proof -
    have "unat (t ! (n - k)) = uval t div W ^ (n - k) mod W"
      using that k by (intro uval_nth) (simp add: n_def)
    then have "odd (unat (t ! (n - k))) = odd (uval t div W ^ (n - k))"
      by (simp add: W_def dvd_mod_iff)
    then show ?thesis
      using and_1_eq_0_iff [of "t ! (n - k)"] by (auto simp: and_one_eq mod2_eq_if split: if_splits)
  qed
  have "FillDown_loop k m (MoveUp_loop (n - k) k t) = replicate k m @ take (n - k) t" for m
    using k by (simp add: MoveUp_loop_eq FillDown_loop_eq n_def)
  then show ?thesis
    using k last shl_words [of k t c]
    by (auto simp: UInt_RclMoveAllWords_def TTMATH_BITS_PER_UINT_def Let_def
        simp flip: n_def k_def)
qed

text \<open>
  The carry of a shift to the left by \<open>b\<close> bits: the bit that left the table last. It is
  the lowest bit of what the exact result has above the table, except that the code
  returns 0 when every bit of the table and some of the fill bits have been moved out.
\<close>

lemma Rcl_carry_words:
  assumes "k \<le> length t"
  shows "shl_value t (64 * k) c div W ^ length t = uval t div W ^ (length t - k)"
proof -
  have p: "W ^ length t = W ^ k * W ^ (length t - k)"
    using assms by (simp flip: power_add)
  have "fill_bits (64 * k) c < W ^ k"
    unfolding W_power by (rule fill_bits_less)
  moreover have "shl_value t (64 * k) c = fill_bits (64 * k) c + W ^ k * uval t"
    by (simp add: shl_value_def W_power)
  ultimately show ?thesis
    by (simp add: p div_mult2_eq)
qed

lemma shl_carry_parity:
  assumes "0 < r"
  shows "odd (shl_value (utab n (shl_value t a c)) r c div W ^ n) = odd (shl_value t (a + r) c div W ^ n)"
proof -
  let ?s = "shl_value t a c"
  have "?s * 2 ^ r + fill_bits r c
      = (?s mod W ^ n * 2 ^ r + fill_bits r c) + W ^ n * (?s div W ^ n * 2 ^ r)"
    by (rule mod_div_scale [symmetric])
  then have "shl_value t (a + r) c div W ^ n
      = (?s mod W ^ n * 2 ^ r + fill_bits r c) div W ^ n + ?s div W ^ n * 2 ^ r"
    by (simp only: shl_value_add) simp
  with assms show ?thesis
    by (simp add: shl_value_def [of "utab n ?s"] uval_utab)
qed

lemma Rcl_small:
  assumes "0 < r" "r < 64"
  shows "(if r = 1 then Some (UInt_Rcl2_one t c)
      else if r = 2 then let (_, t) = UInt_Rcl2_one t c in Some (UInt_Rcl2_one t c)
      else UInt_Rcl2 t r c)
    = Some (of_bool (odd (shl_value t r c div W ^ length t)), utab (length t) (shl_value t r c))"
proof -
  have one: "UInt_Rcl2_one u c = (of_bool (odd (shl_value u 1 c div W ^ length u)), utab (length u) (shl_value u 1 c))" for u
  proof -
    have "uval u * 2 + of_bool (c \<noteq> 0) < 2 * W ^ length u"
      using uval_less [of u] by (cases "c = 0") simp_all
    then have "(uval u * 2 + of_bool (c \<noteq> 0)) div W ^ length u < 2"
      by (simp add: less_mult_imp_div_less)
    then have "(uval u * 2 + of_bool (c \<noteq> 0)) div W ^ length u
        = of_bool (odd ((uval u * 2 + of_bool (c \<noteq> 0)) div W ^ length u))"
      by (auto simp: less_2_cases_iff)
    moreover have "shl_value u 1 c = uval u * 2 + of_bool (c \<noteq> 0)"
      by (simp add: shl_value_def fill_bits_def)
    ultimately show ?thesis
      unfolding Rcl2_one_result carry_result_def by (metis of_nat_of_bool)
  qed
  show ?thesis
  proof (cases "r = 1 \<or> r = 2")
    case True
    then show ?thesis
      using one [of t] one [of "utab (length t) (shl_value t 1 c)"]
        shl_carry_parity [of 1 "length t" t 1 c] shl_value_utab [of "length t" t 1 c 1]
      by (auto simp: numeral_2_eq_2)
  next
    case False
    with assms(1,2) show ?thesis
      by (simp add: Rcl2_result shl_value_def)
  qed
qed

lemma Rcl_result:
  assumes "t \<noteq> []"
  shows "UInt_Rcl t b c = Some
    (of_bool (b \<le> 64 * length t \<and> odd (shl_value t b c div W ^ length t)),
     utab (length t) (shl_value t b c))"
proof -
  let ?n = "length t" and ?k = "b div 64"
  consider "b = 0" | "0 < b" "b < 64" | "64 \<le> b" "?n \<le> ?k" | "64 \<le> b" "?k < ?n"
    by linarith
  then show ?thesis
  proof cases
    case 1
    then show ?thesis
      using uval_less [of t] by (simp add: UInt_Rcl_def)
  next
    case 2
    moreover have "b \<le> 64 * ?n" using 2 assms by (cases t) auto
    ultimately show ?thesis
      using Rcl_small [of b t c] by (simp add: UInt_Rcl_def TTMATH_BITS_PER_UINT_def)
  next
    case 3
    then have "(b \<le> 64 * ?n) = (b = 64 * ?n)" by linarith
    with 3 assms show ?thesis
      using Rcl_carry_words [of ?n t c]
      by (auto simp: UInt_Rcl_def TTMATH_BITS_PER_UINT_def RclMoveAllWords_result)
  next
    case 4
    then have b: "b \<le> 64 * ?n" "b = 64 * ?k + b mod 64" "b \<noteq> 64 * ?n" by auto
    show ?thesis
    proof (cases "b mod 64 = 0")
      case True
      then have "b = 64 * ?k" using b by simp
      with True 4 b assms Rcl_carry_words [of ?k t c] show ?thesis
        by (auto simp: UInt_Rcl_def TTMATH_BITS_PER_UINT_def RclMoveAllWords_result)
    next
      case False
      define u where "u = utab ?n (shl_value t (64 * ?k) c)"
      have "UInt_Rcl t b c =
          (if b mod 64 = 1 then Some (UInt_Rcl2_one u c)
           else if b mod 64 = 2 then let (_, t) = UInt_Rcl2_one u c in Some (UInt_Rcl2_one t c)
           else UInt_Rcl2 u (b mod 64) c)"
        using False 4 assms
        by (simp add: UInt_Rcl_def TTMATH_BITS_PER_UINT_def RclMoveAllWords_result u_def)
      also have "\<dots> = Some (of_bool (odd (shl_value u (b mod 64) c div W ^ length u)),
          utab (length u) (shl_value u (b mod 64) c))"
        using False by (intro Rcl_small) simp_all
      also have "\<dots> = Some (of_bool (odd (shl_value t b c div W ^ ?n)), utab ?n (shl_value t b c))"
        using False b(2) shl_carry_parity [of "b mod 64" ?n t "64 * ?k" c]
          shl_value_utab [of ?n t "64 * ?k" c "b mod 64"]
        by (simp add: u_def)
      finally show ?thesis using b(1) by simp
    qed
  qed
qed

lemma shr_value_0 [simp]: "shr_value t 0 c = uval t"
  by (simp add: shr_value_def fill_bits_def)

lemma shr_value_less: "shr_value t b c < W ^ length t"
proof -
  have "uval t + W ^ length t * fill_bits b c < W ^ length t * Suc (fill_bits b c)"
    using uval_less [of t] by simp
  also have "\<dots> \<le> W ^ length t * 2 ^ b"
    using fill_bits_less [of b c] by (intro mult_le_mono2) simp
  finally show ?thesis
    by (simp add: shr_value_def less_mult_imp_div_less)
qed

lemma uval_utab_shr [simp]: "uval (utab (length t) (shr_value t b c)) = shr_value t b c"
  by (simp add: uval_utab shr_value_less)

lemma fill_bits_add': "fill_bits a c + 2 ^ a * fill_bits b c = fill_bits (a + b) c"
  using fill_bits_add [of b c a] by (simp add: ac_simps)

lemma shr_value_utab:
  "shr_value (utab (length t) (shr_value t a c)) b c = shr_value t (a + b) c"
proof -
  let ?n = "length t"
  have "shr_value (utab ?n (shr_value t a c)) b c
      = ((uval t + W ^ ?n * fill_bits a c) div 2 ^ a + W ^ ?n * fill_bits b c) div 2 ^ b"
    by (simp add: shr_value_def [of "utab _ _"]) (simp add: shr_value_def)
  also have "\<dots> = (uval t + W ^ ?n * fill_bits a c + 2 ^ a * (W ^ ?n * fill_bits b c)) div 2 ^ a div 2 ^ b"
    by (simp add: add.commute)
  also have "\<dots> = (uval t + W ^ ?n * (fill_bits a c + 2 ^ a * fill_bits b c)) div 2 ^ (a + b)"
    by (simp add: div_mult2_eq power_add algebra_simps)
  finally show ?thesis
    by (simp add: shr_value_def fill_bits_add')
qed

lemma shr_words:
  assumes "k \<le> length t"
  shows "drop k t @ replicate k (if c \<noteq> 0 then TTMATH_UINT_MAX_VALUE else 0)
    = utab (length t) (shr_value t (64 * k) c)"
proof (rule utab_eqI)
  let ?n = "length t" and ?m = "if c \<noteq> 0 then TTMATH_UINT_MAX_VALUE else 0"
  show "length (drop k t @ replicate k ?m) = ?n" using assms by simp
  have p: "W ^ ?n = W ^ k * W ^ (?n - k)"
    using assms by (simp flip: power_add)
  have "shr_value t (64 * k) c = (uval t + W ^ k * (W ^ (?n - k) * fill_bits (64 * k) c)) div W ^ k"
    by (simp only: shr_value_def p W_power [of k] mult.assoc)
  also have "\<dots> = uval (drop k t @ replicate k ?m)"
    by (simp add: uval_append uval_fill [simplified] uval_drop)
  finally show "uval (drop k t @ replicate k ?m) = shr_value t (64 * k) c mod W ^ ?n"
    using shr_value_less [of t] by (metis mod_less)
qed

lemma shr_all_out:
  assumes "64 * length t \<le> b"
  shows "utab (length t) (shr_value t b c)
    = replicate (length t) (if c \<noteq> 0 then TTMATH_UINT_MAX_VALUE else 0)"
proof -
  let ?n = "length t"
  have "utab ?n (shr_value t (64 * ?n) c)
      = replicate ?n (if c \<noteq> 0 then TTMATH_UINT_MAX_VALUE else 0)"
    using shr_words [of ?n t c] by simp
  then have u: "uval (utab ?n (shr_value t (64 * ?n) c)) = fill_bits (64 * ?n) c"
    by (simp only: uval_fill)
  define r where "r = b - 64 * ?n"
  have b: "b = 64 * ?n + r" using assms by (simp add: r_def)
  have "shr_value t b c = (fill_bits (64 * ?n) c + 2 ^ (64 * ?n) * fill_bits r c) div 2 ^ r"
    unfolding b shr_value_utab [symmetric] shr_value_def [of "utab _ _"] u by (simp add: W_power)
  also have "\<dots> = (fill_bits (64 * ?n) c * 2 ^ r + fill_bits r c) div 2 ^ r"
    by (simp only: fill_bits_add' fill_bits_add)
  also have "\<dots> = uval (utab ?n (shr_value t (64 * ?n) c))"
    unfolding u by (simp add: fill_bits_less)
  finally have "shr_value t b c = shr_value t (64 * ?n) c" by simp
  with shr_words [of ?n t c] show ?thesis by simp
qed

lemma shr_carry_bit:
  assumes "0 < b" "b \<le> 64 * length t" "a < b"
  shows "odd (shr_value t a c div 2 ^ (b - a - 1)) = odd (uval t div 2 ^ (b - 1))"
proof -
  let ?n = "length t"
  have "shr_value t a c div 2 ^ (b - a - 1) = (uval t + W ^ ?n * fill_bits a c) div 2 ^ (b - 1)"
    using assms by (simp add: shr_value_def flip: div_mult2_eq power_add)
  moreover have "W ^ ?n = 2 ^ (b - 1) * (2 * 2 ^ (64 * ?n - b))"
    using assms(1,2) unfolding W_power by (simp flip: power_add power_Suc)
  ultimately have "shr_value t a c div 2 ^ (b - a - 1)
      = uval t div 2 ^ (b - 1) + 2 * 2 ^ (64 * ?n - b) * fill_bits a c"
    by (simp add: mult.assoc)
  then show ?thesis by simp
qed

lemma top_bit_word:
  assumes "i < length t"
  shows "bit (t ! i) 63 = odd (uval t div 2 ^ (64 * Suc i - 1))"
proof -
  have "bit (t ! i) 63 = (2 ^ (64 - 1) \<le> uval t div W ^ i mod 2 ^ 64)"
    using assms by (simp add: bit_63_iff uval_nth W_def)
  also have "\<dots> = odd (uval t div W ^ i div 2 ^ (64 - 1))"
    by (rule mod_pow_high_bit) simp
  also have "uval t div W ^ i div 2 ^ (64 - 1) = uval t div (2 ^ (64 * i) * 2 ^ (64 - 1))"
    by (simp only: W_power div_mult2_eq)
  also have "2 ^ (64 * i) * 2 ^ (64 - 1) = (2 :: nat) ^ (64 * Suc i - 1)"
    by (simp only: power_add [symmetric]) simp
  finally show ?thesis .
qed

lemma RcrMoveAllWords_result:
  fixes t :: utable and b :: nat
  assumes "t \<noteq> []"
  defines "n \<equiv> length t" and "k \<equiv> b div 64"
  shows "UInt_RcrMoveAllWords t 0 b c =
    (if n \<le> k then 0 else b mod 64,
     of_bool (0 < k \<and> (k < n \<or> b = 64 * n) \<and> odd (uval t div 2 ^ (64 * k - 1))),
     utab n (shr_value t (if n \<le> k then b else 64 * k) c))"
proof (cases "n \<le> k")
  case True
  then have "64 * n \<le> b" by (simp add: k_def)
  moreover have "bit (t ! (n - 1)) 63 = odd (uval t div 2 ^ (64 * n - 1))"
    using top_bit_word [of "n - 1" t] assms(1) by (cases t) (simp_all add: n_def)
  moreover have "(k = n \<and> b mod 64 = 0) = (b = 64 * n)"
    unfolding k_def by auto
  moreover have "0 < k" using True assms(1) by (cases t) (auto simp: n_def)
  ultimately show ?thesis
    using True assms(1) shr_all_out [of t b c]
    by (auto simp: UInt_RcrMoveAllWords_def TTMATH_BITS_PER_UINT_def Let_def FillUp_loop_eq
        and_highest_bit_iff simp flip: n_def k_def)
next
  case False
  then have k: "k < n" by simp
  have last: "bit (t ! (k - 1)) 63 = odd (uval t div 2 ^ (64 * k - 1))" if "0 < k"
    using that k top_bit_word [of "k - 1" t] by (simp add: n_def)
  have "FillUp_loop (n - k) m (MoveDown_loop 0 k t) = drop k t @ replicate k m" for m
    using k by (simp add: MoveDown_loop_eq FillUp_loop_eq n_def)
  then show ?thesis
    using k last shr_words [of k t c]
    by (auto simp: UInt_RcrMoveAllWords_def TTMATH_BITS_PER_UINT_def Let_def and_highest_bit_iff
        simp flip: n_def k_def)
qed

lemma Rcr_small:
  assumes "0 < r" "r < 64" "t \<noteq> []"
  shows "(if r = 1 then Some (UInt_Rcr2_one t c)
      else if r = 2 then let (_, t) = UInt_Rcr2_one t c in Some (UInt_Rcr2_one t c)
      else UInt_Rcr2 t r c)
    = Some (of_bool (odd (uval t div 2 ^ (r - 1))), utab (length t) (shr_value t r c))"
proof -
  have one: "UInt_Rcr2_one u c = (of_bool (odd (uval u)), utab (length u) (shr_value u 1 c))"
    if "u \<noteq> []" for u
  proof -
    from that have "even (W ^ length u)" by (cases u) (simp_all add: W_def)
    then show ?thesis
      by (simp add: Rcr2_one_result shr_value_def fill_bits_def)
  qed
  have n: "1 < 64 * length t" "2 \<le> 64 * length t" using assms(3) by (cases t; simp)+
  show ?thesis
  proof (cases "r = 1 \<or> r = 2")
    case True
    have "utab (length t) (shr_value t 1 c) \<noteq> []"
      using assms(3) by (metis length_0_conv length_utab)
    from one [OF this] True one [OF assms(3)] show ?thesis
      using shr_carry_bit [of 2 t 1 c] shr_value_utab [of t 1 c 1] n
      by (auto simp: numeral_2_eq_2)
  next
    case False
    with assms show ?thesis
      by (simp add: Rcr2_result shr_value_def)
  qed
qed

lemma Rcr_result:
  assumes "t \<noteq> []"
  shows "UInt_Rcr t b c = Some
    (of_bool (0 < b \<and> b \<le> 64 * length t \<and> odd (uval t div 2 ^ (b - 1))),
     utab (length t) (shr_value t b c))"
proof -
  let ?n = "length t" and ?k = "b div 64"
  consider "b = 0" | "0 < b" "b < 64" | "64 \<le> b" "?n \<le> ?k" | "64 \<le> b" "?k < ?n"
    by linarith
  then show ?thesis
  proof cases
    case 1
    then show ?thesis by (simp add: UInt_Rcr_def)
  next
    case 2
    moreover have "b \<le> 64 * ?n" using 2 assms by (cases t) auto
    ultimately show ?thesis
      using Rcr_small [of b t c] assms by (simp add: UInt_Rcr_def TTMATH_BITS_PER_UINT_def)
  next
    case 3
    then have "(b \<le> 64 * ?n) = (b = 64 * ?n)" by linarith
    with 3 assms show ?thesis
      by (auto simp: UInt_Rcr_def TTMATH_BITS_PER_UINT_def RcrMoveAllWords_result)
  next
    case 4
    then have b: "b \<le> 64 * ?n" "b = 64 * ?k + b mod 64" "b \<noteq> 64 * ?n" by auto
    show ?thesis
    proof (cases "b mod 64 = 0")
      case True
      then have "b = 64 * ?k" using b by simp
      with True 4 b assms show ?thesis
        by (auto simp: UInt_Rcr_def TTMATH_BITS_PER_UINT_def RcrMoveAllWords_result)
    next
      case False
      define u where "u = utab ?n (shr_value t (64 * ?k) c)"
      have u: "u \<noteq> []" "length u = ?n" "uval u = shr_value t (64 * ?k) c"
        using assms by (auto simp: u_def simp flip: length_greater_0_conv)
      have "UInt_Rcr t b c =
          (if b mod 64 = 1 then Some (UInt_Rcr2_one u c)
           else if b mod 64 = 2 then let (_, t) = UInt_Rcr2_one u c in Some (UInt_Rcr2_one t c)
           else UInt_Rcr2 u (b mod 64) c)"
        using False 4 assms
        by (simp add: UInt_Rcr_def TTMATH_BITS_PER_UINT_def RcrMoveAllWords_result u_def)
      also have "\<dots> = Some (of_bool (odd (uval u div 2 ^ (b mod 64 - 1))),
          utab (length u) (shr_value u (b mod 64) c))"
        using False u(1) by (intro Rcr_small) simp_all
      also have "shr_value u (b mod 64) c = shr_value t b c"
        unfolding u_def shr_value_utab using b(2) by simp
      also have "odd (uval u div 2 ^ (b mod 64 - 1)) = odd (uval t div 2 ^ (b - 1))"
        using shr_carry_bit [of b t "64 * ?k" c] b False unfolding u(3)
        by (metis add_diff_cancel_left' less_add_same_cancel1 neq0_conv trans_less_add2)
      finally show ?thesis using b(1) 4(1) u(2) by simp
    qed
  qed
qed

end
