(* ===== verification/UInt_Basic.thy ===== *)
theory UInt_Basic
  imports UInt_Shifts
begin

text \<open>
  The methods of the class \<^verbatim>\<open>UInt\<close> (\<^verbatim>\<open>src/includes/geos/algorithm/ttmath/ttmathuint.h\<close>) that
  set, compare, inspect and convert a value. A method that changes \<^verbatim>\<open>this\<close> returns the new
  table, after its return value when it has one; the template parameter
  \<^verbatim>\<open>value_size\<close> is the length of the table.
\<close>

section \<open>Setting values\<close>

definition UInt_Size :: "utable \<Rightarrow> nat" where
  "UInt_Size table = length table"

definition UInt_SetZero :: "utable \<Rightarrow> utable" where
  "UInt_SetZero table = map (\<lambda>_. 0) table"

definition UInt_SetOne :: "utable \<Rightarrow> utable" where
  "UInt_SetOne table = (UInt_SetZero table)[0 := 1]"

definition UInt_SetMax :: "utable \<Rightarrow> utable" where
  "UInt_SetMax table = map (\<lambda>_. TTMATH_UINT_MAX_VALUE) table"

definition UInt_SetMin :: "utable \<Rightarrow> utable" where
  "UInt_SetMin table = UInt_SetZero table"

fun UInt_Swap :: "utable \<Rightarrow> utable \<Rightarrow> utable \<times> utable" where
  "UInt_Swap (x # xs) (y # ys) = (let (us, vs) = UInt_Swap xs ys in (y # us, x # vs))"
| "UInt_Swap xs ys = (xs, ys)"

text \<open>
  \<^verbatim>\<open>SetFromTable\<close> on a 64-bit platform: the argument holds 32-bit words, the highest first;
  the first argument of the loop is \<open>i + 1\<close>, the second what is left of the words.
\<close>

fun SetFromTable_loop :: "nat \<Rightarrow> uint32 list \<Rightarrow> utable \<Rightarrow> nat \<times> uint32 list \<times> utable" where
  "SetFromTable_loop 0 ws t = (0, ws, t)"
| "SetFromTable_loop (Suc i) [] t = (Suc i, [], t)"
| "SetFromTable_loop (Suc i) [a] t = (i, [], t[i := push_bit 32 (ucast a)])"
| "SetFromTable_loop (Suc i) (a # b # ws) t =
     SetFromTable_loop i ws (t[i := push_bit 32 (ucast a) OR ucast b])"

definition UInt_SetFromTable :: "utable \<Rightarrow> uint32 list \<Rightarrow> utable" where
  "UInt_SetFromTable table temp_table =
     (let (i, ws, table) = SetFromTable_loop (length table) temp_table table;
          table = (case ws of [] \<Rightarrow> table
                   | w # _ \<Rightarrow>
                       if ucast w AND TTMATH_UINT_HIGHEST_BIT \<noteq> 0
                       then if table ! 0 \<noteq> TTMATH_UINT_MAX_VALUE
                            then table[0 := table ! 0 + 1] else table
                       else table)
      in FillDown_loop i 0 table)"

definition UInt_AddOne :: "utable \<Rightarrow> (uint \<times> utable) option" where
  "UInt_AddOne table = UInt_AddInt table 1 0"

definition UInt_SubOne :: "utable \<Rightarrow> (uint \<times> utable) option" where
  "UInt_SubOne table = UInt_SubInt table 1 0"

lemma SetZero_eq [simp]: "UInt_SetZero t = replicate (length t) 0"
  by (simp add: UInt_SetZero_def map_replicate_const)

lemma SetOne_value: "t \<noteq> [] \<Longrightarrow> uval (UInt_SetOne t) = 1"
  by (cases t) (simp_all add: UInt_SetOne_def)

lemma length_SetOne [simp]: "length (UInt_SetOne t) = length t"
  by (simp add: UInt_SetOne_def)

lemma SetMax_value: "uval (UInt_SetMax t) = W ^ length t - 1"
  by (simp add: UInt_SetMax_def map_replicate_const uval_replicate_max)

lemma Swap_eq: "length t = length s \<Longrightarrow> UInt_Swap t s = (s, t)"
  by (induction t s rule: list_induct2) simp_all

lemma AddOne_result: "t \<noteq> [] \<Longrightarrow> UInt_AddOne t = Some (carry_result (length t) (uval t + 1))"
  by (simp add: UInt_AddOne_def AddInt_result)

lemma SubOne_result: "t \<noteq> [] \<Longrightarrow> UInt_SubOne t = Some (borrow_result (length t) (uval t) 1)"
  by (simp add: UInt_SubOne_def SubInt_result)

text \<open>
  The rounding of \<^verbatim>\<open>SetFromTable\<close> never takes place: the tested word has 32 bits and the
  mask is bit 63.
\<close>

lemma ucast_32_bit_63: "(ucast (w :: uint32) :: uint) AND TTMATH_UINT_HIGHEST_BIT = 0"
  by (simp add: and_highest_bit_eq_0_iff bit_ucast_iff) (auto dest: bit_imp_le_length)

lemma SetFromTable_no_rounding:
  "UInt_SetFromTable t ws
     = (let (i, _, u) = SetFromTable_loop (length t) ws t in FillDown_loop i 0 u)"
  by (simp add: UInt_SetFromTable_def ucast_32_bit_63 split: prod.splits list.splits)

section \<open>Comparison\<close>

definition Cmp_words :: "utable \<Rightarrow> int \<Rightarrow> nat" where
  "Cmp_words table index =
     (if index = - 1 \<or> index \<ge> int (length table) then length table else nat (index + 1))"

fun CmpSmaller_loop :: "utable \<Rightarrow> utable \<Rightarrow> nat \<Rightarrow> bool" where
  "CmpSmaller_loop table l 0 = False"
| "CmpSmaller_loop table l (Suc i) =
     (if table ! i \<noteq> l ! i then table ! i < l ! i else CmpSmaller_loop table l i)"

definition UInt_CmpSmaller :: "utable \<Rightarrow> utable \<Rightarrow> int \<Rightarrow> bool" where
  "UInt_CmpSmaller table l index = CmpSmaller_loop table l (Cmp_words table index)"

fun CmpBigger_loop :: "utable \<Rightarrow> utable \<Rightarrow> nat \<Rightarrow> bool" where
  "CmpBigger_loop table l 0 = False"
| "CmpBigger_loop table l (Suc i) =
     (if table ! i \<noteq> l ! i then table ! i > l ! i else CmpBigger_loop table l i)"

definition UInt_CmpBigger :: "utable \<Rightarrow> utable \<Rightarrow> int \<Rightarrow> bool" where
  "UInt_CmpBigger table l index = CmpBigger_loop table l (Cmp_words table index)"

fun CmpEqual_loop :: "utable \<Rightarrow> utable \<Rightarrow> nat \<Rightarrow> bool" where
  "CmpEqual_loop table l 0 = True"
| "CmpEqual_loop table l (Suc i) =
     (if table ! i \<noteq> l ! i then False else CmpEqual_loop table l i)"

definition UInt_CmpEqual :: "utable \<Rightarrow> utable \<Rightarrow> int \<Rightarrow> bool" where
  "UInt_CmpEqual table l index = CmpEqual_loop table l (Cmp_words table index)"

fun CmpSmallerEqual_loop :: "utable \<Rightarrow> utable \<Rightarrow> nat \<Rightarrow> bool" where
  "CmpSmallerEqual_loop table l 0 = True"
| "CmpSmallerEqual_loop table l (Suc i) =
     (if table ! i \<noteq> l ! i then table ! i < l ! i else CmpSmallerEqual_loop table l i)"

definition UInt_CmpSmallerEqual :: "utable \<Rightarrow> utable \<Rightarrow> int \<Rightarrow> bool" where
  "UInt_CmpSmallerEqual table l index = CmpSmallerEqual_loop table l (Cmp_words table index)"

fun CmpBiggerEqual_loop :: "utable \<Rightarrow> utable \<Rightarrow> nat \<Rightarrow> bool" where
  "CmpBiggerEqual_loop table l 0 = True"
| "CmpBiggerEqual_loop table l (Suc i) =
     (if table ! i \<noteq> l ! i then table ! i > l ! i else CmpBiggerEqual_loop table l i)"

definition UInt_CmpBiggerEqual :: "utable \<Rightarrow> utable \<Rightarrow> int \<Rightarrow> bool" where
  "UInt_CmpBiggerEqual table l index = CmpBiggerEqual_loop table l (Cmp_words table index)"

lemma digit_less_iff:
  fixes x y p a b :: nat
  assumes "x < p" "y < p"
  shows "x + p * a < y + p * b \<longleftrightarrow> (if a = b then x < y else a < b)"
proof (cases a b rule: linorder_cases)
  case less
  then have "p * a + p \<le> p * b" by (metis Suc_leI mult_Suc_right mult_le_mono2 add.commute)
  with assms less show ?thesis by simp
next
  case greater
  then have "p * b + p \<le> p * a" by (metis Suc_leI mult_Suc_right mult_le_mono2 add.commute)
  with assms greater show ?thesis by simp
qed simp

lemma uval_take_Suc_less:
  assumes "k < length t" "k < length l"
  shows "uval (take (Suc k) t) < uval (take (Suc k) l)
    \<longleftrightarrow> (if t ! k \<noteq> l ! k then t ! k < l ! k else uval (take k t) < uval (take k l))"
proof -
  have "uval (take k t) < W ^ k" "uval (take k l) < W ^ k"
    by (rule uval_less_le; simp)+
  from digit_less_iff [OF this, of "unat (t ! k)" "unat (l ! k)"] assms show ?thesis
    by (simp add: take_Suc_conv_app_nth uval_append min_absorb2 word_less_nat_alt word_unat_eq_iff)
qed

lemma CmpSmaller_loop_eq:
  "k \<le> length t \<Longrightarrow> k \<le> length l \<Longrightarrow> CmpSmaller_loop t l k = (uval (take k t) < uval (take k l))"
  by (induction k) (simp_all add: uval_take_Suc_less)

lemma CmpBigger_loop_eq:
  "k \<le> length t \<Longrightarrow> k \<le> length l \<Longrightarrow> CmpBigger_loop t l k = (uval (take k t) > uval (take k l))"
  by (induction k) (auto simp: uval_take_Suc_less)

lemma CmpBiggerEqual_loop_eq:
  "k \<le> length t \<Longrightarrow> k \<le> length l \<Longrightarrow>
   CmpBiggerEqual_loop t l k = (uval (take k t) \<ge> uval (take k l))"
  unfolding linorder_not_less [symmetric]
  by (induction k) (auto simp: uval_take_Suc_less simp del: not_less dest: order.asym)

lemma CmpSmallerEqual_loop_eq:
  "k \<le> length t \<Longrightarrow> k \<le> length l \<Longrightarrow>
   CmpSmallerEqual_loop t l k = (uval (take k t) \<le> uval (take k l))"
  unfolding linorder_not_less [symmetric]
  by (induction k) (auto simp: uval_take_Suc_less simp del: not_less dest: order.asym)

lemma CmpEqual_loop_eq:
  "k \<le> length t \<Longrightarrow> k \<le> length l \<Longrightarrow> CmpEqual_loop t l k = (take k t = take k l)"
  by (induction k) (auto simp: take_Suc_conv_app_nth)

lemma Cmp_words_default [simp]: "Cmp_words t (- 1) = length t"
  by (simp add: Cmp_words_def)

lemma Cmp_words_le: "Cmp_words t i \<le> length t"
  by (auto simp: Cmp_words_def nat_le_iff)

lemma Cmp_values:
  assumes "length l = length t"
  shows "UInt_CmpSmaller t l (- 1) = (uval t < uval l)"
    and "UInt_CmpBigger t l (- 1) = (uval t > uval l)"
    and "UInt_CmpEqual t l (- 1) = (uval t = uval l)"
    and "UInt_CmpSmallerEqual t l (- 1) = (uval t \<le> uval l)"
    and "UInt_CmpBiggerEqual t l (- 1) = (uval t \<ge> uval l)"
  using assms uval_inject [of t l]
  by (simp_all add: UInt_CmpSmaller_def UInt_CmpBigger_def UInt_CmpEqual_def UInt_CmpSmallerEqual_def
      UInt_CmpBiggerEqual_def CmpSmaller_loop_eq CmpBigger_loop_eq CmpEqual_loop_eq
      CmpSmallerEqual_loop_eq CmpBiggerEqual_loop_eq)

lemma CmpSmaller_prefix:
  assumes "length l = length t" "i < length t"
  shows "UInt_CmpSmaller t l (int i) = (uval (take (Suc i) t) < uval (take (Suc i) l))"
  using assms CmpSmaller_loop_eq [of "Suc i" t l]
  by (simp add: UInt_CmpSmaller_def Cmp_words_def nat_add_distrib del: CmpSmaller_loop.simps)

definition UInt_less :: "utable \<Rightarrow> utable \<Rightarrow> bool" where
  "UInt_less table l = UInt_CmpSmaller table l (- 1)"

definition UInt_greater :: "utable \<Rightarrow> utable \<Rightarrow> bool" where
  "UInt_greater table l = UInt_CmpBigger table l (- 1)"

definition UInt_equal :: "utable \<Rightarrow> utable \<Rightarrow> bool" where
  "UInt_equal table l = UInt_CmpEqual table l (- 1)"

definition UInt_not_equal :: "utable \<Rightarrow> utable \<Rightarrow> bool" where
  "UInt_not_equal table l = (\<not> UInt_equal table l)"

definition UInt_less_equal :: "utable \<Rightarrow> utable \<Rightarrow> bool" where
  "UInt_less_equal table l = UInt_CmpSmallerEqual table l (- 1)"

definition UInt_greater_equal :: "utable \<Rightarrow> utable \<Rightarrow> bool" where
  "UInt_greater_equal table l = UInt_CmpBiggerEqual table l (- 1)"

section \<open>Tests\<close>

definition UInt_IsTheHighestBitSet :: "utable \<Rightarrow> bool" where
  "UInt_IsTheHighestBitSet table = (table ! (length table - 1) AND TTMATH_UINT_HIGHEST_BIT \<noteq> 0)"

definition UInt_IsTheLowestBitSet :: "utable \<Rightarrow> bool" where
  "UInt_IsTheLowestBitSet table = (table ! 0 AND 1 \<noteq> 0)"

fun all_zero :: "utable \<Rightarrow> bool" where
  "all_zero [] = True"
| "all_zero (w # ws) = (if w \<noteq> 0 then False else all_zero ws)"

definition UInt_IsOnlyTheHighestBitSet :: "utable \<Rightarrow> bool" where
  "UInt_IsOnlyTheHighestBitSet table =
     (if \<not> all_zero (take (length table - 1) table) then False
      else if table ! (length table - 1) \<noteq> TTMATH_UINT_HIGHEST_BIT then False
      else True)"

definition UInt_IsOnlyTheLowestBitSet :: "utable \<Rightarrow> bool" where
  "UInt_IsOnlyTheLowestBitSet table =
     (if table ! 0 \<noteq> 1 then False else all_zero (drop 1 table))"

definition UInt_IsZero :: "utable \<Rightarrow> bool" where
  "UInt_IsZero table = all_zero table"

definition UInt_AreFirstBitsZero :: "utable \<Rightarrow> nat \<Rightarrow> bool option" where
  "UInt_AreFirstBitsZero table bits =
     (if bits \<le> length table * TTMATH_BITS_PER_UINT
      then let index = bits div TTMATH_BITS_PER_UINT;
               rest = bits mod TTMATH_BITS_PER_UINT
           in Some (if \<not> all_zero (take index table) then False
                    else if rest = 0 then True
                    else let m = drop_bit (TTMATH_BITS_PER_UINT - rest) TTMATH_UINT_MAX_VALUE
                         in table ! index AND m = 0)
      else None)"

lemma all_zero_iff: "all_zero t = (uval t = 0)"
  by (induction t) (simp_all add: unat_eq_0)

lemma IsZero_iff [simp]: "UInt_IsZero t = (uval t = 0)"
  by (simp add: UInt_IsZero_def all_zero_iff)

lemma IsTheHighestBitSet_iff:
  assumes "t \<noteq> []"
  shows "UInt_IsTheHighestBitSet t = (W ^ length t div 2 \<le> uval t)"
proof -
  let ?n = "length t"
  have n: "0 < ?n" using assms by simp
  then have e: "64 * Suc (?n - 1) - 1 = 64 * ?n - 1" by simp
  have p: "W ^ ?n = 2 ^ (64 * ?n - 1) * 2"
    unfolding W_power using n by (simp flip: power_Suc2)
  have "UInt_IsTheHighestBitSet t = odd (uval t div 2 ^ (64 * ?n - 1))"
    using top_bit_word [of "?n - 1" t, unfolded e] n
    by (simp add: UInt_IsTheHighestBitSet_def and_highest_bit_iff)
  also have "\<dots> = (2 ^ (64 * ?n - 1) \<le> uval t mod 2 ^ (64 * ?n))"
    by (rule mod_pow_high_bit [symmetric]) (use n in simp)
  also have "uval t mod 2 ^ (64 * ?n) = uval t"
    using uval_less [of t] by (simp add: W_power)
  finally show ?thesis by (simp add: p)
qed

lemma IsOnlyTheLowestBitSet_iff:
  "t \<noteq> [] \<Longrightarrow> UInt_IsOnlyTheLowestBitSet t = (uval t = 1)"
proof -
  assume "t \<noteq> []"
  then obtain w ws where t: "t = w # ws" by (cases t) auto
  have "(unat w + W * uval ws = 1) = (unat w = 1 \<and> uval ws = 0)"
    using unat_less_W [of w] by (cases "uval ws") (auto simp: W_def)
  then show ?thesis
    by (auto simp: t UInt_IsOnlyTheLowestBitSet_def all_zero_iff word_unat_eq_iff)
qed

lemma IsOnlyTheHighestBitSet_iff:
  assumes "t \<noteq> []"
  shows "UInt_IsOnlyTheHighestBitSet t = (uval t = W ^ length t div 2)"
proof -
  obtain ws w where t: "t = ws @ [w]" using assms by (metis rev_exhaust)
  have half: "W ^ length t div 2 = W ^ length ws * (W div 2)"
    by (simp add: t W_def)
  have "(uval ws + W ^ length ws * unat w = W ^ length ws * (W div 2)) = (uval ws = 0 \<and> unat w = W div 2)"
  proof
    assume eq: "uval ws + W ^ length ws * unat w = W ^ length ws * (W div 2)"
    from arg_cong [OF eq, of "\<lambda>z. z mod W ^ length ws"] have "uval ws = 0"
      by (simp add: uval_less)
    with eq show "uval ws = 0 \<and> unat w = W div 2" by simp
  qed simp
  moreover have "unat TTMATH_UINT_HIGHEST_BIT = W div 2"
    by (simp add: TTMATH_UINT_HIGHEST_BIT_def W_def)
  moreover have "UInt_IsOnlyTheHighestBitSet t = (uval ws = 0 \<and> w = TTMATH_UINT_HIGHEST_BIT)"
    by (simp add: t UInt_IsOnlyTheHighestBitSet_def all_zero_iff)
  ultimately show ?thesis
    unfolding half by (simp add: t uval_append word_unat_eq_iff)
qed

end
