(* ===== verification/UInt_Bits.thy ===== *)
theory UInt_Bits
  imports UInt_Basic
begin

text \<open>
  The bit operations of the class \<^verbatim>\<open>UInt\<close> (\<^verbatim>\<open>ttmathuint.h\<close>): the search for the highest and
  the lowest set bit, reading and setting one bit, the bitwise connectives, the complement
  below the leading bit, clearing low bits and the shift that brings the leading bit to the
  top. Each is described on the number the table stands for.
\<close>

section \<open>Bits\<close>

fun FindTop_loop :: "utable \<Rightarrow> nat \<Rightarrow> nat" where
  "FindTop_loop table 0 = 0"
| "FindTop_loop table (Suc i) = (if table ! Suc i = 0 then FindTop_loop table i else Suc i)"

definition UInt_FindLeadingBit :: "utable \<Rightarrow> (bool \<times> nat \<times> nat) option" where
  "UInt_FindLeadingBit table =
     (let table_id = FindTop_loop table (length table - 1)
      in if table_id = 0 \<and> table ! table_id = 0 then Some (False, table_id, 0)
         else do {
           index \<leftarrow> UInt_FindLeadingBitInWord (table ! table_id);
           Some (True, table_id, unat index)
         })"

fun FindBottom_loop :: "utable \<Rightarrow> nat" where
  "FindBottom_loop [] = 0"
| "FindBottom_loop (w # ws) = (if w = 0 then Suc (FindBottom_loop ws) else 0)"

definition UInt_FindLowestBit :: "utable \<Rightarrow> (bool \<times> nat \<times> nat) option" where
  "UInt_FindLowestBit table =
     (let table_id = FindBottom_loop table
      in if table_id \<ge> length table then Some (False, 0, 0)
         else do {
           index \<leftarrow> UInt_FindLowestBitInWord (table ! table_id);
           Some (True, table_id, unat index)
         })"

definition UInt_GetBit :: "utable \<Rightarrow> nat \<Rightarrow> uint option" where
  "UInt_GetBit table bit_index =
     (if bit_index < length table * TTMATH_BITS_PER_UINT
      then let index = bit_index div TTMATH_BITS_PER_UINT;
               b = bit_index mod TTMATH_BITS_PER_UINT
           in map_option fst (UInt_SetBitInWord (table ! index) b)
      else None)"

definition UInt_SetBit :: "utable \<Rightarrow> nat \<Rightarrow> (uint \<times> utable) option" where
  "UInt_SetBit table bit_index =
     (if bit_index < length table * TTMATH_BITS_PER_UINT
      then let index = bit_index div TTMATH_BITS_PER_UINT;
               b = bit_index mod TTMATH_BITS_PER_UINT
           in map_option (\<lambda>(res, w). (res, table[index := w])) (UInt_SetBitInWord (table ! index) b)
      else None)"

definition UInt_BitAnd :: "utable \<Rightarrow> utable \<Rightarrow> utable" where
  "UInt_BitAnd table ss2 = map2 (AND) table ss2"

definition UInt_BitOr :: "utable \<Rightarrow> utable \<Rightarrow> utable" where
  "UInt_BitOr table ss2 = map2 (OR) table ss2"

definition UInt_BitXor :: "utable \<Rightarrow> utable \<Rightarrow> utable" where
  "UInt_BitXor table ss2 = map2 (XOR) table ss2"

definition UInt_BitNot :: "utable \<Rightarrow> utable" where
  "UInt_BitNot table = map NOT table"

definition UInt_BitNot2 :: "utable \<Rightarrow> utable option" where
  "UInt_BitNot2 table = do {
     (found, table_id, index) \<leftarrow> UInt_FindLeadingBit table;
     Some (if found
       then let low = map NOT (take table_id table);
                shift = TTMATH_BITS_PER_UINT - index - 1;
                m = (if shift \<noteq> 0 then drop_bit shift TTMATH_UINT_MAX_VALUE
                     else TTMATH_UINT_MAX_VALUE)
            in low @ (table ! table_id XOR m) # drop (table_id + 1) table
       else table[0 := 1])
   }"

definition UInt_CompensationToLeft :: "utable \<Rightarrow> (nat \<times> utable) option" where
  "UInt_CompensationToLeft table =
     (let value_size = length table;
          a = FindTop_loop table (value_size - 1)
      in if a = 0 \<and> table ! a = 0 then Some (0, table)
         else let moving = (value_size - 1 - a) * TTMATH_BITS_PER_UINT;
                  table = (if a \<noteq> value_size - 1
                           then FillDown_loop (value_size - 1 - a) 0
                                  (MoveUp_loop (a + 1) (value_size - 1 - a) table)
                           else table)
              in do {
                moving2 \<leftarrow> UInt_FindLeadingBitInWord (table ! (value_size - 1));
                let moving2 = TTMATH_BITS_PER_UINT - unat moving2 - 1;
                (_, table) \<leftarrow> UInt_Rcl table moving2 0;
                Some (moving + moving2, table)
              })"

fun ClearFirstBits_loop :: "utable \<Rightarrow> nat \<Rightarrow> utable" where
  "ClearFirstBits_loop [] n = []"
| "ClearFirstBits_loop (w # ws) n =
     (if n \<ge> TTMATH_BITS_PER_UINT then 0 # ClearFirstBits_loop ws (n - TTMATH_BITS_PER_UINT)
      else if n = 0 then w # ws
      else (w AND push_bit n TTMATH_UINT_MAX_VALUE) # ws)"

definition UInt_ClearFirstBits :: "utable \<Rightarrow> nat \<Rightarrow> utable" where
  "UInt_ClearFirstBits table n =
     (if n \<ge> length table * TTMATH_BITS_PER_UINT then UInt_SetZero table
      else ClearFirstBits_loop table n)"

lemma uval_bit: "bit (uval t) i = (i < 64 * length t \<and> bit (t ! (i div 64)) (i mod 64))"
proof (cases "i < 64 * length t")
  case True
  then have k: "i div 64 < length t" by auto
  have "uval t div 2 ^ i = uval t div W ^ (i div 64) div 2 ^ (i mod 64)"
    unfolding W_power by (simp add: div_mult2_eq [symmetric] power_add [symmetric])
  then have "bit (uval t) i = bit (uval t div W ^ (i div 64)) (i mod 64)"
    by (simp add: bit_iff_odd)
  also have "\<dots> = bit (take_bit 64 (uval t div W ^ (i div 64))) (i mod 64)"
    by (simp add: bit_take_bit_iff)
  also have "take_bit 64 (uval t div W ^ (i div 64)) = unat (t ! (i div 64))"
    using uval_nth [OF k] by (simp only: take_bit_eq_mod W_def)
  finally show ?thesis using True by (simp add: bit_unsigned_iff)
next
  case False
  then have "W ^ length t \<le> 2 ^ i" unfolding W_power by (intro power_increasing) simp_all
  then have "uval t < 2 ^ i" using uval_less [of t] by linarith
  then show ?thesis using False by (simp add: bit_iff_odd)
qed

lemma uval_bitI: "(\<And>i. i < 64 * n \<Longrightarrow> bit x i = bit y i) \<Longrightarrow> x < W ^ n \<Longrightarrow> y < W ^ n \<Longrightarrow> x = (y :: nat)"
  unfolding W_power by (metis bit_take_bit_iff bit_eqI take_bit_nat_eq_self)

lemma BitAnd_value:
  "length s = length t \<Longrightarrow> uval (UInt_BitAnd t s) = uval t AND uval s"
  by (rule bit_eqI) (auto simp: UInt_BitAnd_def uval_bit bit_and_iff)

lemma BitOr_value:
  "length s = length t \<Longrightarrow> uval (UInt_BitOr t s) = uval t OR uval s"
  by (rule bit_eqI) (auto simp: UInt_BitOr_def uval_bit bit_or_iff)

lemma BitXor_value:
  "length s = length t \<Longrightarrow> uval (UInt_BitXor t s) = uval t XOR uval s"
  by (rule bit_eqI) (auto simp: UInt_BitXor_def uval_bit bit_xor_iff)

lemma unat_not: "unat (NOT w :: uint) + unat w = W - 1"
proof -
  have "NOT w = TTMATH_UINT_MAX_VALUE - w"
    by (simp add: not_eq_complement max_value_mask)
  moreover have "w \<le> TTMATH_UINT_MAX_VALUE"
    by (simp add: max_value_mask)
  ultimately have "unat (NOT w) = W - 1 - unat w"
    by (simp only: unat_sub unat_max_value)
  then show ?thesis using unat_less_W [of w] by linarith
qed

lemma BitNot_value: "uval (UInt_BitNot t) + uval t = W ^ length t - 1"
proof (induction t)
  case (Cons w ws)
  have "uval (UInt_BitNot (w # ws)) + uval (w # ws)
      = (unat (NOT w) + unat w) + W * (uval (UInt_BitNot ws) + uval ws)"
    by (simp add: UInt_BitNot_def algebra_simps)
  also have "\<dots> = (W - 1) + W * (W ^ length ws - 1)"
    by (simp only: unat_not Cons.IH)
  also have "\<dots> = W ^ length (w # ws) - 1"
    using uval_replicate_max [of "Suc (length ws)"]
    by (simp add: uval_replicate_max unat_max_value)
  finally show ?case .
qed (simp add: UInt_BitNot_def)

lemma GetBit_value:
  assumes "i < 64 * length t"
  shows "UInt_GetBit t i = Some (of_bool (bit (uval t) i))"
  using assms by (simp add: UInt_GetBit_def TTMATH_BITS_PER_UINT_def SetBitInWord_value uval_bit mult.commute)

lemma SetBit_value:
  assumes "i < 64 * length t"
  shows "UInt_SetBit t i = Some (of_bool (bit (uval t) i), utab (length t) (set_bit i (uval t)))"
proof -
  let ?t = "t[i div 64 := set_bit (i mod 64) (t ! (i div 64))]"
  have "UInt_SetBit t i = Some (of_bool (bit (uval t) i), ?t)"
    using assms by (simp add: UInt_SetBit_def TTMATH_BITS_PER_UINT_def SetBitInWord_value uval_bit mult.commute Let_def)
  moreover have "uval ?t = set_bit i (uval t)"
  proof (rule bit_eqI)
    fix j
    have "i = j" if "j div 64 = i div 64" "i mod 64 = j mod 64"
      using that by (metis div_mult_mod_eq)
    with assms show "bit (uval ?t) j = bit (set_bit i (uval t)) j"
      by (cases "j div 64 = i div 64") (auto simp: uval_bit bit_set_bit_iff nth_list_update)
  qed
  ultimately show ?thesis
    using utab_uval [of ?t] by simp
qed

lemma uval_take_pos:
  assumes "i < length t" "t ! i \<noteq> 0" "\<forall>j. i < j \<and> j < length t \<longrightarrow> t ! j = 0"
  shows "uval t = uval (take i t) + W ^ i * unat (t ! i)"
proof -
  have "drop i t = t ! i # drop (Suc i) t"
    using assms(1) by (simp add: Cons_nth_drop_Suc)
  moreover have "uval (drop (Suc i) t) = 0"
    unfolding uval_eq_0_iff using assms(3) by (auto simp: in_set_conv_nth)
  ultimately show ?thesis
    using assms(1) uval_split [of t i] by (simp add: min_absorb1)
qed

lemma FindTop_loop_spec:
  "k < length t \<Longrightarrow> FindTop_loop t k \<le> k \<and>
     (\<forall>j. FindTop_loop t k < j \<and> j \<le> k \<longrightarrow> t ! j = 0) \<and>
     (FindTop_loop t k \<noteq> 0 \<longrightarrow> t ! FindTop_loop t k \<noteq> 0)"
proof (induction k)
  case (Suc k)
  then show ?case by (auto simp: le_Suc_eq)
qed simp

lemma FindTop_value:
  assumes "t \<noteq> []"
  defines "m \<equiv> FindTop_loop t (length t - 1)"
  shows "m < length t" "\<forall>j. m < j \<and> j < length t \<longrightarrow> t ! j = 0" "(t ! m = 0) = (uval t = 0)"
    "uval t = uval (take m t) + W ^ m * unat (t ! m)" "m = 0 \<or> t ! m \<noteq> 0"
proof -
  have "length t - 1 < length t" using assms(1) by simp
  note spec = FindTop_loop_spec [OF this, folded m_def]
  show m: "m < length t" using spec assms(1) by (cases t) auto
  show top: "\<forall>j. m < j \<and> j < length t \<longrightarrow> t ! j = 0" using spec by auto
  show "m = 0 \<or> t ! m \<noteq> 0" using spec by blast
  show v: "uval t = uval (take m t) + W ^ m * unat (t ! m)"
  proof (cases "t ! m = 0")
    case False
    then show ?thesis by (rule uval_take_pos [OF m _ top])
  next
    case True
    then have "m = 0" using spec by blast
    with True top have "uval t = 0" unfolding uval_eq_0_iff
      by (auto simp: in_set_conv_nth) (metis gr0I)
    with True \<open>m = 0\<close> show ?thesis by simp
  qed
  show "(t ! m = 0) = (uval t = 0)"
  proof
    assume "t ! m = 0"
    then have "m = 0" using spec by blast
    with v \<open>t ! m = 0\<close> show "uval t = 0" by simp
  next
    assume "uval t = 0"
    with m show "t ! m = 0" unfolding uval_eq_0_iff by simp
  qed
qed

lemma leading_bit_split:
  assumes "2 ^ k \<le> unat (t ! m)" "unat (t ! m) < 2 ^ Suc k"
    "uval t = uval (take m t) + W ^ m * unat (t ! m)"
  shows "2 ^ (64 * m + k) \<le> uval t \<and> uval t < 2 ^ Suc (64 * m + k)"
proof -
  have "W ^ m * 2 ^ k \<le> W ^ m * unat (t ! m)" using assms(1) by simp
  moreover have "uval (take m t) < W ^ m" by (rule uval_less_le) simp
  moreover have "W ^ m * (unat (t ! m) + 1) \<le> W ^ m * 2 ^ Suc k"
    using assms(2) by (intro mult_le_mono2) simp
  moreover have "W ^ m * (unat (t ! m) + 1) = W ^ m * unat (t ! m) + W ^ m"
    by simp
  ultimately have "W ^ m * 2 ^ k \<le> uval t" "uval t < W ^ m * 2 ^ Suc k"
    unfolding assms(3) by linarith+
  then show ?thesis
    by (simp add: W_power power_add)
qed

lemma leading_bit_unique:
  assumes "2 ^ k \<le> x" "x < 2 ^ Suc k" "2 ^ j \<le> x" "x < (2 :: nat) ^ Suc j"
  shows "k = j"
proof -
  have "(2 :: nat) ^ k < 2 ^ Suc j" "(2 :: nat) ^ j < 2 ^ Suc k" using assms by linarith+
  then have "k < Suc j" "j < Suc k" by (simp_all only: power_strict_increasing_iff one_less_numeral_iff semiring_norm)
  then show ?thesis by simp
qed

lemma FindLeadingBit_value:
  assumes "t \<noteq> []"
  shows "uval t = 0 \<Longrightarrow> UInt_FindLeadingBit t = Some (False, 0, 0)"
    and "2 ^ k \<le> uval t \<Longrightarrow> uval t < 2 ^ Suc k \<Longrightarrow>
      UInt_FindLeadingBit t = Some (True, k div 64, k mod 64) \<and>
      FindTop_loop t (length t - 1) = k div 64"
proof -
  let ?m = "FindTop_loop t (length t - 1)"
  note top = FindTop_value [OF assms]
  {
    assume "uval t = 0"
    with top have "t ! ?m = 0" "?m = 0" by auto
    then show "UInt_FindLeadingBit t = Some (False, 0, 0)"
      by (simp add: UInt_FindLeadingBit_def)
  }
  assume k: "2 ^ k \<le> uval t" "uval t < 2 ^ Suc k"
  then have "uval t \<noteq> 0" by (metis not_less_eq_eq le_0_eq power_not_zero zero_neq_numeral)
  then have nz: "t ! ?m \<noteq> 0" using top(3) by simp
  then obtain j where j: "2 ^ j \<le> unat (t ! ?m)" "unat (t ! ?m) < 2 ^ Suc j" "j \<le> 63"
    by (rule uint_leading_bit)
  have "k = 64 * ?m + j"
    using leading_bit_unique [OF k] leading_bit_split [OF j(1,2) top(4)] by blast
  then have "?m = k div 64" "j = k mod 64" using j(3) by simp_all
  moreover have "unat (of_nat j :: sint) = j"
    using j(3) by (intro unat_of_nat_small) (simp add: W_def)
  ultimately show "UInt_FindLeadingBit t = Some (True, k div 64, k mod 64) \<and> ?m = k div 64"
    using nz FindLeadingBitInWord_value [OF j] by (simp add: UInt_FindLeadingBit_def)
qed

lemma leading_bit_exists:
  assumes "0 < (x :: nat)"
  obtains k where "2 ^ k \<le> x" "x < 2 ^ Suc k"
proof -
  have "\<exists>k. x < 2 ^ k" using less_exp by blast
  then obtain k where k: "x < 2 ^ k" "\<And>j. j < k \<Longrightarrow> \<not> x < 2 ^ j"
    using exists_least_iff [of "\<lambda>k. x < 2 ^ k"] by blast
  with assms obtain j where "k = Suc j" by (cases k) auto
  with k that [of j] show ?thesis by (simp add: not_less)
qed

lemma leading_bit_less:
  assumes "2 ^ k \<le> uval t"
  shows "k < 64 * length t"
proof (rule ccontr)
  assume "\<not> k < 64 * length t"
  then have "(2 :: nat) ^ (64 * length t) \<le> 2 ^ k" by (intro power_increasing) simp_all
  with assms uval_less [of t] show False by (simp add: W_power)
qed

text \<open>The lowest set bit.\<close>

lemma FindBottom_loop_value:
  assumes "uval t \<noteq> 0"
  shows "FindBottom_loop t < length t \<and> t ! FindBottom_loop t \<noteq> 0 \<and>
    (\<exists>h. uval t = W ^ FindBottom_loop t * (unat (t ! FindBottom_loop t) + W * h))"
  using assms
proof (induction t)
  case (Cons w ws)
  show ?case
  proof (cases "w = 0")
    case True
    with Cons obtain h where "FindBottom_loop ws < length ws" "ws ! FindBottom_loop ws \<noteq> 0"
      "uval ws = W ^ FindBottom_loop ws * (unat (ws ! FindBottom_loop ws) + W * h)" by auto
    with True show ?thesis by (auto simp: mult.assoc)
  next
    case False
    then show ?thesis by (auto intro: exI [of _ "uval ws"])
  qed
qed simp

lemma odd_part:
  assumes "0 < (x :: nat)"
  obtains k m where "x = 2 ^ k * m" "odd m"
proof -
  have "\<exists>k m. x = 2 ^ k * m \<and> odd m"
    using assms
  proof (induction x rule: less_induct)
    case (less x)
    show ?case
    proof (cases "even x")
      case True
      then obtain y where y: "x = 2 * y" by (rule evenE)
      then have "y < x" "0 < y" using less.prems by simp_all
      with less.IH obtain k m where "y = 2 ^ k * m" "odd m" by blast
      then have "x = 2 ^ Suc k * m" using y by simp
      with \<open>odd m\<close> show ?thesis by blast
    next
      case False
      then have "x = 2 ^ 0 * x \<and> odd x" by simp
      then show ?thesis by blast
    qed
  qed
  then show ?thesis using that by blast
qed

lemma FindLowestBit_value:
  assumes "t \<noteq> []"
  shows "uval t = 0 \<Longrightarrow> UInt_FindLowestBit t = Some (False, 0, 0)"
    and "uval t \<noteq> 0 \<Longrightarrow> \<exists>k. UInt_FindLowestBit t = Some (True, k div 64, k mod 64) \<and>
      2 ^ k dvd uval t \<and> odd (uval t div 2 ^ k)"
proof -
  have "FindBottom_loop ws = length ws" if "uval ws = 0" for ws
    using that by (induction ws) (simp_all add: unat_eq_0)
  then show "uval t = 0 \<Longrightarrow> UInt_FindLowestBit t = Some (False, 0, 0)" by (simp add: UInt_FindLowestBit_def)
  assume "uval t \<noteq> 0"
  let ?b = "FindBottom_loop t"
  obtain h where b: "?b < length t" "t ! ?b \<noteq> 0" "uval t = W ^ ?b * (unat (t ! ?b) + W * h)"
    using FindBottom_loop_value [OF \<open>uval t \<noteq> 0\<close>] by blast
  have "0 < unat (t ! ?b)" using b(2) by (simp add: unat_gt_0)
  then obtain j m where j: "unat (t ! ?b) = 2 ^ j * m" "odd m" using odd_part by blast
  have "j < 64"
  proof -
    have "2 ^ j * 1 \<le> 2 ^ j * m" using j(2) by (intro mult_le_mono2) (cases m, auto)
    then have "(2 :: nat) ^ j < 2 ^ 64" using unat_less_W [of "t ! ?b"] j(1) unfolding W_def by linarith
    then show ?thesis by (rule power_less_imp_less_exp [rotated]) simp
  qed
  let ?k = "64 * ?b + j"
  have W: "W = 2 ^ j * 2 ^ (64 - j)" using \<open>j < 64\<close> by (intro W_split) simp
  have "uval t = 2 ^ ?k * (m + 2 ^ (64 - j) * h)"
    unfolding b(3) j(1) by (subst (2) W) (simp add: W_power power_add algebra_simps)
  moreover have "odd (m + 2 ^ (64 - j) * h)" using j(2) \<open>j < 64\<close> by simp
  moreover have "UInt_FindLowestBit t = Some (True, ?k div 64, ?k mod 64)"
    using b(1) FindLowestBitInWord_value [OF j(2,1)] \<open>j < 64\<close> unat_of_nat_small [of j]
    by (simp add: UInt_FindLowestBit_def W_def)
  ultimately show "\<exists>k. UInt_FindLowestBit t = Some (True, k div 64, k mod 64) \<and>
      2 ^ k dvd uval t \<and> odd (uval t div 2 ^ k)"
    by (intro exI [of _ ?k]) simp
qed

text \<open>Clearing and testing low bits.\<close>

lemma clear_low_bits:
  assumes "k < 64"
  shows "unat (w AND push_bit k TTMATH_UINT_MAX_VALUE) = unat w div 2 ^ k * 2 ^ k"
proof -
  have "w AND push_bit k TTMATH_UINT_MAX_VALUE = push_bit k (drop_bit k w)"
    unfolding max_value_mask
    by (rule bit_word_eqI) (auto simp: bit_and_iff bit_push_bit_iff bit_drop_bit_eq bit_not_iff bit_mask_iff)
  moreover have "unat w div 2 ^ k * 2 ^ k < W"
    using unat_less_W [of w] by (meson div_times_less_eq_dividend le_less_trans)
  ultimately show ?thesis by (simp only: push_bit_uint drop_bit_uint mod_less)
qed

lemma ClearFirstBits_loop_value:
  "uval (ClearFirstBits_loop t n) = uval t div 2 ^ n * 2 ^ n"
proof (induction t n rule: ClearFirstBits_loop.induct)
  case (2 w ws n)
  let ?x = "unat w + W * uval ws"
  consider "64 \<le> n" | "n = 0" | "0 < n" "n < 64" by linarith
  then show ?case
  proof cases
    case 1
    then have p: "(2 :: nat) ^ n = W * 2 ^ (n - 64)"
      unfolding W_def power_add [symmetric] by simp
    have "?x div W = uval ws" by simp
    then have "?x div 2 ^ n * 2 ^ n = W * (uval ws div 2 ^ (n - 64) * 2 ^ (n - 64))"
      unfolding p div_mult2_eq by (simp add: ac_simps)
    with 1 "2.IH" show ?thesis by (simp add: TTMATH_BITS_PER_UINT_def)
  next
    case 2
    then show ?thesis by (simp add: TTMATH_BITS_PER_UINT_def)
  next
    case 3
    then have p: "W = 2 ^ n * 2 ^ (64 - n)" by (intro W_split) simp
    have "?x div 2 ^ n * 2 ^ n = (unat w div 2 ^ n + 2 ^ (64 - n) * uval ws) * 2 ^ n"
      unfolding p by (simp add: mult.assoc div_mult_self4)
    also have "\<dots> = unat w div 2 ^ n * 2 ^ n + W * uval ws"
      unfolding p by (simp add: algebra_simps)
    finally show ?thesis using 3 clear_low_bits [of n w] by (simp add: TTMATH_BITS_PER_UINT_def)
  qed
qed simp

lemma length_ClearFirstBits_loop [simp]: "length (ClearFirstBits_loop t n) = length t"
  by (induction t n rule: ClearFirstBits_loop.induct) simp_all

lemma ClearFirstBits_value:
  "uval (UInt_ClearFirstBits t n) = uval t div 2 ^ n * 2 ^ n"
proof (cases "n \<ge> length t * 64")
  case True
  then have "W ^ length t \<le> 2 ^ n" unfolding W_power by (intro power_increasing) simp_all
  then have "uval t < 2 ^ n" using uval_less [of t] by linarith
  with True show ?thesis by (simp add: UInt_ClearFirstBits_def TTMATH_BITS_PER_UINT_def)
next
  case False
  then show ?thesis by (simp add: UInt_ClearFirstBits_def TTMATH_BITS_PER_UINT_def ClearFirstBits_loop_value)
qed

lemma AreFirstBitsZero_value:
  assumes "k \<le> 64 * length t"
  shows "UInt_AreFirstBitsZero t k = Some (2 ^ k dvd uval t)"
proof -
  let ?i = "k div 64" and ?r = "k mod 64"
  have p: "(2 :: nat) ^ k = W ^ ?i * 2 ^ ?r"
    unfolding W_power power_add [symmetric] by simp
  have low: "all_zero (take ?i t) = (uval t mod W ^ ?i = 0)" by (simp only: all_zero_iff uval_take)
  have split: "uval t mod 2 ^ k = W ^ ?i * (uval t div W ^ ?i mod 2 ^ ?r) + uval t mod W ^ ?i"
    unfolding p by (rule mod_mult2_eq)
  have mask: "(w AND drop_bit (64 - ?r) TTMATH_UINT_MAX_VALUE = 0) = (unat w mod 2 ^ ?r = 0)" for w
  proof -
    have "w AND drop_bit (64 - ?r) TTMATH_UINT_MAX_VALUE = take_bit ?r w"
      unfolding max_value_mask
      by (rule bit_word_eqI) (auto simp: bit_and_iff bit_drop_bit_eq bit_take_bit_iff bit_mask_iff)
    moreover have "unat (take_bit ?r w) = unat w mod 2 ^ ?r"
      by (simp only: unsigned_take_bit_eq) (simp only: take_bit_eq_mod)
    ultimately show ?thesis by (metis unat_eq_0)
  qed
  show ?thesis
  proof (cases "?r = 0")
    case True
    with split have "(2 ^ k dvd uval t) = (uval t mod W ^ ?i = 0)" by (simp add: dvd_eq_mod_eq_0)
    with True low assms show ?thesis
      by (simp add: UInt_AreFirstBitsZero_def TTMATH_BITS_PER_UINT_def Let_def)
  next
    case False
    have "k = 64 * ?i + ?r" by simp
    then have i: "?i < length t" using assms False by linarith
    have "unat (t ! ?i) mod 2 ^ ?r = uval t div W ^ ?i mod 2 ^ ?r"
    proof -
      have "(2 :: nat) ^ ?r dvd W" unfolding W_def by (intro le_imp_power_dvd) simp
      then show ?thesis using uval_nth [OF i] by (simp add: mod_mod_cancel)
    qed
    then have "(2 ^ k dvd uval t) = (all_zero (take ?i t) \<and> (t ! ?i AND drop_bit (64 - ?r) TTMATH_UINT_MAX_VALUE = 0))"
      unfolding dvd_eq_mod_eq_0 split low mask by (simp add: conj_commute)
    with False assms show ?thesis
      unfolding UInt_AreFirstBitsZero_def TTMATH_BITS_PER_UINT_def Let_def
      by (simp only: not_le if_False if_True split: if_split) simp
  qed
qed

text \<open>The complement below the leading bit.\<close>

lemma BitNot2_bit:
  assumes "t \<noteq> []" "2 ^ k \<le> uval t" "uval t < 2 ^ Suc k"
  shows "\<exists>r. UInt_BitNot2 t = Some r \<and> length r = length t \<and>
    (\<forall>i. bit (uval r) i = (i \<le> k \<and> \<not> bit (uval t) i))"
proof -
  let ?id = "k div 64" and ?j = "k mod 64"
  have id: "?id < length t" using leading_bit_less [OF assms(2)] by auto
  define m where "m = (if 63 - ?j \<noteq> 0 then drop_bit (63 - ?j) TTMATH_UINT_MAX_VALUE else TTMATH_UINT_MAX_VALUE)"
  have m: "bit m i = (i \<le> ?j)" if "i < 64" for i
    using that by (auto simp: m_def max_value_mask bit_drop_bit_eq bit_mask_iff)
  define r where "r = map NOT (take ?id t) @ (t ! ?id XOR m) # drop (?id + 1) t"
  have run: "UInt_BitNot2 t = Some r"
    using FindLeadingBit_value(2) [OF assms] by (simp add: UInt_BitNot2_def r_def m_def TTMATH_BITS_PER_UINT_def)
  have len: "length r = length t" using id by (simp add: r_def)
  have nth: "r ! q = (if q < ?id then NOT (t ! q) else if q = ?id then t ! ?id XOR m else t ! q)"
    if "q < length t" for q using that id by (auto simp: r_def nth_append nth_Cons')
  have high: "\<not> bit (uval t) i" if "k < i" for i
  proof -
    have "(2 :: nat) ^ Suc k \<le> 2 ^ i" using that by (intro power_increasing) simp_all
    then have "uval t < 2 ^ i" using assms(3) by linarith
    then show ?thesis by (simp add: bit_iff_odd)
  qed
  have "bit (uval r) i = (i \<le> k \<and> \<not> bit (uval t) i)" for i
  proof (cases "i < 64 * length t")
    case False
    then have "k < i" using leading_bit_less [OF assms(2)] by simp
    with False show ?thesis by (simp add: uval_bit len)
  next
    case True
    let ?q = "i div 64"
    have q: "?q < length t" using True by auto
    have e: "bit (uval r) i = bit (r ! ?q) (i mod 64)" "bit (uval t) i = bit (t ! ?q) (i mod 64)"
      using True by (simp_all add: uval_bit len)
    have le: "(i \<le> k) = (?q < ?id \<or> ?q = ?id \<and> i mod 64 \<le> ?j)" 
    proof -
      have "i = 64 * ?q + i mod 64" "k = 64 * ?id + ?j" by simp_all
      moreover have "i mod 64 < 64" "?j < 64" by simp_all
      ultimately show ?thesis by linarith
    qed
    have "bit (t ! ?q) (i mod 64) = False" if "?id < ?q \<or> ?q = ?id \<and> ?j < i mod 64"
      using high [of i] that le e(2) by (auto simp: not_le [symmetric])
    then show ?thesis
      using e nth [OF q] m [of "i mod 64"] le by (auto simp: bit_not_iff bit_xor_iff)
  qed
  with run len show ?thesis by blast
qed

lemma BitNot2_value:
  assumes "t \<noteq> []"
  shows "uval t = 0 \<Longrightarrow> UInt_BitNot2 t = Some (utab (length t) 1)"
    and "2 ^ k \<le> uval t \<Longrightarrow> uval t < 2 ^ Suc k \<Longrightarrow>
      \<exists>r. UInt_BitNot2 t = Some r \<and> length r = length t \<and> uval r + uval t = 2 ^ Suc k - 1"
proof -
  assume "uval t = 0"
  then have "t = replicate (length t) 0" by (simp only: uval_eq_0_replicate)
  then have "t[0 := 1] = UInt_SetOne t" by (metis UInt_SetOne_def SetZero_eq)
  moreover have "UInt_SetOne t = utab (length t) 1"
  proof (rule utab_eqI)
    have "1 < W ^ length t" using assms W_power_mono [of 1 "length t"] by (simp add: Suc_le_eq W_def)
    then show "uval (UInt_SetOne t) = 1 mod W ^ length t" by (simp only: SetOne_value [OF assms] mod_less)
  qed simp
  ultimately have "t[0 := 1] = utab (length t) 1" by simp
  with \<open>uval t = 0\<close> show "UInt_BitNot2 t = Some (utab (length t) 1)"
    using FindLeadingBit_value(1) [OF assms] by (simp add: UInt_BitNot2_def)
next
  assume k: "2 ^ k \<le> uval t" "uval t < 2 ^ Suc k"
  obtain r where r: "UInt_BitNot2 t = Some r" "length r = length t"
    "\<forall>i. bit (uval r) i = (i \<le> k \<and> \<not> bit (uval t) i)" using BitNot2_bit [OF assms k] by blast
  have high: "\<not> bit (uval t) i" if "k < i" for i
  proof -
    have "(2 :: nat) ^ Suc k \<le> 2 ^ i" using that by (intro power_increasing) simp_all
    then show ?thesis using k(2) by (simp add: bit_iff_odd)
  qed
  have "uval r AND uval t = 0" by (rule bit_eqI) (auto simp: bit_and_iff r(3))
  then have "uval r + uval t = uval r OR uval t" by (rule disjunctive_add_eq_or)
  also have "\<dots> = mask (Suc k)"
    by (rule bit_eqI) (use r(3) high in \<open>auto simp: bit_or_iff bit_mask_iff not_le [symmetric] less_Suc_eq_le\<close>)
  finally have "uval r + uval t = 2 ^ Suc k - 1" by (simp only: mask_eq_exp_minus_1)
  with r show "\<exists>r. UInt_BitNot2 t = Some r \<and> length r = length t \<and> uval r + uval t = 2 ^ Suc k - 1"
    by blast
qed

text \<open>Moving the leading bit to the top.\<close>

lemma CompensationToLeft_words:
  assumes "t \<noteq> []" "a < length t" "\<forall>j. a < j \<and> j < length t \<longrightarrow> t ! j = 0"
  defines "d \<equiv> length t - 1 - a"
  defines "t' \<equiv> (if a \<noteq> length t - 1 then FillDown_loop d 0 (MoveUp_loop (a + 1) d t) else t)"
  shows "length t' = length t" "t' ! (length t - 1) = t ! a" "uval t' = W ^ d * uval t"
proof -
  have ad: "a + 1 + d = length t" using assms(2) by (simp add: d_def)
  have eq: "t' = replicate d 0 @ take (a + 1) t"
  proof (cases "a = length t - 1")
    case True
    then show ?thesis using ad by (simp add: t'_def d_def)
  next
    case False
    then have "t' = FillDown_loop d 0 (MoveUp_loop (a + 1) d t)" by (simp only: t'_def not_False_eq_True if_True)
    also have "\<dots> = FillDown_loop d 0 (take d t @ take (a + 1) t @ drop (a + 1 + d) t)"
      using ad by (simp only: MoveUp_loop_eq order_refl)
    also have "\<dots> = replicate d 0 @ take (a + 1) t"
      using ad by (subst FillDown_loop_eq) simp_all
    finally show ?thesis .
  qed
  show "length t' = length t" using ad by (simp add: eq)
  show "t' ! (length t - 1) = t ! a" proof -
    have "length t - 1 - d = a" "\<not> length t - 1 < d" using ad by simp_all
    then show ?thesis by (simp add: eq nth_append)
  qed
  have "uval (drop (a + 1) t) = 0"
    unfolding uval_eq_0_iff using assms(3) by (auto simp: in_set_conv_nth)
  then have "uval (take (a + 1) t) = uval t" using uval_split [of t "a + 1"] by simp
  then show "uval t' = W ^ d * uval t" by (simp add: eq uval_append)
qed

lemma CompensationToLeft_value:
  assumes "t \<noteq> []" "2 ^ k \<le> uval t" "uval t < 2 ^ Suc k"
  defines "m \<equiv> 64 * length t - 1 - k"
  shows "UInt_CompensationToLeft t = Some (m, utab (length t) (uval t * 2 ^ m))"
    and "W ^ length t div 2 \<le> uval t * 2 ^ m" "uval t * 2 ^ m < W ^ length t"
proof -
  let ?n = "length t" and ?a = "FindTop_loop t (length t - 1)"
  have kn: "k < 64 * ?n" by (rule leading_bit_less [OF assms(2)])
  have km: "k + m = 64 * ?n - 1" "Suc k + m = 64 * ?n" using kn by (simp_all add: m_def)
  have half: "W ^ ?n div 2 = 2 ^ k * 2 ^ m"
    unfolding W_power power_add [symmetric] km(1) using kn by (simp add: power_diff)
  show "W ^ ?n div 2 \<le> uval t * 2 ^ m" unfolding half using assms(2) by simp
  have "W ^ ?n = 2 ^ Suc k * 2 ^ m" unfolding W_power power_add [symmetric] km(2) ..
  then show "uval t * 2 ^ m < W ^ ?n" using assms(3) by simp
  have a: "?a = k div 64" using FindLeadingBit_value(2) [OF assms(1-3)] by blast
  note top = FindTop_value [OF assms(1)]
  have nz: "t ! ?a \<noteq> 0" using top(3) assms(2) by (metis le_zero_eq power_not_zero zero_neq_numeral)
  define d where "d = ?n - 1 - ?a"
  define t' where "t' = (if ?a \<noteq> ?n - 1 then FillDown_loop d 0 (MoveUp_loop (?a + 1) d t) else t)"
  note w = CompensationToLeft_words [OF assms(1) top(1,2), folded d_def, folded t'_def]
  obtain j where j: "2 ^ j \<le> unat (t ! ?a)" "unat (t ! ?a) < 2 ^ Suc j" "j \<le> 63"
    using uint_leading_bit [OF nz] .
  have "k = 64 * ?a + j"
    using leading_bit_unique [OF assms(2,3)] leading_bit_split [OF j(1,2) top(4)] by blast
  then have m: "m = d * 64 + (63 - j)" using top(1) j(3) by (simp add: m_def d_def)
  have uj: "unat (of_nat j :: sint) = j" using j(3) by (intro unat_of_nat_small) (simp add: W_def)
  have ne: "t' \<noteq> []" using w(1) assms(1) by auto
  have "shl_value t' (63 - j) 0 = uval t * 2 ^ m"
    unfolding shl_value_def w(3) m W_power power_add by (simp add: fill_bits_def ac_simps)
  then obtain c where "UInt_Rcl t' (63 - j) 0 = Some (c, utab ?n (uval t * 2 ^ m))"
    using Rcl_result [OF ne, of "63 - j" 0] w(1) by simp
  moreover have "UInt_FindLeadingBitInWord (t' ! (?n - 1)) = Some (of_nat j)"
    unfolding w(2) by (rule FindLeadingBitInWord_value [OF j])
  ultimately show "UInt_CompensationToLeft t = Some (m, utab ?n (uval t * 2 ^ m))"
    using nz uj m
    unfolding UInt_CompensationToLeft_def Let_def d_def [symmetric] t'_def [symmetric]
    by (simp add: TTMATH_BITS_PER_UINT_def)
qed

end
