(* ===== verification/UInt_Mul.thy ===== *)
theory UInt_Mul
  imports UInt_Bits
begin

text \<open>
  Multiplication by one word, in place and into a larger table, and the schoolbook multiplication
  \<^verbatim>\<open>Mul2Big\<close> of the class \<^verbatim>\<open>UInt\<close> (\<^verbatim>\<open>ttmathuint.h\<close>), with the size tests that skip zero
  words. The assertions in the source are branches to \<open>None\<close>.
\<close>

section \<open>Multiplication by a word\<close>

definition UInt_MulInt :: "utable \<Rightarrow> uint \<Rightarrow> (uint \<times> utable) option" where
  "UInt_MulInt table ss2 =
     (let u = table; table = UInt_SetZero table
      in if ss2 = 0 then Some (0, table)
         else do {
           (c, table) \<leftarrow> for_loop [0..<length u - 1]
             (\<lambda>x1 (c, table).
                let (r2, r1) = UInt_MulTwoWords (u ! x1) ss2
                in do { (d, table) \<leftarrow> UInt_AddTwoInts table r2 r1 x1; Some (c + d, table) })
             (0, table);
           let x1 = length u - 1;
           let (r2, r1) = UInt_MulTwoWords (u ! x1) ss2;
           let c = c + (if r2 \<noteq> 0 then 1 else 0);
           (d, table) \<leftarrow> UInt_AddInt table r1 x1;
           let c = c + d;
           Some (if c = 0 then 0 else 1, table)
         })"

fun TopSize_loop :: "utable \<Rightarrow> nat \<Rightarrow> nat" where
  "TopSize_loop t 0 = 0"
| "TopSize_loop t (Suc i) = (if t ! i = 0 then TopSize_loop t i else Suc i)"

function FirstSet_loop :: "utable \<Rightarrow> nat \<Rightarrow> nat \<Rightarrow> nat" where
  "FirstSet_loop t xsize i =
     (if i < xsize \<and> t ! i = 0 then FirstSet_loop t xsize (Suc i) else i)"
  by auto
termination by (relation "measure (\<lambda>(t, xsize, i). xsize - i)") auto

declare FirstSet_loop.simps [simp del]

definition MulIntBig_step :: "utable \<Rightarrow> uint \<Rightarrow> nat \<Rightarrow> utable \<Rightarrow> utable option" where
  "MulIntBig_step table ss2 x1 result =
     (let (r2, r1) = UInt_MulTwoWords (table ! x1) ss2
      in do { (_, result) \<leftarrow> UInt_AddTwoInts result r2 r1 x1; Some result })"

definition UInt_MulIntBig :: "utable \<Rightarrow> uint \<Rightarrow> utable \<Rightarrow> utable option" where
  "UInt_MulIntBig table ss2 result =
     (let value_size = length table; result_size = length result
      in if result_size > value_size
         then let result = UInt_SetZero result
              in if ss2 = 0 then Some result
                 else if value_size > 2
                 then let x1size = TopSize_loop table value_size
                      in if x1size = 0 then Some result
                         else let x1start = FirstSet_loop table x1size 0
                              in for_loop [x1start..<x1size] (MulIntBig_step table ss2) result
                 else for_loop [0..<value_size] (MulIntBig_step table ss2) result
         else None)"

lemma MulInt_step_bound:
  assumes "i < length u"
  shows "uval (take i u) * v + W ^ i * (unat (u ! i) * v) = uval (take (Suc i) u) * v"
  using assms by (simp add: take_Suc_conv_app_nth uval_append min_absorb2 algebra_simps)

lemma uval_take_times_less:
  assumes "i \<le> n"
  shows "uval (take i u) * unat (v :: uint) < W ^ Suc n"
proof -
  have "uval (take i u) < W ^ n" using assms by (intro uval_less_le) simp
  then have "uval (take i u) * unat v < W ^ n * W"
    using unat_less_W [of v] by (intro mult_strict_mono) simp_all
  then show ?thesis by (simp add: mult.commute)
qed

text \<open>Adding the double-word product of one word, without a carry out of the table.\<close>

lemma AddProduct_exact:
  assumes "UInt_MulTwoWords a b = (r2, r1)" "Suc i < length t"
    "uval t + W ^ i * (unat a * unat b) < W ^ length t"
  shows "UInt_AddTwoInts t r2 r1 i
    = Some (0, utab (length t) (uval t + W ^ i * (unat a * unat b)))"
  using AddTwoInts_result [OF assms(2), of r2 r1] MulTwoWords_value [OF assms(1)] assms(3)
  by (simp add: carry_result_exact)

lemma MulInt_loop_value:
  assumes "u \<noteq> []"
  shows "for_loop [0..<length u - 1]
     (\<lambda>x1 (c, table).
        let (r2, r1) = UInt_MulTwoWords (u ! x1) ss2
        in do { (d, table) \<leftarrow> UInt_AddTwoInts table r2 r1 x1; Some (c + d, table) })
     (0, UInt_SetZero u)
   = Some (0, utab (length u) (uval (take (length u - 1) u) * unat ss2))"
  (is "for_loop _ ?body ?s = Some ?r")
proof -
  let ?P = "\<lambda>i s. s = (0 :: uint, utab (length u) (uval (take i u) * unat ss2))"
  have "\<exists>s'. for_loop [0..<length u - 1] ?body ?s = Some s' \<and> ?P (length u - 1) s'"
  proof (rule for_loop_upt)
    show "?P 0 ?s" by (simp add: UInt_SetZero_def utab_eqI)
    fix i s assume i: "i < length u - 1" and s: "?P i s"
    obtain r2 r1 where m: "UInt_MulTwoWords (u ! i) ss2 = (r2, r1)" by (metis surj_pair)
    let ?t = "utab (length u) (uval (take i u) * unat ss2)"
    have b: "uval (take k u) * unat ss2 < W ^ length u" if "k \<le> length u - 1" for k
      using uval_take_times_less [OF that, of u ss2] assms by simp
    then have t: "uval ?t = uval (take i u) * unat ss2"
      using i by (simp add: uval_utab_exact)
    then have "uval ?t + W ^ i * (unat (u ! i) * unat ss2) = uval (take (Suc i) u) * unat ss2"
      using i MulInt_step_bound [of i u "unat ss2"] by simp
    with AddProduct_exact [OF m, of i ?t] i b [of "Suc i"]
    have "UInt_AddTwoInts ?t r2 r1 i = Some (0, utab (length u) (uval (take (Suc i) u) * unat ss2))"
      by simp
    with s m show "\<exists>s'. ?body i s = Some s' \<and> ?P (Suc i) s'" by simp
  qed simp
  then show ?thesis by simp
qed

lemma MulInt_result:
  assumes "t \<noteq> []"
  shows "UInt_MulInt t v = Some (of_bool (W ^ length t \<le> uval t * unat v),
    utab (length t) (uval t * unat v))"
proof (cases "v = 0")
  case True
  then show ?thesis using assms
    by (simp add: UInt_MulInt_def UInt_SetZero_def utab_eqI Suc_le_eq)
next
  case False
  let ?n = "length t" and ?k = "length t - 1"
  let ?A = "uval (take ?k t) * unat v"
  obtain r2 r1 where m: "UInt_MulTwoWords (t ! ?k) v = (r2, r1)" by (metis surj_pair)
  let ?S = "?A + W ^ ?k * unat r1"
  have n: "?n = Suc ?k" "?k < ?n" using assms by simp_all
  have Wn: "W ^ ?n = W ^ ?k * W" using n(1) by (metis power_Suc2)
  have A: "?A < W ^ ?n"
    unfolding Wn using uval_take_times_less [of ?k ?k t v] by (simp add: mult.commute)
  have "W ^ ?k * unat r1 < W ^ ?n"
    unfolding Wn by simp
  with A have S: "?S < 2 * W ^ ?n" by linarith
  have "UInt_AddInt (utab ?n ?A) r1 ?k = Some (carry_result ?n ?S)"
    using AddInt_result [of ?k "utab ?n ?A" r1] n A by (simp add: uval_utab_exact)
  then have add: "UInt_AddInt (utab ?n ?A) r1 ?k = Some (of_bool (W ^ ?n \<le> ?S), utab ?n ?S)"
    using carry_result_bit [OF S] by simp
  have "uval t * unat v = ?A + W ^ ?k * (unat (t ! ?k) * unat v)"
    using MulInt_step_bound [OF n(2), of "unat v"] n(1) by simp
  also have "\<dots> = ?A + W ^ ?k * (unat r1 + W * unat r2)"
    using MulTwoWords_value [OF m] by simp
  also have "\<dots> = ?S + W ^ ?n * unat r2"
    unfolding Wn by (simp add: algebra_simps)
  finally have prod: "uval t * unat v = ?S + W ^ ?n * unat r2" .
  have ovf: "W ^ ?n \<le> uval t * unat v \<longleftrightarrow> r2 \<noteq> 0 \<or> W ^ ?n \<le> ?S"
  proof (cases "r2 = 0")
    case True
    then show ?thesis using prod by simp
  next
    case False
    then have "1 \<le> unat r2" by (simp add: Suc_le_eq unat_gt_0)
    then have "W ^ ?n * 1 \<le> W ^ ?n * unat r2" by (intro mult_le_mono2)
    then have "W ^ ?n \<le> uval t * unat v" using prod by linarith
    then show ?thesis using False by blast
  qed
  have tab: "utab ?n (uval t * unat v) = utab ?n ?S"
    unfolding prod by (rule utab_add_multiple)
  show ?thesis
    using False m add MulInt_loop_value [OF assms, of v]
    by (simp add: UInt_MulInt_def Let_def ovf tab)
qed

text \<open>The words outside a trimmed range are zero.\<close>

definition trimmed :: "utable \<Rightarrow> nat \<Rightarrow> nat \<Rightarrow> bool" where
  "trimmed t a b \<longleftrightarrow> a \<le> b \<and> b \<le> length t \<and> uval (take a t) = 0 \<and> uval (take b t) = uval t"

lemma trimmed_whole [simp]: "trimmed t 0 (length t)"
  by (simp add: trimmed_def)

lemma TopSize_loop_value:
  "k \<le> length t \<Longrightarrow> TopSize_loop t k \<le> k \<and> uval (take (TopSize_loop t k) t) = uval (take k t)"
proof (induction k)
  case (Suc k)
  then show ?case
    by (auto simp: take_Suc_conv_app_nth uval_append)
qed simp

lemma FirstSet_loop_value:
  assumes "k \<le> length t" "i \<le> k" "uval (take i t) = 0"
  shows "FirstSet_loop t k i \<le> k \<and> uval (take (FirstSet_loop t k i) t) = 0"
  using assms
proof (induction t k i rule: FirstSet_loop.induct)
  case (1 t k i)
  show ?case
  proof (cases "i < k \<and> t ! i = 0")
    case True
    with "1.prems" have "uval (take (Suc i) t) = 0"
      by (simp add: take_Suc_conv_app_nth uval_append)
    with True "1.IH" [OF True] "1.prems" show ?thesis
      by (simp add: FirstSet_loop.simps [of t k i])
  next
    case False
    with "1.prems" show ?thesis by (auto simp: FirstSet_loop.simps [of t k i])
  qed
qed

lemma trimmed_TopSize: "trimmed t 0 (TopSize_loop t (length t))"
  using TopSize_loop_value [of "length t" t] by (simp add: trimmed_def)

lemma trimmed_FirstSet: "trimmed t 0 k \<Longrightarrow> trimmed t (FirstSet_loop t k 0) k"
  using FirstSet_loop_value [of k t 0] by (simp add: trimmed_def)

lemma trimmed_empty: "trimmed t a 0 \<Longrightarrow> uval t = 0"
  by (simp add: trimmed_def)

lemma MulIntBig_loop_value:
  assumes "trimmed t a b" "length t < n"
  shows "for_loop [a..<b] (MulIntBig_step t v) (replicate n 0) = Some (utab n (uval t * unat v))"
proof -
  let ?P = "\<lambda>i r. r = utab n (uval (take i t) * unat v)"
  have "\<exists>r. for_loop [a..<b] (MulIntBig_step t v) (replicate n 0) = Some r \<and> ?P b r"
  proof (rule for_loop_upt)
    show "?P a (replicate n 0)" using assms by (simp add: trimmed_def utab_eqI)
    fix i r assume i: "i < b" and r: "?P i r"
    obtain r2 r1 where m: "UInt_MulTwoWords (t ! i) v = (r2, r1)" by (metis surj_pair)
    have it: "i < length t" using i assms by (simp add: trimmed_def)
    have b: "uval (take k t) * unat v < W ^ n" if "k \<le> length t" for k
      using uval_take_times_less [of k "n - 1" t v] that assms by simp
    then have "uval r = uval (take i t) * unat v"
      using it r by (simp add: uval_utab_exact)
    then have "uval r + W ^ i * (unat (t ! i) * unat v) = uval (take (Suc i) t) * unat v"
      using MulInt_step_bound [OF it, of "unat v"] by simp
    with AddProduct_exact [OF m, of i r] it b [of "Suc i"] r assms
    have "UInt_AddTwoInts r r2 r1 i = Some (0, utab n (uval (take (Suc i) t) * unat v))"
      by simp
    with r m show "\<exists>s'. MulIntBig_step t v i r = Some s' \<and> ?P (Suc i) s'"
      by (simp add: MulIntBig_step_def)
  qed (use assms in \<open>simp add: trimmed_def\<close>)
  then show ?thesis using assms by (simp add: trimmed_def)
qed

lemma MulIntBig_result:
  assumes "length t < length r"
  shows "UInt_MulIntBig t v r = Some (utab (length r) (uval t * unat v))"
proof -
  let ?x = "TopSize_loop t (length t)"
  have z: "Some (replicate (length r) 0) = Some (utab (length r) 0)"
    by (simp add: utab_eqI)
  note tr = trimmed_TopSize [of t]
  have "uval t = 0" if "?x = 0" using tr that by (metis trimmed_empty)
  then show ?thesis
    using assms MulIntBig_loop_value [OF trimmed_FirstSet [OF tr] assms, of v]
      MulIntBig_loop_value [OF trimmed_whole assms, of v]
    by (simp add: UInt_MulIntBig_def UInt_SetZero_def Let_def z)
qed

section \<open>Schoolbook multiplication\<close>

definition UInt_Mul2Big3 ::
  "utable \<Rightarrow> utable \<Rightarrow> utable \<Rightarrow> nat \<Rightarrow> nat \<Rightarrow> nat \<Rightarrow> nat \<Rightarrow> utable option" where
  "UInt_Mul2Big3 ss1 ss2 result x1start x1size x2start x2size =
     (let result = UInt_SetZero result
      in if x1size = 0 \<or> x2size = 0 then Some result
         else for_loop [x1start..<x1size] (\<lambda>x1.
                for_loop [x2start..<x2size] (\<lambda>x2 result.
                  let (r2, r1) = UInt_MulTwoWords (ss1 ! x1) (ss2 ! x2)
                  in do { (_, result) \<leftarrow> UInt_AddTwoInts result r2 r1 (x2 + x1); Some result }))
              result)"

definition UInt_Mul2Big2 :: "utable \<Rightarrow> utable \<Rightarrow> utable \<Rightarrow> utable option" where
  "UInt_Mul2Big2 ss1 ss2 result =
     (let ss_size = length ss1
      in if ss_size > 2
         then let x1size = TopSize_loop ss1 ss_size;
                  x2size = TopSize_loop ss2 ss_size;
                  x1start = FirstSet_loop ss1 x1size 0;
                  x2start = FirstSet_loop ss2 x2size 0
              in UInt_Mul2Big3 ss1 ss2 result x1start x1size x2start x2size
         else UInt_Mul2Big3 ss1 ss2 result 0 ss_size 0 ss_size)"

definition UInt_Mul2Big :: "utable \<Rightarrow> utable \<Rightarrow> utable option" where
  "UInt_Mul2Big table ss2 = UInt_Mul2Big2 table ss2 (replicate (2 * length table) 0)"

lemma uval_mult_less:
  "length s \<le> m \<Longrightarrow> length t \<le> n \<Longrightarrow> uval s * uval t < W ^ (m + n)"
  unfolding power_add by (intro mult_strict_mono uval_less_le) simp_all

lemma Mul2Big3_inner:
  assumes "trimmed t a b" "i < n" "length t = n"
    "length r = 2 * n" "uval r + W ^ i * (unat x * uval t) < W ^ (2 * n)"
  shows "for_loop [a..<b] (\<lambda>x2 result.
      let (r2, r1) = UInt_MulTwoWords x (t ! x2)
      in do { (_, result) \<leftarrow> UInt_AddTwoInts result r2 r1 (x2 + i); Some result }) r
    = Some (utab (2 * n) (uval r + W ^ i * (unat x * uval t)))" (is "for_loop _ ?body r = _")
proof -
  let ?v = "\<lambda>k. uval r + W ^ i * (unat x * uval (take k t))"
  let ?P = "\<lambda>k s. s = utab (2 * n) (?v k)"
  have "\<exists>s. for_loop [a..<b] ?body r = Some s \<and> ?P b s"
  proof (rule for_loop_upt)
    show "?P a r" using assms by (simp add: trimmed_def utab_eqI uval_less_le)
    fix k s assume k: "k < b" and s: "?P k s"
    obtain r2 r1 where m: "UInt_MulTwoWords x (t ! k) = (r2, r1)" by (metis surj_pair)
    have kt: "k < length t" using k assms by (simp add: trimmed_def)
    have b: "?v j < W ^ (2 * n)" for j
    proof -
      have "uval (take j t) \<le> uval t" unfolding uval_take by simp
      then have "W ^ i * (unat x * uval (take j t)) \<le> W ^ i * (unat x * uval t)"
        by (intro mult_le_mono2)
      then show ?thesis using assms(5) by linarith
    qed
    then have us: "uval s = ?v k" using s by (simp only: uval_utab_exact)
    have "uval (take (Suc k) t) = uval (take k t) + W ^ k * unat (t ! k)"
      using kt by (simp add: take_Suc_conv_app_nth uval_append min_absorb2)
    then have step: "uval s + W ^ (k + i) * (unat x * unat (t ! k)) = ?v (Suc k)"
      unfolding us by (simp add: power_add algebra_simps)
    have "UInt_AddTwoInts s r2 r1 (k + i) = Some (0, utab (2 * n) (?v (Suc k)))"
      using AddProduct_exact [OF m, of "k + i" s] step b [of "Suc k"] s kt assms(2,3) by simp
    with m show "\<exists>s'. ?body k s = Some s' \<and> ?P (Suc k) s'" by simp
  qed (use assms in \<open>simp add: trimmed_def\<close>)
  then show ?thesis using assms(1) by (simp add: trimmed_def)
qed

lemma Mul2Big3_result:
  assumes "length s = n" "length t = n" "length r = 2 * n" "trimmed s a b" "trimmed t c d"
  shows "UInt_Mul2Big3 s t r a b c d = Some (utab (2 * n) (uval s * uval t))"
proof (cases "b = 0 \<or> d = 0")
  case True
  then have "uval s = 0 \<or> uval t = 0" using assms(4,5) by (auto simp: trimmed_def)
  then have "uval s * uval t = 0" by simp
  then show ?thesis using True assms(3)
    by (simp only: UInt_Mul2Big3_def UInt_SetZero_def Let_def) (simp add: utab_eqI map_replicate_const)
next
  case False
  let ?body = "\<lambda>x1. for_loop [c..<d] (\<lambda>x2 result.
      let (r2, r1) = UInt_MulTwoWords (s ! x1) (t ! x2)
      in do { (_, result) \<leftarrow> UInt_AddTwoInts result r2 r1 (x2 + x1); Some result })"
  let ?P = "\<lambda>i r. r = utab (2 * n) (uval (take i s) * uval t)"
  have "\<exists>r'. for_loop [a..<b] ?body (replicate (2 * n) 0) = Some r' \<and> ?P b r'"
  proof (rule for_loop_upt)
    show "?P a (replicate (2 * n) 0)" using assms by (simp add: trimmed_def utab_eqI)
    fix i r assume i: "i < b" and r: "?P i r"
    have il: "i < length s" using i assms by (simp add: trimmed_def)
    have b: "uval (take k s) * uval t < W ^ (2 * n)" for k
      using uval_mult_less [of "take k s" n t n] assms by (simp add: mult_2)
    then have ur: "uval r = uval (take i s) * uval t" using r by (simp only: uval_utab_exact)
    have step: "uval r + W ^ i * (unat (s ! i) * uval t) = uval (take (Suc i) s) * uval t"
      unfolding ur by (rule MulInt_step_bound [OF il])
    have "?body i r = Some (utab (2 * n) (uval r + W ^ i * (unat (s ! i) * uval t)))"
      using il r b [of "Suc i"] assms step by (intro Mul2Big3_inner [of t c d i n]) simp_all
    then show "\<exists>r'. ?body i r = Some r' \<and> ?P (Suc i) r'" unfolding step by simp
  qed (use assms in \<open>simp add: trimmed_def\<close>)
  then show ?thesis using False assms
    by (simp add: UInt_Mul2Big3_def UInt_SetZero_def trimmed_def)
qed

lemma Mul2Big2_result:
  assumes "length s = n" "length t = n" "length r = 2 * n"
  shows "UInt_Mul2Big2 s t r = Some (utab (2 * n) (uval s * uval t))"
  using Mul2Big3_result [OF assms trimmed_FirstSet [OF trimmed_TopSize]
      trimmed_FirstSet [OF trimmed_TopSize]]
    Mul2Big3_result [OF assms trimmed_whole trimmed_whole] assms
  by (simp add: UInt_Mul2Big2_def Let_def)

lemma Mul2Big_result:
  assumes "length s = length t"
  shows "UInt_Mul2Big t s = Some (utab (2 * length t) (uval t * uval s))"
  using assms by (simp add: UInt_Mul2Big_def Mul2Big2_result)

end
