(* ===== verification/UInt_Karatsuba.thy ===== *)
theory UInt_Karatsuba
  imports UInt_Mul
begin

text \<open>
  Karatsuba multiplication (\<^verbatim>\<open>Mul3Big2\<close> and \<^verbatim>\<open>Mul3Big3\<close> of \<^verbatim>\<open>ttmathuint.h\<close>). The template
  arguments are arguments of the model, a pointer into a table is the list of the words from it
  on, and the two halves \<open>z0\<close> and \<open>z2\<close> the source writes directly into \<^verbatim>\<open>result\<close> are the
  halves of the list. The instance of size 0 does not return (its recursion in the source has
  no end), which is \<open>None\<close>; the theorems show that no other instance reaches it and that every
  assertion of the source holds.
\<close>

section \<open>The method\<close>

fun IncWords_loop :: "utable \<Rightarrow> utable" where
  "IncWords_loop [] = []"
| "IncWords_loop (w # ws) = (if w + 1 \<noteq> 0 then (w + 1) # ws else (w + 1) # IncWords_loop ws)"

definition Mul3_AddUpper :: "uint \<Rightarrow> nat \<Rightarrow> utable \<Rightarrow> utable \<Rightarrow> utable option" where
  "Mul3_AddUpper xc first_size z1 temp =
     (if xc \<noteq> 0
      then do {
        (c, up) \<leftarrow> UInt_AddVector (drop first_size z1) (take first_size temp);
        (if c = 0 then Some (take first_size z1 @ up) else None)
      }
      else Some z1)"

definition Mul3_SubVector :: "utable \<Rightarrow> utable \<Rightarrow> utable option" where
  "Mul3_SubVector z1 z = do {
     (c, z1) \<leftarrow> UInt_SubVector z1 z;
     (if c = 0 then Some z1 else None)
   }"

definition Mul3_AddResult :: "nat \<Rightarrow> nat \<Rightarrow> nat \<Rightarrow> utable \<Rightarrow> utable \<Rightarrow> utable option" where
  "Mul3_AddResult first_size second_size result_size z1 result =
     (if first_size > second_size
      then let z1_size = result_size - first_size
           in if z1_size \<le> first_size * 3 \<and> all_zero (drop z1_size z1)
              then do {
                (c, up) \<leftarrow> UInt_AddVector (drop first_size result) (take z1_size z1);
                (if c = 0 then Some (take first_size result @ up) else None)
              }
              else None
      else do {
        (c, up) \<leftarrow> UInt_AddVector (drop first_size result) z1;
        (if c = 0 then Some (take first_size result @ up) else None)
      })"

function (sequential) UInt_Mul3Big2 :: "nat \<Rightarrow> utable \<Rightarrow> utable \<Rightarrow> utable option"
  and UInt_Mul3Big3 ::
    "nat \<Rightarrow> nat \<Rightarrow> nat \<Rightarrow> utable \<Rightarrow> utable \<Rightarrow> utable \<Rightarrow> utable \<Rightarrow> utable option" where
  "UInt_Mul3Big2 ss_size ss1 ss2 =
     (if ss_size > 1 \<and> ss_size < TTMATH_USE_KARATSUBA_MULTIPLICATION_FROM_SIZE
      then UInt_Mul2Big2 ss1 ss2 (replicate (ss_size * 2) 0)
      else if ss_size = 1
      then (let (hi, lo) = UInt_MulTwoWords (ss1 ! 0) (ss2 ! 0) in Some [lo, hi])
      else if ss_size = 0 then None
      else if ss_size mod 2 = 1
      then UInt_Mul3Big3 (ss_size div 2 + 1) (ss_size div 2) (ss_size * 2)
             (drop (ss_size div 2 + 1) ss1) (take (ss_size div 2 + 1) ss1)
             (drop (ss_size div 2 + 1) ss2) (take (ss_size div 2 + 1) ss2)
      else UInt_Mul3Big3 (ss_size div 2) (ss_size div 2) (ss_size * 2)
             (drop (ss_size div 2) ss1) (take (ss_size div 2) ss1)
             (drop (ss_size div 2) ss2) (take (ss_size div 2) ss2))"
| "UInt_Mul3Big3 first_size second_size result_size x1 x0 y1 y0 = do {
     z0 \<leftarrow> UInt_Mul3Big2 first_size x0 y0;
     z2 \<leftarrow> UInt_Mul3Big2 second_size x1 y1;
     (xc, temp) \<leftarrow> UInt_AddVector x0 x1;
     (yc, temp2) \<leftarrow> UInt_AddVector y0 y1;
     z1 \<leftarrow> UInt_Mul3Big2 first_size temp temp2;
     let z1 = z1 @ replicate first_size 0;
     z1 \<leftarrow> Mul3_AddUpper xc first_size z1 temp2;
     z1 \<leftarrow> Mul3_AddUpper yc first_size z1 temp;
     let z1 = (if xc \<noteq> 0 \<and> yc \<noteq> 0
               then take (first_size * 2) z1 @ IncWords_loop (drop (first_size * 2) z1)
               else z1);
     z1 \<leftarrow> Mul3_SubVector z1 z2;
     z1 \<leftarrow> Mul3_SubVector z1 z0;
     Mul3_AddResult first_size second_size result_size z1 (z0 @ z2)
   }"
  by pat_completeness auto
termination
proof (relation "measure (\<lambda>x. case x of Inl (n, _) \<Rightarrow> 2 * n
    | Inr (f, s, _) \<Rightarrow> 2 * max f s + 1)", goal_cases)
  case (2 n)
  then have "n \<ge> 3" by (simp add: TTMATH_USE_KARATSUBA_MULTIPLICATION_FROM_SIZE_def)
  with 2 show ?case by simp presburger
next
  case (3 n)
  then have "n \<ge> 3" by (simp add: TTMATH_USE_KARATSUBA_MULTIPLICATION_FROM_SIZE_def)
  with 3 show ?case by simp
qed simp_all

declare UInt_Mul3Big2.simps [simp del] UInt_Mul3Big3.simps [simp del]

definition UInt_Mul3Big :: "utable \<Rightarrow> utable \<Rightarrow> utable option" where
  "UInt_Mul3Big table ss2 = UInt_Mul3Big2 (length table) table ss2"

section \<open>Its parts\<close>

lemma AddVector_at:
  assumes "k \<le> length z" "length v \<le> length z - k" "uval z + W ^ k * uval v < W ^ length z"
  shows "\<exists>up. UInt_AddVector (drop k z) v = Some (0, up) \<and>
    take k z @ up = utab (length z) (uval z + W ^ k * uval v)"
proof -
  let ?m = "length z - k" and ?S = "uval (drop k z) + uval v"
  have z: "uval z = uval (take k z) + W ^ k * uval (drop k z)"
    using assms(1) uval_split [of z k] by (simp add: min_absorb1)
  then have eq: "uval z + W ^ k * uval v = uval (take k z) + W ^ k * ?S"
    by (simp only: distrib_left)
  have "W ^ length z = W ^ k * W ^ ?m" using assms(1) by (simp flip: power_add)
  with eq assms(3) have "W ^ k * ?S < W ^ k * W ^ ?m" by linarith
  then have S: "?S < W ^ ?m" by simp
  have "UInt_AddVector (drop k z) v = Some (0, utab ?m ?S)"
    using assms(2) carry_result_exact [OF S] by (simp add: AddVector_result)
  moreover have "take k z @ utab ?m ?S = utab (length z) (uval z + W ^ k * uval v)"
    using assms(1,3) S eq by (intro utab_eqI) (simp_all add: uval_append uval_utab_exact min_absorb2)
  ultimately show ?thesis by blast
qed

lemma AddUpper_result:
  assumes "length z = 3 * f" "length temp = f"
    "uval z + of_bool (xc \<noteq> 0) * (W ^ f * uval temp) < W ^ (3 * f)"
  shows "Mul3_AddUpper xc f z temp
    = Some (utab (3 * f) (uval z + of_bool (xc \<noteq> 0) * (W ^ f * uval temp)))"
proof (cases "xc = 0")
  case True
  then show ?thesis using assms utab_uval [of z] by (simp add: Mul3_AddUpper_def)
next
  case False
  then show ?thesis using assms AddVector_at [of f z temp]
    by (auto simp: Mul3_AddUpper_def)
qed

lemma IncWords_loop_result: "IncWords_loop ws = utab (length ws) (uval ws + 1)"
proof (induction ws)
  case (Cons w ws)
  have "(unat w + W * uval ws + 1) div W = uval ws + of_bool (w + 1 = 0)"
  proof (cases "w + 1 = 0")
    case True
    then have "unat w = W - 1" by (metis add.commute add_eq_0_iff max_value_mask unat_max_value)
    then have "unat w + W * uval ws + 1 = 0 + W * (uval ws + 1)" using W_ge_1 by (simp only: distrib_left)
    with True show ?thesis by (simp only: div_mult_self2 [OF W_neq_0]) simp
  next
    case False
    then have "unat (w + 1) = unat w + 1" by (simp add: unat_plus_simple unatSuc add.commute)
    then have "unat w + 1 < W" using unat_less_W [of "w + 1"] by linarith
    moreover have "unat w + W * uval ws + 1 = (unat w + 1) + W * uval ws" by simp
    ultimately show ?thesis using False by (simp only: div_mult_self2 [OF W_neq_0]) simp
  qed
  then show ?case using Cons by (auto simp: add.commute)
qed simp

lemma IncUpper_value:
  assumes "k \<le> length z" "uval z + W ^ k < W ^ length z"
  shows "take k z @ IncWords_loop (drop k z) = utab (length z) (uval z + W ^ k)"
proof -
  let ?m = "length z - k" and ?S = "uval (drop k z) + 1"
  have z: "uval z = uval (take k z) + W ^ k * uval (drop k z)"
    using assms(1) uval_split [of z k] by (simp add: min_absorb1)
  have "W ^ length z = W ^ k * W ^ ?m" using assms(1) by (simp flip: power_add)
  with z assms(2) have "W ^ k * ?S < W ^ k * W ^ ?m" by simp
  then have "?S < W ^ ?m" by (simp only: mult_less_cancel1)
  then show ?thesis
    using assms z
    by (intro utab_eqI) (simp_all add: IncWords_loop_result uval_append uval_utab_exact min_absorb2)
qed

lemma SubVector_result_exact:
  assumes "length z \<le> length z1" "uval z \<le> uval z1"
  shows "Mul3_SubVector z1 z = Some (utab (length z1) (uval z1 - uval z))"
  using assms by (simp add: Mul3_SubVector_def SubVector_result borrow_result_exact)

lemma all_zero_drop:
  assumes "uval z < W ^ k"
  shows "all_zero (drop k z)"
  using assms by (simp add: all_zero_iff uval_drop)

lemma AddResult_result:
  assumes "length z1 = 3 * f" "length r = n" "f \<le> n"
    "s < f \<and> n - f \<le> 3 * f \<and> uval z1 < W ^ (n - f) \<or> \<not> s < f \<and> 3 * f \<le> n - f"
    "uval r + W ^ f * uval z1 < W ^ n"
  shows "Mul3_AddResult f s n z1 r = Some (utab n (uval r + W ^ f * uval z1))"
proof (cases "s < f")
  case True
  with assms(4) have b: "n - f \<le> 3 * f" "uval z1 < W ^ (n - f)" by simp_all
  then have "uval (take (n - f) z1) = uval z1" by (simp add: uval_take)
  then obtain up where "UInt_AddVector (drop f r) (take (n - f) z1) = Some (0, up)"
    "take f r @ up = utab n (uval r + W ^ f * uval z1)"
    using AddVector_at [of f r "take (n - f) z1"] assms by auto
  then show ?thesis
    using True b all_zero_drop [OF b(2)] by (simp add: Mul3_AddResult_def mult.commute)
next
  case False
  then obtain up where "UInt_AddVector (drop f r) z1 = Some (0, up)"
    "take f r @ up = utab n (uval r + W ^ f * uval z1)"
    using AddVector_at [of f r z1] assms by auto
  then show ?thesis using False by (simp add: Mul3_AddResult_def)
qed

section \<open>The product\<close>

lemma carry_split:
  assumes "length x = f" "length y \<le> f"
  shows "\<exists>c t. UInt_AddVector x y = Some (c, t) \<and> length t = f \<and>
    uval x + uval y = uval t + W ^ f * of_bool (c \<noteq> 0)"
proof -
  have b: "uval x + uval y < 2 * W ^ f"
    using uval_less_le [of x f] uval_less_le [of y f] assms by simp
  let ?t = "utab f (uval x + uval y)"
  have "UInt_AddVector x y = Some (of_bool (W ^ f \<le> uval x + uval y), ?t)"
    using assms carry_result_bit [OF b] by (simp add: AddVector_result)
  moreover have "uval x + uval y = uval ?t + W ^ f * of_bool (W ^ f \<le> uval x + uval y)"
  proof (cases "W ^ f \<le> uval x + uval y")
    case True
    then have "(uval x + uval y) mod W ^ f = uval x + uval y - W ^ f"
      using b by (metis add_diff_inverse_nat le_mod_geq less_diff_conv2 mod_less mult_2 not_less)
    with True show ?thesis by (simp add: uval_utab)
  qed (simp add: uval_utab)
  ultimately show ?thesis by auto
qed

lemma W_power_ge_4: "0 < f \<Longrightarrow> 4 \<le> W ^ f"
  using W_power_mono [of 1 f] by (simp add: W_def)

lemma karatsuba_sum_bound:
  fixes X Y :: nat
  assumes "X < B" "Y < B" "4 \<le> B" "cx \<le> 1" "cy \<le> 1"
  shows "X * Y + cx * (B * Y) + cy * (B * X) + cx * cy * (B * B) < B * (B * B)"
proof -
  have e: "X * Y + cx * (B * Y) + cy * (B * X) + cx * cy * (B * B) = (X + B * cx) * (Y + B * cy)"
    by (simp add: algebra_simps)
  have "B * cx \<le> B" "B * cy \<le> B" using assms(4,5) by simp_all
  then have "X + B * cx < 2 * B" "Y + B * cy < 2 * B" using assms(1,2) by linarith+
  then have "(X + B * cx) * (Y + B * cy) < (2 * B) * (2 * B)"
    by (intro mult_strict_mono) simp_all
  also have "\<dots> = 4 * (B * B)" by simp
  also have "\<dots> \<le> B * (B * B)" using assms(3) by (intro mult_le_mono1)
  finally show ?thesis unfolding e .
qed

lemma karatsuba_middle:
  fixes a b c d :: nat
  shows "(a + b) * (c + d) - b * d - a * c = b * c + a * d" "b * d \<le> (a + b) * (c + d)"
    "a * c \<le> (a + b) * (c + d) - b * d"
proof -
  have e: "(a + b) * (c + d) = (b * c + a * d + a * c) + b * d" by (simp add: algebra_simps)
  show "(a + b) * (c + d) - b * d - a * c = b * c + a * d" "b * d \<le> (a + b) * (c + d)"
    "a * c \<le> (a + b) * (c + d) - b * d"
    unfolding e by simp_all
qed

text \<open>The middle product \<open>z1 = (x0 + x1) * (y0 + y1)\<close>, in three times the size.\<close>

lemma Mul3Big3_z1:
  assumes "length t = f" "length u = f" "0 < f"
    "(z :: utable) = utab (2 * f) (uval t * uval u)"
    "p = uval t + W ^ f * of_bool (xc \<noteq> 0)" "q = uval u + W ^ f * of_bool (yc \<noteq> 0)"
  shows "do {
      z1 \<leftarrow> Mul3_AddUpper xc f (z @ replicate f 0) u;
      z1 \<leftarrow> Mul3_AddUpper yc f z1 t;
      Some (if xc \<noteq> 0 \<and> yc \<noteq> 0 then take (f * 2) z1 @ IncWords_loop (drop (f * 2) z1) else z1)
    } = Some (utab (3 * f) (p * q))" and "p * q < W ^ (3 * f)"
proof -
  let ?B = "W ^ f" and ?X = "uval t" and ?Y = "uval u"
  let ?cx = "of_bool (xc \<noteq> 0) :: nat" and ?cy = "of_bool (yc \<noteq> 0) :: nat"
  have B2: "W ^ (2 * f) = ?B * ?B" by (simp add: power_add mult_2)
  have B3: "W ^ (3 * f) = ?B * (?B * ?B)" by (simp flip: power_add)
  have lt: "?X < ?B" "?Y < ?B"
    using assms(1,2) uval_less_le [of t f] uval_less_le [of u f] by simp_all
  have full: "?X * ?Y + ?cx * (?B * ?Y) + ?cy * (?B * ?X) + ?cx * ?cy * (?B * ?B) < W ^ (3 * f)"
    unfolding B3 using lt W_power_ge_4 [OF assms(3)] by (intro karatsuba_sum_bound) simp_all
  have pq: "p * q = ?X * ?Y + ?cx * (?B * ?Y) + ?cy * (?B * ?X) + ?cx * ?cy * (?B * ?B)"
    unfolding assms(5,6) by (simp add: algebra_simps)
  show "p * q < W ^ (3 * f)" using full pq by simp
  have XY: "?X * ?Y < ?B * ?B" using lt by (intro mult_strict_mono) simp_all
  have z: "z @ replicate f 0 = utab (3 * f) (?X * ?Y)"
    using full XY unfolding assms(4)
    by (intro utab_eqI) (simp_all add: uval_utab_exact B2)
  have 1: "Mul3_AddUpper xc f (utab (3 * f) (?X * ?Y)) u
      = Some (utab (3 * f) (?X * ?Y + ?cx * (?B * ?Y)))"
    using full assms(2) AddUpper_result [of "utab (3 * f) (?X * ?Y)" f u xc]
    by (simp add: uval_utab_exact)
  have 2: "Mul3_AddUpper yc f (utab (3 * f) (?X * ?Y + ?cx * (?B * ?Y))) t
      = Some (utab (3 * f) (?X * ?Y + ?cx * (?B * ?Y) + ?cy * (?B * ?X)))"
    using full assms(1) AddUpper_result [of "utab (3 * f) (?X * ?Y + ?cx * (?B * ?Y))" f t yc]
    by (simp add: uval_utab_exact)
  let ?v = "?X * ?Y + ?cx * (?B * ?Y) + ?cy * (?B * ?X)"
  have 3: "take (f * 2) (utab (3 * f) ?v) @ IncWords_loop (drop (f * 2) (utab (3 * f) ?v))
      = utab (3 * f) (p * q)" if "xc \<noteq> 0 \<and> yc \<noteq> 0"
    using that full pq IncUpper_value [of "f * 2" "utab (3 * f) ?v"] B2
    by (simp add: uval_utab_exact mult.commute)
  have 4: "p * q = ?v" if "\<not> (xc \<noteq> 0 \<and> yc \<noteq> 0)"
    using that pq by auto
  show "do {
      z1 \<leftarrow> Mul3_AddUpper xc f (z @ replicate f 0) u;
      z1 \<leftarrow> Mul3_AddUpper yc f z1 t;
      Some (if xc \<noteq> 0 \<and> yc \<noteq> 0 then take (f * 2) z1 @ IncWords_loop (drop (f * 2) z1) else z1)
    } = Some (utab (3 * f) (p * q))"
    using 3 4 by (simp only: z 1 2 bind.bind_lunit) simp
qed

lemma Mul3Big3_result:
  assumes rec: "\<And>n s t. n = f \<or> n = g \<Longrightarrow> length s = n \<Longrightarrow> length t = n \<Longrightarrow>
      UInt_Mul3Big2 n s t = Some (utab (2 * n) (uval s * uval t))"
    and len: "length x0 = f" "length y0 = f" "length x1 = g" "length y1 = g"
    and sz: "f = g \<and> 0 < f \<or> f = Suc g \<and> 1 < f" "n = 2 * (f + g)"
  shows "UInt_Mul3Big3 f g n x1 x0 y1 y0
    = Some (utab n ((uval x0 + W ^ f * uval x1) * (uval y0 + W ^ f * uval y1)))"
proof -
  let ?B = "W ^ f"
  let ?a = "uval x0" and ?b = "uval x1" and ?c = "uval y0" and ?d = "uval y1"
  have f: "0 < f" "g \<le> f" using sz by auto
  let ?z0 = "utab (2 * f) (?a * ?c)" and ?z2 = "utab (2 * g) (?b * ?d)"
  have z0: "UInt_Mul3Big2 f x0 y0 = Some ?z0" and z2: "UInt_Mul3Big2 g x1 y1 = Some ?z2"
    using rec len by simp_all
  obtain xc t where x: "UInt_AddVector x0 x1 = Some (xc, t)" "length t = f"
    "?a + ?b = uval t + ?B * of_bool (xc \<noteq> 0)" using carry_split [of x0 f x1] len f by auto
  obtain yc u where y: "UInt_AddVector y0 y1 = Some (yc, u)" "length u = f"
    "?c + ?d = uval u + ?B * of_bool (yc \<noteq> 0)" using carry_split [of y0 f y1] len f by auto
  have tu: "UInt_Mul3Big2 f t u = Some (utab (2 * f) (uval t * uval u))"
    using rec x y by simp
  note z1 = Mul3Big3_z1 [OF x(2) y(2) f(1) refl x(3) y(3)]
  have v0: "uval ?z0 = ?a * ?c" and v2: "uval ?z2 = ?b * ?d"
    using uval_mult_less [of x0 f y0 f] uval_mult_less [of x1 g y1 g] len
    by (simp_all add: uval_utab_exact mult_2)
  note mid = karatsuba_middle [where a = ?a and b = ?b and c = ?c and d = ?d]
  have s2: "Mul3_SubVector (utab (3 * f) ((?a + ?b) * (?c + ?d))) ?z2
      = Some (utab (3 * f) ((?a + ?b) * (?c + ?d) - ?b * ?d))"
    using z1(2) v2 mid(2) f by (subst SubVector_result_exact) (simp_all add: uval_utab_exact)
  have le: "(?a + ?b) * (?c + ?d) - ?b * ?d < W ^ (3 * f)" using z1(2) by linarith
  have s0: "Mul3_SubVector (utab (3 * f) ((?a + ?b) * (?c + ?d) - ?b * ?d)) ?z0
      = Some (utab (3 * f) (?b * ?c + ?a * ?d))"
    using le v0 mid(1,3) by (subst SubVector_result_exact) (simp_all add: uval_utab_exact)
  let ?z1 = "utab (3 * f) (?b * ?c + ?a * ?d)"
  have m: "?b * ?c + ?a * ?d < W ^ (3 * f)" using le mid(1) by linarith
  have r: "uval (?z0 @ ?z2) + ?B * uval ?z1 = (?a + ?B * ?b) * (?c + ?B * ?d)"
  proof -
    have "uval (?z0 @ ?z2) + ?B * uval ?z1
        = ?a * ?c + ?B * ?B * (?b * ?d) + ?B * (?b * ?c + ?a * ?d)"
      using m v0 v2 by (simp add: uval_append uval_utab_exact power_add mult_2)
    then show ?thesis by (simp add: algebra_simps)
  qed
  have prod: "(?a + ?B * ?b) * (?c + ?B * ?d) < W ^ n"
    using uval_mult_less [of "x0 @ x1" "f + g" "y0 @ y1" "f + g"] len sz(2)
    by (simp only: uval_append length_append mult_2)
  have odd: "uval ?z1 < W ^ (n - f)" if "g < f"
  proof -
    have "?b * ?c < W ^ (g + f)" "?a * ?d < W ^ (g + f)"
      using uval_mult_less [of x1 g y0 f] uval_mult_less [of x0 f y1 g] len by (simp_all add: add.commute)
    then have "?b * ?c + ?a * ?d < W ^ (g + f) * 2" by linarith
    also have "\<dots> \<le> W ^ (g + f) * W" by (simp add: W_def)
    also have "\<dots> = W ^ Suc (g + f)" by (simp only: power_Suc2)
    also have "\<dots> \<le> W ^ (n - f)" using that sz by (intro W_power_mono) auto
    finally show ?thesis using m by (simp add: uval_utab_exact)
  qed
  have "Mul3_AddResult f g n ?z1 (?z0 @ ?z2) = Some (utab n ((?a + ?B * ?b) * (?c + ?B * ?d)))"
    unfolding r [symmetric] using sz odd prod r by (intro AddResult_result) auto
  moreover obtain p q where
      "Mul3_AddUpper xc f (utab (2 * f) (uval t * uval u) @ replicate f 0) u = Some p"
      "Mul3_AddUpper yc f p t = Some q"
      "(if xc \<noteq> 0 \<and> yc \<noteq> 0 then take (f * 2) q @ IncWords_loop (drop (f * 2) q) else q)
        = utab (3 * f) ((?a + ?b) * (?c + ?d))"
    using z1(1) unfolding Option.bind_eq_Some_conv by auto
  ultimately show ?thesis
    by (simp add: UInt_Mul3Big3.simps z0 z2 x(1) y(1) tu s2 s0 Let_def split del: if_split)
qed

lemma Mul3Big2_result:
  "0 < n \<Longrightarrow> length s = n \<Longrightarrow> length t = n \<Longrightarrow>
   UInt_Mul3Big2 n s t = Some (utab (2 * n) (uval s * uval t))"
proof (induction n arbitrary: s t rule: less_induct)
  case (less n)
  have split: "uval s = uval (take k s) + W ^ k * uval (drop k s)"
    "uval t = uval (take k t) + W ^ k * uval (drop k t)" if "k \<le> n" for k
    using that less.prems uval_split [of s k] uval_split [of t k] by (simp_all add: min_absorb1)
  consider "n = 1" | "n = 2" | "3 \<le> n" "odd n" | "3 \<le> n" "even n"
    using less.prems by linarith
  then show ?case
  proof cases
    case 1
    obtain hi lo where m: "UInt_MulTwoWords (s ! 0) (t ! 0) = (hi, lo)" by (metis surj_pair)
    have "s = [s ! 0]" "t = [t ! 0]" using less.prems 1
      by (metis One_nat_def length_0_conv length_Suc_conv nth_Cons_0)+
    then have "uval s = unat (s ! 0)" "uval t = unat (t ! 0)"
      by (metis add.right_neutral mult_0_right uval.simps)+
    then have "uval [lo, hi] = uval s * uval t" using MulTwoWords_value [OF m] by simp
    moreover have "uval [lo, hi] < W ^ 2" using uval_less [of "[lo, hi]"] by (simp add: numeral_2_eq_2)
    ultimately have "[lo, hi] = utab 2 (uval s * uval t)" by (intro utab_eqI) simp_all
    with 1 m show ?thesis by (simp add: UInt_Mul3Big2.simps)
  next
    case 2
    then show ?thesis using less.prems Mul2Big2_result [of s 2 t "replicate 4 0"]
      by (simp add: UInt_Mul3Big2.simps TTMATH_USE_KARATSUBA_MULTIPLICATION_FROM_SIZE_def)
  next
    case 3
    let ?f = "n div 2 + 1"
    have k: "?f \<le> n" using 3 by (auto elim!: oddE)
    have "UInt_Mul3Big3 ?f (n div 2) (n * 2) (drop ?f s) (take ?f s) (drop ?f t) (take ?f t)
        = Some (utab (n * 2) (uval s * uval t))"
      unfolding split [OF k] using 3 less.prems
      by (intro Mul3Big3_result less.IH) (auto elim!: oddE)
    with 3 show ?thesis
      by (simp add: UInt_Mul3Big2.simps odd_iff_mod_2_eq_one mult.commute
          TTMATH_USE_KARATSUBA_MULTIPLICATION_FROM_SIZE_def)
  next
    case 4
    let ?f = "n div 2"
    have k: "?f \<le> n" by simp
    have "UInt_Mul3Big3 ?f ?f (n * 2) (drop ?f s) (take ?f s) (drop ?f t) (take ?f t)
        = Some (utab (n * 2) (uval s * uval t))"
      unfolding split [OF k] using 4 less.prems
      by (intro Mul3Big3_result less.IH) (auto elim!: evenE)
    with 4 show ?thesis
      by (simp add: UInt_Mul3Big2.simps mult.commute
          TTMATH_USE_KARATSUBA_MULTIPLICATION_FROM_SIZE_def)
  qed
qed

lemma Mul3Big_result:
  assumes "length s = length t" "t \<noteq> []"
  shows "UInt_Mul3Big t s = Some (utab (2 * length t) (uval t * uval s))"
  using assms by (simp add: UInt_Mul3Big_def Mul3Big2_result)

end
