(* ===== verification/UInt_Multiply.thy ===== *)
theory UInt_Multiply
  imports UInt_Karatsuba
begin

text \<open>
  The multiplications of \<^verbatim>\<open>ttmathuint.h\<close> that a client calls: the bit-by-bit \<^verbatim>\<open>Mul1\<close>, the
  in-place \<^verbatim>\<open>Mul2\<close>, \<^verbatim>\<open>Mul3\<close> and \<^verbatim>\<open>MulFastest\<close>, which copy the low half of a product of twice
  the size and test the high half, and the dispatchers \<^verbatim>\<open>Mul\<close> and \<^verbatim>\<open>MulBig\<close>. The locale
  \<open>big_multiplier\<close> states what the in-place methods need of the method that fills the large
  table; it is interpreted on \<^verbatim>\<open>Mul1Big\<close>, \<^verbatim>\<open>Mul2Big\<close>, \<^verbatim>\<open>Mul3Big\<close> and \<^verbatim>\<open>MulFastestBig\<close>.
  A method whose argument may be the object itself copies it first, so the value of the argument
  is that of the object before the call, and the model takes values.
\<close>

section \<open>The methods\<close>

fun Mul1Ref_loop :: "nat \<Rightarrow> utable \<Rightarrow> utable \<Rightarrow> utable \<Rightarrow> (uint \<times> utable) option" where
  "Mul1Ref_loop 0 table ss1 ss2 = Some (0, table)"
| "Mul1Ref_loop (Suc k) table ss1 ss2 =
     (let (c, table) = UInt_Add table table 0
      in if c \<noteq> 0 then Some (1, table)
         else do {
           (c, ss1) \<leftarrow> UInt_Rcl ss1 1 0;
           (if c \<noteq> 0
            then let (c, table) = UInt_Add table ss2 0
                 in if c \<noteq> 0 then Some (1, table) else Mul1Ref_loop k table ss1 ss2
            else Mul1Ref_loop k table ss1 ss2)
         })"

definition UInt_Mul1Ref :: "utable \<Rightarrow> utable \<Rightarrow> (uint \<times> utable) option" where
  "UInt_Mul1Ref table ss2 =
     Mul1Ref_loop (length table * TTMATH_BITS_PER_UINT) (UInt_SetZero table) table ss2"

definition UInt_Mul1 :: "utable \<Rightarrow> utable \<Rightarrow> (uint \<times> utable) option" where
  "UInt_Mul1 table ss2 = UInt_Mul1Ref table ss2"

definition UInt_Mul1Big :: "utable \<Rightarrow> utable \<Rightarrow> utable option" where
  "UInt_Mul1Big table ss2 =
     (let value_size = length table;
          result = table @ replicate value_size 0;
          ss2 = ss2 @ replicate value_size 0
      in map_option snd (UInt_Mul1 result ss2))"

text \<open>Copying the low words of the large product and testing the high ones.\<close>

definition Mul_CopyResult :: "nat \<Rightarrow> utable \<Rightarrow> uint \<times> utable" where
  "Mul_CopyResult value_size result =
     (if all_zero (drop value_size result) then 0 else 1, take value_size result)"

definition UInt_Mul2 :: "utable \<Rightarrow> utable \<Rightarrow> (uint \<times> utable) option" where
  "UInt_Mul2 table ss2 = map_option (Mul_CopyResult (length table)) (UInt_Mul2Big table ss2)"

definition UInt_Mul3 :: "utable \<Rightarrow> utable \<Rightarrow> (uint \<times> utable) option" where
  "UInt_Mul3 table ss2 = map_option (Mul_CopyResult (length table)) (UInt_Mul3Big table ss2)"

definition UInt_MulFastestBig :: "utable \<Rightarrow> utable \<Rightarrow> utable option" where
  "UInt_MulFastestBig table ss2 =
     (let value_size = length table
      in if value_size < TTMATH_USE_KARATSUBA_MULTIPLICATION_FROM_SIZE
         then UInt_Mul2Big table ss2
         else let x1size = TopSize_loop table value_size;
                  x2size = TopSize_loop ss2 value_size
              in if x1size = 0 \<or> x2size = 0 then Some (replicate (value_size * 2) 0)
                 else let x1start = FirstSet_loop table x1size 0;
                          x2start = FirstSet_loop ss2 x2size 0;
                          distancex1 = x1size - x1start;
                          distancex2 = x2size - x2start
                      in if distancex1 < 3 \<or> distancex2 < 3
                         then UInt_Mul2Big3 table ss2 (replicate (value_size * 2) 0)
                                x1start x1size x2start x2size
                         else UInt_Mul3Big table ss2)"

definition UInt_MulFastest :: "utable \<Rightarrow> utable \<Rightarrow> (uint \<times> utable) option" where
  "UInt_MulFastest table ss2 =
     map_option (Mul_CopyResult (length table)) (UInt_MulFastestBig table ss2)"

definition UInt_Mul :: "utable \<Rightarrow> utable \<Rightarrow> nat \<Rightarrow> (uint \<times> utable) option" where
  "UInt_Mul table ss2 algorithm =
     (if algorithm = 1 then UInt_Mul1 table ss2
      else if algorithm = 2 then UInt_Mul2 table ss2
      else if algorithm = 3 then UInt_Mul3 table ss2
      else UInt_MulFastest table ss2)"

definition UInt_MulBig :: "utable \<Rightarrow> utable \<Rightarrow> nat \<Rightarrow> utable option" where
  "UInt_MulBig table ss2 algorithm =
     (if algorithm = 1 then UInt_Mul1Big table ss2
      else if algorithm = 2 then UInt_Mul2Big table ss2
      else if algorithm = 3 then UInt_Mul3Big table ss2
      else UInt_MulFastestBig table ss2)"

section \<open>The bit-by-bit method\<close>

lemma Add_bit_result:
  assumes "length s = length t" "t \<noteq> []"
  shows "UInt_Add t s 0
    = (of_bool (W ^ length t \<le> uval t + uval s), utab (length t) (uval t + uval s))"
proof -
  have "uval t + uval s < 2 * W ^ length t"
    using uval_less [of t] uval_less [of s] assms(1) by simp
  then show ?thesis using assms by (simp add: Add_result carry_result_bit)
qed

text \<open>The bit that one left shift moves out, while \<open>k\<close> bits of \<open>x\<close> remain.\<close>

lemma Rcl_next_bit:
  assumes "0 < n" "x < 2 ^ N" "Suc k \<le> N" "N = 64 * n"
  shows "UInt_Rcl (utab n (x * 2 ^ (N - Suc k))) 1 0
    = Some (of_bool (odd (x div 2 ^ k)), utab n (x * 2 ^ (N - k)))"
proof -
  let ?t = "utab n (x * 2 ^ (N - Suc k))" and ?v = "x * 2 ^ (N - Suc k)"
  have Wn: "W ^ n = 2 ^ N" using assms(4) by (simp add: W_power)
  have N: "(2 :: nat) ^ N = 2 ^ Suc k * 2 ^ (N - Suc k)"
    using assms(3) by (simp only: power_add [symmetric] le_add_diff_inverse)
  have v: "uval ?t = (x mod 2 ^ Suc k) * 2 ^ (N - Suc k)"
    unfolding uval_utab Wn N by (simp add: mod_mult_mult2)
  have sh: "shl_value ?t 1 0 = uval ?t * 2" by (simp add: shl_value_def fill_bits_def)
  have Nk: "(2 :: nat) ^ N = 2 ^ k * (2 * 2 ^ (N - Suc k))" unfolding N by simp
  have "uval ?t * 2 = (x mod 2 ^ Suc k) * (2 * 2 ^ (N - Suc k))" unfolding v by simp
  then have "uval ?t * 2 div W ^ n = x mod 2 ^ Suc k div 2 ^ k"
    unfolding Wn Nk by (simp only: div_mult_mult2) simp
  also have "\<dots> = x div 2 ^ k mod 2" using div_exp_mod_exp_eq [of x k 1] by simp
  finally have odd: "odd (uval ?t * 2 div W ^ n) = odd (x div 2 ^ k)" by simp
  have "N - k = Suc (N - Suc k)" using assms(3) by simp
  then have "utab n (uval ?t * 2) = utab n (x * 2 ^ (N - k))"
    using mod_mult_add_left [of ?v "W ^ n" 2 0] by (intro utab_eqI) (simp_all add: uval_utab ac_simps)
  moreover have "?t \<noteq> []" using assms(1) by (metis length_utab length_0_conv less_irrefl)
  ultimately show ?thesis
    using odd sh assms(1) Rcl_result [of ?t 1 0] by simp
qed

lemma Mul1Ref_loop_value:
  assumes "0 < n" "length s = n" "x < 2 ^ N" "k \<le> N" "N = 64 * n"
    "(x div 2 ^ k) * uval s < W ^ n"
  shows "\<exists>r. Mul1Ref_loop k (utab n ((x div 2 ^ k) * uval s)) (utab n (x * 2 ^ (N - k))) s
    = Some (of_bool (W ^ n \<le> x * uval s), r) \<and> (x * uval s < W ^ n \<longrightarrow> r = utab n (x * uval s))"
  using assms(4,6)
proof (induction k)
  case (Suc k)
  let ?y = "uval s" and ?a = "x div 2 ^ Suc k" and ?b = "x div 2 ^ k"
  let ?t = "utab n (?a * ?y)"
  have y: "?y < W ^ n" using assms(2) uval_less by blast
  have ab: "?b = 2 * ?a + of_bool (odd ?b)"
  proof -
    have "?a = ?b div 2" by (simp only: div_mult2_eq power_Suc2)
    moreover have "?b mod 2 = of_bool (odd ?b)" by (simp only: mod_2_eq_odd)
    ultimately show ?thesis by (metis mult_div_mod_eq)
  qed
  then have bY: "?b * ?y = (?a * ?y + ?a * ?y) + of_bool (odd ?b) * ?y"
  proof -
    have "?b * ?y = (2 * ?a + of_bool (odd ?b)) * ?y" using ab by (rule arg_cong)
    then show ?thesis by (simp only: distrib_right mult_2)
  qed
  have mono: "?b * ?y \<le> x * ?y" by simp
  have ut: "uval ?t = ?a * ?y" using Suc.prems(2) by (rule uval_utab_exact)
  have add1: "UInt_Add ?t ?t 0 = (of_bool (W ^ n \<le> ?a * ?y + ?a * ?y), utab n (?a * ?y + ?a * ?y))"
    using Add_bit_result [of ?t ?t] assms(1) ut by (cases n) simp_all
  note rcl = Rcl_next_bit [OF assms(1,3) Suc.prems(1) assms(5)]
  show ?case
  proof (cases "W ^ n \<le> ?a * ?y + ?a * ?y")
    case True
    then have "W ^ n \<le> x * ?y" using mono bY by linarith
    with True add1 show ?thesis by simp
  next
    case False
    let ?u = "utab n (?a * ?y + ?a * ?y)"
    have uu: "uval ?u = ?a * ?y + ?a * ?y" using False by (simp add: uval_utab_exact)
    have add2: "UInt_Add ?u s 0 = (of_bool (W ^ n \<le> ?a * ?y + ?a * ?y + ?y), utab n (?a * ?y + ?a * ?y + ?y))"
      using Add_bit_result [of s ?u] assms(1,2) uu by (cases n) simp_all
    show ?thesis
    proof (cases "odd ?b")
      case odd: True
      with bY have e: "?b * ?y = ?a * ?y + ?a * ?y + ?y" by simp
      show ?thesis
      proof (cases "W ^ n \<le> ?b * ?y")
        case True
        then have "W ^ n \<le> x * ?y" using mono by linarith
        with True False odd add1 add2 rcl e show ?thesis by simp
      next
        case small: False
        with Suc.IH Suc.prems(1) obtain r where
          "Mul1Ref_loop k (utab n (?b * ?y)) (utab n (x * 2 ^ (N - k))) s
            = Some (of_bool (W ^ n \<le> x * ?y), r)" "x * ?y < W ^ n \<longrightarrow> r = utab n (x * ?y)"
          by auto
        with small False odd add1 add2 rcl show ?thesis by (simp add: e)
      qed
    next
      case even: False
      with bY have e: "?b * ?y = ?a * ?y + ?a * ?y" by simp
      with False Suc.IH Suc.prems(1) obtain r where
        "Mul1Ref_loop k (utab n (?b * ?y)) (utab n (x * 2 ^ (N - k))) s
          = Some (of_bool (W ^ n \<le> x * ?y), r)" "x * ?y < W ^ n \<longrightarrow> r = utab n (x * ?y)"
        by auto
      with False even add1 rcl show ?thesis by (simp add: e)
    qed
  qed
qed (auto intro!: exI [of _ "utab n (x * uval s)"])

lemma Mul1_result:
  assumes "length s = length t" "t \<noteq> []"
  shows "\<exists>r. UInt_Mul1 t s = Some (of_bool (W ^ length t \<le> uval t * uval s), r) \<and>
    (uval t * uval s < W ^ length t \<longrightarrow> r = utab (length t) (uval t * uval s))"
proof -
  let ?n = "length t"
  have x: "uval t < 2 ^ (64 * ?n)" using uval_less [of t] by (simp add: W_power)
  have "UInt_SetZero t = utab ?n 0" by (simp add: UInt_SetZero_def map_replicate_const utab_eqI)
  then show ?thesis
    using Mul1Ref_loop_value [of ?n s "uval t" "64 * ?n" "64 * ?n"] assms x
    by (simp add: UInt_Mul1_def UInt_Mul1Ref_def TTMATH_BITS_PER_UINT_def mult.commute)
qed

lemma Mul1Big_result:
  assumes "length s = length t" "t \<noteq> []"
  shows "UInt_Mul1Big t s = Some (utab (2 * length t) (uval t * uval s))"
proof -
  let ?n = "length t"
  have "uval t * uval s < W ^ (?n + ?n)" using assms by (intro uval_mult_less) simp_all
  then show ?thesis
    using Mul1_result [of "s @ replicate ?n 0" "t @ replicate ?n 0"] assms
    by (auto simp: UInt_Mul1Big_def Let_def mult_2)
qed

section \<open>The methods by way of a product of twice the size\<close>

locale big_multiplier =
  fixes mulbig :: "utable \<Rightarrow> utable \<Rightarrow> utable option"
  assumes product: "length s = length t \<Longrightarrow> t \<noteq> [] \<Longrightarrow>
    mulbig t s = Some (utab (2 * length t) (uval t * uval s))"
begin

lemma truncated:
  assumes "length s = length t" "t \<noteq> []"
  shows "map_option (Mul_CopyResult (length t)) (mulbig t s)
    = Some (of_bool (W ^ length t \<le> uval t * uval s), utab (length t) (uval t * uval s))"
proof -
  let ?n = "length t" and ?p = "uval t * uval s"
  have "?p < W ^ (2 * ?n)" using uval_mult_less [of t ?n s ?n] assms by (simp add: mult_2)
  then have v: "uval (utab (2 * ?n) ?p) = ?p" by (rule uval_utab_exact)
  then have "all_zero (drop ?n (utab (2 * ?n) ?p)) \<longleftrightarrow> ?p < W ^ ?n"
    by (simp add: all_zero_iff uval_drop div_eq_0_iff)
  moreover have "take ?n (utab (2 * ?n) ?p) = utab ?n ?p"
    using v by (intro utab_eqI) (simp_all add: uval_take)
  ultimately show ?thesis
    using product [OF assms] by (simp add: Mul_CopyResult_def not_less)
qed

lemma commutes:
  assumes "length s = length t" "t \<noteq> []"
  shows "mulbig t s = mulbig s t"
proof -
  have "s \<noteq> []" using assms by auto
  with assms show ?thesis by (simp add: product mult.commute)
qed

end

interpretation mul1_big: big_multiplier UInt_Mul1Big
  by unfold_locales (rule Mul1Big_result)

interpretation mul2_big: big_multiplier UInt_Mul2Big
  by unfold_locales (rule Mul2Big_result)

interpretation mul3_big: big_multiplier UInt_Mul3Big
  by unfold_locales (rule Mul3Big_result)

lemma MulFastestBig_result:
  assumes "length s = length t" "t \<noteq> []"
  shows "UInt_MulFastestBig t s = Some (utab (2 * length t) (uval t * uval s))"
proof -
  let ?x = "TopSize_loop t (length t)" and ?y = "TopSize_loop s (length t)"
  have tr: "trimmed t 0 ?x" "trimmed s 0 ?y"
    using trimmed_TopSize [of t] trimmed_TopSize [of s] assms(1) by simp_all
  have zero: "Some (replicate (length t * 2) 0) = Some (utab (2 * length t) (uval t * uval s))"
    if "?x = 0 \<or> ?y = 0"
  proof -
    have "uval t * uval s = 0" using tr that by (auto simp: trimmed_def)
    then show ?thesis by (simp only:) (simp add: utab_eqI)
  qed
  have "UInt_Mul2Big3 t s (replicate (length t * 2) 0) (FirstSet_loop t ?x 0) ?x (FirstSet_loop s ?y 0) ?y
      = Some (utab (2 * length t) (uval t * uval s))"
    using assms by (intro Mul2Big3_result trimmed_FirstSet tr) simp_all
  then show ?thesis
    using zero mul2_big.product [OF assms] mul3_big.product [OF assms]
    by (simp add: UInt_MulFastestBig_def Let_def)
qed

interpretation fastest_big: big_multiplier UInt_MulFastestBig
  by unfold_locales (rule MulFastestBig_result)

lemmas big_products = mul1_big.product mul2_big.product mul3_big.product fastest_big.product

lemmas Mul2_result = mul2_big.truncated [folded UInt_Mul2_def]
lemmas Mul3_result = mul3_big.truncated [folded UInt_Mul3_def]
lemmas MulFastest_result = fastest_big.truncated [folded UInt_MulFastest_def]

lemma MulBig_result:
  assumes "length s = length t" "t \<noteq> []"
  shows "UInt_MulBig t s a = Some (utab (2 * length t) (uval t * uval s))"
  using assms by (simp add: UInt_MulBig_def big_products)

lemma Mul_result:
  assumes "length s = length t" "t \<noteq> []"
  shows "\<exists>r. UInt_Mul t s a = Some (of_bool (W ^ length t \<le> uval t * uval s), r) \<and>
    (uval t * uval s < W ^ length t \<longrightarrow> r = utab (length t) (uval t * uval s))"
  using Mul1_result [OF assms] Mul2_result [OF assms] Mul3_result [OF assms]
    MulFastest_result [OF assms]
  by (simp add: UInt_Mul_def)

end
