(* ===== verification/Knuth_Estimate.thy ===== *)
theory Knuth_Estimate
  imports Prelude
begin

text \<open>
  The mathematics of one digit of long division in radix \<open>b\<close>, used twice by the code:
  in radix \<open>2 ^ 32\<close> inside \<^verbatim>\<open>DivTwoWords2\<close> and in radix \<open>2 ^ 64\<close> inside
  \<^verbatim>\<open>Div3_Division\<close>. \<open>qhat\<close> is the correction loop on numbers; the locale
  \<open>radix\<close> states what it returns and how far that is from the digit of the quotient.
\<close>

function qhat :: "nat \<Rightarrow> nat \<Rightarrow> nat \<Rightarrow> nat \<Rightarrow> nat \<Rightarrow> nat \<Rightarrow> nat" where
  "qhat b v1 v0 u0 qp rp =
     (if v1 \<noteq> 0 \<and> (qp \<ge> b \<or> qp * v0 > rp * b + u0)
      then (if rp + v1 < b then qhat b v1 v0 u0 (qp - 1) (rp + v1) else qp - 1)
      else qp)"
  by pat_completeness auto
termination
  by (relation "measure (\<lambda>(b, v1, v0, u0, qp, rp). b - rp)") auto

declare qhat.simps [simp del]

locale radix =
  fixes b :: nat
  assumes radix_gt_1: "1 < b"
begin

lemma qhat_exact:
  assumes v1: "0 < v1" and u2: "u2 \<le> v1" and u1: "u1 < b" and v0: "v0 < b"
    and inv: "qp * v1 + rp = u2 * b + u1"
    and low: "min (((u2 * b + u1) * b + u0) div (v1 * b + v0)) (b - 1) \<le> qp"
  shows "qhat b v1 v0 u0 qp rp = min (((u2 * b + u1) * b + u0) div (v1 * b + v0)) (b - 1)"
  using v1 u2 u1 v0 inv low
proof (induction b v1 v0 u0 qp rp rule: qhat.induct)
  case (1 b v1 v0 u0 qp rp)
  let ?V = "v1 * b + v0" and ?U = "(u2 * b + u1) * b + u0"
  let ?Q = "min (?U div ?V) (b - 1)"
  have b: "0 < b" using "1.prems"(3) by simp
  have V: "0 < ?V" using "1.prems"(1) b by simp
  have UV: "q * ?V \<le> ?U \<longleftrightarrow> q * v0 \<le> r * b + u0" if "q * v1 + r = u2 * b + u1" for q r
  proof -
    have "?U = q * v1 * b + (r * b + u0)"
      using that by (metis add.assoc distrib_right)
    moreover have "q * ?V = q * v1 * b + q * v0"
      by (simp add: algebra_simps)
    ultimately show ?thesis by simp
  qed
  have Q: "q \<le> ?U div ?V \<longleftrightarrow> q * ?V \<le> ?U" for q
    using V by (rule less_eq_div_iff_mult_less_eq)
  show ?case
  proof (cases "qp \<ge> b \<or> qp * v0 > rp * b + u0")
    case True
    have "\<not> qp \<le> ?Q"
      using True Q [of qp] UV [OF "1.prems"(5)] b by auto
    then have gt: "?Q < qp" by linarith
    then have inv: "(qp - 1) * v1 + (rp + v1) = u2 * b + u1"
      using "1.prems"(5) by (cases qp) (simp_all add: algebra_simps)
    show ?thesis
    proof (cases "rp + v1 < b")
      case True': True
      with True "1.prems" gt inv show ?thesis
        using "1.IH" by (simp add: qhat.simps [of b v1 v0 u0 qp rp])
    next
      case False
      have "qp - 1 < b"
      proof (rule ccontr)
        assume "\<not> qp - 1 < b"
        then have "b * v1 \<le> (qp - 1) * v1" by (intro mult_le_mono1) simp
        moreover have "u2 * b \<le> b * v1" using "1.prems"(2) by simp
        ultimately show False using inv False "1.prems"(3) by linarith
      qed
      then have "(qp - 1) * v0 \<le> b * b"
        using "1.prems"(4) by (intro mult_le_mono) simp_all
      also have "\<dots> \<le> (rp + v1) * b + u0"
        using False by (simp add: trans_le_add1)
      finally have "qp - 1 \<le> ?Q"
        using UV [OF inv] Q [of "qp - 1"] \<open>qp - 1 < b\<close> by simp
      with gt have "qp - 1 = ?Q" by linarith
      with True False "1.prems"(1) show ?thesis
        by (simp add: qhat.simps [of b v1 v0 u0 qp rp])
    qed
  next
    case False
    then have "qp \<le> ?Q"
      using Q [of qp] UV [OF "1.prems"(5)] by auto
    with "1.prems"(6) have "qp = ?Q" by linarith
    moreover have "qhat b v1 v0 u0 qp rp = qp"
      using False by (subst qhat.simps) simp
    ultimately show ?thesis by simp
  qed
qed

lemma qhat_start:
  assumes "0 < v1" "u0 < b"
  shows "min (((u2 * b + u1) * b + u0) div (v1 * b + v0)) (b - 1) \<le> (u2 * b + u1) div v1"
proof -
  let ?u = "u2 * b + u1"
  let ?q = "(?u * b + u0) div (v1 * b + v0)"
  have "?q * (v1 * b + v0) \<le> ?u * b + u0" by simp
  then have "?q * v1 * b \<le> ?u * b + u0" by (simp add: algebra_simps)
  also have "\<dots> < (?u + 1) * b" using assms(2) by simp
  finally have "?q * v1 < ?u + 1" by (simp only: mult_less_cancel2)
  then have "?q \<le> ?u div v1"
    using assms(1) by (simp add: less_eq_div_iff_mult_less_eq)
  then show ?thesis by simp
qed

lemma qhat_digit:
  assumes "0 < v1" "u2 \<le> v1" "u1 < b" "v0 < b" "u0 < b"
  shows "qhat b v1 v0 u0 ((u2 * b + u1) div v1) ((u2 * b + u1) mod v1)
    = min (((u2 * b + u1) * b + u0) div (v1 * b + v0)) (b - 1)"
  using assms by (intro qhat_exact qhat_start) simp_all

text \<open>
  The estimate from the three leading digits of the dividend and the two leading digits of
  the divisor is the digit of the quotient or one more.
\<close>

lemma estimate_bounds:
  assumes U: "U = U3 * p + ul" "ul < p" and V: "V = V2 * p + vl" "vl < p"
    and "b \<le> V2" and "U < V * b"
  defines "q \<equiv> min (U3 div V2) (b - 1)"
  shows "U div V \<le> q \<and> q \<le> U div V + 1"
proof -
  have V2: "0 < V2" using assms(5) radix_gt_1 by simp
  have p: "0 < p" using U(2) by simp
  have V0: "0 < V" using V V2 p by simp
  have "U div V < b" using assms(6) V0 by (simp add: less_mult_imp_div_less mult.commute)
  moreover have "U div V \<le> U3 div V2"
  proof -
    have "U div V * V \<le> U" by simp
    then have "U div V * V2 * p \<le> U" unfolding V(1) by (simp add: algebra_simps)
    also have "\<dots> < (U3 + 1) * p" using U by simp
    finally have "U div V * V2 < U3 + 1" by (simp only: mult_less_cancel2)
    then show ?thesis using V2 by (simp add: less_eq_div_iff_mult_less_eq)
  qed
  moreover have "q \<le> U div V + 1"
  proof -
    have "q * V2 \<le> U3"
    proof -
      have "q * V2 \<le> U3 div V2 * V2" by (intro mult_le_mono1) (simp add: q_def)
      also have "\<dots> \<le> U3" by simp
      finally show ?thesis .
    qed
    then have "q * V2 * p \<le> U" unfolding U(1) by (simp add: trans_le_add1)
    moreover have "q * vl < V"
    proof -
      have "q * vl \<le> b * vl" by (intro mult_le_mono1) (simp add: q_def)
      also have "\<dots> < b * p" using V(2) radix_gt_1 by simp
      also have "\<dots> \<le> V2 * p" using assms(5) by simp
      finally show ?thesis using V(1) by simp
    qed
    ultimately have "q * V < U + V" unfolding V(1) by (simp add: algebra_simps)
    moreover have "U < V + U div V * V"
      using V0 by (rule dividend_less_div_times)
    ultimately have "q * V < (U div V + 2) * V"
      by (simp only: distrib_right)
    then show ?thesis by (simp only: mult_less_cancel2) simp
  qed
  ultimately show ?thesis by (simp add: q_def)
qed

end

interpretation half_radix: radix "2 ^ 32"
  by unfold_locales simp

interpretation word_radix: radix W
  by unfold_locales simp

end
