(* ===== verification/UInt_DivWords.thy ===== *)
theory UInt_DivWords
  imports UInt_Words Knuth_Estimate
begin

text \<open>
  The division of a double word by a word of \<^verbatim>\<open>ttmathuint_noasm.h\<close>:
  \<^verbatim>\<open>DivTwoWords\<close> and its helpers, which do long division in radix \<open>2 ^ 32\<close> when the
  divisor uses both halves of its word. Written reference parameters are components of the
  result; \<open>None\<close> is a failed \<^verbatim>\<open>TTMATH_ASSERT\<close> or a loop that does not end.
\<close>

partial_function (option) DivTwoWordsNormalize_loop ::
    "uint \<Rightarrow> uint \<Rightarrow> uint \<Rightarrow> nat \<Rightarrow> (nat \<times> uint \<times> uint \<times> uint) option" where
  "DivTwoWordsNormalize_loop aw bw cw d =
     (if cw AND TTMATH_UINT_HIGHEST_BIT = 0
      then let cw = push_bit 1 cw;
               bc = bw AND TTMATH_UINT_HIGHEST_BIT;
               bw = push_bit 1 bw;
               aw = push_bit 1 aw;
               aw = (if bc \<noteq> 0 then aw OR 1 else aw)
           in DivTwoWordsNormalize_loop aw bw cw (d + 1)
      else Some (d, aw, bw, cw))"

declare DivTwoWordsNormalize_loop.simps [code]

definition UInt_DivTwoWordsNormalize ::
    "uint \<Rightarrow> uint \<Rightarrow> uint \<Rightarrow> (nat \<times> uint \<times> uint \<times> uint) option" where
  "UInt_DivTwoWordsNormalize aw bw cw = DivTwoWordsNormalize_loop aw bw cw 0"

definition UInt_DivTwoWordsUnnormalize :: "uint \<Rightarrow> nat \<Rightarrow> uint" where
  "UInt_DivTwoWordsUnnormalize u d = (if d = 0 then u else drop_bit d u)"

partial_function (option) DivTwoWordsCalculate_loop ::
    "uint \<Rightarrow> uint \<Rightarrow> uint32 \<Rightarrow> uint \<Rightarrow> uint option" where
  "DivTwoWordsCalculate_loop qpw rpw u3 vw =
     (if u_high qpw = 1 \<or> qpw * ucast (u_low vw) > u_make (u_low rpw) u3
      then let qpw = qpw - 1;
               rpw = rpw + ucast (u_high vw)
           in if u_high rpw = 0 then DivTwoWordsCalculate_loop qpw rpw u3 vw else Some qpw
      else Some qpw)"

declare DivTwoWordsCalculate_loop.simps [code]

definition UInt_DivTwoWordsCalculate :: "uint \<Rightarrow> uint32 \<Rightarrow> uint \<Rightarrow> uint32 option" where
  "UInt_DivTwoWordsCalculate uw u3 vw =
     (let qpw = uw div ucast (u_high vw);
          rpw = uw mod ucast (u_high vw)
      in if u_high qpw = 0 \<or> u_high qpw = 1
         then map_option u_low (DivTwoWordsCalculate_loop qpw rpw u3 vw)
         else None)"

definition UInt_MultiplySubtract ::
    "uint \<Rightarrow> uint32 \<Rightarrow> uint32 \<Rightarrow> uint \<Rightarrow> uint \<times> uint32 \<times> uint32" where
  "UInt_MultiplySubtract uw u3 q vw =
     (let (res_high, res_low) = UInt_MulTwoWords vw (ucast q);
          (c, sub_res_low) = UInt_SubTwoWords (u_make (u_low uw) u3) res_low 0;
          (c, sub_res_high) = UInt_SubTwoWords (u_make 0 (u_high uw)) res_high c;
          (q, sub_res_low, sub_res_high) =
            (if c \<noteq> 0
             then let q = q - 1;
                      (c, sub_res_low) = UInt_AddTwoWords sub_res_low vw 0;
                      (_, sub_res_high) = UInt_AddTwoWords sub_res_high 0 c
                  in (q, sub_res_low, sub_res_high)
             else (q, sub_res_low, sub_res_high))
      in (u_make (u_low sub_res_high) (u_high sub_res_low), u_low sub_res_low, q))"

definition UInt_DivTwoWords2 :: "uint \<Rightarrow> uint \<Rightarrow> uint \<Rightarrow> (uint \<times> uint) option" where
  "UInt_DivTwoWords2 a b c = do {
     (d, aw, bw, cw) \<leftarrow> UInt_DivTwoWordsNormalize a b c;
     let uw = u_make (u_high aw) (u_low aw);
     let u3 = u_high bw;
     q_high \<leftarrow> UInt_DivTwoWordsCalculate uw u3 cw;
     let (uw, u3, q_high) = UInt_MultiplySubtract uw u3 q_high cw;
     let uw = u_make (u_low uw) u3;
     let u3 = u_low bw;
     q_low \<leftarrow> UInt_DivTwoWordsCalculate uw u3 cw;
     let (uw, u3, q_low) = UInt_MultiplySubtract uw u3 q_low cw;
     let uw = u_make (u_low uw) u3;
     Some (u_make q_high q_low, UInt_DivTwoWordsUnnormalize uw d)
   }"

definition UInt_DivTwoWords :: "uint \<Rightarrow> uint \<Rightarrow> uint \<Rightarrow> (uint \<times> uint) option" where
  "UInt_DivTwoWords a b c =
     (if c \<noteq> 0 \<and> a < c
      then if a = 0 then Some (b div c, b mod c)
           else if u_high c = 0
           then let temp1 = u_make (u_low a) (u_high b);
                    res_high = (ucast (temp1 div c) :: uint32);
                    temp2 = u_make (ucast (temp1 mod c)) (u_low b);
                    res_low = (ucast (temp2 div c) :: uint32)
                in Some (u_make res_high res_low, temp2 mod c)
           else UInt_DivTwoWords2 a b c
      else None)"

section \<open>Normalisation\<close>

lemma double_bound:
  fixes w :: nat
  assumes "w * x + y = 2 * (w * a + b)" "b < w"
  shows "x < 2 * (a + 1)"
proof -
  have "w * x < w * (2 * (a + 1))"
    using assms by (simp add: algebra_simps)
  then show ?thesis by (simp only: mult_less_cancel1)
qed

lemma shift_two_words:
  fixes a b :: uint
  assumes "unat (a :: uint) < 2 ^ 63"
  defines "a' \<equiv> (if b AND TTMATH_UINT_HIGHEST_BIT \<noteq> 0 then push_bit 1 a OR 1 else push_bit 1 a)"
  shows "W * unat a' + unat (push_bit 1 b) = 2 * (W * unat a + unat b)"
proof -
  have "unat (push_bit 1 a) = 2 * unat a"
    using assms(1) by (simp only: push_bit_uint W_def) simp
  moreover have "unat (push_bit 1 a OR 1) = unat a * 2 ^ 1 mod W + unat (1 :: uint)"
    by (rule unat_push_bit_or) simp
  then have "unat (push_bit 1 a OR 1) = unat (push_bit 1 a) + 1"
    by (simp only: push_bit_uint) simp
  ultimately have a': "unat a' = 2 * unat a + of_bool (W div 2 \<le> unat b)"
    by (simp add: a'_def and_highest_bit_iff bit_63_iff)
  have "unat (push_bit 1 b) = 2 * unat b - W * of_bool (W div 2 \<le> unat b)"
    unfolding push_bit_uint using unat_uint_bound [of b] by (simp add: W_def mod_if mult.commute)
  with a' show ?thesis
    by (auto simp: W_def)
qed

lemma DivTwoWordsNormalize_loop_value:
  assumes "2 ^ k \<le> unat c" "unat c < 2 ^ Suc k" "k \<le> 63" "unat a < unat c"
  shows "\<exists>a' b' c'. DivTwoWordsNormalize_loop a b c d = Some (d + (63 - k), a', b', c') \<and>
    unat c' = unat c * 2 ^ (63 - k) \<and> W * unat a' + unat b' = (W * unat a + unat b) * 2 ^ (63 - k)"
  using assms
proof (induction "63 - k" arbitrary: k a b c d)
  case 0
  then have "k = 63" by simp
  with 0 have "bit c 63" by (simp add: bit_63_iff W_def)
  with \<open>k = 63\<close> show ?case
    by (subst DivTwoWordsNormalize_loop.simps) (simp add: and_highest_bit_eq_0_iff)
next
  case (Suc n)
  then have k: "Suc k \<le> 63" and n: "n = 63 - Suc k" by simp_all
  have lt: "unat c < 2 ^ 63"
    using Suc.prems(2) power_increasing [OF k, of "2 :: nat"] by linarith
  let ?a = "if b AND TTMATH_UINT_HIGHEST_BIT \<noteq> 0 then push_bit 1 a OR 1 else push_bit 1 a"
  have c: "unat (push_bit 1 c) = 2 * unat c"
    using lt by (simp only: push_bit_uint W_def) simp
  have s: "W * unat ?a + unat (push_bit 1 b) = 2 * (W * unat a + unat b)"
    using lt Suc.prems(4) by (intro shift_two_words) simp
  then have "unat ?a < 2 * (unat a + 1)"
    by (rule double_bound) simp
  then have "unat ?a < unat (push_bit 1 c)"
    unfolding c by (rule order_less_le_trans) (use Suc.prems(4) in simp)
  moreover have "2 ^ Suc k \<le> unat (push_bit 1 c)" "unat (push_bit 1 c) < 2 ^ Suc (Suc k)"
    using Suc.prems(1,2) unfolding c by simp_all
  ultimately obtain a' b' c' where
    IH: "DivTwoWordsNormalize_loop ?a (push_bit 1 b) (push_bit 1 c) (d + 1)
        = Some (d + 1 + (63 - Suc k), a', b', c')"
      "unat c' = unat (push_bit 1 c) * 2 ^ (63 - Suc k)"
      "W * unat a' + unat b' = (W * unat ?a + unat (push_bit 1 b)) * 2 ^ (63 - Suc k)"
    using Suc.hyps(1) [OF n _ _ k, of "push_bit 1 c" ?a "push_bit 1 b" "d + 1"] by blast
  have "DivTwoWordsNormalize_loop a b c d
      = DivTwoWordsNormalize_loop ?a (push_bit 1 b) (push_bit 1 c) (d + 1)"
    using lt by (subst DivTwoWordsNormalize_loop.simps)
      (simp add: and_highest_bit_eq_0_iff bit_63_iff W_def Let_def del: One_nat_def)
  moreover have "63 - k = Suc (63 - Suc k)" using k by simp
  ultimately show ?case
    using IH(1) IH(2) [unfolded c] IH(3) [unfolded s] by simp
qed

section \<open>One digit of the quotient\<close>

lemma u_high_eq_0_iff: "(u_high u = 0) = (unat u < 2 ^ 32)"
  by (simp add: word_unat_eq_iff unat_u_high div_eq_0_iff)

lemma u_high_eq_1_iff: "unat u < 2 * 2 ^ 32 \<Longrightarrow> (u_high u = 1) = (2 ^ 32 \<le> unat u)"
  by (auto simp: word_unat_eq_iff unat_u_high div_nat_eqI)

lemma u_high_u_low_make [simp]: "u_make (u_high u) (u_low u) = u"
  by (simp only: word_unat_eq_iff unat_u_make unat_halves [symmetric])

lemma DivTwoWordsCalculate_loop_value:
  assumes "u_high v \<noteq> 0" "unat qp < 2 * 2 ^ 32" "unat rp < 2 ^ 32"
  shows "\<exists>q. DivTwoWordsCalculate_loop qp rp u3 v = Some q \<and>
    unat q = qhat (2 ^ 32) (unat (u_high v)) (unat (u_low v)) (unat u3) (unat qp) (unat rp)"
  using assms(2,3)
proof (induction "2 ^ 32 - unat rp" arbitrary: qp rp rule: less_induct)
  case less
  let ?vh = "unat (u_high v)" and ?vl = "unat (u_low v)"
  have vh: "0 < ?vh" using assms(1) by (simp add: unat_gt_0)
  have rp_low: "unat (u_low rp) = unat rp" using less.prems(2) by (simp add: unat_u_low)
  have prod: "unat (qp * ucast (u_low v)) = unat qp * ?vl" if "unat qp < 2 ^ 32"
  proof -
    have "unat qp * ?vl < 2 ^ LENGTH(64)"
      using that mult_le_mono [of "unat qp" 4294967295 ?vl 4294967295] unat_uint32_bound [of "u_low v"]
      by simp
    then show ?thesis by (simp add: unat_mult_lem [THEN iffD1])
  qed
  have test: "(u_high qp = 1 \<or> qp * ucast (u_low v) > u_make (u_low rp) u3)
      = (2 ^ 32 \<le> unat qp \<or> unat qp * ?vl > unat rp * 2 ^ 32 + unat u3)"
  proof (cases "2 ^ 32 \<le> unat qp")
    case True
    then show ?thesis using less.prems(1) by (simp add: u_high_eq_1_iff)
  next
    case False
    then have "unat qp < 2 ^ 32" by simp
    from prod [OF this] False show ?thesis
      using less.prems(1)
      by (simp add: u_high_eq_1_iff word_less_nat_alt unat_u_make rp_low)
  qed
  show ?case
  proof (cases "2 ^ 32 \<le> unat qp \<or> unat qp * ?vl > unat rp * 2 ^ 32 + unat u3")
    case True
    then have "0 < unat qp" by (cases "unat qp") auto
    then have qp: "unat (qp - 1) = unat qp - 1"
      by (simp add: unat_minus_one unat_gt_0)
    have rp: "unat (rp + ucast (u_high v)) = unat rp + ?vh"
      using less.prems(2) unat_uint32_bound [of "u_high v"] by (simp add: unat_plus_if')
    show ?thesis
    proof (cases "unat rp + ?vh < 2 ^ 32")
      case True': True
      have "unat (qp - 1) < 2 * 2 ^ 32" "unat (rp + ucast (u_high v)) < 2 ^ 32"
        "2 ^ 32 - unat (rp + ucast (u_high v)) < 2 ^ 32 - unat rp"
        using less.prems True' vh unfolding qp rp by simp_all
      from less.hyps [OF this(3,1,2)] True True' vh test show ?thesis
        unfolding qp rp
        by (subst DivTwoWordsCalculate_loop.simps)
          (simp add: Let_def u_high_eq_0_iff rp qhat.simps [of _ _ _ _ "unat qp"])
    next
      case False
      with True vh test show ?thesis
        by (subst DivTwoWordsCalculate_loop.simps)
          (simp add: Let_def u_high_eq_0_iff rp qp qhat.simps [of _ _ _ _ "unat qp"])
    qed
  next
    case False
    with test show ?thesis
      by (subst DivTwoWordsCalculate_loop.simps) (simp add: qhat.simps [of _ _ _ _ "unat qp"])
  qed
qed

lemma DivTwoWordsCalculate_value:
  assumes "2 ^ 63 \<le> unat v" "unat u < unat v"
  shows "\<exists>q. UInt_DivTwoWordsCalculate u u3 v = Some q \<and>
    unat q = (unat u * 2 ^ 32 + unat u3) div unat v"
proof -
  let ?vh = "unat (u_high v)" and ?vl = "unat (u_low v)"
  let ?uh = "unat (u_high u)" and ?ul = "unat (u_low u)"
  have vh: "2 ^ 31 \<le> ?vh" using assms(1) by (simp add: unat_u_high)
  then have vh0: "u_high v \<noteq> 0" by auto
  have uh: "?uh \<le> ?vh" unfolding unat_u_high using assms(2) by (intro div_le_mono) simp
  have u: "unat u = ?uh * 2 ^ 32 + ?ul" and v: "unat v = ?vh * 2 ^ 32 + ?vl"
    by (rule unat_halves)+
  let ?qp = "u div ucast (u_high v)" and ?rp = "u mod ucast (u_high v)"
  have qp: "unat ?qp = unat u div ?vh" and rp: "unat ?rp = unat u mod ?vh"
    by (simp_all add: unat_div unat_mod)
  have "unat u < 2 * 2 ^ 32 * ?vh"
    using vh unat_uint_bound [of u] by simp
  then have qp_lt: "unat ?qp < 2 * 2 ^ 32"
    unfolding qp by (simp add: less_mult_imp_div_less)
  have "unat u mod ?vh < ?vh" using vh by simp
  then have rp_lt: "unat ?rp < 2 ^ 32"
    unfolding rp using unat_uint32_bound [of "u_high v"] by simp
  obtain q where q: "DivTwoWordsCalculate_loop ?qp ?rp u3 v = Some q"
      "unat q = qhat (2 ^ 32) ?vh ?vl (unat u3) (unat ?qp) (unat ?rp)"
    using DivTwoWordsCalculate_loop_value [OF vh0 qp_lt rp_lt] by blast
  have "unat q = min ((unat u * 2 ^ 32 + unat u3) div unat v) (2 ^ 32 - 1)"
    using half_radix.qhat_digit [of ?vh ?uh ?ul ?vl "unat u3"] vh uh
      unat_uint32_bound [of "u_low u"] unat_uint32_bound [of "u_low v"] unat_uint32_bound [of u3]
    unfolding q(2) qp rp u [symmetric] v [symmetric] by simp
  moreover have "(unat u * 2 ^ 32 + unat u3) div unat v < 2 ^ 32"
  proof (rule less_mult_imp_div_less)
    have "unat u * 2 ^ 32 + unat u3 < (unat u + 1) * 2 ^ 32"
      using unat_uint32_bound [of u3] by simp
    also have "\<dots> \<le> 2 ^ 32 * unat v"
      using assms(2) by simp
    finally show "unat u * 2 ^ 32 + unat u3 < 2 ^ 32 * unat v" .
  qed
  ultimately have "unat q = (unat u * 2 ^ 32 + unat u3) div unat v" "unat q < 2 ^ 32"
    by linarith+
  moreover have "u_high ?qp = 0 \<or> u_high ?qp = 1"
    using qp_lt by (cases "unat ?qp < 2 ^ 32") (simp_all add: u_high_eq_0_iff u_high_eq_1_iff)
  ultimately show ?thesis
    using q(1) by (simp add: UInt_DivTwoWordsCalculate_def Let_def unat_u_low)
qed

lemma MultiplySubtract_value:
  assumes "unat q * unat v \<le> unat u * 2 ^ 32 + unat u3"
    "unat u * 2 ^ 32 + unat u3 < (unat q + 1) * unat v"
  shows "\<exists>u' u3'. UInt_MultiplySubtract u u3 q v = (u', u3', q) \<and>
    unat (u_make (u_low u') u3') = unat u * 2 ^ 32 + unat u3 - unat q * unat v"
proof -
  obtain hi lo where m: "UInt_MulTwoWords v (ucast q) = (hi, lo)" by (metis surj_pair)
  obtain c1 sl where s1: "UInt_SubTwoWords (u_make (u_low u) u3) lo 0 = (c1, sl)" by (metis surj_pair)
  obtain c2 sh where s2: "UInt_SubTwoWords (u_make 0 (u_high u)) hi c1 = (c2, sh)" by (metis surj_pair)
  have prod: "unat lo + W * unat hi = unat q * unat v"
    using MulTwoWords_value [OF m] by simp
  have low: "unat sl + unat lo = unat (u_low u) * 2 ^ 32 + unat u3 + W * unat c1"
    using SubTwoWords_value [OF s1] by (simp add: unat_u_make)
  have high: "unat sh + unat hi + unat c1 = unat (u_high u) + W * unat c2"
    using SubTwoWords_value [OF s2] SubTwoWords_carry [OF s1] by (auto simp: unat_u_make)
  have "(unat sl + W * unat sh) + (unat lo + W * unat hi)
      = (unat (u_low u) * 2 ^ 32 + unat u3 + W * unat (u_high u)) + W * W * unat c2"
    using borrow_chain [OF low high] .
  also have "unat (u_low u) * 2 ^ 32 + unat u3 + W * unat (u_high u) = unat u * 2 ^ 32 + unat u3"
    unfolding unat_halves [of u] by (simp add: W_def)
  finally have eq: "(unat sl + W * unat sh) + unat q * unat v = unat u * 2 ^ 32 + unat u3 + W * W * unat c2"
    unfolding prod .
  have "unat sl + W * unat sh < W * W"
  proof -
    have "unat sl + W * unat sh < W * (unat sh + 1)" by simp
    also have "\<dots> \<le> W * W" using unat_less_W [of sh] by (intro mult_le_mono2) linarith
    finally show ?thesis .
  qed
  with eq assms(1) have "W * W * unat c2 < W * W * 1" by linarith
  then have c2: "unat c2 = 0" by (simp only: mult_less_cancel1) simp
  then have c2': "c2 = 0" by (simp add: unat_eq_0)
  from eq c2 have sub: "unat sl + W * unat sh = unat u * 2 ^ 32 + unat u3 - unat q * unat v"
    by simp
  also have "\<dots> < unat v" using assms by (simp add: less_diff_conv2)
  finally have "W * unat sh < W * 1" using unat_less_W [of v] by linarith
  then have sh: "unat sh = 0" by (simp only: mult_less_cancel1) simp
  have "UInt_MultiplySubtract u u3 q v = (u_make (u_low sh) (u_high sl), u_low sl, q)"
    by (simp add: UInt_MultiplySubtract_def m s1 s2 c2')
  moreover have "u_low (u_make (u_low sh) (u_high sl)) = u_high sl"
    using unat_uint32_bound [of "u_high sl"] by (simp add: word_unat_eq_iff unat_u_low unat_u_make)
  ultimately show ?thesis
    using sub sh by simp
qed

section \<open>The quotient\<close>

lemma two_digit_division:
  fixes n :: nat
  assumes "0 < n" "R1 = (A * h + x) mod n" "Q1 = (A * h + x) div n"
    "R2 = (R1 * h + y) mod n" "Q2 = (R1 * h + y) div n"
  shows "Q1 * h + Q2 = ((A * h + x) * h + y) div n" "R2 = ((A * h + x) * h + y) mod n"
proof -
  have e: "(A * h + x) * h + y = (R1 * h + y) + n * (Q1 * h)"
    unfolding assms(2,3) by (rule mod_div_scale [symmetric])
  show "Q1 * h + Q2 = ((A * h + x) * h + y) div n"
    unfolding e assms(5) using assms(1) by simp
  show "R2 = ((A * h + x) * h + y) mod n"
    unfolding e assms(4) by simp
qed

lemma DivTwoWords2_value:
  assumes "a < c"
  shows "\<exists>r rest. UInt_DivTwoWords2 a b c = Some (r, rest) \<and>
    unat r = (W * unat a + unat b) div unat c \<and> unat rest = (W * unat a + unat b) mod unat c"
proof -
  have ac: "unat a < unat c" using assms by (simp add: word_less_nat_alt)
  then have "c \<noteq> 0" by auto
  then obtain k where k: "2 ^ k \<le> unat c" "unat c < 2 ^ Suc k" "k \<le> 63"
    by (rule uint_leading_bit)
  let ?d = "63 - k"
  obtain a' b' c' where n: "UInt_DivTwoWordsNormalize a b c = Some (?d, a', b', c')"
    and c': "unat c' = unat c * 2 ^ ?d" and ab': "W * unat a' + unat b' = (W * unat a + unat b) * 2 ^ ?d"
    using DivTwoWordsNormalize_loop_value [OF k ac, of b 0]
    by (auto simp: UInt_DivTwoWordsNormalize_def)
  have c63: "2 ^ 63 \<le> unat c'"
    using mult_le_mono1 [OF k(1), of "2 ^ ?d"] k(3) unfolding c' by (simp flip: power_add)
  have "W * unat a' < W * unat c'"
  proof -
    have "W * unat a' \<le> (W * unat a + unat b) * 2 ^ ?d" using ab' by linarith
    also have "\<dots> < W * (unat a + 1) * 2 ^ ?d" by simp
    also have "\<dots> \<le> W * unat c * 2 ^ ?d" using ac by (intro mult_le_mono1 mult_le_mono2) simp
    finally show ?thesis by (simp add: c')
  qed
  then have a': "unat a' < unat c'" by simp
  define R1 where "R1 = (unat a' * 2 ^ 32 + unat (u_high b')) mod unat c'"
  define R2 where "R2 = (R1 * 2 ^ 32 + unat (u_low b')) mod unat c'"
  have c0: "0 < unat c'" using c63 by simp
  obtain q1 where q1: "UInt_DivTwoWordsCalculate a' (u_high b') c' = Some q1"
      "unat q1 = (unat a' * 2 ^ 32 + unat (u_high b')) div unat c'"
    using DivTwoWordsCalculate_value [OF c63 a'] by blast
  obtain u1 u31 where m1: "UInt_MultiplySubtract a' (u_high b') q1 c' = (u1, u31, q1)"
      "unat (u_make (u_low u1) u31) = R1"
    using MultiplySubtract_value [of q1 c' a' "u_high b'"] c0
      dividend_less_div_times [OF c0, of "unat a' * 2 ^ 32 + unat (u_high b')"]
    by (auto simp: q1(2) R1_def minus_div_mult_eq_mod)
  have r1: "unat (u_make (u_low u1) u31) < unat c'" using c0 by (simp add: m1 R1_def)
  obtain q2 where q2: "UInt_DivTwoWordsCalculate (u_make (u_low u1) u31) (u_low b') c' = Some q2"
      "unat q2 = (R1 * 2 ^ 32 + unat (u_low b')) div unat c'"
    using DivTwoWordsCalculate_value [OF c63 r1] unfolding m1(2) by blast
  obtain u2 u32 where m2: "UInt_MultiplySubtract (u_make (u_low u1) u31) (u_low b') q2 c' = (u2, u32, q2)"
      "unat (u_make (u_low u2) u32) = R2"
    using MultiplySubtract_value [of q2 c' "u_make (u_low u1) u31" "u_low b'"] c0
      dividend_less_div_times [OF c0, of "R1 * 2 ^ 32 + unat (u_low b')"]
    by (auto simp: q2(2) m1(2) R2_def minus_div_mult_eq_mod)
  have r: "UInt_DivTwoWords2 a b c
      = Some (u_make q1 q2, UInt_DivTwoWordsUnnormalize (u_make (u_low u2) u32) ?d)"
    by (simp add: UInt_DivTwoWords2_def n q1 m1 q2 m2)
  have N: "(unat a' * 2 ^ 32 + unat (u_high b')) * 2 ^ 32 + unat (u_low b') = (W * unat a + unat b) * 2 ^ ?d"
    unfolding ab' [symmetric] unat_halves [of b'] by (simp add: W_def)
  note div = two_digit_division [OF c0 R1_def q1(2) R2_def q2(2), unfolded N c']
  have "unat (u_make q1 q2) = (W * unat a + unat b) div unat c"
    using div(1) by (simp add: unat_u_make)
  moreover have "unat (UInt_DivTwoWordsUnnormalize (u_make (u_low u2) u32) ?d) = (W * unat a + unat b) mod unat c"
    using div(2) by (simp add: UInt_DivTwoWordsUnnormalize_def drop_bit_uint m2 mult_mod_left [symmetric])
  ultimately show ?thesis using r by blast
qed

lemma DivTwoWords_value:
  assumes "a < c"
  shows "\<exists>r rest. UInt_DivTwoWords a b c = Some (r, rest) \<and>
    unat r = (W * unat a + unat b) div unat c \<and> unat rest = (W * unat a + unat b) mod unat c"
proof -
  have ac: "unat a < unat c" using assms by (simp add: word_less_nat_alt)
  then have c0: "c \<noteq> 0" by auto
  show ?thesis
  proof (cases "a \<noteq> 0 \<and> u_high c = 0")
    case False
    then show ?thesis
      using DivTwoWords2_value [OF assms, of b] assms c0
      by (auto simp: UInt_DivTwoWords_def unat_div unat_mod)
  next
    case True
    then have c32: "unat c < 2 ^ 32" by (simp add: u_high_eq_0_iff)
    then have al: "unat (u_low a) = unat a" using ac by (simp add: unat_u_low)
    define temp1 where "temp1 = u_make (u_low a) (u_high b)"
    define temp2 where "temp2 = u_make (ucast (temp1 mod c)) (u_low b)"
    have t1: "unat temp1 = unat a * 2 ^ 32 + unat (u_high b)"
      by (simp add: temp1_def unat_u_make al)
    have m: "unat temp1 mod unat c < unat c" using ac by simp
    have t2: "unat temp2 = (unat temp1 mod unat c) * 2 ^ 32 + unat (u_low b)"
      using m c32 by (simp add: temp2_def unat_u_make unsigned_ucast_eq take_bit_nat_eq_self_iff unat_mod)
    have q: "unat (ucast (x div c) :: uint32) = unat x div unat c" if "unat x < unat c * 2 ^ 32" for x :: uint
      using that by (simp add: unsigned_ucast_eq take_bit_nat_eq_self_iff unat_div less_mult_imp_div_less mult.commute)
    have lt1: "unat temp1 < unat c * 2 ^ 32"
    proof -
      have "unat temp1 < (unat a + 1) * 2 ^ 32" using t1 unat_uint32_bound [of "u_high b"] by simp
      also have "\<dots> \<le> unat c * 2 ^ 32" using ac by (intro mult_le_mono1) simp
      finally show ?thesis .
    qed
    have lt2: "unat temp2 < unat c * 2 ^ 32"
    proof -
      have "unat temp2 < (unat temp1 mod unat c + 1) * 2 ^ 32"
        using t2 unat_uint32_bound [of "u_low b"] by simp
      also have "\<dots> \<le> unat c * 2 ^ 32" using m by (intro mult_le_mono1) simp
      finally show ?thesis .
    qed
    have r: "UInt_DivTwoWords a b c
        = Some (u_make (ucast (temp1 div c)) (ucast (temp2 div c)), temp2 mod c)"
      using True assms c0 by (simp add: UInt_DivTwoWords_def Let_def temp1_def temp2_def)
    have N: "(unat a * 2 ^ 32 + unat (u_high b)) * 2 ^ 32 + unat (u_low b) = W * unat a + unat b"
      unfolding unat_halves [of b] by (simp add: W_def)
    have "0 < unat c" using ac by simp
    note div = two_digit_division [OF this refl refl refl refl,
        of "unat a" "2 ^ 32" "unat (u_high b)" "unat (u_low b)", unfolded N]
    show ?thesis
      unfolding r using div
      by (simp add: unat_u_make q [OF lt1] q [OF lt2] unat_mod) (simp add: t1 t2)
  qed
qed

lemma DivTwoWords_assert: "\<not> a < c \<Longrightarrow> UInt_DivTwoWords a b c = None"
  by (simp add: UInt_DivTwoWords_def)

end
