(* ===== verification/UInt_Div.thy ===== *)
theory UInt_Div
  imports UInt_Multiply UInt_DivWords
begin

text \<open>
  Division by one word, the tests every division starts with, and the first (radix 2,
  non-restoring) division algorithm of \<^verbatim>\<open>ttmathuint.h\<close>. The optional pointer \<^verbatim>\<open>remainder\<close> is
  an option: \<open>None\<close> is the null pointer, and a write through it replaces the content when there
  is one. The four labels of \<^verbatim>\<open>Div1_CalculateRef\<close> are the constructors of \<open>div1_label\<close> and each
  \<^verbatim>\<open>goto\<close> is a call of \<open>Div1_goto\<close>. The object the remainder is written to is neither the
  dividend nor the divisor.
\<close>

section \<open>Division by a word\<close>

definition put_remainder :: "'a option \<Rightarrow> 'a \<Rightarrow> 'a option" where
  "put_remainder remainder x = map_option (\<lambda>_. x) remainder"

fun DivInt_loop :: "utable \<Rightarrow> uint \<Rightarrow> nat \<Rightarrow> uint \<Rightarrow> utable \<Rightarrow> (uint \<times> utable) option" where
  "DivInt_loop dividend divisor 0 r table = Some (r, table)"
| "DivInt_loop dividend divisor (Suc i) r table = do {
     (q, r) \<leftarrow> UInt_DivTwoWords r (dividend ! i) divisor;
     DivInt_loop dividend divisor i r (table[i := q])
   }"

definition UInt_DivInt :: "utable \<Rightarrow> uint \<Rightarrow> uint option \<Rightarrow> (uint \<times> utable \<times> uint option) option"
  where
  "UInt_DivInt table divisor remainder =
     (if divisor = 0 then Some (1, table, put_remainder remainder 0)
      else if divisor = 1 then Some (0, table, put_remainder remainder 0)
      else let dividend = table;
               table = UInt_SetZero table;
               i = FindTop_loop dividend (length dividend - 1)
           in do {
             (r, table) \<leftarrow> DivInt_loop dividend divisor (i + 1) 0 table;
             Some (0, table, put_remainder remainder r)
           })"

text \<open>One step of the division of a number by its leading digits.\<close>

lemma div_step:
  fixes d :: nat
  assumes "0 < d" "y = p * x + l" "q = x div d" "r = x mod d"
  shows "y div d = p * q + (p * r + l) div d" "y mod d = (p * r + l) mod d"
proof -
  have "x = q * d + r" using assms(3,4) by simp
  then have "y = (p * r + l) + (p * q) * d" unfolding assms(2) by (simp add: algebra_simps)
  then show "y div d = p * q + (p * r + l) div d" "y mod d = (p * r + l) mod d"
    using assms(1) by simp_all
qed

lemma DivInt_loop_value:
  assumes "k \<le> length t" "length tab = length t" "r < d"
  shows "\<exists>r' tab'. DivInt_loop t d k r tab = Some (r', tab') \<and> length tab' = length t \<and>
    drop k tab' = drop k tab \<and>
    uval (take k tab') = (W ^ k * unat r + uval (take k t)) div unat d \<and>
    unat r' = (W ^ k * unat r + uval (take k t)) mod unat d"
  using assms
proof (induction k arbitrary: r tab)
  case 0
  then have "unat r < unat d" by (simp add: word_less_nat_alt)
  with 0 show ?case by simp
next
  case (Suc k)
  let ?x = "W * unat r + unat (t ! k)" and ?l = "uval (take k t)" and ?d = "unat d"
  have d: "0 < ?d" using Suc.prems(3) by (metis word_less_nat_alt gr_implies_not0 gr0I)
  obtain q r1 where 1: "UInt_DivTwoWords r (t ! k) d = Some (q, r1)"
    "unat q = ?x div ?d" "unat r1 = ?x mod ?d"
    using DivTwoWords_value [OF Suc.prems(3)] by blast
  then have "r1 < d" using d by (simp add: word_less_nat_alt)
  with Suc obtain r' tab' where 2: "DivInt_loop t d k r1 (tab[k := q]) = Some (r', tab')"
    "length tab' = length t" "drop k tab' = drop k (tab[k := q])"
    "uval (take k tab') = (W ^ k * unat r1 + ?l) div ?d"
    "unat r' = (W ^ k * unat r1 + ?l) mod ?d"
    by (metis Suc_leD length_list_update)
  have y: "W ^ Suc k * unat r + uval (take (Suc k) t) = W ^ k * ?x + ?l"
    using Suc.prems(1) by (simp add: take_Suc_conv_app_nth uval_append min_absorb2 algebra_simps)
  have k: "k < length tab'" "k < length tab" using Suc.prems 2(2) by simp_all
  have "tab' ! k = q" "drop (Suc k) tab' = drop (Suc k) tab"
    using 2(3) k by (metis nth_list_update_eq nth_via_drop Cons_nth_drop_Suc length_list_update)
      (metis 2(3) drop_Suc tl_drop drop_update_cancel lessI)
  moreover have "uval (take (Suc k) tab') = uval (take k tab') + W ^ k * unat (tab' ! k)"
    using k by (simp add: take_Suc_conv_app_nth uval_append min_absorb2)
  ultimately show ?case
    using 1(1) 2(1,2,4,5) div_step [OF d y 1(2,3)] by simp
qed

lemma DivInt_result:
  assumes "t \<noteq> []" "d \<noteq> 0"
  shows "UInt_DivInt t d rem = Some (0, utab (length t) (uval t div unat d),
    put_remainder rem (of_nat (uval t mod unat d)))"
proof (cases "d = 1")
  case True
  then show ?thesis by (simp add: UInt_DivInt_def)
next
  case False
  let ?k = "Suc (FindTop_loop t (length t - 1))"
  note top = FindTop_value [OF assms(1)]
  have k: "?k \<le> length t" using top(1) by simp
  have v: "uval (take ?k t) = uval t"
    using top(1,4) by (simp add: take_Suc_conv_app_nth uval_append min_absorb2)
  obtain r tab where 1: "DivInt_loop t d ?k 0 (UInt_SetZero t) = Some (r, tab)" "length tab = length t"
    "drop ?k tab = drop ?k (UInt_SetZero t)" "uval (take ?k tab) = uval t div unat d"
    "unat r = uval t mod unat d"
    using DivInt_loop_value [OF k, of "UInt_SetZero t" 0 d] assms(2) v
    by (auto simp: UInt_SetZero_def word_gt_0)
  have "uval (drop ?k tab) = 0"
    using 1(3) by (simp add: UInt_SetZero_def map_replicate_const)
  then have "uval tab = uval t div unat d"
    using uval_split [of tab ?k] 1(4) by simp
  then have "tab = utab (length t) (uval t div unat d)"
    using 1(2) utab_uval [of tab] by simp
  moreover have "r = of_nat (uval t mod unat d)" using 1(5) by (metis unat_of_nat_small unat_less_W word_unat_eq_iff)
  ultimately show ?thesis using False assms(2) 1(1)
    by (simp add: UInt_DivInt_def Let_def del: DivInt_loop.simps)
qed

section \<open>The tests\<close>

fun EqualWords_loop :: "utable \<Rightarrow> utable \<Rightarrow> nat \<Rightarrow> nat" where
  "EqualWords_loop table v 0 = 0"
| "EqualWords_loop table v (Suc i) =
     (if table ! Suc i = v ! Suc i then EqualWords_loop table v i else Suc i)"

definition UInt_Div_CalculatingSize :: "utable \<Rightarrow> utable \<Rightarrow> uint \<times> nat \<times> nat" where
  "UInt_Div_CalculatingSize table v =
     (let n = FindTop_loop v (length table - 1)
      in if n = 0 \<and> v ! n = 0 then (1, length table - 1, n)
         else let m = FindTop_loop table (length table - 1)
              in if m = 0 \<and> table ! m = 0 then (2, m, n)
                 else if m < n then (3, m, n)
                 else if m = n
                 then let i = EqualWords_loop table v n
                      in if table ! i < v ! i then (3, m, n)
                         else if table ! i = v ! i then (4, m, n)
                         else (0, m, n)
                 else (0, m, n))"

definition UInt_Div_StandardTest ::
  "utable \<Rightarrow> utable \<Rightarrow> utable option \<Rightarrow> uint \<times> nat \<times> nat \<times> utable \<times> utable option" where
  "UInt_Div_StandardTest table v remainder =
     (let (code, m, n) = UInt_Div_CalculatingSize table v
      in if code = 4
         then (0, m, n, UInt_SetOne table, put_remainder remainder (UInt_SetZero table))
         else if code = 3 then (0, m, n, UInt_SetZero table, put_remainder remainder table)
         else if code = 2
         then (0, m, n, UInt_SetZero table, put_remainder remainder (UInt_SetZero table))
         else if code = 1 then (1, m, n, table, remainder)
         else (2, m, n, table, remainder))"

lemma EqualWords_loop_less:
  assumes "k < length t" "k < length v"
  shows "(t ! EqualWords_loop t v k < v ! EqualWords_loop t v k)
    = (uval (take (Suc k) t) < uval (take (Suc k) v))"
    and "(t ! EqualWords_loop t v k = v ! EqualWords_loop t v k)
    = (uval (take (Suc k) t) = uval (take (Suc k) v))"
  using assms
proof (induction k)
  case 0
  {
    case 1
    then show ?case using uval_take_Suc_less [of 0 t v] by auto
  next
    case 2
    then show ?case by (cases t; cases v) (auto simp: word_unat_eq_iff)
  }
next
  case (Suc k)
  {
    case 1
    then show ?case using uval_take_Suc_less [of "Suc k" t v] Suc.IH(1)
      by (auto simp del: take_Suc)
  next
    case 2
    have "(t ! Suc k = v ! Suc k \<and> uval (take (Suc k) t) = uval (take (Suc k) v))
      = (uval (take (Suc (Suc k)) t) = uval (take (Suc (Suc k)) v))"
      using 2 uval_inject [of "take (Suc k) t" "take (Suc k) v"]
        uval_inject [of "take (Suc (Suc k)) t" "take (Suc (Suc k)) v"]
      by (simp add: take_Suc_conv_app_nth [of "Suc k"]) blast
    then show ?case using 2 Suc.IH(2) by auto
  }
qed

text \<open>The size and the value below the top word.\<close>

lemma FindTop_take:
  assumes "t \<noteq> []"
  shows "uval (take (Suc (FindTop_loop t (length t - 1))) t) = uval t"
  using FindTop_value [OF assms] by (simp add: take_Suc_conv_app_nth uval_append min_absorb2)

lemma FindTop_bounds:
  assumes "t \<noteq> []" "uval t \<noteq> 0"
  shows "W ^ FindTop_loop t (length t - 1) \<le> uval t"
    and "uval t < W ^ Suc (FindTop_loop t (length t - 1))"
proof -
  let ?m = "FindTop_loop t (length t - 1)"
  note top = FindTop_value [OF assms(1)]
  have "1 \<le> unat (t ! ?m)" using top(3) assms(2) by (simp add: Suc_le_eq unat_gt_0)
  then have "W ^ ?m * 1 \<le> W ^ ?m * unat (t ! ?m)" by (intro mult_le_mono2)
  then show "W ^ ?m \<le> uval t" using top(4) by linarith
  show "uval t < W ^ Suc ?m"
    using FindTop_take [OF assms(1)] uval_less_le [of "take (Suc ?m) t" "Suc ?m"] by simp
qed

lemma FindTop_mono:
  assumes "t \<noteq> []" "v \<noteq> []" "uval t \<noteq> 0" "uval v \<noteq> 0"
    "FindTop_loop t (length t - 1) < FindTop_loop v (length v - 1)"
  shows "uval t < uval v"
proof -
  have "uval t < W ^ Suc (FindTop_loop t (length t - 1))" using FindTop_bounds(2) assms by blast
  also have "\<dots> \<le> W ^ FindTop_loop v (length v - 1)" using assms(5) by (intro W_power_mono) simp
  also have "\<dots> \<le> uval v" using FindTop_bounds(1) assms by blast
  finally show ?thesis .
qed

lemma CalculatingSize_result:
  assumes "length v = length t" "t \<noteq> []"
  defines "m \<equiv> FindTop_loop t (length t - 1)" and "n \<equiv> FindTop_loop v (length v - 1)"
  shows "UInt_Div_CalculatingSize t v =
    (if uval v = 0 then (1, length t - 1, n)
     else if uval t = 0 then (2, m, n)
     else if uval t < uval v then (3, m, n)
     else if uval t = uval v then (4, m, n)
     else (0, m, n))"
proof -
  have v: "v \<noteq> []" using assms(1,2) by auto
  have vn: "FindTop_loop v (length t - 1) = n" using assms(1) by (simp add: n_def)
  note tv = FindTop_value [OF v, folded n_def] and tt = FindTop_value [OF assms(2), folded m_def]
  have z: "(n = 0 \<and> v ! n = 0) = (uval v = 0)" "(m = 0 \<and> t ! m = 0) = (uval t = 0)"
    using tv(3,5) tt(3,5) by auto
  have lt: "uval t < uval v" if "m < n" "uval t \<noteq> 0" "uval v \<noteq> 0"
    using FindTop_mono [OF assms(2) v] that by (simp add: m_def n_def)
  have gt: "uval v < uval t" if "n < m" "uval t \<noteq> 0" "uval v \<noteq> 0"
    using FindTop_mono [OF v assms(2)] that by (simp add: m_def n_def)
  have eq: "(t ! EqualWords_loop t v n < v ! EqualWords_loop t v n) = (uval t < uval v)"
    "(t ! EqualWords_loop t v n = v ! EqualWords_loop t v n) = (uval t = uval v)" if "m = n"
    using EqualWords_loop_less [of n t v] that tv(1) assms(1)
      FindTop_take [OF v, folded n_def] FindTop_take [OF assms(2), folded m_def] by simp_all
  show ?thesis
    unfolding UInt_Div_CalculatingSize_def Let_def vn z m_def [symmetric]
    using lt gt eq by (cases m n rule: linorder_cases) (auto dest: order.asym)
qed

definition divided :: "nat \<Rightarrow> nat \<Rightarrow> nat \<Rightarrow> utable option \<Rightarrow> uint \<times> utable \<times> utable option" where
  "divided n x y remainder = (0, utab n (x div y), put_remainder remainder (utab n (x mod y)))"

lemma utab_0 [simp]: "utab n 0 = replicate n 0"
  by (rule utab_eqI [symmetric]) simp_all

lemma utab_eq_Nil [simp]: "utab n v = [] \<longleftrightarrow> n = 0"
  by (metis length_0_conv length_utab)

lemma SetOne_utab:
  assumes "t \<noteq> []"
  shows "UInt_SetOne t = utab (length t) 1"
proof (rule utab_eqI)
  have "1 < W ^ length t" using assms W_power_mono [of 1 "length t"] by (simp add: Suc_le_eq W_def)
  then show "uval (UInt_SetOne t) = 1 mod W ^ length t" by (simp only: SetOne_value [OF assms] mod_less)
qed simp

lemma single_word_utab:
  assumes "0 < n" "x < W"
  shows "(replicate n 0)[0 := of_nat x] = utab n x"
proof (rule utab_eqI)
  have "W ^ 1 \<le> W ^ n" using assms(1) by (intro W_power_mono) simp
  then have "x < W ^ n" using assms(2) by simp
  then show "uval ((replicate n 0)[0 := of_nat x]) = x mod W ^ n"
    using assms by (cases n) (simp_all add: unat_of_nat_small)
qed simp

lemma StandardTest_result:
  assumes "length v = length t" "t \<noteq> []"
  defines "m \<equiv> FindTop_loop t (length t - 1)" and "n \<equiv> FindTop_loop v (length v - 1)"
  shows "uval v = 0 \<Longrightarrow>
      UInt_Div_StandardTest t v rem = (1, length t - 1, n, t, rem)"
    and "uval v \<noteq> 0 \<Longrightarrow> uval v < uval t \<Longrightarrow>
      UInt_Div_StandardTest t v rem = (2, m, n, t, rem)"
    and "uval v \<noteq> 0 \<Longrightarrow> uval t \<le> uval v \<Longrightarrow>
      \<exists>t' rem'. UInt_Div_StandardTest t v rem = (0, m, n, t', rem') \<and>
        (0, t', rem') = divided (length t) (uval t) (uval v) rem"
  using utab_uval [of t]
  by (auto simp: UInt_Div_StandardTest_def CalculatingSize_result [OF assms(1,2)] m_def n_def
      divided_def SetOne_utab assms(2) simp del: utab_uval)

section \<open>The first algorithm\<close>

datatype div1_label = div_a | div_b | div_c | div_d

function (sequential) Div1_goto ::
  "div1_label \<Rightarrow> nat \<Rightarrow> uint \<Rightarrow> utable \<Rightarrow> utable \<Rightarrow> utable \<Rightarrow> (utable \<times> utable) option" where
  "Div1_goto div_a loop c table rest divisor = do {
     (c, table) \<leftarrow> UInt_Rcl table 1 c;
     let (c, rest) = UInt_Add rest rest c;
     let (c, rest) = UInt_Sub rest divisor c;
     let c = (if c = 0 then 1 else 0);
     if c = 0 then Div1_goto div_d loop c table rest divisor
     else Div1_goto div_b loop c table rest divisor
   }"
| "Div1_goto div_b loop c table rest divisor =
     (if loop - 1 \<noteq> 0 then Div1_goto div_a (loop - 1) c table rest divisor
      else do {
        (c, table) \<leftarrow> UInt_Rcl table 1 c;
        Some (table, rest)
      })"
| "Div1_goto div_c loop c table rest divisor = do {
     (c, table) \<leftarrow> UInt_Rcl table 1 c;
     let (c, rest) = UInt_Add rest rest c;
     let (c, rest) = UInt_Add rest divisor 0;
     if c \<noteq> 0 then Div1_goto div_b loop c table rest divisor
     else Div1_goto div_d loop c table rest divisor
   }"
| "Div1_goto div_d loop c table rest divisor =
     (if loop - 1 \<noteq> 0 then Div1_goto div_c (loop - 1) c table rest divisor
      else do {
        (c, table) \<leftarrow> UInt_Rcl table 1 c;
        let (c, rest) = UInt_Add rest divisor 0;
        Some (table, rest)
      })"
  by pat_completeness auto
termination
  by (relation "measure (\<lambda>(l, loop, _). 2 * loop + of_bool (l = div_a \<or> l = div_c))") auto

declare Div1_goto.simps [simp del]

definition UInt_Div1_CalculateRef :: "utable \<Rightarrow> utable \<Rightarrow> utable \<Rightarrow> (uint \<times> utable \<times> utable) option"
  where
  "UInt_Div1_CalculateRef table divisor rest =
     (let rest = UInt_SetZero rest;
          loop = length table * TTMATH_BITS_PER_UINT
      in do {
        (table, rest) \<leftarrow> Div1_goto div_a loop 0 table rest divisor;
        Some (0, table, rest)
      })"

definition UInt_Div1_Calculate :: "utable \<Rightarrow> utable \<Rightarrow> utable \<Rightarrow> (uint \<times> utable \<times> utable) option"
  where
  "UInt_Div1_Calculate table divisor rest = UInt_Div1_CalculateRef table divisor rest"

definition UInt_Div1 ::
  "utable \<Rightarrow> utable \<Rightarrow> utable option \<Rightarrow> (uint \<times> utable \<times> utable option) option" where
  "UInt_Div1 table divisor remainder =
     (let (test, m, n, table, remainder) = UInt_Div_StandardTest table divisor remainder
      in if test < 2 then Some (test, table, remainder)
         else case remainder of
           None \<Rightarrow> do {
             (status, table, _) \<leftarrow> UInt_Div1_Calculate table divisor (replicate (length table) 0);
             Some (status, table, None)
           }
         | Some rest \<Rightarrow> do {
             (status, table, rest) \<leftarrow> UInt_Div1_Calculate table divisor rest;
             Some (status, table, Some rest)
           })"

text \<open>
  \<open>k\<close> shifts have been made; \<open>q\<close> is the quotient of the leading \<open>k\<close> bits, whose last digit is still
  in the carry. One more shift brings out the next bit of the dividend \<open>x\<close>.
\<close>

lemma Rcl_division_bit:
  assumes "0 < n" "x < 2 ^ N" "k < N" "N = 64 * n" "q < 2 ^ k"
  shows "UInt_Rcl (utab n (x * 2 ^ k + q div 2)) 1 (of_bool (odd q))
    = Some (of_bool (odd (x div 2 ^ (N - Suc k))), utab n (x * 2 ^ Suc k + q))"
proof -
  let ?t = "utab n (x * 2 ^ k + q div 2)" and ?c = "of_bool (odd q) :: uint"
  let ?h = "x mod 2 ^ (N - k)"
  have Wn: "W ^ n = 2 ^ N" using assms(4) by (simp add: W_power)
  have N: "(2 :: nat) ^ N = 2 ^ k * 2 ^ (N - k)"
    using assms(3) by (simp flip: power_add)
  have "q div 2 < 2 ^ k" using assms(5) by linarith
  then have "(x * 2 ^ k + q div 2) mod 2 ^ N = ?h * 2 ^ k + q div 2"
    unfolding N by (simp add: mod_mult2_eq algebra_simps)
  then have "shl_value ?t 1 ?c = (?h * 2 ^ k + q div 2) * 2 + of_bool (odd q)"
    by (simp add: shl_value_def fill_bits_def uval_utab Wn)
  also have "\<dots> = ?h * 2 ^ Suc k + q"
  proof -
    have "q div 2 * 2 + of_bool (odd q) = q" by (simp add: mod_2_eq_odd [symmetric])
    moreover have "(?h * 2 ^ k + q div 2) * 2 = ?h * 2 ^ Suc k + q div 2 * 2"
      by (simp only: distrib_right power_Suc2 mult.assoc)
    ultimately show ?thesis by linarith
  qed
  finally have sh: "shl_value ?t 1 ?c = ?h * 2 ^ Suc k + q" .
  have q: "q < 2 ^ Suc k" using assms(5) by simp
  have "x * 2 ^ Suc k = ?h * 2 ^ Suc k + W ^ n * (2 * (x div 2 ^ (N - k)))"
  proof -
    define y where "y = x div 2 ^ (N - k)"
    have "x = ?h + 2 ^ (N - k) * y" by (simp add: y_def)
    then have "x * 2 ^ Suc k = (?h + 2 ^ (N - k) * y) * 2 ^ Suc k" by (rule arg_cong)
    also have "\<dots> = ?h * 2 ^ Suc k + 2 ^ k * 2 ^ (N - k) * (2 * y)" by (simp add: algebra_simps)
    finally show ?thesis unfolding Wn N y_def .
  qed
  then have "x * 2 ^ Suc k + q = (?h * 2 ^ Suc k + q) + W ^ n * (2 * (x div 2 ^ (N - k)))"
    by linarith
  then have tab: "utab n (x * 2 ^ Suc k + q) = utab n (?h * 2 ^ Suc k + q)"
    by (simp only: utab_add_multiple)
  have Nk: "N - k = Suc (N - Suc k)" using assms(3) by simp
  have N': "(2 :: nat) ^ N = 2 ^ Suc k * 2 ^ (N - Suc k)"
    using assms(3) by (simp only: power_add [symmetric] le_add_diff_inverse Suc_le_eq)
  have "(?h * 2 ^ Suc k + q) div W ^ n = ?h div 2 ^ (N - Suc k)"
    unfolding Wn N' div_mult2_eq using q by simp
  also have "\<dots> = x div 2 ^ (N - Suc k) mod 2"
    using div_exp_mod_exp_eq [of x "N - Suc k" 1] unfolding Nk by simp
  finally have bit: "odd ((?h * 2 ^ Suc k + q) div W ^ n) = odd (x div 2 ^ (N - Suc k))" by simp
  have "?t \<noteq> []" using assms(1) by (metis length_utab length_0_conv less_irrefl)
  then show ?thesis
    using Rcl_result [of ?t 1 ?c] assms(1) by (simp add: sh [simplified] bit [simplified] tab [simplified])
qed

text \<open>
  The remainder is kept as \<open>R\<close> (at \<open>div_a\<close>) or as \<open>R - v\<close> modulo the size (at \<open>div_c\<close>). With a divisor
  of at most half the range both labels compute the same next digit and the same next remainder.
\<close>

lemma Div1_step_a:
  fixes b :: uint
  assumes "length r = n" "length v = n" "0 < n" "uval r < uval v" "2 * uval v \<le> W ^ n"
  defines "y \<equiv> 2 * uval r + of_bool (b \<noteq> 0)"
  shows "UInt_Add r r b = (0, utab n y)"
    and "UInt_Sub (utab n y) v 0 = (of_bool (y < uval v), utab n (y + W ^ n - uval v))"
proof -
  have y: "y < W ^ n" using assms(4,5) by (simp add: y_def)
  have ne: "r \<noteq> []" "utab n y \<noteq> []" using assms(1,3) by (auto dest: arg_cong [of _ _ length])
  show "UInt_Add r r b = (0, utab n y)"
    using Add_result [of r r b] ne y assms(1) by (simp add: y_def mult_2 carry_result_exact)
  show "UInt_Sub (utab n y) v 0 = (of_bool (y < uval v), utab n (y + W ^ n - uval v))"
    using Sub_result [of v "utab n y" 0] ne y assms(2)
    by (simp add: uval_utab_exact borrow_result_def)
qed

lemma Div1_step_c:
  fixes b :: uint
  assumes "length v = n" "0 < n" "R < uval v" "2 * uval v \<le> W ^ n"
  defines "y \<equiv> 2 * R + of_bool (b \<noteq> 0)"
  shows "\<exists>c r. UInt_Add (utab n (R + W ^ n - uval v)) (utab n (R + W ^ n - uval v)) b = (c, r) \<and>
    UInt_Add r v 0 = (of_bool (uval v \<le> y), utab n (y + W ^ n - uval v))"
proof -
  let ?s = "utab n (R + W ^ n - uval v)" and ?v = "uval v"
  let ?z = "y + W ^ n - 2 * ?v"
  have bnd: "R + W ^ n - ?v < W ^ n" "?v \<le> W ^ n" "y < 2 * ?v"
    using assms(3,4) by (simp_all add: y_def)
  have z: "?z < W ^ n" using bnd assms(4) by linarith
  have us: "uval ?s = R + W ^ n - ?v" using bnd(1) by (rule uval_utab_exact)
  have "uval ?s + uval ?s + of_bool (b \<noteq> 0) = ?z + W ^ n * 1"
    unfolding us y_def using bnd(2) assms(4) by simp
  moreover have ne: "?s \<noteq> []" using assms(2) by (auto dest: arg_cong [of _ _ length])
  ultimately have 1: "snd (UInt_Add ?s ?s b) = utab n ?z"
    using Add_result [of ?s ?s b] utab_add_multiple [of n ?z 1] by (simp add: carry_result_def)
  have "utab n ?z \<noteq> []" using assms(2) by (auto dest: arg_cong [of _ _ length])
  then have "UInt_Add (utab n ?z) v 0 = (of_bool (W ^ n \<le> ?z + ?v), utab n (?z + ?v))"
    using Add_bit_result [of v "utab n ?z"] assms(1) z by (simp add: uval_utab_exact)
  moreover have "?z + ?v = y + W ^ n - ?v" "(W ^ n \<le> y + W ^ n - ?v) = (?v \<le> y)"
    using assms(4) bnd by linarith+
  ultimately have 2: "UInt_Add (utab n ?z) v 0 = (of_bool (?v \<le> y), utab n (y + W ^ n - ?v))"
    by simp
  show ?thesis using 1 2 by (metis prod.collapse)
qed

lemma shifted_bits:
  assumes "k < N"
  shows "(x :: nat) div 2 ^ (N - Suc k) = 2 * (x div 2 ^ (N - k)) + of_bool (odd (x div 2 ^ (N - Suc k)))"
proof -
  let ?b = "x div 2 ^ (N - Suc k)"
  have "N - k = Suc (N - Suc k)" using assms by simp
  then have "x div 2 ^ (N - k) = ?b div 2" by (simp only: div_mult2_eq power_Suc2)
  moreover have "?b mod 2 = of_bool (odd ?b)" by (simp only: mod_2_eq_odd)
  ultimately show ?thesis by (metis mult_div_mod_eq)
qed

lemma div_digit:
  fixes y v :: nat
  assumes "y < 2 * v"
  shows "y div v = of_bool (v \<le> y)" "y mod v = y - v * of_bool (v \<le> y)"
proof -
  show d: "y div v = of_bool (v \<le> y)"
    using assms by (cases "v \<le> y") (auto intro!: div_nat_eqI)
  show "y mod v = y - v * of_bool (v \<le> y)"
    using d by (simp add: minus_mult_div_eq_mod [symmetric])
qed

lemma Rcl_moves_in:
  assumes "0 < n" "q < W ^ n"
  shows "\<exists>c. UInt_Rcl (utab n (W ^ n * x + q div 2)) 1 (of_bool (odd q)) = Some (c, utab n q)"
proof -
  let ?t = "utab n (W ^ n * x + q div 2)"
  have "?t = utab n (q div 2)" using utab_add_multiple [of n "q div 2" x] by (simp add: add.commute)
  moreover have "q div 2 < W ^ n" using assms(2) by linarith
  ultimately have "uval ?t = q div 2" by (simp only: uval_utab_exact)
  moreover have "q div 2 * 2 + of_bool (odd q) = q" by (simp add: mod_2_eq_odd [symmetric])
  ultimately have "shl_value ?t 1 (of_bool (odd q)) = q"
    by (simp add: shl_value_def fill_bits_def)
  moreover have "?t \<noteq> []" using assms(1) by (metis length_utab length_0_conv less_irrefl)
  ultimately show ?thesis using Rcl_result [of ?t 1 "of_bool (odd q)"] by simp
qed

lemma Div1_finish_b:
  assumes "0 < n" "q < W ^ n"
  shows "Div1_goto div_b 1 (of_bool (odd q)) (utab n (W ^ n * x + q div 2)) r v = Some (utab n q, r)"
  using Rcl_moves_in [OF assms, of x] by (auto simp: Div1_goto.simps)

lemma Div1_finish_d:
  assumes "0 < n" "q < W ^ n" "length v = n" "y < uval v" "uval v \<le> W ^ n"
  shows "Div1_goto div_d 1 (of_bool (odd q)) (utab n (W ^ n * x + q div 2))
      (utab n (y + W ^ n - uval v)) v = Some (utab n q, utab n y)"
proof -
  let ?r = "utab n (y + W ^ n - uval v)"
  have "y + W ^ n - uval v < W ^ n" using assms(4,5) by linarith
  then have u: "uval ?r = y + W ^ n - uval v" by (rule uval_utab_exact)
  then have s: "uval ?r + uval v = y + W ^ n * 1" using assms(5) by simp
  have "?r \<noteq> []" using assms(1) by (auto dest: arg_cong [of _ _ length])
  then have "snd (UInt_Add ?r v 0) = utab n y"
    using Add_result [of v ?r 0] assms(3) utab_add_multiple [of n y 1] s by (simp add: carry_result_def)
  then show ?thesis
    using Rcl_moves_in [OF assms(1,2), of x] by (auto simp: Div1_goto.simps split: prod.splits)
qed

text \<open>One turn of the loop, from either label.\<close>

lemma Div1_turn:
  fixes x v n N k q R
  assumes "0 < n" "length v = n" "0 < uval v" "2 * uval v \<le> W ^ n" "x < 2 ^ N" "N = 64 * n" "k < N"
    and q: "q = x div 2 ^ (N - k) div uval v" and R: "R = x div 2 ^ (N - k) mod uval v"
    and l: "l = div_a \<and> r = utab n R \<or> l = div_c \<and> r = utab n (R + W ^ n - uval v)"
  defines "q' \<equiv> x div 2 ^ (N - Suc k) div uval v" and "R' \<equiv> x div 2 ^ (N - Suc k) mod uval v"
  shows "Div1_goto l loop (of_bool (odd q)) (utab n (x * 2 ^ k + q div 2)) r v =
    (if odd q' then Div1_goto div_b loop (of_bool (odd q')) (utab n (x * 2 ^ Suc k + q' div 2)) (utab n R') v
     else Div1_goto div_d loop (of_bool (odd q')) (utab n (x * 2 ^ Suc k + q' div 2))
       (utab n (R' + W ^ n - uval v)) v)"
proof -
  let ?v = "uval v" and ?X = "x div 2 ^ (N - k)" and ?b = "of_bool (odd (x div 2 ^ (N - Suc k))) :: uint"
  define y where "y = 2 * R + of_bool (?b \<noteq> 0)"
  have R_less: "R < ?v" using R assms(3) by simp
  then have y: "y < 2 * ?v" by (simp add: y_def)
  have "x div 2 ^ (N - Suc k) = 2 * ?X + of_bool (?b \<noteq> 0)"
    using shifted_bits [OF assms(7), of x] by simp
  also have "\<dots> = 2 * (?v * q + R) + of_bool (?b \<noteq> 0)"
    unfolding q R by (simp only: mult_div_mod_eq)
  also have "\<dots> = y + 2 * q * ?v" by (simp add: y_def algebra_simps)
  finally have X': "x div 2 ^ (N - Suc k) = y + 2 * q * ?v" .
  have q': "q' = 2 * q + of_bool (?v \<le> y)" and R': "R' = y - ?v * of_bool (?v \<le> y)"
    unfolding q'_def R'_def X' using assms(3) div_digit [OF y] by simp_all
  have odd: "odd q' = (?v \<le> y)" "q' div 2 = q" unfolding q' by simp_all
  have "q < 2 ^ k"
  proof -
    have "2 ^ N = 2 ^ k * (2 :: nat) ^ (N - k)" using assms(7) by (simp flip: power_add)
    then have "?X < 2 ^ k" using assms(5) by (simp add: less_mult_imp_div_less)
    then show ?thesis unfolding q by (rule le_less_trans [OF div_le_dividend])
  qed
  note rcl = Rcl_division_bit [OF assms(1,5,7,6) this]
  have Rn: "uval (utab n R) = R" using R_less assms(4) by (intro uval_utab_exact) linarith
  have fin: "utab n (y + W ^ n - ?v) = utab n R'" if "?v \<le> y"
  proof -
    have "y + W ^ n - ?v = R' + W ^ n * 1" using that R' by simp
    then show ?thesis by (simp only: utab_add_multiple)
  qed
  have nf: "R' = y" if "\<not> ?v \<le> y" using that R' by simp
  show ?thesis using l
  proof
    assume l: "l = div_a \<and> r = utab n R"
    note step = Div1_step_a [of "utab n R" n v ?b, unfolded Rn, folded y_def]
    have add: "UInt_Add r r ?b = (0, utab n y)"
      and sub: "UInt_Sub (utab n y) v 0 = (of_bool (y < ?v), utab n (y + W ^ n - ?v))"
      using l step assms(1,2,4) R_less by simp_all
    show ?thesis
    proof (cases "?v \<le> y")
      case True
      then show ?thesis using fin odd l rcl add sub by (simp add: Div1_goto.simps(1))
    next
      case False
      then show ?thesis using nf odd l rcl add sub by (simp add: Div1_goto.simps(1))
    qed
  next
    assume l: "l = div_c \<and> r = utab n (R + W ^ n - ?v)"
    obtain c s where "UInt_Add r r ?b = (c, s)"
      "UInt_Add s v 0 = (of_bool (?v \<le> y), utab n (y + W ^ n - ?v))"
      using l Div1_step_c [OF assms(2,1) R_less assms(4), of ?b, folded y_def] by blast
    note add = this
    show ?thesis
    proof (cases "?v \<le> y")
      case True
      then show ?thesis using fin odd l rcl add by (simp add: Div1_goto.simps(3))
    next
      case False
      then show ?thesis using nf odd l rcl add by (simp add: Div1_goto.simps(3))
    qed
  qed
qed

text \<open>What both labels return when \<open>Suc j\<close> turns remain.\<close>

lemma Div1_goto_value:
  assumes "0 < n" "length v = n" "0 < uval v" "2 * uval v \<le> W ^ n" "x < 2 ^ N" "N = 64 * n"
  shows "k + Suc j = N \<Longrightarrow> q = x div 2 ^ (N - k) div uval v \<Longrightarrow> R = x div 2 ^ (N - k) mod uval v \<Longrightarrow>
    l = div_a \<and> r = utab n R \<or> l = div_c \<and> r = utab n (R + W ^ n - uval v) \<Longrightarrow>
    Div1_goto l (Suc j) (of_bool (odd q)) (utab n (x * 2 ^ k + q div 2)) r v
      = Some (utab n (x div uval v), utab n (x mod uval v))"
proof (induction j arbitrary: k q R l r)
  case 0
  then have k: "k < N" "N - Suc k = 0" "Suc k = N" by simp_all
  have W: "W ^ n = 2 ^ N" using assms(6) by (simp add: W_power)
  then have q: "x div uval v < W ^ n"
    using assms(5) le_less_trans [OF div_le_dividend, of x "2 ^ N" "uval v"] by simp
  have "x mod uval v < uval v" "uval v \<le> W ^ n" using assms(3,4) by simp_all
  with Div1_turn [OF assms k(1) "0.prems"(2-4), of 1] k(2,3)
    Div1_finish_b [OF assms(1) q, of x] Div1_finish_d [OF assms(1) q assms(2), of "x mod uval v" x]
  show ?case by (auto simp: W mult.commute)
next
  case (Suc j)
  then have k: "k < N" "Suc k + Suc j = N" by simp_all
  have b: "Div1_goto div_b (Suc (Suc j)) = Div1_goto div_a (Suc j)"
    "Div1_goto div_d (Suc (Suc j)) = Div1_goto div_c (Suc j)"
    by (simp_all add: Div1_goto.simps fun_eq_iff)
  show ?case
    unfolding Div1_turn [OF assms k(1) Suc.prems(2-4)] b
    by (simp only: Suc.IH [OF k(2) refl refl, of div_a] Suc.IH [OF k(2) refl refl, of div_c]
        simp_thms if_cancel)
qed

lemma Div1_CalculateRef_result:
  assumes "length v = length t" "length r = length t" "t \<noteq> []" "0 < uval v" "2 * uval v \<le> W ^ length t"
  shows "UInt_Div1_CalculateRef t v r
    = Some (0, utab (length t) (uval t div uval v), utab (length t) (uval t mod uval v))"
proof -
  let ?n = "length t"
  have x: "uval t < 2 ^ (64 * ?n)" using uval_less [of t] by (simp add: W_power)
  have "64 * ?n = Suc (64 * ?n - 1)" using assms(3) by (cases t) simp_all
  then show ?thesis
    using Div1_goto_value [OF _ assms(1,4,5) x refl, of 0 "64 * ?n - 1" 0 0 div_a "replicate ?n 0"]
      assms x
    by (simp add: UInt_Div1_CalculateRef_def TTMATH_BITS_PER_UINT_def mult.commute)
qed

lemma Div1_zero:
  assumes "length v = length t" "t \<noteq> []" "uval v = 0"
  shows "UInt_Div1 t v rem = Some (1, t, rem)"
  using StandardTest_result(1) [OF assms] by (simp add: UInt_Div1_def)

lemma Div1_result:
  assumes "length v = length t" "t \<noteq> []" "0 < uval v" "2 * uval v \<le> W ^ length t"
    "pred_option (\<lambda>r. length r = length t) rem"
  shows "UInt_Div1 t v rem = Some (divided (length t) (uval t) (uval v) rem)"
proof (cases "uval v < uval t")
  case True
  with StandardTest_result(2) [OF assms(1,2)] assms(3)
    Div1_CalculateRef_result [OF assms(1) _ assms(2-4)] assms(5)
  show ?thesis
    by (auto simp: UInt_Div1_def UInt_Div1_Calculate_def divided_def put_remainder_def split: option.splits)
next
  case False
  then obtain t' rem' where "UInt_Div_StandardTest t v rem
      = (0, FindTop_loop t (length t - 1), FindTop_loop v (length v - 1), t', rem')"
    "(0, t', rem') = divided (length t) (uval t) (uval v) rem"
    using StandardTest_result(3) [OF assms(1,2), of rem] assms(3) by (auto simp: not_less)
  then show ?thesis by (simp add: UInt_Div1_def)
qed

end
