(* ===== verification/UInt_Div2.thy ===== *)
theory UInt_Div2
  imports UInt_Div
begin

text \<open>
  The second division algorithm of \<^verbatim>\<open>ttmathuint.h\<close>: subtract the largest shifted divisor, divide
  the rest by a recursive call, and set the bit of the shift. The recursion of \<^verbatim>\<open>Div2Ref\<close> on the
  rest is a \<open>partial_function\<close>; that it always returns is part of \<open>Div2_result\<close>.
\<close>

section \<open>The method\<close>

definition UInt_Div2_DivisorGreaterOrEqual ::
  "utable \<Rightarrow> utable \<Rightarrow> utable option \<Rightarrow> nat \<Rightarrow> nat \<Rightarrow> nat \<Rightarrow> bool \<times> utable \<times> utable option" where
  "UInt_Div2_DivisorGreaterOrEqual table divisor remainder table_id index divisor_index =
     (if divisor_index > index then (True, UInt_SetZero table, put_remainder remainder table)
      else if divisor_index = index
      then let i = EqualWords_loop table divisor table_id
           in if table ! i < divisor ! i
              then (True, UInt_SetZero table, put_remainder remainder table)
              else if table ! i = divisor ! i
              then (True, UInt_SetOne table, put_remainder remainder (UInt_SetZero table))
              else (False, table, remainder)
      else (False, table, remainder))"

definition UInt_Div2_FindLeadingBitsAndCheck ::
  "utable \<Rightarrow> utable \<Rightarrow> utable option \<Rightarrow>
   (uint \<times> utable \<times> utable option \<times> nat \<times> nat \<times> nat) option" where
  "UInt_Div2_FindLeadingBitsAndCheck table divisor remainder = do {
     (found, divisor_table_id, divisor_index) \<leftarrow> UInt_FindLeadingBit divisor;
     if \<not> found then Some (1, table, remainder, 0, 0, divisor_index)
     else do {
       (found, table_id, index) \<leftarrow> UInt_FindLeadingBit table;
       if \<not> found
       then Some (0, UInt_SetZero table, put_remainder remainder (UInt_SetZero table),
                  table_id, index, divisor_index)
       else let divisor_index = divisor_index + divisor_table_id * TTMATH_BITS_PER_UINT;
                index = index + table_id * TTMATH_BITS_PER_UINT
            in if divisor_table_id = 0
               then do {
                 (_, table, r) \<leftarrow> UInt_DivInt table (divisor ! 0) (Some 0);
                 Some (0, table, put_remainder remainder ((UInt_SetZero table)[0 := the r]),
                       table_id, index, divisor_index)
               }
               else let (done, table, remainder) = UInt_Div2_DivisorGreaterOrEqual
                           table divisor remainder table_id index divisor_index
                    in Some (if done then 0 else 2, table, remainder, table_id, index, divisor_index)
     }
   }"

definition UInt_Div2_Calculate ::
  "utable \<Rightarrow> utable \<Rightarrow> utable option \<Rightarrow> (uint \<times> utable \<times> utable option \<times> nat) option" where
  "UInt_Div2_Calculate table divisor remainder = do {
     (status, table, remainder, table_id, index, divisor_index) \<leftarrow>
       UInt_Div2_FindLeadingBitsAndCheck table divisor remainder;
     if status < 2 then Some (status, table, remainder, 0)
     else let bits_diff = index - divisor_index
          in do {
            (_, divisor_copy) \<leftarrow> UInt_Rcl divisor bits_diff 0;
            (bits_diff, divisor_copy) \<leftarrow>
              (if UInt_CmpSmaller table divisor_copy (int table_id)
               then do { (_, divisor_copy) \<leftarrow> UInt_Rcr divisor_copy 1 0;
                         Some (bits_diff - 1, divisor_copy) }
               else Some (bits_diff, divisor_copy));
            let (_, table) = UInt_Sub table divisor_copy 0;
            Some (2, table, remainder, bits_diff)
          }
   }"

partial_function (option) UInt_Div2 ::
  "utable \<Rightarrow> utable \<Rightarrow> utable option \<Rightarrow> (uint \<times> utable \<times> utable option) option" where
  "UInt_Div2 table divisor remainder = do {
     (status, table, remainder, bits_diff) \<leftarrow> UInt_Div2_Calculate table divisor remainder;
     if status < 2 then Some (status, table, remainder)
     else if UInt_CmpBiggerEqual table divisor (- 1)
     then do {
       (_, table, remainder) \<leftarrow> UInt_Div2 table divisor remainder;
       (_, table) \<leftarrow> UInt_SetBit table bits_diff;
       Some (0, table, remainder)
     }
     else do {
       (_, q) \<leftarrow> UInt_SetBit (UInt_SetZero table) bits_diff;
       Some (0, q, put_remainder remainder table)
     }
   }"

declare UInt_Div2.simps [code]

section \<open>Its parts\<close>

lemma DivisorGreaterOrEqual_result:
  assumes "length v = length t" "t \<noteq> []" "2 ^ k \<le> uval t" "uval t < 2 ^ Suc k"
    "2 ^ j \<le> uval v" "uval v < 2 ^ Suc j"
  shows "uval v < uval t \<Longrightarrow>
      UInt_Div2_DivisorGreaterOrEqual t v rem (k div 64) k j = (False, t, rem)"
    and "uval t \<le> uval v \<Longrightarrow>
      \<exists>t' rem'. UInt_Div2_DivisorGreaterOrEqual t v rem (k div 64) k j = (True, t', rem') \<and>
        (0, t', rem') = divided (length t) (uval t) (uval v) rem"
proof -
  have v: "v \<noteq> []" using assms(1,2) by auto
  have vpos: "0 < uval v" using assms(5) by (metis gr0I not_less_eq_eq le_0_eq power_not_zero zero_neq_numeral)
  have top: "FindTop_loop t (length t - 1) = k div 64"
    using FindLeadingBit_value(2) [OF assms(2-4)] by blast
  have topv: "FindTop_loop v (length v - 1) = j div 64"
    using FindLeadingBit_value(2) [OF v assms(5,6)] by blast
  have kn: "k div 64 < length t" using leading_bit_less [OF assms(3)] by auto
  have lt: "uval t < uval v" if "k < j"
  proof -
    have "(2 :: nat) ^ Suc k \<le> 2 ^ j" using that by (intro power_increasing) simp_all
    with assms(4,5) show ?thesis by linarith
  qed
  have gt: "uval v < uval t" if "j < k"
  proof -
    have "(2 :: nat) ^ Suc j \<le> 2 ^ k" using that by (intro power_increasing) simp_all
    with assms(3,6) show ?thesis by linarith
  qed
  have eq: "(t ! EqualWords_loop t v (k div 64) < v ! EqualWords_loop t v (k div 64)) = (uval t < uval v)"
    "(t ! EqualWords_loop t v (k div 64) = v ! EqualWords_loop t v (k div 64)) = (uval t = uval v)"
    if "j = k"
    using EqualWords_loop_less [of "k div 64" t v] kn assms(1) that
      FindTop_take [OF v, unfolded topv] FindTop_take [OF assms(2), unfolded top] by simp_all
  show "UInt_Div2_DivisorGreaterOrEqual t v rem (k div 64) k j = (False, t, rem)" if "uval v < uval t"
    using that lt eq
    by (cases j k rule: linorder_cases) (auto simp: UInt_Div2_DivisorGreaterOrEqual_def Let_def)
  show "\<exists>t' rem'. UInt_Div2_DivisorGreaterOrEqual t v rem (k div 64) k j = (True, t', rem') \<and>
      (0, t', rem') = divided (length t) (uval t) (uval v) rem" if "uval t \<le> uval v"
  proof (cases "uval t = uval v")
    case True
    with lt gt have "j = k" by (metis less_irrefl linorder_neqE_nat)
    with True eq vpos show ?thesis
      by (simp add: UInt_Div2_DivisorGreaterOrEqual_def divided_def SetOne_utab assms(2))
  next
    case False
    with that have l: "uval t < uval v" by simp
    with gt have "k \<le> j" by (metis less_asym not_le)
    with l eq show ?thesis
      by (cases "j = k") (simp_all add: UInt_Div2_DivisorGreaterOrEqual_def divided_def)
  qed
qed

lemma one_word_value:
  assumes "t \<noteq> []" "FindTop_loop t (length t - 1) = 0"
  shows "uval t = unat (t ! 0)"
  using FindTop_value(4) [OF assms(1)] assms(2) by simp

lemma leading_word:
  assumes "2 ^ j \<le> x" "x < 2 ^ Suc j"
  shows "(j div 64 = 0) = (x < W)"
proof -
  have "(j < 64) = (x < W)"
  proof
    assume "j < 64"
    then have "(2 :: nat) ^ Suc j \<le> W" unfolding W_def by (intro power_increasing) simp_all
    with assms(2) show "x < W" by linarith
  next
    assume "x < W"
    then have "(2 :: nat) ^ j < 2 ^ 64" using assms(1) unfolding W_def by linarith
    then show "j < 64" by (rule power_less_imp_less_exp [rotated]) simp
  qed
  then show ?thesis by auto
qed

lemma Div2_Check_zero:
  assumes "v \<noteq> []" "uval v = 0"
  shows "UInt_Div2_FindLeadingBitsAndCheck t v rem = Some (1, t, rem, 0, 0, 0)"
  using FindLeadingBit_value(1) [OF assms] by (simp add: UInt_Div2_FindLeadingBitsAndCheck_def)

lemma Div2_Check_done:
  assumes "length v = length t" "t \<noteq> []" "0 < uval v" "uval v < W \<or> uval t \<le> uval v"
  shows "\<exists>t' rem' a b c. UInt_Div2_FindLeadingBitsAndCheck t v rem = Some (0, t', rem', a, b, c) \<and>
    (0, t', rem') = divided (length t) (uval t) (uval v) rem"
proof -
  have v: "v \<noteq> []" using assms(1,2) by auto
  obtain j where j: "2 ^ j \<le> uval v" "uval v < 2 ^ Suc j" using leading_bit_exists [OF assms(3)] .
  have fv: "UInt_FindLeadingBit v = Some (True, j div 64, j mod 64)"
    "FindTop_loop v (length v - 1) = j div 64"
    using FindLeadingBit_value(2) [OF v j] by simp_all
  show ?thesis
  proof (cases "uval t = 0")
    case True
    with FindLeadingBit_value(1) [OF assms(2)] fv(1) show ?thesis
      by (simp add: UInt_Div2_FindLeadingBitsAndCheck_def divided_def)
  next
    case False
    then obtain k where k: "2 ^ k \<le> uval t" "uval t < 2 ^ Suc k"
      using leading_bit_exists [of "uval t"] by blast
    have ft: "UInt_FindLeadingBit t = Some (True, k div 64, k mod 64)"
      using FindLeadingBit_value(2) [OF assms(2) k] by simp
    have idx: "k mod 64 + k div 64 * TTMATH_BITS_PER_UINT = k" for k
      by (simp add: TTMATH_BITS_PER_UINT_def)
    show ?thesis
    proof (cases "uval v < W")
      case True
      then have "j div 64 = 0" using leading_word [OF j] by simp
      moreover have "unat (v ! 0) = uval v" using one_word_value [OF v] fv(2) \<open>j div 64 = 0\<close> by simp
      moreover from this have "v ! 0 \<noteq> 0" using assms(3) by auto
      moreover have "uval t mod uval v < W" using True assms(3) by (meson less_trans mod_less_divisor)
      ultimately show ?thesis
        using fv(1) ft DivInt_result [OF assms(2), of "v ! 0" "Some 0"] single_word_utab [of "length t" "uval t mod uval v"] assms(2)
        by (simp add: UInt_Div2_FindLeadingBitsAndCheck_def divided_def put_remainder_def)
    next
      case False
      then have "uval t \<le> uval v" "j div 64 \<noteq> 0" using assms(4) leading_word [OF j] by simp_all
      with DivisorGreaterOrEqual_result(2) [OF assms(1,2) k j, of rem] fv(1) ft
      show ?thesis by (auto simp: UInt_Div2_FindLeadingBitsAndCheck_def idx Let_def)
    qed
  qed
qed

lemma Div2_Check_open:
  assumes "length v = length t" "t \<noteq> []" "2 ^ k \<le> uval t" "uval t < 2 ^ Suc k"
    "2 ^ j \<le> uval v" "uval v < 2 ^ Suc j" "W \<le> uval v" "uval v < uval t"
  shows "UInt_Div2_FindLeadingBitsAndCheck t v rem = Some (2, t, rem, k div 64, k, j)"
proof -
  have v: "v \<noteq> []" using assms(1,2) by auto
  have "j div 64 \<noteq> 0" using leading_word [OF assms(5,6)] assms(7) by simp
  moreover have "k mod 64 + k div 64 * TTMATH_BITS_PER_UINT = k" for k
    by (simp add: TTMATH_BITS_PER_UINT_def)
  ultimately show ?thesis
    using FindLeadingBit_value(2) [OF v assms(5,6)] FindLeadingBit_value(2) [OF assms(2-4)]
      DivisorGreaterOrEqual_result(1) [OF assms(1-6,8), of rem]
    by (simp add: UInt_Div2_FindLeadingBitsAndCheck_def Let_def)
qed

lemma Div2_Calculate_result:
  assumes "length v = length t" "t \<noteq> []" "W \<le> uval v" "uval v < uval t"
  shows "\<exists>b. UInt_Div2_Calculate t v rem = Some (2, utab (length t) (uval t - uval v * 2 ^ b), rem, b) \<and>
    uval v * 2 ^ b \<le> uval t \<and> uval t < uval v * 2 ^ Suc b \<and> b < 64 * length t"
proof -
  let ?n = "length t" and ?x = "uval t" and ?v = "uval v"
  have v: "v \<noteq> []" using assms(1,2) by auto
  have pos: "0 < ?x" "0 < ?v" using assms(3,4) W_pos by linarith+
  obtain k where k: "2 ^ k \<le> ?x" "?x < 2 ^ Suc k" using leading_bit_exists [OF pos(1)] .
  obtain j where j: "2 ^ j \<le> ?v" "?v < 2 ^ Suc j" using leading_bit_exists [OF pos(2)] .
  have jk: "j \<le> k"
  proof (rule ccontr)
    assume "\<not> j \<le> k"
    then have "(2 :: nat) ^ Suc k \<le> 2 ^ j" by (intro power_increasing) simp_all
    with k j assms(4) show False by linarith
  qed
  let ?b = "k - j"
  have kn: "k < 64 * ?n" using k(1) by (rule leading_bit_less)
  have small: "y < W ^ Suc (k div 64)" "y < W ^ ?n" if "y < 2 ^ Suc k" for y :: nat
  proof -
    have "(2 :: nat) ^ Suc k \<le> 2 ^ (64 * Suc (k div 64))" "(2 :: nat) ^ Suc k \<le> 2 ^ (64 * ?n)"
      by (rule power_increasing; use kn in simp)+
    with that show "y < W ^ Suc (k div 64)" "y < W ^ ?n" unfolding W_power by linarith+
  qed
  have "?v * 2 ^ ?b < 2 ^ Suc j * 2 ^ ?b" using j(2) by simp
  moreover have "Suc j + ?b = Suc k" using jk by simp
  ultimately have s: "?v * 2 ^ ?b < 2 ^ Suc k" by (metis power_add)
  let ?d = "utab ?n (?v * 2 ^ ?b)"
  have rcl: "\<exists>c. UInt_Rcl v ?b 0 = Some (c, ?d)"
    using Rcl_result [OF v, of ?b 0] assms(1) by (simp add: shl_value_def fill_bits_def)
  have ud: "uval ?d = ?v * 2 ^ ?b" using small(2) [OF s] by (rule uval_utab_exact)
  have kw: "k div 64 < ?n" using kn by auto
  have cmp: "UInt_CmpSmaller t ?d (int (k div 64)) = (?x < ?v * 2 ^ ?b)"
    using CmpSmaller_prefix [of ?d t "k div 64"] kw small(1) [OF s] small(1) [OF k(2)] ud
    by (simp add: uval_take)
  have up: "?x < ?v * 2 ^ Suc ?b"
  proof -
    have "(2 :: nat) ^ Suc k = 2 ^ j * 2 ^ Suc ?b" using jk by (simp flip: power_add)
    also have "\<dots> \<le> ?v * 2 ^ Suc ?b" using j(1) by (intro mult_le_mono1)
    finally show ?thesis using k(2) by linarith
  qed
  note chk = Div2_Check_open [OF assms(1,2) k j assms(3,4), of rem]
  show ?thesis
  proof (cases "?x < ?v * 2 ^ ?b")
    case False
    then have "UInt_Sub t ?d 0 = (0, utab ?n (?x - ?v * 2 ^ ?b))"
      using Sub_result [of ?d t 0] assms(2) ud by (simp add: borrow_result_exact)
    with False rcl cmp chk up kn show ?thesis
      by (intro exI [of _ ?b]) (auto simp: UInt_Div2_Calculate_def Let_def)
  next
    case True
    with assms(4) have "?b \<noteq> 0" by (metis less_asym mult_1_right power_0)
    then obtain b where b: "?b = Suc b" by (cases ?b) auto
    let ?e = "utab ?n (?v * 2 ^ b)"
    have "?d \<noteq> []" using assms(2) by (metis length_utab length_0_conv)
    then have rcr: "\<exists>c. UInt_Rcr ?d 1 0 = Some (c, ?e)"
      using Rcr_result [of ?d 1 0] ud by (simp add: shr_value_def fill_bits_def b)
    have "?v * 2 ^ b \<le> ?v * 2 ^ ?b" unfolding b by simp
    then have ue: "uval ?e = ?v * 2 ^ b" using small(2) [OF s] by (intro uval_utab_exact) linarith
    have le: "?v * 2 ^ b \<le> ?x"
    proof -
      have "?v * 2 ^ b < 2 ^ Suc j * 2 ^ b" using j(2) by simp
      also have "\<dots> = 2 ^ (Suc j + b)" by (simp only: power_add)
      also have "Suc j + b = k" using b jk by simp
      finally show ?thesis using k(1) by linarith
    qed
    then have "UInt_Sub t ?e 0 = (0, utab ?n (?x - ?v * 2 ^ b))"
      using Sub_result [of ?e t 0] assms(2) ue by (simp add: borrow_result_exact)
    with True rcl rcr cmp chk le kn b show ?thesis
      by (intro exI [of _ b]) (auto simp: UInt_Div2_Calculate_def Let_def)
  qed
qed

lemma Div2_Calculate_early:
  assumes "UInt_Div2_FindLeadingBitsAndCheck t v rem = Some (s, t', rem', a, b, c)" "s < 2"
  shows "UInt_Div2_Calculate t v rem = Some (s, t', rem', 0)"
  using assms by (simp add: UInt_Div2_Calculate_def)

section \<open>The quotient\<close>

lemma SetBit_add:
  assumes "q < 2 ^ b" "b < 64 * n" "0 < n"
  shows "\<exists>c. UInt_SetBit (utab n q) b = Some (c, utab n (q + 2 ^ b))"
proof -
  have "(2 :: nat) ^ b \<le> W ^ n" using assms(2) unfolding W_power by (intro power_increasing) simp_all
  then have u: "uval (utab n q) = q" using assms(1) by (intro uval_utab_exact) linarith
  have "\<not> bit q b" using assms(1) by (simp add: bit_iff_odd)
  then have "set_bit b q = q + 2 ^ b"
    by (simp add: set_bit_eq)
  then show ?thesis using SetBit_value [of b "utab n q"] assms(2) u by simp
qed

lemma Div2_quotient:
  fixes x v :: nat
  assumes "0 < v" "v * 2 ^ b \<le> x" "x < v * 2 ^ Suc b"
  shows "x div v = (x - v * 2 ^ b) div v + 2 ^ b" "x mod v = (x - v * 2 ^ b) mod v"
    "(x - v * 2 ^ b) div v < 2 ^ b"
proof -
  have e: "x = (x - v * 2 ^ b) + 2 ^ b * v" using assms(2) by (simp add: mult.commute)
  show "x div v = (x - v * 2 ^ b) div v + 2 ^ b" "x mod v = (x - v * 2 ^ b) mod v"
    using assms(1) by (subst e, simp)+
  have "v * 2 ^ Suc b = v * 2 ^ b + 2 ^ b * v" by simp
  then have "x - v * 2 ^ b < 2 ^ b * v" using assms(2,3) by linarith
  then show "(x - v * 2 ^ b) div v < 2 ^ b" by (rule less_mult_imp_div_less)
qed

lemma Div2_zero:
  assumes "v \<noteq> []" "uval v = 0"
  shows "UInt_Div2 t v rem = Some (1, t, rem)"
  using Div2_Calculate_early [OF Div2_Check_zero [OF assms]] by (simp add: UInt_Div2.simps)

lemma Div2_result:
  assumes "length v = length t" "t \<noteq> []" "0 < uval v"
  shows "UInt_Div2 t v rem = Some (divided (length t) (uval t) (uval v) rem)"
  using assms
proof (induction "uval t" arbitrary: t rule: less_induct)
  case less
  show ?case
  proof (cases "uval v < W \<or> uval t \<le> uval v")
    case True
    then obtain t' rem' a b c where 1:
        "UInt_Div2_FindLeadingBitsAndCheck t v rem = Some (0, t', rem', a, b, c)"
        "(0, t', rem') = divided (length t) (uval t) (uval v) rem"
      using Div2_Check_done [OF less.prems, of rem] by blast
    show ?thesis
      using Div2_Calculate_early [OF 1(1)] 1(2) by (simp add: UInt_Div2.simps [of t])
  next
    case False
    let ?n = "length t" and ?v = "uval v"
    obtain b where b: "UInt_Div2_Calculate t v rem = Some (2, utab ?n (uval t - ?v * 2 ^ b), rem, b)"
      "?v * 2 ^ b \<le> uval t" "uval t < ?v * 2 ^ Suc b" "b < 64 * ?n"
      using Div2_Calculate_result [OF less.prems(1,2), of rem] False by auto
    let ?x = "uval t - ?v * 2 ^ b" and ?t = "utab (length t) (uval t - uval v * 2 ^ b)"
    note q = Div2_quotient [OF less.prems(3) b(2,3)]
    have x: "?x < W ^ ?n" using uval_less [of t] by linarith
    then have ux: "uval ?t = ?x" by (rule uval_utab_exact)
    have n: "0 < ?n" "?t \<noteq> []" using less.prems(2) by (auto dest: arg_cong [of _ _ length])
    have cmp: "UInt_CmpBiggerEqual ?t v (- 1) = (?v \<le> ?x)"
      using Cmp_values(5) [of v ?t] less.prems(1) ux by simp
    obtain c where set: "UInt_SetBit (utab ?n (?x div ?v)) b = Some (c, utab ?n (uval t div ?v))"
      using SetBit_add [OF q(3) b(4) n(1)] q(1) by auto
    show ?thesis
    proof (cases "?v \<le> ?x")
      case True
      have "0 < ?v * 2 ^ b" using less.prems(3) by simp
      then have "?x < uval t" using b(2) by linarith
      then have "UInt_Div2 ?t v rem = Some (divided ?n ?x ?v rem)"
        using less.hyps [of ?t] less.prems n ux by simp
      with True b(1) cmp set q(2) show ?thesis
        by (simp add: UInt_Div2.simps [of t] divided_def)
    next
      case False
      then have "?x div ?v = 0" "?x mod ?v = ?x" by simp_all
      with False b(1) cmp set q(2) show ?thesis
        by (simp add: UInt_Div2.simps [of t] divided_def)
    qed
  qed
qed

end
