(* ===== verification/UInt_Div3.thy ===== *)
theory UInt_Div3
  imports UInt_Div
begin

text \<open>
  The third division algorithm of \<^verbatim>\<open>ttmathuint.h\<close>, Knuth's algorithm D: normalise, estimate one
  word of the quotient from three words of the dividend and two of the divisor, multiply and
  subtract, add back when the estimate was one too large. \<open>Div3_loop\<close> is the \<^verbatim>\<open>while\<close> loop of
  \<^verbatim>\<open>Div3_Division\<close> over the descending index \<open>j\<close>. The words of \<^verbatim>\<open>q\<close> below \<open>j\<close> are not
  initialised in the source; the model starts them at 0, and the loop writes every one.
\<close>

section \<open>The method\<close>

definition UInt_Div3_MakeNewU :: "utable \<Rightarrow> nat \<Rightarrow> nat \<Rightarrow> uint \<Rightarrow> utable" where
  "UInt_Div3_MakeNewU table j n u_max =
     take n (drop j table) @ [u_max] @ replicate (length table - n) 0"

definition UInt_Div3_CopyNewU :: "utable \<Rightarrow> utable \<Rightarrow> nat \<Rightarrow> nat \<Rightarrow> utable" where
  "UInt_Div3_CopyNewU table uu j n =
     (let table = take j table @ take n uu @ drop (j + n) table
      in if n + j < length table then table[n + j := uu ! n] else table)"

definition UInt_Div3_MakeBiggerV :: "utable \<Rightarrow> utable" where
  "UInt_Div3_MakeBiggerV v = v @ [0]"

definition UInt_Div3_Normalize :: "utable \<Rightarrow> utable \<Rightarrow> nat \<Rightarrow> (uint \<times> utable \<times> utable \<times> nat) option" where
  "UInt_Div3_Normalize table v n = do {
     b \<leftarrow> UInt_FindLeadingBitInWord (v ! (n - 1));
     let move = TTMATH_BITS_PER_UINT - unat b - 1;
     let res = table ! (length table - 1);
     if move > 0
     then do {
       (_, v) \<leftarrow> UInt_Rcl v move 0;
       (_, table) \<leftarrow> UInt_Rcl table move 0;
       Some (drop_bit (unat b + 1) res, table, v, move)
     }
     else Some (0, table, v, move)
   }"

definition UInt_Div3_Unnormalize :: "utable \<Rightarrow> nat \<Rightarrow> nat \<Rightarrow> utable option" where
  "UInt_Div3_Unnormalize table n d =
     map_option snd (UInt_Rcr (take n table @ replicate (length table - n) 0) d 0)"

partial_function (option) Div3_Calculate_loop ::
  "utable \<Rightarrow> uint \<Rightarrow> uint \<Rightarrow> uint \<Rightarrow> uint \<Rightarrow> utable option" where
  "Div3_Calculate_loop u_temp rp u0 v1 v0 =
     (let decrease =
        (if u_temp ! 1 = 1 then True
         else let (hi, lo) = UInt_MulTwoWords (u_temp ! 0) v0
              in UInt_greater [lo, hi] [u0, rp])
      in if decrease
         then do {
           (_, u_temp) \<leftarrow> UInt_SubOne u_temp;
           let rp = rp + v1;
           if rp \<ge> v1 then Div3_Calculate_loop u_temp rp u0 v1 v0 else Some u_temp
         }
         else Some u_temp)"

declare Div3_Calculate_loop.simps [code]

definition UInt_Div3_Calculate :: "uint \<Rightarrow> uint \<Rightarrow> uint \<Rightarrow> uint \<Rightarrow> uint \<Rightarrow> uint option" where
  "UInt_Div3_Calculate u2 u1 u0 v1 v0 =
     (if v1 \<noteq> 0
      then do {
        (_, u_temp, rp) \<leftarrow> UInt_DivInt [u1, u2] v1 (Some 0);
        if u_temp ! 1 = 0 \<or> u_temp ! 1 = 1
        then do {
          u_temp \<leftarrow> Div3_Calculate_loop u_temp (the rp) u0 v1 v0;
          Some (u_temp ! 0)
        }
        else None
      }
      else None)"

definition UInt_Div3_MultiplySubtract :: "utable \<Rightarrow> utable \<Rightarrow> uint \<Rightarrow> (uint \<times> utable) option" where
  "UInt_Div3_MultiplySubtract uu vv qp = do {
     (_, vv_temp) \<leftarrow> UInt_MulInt vv qp;
     let (c, uu) = UInt_Sub uu vv_temp 0;
     Some (if c \<noteq> 0 then (qp - 1, snd (UInt_Add uu vv 0)) else (qp, uu))
   }"

definition Div3_step ::
  "utable \<Rightarrow> utable \<Rightarrow> nat \<Rightarrow> nat \<Rightarrow> uint \<Rightarrow> utable \<Rightarrow> utable \<Rightarrow> (utable \<times> utable) option" where
  "Div3_step v vv n j u2 table q = do {
     qp \<leftarrow> UInt_Div3_Calculate u2 (table ! (j + n - 1)) (table ! (j + n - 2)) (v ! (n - 1)) (v ! (n - 2));
     let uu = UInt_Div3_MakeNewU table j n u2;
     (qp, uu) \<leftarrow> UInt_Div3_MultiplySubtract uu vv qp;
     Some (UInt_Div3_CopyNewU table uu j n, q[j := qp])
   }"

fun Div3_loop ::
  "utable \<Rightarrow> utable \<Rightarrow> nat \<Rightarrow> nat \<Rightarrow> uint \<Rightarrow> utable \<Rightarrow> utable \<Rightarrow> (utable \<times> utable) option" where
  "Div3_loop v vv n 0 u2 table q = Div3_step v vv n 0 u2 table q"
| "Div3_loop v vv n (Suc j) u2 table q = do {
     (table, q) \<leftarrow> Div3_step v vv n (Suc j) u2 table q;
     Div3_loop v vv n j (table ! (j + n)) table q
   }"

definition UInt_Div3_Division ::
  "utable \<Rightarrow> utable \<Rightarrow> utable option \<Rightarrow> nat \<Rightarrow> nat \<Rightarrow> (utable \<times> utable option) option" where
  "UInt_Div3_Division table v remainder m n =
     (if n \<ge> 2
      then do {
        (u_value_size, table, v, d) \<leftarrow> UInt_Div3_Normalize table v n;
        let u2 = (if m + n = length table then u_value_size else table ! (m + n));
        let vv = UInt_Div3_MakeBiggerV v;
        (table, q) \<leftarrow> Div3_loop v vv n m u2 table (replicate (length table) 0);
        remainder \<leftarrow> (case remainder of
            None \<Rightarrow> Some None
          | Some _ \<Rightarrow> map_option Some (UInt_Div3_Unnormalize table n d));
        Some (q, remainder)
      }
      else None)"

definition UInt_Div3 ::
  "utable \<Rightarrow> utable \<Rightarrow> utable option \<Rightarrow> (uint \<times> utable \<times> utable option) option" where
  "UInt_Div3 table v remainder =
     (let (test, m, n, table, remainder) = UInt_Div_StandardTest table v remainder
      in if test < 2 then Some (test, table, remainder)
         else if n = 0
         then do {
           (_, table, r) \<leftarrow> UInt_DivInt table (v ! 0) (Some 0);
           Some (0, table, put_remainder remainder ((UInt_SetZero table)[0 := the r]))
         }
         else do {
           let m = m + 1;
           let n = n + 1;
           (table, remainder) \<leftarrow> UInt_Div3_Division table v remainder (m - n) n;
           Some (0, table, remainder)
         })"

section \<open>The estimate\<close>

lemma Div3_Calculate_loop_value:
  assumes "length t = 2" "0 < unat v1" "uval t < 2 * W"
  shows "\<exists>t'. Div3_Calculate_loop t rp u0 v1 v0 = Some t' \<and> length t' = 2 \<and>
    uval t' = qhat W (unat v1) (unat v0) (unat u0) (uval t) (unat rp)"
  using assms
proof (induction W "unat v1" "unat v0" "unat u0" "uval t" "unat rp" arbitrary: t rp rule: qhat.induct)
  case 1
  let ?q = "uval t"
  obtain a b where t: "t = [a, b]"
    using "1.prems"(1) by (auto simp: numeral_2_eq_2 length_Suc_conv)
  have q: "?q = unat a + W * unat b" by (simp add: t)
  have "unat b < 2"
  proof (rule ccontr)
    assume "\<not> unat b < 2"
    then have "W * 2 \<le> W * unat b" by (intro mult_le_mono2) simp
    with q "1.prems"(3) show False by linarith
  qed
  then have b: "b = 0 \<or> b = 1" by (auto simp: less_2_cases_iff word_unat_eq_iff)
  obtain hi lo where m: "UInt_MulTwoWords a v0 = (hi, lo)" by (metis surj_pair)
  define dec where "dec = (if t ! 1 = 1 then True else
      let (hi, lo) = UInt_MulTwoWords (t ! 0) v0 in UInt_greater [lo, hi] [u0, rp])"
  have dec: "dec = (W \<le> ?q \<or> unat rp * W + unat u0 < ?q * unat v0)"
  proof (cases "b = 1")
    case True
    then show ?thesis using q by (simp add: dec_def t)
  next
    case False
    with b have b0: "b = 0" by simp
    then have q: "?q = unat a" using q by simp
    have "UInt_greater [lo, hi] [u0, rp] = (unat u0 + W * unat rp < unat lo + W * unat hi)"
      using Cmp_values(2) [of "[u0, rp]" "[lo, hi]"] by (simp add: UInt_greater_def)
    moreover have "\<not> W \<le> unat a" by (simp only: not_le unat_less_W simp_thms)
    ultimately show ?thesis
      using b0 q MulTwoWords_value [OF m] m by (simp add: dec_def t ac_simps)
  qed
  note unfold = Div3_Calculate_loop.simps [of t rp u0 v1 v0, folded dec_def, unfolded Let_def]
  show ?case
  proof (cases dec)
    case False
    then show ?thesis using unfold dec "1.prems"(1) by (subst qhat.simps) auto
  next
    case True
    then have q1: "1 \<le> ?q" using dec W_ge_1 by (cases ?q) auto
    let ?t = "utab 2 (?q - 1)"
    have "?q - 1 < W ^ 2" using uval_less [of t] "1.prems"(1) by simp
    then have ut: "uval ?t = ?q - 1" by (rule uval_utab_exact)
    have "t \<noteq> []" by (simp add: t)
    then have "UInt_SubOne t = Some (0, ?t)"
      using SubOne_result [of t] "1.prems"(1) borrow_result_exact [OF q1, of 2] by simp
    then have run: "Div3_Calculate_loop t rp u0 v1 v0
        = (if rp + v1 \<ge> v1 then Div3_Calculate_loop ?t (rp + v1) u0 v1 v0 else Some ?t)"
      using unfold True by simp
    have carry: "(v1 \<le> rp + v1) = (unat rp + unat v1 < W)" "unat rp + unat v1 < W \<Longrightarrow> unat (rp + v1) = unat rp + unat v1"
      using unat_less_W [of rp] unat_less_W [of v1] unfolding W_def
      by (auto simp: word_le_nat_alt unat_plus_if')
    have cond: "unat v1 \<noteq> 0 \<and> (W \<le> ?q \<or> unat rp * W + unat u0 < ?q * unat v0)"
      using True dec "1.prems"(2) by simp
    show ?thesis
    proof (cases "unat rp + unat v1 < W")
      case True
      have "\<exists>t'. Div3_Calculate_loop ?t (rp + v1) u0 v1 v0 = Some t' \<and> length t' = 2 \<and>
          uval t' = qhat W (unat v1) (unat v0) (unat u0) (uval ?t) (unat (rp + v1))"
        using "1.hyps" [OF cond True, of ?t "rp + v1"] ut carry(2) [OF True] "1.prems" by simp
      with run carry True ut cond show ?thesis
        by (subst qhat.simps) auto
    next
      case False
      with run carry ut cond show ?thesis by (subst qhat.simps) auto
    qed
  qed
qed

lemma Div3_Calculate_result:
  assumes "0 < unat v1" "unat u2 \<le> unat v1"
  shows "\<exists>q. UInt_Div3_Calculate u2 u1 u0 v1 v0 = Some q \<and>
    unat q = min (((unat u2 * W + unat u1) * W + unat u0) div (unat v1 * W + unat v0)) (W - 1)"
proof -
  let ?u = "unat u2 * W + unat u1" and ?v = "unat v1"
  have v1: "v1 \<noteq> 0" using assms(1) by auto
  let ?t = "utab 2 (?u div ?v)"
  have uu: "uval [u1, u2] = ?u" by simp
  have "?u < W ^ 2" using uval_less [of "[u1, u2]"] by (simp add: numeral_2_eq_2 ac_simps)
  then have "?u div ?v < W ^ 2" by (rule le_less_trans [OF div_le_dividend])
  then have ut: "uval ?t = ?u div ?v" by (rule uval_utab_exact)
  have "?u < 2 * W * ?v"
  proof -
    have "unat u2 * W \<le> ?v * W" using assms(2) by (rule mult_le_mono1)
    moreover have "unat u1 < W * ?v" using unat_less_W [of u1] assms(1)
      by (metis less_le_trans mult.right_neutral mult_le_mono2 Suc_leI One_nat_def)
    moreover have "2 * W * ?v = ?v * W + W * ?v" by simp
    ultimately show ?thesis by linarith
  qed
  then have small: "?u div ?v < 2 * W" by (rule less_mult_imp_div_less)
  have "?t ! 1 = 0 \<or> ?t ! 1 = 1"
  proof -
    have "?u div ?v div W < 2" using small by (simp add: less_mult_imp_div_less)
    then have "?u div ?v div W = 0 \<or> ?u div ?v div W = 1" by linarith
    then show ?thesis by (auto simp: numeral_2_eq_2)
  qed
  moreover have "UInt_DivInt [u1, u2] v1 (Some 0) = Some (0, ?t, Some (of_nat (?u mod ?v)))"
    using DivInt_result [of "[u1, u2]" v1 "Some 0"] v1
    by (simp add: put_remainder_def numeral_2_eq_2 ac_simps)
  moreover have "?u mod ?v < W" using assms(1) unat_less_W [of v1] by (meson less_trans mod_less_divisor)
  then have "unat (of_nat (?u mod ?v) :: uint) = ?u mod ?v" by (rule unat_of_nat_small)
  moreover obtain t' where t': "Div3_Calculate_loop ?t (of_nat (?u mod ?v)) u0 v1 v0 = Some t'"
    "length t' = 2" "uval t' = qhat W ?v (unat v0) (unat u0) (?u div ?v) (?u mod ?v)"
    using Div3_Calculate_loop_value [of ?t v1 "of_nat (?u mod ?v)" u0 v0] assms(1) small ut calculation(3) by auto
  moreover have "uval t' = min ((?u * W + unat u0) div (?v * W + unat v0)) (W - 1)"
    unfolding t'(3) using assms by (intro word_radix.qhat_digit) simp_all
  moreover from this have "uval t' < W" using W_ge_1 by simp
  then have "unat (t' ! 0) = uval t'" using uval_nth [of 0 t'] t'(2) by simp
  ultimately show ?thesis using v1 by (simp add: UInt_Div3_Calculate_def)
qed

section \<open>One word of the quotient\<close>

lemma MakeNewU_value:
  assumes "j + n \<le> length t"
  shows "length (UInt_Div3_MakeNewU t j n u) = Suc (length t)"
    and "uval (UInt_Div3_MakeNewU t j n u) = uval (take n (drop j t)) + W ^ n * unat u"
  using assms by (simp_all add: UInt_Div3_MakeNewU_def uval_append min_absorb2)

lemma MultiplySubtract_result:
  assumes "length uu = k" "length vv = k" "0 < k" "0 < uval vv" "uval vv * unat qp < W ^ k"
    "qp = of_nat (uval uu div uval vv) \<and> uval uu div uval vv < W \<or>
     unat qp = uval uu div uval vv + 1"
  shows "UInt_Div3_MultiplySubtract uu vv qp
    = Some (of_nat (uval uu div uval vv), utab k (uval uu mod uval vv))"
proof -
  let ?u = "uval uu" and ?v = "uval vv" and ?q = "unat qp"
  have ne: "vv \<noteq> []" "uu \<noteq> []" using assms(1-3) by auto
  let ?m = "utab k (?v * ?q)"
  have mul: "UInt_MulInt vv qp = Some (of_bool (W ^ k \<le> ?v * ?q), ?m)"
    using MulInt_result [OF ne(1), of qp] assms(2) by simp
  have um: "uval ?m = ?v * ?q" using assms(5) by (rule uval_utab_exact)
  have sub: "UInt_Sub uu ?m 0 = borrow_result k ?u (?v * ?q)"
    using Sub_result [of ?m uu 0] ne(2) assms(1) um by simp
  have u: "?u = ?v * (?u div ?v) + ?u mod ?v" by simp
  show ?thesis using assms(6)
  proof
    assume a: "qp = of_nat (?u div ?v) \<and> ?u div ?v < W"
    then have q: "?q = ?u div ?v" by (simp add: unat_of_nat_small)
    then have "?v * ?q \<le> ?u" by simp
    then have "UInt_Sub uu ?m 0 = (0, utab k (?u mod ?v))"
      using sub q by (simp add: borrow_result_exact minus_mult_div_eq_mod)
    with mul a show ?thesis by (simp add: UInt_Div3_MultiplySubtract_def)
  next
    assume q: "?q = ?u div ?v + 1"
    then have e: "?v * ?q = ?v * (?u div ?v) + ?v" by simp
    have r: "?u mod ?v < ?v" using assms(4) by simp
    then have gt: "?u < ?v * ?q" using u e by linarith
    let ?x = "?u + W ^ k - ?v * ?q"
    have x: "?x < W ^ k" using gt assms(5) by linarith
    then have ux: "uval (utab k ?x) = ?x" by (rule uval_utab_exact)
    have "?x + ?v = ?u mod ?v + W ^ k * 1" using u e assms(5) by linarith
    then have add: "snd (UInt_Add (utab k ?x) vv 0) = utab k (?u mod ?v)"
      using Add_result [of vv "utab k ?x" 0] assms(2,3) ux utab_add_multiple [of k "?u mod ?v" 1]
      by (simp add: carry_result_def)
    have "qp = of_nat (?u div ?v + 1)" using arg_cong [OF q, of "of_nat :: nat \<Rightarrow> uint"] by simp
    then have "qp - 1 = of_nat (?u div ?v)" by simp
    with mul sub gt add show ?thesis
      by (simp add: UInt_Div3_MultiplySubtract_def borrow_result_def)
  qed
qed

lemma CopyNewU_value:
  assumes "j + n \<le> length t" "n < length uu"
  shows "length (UInt_Div3_CopyNewU t uu j n) = length t"
    and "take j (UInt_Div3_CopyNewU t uu j n) = take j t"
    and "take n (drop j (UInt_Div3_CopyNewU t uu j n)) = take n uu"
  using assms by (simp_all add: UInt_Div3_CopyNewU_def Let_def drop_update_swap)

text \<open>The two leading words of a number of \<open>n\<close> words.\<close>

lemma two_top_words:
  assumes "length t = n" "2 \<le> n"
  shows "uval t = (unat (t ! (n - 1)) * W + unat (t ! (n - 2))) * W ^ (n - 2) + uval (take (n - 2) t)"
    and "uval (take (n - 2) t) < W ^ (n - 2)"
proof -
  obtain k where k: "n = Suc (Suc k)" using assms(2) by (metis add_2_eq_Suc le_Suc_ex)
  have "t = take (Suc (Suc k)) t" using assms(1) k by simp
  also have "\<dots> = take k t @ [t ! k, t ! Suc k]"
    using assms(1) k take_Suc_conv_app_nth [of k t] take_Suc_conv_app_nth [of "Suc k" t]
    by (simp only: append_assoc append_Cons append_Nil lessI less_SucI)
  finally have "uval t = uval (take k t @ [t ! k, t ! Suc k])" by (rule arg_cong)
  then show "uval t = (unat (t ! (n - 1)) * W + unat (t ! (n - 2))) * W ^ (n - 2) + uval (take (n - 2) t)"
    using assms(1) k by (simp add: uval_append min_absorb2 algebra_simps)
  show "uval (take (n - 2) t) < W ^ (n - 2)" by (rule uval_less_le) simp
qed

lemma top_digit_facts:
  fixes u2 u1 u0 v1 v0 p W :: nat
  assumes S: "S = ((u2 * W + u1) * W + u0) * p + sl" and V: "V = (v1 * W + v0) * p + vl"
    and "vl < p" "v0 < W" "W * p \<le> V" "S < V * W"
  shows "0 < v1" "u2 \<le> v1"
proof -
  have "V < (v1 * W + v0 + 1) * p" using V assms(3) by simp
  also have "\<dots> \<le> (v1 + 1) * W * p" using assms(4) by (intro mult_le_mono1) simp
  finally have lt: "V < (v1 + 1) * W * p" .
  show "0 < v1"
  proof (rule ccontr)
    assume "\<not> 0 < v1"
    with lt assms(5) show False by simp
  qed
  have "u2 * (W * W * p) \<le> S" unfolding S by (simp add: algebra_simps)
  also have "\<dots> < (v1 + 1) * W * p * W"
  proof -
    have "V * W \<le> (v1 + 1) * W * p * W" using lt by (intro mult_le_mono1) simp
    with assms(6) show ?thesis by linarith
  qed
  also have "\<dots> = (v1 + 1) * (W * W * p)" by (simp add: algebra_simps)
  finally have "u2 < v1 + 1" by (simp only: mult_less_cancel2)
  then show "u2 \<le> v1" by simp
qed

lemma Div3_step_result:
  assumes len: "length t = N" "length v = N" and n: "2 \<le> n" "j + n \<le> N"
    and V: "uval v < W ^ n" "W ^ (n - 1) \<le> uval v"
    and S: "S = uval (take n (drop j t)) + W ^ n * unat u2" "S < uval v * W"
  shows "\<exists>t'. Div3_step v (v @ [0]) n j u2 t q = Some (t', q[j := of_nat (S div uval v)]) \<and>
    length t' = N \<and> take j t' = take j t \<and> uval (take n (drop j t')) = S mod uval v"
proof -
  let ?p = "W ^ (n - 2)" and ?s = "take n (drop j t)" and ?w = "take n v"
  let ?u1 = "t ! (j + n - 1)" and ?u0 = "t ! (j + n - 2)" and ?v1 = "v ! (n - 1)" and ?v0 = "v ! (n - 2)"
  have p: "W ^ n = W * W * ?p" "W ^ (n - 1) = W * ?p"
    using n(1) by (metis add_diff_inverse_nat not_less power_add power2_eq_square)
      (metis Suc_diff_Suc Suc_1 Suc_le_eq n(1) numeral_2_eq_2 power_Suc)
  have w: "uval ?w = uval v" using V(1) by (simp add: uval_take)
  have idx: "?s ! (n - 1) = ?u1" "?s ! (n - 2) = ?u0" "?w ! (n - 1) = ?v1" "?w ! (n - 2) = ?v0"
    using n len by simp_all
  have ls: "length ?s = n" "length ?w = n" using n len by simp_all
  note ts = two_top_words [OF ls(1) n(1), unfolded idx] and tv = two_top_words [OF ls(2) n(1), unfolded idx]
  have S3: "S = ((unat u2 * W + unat ?u1) * W + unat ?u0) * ?p + uval (take (n - 2) ?s)"
    unfolding S(1) p(1) using ts(1) by (simp add: algebra_simps)
  have V2: "uval v = (unat ?v1 * W + unat ?v0) * ?p + uval (take (n - 2) ?w)"
    using tv(1) w by simp
  have "W * ?p \<le> uval v" using V(2) p(2) by simp
  note top = top_digit_facts [OF S3 V2 tv(2) unat_less_W this S(2)]
  obtain qp where qp: "UInt_Div3_Calculate u2 ?u1 ?u0 ?v1 ?v0 = Some qp"
    "unat qp = min (((unat u2 * W + unat ?u1) * W + unat ?u0) div (unat ?v1 * W + unat ?v0)) (W - 1)"
    using Div3_Calculate_result [OF top] by blast
  have "W \<le> unat ?v1 * W + unat ?v0" using top(1) by (cases "unat ?v1") simp_all
  from word_radix.estimate_bounds [OF S3 ts(2) V2 tv(2) this S(2)]
  have est: "S div uval v \<le> unat qp" "unat qp \<le> S div uval v + 1" unfolding qp(2) by blast+
  have v0: "0 < uval v" using V(2) W_power_mono [of 0 "n - 1"] by simp
  let ?uu = "UInt_Div3_MakeNewU t j n u2"
  have uu: "length ?uu = Suc N" "uval ?uu = S" using MakeNewU_value [of j n t u2] n len S(1) by simp_all
  have vv: "length (v @ [0]) = Suc N" "uval (v @ [0]) = uval v" using len by (simp_all add: uval_append)
  have "uval v * unat qp < W ^ Suc N"
  proof -
    have "uval v * unat qp < W ^ N * W"
      using uval_less [of v] len by (intro mult_strict_mono) simp_all
    then show ?thesis by (simp add: mult.commute)
  qed
  moreover have "qp = of_nat (S div uval v) \<and> S div uval v < W \<or> unat qp = S div uval v + 1"
  proof (cases "unat qp = S div uval v")
    case True
    then show ?thesis using unat_less_W [of qp] by (metis unat_of_nat_small word_unat_eq_iff)
  qed (use est in linarith)
  ultimately have ms: "UInt_Div3_MultiplySubtract ?uu (v @ [0]) qp
      = Some (of_nat (S div uval v), utab (Suc N) (S mod uval v))"
    using MultiplySubtract_result [OF uu(1) vv(1), of qp] uu(2) vv(2) v0 by simp
  have r: "S mod uval v < W ^ n" using v0 V(1) by (meson less_trans mod_less_divisor)
  then have "S mod uval v < W ^ Suc N" using n W_power_mono [of n "Suc N"] by linarith
  then have "uval (take n (utab (Suc N) (S mod uval v))) = S mod uval v"
    using r by (simp only: uval_take uval_utab_exact mod_less)
  moreover have "j + n \<le> length t" "n < length (utab (Suc N) (S mod uval v))"
    using n len by (simp_all only: length_utab)
  ultimately show ?thesis
    using qp(1) ms CopyNewU_value [of j n t "utab (Suc N) (S mod uval v)"] len
    by (simp add: Div3_step_def Let_def)
qed

section \<open>The loop\<close>

text \<open>
  Before the step for index \<open>j\<close> the words from \<open>j\<close> on and \<open>u2\<close> hold the remainder of the leading
  words of the dividend \<open>U\<close> with the next word appended, the words below \<open>j\<close> are those of \<open>U\<close>, and
  \<open>q\<close> holds the quotient of the leading words.
\<close>

definition Div3_inv :: "nat \<Rightarrow> nat \<Rightarrow> nat \<Rightarrow> nat \<Rightarrow> nat \<Rightarrow> uint \<Rightarrow> utable \<Rightarrow> utable \<Rightarrow> bool" where
  "Div3_inv U V N n j u2 t q \<longleftrightarrow>
     length t = N \<and> length q = N \<and> j + n \<le> N \<and> uval (take j t) = U mod W ^ j \<and>
     uval (take n (drop j t)) + W ^ n * unat u2 = W * (U div W ^ Suc j mod V) + U div W ^ j mod W \<and>
     uval (drop (Suc j) q) = U div W ^ Suc j div V"

lemma Div3_inv_step:
  assumes len: "length v = N" and n: "2 \<le> n" and V: "uval v < W ^ n" "W ^ (n - 1) \<le> uval v"
    and inv: "Div3_inv U (uval v) N n j u2 t q"
  shows "\<exists>t' q'. Div3_step v (v @ [0]) n j u2 t q = Some (t', q') \<and> length t' = N \<and> length q' = N \<and>
    take j t' = take j t \<and> uval (take n (drop j t')) = U div W ^ j mod uval v \<and>
    uval (drop j q') = U div W ^ j div uval v"
proof -
  let ?V = "uval v" and ?P = "U div W ^ j" and ?P' = "U div W ^ Suc j"
  let ?S = "W * (?P' mod ?V) + ?P mod W"
  have i: "length t = N" "length q = N" "j + n \<le> N"
    "uval (take n (drop j t)) + W ^ n * unat u2 = ?S" "uval (drop (Suc j) q) = ?P' div ?V"
    using inv by (simp_all add: Div3_inv_def)
  have v0: "0 < ?V" using V(2) W_power_mono [of 0 "n - 1"] by simp
  have "?P' = ?P div W" by (simp only: power_Suc2 div_mult2_eq)
  then have P: "?P = W * ?P' + ?P mod W" by simp
  note st = div_step [OF v0 P refl refl]
  have S: "?S < ?V * W"
  proof -
    have "?P mod W < W" by simp
    moreover have "W * (?P' mod ?V) + W \<le> W * ?V"
      using v0 by (metis Suc_leI mod_less_divisor mult_Suc_right mult_le_mono2 add.commute)
    ultimately have "?S < W * ?V" by linarith
    then show ?thesis by (simp only: mult.commute)
  qed
  then have q: "?S div ?V < W" by (simp add: less_mult_imp_div_less mult.commute)
  obtain t' where t': "Div3_step v (v @ [0]) n j u2 t q = Some (t', q[j := of_nat (?S div ?V)])"
    "length t' = N" "take j t' = take j t" "uval (take n (drop j t')) = ?S mod ?V"
    using Div3_step_result [OF i(1) len n i(3) V i(4) [symmetric] S] by blast
  have "j < length q" using i(2,3) n by simp
  then have "drop j (q[j := of_nat (?S div ?V)]) = of_nat (?S div ?V) # drop (Suc j) q"
    by (simp add: drop_update_swap Cons_nth_drop_Suc [symmetric])
  then have "uval (drop j (q[j := of_nat (?S div ?V)])) = ?P div ?V"
    using q i(5) st(1) by (simp add: unat_of_nat_small)
  with t' st(2) i(2) show ?thesis by auto
qed

lemma Div3_inv_next:
  assumes len: "length v = N" "n \<le> N" and inv: "Div3_inv U V N n (Suc j) u2 t q"
    and t': "length t' = N" "take (Suc j) t' = take (Suc j) t"
      "uval (take n (drop (Suc j) t')) = U div W ^ Suc j mod V"
    and q': "length q' = N" "uval (drop (Suc j) q') = U div W ^ Suc j div V"
  shows "Div3_inv U V N n j (t' ! (j + n)) t' q'"
proof -
  have jn: "Suc j + n \<le> N" and low: "uval (take (Suc j) t) = U mod W ^ Suc j"
    using inv by (simp_all add: Div3_inv_def)
  have low': "uval (take (Suc j) t') = U mod W ^ Suc j" using low t'(2) by simp
  have j: "uval (take j t') = U mod W ^ j"
  proof -
    have "uval (take j (take (Suc j) t')) = U mod W ^ Suc j mod W ^ j"
      by (simp only: uval_take [of j] low')
    then show ?thesis by (simp add: min_def mod_mod_cancel)
  qed
  have w: "unat (t' ! j) = U div W ^ j mod W"
  proof -
    have "uval (take (Suc j) t') = uval (take j t') + W ^ j * unat (t' ! j)"
      using jn t'(1) by (simp add: take_Suc_conv_app_nth uval_append min_absorb2)
    moreover have "U mod W ^ Suc j = W ^ j * (U div W ^ j mod W) + U mod W ^ j"
      by (simp only: power_Suc2 mod_mult2_eq)
    ultimately have "W ^ j * unat (t' ! j) = W ^ j * (U div W ^ j mod W)" using low' j by linarith
    then show ?thesis by simp
  qed
  have "uval (take n (drop j t')) + W ^ n * unat (t' ! (j + n)) = uval (take (Suc n) (drop j t'))"
    using jn t'(1) by (simp add: take_Suc_conv_app_nth [of n] uval_append min_absorb2)
  also have "\<dots> = unat (t' ! j) + W * uval (take n (drop (Suc j) t'))"
    using jn t'(1) by (simp add: Cons_nth_drop_Suc [of j, symmetric])
  finally have "uval (take n (drop j t')) + W ^ n * unat (t' ! (j + n))
      = W * (U div W ^ Suc j mod V) + U div W ^ j mod W"
    using w t'(3) by simp
  with j t'(1) q' jn show ?thesis by (simp add: Div3_inv_def)
qed

lemma Div3_loop_result:
  assumes "length v = N" "2 \<le> n" "uval v < W ^ n" "W ^ (n - 1) \<le> uval v"
  shows "Div3_inv U (uval v) N n j u2 t q \<Longrightarrow>
    \<exists>t' q'. Div3_loop v (v @ [0]) n j u2 t q = Some (t', q') \<and> length t' = N \<and> length q' = N \<and>
      uval q' = U div uval v \<and> uval (take n t') = U mod uval v"
proof (induction j arbitrary: t q u2)
  case (0 t q u2)
  from Div3_inv_step [OF assms 0] show ?case by auto
next
  case (Suc j t q u2)
  have "n \<le> N" using Suc.prems by (simp add: Div3_inv_def)
  from Div3_inv_step [OF assms Suc.prems] obtain t' q' where
    1: "Div3_step v (v @ [0]) n (Suc j) u2 t q = Some (t', q')" and
    2: "length t' = N" "take (Suc j) t' = take (Suc j) t"
      "uval (take n (drop (Suc j) t')) = U div W ^ Suc j mod uval v"
      "length q' = N" "uval (drop (Suc j) q') = U div W ^ Suc j div uval v" by auto
  have "Div3_inv U (uval v) N n j (t' ! (j + n)) t' q'"
    using Div3_inv_next [OF assms(1) \<open>n \<le> N\<close> Suc.prems 2] .
  from Suc.IH [OF this] 1 show ?case by simp
qed

section \<open>Normalisation\<close>

lemma Normalize_result:
  assumes len: "length v = N" "length t = N" and n: "0 < n" "n \<le> N" "v ! (n - 1) \<noteq> 0" "uval v < W ^ n"
  shows "\<exists>d. d < 64 \<and> uval v * 2 ^ d < W ^ n \<and> UInt_Div3_Normalize t v n =
    Some (of_nat (uval t * 2 ^ d div W ^ N), utab N (uval t * 2 ^ d), utab N (uval v * 2 ^ d), d)"
proof -
  obtain b where b: "2 ^ b \<le> unat (v ! (n - 1))" "unat (v ! (n - 1)) < 2 ^ Suc b" "b \<le> 63"
    using uint_leading_bit [OF n(3)] .
  have fb: "UInt_FindLeadingBitInWord (v ! (n - 1)) = Some (of_nat b)" "unat (of_nat b :: uint) = b"
    using FindLeadingBitInWord_value [OF b] unat_of_nat_small [of b] b(3) by (simp_all add: W_def)
  let ?d = "63 - b"
  have N: "0 < N" using n by simp
  have ne: "v \<noteq> []" "t \<noteq> []" using len N by auto
  have W: "W = 2 ^ Suc b * 2 ^ ?d" using b(3) unfolding W_def power_add [symmetric] by simp
  have fit: "uval v * 2 ^ ?d < W ^ n"
  proof -
    have "uval v = uval (take (n - 1) v) + W ^ (n - 1) * unat (v ! (n - 1))"
    proof -
      have "take (Suc (n - 1)) v = take (n - 1) v @ [v ! (n - 1)]"
        using n len by (intro take_Suc_conv_app_nth) simp
      then have "uval (take n v) = uval (take (n - 1) v @ [v ! (n - 1)])" using n(1) by simp
      moreover have "uval (take n v) = uval v" using n by (simp add: uval_take)
      ultimately show ?thesis using n len by (simp add: uval_append min_absorb2)
    qed
    also have "\<dots> < W ^ (n - 1) * (unat (v ! (n - 1)) + 1)"
      using uval_less_le [of "take (n - 1) v" "n - 1"] by simp
    also have "\<dots> \<le> W ^ (n - 1) * 2 ^ Suc b" using b(2) by (intro mult_le_mono2) simp
    finally have "uval v * 2 ^ ?d < W ^ (n - 1) * 2 ^ Suc b * 2 ^ ?d" by simp
    also have "\<dots> = W ^ (n - 1) * W" by (simp only: W mult.assoc)
    also have "\<dots> = W ^ n" using n(1) by (metis Suc_pred' power_Suc2)
    finally show ?thesis .
  qed
  have top: "unat (drop_bit (b + 1) (t ! (N - 1))) = uval t * 2 ^ ?d div W ^ N"
  proof -
    have "uval t div W ^ (N - 1) < W"
    proof -
      have "W ^ N = W ^ (N - 1) * W" using N by (metis Suc_pred' power_Suc2)
      then show ?thesis using uval_less [of t] len(2) by (simp add: less_mult_imp_div_less mult.commute)
    qed
    then have "unat (t ! (N - 1)) = uval t div W ^ (N - 1)" using uval_nth [of "N - 1" t] N len(2) by simp
    then have "unat (drop_bit (b + 1) (t ! (N - 1))) = uval t div (W ^ (N - 1) * 2 ^ Suc b)"
      by (simp only: drop_bit_uint div_mult2_eq Suc_eq_plus1)
    also have "\<dots> = (uval t * 2 ^ ?d) div (W ^ (N - 1) * 2 ^ Suc b * 2 ^ ?d)" by simp
    also have "W ^ (N - 1) * 2 ^ Suc b * 2 ^ ?d = W ^ (N - 1) * W" by (simp only: W mult.assoc)
    also have "\<dots> = W ^ N" using N by (metis Suc_pred' power_Suc2)
    finally show ?thesis .
  qed
  have rc: "\<exists>c. UInt_Rcl x ?d 0 = Some (c, utab (length x) (uval x * 2 ^ ?d))" if "x \<noteq> []" for x
    using Rcl_result [OF that, of ?d 0] by (simp add: shl_value_def fill_bits_def)
  have "UInt_Div3_Normalize t v n =
    Some (of_nat (uval t * 2 ^ ?d div W ^ N), utab N (uval t * 2 ^ ?d), utab N (uval v * 2 ^ ?d), ?d)"
  proof (cases "?d = 0")
    case True
    then have "uval t * 2 ^ ?d div W ^ N = 0" using uval_less [of t] len by simp
    with True fb len show ?thesis
      using utab_uval [of t] utab_uval [of v]
      by (simp add: UInt_Div3_Normalize_def TTMATH_BITS_PER_UINT_def)
  next
    case False
    obtain c1 c2 where "UInt_Rcl v ?d 0 = Some (c1, utab N (uval v * 2 ^ ?d))"
      "UInt_Rcl t ?d 0 = Some (c2, utab N (uval t * 2 ^ ?d))" using rc [OF ne(1)] rc [OF ne(2)] len by auto
    moreover have "drop_bit (b + 1) (t ! (N - 1)) = of_nat (uval t * 2 ^ ?d div W ^ N)"
      unfolding top [symmetric] by simp
    ultimately show ?thesis
      using False fb len by (simp add: UInt_Div3_Normalize_def TTMATH_BITS_PER_UINT_def Let_def)
  qed
  moreover have "?d < 64" by simp
  ultimately show ?thesis using fit by blast
qed

lemma Unnormalize_result:
  assumes "length t = N" "0 < N" "n \<le> N" "uval (take n t) = r * 2 ^ d"
  shows "UInt_Div3_Unnormalize t n d = Some (utab N r)"
proof -
  let ?t = "take n t @ replicate (N - n) 0"
  have t: "?t \<noteq> []" "length ?t = N" "uval ?t = r * 2 ^ d" using assms by auto
  then have "\<exists>c. UInt_Rcr ?t d 0 = Some (c, utab N r)"
    using Rcr_result [OF t(1), of d 0] by (simp add: shr_value_def fill_bits_def)
  then show ?thesis using assms(1) by (auto simp: UInt_Div3_Unnormalize_def)
qed

text \<open>The state in which the loop starts.\<close>

lemma Div3_inv_start:
  assumes n: "0 < n" "m + n \<le> N" and U: "U < W ^ (m + n) * D" "W ^ (n - 1) * D \<le> V" "D \<le> W"
    and u2: "u2 = (if m + n = N then of_nat (U div W ^ N) else utab N U ! (m + n))"
  shows "Div3_inv U V N n m u2 (utab N U) (replicate N 0)"
proof -
  have D: "U div W ^ (m + n) < D" using U(1) by (simp add: less_mult_imp_div_less mult.commute)
  have "W ^ (m + n) * D = W ^ Suc m * (W ^ (n - 1) * D)"
    using n(1) by (cases n) (simp_all add: power_add)
  also have "\<dots> \<le> W ^ Suc m * V" using U(2) by (intro mult_le_mono2)
  finally have P': "U div W ^ Suc m < V" using U(1) by (intro less_mult_imp_div_less) (simp add: mult.commute)
  have uu: "unat u2 = U div W ^ (m + n)"
  proof (cases "m + n = N")
    case True
    then show ?thesis using u2 D U(3) by (simp add: unat_of_nat_small)
  next
    case False
    have "unat u2 = U mod W ^ N div W ^ (m + n) mod W"
      using False u2 n uval_nth [of "m + n" "utab N U"] by (simp add: uval_utab)
    moreover have "U < W ^ N"
    proof -
      have "W ^ (m + n) * D \<le> W ^ (m + n) * W" using U(3) by (intro mult_le_mono2)
      also have "\<dots> = W ^ Suc (m + n)" by (simp only: power_Suc2)
      also have "\<dots> \<le> W ^ N" using False n by (intro W_power_mono) simp
      finally show ?thesis using U(1) by linarith
    qed
    ultimately show ?thesis using D U(3) by simp
  qed
  have "uval (take n (drop m (utab N U))) = U mod W ^ N div W ^ m mod W ^ n"
    by (simp only: uval_take uval_drop uval_utab)
  also have "\<dots> = U div W ^ m mod W ^ n"
  proof -
    have "W ^ N = W ^ m * W ^ (N - m)" using n(2) by (simp flip: power_add)
    then have "U mod W ^ N div W ^ m = U div W ^ m mod W ^ (N - m)"
      by (simp add: mod_mult2_eq)
    moreover have "W ^ n dvd W ^ (N - m)" using n(2) by (intro le_imp_power_dvd) simp
    ultimately show ?thesis by (simp add: mod_mod_cancel)
  qed
  also have "\<dots> + W ^ n * unat u2 = U div W ^ m"
    unfolding uu power_add div_mult2_eq by simp
  finally have sl: "uval (take n (drop m (utab N U))) + W ^ n * unat u2 = U div W ^ m" by simp
  have "U div W ^ Suc m = U div W ^ m div W" by (simp only: power_Suc2 div_mult2_eq)
  then have "W * (U div W ^ Suc m) + U div W ^ m mod W = U div W ^ m" by simp
  moreover have "uval (take m (utab N U)) = U mod W ^ m"
    using n(2) by (simp add: uval_take uval_utab mod_mod_cancel le_imp_power_dvd)
  ultimately show ?thesis using sl P' n by (simp add: Div3_inv_def)
qed

section \<open>The quotient\<close>

lemma Div3_Division_result:
  assumes len: "length v = length t" and n: "2 \<le> n" "m + n \<le> length t"
    and v: "v ! (n - 1) \<noteq> 0" "uval v < W ^ n" "W ^ (n - 1) \<le> uval v" and t: "uval t < W ^ (m + n)"
  shows "UInt_Div3_Division t v rem m n = Some (utab (length t) (uval t div uval v),
    put_remainder rem (utab (length t) (uval t mod uval v)))"
proof -
  let ?N = "length t"
  have n0: "0 < n" "n \<le> ?N" using n by simp_all
  obtain d where d: "d < 64" "uval v * 2 ^ d < W ^ n" "UInt_Div3_Normalize t v n =
      Some (of_nat (uval t * 2 ^ d div W ^ ?N), utab ?N (uval t * 2 ^ d), utab ?N (uval v * 2 ^ d), d)"
    using Normalize_result [OF len refl n0 v(1,2)] by blast
  let ?U = "uval t * 2 ^ d" and ?v = "utab ?N (uval v * 2 ^ d)"
  have "W ^ n \<le> W ^ ?N" using n0 by (intro W_power_mono)
  then have uv: "uval ?v = uval v * 2 ^ d" using d(2) by (intro uval_utab_exact) linarith
  have "W ^ (n - 1) * 1 \<le> uval v * 2 ^ d" using v(3) by (intro mult_le_mono) simp_all
  then have V: "uval ?v < W ^ n" "W ^ (n - 1) \<le> uval ?v" using d(2) uv by simp_all
  define u2 where "u2 = (if m + n = ?N then of_nat (?U div W ^ ?N) else utab ?N ?U ! (m + n))"
  have "(2 :: nat) ^ d \<le> W" unfolding W_def using d(1) by (intro power_increasing) simp_all
  then have "Div3_inv ?U (uval ?v) ?N n m u2 (utab ?N ?U) (replicate ?N 0)"
    using n0 n t v(3) uv u2_def by (intro Div3_inv_start [where D = "2 ^ d"]) simp_all
  from Div3_loop_result [OF _ n(1) V this] obtain t' q' where
    1: "Div3_loop ?v (?v @ [0]) n m u2 (utab ?N ?U) (replicate ?N 0) = Some (t', q')"
      "length t' = ?N" "length q' = ?N" and
    2: "uval q' = ?U div uval ?v" "uval (take n t') = ?U mod uval ?v" by auto
  have q: "uval q' = uval t div uval v" using 2(1) uv by simp
  have r: "uval (take n t') = (uval t mod uval v) * 2 ^ d" using 2(2) uv by (simp add: mod_mult_mult2)
  have q': "q' = utab ?N (uval t div uval v)" using q 1(3) utab_uval [of q'] by simp
  have un: "UInt_Div3_Unnormalize t' n d = Some (utab ?N (uval t mod uval v))"
    using n0 by (intro Unnormalize_result [OF 1(2) _ _ r]) auto
  show ?thesis
    using d(3) n(1) 1(1) un q'
    by (cases rem) (simp_all add: UInt_Div3_Division_def UInt_Div3_MakeBiggerV_def put_remainder_def
        u2_def [symmetric] Let_def)
qed

lemma Div3_zero:
  assumes "length v = length t" "t \<noteq> []" "uval v = 0"
  shows "UInt_Div3 t v rem = Some (1, t, rem)"
  using StandardTest_result(1) [OF assms] by (simp add: UInt_Div3_def)

lemma Div3_result:
  assumes "length v = length t" "t \<noteq> []" "0 < uval v"
  shows "UInt_Div3 t v rem = Some (divided (length t) (uval t) (uval v) rem)"
proof (cases "uval v < uval t")
  case False
  then obtain t' rem' where "UInt_Div_StandardTest t v rem
      = (0, FindTop_loop t (length t - 1), FindTop_loop v (length v - 1), t', rem')"
    "(0, t', rem') = divided (length t) (uval t) (uval v) rem"
    using StandardTest_result(3) [OF assms(1,2), of rem] assms(3) by (auto simp: not_less)
  then show ?thesis by (simp add: UInt_Div3_def)
next
  case True
  let ?m = "FindTop_loop t (length t - 1)" and ?n = "FindTop_loop v (length v - 1)"
  have v: "v \<noteq> []" using assms(1,2) by auto
  have test: "UInt_Div_StandardTest t v rem = (2, ?m, ?n, t, rem)"
    using StandardTest_result(2) [OF assms(1,2)] True assms(3) by simp
  show ?thesis
  proof (cases "?n = 0")
    case zero: True
    have w: "unat (v ! 0) = uval v" using FindTop_value(4) [OF v] zero by simp
    then have "v ! 0 \<noteq> 0" using assms(3) by auto
    moreover have "uval t mod uval v < W"
      using assms(3) w unat_less_W [of "v ! 0"] by (metis less_trans mod_less_divisor)
    ultimately show ?thesis
      using test zero w DivInt_result [OF assms(2), of "v ! 0" "Some 0"] assms(2)
        single_word_utab [of "length t" "uval t mod uval v"]
      by (simp add: UInt_Div3_def divided_def put_remainder_def)
  next
    case False
    have t0: "uval t \<noteq> 0" "uval v \<noteq> 0" using True assms(3) by simp_all
    have nm: "?n \<le> ?m"
      using FindTop_mono [OF assms(2) v t0] True by (meson less_asym not_le)
    have "?m < length t" using FindTop_value(1) [OF assms(2)] .
    moreover have "v ! ?n \<noteq> 0" using FindTop_value(3) [OF v] t0 by simp
    ultimately have "UInt_Div3_Division t v rem (?m - ?n) (?n + 1)
        = Some (utab (length t) (uval t div uval v), put_remainder rem (utab (length t) (uval t mod uval v)))"
      using assms(1) nm False FindTop_bounds [OF v t0(2)] FindTop_bounds(2) [OF assms(2) t0(1)]
      by (intro Div3_Division_result) simp_all
    with test False show ?thesis
      by (simp add: UInt_Div3_def divided_def)
  qed
qed

end
