(* ===== verification/UInt_Divide.thy ===== *)
theory UInt_Divide
  imports UInt_Div2 UInt_Div3
begin

text \<open>
  The dispatcher \<^verbatim>\<open>Div\<close> of \<^verbatim>\<open>ttmathuint.h\<close> and the contract its three algorithms share, the
  locale \<open>divider\<close>: on a zero divisor the status is 1 and nothing is written; on a divisor the
  algorithm can take, the status is 0, the object becomes the quotient, and the remainder is
  written when there is an object for it. The second and the third algorithm take every divisor,
  the first one those of at most half the range.
\<close>

definition UInt_Div ::
  "utable \<Rightarrow> utable \<Rightarrow> utable option \<Rightarrow> nat \<Rightarrow> (uint \<times> utable \<times> utable option) option" where
  "UInt_Div table divisor remainder algorithm =
     (if algorithm = 1 then UInt_Div1 table divisor remainder
      else if algorithm = 2 then UInt_Div2 table divisor remainder
      else UInt_Div3 table divisor remainder)"

locale divider =
  fixes divide :: "utable \<Rightarrow> utable \<Rightarrow> utable option \<Rightarrow> (uint \<times> utable \<times> utable option) option"
    and takes :: "nat \<Rightarrow> nat \<Rightarrow> bool"
  assumes by_zero: "length v = length t \<Longrightarrow> t \<noteq> [] \<Longrightarrow> uval v = 0 \<Longrightarrow>
      divide t v rem = Some (1, t, rem)"
    and by_divisor: "length v = length t \<Longrightarrow> t \<noteq> [] \<Longrightarrow> 0 < uval v \<Longrightarrow> takes (length t) (uval v) \<Longrightarrow>
      pred_option (\<lambda>r. length r = length t) rem \<Longrightarrow>
      divide t v rem = Some (divided (length t) (uval t) (uval v) rem)"
begin

text \<open>Quotient and remainder are what the division law asks for.\<close>

lemma division_law:
  assumes "length v = length t" "length r0 = length t" "t \<noteq> []" "0 < uval v" "takes (length t) (uval v)"
  shows "\<exists>q r. divide t v (Some r0) = Some (0, q, Some r) \<and> length q = length t \<and> length r = length t \<and>
    uval t = uval q * uval v + uval r \<and> uval r < uval v"
proof -
  let ?n = "length t"
  have b: "uval t div uval v < W ^ ?n" "uval t mod uval v < W ^ ?n"
    using uval_less [of t] le_less_trans [OF div_le_dividend] le_less_trans [OF mod_less_eq_dividend] by blast+
  have "divide t v (Some r0) = Some (0, utab ?n (uval t div uval v), Some (utab ?n (uval t mod uval v)))"
    using by_divisor [OF assms(1,3,4,5), of "Some r0"] assms(2) by (simp add: divided_def put_remainder_def)
  then show ?thesis using assms(4) b by (auto simp: uval_utab_exact)
qed

text \<open>The quotient does not depend on whether the caller asks for the remainder.\<close>

lemma remainder_optional:
  assumes "length v = length t" "length r0 = length t" "t \<noteq> []" "0 < uval v" "takes (length t) (uval v)"
  shows "map_option (\<lambda>(s, q, _). (s, q)) (divide t v (Some r0))
    = map_option (\<lambda>(s, q, _). (s, q)) (divide t v None)"
  using by_divisor [OF assms(1,3,4,5), of None] by_divisor [OF assms(1,3,4,5), of "Some r0"] assms(2)
  by (simp add: divided_def)

end

interpretation div1: divider UInt_Div1 "\<lambda>n v. 2 * v \<le> W ^ n"
  by unfold_locales (rule Div1_zero Div1_result; assumption)+

lemma Div2_zero_same_length:
  "length v = length t \<Longrightarrow> t \<noteq> [] \<Longrightarrow> uval v = 0 \<Longrightarrow> UInt_Div2 t v rem = Some (1, t, rem)"
  by (rule Div2_zero) auto

interpretation div2: divider UInt_Div2 "\<lambda>n v. True"
  by unfold_locales (rule Div2_zero_same_length Div2_result; assumption)+

interpretation div3: divider UInt_Div3 "\<lambda>n v. True"
  by unfold_locales (rule Div3_zero Div3_result; assumption)+

text \<open>The default algorithm, as the operators call it.\<close>

lemma Div_default_result:
  assumes "length v = length t" "t \<noteq> []" "algorithm \<noteq> 1"
  shows "UInt_Div t v rem algorithm =
    (if uval v = 0 then Some (1, t, rem)
     else Some (divided (length t) (uval t) (uval v) rem))"
  using assms Div2_result [of v t] Div3_result [of v t] Div2_zero_same_length [of v t] Div3_zero [of v t]
  by (auto simp: UInt_Div_def)

end
