(* ===== verification/UInt_Power.thy ===== *)
theory UInt_Power
  imports UInt_Divide
begin

text \<open>
  \<^verbatim>\<open>Pow\<close> (binary, from the low bits of the exponent) and \<^verbatim>\<open>Sqrt\<close> (digit by digit) of
  \<^verbatim>\<open>ttmathuint.h\<close>. Their \<^verbatim>\<open>while\<close> loops are partial functions; \<open>Pow_result\<close> and \<open>Sqrt_result\<close>
  include that they return.
\<close>

section \<open>Power\<close>

partial_function (option) Pow_loop ::
  "utable \<Rightarrow> utable \<Rightarrow> utable \<Rightarrow> uint \<Rightarrow> (uint \<times> utable) option" where
  "Pow_loop start result pow c =
     (if c = 0
      then do {
        (c, result) \<leftarrow> (if pow ! 0 AND 1 \<noteq> 0
                         then do { (d, result) \<leftarrow> UInt_Mul result start 100; Some (c + d, result) }
                         else Some (c, result));
        let (_, pow) = UInt_Rcr2_one pow 0;
        if UInt_IsZero pow then Some (c, result)
        else do {
          (d, start) \<leftarrow> UInt_Mul start start 100;
          Pow_loop start result pow (c + d)
        }
      }
      else Some (c, result))"

declare Pow_loop.simps [code]

definition UInt_Pow :: "utable \<Rightarrow> utable \<Rightarrow> (uint \<times> utable) option" where
  "UInt_Pow table pow =
     (if UInt_IsZero pow \<and> UInt_IsZero table then Some (2, table)
      else do {
        (c, result) \<leftarrow> Pow_loop table (UInt_SetOne table) pow 0;
        Some (if c = 0 then 0 else 1, result)
      })"

lemma Mul_default_result:
  assumes "length s = length t" "t \<noteq> []"
  shows "UInt_Mul t s 100 = Some (of_bool (W ^ length t \<le> uval t * uval s), utab (length t) (uval t * uval s))"
  using MulFastest_result [OF assms] by (simp add: UInt_Mul_def)

lemma and_1_table:
  assumes "t \<noteq> []"
  shows "(t ! 0 AND 1 \<noteq> 0) = odd (uval t)"
  using assms by (cases t) (simp_all add: and_1_eq_0_iff, simp add: W_def)

lemma power_halve: "(x :: nat) ^ k = x ^ (k mod 2) * (x * x) ^ (k div 2)"
proof -
  have "x ^ k = x ^ (k mod 2 + 2 * (k div 2))" by simp
  then show ?thesis by (simp only: power_add power_mult power2_eq_square)
qed

lemma Pow_loop_stop:
  assumes "c \<noteq> 0"
  shows "Pow_loop s r p c = Some (c, r)"
  using assms by (simp add: Pow_loop.simps)

lemma Pow_loop_value:
  assumes "0 < N"
  shows "length s = N \<Longrightarrow> length r = N \<Longrightarrow> length p = N \<Longrightarrow> 0 < uval r \<or> uval s = 0 \<Longrightarrow>
    \<exists>c r'. Pow_loop s r p 0 = Some (c, r') \<and> (c \<noteq> 0) = (W ^ N \<le> uval r * uval s ^ uval p) \<and>
      (uval r * uval s ^ uval p < W ^ N \<longrightarrow> r' = utab N (uval r * uval s ^ uval p))"
proof (induction "uval p" arbitrary: s r p rule: less_induct)
  case less
  let ?s = "uval s" and ?r = "uval r" and ?k = "uval p"
  let ?p = "utab N (?k div 2)" and ?r1 = "?r * ?s ^ (?k mod 2)"
  have ne: "p \<noteq> []" "r \<noteq> []" "s \<noteq> []" using less.prems assms by auto
  have "?k div 2 < W ^ N" using uval_less [of p] less.prems(3) by (meson div_le_dividend le_less_trans)
  then have up: "uval ?p = ?k div 2" by (rule uval_utab_exact)
  have rcr: "snd (UInt_Rcr2_one p 0) = ?p" using less.prems(3) by (simp add: Rcr2_one_result)
  have pow: "?r * ?s ^ ?k = ?r1 * (?s * ?s) ^ (?k div 2)"
    by (subst power_halve) (simp add: mult.assoc)
  have first: "(if p ! 0 AND 1 \<noteq> 0
        then do { (d, result) \<leftarrow> UInt_Mul r s 100; Some (0 + d, result) }
        else Some (0, r)) = Some (of_bool (W ^ N \<le> ?r1), utab N ?r1)"
  proof (cases "odd ?k")
    case True
    then show ?thesis
      using Mul_default_result [of s r] ne less.prems by (simp add: and_1_table odd_iff_mod_2_eq_one)
  next
    case False
    moreover have "\<not> W ^ N \<le> ?r" using uval_less [of r] less.prems(2) by simp
    ultimately show ?thesis
      using ne less.prems utab_uval [of r] by (simp add: and_1_table even_iff_mod_2_eq_zero)
  qed
  note unfold = Pow_loop.simps [of s r p 0, unfolded first]
  show ?case
  proof (cases "?k div 2 = 0")
    case True
    then have "?r * ?s ^ ?k = ?r1" unfolding pow by simp
    then show ?thesis using unfold rcr up True by (auto simp: case_prod_beta)
  next
    case False
    then have k: "?k div 2 < ?k" by simp
    let ?s1 = "utab N (?s * ?s)"
    have sq: "UInt_Mul s s 100 = Some (of_bool (W ^ N \<le> ?s * ?s), ?s1)"
      using Mul_default_result [of s s] ne less.prems by simp
    have run: "Pow_loop s r p 0
        = Pow_loop ?s1 (utab N ?r1) ?p (of_bool (W ^ N \<le> ?r1) + of_bool (W ^ N \<le> ?s * ?s))"
      using unfold rcr up False sq by (simp add: case_prod_beta)
    show ?thesis
    proof (cases "W ^ N \<le> ?r1 \<or> W ^ N \<le> ?s * ?s")
      case True
      have "0 < W ^ N" by simp
      have s0: "0 < ?s"
      proof (rule ccontr)
        assume "\<not> 0 < ?s"
        then have "?s = 0" by simp
        with True show False using uval_less [of r] less.prems(2)
          by (cases "odd ?k") (auto simp: odd_iff_mod_2_eq_one even_iff_mod_2_eq_zero)
      qed
      then have r0: "0 < ?r1" using less.prems(4) by simp
      have "?r1 \<le> ?r1 * (?s * ?s) ^ (?k div 2)" "?s * ?s \<le> ?r1 * (?s * ?s) ^ (?k div 2)"
      proof -
        have "1 \<le> (?s * ?s) ^ (?k div 2)" using s0 by (simp add: Suc_le_eq)
        then show "?r1 \<le> ?r1 * (?s * ?s) ^ (?k div 2)" by simp
        have "(?s * ?s) ^ 1 \<le> (?s * ?s) ^ (?k div 2)"
          using s0 False by (intro power_increasing) (simp_all add: Suc_le_eq)
        then have "1 * (?s * ?s) \<le> ?r1 * (?s * ?s) ^ (?k div 2)"
          using r0 by (intro mult_le_mono) (simp_all add: Suc_le_eq)
        then show "?s * ?s \<le> ?r1 * (?s * ?s) ^ (?k div 2)" by simp
      qed
      then have big: "W ^ N \<le> ?r * ?s ^ ?k" unfolding pow using True by linarith
      have "(of_bool (W ^ N \<le> ?r1) + of_bool (W ^ N \<le> ?s * ?s) :: uint) \<noteq> 0" using True by auto
      with run Pow_loop_stop big show ?thesis by auto
    next
      case small: False
      then have u: "uval ?s1 = ?s * ?s" "uval (utab N ?r1) = ?r1" by (simp_all add: uval_utab_exact)
      have "0 < uval (utab N ?r1) \<or> uval ?s1 = 0" using u less.prems(4) by auto
      with less.hyps [of ?p ?s1 "utab N ?r1"] up k u run small show ?thesis
        unfolding pow by simp
    qed
  qed
qed

lemma Pow_result:
  assumes "length p = length t" "t \<noteq> []"
  shows "uval p = 0 \<and> uval t = 0 \<Longrightarrow> UInt_Pow t p = Some (2, t)"
    and "\<not> (uval p = 0 \<and> uval t = 0) \<Longrightarrow>
      \<exists>r. UInt_Pow t p = Some (of_bool (W ^ length t \<le> uval t ^ uval p), r) \<and>
        (uval t ^ uval p < W ^ length t \<longrightarrow> r = utab (length t) (uval t ^ uval p))"
proof -
  show "uval p = 0 \<and> uval t = 0 \<Longrightarrow> UInt_Pow t p = Some (2, t)" by (simp add: UInt_Pow_def)
  assume "\<not> (uval p = 0 \<and> uval t = 0)"
  with Pow_loop_value [of "length t" t "UInt_SetOne t" p] assms SetOne_value [OF assms(2)]
  show "\<exists>r. UInt_Pow t p = Some (of_bool (W ^ length t \<le> uval t ^ uval p), r) \<and>
      (uval t ^ uval p < W ^ length t \<longrightarrow> r = utab (length t) (uval t ^ uval p))"
    by (auto simp: UInt_Pow_def)
qed

section \<open>Square root\<close>

partial_function (option) Sqrt_shift :: "utable \<Rightarrow> utable \<Rightarrow> utable option" where
  "Sqrt_shift b v =
     (if UInt_greater b v then do { (_, b) \<leftarrow> UInt_Rcr b 2 0; Sqrt_shift b v } else Some b)"

declare Sqrt_shift.simps [code]

partial_function (option) Sqrt_loop :: "utable \<Rightarrow> utable \<Rightarrow> utable \<Rightarrow> utable option" where
  "Sqrt_loop table v b =
     (if UInt_IsZero b then Some table
      else let temp = snd (UInt_Add table b 0)
           in do {
             (table, v) \<leftarrow>
               (if UInt_greater_equal v temp
                then let v = snd (UInt_Sub v temp 0)
                     in do { (_, table) \<leftarrow> UInt_Rcr table 1 0; Some (snd (UInt_Add table b 0), v) }
                else do { (_, table) \<leftarrow> UInt_Rcr table 1 0; Some (table, v) });
             (_, b) \<leftarrow> UInt_Rcr b 2 0;
             Sqrt_loop table v b
           })"

declare Sqrt_loop.simps [code]

definition UInt_Sqrt :: "utable \<Rightarrow> utable option" where
  "UInt_Sqrt table =
     (if UInt_IsZero table then Some table
      else let v = table;
               table = UInt_SetZero table;
               b = (UInt_SetZero table)[length table - 1 := drop_bit 1 TTMATH_UINT_HIGHEST_BIT]
           in do {
             b \<leftarrow> Sqrt_shift b v;
             Sqrt_loop table v b
           })"

lemma Rcr_plain:
  assumes "length t = N" "0 < N"
  shows "\<exists>c. UInt_Rcr t b 0 = Some (c, utab N (uval t div 2 ^ b))"
proof -
  have "t \<noteq> []" using assms by auto
  from Rcr_result [OF this, of b 0] show ?thesis using assms(1) by (simp add: shr_value_def fill_bits_def)
qed

text \<open>With \<open>K\<close> digits of the root left the current bit is \<open>4 ^ (K - 1)\<close>, and 0 at the end.\<close>

definition sqrt_bit :: "nat \<Rightarrow> nat" where
  "sqrt_bit K = 4 ^ K div 4"

lemma sqrt_bit_simps [simp]: "sqrt_bit 0 = 0" "sqrt_bit (Suc K) = 4 ^ K"
  by (simp_all add: sqrt_bit_def)

lemma sqrt_bit_div: "sqrt_bit (Suc K) div 4 = sqrt_bit K"
  by (simp add: sqrt_bit_def)

lemma four_power: "(4 :: nat) ^ K = 2 ^ K * 2 ^ K"
  by (simp flip: power_mult_distrib)

lemma W_power_four: "W ^ N = 4 ^ (32 * N)"
proof -
  have "(4 :: nat) ^ (32 * N) = (2 ^ 2) ^ (32 * N)" by simp
  also have "\<dots> = 2 ^ (64 * N)" by (simp only: power_mult [symmetric]) simp
  finally show ?thesis by (simp add: W_power)
qed

lemma sqrt_bit_less: "K \<le> 32 * N \<Longrightarrow> sqrt_bit K < W ^ N"
proof -
  assume "K \<le> 32 * N"
  then have "(4 :: nat) ^ K \<le> W ^ N" unfolding W_power_four by (intro power_increasing) simp_all
  moreover have "sqrt_bit K < 4 ^ K" by (simp add: sqrt_bit_def)
  ultimately show ?thesis by linarith
qed

lemma Sqrt_shift_value:
  assumes "length v = N" "0 < N" "0 < uval v"
  shows "0 < K \<Longrightarrow> K \<le> 32 * N \<Longrightarrow> uval v < 4 ^ K \<Longrightarrow>
    \<exists>J. Sqrt_shift (utab N (sqrt_bit K)) v = Some (utab N (sqrt_bit J)) \<and> 0 < J \<and> J \<le> 32 * N \<and>
      uval v < 4 ^ J \<and> sqrt_bit J \<le> uval v"
proof (induction K)
  case (Suc K)
  let ?b = "utab N (sqrt_bit (Suc K))"
  have ub: "uval ?b = sqrt_bit (Suc K)" using sqrt_bit_less [OF Suc.prems(2)] by (rule uval_utab_exact)
  have gt: "UInt_greater ?b v = (uval v < sqrt_bit (Suc K))"
    using Cmp_values(2) [of v ?b] assms(1) ub by (simp add: UInt_greater_def)
  show ?case
  proof (cases "uval v < 4 ^ K")
    case True
    with assms(3) have K: "0 < K" by (cases K) auto
    obtain c where "UInt_Rcr ?b 2 0 = Some (c, utab N (sqrt_bit K))"
      using Rcr_plain [of ?b N 2] assms(2) ub sqrt_bit_div [of K] by auto
    then have "Sqrt_shift ?b v = Sqrt_shift (utab N (sqrt_bit K)) v"
      using gt True by (subst Sqrt_shift.simps) simp
    with Suc.IH [OF K _ True] Suc.prems(2) show ?thesis by simp
  next
    case False
    then have "Sqrt_shift ?b v = Some ?b" using gt by (subst Sqrt_shift.simps) simp
    with False Suc.prems show ?thesis by (intro exI [of _ "Suc K"]) simp
  qed
qed simp

text \<open>One digit of the root.\<close>

lemma sqrt_digit:
  fixes root x :: nat
  assumes "root * root \<le> x" "x < (root + 2 ^ Suc K) * (root + 2 ^ Suc K)"
  shows "(root * 2 ^ Suc K + 4 ^ K \<le> x - root * root) = ((root + 2 ^ K) * (root + 2 ^ K) \<le> x)"
    and "x - root * root - (root * 2 ^ Suc K + 4 ^ K) = x - (root + 2 ^ K) * (root + 2 ^ K)"
    and "root * 2 ^ Suc K div 2 + 4 ^ K = (root + 2 ^ K) * 2 ^ K"
    and "root * 2 ^ Suc K div 2 = root * 2 ^ K"
proof -
  have e: "(root + 2 ^ K) * (root + 2 ^ K) = root * root + (root * 2 ^ Suc K + 4 ^ K)"
    by (simp add: four_power algebra_simps)
  show "(root * 2 ^ Suc K + 4 ^ K \<le> x - root * root) = ((root + 2 ^ K) * (root + 2 ^ K) \<le> x)"
    unfolding e using assms(1) by linarith
  show "x - root * root - (root * 2 ^ Suc K + 4 ^ K) = x - (root + 2 ^ K) * (root + 2 ^ K)"
    unfolding e by simp
  show h: "root * 2 ^ Suc K div 2 = root * 2 ^ K" by simp
  show "root * 2 ^ Suc K div 2 + 4 ^ K = (root + 2 ^ K) * 2 ^ K"
    unfolding h by (simp add: four_power algebra_simps)
qed

lemma sqrt_temp_less:
  fixes root x :: nat
  assumes "root * root \<le> x" "x < W ^ N" "K < 32 * N" "root = 0 \<or> 2 ^ Suc K \<le> root"
  shows "root * 2 ^ Suc K + 4 ^ K < W ^ N"
proof -
  let ?M = "2 ^ (32 * N) :: nat"
  have M: "W ^ N = ?M * ?M" by (simp add: W_power_four four_power)
  have root: "root < ?M"
  proof (rule ccontr)
    assume "\<not> root < ?M"
    then have "?M * ?M \<le> root * root" by (intro mult_le_mono) simp_all
    with assms(1,2) M show False by linarith
  qed
  show ?thesis
  proof (cases "root = 0")
    case True
    then show ?thesis using assms(3) unfolding W_power_four by simp
  next
    case False
    with assms(4) have "2 ^ Suc K \<le> root" by simp
    with root have "(2 :: nat) ^ Suc K < 2 ^ (32 * N)" by linarith
    then have "Suc K < 32 * N" by (rule power_less_imp_less_exp [rotated]) simp
    then have "(2 :: nat) ^ Suc (Suc K) \<le> ?M" by (intro power_increasing) simp_all
    then have h: "2 * (2 ^ Suc K) \<le> ?M" by simp
    have "root * 2 ^ Suc K \<le> ?M * 2 ^ Suc K" using root by (intro mult_le_mono1) simp
    moreover have "(4 :: nat) ^ K < ?M * 2 ^ Suc K"
    proof -
      have "(4 :: nat) ^ K = 2 ^ K * 2 ^ K" by (rule four_power)
      also have "\<dots> < ?M * 2 ^ Suc K" using \<open>Suc K < 32 * N\<close>
        by (intro mult_strict_mono power_strict_increasing) simp_all
      finally show ?thesis .
    qed
    moreover have "?M * 2 ^ Suc K + ?M * 2 ^ Suc K \<le> ?M * ?M"
      using mult_le_mono2 [OF h, of ?M] by (simp add: algebra_simps)
    ultimately show ?thesis unfolding M by linarith
  qed
qed

lemma Sqrt_loop_value:
  assumes "0 < N" "x < W ^ N"
  shows "K \<le> 32 * N \<Longrightarrow> root * root \<le> x \<Longrightarrow> x < (root + 2 ^ K) * (root + 2 ^ K) \<Longrightarrow>
    root = 0 \<or> 2 ^ K \<le> root \<Longrightarrow>
    \<exists>r. Sqrt_loop (utab N (root * 2 ^ K)) (utab N (x - root * root)) (utab N (sqrt_bit K))
        = Some (utab N r) \<and> r * r \<le> x \<and> x < (r + 1) * (r + 1)"
proof (induction K arbitrary: root)
  case 0
  then show ?case by (intro exI [of _ root]) (simp add: Sqrt_loop.simps)
next
  case (Suc K)
  let ?t = "utab N (root * 2 ^ Suc K)" and ?v = "utab N (x - root * root)" and ?b = "utab N (sqrt_bit (Suc K))"
  let ?s = "root * 2 ^ Suc K + 4 ^ K"
  have K: "K < 32 * N" using Suc.prems(1) by simp
  have s: "?s < W ^ N" by (rule sqrt_temp_less [OF Suc.prems(2) assms(2) K Suc.prems(4)])
  have u: "uval ?t = root * 2 ^ Suc K" "uval ?v = x - root * root" "uval ?b = 4 ^ K"
    using s assms(2) by (simp_all add: uval_utab_exact)
  have ne: "?t \<noteq> []" "?v \<noteq> []" "?b \<noteq> []" using assms(1) by simp_all
  have nz: "\<not> UInt_IsZero ?b" using u(3) by simp
  have temp: "snd (UInt_Add ?t ?b 0) = utab N ?s"
    using Add_result [OF _ ne(1), of ?b 0] u by (simp add: carry_result_def)
  have us: "uval (utab N ?s) = ?s" using s by (rule uval_utab_exact)
  note digit = sqrt_digit [OF Suc.prems(2,3)]
  have ge: "UInt_greater_equal ?v (utab N ?s) = ((root + 2 ^ K) * (root + 2 ^ K) \<le> x)"
    using Cmp_values(5) [of "utab N ?s" ?v] u us digit(1) by (simp add: UInt_greater_equal_def)
  obtain c1 where r1: "UInt_Rcr ?t 1 0 = Some (c1, utab N (root * 2 ^ K))"
    using Rcr_plain [of ?t N 1] assms(1) u(1) by auto
  obtain c2 where r2: "UInt_Rcr ?b 2 0 = Some (c2, utab N (sqrt_bit K))"
    using Rcr_plain [of ?b N 2] assms(1) u(3) sqrt_bit_div [of K] by auto
  show ?case
  proof (cases "(root + 2 ^ K) * (root + 2 ^ K) \<le> x")
    case True
    let ?r = "root + 2 ^ K"
    have "root * 2 ^ K < W ^ N" using s by simp
    then have "uval (utab N (root * 2 ^ K)) = root * 2 ^ K" by (rule uval_utab_exact)
    then have add: "snd (UInt_Add (utab N (root * 2 ^ K)) ?b 0) = utab N (?r * 2 ^ K)"
      using Add_result [of ?b "utab N (root * 2 ^ K)" 0] u(3) assms(1) digit(3,4)
      by (simp add: carry_result_def)
    have sub: "snd (UInt_Sub ?v (utab N ?s) 0) = utab N (x - ?r * ?r)"
      using Sub_result [OF _ ne(2), of "utab N ?s" 0] u(2) us digit(1,2) True
      by (simp add: borrow_result_exact)
    have "Sqrt_loop ?t ?v ?b = Sqrt_loop (utab N (?r * 2 ^ K)) (utab N (x - ?r * ?r)) (utab N (sqrt_bit K))"
      using nz temp ge True add sub r1 r2 by (subst Sqrt_loop.simps) simp
    moreover have "x < (?r + 2 ^ K) * (?r + 2 ^ K)" using Suc.prems(3) by (simp add: mult_2 add.assoc)
    ultimately show ?thesis using Suc.IH [of ?r] True K by simp
  next
    case False
    have "Sqrt_loop ?t ?v ?b = Sqrt_loop (utab N (root * 2 ^ K)) ?v (utab N (sqrt_bit K))"
      using nz temp ge False r1 r2 by (subst Sqrt_loop.simps) simp
    moreover have "root = 0 \<or> 2 ^ K \<le> root" using Suc.prems(4) by auto
    ultimately show ?thesis using Suc.IH [of root] Suc.prems(2) False K by (simp add: not_le)
  qed
qed

lemma Sqrt_start:
  assumes "0 < N"
  shows "(replicate N 0)[N - 1 := drop_bit 1 TTMATH_UINT_HIGHEST_BIT] = utab N (sqrt_bit (32 * N))"
proof (rule utab_eqI)
  have h: "unat (drop_bit 1 TTMATH_UINT_HIGHEST_BIT) = 2 ^ 62"
    unfolding drop_bit_uint by (simp add: TTMATH_UINT_HIGHEST_BIT_def)
  obtain M where N: "N = Suc M" using assms by (cases N) auto
  have "uval ((replicate N 0)[N - 1 := drop_bit 1 TTMATH_UINT_HIGHEST_BIT]) = W ^ (N - 1) * 2 ^ 62"
    using uval_update [of "N - 1" "replicate N 0" "drop_bit 1 TTMATH_UINT_HIGHEST_BIT"] h assms by simp
  also have "\<dots> = W ^ M * 2 ^ 62" by (simp add: N)
  also have "\<dots> = sqrt_bit (32 * N)"
  proof -
    have "sqrt_bit (32 * N) = 4 ^ (32 * M + 31)" unfolding N sqrt_bit_def
      by (simp add: power_add)
    also have "\<dots> = W ^ M * 2 ^ 62" unfolding W_power_four power_add by simp
    finally show ?thesis by simp
  qed
  also have "\<dots> = sqrt_bit (32 * N) mod W ^ N" using sqrt_bit_less [of "32 * N" N] by simp
  finally show "uval ((replicate N 0)[N - 1 := drop_bit 1 TTMATH_UINT_HIGHEST_BIT])
    = sqrt_bit (32 * N) mod W ^ N" .
qed simp

lemma Sqrt_result:
  assumes "t \<noteq> []"
  shows "\<exists>r. UInt_Sqrt t = Some (utab (length t) r) \<and> r * r \<le> uval t \<and> uval t < (r + 1) * (r + 1)"
proof (cases "uval t = 0")
  case True
  then show ?thesis using utab_uval [of t] by (intro exI [of _ 0]) (simp add: UInt_Sqrt_def)
next
  case False
  let ?N = "length t"
  have N: "0 < ?N" using assms by simp
  have x: "uval t < W ^ ?N" by (rule uval_less)
  obtain J where J: "Sqrt_shift (utab ?N (sqrt_bit (32 * ?N))) t = Some (utab ?N (sqrt_bit J))"
    "J \<le> 32 * ?N" "uval t < 4 ^ J"
    using Sqrt_shift_value [OF refl N, of "32 * ?N"] False N x by (auto simp: W_power_four)
  have "uval t < (0 + 2 ^ J) * (0 + 2 ^ J)" using J(3) by (simp add: four_power)
  with Sqrt_loop_value [OF N x J(2), of 0] J(1) False Sqrt_start [OF N] show ?thesis
    by (simp add: UInt_Sqrt_def)
qed

end
