(* ===== verification/UInt_Convert.thy ===== *)
theory UInt_Convert
  imports UInt_Power
begin

text \<open>
  Conversions between \<^verbatim>\<open>UInt\<close> and other sizes and machine types on a 64-bit platform, the
  constructors, the assignment operators and the arithmetic, bitwise and shift operators of
  \<^verbatim>\<open>ttmathuint.h\<close>. A method takes the table of the object before the call; for a constructor that
  is the storage of the new object, whose words are not initialised. A method with a carry returns
  the pair of the carry and the new table; an operator returns the new table, and a postfix
  operator the pair of the returned copy and the new table. \<^verbatim>\<open>int\<close> is \<open>32 word\<close>, read as signed.
\<close>

section \<open>From other types\<close>

definition UInt_FromUInt_UInt :: "utable \<Rightarrow> utable \<Rightarrow> uint \<times> utable" where
  "UInt_FromUInt_UInt table p =
     (let value_size = length table; argument_size = length p;
          min_size = (if value_size < argument_size then value_size else argument_size);
          low = take min_size p
      in if value_size > argument_size then (0, low @ replicate (value_size - argument_size) 0)
         else (if all_zero (drop min_size p) then 0 else 1, low))"

definition UInt_FromInt_UInt :: "utable \<Rightarrow> utable \<Rightarrow> uint \<times> utable" where
  "UInt_FromInt_UInt table p = UInt_FromUInt_UInt table p"

definition UInt_FromUInt :: "utable \<Rightarrow> uint \<Rightarrow> uint \<times> utable" where
  "UInt_FromUInt table v = (0, v # replicate (length table - 1) 0)"

definition UInt_FromInt_uint :: "utable \<Rightarrow> uint \<Rightarrow> uint \<times> utable" where
  "UInt_FromInt_uint table v = UInt_FromUInt table v"

definition UInt_FromInt :: "utable \<Rightarrow> sint \<Rightarrow> uint \<times> utable" where
  "UInt_FromInt table v =
     (let (c, table) = UInt_FromUInt table v in (if c \<noteq> 0 \<or> v <s 0 then 1 else 0, table))"

definition UInt_FromUInt_32 :: "utable \<Rightarrow> uint32 \<Rightarrow> uint \<times> utable" where
  "UInt_FromUInt_32 table i = UInt_FromUInt table (ucast i)"

definition UInt_FromInt_unsigned32 :: "utable \<Rightarrow> uint32 \<Rightarrow> uint \<times> utable" where
  "UInt_FromInt_unsigned32 table i = UInt_FromUInt table (ucast i)"

definition UInt_FromInt_32 :: "utable \<Rightarrow> uint32 \<Rightarrow> uint \<times> utable" where
  "UInt_FromInt_32 table i = UInt_FromInt table (scast i)"

definition UInt_assign_UInt :: "utable \<Rightarrow> utable \<Rightarrow> utable" where
  "UInt_assign_UInt table p = snd (UInt_FromUInt_UInt table p)"

definition UInt_assign :: "utable \<Rightarrow> utable \<Rightarrow> utable" where
  "UInt_assign table p = take (length table) p"

definition UInt_assign_uint :: "utable \<Rightarrow> uint \<Rightarrow> utable" where
  "UInt_assign_uint table i = snd (UInt_FromUInt table i)"

definition UInt_new_uint :: "utable \<Rightarrow> uint \<Rightarrow> utable" where
  "UInt_new_uint table i = snd (UInt_FromUInt table i)"

definition UInt_assign_sint :: "utable \<Rightarrow> sint \<Rightarrow> utable" where
  "UInt_assign_sint table i = snd (UInt_FromInt table i)"

definition UInt_new_sint :: "utable \<Rightarrow> sint \<Rightarrow> utable" where
  "UInt_new_sint table i = snd (UInt_FromInt table i)"

definition UInt_assign_unsigned32 :: "utable \<Rightarrow> uint32 \<Rightarrow> utable" where
  "UInt_assign_unsigned32 table i = snd (UInt_FromUInt_32 table i)"

definition UInt_new_unsigned32 :: "utable \<Rightarrow> uint32 \<Rightarrow> utable" where
  "UInt_new_unsigned32 table i = snd (UInt_FromUInt_32 table i)"

definition UInt_assign_int32 :: "utable \<Rightarrow> uint32 \<Rightarrow> utable" where
  "UInt_assign_int32 table i = snd (UInt_FromInt_32 table i)"

definition UInt_new_int32 :: "utable \<Rightarrow> uint32 \<Rightarrow> utable" where
  "UInt_new_int32 table i = snd (UInt_FromInt_32 table i)"

definition UInt_new_copy :: "utable \<Rightarrow> utable \<Rightarrow> utable" where
  "UInt_new_copy table u = take (length table) u"

definition UInt_new_UInt :: "utable \<Rightarrow> utable \<Rightarrow> utable" where
  "UInt_new_UInt table u = snd (UInt_FromUInt_UInt table u)"

lemma FromUInt_UInt_result:
  "UInt_FromUInt_UInt t p = (of_bool (W ^ length t \<le> uval p), utab (length t) (uval p))"
proof (cases "length t > length p")
  case True
  have "uval p < W ^ length t" using True by (intro uval_less_le) simp
  moreover from this have "p @ replicate (length t - length p) 0 = utab (length t) (uval p)"
    using True by (intro utab_eqI) simp_all
  ultimately show ?thesis using True by (simp add: UInt_FromUInt_UInt_def Let_def)
next
  case False
  have "take (length t) p = utab (length t) (uval p)"
    using False by (intro utab_eqI) (simp_all add: uval_take)
  moreover have "all_zero (drop (length t) p) = (uval p < W ^ length t)"
    by (simp add: all_zero_iff uval_drop div_eq_0_iff)
  ultimately show ?thesis using False by (auto simp: UInt_FromUInt_UInt_def Let_def)
qed

lemma FromUInt_result:
  assumes "t \<noteq> []"
  shows "UInt_FromUInt t v = (0, utab (length t) (unat v))"
proof -
  have "unat v < W ^ length t" using assms W_power_mono [of 1 "length t"] unat_less_W [of v]
    by (simp add: Suc_le_eq del: unat_less_W)
  then have "v # replicate (length t - 1) 0 = utab (length t) (unat v)"
    using assms by (intro utab_eqI) (simp_all add: Suc_le_eq)
  then show ?thesis by (simp add: UInt_FromUInt_def)
qed

lemma sless_0_iff: "(v :: uint) <s 0 \<longleftrightarrow> bit v 63"
  by (simp add: word_sless_alt sint_uint signed_take_bit_eq_if_positive signed_take_bit_negative_iff
      bit_uint_iff)

lemma FromInt_result:
  assumes "t \<noteq> []"
  shows "UInt_FromInt t v = (of_bool (W div 2 \<le> unat v), utab (length t) (unat v))"
  using FromUInt_result [OF assms, of v] by (simp add: UInt_FromInt_def sless_0_iff bit_63_iff)

section \<open>To machine types\<close>

definition UInt_ToUInt :: "utable \<Rightarrow> uint" where
  "UInt_ToUInt table = table ! 0"

definition UInt_ToUInt_uint :: "utable \<Rightarrow> uint \<times> uint" where
  "UInt_ToUInt_uint table = (if all_zero (drop 1 table) then 0 else 1, table ! 0)"

definition UInt_ToInt_uint :: "utable \<Rightarrow> uint \<times> uint" where
  "UInt_ToInt_uint table = UInt_ToUInt_uint table"

definition UInt_ToInt_sint :: "utable \<Rightarrow> uint \<times> sint" where
  "UInt_ToInt_sint table =
     (let result = table ! 0
      in if result AND TTMATH_UINT_HIGHEST_BIT \<noteq> 0 then (1, result)
         else (if all_zero (drop 1 table) then 0 else 1, result))"

definition UInt_ToUInt_32 :: "utable \<Rightarrow> uint \<times> uint32" where
  "UInt_ToUInt_32 table =
     (let result = ucast (table ! 0)
      in if drop_bit 32 (table ! 0) \<noteq> 0 then (1, result)
         else (if all_zero (drop 1 table) then 0 else 1, result))"

definition UInt_ToInt_unsigned32 :: "utable \<Rightarrow> uint \<times> uint32" where
  "UInt_ToInt_unsigned32 table = UInt_ToUInt_32 table"

definition UInt_ToInt_32 :: "utable \<Rightarrow> uint \<times> uint32" where
  "UInt_ToInt_32 table =
     (let (c, result) = UInt_ToUInt_32 table in (if c \<noteq> 0 \<or> result <s 0 then 1 else 0, result))"

lemma low_word:
  assumes "t \<noteq> []"
  shows "t ! 0 = of_nat (uval t)" "uval (drop 1 t) = uval t div W"
    "(uval (drop 1 t) = 0) = (uval t < W)" "uval t < W \<Longrightarrow> unat (t ! 0) = uval t"
proof -
  show "t ! 0 = of_nat (uval t)" using assms by (cases t) simp_all
  show d: "uval (drop 1 t) = uval t div W" using uval_drop [of 1 t] by simp
  show "(uval (drop 1 t) = 0) = (uval t < W)" unfolding d by (simp add: div_eq_0_iff)
  show "uval t < W \<Longrightarrow> unat (t ! 0) = uval t" using uval_nth [of 0 t] assms by simp
qed

lemma ToUInt_result:
  assumes "t \<noteq> []"
  shows "UInt_ToUInt_uint t = (of_bool (W \<le> uval t), of_nat (uval t))"
  using low_word [OF assms] by (simp add: UInt_ToUInt_uint_def all_zero_iff not_less)

lemma ToInt_sint_result:
  assumes "t \<noteq> []"
  shows "UInt_ToInt_sint t = (of_bool (W div 2 \<le> uval t), of_nat (uval t))"
proof -
  have "W div 2 \<le> uval t" if "W \<le> uval t" using that by linarith
  then show ?thesis
    using low_word [OF assms] and_highest_bit_iff [of "t ! 0"] bit_63_iff [of "t ! 0"]
    by (cases "uval t < W") (auto simp: UInt_ToInt_sint_def all_zero_iff Let_def)
qed

lemma ToUInt_32_result:
  assumes "t \<noteq> []"
  shows "UInt_ToUInt_32 t = (of_bool (2 ^ 32 \<le> uval t), of_nat (uval t))"
proof -
  have c: "(ucast (of_nat n :: uint) :: uint32) = of_nat n" for n
    by transfer simp
  have "2 ^ 32 \<le> uval t" if "W \<le> uval t" using that by (simp add: W_def)
  moreover have "(drop_bit 32 (t ! 0) \<noteq> 0) = (2 ^ 32 \<le> unat (t ! 0))"
    using drop_bit_uint [of 32 "t ! 0"]
    by (metis div_eq_0_iff not_le power_not_zero unat_eq_0 zero_neq_numeral)
  moreover have "(ucast (t ! 0) :: uint32) = of_nat (uval t)" using low_word(1) [OF assms] c by simp
  ultimately show ?thesis
    using low_word(3,4) [OF assms]
    by (cases "uval t < W") (auto simp: UInt_ToUInt_32_def all_zero_iff Let_def)
qed

text \<open>A value survives the way into a machine word and back, exactly when no carry is reported.\<close>

lemma ToUInt_FromUInt:
  assumes "t \<noteq> []"
  shows "UInt_ToUInt_uint (snd (UInt_FromUInt t v)) = (0, v)"
proof -
  have "unat v < W ^ length t" using assms W_power_mono [of 1 "length t"] unat_less_W [of v]
    by (simp add: Suc_le_eq del: unat_less_W)
  moreover have "\<not> W \<le> unat v" by (simp only: not_le unat_less_W simp_thms)
  ultimately show ?thesis
    using ToUInt_result [of "utab (length t) (unat v)"] assms FromUInt_result [OF assms, of v]
    by (simp add: uval_utab_exact)
qed

section \<open>Operators\<close>

definition UInt_minus :: "utable \<Rightarrow> utable \<Rightarrow> utable" where
  "UInt_minus table p2 = (let temp = table in snd (UInt_Sub temp p2 0))"

definition UInt_minus_assign :: "utable \<Rightarrow> utable \<Rightarrow> utable" where
  "UInt_minus_assign table p2 = snd (UInt_Sub table p2 0)"

definition UInt_plus :: "utable \<Rightarrow> utable \<Rightarrow> utable" where
  "UInt_plus table p2 = (let temp = table in snd (UInt_Add temp p2 0))"

definition UInt_plus_assign :: "utable \<Rightarrow> utable \<Rightarrow> utable" where
  "UInt_plus_assign table p2 = snd (UInt_Add table p2 0)"

definition UInt_times :: "utable \<Rightarrow> utable \<Rightarrow> utable option" where
  "UInt_times table p2 = (let temp = table in map_option snd (UInt_Mul temp p2 100))"

definition UInt_times_assign :: "utable \<Rightarrow> utable \<Rightarrow> utable option" where
  "UInt_times_assign table p2 = map_option snd (UInt_Mul table p2 100)"

definition UInt_divide :: "utable \<Rightarrow> utable \<Rightarrow> utable option" where
  "UInt_divide table p2 =
     (let temp = table in map_option (\<lambda>(_, q, _). q) (UInt_Div temp p2 None 3))"

definition UInt_divide_assign :: "utable \<Rightarrow> utable \<Rightarrow> utable option" where
  "UInt_divide_assign table p2 = map_option (\<lambda>(_, q, _). q) (UInt_Div table p2 None 3)"

text \<open>\<open>remainder\<close> is the storage of the local object, which no constructor initialises.\<close>

definition UInt_modulo :: "utable \<Rightarrow> utable \<Rightarrow> utable \<Rightarrow> utable option" where
  "UInt_modulo table p2 remainder =
     (let temp = table in map_option (\<lambda>(_, _, r). the r) (UInt_Div temp p2 (Some remainder) 3))"

definition UInt_modulo_assign :: "utable \<Rightarrow> utable \<Rightarrow> utable \<Rightarrow> utable option" where
  "UInt_modulo_assign table p2 remainder =
     map_option (\<lambda>(_, q, r). UInt_assign q (the r)) (UInt_Div table p2 (Some remainder) 3)"

definition UInt_pre_inc :: "utable \<Rightarrow> utable option" where
  "UInt_pre_inc table = map_option snd (UInt_AddOne table)"

definition UInt_post_inc :: "utable \<Rightarrow> (utable \<times> utable) option" where
  "UInt_post_inc table = (let temp = table in map_option (\<lambda>(_, t). (temp, t)) (UInt_AddOne table))"

definition UInt_pre_dec :: "utable \<Rightarrow> utable option" where
  "UInt_pre_dec table = map_option snd (UInt_SubOne table)"

definition UInt_post_dec :: "utable \<Rightarrow> (utable \<times> utable) option" where
  "UInt_post_dec table = (let temp = table in map_option (\<lambda>(_, t). (temp, t)) (UInt_SubOne table))"

definition UInt_not :: "utable \<Rightarrow> utable" where
  "UInt_not table = (let temp = table in UInt_BitNot temp)"

definition UInt_and :: "utable \<Rightarrow> utable \<Rightarrow> utable" where
  "UInt_and table p2 = (let temp = table in UInt_BitAnd temp p2)"

definition UInt_and_assign :: "utable \<Rightarrow> utable \<Rightarrow> utable" where
  "UInt_and_assign table p2 = UInt_BitAnd table p2"

definition UInt_or :: "utable \<Rightarrow> utable \<Rightarrow> utable" where
  "UInt_or table p2 = (let temp = table in UInt_BitOr temp p2)"

definition UInt_or_assign :: "utable \<Rightarrow> utable \<Rightarrow> utable" where
  "UInt_or_assign table p2 = UInt_BitOr table p2"

definition UInt_xor :: "utable \<Rightarrow> utable \<Rightarrow> utable" where
  "UInt_xor table p2 = (let temp = table in UInt_BitXor temp p2)"

definition UInt_xor_assign :: "utable \<Rightarrow> utable \<Rightarrow> utable" where
  "UInt_xor_assign table p2 = UInt_BitXor table p2"

definition move_bits :: "uint32 \<Rightarrow> nat" where
  "move_bits move = unat (scast move :: uint)"

definition UInt_shift_right :: "utable \<Rightarrow> uint32 \<Rightarrow> utable option" where
  "UInt_shift_right table move =
     (let temp = table in map_option snd (UInt_Rcr temp (move_bits move) 0))"

definition UInt_shift_right_assign :: "utable \<Rightarrow> uint32 \<Rightarrow> utable option" where
  "UInt_shift_right_assign table move = map_option snd (UInt_Rcr table (move_bits move) 0)"

definition UInt_shift_left :: "utable \<Rightarrow> uint32 \<Rightarrow> utable option" where
  "UInt_shift_left table move =
     (let temp = table in map_option snd (UInt_Rcl temp (move_bits move) 0))"

definition UInt_shift_left_assign :: "utable \<Rightarrow> uint32 \<Rightarrow> utable option" where
  "UInt_shift_left_assign table move = map_option snd (UInt_Rcl table (move_bits move) 0)"

text \<open>
  The ring of the operators: on tables of one size they are addition, subtraction and
  multiplication modulo the range.
\<close>

lemma operator_values:
  assumes "length p = length t" "t \<noteq> []"
  shows "UInt_plus t p = utab (length t) (uval t + uval p)"
    and "UInt_minus t p = utab (length t) (uval t + W ^ length t - uval p)"
    and "UInt_times t p = Some (utab (length t) (uval t * uval p))"
    and "0 < uval p \<Longrightarrow> UInt_divide t p = Some (utab (length t) (uval t div uval p))"
    and "0 < uval p \<Longrightarrow> UInt_modulo t p r = Some (utab (length t) (uval t mod uval p))"
  using assms Add_result [OF assms, of 0] Sub_result [OF assms, of 0] Mul_default_result [OF assms]
    Div_default_result [OF assms, of 3]
  by (simp_all add: UInt_plus_def UInt_minus_def UInt_times_def UInt_divide_def UInt_modulo_def
      carry_result_def borrow_result_def divided_def put_remainder_def)

lemma plus_minus_inverse:
  assumes "length p = length t" "t \<noteq> []"
  shows "UInt_minus (UInt_plus t p) p = t"
proof -
  let ?n = "length t" and ?s = "uval t + uval p"
  have b: "uval p < W ^ ?n" "uval t < W ^ ?n" using uval_less_le [of p ?n] assms(1) uval_less [of t] by simp_all
  have "UInt_minus (UInt_plus t p) p = utab ?n (?s mod W ^ ?n + W ^ ?n - uval p)"
    using operator_values(1,2) [OF assms] operator_values(2) [of p "utab ?n ?s"] assms
    by (simp add: uval_utab)
  moreover have "utab ?n (?s mod W ^ ?n + W ^ ?n - uval p) = utab ?n (uval t)"
  proof (cases "?s < W ^ ?n")
    case True
    then show ?thesis using utab_add_multiple [of ?n "uval t" 1] by simp
  next
    case False
    then have "?s mod W ^ ?n = ?s - W ^ ?n" using b by (simp add: le_mod_geq)
    then show ?thesis using False b by (simp add: Nat.diff_add_assoc2)
  qed
  ultimately show ?thesis by simp
qed

lemma shift_values:
  assumes "t \<noteq> []"
  shows "UInt_shift_left t m = Some (utab (length t) (uval t * 2 ^ move_bits m))"
    and "UInt_shift_right t m = Some (utab (length t) (uval t div 2 ^ move_bits m))"
  using Rcl_result [OF assms, of "move_bits m" 0] Rcr_result [OF assms, of "move_bits m" 0]
  by (simp_all add: UInt_shift_left_def UInt_shift_right_def shl_value_def shr_value_def fill_bits_def)

lemma modulo_by_zero:
  assumes "length p = length t" "t \<noteq> []" "uval p = 0"
  shows "UInt_modulo t p r = Some r"
  using Div_default_result [OF assms(1,2), of 3] assms(3) by (simp add: UInt_modulo_def)

end
