(* ===== verification/UInt_String.thy ===== *)
theory UInt_String
  imports UInt_Convert
begin

text \<open>
  The character helpers of \<^verbatim>\<open>ttmathmisc.h\<close> and the string conversions of \<^verbatim>\<open>ttmathuint.h\<close> for
  narrow strings. A \<^verbatim>\<open>const char *\<close> is the list of the characters before the terminating zero; the
  zero is the end of the list. The capacity \<^verbatim>\<open>ToStringBase\<close> reserves (the floating-point estimate
  of the number of digits) has no effect on the string and is left out. \<open>num_value\<close> is the number a
  string of digits stands for.
\<close>

section \<open>Characters\<close>

text \<open>The conversion of a \<^verbatim>\<open>char\<close> (signed on the platform) to \<^verbatim>\<open>uint\<close>.\<close>

definition char_uint :: "char \<Rightarrow> uint" where
  "char_uint c = (let n = of_char c in if n < 128 then of_nat n else of_nat n - 256)"

definition Misc_AssignString :: "string \<Rightarrow> string \<Rightarrow> string" where
  "Misc_AssignString result str = str"

definition Misc_AddString :: "string \<Rightarrow> string \<Rightarrow> string" where
  "Misc_AddString result str = result @ str"

fun Misc_SkipWhiteCharacters :: "string \<Rightarrow> string" where
  "Misc_SkipWhiteCharacters [] = []"
| "Misc_SkipWhiteCharacters (c # s) =
     (if c = CHR '' '' \<or> c = CHR 0x09 \<or> c = CHR 0x0D \<or> c = CHR 0x0A
      then Misc_SkipWhiteCharacters s else c # s)"

definition Misc_CharToDigit_unchecked :: "uint \<Rightarrow> uint" where
  "Misc_CharToDigit_unchecked c =
     (if c \<ge> 48 \<and> c \<le> 57 then c - 48
      else if c \<ge> 97 \<and> c \<le> 122 then c - 97 + 10
      else c - 65 + 10)"

definition Misc_CharToDigit :: "uint \<Rightarrow> uint \<Rightarrow> sint" where
  "Misc_CharToDigit c base =
     (let r = (if c \<ge> 48 \<and> c \<le> 57 then Some (c - 48)
               else if c \<ge> 97 \<and> c \<le> 122 then Some (c - 97 + 10)
               else if c \<ge> 65 \<and> c \<le> 90 then Some (c - 65 + 10)
               else None)
      in case r of None \<Rightarrow> - 1 | Some c \<Rightarrow> if c \<ge> base then - 1 else c)"

definition Misc_DigitToChar :: "uint \<Rightarrow> uint" where
  "Misc_DigitToChar digit = (if digit < 10 then digit + 48 else digit - 10 + 65)"

section \<open>To a string\<close>

definition digit_char :: "uint \<Rightarrow> char" where
  "digit_char r = char_of (unat (Misc_DigitToChar r))"

partial_function (option) ToString_loop :: "utable \<Rightarrow> uint \<Rightarrow> string \<Rightarrow> string option" where
  "ToString_loop temp b result = do {
     (_, temp, rest) \<leftarrow> UInt_DivInt temp b (Some 0);
     let result = result @ [digit_char (the rest)];
     if UInt_IsZero temp then Some result else ToString_loop temp b result
   }"

declare ToString_loop.simps [code]

function Reverse_loop :: "string \<Rightarrow> nat \<Rightarrow> nat \<Rightarrow> string" where
  "Reverse_loop result i1 i2 =
     (if i1 < i2 then Reverse_loop (result[i1 := result ! i2, i2 := result ! i1]) (i1 + 1) (i2 - 1)
      else result)"
  by auto
termination by (relation "measure (\<lambda>(_, i1, i2). i2 - i1)") auto

declare Reverse_loop.simps [simp del]

definition UInt_ToStringBase :: "utable \<Rightarrow> uint \<Rightarrow> bool \<Rightarrow> string option" where
  "UInt_ToStringBase table b negative =
     (if b < 2 \<or> b > 16 then Some []
      else do {
        (found, _, _) \<leftarrow> UInt_FindLeadingBit table;
        if \<not> found then Some ''0''
        else do {
          result \<leftarrow> ToString_loop table b (if negative then ''-'' else []);
          Some (Reverse_loop result (if negative then 1 else 0) (length result - 1))
        }
      })"

definition UInt_ToString :: "utable \<Rightarrow> uint \<Rightarrow> string option" where
  "UInt_ToString table b = UInt_ToStringBase table b False"

section \<open>From a string\<close>

fun FromString_loop ::
  "utable \<Rightarrow> utable \<Rightarrow> utable \<Rightarrow> uint \<Rightarrow> uint \<Rightarrow> bool \<Rightarrow> string \<Rightarrow>
   (uint \<times> utable \<times> string \<times> bool) option" where
  "FromString_loop table base temp b c value_read [] = Some (c, table, [], value_read)"
| "FromString_loop table base temp b c value_read (ch # s) =
     (let z = Misc_CharToDigit (char_uint ch) b
      in if z = - 1 then Some (c, table, ch # s, value_read)
         else if c = 0
         then let temp = temp[0 := z]
              in do {
                (d, table) \<leftarrow> UInt_Mul table base 100;
                let c = c + d;
                let (d, table) = UInt_Add table temp 0;
                let c = c + d;
                FromString_loop table base temp b c True s
              }
         else FromString_loop table base temp b c True s)"

definition UInt_FromStringBase ::
  "utable \<Rightarrow> string \<Rightarrow> uint \<Rightarrow> (uint \<times> utable \<times> string \<times> bool) option" where
  "UInt_FromStringBase table s b =
     (let base = UInt_new_uint table b;
          table = UInt_SetZero table;
          temp = UInt_SetZero table;
          s = Misc_SkipWhiteCharacters s
      in if b < 2 \<or> b > 16 then Some (1, table, s, False)
         else do {
           (c, table, s, value_read) \<leftarrow> FromString_loop table base temp b 0 False s;
           Some (if c = 0 then 0 else 1, table, s, value_read)
         })"

definition UInt_FromString ::
  "utable \<Rightarrow> string \<Rightarrow> uint \<Rightarrow> (uint \<times> utable \<times> string \<times> bool) option" where
  "UInt_FromString table s b = UInt_FromStringBase table s b"

definition UInt_FromString_std :: "utable \<Rightarrow> string \<Rightarrow> uint \<Rightarrow> (uint \<times> utable) option" where
  "UInt_FromString_std table s b = map_option (\<lambda>(c, t, _). (c, t)) (UInt_FromString table s b)"

definition UInt_assign_string :: "utable \<Rightarrow> string \<Rightarrow> utable option" where
  "UInt_assign_string table s = map_option (\<lambda>(_, t, _). t) (UInt_FromString table s 10)"

definition UInt_assign_std_string :: "utable \<Rightarrow> string \<Rightarrow> utable option" where
  "UInt_assign_std_string table s = map_option (\<lambda>(_, t, _). t) (UInt_FromString table s 10)"

definition UInt_new_string :: "utable \<Rightarrow> string \<Rightarrow> utable option" where
  "UInt_new_string table s = map_option (\<lambda>(_, t, _). t) (UInt_FromString table s 10)"

definition UInt_new_std_string :: "utable \<Rightarrow> string \<Rightarrow> utable option" where
  "UInt_new_std_string table s = map_option (\<lambda>(_, t, _). t) (UInt_FromString table s 10)"

section \<open>The number a string stands for\<close>

definition is_digit :: "uint \<Rightarrow> char \<Rightarrow> bool" where
  "is_digit b ch \<longleftrightarrow> Misc_CharToDigit (char_uint ch) b \<noteq> - 1"

definition digit_value :: "uint \<Rightarrow> char \<Rightarrow> nat" where
  "digit_value b ch = unat (Misc_CharToDigit (char_uint ch) b)"

definition num_value :: "uint \<Rightarrow> nat \<Rightarrow> string \<Rightarrow> nat" where
  "num_value b v s = foldl (\<lambda>a ch. a * unat b + digit_value b ch) v s"

lemma num_value_simps [simp]:
  "num_value b v [] = v"
  "num_value b v (ch # s) = num_value b (v * unat b + digit_value b ch) s"
  by (simp_all add: num_value_def)

lemma num_value_mono: "0 < unat b \<Longrightarrow> v \<le> num_value b v s"
proof (induction s arbitrary: v)
  case (Cons ch s)
  have "v \<le> v * unat b + digit_value b ch" using Cons.prems by (simp add: trans_le_add1)
  also have "\<dots> \<le> num_value b (v * unat b + digit_value b ch) s" using Cons by blast
  finally show ?case by simp
qed simp

lemma FromString_loop_skip:
  assumes "c \<noteq> 0" "\<forall>ch \<in> set ds. is_digit b ch" "rest = [] \<or> \<not> is_digit b (hd rest)"
  shows "FromString_loop t base temp b c r (ds @ rest) = Some (c, t, rest, r \<or> ds \<noteq> [])"
  using assms
proof (induction ds arbitrary: r)
  case Nil
  then show ?case by (cases rest) (simp_all add: is_digit_def)
next
  case (Cons ch ds)
  then show ?case by (simp add: is_digit_def Let_def)
qed

text \<open>One digit: the carries of the multiplication and of the addition together.\<close>

lemma FromString_digit:
  assumes "0 < n" "length t = n" "length base = n" "length temp = n"
  shows "\<exists>c d u. UInt_Mul t base 100 = Some (c, u) \<and>
      UInt_Add u temp 0 = (d, utab n (uval t * uval base + uval temp)) \<and>
      (c + d \<noteq> 0) = (W ^ n \<le> uval t * uval base + uval temp)"
proof -
  let ?p = "uval t * uval base" and ?z = "uval temp"
  let ?u = "utab n ?p"
  have ne: "t \<noteq> []" "?u \<noteq> []" using assms by auto
  have z: "?z < W ^ n" using assms(4) uval_less by blast
  have m: "UInt_Mul t base 100 = Some (of_bool (W ^ n \<le> ?p), ?u)"
    using Mul_default_result [of base t] ne assms by simp
  have "utab n (?p mod W ^ n + ?z) = utab n (?p + ?z)"
    by (rule utab_eqI) (simp_all add: uval_utab mod_add_left_eq)
  then have a: "UInt_Add ?u temp 0 = (of_bool (W ^ n \<le> ?p mod W ^ n + ?z), utab n (?p + ?z))"
    using Add_bit_result [of temp ?u] ne(2) assms(4) by (simp add: uval_utab)
  have "(W ^ n \<le> ?p \<or> W ^ n \<le> ?p mod W ^ n + ?z) = (W ^ n \<le> ?p + ?z)"
    by (cases "W ^ n \<le> ?p") (simp_all add: trans_le_add1)
  then have "((of_bool (W ^ n \<le> ?p) + of_bool (W ^ n \<le> ?p mod W ^ n + ?z) :: uint) \<noteq> 0) = (W ^ n \<le> ?p + ?z)"
    by auto
  with m a show ?thesis by blast
qed

lemma FromString_loop_value:
  assumes "0 < n" "length base = n" "uval base = unat b" "0 < unat b"
    "rest = [] \<or> \<not> is_digit b (hd rest)"
  shows "length t = n \<Longrightarrow> length temp = n \<Longrightarrow> uval (drop 1 temp) = 0 \<Longrightarrow> \<forall>ch \<in> set ds. is_digit b ch \<Longrightarrow>
    \<exists>c t'. FromString_loop t base temp b 0 r (ds @ rest) = Some (c, t', rest, r \<or> ds \<noteq> []) \<and>
      (c \<noteq> 0) = (W ^ n \<le> num_value b (uval t) ds) \<and>
      (num_value b (uval t) ds < W ^ n \<longrightarrow> t' = utab n (num_value b (uval t) ds))"
proof (induction ds arbitrary: t temp r)
  case Nil
  have "\<not> W ^ n \<le> uval t" using uval_less [of t] Nil.prems(1) by simp
  moreover have "t = utab n (uval t)" using Nil.prems(1) utab_uval [of t] by simp
  moreover have "FromString_loop t base temp b 0 r rest = Some (0, t, rest, r)"
    using assms(5) by (cases rest) (simp_all add: is_digit_def)
  ultimately show ?case by simp
next
  case (Cons ch ds)
  let ?z = "Misc_CharToDigit (char_uint ch) b"
  let ?temp = "temp[0 := ?z]" and ?v = "uval t * unat b + digit_value b ch"
  have ut: "uval ?temp = digit_value b ch" "uval (drop 1 ?temp) = 0" "length ?temp = n"
    using Cons.prems(2,3) assms(1) by (cases temp; simp add: digit_value_def)+
  obtain c d u where 1: "UInt_Mul t base 100 = Some (c, u)" "UInt_Add u ?temp 0 = (d, utab n ?v)"
      "(c + d \<noteq> 0) = (W ^ n \<le> ?v)"
    using FromString_digit [OF assms(1) Cons.prems(1) assms(2) ut(3)] ut(1) assms(3) by auto
  have run: "FromString_loop t base temp b 0 r ((ch # ds) @ rest)
      = FromString_loop (utab n ?v) base ?temp b (c + d) True (ds @ rest)"
    using Cons.prems(4) 1(1,2) by (simp add: is_digit_def Let_def)
  show ?case
  proof (cases "W ^ n \<le> ?v")
    case True
    then have "W ^ n \<le> num_value b ?v ds" using num_value_mono [OF assms(4), of ?v ds] by linarith
    moreover have "FromString_loop (utab n ?v) base ?temp b (c + d) True (ds @ rest)
        = Some (c + d, utab n ?v, rest, True)"
      using FromString_loop_skip [of "c + d" ds b rest] 1(3) True Cons.prems(4) assms(5) by simp
    ultimately show ?thesis using run 1(3) True by simp
  next
    case False
    then have cd: "c + d = 0" using 1(3) by blast
    have "uval (utab n ?v) = ?v" using False by (simp add: uval_utab_exact)
    with Cons.IH [of "utab n ?v" ?temp True] ut(2,3) Cons.prems(4) run cd show ?thesis
      by simp
  qed
qed

lemma new_uint_value:
  assumes "t \<noteq> []"
  shows "length (UInt_new_uint t v) = length t" "uval (UInt_new_uint t v) = unat v"
  using assms by (simp_all add: UInt_new_uint_def UInt_FromUInt_def)

lemma FromStringBase_result:
  assumes "t \<noteq> []" "2 \<le> b" "b \<le> 16" "Misc_SkipWhiteCharacters s = ds @ rest"
    "\<forall>ch \<in> set ds. is_digit b ch" "rest = [] \<or> \<not> is_digit b (hd rest)"
  shows "\<exists>t'. UInt_FromStringBase t s b
      = Some (of_bool (W ^ length t \<le> num_value b 0 ds), t', rest, ds \<noteq> []) \<and>
    (num_value b 0 ds < W ^ length t \<longrightarrow> t' = utab (length t) (num_value b 0 ds))"
proof -
  let ?n = "length t"
  have b: "0 < unat b" using assms(2) by (auto simp: word_le_nat_alt)
  have n: "0 < ?n" using assms(1) by simp
  obtain c t' where "FromString_loop (replicate ?n 0) (UInt_new_uint t b) (replicate ?n 0) b 0 False (ds @ rest)
      = Some (c, t', rest, ds \<noteq> [])" "(c \<noteq> 0) = (W ^ ?n \<le> num_value b 0 ds)"
      "num_value b 0 ds < W ^ ?n \<longrightarrow> t' = utab ?n (num_value b 0 ds)"
    using FromString_loop_value [OF n new_uint_value [OF assms(1), of b] b assms(6), of "replicate ?n 0" "replicate ?n 0" ds False] assms(5)
    by auto
  moreover have "\<not> b < 2" "\<not> b > 16" using assms(2,3) by auto
  ultimately show ?thesis using assms(4) by (auto simp: UInt_FromStringBase_def Let_def)
qed

section \<open>The string of a number\<close>

function nat_digits :: "nat \<Rightarrow> nat \<Rightarrow> nat list" where
  "nat_digits b x = x mod b # (if 1 < b \<and> x div b \<noteq> 0 then nat_digits b (x div b) else [])"
  by auto
termination
proof (relation "measure (\<lambda>(b, x). x)")
  fix b x :: nat assume "1 < b \<and> x div b \<noteq> 0"
  then have "0 < x" "1 < b" by (auto intro: gr0I)
  then show "((b, x div b), b, x) \<in> measure (\<lambda>(b, x). x)" by simp
qed simp

declare nat_digits.simps [simp del]

abbreviation nat_char :: "nat \<Rightarrow> char" where
  "nat_char d \<equiv> digit_char (of_nat d)"

lemma char_uint_char_of: "n < 128 \<Longrightarrow> char_uint (char_of n) = of_nat n"
  by (simp add: char_uint_def of_char_of)

lemma char_uint_nat_char:
  assumes "d < 16"
  shows "char_uint (nat_char d) = of_nat (if d < 10 then d + 48 else d + 55)"
proof -
  have u: "unat (of_nat n :: uint) = n" if "n < 100" for n
    using that by (intro unat_of_nat_small) (simp add: W_def)
  have lt: "((of_nat d :: uint) < 10) = (d < 10)" using u [of d] assms by (simp add: word_less_nat_alt)
  have "Misc_DigitToChar (of_nat d) = of_nat (if d < 10 then d + 48 else d + 55)"
    using lt by (auto simp: Misc_DigitToChar_def)
  then show ?thesis
    using assms u char_uint_char_of by (simp add: digit_char_def)
qed

lemma digit_char_round_trip:
  assumes "d < 16"
  shows "Misc_CharToDigit (char_uint (nat_char d)) b = (if of_nat d \<ge> b then - 1 else of_nat d)"
proof -
  have u: "unat (of_nat n :: uint) = n" if "n < 100" for n
    using that by (intro unat_of_nat_small) (simp add: W_def)
  define n where "n = (if d < 10 then d + 48 else d + 55)"
  have n: "n < 100" "char_uint (nat_char d) = of_nat n"
    using assms char_uint_nat_char by (auto simp: n_def)
  have cmp: "((48 :: uint) \<le> of_nat n) = (48 \<le> n)" "((of_nat n :: uint) \<le> 57) = (n \<le> 57)"
    "((97 :: uint) \<le> of_nat n) = (97 \<le> n)" "((65 :: uint) \<le> of_nat n) = (65 \<le> n)"
    "((of_nat n :: uint) \<le> 90) = (n \<le> 90)"
    using u [OF n(1)] by (simp_all add: word_le_nat_alt)
  show ?thesis
  proof (cases "d < 10")
    case True
    then have "of_nat n - 48 = (of_nat d :: uint)" by (simp add: n_def)
    with True cmp n(2) show ?thesis by (simp add: Misc_CharToDigit_def n_def)
  next
    case False
    then have "of_nat n - 65 + 10 = (of_nat d :: uint)" by (simp add: n_def)
    with False assms cmp n(2) show ?thesis by (simp add: Misc_CharToDigit_def n_def)
  qed
qed

lemma digit_char_value:
  assumes "d < unat b" "b \<le> 16"
  shows "is_digit b (nat_char d)" "digit_value b (nat_char d) = d"
proof -
  have "unat b \<le> 16" using assms(2) by (simp add: word_le_nat_alt)
  then have d: "d < 16" "unat (of_nat d :: uint) = d" using assms(1) by (simp_all add: unat_of_nat_small W_def)
  then have lt: "\<not> b \<le> of_nat d" using assms(1) by (simp add: word_le_nat_alt)
  have "(of_nat d :: uint) \<noteq> - 1"
  proof
    assume "(of_nat d :: uint) = - 1"
    then have "unat (of_nat d :: uint) = unat TTMATH_UINT_MAX_VALUE" by (simp only: max_value_mask)
    with d show False by (simp add: unat_max_value W_def)
  qed
  with d lt show "is_digit b (nat_char d)" "digit_value b (nat_char d) = d"
    by (simp_all add: is_digit_def digit_value_def digit_char_round_trip)
qed

lemma nat_digits_bound: "0 < b \<Longrightarrow> d \<in> set (nat_digits b x) \<Longrightarrow> d < b"
  by (induction b x rule: nat_digits.induct)
    (subst (asm) (2) nat_digits.simps, auto split: if_splits)

lemma num_value_snoc: "num_value b v (s @ [ch]) = num_value b v s * unat b + digit_value b ch"
  by (simp add: num_value_def)

lemma num_value_digits:
  assumes "2 \<le> b" "b \<le> 16"
  shows "num_value b 0 (rev (map nat_char (nat_digits (unat b) x))) = x"
proof (induction x rule: less_induct)
  case (less x)
  have b: "1 < unat b" using assms(1) by (auto simp: word_le_nat_alt)
  let ?q = "x div unat b"
  have d: "digit_value b (nat_char (x mod unat b)) = x mod unat b"
    using digit_char_value(2) [of "x mod unat b" b] b assms(2) by simp
  show ?case
  proof (cases "?q = 0")
    case True
    moreover from this have "x mod unat b = x" using b by (simp add: div_eq_0_iff)
    ultimately show ?thesis using d by (subst nat_digits.simps) simp
  next
    case False
    then have "?q < x" using b by (intro div_less_dividend) (auto intro: gr0I)
    with less have "num_value b 0 (rev (map nat_char (nat_digits (unat b) ?q))) = ?q" by blast
    with d b False show ?thesis by (subst nat_digits.simps) (simp add: num_value_snoc)
  qed
qed

lemma ToString_loop_value:
  assumes "2 \<le> b" "b \<le> 16" "t \<noteq> []"
  shows "ToString_loop t b r = Some (r @ map nat_char (nat_digits (unat b) (uval t)))"
  using assms(3)
proof (induction "uval t" arbitrary: t r rule: less_induct)
  case less
  let ?n = "length t" and ?b = "unat b"
  have b: "1 < ?b" "b \<noteq> 0" using assms(1) by (auto simp: word_le_nat_alt)
  let ?q = "uval t div ?b"
  let ?t = "utab ?n ?q" and ?r = "r @ [nat_char (uval t mod ?b)]"
  have "?q < W ^ ?n" using uval_less [of t] by (rule le_less_trans [OF div_le_dividend])
  then have uq: "uval ?t = ?q" by (rule uval_utab_exact)
  have div: "UInt_DivInt t b (Some 0) = Some (0, ?t, Some (of_nat (uval t mod ?b)))"
    using DivInt_result [OF less.prems b(2)] by (simp add: put_remainder_def)
  show ?case
  proof (cases "?q = 0")
    case True
    then show ?thesis using div uq by (subst ToString_loop.simps, subst nat_digits.simps) simp
  next
    case False
    then have "?q < uval t" using b by (intro div_less_dividend) (auto intro: gr0I)
    then have "ToString_loop ?t b ?r = Some (?r @ map nat_char (nat_digits ?b ?q))"
      using less.hyps [of ?t ?r] uq less.prems by simp
    then show ?thesis using div uq False b by (subst ToString_loop.simps, subst nat_digits.simps) simp
  qed
qed

lemma length_Reverse_loop [simp]: "length (Reverse_loop s i j) = length s"
  by (induction s i j rule: Reverse_loop.induct) (subst Reverse_loop.simps, simp)

lemma Reverse_loop_nth:
  "j < length s \<Longrightarrow> k < length s \<Longrightarrow>
   Reverse_loop s i j ! k = (if i \<le> k \<and> k \<le> j then s ! (i + j - k) else s ! k)"
proof (induction s i j rule: Reverse_loop.induct)
  case (1 s i j)
  show ?case
  proof (cases "i < j")
    case True
    let ?s = "s[i := s ! j, j := s ! i]"
    have "Reverse_loop s i j ! k = Reverse_loop ?s (i + 1) (j - 1) ! k"
      using True by (subst Reverse_loop.simps) simp
    also have "\<dots> = (if i + 1 \<le> k \<and> k \<le> j - 1 then ?s ! (i + 1 + (j - 1) - k) else ?s ! k)"
      using "1.IH" [OF True] "1.prems" by simp
    also have "\<dots> = (if i \<le> k \<and> k \<le> j then s ! (i + j - k) else s ! k)"
      using True "1.prems" by (auto simp: nth_list_update)
    finally show ?thesis .
  next
    case False
    moreover have "i + j - k = k" if "i \<le> k" "k \<le> j" using that False by linarith
    ultimately show ?thesis by (subst Reverse_loop.simps) auto
  qed
qed

lemma Reverse_loop_rev: "s \<noteq> [] \<Longrightarrow> Reverse_loop s 0 (length s - 1) = rev s"
  by (rule nth_equalityI) (auto simp: Reverse_loop_nth rev_nth)

lemma Reverse_loop_rev_tail:
  assumes "s \<noteq> []"
  shows "Reverse_loop (ch # s) 1 (length s) = ch # rev s"
proof (rule nth_equalityI)
  fix k assume "k < length (Reverse_loop (ch # s) 1 (length s))"
  then show "Reverse_loop (ch # s) 1 (length s) ! k = (ch # rev s) ! k"
    by (cases k) (auto simp: Reverse_loop_nth rev_nth nth_Cons')
qed simp

lemma nat_digits_ne [simp]: "nat_digits b x \<noteq> []"
  by (subst nat_digits.simps) simp

lemma ToStringBase_result:
  assumes "2 \<le> b" "b \<le> 16" "t \<noteq> []"
  shows "UInt_ToStringBase t b neg =
    Some (if uval t = 0 then ''0''
      else (if neg then ''-'' else []) @ rev (map nat_char (nat_digits (unat b) (uval t))))"
proof (cases "uval t = 0")
  case True
  then show ?thesis using assms FindLeadingBit_value(1) [OF assms(3)] by (auto simp: UInt_ToStringBase_def)
next
  case False
  then obtain k where k: "2 ^ k \<le> uval t" "uval t < 2 ^ Suc k" using leading_bit_exists [of "uval t"] by auto
  let ?ds = "map nat_char (nat_digits (unat b) (uval t))"
  have nb: "\<not> (b < 2 \<or> b > 16)" using assms by auto
  show ?thesis
    using nb False FindLeadingBit_value(2) [OF assms(3) k] ToString_loop_value [OF assms]
      Reverse_loop_rev [of ?ds] Reverse_loop_rev_tail [of ?ds]
    by (cases neg) (simp_all add: UInt_ToStringBase_def)
qed

section \<open>Round trip\<close>

lemma digit_not_white:
  assumes "is_digit b ch"
  shows "Misc_SkipWhiteCharacters (ch # s) = ch # s"
proof -
  have "ch \<noteq> CHR '' '' \<and> ch \<noteq> CHR 0x09 \<and> ch \<noteq> CHR 0x0D \<and> ch \<noteq> CHR 0x0A"
    using assms by (auto simp: is_digit_def Misc_CharToDigit_def char_uint_def Let_def)
  then show ?thesis by simp
qed

lemma ToString_digits:
  assumes "2 \<le> b" "b \<le> 16" "t \<noteq> []"
  obtains s where "UInt_ToString t b = Some s" "s \<noteq> []" "\<forall>ch \<in> set s. is_digit b ch" "num_value b 0 s = uval t"
proof (cases "uval t = 0")
  case True
  have b: "0 < unat b" using assms(1) by (auto simp: word_le_nat_alt)
  have "nat_char 0 = CHR ''0''"
    by (simp add: digit_char_def Misc_DigitToChar_def char_of_def bit_iff_odd)
  with digit_char_value [OF b assms(2)] True ToStringBase_result [OF assms, of False] that [of "''0''"]
  show ?thesis by (simp add: UInt_ToString_def)
next
  case False
  let ?s = "rev (map nat_char (nat_digits (unat b) (uval t)))"
  have b: "0 < unat b" using assms(1) by (auto simp: word_le_nat_alt)
  have "\<forall>ch \<in> set ?s. is_digit b ch"
    using nat_digits_bound [OF b] digit_char_value(1) [OF _ assms(2)] by auto
  with False ToStringBase_result [OF assms, of False] num_value_digits [OF assms(1,2)] that [of ?s]
  show ?thesis by (simp add: UInt_ToString_def)
qed

lemma FromString_ToString:
  assumes "2 \<le> b" "b \<le> 16" "t \<noteq> []" "length u = length t"
  shows "\<exists>s. UInt_ToString t b = Some s \<and> UInt_FromString u s b = Some (0, t, [], True)"
proof -
  obtain s where s: "UInt_ToString t b = Some s" "s \<noteq> []" "\<forall>ch \<in> set s. is_digit b ch" "num_value b 0 s = uval t"
    using ToString_digits [OF assms(1-3)] .
  obtain ch s' where "s = ch # s'" using s(2) by (cases s) auto
  then have skip: "Misc_SkipWhiteCharacters s = s @ []"
    using s(3) digit_not_white [of b ch s'] by (simp del: Misc_SkipWhiteCharacters.simps)
  have "u \<noteq> []" using assms(3,4) by auto
  moreover have "\<not> W ^ length t \<le> uval t" using uval_less [of t] by simp
  ultimately show ?thesis
    using FromStringBase_result [OF _ assms(1,2) skip s(3), of u] s assms(4) utab_uval [of t]
    by (auto simp: UInt_FromString_def)
qed

end
