(* ===== verification/UInt_Properties.thy ===== *)
theory UInt_Properties
  imports UInt_String
begin

text \<open>
  The properties of \<^verbatim>\<open>UInt\<close>, stated over the operations of the class, each with an instance on
  a concrete table where it has hypotheses. \<open>uval\<close> is the number a table stands for and \<open>W\<close> the
  radix \<open>2 ^ 64\<close>; a table of \<open>n\<close> words holds the numbers below \<open>W ^ n\<close>.
\<close>

section \<open>Addition, subtraction and shifts\<close>

text \<open>
  \<^verbatim>\<open>Add\<close> computes the sum with the incoming carry, spread over the table and the returned
  carry, and \<^verbatim>\<open>Sub\<close> takes the same operand and carry away again, with the same flag.
\<close>

lemma Add_Sub_inverse:
  assumes "length s = length t" "t \<noteq> []"
  shows "case UInt_Add t s c of (d, r) \<Rightarrow>
    uval r + W ^ length t * unat d = uval t + uval s + of_bool (c \<noteq> 0) \<and> UInt_Sub r s c = (d, t)"
proof -
  let ?n = "length t" and ?x = "uval t + uval s + of_bool (c \<noteq> 0)"
  have lt: "uval t < W ^ ?n" "uval s < W ^ ?n" using uval_less [of t] uval_less [of s] assms(1) by simp_all
  then have b: "?x < 2 * W ^ ?n" by (simp add: of_bool_def)
  have add: "UInt_Add t s c = (of_bool (W ^ ?n \<le> ?x), utab ?n ?x)"
    using Add_result [OF assms, of c] carry_result_bit [OF b] by simp
  have ne: "utab ?n ?x \<noteq> []" using assms(2) by simp
  have sub: "UInt_Sub (utab ?n ?x) s c = borrow_result ?n (?x mod W ^ ?n) (uval s + of_bool (c \<noteq> 0))"
    using Sub_result [of s "utab ?n ?x" c] ne assms(1) by (simp add: uval_utab)
  show ?thesis
  proof (cases "W ^ ?n \<le> ?x")
    case True
    then have m: "?x mod W ^ ?n = ?x - W ^ ?n" using b by (simp add: mod_if)
    then have "?x mod W ^ ?n < uval s + of_bool (c \<noteq> 0)"
      "?x mod W ^ ?n + W ^ ?n - (uval s + of_bool (c \<noteq> 0)) = uval t" using True lt by simp_all
    then show ?thesis using True sub m add by (simp add: borrow_result_def uval_utab)
  next
    case False
    then show ?thesis using sub add by (simp add: borrow_result_exact uval_utab)
  qed
qed

text \<open>
  C3. A shift to the left by any number of bits is multiplication by the power of two, and as long
  as no bit leaves the table the shift to the right takes it back.
\<close>

theorem Rcl_Rcr_inverse:
  assumes "t \<noteq> []" "uval t * 2 ^ b < W ^ length t"
  shows "\<exists>c u. UInt_Rcl t b 0 = Some (c, u) \<and> uval u = uval t * 2 ^ b \<and>
    (\<exists>d. UInt_Rcr u b 0 = Some (d, t))"
proof -
  let ?u = "utab (length t) (uval t * 2 ^ b)"
  have ne: "?u \<noteq> []" using assms(1) by simp
  have u: "uval ?u = uval t * 2 ^ b" by (rule uval_utab_exact [OF assms(2)])
  have "shl_value t b 0 = uval t * 2 ^ b" "shr_value ?u b 0 = uval t"
    by (simp_all add: shl_value_def shr_value_def fill_bits_def u)
  then show ?thesis using Rcl_result [OF assms(1), of b 0] Rcr_result [OF ne, of b 0] u by simp
qed

theorem Rcl_Rcr_inverse_witness:
  "\<exists>c u. UInt_Rcl [5, 0, 0] 100 0 = Some (c, u) \<and> uval u = 5 * 2 ^ 100 \<and>
    (\<exists>d. UInt_Rcr u 100 0 = Some (d, [5, 0, 0]))"
  using Rcl_Rcr_inverse [of "[5, 0, 0]" 100] by (simp add: W_def)

text \<open>
  The bit a shift to the left returns is the last bit moved out as long as the shift is at most
  the size of the table; a longer shift always returns zero, even with all ones moved in.
\<close>

lemma Rcl_last_bit:
  assumes "t \<noteq> []"
  shows "(0 < b \<and> b \<le> 64 * length t \<longrightarrow>
      (\<exists>u. UInt_Rcl t b c = Some (of_bool (bit (uval t) (64 * length t - b)), u))) \<and>
    (64 * length t < b \<longrightarrow> (\<exists>u. UInt_Rcl t b c = Some (0, u)))"
proof -
  have "odd (shl_value t b c div W ^ length t) = bit (uval t) (64 * length t - b)" if "b \<le> 64 * length t"
  proof -
    have W: "W ^ length t = 2 ^ b * 2 ^ (64 * length t - b)"
      unfolding W_power power_add [symmetric] using that by simp
    have "shl_value t b c div 2 ^ b = uval t" using fill_bits_less [of b c] by (simp add: shl_value_def)
    then show ?thesis unfolding W div_mult2_eq bit_iff_odd by simp
  qed
  then show ?thesis using Rcl_result [OF assms, of b c] by auto
qed

section \<open>Bits and order\<close>

text \<open>
  C6. \<^verbatim>\<open>SetBit\<close> returns the old bit and sets exactly the given one: afterwards \<^verbatim>\<open>GetBit\<close>
  finds it set and every other bit as before.
\<close>

lemma SetBit_GetBit:
  assumes "i < 64 * length t" "j < 64 * length t"
  shows "\<exists>u. UInt_SetBit t i = Some (of_bool (bit (uval t) i), u) \<and> length u = length t \<and>
    UInt_GetBit u j = (if j = i then Some 1 else UInt_GetBit t j)"
proof -
  let ?u = "utab (length t) (set_bit i (uval t))"
  have "set_bit i (uval t) < W ^ length t"
  proof -
    have "take_bit (64 * length t) (uval t) = uval t"
      using uval_less [of t] unfolding W_power by (intro take_bit_nat_eq_self) simp
    then have "take_bit (64 * length t) (set_bit i (uval t)) = set_bit i (uval t)"
      using assms(1) by (simp add: take_bit_set_bit_eq)
    then show ?thesis unfolding W_power by (metis mult.commute take_bit_nat_less_exp)
  qed
  then have u: "uval ?u = set_bit i (uval t)" by (rule uval_utab_exact)
  have "UInt_GetBit ?u j = Some (of_bool (j = i \<or> bit (uval t) j))"
    using GetBit_value [of j ?u] assms(2) unfolding u by (simp add: bit_set_bit_iff ac_simps)
  then show ?thesis using SetBit_value [OF assms(1)] GetBit_value [OF assms(2)] by auto
qed

text \<open>
  \<^verbatim>\<open>CompensationToLeft\<close> moves the leading bit of a number that is not zero to the top of
  the table and returns by how many bits it moved it; nothing is lost.
\<close>

lemma CompensationToLeft_normalises:
  assumes "t \<noteq> []" "uval t \<noteq> 0"
  shows "\<exists>m u. UInt_CompensationToLeft t = Some (m, u) \<and> length u = length t \<and>
    uval u = uval t * 2 ^ m \<and> UInt_IsTheHighestBitSet u"
proof -
  obtain k where k: "2 ^ k \<le> uval t" "uval t < 2 ^ Suc k" using leading_bit_exists [of "uval t"] assms(2) by auto
  note c = CompensationToLeft_value [OF assms(1) k]
  then show ?thesis using assms(1) IsTheHighestBitSet_iff by (simp add: uval_utab_exact)
qed

text \<open>
  The comparison operators are the order of the numbers the tables stand for.
\<close>

lemma comparison_refines_order:
  assumes "length l = length t"
  shows "(UInt_less t l \<longleftrightarrow> uval t < uval l) \<and> (UInt_greater t l \<longleftrightarrow> uval t > uval l) \<and>
    (UInt_equal t l \<longleftrightarrow> t = l) \<and> (UInt_not_equal t l \<longleftrightarrow> t \<noteq> l) \<and>
    (UInt_less_equal t l \<longleftrightarrow> uval t \<le> uval l) \<and> (UInt_greater_equal t l \<longleftrightarrow> uval t \<ge> uval l)"
  using Cmp_values [OF assms] uval_inject [OF assms]
  by (auto simp: UInt_less_def UInt_greater_def UInt_equal_def UInt_not_equal_def UInt_less_equal_def
      UInt_greater_equal_def)

section \<open>Multiplication\<close>

text \<open>
  C4. The schoolbook multiplications, Karatsuba's algorithm and the dispatcher compute the same
  double-size product, whatever the algorithm number.
\<close>

theorem multiplications_agree:
  assumes "length s = length t" "t \<noteq> []"
  shows "UInt_Mul1Big t s = UInt_Mul2Big t s \<and> UInt_Mul3Big t s = UInt_Mul2Big t s \<and>
    UInt_MulFastestBig t s = UInt_Mul2Big t s \<and> UInt_MulBig t s a = UInt_MulBig t s b \<and>
    UInt_Mul2Big t s = Some (utab (2 * length t) (uval t * uval s))"
  using mul1_big.product [OF assms] mul2_big.product [OF assms] mul3_big.product [OF assms]
    fastest_big.product [OF assms] MulBig_result [OF assms] by simp

theorem multiplications_agree_witness:
  "UInt_Mul3Big [1, 2, 3, 4] [5, 6, 7, 8] = UInt_Mul2Big [1, 2, 3, 4] [5, 6, 7, 8]"
  using multiplications_agree [of "[5, 6, 7, 8]" "[1, 2, 3, 4]" 1 2] by simp

text \<open>
  Multiplication is commutative at the level of tables, carry included, and it never fails an
  assertion: the operands may be exchanged for every algorithm number.
\<close>

lemma Mul_commutes:
  assumes "length s = length t" "t \<noteq> []"
  shows "UInt_MulBig t s a = UInt_MulBig s t a \<and> UInt_times t s = UInt_times s t \<and> UInt_times t s \<noteq> None"
proof -
  have s: "length t = length s" "s \<noteq> []" using assms by auto
  show ?thesis
    using MulBig_result [OF assms] MulBig_result [OF s] operator_values(3) [OF assms] operator_values(3) [OF s]
    by (simp add: mult.commute s(1))
qed

section \<open>Division\<close>

text \<open>
  C5. Knuth's algorithm (\<^verbatim>\<open>Div3\<close>, the default one) and the shift-and-subtract algorithm
  (\<^verbatim>\<open>Div2\<close>) always return, for every divisor that is not zero, and what they return is the
  quotient and the remainder of the division law.
\<close>

theorem Div_division_law:
  assumes "length v = length t" "length r0 = length t" "t \<noteq> []" "uval v \<noteq> 0" "algorithm \<noteq> 1"
  shows "\<exists>q r. UInt_Div t v (Some r0) algorithm = Some (0, q, Some r) \<and> length q = length t \<and>
    length r = length t \<and> uval t = uval q * uval v + uval r \<and> uval r < uval v"
  using div2.division_law [of v t r0] div3.division_law [of v t r0] assms
  by (cases "algorithm = 2") (simp_all add: UInt_Div_def)

theorem Div_division_law_witness:
  "\<exists>q r. UInt_Div [0, 0, 7] [5, 3, 0] (Some [0, 0, 0]) 3 = Some (0, q, Some r) \<and>
    uval [0, 0, 7] = uval q * uval [5, 3, 0] + uval r \<and> uval r < uval [5, 3, 0]"
  using Div_division_law [of "[5, 3, 0]" "[0, 0, 7]" "[0, 0, 0]" 3] by auto

text \<open>
  The two algorithms agree on every input, with the divisor zero and without a place for the
  remainder too: exchanging one for the other cannot be observed.
\<close>

lemma Div2_Div3_agree:
  assumes "length v = length t" "t \<noteq> []"
  shows "UInt_Div2 t v rem = UInt_Div3 t v rem"
  using Div2_result [OF assms] Div3_result [OF assms] Div2_zero_same_length [OF assms] Div3_zero [OF assms]
  by (cases "uval v = 0") simp_all

text \<open>
  C6. Division by zero: every algorithm returns 1 and leaves the dividend and the remainder as
  they were.
\<close>

theorem Div_by_zero:
  assumes "length v = length t" "t \<noteq> []" "uval v = 0"
  shows "UInt_Div t v rem algorithm = Some (1, t, rem)"
  using div1.by_zero [OF assms] div2.by_zero [OF assms] div3.by_zero [OF assms] by (simp add: UInt_Div_def)

theorem Div_by_zero_witness: "UInt_Div [4, 2] [0, 0] (Some [8, 8]) 3 = Some (1, [4, 2], Some [8, 8])"
  using Div_by_zero [of "[0, 0]" "[4, 2]" "Some [8, 8]" 3] by simp

text \<open>
  The first algorithm (\<^verbatim>\<open>Div1\<close>, radix two without restoring) is right for every divisor
  of at most half the range.
\<close>

lemma Div1_half_range:
  assumes "length v = length t" "length r0 = length t" "t \<noteq> []" "uval v \<noteq> 0" "2 * uval v \<le> W ^ length t"
  shows "\<exists>q r. UInt_Div1 t v (Some r0) = Some (0, q, Some r) \<and>
    uval t = uval q * uval v + uval r \<and> uval r < uval v"
  using div1.division_law [of v t r0] assms by auto

text \<open>
  For a larger divisor \<^verbatim>\<open>Div1\<close> is wrong: with one word it divides \<open>2^64 - 1\<close> by
  \<open>2^64 - 2\<close> and returns a quotient near \<open>2^64 / 3\<close> where \<open>1\<close> is right. The carry that doubling
  the partial remainder produces is dropped.
\<close>

lemma Div1_wrong_quotient:
  "UInt_Div1 [18446744073709551615] [18446744073709551614] (Some [0])
     = Some (0, [6148914691236517205], Some [12297829382473034409])
   \<and> uval [18446744073709551615] div uval [18446744073709551614] = 1"
proof
  show "UInt_Div1 [18446744073709551615] [18446744073709551614] (Some [0])
     = Some (0, [6148914691236517205], Some [12297829382473034409])" by code_simp
  show "uval [18446744073709551615] div uval [18446744073709551614] = 1" by simp
qed

text \<open>
  \<^verbatim>\<open>DivInt\<close> divides by a machine word: quotient and remainder are exact for every divisor
  that is not zero, and a zero divisor is reported.
\<close>

lemma DivInt_correct:
  assumes "t \<noteq> []"
  shows "UInt_DivInt t d (Some r0) =
    (if d = 0 then Some (1, t, Some 0)
     else Some (0, utab (length t) (uval t div unat d), Some (of_nat (uval t mod unat d))))"
  using DivInt_result [OF assms, of d "Some r0"] by (simp add: UInt_DivInt_def put_remainder_def)

section \<open>Power and root\<close>

text \<open>
  C7. \<^verbatim>\<open>Pow\<close> always returns: 2 for \<open>0 ^ 0\<close>, otherwise a carry exactly when the power does not
  fit, and the power itself when it does.
\<close>

theorem Pow_correct:
  assumes "length p = length t" "t \<noteq> []"
  shows "\<exists>c r. UInt_Pow t p = Some (c, r) \<and>
    (if uval t = 0 \<and> uval p = 0 then c = 2 \<and> r = t
     else if uval t ^ uval p < W ^ length t then c = 0 \<and> r = utab (length t) (uval t ^ uval p)
     else c = 1)"
proof (cases "uval p = 0 \<and> uval t = 0")
  case True
  then show ?thesis using Pow_result(1) [OF assms] by auto
next
  case False
  then have "\<not> (uval t = 0 \<and> uval p = 0)" by blast
  with Pow_result(2) [OF assms False] show ?thesis
    by (cases "uval t ^ uval p < W ^ length t") auto
qed

theorem Pow_correct_witness: "UInt_Pow [10, 0] [20, 0] = Some (0, [7766279631452241920, 5])"
  using Pow_correct [of "[20, 0]" "[10, 0]"] by (simp add: W_def)

text \<open>
  C8. \<^verbatim>\<open>Sqrt\<close> ends for every table, and the table then holds the integer square root.
\<close>

theorem Sqrt_correct:
  assumes "t \<noteq> []"
  shows "\<exists>u. UInt_Sqrt t = Some u \<and> length u = length t \<and>
    uval u * uval u \<le> uval t \<and> uval t < (uval u + 1) * (uval u + 1)"
proof -
  obtain r where r: "UInt_Sqrt t = Some (utab (length t) r)" "r * r \<le> uval t" "uval t < (r + 1) * (r + 1)"
    using Sqrt_result [OF assms] by blast
  have "r \<le> r * r" by simp
  then have "r < W ^ length t" using r(2) uval_less [of t] by linarith
  then have "uval (utab (length t) r) = r" by (rule uval_utab_exact)
  with r show ?thesis by (simp only: length_utab) simp
qed

theorem Sqrt_correct_witness:
  "\<exists>u. UInt_Sqrt [99, 0] = Some u \<and> length u = Suc 1 \<and> uval u * uval u \<le> 99 \<and> 99 < (uval u + 1) * (uval u + 1)"
  using Sqrt_correct [of "[99, 0]"] by simp

section \<open>Conversions and operators\<close>

text \<open>
  A conversion between sizes reports a carry exactly when the number does not fit, and reduces
  it to the size of the object otherwise; a conversion to a larger size and back loses nothing.
\<close>

lemma size_conversion:
  assumes "length t \<le> length u"
  shows "UInt_FromUInt_UInt u t = (0, utab (length u) (uval t)) \<and>
    UInt_FromUInt_UInt t (snd (UInt_FromUInt_UInt u t)) = (0, t) \<and>
    fst (UInt_FromUInt_UInt t u) = of_bool (W ^ length t \<le> uval u)"
proof -
  have lt: "uval t < W ^ length u" by (rule uval_less_le [OF assms])
  moreover have "\<not> W ^ length t \<le> uval t" using uval_less [of t] by simp
  ultimately show ?thesis by (simp add: FromUInt_UInt_result uval_utab_exact)
qed

text \<open>
  The conversions to machine words report a carry exactly when the number is out of the range
  of the word, and return its low bits.
\<close>

lemma word_conversion:
  assumes "t \<noteq> []"
  shows "UInt_ToUInt_uint t = (of_bool (2 ^ 64 \<le> uval t), of_nat (uval t)) \<and>
    UInt_ToInt_sint t = (of_bool (2 ^ 63 \<le> uval t), of_nat (uval t)) \<and>
    UInt_ToUInt_32 t = (of_bool (2 ^ 32 \<le> uval t), of_nat (uval t))"
  using ToUInt_result [OF assms] ToInt_sint_result [OF assms] ToUInt_32_result [OF assms] by (simp add: W_def)

text \<open>
  C9. The operators implement arithmetic modulo the range of the table: the map to the numbers is
  a homomorphism for sum, difference and product, and exact for quotient and remainder.
\<close>

theorem operators_refine_modular_arithmetic:
  assumes "length p = length t" "t \<noteq> []"
  shows "uval (UInt_plus t p) = (uval t + uval p) mod W ^ length t \<and>
    int (uval (UInt_minus t p)) = (int (uval t) - int (uval p)) mod int (W ^ length t) \<and>
    map_option uval (UInt_times t p) = Some (uval t * uval p mod W ^ length t) \<and>
    (uval p \<noteq> 0 \<longrightarrow> map_option uval (UInt_divide t p) = Some (uval t div uval p)) \<and>
    (uval p \<noteq> 0 \<longrightarrow> map_option uval (UInt_modulo t p r) = Some (uval t mod uval p))"
proof -
  let ?N = "W ^ length t"
  have lt: "uval t < ?N" "uval p < ?N" using uval_less [of t] uval_less [of p] assms(1) by simp_all
  have "int (uval t + ?N - uval p) = int (uval t) - int (uval p) + int ?N" using lt by simp
  then have "int ((uval t + ?N - uval p) mod ?N) = (int (uval t) - int (uval p)) mod int ?N"
    by (simp only: of_nat_mod mod_add_self2)
  moreover have "uval t div uval p < ?N" "uval t mod uval p < ?N"
    using lt le_less_trans [OF div_le_dividend] le_less_trans [OF mod_less_eq_dividend] by blast+
  ultimately show ?thesis using operator_values [OF assms] by (simp add: uval_utab uval_utab_exact)
qed

theorem operators_refine_modular_arithmetic_witness:
  "map_option uval (UInt_divide [0, 9] [3, 0]) = Some (9 * 2 ^ 64 div 3)"
  using operators_refine_modular_arithmetic [of "[3, 0]" "[0, 9]" "[0, 0]"] by (simp add: W_def)

text \<open>
  The operator \<^verbatim>\<open>%\<close> with the divisor zero returns whatever its local object held before the
  division, since no constructor sets it and the failed division does not write it.
\<close>

lemma modulo_by_zero_uninitialised:
  assumes "length p = length t" "t \<noteq> []" "uval p = 0"
  shows "UInt_modulo t p garbage = Some garbage"
  using assms by (rule modulo_by_zero)

text \<open>
  \<^verbatim>\<open>SetFromTable\<close> never rounds on a 64-bit platform: words of the argument that do not fit
  are dropped, whatever their bits, since the rounding test looks at bit 63 of a 32-bit word.
\<close>

lemma SetFromTable_drops_words:
  "UInt_SetFromTable [0] [1, 2, w] = [4294967298]"
proof -
  have "push_bit 32 (1 :: uint) OR 2 = 4294967298" by code_simp
  then show ?thesis by (simp add: SetFromTable_no_rounding)
qed

section \<open>Strings\<close>

text \<open>
  C10. Printing a number in a base from 2 to 16 always ends, and reading the string in the same
  base gives the number back, without a carry and with nothing left over.
\<close>

theorem string_round_trip:
  assumes "2 \<le> b" "b \<le> 16" "t \<noteq> []" "length u = length t"
  shows "\<exists>s. UInt_ToString t b = Some s \<and> UInt_FromString u s b = Some (0, t, [], True)"
  using assms by (rule FromString_ToString)

theorem string_round_trip_witness:
  "\<exists>s. UInt_ToString [255, 1] 16 = Some s \<and> UInt_FromString [0, 0] s 16 = Some (0, [255, 1], [], True)"
  using string_round_trip [of 16 "[255, 1]" "[0, 0]"] by (simp add: word_le_nat_alt)

text \<open>
  C11. Reading a string: leading white space is skipped, the longest run of digits is the number
  (read in the given base), the rest of the string is returned, and the carry is set exactly when
  the number does not fit; a base outside 2 to 16 is an error.
\<close>

theorem FromString_correct:
  assumes "t \<noteq> []" "Misc_SkipWhiteCharacters s = ds @ rest" "\<forall>ch \<in> set ds. is_digit b ch"
    "rest = [] \<or> \<not> is_digit b (hd rest)"
  shows "if b < 2 \<or> b > 16 then \<exists>u. UInt_FromString t s b = Some (1, u, ds @ rest, False) \<and> uval u = 0
    else \<exists>u. UInt_FromString t s b = Some (of_bool (W ^ length t \<le> num_value b 0 ds), u, rest, ds \<noteq> []) \<and>
      (num_value b 0 ds < W ^ length t \<longrightarrow> uval u = num_value b 0 ds)"
proof (cases "b < 2 \<or> b > 16")
  case True
  then show ?thesis using assms(2) by (simp add: UInt_FromString_def UInt_FromStringBase_def Let_def)
next
  case False
  then have "2 \<le> b" "b \<le> 16" by (simp_all add: not_less)
  from FromStringBase_result [OF assms(1) this assms(2-4)] False show ?thesis
    by (auto simp: UInt_FromString_def uval_utab_exact)
qed

theorem FromString_correct_witness:
  "\<exists>u. UInt_FromString [0] ''  42;'' 10 = Some (0, u, '';'', True) \<and> uval u = 42"
proof -
  have d: "is_digit 10 CHR ''4''" "is_digit 10 CHR ''2''" "\<not> is_digit 10 CHR '';''"
    "digit_value 10 CHR ''4'' = 4" "digit_value 10 CHR ''2'' = 2"
    by (simp_all add: is_digit_def digit_value_def Misc_CharToDigit_def char_uint_def)
  show ?thesis
    using FromString_correct [of "[0]" "''  42;''" "''42''" "'';''" 10] d by (simp add: W_def)
qed

end
