(* ===== verification/Int_Basic.thy ===== *)
theory Int_Basic
  imports UInt_String
begin

text \<open>
  The first part of the class \<^verbatim>\<open>Int\<close> of \<^verbatim>\<open>ttmathint.h\<close>: its special values, the sign and
  the additive operations. \<^verbatim>\<open>Int\<close> inherits the table of \<^verbatim>\<open>UInt\<close> and reads it in two's
  complement. \<open>ival t\<close> is the integer a table stands for, \<open>itab n x\<close> the table of \<open>n\<close> words of an
  integer, and \<open>fits n x\<close> says that \<open>x\<close> is in the range of \<open>n\<close> words. The lemmas state every
  operation as the integer operation followed by \<open>itab\<close>, with a carry exactly when the integer does
  not fit; where the code misses a carry the lemma has the range in which it does not.
\<close>

named_theorems int_results \<open>what the operations of Int return, over the integers\<close>

section \<open>Two's complement\<close>

definition ival :: "utable \<Rightarrow> int" where
  "ival t = (if 2 * uval t < W ^ length t then int (uval t) else int (uval t) - int (W ^ length t))"

definition itab :: "nat \<Rightarrow> int \<Rightarrow> utable" where
  "itab n x = utab n (nat (x mod int (W ^ n)))"

definition fits :: "nat \<Rightarrow> int \<Rightarrow> bool" where
  "fits n x \<longleftrightarrow> - int (W ^ n) \<le> 2 * x \<and> 2 * x < int (W ^ n)"

lemma even_W_power: "0 < n \<Longrightarrow> even (W ^ n)"
  by (simp add: W_def)

lemma int_W_power_pos [simp]: "0 < int (W ^ n)"
  by (simp only: of_nat_0_less_iff zero_less_power W_pos)

lemma length_itab [simp]: "length (itab n x) = n"
  by (simp add: itab_def)

lemma itab_Nil_iff [simp]: "itab n x = [] \<longleftrightarrow> n = 0"
  by (metis length_0_conv length_itab)

lemma ival_bounds: "fits (length t) (ival t)"
  using uval_less [of t] by (auto simp: fits_def ival_def simp del: of_nat_power)

lemma ival_cases:
  "2 * int (uval t) < int (W ^ length t) \<Longrightarrow> ival t = int (uval t)"
  "int (W ^ length t) \<le> 2 * int (uval t) \<Longrightarrow> ival t = int (uval t) - int (W ^ length t)"
proof -
  have "(2 * uval t < W ^ length t) = (2 * int (uval t) < int (W ^ length t))" by linarith
  then show "2 * int (uval t) < int (W ^ length t) \<Longrightarrow> ival t = int (uval t)"
    "int (W ^ length t) \<le> 2 * int (uval t) \<Longrightarrow> ival t = int (uval t) - int (W ^ length t)"
    by (simp_all only: ival_def not_less [symmetric] if_True if_False)
qed

lemma ival_cong_uval: "ival t mod int (W ^ length t) = int (uval t)"
proof -
  have u: "int (uval t) < int (W ^ length t)" using uval_less [of t] by (simp only: of_nat_less_iff)
  show ?thesis
  proof (cases "2 * uval t < W ^ length t")
    case True
    then show ?thesis using u by (simp only: ival_def if_True mod_pos_pos_trivial of_nat_0_le_iff)
  next
    case False
    have "(int (uval t) - int (W ^ length t)) mod int (W ^ length t) = int (uval t) mod int (W ^ length t)"
      by (metis minus_mod_self2)
    then show ?thesis using u False by (simp only: ival_def if_False mod_pos_pos_trivial of_nat_0_le_iff)
  qed
qed

lemma itab_ival [simp]: "itab (length t) (ival t) = t"
  by (simp only: itab_def ival_cong_uval nat_int utab_uval)

lemma itab_cong: "x mod int (W ^ n) = y mod int (W ^ n) \<Longrightarrow> itab n x = itab n y"
  by (simp add: itab_def)

lemma utab_itab: "utab n v = itab n (int v)"
  by (simp only: itab_def of_nat_mod [symmetric] nat_int utab_mod)

lemma uval_itab: "int (uval (itab n x)) = x mod int (W ^ n)"
proof -
  have "nat (x mod int (W ^ n)) < W ^ n" using pos_mod_bound [of "int (W ^ n)" x]
    by (simp add: nat_less_iff)
  then show ?thesis by (simp add: itab_def uval_utab_exact)
qed

lemma ival_itab [simp]:
  assumes "fits n x"
  shows "ival (itab n x) = x"
proof -
  let ?N = "int (W ^ n)"
  have b: "- ?N \<le> 2 * x" "2 * x < ?N" using assms by (simp_all only: fits_def)
  note u = uval_itab [of n x]
  have N: "0 < ?N" by simp
  show ?thesis
  proof (cases "0 \<le> x")
    case True
    then have "x mod ?N = x" using b by (intro mod_pos_pos_trivial) linarith+
    then show ?thesis using u b(2) ival_cases(1) [of "itab n x"] by (simp only: length_itab)
  next
    case False
    then have "0 \<le> x + ?N" "x + ?N < ?N" using b N by linarith+
    then have "(x + ?N) mod ?N = x + ?N" by (rule mod_pos_pos_trivial)
    then have "x mod ?N = x + ?N" by simp
    with u b(1) have "int (W ^ length (itab n x)) \<le> 2 * int (uval (itab n x))" by simp
    from ival_cases(2) [OF this] u \<open>x mod ?N = x + ?N\<close> show ?thesis by simp
  qed
qed

lemma ival_eqI: "fits (length t) x \<Longrightarrow> itab (length t) x = t \<Longrightarrow> ival t = x"
  using ival_itab [of "length t" x] by simp

lemma itab_inject: "fits n x \<Longrightarrow> fits n y \<Longrightarrow> itab n x = itab n y \<longleftrightarrow> x = y"
  by (metis ival_itab)

lemma itab_ival_mod: "itab (length t) (int (uval t)) = t"
  by (metis utab_itab utab_uval)

text \<open>Addition, subtraction and multiplication commute with the reading.\<close>

lemma itab_add_multiple: "itab n (x + k * int (W ^ n)) = itab n x"
  by (rule itab_cong) simp

lemma utab_add_itab: "length s = length t \<Longrightarrow> utab (length t) (uval t + uval s) = itab (length t) (ival t + ival s)"
  by (metis (no_types) utab_itab itab_cong of_nat_add ival_cong_uval mod_add_eq)

lemma utab_sub_itab:
  assumes "y \<le> W ^ length t"
  shows "utab (length t) (uval t + W ^ length t - y) = itab (length t) (ival t - int y)"
proof -
  let ?N = "int (W ^ length t)"
  have "int (uval t + W ^ length t - y) = int (uval t) - int y + 1 * ?N" using assms by simp
  moreover have "(int (uval t) - int y) mod ?N = (ival t - int y) mod ?N"
    by (metis ival_cong_uval mod_diff_left_eq)
  ultimately show ?thesis by (metis utab_itab itab_add_multiple itab_cong)
qed

section \<open>Special values and the sign\<close>

definition Int_SetMax :: "utable \<Rightarrow> utable" where
  "Int_SetMax table = (let table = UInt_SetMax table in table[length table - 1 := NOT TTMATH_UINT_HIGHEST_BIT])"

definition Int_SetMin :: "utable \<Rightarrow> utable" where
  "Int_SetMin table = (let table = UInt_SetZero table in table[length table - 1 := TTMATH_UINT_HIGHEST_BIT])"

definition Int_SetSignOne :: "utable \<Rightarrow> utable" where
  "Int_SetSignOne table = UInt_SetMax table"

definition Int_ChangeSign :: "utable \<Rightarrow> uint \<times> utable" where
  "Int_ChangeSign table =
     (if UInt_IsOnlyTheHighestBitSet table then (1, table)
      else let temp = table;
               table = UInt_SetZero table;
               (_, table) = UInt_Sub table temp 0
           in (0, table))"

definition Int_IsSign :: "utable \<Rightarrow> bool" where
  "Int_IsSign table = UInt_IsTheHighestBitSet table"

definition Int_SetSign :: "utable \<Rightarrow> utable" where
  "Int_SetSign table = (if Int_IsSign table then table else snd (Int_ChangeSign table))"

definition Int_Abs :: "utable \<Rightarrow> uint \<times> utable" where
  "Int_Abs table = (if \<not> Int_IsSign table then (0, table) else Int_ChangeSign table)"

lemma IsSign_iff [simp]:
  assumes "t \<noteq> []"
  shows "Int_IsSign t = (ival t < 0)"
proof -
  have "W ^ length t div 2 \<le> uval t \<longleftrightarrow> \<not> 2 * uval t < W ^ length t"
    using even_W_power [of "length t"] assms by fastforce
  moreover have "ival t < 0 \<longleftrightarrow> \<not> 2 * uval t < W ^ length t"
    using uval_less [of t] by (simp add: ival_def)
  ultimately show ?thesis using IsTheHighestBitSet_iff [OF assms] by (simp add: Int_IsSign_def)
qed

text \<open>The smallest value is the only one without an opposite.\<close>

lemma IsOnlyTheHighestBitSet_ival:
  assumes "t \<noteq> []"
  shows "UInt_IsOnlyTheHighestBitSet t = (2 * ival t = - int (W ^ length t))"
proof -
  have "uval t = W ^ length t div 2 \<longleftrightarrow> 2 * uval t = W ^ length t"
    using even_W_power [of "length t"] assms by fastforce
  moreover have "2 * ival t = - int (W ^ length t) \<longleftrightarrow> 2 * uval t = W ^ length t"
    by (auto simp: ival_def simp del: of_nat_power)
  ultimately show ?thesis using IsOnlyTheHighestBitSet_iff [OF assms] by simp
qed

lemma fits_uminus: "fits n x \<Longrightarrow> fits n (- x) \<longleftrightarrow> 2 * x \<noteq> - int (W ^ n)"
  by (auto simp: fits_def simp del: of_nat_power)

lemma ChangeSign_result [int_results]:
  assumes "t \<noteq> []"
  shows "Int_ChangeSign t = (of_bool (\<not> fits (length t) (- ival t)), itab (length t) (- ival t))"
proof (cases "2 * ival t = - int (W ^ length t)")
  case True
  then have "- ival t = ival t + 1 * int (W ^ length t)" by simp
  then have "itab (length t) (- ival t) = t" by (metis itab_add_multiple itab_ival)
  then show ?thesis using True fits_uminus [OF ival_bounds, of t] IsOnlyTheHighestBitSet_ival [OF assms]
    by (simp add: Int_ChangeSign_def)
next
  case False
  let ?z = "replicate (length t) 0 :: utable"
  have z: "ival ?z = 0" by (simp add: ival_def)
  have "snd (UInt_Sub ?z t 0) = itab (length t) (- ival t)"
  proof -
    have "snd (UInt_Sub ?z t 0) = utab (length ?z) (uval ?z + W ^ length ?z - uval t)"
      using Sub_result [of t ?z 0] assms by (simp add: borrow_result_def)
    also have "\<dots> = itab (length ?z) (ival ?z - int (uval t))"
      using uval_less [of t] by (intro utab_sub_itab) simp
    also have "\<dots> = itab (length t) (- int (uval t))" by (simp only: length_replicate z diff_0)
    also have "\<dots> = itab (length t) (- ival t)"
      by (rule itab_cong) (metis ival_cong_uval mod_minus_eq)
    finally show ?thesis .
  qed
  then show ?thesis using False fits_uminus [OF ival_bounds, of t] IsOnlyTheHighestBitSet_ival [OF assms]
    by (simp add: Int_ChangeSign_def Let_def split_beta)
qed

lemma SetSign_result [int_results]:
  assumes "t \<noteq> []"
  shows "Int_SetSign t = itab (length t) (- \<bar>ival t\<bar>)"
  using assms ChangeSign_result [OF assms] by (simp add: Int_SetSign_def)

lemma Abs_result [int_results]:
  assumes "t \<noteq> []"
  shows "Int_Abs t = (of_bool (\<not> fits (length t) \<bar>ival t\<bar>), itab (length t) \<bar>ival t\<bar>)"
  using assms ChangeSign_result [OF assms] ival_bounds [of t] by (simp add: Int_Abs_def)

text \<open>Read without a sign, the absolute value is right even for the smallest value.\<close>

lemma Abs_uval:
  assumes "t \<noteq> []"
  shows "uval (snd (Int_Abs t)) = nat \<bar>ival t\<bar>"
proof -
  have "0 \<le> \<bar>ival t\<bar>" "\<bar>ival t\<bar> < int (W ^ length t)"
    using ival_bounds [of t] int_W_power_pos [of "length t"] by (simp_all only: fits_def) linarith+
  then have "\<bar>ival t\<bar> mod int (W ^ length t) = \<bar>ival t\<bar>" by (rule mod_pos_pos_trivial)
  then show ?thesis using uval_itab [of "length t" "\<bar>ival t\<bar>"] Abs_result [OF assms] by simp
qed

lemma SetMin_result:
  assumes "t \<noteq> []"
  shows "length (Int_SetMin t) = length t" "2 * ival (Int_SetMin t) = - int (W ^ length t)"
proof -
  let ?z = "replicate (length t) 0 :: utable"
  show l: "length (Int_SetMin t) = length t" by (simp add: Int_SetMin_def)
  have "uval (Int_SetMin t) = W ^ (length t - 1) * 2 ^ 63"
    using uval_update [of "length t - 1" ?z "TTMATH_UINT_HIGHEST_BIT"] assms
    by (simp add: Int_SetMin_def TTMATH_UINT_HIGHEST_BIT_def)
  moreover have "W ^ length t = W * W ^ (length t - 1)" using assms by (cases t) simp_all
  ultimately have "2 * uval (Int_SetMin t) = W ^ length t" by (simp add: W_def)
  then show "2 * ival (Int_SetMin t) = - int (W ^ length t)"
    by (auto simp: ival_def l simp del: of_nat_power)
qed

lemma SetMax_result:
  assumes "t \<noteq> []"
  shows "length (Int_SetMax t) = length t" "2 * ival (Int_SetMax t) = int (W ^ length t) - 2"
proof -
  let ?m = "UInt_SetMax t" and ?k = "length t - 1"
  have lm: "length ?m = length t" by (simp add: UInt_SetMax_def)
  show l: "length (Int_SetMax t) = length t" by (simp add: Int_SetMax_def lm)
  have k: "W ^ length t = W * W ^ ?k" using assms by (cases t) simp_all
  have "?m ! ?k = TTMATH_UINT_MAX_VALUE" using assms by (simp add: UInt_SetMax_def)
  then have "uval (Int_SetMax t) + W ^ ?k * (W - 1) = W ^ length t - 1 + W ^ ?k * (2 ^ 63 - 1)"
    using uval_update [of ?k ?m "NOT TTMATH_UINT_HIGHEST_BIT"] assms
    by (simp add: Int_SetMax_def lm SetMax_value unat_max_value Let_def) (simp add: TTMATH_UINT_HIGHEST_BIT_def W_def)
  moreover have "0 < W ^ ?k" by simp
  moreover have "W ^ ?k * (W - 1) + W ^ ?k = W ^ length t" "2 * (W ^ ?k * (2 ^ 63 - 1)) + 2 * W ^ ?k = W ^ length t"
    unfolding k by (simp_all add: W_def)
  ultimately have "2 * uval (Int_SetMax t) + 2 = W ^ length t" by linarith
  then have "2 * int (uval (Int_SetMax t)) + 2 = int (W ^ length t)" by linarith
  then show "2 * ival (Int_SetMax t) = int (W ^ length t) - 2"
    using ival_cases(1) [of "Int_SetMax t"] by (simp only: l)
qed

lemma SetSignOne_result [int_results]:
  assumes "t \<noteq> []"
  shows "ival (Int_SetSignOne t) = - 1"
proof -
  have "uval (UInt_SetMax t) + 1 = W ^ length t" by (simp add: SetMax_value Suc_le_eq)
  moreover have l: "length (UInt_SetMax t) = length t" by (simp add: UInt_SetMax_def)
  moreover have "2 \<le> W ^ length t" using assms W_power_mono [of 1 "length t"] by (simp add: Suc_le_eq W_def)
  ultimately have "int (uval (UInt_SetMax t)) = int (W ^ length t) - 1"
    "int (W ^ length t) \<le> 2 * int (uval (UInt_SetMax t))" by linarith+
  then show ?thesis using ival_cases(2) [of "UInt_SetMax t"] by (simp add: Int_SetSignOne_def l)
qed

section \<open>Addition and subtraction\<close>

definition Int_CorrectCarryAfterAdding :: "utable \<Rightarrow> bool \<Rightarrow> bool \<Rightarrow> uint" where
  "Int_CorrectCarryAfterAdding table p1_is_sign p2_is_sign =
     (if \<not> p1_is_sign \<and> \<not> p2_is_sign \<and> UInt_IsTheHighestBitSet table then 1
      else if p1_is_sign \<and> p2_is_sign \<and> \<not> UInt_IsTheHighestBitSet table then 1
      else 0)"

definition Int_Add :: "utable \<Rightarrow> utable \<Rightarrow> uint \<times> utable" where
  "Int_Add table ss2 =
     (let p1_is_sign = Int_IsSign table;
          p2_is_sign = Int_IsSign ss2;
          (_, table) = UInt_Add table ss2 0
      in (Int_CorrectCarryAfterAdding table p1_is_sign p2_is_sign, table))"

definition Int_AddInt :: "utable \<Rightarrow> uint \<Rightarrow> nat \<Rightarrow> (uint \<times> utable) option" where
  "Int_AddInt table v index =
     (let p1_is_sign = Int_IsSign table
      in do {
        (_, table) \<leftarrow> UInt_AddInt table v index;
        Some (Int_CorrectCarryAfterAdding table p1_is_sign False, table)
      })"

definition Int_AddTwoInts :: "utable \<Rightarrow> uint \<Rightarrow> uint \<Rightarrow> nat \<Rightarrow> (uint \<times> utable) option" where
  "Int_AddTwoInts table x2 x1 index =
     (let p1_is_sign = Int_IsSign table
      in do {
        (_, table) \<leftarrow> UInt_AddTwoInts table x2 x1 index;
        Some (Int_CorrectCarryAfterAdding table p1_is_sign False, table)
      })"

definition Int_CorrectCarryAfterSubtracting :: "utable \<Rightarrow> bool \<Rightarrow> bool \<Rightarrow> uint" where
  "Int_CorrectCarryAfterSubtracting table p1_is_sign p2_is_sign =
     (if \<not> p1_is_sign \<and> p2_is_sign \<and> UInt_IsTheHighestBitSet table then 1
      else if p1_is_sign \<and> \<not> p2_is_sign \<and> \<not> UInt_IsTheHighestBitSet table then 1
      else 0)"

definition Int_Sub :: "utable \<Rightarrow> utable \<Rightarrow> uint \<times> utable" where
  "Int_Sub table ss2 =
     (let p1_is_sign = Int_IsSign table;
          p2_is_sign = Int_IsSign ss2;
          (_, table) = UInt_Sub table ss2 0
      in (Int_CorrectCarryAfterSubtracting table p1_is_sign p2_is_sign, table))"

definition Int_SubInt :: "utable \<Rightarrow> uint \<Rightarrow> nat \<Rightarrow> (uint \<times> utable) option" where
  "Int_SubInt table v index =
     (let p1_is_sign = Int_IsSign table
      in do {
        (_, table) \<leftarrow> UInt_SubInt table v index;
        Some (Int_CorrectCarryAfterSubtracting table p1_is_sign False, table)
      })"

definition Int_AddOne :: "utable \<Rightarrow> (uint \<times> utable) option" where
  "Int_AddOne table =
     (let p1_is_sign = Int_IsSign table
      in do {
        (_, table) \<leftarrow> UInt_AddOne table;
        Some (Int_CorrectCarryAfterAdding table p1_is_sign False, table)
      })"

definition Int_SubOne :: "utable \<Rightarrow> (uint \<times> utable) option" where
  "Int_SubOne table =
     (let p1_is_sign = Int_IsSign table
      in do {
        (_, table) \<leftarrow> UInt_SubOne table;
        Some (Int_CorrectCarryAfterSubtracting table p1_is_sign False, table)
      })"

text \<open>The highest bit after a sum or difference of two numbers of the range.\<close>

lemma highest_bit_itab:
  assumes "0 < n" "- int (W ^ n) \<le> z" "z < int (W ^ n)"
  shows "UInt_IsTheHighestBitSet (itab n z)
    \<longleftrightarrow> - int (W ^ n) \<le> 2 * z \<and> z < 0 \<or> int (W ^ n) \<le> 2 * z"
proof -
  let ?N = "int (W ^ n)"
  have "even ?N" using even_W_power [OF assms(1)] by simp
  then have "?N \<le> 2 * x \<longleftrightarrow> ?N div 2 \<le> x" for x by fastforce
  moreover have "UInt_IsTheHighestBitSet (itab n z) \<longleftrightarrow> ?N div 2 \<le> int (uval (itab n z))"
  proof -
    have "?N div 2 = int (W ^ n div 2)" by (simp only: zdiv_int of_nat_numeral)
    then show ?thesis
      using IsTheHighestBitSet_iff [of "itab n z"] assms(1) by (simp only: length_itab of_nat_le_iff) simp
  qed
  ultimately have h: "UInt_IsTheHighestBitSet (itab n z) \<longleftrightarrow> ?N \<le> 2 * (z mod ?N)"
    by (simp only: uval_itab)
  show ?thesis
  proof (cases "0 \<le> z")
    case True
    then show ?thesis using h assms(3) by (simp add: mod_pos_pos_trivial)
  next
    case False
    then have "(z + ?N) mod ?N = z + ?N" using assms(2) by (intro mod_pos_pos_trivial) linarith+
    then have "z mod ?N = z + ?N" by simp
    then show ?thesis unfolding h using False assms(2) by linarith
  qed
qed

lemma CorrectCarryAfterAdding_itab:
  assumes "0 < n" "fits n a" "fits n b"
  shows "Int_CorrectCarryAfterAdding (itab n (a + b)) (a < 0) (b < 0) = of_bool (\<not> fits n (a + b))"
proof -
  let ?N = "int (W ^ n)"
  have b: "- ?N \<le> 2 * a" "2 * a < ?N" "- ?N \<le> 2 * b" "2 * b < ?N"
    using assms(2,3) by (simp_all only: fits_def)
  then have "- ?N \<le> a + b" "a + b < ?N" by linarith+
  note h = highest_bit_itab [OF assms(1) this]
  have e: "\<not> fits n (a + b) \<longleftrightarrow> (\<not> a < 0 \<and> \<not> b < 0 \<and> UInt_IsTheHighestBitSet (itab n (a + b)))
      \<or> (a < 0 \<and> b < 0 \<and> \<not> UInt_IsTheHighestBitSet (itab n (a + b)))"
    unfolding h fits_def using b by presburger
  show ?thesis unfolding e Int_CorrectCarryAfterAdding_def by simp
qed

lemma CorrectCarryAfterSubtracting_itab:
  assumes "0 < n" "fits n a" "fits n b"
  shows "Int_CorrectCarryAfterSubtracting (itab n (a - b)) (a < 0) (b < 0) = of_bool (\<not> fits n (a - b))"
proof -
  let ?N = "int (W ^ n)"
  have b: "- ?N \<le> 2 * a" "2 * a < ?N" "- ?N \<le> 2 * b" "2 * b < ?N"
    using assms(2,3) by (simp_all only: fits_def)
  then have "- ?N \<le> a - b" "a - b < ?N" by linarith+
  note h = highest_bit_itab [OF assms(1) this]
  have e: "\<not> fits n (a - b) \<longleftrightarrow> (\<not> a < 0 \<and> b < 0 \<and> UInt_IsTheHighestBitSet (itab n (a - b)))
      \<or> (a < 0 \<and> \<not> b < 0 \<and> \<not> UInt_IsTheHighestBitSet (itab n (a - b)))"
    unfolding h fits_def using b by presburger
  show ?thesis unfolding e Int_CorrectCarryAfterSubtracting_def by simp
qed

lemma utab_add_ival: "utab (length t) (uval t + y) = itab (length t) (ival t + int y)"
  by (metis (no_types) utab_itab itab_cong of_nat_add ival_cong_uval mod_add_left_eq)

lemma fits_word: "2 * y < W ^ n \<Longrightarrow> fits n (int y)"
proof -
  assume "2 * y < W ^ n"
  then have "2 * int y < int (W ^ n)" by linarith
  then show ?thesis using int_W_power_pos [of n] unfolding fits_def by linarith
qed

lemma Add_ival [int_results]:
  assumes "length s = length t" "t \<noteq> []"
  shows "Int_Add t s = (of_bool (\<not> fits (length t) (ival t + ival s)), itab (length t) (ival t + ival s))"
proof -
  have "s \<noteq> []" using assms by auto
  have "UInt_Add t s 0 = carry_result (length t) (uval t + uval s)" using Add_result [OF assms, of 0] by simp
  then have "snd (UInt_Add t s 0) = itab (length t) (ival t + ival s)"
    by (simp add: carry_result_def utab_add_itab [OF assms(1)])
  then show ?thesis
    using CorrectCarryAfterAdding_itab [of "length t" "ival t" "ival s"] ival_bounds [of t] ival_bounds [of s]
      assms \<open>s \<noteq> []\<close>
    by (simp add: Int_Add_def split_beta)
qed

lemma Sub_ival [int_results]:
  assumes "length s = length t" "t \<noteq> []"
  shows "Int_Sub t s = (of_bool (\<not> fits (length t) (ival t - ival s)), itab (length t) (ival t - ival s))"
proof -
  have "s \<noteq> []" using assms by auto
  have "UInt_Sub t s 0 = borrow_result (length t) (uval t) (uval s)" using Sub_result [OF assms, of 0] by simp
  moreover have "uval s \<le> W ^ length t" using uval_less [of s] assms(1) by simp
  ultimately have "snd (UInt_Sub t s 0) = itab (length t) (ival t - int (uval s))"
    by (simp add: borrow_result_def utab_sub_itab)
  also have "\<dots> = itab (length t) (ival t - ival s)"
    by (rule itab_cong) (metis assms(1) ival_cong_uval mod_diff_right_eq)
  finally show ?thesis
    using CorrectCarryAfterSubtracting_itab [of "length t" "ival t" "ival s"] ival_bounds [of t] ival_bounds [of s]
      assms \<open>s \<noteq> []\<close>
    by (simp add: Int_Sub_def split_beta)
qed

text \<open>
  One unsigned word. The carry is right as long as the added amount is in the range itself: the
  word is taken for a number without a sign bit.
\<close>

lemma AddInt_ival:
  assumes "i < length t" "2 * (W ^ i * unat v) < W ^ length t"
  defines "x \<equiv> ival t + int (W ^ i * unat v)"
  shows "Int_AddInt t v i = Some (of_bool (\<not> fits (length t) x), itab (length t) x)"
proof -
  have "t \<noteq> []" using assms(1) by auto
  moreover have "UInt_AddInt t v i = Some (of_nat ((uval t + W ^ i * unat v) div W ^ length t), itab (length t) x)"
    using AddInt_result [OF assms(1), of v] by (simp only: carry_result_def utab_add_ival x_def)
  moreover have "\<not> int (W ^ i * unat v) < 0" by (simp only: not_less of_nat_0_le_iff)
  ultimately show ?thesis
    using CorrectCarryAfterAdding_itab [of "length t" "ival t" "int (W ^ i * unat v)", OF _ ival_bounds fits_word]
      assms(2) by (simp add: Int_AddInt_def x_def)
qed

lemma AddTwoInts_ival:
  assumes "Suc i < length t" "2 * (W ^ i * (unat x1 + W * unat x2)) < W ^ length t"
  defines "x \<equiv> ival t + int (W ^ i * (unat x1 + W * unat x2))"
  shows "Int_AddTwoInts t x2 x1 i = Some (of_bool (\<not> fits (length t) x), itab (length t) x)"
proof -
  let ?y = "W ^ i * (unat x1 + W * unat x2)"
  have "t \<noteq> []" using assms(1) by auto
  moreover have "UInt_AddTwoInts t x2 x1 i = Some (of_nat ((uval t + ?y) div W ^ length t), itab (length t) x)"
    using AddTwoInts_result [OF assms(1), of x2 x1] by (simp only: carry_result_def utab_add_ival x_def)
  moreover have "\<not> int ?y < 0" by (simp only: not_less of_nat_0_le_iff)
  ultimately show ?thesis
    using CorrectCarryAfterAdding_itab [of "length t" "ival t" "int ?y", OF _ ival_bounds fits_word]
      assms(2) by (simp add: Int_AddTwoInts_def x_def)
qed

lemma SubInt_ival:
  assumes "i < length t" "2 * (W ^ i * unat v) < W ^ length t"
  defines "x \<equiv> ival t - int (W ^ i * unat v)"
  shows "Int_SubInt t v i = Some (of_bool (\<not> fits (length t) x), itab (length t) x)"
proof -
  have "t \<noteq> []" using assms(1) by auto
  moreover have "UInt_SubInt t v i = Some (of_bool (uval t < W ^ i * unat v), itab (length t) x)"
    using SubInt_result [OF assms(1), of v] assms(2) by (simp only: borrow_result_def x_def) (simp add: utab_sub_itab)
  moreover have "\<not> int (W ^ i * unat v) < 0" by (simp only: not_less of_nat_0_le_iff)
  ultimately show ?thesis
    using CorrectCarryAfterSubtracting_itab [of "length t" "ival t" "int (W ^ i * unat v)", OF _ ival_bounds fits_word]
      assms(2) by (simp add: Int_SubInt_def x_def)
qed

lemma one_in_range: "t \<noteq> [] \<Longrightarrow> 2 * (W ^ 0 * unat (1 :: uint)) < W ^ length t"
  using W_power_mono [of 1 "length t"] by (simp add: Suc_le_eq W_def)

lemma AddOne_ival [int_results]:
  assumes "t \<noteq> []"
  shows "Int_AddOne t = Some (of_bool (\<not> fits (length t) (ival t + 1)), itab (length t) (ival t + 1))"
  using AddInt_ival [of 0 t 1] one_in_range [OF assms] assms
  by (simp add: Int_AddOne_def Int_AddInt_def UInt_AddOne_def)

lemma SubOne_ival [int_results]:
  assumes "t \<noteq> []"
  shows "Int_SubOne t = Some (of_bool (\<not> fits (length t) (ival t - 1)), itab (length t) (ival t - 1))"
  using SubInt_ival [of 0 t 1] one_in_range [OF assms] assms
  by (simp add: Int_SubOne_def Int_SubInt_def UInt_SubOne_def)

text \<open>A word with its highest bit set, added at the top: the overflow is not reported.\<close>

lemma AddInt_missed_carry:
  "Int_AddInt [TTMATH_UINT_MAX_VALUE] TTMATH_UINT_MAX_VALUE 0 = Some (0, [TTMATH_UINT_MAX_VALUE - 1])"
  "\<not> fits 1 (ival [TTMATH_UINT_MAX_VALUE] + int (unat TTMATH_UINT_MAX_VALUE))"
  by code_simp (simp add: fits_def ival_def W_def TTMATH_UINT_MAX_VALUE_def)

end
