(* ===== verification/Int_Arith.thy ===== *)
theory Int_Arith
  imports Int_Basic "HOL-Library.Signed_Division"
begin

text \<open>
  Multiplication, division and power of \<^verbatim>\<open>Int\<close> (\<^verbatim>\<open>ttmathint.h\<close>). All three work on
  absolute values with the unsigned operation of \<^verbatim>\<open>UInt\<close> and put the sign back. Division is the
  truncated one, \<open>sdiv\<close> and \<open>smod\<close> on the integers. The negation of the smallest \<^verbatim>\<open>sint\<close> in
  \<^verbatim>\<open>MulInt\<close> and \<^verbatim>\<open>DivInt\<close> is the wrapped one, as the machine computes it.
\<close>

section \<open>Multiplication\<close>

definition Int_CheckMinCarry :: "utable \<Rightarrow> bool \<Rightarrow> bool \<Rightarrow> uint" where
  "Int_CheckMinCarry table ss1_is_sign ss2_is_sign =
     (if Int_IsSign table
      then if ss1_is_sign \<noteq> ss2_is_sign
           then if \<not> UInt_IsOnlyTheHighestBitSet table then 1 else 0
           else 1
      else 0)"

definition Int_MulInt :: "utable \<Rightarrow> sint \<Rightarrow> (uint \<times> utable) option" where
  "Int_MulInt table ss2 =
     (let ss1_is_sign = Int_IsSign table;
          (_, table) = Int_Abs table;
          (ss2, ss2_is_sign) = (if ss2 <s 0 then (- ss2, True) else (ss2, False))
      in do {
        (c, table) \<leftarrow> UInt_MulInt table ss2;
        let c = c + Int_CheckMinCarry table ss1_is_sign ss2_is_sign;
        Some (c, if ss1_is_sign \<noteq> ss2_is_sign then Int_SetSign table else table)
      })"

definition Int_Mul :: "utable \<Rightarrow> utable \<Rightarrow> (uint \<times> utable) option" where
  "Int_Mul table ss2 =
     (let ss1_is_sign = Int_IsSign table;
          ss2_is_sign = Int_IsSign ss2;
          (_, table) = Int_Abs table;
          (_, ss2) = Int_Abs ss2
      in do {
        (c, table) \<leftarrow> UInt_Mul table ss2 100;
        let c = c + Int_CheckMinCarry table ss1_is_sign ss2_is_sign;
        Some (c, if ss1_is_sign \<noteq> ss2_is_sign then Int_SetSign table else table)
      })"

section \<open>Division\<close>

definition Int_Div :: "utable \<Rightarrow> utable \<Rightarrow> utable option \<Rightarrow> (uint \<times> utable \<times> utable option) option" where
  "Int_Div table ss2 remainder =
     (let ss1_is_sign = Int_IsSign table;
          ss2_is_sign = Int_IsSign ss2;
          (_, table) = Int_Abs table;
          (_, ss2) = Int_Abs ss2
      in do {
        (c, table, remainder) \<leftarrow> UInt_Div table ss2 remainder 3;
        Some (c, if ss1_is_sign \<noteq> ss2_is_sign then Int_SetSign table else table,
              if ss1_is_sign then map_option Int_SetSign remainder else remainder)
      })"

definition Int_DivInt :: "utable \<Rightarrow> sint \<Rightarrow> sint option \<Rightarrow> (uint \<times> utable \<times> sint option) option" where
  "Int_DivInt table ss2 remainder =
     (let ss1_is_sign = Int_IsSign table;
          (_, table) = Int_Abs table;
          (ss2, ss2_is_sign) = (if ss2 <s 0 then (- ss2, True) else (ss2, False))
      in do {
        (c, table, rm) \<leftarrow> UInt_DivInt table ss2 (Some 0);
        Some (c, if ss1_is_sign \<noteq> ss2_is_sign then Int_SetSign table else table,
              put_remainder remainder (if ss1_is_sign then - the rm else the rm))
      })"

section \<open>Power\<close>

definition Int_Pow2 :: "utable \<Rightarrow> utable \<Rightarrow> (uint \<times> utable) option" where
  "Int_Pow2 table pow =
     (let was_sign = Int_IsSign table;
          (c, table) = (if was_sign then Int_Abs table else (0, table))
      in do {
        (c_temp, table) \<leftarrow> UInt_Pow table pow;
        if c_temp > 0 then Some (c_temp, table)
        else let (c, table) = (if was_sign \<and> pow ! 0 AND 1 = 1
                               then let (d, table) = Int_ChangeSign table in (c + d, table)
                               else (c, table))
             in Some (if c = 0 then 0 else 1, table)
      })"

definition Int_Pow :: "utable \<Rightarrow> utable \<Rightarrow> (uint \<times> utable) option" where
  "Int_Pow table pow =
     (if \<not> Int_IsSign pow then Int_Pow2 table pow
      else if UInt_IsZero table then Some (2, table)
      else let (d, pow) = Int_ChangeSign pow
           in if d \<noteq> 0 then Some (1, table)
              else do {
                (c_temp, t) \<leftarrow> Int_Pow2 table pow;
                if c_temp > 0 then Some (c_temp, table)
                else do {
                  (c, table, _) \<leftarrow> Int_Div (UInt_SetOne table) t None;
                  Some (if c \<noteq> 0 then 1 else 0, table)
                }
              })"

section \<open>Putting the sign back\<close>

definition signed_value :: "bool \<Rightarrow> nat \<Rightarrow> int" where
  "signed_value neg m = (if neg then - int m else int m)"

lemma Abs_snd:
  assumes "t \<noteq> []"
  shows "snd (Int_Abs t) = utab (length t) (nat \<bar>ival t\<bar>)"
  using Abs_result [OF assms] by (simp add: utab_itab)

lemma ival_utab:
  assumes "m < W ^ n"
  shows "2 * int m < int (W ^ n) \<Longrightarrow> ival (utab n m) = int m"
    and "int (W ^ n) \<le> 2 * int m \<Longrightarrow> ival (utab n m) = int m - int (W ^ n)"
  using ival_cases [of "utab n m"] uval_utab_exact [OF assms] by simp_all

lemma SetSign_utab:
  assumes "0 < n" "m < W ^ n" "2 * m \<le> W ^ n"
  shows "Int_SetSign (utab n m) = itab n (- int m)"
proof -
  have "2 * int m \<le> int (W ^ n)" using assms(3) by linarith
  then have "\<bar>ival (utab n m)\<bar> = int m"
    using ival_utab [OF assms(2)] by (cases "2 * int m < int (W ^ n)") auto
  then show ?thesis using SetSign_result [of "utab n m"] assms(1) by simp
qed

lemma CheckMinCarry_utab:
  assumes "0 < n" "m < W ^ n"
  shows "Int_CheckMinCarry (utab n m) s1 s2 = of_bool (\<not> fits n (signed_value (s1 \<noteq> s2) m))"
proof -
  let ?N = "int (W ^ n)"
  have ne: "utab n m \<noteq> []" using assms(1) by simp
  have sign: "Int_IsSign (utab n m) \<longleftrightarrow> ?N \<le> 2 * int m"
    using ival_utab [OF assms(2)] assms(2) ne by (cases "2 * int m < ?N") (simp_all add: of_nat_less_iff [symmetric] del: of_nat_power of_nat_less_iff)
  have only: "UInt_IsOnlyTheHighestBitSet (utab n m) \<longleftrightarrow> ?N = 2 * int m"
  proof -
    have "W ^ n div 2 = m \<longleftrightarrow> W ^ n = 2 * m" using even_W_power [OF assms(1)] by fastforce
    then show ?thesis using IsOnlyTheHighestBitSet_iff [OF ne] uval_utab_exact [OF assms(2)]
      by (auto simp del: of_nat_power)
  qed
  have "?N > 0" by simp
  then show ?thesis unfolding Int_CheckMinCarry_def sign only
    by (cases "s1 = s2") (auto simp: signed_value_def fits_def simp del: of_nat_power)
qed

lemma signed_product: "signed_value ((a < 0) \<noteq> (b < 0)) (nat \<bar>a\<bar> * nat \<bar>b\<bar>) = a * b"
  by (auto simp: signed_value_def abs_if)

lemma fits_signed_value: "\<not> m < W ^ n \<Longrightarrow> 0 < n \<Longrightarrow> \<not> fits n (signed_value s m)"
proof -
  assume "\<not> m < W ^ n"
  then have "int (W ^ n) \<le> int m" by linarith
  then show "\<not> fits n (signed_value s m)"
    using int_W_power_pos [of n] unfolding fits_def signed_value_def by (simp only: split: if_split) linarith
qed

lemma signed_back:
  assumes "0 < n" "fits n (signed_value (s1 \<noteq> s2) m)"
  shows "(if s1 \<noteq> s2 then Int_SetSign (utab n m) else utab n m) = itab n (signed_value (s1 \<noteq> s2) m)"
proof -
  have m: "m < W ^ n" using fits_signed_value [of m n] assms by blast
  show ?thesis
  proof (cases "s1 = s2")
    case True
    then show ?thesis by (simp add: signed_value_def utab_itab)
  next
    case False
    then have "2 * int m \<le> int (W ^ n)" using assms(2) by (simp add: signed_value_def fits_def del: of_nat_power)
    then have "2 * m \<le> W ^ n" by linarith
    then show ?thesis using SetSign_utab [OF assms(1) m] False by (simp add: signed_value_def)
  qed
qed

text \<open>What is common to the two multiplications.\<close>

lemma signed_mul_result:
  fixes m n :: nat and s1 s2 :: bool
  assumes "0 < n"
  defines "x \<equiv> signed_value (s1 \<noteq> s2) m"
  defines "c \<equiv> of_bool (W ^ n \<le> m) + Int_CheckMinCarry (utab n m) s1 s2"
  shows "c = 0 \<longleftrightarrow> fits n x"
    and "fits n x \<Longrightarrow> (if s1 \<noteq> s2 then Int_SetSign (utab n m) else utab n m) = itab n x"
proof -
  show "fits n x \<Longrightarrow> (if s1 \<noteq> s2 then Int_SetSign (utab n m) else utab n m) = itab n x"
    unfolding x_def by (rule signed_back [OF assms(1)])
  show "c = 0 \<longleftrightarrow> fits n x"
  proof (cases "m < W ^ n")
    case True
    then show ?thesis using CheckMinCarry_utab [OF assms(1) True] by (simp add: c_def x_def)
  next
    case False
    have "Int_CheckMinCarry (utab n m) s1 s2 \<in> {0, 1}" by (simp add: Int_CheckMinCarry_def)
    then show ?thesis using False fits_signed_value [OF False assms(1)] by (auto simp: c_def x_def)
  qed
qed

lemma Mul_ival [int_results]:
  assumes "length s = length t" "t \<noteq> []"
  shows "\<exists>c r. Int_Mul t s = Some (c, r) \<and> (c = 0 \<longleftrightarrow> fits (length t) (ival t * ival s)) \<and>
    (fits (length t) (ival t * ival s) \<longrightarrow> r = itab (length t) (ival t * ival s))"
proof -
  have ne: "s \<noteq> []" using assms by auto
  let ?n = "length t" and ?m = "nat \<bar>ival t\<bar> * nat \<bar>ival s\<bar>"
  have "UInt_Mul (snd (Int_Abs t)) (snd (Int_Abs s)) 100 = Some (of_bool (W ^ ?n \<le> ?m), utab ?n ?m)"
    using Mul_default_result [of "snd (Int_Abs s)" "snd (Int_Abs t)"] assms Abs_uval [OF assms(2)] Abs_uval [OF ne]
      Abs_snd [OF assms(2)] Abs_snd [OF ne] by (simp add: uval_utab_exact)
  then have "Int_Mul t s = Some (of_bool (W ^ ?n \<le> ?m) + Int_CheckMinCarry (utab ?n ?m) (ival t < 0) (ival s < 0),
      if (ival t < 0) \<noteq> (ival s < 0) then Int_SetSign (utab ?n ?m) else utab ?n ?m)"
    using assms ne by (simp add: Int_Mul_def Let_def split_beta del: of_bool_eq)
  then show ?thesis
    using signed_mul_result [where n = ?n and m = ?m and ?s1.0 = "ival t < 0" and ?s2.0 = "ival s < 0"] assms(2)
    unfolding signed_product by auto
qed

lemma sint_unat:
  "v <s 0 \<longleftrightarrow> sint (v :: uint) < 0"
  "unat (if v <s 0 then - v else v) = nat \<bar>sint v\<bar>"
proof -
  show s: "v <s 0 \<longleftrightarrow> sint v < 0" by (simp add: word_sless_alt)
  have u: "uint v = sint v mod 2 ^ 64" by (simp add: uint_sint take_bit_eq_mod)
  have b: "- (2 ^ 63) \<le> sint v" "sint v < 2 ^ 63" using sint_range_size [of v] by (simp_all add: word_size)
  show "unat (if v <s 0 then - v else v) = nat \<bar>sint v\<bar>"
  proof (cases "sint v < 0")
    case True
    have "uint (- v) = (- sint v) mod 2 ^ 64"
      by (simp add: uint_word_ariths u mod_minus_eq)
    also have "\<dots> = - sint v" using True b by (intro mod_pos_pos_trivial) simp_all
    finally show ?thesis using True s by (simp add: unat_eq_nat_uint)
  next
    case False
    then have "uint v = sint v" using u b by (simp add: mod_pos_pos_trivial)
    then show ?thesis using False s by (simp add: unat_eq_nat_uint)
  qed
qed

lemma MulInt_ival [int_results]:
  assumes "t \<noteq> []"
  shows "\<exists>c r. Int_MulInt t v = Some (c, r) \<and> (c = 0 \<longleftrightarrow> fits (length t) (ival t * sint v)) \<and>
    (fits (length t) (ival t * sint v) \<longrightarrow> r = itab (length t) (ival t * sint v))"
proof -
  let ?n = "length t" and ?m = "nat \<bar>ival t\<bar> * nat \<bar>sint v\<bar>"
  have "UInt_MulInt (snd (Int_Abs t)) (if v <s 0 then - v else v) = Some (of_bool (W ^ ?n \<le> ?m), utab ?n ?m)"
    using MulInt_result [of "snd (Int_Abs t)" "if v <s 0 then - v else v"] assms Abs_uval [OF assms]
      Abs_snd [OF assms] by (simp add: sint_unat(2) del: of_nat_power)
  then have "Int_MulInt t v = Some (of_bool (W ^ ?n \<le> ?m) + Int_CheckMinCarry (utab ?n ?m) (ival t < 0) (sint v < 0),
      if (ival t < 0) \<noteq> (sint v < 0) then Int_SetSign (utab ?n ?m) else utab ?n ?m)"
    using assms by (cases "sint v < 0") (simp_all add: Int_MulInt_def Let_def split_beta sint_unat(1) del: of_bool_eq)
  then show ?thesis
    using signed_mul_result [where n = ?n and m = ?m and ?s1.0 = "ival t < 0" and ?s2.0 = "sint v < 0"] assms
    unfolding signed_product by auto
qed

section \<open>Division over the integers\<close>

lemma signed_quotient:
  "signed_value ((a < 0) \<noteq> (b < 0)) (nat \<bar>a\<bar> div nat \<bar>b\<bar>) = a sdiv b" for a b :: int
proof -
  have "int (nat \<bar>a\<bar> div nat \<bar>b\<bar>) = \<bar>a\<bar> div \<bar>b\<bar>" by (simp add: zdiv_int)
  then show ?thesis by (auto simp: signed_value_def signed_divide_int_def sgn_if)
qed

lemma signed_remainder:
  "signed_value (a < 0) (nat \<bar>a\<bar> mod nat \<bar>b\<bar>) = a smod b" for a b :: int
proof -
  have "int (nat \<bar>a\<bar> mod nat \<bar>b\<bar>) = \<bar>a\<bar> mod \<bar>b\<bar>" by (simp add: zmod_int)
  then show ?thesis by (auto simp: signed_value_def signed_modulo_int_def sgn_if)
qed

text \<open>A quotient fits, with the wrapped one of the smallest value by \<open>- 1\<close>.\<close>

lemma magnitude_bound: "2 * nat \<bar>ival t\<bar> \<le> W ^ length t"
proof -
  have "2 * \<bar>ival t\<bar> \<le> int (W ^ length t)"
    using ival_bounds [of t] unfolding fits_def by linarith
  then show ?thesis by linarith
qed

lemma quotient_back:
  fixes d :: nat
  assumes "t \<noteq> []"
  defines "m \<equiv> nat \<bar>ival t\<bar> div d"
  shows "(if s1 \<noteq> s2 then Int_SetSign (utab (length t) m) else utab (length t) m)
    = itab (length t) (signed_value (s1 \<noteq> s2) m)"
proof (cases "s1 = s2")
  case True
  then show ?thesis by (simp add: signed_value_def utab_itab)
next
  case False
  have "m \<le> nat \<bar>ival t\<bar>" unfolding m_def by (rule div_le_dividend)
  then have "2 * m \<le> W ^ length t" using magnitude_bound [of t] by linarith
  then have "fits (length t) (signed_value (s1 \<noteq> s2) m)"
  proof -
    have "2 * int m \<le> int (W ^ length t)" using \<open>2 * m \<le> W ^ length t\<close> by linarith
    moreover have "0 < int (W ^ length t)" by simp
    moreover have "signed_value (s1 \<noteq> s2) m = - int m" using False by (simp add: signed_value_def)
    ultimately show ?thesis unfolding fits_def by linarith
  qed
  then show ?thesis using signed_back [of "length t" s1 s2 m] assms(1) by simp
qed

lemma remainder_back:
  fixes d :: nat
  assumes "t \<noteq> []" "0 < d"
  defines "m \<equiv> nat \<bar>ival t\<bar> mod d"
  shows "(if s then Int_SetSign (utab (length t) m) else utab (length t) m) = itab (length t) (signed_value s m)"
proof (cases s)
  case True
  have "m \<le> nat \<bar>ival t\<bar>" unfolding m_def by (rule mod_less_eq_dividend)
  then have "2 * m \<le> W ^ length t" using magnitude_bound [of t] by linarith
  moreover have "m < W ^ length t" using \<open>2 * m \<le> W ^ length t\<close> W_pos
    by (cases "m = 0") simp_all
  ultimately show ?thesis using SetSign_utab [of "length t" m] assms(1) True by (simp add: signed_value_def)
next
  case False
  then show ?thesis by (simp add: signed_value_def utab_itab)
qed

lemma Div_ival:
  assumes "length s = length t" "t \<noteq> []" "ival s \<noteq> 0"
  shows "Int_Div t s rem = Some (0, itab (length t) (ival t sdiv ival s),
    put_remainder rem (itab (length t) (ival t smod ival s)))"
proof -
  have ne: "s \<noteq> []" using assms by auto
  let ?n = "length t" and ?a = "nat \<bar>ival t\<bar>" and ?b = "nat \<bar>ival s\<bar>"
  have b: "0 < ?b" using assms(3) by simp
  have "UInt_Div (snd (Int_Abs t)) (snd (Int_Abs s)) rem 3
      = Some (0, utab ?n (?a div ?b), put_remainder rem (utab ?n (?a mod ?b)))"
    using Div_default_result [of "snd (Int_Abs s)" "snd (Int_Abs t)" 3 rem] assms Abs_uval [OF assms(2)] Abs_uval [OF ne]
      Abs_snd [OF assms(2)] Abs_snd [OF ne] b by (simp add: divided_def)
  then have "Int_Div t s rem = Some (0,
      if (ival t < 0) \<noteq> (ival s < 0) then Int_SetSign (utab ?n (?a div ?b)) else utab ?n (?a div ?b),
      put_remainder rem (if ival t < 0 then Int_SetSign (utab ?n (?a mod ?b)) else utab ?n (?a mod ?b)))"
    using assms(2) ne by (simp add: Int_Div_def Let_def split_beta put_remainder_def option.map_comp comp_def)
  then show ?thesis
    unfolding quotient_back [OF assms(2)] remainder_back [OF assms(2) b] signed_quotient signed_remainder .
qed

text \<open>The quotient is in range but for the smallest value divided by minus one.\<close>

lemma sdiv_units: "(x :: int) sdiv 1 = x" "(x :: int) sdiv (- 1) = - x" "(x :: int) smod (- 1) = 0"
  by (simp_all add: signed_divide_int_def signed_modulo_int_def sgn_mult mult_sgn_abs)

lemma quotient_fits:
  assumes "length s = length t" "ival s \<noteq> 0" "\<not> (2 * ival t = - int (W ^ length t) \<and> ival s = - 1)"
  shows "fits (length t) (ival t sdiv ival s)"
proof -
  let ?q = "ival t sdiv ival s" and ?N = "int (W ^ length t)"
  have b: "- ?N \<le> 2 * ival t" "2 * ival t < ?N" using ival_bounds [of t] by (simp_all only: fits_def)
  consider "ival s = 1" | "ival s = - 1" | "2 \<le> \<bar>ival s\<bar>" using assms(2) by linarith
  then show ?thesis
  proof cases
    case 1
    then show ?thesis using ival_bounds [of t] by (simp only: sdiv_units)
  next
    case 2
    then show ?thesis using assms(3) b unfolding 2 sdiv_units fits_def by linarith
  next
    case 3
    have "\<bar>?q\<bar> = \<bar>ival t\<bar> div \<bar>ival s\<bar>"
      using assms(2) by (cases "ival t = 0") (simp_all add: signed_divide_int_def abs_mult abs_sgn_eq pos_imp_zdiv_nonneg_iff)
    also have "\<dots> \<le> \<bar>ival t\<bar> div 2" using 3 by (intro zdiv_mono2) simp_all
    finally show ?thesis using b int_W_power_pos [of "length t"] unfolding fits_def by linarith
  qed
qed

lemma quotient_wraps:
  assumes "2 * ival t = - int (W ^ length t)"
  shows "itab (length t) (ival t sdiv (- 1)) = t" "ival t smod (- 1) = 0"
proof -
  have "- ival t = ival t + 1 * int (W ^ length t)" using assms by linarith
  then have "itab (length t) (- ival t) = itab (length t) (ival t)" using itab_add_multiple [of "length t" "ival t" 1] by (simp only:)
  then show "itab (length t) (ival t sdiv (- 1)) = t" "ival t smod (- 1) = 0" by (simp_all only: sdiv_units itab_ival)
qed

text \<open>Division by zero leaves the dividend, but not the remainder of a negative one.\<close>

lemma Div_ival_zero:
  assumes "length s = length t" "t \<noteq> []" "ival s = 0"
  shows "Int_Div t s rem = Some (1, t, if ival t < 0 then map_option Int_SetSign rem else rem)"
proof -
  have ne: "s \<noteq> []" using assms by auto
  let ?u = "snd (Int_Abs t)"
  have "UInt_Div ?u (snd (Int_Abs s)) rem 3 = Some (1, ?u, rem)"
    using Div_default_result [of "snd (Int_Abs s)" ?u 3 rem] assms Abs_uval [OF ne]
      Abs_snd [OF assms(2)] Abs_snd [OF ne] by simp
  moreover have "Int_SetSign ?u = t" if "ival t < 0"
  proof -
    have "Int_SetSign ?u = itab (length t) (- int (nat \<bar>ival t\<bar>))"
      unfolding Abs_snd [OF assms(2)] using magnitude_bound [of t] uval_less [of ?u] assms(2) Abs_uval [OF assms(2)] Abs_snd [OF assms(2)]
      by (intro SetSign_utab) simp_all
    then show ?thesis using that by simp
  qed
  moreover have "?u = t" if "\<not> ival t < 0" using that assms(2) by (simp add: Int_Abs_def)
  ultimately show ?thesis using assms ne by (simp add: Int_Div_def Let_def split_beta)
qed

lemma DivInt_ival:
  assumes "t \<noteq> []" "v \<noteq> 0"
  shows "Int_DivInt t v rem = Some (0, itab (length t) (ival t sdiv sint v),
    put_remainder rem (of_int (ival t smod sint v)))"
proof -
  let ?n = "length t" and ?a = "nat \<bar>ival t\<bar>" and ?b = "nat \<bar>sint v\<bar>" and ?v = "if v <s 0 then - v else v"
  have v: "?v \<noteq> 0" using assms(2) by simp
  have "UInt_DivInt (snd (Int_Abs t)) ?v (Some 0) = Some (0, utab ?n (?a div ?b), Some (of_nat (?a mod ?b)))"
    using DivInt_result [of "snd (Int_Abs t)" ?v "Some 0"] assms(1) v Abs_uval [OF assms(1)] Abs_snd [OF assms(1)]
    by (simp only: sint_unat(2)) (simp add: put_remainder_def)
  then have "Int_DivInt t v rem = Some (0,
      if (ival t < 0) \<noteq> (sint v < 0) then Int_SetSign (utab ?n (?a div ?b)) else utab ?n (?a div ?b),
      put_remainder rem (if ival t < 0 then - of_nat (?a mod ?b) else of_nat (?a mod ?b)))"
    using assms(1) by (cases "sint v < 0") (simp_all add: Int_DivInt_def Let_def split_beta sint_unat(1))
  also have "(if ival t < 0 then - of_nat (?a mod ?b) else of_nat (?a mod ?b))
      = (of_int (signed_value (ival t < 0) (?a mod ?b)) :: uint)"
    by (simp only: signed_value_def of_int_minus of_int_of_nat_eq split: if_split) simp
  finally show ?thesis
    unfolding quotient_back [OF assms(1)] signed_quotient signed_remainder .
qed

section \<open>Power over the integers\<close>

lemma uval_nonneg: "0 \<le> ival t \<Longrightarrow> uval t = nat (ival t)"
  using ival_cases [of t] uval_less [of t] by (cases "2 * int (uval t) < int (W ^ length t)") linarith+

lemma and_1_eq_1: "(w AND 1 = 1) = (w AND 1 \<noteq> 0)" for w :: uint
  by (simp add: and_one_eq mod2_eq_if)

lemma power_abs_signed: "signed_value (a < 0 \<and> odd k) (nat \<bar>a\<bar> ^ k) = a ^ k" for a :: int
  by (simp add: signed_value_def power_even_abs abs_if)

lemma ChangeSign_utab:
  assumes "0 < n" "m < W ^ n"
  shows "Int_ChangeSign (utab n m) = (of_bool (2 * int m = int (W ^ n)), itab n (- int m))"
proof -
  let ?u = "utab n m" and ?N = "int (W ^ n)"
  have "fits n (ival ?u)" using ival_bounds [of ?u] by simp
  then have f: "fits n (- ival ?u) \<longleftrightarrow> 2 * ival ?u \<noteq> - ?N" by (rule fits_uminus)
  have "0 < ?N" by simp
  then have "2 * ival ?u \<noteq> - ?N \<longleftrightarrow> 2 * int m \<noteq> ?N"
    using ival_utab [OF assms(2)] by (cases "2 * int m < ?N") linarith+
  with f have "fits n (- ival ?u) \<longleftrightarrow> 2 * int m \<noteq> ?N" by simp
  moreover have "(- ival ?u) mod ?N = (- int m) mod ?N"
    using ival_cong_uval [of ?u] uval_utab_exact [OF assms(2)] mod_minus_eq [of "ival ?u" ?N] by simp
  then have "itab n (- ival ?u) = itab n (- int m)" by (rule itab_cong)
  ultimately show ?thesis using ChangeSign_result [of ?u] assms(1) by simp
qed

lemma fits_abs: "\<not> fits (length t) \<bar>ival t\<bar> \<longleftrightarrow> 2 * ival t = - int (W ^ length t)"
  using ival_bounds [of t] fits_uminus [OF ival_bounds, of t] by (cases "0 \<le> ival t") (auto simp: fits_def simp del: of_nat_power)

lemma Pow2_ival:
  assumes "length p = length t" "t \<noteq> []" "0 \<le> ival p"
  defines "k \<equiv> nat (ival p)" and "N \<equiv> int (W ^ length t)"
  shows "ival t = 0 \<Longrightarrow> k = 0 \<Longrightarrow> Int_Pow2 t p = Some (2, t)"
    and "ival t \<noteq> 0 \<or> k \<noteq> 0 \<Longrightarrow> N \<le> \<bar>ival t\<bar> ^ k \<Longrightarrow> \<exists>r. Int_Pow2 t p = Some (1, r)"
    and "ival t \<noteq> 0 \<or> k \<noteq> 0 \<Longrightarrow> \<bar>ival t\<bar> ^ k < N \<Longrightarrow>
      Int_Pow2 t p = Some (of_bool (2 * ival t = - N \<or> ival t < 0 \<and> odd k \<and> 2 * \<bar>ival t\<bar> ^ k = N),
        itab (length t) (ival t ^ k))"
proof -
  let ?n = "length t" and ?a = "ival t" and ?m = "nat \<bar>ival t\<bar>"
  define u where "u = (if ?a < 0 then snd (Int_Abs t) else t)"
  have u: "length u = ?n" "uval u = ?m"
    using uval_nonneg [of t] Abs_uval [OF assms(2)] Abs_snd [OF assms(2)] by (auto simp: u_def)
  have pu: "uval p = k" using uval_nonneg [OF assms(3)] by (simp add: k_def)
  have ne: "u \<noteq> []" "p \<noteq> []" using u assms(1,2) by auto
  have bit: "(p ! 0 AND 1 = 1) = odd k" using and_1_table [OF ne(2)] pu by (simp add: and_1_eq_1)
  have m: "int (?m ^ k) = \<bar>?a\<bar> ^ k" by simp
  have c: "(if ?a < 0 then fst (Int_Abs t) else 0) = of_bool (2 * ?a = - N)"
  proof (cases "?a < 0")
    case True
    then show ?thesis using Abs_result [OF assms(2)] fits_abs [of t] by (simp add: N_def)
  next
    case False
    then have "2 * ?a \<noteq> - N" using int_W_power_pos [of ?n] unfolding N_def by linarith
    with False show ?thesis by simp
  qed
  have run: "Int_Pow2 t p = (case UInt_Pow u p of None \<Rightarrow> None | Some (c_temp, r) \<Rightarrow>
      if c_temp > 0 then Some (c_temp, r)
      else let (c, r) = (if ?a < 0 \<and> odd k
                         then let (d, r) = Int_ChangeSign r in (of_bool (2 * ?a = - N) + d, r)
                         else (of_bool (2 * ?a = - N), r))
           in Some (if c = 0 then 0 else 1, r))"
    unfolding Int_Pow2_def Let_def c [symmetric] bit u_def using assms(2)
    by (simp add: split_beta bind_eq_Some_conv split: option.split)
  note pow = Pow_result [of p u, unfolded u pu, OF assms(1) ne(1)]
  show "?a = 0 \<Longrightarrow> k = 0 \<Longrightarrow> Int_Pow2 t p = Some (2, t)"
    using run pow(1) by (simp add: u_def)
  assume nz: "?a \<noteq> 0 \<or> k \<noteq> 0"
  then obtain r where r: "UInt_Pow u p = Some (of_bool (W ^ ?n \<le> ?m ^ k), r)"
    "?m ^ k < W ^ ?n \<longrightarrow> r = utab ?n (?m ^ k)" using pow(2) by auto
  show "\<exists>r. Int_Pow2 t p = Some (1, r)" if "N \<le> \<bar>?a\<bar> ^ k"
  proof -
    have "W ^ ?n \<le> ?m ^ k" using that m unfolding N_def by linarith
    then show ?thesis using run r(1) by simp
  qed
  show "Int_Pow2 t p = Some (of_bool (2 * ?a = - N \<or> ?a < 0 \<and> odd k \<and> 2 * \<bar>?a\<bar> ^ k = N), itab ?n (?a ^ k))"
    if "\<bar>?a\<bar> ^ k < N"
  proof -
    have lt: "?m ^ k < W ^ ?n" using that m unfolding N_def by linarith
    then have r': "UInt_Pow u p = Some (0, utab ?n (?m ^ k))" using r by simp
    have s: "itab ?n (?a ^ k) = itab ?n (signed_value (?a < 0 \<and> odd k) (?m ^ k))"
      by (simp only: power_abs_signed)
    have "Int_ChangeSign (utab ?n (?m ^ k)) = (of_bool (2 * \<bar>?a\<bar> ^ k = N), itab ?n (- int (?m ^ k)))"
      using ChangeSign_utab [OF _ lt] assms(2) unfolding m N_def by simp
    then show ?thesis unfolding run r' s
      by (cases "?a < 0 \<and> odd k") (auto simp: signed_value_def utab_itab)
  qed
qed

lemma ival_eq_0_iff: "ival t = 0 \<longleftrightarrow> uval t = 0"
  using uval_less [of t] by (auto simp: ival_def simp del: of_nat_power)

lemma ival_SetOne:
  assumes "t \<noteq> []"
  shows "ival (UInt_SetOne t) = 1"
proof -
  have "2 * 1 < int (W ^ length t)" using one_in_range [OF assms] by (simp del: of_nat_power)
  then show ?thesis using ival_cases(1) [of "UInt_SetOne t"] SetOne_value [OF assms] by simp
qed

lemma fits_power:
  assumes "2 * \<bar>a\<bar> ^ k < int (W ^ n)"
  shows "fits n (a ^ k)"
proof -
  have "\<bar>a ^ k\<bar> = \<bar>a\<bar> ^ k" by (rule power_abs)
  then show ?thesis using assms unfolding fits_def by linarith
qed

text \<open>Inside the range, and for every base but the smallest value, the power is exact.\<close>

lemma Pow_ival:
  assumes "length p = length t" "t \<noteq> []" "2 * ival t \<noteq> - int (W ^ length t)"
    "2 * \<bar>ival t\<bar> ^ nat \<bar>ival p\<bar> < int (W ^ length t)"
  shows "0 \<le> ival p \<Longrightarrow> ival t \<noteq> 0 \<or> ival p \<noteq> 0 \<Longrightarrow>
      Int_Pow t p = Some (0, itab (length t) (ival t ^ nat (ival p)))"
    and "ival p < 0 \<Longrightarrow> ival t \<noteq> 0 \<Longrightarrow> 2 * ival p \<noteq> - int (W ^ length t) \<Longrightarrow>
      Int_Pow t p = Some (0, itab (length t) (1 sdiv ival t ^ nat (- ival p)))"
proof -
  let ?n = "length t" and ?N = "int (W ^ length t)"
  have ne: "p \<noteq> []" using assms(1,2) by auto
  have pow2: "Int_Pow2 t q = Some (0, itab ?n (ival t ^ nat (ival q)))"
    if q: "length q = ?n" "0 \<le> ival q" "nat (ival q) = nat \<bar>ival p\<bar>" "ival t \<noteq> 0 \<or> ival q \<noteq> 0" for q
  proof -
    have "\<bar>ival t\<bar> ^ nat (ival q) < ?N" "2 * \<bar>ival t\<bar> ^ nat (ival q) \<noteq> ?N"
      using assms(4) int_W_power_pos [of ?n] unfolding q(3) by linarith+
    moreover have "ival t \<noteq> 0 \<or> nat (ival q) \<noteq> 0" using q(2,4) by auto
    ultimately show ?thesis using Pow2_ival(3) [OF q(1) assms(2) q(2)] assms(3) by simp
  qed
  show "Int_Pow t p = Some (0, itab ?n (ival t ^ nat (ival p)))" if "0 \<le> ival p" "ival t \<noteq> 0 \<or> ival p \<noteq> 0"
    using pow2 [OF assms(1) that(1) _ that(2)] that ne by (simp add: Int_Pow_def)
  show "Int_Pow t p = Some (0, itab ?n (1 sdiv ival t ^ nat (- ival p)))"
    if p: "ival p < 0" "ival t \<noteq> 0" "2 * ival p \<noteq> - ?N"
  proof -
    let ?q = "itab ?n (- ival p)" and ?x = "ival t ^ nat (- ival p)"
    have f: "fits ?n (- ival p)" using fits_uminus [OF ival_bounds, of p] p(3) assms(1) by simp
    have x: "fits ?n ?x" using fits_power [of "ival t"] assms(4) p(1) by simp
    have one: "ival (UInt_SetOne t) = 1" "UInt_SetOne t \<noteq> []"
      using ival_SetOne [OF assms(2)] assms(2) length_SetOne [of t] by (simp, metis length_0_conv)
    have "uval t \<noteq> 0" using p(2) ival_eq_0_iff [of t] by simp
    moreover have "Int_ChangeSign p = (0, ?q)" using ChangeSign_result [OF ne] f assms(1) by simp
    moreover have "Int_Pow2 t ?q = Some (0, itab ?n ?x)"
      using pow2 [of ?q] f p(1,2) by simp
    moreover have "Int_Div (UInt_SetOne t) (itab ?n ?x) None = Some (0, itab ?n (1 sdiv ?x), None)"
      using Div_ival [of "itab ?n ?x" "UInt_SetOne t" None] x p(2) assms(2) one
      by (simp add: put_remainder_def) 
    ultimately show ?thesis using p(1) ne by (simp add: Int_Pow_def)
  qed
qed

lemma Pow_ival_errors:
  assumes "length p = length t" "t \<noteq> []"
  shows "ival t = 0 \<Longrightarrow> ival p \<le> 0 \<Longrightarrow> Int_Pow t p = Some (2, t)"
    and "ival t \<noteq> 0 \<Longrightarrow> 2 * ival p = - int (W ^ length t) \<Longrightarrow> Int_Pow t p = Some (1, t)"
    and "0 \<le> ival p \<Longrightarrow> ival t \<noteq> 0 \<Longrightarrow> int (W ^ length t) \<le> \<bar>ival t\<bar> ^ nat (ival p) \<Longrightarrow>
      \<exists>r. Int_Pow t p = Some (1, r)"
proof -
  have ne: "p \<noteq> []" using assms by auto
  note z = ival_eq_0_iff [of t]
  show "Int_Pow t p = Some (2, t)" if "ival t = 0" "ival p \<le> 0"
    using that z ne Pow2_ival(1) [OF assms] by (cases "ival p = 0") (auto simp: Int_Pow_def)
  show "Int_Pow t p = Some (1, t)" if p: "ival t \<noteq> 0" "2 * ival p = - int (W ^ length t)"
  proof -
    have "ival p < 0" using p(2) int_W_power_pos [of "length t"] by linarith
    moreover have "fst (Int_ChangeSign p) = 1"
      using ChangeSign_result [OF ne] fits_uminus [OF ival_bounds, of p] p(2) assms(1) by simp
    ultimately show ?thesis using p(1) z ne by (simp add: Int_Pow_def split_beta)
  qed
  show "\<exists>r. Int_Pow t p = Some (1, r)"
    if "0 \<le> ival p" "ival t \<noteq> 0" "int (W ^ length t) \<le> \<bar>ival t\<bar> ^ nat (ival p)"
    using Pow2_ival(2) [OF assms that(1)] that ne by (simp add: Int_Pow_def)
qed

text \<open>When the carry is set.\<close>

definition pow_carry :: "nat \<Rightarrow> int \<Rightarrow> nat \<Rightarrow> bool" where
  "pow_carry n a k \<longleftrightarrow> int (W ^ n) \<le> \<bar>a\<bar> ^ k \<or> 2 * a = - int (W ^ n) \<or> a < 0 \<and> odd k \<and> 2 * \<bar>a\<bar> ^ k = int (W ^ n)"

lemma Pow2_outcome:
  assumes "length p = length t" "t \<noteq> []" "0 \<le> ival p" "ival t \<noteq> 0 \<or> ival p \<noteq> 0"
  defines "k \<equiv> nat (ival p)"
  shows "\<exists>r. Int_Pow2 t p = Some (of_bool (pow_carry (length t) (ival t) k), r) \<and>
    (\<bar>ival t\<bar> ^ k < int (W ^ length t) \<longrightarrow> r = itab (length t) (ival t ^ k))"
proof -
  have k: "ival t \<noteq> 0 \<or> k \<noteq> 0" using assms(3,4) by (auto simp: k_def)
  note P = Pow2_ival(2,3) [OF assms(1-3), folded k_def, OF k]
  show ?thesis
  proof (cases "int (W ^ length t) \<le> \<bar>ival t\<bar> ^ k")
    case True
    then show ?thesis using P(1) by (auto simp: pow_carry_def)
  next
    case False
    then show ?thesis using P(2) by (simp add: pow_carry_def)
  qed
qed

lemma Pow_natural:
  assumes "length p = length t" "t \<noteq> []" "0 \<le> ival p" "ival t \<noteq> 0 \<or> ival p \<noteq> 0"
  defines "k \<equiv> nat \<bar>ival p\<bar>"
  shows "\<exists>r. Int_Pow t p = Some (of_bool (pow_carry (length t) (ival t) k), r) \<and>
    (\<bar>ival t\<bar> ^ k < int (W ^ length t) \<longrightarrow> r = itab (length t) (ival t ^ k))"
proof -
  have "p \<noteq> []" using assms(1,2) by auto
  then show ?thesis using Pow2_outcome [OF assms(1-4)] assms(3) by (simp add: Int_Pow_def k_def)
qed

lemma Pow_negative:
  assumes "length p = length t" "t \<noteq> []" "ival p < 0" "ival t \<noteq> 0"
  defines "n \<equiv> length t" and "k \<equiv> nat \<bar>ival p\<bar>"
  shows "Int_Pow t p = Some (if 2 * ival p = - int (W ^ n) \<or> pow_carry n (ival t) k then (1, t)
    else (0, itab n (1 sdiv ival (itab n (ival t ^ k)))))"
proof (cases "2 * ival p = - int (W ^ n)")
  case True
  then show ?thesis using Pow_ival_errors(2) [OF assms(1,2,4)] by (simp add: n_def)
next
  case False
  have ne: "p \<noteq> []" using assms(1,2) by auto
  let ?q = "itab n (- ival p)"
  have f: "fits n (- ival p)" using fits_uminus [OF ival_bounds, of p] False assms(1) by (simp add: n_def)
  have q: "length ?q = length t" "ival ?q = - ival p" "nat (ival ?q) = k" using f assms(3) by (simp_all add: n_def k_def)
  have sign: "Int_IsSign p" "\<not> UInt_IsZero t" "Int_ChangeSign p = (0, ?q)"
    using assms(3,4) ne ival_eq_0_iff [of t] ChangeSign_result [OF ne] f assms(1) by (simp_all add: n_def UInt_IsZero_def all_zero_iff)
  obtain r where r: "Int_Pow2 t ?q = Some (of_bool (pow_carry n (ival t) k), r)" "\<bar>ival t\<bar> ^ k < int (W ^ n) \<longrightarrow> r = itab n (ival t ^ k)"
    using Pow2_outcome [OF q(1) assms(2)] q assms(3,4) by (auto simp: n_def)
  show ?thesis
  proof (cases "pow_carry n (ival t) k")
    case True
    then show ?thesis using sign r(1) by (simp add: Int_Pow_def)
  next
    case C: False
    then have lt: "\<bar>ival t\<bar> ^ k < int (W ^ n)" by (simp add: pow_carry_def)
    then have rt: "r = itab n (ival t ^ k)" using r(2) by simp
    have "ival r \<noteq> 0"
    proof
      assume "ival r = 0"
      then have "uval r = 0" using ival_eq_0_iff [of r] by simp
      then have "ival t ^ k mod int (W ^ n) = 0"
        using uval_itab [of n "ival t ^ k"] pos_mod_sign [OF int_W_power_pos [of n], of "ival t ^ k"] unfolding rt by linarith
      then have "int (W ^ n) \<le> \<bar>ival t ^ k\<bar>"
        using assms(4) dvd_imp_le_int [of "ival t ^ k" "int (W ^ n)"] by (simp add: mod_eq_0_iff_dvd)
      then show False using lt by (simp only: power_abs)
    qed
    moreover have "ival (UInt_SetOne t) = 1" "length r = length (UInt_SetOne t)" "UInt_SetOne t \<noteq> []" "length (UInt_SetOne t) = n"
      using ival_SetOne [OF assms(2)] length_SetOne [of t] assms(2) by (simp_all add: rt n_def) (metis length_SetOne length_0_conv)
    ultimately have "Int_Div (UInt_SetOne t) r None = Some (0, itab n (1 sdiv ival r), None)"
      using Div_ival [of r "UInt_SetOne t" None] by (simp add: put_remainder_def)
    then show ?thesis using sign r(1) C False rt by (simp add: Int_Pow_def)
  qed
qed

text \<open>
  Outside the range the carry is wrong both ways: an overflow below the unsigned range is not
  reported, and a power that is the smallest value is reported as an overflow.
\<close>

lemma Pow_missed_carry:
  "Int_Pow [3] [40] = Some (0, [12157665459056928801])" "ival [3] ^ 40 = 12157665459056928801"
  "\<not> fits 1 (3 ^ 40)"
  by code_simp (simp_all add: ival_def fits_def W_def)

lemma Pow_spurious_carry:
  "Int_Pow [18446744073709551614] [63] = Some (1, [9223372036854775808])"
  "ival [18446744073709551614] ^ 63 = ival [9223372036854775808]"
  by code_simp (simp add: ival_def W_def)

end
