(* ===== verification/Int_Convert.thy ===== *)
theory Int_Convert
  imports Int_Arith
begin

text \<open>
  Conversions of \<^verbatim>\<open>Int\<close> (\<^verbatim>\<open>ttmathint.h\<close>) from and to other sizes and machine types on a
  64-bit platform, its constructors and assignments. The first argument of a conversion into the
  class is the table of the object before the call. Every conversion keeps the integer modulo the
  range and reports a carry exactly when it does not fit.
\<close>

section \<open>From other types\<close>

definition Int_FromUIntOrInt :: "utable \<Rightarrow> utable \<Rightarrow> bool \<Rightarrow> uint \<times> utable" where
  "Int_FromUIntOrInt table p UInt_type =
     (let value_size = length table; argument_size = length p;
          min_size = (if value_size < argument_size then value_size else argument_size);
          low = take min_size p
      in if value_size > argument_size
         then let fill = (if UInt_type then 0
                          else if p ! (argument_size - 1) AND TTMATH_UINT_HIGHEST_BIT \<noteq> 0
                          then TTMATH_UINT_MAX_VALUE else 0)
              in (0, low @ replicate (value_size - argument_size) fill)
         else let test = (if low ! (value_size - 1) AND TTMATH_UINT_HIGHEST_BIT \<noteq> 0
                          then TTMATH_UINT_MAX_VALUE else 0)
              in if UInt_type \<and> test \<noteq> 0 then (1, low)
                 else (if \<forall>w \<in> set (drop min_size p). w = test then 0 else 1, low))"

definition Int_FromInt_Int :: "utable \<Rightarrow> utable \<Rightarrow> uint \<times> utable" where
  "Int_FromInt_Int table p = Int_FromUIntOrInt table p False"

definition Int_FromInt :: "utable \<Rightarrow> sint \<Rightarrow> uint \<times> utable" where
  "Int_FromInt table v =
     (let fill = (if v <s 0 then TTMATH_UINT_MAX_VALUE else 0)
      in (0, v # replicate (length table - 1) fill))"

definition Int_FromUInt_UInt :: "utable \<Rightarrow> utable \<Rightarrow> uint \<times> utable" where
  "Int_FromUInt_UInt table p = Int_FromUIntOrInt table p True"

definition Int_FromInt_UInt :: "utable \<Rightarrow> utable \<Rightarrow> uint \<times> utable" where
  "Int_FromInt_UInt table p = Int_FromUIntOrInt table p True"

definition Int_FromUInt :: "utable \<Rightarrow> uint \<Rightarrow> uint \<times> utable" where
  "Int_FromUInt table v =
     (let table = v # replicate (length table - 1) 0
      in (if length table = 1 \<and> v AND TTMATH_UINT_HIGHEST_BIT \<noteq> 0 then 1 else 0, table))"

definition Int_FromInt_uint :: "utable \<Rightarrow> uint \<Rightarrow> uint \<times> utable" where
  "Int_FromInt_uint table v = Int_FromUInt table v"

definition Int_assign :: "utable \<Rightarrow> utable \<Rightarrow> utable" where
  "Int_assign table p = snd (Int_FromInt_Int table p)"

definition Int_assign_Int :: "utable \<Rightarrow> utable \<Rightarrow> utable" where
  "Int_assign_Int table p = snd (Int_FromInt_Int table p)"

definition Int_assign_sint :: "utable \<Rightarrow> sint \<Rightarrow> utable" where
  "Int_assign_sint table i = snd (Int_FromInt table i)"

definition Int_new_sint :: "utable \<Rightarrow> sint \<Rightarrow> utable" where
  "Int_new_sint table i = snd (Int_FromInt table i)"

definition Int_new_copy :: "utable \<Rightarrow> utable \<Rightarrow> utable" where
  "Int_new_copy table u = snd (Int_FromInt_Int table u)"

definition Int_new_Int :: "utable \<Rightarrow> utable \<Rightarrow> utable" where
  "Int_new_Int table u = snd (Int_FromInt_Int table u)"

definition Int_assign_UInt :: "utable \<Rightarrow> utable \<Rightarrow> utable" where
  "Int_assign_UInt table p = snd (Int_FromUInt_UInt table p)"

definition Int_assign_uint :: "utable \<Rightarrow> uint \<Rightarrow> utable" where
  "Int_assign_uint table i = snd (Int_FromUInt table i)"

definition Int_new_uint :: "utable \<Rightarrow> uint \<Rightarrow> utable" where
  "Int_new_uint table i = snd (Int_FromUInt table i)"

definition Int_new_UInt :: "utable \<Rightarrow> utable \<Rightarrow> utable" where
  "Int_new_UInt table u = snd (Int_FromUInt_UInt table u)"

definition Int_FromUInt_32 :: "utable \<Rightarrow> uint32 \<Rightarrow> uint \<times> utable" where
  "Int_FromUInt_32 table i = Int_FromUInt table (ucast i)"

definition Int_FromInt_unsigned32 :: "utable \<Rightarrow> uint32 \<Rightarrow> uint \<times> utable" where
  "Int_FromInt_unsigned32 table i = Int_FromUInt_32 table i"

definition Int_FromInt_32 :: "utable \<Rightarrow> uint32 \<Rightarrow> uint \<times> utable" where
  "Int_FromInt_32 table i = Int_FromInt table (scast i)"

definition Int_assign_unsigned32 :: "utable \<Rightarrow> uint32 \<Rightarrow> utable" where
  "Int_assign_unsigned32 table i = snd (Int_FromUInt_32 table i)"

definition Int_new_unsigned32 :: "utable \<Rightarrow> uint32 \<Rightarrow> utable" where
  "Int_new_unsigned32 table i = snd (Int_FromUInt_32 table i)"

definition Int_assign_int32 :: "utable \<Rightarrow> uint32 \<Rightarrow> utable" where
  "Int_assign_int32 table i = snd (Int_FromInt_32 table i)"

definition Int_new_int32 :: "utable \<Rightarrow> uint32 \<Rightarrow> utable" where
  "Int_new_int32 table i = snd (Int_FromInt_32 table i)"

text \<open>Sign extension keeps the integer, and it is the only way a longer table holds it.\<close>

lemma itab_eqI: "length xs = n \<Longrightarrow> int (uval xs) = x mod int (W ^ n) \<Longrightarrow> xs = itab n x"
  using uval_inject [of xs "itab n x"] uval_itab [of n x] by simp

lemma fits_mono:
  assumes "fits n x" "n \<le> m"
  shows "fits m x"
proof -
  have "int (W ^ n) \<le> int (W ^ m)" using W_power_mono [OF assms(2)] by (simp only: of_nat_le_iff)
  then show ?thesis using assms(1) unfolding fits_def by linarith
qed

lemma sign_extend:
  "r @ replicate k (if ival r < 0 then TTMATH_UINT_MAX_VALUE else 0) = itab (length r + k) (ival r)"
proof (rule itab_eqI)
  let ?n = "length r" and ?N = "int (W ^ (length r + k))"
  have f: "fits (?n + k) (ival r)" by (rule fits_mono [OF ival_bounds]) simp
  have N: "0 < ?N" by simp
  have u: "int (uval r) = ival r + (if ival r < 0 then int (W ^ ?n) else 0)"
    using ival_cases [of r] uval_less [of r] by (cases "2 * int (uval r) < int (W ^ ?n)") auto
  show "int (uval (r @ replicate k (if ival r < 0 then TTMATH_UINT_MAX_VALUE else 0))) = ival r mod ?N"
  proof (cases "ival r < 0")
    case True
    have "int (W ^ ?n * (W ^ k - 1)) = ?N - int (W ^ ?n)"
      by (simp add: power_add of_nat_diff Suc_le_eq algebra_simps)
    then have "int (uval (r @ replicate k TTMATH_UINT_MAX_VALUE)) = ival r + ?N"
      using u True by (simp add: uval_append uval_replicate_max del: of_nat_power of_nat_mult)
    moreover have "(ival r + ?N) mod ?N = ival r + ?N"
      using True f N unfolding fits_def by (intro mod_pos_pos_trivial) linarith+
    ultimately show ?thesis using True by simp
  next
    case False
    then have "ival r mod ?N = ival r" using f N unfolding fits_def by (intro mod_pos_pos_trivial) linarith+
    then show ?thesis using False u by simp
  qed
qed simp

lemma top_bit_iff:
  assumes "r \<noteq> []"
  shows "(r ! (length r - 1) AND TTMATH_UINT_HIGHEST_BIT \<noteq> 0) \<longleftrightarrow> ival r < 0"
  using IsSign_iff [OF assms] by (simp add: Int_IsSign_def UInt_IsTheHighestBitSet_def)

lemma itab_take: "n \<le> length p \<Longrightarrow> take n p = itab n (ival p)"
proof (rule itab_eqI)
  assume n: "n \<le> length p"
  have d: "int (W ^ n) dvd int (W ^ length p)" using n by (simp only: of_nat_dvd_iff le_imp_power_dvd)
  have "int (uval (take n p)) = int (uval p) mod int (W ^ n)" by (simp only: uval_take of_nat_mod)
  also have "\<dots> = ival p mod int (W ^ n)" using mod_mod_cancel [OF d, of "ival p"] ival_cong_uval [of p] by simp
  finally show "int (uval (take n p)) = ival p mod int (W ^ n)" .
qed simp

lemma all_eq_replicate: "(\<forall>w \<in> set ws. w = v) \<longleftrightarrow> ws = replicate (length ws) v"
  by (metis in_set_replicate replicate_eqI)

text \<open>A table is the sign extension of its low words exactly when its integer fits there.\<close>

lemma fits_prefix_iff:
  assumes "n \<le> length p" "0 < n"
  shows "(\<forall>w \<in> set (drop n p). w = (if ival (take n p) < 0 then TTMATH_UINT_MAX_VALUE else 0))
    \<longleftrightarrow> fits n (ival p)"
proof -
  let ?r = "take n p"
  have l: "length ?r = n" "length (drop n p) = length p - n" using assms by simp_all
  let ?f = "if ival ?r < 0 then TTMATH_UINT_MAX_VALUE else 0"
  have "(\<forall>w \<in> set (drop n p). w = ?f) \<longleftrightarrow> p = ?r @ replicate (length p - n) ?f"
    unfolding all_eq_replicate l by (metis append_take_drop_id same_append_eq)
  also have "\<dots> \<longleftrightarrow> p = itab (length p) (ival ?r)"
    using sign_extend [of ?r "length p - n"] l(1) assms(1) by simp
  also have "\<dots> \<longleftrightarrow> ival p = ival ?r"
    using ival_itab [OF fits_mono [OF ival_bounds [of ?r], of "length p"]] by (metis itab_ival l(1) assms(1))
  also have "\<dots> \<longleftrightarrow> fits n (ival p)"
    using itab_take [OF assms(1)] ival_bounds [of ?r] l(1) ival_itab [of n "ival p"] by auto
  finally show ?thesis .
qed

lemma FromInt_Int_result [int_results]:
  assumes "t \<noteq> []" "p \<noteq> []"
  shows "Int_FromInt_Int t p = (of_bool (\<not> fits (length t) (ival p)), itab (length t) (ival p))"
proof (cases "length t > length p")
  case True
  have "fits (length t) (ival p)" by (rule fits_mono [OF ival_bounds]) (use True in simp)
  then show ?thesis
    using True sign_extend [of p "length t - length p"] top_bit_iff [OF assms(2)]
    by (simp add: Int_FromInt_Int_def Int_FromUIntOrInt_def Let_def)
next
  case False
  let ?r = "take (length t) p"
  have r: "length ?r = length t" "?r \<noteq> []" using False assms by auto
  have m: "(if length t < length p then length t else length p) = length t" using False by simp
  show ?thesis
    using False r fits_prefix_iff [of "length t" p] itab_take [of "length t" p] top_bit_iff [OF r(2)]
    unfolding Int_FromInt_Int_def Int_FromUIntOrInt_def Let_def m by (simp only: if_False r) simp
qed

lemma fits_int_iff: "fits n (int y) \<longleftrightarrow> 2 * y < W ^ n"
proof -
  have "(2 * int y < int (W ^ n)) = (2 * y < W ^ n)" by linarith
  then show ?thesis using int_W_power_pos [of n] unfolding fits_def by linarith
qed

lemma take_fits:
  assumes "n \<le> length p" "0 < n"
  shows "(\<not> ival (take n p) < 0 \<and> (\<forall>w \<in> set (drop n p). w = 0)) \<longleftrightarrow> fits n (int (uval p))"
proof -
  let ?r = "take n p"
  have "int (uval ?r) < int (W ^ n)" using uval_less [of ?r] assms(1) by simp
  then have r: "\<not> ival ?r < 0 \<longleftrightarrow> 2 * uval ?r < W ^ n"
    using ival_cases [of ?r] assms(1) by (cases "2 * int (uval ?r) < int (W ^ n)") (simp_all del: of_nat_power)
  have "(\<forall>w \<in> set (drop n p). w = 0) \<longleftrightarrow> uval (drop n p) = 0" by (simp only: uval_eq_0_iff)
  moreover have p: "uval p = uval ?r + W ^ n * uval (drop n p)" using uval_split [of p n] assms(1) by simp
  have "2 * uval ?r < W ^ n \<and> uval (drop n p) = 0 \<longleftrightarrow> 2 * uval p < W ^ n"
  proof
    assume "2 * uval p < W ^ n"
    moreover have "W ^ n \<le> W ^ n * uval (drop n p)" if "uval (drop n p) \<noteq> 0" using that by simp
    ultimately show "2 * uval ?r < W ^ n \<and> uval (drop n p) = 0" using p by linarith
  qed (use p in simp)
  ultimately show ?thesis using r fits_int_iff [of n "uval p"] by simp
qed

lemma max_value_neq_0 [simp]: "TTMATH_UINT_MAX_VALUE \<noteq> 0"
  by (simp add: TTMATH_UINT_MAX_VALUE_def)

lemma double_word_power:
  assumes "m < n"
  shows "2 * W ^ m \<le> W ^ n"
proof -
  have "2 * W ^ m \<le> W * W ^ m" by (simp add: W_def)
  also have "\<dots> \<le> W ^ n" using assms W_power_mono [of "Suc m" n] by simp
  finally show ?thesis .
qed

lemma FromUInt_UInt_ival [int_results]:
  assumes "t \<noteq> []" "p \<noteq> []"
  shows "Int_FromUInt_UInt t p = (of_bool (\<not> fits (length t) (int (uval p))), itab (length t) (int (uval p)))"
proof (cases "length t > length p")
  case True
  have "2 * uval p < W ^ length t" using uval_less [of p] double_word_power [OF True] by linarith
  then have f: "fits (length t) (int (uval p))" by (simp only: fits_int_iff)
  have "p @ replicate (length t - length p) 0 = utab (length t) (uval p)"
    using True \<open>2 * uval p < W ^ length t\<close> by (intro utab_eqI) simp_all
  with True f show ?thesis by (simp add: Int_FromUInt_UInt_def Int_FromUIntOrInt_def Let_def utab_itab)
next
  case False
  let ?r = "take (length t) p"
  have r: "length ?r = length t" "?r \<noteq> []" using False assms by auto
  have m: "(if length t < length p then length t else length p) = length t" using False by simp
  have "?r = utab (length t) (uval p)" using False by (intro utab_eqI) (simp_all add: uval_take)
  then show ?thesis
    using False r take_fits [of "length t" p] top_bit_iff [OF r(2)] assms(1)
    unfolding Int_FromUInt_UInt_def Int_FromUIntOrInt_def Let_def m utab_itab
    by (cases "ival ?r < 0") (auto simp: r(1))
qed

lemma ival_single: "ival [w] = sint w"
proof (rule ival_eqI)
  have N: "int (W ^ length [w]) = 2 ^ 64" by (simp add: W_def)
  show "fits (length [w]) (sint w)"
    using sint_range_size [of w] unfolding fits_def N by (simp add: word_size)
  have "uint w = sint w mod 2 ^ 64" by (simp add: uint_sint take_bit_eq_mod)
  then have "itab (length [w]) (sint w) = utab 1 (unat w)" unfolding itab_def N by (simp add: unat_eq_nat_uint)
  then show "itab (length [w]) (sint w) = [w]" by simp
qed

lemma FromInt_ival [int_results]:
  assumes "t \<noteq> []"
  shows "Int_FromInt t v = (0, itab (length t) (sint v))"
  using sign_extend [of "[v]" "length t - 1"] assms
  by (simp add: Int_FromInt_def Let_def ival_single sint_unat(1) Suc_le_eq)

lemma FromUInt_ival [int_results]:
  assumes "t \<noteq> []"
  shows "Int_FromUInt t v = (of_bool (\<not> fits (length t) (int (unat v))), itab (length t) (int (unat v)))"
proof -
  have l: "length (v # replicate (length t - 1) 0) = length t" using assms by simp
  have "v # replicate (length t - 1) 0 = itab (length t) (int (unat v))"
    using FromUInt_result [OF assms, of v] by (simp add: UInt_FromUInt_def utab_itab)
  moreover have "fits (length t) (int (unat v)) \<longleftrightarrow> \<not> (length t = 1 \<and> v AND TTMATH_UINT_HIGHEST_BIT \<noteq> 0)"
  proof (cases "length t = 1")
    case True
    then have "fits (length t) (int (unat v)) \<longleftrightarrow> 2 * unat v < W" by (simp only: fits_int_iff power_one_right)
    with True show ?thesis by (auto simp: and_highest_bit_iff and_highest_bit_eq_0_iff bit_63_iff W_def)
  next
    case False
    then have "1 < length t" using assms by (cases t) auto
    from double_word_power [OF this] have "2 * unat v < W ^ length t" using unat_less_W [of v]
      by (simp del: unat_less_W)
    then show ?thesis using False by (simp only: fits_int_iff simp_thms)
  qed
  ultimately show ?thesis unfolding Int_FromUInt_def Let_def l by simp
qed

section \<open>To machine types\<close>

definition Int_ToInt :: "utable \<Rightarrow> sint" where
  "Int_ToInt table = table ! 0"

definition Int_ToUInt_uint :: "utable \<Rightarrow> uint \<times> uint" where
  "Int_ToUInt_uint table =
     (let (c, result) = UInt_ToUInt_uint table
      in if length table = 1
         then (if result AND TTMATH_UINT_HIGHEST_BIT = 0 then 0 else 1, result)
         else (c, result))"

definition Int_ToInt_uint :: "utable \<Rightarrow> uint \<times> uint" where
  "Int_ToInt_uint table = Int_ToUInt_uint table"

definition Int_ToInt_sint :: "utable \<Rightarrow> uint \<times> sint" where
  "Int_ToInt_sint table =
     (let result = table ! 0;
          mk = (if Int_IsSign table then TTMATH_UINT_MAX_VALUE else 0)
      in if result AND TTMATH_UINT_HIGHEST_BIT \<noteq> mk AND TTMATH_UINT_HIGHEST_BIT then (1, result)
         else (if \<forall>w \<in> set (drop 1 table). w = mk then 0 else 1, result))"

definition Int_ToUInt_32 :: "utable \<Rightarrow> uint \<times> uint32" where
  "Int_ToUInt_32 table =
     (let (c, result) = UInt_ToUInt_32 table
      in (if c \<noteq> 0 \<or> Int_IsSign table then 1 else 0, result))"

definition Int_ToInt_unsigned32 :: "utable \<Rightarrow> uint \<times> uint32" where
  "Int_ToInt_unsigned32 table = Int_ToUInt_32 table"

definition Int_ToInt_32 :: "utable \<Rightarrow> uint \<times> uint32" where
  "Int_ToInt_32 table =
     (let first = table ! 0;
          result = ucast first;
          mk = (if Int_IsSign table then TTMATH_UINT_MAX_VALUE else 0)
      in if drop_bit 31 first \<noteq> drop_bit 31 mk then (1, result)
         else (if \<forall>w \<in> set (drop 1 table). w = mk then 0 else 1, result))"

lemma first_word:
  assumes "t \<noteq> []"
  shows "take 1 t = [t ! 0]" "t ! 0 = of_int (ival t)"
proof -
  show tk: "take 1 t = [t ! 0]" using assms by (cases t) simp_all
  have "t ! 0 = of_nat (uval t)" by (rule low_word(1) [OF assms])
  also have "\<dots> = of_int (int (uval t))" by simp
  also have "\<dots> = of_int (ival t)"
  proof -
    have "(of_int (int (W ^ length t)) :: uint) = 0" using assms by (cases t) simp_all
    then show ?thesis unfolding ival_def by (simp del: of_nat_power)
  qed
  finally show "t ! 0 = of_int (ival t)" .
qed

lemma ToUInt_ival [int_results]:
  assumes "t \<noteq> []"
  shows "Int_ToUInt_uint t = (of_bool (\<not> (0 \<le> ival t \<and> ival t < int W)), of_int (ival t))"
proof (cases "length t = 1")
  case True
  then obtain w where t: "t = [w]" by (cases t) auto
  have "2 * sint w < int W" using ival_bounds [of t] by (simp add: t ival_single fits_def)
  moreover have "w AND TTMATH_UINT_HIGHEST_BIT = 0 \<longleftrightarrow> 0 \<le> sint w"
    using top_bit_iff [OF assms] by (auto simp: t ival_single)
  moreover have "w = of_int (sint w)" by simp
  ultimately show ?thesis
    by (auto simp: Int_ToUInt_uint_def UInt_ToUInt_uint_def t ival_single)
next
  case False
  then have l: "1 < length t" using assms by (cases t) auto
  have W2: "2 * W \<le> W ^ length t" using double_word_power [OF l] by simp
  have "0 \<le> ival t \<and> ival t < int W \<longleftrightarrow> uval t < W"
  proof (cases "2 * int (uval t) < int (W ^ length t)")
    case True
    then show ?thesis using ival_cases(1) [of t] by simp
  next
    case False
    then have "\<not> uval t < W" using W2 by linarith
    moreover have "ival t < 0" using False ival_cases(2) [of t] uval_less [of t] by linarith
    ultimately show ?thesis by simp
  qed
  then show ?thesis using False ToUInt_result [OF assms] first_word(2) [OF assms] low_word(1) [OF assms]
    by (simp add: Int_ToUInt_uint_def not_less)
qed

text \<open>The value fits in one word when the other words repeat the sign of the first.\<close>

lemma fits_1_iff:
  assumes "t \<noteq> []"
  shows "fits 1 (ival t) \<longleftrightarrow> bit (t ! 0) 63 = (ival t < 0) \<and>
    (\<forall>v \<in> set (drop 1 t). v = (if ival t < 0 then TTMATH_UINT_MAX_VALUE else 0))"
    (is "_ \<longleftrightarrow> ?same")
proof -
  have l: "1 \<le> length t" using assms by (cases t) auto
  have w: "bit (t ! 0) 63 \<longleftrightarrow> ival (take 1 t) < 0"
    using top_bit_iff [of "take 1 t"] first_word(1) [OF assms] assms by (simp add: and_highest_bit_iff)
  show ?thesis
  proof
    assume f: "fits 1 (ival t)"
    then have "ival (take 1 t) = ival t" using itab_take [OF l] by simp
    then show ?same using fits_prefix_iff [OF l] f w by simp
  next
    assume ?same
    then show "fits 1 (ival t)" using fits_prefix_iff [OF l] w by simp
  qed
qed

lemma and_highest_bit_value:
  "w AND TTMATH_UINT_HIGHEST_BIT = (if bit w 63 then TTMATH_UINT_HIGHEST_BIT else 0)"
proof -
  have "bit TTMATH_UINT_HIGHEST_BIT n \<longleftrightarrow> n = 63" for n
    unfolding highest_bit_power bit_exp_iff by auto
  then show ?thesis by (intro bit_word_eqI) (auto simp: bit_and_iff)
qed

lemma ToInt_ival [int_results]:
  assumes "t \<noteq> []"
  shows "Int_ToInt_sint t = (of_bool (\<not> fits 1 (ival t)), of_int (ival t))"
proof -
  have "(w AND TTMATH_UINT_HIGHEST_BIT \<noteq> (if b then TTMATH_UINT_MAX_VALUE else 0) AND TTMATH_UINT_HIGHEST_BIT)
      \<longleftrightarrow> (bit w 63 \<noteq> b)" for w b
    unfolding and_highest_bit_value by (auto simp: max_value_mask TTMATH_UINT_HIGHEST_BIT_def)
  then show ?thesis
    using fits_1_iff [OF assms] first_word(2) [OF assms]
    unfolding Int_ToInt_sint_def Let_def IsSign_iff [OF assms]
    by (cases "bit (t ! 0) 63 = (ival t < 0)") auto
qed

lemma drop_bit_31_sign:
  "drop_bit 31 w = drop_bit 31 (if b then TTMATH_UINT_MAX_VALUE else 0)
    \<longleftrightarrow> bit w 63 = b \<and> - (2 ^ 31) \<le> ival [w] \<and> ival [w] < 2 ^ 31"
proof -
  have u: "unat w < 2 ^ 64" using unat_less_W [of w] by (simp only: W_def)
  have "drop_bit 31 w = drop_bit 31 (if b then TTMATH_UINT_MAX_VALUE else 0)
      \<longleftrightarrow> unat w div 2 ^ 31 = (if b then 2 ^ 33 - 1 else 0)"
    unfolding word_unat_eq_iff drop_bit_uint by (simp add: unat_max_value W_def)
  also have "\<dots> \<longleftrightarrow> (if b then 2 ^ 64 - 2 ^ 31 \<le> unat w else unat w < 2 ^ 31)"
    using u by (auto simp: div_eq_0_iff)
  finally have d: "drop_bit 31 w = drop_bit 31 (if b then TTMATH_UINT_MAX_VALUE else 0)
      \<longleftrightarrow> (if b then 2 ^ 64 - 2 ^ 31 \<le> unat w else unat w < 2 ^ 31)" .
  define x where "x = unat w"
  have "ival [w] = (if x < 2 ^ 63 then int x else int x - 2 ^ 64)" "bit w 63 \<longleftrightarrow> \<not> x < 2 ^ 63"
    unfolding x_def ival_def bit_63_iff by (auto simp: W_def)
  then show ?thesis using u unfolding d x_def [symmetric] by (cases b) auto
qed

lemma ToInt_32_ival [int_results]:
  assumes "t \<noteq> []"
  shows "Int_ToInt_32 t = (of_bool (\<not> (- (2 ^ 31) \<le> ival t \<and> ival t < 2 ^ 31)), of_int (ival t))"
proof -
  have l: "1 \<le> length t" using assms by (cases t) auto
  have same: "ival [t ! 0] = ival t" if "fits 1 (ival t)"
    by (metis itab_take [OF l] first_word(1) [OF assms] ival_itab that)
  have one: "fits 1 (ival t)" if "- (2 ^ 31) \<le> ival t" "ival t < 2 ^ 31"
    using that by (simp add: fits_def W_def)
  have "(ucast (of_int i :: uint) :: uint32) = of_int i" for i by (transfer, simp)
  then have "ucast (t ! 0) = (of_int (ival t) :: uint32)" using first_word(2) [OF assms] by metis
  then show ?thesis
    using same one fits_1_iff [OF assms] drop_bit_31_sign [of "t ! 0" "ival t < 0"]
    unfolding Int_ToInt_32_def Let_def IsSign_iff [OF assms] by auto
qed

lemma ToUInt_32_ival [int_results]:
  assumes "t \<noteq> []"
  shows "Int_ToUInt_32 t = (of_bool (\<not> (0 \<le> ival t \<and> ival t < 2 ^ 32)), of_int (ival t))"
proof -
  have c: "(ucast (of_nat n :: uint) :: uint32) = of_nat n" "(ucast (of_int i :: uint) :: uint32) = of_int i" for n i
    by (transfer, simp)+
  have r: "(of_nat (uval t) :: uint32) = of_int (ival t)"
    using low_word(1) [OF assms] first_word(2) [OF assms] c by metis
  show ?thesis
  proof (cases "ival t < 0")
    case True
    then show ?thesis using ToUInt_32_result [OF assms] assms r by (simp add: Int_ToUInt_32_def)
  next
    case False
    then have "uval t = nat (ival t)" by (intro uval_nonneg) simp
    then have "2 ^ 32 \<le> uval t \<longleftrightarrow> \<not> ival t < 2 ^ 32" using False by (simp add: le_nat_iff not_less)
    then show ?thesis using False ToUInt_32_result [OF assms] assms r by (simp add: Int_ToUInt_32_def)
  qed
qed

end
