(* ===== verification/Int_Operators.thy ===== *)
theory Int_Operators
  imports Int_Convert
begin

text \<open>
  The rest of \<^verbatim>\<open>Int\<close> (\<^verbatim>\<open>ttmathint.h\<close>): strings, comparison and the arithmetic operators.
  The lemmas show that the comparison operators are the order of the integers, that the string of a
  value reads back as that value for every base, and that the operators are the integer operations
  modulo the range.
\<close>

section \<open>Comparison\<close>

definition Int_equal :: "utable \<Rightarrow> utable \<Rightarrow> bool" where
  "Int_equal table l = UInt_equal table l"

definition Int_not_equal :: "utable \<Rightarrow> utable \<Rightarrow> bool" where
  "Int_not_equal table l = UInt_not_equal table l"

definition Int_less :: "utable \<Rightarrow> utable \<Rightarrow> bool" where
  "Int_less table l =
     (let i = length table - 1; a1 = table ! i; a2 = l ! i
      in if a1 \<noteq> a2 then a1 <s a2 else CmpSmaller_loop table l i)"

definition Int_greater :: "utable \<Rightarrow> utable \<Rightarrow> bool" where
  "Int_greater table l =
     (let i = length table - 1; a1 = table ! i; a2 = l ! i
      in if a1 \<noteq> a2 then a2 <s a1 else CmpBigger_loop table l i)"

definition Int_less_equal :: "utable \<Rightarrow> utable \<Rightarrow> bool" where
  "Int_less_equal table l =
     (let i = length table - 1; a1 = table ! i; a2 = l ! i
      in if a1 \<noteq> a2 then a1 <s a2 else CmpSmallerEqual_loop table l i)"

definition Int_greater_equal :: "utable \<Rightarrow> utable \<Rightarrow> bool" where
  "Int_greater_equal table l =
     (let i = length table - 1; a1 = table ! i; a2 = l ! i
      in if a1 \<noteq> a2 then a2 <s a1 else CmpBiggerEqual_loop table l i)"

lemma ival_top:
  assumes "t \<noteq> []"
  defines "i \<equiv> length t - 1"
  shows "ival t = int (uval (take i t)) + int (W ^ i) * sint (t ! i)"
proof -
  have t: "t = take i t @ [t ! i]" using assms by (cases t rule: rev_cases) (simp_all add: nth_append)
  have l: "length (take i t) = i" "W ^ length t = W * W ^ i"
    using assms by (cases t rule: rev_cases; simp)+
  have u: "uval t = uval (take i t) + W ^ i * unat (t ! i)"
    by (subst t) (simp only: uval_snoc l(1))
  have "ival t < 0 \<longleftrightarrow> sint (t ! i) < 0"
    using top_bit_iff [OF assms(1)] top_bit_iff [of "[t ! i]"] by (simp add: i_def ival_single)
  moreover have "int (uval t) = ival t + (if ival t < 0 then int (W ^ length t) else 0)"
    using ival_cases [of t] uval_less [of t] by (cases "2 * int (uval t) < int (W ^ length t)") auto
  moreover have "int (unat (t ! i)) = sint (t ! i) + (if sint (t ! i) < 0 then int W else 0)"
  proof -
    have "int (unat (t ! i)) < int W" by (simp only: of_nat_less_iff unat_less_W)
    then show ?thesis using ival_cases [of "[t ! i]"] unfolding ival_single
      by (cases "2 * int (unat (t ! i)) < int W") simp_all
  qed
  ultimately have "ival t + (if sint (t ! i) < 0 then int W * int (W ^ i) else 0)
      = int (uval (take i t)) + int (W ^ i) * (sint (t ! i) + (if sint (t ! i) < 0 then int W else 0))"
    using u l(2) by (simp only: of_nat_add of_nat_mult)
  then show ?thesis by (simp add: algebra_simps split: if_splits)
qed

lemma signed_digit_less:
  fixes x y p a b :: int
  assumes "0 \<le> x" "x < p" "0 \<le> y" "y < p"
  shows "x + p * a < y + p * b \<longleftrightarrow> a < b \<or> a = b \<and> x < y"
proof (cases a b rule: linorder_cases)
  case less
  then have "p * (a + 1) \<le> p * b" using assms by (intro mult_left_mono) simp_all
  then show ?thesis using assms less by (simp add: algebra_simps)
next
  case greater
  then have "p * (b + 1) \<le> p * a" using assms by (intro mult_left_mono) simp_all
  then show ?thesis using assms greater by (simp add: algebra_simps)
qed simp

lemma sint_eq_iff: "sint a = sint b \<longleftrightarrow> a = b" for a b :: uint
proof
  assume "sint a = sint b"
  then have "(of_int (sint a) :: uint) = of_int (sint b)" by (rule arg_cong)
  then show "a = b" by simp
qed simp

lemma ival_less_iff:
  assumes "length l = length t" "t \<noteq> []"
  defines "i \<equiv> length t - 1"
  shows "ival t < ival l \<longleftrightarrow>
    (if t ! i \<noteq> l ! i then t ! i <s l ! i else uval (take i t) < uval (take i l))"
proof -
  have ne: "l \<noteq> []" using assms(1,2) by auto
  have b: "int (uval (take i s)) < int (W ^ i)" if "length s = length t" for s
  proof -
    have "uval (take i s) < W ^ length (take i s)" by (rule uval_less)
    moreover have "length (take i s) = i" using that by (simp add: i_def)
    ultimately show ?thesis by (simp only: of_nat_less_iff)
  qed
  have "t ! i = l ! i \<longleftrightarrow> sint (t ! i) = sint (l ! i)" by (simp only: sint_eq_iff)
  then show ?thesis
    using signed_digit_less [OF _ b [of t] _ b [of l], of "sint (t ! i)" "sint (l ! i)"]
    unfolding ival_top [OF assms(2), folded i_def] ival_top [OF ne, unfolded assms(1), folded i_def]
    by (auto simp: word_sless_alt assms(1))
qed

lemma Int_comparison:
  assumes "length l = length t" "t \<noteq> []"
  shows "Int_less t l = (ival t < ival l)" "Int_greater t l = (ival l < ival t)"
    "Int_less_equal t l = (ival t \<le> ival l)" "Int_greater_equal t l = (ival l \<le> ival t)"
    "Int_equal t l = (ival t = ival l)" "Int_not_equal t l = (ival t \<noteq> ival l)"
proof -
  have ne: "l \<noteq> []" "length t = length l" using assms by auto
  let ?i = "length t - 1"
  have i: "?i \<le> length t" "?i \<le> length l" using assms(1) by simp_all
  note lt = ival_less_iff [OF assms] ival_less_iff [OF ne(2,1), unfolded assms(1)]
  show "Int_less t l = (ival t < ival l)" "Int_greater t l = (ival l < ival t)"
    unfolding lt Int_less_def Int_greater_def Let_def
    unfolding CmpSmaller_loop_eq [OF i] CmpBigger_loop_eq [OF i] by auto
  show "Int_less_equal t l = (ival t \<le> ival l)" "Int_greater_equal t l = (ival l \<le> ival t)"
    unfolding not_less [symmetric] lt Int_less_equal_def Int_greater_equal_def Let_def
    unfolding CmpSmallerEqual_loop_eq [OF i] CmpBiggerEqual_loop_eq [OF i]
    by (auto simp: word_sless_alt sint_eq_iff [symmetric])
  have "ival t = ival l \<longleftrightarrow> uval t = uval l"
    by (metis assms(1) itab_ival uval_inject)
  then show "Int_equal t l = (ival t = ival l)" "Int_not_equal t l = (ival t \<noteq> ival l)"
    using Cmp_values(3) [OF assms(1)]
    by (simp_all add: Int_equal_def Int_not_equal_def UInt_equal_def UInt_not_equal_def)
qed

section \<open>Strings\<close>

definition Int_ToStringBase :: "utable \<Rightarrow> uint \<Rightarrow> string option" where
  "Int_ToStringBase table b =
     (if Int_IsSign table
      then let temp = table;
               (_, temp) = Int_Abs temp
           in UInt_ToStringBase temp b True
      else UInt_ToStringBase table b False)"

definition Int_ToString :: "utable \<Rightarrow> uint \<Rightarrow> string option" where
  "Int_ToString table b = Int_ToStringBase table b"

definition Int_FromStringBase ::
  "utable \<Rightarrow> string \<Rightarrow> uint \<Rightarrow> (uint \<times> utable \<times> string \<times> bool) option" where
  "Int_FromStringBase table s b =
     (let s = Misc_SkipWhiteCharacters s;
          (is_sign, s) = (case s of
              [] \<Rightarrow> (False, s)
            | ch # s' \<Rightarrow> if ch = CHR ''-'' then (True, Misc_SkipWhiteCharacters s')
                         else if ch = CHR ''+'' then (False, Misc_SkipWhiteCharacters s')
                         else (False, s))
      in do {
        (c, table, after, value_read) \<leftarrow> UInt_FromString table s b;
        if c \<noteq> 0 then Some (1, table, after, value_read)
        else if is_sign
        then let mmin = Int_SetMin table
             in if UInt_greater table mmin then Some (1, table, after, value_read)
                else Some (0, snd (Int_ChangeSign table), after, value_read)
        else let mmax = Int_SetMax table
             in if UInt_greater table mmax then Some (1, table, after, value_read)
                else Some (0, table, after, value_read)
      })"

definition Int_FromString ::
  "utable \<Rightarrow> string \<Rightarrow> uint \<Rightarrow> (uint \<times> utable \<times> string \<times> bool) option" where
  "Int_FromString table s b = Int_FromStringBase table s b"

definition Int_FromString_std :: "utable \<Rightarrow> string \<Rightarrow> uint \<Rightarrow> (uint \<times> utable) option" where
  "Int_FromString_std table s b = map_option (\<lambda>(c, t, _). (c, t)) (Int_FromString table s b)"

definition Int_assign_string :: "utable \<Rightarrow> string \<Rightarrow> utable option" where
  "Int_assign_string table s = map_option (\<lambda>(_, t, _). t) (Int_FromString table s 10)"

definition Int_assign_std_string :: "utable \<Rightarrow> string \<Rightarrow> utable option" where
  "Int_assign_std_string table s = map_option (\<lambda>(_, t, _). t) (Int_FromString table s 10)"

definition Int_new_string :: "utable \<Rightarrow> string \<Rightarrow> utable option" where
  "Int_new_string table s = map_option (\<lambda>(_, t, _). t) (Int_FromString table s 10)"

definition Int_new_std_string :: "utable \<Rightarrow> string \<Rightarrow> utable option" where
  "Int_new_std_string table s = map_option (\<lambda>(_, t, _). t) (Int_FromString table s 10)"

text \<open>The two limits the parsed magnitude is compared with.\<close>

lemma limit_values:
  assumes "t \<noteq> []"
  shows "2 * uval (Int_SetMin t) = W ^ length t" "2 * uval (Int_SetMax t) + 2 = W ^ length t"
proof -
  note mn = SetMin_result [OF assms] and mx = SetMax_result [OF assms]
  have "ival (Int_SetMin t) < 0" using mn(2) int_W_power_pos [of "length t"] by linarith
  then have "int (uval (Int_SetMin t)) = ival (Int_SetMin t) + int (W ^ length t)"
    using ival_cases [of "Int_SetMin t"] mn(1) by (cases "2 * int (uval (Int_SetMin t)) < int (W ^ length t)") auto
  then have "2 * int (uval (Int_SetMin t)) = int (W ^ length t)" using mn(2) by linarith
  then show "2 * uval (Int_SetMin t) = W ^ length t" by linarith
  have "1 * 2 \<le> int (W ^ length t)" using one_in_range [OF assms] by (simp del: of_nat_power)
  then have "0 \<le> ival (Int_SetMax t)" using mx(2) by linarith
  then have "uval (Int_SetMax t) = nat (ival (Int_SetMax t))" by (rule uval_nonneg)
  then have "2 * int (uval (Int_SetMax t)) + 2 = int (W ^ length t)" using mx(2) \<open>0 \<le> ival (Int_SetMax t)\<close> by simp
  then show "2 * uval (Int_SetMax t) + 2 = W ^ length t" by linarith
qed

definition sign_of :: "string \<Rightarrow> bool" where
  "sign_of s \<longleftrightarrow> (case Misc_SkipWhiteCharacters s of [] \<Rightarrow> False | ch # _ \<Rightarrow> ch = CHR ''-'')"

definition after_sign :: "string \<Rightarrow> string" where
  "after_sign s = (case Misc_SkipWhiteCharacters s of
      [] \<Rightarrow> []
    | ch # s' \<Rightarrow> if ch = CHR ''-'' \<or> ch = CHR ''+'' then Misc_SkipWhiteCharacters s' else ch # s')"

lemma SkipWhite_idem [simp]: "Misc_SkipWhiteCharacters (Misc_SkipWhiteCharacters s) = Misc_SkipWhiteCharacters s"
  by (induction s) auto

lemma after_sign_skip: "Misc_SkipWhiteCharacters (after_sign s) = after_sign s"
proof (cases "Misc_SkipWhiteCharacters s")
  case (Cons ch s')
  then have "Misc_SkipWhiteCharacters (ch # s') = ch # s'" using SkipWhite_idem [of s] by simp
  with Cons show ?thesis by (simp add: after_sign_def del: Misc_SkipWhiteCharacters.simps)
qed (simp add: after_sign_def)

lemma FromString_ival:
  assumes "t \<noteq> []" "2 \<le> b" "b \<le> 16" "after_sign s = ds @ rest"
    "\<forall>ch \<in> set ds. is_digit b ch" "rest = [] \<or> \<not> is_digit b (hd rest)"
  defines "x \<equiv> signed_value (sign_of s) (num_value b 0 ds)"
  shows "\<exists>t'. Int_FromString t s b = Some (of_bool (\<not> fits (length t) x), t', rest, ds \<noteq> []) \<and>
    (fits (length t) x \<longrightarrow> t' = itab (length t) x)"
proof -
  let ?n = "length t" and ?v = "num_value b 0 ds"
  have n: "0 < ?n" using assms(1) by simp
  obtain u where u: "UInt_FromString t (after_sign s) b = Some (of_bool (W ^ ?n \<le> ?v), u, rest, ds \<noteq> [])"
    "?v < W ^ ?n \<longrightarrow> u = utab ?n ?v"
    using FromStringBase_result [OF assms(1-3), of "after_sign s" ds rest] assms(4-6) after_sign_skip [of s]
    by (auto simp: UInt_FromString_def)
  have run: "Int_FromString t s b = (case UInt_FromString t (after_sign s) b of None \<Rightarrow> None
    | Some (c, table, after, value_read) \<Rightarrow>
        if c \<noteq> 0 then Some (1, table, after, value_read)
        else if sign_of s
        then if UInt_greater table (Int_SetMin table) then Some (1, table, after, value_read)
             else Some (0, snd (Int_ChangeSign table), after, value_read)
        else if UInt_greater table (Int_SetMax table) then Some (1, table, after, value_read)
             else Some (0, table, after, value_read))"
    unfolding Int_FromString_def Int_FromStringBase_def after_sign_def sign_of_def Let_def
    by (auto split: list.split option.split)
  show ?thesis
  proof (cases "?v < W ^ ?n")
    case False
    then show ?thesis using u(1) run fits_signed_value [OF False n] by (simp add: x_def)
  next
    case True
    then have ut: "u = utab ?n ?v" "uval u = ?v" "length u = ?n" using u(2) by (simp_all add: uval_utab_exact)
    then have ne: "u \<noteq> []" using assms(1) by auto
    have lim: "UInt_greater u (Int_SetMin u) \<longleftrightarrow> W ^ ?n < 2 * ?v" "UInt_greater u (Int_SetMax u) \<longleftrightarrow> W ^ ?n \<le> 2 * ?v"
      using limit_values [OF ne] Cmp_values(2) [OF SetMin_result(1) [OF ne]] Cmp_values(2) [OF SetMax_result(1) [OF ne]] ut
        even_W_power [OF n] by (auto simp: UInt_greater_def elim!: evenE)
    have f: "fits ?n x \<longleftrightarrow> (if sign_of s then \<not> W ^ ?n < 2 * ?v else \<not> W ^ ?n \<le> 2 * ?v)"
    proof (cases "sign_of s")
      case True
      then have "x = - int ?v" by (simp add: x_def signed_value_def)
      then have "fits ?n x \<longleftrightarrow> 2 * int ?v \<le> int (W ^ ?n)"
        using int_W_power_pos [of ?n] unfolding fits_def by linarith
      moreover have "(2 * int ?v \<le> int (W ^ ?n)) = (\<not> W ^ ?n < 2 * ?v)" by linarith
      ultimately show ?thesis using True by simp
    next
      case False
      then show ?thesis using fits_int_iff [of ?n ?v] by (simp add: x_def signed_value_def not_le)
    qed
    have "snd (Int_ChangeSign u) = itab ?n (- int ?v)" using ChangeSign_utab [OF n True] ut(1) by simp
    then show ?thesis unfolding run u(1) f lim
      using True ut lim by (auto simp: x_def signed_value_def utab_itab)
  qed
qed

lemma digit_not_sign: "is_digit b ch \<Longrightarrow> ch \<noteq> CHR ''-'' \<and> ch \<noteq> CHR ''+''"
  by (auto simp: is_digit_def Misc_CharToDigit_def char_uint_def Let_def)

lemma digits_after_sign:
  assumes "ds \<noteq> []" "\<forall>ch \<in> set ds. is_digit b ch"
  shows "after_sign ds = ds" "\<not> sign_of ds" "after_sign (CHR ''-'' # ds) = ds" "sign_of (CHR ''-'' # ds)"
proof -
  obtain ch ds' where ds: "ds = ch # ds'" using assms(1) by (cases ds) auto
  have skip: "Misc_SkipWhiteCharacters ds = ds" unfolding ds by (rule digit_not_white [of b]) (use assms(2) ds in simp)
  then show "after_sign ds = ds" "\<not> sign_of ds"
    using digit_not_sign [of b ch] assms(2) ds by (auto simp: after_sign_def sign_of_def simp del: Misc_SkipWhiteCharacters.simps)
  show "after_sign (CHR ''-'' # ds) = ds" "sign_of (CHR ''-'' # ds)"
    using skip by (simp_all add: after_sign_def sign_of_def)
qed

lemma Int_ToString_digits:
  assumes "2 \<le> b" "b \<le> 16" "t \<noteq> []"
  obtains ds where "Int_ToString t b = Some (if ival t < 0 then CHR ''-'' # ds else ds)" "ds \<noteq> []"
    "\<forall>ch \<in> set ds. is_digit b ch" "num_value b 0 ds = nat \<bar>ival t\<bar>"
proof -
  define u where "u = (if ival t < 0 then snd (Int_Abs t) else t)"
  have u: "uval u = nat \<bar>ival t\<bar>" "u \<noteq> []"
    using Abs_uval [OF assms(3)] Abs_snd [OF assms(3)] uval_nonneg [of t] assms(3) by (auto simp: u_def)
  obtain ds where ds: "UInt_ToString u b = Some ds" "ds \<noteq> []" "\<forall>ch \<in> set ds. is_digit b ch" "num_value b 0 ds = uval u"
    using ToString_digits [OF assms(1,2) u(2)] .
  have "Int_ToString t b = Some (if ival t < 0 then CHR ''-'' # ds else ds)"
  proof (cases "ival t < 0")
    case True
    then have "UInt_ToStringBase u b True = Some (CHR ''-'' # ds)"
      using ToStringBase_result [OF assms(1,2) u(2)] ds(1) u(1) by (simp add: UInt_ToString_def)
    then show ?thesis using True assms(3) by (simp add: Int_ToString_def Int_ToStringBase_def u_def split_beta)
  next
    case False
    then show ?thesis using ds(1) assms(3) by (simp add: Int_ToString_def Int_ToStringBase_def u_def UInt_ToString_def)
  qed
  with ds u that show thesis by metis
qed

lemma Int_FromString_ToString:
  assumes "2 \<le> b" "b \<le> 16" "t \<noteq> []" "length u = length t"
  shows "\<exists>s. Int_ToString t b = Some s \<and> Int_FromString u s b = Some (0, t, [], True)"
proof -
  obtain ds where ds: "Int_ToString t b = Some (if ival t < 0 then CHR ''-'' # ds else ds)" "ds \<noteq> []"
    "\<forall>ch \<in> set ds. is_digit b ch" "num_value b 0 ds = nat \<bar>ival t\<bar>" using Int_ToString_digits [OF assms(1-3)] .
  let ?s = "if ival t < 0 then CHR ''-'' # ds else ds"
  have ne: "u \<noteq> []" using assms(3,4) by auto
  have s: "after_sign ?s = ds @ []" "sign_of ?s = (ival t < 0)" using digits_after_sign [OF ds(2,3)] by auto
  have "signed_value (sign_of ?s) (num_value b 0 ds) = ival t" unfolding s ds(4) signed_value_def by simp
  then show ?thesis
    using FromString_ival [OF ne assms(1,2) s(1) ds(3)] ds(1,2) ival_bounds [of t] assms(4) itab_ival [of t] by auto
qed

section \<open>Operators\<close>

definition Int_uminus :: "utable \<Rightarrow> utable" where
  "Int_uminus table = (let temp = table in snd (Int_ChangeSign temp))"

definition Int_minus :: "utable \<Rightarrow> utable \<Rightarrow> utable" where
  "Int_minus table p2 = (let temp = table in snd (Int_Sub temp p2))"

definition Int_minus_assign :: "utable \<Rightarrow> utable \<Rightarrow> utable" where
  "Int_minus_assign table p2 = snd (Int_Sub table p2)"

definition Int_plus :: "utable \<Rightarrow> utable \<Rightarrow> utable" where
  "Int_plus table p2 = (let temp = table in snd (Int_Add temp p2))"

definition Int_plus_assign :: "utable \<Rightarrow> utable \<Rightarrow> utable" where
  "Int_plus_assign table p2 = snd (Int_Add table p2)"

definition Int_times :: "utable \<Rightarrow> utable \<Rightarrow> utable option" where
  "Int_times table p2 = (let temp = table in map_option snd (Int_Mul temp p2))"

definition Int_times_assign :: "utable \<Rightarrow> utable \<Rightarrow> utable option" where
  "Int_times_assign table p2 = map_option snd (Int_Mul table p2)"

definition Int_divide :: "utable \<Rightarrow> utable \<Rightarrow> utable option" where
  "Int_divide table p2 = (let temp = table in map_option (\<lambda>(_, q, _). q) (Int_Div temp p2 None))"

definition Int_divide_assign :: "utable \<Rightarrow> utable \<Rightarrow> utable option" where
  "Int_divide_assign table p2 = map_option (\<lambda>(_, q, _). q) (Int_Div table p2 None)"

definition Int_modulo :: "utable \<Rightarrow> utable \<Rightarrow> utable \<Rightarrow> utable option" where
  "Int_modulo table p2 remainder =
     (let temp = table in map_option (\<lambda>(_, _, r). the r) (Int_Div temp p2 (Some remainder)))"

definition Int_modulo_assign :: "utable \<Rightarrow> utable \<Rightarrow> utable \<Rightarrow> utable option" where
  "Int_modulo_assign table p2 remainder =
     map_option (\<lambda>(_, q, r). Int_assign q (the r)) (Int_Div table p2 (Some remainder))"

definition Int_pre_inc :: "utable \<Rightarrow> utable option" where
  "Int_pre_inc table = map_option snd (Int_AddOne table)"

definition Int_post_inc :: "utable \<Rightarrow> (utable \<times> utable) option" where
  "Int_post_inc table = (let temp = table in map_option (\<lambda>(_, t). (temp, t)) (Int_AddOne table))"

definition Int_pre_dec :: "utable \<Rightarrow> utable option" where
  "Int_pre_dec table = map_option snd (Int_SubOne table)"

definition Int_post_dec :: "utable \<Rightarrow> (utable \<times> utable) option" where
  "Int_post_dec table = (let temp = table in map_option (\<lambda>(_, t). (temp, t)) (Int_SubOne table))"

lemma Int_operator_values:
  assumes "length p = length t" "t \<noteq> []"
  shows "Int_uminus t = itab (length t) (- ival t)"
    and "Int_plus t p = itab (length t) (ival t + ival p)"
    and "Int_minus t p = itab (length t) (ival t - ival p)"
    and "fits (length t) (ival t * ival p) \<Longrightarrow> Int_times t p = Some (itab (length t) (ival t * ival p))"
    and "ival p \<noteq> 0 \<Longrightarrow> Int_divide t p = Some (itab (length t) (ival t sdiv ival p))"
    and "ival p \<noteq> 0 \<Longrightarrow> Int_modulo t p r = Some (itab (length t) (ival t smod ival p))"
  using ChangeSign_result [OF assms(2)] Add_ival [OF assms] Sub_ival [OF assms] Mul_ival [OF assms] Div_ival [OF assms]
  by (auto simp: Int_uminus_def Int_plus_def Int_minus_def Int_times_def Int_divide_def Int_modulo_def put_remainder_def)

text \<open>The division law of the operators, with the remainder taking the sign of the dividend.\<close>

lemma Int_division_law:
  assumes "length p = length t" "t \<noteq> []" "ival p \<noteq> 0" "fits (length t) (ival t sdiv ival p)"
  shows "\<exists>q m. Int_divide t p = Some q \<and> Int_modulo t p r = Some m \<and>
    ival t = ival q * ival p + ival m \<and> \<bar>ival m\<bar> < \<bar>ival p\<bar> \<and> (ival m \<noteq> 0 \<longrightarrow> sgn (ival m) = sgn (ival t))"
proof -
  let ?a = "ival t" and ?b = "ival p"
  have m: "\<bar>?a smod ?b\<bar> < \<bar>?b\<bar>" "?a smod ?b \<noteq> 0 \<longrightarrow> sgn (?a smod ?b) = sgn ?a"
  proof -
    define x where "x = \<bar>?a\<bar> mod \<bar>?b\<bar>"
    have x: "0 \<le> x" "x < \<bar>?b\<bar>" "?a smod ?b = sgn ?a * x"
      using assms(3) by (simp_all add: x_def signed_modulo_int_def)
    then show "\<bar>?a smod ?b\<bar> < \<bar>?b\<bar>" by (cases "?a = 0") (simp_all add: abs_mult)
    show "?a smod ?b \<noteq> 0 \<longrightarrow> sgn (?a smod ?b) = sgn ?a" using x by (simp add: sgn_mult)
  qed
  have "fits (length t) (?a smod ?b)"
    using m(1) ival_bounds [of p, unfolded assms(1)] unfolding fits_def by linarith
  with assms(4) show ?thesis
    using Int_operator_values(5,6) [OF assms(1-3)] m sdiv_mult_smod_eq [of ?a ?b] by auto
qed

end
