(* ===== verification/Int_Properties.thy ===== *)
theory Int_Properties
  imports Int_Operators
begin

text \<open>
  The properties of \<^verbatim>\<open>Int\<close>. \<open>ival\<close> is the integer a table stands for in two's complement,
  \<open>itab n x\<close> the table of \<open>n\<close> words of the integer \<open>x\<close> reduced to the range, and \<open>fits n x\<close> that
  \<open>x\<close> is in the range of \<open>n\<close> words.
\<close>

text \<open>
  C12. \<^verbatim>\<open>Add\<close> and \<^verbatim>\<open>Sub\<close> of \<^verbatim>\<open>Int\<close> compute the sum and the difference, wrapped to
  the range, and report a carry exactly when the exact result is out of range.
\<close>

theorem Int_Add_Sub_exact:
  assumes "length s = length t" "t \<noteq> []"
  shows "Int_Add t s = (of_bool (\<not> fits (length t) (ival t + ival s)), itab (length t) (ival t + ival s)) \<and>
    Int_Sub t s = (of_bool (\<not> fits (length t) (ival t - ival s)), itab (length t) (ival t - ival s))"
  using Add_ival [OF assms] Sub_ival [OF assms] by simp

theorem Int_Add_Sub_exact_witness:
  "fst (Int_Add [9223372036854775807] [1]) = 1 \<and> fst (Int_Sub [9223372036854775807] [1]) = 0"
  using Int_Add_Sub_exact [of "[1]" "[9223372036854775807]"] by (simp add: ival_def fits_def W_def)

text \<open>
  C13. \<^verbatim>\<open>Mul\<close> always returns, its carry is zero exactly when the product is in range, and
  then the table holds the product; the smallest value is a possible product.
\<close>

theorem Int_Mul_exact:
  assumes "length s = length t" "t \<noteq> []"
  shows "\<exists>c r. Int_Mul t s = Some (c, r) \<and> (c = 0 \<longleftrightarrow> fits (length t) (ival t * ival s)) \<and>
    (c = 0 \<longrightarrow> ival r = ival t * ival s)"
  using Mul_ival [OF assms] by auto

theorem Int_Mul_exact_witness:
  "\<exists>c r. Int_Mul [4611686018427387904] [18446744073709551614] = Some (c, r) \<and> c = 0 \<and>
    ival r = - 9223372036854775808"
  using Int_Mul_exact [of "[18446744073709551614]" "[4611686018427387904]"] by (simp add: ival_def fits_def W_def)

text \<open>
  C14. \<^verbatim>\<open>Div\<close> truncates towards zero: with a divisor that is not zero it returns 0, the
  quotient \<open>sdiv\<close> and the remainder \<open>smod\<close>. The two satisfy the law the comment of the method states, with a
  remainder of the sign of the dividend, for all arguments but the smallest value divided by minus one: its
  quotient does not exist, and the smallest value itself is returned with a remainder of zero and no error.
\<close>

theorem Int_Div_truncates:
  assumes "length s = length t" "t \<noteq> []" "ival s \<noteq> 0"
  shows "Int_Div t s (Some r0) =
      Some (0, itab (length t) (ival t sdiv ival s), Some (itab (length t) (ival t smod ival s))) \<and>
    (if 2 * ival t = - int (W ^ length t) \<and> ival s = - 1
     then Int_Div t s (Some r0) = Some (0, t, Some (itab (length t) 0))
     else \<exists>q m. Int_divide t s = Some q \<and> Int_modulo t s r0 = Some m \<and> ival t = ival q * ival s + ival m \<and>
        \<bar>ival m\<bar> < \<bar>ival s\<bar> \<and> (ival m \<noteq> 0 \<longrightarrow> sgn (ival m) = sgn (ival t)))"
proof -
  have div: "Int_Div t s (Some r0) =
      Some (0, itab (length t) (ival t sdiv ival s), Some (itab (length t) (ival t smod ival s)))"
    using Div_ival [OF assms] by (simp add: put_remainder_def)
  have "Int_Div t s (Some r0) = Some (0, t, Some (itab (length t) 0))" if "2 * ival t = - int (W ^ length t)" "ival s = - 1"
    using div quotient_wraps [OF that(1)] that(2) by simp
  then show ?thesis using div Int_division_law [OF assms, of r0] quotient_fits [OF assms(1,3)] by auto
qed

theorem Int_Div_truncates_witness:
  "Int_Div [18446744073709551596] [3] (Some [0]) = Some (0, [18446744073709551610], Some [18446744073709551614]) \<and>
   (\<exists>q m. Int_divide [18446744073709551596] [3] = Some q \<and> Int_modulo [18446744073709551596] [3] [0] = Some m \<and>
      - 20 = ival q * 3 + ival m)"
proof -
  have v: "ival [18446744073709551596] = - 20" "ival [3] = 3" "length [18446744073709551596 :: uint] = 1" "W ^ 1 = 2 ^ 64"
    by (simp_all add: ival_def W_def)
  have "itab 1 (- 20 sdiv 3) = [18446744073709551610]" "itab 1 (- 20 smod 3) = [18446744073709551614]"
    by (simp_all add: itab_def W_def signed_divide_int_def signed_modulo_int_def)
  then show ?thesis using Int_Div_truncates [of "[3]" "[18446744073709551596]" "[0]", unfolded v] by auto
qed

text \<open>
  C15. What \<^verbatim>\<open>Pow\<close> returns for every base \<open>a\<close> and exponent \<open>b\<close>, with \<open>k\<close> the absolute value of \<open>b\<close>. A zero base with
  an exponent that is not positive gives the code 2. For an exponent that is not negative the carry is set exactly when
  \<open>pow_carry\<close> says so (the absolute value of the power leaves the unsigned range, the base is the smallest value, or
  the power is the smallest value), and while the absolute value of the power is in the unsigned range the table holds the
  power, wrapped to the signed range. For a negative exponent the object is unchanged and the carry set when \<open>pow_carry\<close> says so
  or the exponent is the smallest value; otherwise the result is one divided by the wrapped power.
\<close>

theorem Int_Pow_outcome:
  assumes "length p = length t" "t \<noteq> []"
  defines "n \<equiv> length t" and "a \<equiv> ival t" and "b \<equiv> ival p" and "k \<equiv> nat \<bar>ival p\<bar>"
  shows "(a = 0 \<and> b \<le> 0 \<longrightarrow> Int_Pow t p = Some (2, t)) \<and>
    (0 \<le> b \<and> (a \<noteq> 0 \<or> b \<noteq> 0) \<longrightarrow> (\<exists>r. Int_Pow t p = Some (of_bool (pow_carry n a k), r) \<and>
       (\<bar>a\<bar> ^ k < int (W ^ n) \<longrightarrow> r = itab n (a ^ k)))) \<and>
    (b < 0 \<and> a \<noteq> 0 \<longrightarrow> Int_Pow t p =
       Some (if 2 * b = - int (W ^ n) \<or> pow_carry n a k then (1, t) else (0, itab n (1 sdiv ival (itab n (a ^ k))))))"
  using Pow_ival_errors(1) [OF assms(1,2)] Pow_natural [OF assms(1,2)] Pow_negative [OF assms(1,2)]
  by (simp add: n_def a_def b_def k_def)

theorem Int_Pow_outcome_witness:
  "Int_Pow [18446744073709551614] [5] = Some (0, [18446744073709551584]) \<and>
   Int_Pow [18446744073709551614] [18446744073709551615] = Some (0, [0])"
  using Int_Pow_outcome [of "[5]" "[18446744073709551614]"] Int_Pow_outcome [of "[18446744073709551615]" "[18446744073709551614]"]
  by (simp add: ival_def itab_def W_def pow_carry_def signed_divide_int_def)

text \<open>
  The carry of \<^verbatim>\<open>Pow\<close> is wrong both ways: \<open>3 ^ 40\<close> overflows one word and is reported as correct (with a negative
  value), and \<open>(- 2) ^ 63\<close>, which is in range and computed correctly, is reported as an overflow, as are the
  zeroth power of the smallest value and the smallest power of one, which are both one.
\<close>

lemma Int_Pow_wrong_carry:
  "Int_Pow [3] [40] = Some (0, [12157665459056928801]) \<and> ival [12157665459056928801] < 0 \<and>
   Int_Pow [18446744073709551614] [63] = Some (1, [9223372036854775808]) \<and>
   ival [9223372036854775808] = ival [18446744073709551614] ^ 63 \<and>
   Int_Pow [9223372036854775808] [0] = Some (1, [1]) \<and> Int_Pow [1] [9223372036854775808] = Some (1, [1])"
proof -
  have "Int_Pow [9223372036854775808] [0] = Some (1, [1])" "Int_Pow [1] [9223372036854775808] = Some (1, [1])" by code_simp+
  then show ?thesis using Pow_missed_carry(1) Pow_spurious_carry by (simp add: ival_def W_def)
qed

text \<open>The smallest value divided by minus one breaks the law of the comment, and 0 is returned.\<close>

lemma Int_Div_smallest:
  "Int_Div [9223372036854775808] [18446744073709551615] (Some [0]) = Some (0, [9223372036854775808], Some [0]) \<and>
   ival [9223372036854775808] \<noteq> ival [18446744073709551615] * ival [9223372036854775808] + ival [0]"
proof -
  have "Int_Div [9223372036854775808] [18446744073709551615] (Some [0]) = Some (0, [9223372036854775808], Some [0])" by code_simp
  then show ?thesis by (simp add: ival_def W_def)
qed

text \<open>
  \<^verbatim>\<open>AddInt\<close> adds an unsigned word at a position and reports a carry exactly when the sum
  is out of range, provided the added amount is in the range itself.
\<close>

lemma Int_AddInt_exact:
  assumes "i < length t" "fits (length t) (int (W ^ i * unat v))"
  shows "Int_AddInt t v i = Some (of_bool (\<not> fits (length t) (ival t + int (W ^ i * unat v))),
    itab (length t) (ival t + int (W ^ i * unat v)))"
  using AddInt_ival [OF assms(1)] assms(2) by (simp only: fits_int_iff)

text \<open>
  Without that provision the overflow is missed: adding \<open>2^64 - 1\<close> to \<open>- 1\<close> in one word
  reports no carry.
\<close>

lemma Int_AddInt_missed_carry:
  "Int_AddInt [18446744073709551615] 18446744073709551615 0 = Some (0, [18446744073709551614]) \<and>
   \<not> fits 1 (ival [18446744073709551615] + int (unat (18446744073709551615 :: uint)))"
  using AddInt_missed_carry by (simp add: TTMATH_UINT_MAX_VALUE_def)

text \<open>
  \<^verbatim>\<open>ChangeSign\<close> negates every value but the smallest, which it reports and keeps; two
  calls always give the value back.
\<close>

lemma ChangeSign_involution:
  assumes "t \<noteq> []"
  shows "snd (Int_ChangeSign (snd (Int_ChangeSign t))) = t \<and>
    (if 2 * ival t = - int (W ^ length t) then Int_ChangeSign t = (1, t)
     else fst (Int_ChangeSign t) = 0 \<and> ival (snd (Int_ChangeSign t)) = - ival t)"
proof (cases "2 * ival t = - int (W ^ length t)")
  case True
  then have "Int_ChangeSign t = (1, t)"
    using IsOnlyTheHighestBitSet_ival [OF assms] by (simp add: Int_ChangeSign_def)
  with True show ?thesis by simp
next
  case False
  let ?u = "itab (length t) (- ival t)"
  have f: "fits (length t) (- ival t)" using fits_uminus [OF ival_bounds, of t] False by simp
  have ne: "?u \<noteq> []" using assms by simp
  have "Int_ChangeSign t = (0, ?u)" using ChangeSign_result [OF assms] f by simp
  moreover have "snd (Int_ChangeSign ?u) = t" using ChangeSign_result [OF ne] f by simp
  ultimately show ?thesis using False f by simp
qed

text \<open>
  The comparison operators are the order of the integers.
\<close>

lemma Int_comparison_refines_order:
  assumes "length l = length t" "t \<noteq> []"
  shows "(Int_less t l \<longleftrightarrow> ival t < ival l) \<and> (Int_greater t l \<longleftrightarrow> ival l < ival t) \<and>
    (Int_less_equal t l \<longleftrightarrow> ival t \<le> ival l) \<and> (Int_greater_equal t l \<longleftrightarrow> ival l \<le> ival t) \<and>
    (Int_equal t l \<longleftrightarrow> ival t = ival l) \<and> (Int_not_equal t l \<longleftrightarrow> ival t \<noteq> ival l)"
  using Int_comparison [OF assms] by simp

text \<open>
  Conversion between sizes of \<^verbatim>\<open>Int\<close> keeps the integer whenever it fits the new size and
  reports a carry otherwise; in particular widening and narrowing again is the identity.
\<close>

lemma Int_size_conversion:
  assumes "t \<noteq> []" "length t \<le> length u"
  shows "fst (Int_FromInt_Int u t) = 0 \<and> ival (snd (Int_FromInt_Int u t)) = ival t \<and>
    Int_FromInt_Int t (snd (Int_FromInt_Int u t)) = (0, t) \<and>
    (fst (Int_FromInt_Int t u) = 0 \<longleftrightarrow> fits (length t) (ival u)) \<and>
    (fits (length t) (ival u) \<longrightarrow> ival (snd (Int_FromInt_Int t u)) = ival u)"
proof -
  have u: "u \<noteq> []" "itab (length u) (ival t) \<noteq> []" using assms by auto
  have f: "fits (length u) (ival t)" by (rule fits_mono [OF ival_bounds assms(2)])
  show ?thesis
    using FromInt_Int_result [OF u(1) assms(1)] FromInt_Int_result [OF assms(1) u(2)]
      FromInt_Int_result [OF assms(1) u(1)] f ival_bounds [of t] by simp
qed

text \<open>
  The conversions to signed machine words report a carry exactly when the integer is out of
  the range of the word, and a value that went in as a machine word comes out again.
\<close>

lemma Int_word_conversion:
  assumes "t \<noteq> []"
  shows "Int_ToInt_sint t = (of_bool (\<not> (- (2 ^ 63) \<le> ival t \<and> ival t < 2 ^ 63)), of_int (ival t)) \<and>
    Int_ToInt_32 t = (of_bool (\<not> (- (2 ^ 31) \<le> ival t \<and> ival t < 2 ^ 31)), of_int (ival t)) \<and>
    Int_ToUInt_uint t = (of_bool (\<not> (0 \<le> ival t \<and> ival t < 2 ^ 64)), of_int (ival t)) \<and>
    Int_ToInt_sint (snd (Int_FromInt t v)) = (0, v)"
proof -
  have f: "fits 1 x \<longleftrightarrow> - (2 ^ 63) \<le> x \<and> x < 2 ^ 63" for x by (auto simp: fits_def W_def)
  have "fits (length t) (sint v)" "fits 1 (sint v)"
    using fits_mono [OF ival_bounds [of "[v]"], of "length t"] ival_bounds [of "[v]"] assms
    by (simp_all add: ival_single Suc_le_eq)
  then have "Int_ToInt_sint (snd (Int_FromInt t v)) = (0, v)"
    using ToInt_ival [of "itab (length t) (sint v)"] FromInt_ival [OF assms, of v] assms by simp
  then show ?thesis
    using ToInt_ival [OF assms] ToInt_32_ival [OF assms] ToUInt_ival [OF assms] f by (simp add: W_def)
qed

text \<open>
  Printing an integer in a base from 2 to 16 always ends, and reading the string in the same
  base gives the integer back, the smallest value included.
\<close>

lemma Int_string_round_trip:
  assumes "2 \<le> b" "b \<le> 16" "t \<noteq> []" "length u = length t"
  shows "\<exists>s. Int_ToString t b = Some s \<and> Int_FromString u s b = Some (0, t, [], True)"
  using assms by (rule Int_FromString_ToString)

end
