(* ===== verification/Geos_Coordinate.thy ===== *)
theory Geos_Coordinate
  imports Prelude
begin

text \<open>
  Comparisons of coordinates: the inline part of \<^verbatim>\<open>src/includes/geos/geom/Coordinate.inl\<close> that
  does no arithmetic. A \<^verbatim>\<open>double\<close> is its 64 bits (IEEE 754): the lower 63 bits are the magnitude
  and bit 63 the sign, values above the infinity are not numbers, and the comparison operators of
  C++ are false when an operand is not a number. \<open>dkey\<close> orders the numbers, with the two zeros
  equal. \<^verbatim>\<open>std::hash<double>\<close> is a parameter.
\<close>

section \<open>Doubles\<close>

type_synonym double = "64 word"

definition dmag :: "double \<Rightarrow> nat" where
  "dmag d = unat (d AND 0x7FFFFFFFFFFFFFFF)"

definition isnan :: "double \<Rightarrow> bool" where
  "isnan d = (dmag d > 0x7FF0000000000000)"

definition dkey :: "double \<Rightarrow> int" where
  "dkey d = (if bit d 63 then - int (dmag d) else int (dmag d))"

definition d_less :: "double \<Rightarrow> double \<Rightarrow> bool" where
  "d_less a b = (\<not> isnan a \<and> \<not> isnan b \<and> dkey a < dkey b)"

definition d_le :: "double \<Rightarrow> double \<Rightarrow> bool" where
  "d_le a b = (\<not> isnan a \<and> \<not> isnan b \<and> dkey a \<le> dkey b)"

definition d_eq :: "double \<Rightarrow> double \<Rightarrow> bool" where
  "d_eq a b = (\<not> isnan a \<and> \<not> isnan b \<and> dkey a = dkey b)"

abbreviation d_greater :: "double \<Rightarrow> double \<Rightarrow> bool" where
  "d_greater a b \<equiv> d_less b a"

abbreviation d_ge :: "double \<Rightarrow> double \<Rightarrow> bool" where
  "d_ge a b \<equiv> d_le b a"

definition DoubleNotANumber :: double where
  "DoubleNotANumber = 0x7FF8000000000000"

definition d_zero :: double where
  "d_zero = 0"

definition d_minus_one :: double where
  "d_minus_one = 0xBFF0000000000000"

text \<open>On numbers the comparisons are those of the keys.\<close>

lemma d_compare [simp]:
  assumes "\<not> isnan a" "\<not> isnan b"
  shows "d_less a b = (dkey a < dkey b)" "d_le a b = (dkey a \<le> dkey b)" "d_eq a b = (dkey a = dkey b)"
  using assms by (simp_all add: d_less_def d_le_def d_eq_def)

lemma d_compare_nan [simp]:
  "isnan a \<Longrightarrow> \<not> d_less a b" "isnan b \<Longrightarrow> \<not> d_less a b"
  "isnan a \<Longrightarrow> \<not> d_le a b" "isnan b \<Longrightarrow> \<not> d_le a b"
  "isnan a \<Longrightarrow> \<not> d_eq a b" "isnan b \<Longrightarrow> \<not> d_eq a b"
  by (simp_all add: d_less_def d_le_def d_eq_def)

lemma d_constants [simp]:
  "isnan DoubleNotANumber" "\<not> isnan d_zero" "\<not> isnan d_minus_one" "dkey d_zero = 0" "dkey d_minus_one < 0"
  by (simp_all add: DoubleNotANumber_def d_zero_def d_minus_one_def isnan_def dkey_def dmag_def bit_iff_odd_drop_bit)

section \<open>Coordinates\<close>

record coordinate =
  cx :: double
  cy :: double
  cz :: double

definition Coordinate_setNull :: "coordinate \<Rightarrow> coordinate" where
  "Coordinate_setNull c = c\<lparr>cx := DoubleNotANumber, cy := DoubleNotANumber, cz := DoubleNotANumber\<rparr>"

definition Coordinate_isNull :: "coordinate \<Rightarrow> bool" where
  "Coordinate_isNull c = (isnan (cx c) \<and> isnan (cy c) \<and> isnan (cz c))"

definition Coordinate_new :: "double \<Rightarrow> double \<Rightarrow> double \<Rightarrow> coordinate" where
  "Coordinate_new xNew yNew zNew = \<lparr>cx = xNew, cy = yNew, cz = zNew\<rparr>"

definition Coordinate_equals2D :: "coordinate \<Rightarrow> coordinate \<Rightarrow> bool" where
  "Coordinate_equals2D c other =
     (if \<not> d_eq (cx c) (cx other) then False
      else if \<not> d_eq (cy c) (cy other) then False
      else True)"

definition Coordinate_equals :: "coordinate \<Rightarrow> coordinate \<Rightarrow> bool" where
  "Coordinate_equals c other = Coordinate_equals2D c other"

definition Coordinate_compareTo :: "coordinate \<Rightarrow> coordinate \<Rightarrow> int" where
  "Coordinate_compareTo c other =
     (if d_less (cx c) (cx other) then - 1
      else if d_greater (cx c) (cx other) then 1
      else if d_less (cy c) (cy other) then - 1
      else if d_greater (cy c) (cy other) then 1
      else 0)"

definition Coordinate_equals3D :: "coordinate \<Rightarrow> coordinate \<Rightarrow> bool" where
  "Coordinate_equals3D c other =
     (d_eq (cx c) (cx other) \<and> d_eq (cy c) (cy other) \<and>
      (d_eq (cz c) (cz other) \<or> isnan (cz c) \<and> isnan (cz other)))"

definition CoordinateLessThen_ptr :: "coordinate \<Rightarrow> coordinate \<Rightarrow> bool" where
  "CoordinateLessThen_ptr a b = (if Coordinate_compareTo a b < 0 then True else False)"

definition CoordinateLessThen_ref :: "coordinate \<Rightarrow> coordinate \<Rightarrow> bool" where
  "CoordinateLessThen_ref a b = (if Coordinate_compareTo a b < 0 then True else False)"

definition Coordinate_less :: "coordinate \<Rightarrow> coordinate \<Rightarrow> bool" where
  "Coordinate_less a b = CoordinateLessThen_ref a b"

definition Coordinate_eq :: "coordinate \<Rightarrow> coordinate \<Rightarrow> bool" where
  "Coordinate_eq a b = Coordinate_equals2D a b"

definition Coordinate_ne :: "coordinate \<Rightarrow> coordinate \<Rightarrow> bool" where
  "Coordinate_ne a b = (\<not> Coordinate_equals2D a b)"

definition Coordinate_HashCode :: "(double \<Rightarrow> 64 word) \<Rightarrow> coordinate \<Rightarrow> 64 word" where
  "Coordinate_HashCode hash c = hash (cx c) XOR push_bit 1 (hash (cy c))"

section \<open>The order of coordinates\<close>

definition proper :: "coordinate \<Rightarrow> bool" where
  "proper c \<longleftrightarrow> \<not> isnan (cx c) \<and> \<not> isnan (cy c)"

text \<open>
  What an ordered container asks of its comparison object: a strict weak order, that is an
  irreflexive and transitive relation whose incomparability is transitive.
\<close>

locale strict_weak_order =
  fixes dom :: "'a \<Rightarrow> bool" and lt :: "'a \<Rightarrow> 'a \<Rightarrow> bool"
  assumes irrefl: "dom a \<Longrightarrow> \<not> lt a a"
    and lt_trans: "dom a \<Longrightarrow> dom b \<Longrightarrow> dom c \<Longrightarrow> lt a b \<Longrightarrow> lt b c \<Longrightarrow> lt a c"
    and negative_trans: "dom a \<Longrightarrow> dom b \<Longrightarrow> dom c \<Longrightarrow> lt a c \<Longrightarrow> lt a b \<or> lt b c"
begin

lemma asym: "dom a \<Longrightarrow> dom b \<Longrightarrow> lt a b \<Longrightarrow> \<not> lt b a"
  using irrefl lt_trans by blast

lemma incomparable_trans:
  "dom a \<Longrightarrow> dom b \<Longrightarrow> dom c \<Longrightarrow> \<not> lt a b \<Longrightarrow> \<not> lt b a \<Longrightarrow> \<not> lt b c \<Longrightarrow> \<not> lt c b \<Longrightarrow>
   \<not> lt a c \<and> \<not> lt c a"
  using negative_trans by blast

text \<open>Incomparable keys cannot be told apart by the order.\<close>

lemma incomparable_lt: "dom a \<Longrightarrow> dom b \<Longrightarrow> dom c \<Longrightarrow> \<not> lt a b \<Longrightarrow> \<not> lt b a \<Longrightarrow> lt a c \<longleftrightarrow> lt b c"
  using negative_trans by blast

end

lemma compareTo_proper:
  assumes "proper a" "proper b"
  shows "Coordinate_compareTo a b < 0 \<longleftrightarrow> dkey (cx a) < dkey (cx b) \<or> dkey (cx a) = dkey (cx b) \<and> dkey (cy a) < dkey (cy b)"
    and "Coordinate_compareTo a b = 0 \<longleftrightarrow> Coordinate_equals2D a b"
  using assms by (auto simp: Coordinate_compareTo_def Coordinate_equals2D_def proper_def)

lemma Coordinate_less_proper:
  assumes "proper a" "proper b"
  shows "Coordinate_less a b \<longleftrightarrow> dkey (cx a) < dkey (cx b) \<or> dkey (cx a) = dkey (cx b) \<and> dkey (cy a) < dkey (cy b)"
  using compareTo_proper(1) [OF assms] by (simp add: Coordinate_less_def CoordinateLessThen_ref_def)

interpretation coordinate_order: strict_weak_order proper Coordinate_less
  by unfold_locales (auto simp: Coordinate_less_proper)

text \<open>Incomparable for the order is equal for \<^verbatim>\<open>operator==\<close>.\<close>

lemma coordinate_incomparable:
  assumes "proper a" "proper b"
  shows "\<not> Coordinate_less a b \<and> \<not> Coordinate_less b a \<longleftrightarrow> Coordinate_eq a b"
  using assms by (auto simp: Coordinate_less_proper Coordinate_eq_def Coordinate_equals2D_def proper_def)

text \<open>With coordinates that are not numbers it is no strict weak order: such a coordinate is
  incomparable with two that are ordered.\<close>

lemma coordinate_less_nan:
  fixes a b n :: coordinate
  defines "a \<equiv> Coordinate_new 0x3FF0000000000000 0 0" and "b \<equiv> Coordinate_new 0x4000000000000000 0 0"
    and "n \<equiv> Coordinate_new DoubleNotANumber 0 0"
  shows "\<not> Coordinate_less a n \<and> \<not> Coordinate_less n a \<and> \<not> Coordinate_less n b \<and> \<not> Coordinate_less b n \<and>
    Coordinate_less a b"
  by (simp add: a_def b_def n_def Coordinate_new_def Coordinate_less_def CoordinateLessThen_ref_def
      Coordinate_compareTo_def d_less_def isnan_def dkey_def dmag_def DoubleNotANumber_def bit_iff_odd_drop_bit)

lemma compareTo_antisym: "Coordinate_compareTo b a = - Coordinate_compareTo a b"
  by (auto simp: Coordinate_compareTo_def d_less_def)

lemma HashCode_eq:
  assumes "\<And>a b. d_eq a b \<Longrightarrow> hash a = hash b" "Coordinate_eq a b"
  shows "Coordinate_HashCode hash a = Coordinate_HashCode hash b"
  using assms(1) [of "cx a" "cx b"] assms(1) [of "cy a" "cy b"] assms(2)
  by (simp add: Coordinate_HashCode_def Coordinate_eq_def Coordinate_equals2D_def split: if_splits)

lemma isNull_setNull: "Coordinate_isNull (Coordinate_setNull c)"
  by (simp add: Coordinate_isNull_def Coordinate_setNull_def)

end
