(* ===== verification/Geos_Envelope.thy ===== *)
theory Geos_Envelope
  imports Geos_Coordinate
begin

text \<open>
  Envelopes: the inline part of \<^verbatim>\<open>src/includes/geos/geom/Envelope.inl\<close> and
  \<^verbatim>\<open>Envelope.h\<close> that compares and copies coordinates. The functions that subtract coordinates
  (width, height, distance) are not modelled, and \<^verbatim>\<open>covers(double, double)\<close>,
  \<^verbatim>\<open>covers(const Envelope &)\<close> and \<^verbatim>\<open>expandBy\<close>, which are compiled elsewhere, are parameters.
  A constructor takes the storage of the new object. The points of an envelope are those
  \<^verbatim>\<open>intersects(x, y)\<close> accepts; an envelope is \<open>regular\<close> when its bounds are numbers and it is
  null or its bounds are in order.
\<close>

section \<open>Operations\<close>

record envelope =
  minx :: double
  maxx :: double
  miny :: double
  maxy :: double

definition Envelope_setToNull :: "envelope \<Rightarrow> envelope" where
  "Envelope_setToNull e = e\<lparr>minx := d_zero, maxx := d_minus_one, miny := d_zero, maxy := d_minus_one\<rparr>"

definition Envelope_init :: "envelope \<Rightarrow> envelope" where
  "Envelope_init e = Envelope_setToNull e"

definition Envelope_init_bounds :: "envelope \<Rightarrow> double \<Rightarrow> double \<Rightarrow> double \<Rightarrow> double \<Rightarrow> envelope" where
  "Envelope_init_bounds e x1 x2 y1 y2 =
     (let e = (if d_less x1 x2 then e\<lparr>minx := x1, maxx := x2\<rparr> else e\<lparr>minx := x2, maxx := x1\<rparr>)
      in if d_less y1 y2 then e\<lparr>miny := y1, maxy := y2\<rparr> else e\<lparr>miny := y2, maxy := y1\<rparr>)"

definition Envelope_init_points :: "envelope \<Rightarrow> coordinate \<Rightarrow> coordinate \<Rightarrow> envelope" where
  "Envelope_init_points e p1 p2 = Envelope_init_bounds e (cx p1) (cx p2) (cy p1) (cy p2)"

definition Envelope_init_point :: "envelope \<Rightarrow> coordinate \<Rightarrow> envelope" where
  "Envelope_init_point e p = Envelope_init_bounds e (cx p) (cx p) (cy p) (cy p)"

definition Envelope_new :: "envelope \<Rightarrow> envelope" where
  "Envelope_new e = Envelope_init e"

definition Envelope_new_bounds :: "envelope \<Rightarrow> double \<Rightarrow> double \<Rightarrow> double \<Rightarrow> double \<Rightarrow> envelope" where
  "Envelope_new_bounds e x1 x2 y1 y2 = Envelope_init_bounds e x1 x2 y1 y2"

definition Envelope_new_points :: "envelope \<Rightarrow> coordinate \<Rightarrow> coordinate \<Rightarrow> envelope" where
  "Envelope_new_points e p1 p2 = Envelope_init_points e p1 p2"

definition Envelope_new_point :: "envelope \<Rightarrow> coordinate \<Rightarrow> envelope" where
  "Envelope_new_point e p = Envelope_init_point e p"

definition Envelope_new_copy :: "envelope \<Rightarrow> envelope \<Rightarrow> envelope" where
  "Envelope_new_copy e env = e\<lparr>minx := minx env, maxx := maxx env, miny := miny env, maxy := maxy env\<rparr>"

definition Envelope_isNull :: "envelope \<Rightarrow> bool" where
  "Envelope_isNull e = d_less (maxx e) (minx e)"

definition Envelope_expandToInclude :: "envelope \<Rightarrow> double \<Rightarrow> double \<Rightarrow> envelope" where
  "Envelope_expandToInclude e x y =
     (if Envelope_isNull e then e\<lparr>minx := x, maxx := x, miny := y, maxy := y\<rparr>
      else let e = (if d_less x (minx e) then e\<lparr>minx := x\<rparr> else e);
               e = (if d_greater x (maxx e) then e\<lparr>maxx := x\<rparr> else e);
               e = (if d_less y (miny e) then e\<lparr>miny := y\<rparr> else e)
           in if d_greater y (maxy e) then e\<lparr>maxy := y\<rparr> else e)"

definition Envelope_expandToInclude_point :: "envelope \<Rightarrow> coordinate \<Rightarrow> envelope" where
  "Envelope_expandToInclude_point e p = Envelope_expandToInclude e (cx p) (cy p)"

definition Envelope_getMaxY :: "envelope \<Rightarrow> double" where
  "Envelope_getMaxY e = maxy e"

definition Envelope_getMaxX :: "envelope \<Rightarrow> double" where
  "Envelope_getMaxX e = maxx e"

definition Envelope_getMinY :: "envelope \<Rightarrow> double" where
  "Envelope_getMinY e = miny e"

definition Envelope_getMinX :: "envelope \<Rightarrow> double" where
  "Envelope_getMinX e = minx e"

definition Envelope_intersects_point :: "envelope \<Rightarrow> coordinate \<Rightarrow> bool" where
  "Envelope_intersects_point e other =
     (d_le (cx other) (maxx e) \<and> d_ge (cx other) (minx e) \<and>
      d_le (cy other) (maxy e) \<and> d_ge (cy other) (miny e))"

definition Envelope_intersects_xy :: "envelope \<Rightarrow> double \<Rightarrow> double \<Rightarrow> bool" where
  "Envelope_intersects_xy e x y =
     (d_le x (maxx e) \<and> d_ge x (minx e) \<and> d_le y (maxy e) \<and> d_ge y (miny e))"

definition Envelope_intersects_ptr :: "envelope \<Rightarrow> envelope \<Rightarrow> bool" where
  "Envelope_intersects_ptr e other =
     (if Envelope_isNull e \<or> Envelope_isNull other then False
      else \<not> (d_greater (minx other) (maxx e) \<or> d_less (maxx other) (minx e) \<or>
              d_greater (miny other) (maxy e) \<or> d_less (maxy other) (miny e)))"

definition Envelope_intersects :: "envelope \<Rightarrow> envelope \<Rightarrow> bool" where
  "Envelope_intersects e other = Envelope_intersects_ptr e other"

definition Envelope_covers_ptr :: "(envelope \<Rightarrow> double \<Rightarrow> double \<Rightarrow> bool) \<Rightarrow> envelope \<Rightarrow> coordinate \<Rightarrow> bool" where
  "Envelope_covers_ptr covers e p = covers e (cx p) (cy p)"

definition Envelope_covers_env_ptr :: "(envelope \<Rightarrow> envelope \<Rightarrow> bool) \<Rightarrow> envelope \<Rightarrow> envelope \<Rightarrow> bool" where
  "Envelope_covers_env_ptr covers_env e other = covers_env e other"

definition Envelope_contains_env :: "(envelope \<Rightarrow> envelope \<Rightarrow> bool) \<Rightarrow> envelope \<Rightarrow> envelope \<Rightarrow> bool" where
  "Envelope_contains_env covers_env e other = covers_env e other"

definition Envelope_contains_env_ptr :: "(envelope \<Rightarrow> envelope \<Rightarrow> bool) \<Rightarrow> envelope \<Rightarrow> envelope \<Rightarrow> bool" where
  "Envelope_contains_env_ptr covers_env e other = Envelope_contains_env covers_env e other"

definition Envelope_contains_point :: "(envelope \<Rightarrow> double \<Rightarrow> double \<Rightarrow> bool) \<Rightarrow> envelope \<Rightarrow> coordinate \<Rightarrow> bool" where
  "Envelope_contains_point covers e p = covers e (cx p) (cy p)"

definition Envelope_contains_xy :: "(envelope \<Rightarrow> double \<Rightarrow> double \<Rightarrow> bool) \<Rightarrow> envelope \<Rightarrow> double \<Rightarrow> double \<Rightarrow> bool" where
  "Envelope_contains_xy covers e x y = covers e x y"

definition Envelope_expandBy :: "(envelope \<Rightarrow> double \<Rightarrow> double \<Rightarrow> envelope) \<Rightarrow> envelope \<Rightarrow> double \<Rightarrow> envelope" where
  "Envelope_expandBy expandBy_xy e p_distance = expandBy_xy e p_distance p_distance"

section \<open>Envelopes as sets of points\<close>

definition numbers :: "envelope \<Rightarrow> bool" where
  "numbers e \<longleftrightarrow> \<not> isnan (minx e) \<and> \<not> isnan (maxx e) \<and> \<not> isnan (miny e) \<and> \<not> isnan (maxy e)"

definition regular :: "envelope \<Rightarrow> bool" where
  "regular e \<longleftrightarrow> numbers e \<and> (Envelope_isNull e \<or> dkey (minx e) \<le> dkey (maxx e) \<and> dkey (miny e) \<le> dkey (maxy e))"

definition points :: "envelope \<Rightarrow> (double \<times> double) set" where
  "points e = {(x, y). Envelope_intersects_xy e x y}"

lemma isNull_numbers: "numbers e \<Longrightarrow> Envelope_isNull e \<longleftrightarrow> dkey (maxx e) < dkey (minx e)"
  by (simp add: Envelope_isNull_def numbers_def)

lemma points_iff:
  assumes "numbers e"
  shows "(x, y) \<in> points e \<longleftrightarrow> \<not> isnan x \<and> \<not> isnan y \<and> dkey (minx e) \<le> dkey x \<and> dkey x \<le> dkey (maxx e) \<and>
    dkey (miny e) \<le> dkey y \<and> dkey y \<le> dkey (maxy e)"
  using assms by (auto simp: points_def Envelope_intersects_xy_def numbers_def d_le_def)

lemma null_no_points: "numbers e \<Longrightarrow> Envelope_isNull e \<Longrightarrow> points e = {}"
  by (auto simp: points_iff isNull_numbers)

lemma regular_corners:
  assumes "regular e" "\<not> Envelope_isNull e"
  shows "(minx e, miny e) \<in> points e" "(maxx e, maxy e) \<in> points e"
  using assms by (simp_all add: points_iff regular_def numbers_def)

lemma points_empty_iff:
  assumes "regular e"
  shows "points e = {} \<longleftrightarrow> Envelope_isNull e"
  using regular_corners [OF assms] null_no_points [of e] assms by (auto simp: regular_def)

text \<open>The constructors make regular envelopes.\<close>

lemma init_bounds_regular:
  assumes "\<not> isnan x1" "\<not> isnan x2" "\<not> isnan y1" "\<not> isnan y2"
  shows "regular (Envelope_init_bounds e x1 x2 y1 y2)" "\<not> Envelope_isNull (Envelope_init_bounds e x1 x2 y1 y2)"
    "(x1, y1) \<in> points (Envelope_init_bounds e x1 x2 y1 y2)" "(x2, y2) \<in> points (Envelope_init_bounds e x1 x2 y1 y2)"
  using assms by (simp_all add: Envelope_init_bounds_def regular_def numbers_def Envelope_isNull_def points_iff Let_def)

lemma setToNull_null: "regular (Envelope_setToNull e)" "Envelope_isNull (Envelope_setToNull e)"
  using d_constants(5) by (simp_all add: Envelope_setToNull_def regular_def numbers_def Envelope_isNull_def)

text \<open>Growing an envelope.\<close>

lemma expandToInclude_bounds:
  assumes "regular e" "\<not> isnan x" "\<not> isnan y" "\<not> Envelope_isNull e"
  defines "e' \<equiv> Envelope_expandToInclude e x y"
  shows "numbers e'" "dkey (minx e') = min (dkey x) (dkey (minx e))" "dkey (maxx e') = max (dkey x) (dkey (maxx e))"
    "dkey (miny e') = min (dkey y) (dkey (miny e))" "dkey (maxy e') = max (dkey y) (dkey (maxy e))"
  using assms by (auto simp: Envelope_expandToInclude_def Let_def regular_def numbers_def)

lemma expandToInclude_regular:
  assumes "regular e" "\<not> isnan x" "\<not> isnan y"
  shows "regular (Envelope_expandToInclude e x y)" "\<not> Envelope_isNull (Envelope_expandToInclude e x y)"
    "(x, y) \<in> points (Envelope_expandToInclude e x y)" "points e \<subseteq> points (Envelope_expandToInclude e x y)"
proof -
  let ?e = "Envelope_expandToInclude e x y"
  have r: "regular ?e \<and> \<not> Envelope_isNull ?e \<and> (x, y) \<in> points ?e \<and> points e \<subseteq> points ?e"
  proof (cases "Envelope_isNull e")
    case True
    moreover have "points e = {}" using null_no_points [of e] True assms(1) by (simp add: regular_def)
    ultimately show ?thesis using assms(2,3)
      by (simp add: Envelope_expandToInclude_def regular_def numbers_def points_iff) (simp add: Envelope_isNull_def)
  next
    case False
    note b = expandToInclude_bounds [OF assms False]
    have "numbers e" "dkey (minx e) \<le> dkey (maxx e)" "dkey (miny e) \<le> dkey (maxy e)"
      using assms(1) False by (simp_all add: regular_def)
    then show ?thesis using b assms(2,3) by (auto simp: regular_def points_iff isNull_numbers)
  qed
  then show "regular ?e" "\<not> Envelope_isNull ?e" "(x, y) \<in> points ?e" "points e \<subseteq> points ?e" by simp_all
qed

lemma expandToInclude_least:
  assumes "regular e" "\<not> isnan x" "\<not> isnan y" "regular g" "points e \<subseteq> points g" "(x, y) \<in> points g"
  shows "points (Envelope_expandToInclude e x y) \<subseteq> points g"
proof (cases "Envelope_isNull e")
  case True
  then show ?thesis using assms(2,3,4,6)
    by (auto simp: Envelope_expandToInclude_def points_iff regular_def numbers_def)
next
  case False
  have g: "numbers g" using assms(4) by (simp add: regular_def)
  have "(minx e, miny e) \<in> points g" "(maxx e, maxy e) \<in> points g"
    using regular_corners [OF assms(1) False] assms(5) by blast+
  then show ?thesis
    using expandToInclude_bounds [OF assms(1-3) False] assms(6) by (auto simp: points_iff [OF g] points_iff)
qed

text \<open>Two envelopes intersect when they have a point in common.\<close>

lemma intersects_iff:
  assumes "regular e" "regular f"
  shows "Envelope_intersects e f \<longleftrightarrow> points e \<inter> points f \<noteq> {}"
proof (cases "Envelope_isNull e \<or> Envelope_isNull f")
  case True
  then show ?thesis using null_no_points assms
    by (auto simp: Envelope_intersects_def Envelope_intersects_ptr_def regular_def)
next
  case False
  then have o: "numbers e" "numbers f" "dkey (minx e) \<le> dkey (maxx e)" "dkey (miny e) \<le> dkey (maxy e)"
    "dkey (minx f) \<le> dkey (maxx f)" "dkey (miny f) \<le> dkey (maxy f)"
    using assms by (simp_all add: regular_def)
  have i: "Envelope_intersects e f \<longleftrightarrow> dkey (minx f) \<le> dkey (maxx e) \<and> dkey (minx e) \<le> dkey (maxx f) \<and>
      dkey (miny f) \<le> dkey (maxy e) \<and> dkey (miny e) \<le> dkey (maxy f)"
    using False o(1,2) by (auto simp: Envelope_intersects_def Envelope_intersects_ptr_def numbers_def)
  let ?x = "if dkey (minx e) \<le> dkey (minx f) then minx f else minx e"
  let ?y = "if dkey (miny e) \<le> dkey (miny f) then miny f else miny e"
  have "(?x, ?y) \<in> points e \<inter> points f" if "Envelope_intersects e f"
    using that o unfolding i by (auto simp: points_iff numbers_def)
  moreover have "Envelope_intersects e f" if "(x, y) \<in> points e \<inter> points f" for x y
    using that o unfolding i by (auto simp: points_iff)
  ultimately show ?thesis by auto
qed

text \<open>An envelope around a coordinate that is not a number has no points, but intersects every other.\<close>

lemma nan_envelope_intersects:
  assumes "isnan (cx p)" "isnan (cy p)" "\<not> Envelope_isNull f"
  shows "points (Envelope_new_point e p) = {}" "\<not> Envelope_isNull (Envelope_new_point e p)"
    "Envelope_intersects (Envelope_new_point e p) f"
  using assms
  by (simp_all add: Envelope_new_point_def Envelope_init_point_def Envelope_init_bounds_def points_def Envelope_intersects_xy_def
      Envelope_isNull_def Envelope_intersects_def Envelope_intersects_ptr_def)

end
