(* ===== verification/Geos_CoordinateList.thy ===== *)
theory Geos_CoordinateList
  imports Geos_Coordinate
begin

text \<open>
  Lists of coordinates: \<^verbatim>\<open>src/includes/geos/geom/CoordinateList.h\<close>. An iterator of the
  \<^verbatim>\<open>std::list\<close> is a position, the length for \<^verbatim>\<open>end()\<close>; a position outside the list is \<open>None\<close>.
\<close>

record coordinate_list =
  coords :: "coordinate list"

definition CoordinateList_of_vector :: "coordinate list \<Rightarrow> coordinate_list" where
  "CoordinateList_of_vector v = \<lparr>coords = v\<rparr>"

definition CoordinateList_new :: coordinate_list where
  "CoordinateList_new = \<lparr>coords = []\<rparr>"

definition CoordinateList_size :: "coordinate_list \<Rightarrow> nat" where
  "CoordinateList_size cl = length (coords cl)"

definition CoordinateList_empty :: "coordinate_list \<Rightarrow> bool" where
  "CoordinateList_empty cl = (coords cl = [])"

definition list_insert :: "coordinate_list \<Rightarrow> nat \<Rightarrow> coordinate \<Rightarrow> (coordinate_list \<times> nat) option" where
  "list_insert cl pos c =
     (if pos \<le> length (coords cl)
      then Some (cl\<lparr>coords := take pos (coords cl) @ c # drop pos (coords cl)\<rparr>, pos)
      else None)"

definition CoordinateList_insert_repeated ::
  "coordinate_list \<Rightarrow> nat \<Rightarrow> coordinate \<Rightarrow> bool \<Rightarrow> (coordinate_list \<times> nat) option" where
  "CoordinateList_insert_repeated cl pos c allowRepeated =
     (if \<not> allowRepeated \<and> pos \<noteq> 0 then
        let prev = pos - 1
        in if prev \<ge> length (coords cl) then None
           else if Coordinate_equals2D c (coords cl ! prev) then Some (cl, prev)
           else list_insert cl pos c
      else list_insert cl pos c)"

definition CoordinateList_insert :: "coordinate_list \<Rightarrow> nat \<Rightarrow> coordinate \<Rightarrow> (coordinate_list \<times> nat) option" where
  "CoordinateList_insert cl pos c = list_insert cl pos c"

definition CoordinateList_erase :: "coordinate_list \<Rightarrow> nat \<Rightarrow> (coordinate_list \<times> nat) option" where
  "CoordinateList_erase cl pos =
     (if pos < length (coords cl)
      then Some (cl\<lparr>coords := take pos (coords cl) @ drop (Suc pos) (coords cl)\<rparr>, pos)
      else None)"

definition CoordinateList_erase_range :: "coordinate_list \<Rightarrow> nat \<Rightarrow> nat \<Rightarrow> (coordinate_list \<times> nat) option" where
  "CoordinateList_erase_range cl fst_pos last_pos =
     (if fst_pos \<le> last_pos \<and> last_pos \<le> length (coords cl)
      then Some (cl\<lparr>coords := take fst_pos (coords cl) @ drop last_pos (coords cl)\<rparr>, fst_pos)
      else None)"

definition CoordinateList_toCoordinateArray :: "coordinate_list \<Rightarrow> coordinate list" where
  "CoordinateList_toCoordinateArray cl = coords cl"

definition CoordinateList_closeRing :: "coordinate_list \<Rightarrow> coordinate_list" where
  "CoordinateList_closeRing cl =
     (if coords cl \<noteq> [] \<and> \<not> Coordinate_equals (hd (coords cl)) (last (coords cl))
      then let c = hd (coords cl) in cl\<lparr>coords := coords cl @ [c]\<rparr>
      else cl)"

section \<open>Repeated points\<close>

fun no_repeats :: "coordinate list \<Rightarrow> bool" where
  "no_repeats (a # b # cs) = (\<not> Coordinate_equals2D a b \<and> no_repeats (b # cs))"
| "no_repeats _ = True"

lemma equals2D_sym: "Coordinate_equals2D a b = Coordinate_equals2D b a"
  by (auto simp: Coordinate_equals2D_def d_eq_def)

lemma equals2D_refl: "proper a \<Longrightarrow> Coordinate_equals2D a a"
  by (simp add: Coordinate_equals2D_def proper_def)

lemma no_repeats_Cons:
  "no_repeats (x # ys) \<longleftrightarrow> no_repeats ys \<and> (ys = [] \<or> \<not> Coordinate_equals2D x (hd ys))"
  by (cases ys) auto

lemma no_repeats_append:
  "no_repeats (xs @ ys) \<longleftrightarrow>
     no_repeats xs \<and> no_repeats ys \<and> (xs = [] \<or> ys = [] \<or> \<not> Coordinate_equals2D (last xs) (hd ys))"
  by (induction xs) (auto simp: no_repeats_Cons hd_append)

text \<open>
  Insertion without repetition either finds the point just before the position, or inserts it
  there; the point is then at the position it returns. A list without repeated points keeps this
  property unless the point that follows is the same, which the code does not look at.
\<close>

lemma insert_repeated_spec:
  assumes "pos \<le> CoordinateList_size cl"
  shows "\<exists>cl' i. CoordinateList_insert_repeated cl pos c ar = Some (cl', i) \<and> i < CoordinateList_size cl' \<and>
     (if \<not> ar \<and> 0 < pos \<and> Coordinate_equals2D c (coords cl ! (pos - 1))
      then cl' = cl \<and> i = pos - 1
      else i = pos \<and> coords cl' = take pos (coords cl) @ c # drop pos (coords cl))"
  using assms
  by (cases pos) (auto simp: CoordinateList_insert_repeated_def list_insert_def CoordinateList_size_def Let_def)

lemma insert_no_repeats:
  assumes "no_repeats (coords cl)" "CoordinateList_insert_repeated cl pos c False = Some (cl', i)"
    "pos < CoordinateList_size cl \<longrightarrow> \<not> Coordinate_equals2D c (coords cl ! pos)"
  shows "no_repeats (coords cl')"
proof (cases "pos \<le> length (coords cl)")
  case True
  let ?xs = "take pos (coords cl)" and ?ys = "drop pos (coords cl)"
  have "no_repeats (?xs @ ?ys)" using assms(1) by simp
  then have xy: "no_repeats ?xs" "no_repeats ?ys" unfolding no_repeats_append by simp_all
  have last: "last ?xs = coords cl ! (pos - 1)" if "0 < pos"
    using that True by (subst last_conv_nth) (auto simp: min_def)
  have "no_repeats (c # ?ys)"
    using xy(2) assms(3) True by (auto simp: CoordinateList_size_def no_repeats_Cons hd_drop_conv_nth)
  then show ?thesis
    using insert_repeated_spec [of pos cl c False] True assms(1,2) xy(1) last
    by (auto simp: CoordinateList_size_def no_repeats_append equals2D_sym split: if_splits)
next
  case False
  then show ?thesis
    using assms(2) by (auto simp: CoordinateList_insert_repeated_def list_insert_def Let_def split: if_splits)
qed

section \<open>Rings\<close>

definition closed :: "coordinate list \<Rightarrow> bool" where
  "closed cs \<longleftrightarrow> cs = [] \<or> Coordinate_equals2D (hd cs) (last cs)"

lemma closeRing_closed:
  assumes "\<forall>c \<in> set (coords cl). proper c"
  shows "closed (coords (CoordinateList_closeRing cl))"
    "CoordinateList_closeRing (CoordinateList_closeRing cl) = CoordinateList_closeRing cl"
    "\<exists>end_pts. coords (CoordinateList_closeRing cl) = coords cl @ end_pts \<and> length end_pts \<le> 1"
  using assms
  by (cases "coords cl"; auto simp: CoordinateList_closeRing_def Let_def closed_def Coordinate_equals_def equals2D_refl)+

text \<open>With a point that is not a number the ring never closes: each call adds a point.\<close>

lemma closeRing_nan:
  assumes "coords cl \<noteq> []" "isnan (cx (hd (coords cl)))"
  shows "coords (CoordinateList_closeRing cl) = coords cl @ [hd (coords cl)]"
    "\<not> closed (coords (CoordinateList_closeRing cl))"
  using assms by (auto simp: CoordinateList_closeRing_def Let_def closed_def Coordinate_equals_def Coordinate_equals2D_def)

end
