(* ===== verification/Geos_Label.thy ===== *)
theory Geos_Label
  imports Prelude
begin

text \<open>
  Topological labels: \<^verbatim>\<open>TopologyLocation.inl\<close> and \<^verbatim>\<open>Label.inl\<close> of
  \<^verbatim>\<open>src/includes/geos/geomgraph\<close>. A topology location is an array of three locations (on, left
  and right of a graph component) of which the first \<open>locationSize\<close> count: one for a line, three
  for an area. A label has one for each of two geometries. A failing assertion, and an index
  outside an array, is \<open>None\<close>. \<^verbatim>\<open>TopologyLocation::merge\<close> is compiled elsewhere and a parameter;
  \<open>merges_undef\<close> states what its comment promises. The operations keep labels well formed, in
  any order (\<open>label_call\<close>), and \<open>shown\<close> says what a client reads after each of them.
\<close>

section \<open>Locations\<close>

datatype location = UNDEF | INTERIOR | BOUNDARY | EXTERIOR

definition Position_ON :: nat where "Position_ON = 0"
definition Position_LEFT :: nat where "Position_LEFT = 1"
definition Position_RIGHT :: nat where "Position_RIGHT = 2"

lemmas Position_defs [simp] = Position_ON_def Position_LEFT_def Position_RIGHT_def

record topology_location =
  locations :: "location list"
  locationSize :: nat

definition TopologyLocation_area :: "location \<Rightarrow> location \<Rightarrow> location \<Rightarrow> topology_location" where
  "TopologyLocation_area on left right = \<lparr>locations = [on, left, right], locationSize = 3\<rparr>"

definition TopologyLocation_line :: "location \<Rightarrow> topology_location" where
  "TopologyLocation_line on = \<lparr>locations = (replicate 3 UNDEF)[Position_ON := on], locationSize = 1\<rparr>"

definition TopologyLocation_copy :: "topology_location \<Rightarrow> topology_location" where
  "TopologyLocation_copy gl = \<lparr>locations = locations gl, locationSize = locationSize gl\<rparr>"

definition TopologyLocation_assign :: "topology_location \<Rightarrow> topology_location \<Rightarrow> topology_location" where
  "TopologyLocation_assign tloc gl = tloc\<lparr>locations := locations gl, locationSize := locationSize gl\<rparr>"

definition TopologyLocation_get :: "topology_location \<Rightarrow> nat \<Rightarrow> location" where
  "TopologyLocation_get tloc posIndex =
     (if posIndex < locationSize tloc then locations tloc ! posIndex else UNDEF)"

definition TopologyLocation_isNull :: "topology_location \<Rightarrow> bool" where
  "TopologyLocation_isNull tloc = (\<forall>l \<in> set (take (locationSize tloc) (locations tloc)). l = UNDEF)"

definition TopologyLocation_isAnyNull :: "topology_location \<Rightarrow> bool" where
  "TopologyLocation_isAnyNull tloc = (\<exists>l \<in> set (take (locationSize tloc) (locations tloc)). l = UNDEF)"

definition TopologyLocation_isEqualOnSide :: "topology_location \<Rightarrow> topology_location \<Rightarrow> int \<Rightarrow> bool option" where
  "TopologyLocation_isEqualOnSide tloc le locIndex =
     (if 0 \<le> locIndex \<and> locIndex < 3
      then Some (locations tloc ! nat locIndex = locations le ! nat locIndex)
      else None)"

definition TopologyLocation_isArea :: "topology_location \<Rightarrow> bool" where
  "TopologyLocation_isArea tloc = (locationSize tloc > 1)"

definition TopologyLocation_isLine :: "topology_location \<Rightarrow> bool" where
  "TopologyLocation_isLine tloc = (locationSize tloc = 1)"

definition TopologyLocation_flip :: "topology_location \<Rightarrow> topology_location" where
  "TopologyLocation_flip tloc =
     (if locationSize tloc \<le> 1 then tloc
      else tloc\<lparr>locations := (locations tloc)[Position_LEFT := locations tloc ! Position_RIGHT,
                                         Position_RIGHT := locations tloc ! Position_LEFT]\<rparr>)"

definition TopologyLocation_setAllLocations :: "topology_location \<Rightarrow> location \<Rightarrow> topology_location" where
  "TopologyLocation_setAllLocations tloc locValue = tloc\<lparr>locations := map (\<lambda>_. locValue) (locations tloc)\<rparr>"

definition TopologyLocation_setAllLocationsIfNull :: "topology_location \<Rightarrow> location \<Rightarrow> topology_location" where
  "TopologyLocation_setAllLocationsIfNull tloc locValue =
     tloc\<lparr>locations := map (\<lambda>l. if l = UNDEF then locValue else l) (take (locationSize tloc) (locations tloc))
          @ drop (locationSize tloc) (locations tloc)\<rparr>"

definition TopologyLocation_setLocation :: "topology_location \<Rightarrow> nat \<Rightarrow> location \<Rightarrow> topology_location option" where
  "TopologyLocation_setLocation tloc locIndex locValue =
     (if locIndex < 3 then Some (tloc\<lparr>locations := (locations tloc)[locIndex := locValue]\<rparr>) else None)"

definition TopologyLocation_setLocation_on :: "topology_location \<Rightarrow> location \<Rightarrow> topology_location option" where
  "TopologyLocation_setLocation_on tloc locValue = TopologyLocation_setLocation tloc Position_ON locValue"

definition TopologyLocation_getLocations :: "topology_location \<Rightarrow> location list" where
  "TopologyLocation_getLocations tloc = locations tloc"

definition TopologyLocation_setLocations ::
  "topology_location \<Rightarrow> location \<Rightarrow> location \<Rightarrow> location \<Rightarrow> topology_location option" where
  "TopologyLocation_setLocations tloc on left right =
     (if locationSize tloc \<ge> 3
      then Some (tloc\<lparr>locations := (locations tloc)[Position_ON := on, Position_LEFT := left, Position_RIGHT := right]\<rparr>)
      else None)"

definition TopologyLocation_allPositionsEqual :: "topology_location \<Rightarrow> location \<Rightarrow> bool" where
  "TopologyLocation_allPositionsEqual tloc loc = (\<forall>l \<in> set (take (locationSize tloc) (locations tloc)). l = loc)"

section \<open>Labels\<close>

record label =
  elt :: "topology_location list"

definition geomIndex_ok :: "int \<Rightarrow> bool" where
  "geomIndex_ok geomIndex \<longleftrightarrow> geomIndex \<ge> 0 \<and> geomIndex < 2"

text \<open>A call on one element, guarded by the assertion on the index of the geometry.\<close>

definition with_elt :: "label \<Rightarrow> int \<Rightarrow> (topology_location \<Rightarrow> topology_location option) \<Rightarrow> label option" where
  "with_elt lbl geomIndex f =
     (if geomIndex_ok geomIndex
      then map_option (\<lambda>tloc. lbl\<lparr>elt := (elt lbl)[nat geomIndex := tloc]\<rparr>) (f (elt lbl ! nat geomIndex))
      else None)"

definition of_elt :: "label \<Rightarrow> int \<Rightarrow> (topology_location \<Rightarrow> 'a) \<Rightarrow> 'a option" where
  "of_elt lbl geomIndex f = (if geomIndex_ok geomIndex then Some (f (elt lbl ! nat geomIndex)) else None)"

definition Label_onLoc :: "location \<Rightarrow> label" where
  "Label_onLoc onLoc = \<lparr>elt = [TopologyLocation_line onLoc, TopologyLocation_line onLoc]\<rparr>"

definition Label_geom_onLoc :: "int \<Rightarrow> location \<Rightarrow> label option" where
  "Label_geom_onLoc geomIndex onLoc =
     with_elt \<lparr>elt = [TopologyLocation_line UNDEF, TopologyLocation_line UNDEF]\<rparr> geomIndex
       (\<lambda>tloc. TopologyLocation_setLocation_on tloc onLoc)"

definition Label_area :: "location \<Rightarrow> location \<Rightarrow> location \<Rightarrow> label" where
  "Label_area onLoc leftLoc rightLoc =
     \<lparr>elt = [TopologyLocation_area onLoc leftLoc rightLoc, TopologyLocation_area onLoc leftLoc rightLoc]\<rparr>"

definition Label_new :: label where
  "Label_new = \<lparr>elt = [TopologyLocation_line UNDEF, TopologyLocation_line UNDEF]\<rparr>"

definition Label_copy :: "label \<Rightarrow> label" where
  "Label_copy l = \<lparr>elt = [TopologyLocation_copy (elt l ! 0), TopologyLocation_copy (elt l ! 1)]\<rparr>"

definition Label_assign :: "label \<Rightarrow> label \<Rightarrow> label" where
  "Label_assign lbl l =
     lbl\<lparr>elt := (elt lbl)[0 := TopologyLocation_assign (elt lbl ! 0) (TopologyLocation_copy (elt l ! 0)),
                         1 := TopologyLocation_assign (elt lbl ! 1) (TopologyLocation_copy (elt l ! 1))]\<rparr>"

definition Label_geom_area :: "int \<Rightarrow> location \<Rightarrow> location \<Rightarrow> location \<Rightarrow> label option" where
  "Label_geom_area geomIndex onLoc leftLoc rightLoc =
     with_elt \<lparr>elt = [TopologyLocation_area UNDEF UNDEF UNDEF, TopologyLocation_area UNDEF UNDEF UNDEF]\<rparr> geomIndex
       (\<lambda>tloc. TopologyLocation_setLocations tloc onLoc leftLoc rightLoc)"

definition Label_flip :: "label \<Rightarrow> label" where
  "Label_flip lbl = lbl\<lparr>elt := (elt lbl)[0 := TopologyLocation_flip (elt lbl ! 0), 1 := TopologyLocation_flip (elt lbl ! 1)]\<rparr>"

text \<open>\<^verbatim>\<open>int\<close> positions are converted to \<^verbatim>\<open>size_t\<close>.\<close>

definition size_t :: "int \<Rightarrow> nat" where
  "size_t i = nat (i mod 2 ^ 64)"

definition Label_getLocation :: "label \<Rightarrow> int \<Rightarrow> int \<Rightarrow> location option" where
  "Label_getLocation lbl geomIndex posIndex =
     of_elt lbl geomIndex (\<lambda>tloc. TopologyLocation_get tloc (size_t posIndex))"

definition Label_getLocation_on :: "label \<Rightarrow> int \<Rightarrow> location option" where
  "Label_getLocation_on lbl geomIndex = of_elt lbl geomIndex (\<lambda>tloc. TopologyLocation_get tloc Position_ON)"

definition Label_setLocation :: "label \<Rightarrow> int \<Rightarrow> int \<Rightarrow> location \<Rightarrow> label option" where
  "Label_setLocation lbl geomIndex posIndex loc =
     with_elt lbl geomIndex (\<lambda>tloc. TopologyLocation_setLocation tloc (size_t posIndex) loc)"

definition Label_setLocation_on :: "label \<Rightarrow> int \<Rightarrow> location \<Rightarrow> label option" where
  "Label_setLocation_on lbl geomIndex loc =
     with_elt lbl geomIndex (\<lambda>tloc. TopologyLocation_setLocation tloc Position_ON loc)"

definition Label_setAllLocations :: "label \<Rightarrow> int \<Rightarrow> location \<Rightarrow> label option" where
  "Label_setAllLocations lbl geomIndex loc =
     with_elt lbl geomIndex (\<lambda>tloc. Some (TopologyLocation_setAllLocations tloc loc))"

definition Label_setAllLocationsIfNull_geom :: "label \<Rightarrow> int \<Rightarrow> location \<Rightarrow> label option" where
  "Label_setAllLocationsIfNull_geom lbl geomIndex loc =
     with_elt lbl geomIndex (\<lambda>tloc. Some (TopologyLocation_setAllLocationsIfNull tloc loc))"

definition Label_setAllLocationsIfNull :: "label \<Rightarrow> location \<Rightarrow> label option" where
  "Label_setAllLocationsIfNull lbl loc = do {
     lbl \<leftarrow> Label_setAllLocationsIfNull_geom lbl 0 loc;
     Label_setAllLocationsIfNull_geom lbl 1 loc
   }"

definition Label_toLineLabel :: "label \<Rightarrow> label option" where
  "Label_toLineLabel lbl =
     for_loop [0, 1] (\<lambda>i lineLabel. do {
       loc \<leftarrow> Label_getLocation_on lbl i;
       Label_setLocation_on lineLabel i loc
     }) (Label_onLoc UNDEF)"

definition Label_merge :: "(topology_location \<Rightarrow> topology_location \<Rightarrow> topology_location) \<Rightarrow> label \<Rightarrow> label \<Rightarrow> label" where
  "Label_merge merge_tl this lbl =
     this\<lparr>elt := (elt this)[0 := merge_tl (elt this ! 0) (elt lbl ! 0), 1 := merge_tl (elt this ! 1) (elt lbl ! 1)]\<rparr>"

definition Label_getGeometryCount :: "label \<Rightarrow> int" where
  "Label_getGeometryCount lbl =
     (let count = 0;
          count = (if \<not> TopologyLocation_isNull (elt lbl ! 0) then count + 1 else count)
      in if \<not> TopologyLocation_isNull (elt lbl ! 1) then count + 1 else count)"

definition Label_isNull_geom :: "label \<Rightarrow> int \<Rightarrow> bool option" where
  "Label_isNull_geom lbl geomIndex = of_elt lbl geomIndex TopologyLocation_isNull"

definition Label_isNull :: "label \<Rightarrow> bool" where
  "Label_isNull lbl = (TopologyLocation_isNull (elt lbl ! 0) \<and> TopologyLocation_isNull (elt lbl ! 1))"

definition Label_isAnyNull :: "label \<Rightarrow> int \<Rightarrow> bool option" where
  "Label_isAnyNull lbl geomIndex = of_elt lbl geomIndex TopologyLocation_isAnyNull"

definition Label_isArea :: "label \<Rightarrow> bool" where
  "Label_isArea lbl = (TopologyLocation_isArea (elt lbl ! 0) \<or> TopologyLocation_isArea (elt lbl ! 1))"

definition Label_isArea_geom :: "label \<Rightarrow> int \<Rightarrow> bool option" where
  "Label_isArea_geom lbl geomIndex = of_elt lbl geomIndex TopologyLocation_isArea"

definition Label_isLine :: "label \<Rightarrow> int \<Rightarrow> bool option" where
  "Label_isLine lbl geomIndex = of_elt lbl geomIndex TopologyLocation_isLine"

definition Label_isEqualOnSide :: "label \<Rightarrow> label \<Rightarrow> int \<Rightarrow> bool option" where
  "Label_isEqualOnSide this lbl side = do {
     b0 \<leftarrow> TopologyLocation_isEqualOnSide (elt this ! 0) (elt lbl ! 0) side;
     if \<not> b0 then Some False
     else TopologyLocation_isEqualOnSide (elt this ! 1) (elt lbl ! 1) side
   }"

definition Label_allPositionsEqual :: "label \<Rightarrow> int \<Rightarrow> location \<Rightarrow> bool option" where
  "Label_allPositionsEqual lbl geomIndex loc = of_elt lbl geomIndex (\<lambda>tloc. TopologyLocation_allPositionsEqual tloc loc)"

definition Label_toLine :: "label \<Rightarrow> int \<Rightarrow> label option" where
  "Label_toLine lbl geomIndex =
     with_elt lbl geomIndex (\<lambda>tloc.
       Some (if TopologyLocation_isArea tloc
             then TopologyLocation_assign tloc (TopologyLocation_line (TopologyLocation_getLocations tloc ! 0))
             else tloc))"

section \<open>The invariant\<close>

definition wf_location :: "topology_location \<Rightarrow> bool" where
  "wf_location tloc \<longleftrightarrow> length (locations tloc) = 3 \<and> (locationSize tloc = 1 \<or> locationSize tloc = 3)"

definition wf_label :: "label \<Rightarrow> bool" where
  "wf_label lbl \<longleftrightarrow> length (elt lbl) = 2 \<and> (\<forall>tloc \<in> set (elt lbl). wf_location tloc)"

lemmas location_defs = TopologyLocation_area_def TopologyLocation_line_def TopologyLocation_copy_def
  TopologyLocation_assign_def TopologyLocation_flip_def TopologyLocation_setAllLocations_def
  TopologyLocation_setAllLocationsIfNull_def TopologyLocation_setLocation_def
  TopologyLocation_setLocation_on_def TopologyLocation_setLocations_def TopologyLocation_getLocations_def
  TopologyLocation_isArea_def

lemma wf_labelD: "wf_label lbl \<Longrightarrow> i < 2 \<Longrightarrow> wf_location (elt lbl ! i)"
  by (simp add: wf_label_def)

lemma wf_label_update:
  "wf_label lbl \<Longrightarrow> wf_location tloc \<Longrightarrow> wf_label (lbl\<lparr>elt := (elt lbl)[i := tloc]\<rparr>)"
  using set_update_subset_insert by (fastforce simp: wf_label_def)

lemma geomIndex_ok_nat: "geomIndex_ok i \<Longrightarrow> nat i < 2"
  by (simp add: geomIndex_ok_def nat_less_iff)

lemma with_elt_Some_iff:
  "with_elt lbl i f = Some lbl' \<longleftrightarrow>
     geomIndex_ok i \<and> (\<exists>tloc. f (elt lbl ! nat i) = Some tloc \<and> lbl' = lbl\<lparr>elt := (elt lbl)[nat i := tloc]\<rparr>)"
  by (auto simp: with_elt_def)

lemma wf_with_elt:
  assumes "with_elt lbl i f = Some lbl'" "wf_label lbl"
    "\<And>tloc tloc'. f tloc = Some tloc' \<Longrightarrow> wf_location tloc \<Longrightarrow> wf_location tloc'"
  shows "wf_label lbl'"
  using assms wf_labelD [OF assms(2) geomIndex_ok_nat] by (auto simp: with_elt_Some_iff intro: wf_label_update)

lemma wf_location_new [simp]:
  "wf_location (TopologyLocation_area a b c)" "wf_location (TopologyLocation_line a)"
  by (simp_all add: wf_location_def location_defs)

lemma wf_location_flip [simp]: "wf_location tloc \<Longrightarrow> wf_location (TopologyLocation_flip tloc)"
  by (auto simp: wf_location_def location_defs)

lemma wf_location_setAll [simp]:
  "wf_location tloc \<Longrightarrow> wf_location (TopologyLocation_setAllLocations tloc loc)"
  "wf_location tloc \<Longrightarrow> wf_location (TopologyLocation_setAllLocationsIfNull tloc loc)"
  by (auto simp: wf_location_def location_defs)

lemma wf_location_set:
  "TopologyLocation_setLocation tloc p loc = Some tloc' \<Longrightarrow> wf_location tloc \<Longrightarrow> wf_location tloc'"
  "TopologyLocation_setLocations tloc a b c = Some tloc' \<Longrightarrow> wf_location tloc \<Longrightarrow> wf_location tloc'"
  by (auto simp: wf_location_def location_defs split: if_splits)

lemma wf_location_assign [simp]: "wf_location gl \<Longrightarrow> wf_location (TopologyLocation_assign tloc gl)"
  by (simp add: wf_location_def location_defs)

lemma wf_location_copy [simp]: "wf_location gl \<Longrightarrow> wf_location (TopologyLocation_copy gl)"
  by (simp add: wf_location_def location_defs)

lemma wf_label_new [simp]:
  "wf_label Label_new" "wf_label (Label_onLoc a)" "wf_label (Label_area a b c)"
  by (simp_all add: wf_label_def Label_new_def Label_onLoc_def Label_area_def)

lemma wf_label_pair: "wf_location a \<Longrightarrow> wf_location b \<Longrightarrow> wf_label \<lparr>elt = [a, b]\<rparr>"
  by (simp add: wf_label_def)

text \<open>The life of a label: made by one of the constructors, then changed by the operations, in any
  order.\<close>

inductive label_new :: "label \<Rightarrow> bool" where
  new_default: "label_new Label_new"
| new_on: "label_new (Label_onLoc a)"
| new_area: "label_new (Label_area a b c)"
| new_geom_on: "Label_geom_onLoc i a = Some lbl \<Longrightarrow> label_new lbl"
| new_geom_area: "Label_geom_area i a b c = Some lbl \<Longrightarrow> label_new lbl"

datatype call =
    Call_flip
  | Call_setLocation int int location
  | Call_setLocation_on int location
  | Call_setAllLocations int location
  | Call_setAllLocationsIfNull_geom int location
  | Call_setAllLocationsIfNull location
  | Call_toLine int
  | Call_merge label
  | Call_assign label

fun label_call :: "(topology_location \<Rightarrow> topology_location \<Rightarrow> topology_location) \<Rightarrow> call \<Rightarrow> label \<Rightarrow> label option" where
  "label_call merge_tl Call_flip lbl = Some (Label_flip lbl)"
| "label_call merge_tl (Call_setLocation i p loc) lbl = Label_setLocation lbl i p loc"
| "label_call merge_tl (Call_setLocation_on i loc) lbl = Label_setLocation_on lbl i loc"
| "label_call merge_tl (Call_setAllLocations i loc) lbl = Label_setAllLocations lbl i loc"
| "label_call merge_tl (Call_setAllLocationsIfNull_geom i loc) lbl = Label_setAllLocationsIfNull_geom lbl i loc"
| "label_call merge_tl (Call_setAllLocationsIfNull loc) lbl = Label_setAllLocationsIfNull lbl loc"
| "label_call merge_tl (Call_toLine i) lbl = Label_toLine lbl i"
| "label_call merge_tl (Call_merge l) lbl = Some (Label_merge merge_tl lbl l)"
| "label_call merge_tl (Call_assign l) lbl = Some (Label_assign lbl l)"

fun call_labels :: "call \<Rightarrow> label set" where
  "call_labels (Call_merge l) = {l}"
| "call_labels (Call_assign l) = {l}"
| "call_labels _ = {}"

inductive label_reachable :: "(topology_location \<Rightarrow> topology_location \<Rightarrow> topology_location) \<Rightarrow> label \<Rightarrow> bool" for merge_tl where
  reach_new: "label_new lbl \<Longrightarrow> label_reachable merge_tl lbl"
| reach_call: "label_reachable merge_tl lbl \<Longrightarrow> (\<And>l. l \<in> call_labels c \<Longrightarrow> label_reachable merge_tl l) \<Longrightarrow>
    label_call merge_tl c lbl = Some lbl' \<Longrightarrow> label_reachable merge_tl lbl'"
| reach_copy: "label_reachable merge_tl lbl \<Longrightarrow> label_reachable merge_tl (Label_copy lbl)"
| reach_toLineLabel: "label_reachable merge_tl lbl \<Longrightarrow> Label_toLineLabel lbl = Some lbl' \<Longrightarrow> label_reachable merge_tl lbl'"

lemma wf_setAllLocationsIfNull_geom:
  "Label_setAllLocationsIfNull_geom lbl i loc = Some lbl' \<Longrightarrow> wf_label lbl \<Longrightarrow> wf_label lbl'"
  unfolding Label_setAllLocationsIfNull_geom_def by (erule wf_with_elt) auto

lemma wf_label_geom:
  "Label_geom_onLoc i a = Some lbl \<Longrightarrow> wf_label lbl" "Label_geom_area i a b c = Some lbl \<Longrightarrow> wf_label lbl"
  unfolding Label_geom_onLoc_def Label_geom_area_def TopologyLocation_setLocation_on_def
  by (erule wf_with_elt; simp add: wf_label_pair wf_location_set)+

lemma wf_label_new_rule: "label_new lbl \<Longrightarrow> wf_label lbl"
  by (induction rule: label_new.induct) (auto intro: wf_label_geom)

lemma wf_label_assign: "wf_label lbl \<Longrightarrow> wf_label l \<Longrightarrow> wf_label (Label_assign lbl l)"
  unfolding Label_assign_def using wf_label_update [of "lbl\<lparr>elt := _\<rparr>"] wf_label_update [of lbl] wf_labelD [of l]
  by simp

lemma wf_label_flip: "wf_label lbl \<Longrightarrow> wf_label (Label_flip lbl)"
  unfolding Label_flip_def using wf_label_update [of "lbl\<lparr>elt := _\<rparr>"] wf_label_update [of lbl] wf_labelD [of lbl]
  by simp

lemma wf_label_copy: "wf_label lbl \<Longrightarrow> wf_label (Label_copy lbl)"
  by (simp add: Label_copy_def wf_label_pair wf_labelD)

section \<open>What a client reads\<close>

lemma wf_location_cases:
  assumes "wf_location tloc"
  obtains a b c where "tloc = \<lparr>locations = [a, b, c], locationSize = 1\<rparr>"
    | a b c where "tloc = \<lparr>locations = [a, b, c], locationSize = 3\<rparr>"
proof -
  from assms obtain a b c where "locations tloc = [a, b, c]"
    by (auto simp: wf_location_def numeral_3_eq_3 length_Suc_conv)
  with assms that show ?thesis by (cases tloc) (auto simp: wf_location_def)
qed

lemma wf_label_cases:
  assumes "wf_label lbl"
  obtains t0 t1 where "lbl = \<lparr>elt = [t0, t1]\<rparr>" "wf_location t0" "wf_location t1"
  using assms by (cases lbl) (auto simp: wf_label_def numeral_2_eq_2 length_Suc_conv)

lemma geomIndex_ok_cases: "geomIndex_ok i \<longleftrightarrow> i = 0 \<or> i = 1"
  by (auto simp: geomIndex_ok_def)

lemmas label_read_defs = Label_getLocation_def Label_getLocation_on_def Label_isArea_geom_def
  Label_isLine_def Label_isNull_geom_def Label_isAnyNull_def Label_allPositionsEqual_def of_elt_def

text \<open>The line label of a label: both geometries are lines, with the locations on the component.\<close>

lemma toLineLabel_wf:
  assumes "wf_label lbl"
  shows "Label_toLineLabel lbl = Some \<lparr>elt = [TopologyLocation_line (TopologyLocation_get (elt lbl ! 0) 0),
                                            TopologyLocation_line (TopologyLocation_get (elt lbl ! 1) 0)]\<rparr>"
  by (simp add: Label_toLineLabel_def label_read_defs Label_setLocation_on_def with_elt_def geomIndex_ok_cases
      Label_onLoc_def location_defs numeral_3_eq_3)

text \<open>Swapping the sides.\<close>

definition opposite :: "int \<Rightarrow> int" where
  "opposite p = (if p = 1 then 2 else if p = 2 then 1 else p)"

lemma flip_flip: "wf_location tloc \<Longrightarrow> TopologyLocation_flip (TopologyLocation_flip tloc) = tloc"
  by (erule wf_location_cases) (simp_all add: location_defs)

lemma size_t_small: "0 \<le> p \<Longrightarrow> p < 2 ^ 64 \<Longrightarrow> size_t p = nat p"
  by (simp add: size_t_def)

lemma get_flip:
  "wf_location tloc \<Longrightarrow>
   TopologyLocation_get (TopologyLocation_flip tloc) p =
     TopologyLocation_get tloc (if p = 1 then 2 else if p = 2 then 1 else p)"
  by (erule wf_location_cases) (auto simp: location_defs TopologyLocation_get_def nth_Cons' split: if_splits)

text \<open>Filling the unknown locations.\<close>

lemma get_setAllLocationsIfNull:
  "wf_location tloc \<Longrightarrow>
   TopologyLocation_get (TopologyLocation_setAllLocationsIfNull tloc loc) p =
     (if p < locationSize tloc \<and> TopologyLocation_get tloc p = UNDEF then loc else TopologyLocation_get tloc p)"
  by (erule wf_location_cases) (auto simp: location_defs TopologyLocation_get_def nth_Cons' numeral_3_eq_3 split: if_splits)

lemma in_set_take: "n \<le> length xs \<Longrightarrow> x \<in> set (take n xs) \<longleftrightarrow> (\<exists>p < n. xs ! p = x)"
  by (auto simp: in_set_conv_nth min_def)

lemma get_known: "p < locationSize tloc \<Longrightarrow> TopologyLocation_get tloc p = locations tloc ! p"
  by (simp add: TopologyLocation_get_def)

lemma get_beyond: "locationSize tloc \<le> p \<Longrightarrow> TopologyLocation_get tloc p = UNDEF"
  by (simp add: TopologyLocation_get_def)

lemma wf_location_size: "wf_location tloc \<Longrightarrow> locationSize tloc \<le> length (locations tloc)"
  by (auto simp: wf_location_def)

lemma isAnyNull_get:
  assumes "wf_location tloc"
  shows "TopologyLocation_isAnyNull tloc = (\<exists>p < locationSize tloc. TopologyLocation_get tloc p = UNDEF)"
proof -
  have "TopologyLocation_isAnyNull tloc \<longleftrightarrow> UNDEF \<in> set (take (locationSize tloc) (locations tloc))"
    by (simp add: TopologyLocation_isAnyNull_def)
  also have "\<dots> \<longleftrightarrow> (\<exists>p < locationSize tloc. TopologyLocation_get tloc p = UNDEF)"
    unfolding in_set_take [OF wf_location_size [OF assms]] using get_known by metis
  finally show ?thesis .
qed

lemma allPositionsEqual_get:
  assumes "wf_location tloc"
  shows "TopologyLocation_allPositionsEqual tloc loc = (\<forall>p < locationSize tloc. TopologyLocation_get tloc p = loc)"
  unfolding TopologyLocation_allPositionsEqual_def
  using in_set_take [OF wf_location_size [OF assms]] get_known by metis

lemma isNull_get:
  assumes "wf_location tloc"
  shows "TopologyLocation_isNull tloc = (\<forall>p. TopologyLocation_get tloc p = UNDEF)"
proof -
  have "TopologyLocation_isNull tloc = TopologyLocation_allPositionsEqual tloc UNDEF"
    by (simp add: TopologyLocation_isNull_def TopologyLocation_allPositionsEqual_def)
  also have "\<dots> = (\<forall>p. TopologyLocation_get tloc p = UNDEF)"
    unfolding allPositionsEqual_get [OF assms] using get_beyond linorder_not_less by metis
  finally show ?thesis .
qed

text \<open>Writing one location: a line does not show its sides, whatever is stored there.\<close>

lemma get_setLocation:
  "wf_location tloc \<Longrightarrow> TopologyLocation_setLocation tloc p loc = Some tloc' \<Longrightarrow>
   TopologyLocation_get tloc' q =
     (if q = p then if p < locationSize tloc then loc else UNDEF else TopologyLocation_get tloc q)"
  by (auto simp: TopologyLocation_setLocation_def TopologyLocation_get_def wf_location_def split: if_splits)

text \<open>The same at the level of labels.\<close>

lemma flip_label_flip: "wf_label lbl \<Longrightarrow> Label_flip (Label_flip lbl) = lbl"
  by (erule wf_label_cases) (simp add: Label_flip_def flip_flip)

lemma getLocation_flip:
  assumes "wf_label lbl" "0 \<le> p" "p < 2 ^ 31"
  shows "Label_getLocation (Label_flip lbl) i p = Label_getLocation lbl i (opposite p)"
proof -
  have p: "size_t p = nat p" "size_t (opposite p) = (if nat p = 1 then 2 else if nat p = 2 then 1 else nat p)"
    using assms(2,3) by (auto simp: size_t_def opposite_def)
  show ?thesis
    by (rule wf_label_cases [OF assms(1)])
      (auto simp: label_read_defs geomIndex_ok_cases Label_flip_def get_flip p)
qed

lemma setAllLocationsIfNull_eq:
  assumes "wf_label lbl"
  shows "\<exists>lbl'. Label_setAllLocationsIfNull lbl loc = Some lbl' \<and> wf_label lbl' \<and>
     (\<forall>i < 2. elt lbl' ! i = TopologyLocation_setAllLocationsIfNull (elt lbl ! i) loc)"
  using assms
  by (elim wf_label_cases)
    (auto simp: Label_setAllLocationsIfNull_def Label_setAllLocationsIfNull_geom_def with_elt_def geomIndex_ok_cases
      less_2_cases_iff wf_label_pair)

lemma isArea_not_isLine: "wf_location tloc \<Longrightarrow> TopologyLocation_isArea tloc \<longleftrightarrow> \<not> TopologyLocation_isLine tloc"
  by (auto simp: wf_location_def TopologyLocation_isArea_def TopologyLocation_isLine_def)

section \<open>Merging\<close>

definition merges_undef :: "(topology_location \<Rightarrow> topology_location \<Rightarrow> topology_location) \<Rightarrow> bool" where
  "merges_undef merge_tl \<longleftrightarrow>
     (\<forall>t gl p. wf_location t \<and> wf_location gl \<longrightarrow>
        wf_location (merge_tl t gl) \<and>
        TopologyLocation_get (merge_tl t gl) p =
          (if TopologyLocation_get t p = UNDEF then TopologyLocation_get gl p else TopologyLocation_get t p))"

lemma merges_undefD:
  assumes "merges_undef merge_tl" "wf_location t" "wf_location gl"
  shows "wf_location (merge_tl t gl)"
    "TopologyLocation_get (merge_tl t gl) p =
       (if TopologyLocation_get t p = UNDEF then TopologyLocation_get gl p else TopologyLocation_get t p)"
  using assms by (auto simp: merges_undef_def)

lemma wf_label_merge:
  assumes "merges_undef merge_tl" "wf_label this" "wf_label lbl"
  shows "wf_label (Label_merge merge_tl this lbl)"
  using assms by (auto elim!: wf_label_cases simp: Label_merge_def merges_undefD wf_label_pair)

lemma merge_get:
  assumes "merges_undef merge_tl" "wf_label this" "wf_label lbl" "i < 2"
  shows "TopologyLocation_get (elt (Label_merge merge_tl this lbl) ! i) p =
     (if TopologyLocation_get (elt this ! i) p = UNDEF then TopologyLocation_get (elt lbl ! i) p
      else TopologyLocation_get (elt this ! i) p)"
  using assms
  by (auto elim!: wf_label_cases simp: Label_merge_def merges_undefD less_2_cases_iff)

text \<open>Merging loses nothing: a geometry is missing from the result only when it is missing from
  both labels.\<close>

lemma merge_isNull:
  assumes "merges_undef merge_tl" "wf_label this" "wf_label lbl" "i < 2"
  shows "TopologyLocation_isNull (elt (Label_merge merge_tl this lbl) ! i) \<longleftrightarrow>
     TopologyLocation_isNull (elt this ! i) \<and> TopologyLocation_isNull (elt lbl ! i)"
  unfolding isNull_get [OF wf_labelD [OF assms(2,4)]] isNull_get [OF wf_labelD [OF assms(3,4)]]
    isNull_get [OF wf_labelD [OF wf_label_merge [OF assms(1-3)] assms(4)]] merge_get [OF assms]
  by metis

lemma getGeometryCount_eq:
  "Label_getGeometryCount lbl =
     int (card {i. i < 2 \<and> \<not> TopologyLocation_isNull (elt lbl ! i)})"
proof -
  have "{i. i < 2 \<and> \<not> TopologyLocation_isNull (elt lbl ! i)} =
      (if TopologyLocation_isNull (elt lbl ! 0) then {} else {0}) \<union>
      (if TopologyLocation_isNull (elt lbl ! 1) then {} else {1})"
    by (auto simp: less_2_cases_iff intro!: gr0I)
  then show ?thesis by (simp add: Label_getGeometryCount_def)
qed

lemma merge_count_mono:
  assumes "merges_undef merge_tl" "wf_label this" "wf_label lbl"
  shows "Label_getGeometryCount this \<le> Label_getGeometryCount (Label_merge merge_tl this lbl)"
    "Label_getGeometryCount lbl \<le> Label_getGeometryCount (Label_merge merge_tl this lbl)"
  unfolding getGeometryCount_eq of_nat_le_iff
  by (rule card_mono; use merge_isNull [OF assms] in force)+

text \<open>A function with this behaviour.\<close>

definition fill_undef :: "topology_location \<Rightarrow> topology_location \<Rightarrow> topology_location" where
  "fill_undef t gl =
     (let pick = (\<lambda>p. if TopologyLocation_get t p = UNDEF then TopologyLocation_get gl p else TopologyLocation_get t p)
      in if TopologyLocation_isArea t \<or> TopologyLocation_isArea gl then TopologyLocation_area (pick 0) (pick 1) (pick 2)
         else TopologyLocation_line (pick 0))"

lemma get_area:
  "TopologyLocation_get (TopologyLocation_area a b c) p = (if p = 0 then a else if p = 1 then b else if p = 2 then c else UNDEF)"
  by (auto simp: TopologyLocation_get_def location_defs nth_Cons' numeral_3_eq_3 numeral_2_eq_2)

lemma get_line: "TopologyLocation_get (TopologyLocation_line a) p = (if p = 0 then a else UNDEF)"
  by (simp add: TopologyLocation_get_def location_defs)

lemma get_outside:
  assumes "wf_location tloc"
  shows "p \<noteq> 0 \<Longrightarrow> \<not> TopologyLocation_isArea tloc \<Longrightarrow> TopologyLocation_get tloc p = UNDEF"
    and "3 \<le> p \<Longrightarrow> TopologyLocation_get tloc p = UNDEF"
  using assms by (auto simp: TopologyLocation_get_def TopologyLocation_isArea_def wf_location_def)

lemma fill_undef_merges: "merges_undef fill_undef"
proof -
  have "TopologyLocation_get (fill_undef t gl) p =
      (if TopologyLocation_get t p = UNDEF then TopologyLocation_get gl p else TopologyLocation_get t p)"
    if "wf_location t" "wf_location gl" for t gl p
    using get_outside [OF that(1), of p] get_outside [OF that(2), of p]
    by (auto simp: fill_undef_def Let_def get_area get_line)
  moreover have "wf_location (fill_undef t gl)" for t gl
    by (simp add: fill_undef_def Let_def)
  ultimately show ?thesis by (simp add: merges_undef_def)
qed

section \<open>What every call does\<close>

lemma wf_label_call:
  assumes "merges_undef merge_tl" "label_call merge_tl c lbl = Some lbl'" "wf_label lbl" "\<And>l. l \<in> call_labels c \<Longrightarrow> wf_label l"
  shows "wf_label lbl'"
proof (cases c)
  case (Call_setLocation i p loc)
  then show ?thesis using assms(2,3) unfolding Call_setLocation label_call.simps Label_setLocation_def by (elim wf_with_elt wf_location_set)
next
  case (Call_setLocation_on i loc)
  then show ?thesis using assms(2,3) unfolding Call_setLocation_on label_call.simps Label_setLocation_on_def by (elim wf_with_elt wf_location_set)
next
  case (Call_setAllLocations i loc)
  then show ?thesis using assms(2,3) unfolding Call_setAllLocations label_call.simps Label_setAllLocations_def by (elim wf_with_elt) auto
next
  case (Call_setAllLocationsIfNull loc)
  then show ?thesis
    using assms(2,3) by (auto simp: Label_setAllLocationsIfNull_def split: bind_splits intro: wf_setAllLocationsIfNull_geom)
next
  case (Call_toLine i)
  then show ?thesis using assms(2,3) unfolding Call_toLine label_call.simps Label_toLine_def by (elim wf_with_elt) auto
qed (use assms in \<open>auto intro: wf_label_flip wf_label_assign wf_setAllLocationsIfNull_geom wf_label_merge\<close>)

lemma wf_label_reachable:
  assumes "merges_undef merge_tl"
  shows "label_reachable merge_tl lbl \<Longrightarrow> wf_label lbl"
  by (induction rule: label_reachable.induct)
    (auto intro: wf_label_new_rule wf_label_call [OF assms] wf_label_copy simp: toLineLabel_wf wf_label_pair)

text \<open>
  \<open>shown c lbl i p\<close> is the location a client reads at position \<open>p\<close> of geometry \<open>i\<close> after the call \<open>c\<close>, in terms of what it
  read before. A line shows only the position on the component.
\<close>

definition shows_position :: "label \<Rightarrow> int \<Rightarrow> int \<Rightarrow> bool" where
  "shows_position lbl i p \<longleftrightarrow> p = 0 \<or> Label_isArea_geom lbl i = Some True"

fun shown :: "call \<Rightarrow> label \<Rightarrow> int \<Rightarrow> int \<Rightarrow> location option" where
  "shown Call_flip lbl i p = Label_getLocation lbl i (opposite p)"
| "shown (Call_setLocation g q loc) lbl i p =
     (if i = g \<and> p = q then Some (if shows_position lbl i p then loc else UNDEF) else Label_getLocation lbl i p)"
| "shown (Call_setLocation_on g loc) lbl i p = (if i = g \<and> p = 0 then Some loc else Label_getLocation lbl i p)"
| "shown (Call_setAllLocations g loc) lbl i p = (if i = g \<and> shows_position lbl i p then Some loc else Label_getLocation lbl i p)"
| "shown (Call_setAllLocationsIfNull_geom g loc) lbl i p =
     (if i = g \<and> shows_position lbl i p \<and> Label_getLocation lbl i p = Some UNDEF then Some loc else Label_getLocation lbl i p)"
| "shown (Call_setAllLocationsIfNull loc) lbl i p =
     (if shows_position lbl i p \<and> Label_getLocation lbl i p = Some UNDEF then Some loc else Label_getLocation lbl i p)"
| "shown (Call_toLine g) lbl i p = (if i = g \<and> p \<noteq> 0 then Some UNDEF else Label_getLocation lbl i p)"
| "shown (Call_merge l) lbl i p = (if Label_getLocation lbl i p = Some UNDEF then Label_getLocation l i p else Label_getLocation lbl i p)"
| "shown (Call_assign l) lbl i p = Label_getLocation l i p"

text \<open>The arguments of a call pass the assertions.\<close>

fun call_ok :: "call \<Rightarrow> bool" where
  "call_ok (Call_setLocation g q loc) = (geomIndex_ok g \<and> 0 \<le> q \<and> q < 3)"
| "call_ok (Call_setLocation_on g loc) = geomIndex_ok g"
| "call_ok (Call_setAllLocations g loc) = geomIndex_ok g"
| "call_ok (Call_setAllLocationsIfNull_geom g loc) = geomIndex_ok g"
| "call_ok (Call_toLine g) = geomIndex_ok g"
| "call_ok _ = True"

lemma size_t_position: "0 \<le> p \<Longrightarrow> p < 3 \<Longrightarrow> size_t p = nat p"
  by (simp add: size_t_def)

lemma getLocation_elt: "geomIndex_ok i \<Longrightarrow> 0 \<le> p \<Longrightarrow> p < 3 \<Longrightarrow> Label_getLocation lbl i p = Some (TopologyLocation_get (elt lbl ! nat i) (nat p))"
  by (simp add: label_read_defs size_t_position)

lemma shows_position_elt:
  assumes "geomIndex_ok i" "wf_label lbl" "0 \<le> p" "p < 3"
  shows "shows_position lbl i p \<longleftrightarrow> nat p < locationSize (elt lbl ! nat i)"
proof -
  have "wf_location (elt lbl ! nat i)" using assms(1,2) geomIndex_ok_nat wf_labelD by blast
  then show ?thesis
    using assms(1,3,4) by (auto simp: shows_position_def label_read_defs TopologyLocation_isArea_def wf_location_def)
qed

text \<open>A call on one geometry changes what is read of it and nothing else.\<close>

lemma getLocation_with_elt:
  assumes "wf_label lbl" "geomIndex_ok i" "geomIndex_ok g" "0 \<le> p" "p < 3" "f (elt lbl ! nat g) = Some t"
    "x = (if i = g then Some (TopologyLocation_get t (nat p)) else Label_getLocation lbl i p)"
  shows "\<exists>lbl'. with_elt lbl g f = Some lbl' \<and> Label_getLocation lbl' i p = x"
proof -
  have "nat i = nat g \<longleftrightarrow> i = g" "nat g < length (elt lbl)" using assms(1-3) by (auto simp: geomIndex_ok_def wf_label_def)
  then show ?thesis using assms by (auto simp: with_elt_def getLocation_elt nth_list_update)
qed

lemma get_setAllLocations:
  "wf_location tloc \<Longrightarrow> TopologyLocation_get (TopologyLocation_setAllLocations tloc loc) p =
     (if p < locationSize tloc then loc else TopologyLocation_get tloc p)"
  by (auto simp: wf_location_def TopologyLocation_get_def TopologyLocation_setAllLocations_def)

lemma get_toLine:
  "wf_location tloc \<Longrightarrow> TopologyLocation_get (if TopologyLocation_isArea tloc
       then TopologyLocation_assign tloc (TopologyLocation_line (TopologyLocation_getLocations tloc ! 0)) else tloc) p =
     (if p = 0 then TopologyLocation_get tloc p else UNDEF)"
  by (auto simp: wf_location_def TopologyLocation_get_def location_defs)

lemma shown_after_call:
  assumes "merges_undef merge_tl" "wf_label lbl" "\<And>l. l \<in> call_labels c \<Longrightarrow> wf_label l" "call_ok c"
    "geomIndex_ok i" "0 \<le> p" "p < 3"
  shows "\<exists>lbl'. label_call merge_tl c lbl = Some lbl' \<and> Label_getLocation lbl' i p = shown c lbl i p"
proof -
  have w: "wf_location (elt lbl ! nat g)" if "geomIndex_ok g" for g using that assms(2) geomIndex_ok_nat wf_labelD by blast
  note G = getLocation_elt [OF assms(5-7)] and S = shows_position_elt [OF assms(5,2,6,7)] and E = getLocation_with_elt [OF assms(2,5) _ assms(6,7)]
  show ?thesis
  proof (cases c)
    case Call_flip
    then show ?thesis using getLocation_flip [OF assms(2,6)] assms(7) by simp
  next
    case (Call_setLocation g q loc)
    then obtain t where t: "TopologyLocation_setLocation (elt lbl ! nat g) (size_t q) loc = Some t"
      using assms(4) by (simp add: TopologyLocation_setLocation_def size_t_position nat_less_iff)
    show ?thesis
      unfolding Call_setLocation label_call.simps Label_setLocation_def
      using Call_setLocation assms(4,6,7) t get_setLocation [OF w t, of "nat p"] S
      by (intro E [where t = t]) (auto simp: getLocation_elt size_t_position)
  next
    case (Call_setLocation_on g loc)
    then obtain t where t: "TopologyLocation_setLocation (elt lbl ! nat g) Position_ON loc = Some t"
      by (simp add: TopologyLocation_setLocation_def)
    show ?thesis
      unfolding Call_setLocation_on label_call.simps Label_setLocation_on_def
      using Call_setLocation_on assms(4,6,7) t get_setLocation [OF w t, of "nat p"] S [unfolded shows_position_def]
      by (intro E [where t = t]) (auto simp: getLocation_elt)
  next
    case (Call_setAllLocations g loc)
    show ?thesis
      unfolding Call_setAllLocations label_call.simps Label_setAllLocations_def
      using Call_setAllLocations assms(4,6,7) get_setAllLocations [OF w, of g loc "nat p"] S
      by (intro E [where t = "TopologyLocation_setAllLocations (elt lbl ! nat g) loc"]) (auto simp: getLocation_elt)
  next
    case (Call_setAllLocationsIfNull_geom g loc)
    show ?thesis
      unfolding Call_setAllLocationsIfNull_geom label_call.simps Label_setAllLocationsIfNull_geom_def
      using Call_setAllLocationsIfNull_geom assms(4,6,7) get_setAllLocationsIfNull [OF w, of g loc "nat p"] S
      by (intro E [where t = "TopologyLocation_setAllLocationsIfNull (elt lbl ! nat g) loc"]) (auto simp: getLocation_elt)
  next
    case (Call_setAllLocationsIfNull loc)
    obtain lbl' where l: "Label_setAllLocationsIfNull lbl loc = Some lbl'" "wf_label lbl'"
      "\<forall>i < 2. elt lbl' ! i = TopologyLocation_setAllLocationsIfNull (elt lbl ! i) loc"
      using setAllLocationsIfNull_eq [OF assms(2)] by blast
    then have "elt lbl' ! nat i = TopologyLocation_setAllLocationsIfNull (elt lbl ! nat i) loc"
      using assms(5) geomIndex_ok_nat by blast
    then show ?thesis
      using Call_setAllLocationsIfNull l(1) get_setAllLocationsIfNull [OF w, of i loc "nat p"] S assms(5) getLocation_elt [OF assms(5-7), of lbl']
      by (simp add: G)
  next
    case (Call_toLine g)
    show ?thesis
      unfolding Call_toLine label_call.simps Label_toLine_def
      using Call_toLine assms(4,6,7) get_toLine [OF w, of g "nat p"]
      by (intro E [OF _ refl]) (auto simp: getLocation_elt split: if_splits)
  next
    case (Call_merge l)
    then have "wf_label l" using assms(3) by simp
    from merge_get [OF assms(1,2) this, of "nat i" "nat p"] show ?thesis
      using Call_merge assms(5) geomIndex_ok_nat by (simp add: getLocation_elt [OF assms(5-7)])
  next
    case (Call_assign l)
    then have l: "wf_label l" using assms(3) by simp
    have "nat i = 0 \<or> nat i = 1" using assms(5) by (auto simp: geomIndex_ok_def)
    then show ?thesis
      using Call_assign assms(2) by (auto simp: getLocation_elt [OF assms(5-7)] Label_assign_def location_defs TopologyLocation_get_def wf_label_def)
  qed
qed

end
