(* ===== verification/Geos_Quadrant.thy ===== *)
theory Geos_Quadrant
  imports Geos_Coordinate Geos_Label "HOL-Library.Signed_Division"
begin

text \<open>
  Quadrants and depths: \<^verbatim>\<open>Quadrant.inl\<close> and \<^verbatim>\<open>Depth.inl\<close> of \<^verbatim>\<open>src/includes/geos/geomgraph\<close>.
  The quadrant of a displacement is an error when there is none (the exception's message is not
  modelled). The remainder of C++ is the truncated one. A depth table has a number for each side
  of an edge and each of two geometries; an index outside the table, and an \<^verbatim>\<open>int\<close> that overflows,
  is \<open>None\<close>.
\<close>

section \<open>Quadrants\<close>

datatype geos_error = IllegalArgumentException

definition NE :: int where "NE = 0"
definition NW :: int where "NW = 1"
definition SW :: int where "SW = 2"
definition SE :: int where "SE = 3"

lemmas quadrant_constants = NE_def NW_def SW_def SE_def

definition Quadrant_quadrant :: "double \<Rightarrow> double \<Rightarrow> geos_error + int" where
  "Quadrant_quadrant dx dy =
     (if d_eq dx d_zero \<and> d_eq dy d_zero then Inl IllegalArgumentException
      else if d_ge dx d_zero then (if d_ge dy d_zero then Inr NE else Inr SE)
      else (if d_ge dy d_zero then Inr NW else Inr SW))"

definition Quadrant_quadrant_points :: "coordinate \<Rightarrow> coordinate \<Rightarrow> geos_error + int" where
  "Quadrant_quadrant_points p0 p1 =
     (if d_eq (cx p1) (cx p0) \<and> d_eq (cy p1) (cy p0) then Inl IllegalArgumentException
      else if d_ge (cx p1) (cx p0) then (if d_ge (cy p1) (cy p0) then Inr NE else Inr SE)
      else (if d_ge (cy p1) (cy p0) then Inr NW else Inr SW))"

definition Quadrant_isOpposite :: "int \<Rightarrow> int \<Rightarrow> bool" where
  "Quadrant_isOpposite quad1 quad2 =
     (if quad1 = quad2 then False
      else let diff = (quad1 - quad2 + 4) smod 4
           in if diff = 2 then True else False)"

definition Quadrant_isNorthern :: "int \<Rightarrow> bool" where
  "Quadrant_isNorthern quad = (quad = NE \<or> quad = NW)"

text \<open>On the four quadrants, opposite is two quarter turns away.\<close>

lemma isOpposite_iff:
  assumes "q1 \<in> {0..3}" "q2 \<in> {0..3}"
  shows "Quadrant_isOpposite q1 q2 \<longleftrightarrow> \<bar>q1 - q2\<bar> = 2"
proof -
  have "0 \<le> q1 - q2 + 4" using assms by simp
  then have "(q1 - q2 + 4) smod 4 = (q1 - q2 + 4) mod 4"
    by (simp add: signed_modulo_int_def signed_divide_int_def sgn_if minus_mult_div_eq_mod [symmetric])
  moreover from assms have "q1 = 0 \<or> q1 = 1 \<or> q1 = 2 \<or> q1 = 3" "q2 = 0 \<or> q2 = 1 \<or> q2 = 2 \<or> q2 = 3" by auto
  ultimately show ?thesis by (auto simp: Quadrant_isOpposite_def Let_def)
qed

lemma isOpposite_sym:
  "q1 \<in> {0..3} \<Longrightarrow> q2 \<in> {0..3} \<Longrightarrow> Quadrant_isOpposite q1 q2 = Quadrant_isOpposite q2 q1"
  by (simp add: isOpposite_iff abs_minus_commute)

lemma quadrant_points_cases:
  assumes "proper p0" "proper p1" "\<not> Coordinate_equals2D p0 p1"
  obtains q where "Quadrant_quadrant_points p0 p1 = Inr q"
    "q = (if dkey (cx p0) \<le> dkey (cx p1) then if dkey (cy p0) \<le> dkey (cy p1) then NE else SE
          else if dkey (cy p0) \<le> dkey (cy p1) then NW else SW)"
  using assms by (auto simp: Quadrant_quadrant_points_def proper_def Coordinate_equals2D_def split: if_splits)

lemma quadrant_points_error:
  assumes "proper p0" "proper p1"
  shows "Quadrant_quadrant_points p0 p1 = Inl IllegalArgumentException \<longleftrightarrow> Coordinate_equals2D p0 p1"
  using assms by (auto simp: Quadrant_quadrant_points_def proper_def Coordinate_equals2D_def)

text \<open>Walking a segment backwards turns its quadrant around, unless it is horizontal or vertical.\<close>

lemma quadrant_points_reverse:
  assumes "proper p0" "proper p1" "\<not> Coordinate_equals2D p0 p1"
  shows "\<exists>q q'. Quadrant_quadrant_points p0 p1 = Inr q \<and> Quadrant_quadrant_points p1 p0 = Inr q' \<and>
     q \<in> {0..3} \<and> q' \<in> {0..3} \<and>
     (Quadrant_isOpposite q q' \<longleftrightarrow> \<not> d_eq (cx p0) (cx p1) \<and> \<not> d_eq (cy p0) (cy p1)) \<and>
     (Quadrant_isNorthern q \<longleftrightarrow> d_le (cy p0) (cy p1))"
proof -
  have "\<not> Coordinate_equals2D p1 p0"
    using assms by (auto simp: Coordinate_equals2D_def proper_def split: if_splits)
  from quadrant_points_cases [OF assms(2,1) this] obtain q' where
    q': "Quadrant_quadrant_points p1 p0 = Inr q'"
    "q' = (if dkey (cx p1) \<le> dkey (cx p0) then if dkey (cy p1) \<le> dkey (cy p0) then NE else SE
          else if dkey (cy p1) \<le> dkey (cy p0) then NW else SW)" .
  from quadrant_points_cases [OF assms] obtain q where
    q: "Quadrant_quadrant_points p0 p1 = Inr q"
    "q = (if dkey (cx p0) \<le> dkey (cx p1) then if dkey (cy p0) \<le> dkey (cy p1) then NE else SE
          else if dkey (cy p0) \<le> dkey (cy p1) then NW else SW)" .
  have bnd: "q \<in> {0..3}" "q' \<in> {0..3}" using q q' by (simp_all add: quadrant_constants)
  have "\<bar>q - q'\<bar> = 2 \<longleftrightarrow> dkey (cx p0) \<noteq> dkey (cx p1) \<and> dkey (cy p0) \<noteq> dkey (cy p1)"
    using assms(3) by (auto simp: q(2) q'(2) quadrant_constants split: if_splits)
  moreover have "Quadrant_isNorthern q \<longleftrightarrow> dkey (cy p0) \<le> dkey (cy p1)"
    by (simp add: Quadrant_isNorthern_def q(2) quadrant_constants)
  ultimately show ?thesis
    using q(1) q'(1) bnd assms(1,2) by (auto simp: isOpposite_iff proper_def)
qed

section \<open>Depths\<close>

text \<open>An \<^verbatim>\<open>int\<close> is 32 bits wide; the increment of the largest one is undefined.\<close>

definition int_max :: int where
  "int_max = 2 ^ 31 - 1"

definition Depth_NULL_VALUE :: int where
  "Depth_NULL_VALUE = - 1"

record depths =
  depth :: "int list list"

definition Depth_new :: depths where
  "Depth_new = \<lparr>depth = replicate 2 (replicate 3 Depth_NULL_VALUE)\<rparr>"

definition depth_index :: "int \<Rightarrow> int \<Rightarrow> bool" where
  "depth_index geomIndex posIndex \<longleftrightarrow> 0 \<le> geomIndex \<and> geomIndex < 2 \<and> 0 \<le> posIndex \<and> posIndex < 3"

definition Depth_getDepth :: "depths \<Rightarrow> int \<Rightarrow> int \<Rightarrow> int option" where
  "Depth_getDepth d geomIndex posIndex =
     (if depth_index geomIndex posIndex then Some (depth d ! nat geomIndex ! nat posIndex) else None)"

definition Depth_setDepth :: "depths \<Rightarrow> int \<Rightarrow> int \<Rightarrow> int \<Rightarrow> depths option" where
  "Depth_setDepth d geomIndex posIndex depthValue =
     (if depth_index geomIndex posIndex
      then Some (d\<lparr>depth := (depth d)[nat geomIndex := (depth d ! nat geomIndex)[nat posIndex := depthValue]]\<rparr>)
      else None)"

definition Depth_getLocation :: "depths \<Rightarrow> int \<Rightarrow> int \<Rightarrow> location option" where
  "Depth_getLocation d geomIndex posIndex = do {
     v \<leftarrow> Depth_getDepth d geomIndex posIndex;
     if v \<le> 0 then Some EXTERIOR else Some INTERIOR
   }"

definition Depth_add :: "depths \<Rightarrow> int \<Rightarrow> int \<Rightarrow> location \<Rightarrow> depths option" where
  "Depth_add d geomIndex posIndex loc =
     (if loc = INTERIOR then do {
        v \<leftarrow> Depth_getDepth d geomIndex posIndex;
        if v = int_max then None else Depth_setDepth d geomIndex posIndex (v + 1)
      } else Some d)"

definition Depth_depthAtLocation :: "location \<Rightarrow> int" where
  "Depth_depthAtLocation loc =
     (if loc = EXTERIOR then 0 else if loc = INTERIOR then 1 else Depth_NULL_VALUE)"

definition Depth_isNull :: "depths \<Rightarrow> bool" where
  "Depth_isNull d = (\<forall>i \<in> {0, 1}. \<forall>j \<in> {0, 1, 2}. depth d ! i ! j = Depth_NULL_VALUE)"

definition Depth_isNull_geom :: "depths \<Rightarrow> int \<Rightarrow> bool option" where
  "Depth_isNull_geom d geomIndex = map_option (\<lambda>v. v = Depth_NULL_VALUE) (Depth_getDepth d geomIndex 1)"

definition Depth_isNull_pos :: "depths \<Rightarrow> int \<Rightarrow> int \<Rightarrow> bool option" where
  "Depth_isNull_pos d geomIndex posIndex =
     map_option (\<lambda>v. v = Depth_NULL_VALUE) (Depth_getDepth d geomIndex posIndex)"

definition Depth_getDelta :: "depths \<Rightarrow> int \<Rightarrow> int option" where
  "Depth_getDelta d geomIndex = do {
     r \<leftarrow> Depth_getDepth d geomIndex (int Position_RIGHT);
     l \<leftarrow> Depth_getDepth d geomIndex (int Position_LEFT);
     if - int_max - 1 \<le> r - l \<and> r - l \<le> int_max then Some (r - l) else None
   }"

definition wf_depths :: "depths \<Rightarrow> bool" where
  "wf_depths d \<longleftrightarrow> length (depth d) = 2 \<and>
     (\<forall>row \<in> set (depth d). length row = 3 \<and> (\<forall>v \<in> set row. Depth_NULL_VALUE \<le> v \<and> v \<le> int_max))"

lemma wf_depths_new: "wf_depths Depth_new"
  by (auto simp: wf_depths_def Depth_new_def Depth_NULL_VALUE_def int_max_def)

lemma wf_depths_row: "wf_depths d \<Longrightarrow> i < 2 \<Longrightarrow> length (depth d ! i) = 3"
  by (simp add: wf_depths_def)

lemma wf_depths_get:
  assumes "wf_depths d" "Depth_getDepth d i j = Some v"
  shows "Depth_NULL_VALUE \<le> v" "v \<le> int_max"
proof -
  from assms(2) have i: "nat i < 2" "nat j < 3" "v = depth d ! nat i ! nat j"
    by (auto simp: Depth_getDepth_def depth_index_def split: if_splits)
  with assms(1) have "depth d ! nat i \<in> set (depth d)" "v \<in> set (depth d ! nat i)"
    by (auto simp: wf_depths_def)
  with assms(1) show "Depth_NULL_VALUE \<le> v" "v \<le> int_max" by (auto simp: wf_depths_def)
qed

lemma wf_depths_set:
  assumes "wf_depths d" "Depth_setDepth d i j v = Some d'" "Depth_NULL_VALUE \<le> v" "v \<le> int_max"
  shows "wf_depths d'"
proof -
  from assms(2) have i: "nat i < 2" and d': "d' = d\<lparr>depth := (depth d)[nat i := (depth d ! nat i)[nat j := v]]\<rparr>"
    by (auto simp: Depth_setDepth_def depth_index_def split: if_splits)
  have "depth d ! nat i \<in> set (depth d)"
    using assms(1) i by (simp add: wf_depths_def)
  then have "\<forall>x \<in> set ((depth d ! nat i)[nat j := v]). Depth_NULL_VALUE \<le> x \<and> x \<le> int_max"
    using assms(1,3,4) set_update_subset_insert [of "depth d ! nat i" "nat j" v]
    by (auto simp: wf_depths_def)
  then show ?thesis
    using assms(1) i set_update_subset_insert [of "depth d" "nat i" "(depth d ! nat i)[nat j := v]"]
    by (auto simp: wf_depths_def d')
qed

lemma wf_depths_add: "wf_depths d \<Longrightarrow> Depth_add d i j loc = Some d' \<Longrightarrow> wf_depths d'"
  using wf_depths_get [of d i j] by (force simp: Depth_add_def split: if_splits bind_splits elim!: wf_depths_set)

text \<open>Adding a location counts the interior ones: a depth grows by one for \<open>INTERIOR\<close> and no other
  depth changes.\<close>

lemma Depth_add_get:
  assumes "wf_depths d" "Depth_getDepth d i j = Some v" "v < int_max"
  shows "\<exists>d'. Depth_add d i j loc = Some d' \<and>
     (\<forall>i' j'. Depth_getDepth d' i' j' =
        (if i' = i \<and> j' = j \<and> loc = INTERIOR then Some (v + 1) else Depth_getDepth d i' j'))"
proof (cases "loc = INTERIOR")
  case True
  from assms(2) have ij: "depth_index i j" by (auto simp: Depth_getDepth_def split: if_splits)
  let ?d' = "d\<lparr>depth := (depth d)[nat i := (depth d ! nat i)[nat j := v + 1]]\<rparr>"
  have "Depth_add d i j loc = Some ?d'"
    using True ij assms(2,3) by (simp add: Depth_add_def Depth_setDepth_def)
  moreover have "Depth_getDepth ?d' i' j' = (if i' = i \<and> j' = j then Some (v + 1) else Depth_getDepth d i' j')" for i' j'
    using ij wf_depths_row [OF assms(1), of "nat i"] assms(1)
    by (auto simp: Depth_getDepth_def depth_index_def wf_depths_def nth_list_update eq_nat_nat_iff)
  ultimately show ?thesis using True by auto
qed (auto simp: Depth_add_def)

text \<open>The difference of the sides of an edge does not overflow once the left depth is known.\<close>

lemma Depth_getDelta_defined:
  assumes "wf_depths d" "0 \<le> i" "i < 2" "Depth_isNull_geom d i = Some False"
  shows "Depth_getDelta d i = Some (depth d ! nat i ! 2 - depth d ! nat i ! 1)"
  using assms wf_depths_get [OF assms(1), of i 2 "depth d ! nat i ! 2"] wf_depths_get [OF assms(1), of i 1 "depth d ! nat i ! 1"]
  by (auto simp: Depth_getDelta_def Depth_getDepth_def Depth_isNull_geom_def depth_index_def Depth_NULL_VALUE_def int_max_def)

end
