(* ===== verification/Geos_QuadEdge.thy ===== *)
theory Geos_QuadEdge
  imports Prelude
begin

text \<open>
  Quad edges: the inline part of \<^verbatim>\<open>QuadEdge.h\<close> and \<^verbatim>\<open>QuadEdgeQuartet.h\<close> of
  \<^verbatim>\<open>src/includes/geos/triangulate/quadedge\<close>. The four edges of a quartet lie side by side in an
  array, and the code moves between them by pointer arithmetic on \<^verbatim>\<open>this\<close>. The store is the
  \<^verbatim>\<open>std::deque\<close> of quartets, a pointer is the index of a quartet and a position in it, and a pointer
  outside the array, or a null one, is \<open>None\<close> where it is followed. \<^verbatim>\<open>Vertex\<close> is a type parameter
  with its default value. \<open>edge_algebra\<close> derives the laws of the edge functions from two axioms
  that the stores built here satisfy (\<open>edge_store\<close>).
\<close>

section \<open>Store\<close>

type_synonym edge_ptr = "nat \<times> int"

record 'v quad_edge =
  vertex :: 'v
  next_edge :: "edge_ptr option"
  num :: int
  isAlive :: bool
  visited :: bool

type_synonym 'v quartet = "'v quad_edge list"
type_synonym 'v edges = "'v quartet list"

definition valid :: "'v edges \<Rightarrow> edge_ptr \<Rightarrow> bool" where
  "valid s p \<longleftrightarrow> fst p < length s \<and> 0 \<le> snd p \<and> snd p < int (length (s ! fst p))"

definition deref :: "'v edges \<Rightarrow> edge_ptr \<Rightarrow> 'v quad_edge option" where
  "deref s p = (if valid s p then Some (s ! fst p ! nat (snd p)) else None)"

definition refer :: "'v edges \<Rightarrow> edge_ptr \<Rightarrow> edge_ptr option" where
  "refer s p = (if valid s p then Some p else None)"

definition store_at :: "'v edges \<Rightarrow> edge_ptr \<Rightarrow> ('v quad_edge \<Rightarrow> 'v quad_edge) \<Rightarrow> 'v edges option" where
  "store_at s p f =
     (if valid s p then Some (s[fst p := (s ! fst p)[nat (snd p) := f (s ! fst p ! nat (snd p))]]) else None)"

definition ptr_add :: "edge_ptr \<Rightarrow> int \<Rightarrow> edge_ptr" where
  "ptr_add p k = (fst p, snd p + k)"

section \<open>Operations\<close>

definition QuadEdge_new :: "'v \<Rightarrow> int \<Rightarrow> 'v quad_edge" where
  "QuadEdge_new default_vertex number =
     \<lparr>vertex = default_vertex, next_edge = None, num = number, isAlive = True, visited = False\<rparr>"

definition QuadEdge_isLive :: "'v edges \<Rightarrow> edge_ptr \<Rightarrow> bool option" where
  "QuadEdge_isLive s this = map_option isAlive (deref s this)"

definition QuadEdge_isVisited :: "'v edges \<Rightarrow> edge_ptr \<Rightarrow> bool option" where
  "QuadEdge_isVisited s this = map_option visited (deref s this)"

definition QuadEdge_setVisited :: "'v edges \<Rightarrow> edge_ptr \<Rightarrow> bool \<Rightarrow> 'v edges option" where
  "QuadEdge_setVisited s this v = store_at s this (\<lambda>e. e\<lparr>visited := v\<rparr>)"

definition QuadEdge_setNext :: "'v edges \<Rightarrow> edge_ptr \<Rightarrow> edge_ptr option \<Rightarrow> 'v edges option" where
  "QuadEdge_setNext s this p_next = store_at s this (\<lambda>e. e\<lparr>next_edge := p_next\<rparr>)"

definition QuadEdge_rot :: "'v edges \<Rightarrow> edge_ptr \<Rightarrow> edge_ptr option" where
  "QuadEdge_rot s this = do {
     e \<leftarrow> deref s this;
     if num e < 3 then refer s (ptr_add this 1) else refer s (ptr_add this (- 3))
   }"

definition QuadEdge_invRot :: "'v edges \<Rightarrow> edge_ptr \<Rightarrow> edge_ptr option" where
  "QuadEdge_invRot s this = do {
     e \<leftarrow> deref s this;
     if num e > 0 then refer s (ptr_add this (- 1)) else refer s (ptr_add this 3)
   }"

definition QuadEdge_sym :: "'v edges \<Rightarrow> edge_ptr \<Rightarrow> edge_ptr option" where
  "QuadEdge_sym s this = do {
     e \<leftarrow> deref s this;
     if num e < 2 then refer s (ptr_add this 2) else refer s (ptr_add this (- 2))
   }"

definition QuadEdge_oNext :: "'v edges \<Rightarrow> edge_ptr \<Rightarrow> edge_ptr option" where
  "QuadEdge_oNext s this = do {
     e \<leftarrow> deref s this;
     p \<leftarrow> next_edge e;
     refer s p
   }"

definition QuadEdge_oPrev :: "'v edges \<Rightarrow> edge_ptr \<Rightarrow> edge_ptr option" where
  "QuadEdge_oPrev s this = do { p \<leftarrow> QuadEdge_rot s this; p \<leftarrow> QuadEdge_oNext s p; QuadEdge_rot s p }"

definition QuadEdge_dNext :: "'v edges \<Rightarrow> edge_ptr \<Rightarrow> edge_ptr option" where
  "QuadEdge_dNext s this = do { p \<leftarrow> QuadEdge_sym s this; p \<leftarrow> QuadEdge_oNext s p; QuadEdge_sym s p }"

definition QuadEdge_dPrev :: "'v edges \<Rightarrow> edge_ptr \<Rightarrow> edge_ptr option" where
  "QuadEdge_dPrev s this = do { p \<leftarrow> QuadEdge_invRot s this; p \<leftarrow> QuadEdge_oNext s p; QuadEdge_invRot s p }"

definition QuadEdge_lNext :: "'v edges \<Rightarrow> edge_ptr \<Rightarrow> edge_ptr option" where
  "QuadEdge_lNext s this = do { p \<leftarrow> QuadEdge_invRot s this; p \<leftarrow> QuadEdge_oNext s p; QuadEdge_rot s p }"

definition QuadEdge_lPrev :: "'v edges \<Rightarrow> edge_ptr \<Rightarrow> edge_ptr option" where
  "QuadEdge_lPrev s this = do { p \<leftarrow> QuadEdge_oNext s this; QuadEdge_sym s p }"

definition QuadEdge_rNext :: "'v edges \<Rightarrow> edge_ptr \<Rightarrow> edge_ptr option" where
  "QuadEdge_rNext s this = do { p \<leftarrow> QuadEdge_rot s this; p \<leftarrow> QuadEdge_oNext s p; QuadEdge_invRot s p }"

definition QuadEdge_rPrev :: "'v edges \<Rightarrow> edge_ptr \<Rightarrow> edge_ptr option" where
  "QuadEdge_rPrev s this = do { p \<leftarrow> QuadEdge_sym s this; QuadEdge_oNext s p }"

definition QuadEdge_setOrig :: "'v edges \<Rightarrow> edge_ptr \<Rightarrow> 'v \<Rightarrow> 'v edges option" where
  "QuadEdge_setOrig s this v = store_at s this (\<lambda>e. e\<lparr>vertex := v\<rparr>)"

definition QuadEdge_setDest :: "'v edges \<Rightarrow> edge_ptr \<Rightarrow> 'v \<Rightarrow> 'v edges option" where
  "QuadEdge_setDest s this d = do { p \<leftarrow> QuadEdge_sym s this; QuadEdge_setOrig s p d }"

definition QuadEdge_orig :: "'v edges \<Rightarrow> edge_ptr \<Rightarrow> 'v option" where
  "QuadEdge_orig s this = map_option vertex (deref s this)"

definition QuadEdge_dest :: "'v edges \<Rightarrow> edge_ptr \<Rightarrow> 'v option" where
  "QuadEdge_dest s this = do { p \<leftarrow> QuadEdge_sym s this; QuadEdge_orig s p }"

text \<open>The constructor of a quartet that will be at index \<open>q\<close> of the deque.\<close>

definition QuadEdgeQuartet_new :: "'v \<Rightarrow> nat \<Rightarrow> 'v quartet" where
  "QuadEdgeQuartet_new v q =
     [(QuadEdge_new v 0)\<lparr>next_edge := Some (q, 0)\<rparr>, (QuadEdge_new v 1)\<lparr>next_edge := Some (q, 3)\<rparr>,
      (QuadEdge_new v 2)\<lparr>next_edge := Some (q, 2)\<rparr>, (QuadEdge_new v 3)\<lparr>next_edge := Some (q, 1)\<rparr>]"

definition QuadEdgeQuartet_base :: "nat \<Rightarrow> edge_ptr" where
  "QuadEdgeQuartet_base q = (q, 0)"

definition QuadEdgeQuartet_makeEdge :: "'v \<Rightarrow> 'v \<Rightarrow> 'v \<Rightarrow> 'v edges \<Rightarrow> ('v edges \<times> edge_ptr) option" where
  "QuadEdgeQuartet_makeEdge v o1 d edges = do {
     let q = length edges;
     let edges = edges @ [QuadEdgeQuartet_new v q];
     edges \<leftarrow> QuadEdge_setOrig edges (QuadEdgeQuartet_base q) o1;
     edges \<leftarrow> QuadEdge_setDest edges (QuadEdgeQuartet_base q) d;
     Some (edges, QuadEdgeQuartet_base q)
   }"

definition QuadEdgeQuartet_setVisited :: "'v edges \<Rightarrow> nat \<Rightarrow> bool \<Rightarrow> 'v edges option" where
  "QuadEdgeQuartet_setVisited edges q status =
     for_loop [0, 1, 2, 3] (\<lambda>i s. QuadEdge_setVisited s (q, i) status) edges"

section \<open>The edge algebra\<close>

text \<open>
  The axioms of Guibas and Stolfi for oriented edges and their duals: four quarter turns are the
  identity, and going round the origin after a quarter turn, twice, leads back.
\<close>

locale edge_algebra =
  fixes edge :: "'e \<Rightarrow> bool" and rot oNext :: "'e \<Rightarrow> 'e"
  assumes rot_edge: "edge e \<Longrightarrow> edge (rot e)"
    and oNext_edge: "edge e \<Longrightarrow> edge (oNext e)"
    and rot4: "edge e \<Longrightarrow> rot (rot (rot (rot e))) = e"
    and rot_oNext: "edge e \<Longrightarrow> oNext (rot (oNext (rot e))) = e"
begin

lemma rot_inject: "edge a \<Longrightarrow> edge b \<Longrightarrow> rot a = rot b \<Longrightarrow> a = b"
  using rot4 by metis

lemma oPrev_oNext: "edge e \<Longrightarrow> rot (oNext (rot (oNext e))) = e"
proof -
  assume e: "edge e"
  define a where "a = rot (rot (rot e))"
  have a: "edge a" "rot a = e" using e rot4 rot_edge by (simp_all add: a_def)
  have "oNext (rot (oNext e)) = a" using rot_oNext [OF a(1)] a(2) by simp
  then show ?thesis using a(2) by simp
qed

lemma oNext_oPrev: "edge e \<Longrightarrow> oNext (rot (oNext (rot e))) = e"
  by (rule rot_oNext)

lemma oNext_inject: "edge a \<Longrightarrow> edge b \<Longrightarrow> oNext a = oNext b \<Longrightarrow> a = b"
  using oPrev_oNext by metis

lemma dPrev_dNext:
  assumes "edge e"
  shows "rot (rot (rot (oNext (rot (rot (rot (rot (rot (oNext (rot (rot e))))))))))) = e"
proof -
  have "rot (rot (rot (rot (rot (oNext (rot (rot e))))))) = rot (oNext (rot (rot e)))"
    using assms rot_edge oNext_edge rot4 by simp
  moreover have "oNext (rot (oNext (rot (rot e)))) = rot e"
    using assms rot_edge rot_oNext by simp
  ultimately show ?thesis using assms rot4 by simp
qed

lemma lNext_lPrev: "edge e \<Longrightarrow> rot (oNext (rot (rot (rot (rot (rot (oNext e))))))) = e"
  using oPrev_oNext rot4 oNext_edge rot_edge by simp

lemma rNext_rPrev: "edge e \<Longrightarrow> rot (rot (rot (oNext (rot (oNext (rot (rot e))))))) = e"
proof -
  assume e: "edge e"
  have "oNext (rot (oNext (rot (rot e)))) = rot e" using e rot_edge rot_oNext by simp
  then show ?thesis using e rot4 by simp
qed

end

section \<open>Stores of whole quartets\<close>

definition turn :: "edge_ptr \<Rightarrow> edge_ptr" where
  "turn p = (fst p, (snd p + 1) mod 4)"

definition oNext :: "'v edges \<Rightarrow> edge_ptr \<Rightarrow> edge_ptr" where
  "oNext s p = the (next_edge (s ! fst p ! nat (snd p)))"

definition quartets :: "'v edges \<Rightarrow> bool" where
  "quartets s \<longleftrightarrow> (\<forall>q < length s. length (s ! q) = 4 \<and>
     (\<forall>i < 4. num (s ! q ! i) = int i \<and>
        next_edge (s ! q ! i) \<noteq> None \<and> valid s (the (next_edge (s ! q ! i)))))"

definition edge_store :: "'v edges \<Rightarrow> bool" where
  "edge_store s \<longleftrightarrow> quartets s \<and>
     (\<forall>q < length s. \<forall>i < 4. oNext s (turn (oNext s (turn (q, int i)))) = (q, int i))"

lemma quartetsD:
  assumes "quartets s" "q < length s"
  shows "length (s ! q) = 4" "i < 4 \<Longrightarrow> num (s ! q ! i) = int i"
    "i < 4 \<Longrightarrow> next_edge (s ! q ! i) \<noteq> None" "i < 4 \<Longrightarrow> valid s (the (next_edge (s ! q ! i)))"
  using assms unfolding quartets_def by blast+

lemma valid_quartets: "quartets s \<Longrightarrow> valid s (q, i) \<longleftrightarrow> q < length s \<and> 0 \<le> i \<and> i < 4"
  using quartetsD(1) [of s q] by (auto simp: valid_def)

lemma valid_cases:
  assumes "quartets s" "valid s p"
  obtains q i where "p = (q, int i)" "q < length s" "i < 4"
  using assms by (cases p) (auto simp: valid_quartets dest!: zero_le_imp_eq_int)

lemma turn_simps [simp]:
  "turn (q, 0) = (q, 1)" "turn (q, 1) = (q, 2)" "turn (q, 2) = (q, 3)" "turn (q, 3) = (q, 0)"
  by (simp_all add: turn_def)

lemma valid_turn: "quartets s \<Longrightarrow> valid s p \<Longrightarrow> valid s (turn p)"
  by (cases p) (auto simp: valid_quartets turn_def)

lemma quartets_oNext:
  assumes "quartets s" "valid s p"
  shows "QuadEdge_oNext s p = Some (oNext s p)" "valid s (oNext s p)"
proof -
  from assms obtain q i where p: "p = (q, int i)" "q < length s" "i < 4" by (rule valid_cases)
  obtain n where "next_edge (s ! q ! i) = Some n" "valid s n"
    using quartetsD(3,4) [OF assms(1) p(2,3)] by (cases "next_edge (s ! q ! i)") simp_all
  then show "QuadEdge_oNext s p = Some (oNext s p)" "valid s (oNext s p)"
    using assms(2) p(1) by (simp_all add: QuadEdge_oNext_def deref_def refer_def oNext_def)
qed

lemma quartets_num:
  assumes "quartets s" "valid s p"
  shows "num (s ! fst p ! nat (snd p)) = snd p"
proof -
  from assms obtain q i where p: "p = (q, int i)" "q < length s" "i < 4" by (rule valid_cases)
  with quartetsD(2) [OF assms(1) p(2,3)] show ?thesis by simp
qed

text \<open>On such stores the pointer arithmetic stays in the array: a quarter turn, its inverse and
  the half turn.\<close>

lemma quartets_rot:
  assumes "quartets s" "valid s p"
  shows "QuadEdge_rot s p = Some (turn p)" "QuadEdge_sym s p = Some (turn (turn p))"
    "QuadEdge_invRot s p = Some (turn (turn (turn p)))"
proof -
  obtain q i where p: "p = (q, i)" "q < length s" "0 \<le> i" "i < 4"
    using assms by (cases p) (simp add: valid_quartets)
  have n: "deref s p = Some (s ! q ! nat i)" "num (s ! q ! nat i) = i"
    using quartets_num [OF assms] assms(2) p(1) by (simp_all add: deref_def)
  have v: "valid s (q, j) \<longleftrightarrow> 0 \<le> j \<and> j < 4" for j
    using assms(1) p(2) by (simp add: valid_quartets)
  have i: "i = 0 \<or> i = 1 \<or> i = 2 \<or> i = 3" using p by linarith
  show "QuadEdge_rot s p = Some (turn p)" "QuadEdge_sym s p = Some (turn (turn p))"
    "QuadEdge_invRot s p = Some (turn (turn (turn p)))"
    using i p(1) n by (elim disjE; simp add: QuadEdge_rot_def QuadEdge_sym_def QuadEdge_invRot_def
        refer_def ptr_add_def v)+
qed

lemma turn4: "quartets s \<Longrightarrow> valid s p \<Longrightarrow> turn (turn (turn (turn p))) = p"
proof (cases p)
  case (Pair q i)
  assume "quartets s" "valid s p"
  with Pair have "i = 0 \<or> i = 1 \<or> i = 2 \<or> i = 3" by (auto simp: valid_quartets)
  with Pair show ?thesis by auto
qed

lemma edge_store_quartets: "edge_store s \<Longrightarrow> quartets s"
  by (simp add: edge_store_def)

lemma edge_store_law:
  assumes "edge_store s" "valid s p"
  shows "oNext s (turn (oNext s (turn p))) = p"
proof -
  from assms obtain q i where "p = (q, int i)" "q < length s" "i < 4"
    by (blast elim: valid_cases dest: edge_store_quartets)
  with assms(1) show ?thesis by (simp add: edge_store_def)
qed

interpretation quad: edge_algebra "\<lambda>p. edge_store s \<and> valid s p" turn "oNext s"
  by unfold_locales (use edge_store_quartets edge_store_law valid_turn quartets_oNext(2) turn4 in blast)+

lemmas quad_edge_defs = QuadEdge_oPrev_def QuadEdge_dNext_def QuadEdge_dPrev_def QuadEdge_lNext_def
  QuadEdge_lPrev_def QuadEdge_rNext_def QuadEdge_rPrev_def

lemma quad_edge_functions:
  assumes "edge_store s" "valid s e"
  shows "QuadEdge_oNext s e = Some (oNext s e)"
    "QuadEdge_oPrev s e = Some (turn (oNext s (turn e)))"
    "QuadEdge_dNext s e = Some (turn (turn (oNext s (turn (turn e)))))"
    "QuadEdge_dPrev s e = Some (turn (turn (turn (oNext s (turn (turn (turn e)))))))"
    "QuadEdge_lNext s e = Some (turn (oNext s (turn (turn (turn e)))))"
    "QuadEdge_lPrev s e = Some (turn (turn (oNext s e)))"
    "QuadEdge_rNext s e = Some (turn (turn (turn (oNext s (turn e)))))"
    "QuadEdge_rPrev s e = Some (oNext s (turn (turn e)))"
  using assms edge_store_quartets [OF assms(1)]
  by (simp_all add: quad_edge_defs quartets_oNext quartets_rot valid_turn)

text \<open>Making an edge adds one quartet, with the vertices at both ends of its base edge.\<close>

definition edge_quartet :: "'v \<Rightarrow> 'v \<Rightarrow> 'v \<Rightarrow> nat \<Rightarrow> 'v quartet" where
  "edge_quartet v a d q =
     [\<lparr>vertex = a, next_edge = Some (q, 0), num = 0, isAlive = True, visited = False\<rparr>,
      \<lparr>vertex = v, next_edge = Some (q, 3), num = 1, isAlive = True, visited = False\<rparr>,
      \<lparr>vertex = d, next_edge = Some (q, 2), num = 2, isAlive = True, visited = False\<rparr>,
      \<lparr>vertex = v, next_edge = Some (q, 1), num = 3, isAlive = True, visited = False\<rparr>]"

lemma makeEdge_eq:
  "QuadEdgeQuartet_makeEdge v a d s = Some (s @ [edge_quartet v a d (length s)], (length s, 0))"
  by (simp add: QuadEdgeQuartet_makeEdge_def QuadEdgeQuartet_base_def QuadEdgeQuartet_new_def QuadEdge_new_def
      QuadEdge_setOrig_def QuadEdge_setDest_def QuadEdge_sym_def store_at_def deref_def refer_def valid_def
      ptr_add_def edge_quartet_def numeral_2_eq_2 Let_def)

lemma valid_append: "valid s p \<Longrightarrow> valid (s @ t) p"
  by (auto simp: valid_def nth_append)

lemma less_4_cases: "i < 4 \<longleftrightarrow> i = 0 \<or> i = 1 \<or> i = 2 \<or> i = (3 :: nat)"
  by auto

lemma quartets_makeEdge:
  assumes "quartets s"
  shows "quartets (s @ [edge_quartet v a d (length s)])"
  unfolding quartets_def
proof (intro allI impI)
  fix q assume "q < length (s @ [edge_quartet v a d (length s)])"
  then consider "q < length s" | "q = length s" by fastforce
  then show "length ((s @ [edge_quartet v a d (length s)]) ! q) = 4 \<and>
    (\<forall>i<4. num ((s @ [edge_quartet v a d (length s)]) ! q ! i) = int i \<and>
       next_edge ((s @ [edge_quartet v a d (length s)]) ! q ! i) \<noteq> None \<and>
       valid (s @ [edge_quartet v a d (length s)]) (the (next_edge ((s @ [edge_quartet v a d (length s)]) ! q ! i))))"
  proof cases
    case 1
    then show ?thesis
      using quartetsD [OF assms 1] by (auto simp: nth_append intro: valid_append)
  next
    case 2
    then show ?thesis
      by (auto simp: edge_quartet_def less_4_cases valid_def numeral_3_eq_3 numeral_2_eq_2)
  qed
qed

lemma oNext_append: "fst p < length s \<Longrightarrow> oNext (s @ t) p = oNext s p"
  by (simp add: oNext_def nth_append)

lemma oNext_new:
  "oNext (s @ [edge_quartet v a d (length s)]) (length s, 0) = (length s, 0)"
  "oNext (s @ [edge_quartet v a d (length s)]) (length s, 1) = (length s, 3)"
  "oNext (s @ [edge_quartet v a d (length s)]) (length s, 2) = (length s, 2)"
  "oNext (s @ [edge_quartet v a d (length s)]) (length s, 3) = (length s, 1)"
  by (simp_all add: oNext_def edge_quartet_def numeral_2_eq_2 numeral_3_eq_3)

lemma edge_store_makeEdge:
  assumes "edge_store s"
  shows "edge_store (s @ [edge_quartet v a d (length s)])"
proof -
  let ?s = "s @ [edge_quartet v a d (length s)]"
  have "oNext ?s (turn (oNext ?s (turn (q, int i)))) = (q, int i)" if q: "q < length ?s" and i: "i < 4" for q i
  proof (cases "q < length s")
    case True
    note Q = edge_store_quartets [OF assms]
    have 1: "valid s (q, int i)" using True i by (simp add: valid_quartets [OF Q])
    have 2: "valid s (turn (q, int i))" by (rule valid_turn [OF Q 1])
    have 3: "valid s (turn (oNext s (turn (q, int i))))"
      by (rule valid_turn [OF Q quartets_oNext(2) [OF Q 2]])
    from 2 3 have "fst (turn (q, int i)) < length s" "fst (turn (oNext s (turn (q, int i)))) < length s"
      by (simp_all add: valid_def)
    then show ?thesis using edge_store_law [OF assms 1] by (simp add: oNext_append)
  next
    case False
    with q have "q = length s" by simp
    with i show ?thesis using oNext_new [of s v a d] by (auto simp: less_4_cases)
  qed
  then show ?thesis
    using quartets_makeEdge [OF edge_store_quartets [OF assms]] by (simp add: edge_store_def)
qed

lemma edge_store_empty: "edge_store []"
  by (simp add: edge_store_def quartets_def)

text \<open>Marking and labelling the edges keeps the structure.\<close>

definition same_structure :: "'v quad_edge \<Rightarrow> 'v quad_edge \<Rightarrow> bool" where
  "same_structure e e' \<longleftrightarrow> num e = num e' \<and> next_edge e = next_edge e'"

lemma edge_store_same:
  assumes "edge_store s" "list_all2 (list_all2 same_structure) s s'"
  shows "edge_store s'"
proof -
  have len: "length s' = length s" using assms(2) by (simp add: list_all2_lengthD)
  have q: "list_all2 same_structure (s ! q) (s' ! q)" if "q < length s" for q
    using assms(2) that by (simp add: list_all2_nthD)
  have lq: "length (s' ! q) = length (s ! q)" if "q < length s" for q
    using q [OF that] by (simp add: list_all2_lengthD)
  have v: "valid s' p = valid s p" for p using len lq by (auto simp: valid_def)
  have f: "num (s' ! q ! i) = num (s ! q ! i)" "next_edge (s' ! q ! i) = next_edge (s ! q ! i)"
    if "q < length s" "i < length (s ! q)" for q i
    using list_all2_nthD [OF q [OF that(1)] that(2)] by (simp_all add: same_structure_def)
  note Q = edge_store_quartets [OF assms(1)]
  have "quartets s'"
    unfolding quartets_def len using quartetsD [OF Q] f lq v by simp
  moreover have "oNext s' p = oNext s p" if "valid s p" for p
    using that f [of "fst p" "nat (snd p)"] by (simp add: oNext_def valid_def nat_less_iff)
  then have "oNext s' (turn (oNext s' (turn p))) = p" if "valid s p" for p
    using that edge_store_law [OF assms(1) that] valid_turn [OF Q] quartets_oNext(2) [OF Q] by simp
  ultimately show ?thesis
    using valid_quartets [OF Q] by (simp add: edge_store_def len)
qed

lemma store_at_same:
  assumes "store_at s p f = Some s'" "\<And>e. same_structure e (f e)"
  shows "list_all2 (list_all2 same_structure) s s'"
proof -
  let ?row = "s ! fst p"
  have id: "list_all2 P xs xs" if "\<And>x. P x x" for P and xs :: "'b list"
    using that by (simp add: list_all2_conv_all_nth)
  have refl: "same_structure e e" for e :: "'a quad_edge"
    by (simp add: same_structure_def)
  have "list_all2 same_structure (?row[nat (snd p) := ?row ! nat (snd p)]) (?row[nat (snd p) := f (?row ! nat (snd p))])"
    by (rule list_all2_update_cong) (simp_all add: assms(2) id refl)
  then have "list_all2 (list_all2 same_structure) (s[fst p := ?row]) (s[fst p := ?row[nat (snd p) := f (?row ! nat (snd p))]])"
    by (intro list_all2_update_cong) (simp_all add: id refl)
  then show ?thesis using assms(1) by (simp add: store_at_def split: if_splits)
qed

lemma edge_store_updates:
  assumes "edge_store s"
  shows "QuadEdge_setVisited s p b = Some s' \<Longrightarrow> edge_store s'"
    "QuadEdge_setOrig s p x = Some s' \<Longrightarrow> edge_store s'"
    "QuadEdge_setDest s p x = Some s' \<Longrightarrow> edge_store s'"
  unfolding QuadEdge_setVisited_def QuadEdge_setDest_def QuadEdge_setOrig_def
  by (auto simp: same_structure_def split: bind_splits intro!: edge_store_same [OF assms] elim!: store_at_same)

end
