(* ===== verification/Leveldb_Slice.thy ===== *)
theory Leveldb_Slice
  imports Prelude "HOL-Library.List_Lexorder" "HOL-Library.Sublist"
begin

text \<open>
  Slices of bytes: \<^verbatim>\<open>src/includes/leveldb/slice.h\<close>. A slice points into a buffer it does not own:
  the model has the bytes of the buffer from the pointer on, and the size. Reading past the buffer
  and a failing assertion are \<open>None\<close>. \<^verbatim>\<open>memcmp\<close> compares bytes as unsigned numbers; only the sign of
  its result is specified, and the theorems only speak of the sign. The view of a slice is the
  string of its bytes (\<open>slice_view\<close>), and every operation is a function of the views.
\<close>

type_synonym byte = "8 word"

record slice =
  sdata :: "byte list"
  ssize :: nat

definition Slice_empty_new :: slice where
  "Slice_empty_new = \<lparr>sdata = [0], ssize = 0\<rparr>"

definition Slice_new :: "byte list \<Rightarrow> nat \<Rightarrow> slice" where
  "Slice_new d n = \<lparr>sdata = d, ssize = n\<rparr>"

definition Slice_of_string :: "byte list \<Rightarrow> slice" where
  "Slice_of_string s = \<lparr>sdata = s @ [0], ssize = length s\<rparr>"

fun strlen :: "byte list \<Rightarrow> nat option" where
  "strlen [] = None"
| "strlen (b # bs) = (if b = 0 then Some 0 else map_option Suc (strlen bs))"

definition Slice_of_cstring :: "byte list \<Rightarrow> slice option" where
  "Slice_of_cstring s = map_option (\<lambda>n. \<lparr>sdata = s, ssize = n\<rparr>) (strlen s)"

definition Slice_data :: "slice \<Rightarrow> byte list" where
  "Slice_data x = sdata x"

definition Slice_size :: "slice \<Rightarrow> nat" where
  "Slice_size x = ssize x"

definition Slice_empty :: "slice \<Rightarrow> bool" where
  "Slice_empty x = (ssize x = 0)"

definition Slice_index :: "slice \<Rightarrow> nat \<Rightarrow> byte option" where
  "Slice_index x n = (if n < Slice_size x \<and> n < length (sdata x) then Some (sdata x ! n) else None)"

definition Slice_clear :: "slice \<Rightarrow> slice" where
  "Slice_clear x = x\<lparr>sdata := [0], ssize := 0\<rparr>"

definition Slice_remove_prefix :: "slice \<Rightarrow> nat \<Rightarrow> slice option" where
  "Slice_remove_prefix x n =
     (if n \<le> Slice_size x then Some (x\<lparr>sdata := drop n (sdata x), ssize := ssize x - n\<rparr>) else None)"

definition Slice_ToString :: "slice \<Rightarrow> byte list option" where
  "Slice_ToString x = (if ssize x \<le> length (sdata x) then Some (take (ssize x) (sdata x)) else None)"

fun memcmp :: "byte list \<Rightarrow> byte list \<Rightarrow> nat \<Rightarrow> int option" where
  "memcmp xs ys 0 = Some 0"
| "memcmp (x # xs) (y # ys) (Suc n) = (if x < y then Some (- 1) else if y < x then Some 1 else memcmp xs ys n)"
| "memcmp _ _ (Suc n) = None"

definition Slice_starts_with :: "slice \<Rightarrow> slice \<Rightarrow> bool option" where
  "Slice_starts_with this x =
     (if ssize this \<ge> ssize x then map_option (\<lambda>r. r = 0) (memcmp (sdata this) (sdata x) (ssize x))
      else Some False)"

definition Slice_eq :: "slice \<Rightarrow> slice \<Rightarrow> bool option" where
  "Slice_eq x y =
     (if Slice_size x = Slice_size y
      then map_option (\<lambda>r. r = 0) (memcmp (Slice_data x) (Slice_data y) (Slice_size x))
      else Some False)"

definition Slice_ne :: "slice \<Rightarrow> slice \<Rightarrow> bool option" where
  "Slice_ne x y = map_option Not (Slice_eq x y)"

definition Slice_compare :: "slice \<Rightarrow> slice \<Rightarrow> int option" where
  "Slice_compare this b = do {
     let min_len = (if ssize this < ssize b then ssize this else ssize b);
     r \<leftarrow> memcmp (sdata this) (sdata b) min_len;
     Some (if r = 0
           then (if ssize this < ssize b then - 1 else if ssize this > ssize b then 1 else r)
           else r)
   }"

section \<open>Views\<close>

definition wf_slice :: "slice \<Rightarrow> bool" where
  "wf_slice x \<longleftrightarrow> ssize x \<le> length (sdata x)"

definition slice_view :: "slice \<Rightarrow> byte list" where
  "slice_view x = take (ssize x) (sdata x)"

lemma length_view: "wf_slice x \<Longrightarrow> length (slice_view x) = ssize x"
  by (simp add: wf_slice_def slice_view_def)

lemma wf_slice_new [simp]:
  "wf_slice Slice_empty_new" "wf_slice (Slice_of_string s)" "wf_slice (Slice_clear x)"
  by (simp_all add: wf_slice_def Slice_empty_new_def Slice_of_string_def Slice_clear_def)

lemma strlen_Some: "strlen s = Some n \<Longrightarrow> n < length s \<and> 0 \<notin> set (take n s) \<and> s ! n = 0"
  by (induction s arbitrary: n) (auto split: if_splits)

lemma cstring_view: "0 \<notin> set cs \<Longrightarrow> \<exists>x. Slice_of_cstring (cs @ 0 # rest) = Some x \<and> wf_slice x \<and> slice_view x = cs"
proof -
  assume "0 \<notin> set cs"
  then have "strlen (cs @ 0 # rest) = Some (length cs)" by (induction cs) auto
  then show ?thesis by (simp add: Slice_of_cstring_def wf_slice_def slice_view_def)
qed

lemma memcmp_eq_0: "n \<le> length xs \<Longrightarrow> n \<le> length ys \<Longrightarrow> memcmp xs ys n = Some 0 \<longleftrightarrow> take n xs = take n ys"
  by (induction xs ys n rule: memcmp.induct) auto

lemma memcmp_defined: "n \<le> length xs \<Longrightarrow> n \<le> length ys \<Longrightarrow> \<exists>r. memcmp xs ys n = Some r"
  by (induction xs ys n rule: memcmp.induct) auto

lemma memcmp_less:
  "n \<le> length xs \<Longrightarrow> n \<le> length ys \<Longrightarrow> memcmp xs ys n = Some r \<Longrightarrow>
     (r < 0 \<longleftrightarrow> take n xs < take n ys) \<and> (r > 0 \<longleftrightarrow> take n ys < take n xs)"
  by (induction xs ys n rule: memcmp.induct) (auto split: if_splits)

text \<open>The order of strings is decided by the common length, then by the lengths.\<close>

lemma list_less_take:
  fixes xs ys :: "'a :: linorder list"
  assumes "n = min (length xs) (length ys)"
  shows "xs < ys \<longleftrightarrow> take n xs < take n ys \<or> take n xs = take n ys \<and> length xs < length ys"
  using assms
proof (induction xs arbitrary: ys n)
  case Nil
  then show ?case by (cases ys) simp_all
next
  case (Cons x xs)
  then show ?case by (cases ys) auto
qed

text \<open>Comparison refines the lexicographic order of the views.\<close>

lemma compare_view:
  assumes "wf_slice a" "wf_slice b"
  shows "\<exists>r. Slice_compare a b = Some r \<and> (r < 0 \<longleftrightarrow> slice_view a < slice_view b) \<and>
     (r = 0 \<longleftrightarrow> slice_view a = slice_view b) \<and> (r > 0 \<longleftrightarrow> slice_view b < slice_view a)"
proof -
  let ?n = "min (ssize a) (ssize b)"
  have le: "?n \<le> length (sdata a)" "?n \<le> length (sdata b)"
    using assms by (auto simp: wf_slice_def)
  obtain r where r: "memcmp (sdata a) (sdata b) ?n = Some r" using memcmp_defined [OF le] by blast
  note s = memcmp_less [OF le r] memcmp_eq_0 [OF le, unfolded r option.inject]
  have t: "take ?n (slice_view a) = take ?n (sdata a)" "take ?n (slice_view b) = take ?n (sdata b)"
    by (simp_all add: slice_view_def min_def)
  note l = length_view [OF assms(1)] length_view [OF assms(2)]
  have lt: "slice_view a < slice_view b \<longleftrightarrow> r < 0 \<or> r = 0 \<and> ssize a < ssize b"
    using list_less_take [of ?n "slice_view a" "slice_view b"] s by (simp add: l t)
  have gt: "slice_view b < slice_view a \<longleftrightarrow> r > 0 \<or> r = 0 \<and> ssize b < ssize a"
    using list_less_take [of ?n "slice_view b" "slice_view a"] s by (auto simp: l t min.commute)
  define c where "c = (if r = 0 then (if ssize a < ssize b then - 1 else if ssize a > ssize b then 1 else r) else r)"
  have "Slice_compare a b = Some c"
  proof -
    have "?n = (if ssize a < ssize b then ssize a else ssize b)" by simp
    with r show ?thesis by (simp only: Slice_compare_def c_def Let_def bind.bind_lunit)
  qed
  moreover have "c < 0 \<longleftrightarrow> slice_view a < slice_view b" "c > 0 \<longleftrightarrow> slice_view b < slice_view a"
    unfolding lt gt c_def by auto
  moreover from this have "c = 0 \<longleftrightarrow> slice_view a = slice_view b"
    by (metis less_irrefl linorder_less_linear)
  ultimately show ?thesis by blast
qed

lemma eq_view:
  assumes "wf_slice a" "wf_slice b"
  shows "Slice_eq a b = Some (slice_view a = slice_view b)"
proof (cases "ssize a = ssize b")
  case True
  have le: "ssize b \<le> length (sdata a)" "ssize b \<le> length (sdata b)" using assms True by (simp_all add: wf_slice_def)
  obtain r where "memcmp (sdata a) (sdata b) (ssize b) = Some r" using memcmp_defined [OF le] by blast
  with memcmp_eq_0 [OF le] True show ?thesis
    by (simp add: Slice_eq_def Slice_size_def Slice_data_def slice_view_def)
next
  case False
  then have "slice_view a \<noteq> slice_view b" using length_view [OF assms(1)] length_view [OF assms(2)] by metis
  with False show ?thesis by (simp add: Slice_eq_def Slice_size_def)
qed

lemma starts_with_view:
  assumes "wf_slice a" "wf_slice b"
  shows "Slice_starts_with a b = Some (prefix (slice_view b) (slice_view a))"
proof (cases "ssize b \<le> ssize a")
  case True
  have le: "ssize b \<le> length (sdata a)" "ssize b \<le> length (sdata b)" using assms True by (simp_all add: wf_slice_def)
  obtain r where "memcmp (sdata a) (sdata b) (ssize b) = Some r" using memcmp_defined [OF le] by blast
  with memcmp_eq_0 [OF le] have "Slice_starts_with a b = Some (take (ssize b) (sdata a) = slice_view b)"
    using True by (simp add: Slice_starts_with_def slice_view_def)
  moreover have "take (ssize b) (slice_view a) = take (ssize b) (sdata a)"
    using True by (simp add: slice_view_def min_def)
  moreover have "prefix (slice_view b) (slice_view a) \<longleftrightarrow> take (ssize b) (slice_view a) = slice_view b"
    unfolding length_view [OF assms(2), symmetric] prefix_def
    by (metis append_take_drop_id append_eq_conv_conj)
  ultimately show ?thesis by simp
next
  case False
  then have "\<not> prefix (slice_view b) (slice_view a)"
    using length_view [OF assms(1)] length_view [OF assms(2)] prefix_length_le by fastforce
  with False show ?thesis by (simp add: Slice_starts_with_def)
qed

lemma remove_prefix_view:
  assumes "wf_slice x"
  shows "n \<le> ssize x \<Longrightarrow> \<exists>y. Slice_remove_prefix x n = Some y \<and> wf_slice y \<and> slice_view y = drop n (slice_view x)"
    and "n > ssize x \<Longrightarrow> Slice_remove_prefix x n = None"
  using assms by (auto simp: Slice_remove_prefix_def Slice_size_def wf_slice_def slice_view_def drop_take)

end
