(* ===== verification/Leveldb_Status.thy ===== *)
theory Leveldb_Status
  imports Leveldb_Slice
begin

text \<open>
  The result of an operation: \<^verbatim>\<open>src/includes/leveldb/status.h\<close>. A status is a pointer \<^verbatim>\<open>state_\<close>,
  null for success, to an array of its own on the heap. The world has the arrays and the status
  variables; releasing or reading an address that is not allocated is \<open>None\<close>. The constructor
  \<^verbatim>\<open>Status(Code, msg, msg2)\<close> and \<^verbatim>\<open>CopyState\<close> are only declared in the header and are compiled
  elsewhere: they are the parameters \<open>error_new\<close> and \<open>copy_state\<close> of the members that call them, and
  what the header says of \<^verbatim>\<open>state_\<close>, an array from \<^verbatim>\<open>new[]\<close> with the code in byte 4, is the hypotheses
  \<open>constructs_errors\<close> and \<open>copies_states\<close> about them. The special members are the code's; \<open>owned\<close> is
  the invariant that makes them safe: every array has exactly one status.
\<close>

datatype code = kOk | kNotFound | kCorruption | kNotSupported | kInvalidArgument | kIOError

definition code_byte :: "code \<Rightarrow> byte" where
  "code_byte c = (case c of kOk \<Rightarrow> 0 | kNotFound \<Rightarrow> 1 | kCorruption \<Rightarrow> 2 | kNotSupported \<Rightarrow> 3 |
     kInvalidArgument \<Rightarrow> 4 | kIOError \<Rightarrow> 5)"

text \<open>\<^verbatim>\<open>static_cast<Code>\<close> of another byte is not a code.\<close>

definition byte_code :: "byte \<Rightarrow> code option" where
  "byte_code b = (if b = 0 then Some kOk else if b = 1 then Some kNotFound else if b = 2 then Some kCorruption
     else if b = 3 then Some kNotSupported else if b = 4 then Some kInvalidArgument
     else if b = 5 then Some kIOError else None)"

lemma byte_code_byte [simp]: "byte_code (code_byte c) = Some c"
  by (cases c) (simp_all add: code_byte_def byte_code_def)

type_synonym addr = nat

record world =
  arrays :: "addr \<rightharpoonup> byte list"
  statuses :: "nat \<rightharpoonup> addr option"

type_synonym error_constructor = "world \<Rightarrow> nat \<Rightarrow> code \<Rightarrow> slice \<Rightarrow> slice \<Rightarrow> world option"
type_synonym copier = "world \<Rightarrow> addr \<Rightarrow> (world \<times> addr) option"

definition delete_array :: "world \<Rightarrow> addr option \<Rightarrow> world option" where
  "delete_array w p = (case p of None \<Rightarrow> Some w
     | Some a \<Rightarrow> if arrays w a = None then None else Some (w\<lparr>arrays := (arrays w)(a := None)\<rparr>))"

section \<open>Special members\<close>

definition Status_new :: "world \<Rightarrow> nat \<Rightarrow> world option" where
  "Status_new w x = (if statuses w x = None then Some (w\<lparr>statuses := (statuses w)(x \<mapsto> None)\<rparr>) else None)"

definition Status_destroy :: "world \<Rightarrow> nat \<Rightarrow> world option" where
  "Status_destroy w x = do {
     p \<leftarrow> statuses w x;
     w \<leftarrow> delete_array w p;
     Some (w\<lparr>statuses := (statuses w)(x := None)\<rparr>)
   }"

text \<open>\<^verbatim>\<open>(rhs.state_ == nullptr) ? nullptr : CopyState(rhs.state_)\<close>.\<close>

definition copy_of :: "copier \<Rightarrow> world \<Rightarrow> addr option \<Rightarrow> (world \<times> addr option) option" where
  "copy_of copy_state w p = (case p of None \<Rightarrow> Some (w, None)
     | Some a \<Rightarrow> map_option (\<lambda>(w, b). (w, Some b)) (copy_state w a))"

definition Status_copy_new :: "copier \<Rightarrow> world \<Rightarrow> nat \<Rightarrow> nat \<Rightarrow> world option" where
  "Status_copy_new copy_state w x rhs = do {
     p \<leftarrow> statuses w rhs;
     (w, q) \<leftarrow> copy_of copy_state w p;
     if statuses w x = None then Some (w\<lparr>statuses := (statuses w)(x \<mapsto> q)\<rparr>) else None
   }"

definition Status_move_new :: "world \<Rightarrow> nat \<Rightarrow> nat \<Rightarrow> world option" where
  "Status_move_new w x rhs = do {
     p \<leftarrow> statuses w rhs;
     if statuses w x = None then Some (w\<lparr>statuses := (statuses w)(x \<mapsto> p, rhs \<mapsto> None)\<rparr>) else None
   }"

definition Status_assign :: "copier \<Rightarrow> world \<Rightarrow> nat \<Rightarrow> nat \<Rightarrow> world option" where
  "Status_assign copy_state w this rhs = do {
     state \<leftarrow> statuses w this;
     rhs_state \<leftarrow> statuses w rhs;
     if state \<noteq> rhs_state then do {
       w \<leftarrow> delete_array w state;
       (w, q) \<leftarrow> copy_of copy_state w rhs_state;
       Some (w\<lparr>statuses := (statuses w)(this \<mapsto> q)\<rparr>)
     } else Some w
   }"

definition Status_move_assign :: "world \<Rightarrow> nat \<Rightarrow> nat \<Rightarrow> world option" where
  "Status_move_assign w this rhs = do {
     p \<leftarrow> statuses w this;
     q \<leftarrow> statuses w rhs;
     Some (w\<lparr>statuses := (statuses w)(this \<mapsto> q, rhs \<mapsto> p)\<rparr>)
   }"

section \<open>Reading\<close>

definition Status_ok :: "world \<Rightarrow> nat \<Rightarrow> bool option" where
  "Status_ok w x = map_option (\<lambda>p. p = None) (statuses w x)"

definition Status_code :: "world \<Rightarrow> nat \<Rightarrow> code option" where
  "Status_code w x = do {
     p \<leftarrow> statuses w x;
     case p of None \<Rightarrow> Some kOk
     | Some a \<Rightarrow> do {
         bs \<leftarrow> arrays w a;
         if 4 < length bs then byte_code (bs ! 4) else None
       }
   }"

definition Status_OK :: "world \<Rightarrow> nat \<Rightarrow> world option" where
  "Status_OK w x = Status_new w x"

definition Status_NotFound :: "error_constructor \<Rightarrow> world \<Rightarrow> nat \<Rightarrow> slice \<Rightarrow> slice \<Rightarrow> world option" where
  "Status_NotFound error_new w x msg msg2 = error_new w x kNotFound msg msg2"

definition Status_Corruption :: "error_constructor \<Rightarrow> world \<Rightarrow> nat \<Rightarrow> slice \<Rightarrow> slice \<Rightarrow> world option" where
  "Status_Corruption error_new w x msg msg2 = error_new w x kCorruption msg msg2"

definition Status_NotSupported :: "error_constructor \<Rightarrow> world \<Rightarrow> nat \<Rightarrow> slice \<Rightarrow> slice \<Rightarrow> world option" where
  "Status_NotSupported error_new w x msg msg2 = error_new w x kNotSupported msg msg2"

definition Status_InvalidArgument :: "error_constructor \<Rightarrow> world \<Rightarrow> nat \<Rightarrow> slice \<Rightarrow> slice \<Rightarrow> world option" where
  "Status_InvalidArgument error_new w x msg msg2 = error_new w x kInvalidArgument msg msg2"

definition Status_IOError :: "error_constructor \<Rightarrow> world \<Rightarrow> nat \<Rightarrow> slice \<Rightarrow> slice \<Rightarrow> world option" where
  "Status_IOError error_new w x msg msg2 = error_new w x kIOError msg msg2"

definition Status_IsNotFound :: "world \<Rightarrow> nat \<Rightarrow> bool option" where
  "Status_IsNotFound w x = map_option (\<lambda>c. c = kNotFound) (Status_code w x)"

definition Status_IsCorruption :: "world \<Rightarrow> nat \<Rightarrow> bool option" where
  "Status_IsCorruption w x = map_option (\<lambda>c. c = kCorruption) (Status_code w x)"

definition Status_IsIOError :: "world \<Rightarrow> nat \<Rightarrow> bool option" where
  "Status_IsIOError w x = map_option (\<lambda>c. c = kIOError) (Status_code w x)"

definition Status_IsNotSupportedError :: "world \<Rightarrow> nat \<Rightarrow> bool option" where
  "Status_IsNotSupportedError w x = map_option (\<lambda>c. c = kNotSupported) (Status_code w x)"

definition Status_IsInvalidArgument :: "world \<Rightarrow> nat \<Rightarrow> bool option" where
  "Status_IsInvalidArgument w x = map_option (\<lambda>c. c = kInvalidArgument) (Status_code w x)"

section \<open>Ownership\<close>

definition owners :: "(nat \<rightharpoonup> addr option) \<Rightarrow> addr \<Rightarrow> nat set" where
  "owners st a = {x. st x = Some (Some a)}"

definition owned :: "world \<Rightarrow> bool" where
  "owned w \<longleftrightarrow> finite (dom (arrays w)) \<and>
     (\<forall>a. if arrays w a = None then owners (statuses w) a = {} else \<exists>x. owners (statuses w) a = {x})"

text \<open>
  The contracts of the code compiled elsewhere. \<open>new_array w w' a bs\<close>: the only change is an array at an address that was
  not in use, as \<^verbatim>\<open>new[]\<close> returns it; \<^verbatim>\<open>CopyState\<close> is only called on an allocated array. A heap with finitely many arrays
  always has room.
\<close>

definition new_array :: "world \<Rightarrow> world \<Rightarrow> addr \<Rightarrow> byte list \<Rightarrow> bool" where
  "new_array w w' a bs \<longleftrightarrow> arrays w a = None \<and> w' = w\<lparr>arrays := (arrays w)(a \<mapsto> bs)\<rparr>"

definition copies_states :: "copier \<Rightarrow> bool" where
  "copies_states copy_state \<longleftrightarrow> (\<forall>w a bs. finite (dom (arrays w)) \<and> arrays w a = Some bs \<longrightarrow>
     (\<exists>w' b. copy_state w a = Some (w', b) \<and> new_array w w' b bs))"

definition constructs_errors :: "error_constructor \<Rightarrow> bool" where
  "constructs_errors error_new \<longleftrightarrow> (\<forall>w x c msg msg2. finite (dom (arrays w)) \<and> statuses w x = None \<longrightarrow>
     (\<exists>w' a bs. error_new w x c msg msg2 = Some (w'\<lparr>statuses := (statuses w')(x \<mapsto> Some a)\<rparr>) \<and> new_array w w' a bs \<and>
        4 < length bs \<and> bs ! 4 = code_byte c))"

text \<open>A new status takes a name that is not in use.\<close>

inductive status_step :: "error_constructor \<Rightarrow> copier \<Rightarrow> world \<Rightarrow> world \<Rightarrow> bool" for error_new copy_state where
  step_OK: "Status_OK w x = Some w' \<Longrightarrow> status_step error_new copy_state w w'"
| step_NotFound: "statuses w x = None \<Longrightarrow> Status_NotFound error_new w x msg msg2 = Some w' \<Longrightarrow> status_step error_new copy_state w w'"
| step_Corruption: "statuses w x = None \<Longrightarrow> Status_Corruption error_new w x msg msg2 = Some w' \<Longrightarrow> status_step error_new copy_state w w'"
| step_NotSupported: "statuses w x = None \<Longrightarrow> Status_NotSupported error_new w x msg msg2 = Some w' \<Longrightarrow> status_step error_new copy_state w w'"
| step_InvalidArgument: "statuses w x = None \<Longrightarrow> Status_InvalidArgument error_new w x msg msg2 = Some w' \<Longrightarrow> status_step error_new copy_state w w'"
| step_IOError: "statuses w x = None \<Longrightarrow> Status_IOError error_new w x msg msg2 = Some w' \<Longrightarrow> status_step error_new copy_state w w'"
| step_copy: "statuses w x = None \<Longrightarrow> Status_copy_new copy_state w x rhs = Some w' \<Longrightarrow> status_step error_new copy_state w w'"
| step_move: "Status_move_new w x rhs = Some w' \<Longrightarrow> status_step error_new copy_state w w'"
| step_assign: "Status_assign copy_state w this rhs = Some w' \<Longrightarrow> status_step error_new copy_state w w'"
| step_move_assign: "Status_move_assign w this rhs = Some w' \<Longrightarrow> status_step error_new copy_state w w'"
| step_destroy: "Status_destroy w x = Some w' \<Longrightarrow> status_step error_new copy_state w w'"

definition no_statuses :: world where
  "no_statuses = \<lparr>arrays = Map.empty, statuses = Map.empty\<rparr>"

lemma owners_upd [simp]:
  "owners (st(x := v)) a = (if v = Some (Some a) then insert x (owners st a) else owners st a - {x})"
  by (auto simp: owners_def)

lemma owners_iff: "x \<in> owners st a \<longleftrightarrow> st x = Some (Some a)"
  by (simp add: owners_def)

lemma owners_other: "st x \<noteq> Some (Some a) \<Longrightarrow> owners st a - {x} = owners st a"
  by (auto simp: owners_def)

lemma ownedD:
  assumes "owned w"
  shows "arrays w a = None \<Longrightarrow> owners (statuses w) a = {}"
    and "arrays w a = Some bs \<Longrightarrow> \<exists>x. owners (statuses w) a = {x}"
    and "statuses w x = Some (Some a) \<Longrightarrow> owners (statuses w) a = {x} \<and> (\<exists>bs. arrays w a = Some bs)"
    and "finite (dom (arrays w))"
proof -
  show "finite (dom (arrays w))" using assms by (simp add: owned_def)
  have a: "if arrays w a = None then owners (statuses w) a = {} else \<exists>x. owners (statuses w) a = {x}"
    using assms by (simp add: owned_def)
  then show "arrays w a = None \<Longrightarrow> owners (statuses w) a = {}"
    "arrays w a = Some bs \<Longrightarrow> \<exists>x. owners (statuses w) a = {x}" by simp_all
  assume "statuses w x = Some (Some a)"
  then have "x \<in> owners (statuses w) a" by (simp add: owners_iff)
  with a show "owners (statuses w) a = {x} \<and> (\<exists>bs. arrays w a = Some bs)"
    by (cases "arrays w a") auto
qed

lemma ownedI:
  assumes "finite (dom (arrays w))" "\<And>a. arrays w a = None \<Longrightarrow> owners (statuses w) a = {}"
    "\<And>a bs. arrays w a = Some bs \<Longrightarrow> \<exists>x. owners (statuses w) a = {x}"
  shows "owned w"
  using assms by (auto simp: owned_def)

lemma owned_empty: "owned no_statuses"
  by (simp add: owned_def no_statuses_def owners_def)

text \<open>A status that owns nothing may become null, or take a new array.\<close>

lemma owned_null:
  assumes "owned w" "statuses w x = None \<or> statuses w x = Some None"
  shows "owned (w\<lparr>statuses := (statuses w)(x \<mapsto> None)\<rparr>)"
  using assms by (intro ownedI) (auto simp: owners_other ownedD)

lemma owned_put:
  assumes "owned w" "statuses w x = None \<or> statuses w x = Some None" "arrays w fresh = None"
  shows "owned (w\<lparr>arrays := (arrays w)(fresh \<mapsto> bs), statuses := (statuses w)(x \<mapsto> Some fresh)\<rparr>)"
  using assms by (intro ownedI) (auto simp: owners_other ownedD split: if_splits)

lemma owned_new: "owned w \<Longrightarrow> Status_new w x = Some w' \<Longrightarrow> owned w'"
  by (auto simp: Status_new_def owned_null split: if_splits)

lemma owned_error:
  assumes "constructs_errors error_new" "owned w" "statuses w x = None" "error_new w x c msg msg2 = Some w'"
  shows "owned w'" "Status_code w' x = Some c" "Status_ok w' x = Some False"
proof -
  obtain w1 a bs where n: "w' = w1\<lparr>statuses := (statuses w1)(x \<mapsto> Some a)\<rparr>" "new_array w w1 a bs" "4 < length bs" "bs ! 4 = code_byte c"
    using assms ownedD(4) [OF assms(2)] unfolding constructs_errors_def by (metis option.inject)
  then show "owned w'" using owned_put [OF assms(2), of x a bs] assms(3) by (simp add: new_array_def)
  show "Status_code w' x = Some c" "Status_ok w' x = Some False"
    using n by (simp_all add: new_array_def Status_code_def Status_ok_def)
qed

text \<open>Releasing the array of a status that then points elsewhere.\<close>

lemma owned_release:
  assumes "owned w" "statuses w x = Some p"
  shows "\<exists>w'. delete_array w p = Some w' \<and> statuses w' = statuses w \<and>
     (\<forall>v. v = None \<or> v = Some None \<longrightarrow> owned (w'\<lparr>statuses := (statuses w)(x := v)\<rparr>))"
proof (cases p)
  case None
  then show ?thesis
    using assms by (auto simp: delete_array_def owners_other ownedD intro!: ownedI)
next
  case (Some a)
  with ownedD(3) [OF assms(1), of x a] assms(2) obtain bs where
    a: "owners (statuses w) a = {x}" "arrays w a = Some bs" by auto
  have "owned (w\<lparr>arrays := (arrays w)(a := None), statuses := (statuses w)(x := v)\<rparr>)"
    if "v = None \<or> v = Some None" for v
  proof (rule ownedI)
    show "finite (dom (arrays (w\<lparr>arrays := (arrays w)(a := None), statuses := (statuses w)(x := v)\<rparr>)))"
      using ownedD(4) [OF assms(1)] by simp
  next
    fix b assume "arrays (w\<lparr>arrays := (arrays w)(a := None), statuses := (statuses w)(x := v)\<rparr>) b = None"
    then show "owners (statuses (w\<lparr>arrays := (arrays w)(a := None), statuses := (statuses w)(x := v)\<rparr>)) b = {}"
      using that a(1) by (cases "b = a") (auto simp: ownedD [OF assms(1)])
  next
    fix b bs'
    assume "arrays (w\<lparr>arrays := (arrays w)(a := None), statuses := (statuses w)(x := v)\<rparr>) b = Some bs'"
    then have "b \<noteq> a" "arrays w b = Some bs'" by (auto split: if_splits)
    then show "\<exists>y. owners (statuses (w\<lparr>arrays := (arrays w)(a := None), statuses := (statuses w)(x := v)\<rparr>)) b = {y}"
      using that assms(2) Some ownedD(2) [OF assms(1)] by (auto simp: owners_other)
  qed
  then show ?thesis using Some a(2) by (simp add: delete_array_def)
qed

lemma owned_destroy:
  assumes "owned w" "statuses w x = Some p"
  shows "\<exists>w'. Status_destroy w x = Some w' \<and> owned w'"
  using owned_release [OF assms] assms(2) by (auto simp: Status_destroy_def)

lemma owned_move_assign:
  assumes "owned w" "Status_move_assign w x y = Some w'"
  shows "owned w'"
proof -
  from assms(2) obtain p q where p: "statuses w x = Some p" "statuses w y = Some q"
    and w': "w' = w\<lparr>statuses := (statuses w)(x \<mapsto> q, y \<mapsto> p)\<rparr>"
    by (auto simp: Status_move_assign_def split: bind_splits)
  have "\<exists>z. owners (statuses w') a = {z}" if "arrays w a = Some bs" for a bs
  proof -
    from ownedD(2) [OF assms(1) that] obtain z where z: "owners (statuses w) a = {z}" ..
    have eq: "statuses w u = Some (Some a) \<longleftrightarrow> u = z" for u
      unfolding owners_iff [symmetric] z by simp
    have "statuses w' u = Some (Some a) \<longleftrightarrow> u = (if z = x then y else if z = y then x else z)" for u
      using eq [of x] eq [of y] eq [of u] unfolding w' p by (cases "u = y"; cases "u = x"; auto)
    then show ?thesis unfolding owners_def by simp
  qed
  moreover have "owners (statuses w') a = {}" if "arrays w a = None" for a
    using ownedD(1) [OF assms(1) that] p by (auto simp: w' owners_def)
  ultimately show ?thesis using ownedD(4) [OF assms(1)] by (intro ownedI) (auto simp: w')
qed

text \<open>A copy for a status that owns nothing. The address may be one that has just been released.\<close>

lemma copy_of_outcome:
  assumes "copies_states copy_state" "finite (dom (arrays w))" "\<And>a. p = Some a \<Longrightarrow> arrays w a \<noteq> None"
  shows "\<exists>w' q. copy_of copy_state w p = Some (w', q) \<and> statuses w' = statuses w \<and>
    (p = None \<and> w' = w \<and> q = None \<or> (\<exists>a b bs. p = Some a \<and> q = Some b \<and> arrays w a = Some bs \<and> new_array w w' b bs))"
proof (cases p)
  case (Some a)
  with assms(3) obtain bs where a: "arrays w a = Some bs" by auto
  with assms(1,2) obtain w' b where "copy_state w a = Some (w', b)" "new_array w w' b bs"
    unfolding copies_states_def by blast
  with Some a show ?thesis by (auto simp: copy_of_def new_array_def)
qed (simp add: copy_of_def)

lemma owned_copy:
  assumes "copies_states copy_state" "owned (w\<lparr>statuses := st(x := v)\<rparr>)" "v = None \<or> v = Some None"
    "\<And>a. p = Some a \<Longrightarrow> arrays w a \<noteq> None"
  shows "\<exists>w' q. copy_of copy_state w p = Some (w', q) \<and> statuses w' = statuses w \<and> owned (w'\<lparr>statuses := st(x \<mapsto> q)\<rparr>) \<and>
    (q = None \<longleftrightarrow> p = None) \<and> (\<forall>a. p = Some a \<longrightarrow> arrays w' (the q) = arrays w a) \<and>
    (\<forall>a. arrays w a \<noteq> None \<longrightarrow> arrays w' a = arrays w a)"
proof -
  have fin: "finite (dom (arrays w))" using ownedD(4) [OF assms(2)] by simp
  have null: "owned (w\<lparr>statuses := st(x \<mapsto> None)\<rparr>)"
    using owned_null [OF assms(2), of x] assms(3) by auto
  have put: "owned (w\<lparr>arrays := (arrays w)(b \<mapsto> bs), statuses := st(x \<mapsto> Some b)\<rparr>)" if "arrays w b = None" for b bs
    using owned_put [OF assms(2), of x b bs] assms(3) that by auto
  from copy_of_outcome [OF assms(1) fin assms(4)] obtain w' q where c: "copy_of copy_state w p = Some (w', q)" "statuses w' = statuses w"
    "p = None \<and> w' = w \<and> q = None \<or> (\<exists>a b bs. p = Some a \<and> q = Some b \<and> arrays w a = Some bs \<and> new_array w w' b bs)" by blast
  from c(3) show ?thesis
  proof
    assume "p = None \<and> w' = w \<and> q = None"
    with c(1) null show ?thesis by simp
  next
    assume "\<exists>a b bs. p = Some a \<and> q = Some b \<and> arrays w a = Some bs \<and> new_array w w' b bs"
    then obtain a b bs where "p = Some a" "q = Some b" "arrays w a = Some bs" "arrays w b = None"
      "w' = w\<lparr>arrays := (arrays w)(b \<mapsto> bs)\<rparr>" by (auto simp: new_array_def)
    with c(1) put show ?thesis by auto
  qed
qed

lemma Status_code_cong:
  "statuses w x = Some p \<Longrightarrow> statuses w' x' = Some p' \<Longrightarrow> (p' = None \<longleftrightarrow> p = None) \<Longrightarrow>
   (\<And>a. p = Some a \<Longrightarrow> arrays w' (the p') = arrays w a) \<Longrightarrow> Status_code w' x' = Status_code w x"
  by (cases p; cases p') (auto simp: Status_code_def)

text \<open>
  On live statuses no operation fails: nothing is released twice and no released array is read. A copy reads as the original
  and so does the left side of an assignment, and the other statuses keep their codes.
\<close>

lemma copy_new_outcome:
  assumes "copies_states copy_state" "owned w" "statuses w x = None" "statuses w rhs = Some p"
  shows "\<exists>w'. Status_copy_new copy_state w x rhs = Some w' \<and> owned w' \<and> Status_code w' x = Status_code w rhs \<and>
    (\<forall>y. y \<noteq> x \<longrightarrow> Status_code w' y = Status_code w y)"
proof -
  have alloc: "arrays w a \<noteq> None" if "statuses w y = Some (Some a)" for a y
    using ownedD(3) [OF assms(2) that] by auto
  have "(statuses w)(x := None) = statuses w" using assms(3) by auto
  moreover have "arrays w a \<noteq> None" if "p = Some a" for a using alloc [of rhs a] assms(4) that by simp
  ultimately obtain w1 q where c:
    "copy_of copy_state w p = Some (w1, q)" "statuses w1 = statuses w" "owned (w1\<lparr>statuses := (statuses w)(x \<mapsto> q)\<rparr>)"
    "q = None \<longleftrightarrow> p = None" "\<And>a. p = Some a \<Longrightarrow> arrays w1 (the q) = arrays w a"
    "\<And>a. arrays w a \<noteq> None \<Longrightarrow> arrays w1 a = arrays w a"
    using owned_copy [where copy_state = copy_state and w = w and st = "statuses w" and x = x and v = None and p = p] assms(1,2) by auto
  let ?w = "w1\<lparr>statuses := (statuses w)(x \<mapsto> q)\<rparr>"
  have "Status_code ?w x = Status_code w rhs"
    by (rule Status_code_cong [OF assms(4), where p' = q]) (use c(4,5) in auto)
  moreover have "Status_code ?w y = Status_code w y" if "y \<noteq> x" for y
    using that c(6) [OF alloc [of y]] by (cases "statuses w y") (auto simp: Status_code_def split: option.splits)
  ultimately show ?thesis using c(1-3) assms(3,4) by (intro exI [of _ ?w]) (simp add: Status_copy_new_def)
qed

lemma assign_outcome:
  assumes "copies_states copy_state" "owned w" "statuses w this = Some p" "statuses w rhs = Some q"
  shows "\<exists>w'. Status_assign copy_state w this rhs = Some w' \<and> owned w' \<and> Status_code w' this = Status_code w rhs \<and>
    (\<forall>y. y \<noteq> this \<longrightarrow> Status_code w' y = Status_code w y)"
proof (cases "p = q")
  case False
  obtain w1 where w1: "delete_array w p = Some w1" "statuses w1 = statuses w"
    "owned (w1\<lparr>statuses := (statuses w)(this := Some None)\<rparr>)"
    using owned_release [OF assms(2,3)] by blast
  have kept: "arrays w1 a = arrays w a \<and> arrays w a \<noteq> None" if "statuses w y = Some (Some a)" "p \<noteq> Some a" for a y
    using ownedD(3) [OF assms(2) that(1)] w1(1) that(2) by (auto simp: delete_array_def split: option.splits if_splits)
  have q: "arrays w1 a = arrays w a \<and> arrays w a \<noteq> None" if "q = Some a" for a using kept [of rhs a] assms(4) that False by simp
  then have "arrays w1 a \<noteq> None" if "q = Some a" for a using that by simp
  with owned_copy [OF assms(1) w1(3), of q] obtain w2 r where c: "copy_of copy_state w1 q = Some (w2, r)" "statuses w2 = statuses w"
    "owned (w2\<lparr>statuses := (statuses w)(this \<mapsto> r)\<rparr>)" "r = None \<longleftrightarrow> q = None"
    "\<And>a. q = Some a \<Longrightarrow> arrays w2 (the r) = arrays w1 a" "\<And>a. arrays w1 a \<noteq> None \<Longrightarrow> arrays w2 a = arrays w1 a"
    using w1(2) by auto
  let ?w = "w2\<lparr>statuses := (statuses w)(this \<mapsto> r)\<rparr>"
  have "Status_code ?w this = Status_code w rhs"
    by (rule Status_code_cong [OF assms(4), where p' = r]) (use c(4,5) q in auto)
  moreover have "Status_code ?w y = Status_code w y" if "y \<noteq> this" for y
  proof -
    have "arrays w2 a = arrays w a" if "statuses w y = Some (Some a)" for a
    proof -
      have "p \<noteq> Some a" using ownedD(3) [OF assms(2) that] \<open>y \<noteq> this\<close> assms(3) by (auto simp: owners_def)
      then show ?thesis using kept [OF that] c(6) [of a] by simp
    qed
    then show ?thesis using that by (cases "statuses w y") (auto simp: Status_code_def split: option.splits)
  qed
  ultimately show ?thesis
    using assms(3,4) w1(1) c(1-3) False by (intro exI [of _ ?w]) (simp add: Status_assign_def)
next
  case True
  then show ?thesis using assms by (simp add: Status_assign_def Status_code_def)
qed

lemma owned_copy_new:
  "copies_states copy_state \<Longrightarrow> owned w \<Longrightarrow> Status_copy_new copy_state w x rhs = Some w' \<Longrightarrow> statuses w x = None \<Longrightarrow> owned w'"
  using copy_new_outcome [of copy_state w x rhs] by (cases "statuses w rhs") (auto simp: Status_copy_new_def)

lemma owned_assign:
  assumes "copies_states copy_state" "owned w" "Status_assign copy_state w this rhs = Some w'"
  shows "owned w'"
proof -
  obtain p q where "statuses w this = Some p" "statuses w rhs = Some q"
    using assms(3) by (auto simp: Status_assign_def split: bind_splits)
  from assign_outcome [OF assms(1,2) this] assms(3) show ?thesis by auto
qed

lemma owned_move_new: "owned w \<Longrightarrow> Status_move_new w x rhs = Some w' \<Longrightarrow> owned w'"
proof -
  assume w: "owned w" "Status_move_new w x rhs = Some w'"
  then obtain p where p: "statuses w x = None" "statuses w rhs = Some p" "w' = w\<lparr>statuses := (statuses w)(x \<mapsto> p, rhs \<mapsto> None)\<rparr>"
    by (auto simp: Status_move_new_def split: bind_splits if_splits)
  have "owned (w\<lparr>statuses := (statuses w)(x \<mapsto> None)\<rparr>)" using owned_null [OF w(1)] p(1) by simp
  moreover have "Status_move_assign (w\<lparr>statuses := (statuses w)(x \<mapsto> None)\<rparr>) x rhs = Some w'"
    using p by (auto simp: Status_move_assign_def)
  ultimately show ?thesis by (rule owned_move_assign)
qed

lemma owned_destroy_step: "owned w \<Longrightarrow> Status_destroy w x = Some w' \<Longrightarrow> owned w'"
  by (cases "statuses w x") (auto simp: Status_destroy_def dest: owned_destroy)

lemma owned_step:
  assumes "constructs_errors error_new" "copies_states copy_state"
  shows "status_step error_new copy_state w w' \<Longrightarrow> owned w \<Longrightarrow> owned w'"
  by (induction rule: status_step.induct)
    (auto simp: Status_OK_def Status_NotFound_def Status_Corruption_def Status_NotSupported_def Status_InvalidArgument_def
      Status_IOError_def intro: owned_new owned_error(1) [OF assms(1)] owned_copy_new [OF assms(2)] owned_move_new
      owned_assign [OF assms(2)] owned_move_assign owned_destroy_step)

lemma owned_reachable:
  assumes "constructs_errors error_new" "copies_states copy_state" "(status_step error_new copy_state)\<^sup>*\<^sup>* no_statuses w"
  shows "owned w"
  using assms(3) by (induction rule: rtranclp_induct) (auto intro: owned_empty owned_step [OF assms(1,2)])

lemma owned_no_leak:
  assumes "owned w" "statuses w = Map.empty"
  shows "arrays w = Map.empty"
proof
  fix a show "arrays w a = None"
    using assms ownedD(2) [OF assms(1), of a] by (cases "arrays w a") (auto simp: owners_def)
qed

section \<open>An allocator\<close>

text \<open>Functions that meet the contracts: they take the first address above the ones in use.\<close>

definition next_addr :: "world \<Rightarrow> addr" where
  "next_addr w = (if arrays w = Map.empty then 0 else Suc (Max (dom (arrays w))))"

definition bump_copy :: copier where
  "bump_copy w a = map_option (\<lambda>bs. (w\<lparr>arrays := (arrays w)(next_addr w \<mapsto> bs)\<rparr>, next_addr w)) (arrays w a)"

definition bump_error :: error_constructor where
  "bump_error w x c msg msg2 = Some (w\<lparr>arrays := (arrays w)(next_addr w \<mapsto> replicate 5 (code_byte c)),
     statuses := (statuses w)(x \<mapsto> Some (next_addr w))\<rparr>)"

lemma next_addr_free: "finite (dom (arrays w)) \<Longrightarrow> arrays w (next_addr w) = None"
  using Max_ge [of "dom (arrays w)" "next_addr w"] by (fastforce simp: next_addr_def)

lemma bump_copies: "copies_states bump_copy"
  by (auto simp: copies_states_def bump_copy_def new_array_def next_addr_free)

lemma bump_constructs: "constructs_errors bump_error"
  unfolding constructs_errors_def
proof (intro allI impI)
  fix w :: world and x c msg msg2 assume w: "finite (dom (arrays w)) \<and> statuses w x = None"
  let ?bs = "replicate 5 (code_byte c)" and ?a = "next_addr w"
  show "\<exists>w' a bs. bump_error w x c msg msg2 = Some (w'\<lparr>statuses := (statuses w')(x \<mapsto> Some a)\<rparr>) \<and> new_array w w' a bs \<and>
      4 < length bs \<and> bs ! 4 = code_byte c"
    by (rule exI [of _ "w\<lparr>arrays := (arrays w)(?a \<mapsto> ?bs)\<rparr>"], rule exI [of _ ?a], rule exI [of _ ?bs])
      (use w in \<open>simp add: bump_error_def new_array_def next_addr_free\<close>)
qed

end
