(* ===== verification/Geos_Properties.thy ===== *)
theory Geos_Properties
  imports Geos_Envelope Geos_CoordinateList Geos_Quadrant Geos_QuadEdge Leveldb_Status
begin

text \<open>
  The properties of the inline code of the GEOS and LevelDB headers, each with an instance on
  concrete values where it has hypotheses.
\<close>

lemmas double_defs = isnan_def dmag_def dkey_def d_less_def d_le_def d_eq_def bit_iff_odd_drop_bit

section \<open>Coordinates and envelopes\<close>

text \<open>
  C33. On coordinates without a component that is not a number, \<^verbatim>\<open>operator<\<close> is a strict weak order, as
  ordered containers need it, and its incomparable coordinates are those \<^verbatim>\<open>operator==\<close> calls
  equal.
\<close>

theorem coordinate_strict_weak_order:
  assumes "proper a" "proper b" "proper c"
  shows "\<not> Coordinate_less a a \<and> (Coordinate_less a b \<and> Coordinate_less b c \<longrightarrow> Coordinate_less a c) \<and>
    (Coordinate_less a c \<longrightarrow> Coordinate_less a b \<or> Coordinate_less b c) \<and>
    (\<not> Coordinate_less a b \<and> \<not> Coordinate_less b a \<longleftrightarrow> Coordinate_eq a b)"
  using coordinate_order.irrefl coordinate_order.lt_trans coordinate_order.negative_trans
    coordinate_incomparable [OF assms(1,2)] assms by blast

theorem coordinate_strict_weak_order_witness:
  "Coordinate_less (Coordinate_new 0 0 0) (Coordinate_new 0 0x4000000000000000 0)"
  using coordinate_strict_weak_order [of "Coordinate_new 0 0 0" "Coordinate_new 0 0x4000000000000000 0"
      "Coordinate_new 0 0x3FF0000000000000 0"]
  by (simp add: proper_def Coordinate_new_def double_defs Coordinate_eq_def Coordinate_equals2D_def
      Coordinate_less_def CoordinateLessThen_ref_def Coordinate_compareTo_def)

text \<open>
  C34. Two envelopes whose bounds are numbers, in order or null, intersect exactly when a point
  intersects both.
\<close>

theorem Envelope_intersects_common_point:
  assumes "regular e" "regular f"
  shows "Envelope_intersects e f \<longleftrightarrow> (\<exists>x y. Envelope_intersects_xy e x y \<and> Envelope_intersects_xy f x y)"
  using intersects_iff [OF assms] by (auto simp: points_def)

theorem Envelope_intersects_common_point_witness:
  "\<exists>x y. Envelope_intersects_xy \<lparr>minx = 0, maxx = 0x4000000000000000, miny = 0, maxy = 0x4000000000000000\<rparr> x y \<and>
     Envelope_intersects_xy \<lparr>minx = 0x3FF0000000000000, maxx = 0x4010000000000000, miny = 0, maxy = 0\<rparr> x y"
  using Envelope_intersects_common_point
    [of "\<lparr>minx = 0, maxx = 0x4000000000000000, miny = 0, maxy = 0x4000000000000000\<rparr>"
        "\<lparr>minx = 0x3FF0000000000000, maxx = 0x4010000000000000, miny = 0, maxy = 0\<rparr>"]
  by (simp add: regular_def numbers_def Envelope_isNull_def double_defs Envelope_intersects_def Envelope_intersects_ptr_def)

text \<open>
  C35. Growing an envelope to include a point gives the least regular envelope that has the point
  and all points of the envelope; a null envelope becomes the point.
\<close>

theorem Envelope_expandToInclude_least:
  assumes "regular e" "\<not> isnan x" "\<not> isnan y"
  shows "regular (Envelope_expandToInclude e x y) \<and> (x, y) \<in> points (Envelope_expandToInclude e x y) \<and>
    points e \<subseteq> points (Envelope_expandToInclude e x y) \<and>
    (\<forall>g. regular g \<and> points e \<subseteq> points g \<and> (x, y) \<in> points g \<longrightarrow>
       points (Envelope_expandToInclude e x y) \<subseteq> points g)"
  using expandToInclude_regular [OF assms] expandToInclude_least [OF assms] by blast

theorem Envelope_expandToInclude_least_witness:
  "(0x4000000000000000, 0) \<in> points (Envelope_expandToInclude
     (Envelope_setToNull \<lparr>minx = 0, maxx = 0, miny = 0, maxy = 0\<rparr>) 0x4000000000000000 0)"
  using Envelope_expandToInclude_least
    [OF setToNull_null(1), of "0x4000000000000000" 0 "\<lparr>minx = 0, maxx = 0, miny = 0, maxy = 0\<rparr>"]
  by (simp add: isnan_def dmag_def)

section \<open>Topology labels\<close>

text \<open>
  C36. On every label that the constructors and the calls below can produce, in any order, a call of
  \<^verbatim>\<open>flip\<close>, \<^verbatim>\<open>setLocation\<close>, \<^verbatim>\<open>setAllLocations\<close>, \<^verbatim>\<open>setAllLocationsIfNull\<close>, \<^verbatim>\<open>toLine\<close>, \<^verbatim>\<open>merge\<close> or of the assignment with
  arguments that pass the assertions returns, the locations read afterwards are those that \<open>shown\<close> computes from the locations
  read before, at every position of both geometries, and each geometry is either a line or an area. For
  \<^verbatim>\<open>TopologyLocation::merge\<close>, which is compiled elsewhere, only the behaviour its comment states is assumed.
\<close>

theorem label_calls_show:
  assumes "merges_undef merge_tl" "label_reachable merge_tl lbl" "\<And>l. l \<in> call_labels c \<Longrightarrow> label_reachable merge_tl l"
    "call_ok c" "i = 0 \<or> i = 1" "0 \<le> p" "p < 3"
  shows "\<exists>lbl'. label_call merge_tl c lbl = Some lbl' \<and> Label_getLocation lbl' i p = shown c lbl i p \<and>
    (\<exists>b. Label_isLine lbl' i = Some b \<and> Label_isArea_geom lbl' i = Some (\<not> b))"
proof -
  note wf = wf_label_reachable [OF assms(1)]
  have i: "geomIndex_ok i" using assms(5) by (auto simp: geomIndex_ok_def)
  obtain lbl' where l: "label_call merge_tl c lbl = Some lbl'" "Label_getLocation lbl' i p = shown c lbl i p"
    using shown_after_call [OF assms(1) wf [OF assms(2)] wf [OF assms(3)] assms(4) i assms(6,7)] by blast
  have "wf_label lbl'" by (rule wf_label_call [OF assms(1) l(1) wf [OF assms(2)] wf [OF assms(3)]])
  then show ?thesis using l assms(5) by (auto simp: label_read_defs geomIndex_ok_cases isArea_not_isLine wf_labelD)
qed

text \<open>A label whose left side is unknown, merged with another one and read there.\<close>

theorem label_calls_show_witness:
  "\<exists>lbl'. label_call fill_undef (Call_merge (Label_area INTERIOR EXTERIOR EXTERIOR)) (Label_area BOUNDARY UNDEF INTERIOR) = Some lbl' \<and>
    Label_getLocation lbl' 0 1 = Some EXTERIOR"
  using label_calls_show [of fill_undef "Label_area BOUNDARY UNDEF INTERIOR" "Call_merge (Label_area INTERIOR EXTERIOR EXTERIOR)" 0 1]
    fill_undef_merges reach_new [OF new_area]
  by (auto simp: label_read_defs geomIndex_ok_cases size_t_def Label_area_def TopologyLocation_area_def TopologyLocation_get_def)

text \<open>
  Filling the unknown locations of a label with a known location leaves none unknown, and
  keeps every location that was known.
\<close>

lemma label_fill_unknown:
  assumes "wf_label lbl" "loc \<noteq> UNDEF" "i = 0 \<or> i = 1" "0 \<le> p" "p < 2 ^ 31"
  shows "\<exists>lbl'. Label_setAllLocationsIfNull lbl loc = Some lbl' \<and> Label_isAnyNull lbl' i = Some False \<and>
    (Label_getLocation lbl i p \<noteq> Some UNDEF \<longrightarrow> Label_getLocation lbl' i p = Label_getLocation lbl i p)"
proof -
  obtain lbl' where l: "Label_setAllLocationsIfNull lbl loc = Some lbl'" "wf_label lbl'"
    "\<forall>i < 2. elt lbl' ! i = TopologyLocation_setAllLocationsIfNull (elt lbl ! i) loc"
    using setAllLocationsIfNull_eq [OF assms(1)] by blast
  let ?t = "elt lbl ! nat i"
  have t: "wf_location ?t" "elt lbl' ! nat i = TopologyLocation_setAllLocationsIfNull ?t loc" "geomIndex_ok i"
    using assms(1,3) l(3) by (auto simp: geomIndex_ok_cases wf_labelD)
  have "\<not> TopologyLocation_isAnyNull (elt lbl' ! nat i)"
    unfolding t(2) isAnyNull_get [OF wf_location_setAll(2) [OF t(1)]] get_setAllLocationsIfNull [OF t(1)]
    using assms(2) by (auto simp: TopologyLocation_setAllLocationsIfNull_def)
  then show ?thesis
    using l(1) t by (auto simp: label_read_defs get_setAllLocationsIfNull)
qed

section \<open>Quadrants\<close>

text \<open>
  The quadrant of a segment is an error exactly for equal end points; otherwise both directions
  have one, the two are opposite exactly when the segment is neither horizontal nor vertical, and
  the quadrant is northern exactly when the segment does not go down.
\<close>

lemma quadrant_of_segment:
  assumes "proper p0" "proper p1"
  shows "if Coordinate_equals2D p0 p1 then Quadrant_quadrant_points p0 p1 = Inl IllegalArgumentException
    else \<exists>q q'. Quadrant_quadrant_points p0 p1 = Inr q \<and> Quadrant_quadrant_points p1 p0 = Inr q' \<and>
      (Quadrant_isOpposite q q' \<longleftrightarrow> \<not> d_eq (cx p0) (cx p1) \<and> \<not> d_eq (cy p0) (cy p1)) \<and>
      (Quadrant_isNorthern q \<longleftrightarrow> d_le (cy p0) (cy p1))"
  using quadrant_points_error [OF assms] quadrant_points_reverse [OF assms] by auto

section \<open>Quad edges\<close>

text \<open>
  C37. In a store of quartets that satisfies the axioms of the edge algebra, the pointer arithmetic
  stays inside the quartets and the functions that walk around origin, destination, left and right
  face are total; each of them is undone by its partner.
\<close>

theorem quad_edge_walks:
  assumes "edge_store s" "valid s e"
  shows "QuadEdge_oNext s e \<bind> QuadEdge_oPrev s = Some e \<and> QuadEdge_oPrev s e \<bind> QuadEdge_oNext s = Some e \<and>
    QuadEdge_dNext s e \<bind> QuadEdge_dPrev s = Some e \<and> QuadEdge_lPrev s e \<bind> QuadEdge_lNext s = Some e \<and>
    QuadEdge_rPrev s e \<bind> QuadEdge_rNext s = Some e \<and> QuadEdge_rot s e \<bind> QuadEdge_invRot s = Some e \<and>
    QuadEdge_sym s e \<bind> QuadEdge_sym s = Some e"
proof -
  note Q = edge_store_quartets [OF assms(1)]
  note v = valid_turn [OF Q] quartets_oNext(2) [OF Q]
  note E = assms(1)
  show ?thesis
    using assms(2) quad.oPrev_oNext [of s e] quad.oNext_oPrev [of s e] quad.dPrev_dNext [of s e]
      quad.lNext_lPrev [of s e] quad.rNext_rPrev [of s e] turn4 [OF Q]
    by (simp add: quad_edge_functions [OF E] quartets_rot [OF Q] v E)
qed

theorem quad_edge_walks_witness:
  "QuadEdge_oNext [edge_quartet 0 1 (2 :: nat) 0] (0, 1) \<bind> QuadEdge_oPrev [edge_quartet 0 1 (2 :: nat) 0] = Some (0, 1)"
  using quad_edge_walks [of "[edge_quartet 0 1 (2 :: nat) 0]" "(0, 1)"]
    edge_store_makeEdge [OF edge_store_empty, of 0 1 "2 :: nat"]
  by (simp add: valid_def edge_quartet_def)

text \<open>
  C38. Making an edge keeps the axioms, leaves every other edge as it was, and returns an edge with
  the given origin and destination that is alone around its origin and has its reverse as the next
  edge of its left face.
\<close>

theorem makeEdge_isolated_edge:
  assumes "edge_store s"
  shows "\<exists>s' e. QuadEdgeQuartet_makeEdge v a d s = Some (s', e) \<and> edge_store s' \<and>
    (\<forall>p. valid s p \<longrightarrow> deref s' p = deref s p) \<and> \<not> valid s e \<and>
    QuadEdge_orig s' e = Some a \<and> QuadEdge_dest s' e = Some d \<and> QuadEdge_isLive s' e = Some True \<and>
    QuadEdge_oNext s' e = Some e \<and> QuadEdge_lNext s' e = QuadEdge_sym s' e"
proof -
  let ?s = "s @ [edge_quartet v a d (length s)]" and ?e = "(length s, 0) :: edge_ptr"
  have E: "edge_store ?s" by (rule edge_store_makeEdge [OF assms])
  have v: "valid ?s ?e" by (simp add: valid_def edge_quartet_def)
  note Q = edge_store_quartets [OF E]
  have "deref ?s p = deref s p" if "valid s p" for p
    using that valid_append [OF that] by (simp add: deref_def valid_def nth_append)
  moreover have "\<not> valid s ?e" by (simp add: valid_def)
  moreover have "QuadEdge_orig ?s ?e = Some a" "QuadEdge_isLive ?s ?e = Some True"
    using v by (simp_all add: QuadEdge_orig_def QuadEdge_isLive_def deref_def edge_quartet_def)
  moreover have "QuadEdge_dest ?s ?e = Some d"
    using quartets_rot(2) [OF Q v] valid_turn [OF Q valid_turn [OF Q v]]
    by (simp add: QuadEdge_dest_def QuadEdge_orig_def deref_def edge_quartet_def)
  moreover have "QuadEdge_oNext ?s ?e = Some ?e" "QuadEdge_lNext ?s ?e = QuadEdge_sym ?s ?e"
    using oNext_new [of s v a d] by (simp_all add: quad_edge_functions [OF E v] quartets_rot [OF Q v])
  ultimately show ?thesis using E by (simp add: makeEdge_eq)
qed

theorem makeEdge_isolated_edge_witness:
  "\<exists>s' e. QuadEdgeQuartet_makeEdge 0 (7 :: nat) 9 [] = Some (s', e) \<and> QuadEdge_dest s' e = Some 9"
  using makeEdge_isolated_edge [OF edge_store_empty, of 0 "7 :: nat" 9] by blast

section \<open>Slices and statuses of LevelDB\<close>

text \<open>
  C39. Comparison of slices refines the lexicographic order of the unsigned bytes they refer to;
  equality is equality of these strings and \<^verbatim>\<open>starts_with\<close> the prefix relation.
\<close>

theorem Slice_compare_refines_order:
  assumes "wf_slice a" "wf_slice b"
  shows "\<exists>r. Slice_compare a b = Some r \<and> (r < 0 \<longleftrightarrow> slice_view a < slice_view b) \<and>
    (r = 0 \<longleftrightarrow> slice_view a = slice_view b) \<and> (r > 0 \<longleftrightarrow> slice_view b < slice_view a) \<and>
    Slice_eq a b = Some (slice_view a = slice_view b) \<and>
    Slice_starts_with a b = Some (prefix (slice_view b) (slice_view a))"
  using compare_view [OF assms] eq_view [OF assms] starts_with_view [OF assms] by auto

theorem Slice_compare_refines_order_witness:
  "\<exists>r. Slice_compare (Slice_new [97, 200, 1] 2) (Slice_new [97, 98] 2) = Some r \<and> r > 0"
  using Slice_compare_refines_order [of "Slice_new [97, 200, 1] 2" "Slice_new [97, 98] 2"]
  by (auto simp: wf_slice_def slice_view_def Slice_new_def)

text \<open>
  C40. Let the constructor and \<^verbatim>\<open>CopyState\<close>, which the header only declares, return a new array with the code in byte 4
  and a new array with the same contents. Then after any sequence of the factories, copies, moves, assignments and
  destructions of statuses, every live status can be destroyed, assigned and copied without a double release or a read of
  released memory; the assigned status and the copy have the code of their source, every other status keeps its own; and when
  no status is left no array is.
\<close>

theorem Status_ownership_safe:
  assumes "constructs_errors error_new" "copies_states copy_state" "(status_step error_new copy_state)\<^sup>*\<^sup>* no_statuses w"
    "statuses w x \<noteq> None" "statuses w y \<noteq> None" "statuses w z = None"
  shows "Status_destroy w x \<noteq> None \<and>
    (\<exists>w'. Status_assign copy_state w x y = Some w' \<and> Status_code w' x = Status_code w y \<and>
       (\<forall>v. v \<noteq> x \<longrightarrow> Status_code w' v = Status_code w v)) \<and>
    (\<exists>w'. Status_copy_new copy_state w z x = Some w' \<and> Status_code w' z = Status_code w x \<and>
       (\<forall>v. v \<noteq> z \<longrightarrow> Status_code w' v = Status_code w v)) \<and>
    (\<forall>w'. (status_step error_new copy_state)\<^sup>*\<^sup>* w w' \<and> statuses w' = Map.empty \<longrightarrow> arrays w' = Map.empty)"
proof -
  have w: "owned w" by (rule owned_reachable [OF assms(1-3)])
  obtain p q where p: "statuses w x = Some p" "statuses w y = Some q" using assms(4,5) by auto
  have "arrays w' = Map.empty" if "(status_step error_new copy_state)\<^sup>*\<^sup>* w w'" "statuses w' = Map.empty" for w'
    using owned_no_leak [OF owned_reachable [OF assms(1,2) rtranclp_trans [OF assms(3) that(1)]] that(2)] .
  with owned_destroy [OF w p(1)] assign_outcome [OF assms(2) w p] copy_new_outcome [OF assms(2) w assms(6) p(1)]
  show ?thesis by (auto simp del: not_None_eq)
qed

theorem Status_ownership_safe_witness:
  "\<exists>w w' w''. Status_assign bump_copy w 0 1 = Some w' \<and> Status_code w 0 = Some kNotFound \<and> Status_code w' 0 = Some kIOError \<and>
     Status_copy_new bump_copy w 2 0 = Some w'' \<and> Status_code w'' 2 = Some kNotFound \<and> Status_code w'' 1 = Some kIOError"
proof -
  let ?n = "\<lparr>arrays = [0 \<mapsto> replicate 5 1], statuses = [0 \<mapsto> Some 0]\<rparr>"
  let ?w = "\<lparr>arrays = [0 \<mapsto> replicate 5 1, 1 \<mapsto> replicate 5 5], statuses = [0 \<mapsto> Some 0, 1 \<mapsto> Some 1]\<rparr>"
  have "Status_NotFound bump_error no_statuses 0 Slice_empty_new Slice_empty_new = Some ?n"
    by (simp add: Status_NotFound_def bump_error_def no_statuses_def next_addr_def code_byte_def)
  then have s: "status_step bump_error bump_copy no_statuses ?n"
    by (rule step_NotFound [rotated]) (simp add: no_statuses_def)
  have "Status_IOError bump_error ?n 1 Slice_empty_new Slice_empty_new = Some ?w"
    by (simp add: Status_IOError_def bump_error_def next_addr_def code_byte_def fun_eq_iff)
  then have "status_step bump_error bump_copy ?n ?w" by (rule step_IOError [rotated]) simp
  with s have r: "(status_step bump_error bump_copy)\<^sup>*\<^sup>* no_statuses ?w" by (auto intro: rtranclp.rtrancl_into_rtrancl)
  have c: "Status_code ?w 0 = Some kNotFound" "Status_code ?w 1 = Some kIOError"
    by (simp_all add: Status_code_def byte_code_def)
  from Status_ownership_safe [OF bump_constructs bump_copies r, of 0 1 2]
  obtain w' w'' where "Status_assign bump_copy ?w 0 1 = Some w'" "Status_code w' 0 = Status_code ?w 1"
    "Status_copy_new bump_copy ?w 2 0 = Some w''" "Status_code w'' 2 = Status_code ?w 0" "Status_code w'' 1 = Status_code ?w 1" by auto
  with c show ?thesis by (intro exI [of _ ?w] exI [of _ w'] exI [of _ w'']) simp
qed

end
