(* ===== verification/Big_Basic.thy ===== *)
theory Big_Basic
  imports Int_Operators Complex_Main
begin

text \<open>
  The first part of the class \<^verbatim>\<open>Big\<close> of \<^verbatim>\<open>ttmathbig.h\<close>: floating point numbers with an
  \<^verbatim>\<open>Int\<close> for the exponent, a \<^verbatim>\<open>UInt\<close> for the mantissa and a byte of flags. The value is
  \<open>mantissa * 2 ^ exponent\<close> with the sign of the flags (\<open>bval\<close>, a real number). This theory has the
  flags, the special values and \<^verbatim>\<open>Standardizing\<close>, which moves the highest bit of the mantissa to
  the top; \<open>standard\<close> is the invariant it establishes and all other methods rely on.
\<close>

section \<open>Flags\<close>

record big =
  exponent :: utable
  mantissa :: utable
  info :: "8 word"

definition TTMATH_BIG_SIGN :: "8 word" where "TTMATH_BIG_SIGN = 128"
definition TTMATH_BIG_NAN :: "8 word" where "TTMATH_BIG_NAN = 64"
definition TTMATH_BIG_ZERO :: "8 word" where "TTMATH_BIG_ZERO = 32"

definition Big_ClearInfoBit :: "big \<Rightarrow> 8 word \<Rightarrow> big" where
  "Big_ClearInfoBit b m = b\<lparr>info := info b AND NOT m\<rparr>"

definition Big_SetInfoBit :: "big \<Rightarrow> 8 word \<Rightarrow> big" where
  "Big_SetInfoBit b m = b\<lparr>info := info b OR m\<rparr>"

definition Big_IsInfoBit :: "big \<Rightarrow> 8 word \<Rightarrow> bool" where
  "Big_IsInfoBit b m = (info b AND m \<noteq> 0)"

definition Big_IsZero :: "big \<Rightarrow> bool" where
  "Big_IsZero b = Big_IsInfoBit b TTMATH_BIG_ZERO"

definition Big_IsSign :: "big \<Rightarrow> bool" where
  "Big_IsSign b = Big_IsInfoBit b TTMATH_BIG_SIGN"

definition Big_IsNan :: "big \<Rightarrow> bool" where
  "Big_IsNan b = Big_IsInfoBit b TTMATH_BIG_NAN"

definition Big_SetNan :: "big \<Rightarrow> big" where
  "Big_SetNan b = Big_SetInfoBit b TTMATH_BIG_NAN"

definition Big_CheckCarry :: "big \<Rightarrow> uint \<Rightarrow> uint \<times> big" where
  "Big_CheckCarry b c = (if c \<noteq> 0 then (1, Big_SetNan b) else (0, b))"

definition Big_Abs :: "big \<Rightarrow> big" where
  "Big_Abs b = Big_ClearInfoBit b TTMATH_BIG_SIGN"

definition Big_SetSign :: "big \<Rightarrow> big" where
  "Big_SetSign b = Big_SetInfoBit b TTMATH_BIG_SIGN"

definition Big_ChangeSign :: "big \<Rightarrow> big" where
  "Big_ChangeSign b =
     (if Big_IsZero b then b
      else if Big_IsSign b then Big_ClearInfoBit b TTMATH_BIG_SIGN
      else Big_SetInfoBit b TTMATH_BIG_SIGN)"

definition Big_Swap :: "big \<Rightarrow> big \<Rightarrow> big \<times> big" where
  "Big_Swap b ss2 =
     (let (e, e2) = UInt_Swap (exponent b) (exponent ss2); (m, m2) = UInt_Swap (mantissa b) (mantissa ss2)
      in (\<lparr>exponent = e, mantissa = m, info = info ss2\<rparr>, \<lparr>exponent = e2, mantissa = m2, info = info b\<rparr>))"

section \<open>Special values\<close>

definition Big_SetZero :: "big \<Rightarrow> big" where
  "Big_SetZero b = b\<lparr>info := TTMATH_BIG_ZERO, exponent := UInt_SetZero (exponent b), mantissa := UInt_SetZero (mantissa b)\<rparr>"

definition Big_SetOne :: "big \<Rightarrow> big" where
  "Big_SetOne b =
     (let man = length (mantissa b); m = UInt_SetZero (mantissa b)
      in b\<lparr>info := 0, mantissa := m[man - 1 := TTMATH_UINT_HIGHEST_BIT],
           exponent := Int_assign_sint (exponent b) (- (of_nat (man * TTMATH_BITS_PER_UINT) - 1))\<rparr>)"

definition Big_Set05 :: "big \<Rightarrow> big option" where
  "Big_Set05 b = do {
     let b = Big_SetOne b;
     (_, e) \<leftarrow> Int_SubOne (exponent b);
     Some (b\<lparr>exponent := e\<rparr>)
   }"

definition Big_SetZeroNan :: "big \<Rightarrow> big" where
  "Big_SetZeroNan b = Big_SetNan (Big_SetZero b)"

definition Big_SetMax :: "big \<Rightarrow> big" where
  "Big_SetMax b = b\<lparr>info := 0, mantissa := UInt_SetMax (mantissa b), exponent := Int_SetMax (exponent b)\<rparr>"

definition Big_SetMin :: "big \<Rightarrow> big" where
  "Big_SetMin b =
     Big_SetSign (b\<lparr>info := 0, mantissa := UInt_SetMax (mantissa b), exponent := Int_SetMax (exponent b)\<rparr>)"

definition Big_Sgn :: "big \<Rightarrow> big" where
  "Big_Sgn b =
     (if Big_IsNan b then b
      else if Big_IsSign b then Big_SetSign (Big_SetOne b)
      else if Big_IsZero b then Big_SetZero b
      else Big_SetOne b)"

section \<open>Standardizing\<close>

definition Big_CorrectZero :: "big \<Rightarrow> bool \<times> big" where
  "Big_CorrectZero b =
     (if UInt_IsZero (mantissa b)
      then let b = Big_ClearInfoBit (Big_SetInfoBit b TTMATH_BIG_ZERO) TTMATH_BIG_SIGN
           in (True, b\<lparr>exponent := UInt_SetZero (exponent b)\<rparr>)
      else (False, Big_ClearInfoBit b TTMATH_BIG_ZERO))"

definition Big_Standardizing :: "big \<Rightarrow> (uint \<times> big) option" where
  "Big_Standardizing b =
     (if UInt_IsTheHighestBitSet (mantissa b) then Some (0, Big_ClearInfoBit b TTMATH_BIG_ZERO)
      else let (corrected, b) = Big_CorrectZero b
           in if corrected then Some (0, b)
              else do {
                (comp, m) \<leftarrow> UInt_CompensationToLeft (mantissa b);
                let b = b\<lparr>mantissa := m\<rparr>;
                let (c, e) = Int_Sub (exponent b) (Int_new_uint (exponent b) (of_nat comp));
                Some (c, b\<lparr>exponent := e\<rparr>)
              })"

section \<open>Flag lemmas\<close>

lemma flag_bits: "TTMATH_BIG_SIGN = 2 ^ 7" "TTMATH_BIG_NAN = 2 ^ 6" "TTMATH_BIG_ZERO = 2 ^ 5"
  by (simp_all add: TTMATH_BIG_SIGN_def TTMATH_BIG_NAN_def TTMATH_BIG_ZERO_def)

lemma IsInfoBit_flag: "Big_IsInfoBit b (2 ^ k) = bit (info b) k"
  by (simp add: Big_IsInfoBit_def and_exp_eq_0_iff_not_bit)

lemma flags_iff:
  "Big_IsSign b = bit (info b) 7" "Big_IsNan b = bit (info b) 6" "Big_IsZero b = bit (info b) 5"
  by (simp_all only: Big_IsSign_def Big_IsNan_def Big_IsZero_def flag_bits IsInfoBit_flag)

lemma bit_set_flag: "k < 8 \<Longrightarrow> bit (x OR 2 ^ k :: 8 word) j \<longleftrightarrow> bit x j \<or> j = k"
  by (auto simp: bit_or_iff bit_exp_iff)

lemma bit_clear_flag: "j < 8 \<Longrightarrow> bit (x AND NOT (2 ^ k) :: 8 word) j \<longleftrightarrow> bit x j \<and> j \<noteq> k"
  by (auto simp: bit_and_iff bit_not_iff bit_exp_iff)

lemma bit_flag_literals:
  fixes x :: "8 word"
  shows "bit (x OR 128) j \<longleftrightarrow> bit x j \<or> j = 7" "bit (x OR 64) j \<longleftrightarrow> bit x j \<or> j = 6"
    "bit (x OR 32) j \<longleftrightarrow> bit x j \<or> j = 5"
    "j < 8 \<Longrightarrow> bit (x AND - 129) j \<longleftrightarrow> bit x j \<and> j \<noteq> 7" "j < 8 \<Longrightarrow> bit (x AND - 65) j \<longleftrightarrow> bit x j \<and> j \<noteq> 6"
    "j < 8 \<Longrightarrow> bit (x AND - 33) j \<longleftrightarrow> bit x j \<and> j \<noteq> 5"
  using bit_set_flag [of 7 x j] bit_set_flag [of 6 x j] bit_set_flag [of 5 x j]
    bit_clear_flag [of j x 7] bit_clear_flag [of j x 6] bit_clear_flag [of j x 5] by simp_all

lemma flag_updates [simp]:
  "Big_IsSign (Big_SetNan b) = Big_IsSign b" "Big_IsNan (Big_SetNan b)" "Big_IsZero (Big_SetNan b) = Big_IsZero b"
  "\<not> Big_IsSign (Big_Abs b)" "Big_IsNan (Big_Abs b) = Big_IsNan b" "Big_IsZero (Big_Abs b) = Big_IsZero b"
  "Big_IsSign (Big_SetSign b)" "Big_IsNan (Big_SetSign b) = Big_IsNan b" "Big_IsZero (Big_SetSign b) = Big_IsZero b"
  "Big_IsSign (Big_ClearInfoBit b TTMATH_BIG_ZERO) = Big_IsSign b"
  "Big_IsNan (Big_ClearInfoBit b TTMATH_BIG_ZERO) = Big_IsNan b" "\<not> Big_IsZero (Big_ClearInfoBit b TTMATH_BIG_ZERO)"
  "Big_IsSign (Big_SetInfoBit b TTMATH_BIG_ZERO) = Big_IsSign b"
  "Big_IsNan (Big_SetInfoBit b TTMATH_BIG_ZERO) = Big_IsNan b" "Big_IsZero (Big_SetInfoBit b TTMATH_BIG_ZERO)"
  "Big_IsSign (Big_ClearInfoBit b TTMATH_BIG_SIGN) = False"
  "Big_IsNan (Big_ClearInfoBit b TTMATH_BIG_SIGN) = Big_IsNan b"
  "Big_IsZero (Big_ClearInfoBit b TTMATH_BIG_SIGN) = Big_IsZero b"
  "Big_IsSign (Big_SetInfoBit b TTMATH_BIG_SIGN)"
  "Big_IsNan (Big_SetInfoBit b TTMATH_BIG_SIGN) = Big_IsNan b"
  "Big_IsZero (Big_SetInfoBit b TTMATH_BIG_SIGN) = Big_IsZero b"
  by (simp_all add: flags_iff Big_SetNan_def Big_Abs_def Big_SetSign_def Big_SetInfoBit_def Big_ClearInfoBit_def
      flag_bits bit_flag_literals)

lemma flag_fields [simp]:
  "exponent (Big_SetInfoBit b m) = exponent b" "mantissa (Big_SetInfoBit b m) = mantissa b"
  "exponent (Big_ClearInfoBit b m) = exponent b" "mantissa (Big_ClearInfoBit b m) = mantissa b"
  by (simp_all add: Big_SetInfoBit_def Big_ClearInfoBit_def)

lemma flag_fields_named [simp]:
  "exponent (Big_SetNan b) = exponent b" "mantissa (Big_SetNan b) = mantissa b"
  "exponent (Big_Abs b) = exponent b" "mantissa (Big_Abs b) = mantissa b"
  "exponent (Big_SetSign b) = exponent b" "mantissa (Big_SetSign b) = mantissa b"
  by (simp_all add: Big_SetNan_def Big_Abs_def Big_SetSign_def)

lemma flags_of_fields [simp]:
  "Big_IsSign (b\<lparr>exponent := e\<rparr>) = Big_IsSign b" "Big_IsNan (b\<lparr>exponent := e\<rparr>) = Big_IsNan b"
  "Big_IsZero (b\<lparr>exponent := e\<rparr>) = Big_IsZero b" "Big_IsSign (b\<lparr>mantissa := m\<rparr>) = Big_IsSign b"
  "Big_IsNan (b\<lparr>mantissa := m\<rparr>) = Big_IsNan b" "Big_IsZero (b\<lparr>mantissa := m\<rparr>) = Big_IsZero b"
  by (simp_all add: flags_iff)

section \<open>Values\<close>

definition bsign :: "big \<Rightarrow> real" where
  "bsign b = (if Big_IsSign b then - 1 else 1)"

definition bval :: "big \<Rightarrow> real" where
  "bval b = bsign b * real (uval (mantissa b)) * 2 powi ival (exponent b)"

text \<open>
  The shape of an object: both tables have words, and the bits of the mantissa can be counted in
  a machine integer and in the exponent.
\<close>

definition man_limit :: nat where
  "man_limit = 2 ^ 50"

definition big_shape :: "big \<Rightarrow> bool" where
  "big_shape b \<longleftrightarrow> exponent b \<noteq> [] \<and> mantissa b \<noteq> [] \<and> length (mantissa b) < man_limit"

definition standard :: "big \<Rightarrow> bool" where
  "standard b \<longleftrightarrow> big_shape b \<and>
     (if Big_IsZero b then uval (mantissa b) = 0 \<and> uval (exponent b) = 0 \<and> \<not> Big_IsSign b
      else UInt_IsTheHighestBitSet (mantissa b))"

abbreviation man_bits :: "big \<Rightarrow> nat" where
  "man_bits b \<equiv> 64 * length (mantissa b)"

lemma standard_shape: "standard b \<Longrightarrow> big_shape b"
  by (simp add: standard_def)

lemma shape_Nil: "big_shape b \<Longrightarrow> exponent b \<noteq> []" "big_shape b \<Longrightarrow> mantissa b \<noteq> []"
  by (simp_all add: big_shape_def)

lemma shape_bits: "big_shape b \<Longrightarrow> man_bits b < 2 ^ 56"
proof -
  assume "big_shape b"
  then have "length (mantissa b) < 2 ^ 50" by (simp only: big_shape_def man_limit_def)
  then have "man_bits b < 64 * 2 ^ 50" by (rule mult_less_mono2) simp
  also have "64 * 2 ^ 50 = (2 :: nat) ^ 56" by simp
  finally show ?thesis .
qed

text \<open>The mantissa of a standard number that is not zero has its highest bit set.\<close>

lemma standard_mantissa:
  assumes "standard b" "\<not> Big_IsZero b"
  shows "2 ^ (man_bits b - 1) \<le> uval (mantissa b)" "uval (mantissa b) < 2 ^ man_bits b"
proof -
  have n: "mantissa b \<noteq> []" using assms(1) by (simp add: standard_def shape_Nil)
  have "W ^ length (mantissa b) div 2 = 2 ^ (man_bits b - 1)"
    unfolding W_power using n by (cases "man_bits b") simp_all
  then show "2 ^ (man_bits b - 1) \<le> uval (mantissa b)"
    using assms IsTheHighestBitSet_iff [OF n] by (simp add: standard_def)
  show "uval (mantissa b) < 2 ^ man_bits b" using uval_less [of "mantissa b"] by (simp only: W_power)
qed

lemma standard_zero_iff: "standard b \<Longrightarrow> Big_IsZero b \<longleftrightarrow> bval b = 0"
proof (cases "Big_IsZero b")
  case False
  assume std: "standard b"
  have "(0 :: nat) < 2 ^ (man_bits b - 1)" by simp
  also have "\<dots> \<le> uval (mantissa b)" by (rule standard_mantissa(1) [OF std False])
  finally have "0 < uval (mantissa b)" .
  with False show ?thesis by (simp add: bval_def bsign_def)
qed (simp add: standard_def bval_def)

lemma standard_zero_iff_mantissa: "standard b \<Longrightarrow> Big_IsZero b \<longleftrightarrow> uval (mantissa b) = 0"
  using standard_zero_iff [of b] by (auto simp: bval_def bsign_def)

lemma abs_bval: "\<bar>bval b\<bar> = real (uval (mantissa b)) * 2 powi ival (exponent b)"
  by (simp add: bval_def bsign_def abs_mult)

section \<open>Standardizing moves the leading bit to the top\<close>

lemma new_uint_ival:
  assumes "t \<noteq> []" "n < 2 ^ 62"
  shows "length (Int_new_uint t (of_nat n)) = length t" "ival (Int_new_uint t (of_nat n)) = int n"
proof -
  have w: "n < W" using assms(2) by (simp add: W_def)
  have "2 * n < W ^ 1" using assms(2) by (simp add: W_def)
  also have "W ^ 1 \<le> W ^ length t" using assms(1) by (intro W_power_mono) (cases t, simp_all)
  finally have "fits (length t) (int n)" by (rule fits_word)
  then show "length (Int_new_uint t (of_nat n)) = length t" "ival (Int_new_uint t (of_nat n)) = int n"
    using FromUInt_ival [OF assms(1), of "of_nat n"] unat_of_nat_small [OF w] by (simp_all add: Int_new_uint_def)
qed

lemma Standardizing_zero:
  assumes "big_shape b" "uval (mantissa b) = 0"
  shows "\<exists>z. Big_Standardizing b = Some (0, z) \<and> standard z \<and> Big_IsZero z \<and> Big_IsNan z = Big_IsNan b \<and>
    length (mantissa z) = length (mantissa b) \<and> length (exponent z) = length (exponent b)"
proof -
  have n: "mantissa b \<noteq> []" using assms(1) by (rule shape_Nil)
  have "W ^ length (mantissa b) div 2 \<noteq> 0"
    unfolding W_power using n by (cases "man_bits b") simp_all
  then have "\<not> UInt_IsTheHighestBitSet (mantissa b)" using IsTheHighestBitSet_iff [OF n] assms(2) by simp
  moreover have "uval (replicate (length (exponent b)) 0) = 0" by (simp flip: all_zero_iff)
  ultimately show ?thesis
    using assms by (simp add: Big_Standardizing_def Big_CorrectZero_def standard_def big_shape_def)
qed

lemma Standardizing_nonzero:
  assumes "big_shape b" "2 ^ k \<le> uval (mantissa b)" "uval (mantissa b) < 2 ^ Suc k"
  defines "d \<equiv> man_bits b - 1 - k"
  shows "Big_Standardizing b = Some (of_bool (\<not> fits (length (exponent b)) (ival (exponent b) - int d)),
     (Big_ClearInfoBit b TTMATH_BIG_ZERO)\<lparr>mantissa := utab (length (mantissa b)) (uval (mantissa b) * 2 ^ d),
       exponent := itab (length (exponent b)) (ival (exponent b) - int d)\<rparr>)"
proof -
  note n = shape_Nil(2,1) [OF assms(1)]
  note C = CompensationToLeft_value [OF n(1) assms(2,3), folded d_def]
  show ?thesis
  proof (cases "UInt_IsTheHighestBitSet (mantissa b)")
    case True
    have "2 ^ (man_bits b - 1) \<le> uval (mantissa b)"
      using True IsTheHighestBitSet_iff [OF n(1)] unfolding W_power using n(1) by (cases "man_bits b") simp_all
    then have "(2 :: nat) ^ (man_bits b - 1) < 2 ^ Suc k" using assms(3) by linarith
    then have "man_bits b - 1 < Suc k" by (rule power_less_imp_less_exp [rotated]) simp
    then have "d = 0" by (simp add: d_def)
    then show ?thesis using True ival_bounds [of "exponent b"] by (simp add: Big_Standardizing_def)
  next
    case False
    have "uval (mantissa b) \<noteq> 0" using assms(2) by (metis le_zero_eq power_not_zero zero_neq_numeral)
    moreover have "d < 2 ^ 62" using shape_bits [OF assms(1)] by (simp add: d_def)
    note e = new_uint_ival [OF n(2) this]
    ultimately show ?thesis
      using False C(1) Sub_ival [OF e(1) n(2)] e(2)
      by (simp add: Big_Standardizing_def Big_CorrectZero_def)
  qed
qed

text \<open>A number whose leading bit is already at the top only loses the zero flag.\<close>

lemma Standardizing_top:
  assumes "UInt_IsTheHighestBitSet (mantissa b)"
  shows "Big_Standardizing b = Some (0, Big_ClearInfoBit b TTMATH_BIG_ZERO)"
  using assms by (simp add: Big_Standardizing_def)

text \<open>Without a carry, the result is standard and has the same value.\<close>

lemma powi_add_2: "(2 :: real) powi (a + b) = 2 powi a * 2 powi b"
  by (simp add: power_int_add)

lemma powi_nat_2: "(2 :: real) powi int n = 2 ^ n"
  by (simp add: power_int_of_nat)

lemma Standardizing_value:
  assumes "big_shape b"
  shows "\<exists>c z. Big_Standardizing b = Some (c, z) \<and> length (mantissa z) = length (mantissa b) \<and>
    length (exponent z) = length (exponent b) \<and> Big_IsNan z = Big_IsNan b \<and> c \<le> 1 \<and>
    (c = 0 \<longrightarrow> standard z \<and> bval z = bval b)"
proof (cases "uval (mantissa b) = 0")
  case True
  then obtain z where z: "Big_Standardizing b = Some (0, z)" "standard z" "Big_IsZero z" "Big_IsNan z = Big_IsNan b"
    "length (mantissa z) = length (mantissa b)" "length (exponent z) = length (exponent b)"
    using Standardizing_zero [OF assms] by blast
  moreover have "bval b = 0" using True by (simp add: bval_def)
  ultimately show ?thesis using standard_zero_iff [OF z(2)] by auto
next
  case False
  then obtain k where k: "2 ^ k \<le> uval (mantissa b)" "uval (mantissa b) < 2 ^ Suc k"
    using leading_bit_exists [of "uval (mantissa b)"] by blast
  let ?d = "man_bits b - 1 - k"
  let ?m = "utab (length (mantissa b)) (uval (mantissa b) * 2 ^ ?d)"
  let ?e = "itab (length (exponent b)) (ival (exponent b) - int ?d)"
  let ?z = "(Big_ClearInfoBit b TTMATH_BIG_ZERO)\<lparr>mantissa := ?m, exponent := ?e\<rparr>"
  have n: "mantissa b \<noteq> []" using assms by (rule shape_Nil)
  note C = CompensationToLeft_value(2,3) [OF n k(1,2)]
  have m: "uval ?m = uval (mantissa b) * 2 ^ ?d" using C(2) by (simp add: uval_utab)
  have top: "UInt_IsTheHighestBitSet ?m" using IsTheHighestBitSet_iff [of ?m] n C(1) m by simp
  have "standard ?z" using top assms by (simp add: standard_def big_shape_def)
  moreover have "bval ?z = bval b" if "fits (length (exponent b)) (ival (exponent b) - int ?d)"
  proof -
    have "(2 :: real) powi ival (exponent b) = 2 powi (ival (exponent b) - int ?d) * 2 ^ ?d"
      using powi_add_2 [of "ival (exponent b) - int ?d" "int ?d"] by (simp only: powi_nat_2) simp
    then show ?thesis using that m by (simp add: bval_def bsign_def)
  qed
  ultimately show ?thesis
    using Standardizing_nonzero [OF assms k(1,2)] by simp
qed

section \<open>Values of the special numbers\<close>

text \<open>Two objects of one type have tables of the same lengths.\<close>

definition same_type :: "big \<Rightarrow> big \<Rightarrow> bool" where
  "same_type a b \<longleftrightarrow> length (exponent a) = length (exponent b) \<and> length (mantissa a) = length (mantissa b)"

lemma shape_same_type: "same_type a b \<Longrightarrow> big_shape a = big_shape b"
  unfolding same_type_def big_shape_def by (metis length_0_conv)

lemma SetZero_value:
  assumes "big_shape b"
  shows "standard (Big_SetZero b)" "Big_IsZero (Big_SetZero b)" "\<not> Big_IsNan (Big_SetZero b)" "bval (Big_SetZero b) = 0"
proof -
  have z: "uval (replicate n 0) = 0" for n by (simp flip: all_zero_iff)
  have "Big_IsZero (Big_SetZero b)" "\<not> Big_IsSign (Big_SetZero b)" "\<not> Big_IsNan (Big_SetZero b)"
    by (simp_all add: Big_IsZero_def Big_IsSign_def Big_IsNan_def Big_IsInfoBit_def Big_SetZero_def
        TTMATH_BIG_ZERO_def TTMATH_BIG_SIGN_def TTMATH_BIG_NAN_def)
  then show "standard (Big_SetZero b)" "Big_IsZero (Big_SetZero b)" "\<not> Big_IsNan (Big_SetZero b)" "bval (Big_SetZero b) = 0"
    using assms z by (simp_all add: standard_def bval_def big_shape_def Big_SetZero_def)
qed

lemma top_bit_table:
  assumes "0 < n"
  shows "uval ((replicate n 0)[n - 1 := TTMATH_UINT_HIGHEST_BIT]) = 2 ^ (64 * n - 1)"
proof -
  obtain k where n: "n = Suc k" using assms by (cases n) auto
  have "(replicate n 0)[n - 1 := TTMATH_UINT_HIGHEST_BIT] = replicate k 0 @ [TTMATH_UINT_HIGHEST_BIT]"
    by (simp add: n replicate_append_same [symmetric] list_update_append)
  moreover have "uval (replicate k 0) = 0" by (simp flip: all_zero_iff)
  moreover have "unat TTMATH_UINT_HIGHEST_BIT = 2 ^ 63" by (simp add: TTMATH_UINT_HIGHEST_BIT_def)
  ultimately have "uval ((replicate n 0)[n - 1 := TTMATH_UINT_HIGHEST_BIT]) = W ^ k * 2 ^ 63"
    by (simp add: uval_snoc)
  also have "\<dots> = 2 ^ (64 * k + 63)" by (simp only: W_power power_add)
  also have "64 * k + 63 = 64 * n - 1" by (simp add: n)
  finally show ?thesis .
qed

lemma assign_sint_ival:
  assumes "t \<noteq> []"
  shows "ival (Int_assign_sint t v) = sint v" "length (Int_assign_sint t v) = length t"
proof -
  have "fits 1 (sint v)" using ival_bounds [of "[v]"] by (simp add: ival_single)
  moreover have "1 \<le> length t" using assms by (cases t) simp_all
  ultimately have "fits (length t) (sint v)" by (rule fits_mono)
  then show "ival (Int_assign_sint t v) = sint v" "length (Int_assign_sint t v) = length t"
    using FromInt_ival [OF assms, of v] by (simp_all add: Int_assign_sint_def)
qed

lemma sint_of_int_small: "- (2 ^ 63) \<le> x \<Longrightarrow> x < 2 ^ 63 \<Longrightarrow> sint (of_int x :: uint) = x"
  by (simp add: sint_sbintrunc' signed_take_bit_int_eq_self)

lemma SetOne_standard:
  assumes "big_shape b"
  shows "standard (Big_SetOne b)" "bval (Big_SetOne b) = 1" "\<not> Big_IsNan (Big_SetOne b)" "\<not> Big_IsZero (Big_SetOne b)"
proof -
  let ?n = "length (mantissa b)" and ?r = "Big_SetOne b"
  have n: "0 < ?n" using shape_Nil(2) [OF assms] by simp
  have bits: "man_bits b < 2 ^ 56" by (rule shape_bits [OF assms])
  have m: "mantissa ?r = (replicate ?n 0)[?n - 1 := TTMATH_UINT_HIGHEST_BIT]" by (simp add: Big_SetOne_def Let_def)
  have f: "\<not> Big_IsSign ?r" "\<not> Big_IsZero ?r" "\<not> Big_IsNan ?r"
    by (simp_all add: flags_iff Big_SetOne_def Let_def)
  have u: "uval (mantissa ?r) = 2 ^ (man_bits b - 1)" unfolding m by (rule top_bit_table [OF n])
  have "- (of_nat (?n * TTMATH_BITS_PER_UINT) - 1) = (of_int (- (int (man_bits b) - 1)) :: uint)"
    by (simp add: TTMATH_BITS_PER_UINT_def)
  moreover have "sint (of_int (- (int (man_bits b) - 1)) :: uint) = - (int (man_bits b) - 1)"
    by (rule sint_of_int_small) (use bits n in simp_all)
  ultimately have e: "ival (exponent ?r) = 1 - int (man_bits b)" "length (exponent ?r) = length (exponent b)"
    using assign_sint_ival [OF shape_Nil(1) [OF assms]] by (simp_all add: Big_SetOne_def Let_def)
  have "UInt_IsTheHighestBitSet (mantissa ?r)"
    unfolding m UInt_IsTheHighestBitSet_def using n by (simp add: TTMATH_UINT_HIGHEST_BIT_def)
  moreover have "same_type ?r b" using e(2) by (simp add: same_type_def m)
  ultimately show "standard ?r" using assms f shape_same_type by (simp add: standard_def)
  have "int (man_bits b - 1) + (1 - int (man_bits b)) = 0" using n by linarith
  then have "(2 :: real) ^ (man_bits b - 1) * 2 powi (1 - int (man_bits b)) = 1"
    by (simp flip: powi_nat_2 powi_add_2)
  then show "bval ?r = 1" using u e(1) f(1) by (simp add: bval_def bsign_def)
  show "\<not> Big_IsNan ?r" "\<not> Big_IsZero ?r" by (rule f)+
qed

lemma ChangeSign_value:
  assumes "standard b"
  shows "standard (Big_ChangeSign b)" "bval (Big_ChangeSign b) = - bval b"
    "Big_IsNan (Big_ChangeSign b) = Big_IsNan b" "same_type (Big_ChangeSign b) b"
proof -
  have t: "same_type (Big_ChangeSign b) b" by (simp add: same_type_def Big_ChangeSign_def)
  have m: "mantissa (Big_ChangeSign b) = mantissa b" "exponent (Big_ChangeSign b) = exponent b"
    by (simp_all add: Big_ChangeSign_def)
  have "Big_IsZero (Big_ChangeSign b) = Big_IsZero b" "Big_IsNan (Big_ChangeSign b) = Big_IsNan b"
    by (simp_all add: Big_ChangeSign_def)
  then show "standard (Big_ChangeSign b)" "Big_IsNan (Big_ChangeSign b) = Big_IsNan b"
    using assms shape_same_type [OF t] by (auto simp: standard_def m Big_ChangeSign_def)
  show "bval (Big_ChangeSign b) = - bval b"
    using standard_zero_iff_mantissa [OF assms] by (auto simp: bval_def bsign_def m Big_ChangeSign_def)
  show "same_type (Big_ChangeSign b) b" by (rule t)
qed

lemma Swap_big: "same_type a b \<Longrightarrow> Big_Swap a b = (b, a)"
  by (simp add: Big_Swap_def Swap_eq same_type_def)

end
