(* ===== verification/Big_Compare.thy ===== *)
theory Big_Compare
  imports Big_Basic
begin

text \<open>
  Comparison of \<^verbatim>\<open>Big\<close> numbers (\<^verbatim>\<open>ttmathbig.h\<close>). The methods compare exponents first and
  mantissas second, which is the order of the values because standard mantissas have their highest
  bit at the same place. The flag for a value that is not a number is not looked at.
\<close>

definition Big_SmallerWithoutSignThan :: "big \<Rightarrow> big \<Rightarrow> bool" where
  "Big_SmallerWithoutSignThan b ss2 =
     (if Big_IsZero b then (if Big_IsZero ss2 then False else True)
      else if Big_IsZero ss2 then False
      else if Int_equal (exponent b) (exponent ss2) then UInt_less (mantissa b) (mantissa ss2)
      else Int_less (exponent b) (exponent ss2))"

definition Big_GreaterWithoutSignThan :: "big \<Rightarrow> big \<Rightarrow> bool" where
  "Big_GreaterWithoutSignThan b ss2 =
     (if Big_IsZero b then (if Big_IsZero ss2 then False else False)
      else if Big_IsZero ss2 then True
      else if Int_equal (exponent b) (exponent ss2) then UInt_greater (mantissa b) (mantissa ss2)
      else Int_greater (exponent b) (exponent ss2))"

definition Big_EqualWithoutSign :: "big \<Rightarrow> big \<Rightarrow> bool" where
  "Big_EqualWithoutSign b ss2 =
     (if Big_IsZero b then (if Big_IsZero ss2 then True else False)
      else if Big_IsZero ss2 then False
      else if Int_equal (exponent b) (exponent ss2) \<and> UInt_equal (mantissa b) (mantissa ss2) then True
      else False)"

definition Big_less :: "big \<Rightarrow> big \<Rightarrow> bool" where
  "Big_less b ss2 =
     (if Big_IsSign b \<and> \<not> Big_IsSign ss2 then True
      else if \<not> Big_IsSign b \<and> Big_IsSign ss2 then False
      else if Big_IsSign b then Big_SmallerWithoutSignThan ss2 b
      else Big_SmallerWithoutSignThan b ss2)"

definition Big_equal :: "big \<Rightarrow> big \<Rightarrow> bool" where
  "Big_equal b ss2 = (if Big_IsSign b \<noteq> Big_IsSign ss2 then False else Big_EqualWithoutSign b ss2)"

definition Big_greater :: "big \<Rightarrow> big \<Rightarrow> bool" where
  "Big_greater b ss2 =
     (if Big_IsSign b \<and> \<not> Big_IsSign ss2 then False
      else if \<not> Big_IsSign b \<and> Big_IsSign ss2 then True
      else if Big_IsSign b then Big_GreaterWithoutSignThan ss2 b
      else Big_GreaterWithoutSignThan b ss2)"

definition Big_greater_equal :: "big \<Rightarrow> big \<Rightarrow> bool" where
  "Big_greater_equal b ss2 = (\<not> Big_less b ss2)"

definition Big_less_equal :: "big \<Rightarrow> big \<Rightarrow> bool" where
  "Big_less_equal b ss2 = (\<not> Big_greater b ss2)"

definition Big_not_equal :: "big \<Rightarrow> big \<Rightarrow> bool" where
  "Big_not_equal b ss2 = (\<not> Big_equal b ss2)"

section \<open>Comparison is the order of the values\<close>

text \<open>Numbers \<open>m * 2 ^ e\<close> with mantissas of exactly \<open>k + 1\<close> bits are ordered by exponent first.\<close>

lemma normalised_less:
  assumes "2 ^ k \<le> m" "m < 2 ^ Suc k" "2 ^ k \<le> m'" "m' < 2 ^ Suc k" "e < e'"
  shows "real m * 2 powi e < real m' * 2 powi e'"
proof -
  have m: "real m < 2 ^ Suc k" "2 ^ k \<le> real m'"
    using assms(2,3) by (metis of_nat_less_iff of_nat_numeral of_nat_power, metis of_nat_le_iff of_nat_numeral of_nat_power)
  then have "real m * 2 powi e < 2 ^ Suc k * 2 powi e" by (simp only: mult_less_cancel_right_pos zero_less_power_int zero_less_numeral)
  also have "\<dots> = 2 ^ k * 2 powi (e + 1)" by (simp add: power_int_add)
  also have "\<dots> \<le> 2 ^ k * 2 powi e'" using assms(5) by (simp add: power_int_increasing)
  also have "\<dots> \<le> real m' * 2 powi e'"
    using m(2) by (simp only: mult_le_cancel_right_pos zero_less_power_int zero_less_numeral)
  finally show ?thesis .
qed

lemma abs_bval_less_iff:
  assumes "standard a" "standard b" "same_type a b" "\<not> Big_IsZero a" "\<not> Big_IsZero b"
  shows "\<bar>bval a\<bar> < \<bar>bval b\<bar> \<longleftrightarrow> ival (exponent a) < ival (exponent b) \<or>
    ival (exponent a) = ival (exponent b) \<and> uval (mantissa a) < uval (mantissa b)"
    (is "_ \<longleftrightarrow> ?r")
proof -
  let ?k = "man_bits a - 1"
  have "0 < length (mantissa a)" using shape_Nil(2) [OF standard_shape [OF assms(1)]] by simp
  then have k: "Suc ?k = man_bits a" "man_bits b = man_bits a"
    using assms(3) by (linarith, simp add: same_type_def)
  note A = standard_mantissa [OF assms(1,4)] and B = standard_mantissa [OF assms(2,5), unfolded k(2)]
  note N = normalised_less [of ?k, unfolded k(1), OF A B] normalised_less [of ?k, unfolded k(1), OF B A]
  consider "ival (exponent a) < ival (exponent b)" | "ival (exponent b) < ival (exponent a)"
    | "ival (exponent a) = ival (exponent b)" by linarith
  then show ?thesis
  proof cases
    case 2
    from N(2) [OF 2] have "\<bar>bval b\<bar> < \<bar>bval a\<bar>" by (simp add: abs_bval)
    with 2 show ?thesis by simp
  qed (use N(1) in \<open>simp_all add: abs_bval\<close>)
qed

lemma WithoutSign_values:
  assumes "standard a" "standard b" "same_type a b"
  shows "Big_SmallerWithoutSignThan a b \<longleftrightarrow> \<bar>bval a\<bar> < \<bar>bval b\<bar>"
    and "Big_GreaterWithoutSignThan a b \<longleftrightarrow> \<bar>bval b\<bar> < \<bar>bval a\<bar>"
    and "Big_EqualWithoutSign a b \<longleftrightarrow> \<bar>bval a\<bar> = \<bar>bval b\<bar>"
proof -
  have l: "length (exponent b) = length (exponent a)" "length (mantissa b) = length (mantissa a)" "same_type b a"
    using assms(3) by (simp_all add: same_type_def)
  note E = Int_comparison [OF l(1) shape_Nil(1) [OF standard_shape [OF assms(1)]]]
  note M = Cmp_values [OF l(2)]
  note Z = standard_zero_iff [OF assms(1)] standard_zero_iff [OF assms(2)]
  consider "Big_IsZero a \<or> Big_IsZero b" | "\<not> Big_IsZero a" "\<not> Big_IsZero b" by blast
  then have "(Big_SmallerWithoutSignThan a b \<longleftrightarrow> \<bar>bval a\<bar> < \<bar>bval b\<bar>) \<and>
    (Big_GreaterWithoutSignThan a b \<longleftrightarrow> \<bar>bval b\<bar> < \<bar>bval a\<bar>) \<and>
    (Big_EqualWithoutSign a b \<longleftrightarrow> \<bar>bval a\<bar> = \<bar>bval b\<bar>)"
  proof cases
    case 1
    then show ?thesis
      using Z by (auto simp: Big_SmallerWithoutSignThan_def Big_GreaterWithoutSignThan_def Big_EqualWithoutSign_def)
  next
    case 2
    note L = abs_bval_less_iff [OF assms 2] abs_bval_less_iff [OF assms(2,1) l(3) 2(2,1)]
    have eq: "\<bar>bval a\<bar> = \<bar>bval b\<bar> \<longleftrightarrow> \<not> \<bar>bval a\<bar> < \<bar>bval b\<bar> \<and> \<not> \<bar>bval b\<bar> < \<bar>bval a\<bar>" by linarith
    show ?thesis
      unfolding eq L using 2 E M
      by (auto simp: Big_SmallerWithoutSignThan_def Big_GreaterWithoutSignThan_def Big_EqualWithoutSign_def
          UInt_less_def UInt_greater_def UInt_equal_def)
  qed
  then show "Big_SmallerWithoutSignThan a b \<longleftrightarrow> \<bar>bval a\<bar> < \<bar>bval b\<bar>"
    "Big_GreaterWithoutSignThan a b \<longleftrightarrow> \<bar>bval b\<bar> < \<bar>bval a\<bar>" "Big_EqualWithoutSign a b \<longleftrightarrow> \<bar>bval a\<bar> = \<bar>bval b\<bar>"
    by blast+
qed

lemma bval_sign:
  assumes "standard b"
  shows "Big_IsSign b \<longleftrightarrow> bval b < 0"
proof (cases "Big_IsZero b")
  case True
  then show ?thesis using assms by (simp add: standard_def bval_def)
next
  case False
  then have "uval (mantissa b) \<noteq> 0" using standard_zero_iff_mantissa [OF assms] by simp
  then have "0 < real (uval (mantissa b)) * 2 powi ival (exponent b)" by simp
  then show ?thesis by (auto simp: bval_def bsign_def)
qed

lemma Big_comparison:
  assumes "standard a" "standard b" "same_type a b"
  shows "Big_less a b \<longleftrightarrow> bval a < bval b" "Big_greater a b \<longleftrightarrow> bval b < bval a" "Big_equal a b \<longleftrightarrow> bval a = bval b"
    "Big_less_equal a b \<longleftrightarrow> bval a \<le> bval b" "Big_greater_equal a b \<longleftrightarrow> bval b \<le> bval a"
    "Big_not_equal a b \<longleftrightarrow> bval a \<noteq> bval b"
proof -
  have t: "same_type b a" using assms(3) by (simp add: same_type_def)
  note S = bval_sign [OF assms(1)] bval_sign [OF assms(2)]
  note V = WithoutSign_values [OF assms] WithoutSign_values [OF assms(2,1) t]
  show lt: "Big_less a b \<longleftrightarrow> bval a < bval b" unfolding Big_less_def S V by auto
  show gt: "Big_greater a b \<longleftrightarrow> bval b < bval a" unfolding Big_greater_def S V by auto
  show eq: "Big_equal a b \<longleftrightarrow> bval a = bval b" unfolding Big_equal_def S V by auto
  show "Big_less_equal a b \<longleftrightarrow> bval a \<le> bval b" "Big_greater_equal a b \<longleftrightarrow> bval b \<le> bval a"
    "Big_not_equal a b \<longleftrightarrow> bval a \<noteq> bval b"
    unfolding Big_less_equal_def Big_greater_equal_def Big_not_equal_def lt gt eq by auto
qed

end
