(* ===== verification/Big_Round.thy ===== *)
theory Big_Round
  imports Big_Compare
begin

text \<open>
  Rounding of \<^verbatim>\<open>Big\<close> numbers (\<^verbatim>\<open>ttmathbig.h\<close>). Multiplication and division compute twice as many
  bits as a mantissa has; the upper half is the new mantissa, rounded half to even by the lower
  half. \<open>round_even\<close> is the specification of that rounding on natural numbers.
\<close>

section \<open>Definitions\<close>

definition Big_RoundHalfToEven :: "big \<Rightarrow> bool \<Rightarrow> bool \<Rightarrow> (uint \<times> big) option" where
  "Big_RoundHalfToEven b is_half rounding_up =
     (if \<not> is_half \<or> UInt_IsTheLowestBitSet (mantissa b) then
        if rounding_up then do {
          (c, m) \<leftarrow> UInt_AddOne (mantissa b);
          if c \<noteq> 0 then do {
            (_, m) \<leftarrow> UInt_Rcr m 1 1;
            (c, e) \<leftarrow> Int_AddOne (exponent b);
            Some (c, b\<lparr>mantissa := m, exponent := e\<rparr>)
          } else Some (0, b\<lparr>mantissa := m\<rparr>)
        } else do {
          (c_from_zero, m) \<leftarrow> UInt_SubOne (mantissa b);
          if c_from_zero = 0 then Some (0, b\<lparr>mantissa := m\<rparr>) else None
        }
      else Some (0, b))"

definition Big_CheckGreaterOrEqualHalf :: "utable \<Rightarrow> nat \<Rightarrow> bool option" where
  "Big_CheckGreaterOrEqualHalf tab len =
     (if len > 0 \<and> tab ! (len - 1) AND TTMATH_UINT_HIGHEST_BIT \<noteq> 0
      then Some (if \<not> all_zero (take (len - 1) tab) then False
                 else if tab ! (len - 1) \<noteq> TTMATH_UINT_HIGHEST_BIT then False
                 else True)
      else None)"

section \<open>Rounding half to even\<close>

definition round_even :: "nat \<Rightarrow> nat \<Rightarrow> nat" where
  "round_even p d = (if d < 2 * (p mod d) \<or> 2 * (p mod d) = d \<and> odd (p div d) then p div d + 1 else p div d)"

lemma round_even_error:
  assumes "0 < d"
  shows "\<bar>real (round_even p d) - real p / real d\<bar> \<le> 1 / 2"
proof -
  have p: "real p = real d * real (p div d) + real (p mod d)"
    by (metis mult_div_mod_eq of_nat_add of_nat_mult)
  have q: "real p / real d = real (p div d) + real (p mod d) / real d"
    using assms by (simp add: p field_simps)
  have r: "real (p mod d) / real d < 1" "0 \<le> real (p mod d) / real d" using assms by (simp_all add: divide_less_eq)
  show ?thesis
  proof (cases "d < 2 * (p mod d) \<or> 2 * (p mod d) = d \<and> odd (p div d)")
    case True
    then have "real d \<le> 2 * real (p mod d)" by linarith
    then have "1 / 2 \<le> real (p mod d) / real d" using assms by (simp add: field_simps)
    with r True show ?thesis by (simp add: round_even_def q)
  next
    case False
    then have "2 * (p mod d) \<le> d" by linarith
    then have "real (2 * (p mod d)) \<le> real d" by (simp only: of_nat_le_iff)
    then have "real (p mod d) / real d \<le> 1 / 2" using assms by (simp add: field_simps)
    with r False show ?thesis by (auto simp: round_even_def q)
  qed
qed

lemma round_even_exact: "d dvd p \<Longrightarrow> round_even p d = p div d"
  by (cases "d = 0") (simp_all add: round_even_def)

lemma round_even_tie: "2 * (p mod d) = d \<Longrightarrow> even (round_even p d)"
  by (simp add: round_even_def)

text \<open>A number with its leading bit at the top, after the rounding. A mantissa of ones becomes the
  power of two above it, which is written with the next exponent.\<close>

definition rounded :: "big \<Rightarrow> nat \<Rightarrow> big" where
  "rounded b r = (if r = W ^ length (mantissa b)
     then b\<lparr>mantissa := utab (length (mantissa b)) (r div 2), exponent := itab (length (exponent b)) (ival (exponent b) + 1)\<rparr>
     else b\<lparr>mantissa := utab (length (mantissa b)) r\<rparr>)"

lemma IsTheLowestBitSet_iff: "t \<noteq> [] \<Longrightarrow> UInt_IsTheLowestBitSet t \<longleftrightarrow> odd (uval t)"
  by (cases t) (simp_all add: UInt_IsTheLowestBitSet_def and_1_eq_0_iff W_def)

lemma RoundHalfToEven_up:
  fixes is_half :: bool
  assumes "big_shape b"
  defines "r \<equiv> (if \<not> is_half \<or> odd (uval (mantissa b)) then uval (mantissa b) + 1 else uval (mantissa b))"
  shows "Big_RoundHalfToEven b is_half True =
    Some (of_bool (r = W ^ length (mantissa b) \<and> \<not> fits (length (exponent b)) (ival (exponent b) + 1)), rounded b r)"
proof -
  let ?n = "length (mantissa b)" and ?u = "uval (mantissa b)"
  note n = shape_Nil [OF assms(1)]
  have u: "?u < W ^ ?n" by (rule uval_less)
  note low = IsTheLowestBitSet_iff [OF n(2)]
  show ?thesis
  proof (cases "\<not> is_half \<or> odd ?u")
    case False
    then show ?thesis using u low by (simp add: Big_RoundHalfToEven_def rounded_def r_def)
  next
    case True
    then have r: "r = ?u + 1" by (simp add: r_def)
    show ?thesis
    proof (cases "r = W ^ ?n")
      case top: True
      have "utab ?n r = utab ?n 0" unfolding top using utab_mod [of ?n "W ^ ?n"] by simp
      then have "carry_result ?n r = (1, utab ?n 0)" by (simp add: carry_result_def top)
      moreover have "UInt_Rcr (utab ?n 0) 1 1 = Some (0, utab ?n (r div 2))"
        using Rcr_result [of "utab ?n 0" 1 1] n(2) top by (simp add: shr_value_def fill_bits_def uval_utab)
      ultimately show ?thesis
        using True low AddOne_result [OF n(2)] AddOne_ival [OF n(1)] r top
        by (simp add: Big_RoundHalfToEven_def rounded_def)
    next
      case False
      then have "r < W ^ ?n" using u r by simp
      then have "carry_result ?n r = (0, utab ?n r)" by (simp add: carry_result_def)
      then show ?thesis
        using True low AddOne_result [OF n(2)] r False by (simp add: Big_RoundHalfToEven_def rounded_def)
    qed
  qed
qed

lemma rounded_fields [simp]:
  "Big_IsSign (rounded b r) = Big_IsSign b" "Big_IsNan (rounded b r) = Big_IsNan b"
  "length (mantissa (rounded b r)) = length (mantissa b)" "length (exponent (rounded b r)) = length (exponent b)"
  by (simp_all add: rounded_def)

lemma half_W_power: "0 < n \<Longrightarrow> W ^ n = 2 * (W ^ n div 2)"
  using even_W_power by simp

lemma half_top: "0 < n \<Longrightarrow> W ^ n div 2 = 2 ^ (64 * n - 1)"
  unfolding W_power by (cases "64 * n") simp_all

lemma rounded_mantissa:
  assumes "r \<le> W ^ length (mantissa b)"
  shows "uval (mantissa (rounded b r)) = (if r = W ^ length (mantissa b) then W ^ length (mantissa b) div 2 else r)"
proof (cases "r = W ^ length (mantissa b)")
  case True
  have "W ^ length (mantissa b) div 2 < W ^ length (mantissa b)" by simp
  then show ?thesis using True by (simp add: rounded_def uval_utab)
next
  case False
  then have "r < W ^ length (mantissa b)" using assms by simp
  then show ?thesis using False by (simp add: rounded_def uval_utab)
qed

lemma rounded_top:
  assumes "big_shape b" "W ^ length (mantissa b) div 2 \<le> r" "r \<le> W ^ length (mantissa b)"
  shows "UInt_IsTheHighestBitSet (mantissa (rounded b r))"
proof -
  have "mantissa (rounded b r) \<noteq> []" using shape_Nil(2) [OF assms(1)] by (metis length_0_conv rounded_fields(3))
  from IsTheHighestBitSet_iff [OF this] show ?thesis
    using rounded_mantissa [OF assms(3)] assms(2) by (simp split: if_splits)
qed

lemma rounded_value:
  assumes "big_shape b" "r \<le> W ^ length (mantissa b)"
    "r = W ^ length (mantissa b) \<longrightarrow> fits (length (exponent b)) (ival (exponent b) + 1)"
  shows "real (uval (mantissa (rounded b r))) * 2 powi ival (exponent (rounded b r)) = real r * 2 powi ival (exponent b)"
    "ival (exponent b) \<le> ival (exponent (rounded b r))"
proof -
  let ?D = "W ^ length (mantissa b)"
  have n: "0 < length (mantissa b)" using shape_Nil(2) [OF assms(1)] by simp
  have e: "ival (exponent (rounded b r)) = (if r = ?D then ival (exponent b) + 1 else ival (exponent b))"
    using assms(3) by (simp add: rounded_def)
  then show "ival (exponent b) \<le> ival (exponent (rounded b r))" by simp
  have "real ?D = 2 * real (?D div 2)" using half_W_power [OF n] by (metis of_nat_mult of_nat_numeral)
  then show "real (uval (mantissa (rounded b r))) * 2 powi ival (exponent (rounded b r)) = real r * 2 powi ival (exponent b)"
    unfolding rounded_mantissa [OF assms(2)] e by (simp add: power_int_add)
qed

text \<open>The lower half of a double-size table against one half.\<close>

lemma CheckGreaterOrEqualHalf_value:
  assumes "0 < n" "n \<le> length tab"
  shows "tab ! (n - 1) AND TTMATH_UINT_HIGHEST_BIT \<noteq> 0 \<longleftrightarrow> W ^ n \<le> 2 * uval (take n tab)"
    "W ^ n \<le> 2 * uval (take n tab) \<Longrightarrow>
     Big_CheckGreaterOrEqualHalf tab n = Some (2 * uval (take n tab) = W ^ n)"
proof -
  let ?t = "take n tab"
  have l: "length ?t = n" "?t \<noteq> []" "?t ! (n - 1) = tab ! (n - 1)" using assms by auto
  have h: "UInt_IsTheHighestBitSet ?t \<longleftrightarrow> tab ! (n - 1) AND TTMATH_UINT_HIGHEST_BIT \<noteq> 0"
    by (simp only: UInt_IsTheHighestBitSet_def l)
  have h2: "UInt_IsTheHighestBitSet ?t \<longleftrightarrow> W ^ n \<le> 2 * uval ?t"
    using IsTheHighestBitSet_iff [OF l(2)] half_W_power [OF assms(1)] unfolding l(1) by linarith
  show "tab ! (n - 1) AND TTMATH_UINT_HIGHEST_BIT \<noteq> 0 \<longleftrightarrow> W ^ n \<le> 2 * uval ?t" using h h2 by simp
  have o: "UInt_IsOnlyTheHighestBitSet ?t \<longleftrightarrow> 2 * uval ?t = W ^ n"
    using IsOnlyTheHighestBitSet_iff [OF l(2)] half_W_power [OF assms(1)] unfolding l(1) by linarith
  have "take (n - 1) ?t = take (n - 1) tab" using assms by (simp add: min_def)
  then have "UInt_IsOnlyTheHighestBitSet ?t \<longleftrightarrow> all_zero (take (n - 1) tab) \<and> tab ! (n - 1) = TTMATH_UINT_HIGHEST_BIT"
    using l by (auto simp: UInt_IsOnlyTheHighestBitSet_def)
  then show "Big_CheckGreaterOrEqualHalf tab n = Some (2 * uval ?t = W ^ n)" if "W ^ n \<le> 2 * uval ?t"
    using that assms(1) h h2 o by (auto simp: Big_CheckGreaterOrEqualHalf_def)
qed

section \<open>The rounded result\<close>

lemma rounded_same: "uval (mantissa b) = r \<Longrightarrow> rounded b r = b"
  using uval_less [of "mantissa b"] by (auto simp: rounded_def)

text \<open>
  The upper half of a double-size table \<open>p\<close> becomes the mantissa, and the lower half decides the
  rounding: together the upper half of \<open>p\<close> rounded half to even, or the upper half alone.
\<close>

definition upper_half :: "bool \<Rightarrow> nat \<Rightarrow> nat \<Rightarrow> nat" where
  "upper_half rnd n p = (if rnd then round_even p (W ^ n) else p div W ^ n)"

lemma upper_half_less: "p < W ^ (2 * n) \<Longrightarrow> p div W ^ n < W ^ n"
  by (rule less_mult_imp_div_less) (simp only: mult_2 power_add)

lemma round_step:
  fixes rnd :: bool
  assumes "big_shape b" "length (mantissa b) = n" "p < W ^ (2 * n)"
    "mantissa b = take n (drop n (utab (2 * n) p))"
  defines "T \<equiv> utab (2 * n) p" and "R \<equiv> upper_half rnd n p"
  shows "(if rnd \<and> T ! (n - 1) AND TTMATH_UINT_HIGHEST_BIT \<noteq> 0 then do {
        is_half \<leftarrow> Big_CheckGreaterOrEqualHalf T n;
        (d, b) \<leftarrow> Big_RoundHalfToEven b is_half True;
        Some (c + d, b)
      } else Some (c, b)) =
    Some (c + of_bool (R = W ^ n \<and> \<not> fits (length (exponent b)) (ival (exponent b) + 1)), rounded b R)"
proof -
  have n: "0 < n" "n \<le> length T" using shape_Nil(2) [OF assms(1)] assms(2) by (auto simp: T_def)
  have l: "uval (take n T) = p mod W ^ n"
    using assms(3) by (simp add: uval_take T_def uval_utab)
  have m: "uval (mantissa b) = p div W ^ n"
    using assms(3) by (simp add: assms(4) uval_drop uval_utab)
  then have q: "p div W ^ n < W ^ n" using uval_less [of "mantissa b"] assms(2) by simp
  note C = CheckGreaterOrEqualHalf_value [OF n, unfolded l]
  show ?thesis
  proof (cases "rnd \<and> W ^ n \<le> 2 * (p mod W ^ n)")
    case True
    then have "R = (if \<not> 2 * (p mod W ^ n) = W ^ n \<or> odd (uval (mantissa b)) then uval (mantissa b) + 1 else uval (mantissa b))"
      by (auto simp: R_def upper_half_def round_even_def m)
    then show ?thesis
      using True C RoundHalfToEven_up [OF assms(1), of "2 * (p mod W ^ n) = W ^ n"] assms(2) by simp
  next
    case False
    then have "R = uval (mantissa b)" by (auto simp: R_def upper_half_def round_even_def m)
    then show ?thesis using False C(1) q m by (auto simp: rounded_same)
  qed
qed

text \<open>The sign is set last, and standardizing has nothing left to move.\<close>

definition finished :: "bool \<Rightarrow> big \<Rightarrow> big" where
  "finished same b = Big_ClearInfoBit (if same then Big_Abs b else Big_SetSign b) TTMATH_BIG_ZERO"

lemma finish_step:
  assumes "UInt_IsTheHighestBitSet (mantissa b)"
  shows "Big_Standardizing (if same then Big_Abs b else Big_SetSign b) = Some (0, finished same b)"
  using assms by (simp add: finished_def Standardizing_top)

lemma finished_fields [simp]:
  "mantissa (finished s b) = mantissa b" "exponent (finished s b) = exponent b"
  "Big_IsNan (finished s b) = Big_IsNan b" "\<not> Big_IsZero (finished s b)" "Big_IsSign (finished s b) = (\<not> s)"
  by (simp_all add: finished_def)

lemma upper_half_bounds:
  assumes "W ^ (2 * n) \<le> 2 * p" "p < W ^ (2 * n)"
  shows "W ^ n div 2 \<le> upper_half rnd n p" "upper_half rnd n p \<le> W ^ n"
proof -
  have "W ^ n * (W ^ n div 2) \<le> p" 
  proof -
    have "2 * (W ^ n * (W ^ n div 2)) \<le> W ^ n * W ^ n" by (simp add: mult.left_commute)
    also have "\<dots> = W ^ (2 * n)" by (simp only: mult_2 power_add)
    also have "\<dots> \<le> 2 * p" by (rule assms(1))
    finally show ?thesis by simp
  qed
  then have "W ^ n * (W ^ n div 2) div W ^ n \<le> p div W ^ n" by (rule div_le_mono)
  then have lo: "W ^ n div 2 \<le> p div W ^ n" by simp
  have hi: "p div W ^ n < W ^ n" by (rule upper_half_less [OF assms(2)])
  show "W ^ n div 2 \<le> upper_half rnd n p" "upper_half rnd n p \<le> W ^ n"
    using lo hi by (auto simp: upper_half_def round_even_def)
qed

lemma rounded_result:
  fixes s :: bool
  assumes "big_shape b" "\<not> Big_IsNan b" "W ^ length (mantissa b) div 2 \<le> r" "r \<le> W ^ length (mantissa b)"
    "r = W ^ length (mantissa b) \<longrightarrow> fits (length (exponent b)) (ival (exponent b) + 1)"
  defines "z \<equiv> finished s (rounded b r)"
  shows "standard z" "\<not> Big_IsNan z" "\<not> Big_IsZero z" "same_type z b"
    "bval z = (if s then 1 else - 1) * real r * 2 powi ival (exponent b)"
    "ival (exponent b) \<le> ival (exponent z)"
proof -
  note V = rounded_value [OF assms(1,4,5)] and top = rounded_top [OF assms(1,3,4)]
  show t: "same_type z b" by (simp add: z_def same_type_def)
  show "standard z" using top shape_same_type [OF t] assms(1) by (simp add: standard_def z_def)
  show "\<not> Big_IsNan z" "\<not> Big_IsZero z" "ival (exponent b) \<le> ival (exponent z)" using assms(2) V(2) by (simp_all add: z_def)
  show "bval z = (if s then 1 else - 1) * real r * 2 powi ival (exponent b)"
    using V(1) by (simp add: bval_def bsign_def z_def)
qed

text \<open>
  The end of multiplication and division: the table \<open>p\<close> is rounded into the number \<open>b\<close>, which has
  its upper half for the mantissa, and the sign and the carries are set.
\<close>

lemma rounding_tail:
  fixes rnd :: bool
  assumes "big_shape b" "length (mantissa b) = n" "W ^ (2 * n) \<le> 2 * p" "p < W ^ (2 * n)"
    "mantissa b = take n (drop n (utab (2 * n) p))"
  defines "T \<equiv> utab (2 * n) p" and "R \<equiv> upper_half rnd n p"
  shows "do {
      (c, b) \<leftarrow> (if rnd \<and> T ! (n - 1) AND TTMATH_UINT_HIGHEST_BIT \<noteq> 0 then do {
        is_half \<leftarrow> Big_CheckGreaterOrEqualHalf T n;
        (d, b) \<leftarrow> Big_RoundHalfToEven b is_half True;
        Some (c + d, b)
      } else Some (c, b));
      (d, b) \<leftarrow> Big_Standardizing (if Big_IsSign b = sg then Big_Abs b else Big_SetSign b);
      Some (Big_CheckCarry b (c + d))
    } = Some (Big_CheckCarry (finished (Big_IsSign b = sg) (rounded b R))
      (c + of_bool (R = W ^ n \<and> \<not> fits (length (exponent b)) (ival (exponent b) + 1))))"
proof -
  have "UInt_IsTheHighestBitSet (mantissa (rounded b R))"
    using rounded_top [OF assms(1)] upper_half_bounds [OF assms(3,4), of rnd] assms(2) by (simp add: R_def)
  note F = finish_step [OF this, of "Big_IsSign b = sg"]
  show ?thesis
    unfolding T_def R_def round_step [OF assms(1,2,4,5)]
    by (simp only: Option.bind.bind_lunit prod.case rounded_fields(1) F [unfolded R_def] add_0_right)
qed

text \<open>
  The exponent is computed in two steps, \<open>E1\<close> and then \<open>E1 + y\<close>, and rounding may add one. The
  carry is zero exactly if no step leaves the range, and then the value is the rounded mantissa
  with the exponent \<open>E1 + y\<close>.
\<close>

definition exponent_ok :: "nat \<Rightarrow> int \<Rightarrow> int \<Rightarrow> bool \<Rightarrow> bool" where
  "exponent_ok x E1 E up \<longleftrightarrow> fits x E1 \<and> fits x E \<and> (up \<longrightarrow> fits x (E + 1))"

lemma of_bool_sum_eq_0: "(of_bool p + of_bool q + of_bool r :: uint) = 0 \<longleftrightarrow> \<not> p \<and> \<not> q \<and> \<not> r"
  by (cases p; cases q; cases r) simp_all

lemma rounded_outcome:
  fixes s :: bool
  assumes "big_shape b" "\<not> Big_IsNan b" "W ^ length (mantissa b) div 2 \<le> r" "r \<le> W ^ length (mantissa b)"
    "exponent b = itab x (ival (itab x E1) + y)"
  defines "z \<equiv> finished s (rounded b r)" and "up \<equiv> r = W ^ length (mantissa b)"
  defines "c \<equiv> of_bool (\<not> fits x E1) + of_bool (\<not> fits x (ival (itab x E1) + y)) +
    of_bool (up \<and> \<not> fits x (ival (exponent b) + 1)) :: uint"
  shows "Big_CheckCarry z c = (if exponent_ok x E1 (E1 + y) up then (0, z) else (1, Big_SetNan z))"
    "same_type z b"
    "exponent_ok x E1 (E1 + y) up \<Longrightarrow> standard z \<and> \<not> Big_IsNan z \<and>
       bval z = (if s then 1 else - 1) * real r * 2 powi (E1 + y) \<and> E1 + y \<le> ival (exponent z)"
proof -
  have "c = 0 \<longleftrightarrow> exponent_ok x E1 (E1 + y) up"
    unfolding c_def of_bool_sum_eq_0 exponent_ok_def assms(5) by auto
  then show "Big_CheckCarry z c = (if exponent_ok x E1 (E1 + y) up then (0, z) else (1, Big_SetNan z))"
    by (simp add: Big_CheckCarry_def)
  show "same_type z b" by (simp add: z_def same_type_def)
  assume "exponent_ok x E1 (E1 + y) up"
  then have ok: "fits x E1" "fits x (E1 + y)" "up \<longrightarrow> fits x (E1 + y + 1)" by (simp_all add: exponent_ok_def)
  then have E: "ival (exponent b) = E1 + y" "length (exponent b) = x" by (simp_all add: assms(5))
  then have "r = W ^ length (mantissa b) \<longrightarrow> fits (length (exponent b)) (ival (exponent b) + 1)"
    using ok(3) by (simp add: up_def)
  note F = rounded_result [OF assms(1-4) this, of s, folded z_def]
  show "standard z \<and> \<not> Big_IsNan z \<and> bval z = (if s then 1 else - 1) * real r * 2 powi (E1 + y) \<and> E1 + y \<le> ival (exponent z)"
    using F(1,2,5,6) E(1) by simp
qed

lemma bsign_mult: "bsign a * bsign b = (if Big_IsSign a = Big_IsSign b then 1 else - 1)"
  by (simp add: bsign_def)

lemma abs_bsign: "\<bar>bsign a\<bar> = 1" "\<bar>bsign a * bsign b\<bar> = 1"
  by (simp_all add: bsign_def)

text \<open>The error of the upper half: half a unit with rounding, less than one unit without.\<close>

lemma div_bounds_real:
  assumes "0 < d"
  shows "real (p div d) \<le> real p / real d" "real p / real d < real (p div d) + 1"
proof -
  show "real (p div d) \<le> real p / real d" by (rule of_nat_div_le_of_nat)
  have "p < (p div d + 1) * d" using assms by (metis Suc_eq_plus1 dividend_less_div_times mult.commute mult_Suc_right add.commute)
  then have "real p < (real (p div d) + 1) * real d" by (metis of_nat_1 of_nat_add of_nat_less_iff of_nat_mult)
  then show "real p / real d < real (p div d) + 1" using assms by (simp add: divide_less_eq)
qed

lemma upper_half_error:
  "\<bar>real (upper_half rnd n p) - real p / real (W ^ n)\<bar> \<le> (if rnd then 1 / 2 else 1)"
proof (cases rnd)
  case True
  then show ?thesis using round_even_error [of "W ^ n" p] by (simp add: upper_half_def)
next
  case False
  then show ?thesis using div_bounds_real [of "W ^ n" p] by (simp add: upper_half_def abs_le_iff)
qed

text \<open>Nothing is lost when the lower half is zero, and at most one half when it is a single bit.\<close>

lemma upper_half_exact: "upper_half rnd n (q * W ^ n) = q"
  by (simp add: upper_half_def round_even_exact)

lemma upper_half_parity:
  assumes "W ^ n = 2 * 2 ^ i"
  shows "\<bar>real (upper_half rnd n (q * 2 ^ i)) - real q / 2\<bar> \<le> 1 / 2"
proof (cases rnd)
  case True
  have "real (q * 2 ^ i) / real (W ^ n) = real q / 2" unfolding assms by simp
  with True upper_half_error [of rnd n "q * 2 ^ i"] show ?thesis by (simp only: if_True)
next
  case False
  have "q * 2 ^ i div W ^ n = q div 2" unfolding assms by simp
  moreover have "q = 2 * (q div 2) \<or> q = 2 * (q div 2) + 1" by linarith
  then have "real q = 2 * real (q div 2) \<or> real q = 2 * real (q div 2) + 1" by linarith
  ultimately show ?thesis using False by (auto simp: upper_half_def)
qed

lemma scaled_error:
  assumes "\<bar>r - q\<bar> \<le> (d :: real)" "\<bar>s\<bar> = 1" "E \<le> E'"
  shows "\<bar>s * r * 2 powi E - s * q * 2 powi E\<bar> \<le> d * 2 powi E'"
proof -
  have "\<bar>s * r * 2 powi E - s * q * 2 powi E\<bar> = \<bar>s\<bar> * \<bar>r - q\<bar> * \<bar>2 powi E\<bar>"
    by (simp only: abs_mult [symmetric] left_diff_distrib right_diff_distrib)
  also have "\<dots> = \<bar>r - q\<bar> * 2 powi E" using assms(2) by simp
  also have "\<dots> \<le> d * 2 powi E'"
    using assms(1,3) by (intro mult_mono power_int_increasing) auto
  finally show ?thesis .
qed

end
