(* ===== verification/Big_Add.thy ===== *)
theory Big_Add
  imports Big_Round
begin

text \<open>
  Addition and subtraction of \<^verbatim>\<open>Big\<close> numbers (\<^verbatim>\<open>ttmathbig.h\<close>). The mantissa of the smaller number is
  moved to the right by the difference of the exponents; the highest bit that falls off and whether
  the other ones are zero decide the rounding.
\<close>

section \<open>Definitions\<close>

definition Big_AddCheckExponents ::
  "big \<Rightarrow> utable \<Rightarrow> bool \<Rightarrow> bool \<Rightarrow> bool \<Rightarrow> bool \<Rightarrow> (big \<times> bool \<times> bool \<times> bool \<times> bool) option" where
  "Big_AddCheckExponents ss2 exp_offset last_bit_set rest_zero do_adding do_rounding =
     (let man = length (mantissa ss2);
          mantissa_size_in_bits = Int_new_uint exp_offset (of_nat (man * TTMATH_BITS_PER_UINT))
      in if Int_equal exp_offset mantissa_size_in_bits then do {
           let last_bit_set = UInt_IsTheHighestBitSet (mantissa ss2);
           rest_zero \<leftarrow> UInt_AreFirstBitsZero (mantissa ss2) (man * TTMATH_BITS_PER_UINT - 1);
           Some (ss2, last_bit_set, rest_zero, do_adding, True)
         } else if Int_less exp_offset mantissa_size_in_bits then do {
           let moved = unat (Int_ToInt exp_offset);
           (ss2, last_bit_set, rest_zero) \<leftarrow>
             (if moved > 0 then do {
                b \<leftarrow> UInt_GetBit (mantissa ss2) (moved - 1);
                rest_zero \<leftarrow> (if moved > 1 then UInt_AreFirstBitsZero (mantissa ss2) (moved - 1) else Some True);
                (_, m) \<leftarrow> UInt_Rcr (mantissa ss2) moved 0;
                Some (ss2\<lparr>mantissa := m\<rparr>, b \<noteq> 0, rest_zero)
              } else Some (ss2, last_bit_set, True));
           Some (ss2, last_bit_set, rest_zero, True, True)
         } else Some (ss2, last_bit_set, rest_zero, do_adding, do_rounding))"

definition Big_AddMantissas :: "big \<Rightarrow> big \<Rightarrow> bool \<Rightarrow> bool \<Rightarrow> (uint \<times> big \<times> bool \<times> bool) option" where
  "Big_AddMantissas b ss2 last_bit_set rest_zero =
     (if Big_IsSign b = Big_IsSign ss2
      then let (carry, m) = UInt_Add (mantissa b) (mantissa ss2) 0
           in if carry \<noteq> 0 then do {
                let rest_zero = (\<not> last_bit_set \<and> rest_zero);
                (bt, m) \<leftarrow> UInt_Rcr m 1 1;
                (c, e) \<leftarrow> Int_AddOne (exponent b);
                Some (c, b\<lparr>mantissa := m, exponent := e\<rparr>, bt \<noteq> 0, rest_zero)
              } else Some (0, b\<lparr>mantissa := m\<rparr>, last_bit_set, rest_zero)
      else let (c_temp, m) = UInt_Sub (mantissa b) (mantissa ss2) 0
           in if c_temp = 0 then Some (0, b\<lparr>mantissa := m\<rparr>, last_bit_set, rest_zero) else None)"

definition Big_Add :: "big \<Rightarrow> big \<Rightarrow> bool \<Rightarrow> bool \<Rightarrow> (uint \<times> big) option" where
  "Big_Add b ss2 rnd adding =
     (if Big_IsNan b \<or> Big_IsNan ss2 then Some (Big_CheckCarry b 1)
      else do {
        let exp_offset = exponent b;
        let ss2 = (if \<not> adding then Big_ChangeSign ss2 else ss2);
        let (_, exp_offset) = Int_Sub exp_offset (exponent ss2);
        let (_, exp_offset) = Int_Abs exp_offset;
        let (b, ss2) = (if Big_SmallerWithoutSignThan b ss2 then Big_Swap b ss2 else (b, ss2));
        if Big_IsZero ss2 then Some (0, b)
        else do {
          let rounding_up = (Big_IsSign b = Big_IsSign ss2);
          (ss2, last_bit_set, rest_zero, do_adding, do_rounding) \<leftarrow>
            Big_AddCheckExponents ss2 exp_offset False False False False;
          (c, b, last_bit_set, rest_zero) \<leftarrow>
            (if do_adding then Big_AddMantissas b ss2 last_bit_set rest_zero
             else Some (0, b, last_bit_set, rest_zero));
          let do_rounding = (if \<not> rnd \<or> \<not> last_bit_set then False else do_rounding);
          (c, b) \<leftarrow>
            (if do_rounding then do {
               (d, b) \<leftarrow> Big_RoundHalfToEven b rest_zero rounding_up;
               Some (c + d, b)
             } else Some (c, b));
          (c, b) \<leftarrow>
            (if do_adding \<or> do_rounding then do {
               (d, b) \<leftarrow> Big_Standardizing b;
               Some (c + d, b)
             } else Some (c, b));
          Some (Big_CheckCarry b c)
        }
      })"

definition Big_Sub :: "big \<Rightarrow> big \<Rightarrow> bool \<Rightarrow> (uint \<times> big) option" where
  "Big_Sub b ss2 rnd = Big_Add b ss2 rnd False"

definition Big_AddOne :: "big \<Rightarrow> (uint \<times> big) option" where
  "Big_AddOne b = Big_Add b (Big_SetOne b) True True"

definition Big_SubOne :: "big \<Rightarrow> (uint \<times> big) option" where
  "Big_SubOne b = Big_Sub b (Big_SetOne b) True"

section \<open>The bits that fall off\<close>

lemma half_bits:
  fixes u :: nat
  assumes "0 < d"
  shows "bit u (d - 1) \<longleftrightarrow> 2 ^ d \<le> 2 * (u mod 2 ^ d)"
    "2 ^ (d - 1) dvd u \<longleftrightarrow> (if bit u (d - 1) then 2 * (u mod 2 ^ d) = 2 ^ d else u mod 2 ^ d = 0)"
proof -
  obtain k where d: "d = Suc k" using assms by (cases d) auto
  have m: "u mod 2 ^ d = u mod 2 ^ k + 2 ^ k * of_bool (bit u k)"
    using take_bit_Suc_from_most [of k u] by (simp add: d take_bit_eq_mod mult.commute)
  have l: "u mod 2 ^ k < 2 ^ k" by simp
  show "bit u (d - 1) \<longleftrightarrow> 2 ^ d \<le> 2 * (u mod 2 ^ d)" unfolding m using l by (cases "bit u k") (simp_all add: d not_le)
  show "2 ^ (d - 1) dvd u \<longleftrightarrow> (if bit u (d - 1) then 2 * (u mod 2 ^ d) = 2 ^ d else u mod 2 ^ d = 0)"
    unfolding m by (simp add: d dvd_eq_mod_eq_0)
qed

text \<open>A number just above or below a multiple, rounded half to even.\<close>

lemma round_even_above:
  assumes "f < d"
  shows "round_even (q * d + f) d = (if d < 2 * f \<or> 2 * f = d \<and> odd q then q + 1 else q)"
  using assms by (simp add: round_even_def)

lemma round_even_below:
  assumes "f < d" "f \<le> q * d"
  shows "round_even (q * d - f) d = (if d < 2 * f \<or> 2 * f = d \<and> odd q then q - 1 else q)"
proof (cases "f = 0")
  case False
  with assms obtain p where q: "q = Suc p" by (cases q) auto
  have "q * d - f = p * d + (d - f)" using assms(1) by (simp add: q)
  moreover have "d - f < d" using False assms(1) by simp
  ultimately show ?thesis using round_even_above [of "d - f" d p] assms(1) by (auto simp: q)
qed (use assms in \<open>simp add: round_even_def\<close>)

text \<open>What the smaller number is moved by, and what of it remains.\<close>

lemma first_word_small:
  assumes "t \<noteq> []" "ival t = int d" "d < 2 ^ 62"
  shows "unat (Int_ToInt t) = d"
proof -
  have "Int_ToInt t = of_int (ival t)" using ToInt_ival [OF assms(1)] by (simp add: Int_ToInt_def Int_ToInt_sint_def Let_def split: if_splits)
  then show ?thesis using assms(2,3) by (simp add: unat_of_nat_small W_def)
qed

lemma AddCheckExponents_value:
  assumes "standard b" "\<not> Big_IsZero b" "t \<noteq> []" "ival t = int d"
  defines "u \<equiv> uval (mantissa b)" and "n \<equiv> length (mantissa b)"
  shows "Big_AddCheckExponents b t False False False False =
    Some (if d < man_bits b then (b\<lparr>mantissa := utab n (u div 2 ^ d)\<rparr>, d > 0 \<and> bit u (d - 1), 2 ^ (d - 1) dvd u, True, True)
          else if d = man_bits b then (b, True, 2 ^ (d - 1) dvd u, False, True)
          else (b, False, False, False, False))"
proof -
  note sh = standard_shape [OF assms(1)]
  note n = shape_Nil [OF sh]
  have bits: "man_bits b < 2 ^ 62" using shape_bits [OF sh] by simp
  note N = new_uint_ival [OF assms(3) bits]
  have M: "length (mantissa b) * TTMATH_BITS_PER_UINT = man_bits b" by (simp add: TTMATH_BITS_PER_UINT_def)
  note C = Int_comparison [OF N(1) assms(3), unfolded N(2) assms(4)]
  have top: "UInt_IsTheHighestBitSet (mantissa b)" using assms(1,2) by (simp add: standard_def)
  consider "d < man_bits b" | "d = man_bits b" | "man_bits b < d" by linarith
  then show ?thesis
  proof cases
    case 1
    have t: "unat (Int_ToInt t) = d" using first_word_small [OF assms(3,4)] 1 bits by simp
    show ?thesis
    proof (cases "d = 0")
      case True
      then show ?thesis using 1 C t unfolding Big_AddCheckExponents_def Let_def M by (simp add: n_def u_def)
    next
      case False
      have r: "UInt_Rcr (mantissa b) d 0 = Some (of_bool (d \<le> man_bits b \<and> odd (u div 2 ^ (d - 1))), utab n (u div 2 ^ d))"
        using Rcr_result [OF n(2), of d 0] False by (simp add: shr_value_def fill_bits_def n_def u_def)
      have g: "UInt_GetBit (mantissa b) (d - 1) = Some (of_bool (bit u (d - 1)))"
        using GetBit_value [of "d - 1" "mantissa b"] 1 by (simp add: u_def)
      have z: "UInt_AreFirstBitsZero (mantissa b) (d - 1) = Some (2 ^ (d - 1) dvd u)"
        using AreFirstBitsZero_value [of "d - 1" "mantissa b"] 1 by (simp add: u_def)
      show ?thesis using 1 C t r g z False unfolding Big_AddCheckExponents_def Let_def M by simp
    qed
  next
    case 2
    then show ?thesis
      using C top AreFirstBitsZero_value [of "d - 1" "mantissa b"] unfolding Big_AddCheckExponents_def Let_def M by (simp add: u_def)
  next
    case 3
    then show ?thesis using C unfolding Big_AddCheckExponents_def Let_def M by simp
  qed
qed

section \<open>Sum and difference of the mantissas\<close>

text \<open>
  The exact sum or difference in units of the smaller number, the bits it is cut by, and the
  rounded mantissa: the sum of two mantissas may need one bit more.
\<close>

definition add_exact :: "big \<Rightarrow> big \<Rightarrow> nat \<Rightarrow> nat" where
  "add_exact a b d =
     (if Big_IsSign a = Big_IsSign b then uval (mantissa a) * 2 ^ d + uval (mantissa b)
      else uval (mantissa a) * 2 ^ d - uval (mantissa b))"

definition add_cut :: "big \<Rightarrow> big \<Rightarrow> nat \<Rightarrow> nat" where
  "add_cut a b d =
     (if Big_IsSign a = Big_IsSign b \<and> W ^ length (mantissa a) * 2 ^ d \<le> add_exact a b d then d + 1 else d)"

text \<open>
  What the two auxiliary methods leave: the mantissa \<open>q\<close> and a rest of \<open>f\<close> over \<open>2 ^ h\<close> that is to be
  added or taken away, with the flags that tell about it.
\<close>

definition rest_flags :: "nat \<Rightarrow> nat \<Rightarrow> bool \<Rightarrow> bool \<Rightarrow> bool" where
  "rest_flags f h last_bit_set rest_zero \<longleftrightarrow>
     f < 2 ^ h \<and> (last_bit_set \<longleftrightarrow> 2 ^ h \<le> 2 * f) \<and> (rest_zero \<longleftrightarrow> (if last_bit_set then 2 * f = 2 ^ h else f = 0))"

lemma rest_flags_low: "rest_flags (u mod 2 ^ d) d (d > 0 \<and> bit u (d - 1)) (2 ^ (d - 1) dvd u)"
  using half_bits [of d u] by (cases "d = 0") (simp_all add: rest_flags_def)

lemma rest_flags_carry:
  assumes "rest_flags f h l r"
  shows "rest_flags (f + 2 ^ h * of_bool (odd x)) (Suc h) (odd x) (\<not> l \<and> r)"
  using assms by (cases "odd x") (auto simp: rest_flags_def not_le)

definition add_mantissa :: "big \<Rightarrow> big \<Rightarrow> nat \<Rightarrow> bool \<Rightarrow> nat" where
  "add_mantissa a b d rnd =
     (let e = add_exact a b d; h = add_cut a b d
      in if rnd then round_even e (2 ^ h)
         else if Big_IsSign a = Big_IsSign b then e div 2 ^ h else (e + 2 ^ h - 1) div 2 ^ h)"

text \<open>The sum.\<close>

lemma AddMantissas_same:
  assumes "big_shape a" "same_type a b" "Big_IsSign a = Big_IsSign b" "rest_flags (u mod 2 ^ d) d l r"
    "uval (mantissa b) = u div 2 ^ d"
  defines "S \<equiv> uval (mantissa a) * 2 ^ d + u" and "n \<equiv> length (mantissa a)" and "x \<equiv> length (exponent a)"
  defines "h \<equiv> if W ^ n * 2 ^ d \<le> S then d + 1 else d"
  shows "\<exists>l' r'. Big_AddMantissas a b l r = Some (of_bool (h = d + 1 \<and> \<not> fits x (ival (exponent a) + 1)),
      a\<lparr>mantissa := utab n (S div 2 ^ h), exponent := if h = d + 1 then itab x (ival (exponent a) + 1) else exponent a\<rparr>, l', r') \<and>
    rest_flags (S mod 2 ^ h) h l' r'"
proof -
  note n = shape_Nil [OF assms(1)]
  have bn: "length (mantissa b) = n" using assms(2) by (simp add: same_type_def n_def)
  define s where "s = uval (mantissa a) + uval (mantissa b)"
  have n1: "1 \<le> n" using n(2) by (cases "mantissa a") (simp_all add: n_def)
  have S: "S div 2 ^ d = s" "S mod 2 ^ d = u mod 2 ^ d" by (simp_all add: S_def s_def assms(5))
  have hs: "W ^ n * 2 ^ d \<le> S \<longleftrightarrow> W ^ n \<le> s"
    unfolding S(1) [symmetric] by (simp add: less_eq_div_iff_mult_less_eq)
  have A: "UInt_Add (mantissa a) (mantissa b) 0 = carry_result n s"
    using Add_result [OF bn [unfolded n_def] n(2), of 0] by (simp add: n_def s_def)
  show ?thesis
  proof (cases "W ^ n \<le> s")
    case False
    then have "h = d" using hs by (simp add: h_def)
    then show ?thesis using False A assms(3,4) S by (simp add: Big_AddMantissas_def carry_result_def)
  next
    case True
    have h: "h = d + 1" using hs True by (simp add: h_def)
    have lt: "s < 2 * W ^ n" using uval_less [of "mantissa a"] uval_less [of "mantissa b"] bn by (simp add: n_def s_def)
    have sm: "s mod W ^ n = s - W ^ n" using True lt by (simp add: le_mod_geq)
    have "s div W ^ n = 1" using True lt by (intro div_nat_eqI) simp_all
    then have C: "carry_result n s = (1, utab n s)" by (simp add: carry_result_def)
    have "shr_value (utab n s) 1 1 = s div 2"
      using True by (simp add: shr_value_def fill_bits_def uval_utab sm)
    moreover have "odd (s mod W ^ n) \<longleftrightarrow> odd s" using even_W_power [of n] n1 by (simp add: dvd_mod_iff)
    ultimately have R: "UInt_Rcr (utab n s) 1 1 = Some (of_bool (odd s), utab n (s div 2))"
      using Rcr_result [of "utab n s" 1 1] n1 by (simp add: uval_utab)
    have "(2 :: nat) ^ h = 2 ^ d * 2" by (simp add: h)
    then have D: "S div 2 ^ h = s div 2" "S mod 2 ^ h = u mod 2 ^ d + 2 ^ d * of_bool (odd s)"
      by (simp_all only: div_mult2_eq mod_mult2_eq S mod_2_eq_odd add.commute)
    show ?thesis
      unfolding D using A C R AddOne_ival [OF n(1)] assms(3) rest_flags_carry [OF assms(4), of s]
      by (simp add: Big_AddMantissas_def h x_def n_def)
  qed
qed

text \<open>The difference, of a larger and a smaller number.\<close>

lemma AddMantissas_different:
  assumes "big_shape a" "same_type a b" "Big_IsSign a \<noteq> Big_IsSign b" "uval (mantissa b) = u div 2 ^ d"
    "u \<le> uval (mantissa a) * 2 ^ d"
  defines "n \<equiv> length (mantissa a)" and "q \<equiv> uval (mantissa a) - u div 2 ^ d"
  shows "Big_AddMantissas a b l r = Some (0, a\<lparr>mantissa := utab n q\<rparr>, l, r)"
    "u mod 2 ^ d \<le> q * 2 ^ d" "uval (mantissa a) * 2 ^ d - u = q * 2 ^ d - u mod 2 ^ d"
proof -
  have bn: "length (mantissa b) = length (mantissa a)" using assms(2) by (simp add: same_type_def)
  have u: "u = u div 2 ^ d * 2 ^ d + u mod 2 ^ d" by (rule div_mult_mod_eq [symmetric])
  have le: "u div 2 ^ d \<le> uval (mantissa a)" using div_le_mono [OF assms(5), of "2 ^ d"] by simp
  then show "Big_AddMantissas a b l r = Some (0, a\<lparr>mantissa := utab n q\<rparr>, l, r)"
    using Sub_result [OF bn shape_Nil(2) [OF assms(1)], of 0] assms(3,4)
    by (simp add: Big_AddMantissas_def borrow_result_exact n_def q_def)
  have "q * 2 ^ d = uval (mantissa a) * 2 ^ d - u div 2 ^ d * 2 ^ d" by (simp add: q_def diff_mult_distrib)
  then show "u mod 2 ^ d \<le> q * 2 ^ d" "uval (mantissa a) * 2 ^ d - u = q * 2 ^ d - u mod 2 ^ d"
    using u assms(5) by linarith+
qed

lemma RoundHalfToEven_down:
  fixes is_half :: bool
  assumes "big_shape b" "\<not> is_half \<or> odd (uval (mantissa b)) \<Longrightarrow> 0 < uval (mantissa b)"
  defines "r \<equiv> (if \<not> is_half \<or> odd (uval (mantissa b)) then uval (mantissa b) - 1 else uval (mantissa b))"
  shows "Big_RoundHalfToEven b is_half False = Some (0, b\<lparr>mantissa := utab (length (mantissa b)) r\<rparr>)"
proof -
  note n = shape_Nil(2) [OF assms(1)]
  show ?thesis
    using SubOne_result [OF n] IsTheLowestBitSet_iff [OF n] assms(2)
    by (simp add: Big_RoundHalfToEven_def r_def borrow_result_exact Suc_le_eq)
qed

section \<open>The stages of the addition\<close>

text \<open>The mantissas can be added, or the moved one subtracted from the other.\<close>

definition covers :: "big \<Rightarrow> big \<Rightarrow> nat \<Rightarrow> bool" where
  "covers a b d \<longleftrightarrow> Big_IsSign a = Big_IsSign b \<or> uval (mantissa b) \<le> uval (mantissa a) * 2 ^ d"

lemma coversI: "uval (mantissa b) \<le> uval (mantissa a) * 2 ^ d \<Longrightarrow> covers a b d"
  by (simp add: covers_def)

lemma coversD: "covers a b d \<Longrightarrow> Big_IsSign a \<noteq> Big_IsSign b \<Longrightarrow> uval (mantissa b) \<le> uval (mantissa a) * 2 ^ d"
  by (simp add: covers_def)

definition add_quotient :: "big \<Rightarrow> big \<Rightarrow> nat \<Rightarrow> nat" where
  "add_quotient a b d = (if Big_IsSign a = Big_IsSign b then add_exact a b d div 2 ^ add_cut a b d
     else uval (mantissa a) - uval (mantissa b) div 2 ^ d)"

definition add_rest :: "big \<Rightarrow> big \<Rightarrow> nat \<Rightarrow> nat" where
  "add_rest a b d = (if Big_IsSign a = Big_IsSign b then add_exact a b d mod 2 ^ add_cut a b d else uval (mantissa b) mod 2 ^ d)"

definition add_stage :: "big \<Rightarrow> big \<Rightarrow> nat \<Rightarrow> big" where
  "add_stage a b d = a\<lparr>mantissa := utab (length (mantissa a)) (add_quotient a b d),
     exponent := if add_cut a b d = d + 1 then itab (length (exponent a)) (ival (exponent a) + 1) else exponent a\<rparr>"

abbreviation add_carry :: "big \<Rightarrow> big \<Rightarrow> nat \<Rightarrow> uint" where
  "add_carry a b d \<equiv> of_bool (add_cut a b d = d + 1 \<and> \<not> fits (length (exponent a)) (ival (exponent a) + 1))"

text \<open>A number so small that it is only looked at for the rounding leaves the other one unchanged.\<close>

lemma add_stage_far:
  assumes "uval (mantissa b) < 2 ^ d"
  shows "add_stage a b d = a" "add_carry a b d = 0" "add_rest a b d = uval (mantissa b)" "add_cut a b d = d"
    "add_quotient a b d = uval (mantissa a)"
proof -
  let ?u = "uval (mantissa b)" and ?m = "uval (mantissa a)"
  have "?m * 2 ^ d + ?u < W ^ length (mantissa a) * 2 ^ d"
  proof -
    have "?m * 2 ^ d + ?u < (?m + 1) * 2 ^ d" using assms by simp
    also have "\<dots> \<le> W ^ length (mantissa a) * 2 ^ d" using uval_less [of "mantissa a"] by (intro mult_le_mono1) simp
    finally show ?thesis .
  qed
  then show h: "add_cut a b d = d" by (simp add: add_cut_def add_exact_def)
  then show q: "add_quotient a b d = ?m" "add_rest a b d = ?u" using assms by (simp_all add: add_quotient_def add_rest_def add_exact_def)
  show "add_stage a b d = a" "add_carry a b d = 0" by (simp_all add: add_stage_def q h)
qed

lemma add_stages:
  assumes "standard a" "standard b" "same_type a b" "\<not> Big_IsZero b" "t \<noteq> []" "ival t = int d"
    "covers a b d"
  shows "\<exists>b' l r da dr l' r'. Big_AddCheckExponents b t False False False False = Some (b', l, r, da, dr) \<and>
    (if da then Big_AddMantissas a b' l r else Some (0, a, l, r)) = Some (add_carry a b d, add_stage a b d, l', r') \<and>
    rest_flags (add_rest a b d) (add_cut a b d) l' r' \<and> (l' \<longrightarrow> dr) \<and> (\<not> da \<longrightarrow> add_stage a b d = a)"
proof -
  let ?n = "length (mantissa a)" and ?u = "uval (mantissa b)"
  note sh = standard_shape [OF assms(1)]
  have bn: "man_bits b = man_bits a" "length (mantissa b) = ?n" using assms(3) by (simp_all add: same_type_def)
  note C = AddCheckExponents_value [OF assms(2,4,5,6), unfolded bn]
  note U = standard_mantissa [OF assms(2,4), unfolded bn]
  note F = rest_flags_low [of ?u d]
  consider "d < man_bits a" | "d = man_bits a" | "man_bits a < d" by linarith
  then show ?thesis
  proof cases
    case 1
    let ?b = "b\<lparr>mantissa := utab ?n (?u div 2 ^ d)\<rparr>"
    have "?u div 2 ^ d < W ^ ?n" unfolding W_power by (rule le_less_trans [OF div_le_dividend U(2)])
    then have ub: "uval (mantissa ?b) = ?u div 2 ^ d" by (simp add: uval_utab)
    have tb: "same_type a ?b" "Big_IsSign ?b = Big_IsSign b" using assms(3) by (simp_all add: same_type_def)
    show ?thesis
    proof (cases "Big_IsSign a = Big_IsSign b")
      case True
      obtain l r where "Big_AddMantissas a ?b (d > 0 \<and> bit ?u (d - 1)) (2 ^ (d - 1) dvd ?u) = Some (add_carry a b d, add_stage a b d, l, r)"
        "rest_flags (add_rest a b d) (add_cut a b d) l r"
        using AddMantissas_same [OF sh tb(1) _ F ub] True
        by (auto simp: add_stage_def add_quotient_def add_rest_def add_cut_def add_exact_def tb(2))
      then show ?thesis using C 1 by auto
    next
      case False
      then have "add_cut a b d = d" by (simp add: add_cut_def)
      then have "Big_AddMantissas a ?b (d > 0 \<and> bit ?u (d - 1)) (2 ^ (d - 1) dvd ?u) =
          Some (add_carry a b d, add_stage a b d, d > 0 \<and> bit ?u (d - 1), 2 ^ (d - 1) dvd ?u)"
        "rest_flags (add_rest a b d) (add_cut a b d) (d > 0 \<and> bit ?u (d - 1)) (2 ^ (d - 1) dvd ?u)"
        using AddMantissas_different(1) [OF sh tb(1) _ ub coversD [OF assms(7) False]] False F
        by (simp_all add: tb(2) add_stage_def add_quotient_def add_rest_def)
      then show ?thesis using C 1 by auto
    qed
  next
    case 2
    have "?u < 2 ^ d" using U(2) 2 by simp
    note S = add_stage_far [OF this, of a]
    have "0 < d" using shape_Nil(2) [OF sh] 2 by simp
    moreover have "(2 :: nat) ^ d = 2 * 2 ^ (d - 1)" using \<open>0 < d\<close> by (simp flip: power_Suc)
    ultimately have "bit ?u (d - 1)" using half_bits(1) [of d ?u] U(1) \<open>?u < 2 ^ d\<close> unfolding 2 [symmetric] by simp
    with F have "rest_flags (add_rest a b d) (add_cut a b d) True (2 ^ (d - 1) dvd ?u)"
      unfolding S using \<open>?u < 2 ^ d\<close> 2 shape_Nil(2) [OF sh] by simp
    then show ?thesis using C 2 S by auto
  next
    case 3
    have "2 * ?u < 2 ^ d"
    proof -
      have "2 * ?u < 2 ^ Suc (man_bits a)" using U(2) by simp
      also have "(2 :: nat) ^ Suc (man_bits a) \<le> 2 ^ d" using 3 by (intro power_increasing) simp_all
      finally show ?thesis .
    qed
    moreover have "?u \<noteq> 0" using standard_zero_iff_mantissa [OF assms(2)] assms(4) by simp
    ultimately have "?u < 2 ^ d" "rest_flags ?u d False False" by (simp_all add: rest_flags_def)
    then show ?thesis using C 3 add_stage_far [of b d a] by auto
  qed
qed

text \<open>The rounded mantissa in terms of the stage and the rest.\<close>

lemma add_exact_stage:
  assumes "covers a b d" "same_type a b"
  defines "q \<equiv> add_quotient a b d" and "f \<equiv> add_rest a b d" and "h \<equiv> add_cut a b d"
  shows "f < 2 ^ h" "q < W ^ length (mantissa a)" "Big_IsSign a = Big_IsSign b \<Longrightarrow> add_exact a b d = q * 2 ^ h + f"
    "Big_IsSign a \<noteq> Big_IsSign b \<Longrightarrow> h = d \<and> f \<le> q * 2 ^ h \<and> add_exact a b d = q * 2 ^ h - f"
proof -
  let ?n = "length (mantissa a)" and ?m = "uval (mantissa a)" and ?u = "uval (mantissa b)"
  show "f < 2 ^ h" by (simp add: f_def h_def add_rest_def add_cut_def)
  have m: "?m < W ^ ?n" "?u < W ^ ?n"
    using uval_less [of "mantissa a"] uval_less [of "mantissa b"] assms(2) by (simp_all add: same_type_def)
  show "add_exact a b d = q * 2 ^ h + f" if "Big_IsSign a = Big_IsSign b"
    using that by (simp add: q_def f_def h_def add_quotient_def add_rest_def div_mult_mod_eq)
  show "h = d \<and> f \<le> q * 2 ^ h \<and> add_exact a b d = q * 2 ^ h - f" if ne: "Big_IsSign a \<noteq> Big_IsSign b"
  proof -
    have h: "h = d" using ne by (simp add: h_def add_cut_def)
    have "?u = ?u div 2 ^ d * 2 ^ d + ?u mod 2 ^ d" by (rule div_mult_mod_eq [symmetric])
    moreover have "q * 2 ^ d = ?m * 2 ^ d - ?u div 2 ^ d * 2 ^ d" using ne by (simp add: q_def add_quotient_def diff_mult_distrib)
    ultimately show ?thesis using coversD [OF assms(1) ne] ne unfolding h f_def add_rest_def add_exact_def by auto
  qed
  show "q < W ^ ?n"
  proof (cases "Big_IsSign a = Big_IsSign b")
    case True
    have "W ^ ?n \<le> W ^ ?n * 2 ^ d" by simp
    then have "?u < W ^ ?n * 2 ^ d" using m(2) by linarith
    moreover have "?m * 2 ^ d < W ^ ?n * 2 ^ d" using m(1) by simp
    moreover have "W ^ ?n * 2 ^ (d + 1) = 2 * (W ^ ?n * 2 ^ d)" by simp
    moreover have "add_exact a b d = ?m * 2 ^ d + ?u" using True by (simp add: add_exact_def)
    ultimately have "add_exact a b d < W ^ ?n * 2 ^ (d + 1)" by linarith
    then have "add_exact a b d < W ^ ?n * 2 ^ h" using True by (auto simp: h_def add_cut_def)
    then show ?thesis using True by (simp add: q_def h_def add_quotient_def less_mult_imp_div_less)
  next
    case False
    then show ?thesis using m(1) by (simp add: q_def add_quotient_def)
  qed
qed

lemma add_mantissa_cases:
  assumes "covers a b d" "same_type a b"
  defines "q \<equiv> add_quotient a b d" and "f \<equiv> add_rest a b d" and "h \<equiv> add_cut a b d"
  shows "add_mantissa a b d rnd = (if rnd \<and> (2 ^ h < 2 * f \<or> 2 * f = 2 ^ h \<and> odd q)
    then if Big_IsSign a = Big_IsSign b then q + 1 else q - 1 else q)"
proof -
  note E = add_exact_stage [OF assms(1,2), folded q_def f_def h_def]
  show ?thesis
  proof (cases "Big_IsSign a = Big_IsSign b")
    case True
    then show ?thesis using E(1) E(3) by (simp add: add_mantissa_def Let_def h_def [symmetric] round_even_above)
  next
    case False
    from E(4) [OF False] have D: "f \<le> q * 2 ^ h" "add_exact a b d = q * 2 ^ h - f" by blast+
    have "(q * 2 ^ h - f + 2 ^ h - 1) div 2 ^ h = q"
      using E(1) D by (intro div_nat_eqI) (simp_all add: mult.commute)
    then show ?thesis using False round_even_below [OF E(1) D(1)] D(2)
      by (simp add: add_mantissa_def Let_def h_def [symmetric])
  qed
qed

definition add_rounded :: "big \<Rightarrow> big \<Rightarrow> nat \<Rightarrow> bool \<Rightarrow> big" where
  "add_rounded a b d rnd = (if Big_IsSign a = Big_IsSign b then rounded (add_stage a b d) (add_mantissa a b d rnd)
     else (add_stage a b d)\<lparr>mantissa := utab (length (mantissa a)) (add_mantissa a b d rnd)\<rparr>)"

lemma add_stage_fields [simp]:
  "length (mantissa (add_stage a b d)) = length (mantissa a)" "length (exponent (add_stage a b d)) = length (exponent a)"
  "Big_IsNan (add_stage a b d) = Big_IsNan a" "Big_IsSign (add_stage a b d) = Big_IsSign a"
  by (simp_all add: add_stage_def)

lemma add_rounding:
  assumes "big_shape a" "same_type a b" "covers a b d"
    "rest_flags (add_rest a b d) (add_cut a b d) l r"
  shows "(if rnd \<and> l then Big_RoundHalfToEven (add_stage a b d) r (Big_IsSign a = Big_IsSign b) else Some (0, add_stage a b d)) =
    Some (of_bool (Big_IsSign a = Big_IsSign b \<and> add_mantissa a b d rnd = W ^ length (mantissa a) \<and>
      \<not> fits (length (exponent a)) (ival (exponent (add_stage a b d)) + 1)), add_rounded a b d rnd)"
proof -
  let ?b = "add_stage a b d" and ?q = "add_quotient a b d" and ?n = "length (mantissa a)"
  note E = add_exact_stage [OF assms(3,2)]
  note M = add_mantissa_cases [OF assms(3,2), of rnd]
  have u: "uval (mantissa ?b) = ?q" using E(2) by (simp add: add_stage_def uval_utab)
  have "same_type ?b a" by (simp add: same_type_def)
  then have sh: "big_shape ?b" using shape_same_type assms(1) by simp
  have m: "utab ?n ?q = mantissa ?b" by (simp add: add_stage_def)
  show ?thesis
  proof (cases "rnd \<and> l")
    case False
    then have "add_mantissa a b d rnd = ?q" using M assms(4) by (auto simp: rest_flags_def)
    moreover have "rounded ?b ?q = ?b" using u by (rule rounded_same)
    moreover have "?b\<lparr>mantissa := utab ?n ?q\<rparr> = ?b" unfolding m by simp
    ultimately show ?thesis using False E(2) by (auto simp: add_rounded_def)
  next
    case True
    then have r: "(2 ^ add_cut a b d < 2 * add_rest a b d \<or> 2 * add_rest a b d = 2 ^ add_cut a b d \<and> odd ?q) \<longleftrightarrow> \<not> r \<or> odd ?q"
      using assms(4) by (auto simp: rest_flags_def)
    show ?thesis
    proof (cases "Big_IsSign a = Big_IsSign b")
      case s: True
      have "add_mantissa a b d rnd = (if \<not> r \<or> odd ?q then ?q + 1 else ?q)" using M s True r by simp
      then show ?thesis using True s RoundHalfToEven_up [OF sh, of r] by (simp add: u add_rounded_def)
    next
      case s: False
      have "0 < ?q" if "\<not> r \<or> odd ?q"
      proof -
        have "0 < add_rest a b d" using True assms(4) by (auto simp: rest_flags_def)
        then show ?thesis using E(4) [OF s] by (cases "?q") auto
      qed
      moreover have "add_mantissa a b d rnd = (if \<not> r \<or> odd ?q then ?q - 1 else ?q)" using M s True r by simp
      ultimately show ?thesis using True s RoundHalfToEven_down [OF sh, of r] by (simp add: u add_rounded_def)
    qed
  qed
qed

text \<open>The value before the leading bit is moved back to the top.\<close>

abbreviation add_exponent :: "big \<Rightarrow> big \<Rightarrow> nat \<Rightarrow> int" where
  "add_exponent a b d \<equiv> ival (exponent a) + int (add_cut a b d - d)"

lemma add_rounded_fields [simp]:
  "length (mantissa (add_rounded a b d rnd)) = length (mantissa a)"
  "length (exponent (add_rounded a b d rnd)) = length (exponent a)"
  "Big_IsNan (add_rounded a b d rnd) = Big_IsNan a" "Big_IsSign (add_rounded a b d rnd) = Big_IsSign a"
  by (simp_all add: add_rounded_def)

lemma add_rounded_value:
  assumes "big_shape a" "same_type a b" "covers a b d" "add_carry a b d = 0"
    "Big_IsSign a = Big_IsSign b \<and> add_mantissa a b d rnd = W ^ length (mantissa a) \<longrightarrow>
       fits (length (exponent a)) (ival (exponent (add_stage a b d)) + 1)"
  shows "bval (add_rounded a b d rnd) = bsign a * real (add_mantissa a b d rnd) * 2 powi add_exponent a b d \<and>
    ival (exponent a) \<le> ival (exponent (add_rounded a b d rnd))"
proof -
  let ?b = "add_stage a b d" and ?R = "add_mantissa a b d rnd"
  have e: "ival (exponent ?b) = add_exponent a b d"
    using assms(4) by (auto simp: add_stage_def add_cut_def split: if_splits)
  have "same_type ?b a" by (simp add: same_type_def)
  then have sh: "big_shape ?b" using shape_same_type assms(1) by simp
  have R: "?R \<le> W ^ length (mantissa a)" "Big_IsSign a \<noteq> Big_IsSign b \<Longrightarrow> ?R < W ^ length (mantissa a)"
    using add_exact_stage(2) [OF assms(3,2)] add_mantissa_cases [OF assms(3,2), of rnd] by (auto simp: le_less_trans)
  show ?thesis
  proof (cases "Big_IsSign a = Big_IsSign b")
    case True
    then have "?R = W ^ length (mantissa ?b) \<longrightarrow> fits (length (exponent ?b)) (ival (exponent ?b) + 1)" using assms(5) by simp
    note V = rounded_value [OF sh _ this]
    have "add_rounded a b d rnd = rounded ?b ?R" using True by (simp add: add_rounded_def)
    then show ?thesis using V R(1) unfolding e by (simp add: bval_def bsign_def)
  next
    case False
    then show ?thesis using R(2) e by (simp add: add_rounded_def bval_def bsign_def uval_utab)
  qed
qed

section \<open>The sum of two numbers\<close>

text \<open>What is left of the addition once the larger number is the first one.\<close>

definition add_ordered :: "big \<Rightarrow> big \<Rightarrow> utable \<Rightarrow> bool \<Rightarrow> (uint \<times> big) option" where
  "add_ordered b ss2 exp_offset rnd =
     (if Big_IsZero ss2 then Some (0, b)
      else do {
        (ss2', last_bit_set, rest_zero, do_adding, do_rounding) \<leftarrow>
          Big_AddCheckExponents ss2 exp_offset False False False False;
        (c, b', last_bit_set, rest_zero) \<leftarrow>
          (if do_adding then Big_AddMantissas b ss2' last_bit_set rest_zero
           else Some (0, b, last_bit_set, rest_zero));
        let do_rounding = (if \<not> rnd \<or> \<not> last_bit_set then False else do_rounding);
        (c, b') \<leftarrow>
          (if do_rounding then do {
             (d, b') \<leftarrow> Big_RoundHalfToEven b' rest_zero (Big_IsSign b = Big_IsSign ss2);
             Some (c + d, b')
           } else Some (c, b'));
        (c, b') \<leftarrow>
          (if do_adding \<or> do_rounding then do {
             (d, b') \<leftarrow> Big_Standardizing b';
             Some (c + d, b')
           } else Some (c, b'));
        Some (Big_CheckCarry b' c)
      })"

lemma Add_ordered:
  fixes adding :: bool
  assumes "same_type b ss2" "\<not> Big_IsNan b" "\<not> Big_IsNan ss2"
  defines "s \<equiv> if adding then ss2 else Big_ChangeSign ss2"
  defines "t \<equiv> snd (Int_Abs (snd (Int_Sub (exponent b) (exponent s))))"
  shows "Big_Add b ss2 rnd adding =
    (if Big_SmallerWithoutSignThan b s then add_ordered s b t rnd else add_ordered b s t rnd)"
proof -
  have "same_type b s" using assms(1) by (simp add: s_def same_type_def Big_ChangeSign_def)
  note W = Swap_big [OF this]
  have s: "(if \<not> adding then Big_ChangeSign ss2 else ss2) = s" by (simp add: s_def)
  show ?thesis
    unfolding Big_Add_def add_ordered_def
    by (simp only: assms(2,3) if_False simp_thms Let_def s W t_def case_prod_beta' snd_conv fst_conv if_True)
      (cases "Big_SmallerWithoutSignThan b s"; simp only: if_True if_False fst_conv snd_conv)
qed

lemma fits_between: "fits n x \<Longrightarrow> fits n y \<Longrightarrow> x \<le> z \<Longrightarrow> z \<le> y \<Longrightarrow> fits n z"
  unfolding fits_def by linarith

lemma Standardizing_in_range:
  assumes "big_shape b" "fits (length (exponent b)) (ival (exponent b) - int (man_bits b))" "Big_Standardizing b = Some (c, z)"
  shows "c = 0"
proof (cases "uval (mantissa b) = 0")
  case True
  then show ?thesis using Standardizing_zero [OF assms(1)] assms(3) by auto
next
  case False
  then obtain k where k: "2 ^ k \<le> uval (mantissa b)" "uval (mantissa b) < 2 ^ Suc k" using leading_bit_exists by blast
  have "fits (length (exponent b)) (ival (exponent b) - int (man_bits b - 1 - k))"
    by (rule fits_between [OF assms(2) ival_bounds]) simp_all
  then show ?thesis using Standardizing_nonzero [OF assms(1) k] assms(3) by simp
qed

lemma small_sum_eq_0:
  assumes "x \<le> (1 :: uint)"
  shows "of_bool p + of_bool q + x = 0 \<longleftrightarrow> \<not> p \<and> \<not> q \<and> x = 0"
proof -
  have "x = 0 \<or> x = 1" using assms by (metis le_neq_trans word_less_1)
  then show ?thesis by (cases p; cases q) auto
qed

lemma add_finish:
  assumes "standard a" "\<not> g \<longrightarrow> add_rounded a b d rnd = a"
  shows "\<exists>x z. (if g then Big_Standardizing (add_rounded a b d rnd) else Some (0, add_rounded a b d rnd)) = Some (x, z) \<and>
    same_type z a \<and> Big_IsNan z = Big_IsNan a \<and> x \<le> 1 \<and> (x = 0 \<longrightarrow> standard z \<and> bval z = bval (add_rounded a b d rnd)) \<and>
    (fits (length (exponent a)) (ival (exponent a) - int (man_bits a)) \<and>
     ival (exponent a) \<le> ival (exponent (add_rounded a b d rnd)) \<longrightarrow> x = 0)"
proof (cases g)
  case False
  then show ?thesis using assms by (simp add: same_type_def)
next
  case True
  let ?r = "add_rounded a b d rnd" and ?x = "length (exponent a)"
  have t: "same_type ?r a" by (simp add: same_type_def)
  then have sh: "big_shape ?r" using shape_same_type standard_shape [OF assms(1)] by simp
  obtain c z where z: "Big_Standardizing ?r = Some (c, z)" "length (mantissa z) = length (mantissa ?r)"
    "length (exponent z) = length (exponent ?r)" "Big_IsNan z = Big_IsNan ?r" "c \<le> 1" "c = 0 \<longrightarrow> standard z \<and> bval z = bval ?r"
    using Standardizing_value [OF sh] by blast
  have "c = 0" if "fits ?x (ival (exponent a) - int (man_bits a))" "ival (exponent a) \<le> ival (exponent ?r)"
  proof (rule Standardizing_in_range [OF sh _ z(1)])
    have "fits ?x (ival (exponent ?r))" using ival_bounds [of "exponent ?r"] by simp
    from fits_between [OF that(1) this, of "ival (exponent ?r) - int (man_bits ?r)"] that(2)
    show "fits (length (exponent ?r)) (ival (exponent ?r) - int (man_bits ?r))" by simp
  qed
  then show ?thesis using True z by (simp add: same_type_def)
qed

lemma add_ordered_value:
  assumes "standard a" "standard b" "same_type a b" "\<not> Big_IsNan a" "\<not> Big_IsZero b" "t \<noteq> []" "ival t = int d"
    "covers a b d"
  shows "\<exists>c z. add_ordered a b t rnd = Some (c, z) \<and> same_type z a \<and> (c \<noteq> 0 \<longrightarrow> c = 1 \<and> Big_IsNan z) \<and>
    (c = 0 \<longrightarrow> standard z \<and> \<not> Big_IsNan z \<and>
       bval z = bsign a * real (add_mantissa a b d rnd) * 2 powi add_exponent a b d) \<and>
    (fits (length (exponent a)) (ival (exponent a) + 2) \<and>
     fits (length (exponent a)) (ival (exponent a) - int (man_bits a)) \<longrightarrow> c = 0)"
proof -
  let ?x = "length (exponent a)" and ?e = "ival (exponent a)" and ?r = "add_rounded a b d rnd"
  let ?p = "add_cut a b d = d + 1 \<and> \<not> fits ?x (?e + 1)"
  let ?q = "Big_IsSign a = Big_IsSign b \<and> add_mantissa a b d rnd = W ^ length (mantissa a) \<and>
      \<not> fits ?x (ival (exponent (add_stage a b d)) + 1)"
  note sh = standard_shape [OF assms(1)]
  obtain b' l r da dr l' r' where
    A: "Big_AddCheckExponents b t False False False False = Some (b', l, r, da, dr)"
      "(if da then Big_AddMantissas a b' l r else Some (0, a, l, r)) = Some (of_bool ?p, add_stage a b d, l', r')"
      "rest_flags (add_rest a b d) (add_cut a b d) l' r'" "l' \<longrightarrow> dr" "\<not> da \<longrightarrow> add_stage a b d = a"
    using add_stages [OF assms(1-3,5-8)] by blast
  note R = add_rounding [OF sh assms(3,8) A(3), of rnd]
  have do_r: "(if \<not> rnd \<or> \<not> l' then False else dr) = (rnd \<and> l')" using A(4) by auto
  have R': "(if rnd \<and> l' then do {
        (d, b') \<leftarrow> Big_RoundHalfToEven (add_stage a b d) r' (Big_IsSign a = Big_IsSign b);
        Some (of_bool ?p + d, b')
      } else Some (of_bool ?p, add_stage a b d)) = Some (of_bool ?p + of_bool ?q, ?r)"
    using R by (cases "rnd \<and> l'") auto
  have g: "?r = a" if "\<not> (da \<or> rnd \<and> l')" using R A(5) that by (cases "rnd \<and> l'") auto
  define st where "st = (if da \<or> rnd \<and> l' then Big_Standardizing ?r else Some (0, ?r))"
  obtain x z where z: "st = Some (x, z)" "same_type z a" "Big_IsNan z = Big_IsNan a" "x \<le> 1" "x = 0 \<longrightarrow> standard z \<and> bval z = bval ?r"
    "fits ?x (?e - int (man_bits a)) \<and> ?e \<le> ival (exponent ?r) \<longrightarrow> x = 0"
    using add_finish [OF assms(1), of "da \<or> rnd \<and> l'" b d rnd] g unfolding st_def by blast
  have st: "(if da \<or> rnd \<and> l' then do {
        (d, b') \<leftarrow> Big_Standardizing ?r;
        Some (of_bool ?p + of_bool ?q + d, b')
      } else Some (of_bool ?p + of_bool ?q, ?r)) = Some (of_bool ?p + of_bool ?q + x, z)"
    using z(1) by (cases "da \<or> rnd \<and> l'") (auto simp: st_def)
  have res: "add_ordered a b t rnd = Some (Big_CheckCarry z (of_bool ?p + of_bool ?q + x))"
    unfolding add_ordered_def by (simp only: assms(5) if_False A(1,2) Option.bind.bind_lunit prod.case Let_def do_r R' st)
  have V: "bval ?r = bsign a * real (add_mantissa a b d rnd) * 2 powi add_exponent a b d \<and> ?e \<le> ival (exponent ?r)"
    if "\<not> ?p" "\<not> ?q"
    using add_rounded_value [OF sh assms(3,8), of rnd] that by auto
  have rg: "\<not> ?p \<and> \<not> ?q \<and> x = 0" if f: "fits ?x (?e + 2)" "fits ?x (?e - int (man_bits a))"
  proof -
    have p: "fits ?x (?e + 1)" by (rule fits_between [OF f(2,1)]) simp_all
    moreover have "?e \<le> ival (exponent (add_stage a b d))" "ival (exponent (add_stage a b d)) \<le> ?e + 1"
      using p by (simp_all add: add_stage_def)
    then have "fits ?x (ival (exponent (add_stage a b d)) + 1)" by (intro fits_between [OF f(2,1)]) simp_all
    ultimately show ?thesis using V z(6) f(2) by blast
  qed
  note sum = small_sum_eq_0 [OF z(4), of ?p ?q]
  show ?thesis
    using z(2,3,5) V rg assms(4) unfolding res Big_CheckCarry_def sum by (auto simp: same_type_def)
qed

lemma fits_of_abs: "fits n \<bar>v\<bar> \<Longrightarrow> fits n v"
  by (cases "0 \<le> v") (simp_all add: fits_def)

text \<open>The distance of the exponents, if it is in their range.\<close>

lemma exponent_distance:
  assumes "e \<noteq> []" "length e' = length e" "fits (length e) \<bar>ival e - ival e'\<bar>"
  defines "t \<equiv> snd (Int_Abs (snd (Int_Sub e e')))"
  shows "t \<noteq> []" "ival t = int (nat \<bar>ival e - ival e'\<bar>)"
proof -
  have f: "fits (length e) (ival e - ival e')" using assms(3) by (rule fits_of_abs)
  have "snd (Int_Sub e e') = itab (length e) (ival e - ival e')" using Sub_ival [OF assms(2,1)] by simp
  moreover have "itab (length e) (ival e - ival e') \<noteq> []" using assms(1) by (metis length_0_conv length_itab)
  ultimately have "t = itab (length e) \<bar>ival e - ival e'\<bar>" using Abs_result f by (simp add: t_def)
  then show "t \<noteq> []" "ival t = int (nat \<bar>ival e - ival e'\<bar>)" using assms(1,3) by (metis length_0_conv length_itab, simp)
qed

text \<open>The number that is not smaller has the larger exponent, and covers the moved mantissa.\<close>

lemma larger_exponent:
  assumes "standard a" "standard b" "same_type a b" "\<not> Big_IsZero a" "\<not> Big_IsZero b" "\<bar>bval b\<bar> \<le> \<bar>bval a\<bar>"
  shows "ival (exponent b) \<le> ival (exponent a)"
    "uval (mantissa b) \<le> uval (mantissa a) * 2 ^ nat (ival (exponent a) - ival (exponent b))"
proof -
  let ?d = "nat (ival (exponent a) - ival (exponent b))"
  have t: "same_type b a" using assms(3) by (simp add: same_type_def)
  show le: "ival (exponent b) \<le> ival (exponent a)"
    using abs_bval_less_iff [OF assms(1-5)] assms(6) by linarith
  have "2 powi ival (exponent a) = 2 powi ival (exponent b) * (2 ^ ?d :: real)"
    using le by (simp flip: powi_nat_2 powi_add_2)
  then have "real (uval (mantissa b)) * 2 powi ival (exponent b) \<le> real (uval (mantissa a)) * 2 ^ ?d * 2 powi ival (exponent b)"
    using assms(6) unfolding abs_bval by (simp only: mult.assoc mult.commute mult.left_commute)
  then have "real (uval (mantissa b)) \<le> real (uval (mantissa a) * 2 ^ ?d)" by simp
  then show "uval (mantissa b) \<le> uval (mantissa a) * 2 ^ ?d" by (simp only: of_nat_le_iff)
qed

text \<open>The exact sum, and the error of the rounded one.\<close>

lemma exact_sum:
  assumes "ival (exponent a) = ival (exponent b) + int d" "uval (mantissa b) \<le> uval (mantissa a) * 2 ^ d"
  shows "bval a + bval b = bsign a * (real (add_exact a b d) / real (2 ^ add_cut a b d)) * 2 powi add_exponent a b d"
proof -
  let ?h = "add_cut a b d" and ?E = "2 powi ival (exponent b) :: real"
  have h: "d \<le> ?h" by (simp add: add_cut_def)
  have a: "bval a = bsign a * (real (uval (mantissa a)) * 2 ^ d) * ?E"
    unfolding bval_def assms(1) powi_add_2 powi_nat_2 by simp
  have "bval a + bval b = bsign a * real (add_exact a b d) * ?E"
    using assms(2) by (simp add: a bval_def [of b] bsign_def add_exact_def of_nat_diff algebra_simps)
  moreover have "2 powi add_exponent a b d = ?E * 2 ^ ?h"
  proof -
    have "add_exponent a b d = ival (exponent b) + int ?h" using h by (simp add: assms(1))
    then show ?thesis by (simp only: powi_add_2 powi_nat_2)
  qed
  ultimately show ?thesis by simp
qed

lemma add_mantissa_error:
  assumes "covers a b d" "same_type a b"
  shows "\<bar>real (add_mantissa a b d rnd) - real (add_exact a b d) / real (2 ^ add_cut a b d)\<bar> \<le> (if rnd then 1 / 2 else 1)"
proof (cases rnd)
  case True
  then show ?thesis using round_even_error [of "2 ^ add_cut a b d" "add_exact a b d"] by (simp add: add_mantissa_def Let_def)
next
  case False
  let ?q = "add_quotient a b d" and ?f = "add_rest a b d" and ?h = "2 ^ add_cut a b d :: nat"
  note E = add_exact_stage [OF assms]
  have "add_mantissa a b d rnd = ?q" using add_mantissa_cases [OF assms, of rnd] False by simp
  moreover have "\<bar>real ?q - real (add_exact a b d) / real ?h\<bar> = real ?f / real ?h"
  proof (cases "Big_IsSign a = Big_IsSign b")
    case True
    then show ?thesis using E(3) by (simp add: add_divide_distrib)
  next
    case False
    from E(4) [OF False] have "?f \<le> ?q * ?h" "add_exact a b d = ?q * ?h - ?f" by blast+
    then have "real (add_exact a b d) = real ?q * real ?h - real ?f" by (simp only: of_nat_diff of_nat_mult)
    then show ?thesis by (simp add: diff_divide_distrib)
  qed
  moreover have "real ?f / real ?h \<le> 1"
  proof -
    have "real ?f < real ?h" using E(1) by (simp only: of_nat_less_iff)
    then show ?thesis by simp
  qed
  ultimately show ?thesis using False by simp
qed

lemma exponent_at_least:
  assumes "big_shape z" "2 ^ (man_bits z - 1) * 2 powi E \<le> \<bar>bval z\<bar>"
  shows "E \<le> ival (exponent z)"
proof (rule ccontr)
  assume "\<not> E \<le> ival (exponent z)"
  then have e: "ival (exponent z) + 1 \<le> E" by simp
  have "0 < man_bits z" using shape_Nil(2) [OF assms(1)] by simp
  then have N: "(2 :: real) ^ man_bits z = 2 ^ (man_bits z - 1) * 2" by (metis Suc_diff_1 power_Suc2)
  have "real (uval (mantissa z)) < real (W ^ length (mantissa z))" using uval_less by (simp only: of_nat_less_iff)
  then have "real (uval (mantissa z)) < 2 ^ man_bits z" by (simp only: W_power of_nat_power of_nat_numeral)
  then have "\<bar>bval z\<bar> < 2 ^ man_bits z * 2 powi ival (exponent z)"
    unfolding abs_bval by (simp only: mult_less_cancel_right_pos zero_less_power_int zero_less_numeral)
  also have "\<dots> = 2 ^ (man_bits z - 1) * 2 powi (ival (exponent z) + 1)" unfolding N by (simp add: powi_add_2)
  also have "\<dots> \<le> 2 ^ (man_bits z - 1) * 2 powi E"
    using e by (intro mult_left_mono power_int_increasing) simp_all
  finally show False using assms(2) by simp
qed

lemma add_exponent_le:
  assumes "standard z" "same_type z a" "big_shape a" "covers a b d" "same_type a b"
    "bval z = bsign a * real (add_mantissa a b d rnd) * 2 powi add_exponent a b d"
  shows "add_exponent a b d \<le> max (ival (exponent a)) (ival (exponent z))"
proof (cases "add_cut a b d = d")
  case False
  then have h: "add_cut a b d = d + 1" "Big_IsSign a = Big_IsSign b" "W ^ length (mantissa a) * 2 ^ d \<le> add_exact a b d"
    by (auto simp: add_cut_def split: if_splits)
  have n: "0 < length (mantissa a)" using shape_Nil(2) [OF assms(3)] by simp
  have W2: "2 ^ (man_bits a - 1) * 2 ^ (d + 1) = W ^ length (mantissa a) * 2 ^ d"
    using half_W_power [OF n] unfolding half_top [OF n] by simp
  have "2 ^ (man_bits a - 1) \<le> add_exact a b d div 2 ^ (d + 1)"
    by (subst less_eq_div_iff_mult_less_eq) (use h(3) in \<open>simp_all only: W2 zero_less_power pos2\<close>)
  then have "2 ^ (man_bits a - 1) \<le> add_quotient a b d" by (simp only: add_quotient_def h(1,2) if_True refl)
  also have "\<dots> \<le> add_mantissa a b d rnd" using add_mantissa_cases [OF assms(4,5), of rnd] h(2) by simp
  finally have "real (2 ^ (man_bits a - 1)) \<le> real (add_mantissa a b d rnd)" by (simp only: of_nat_le_iff)
  then have "2 ^ (man_bits a - 1) \<le> real (add_mantissa a b d rnd)" by simp
  then have "2 ^ (man_bits z - 1) * 2 powi add_exponent a b d \<le> \<bar>bval z\<bar>"
    using assms(2) unfolding assms(6) by (simp add: abs_mult abs_bsign same_type_def)
  from exponent_at_least [OF standard_shape [OF assms(1)] this] show ?thesis by simp
qed simp

lemma add_ordered_sum:
  assumes "standard a" "standard b" "same_type a b" "\<not> Big_IsNan a" "\<not> Big_IsZero a" "\<not> Big_IsZero b"
    "\<bar>bval b\<bar> \<le> \<bar>bval a\<bar>" "t \<noteq> []" "ival t = int (nat \<bar>ival (exponent a) - ival (exponent b)\<bar>)"
  shows "\<exists>c z. add_ordered a b t rnd = Some (c, z) \<and> same_type z a \<and> (c \<noteq> 0 \<longrightarrow> c = 1 \<and> Big_IsNan z) \<and>
    (c = 0 \<longrightarrow> standard z \<and> \<not> Big_IsNan z \<and>
       \<bar>bval z - (bval a + bval b)\<bar> \<le> (if rnd then 1 / 2 else 1) * 2 powi max (ival (exponent a)) (ival (exponent z))) \<and>
    (fits (length (exponent a)) (ival (exponent a) + 2) \<and>
     fits (length (exponent a)) (ival (exponent a) - int (man_bits a)) \<longrightarrow> c = 0)"
proof -
  let ?d = "nat (ival (exponent a) - ival (exponent b))"
  note L = larger_exponent [OF assms(1-3,5-7)]
  have cov: "covers a b ?d" using L(2) by (rule coversI)
  have t: "ival t = int ?d" "ival (exponent a) = ival (exponent b) + int ?d" using assms(9) L(1) by simp_all
  obtain c z where z: "add_ordered a b t rnd = Some (c, z)" "same_type z a" "c \<noteq> 0 \<longrightarrow> c = 1 \<and> Big_IsNan z"
    "c = 0 \<longrightarrow> standard z \<and> \<not> Big_IsNan z \<and> bval z = bsign a * real (add_mantissa a b ?d rnd) * 2 powi add_exponent a b ?d"
    "fits (length (exponent a)) (ival (exponent a) + 2) \<and>
     fits (length (exponent a)) (ival (exponent a) - int (man_bits a)) \<longrightarrow> c = 0"
    using add_ordered_value [OF assms(1-4,6,8) t(1) cov, of rnd] by blast
  have "\<bar>bval z - (bval a + bval b)\<bar> \<le> (if rnd then 1 / 2 else 1) * 2 powi max (ival (exponent a)) (ival (exponent z))" if "c = 0"
  proof -
    from z(4) that have s: "standard z" and v: "bval z = bsign a * real (add_mantissa a b ?d rnd) * 2 powi add_exponent a b ?d" by blast+
    show ?thesis unfolding v exact_sum [OF t(2) L(2)]
      by (rule scaled_error [OF add_mantissa_error [OF cov assms(3)] abs_bsign(1)
            add_exponent_le [OF s z(2) standard_shape [OF assms(1)] cov assms(3) v]])
  qed
  with z show ?thesis by blast
qed

text \<open>Exponents whose distance is in the range of an exponent, which zero always is.\<close>

definition close_exponents :: "big \<Rightarrow> big \<Rightarrow> bool" where
  "close_exponents a b \<longleftrightarrow> Big_IsZero a \<or> Big_IsZero b \<or>
     fits (length (exponent a)) \<bar>ival (exponent a) - ival (exponent b)\<bar>"

definition exponent_room :: "big \<Rightarrow> bool" where
  "exponent_room b \<longleftrightarrow> fits (length (exponent b)) (ival (exponent b) + 2) \<and>
     fits (length (exponent b)) (ival (exponent b) - int (man_bits b))"

definition max_exponent :: "big \<Rightarrow> big \<Rightarrow> big \<Rightarrow> int" where
  "max_exponent a b z = max (max (ival (exponent a)) (ival (exponent b))) (ival (exponent z))"

lemma ChangeSign_fields [simp]:
  "exponent (Big_ChangeSign b) = exponent b" "mantissa (Big_ChangeSign b) = mantissa b"
  "Big_IsZero (Big_ChangeSign b) = Big_IsZero b"
  by (simp_all add: Big_ChangeSign_def)

lemma Add_plus:
  assumes "standard a" "standard b" "same_type a b" "\<not> Big_IsNan a" "\<not> Big_IsNan b" "close_exponents a b"
  shows "\<exists>c z. Big_Add a b rnd True = Some (c, z) \<and> same_type z a \<and> (c \<noteq> 0 \<longrightarrow> c = 1 \<and> Big_IsNan z) \<and>
    (c = 0 \<longrightarrow> standard z \<and> \<not> Big_IsNan z \<and>
       \<bar>bval z - (bval a + bval b)\<bar> \<le> (if rnd then 1 / 2 else 1) * 2 powi max_exponent a b z) \<and>
    (exponent_room a \<and> exponent_room b \<longrightarrow> c = 0)"
proof -
  define t where "t = snd (Int_Abs (snd (Int_Sub (exponent a) (exponent b))))"
  have A: "Big_Add a b rnd True = (if Big_SmallerWithoutSignThan a b then add_ordered b a t rnd else add_ordered a b t rnd)"
    using Add_ordered [OF assms(3-5), of rnd True] by (simp add: t_def)
  note W = WithoutSign_values(1) [OF assms(1-3)]
  have ba: "same_type b a" using assms(3) by (simp add: same_type_def)
  note Z = standard_zero_iff [OF assms(1)] standard_zero_iff [OF assms(2)]
  have dist: "t \<noteq> []" "ival t = int (nat \<bar>ival (exponent a) - ival (exponent b)\<bar>)" if "\<not> Big_IsZero a" "\<not> Big_IsZero b"
    using exponent_distance [of "exponent a" "exponent b"] shape_Nil(1) [OF standard_shape [OF assms(1)]] assms(3,6) that
    by (simp_all add: t_def same_type_def close_exponents_def)
  consider "Big_IsZero b" | "\<not> Big_IsZero b" "Big_IsZero a" | "\<not> Big_IsZero a" "\<not> Big_IsZero b" "\<bar>bval a\<bar> < \<bar>bval b\<bar>"
    | "\<not> Big_IsZero a" "\<not> Big_IsZero b" "\<bar>bval b\<bar> \<le> \<bar>bval a\<bar>" by linarith
  then show ?thesis
  proof cases
    case 1
    then show ?thesis using A W Z assms(1,4) by (simp add: add_ordered_def same_type_def)
  next
    case 2
    then show ?thesis using A W Z assms(2,5) ba by (simp add: add_ordered_def)
  next
    case 3
    have "\<exists>c z. add_ordered b a t rnd = Some (c, z) \<and> same_type z b \<and> (c \<noteq> 0 \<longrightarrow> c = 1 \<and> Big_IsNan z) \<and>
      (c = 0 \<longrightarrow> standard z \<and> \<not> Big_IsNan z \<and>
         \<bar>bval z - (bval b + bval a)\<bar> \<le> (if rnd then 1 / 2 else 1) * 2 powi max (ival (exponent b)) (ival (exponent z))) \<and>
      (exponent_room b \<longrightarrow> c = 0)"
      using add_ordered_sum [OF assms(2,1) ba assms(5) 3(2,1) _ dist(1)] dist(2) 3
      by (simp add: exponent_room_def abs_minus_commute)
    moreover have "max_exponent a b z = max (ival (exponent b)) (ival (exponent z))" for z
      using larger_exponent(1) [OF assms(2,1) ba 3(2,1)] 3(3) by (simp add: max_exponent_def max_def)
    moreover have "same_type z b = same_type z a" for z using assms(3) by (simp add: same_type_def)
    ultimately show ?thesis using A W 3(3) unfolding add.commute [of "bval b"] by auto
  next
    case 4
    have "\<exists>c z. add_ordered a b t rnd = Some (c, z) \<and> same_type z a \<and> (c \<noteq> 0 \<longrightarrow> c = 1 \<and> Big_IsNan z) \<and>
      (c = 0 \<longrightarrow> standard z \<and> \<not> Big_IsNan z \<and>
         \<bar>bval z - (bval a + bval b)\<bar> \<le> (if rnd then 1 / 2 else 1) * 2 powi max (ival (exponent a)) (ival (exponent z))) \<and>
      (exponent_room a \<longrightarrow> c = 0)"
      using add_ordered_sum [OF assms(1-4) 4 dist] 4 by (simp add: exponent_room_def)
    moreover have "max_exponent a b z = max (ival (exponent a)) (ival (exponent z))" for z
      using larger_exponent(1) [OF assms(1-3) 4] by (simp add: max_exponent_def max_def)
    ultimately show ?thesis using A W 4(3) by auto
  qed
qed

text \<open>Subtraction is the addition of the number with the other sign.\<close>

lemma Add_minus:
  assumes "same_type a b" "\<not> Big_IsNan a" "\<not> Big_IsNan b"
  shows "Big_Add a b rnd False = Big_Add a (Big_ChangeSign b) rnd True"
proof -
  have "same_type a (Big_ChangeSign b)" "\<not> Big_IsNan (Big_ChangeSign b)"
    using assms by (simp_all add: same_type_def Big_ChangeSign_def)
  then show ?thesis
    using Add_ordered [OF assms, of rnd False] Add_ordered [of a "Big_ChangeSign b" rnd True] assms(2) by simp
qed

lemma Add_value:
  fixes adding :: bool
  assumes "standard a" "standard b" "same_type a b" "\<not> Big_IsNan a" "\<not> Big_IsNan b" "close_exponents a b"
  defines "s \<equiv> bval a + (if adding then bval b else - bval b)"
  shows "\<exists>c z. Big_Add a b rnd adding = Some (c, z) \<and> same_type z a \<and> (c \<noteq> 0 \<longrightarrow> c = 1 \<and> Big_IsNan z) \<and>
    (c = 0 \<longrightarrow> standard z \<and> \<not> Big_IsNan z \<and> \<bar>bval z - s\<bar> \<le> (if rnd then 1 / 2 else 1) * 2 powi max_exponent a b z) \<and>
    (exponent_room a \<and> exponent_room b \<longrightarrow> c = 0)"
proof (cases adding)
  case True
  then show ?thesis using Add_plus [OF assms(1-6), of rnd] by (simp only: s_def if_True)
next
  case False
  note C = ChangeSign_value [OF assms(2)]
  have "same_type a (Big_ChangeSign b)" "close_exponents a (Big_ChangeSign b)"
    "exponent_room (Big_ChangeSign b) = exponent_room b" "max_exponent a (Big_ChangeSign b) z = max_exponent a b z" for z
    using assms(3,6) by (simp_all add: same_type_def close_exponents_def exponent_room_def max_exponent_def)
  then show ?thesis
    using Add_plus [OF assms(1) C(1) _ assms(4), of rnd] C(2,3) assms(5) False Add_minus [OF assms(3-5), of rnd]
    by (simp only: s_def if_False simp_thms True_implies_equals)
qed

section \<open>Exponents too far apart\<close>

text \<open>
  The difference of the exponents wraps around when it is out of range. The sum is then wrong, but
  it is still a standard number: the wrapped distance is not zero, or it is the smallest value,
  which is not moved by at all, or fails an assertion when the exponent has only one word.
\<close>

lemma half_W_power_low:
  assumes "1 < n"
  shows "(2 :: int) ^ 64 dvd int (W ^ n) div 2"
proof -
  define k where "k = n - 2"
  have n: "n = Suc (Suc k)" using assms by (simp add: k_def)
  have "int (W ^ n) = int W * (int W * int (W ^ k))" by (simp only: n power_Suc of_nat_mult)
  moreover have "int W = 2 * 2 ^ 63" "int W = 2 ^ 64" by (simp_all add: W_def)
  ultimately have "int (W ^ n) = 2 * (2 ^ 64 * (2 ^ 63 * int (W ^ k)))" by (metis mult.assoc mult.commute)
  then have "int (W ^ n) div 2 = 2 ^ 64 * (2 ^ 63 * int (W ^ k))" by linarith
  then show ?thesis by (simp only: dvd_triv_left)
qed

lemma AddCheckExponents_wrapped:
  assumes "standard b" "t \<noteq> []" "2 * ival t = - int (W ^ length t)"
    "Big_AddCheckExponents b t False False False False = Some r"
  shows "r = (b, False, True, True, True)"
proof -
  note sh = standard_shape [OF assms(1)]
  have bits: "man_bits b < 2 ^ 62" using shape_bits [OF sh] by simp
  note N = new_uint_ival [OF assms(2) bits]
  have M: "length (mantissa b) * TTMATH_BITS_PER_UINT = man_bits b" by (simp add: TTMATH_BITS_PER_UINT_def)
  have neg: "ival t < int (man_bits b)" using assms(3) int_W_power_pos [of "length t"] by linarith
  note C = Int_comparison(1,5) [OF N(1) assms(2), unfolded N(2)]
  have w: "Int_ToInt t = of_int (ival t)"
    using ToInt_ival [OF assms(2)] by (simp add: Int_ToInt_def Int_ToInt_sint_def Let_def split: if_splits)
  have "unat (Int_ToInt t) = 0 \<or> UInt_GetBit (mantissa b) (unat (Int_ToInt t) - 1) = None"
  proof (cases "length t = 1")
    case True
    then have "ival t = - (2 ^ 63)" using assms(3) by (simp add: W_def)
    then have "unat (Int_ToInt t) = 2 ^ 63" unfolding w by simp
    then show ?thesis using bits unfolding UInt_GetBit_def M by simp
  next
    case False
    then have "1 < length t" using assms(2) by (cases t) auto
    moreover have "ival t = - (int (W ^ length t) div 2)" using assms(3) by simp
    ultimately have "2 ^ 64 dvd ival t" using half_W_power_low [of "length t"] by (simp only: dvd_minus_iff)
    then have "(of_int (ival t) :: uint) = 0" by (simp add: word_of_int_eq_0_iff)
    then show ?thesis by (simp add: w)
  qed
  then show ?thesis
    using assms(4) C neg unfolding Big_AddCheckExponents_def Let_def M by (auto split: if_splits)
qed

text \<open>The wrapped distance of exponents that are too far apart.\<close>

lemma not_fits: "0 < N \<Longrightarrow> \<not> (- N \<le> 2 * \<bar>x\<bar> \<and> 2 * \<bar>x\<bar> < N) \<Longrightarrow> N \<le> 2 * \<bar>x\<bar>" for x N :: int
  by linarith

lemma far_distance:
  assumes "e \<noteq> []" "length e' = length e" "\<not> fits (length e) \<bar>ival e - ival e'\<bar>"
  defines "t \<equiv> snd (Int_Abs (snd (Int_Sub e e')))"
  obtains d where "0 < d" "t \<noteq> []" "ival t = int d" | "t \<noteq> []" "2 * ival t = - int (W ^ length t)"
proof -
  let ?n = "length e" and ?N = "int (W ^ length e)" and ?x = "ival e - ival e'"
  have b: "- ?N \<le> 2 * ival e" "2 * ival e < ?N" "- ?N \<le> 2 * ival e'" "2 * ival e' < ?N"
    using ival_bounds [of e] ival_bounds [of e'] assms(2) by (simp_all only: fits_def)
  define v where "v = (if 2 * ?x = - ?N then ?x else if 0 \<le> ?x then ?x - ?N else ?x + ?N)"
  have far: "?N \<le> 2 * \<bar>?x\<bar>" 
    using not_fits [of ?N ?x] assms(3) by (simp only: fits_def simp_thms int_W_power_pos True_implies_equals)
  have v: "fits ?n v" "v \<noteq> 0" using b far by (simp_all add: v_def fits_def abs_if split: if_splits)
  have "itab ?n ?x = itab ?n v"
    using itab_add_multiple [of ?n v "if 2 * ?x = - ?N then 0 else if 0 \<le> ?x then 1 else - 1"] by (simp add: v_def split: if_splits)
  then have "snd (Int_Sub e e') = itab ?n v" using Sub_ival [OF assms(2,1)] by simp
  moreover have ne: "itab ?n v \<noteq> []" using assms(1) by (metis length_0_conv length_itab)
  ultimately have t: "t = itab ?n \<bar>v\<bar>" "t \<noteq> []"
    using Abs_result [OF ne] v(1) assms(1) by (simp_all add: t_def)
  show thesis
  proof (cases "fits ?n \<bar>v\<bar>")
    case True
    then show thesis using that(1) [of "nat \<bar>v\<bar>"] t v(2) by simp
  next
    case False
    then have "2 * v = - ?N" using v(1) unfolding fits_def by linarith
    then have "v + 1 * ?N = \<bar>v\<bar>" using int_W_power_pos [of ?n] by linarith
    then have "t = itab ?n v" using t(1) itab_add_multiple [of ?n v 1] by (simp only:)
    then show thesis using that(2) t(2) v(1) \<open>2 * v = - ?N\<close> by simp
  qed
qed

lemma add_ordered_far:
  assumes "standard a" "standard b" "same_type a b" "\<not> Big_IsNan a" "\<not> Big_IsZero a" "\<not> Big_IsZero b" "t \<noteq> []"
    "0 < d \<and> ival t = int d \<or> 2 * ival t = - int (W ^ length t)" "add_ordered a b t rnd = Some (c, z)"
  shows "same_type z a \<and> (c \<noteq> 0 \<longrightarrow> Big_IsNan z) \<and> (c = 0 \<longrightarrow> standard z \<and> \<not> Big_IsNan z)"
  using assms(8)
proof
  assume d: "0 < d \<and> ival t = int d"
  have bn: "man_bits b = man_bits a" using assms(3) by (simp add: same_type_def)
  have "uval (mantissa b) < 2 ^ man_bits a" "2 ^ (man_bits a - 1) \<le> uval (mantissa a)"
    using standard_mantissa [OF assms(2,6)] standard_mantissa [OF assms(1,5)] by (simp_all add: bn)
  moreover have "(2 :: nat) ^ man_bits a \<le> 2 * 2 ^ (man_bits a - 1)" by (cases "man_bits a") simp_all
  moreover have "2 * uval (mantissa a) \<le> uval (mantissa a) * 2 ^ d"
    using d power_increasing [of 1 d "2 :: nat"] by (cases d) simp_all
  ultimately have "covers a b d" by (intro coversI) linarith
  from add_ordered_value [OF assms(1-4,6,7) _ this, of rnd] d assms(9) show ?thesis by auto
next
  assume t: "2 * ival t = - int (W ^ length t)"
  let ?t = "itab (length t) 0"
  have "fits (length t) 0" by (simp add: fits_def)
  then have z: "?t \<noteq> []" "ival ?t = int 0" using assms(7) by (metis length_0_conv length_itab, simp add: ival_itab)
  obtain r where r: "Big_AddCheckExponents b t False False False False = Some r"
    using assms(6,9) by (auto simp: add_ordered_def split: Option.bind_splits)
  note r' = r [unfolded AddCheckExponents_wrapped [OF assms(2,7) t r]]
  have "Big_AddCheckExponents b ?t False False False False = Some (b, False, True, True, True)"
    using AddCheckExponents_value [OF assms(2,6) z] shape_Nil(2) [OF standard_shape [OF assms(2)]] by simp
  then have "add_ordered a b ?t rnd = add_ordered a b t rnd" unfolding add_ordered_def r' by simp
  then have same: "add_ordered a b ?t rnd = Some (c, z)" using assms(9) by simp
  have "covers a b 0"
  proof (rule ccontr)
    assume n: "\<not> covers a b 0"
    have bn: "length (mantissa b) = length (mantissa a)" using assms(3) by (simp add: same_type_def)
    have "Big_AddMantissas a b False True = None"
      using n Sub_result [OF bn shape_Nil(2) [OF standard_shape [OF assms(1)]], of 0]
      by (simp add: covers_def Big_AddMantissas_def borrow_result_def)
    then show False using assms(6,9) r' by (simp add: add_ordered_def)
  qed
  from add_ordered_value [OF assms(1-4,6) z this, of rnd] same show ?thesis by auto
qed

text \<open>Every sum that is defined is a standard number or, with a carry, not a number.\<close>

lemma Add_plus_any:
  assumes "standard a" "standard b" "same_type a b" "\<not> Big_IsNan a" "\<not> Big_IsNan b" "Big_Add a b rnd True = Some (c, z)"
  shows "same_type z a \<and> (c \<noteq> 0 \<longrightarrow> Big_IsNan z) \<and> (c = 0 \<longrightarrow> standard z \<and> \<not> Big_IsNan z)"
proof (cases "close_exponents a b")
  case True
  then show ?thesis using Add_plus [OF assms(1-5), of rnd] assms(6) by auto
next
  case False
  then have nz: "\<not> Big_IsZero a" "\<not> Big_IsZero b" and far: "\<not> fits (length (exponent a)) \<bar>ival (exponent a) - ival (exponent b)\<bar>"
    by (simp_all add: close_exponents_def)
  define t where "t = snd (Int_Abs (snd (Int_Sub (exponent a) (exponent b))))"
  have A: "Some (c, z) = (if Big_SmallerWithoutSignThan a b then add_ordered b a t rnd else add_ordered a b t rnd)"
    using Add_ordered [OF assms(3-5), of rnd True] assms(6) by (simp add: t_def)
  have ba: "same_type b a" "length (exponent b) = length (exponent a)" using assms(3) by (simp_all add: same_type_def)
  have "\<exists>d. t \<noteq> [] \<and> (0 < d \<and> ival t = int d \<or> 2 * ival t = - int (W ^ length t))"
    using far_distance [OF shape_Nil(1) [OF standard_shape [OF assms(1)]] ba(2) far] unfolding t_def by blast
  then obtain d where t: "t \<noteq> []" "0 < d \<and> ival t = int d \<or> 2 * ival t = - int (W ^ length t)" by blast
  show ?thesis
    using A add_ordered_far [OF assms(2,1) ba(1) assms(5) nz(2,1) t, of rnd c z]
      add_ordered_far [OF assms(1-4) nz t, of rnd c z] assms(3)
    by (auto simp: same_type_def split: if_splits)
qed

lemma Add_any:
  assumes "standard a" "standard b" "same_type a b" "\<not> Big_IsNan a" "\<not> Big_IsNan b" "Big_Add a b rnd adding = Some (c, z)"
  shows "same_type z a \<and> (c \<noteq> 0 \<longrightarrow> Big_IsNan z) \<and> (c = 0 \<longrightarrow> standard z \<and> \<not> Big_IsNan z)"
proof (cases adding)
  case True
  then show ?thesis using Add_plus_any [OF assms(1-5)] assms(6) by simp
next
  case False
  note C = ChangeSign_value [OF assms(2)]
  have "same_type a (Big_ChangeSign b)" using assms(3) by (simp add: same_type_def)
  then show ?thesis
    using Add_plus_any [OF assms(1) C(1) _ assms(4), of rnd c z] C(3) assms(5,6) False Add_minus [OF assms(3-5), of rnd] by simp
qed

section \<open>Two samples\<close>

text \<open>
  The bit that falls off is rounded away before the leading bits cancel: the difference of two
  neighbouring numbers on the two sides of a power of two is zero.
\<close>

lemma Sub_neighbours:
  "Big_Sub \<lparr>exponent = [1], mantissa = [2 ^ 63], info = 0\<rparr> \<lparr>exponent = [0], mantissa = [- 1], info = 0\<rparr> True =
   Some (0, \<lparr>exponent = [0], mantissa = [0], info = 32\<rparr>)"
  by code_simp

text \<open>
  The carry of the subtraction of the exponents is not looked at: the smallest power of two is
  added to the largest one as if it were half of it.
\<close>

lemma Add_far_sample:
  "Big_Add \<lparr>exponent = [2 ^ 63 - 1], mantissa = [2 ^ 63], info = 0\<rparr> \<lparr>exponent = [2 ^ 63], mantissa = [2 ^ 63], info = 0\<rparr> True True =
   Some (0, \<lparr>exponent = [2 ^ 63 - 1], mantissa = [2 ^ 63 + 2 ^ 62], info = 0\<rparr>)"
  by code_simp

end
