(* ===== verification/Big_Mul.thy ===== *)
theory Big_Mul
  imports Big_Round
begin

text \<open>
  Multiplication of \<^verbatim>\<open>Big\<close> numbers (\<^verbatim>\<open>ttmathbig.h\<close>), by a word and by another number: the product of
  the mantissas, moved to the left and rounded.
\<close>

section \<open>Definitions\<close>

definition Big_MulUInt :: "big \<Rightarrow> uint \<Rightarrow> (uint \<times> big) option" where
  "Big_MulUInt b ss2 =
     (if Big_IsNan b then Some (1, b)
      else if Big_IsZero b then Some (0, b)
      else if ss2 = 0 then Some (0, Big_SetZero b)
      else do {
        let man = length (mantissa b);
        man_result \<leftarrow> UInt_MulIntBig (mantissa b) ss2 (replicate (man + 1) 0);
        lead \<leftarrow> UInt_FindLeadingBitInWord (man_result ! man);
        (c, b) \<leftarrow>
          (if lead \<noteq> - 1 \<and> lead > of_nat (TTMATH_BITS_PER_UINT div 2) then do {
             (i, man_result) \<leftarrow> UInt_CompensationToLeft man_result;
             let (c, e) = Int_Add (exponent b) (Int_new_uint (exponent b) (of_nat (TTMATH_BITS_PER_UINT - i)));
             Some (c, b\<lparr>exponent := e, mantissa := take man (drop 1 man_result)\<rparr>)
           } else do {
             (c, e, man_result) \<leftarrow>
               (if lead \<noteq> - 1 then do {
                  (_, man_result) \<leftarrow> UInt_Rcr man_result (unat (lead + 1)) 0;
                  let (c, e) = Int_Add (exponent b) (Int_new_sint (exponent b) (lead + 1));
                  Some (c, e, man_result)
                } else Some (0, exponent b, man_result));
             Some (c, b\<lparr>exponent := e, mantissa := take man man_result\<rparr>)
           });
        (d, b) \<leftarrow> Big_Standardizing b;
        Some (Big_CheckCarry b (c + d))
      })"

definition Big_MulInt :: "big \<Rightarrow> sint \<Rightarrow> (uint \<times> big) option" where
  "Big_MulInt b ss2 =
     (if Big_IsNan b then Some (1, b)
      else if ss2 = 0 then Some (0, Big_SetZero b)
      else if Big_IsZero b then Some (0, b)
      else let b = (if Big_IsSign b = (ss2 <s 0) then Big_Abs b else Big_SetSign b);
               ss2 = (if ss2 <s 0 then - ss2 else ss2)
           in Big_MulUInt b ss2)"

definition Big_MulRef :: "big \<Rightarrow> big \<Rightarrow> bool \<Rightarrow> (uint \<times> big) option" where
  "Big_MulRef b ss2 rnd =
     (if Big_IsNan b \<or> Big_IsNan ss2 then Some (Big_CheckCarry b 1)
      else if Big_IsZero b then Some (0, b)
      else if Big_IsZero ss2 then Some (0, Big_SetZero b)
      else do {
        let man = length (mantissa b);
        man_result \<leftarrow> UInt_MulBig (mantissa b) (mantissa ss2) 100;
        (i, man_result) \<leftarrow> UInt_CompensationToLeft man_result;
        let exp_add = of_nat (man * TTMATH_BITS_PER_UINT) - of_nat i;
        let (c, b) = (if exp_add \<noteq> 0
          then let (c, e) = Int_Add (exponent b) (Int_new_uint (exponent b) exp_add)
               in (c, b\<lparr>exponent := e\<rparr>)
          else (0, b));
        let (d, e) = Int_Add (exponent b) (exponent ss2);
        let c = c + d;
        let b = b\<lparr>exponent := e, mantissa := take man (drop man man_result)\<rparr>;
        (c, b) \<leftarrow>
          (if rnd \<and> man_result ! (man - 1) AND TTMATH_UINT_HIGHEST_BIT \<noteq> 0 then do {
             is_half \<leftarrow> Big_CheckGreaterOrEqualHalf man_result man;
             (d, b) \<leftarrow> Big_RoundHalfToEven b is_half True;
             Some (c + d, b)
           } else Some (c, b));
        let b = (if Big_IsSign b = Big_IsSign ss2 then Big_Abs b else Big_SetSign b);
        (d, b) \<leftarrow> Big_Standardizing b;
        Some (Big_CheckCarry b (c + d))
      })"

definition Big_Mul :: "big \<Rightarrow> big \<Rightarrow> bool \<Rightarrow> (uint \<times> big) option" where
  "Big_Mul b ss2 rnd = Big_MulRef b ss2 rnd"

section \<open>The product of two numbers\<close>

text \<open>The product of two mantissas with their highest bits set needs a shift by at most one bit.\<close>

lemma mantissa_product:
  assumes "standard a" "standard b" "same_type a b" "\<not> Big_IsZero a" "\<not> Big_IsZero b"
  defines "n \<equiv> length (mantissa a)" and "p \<equiv> uval (mantissa a) * uval (mantissa b)"
  defines "i \<equiv> (if W ^ (2 * n) \<le> 2 * p then 0 else 1 :: nat)"
  shows "UInt_CompensationToLeft (utab (2 * n) p) = Some (i, utab (2 * n) (p * 2 ^ i))"
    "W ^ (2 * n) \<le> 2 * (p * 2 ^ i)" "p * 2 ^ i < W ^ (2 * n)"
proof -
  let ?N = "64 * n"
  have n: "0 < n" using shape_Nil(2) [OF standard_shape [OF assms(1)]] by (simp add: n_def)
  have bn: "length (mantissa b) = n" using assms(3) by (simp add: same_type_def n_def)
  note A = standard_mantissa [OF assms(1,4), folded n_def] and B = standard_mantissa [OF assms(2,5), unfolded bn]
  have "(2 :: nat) ^ (?N - 1) * 2 ^ (?N - 1) \<le> p" unfolding p_def using A(1) B(1) by (rule mult_le_mono)
  also have "(2 :: nat) ^ (?N - 1) * 2 ^ (?N - 1) = 2 ^ (2 * ?N - 2)"
    using n by (simp flip: power_add mult_2)
  finally have lo: "2 ^ (2 * ?N - 2) \<le> p" .
  have "p < 2 ^ ?N * 2 ^ ?N" unfolding p_def using A(2) B(2) by (intro mult_strict_mono) simp_all
  then have hi: "p < 2 ^ (2 * ?N)" by (simp only: mult_2 power_add)
  have WW: "W ^ (2 * n) = 2 ^ (2 * ?N)" by (simp add: W_power mult.commute mult.left_commute)
  define k where "k = 2 * ?N - 1 - i"
  have two: "(2 :: nat) ^ (2 * ?N) = 2 * 2 ^ (2 * ?N - 1)" "(2 :: nat) ^ (2 * ?N - 1) = 2 * 2 ^ (2 * ?N - 2)"
    using n by (simp_all flip: power_Suc add: Suc_diff_Suc numeral_2_eq_2)
  have pk: "2 ^ k \<le> p" "p < 2 ^ Suc k"
    using lo hi two unfolding k_def i_def WW by (auto simp: numeral_2_eq_2)
  have u: "uval (utab (2 * n) p) = p" using hi WW by (simp add: uval_utab)
  have "utab (2 * n) p \<noteq> []" using n by simp
  note C = CompensationToLeft_value [OF this, unfolded u, OF pk]
  have "64 * length (utab (2 * n) p) - 1 - k = i" using n by (simp add: k_def i_def)
  with C show "UInt_CompensationToLeft (utab (2 * n) p) = Some (i, utab (2 * n) (p * 2 ^ i))"
    "W ^ (2 * n) \<le> 2 * (p * 2 ^ i)" "p * 2 ^ i < W ^ (2 * n)"
    using half_W_power [of "2 * n"] n by simp_all
qed


text \<open>The exponent is added in two steps: first the bits the product was moved by, then the other
  exponent.\<close>

definition mul_shift :: "big \<Rightarrow> big \<Rightarrow> nat" where
  "mul_shift a b = (if W ^ (2 * length (mantissa a)) \<le> 2 * (uval (mantissa a) * uval (mantissa b)) then 0 else 1)"

definition mul_mantissa :: "big \<Rightarrow> big \<Rightarrow> bool \<Rightarrow> nat" where
  "mul_mantissa a b rnd = upper_half rnd (length (mantissa a)) (uval (mantissa a) * uval (mantissa b) * 2 ^ mul_shift a b)"

definition mul_exponent :: "big \<Rightarrow> big \<Rightarrow> int" where
  "mul_exponent a b = ival (exponent a) + int (man_bits a - mul_shift a b)"

definition mul_in_range :: "big \<Rightarrow> big \<Rightarrow> bool \<Rightarrow> bool" where
  "mul_in_range a b rnd \<longleftrightarrow> exponent_ok (length (exponent a)) (mul_exponent a b) (mul_exponent a b + ival (exponent b))
     (mul_mantissa a b rnd = W ^ length (mantissa a))"

lemma MulRef_result:
  assumes "standard a" "standard b" "same_type a b" "\<not> Big_IsZero a" "\<not> Big_IsZero b" "\<not> Big_IsNan a" "\<not> Big_IsNan b"
  shows "\<exists>z. Big_MulRef a b rnd = Some (if mul_in_range a b rnd then (0, z) else (1, Big_SetNan z)) \<and> same_type z a \<and>
    (mul_in_range a b rnd \<longrightarrow> standard z \<and> \<not> Big_IsNan z \<and>
       bval z = bsign a * bsign b * real (mul_mantissa a b rnd) * 2 powi (mul_exponent a b + ival (exponent b)) \<and>
       mul_exponent a b + ival (exponent b) \<le> ival (exponent z))"
proof -
  let ?n = "length (mantissa a)" and ?x = "length (exponent a)" and ?p = "uval (mantissa a) * uval (mantissa b)"
  let ?i = "mul_shift a b" and ?E1 = "mul_exponent a b" and ?s = "Big_IsSign a = Big_IsSign b"
  let ?y = "man_bits a - ?i" and ?T = "utab (2 * ?n) (?p * 2 ^ ?i)"
  note sh = standard_shape [OF assms(1)] and ab = assms(3) [unfolded same_type_def]
  note n = shape_Nil [OF sh]
  note P = mantissa_product [OF assms(1-5), folded mul_shift_def]
  have "0 < ?n" "?i \<le> 1" using n(2) by (simp_all add: mul_shift_def)
  then have y: "0 < ?y" "?y < 2 ^ 62" "?i \<le> man_bits a" using shape_bits [OF sh] by (linarith, simp, linarith)
  have "unat (of_nat ?y :: uint) = ?y" using y(2) by (simp add: unat_of_nat_small W_def)
  then have w: "of_nat (?n * TTMATH_BITS_PER_UINT) - of_nat ?i = (of_nat ?y :: uint)" "of_nat ?y \<noteq> (0 :: uint)"
    using y(1,3) by (simp add: TTMATH_BITS_PER_UINT_def of_nat_diff mult.commute, metis unat_0 less_irrefl)
  note e = new_uint_ival [OF n(1) y(2)]
  define e1 where "e1 = itab ?x ?E1"
  define E2 where "E2 = ival e1 + ival (exponent b)"
  have l1: "length e1 = ?x" "e1 \<noteq> []" using n(1) by (simp_all add: e1_def itab_def)
  have A: "Int_Add (exponent a) (Int_new_uint (exponent a) (of_nat ?y)) = (of_bool (\<not> fits ?x ?E1), e1)"
    "Int_Add e1 (exponent b) = (of_bool (\<not> fits ?x E2), itab ?x E2)"
    using Add_ival [OF e(1) n(1), unfolded e(2)] Add_ival [of "exponent b" e1] l1 ab
    by (simp add: mul_exponent_def e1_def, simp add: E2_def)
  define b1 where "b1 = a\<lparr>exponent := itab ?x E2, mantissa := take ?n (drop ?n ?T)\<rparr>"
  have b1: "same_type b1 a" "\<not> Big_IsNan b1" "Big_IsSign b1 = Big_IsSign a" "exponent b1 = itab ?x (ival (itab ?x ?E1) + ival (exponent b))"
    "mantissa b1 = take ?n (drop ?n ?T)"
    using assms(6) by (simp_all add: b1_def same_type_def itab_def E2_def e1_def)
  have sh1: "big_shape b1" using shape_same_type [OF b1(1)] sh by simp
  have m1: "length (mantissa b1) = ?n" "length (exponent b1) = ?x" using b1(1) by (simp_all add: same_type_def)
  have M: "UInt_MulBig (mantissa a) (mantissa b) 100 = Some (utab (2 * ?n) ?p)" using MulBig_result n(2) ab by simp
  have sel: "exponent (a\<lparr>exponent := e1\<rparr>) = e1"
    "(a\<lparr>exponent := e1\<rparr>)\<lparr>exponent := itab ?x E2, mantissa := take ?n (drop ?n ?T)\<rparr> = b1" by (simp_all add: b1_def)
  let ?R = "mul_mantissa a b rnd" and ?z = "finished ?s (rounded b1 (mul_mantissa a b rnd))"
  have res: "Big_MulRef a b rnd = Some (Big_CheckCarry ?z (of_bool (\<not> fits ?x ?E1) + of_bool (\<not> fits ?x E2) +
     of_bool (?R = W ^ ?n \<and> \<not> fits ?x (ival (exponent b1) + 1))))"
    unfolding Big_MulRef_def
    by (simp only: assms(4-7) if_False simp_thms Let_def Option.bind.bind_lunit prod.case M P(1) w
        if_True not_False_eq_True A sel rounding_tail [OF sh1 m1(1) P(2,3) b1(5)] m1 b1(3) mul_mantissa_def)
  note B = upper_half_bounds [OF P(2,3), of rnd, folded mul_mantissa_def]
  note Z = rounded_outcome [OF sh1 b1(2), unfolded m1, OF B b1(4), of ?s, folded E2_def [unfolded e1_def], folded mul_in_range_def]
  have "same_type ?z a" using Z(2) b1(1) by (simp add: same_type_def)
  then show ?thesis
    using Z(1,3) by (intro exI [of _ ?z]) (simp add: res bsign_mult)
qed

text \<open>The moved product over the lower half is the exact product.\<close>

lemma exact_product:
  assumes "standard a"
  shows "bval a * bval b = bsign a * bsign b *
    (real (uval (mantissa a) * uval (mantissa b) * 2 ^ mul_shift a b) / real (W ^ length (mantissa a))) *
    2 powi (mul_exponent a b + ival (exponent b))"
proof -
  let ?i = "mul_shift a b" and ?N = "man_bits a"
  have "0 < length (mantissa a)" "?i \<le> 1" using shape_Nil(2) [OF standard_shape [OF assms]] by (simp_all add: mul_shift_def)
  then have "?N = ?i + (?N - ?i)" by linarith
  then have N: "(2 :: real) ^ ?N = 2 ^ ?i * 2 ^ (?N - ?i)" by (metis power_add)
  have "real (W ^ length (mantissa a)) = 2 ^ ?N" by (simp only: W_power of_nat_power of_nat_numeral)
  moreover have "(2 :: real) powi (mul_exponent a b + ival (exponent b)) =
      2 powi ival (exponent a) * 2 ^ (?N - ?i) * 2 powi ival (exponent b)"
    unfolding mul_exponent_def by (simp only: powi_add_2 powi_nat_2)
  ultimately show ?thesis by (simp add: bval_def N)
qed

lemma Mul_nan:
  assumes "Big_IsNan a \<or> Big_IsNan b"
  shows "Big_Mul a b rnd = Some (1, Big_SetNan a)"
  using assms by (simp add: Big_Mul_def Big_MulRef_def Big_CheckCarry_def)

lemma Mul_zero:
  assumes "standard a" "standard b" "Big_IsZero a \<or> Big_IsZero b" "\<not> Big_IsNan a" "\<not> Big_IsNan b"
  obtains z where "Big_Mul a b rnd = Some (0, z)" "standard z" "\<not> Big_IsNan z" "same_type z a" "bval z = 0"
proof (cases "Big_IsZero a")
  case True
  moreover have "same_type a a" by (simp add: same_type_def)
  ultimately show ?thesis
    using assms that [of a] standard_zero_iff by (simp add: Big_Mul_def Big_MulRef_def)
next
  case False
  have "same_type (Big_SetZero a) a" by (simp add: same_type_def Big_SetZero_def)
  with False assms(3-5) show ?thesis
    using that [of "Big_SetZero a"] SetZero_value [OF standard_shape [OF assms(1)]] by (simp add: Big_Mul_def Big_MulRef_def)
qed

lemma Mul_value:
  assumes "standard a" "standard b" "same_type a b" "\<not> Big_IsNan a" "\<not> Big_IsNan b"
  shows "\<exists>c z. Big_Mul a b rnd = Some (c, z) \<and> same_type z a \<and>
    (c = 0 \<longleftrightarrow> Big_IsZero a \<or> Big_IsZero b \<or> mul_in_range a b rnd) \<and> (c \<noteq> 0 \<longrightarrow> c = 1 \<and> Big_IsNan z) \<and>
    (c = 0 \<longrightarrow> standard z \<and> \<not> Big_IsNan z \<and>
       \<bar>bval z - bval a * bval b\<bar> \<le> (if rnd then 1 / 2 else 1) * 2 powi ival (exponent z))"
proof (cases "Big_IsZero a \<or> Big_IsZero b")
  case True
  then obtain z where "Big_Mul a b rnd = Some (0, z)" "standard z" "\<not> Big_IsNan z" "same_type z a" "bval z = 0"
    using Mul_zero [OF assms(1,2) _ assms(4,5)] by blast
  moreover have "bval a * bval b = 0" using True assms(1,2) standard_zero_iff by auto
  ultimately show ?thesis using True by auto
next
  case False
  then have nz: "\<not> Big_IsZero a" "\<not> Big_IsZero b" by simp_all
  obtain z where z: "Big_MulRef a b rnd = Some (if mul_in_range a b rnd then (0, z) else (1, Big_SetNan z))"
      "same_type z a"
    and r: "mul_in_range a b rnd \<longrightarrow> standard z \<and> \<not> Big_IsNan z \<and>
       bval z = bsign a * bsign b * real (mul_mantissa a b rnd) * 2 powi (mul_exponent a b + ival (exponent b)) \<and>
       mul_exponent a b + ival (exponent b) \<le> ival (exponent z)"
    using MulRef_result [OF assms(1-3) nz assms(4,5)] by blast
  have "\<bar>bval z - bval a * bval b\<bar> \<le> (if rnd then 1 / 2 else 1) * 2 powi ival (exponent z)" if "mul_in_range a b rnd"
  proof -
    from r that have v: "bval z = bsign a * bsign b * real (mul_mantissa a b rnd) * 2 powi (mul_exponent a b + ival (exponent b))"
      and e: "mul_exponent a b + ival (exponent b) \<le> ival (exponent z)" by blast+
    show ?thesis unfolding v exact_product [OF assms(1)] mul_mantissa_def
      by (rule scaled_error [OF upper_half_error abs_bsign(2) e])
  qed
  moreover have "same_type (Big_SetNan z) a" using z(2) by (simp add: same_type_def)
  ultimately show ?thesis using z r False by (cases "mul_in_range a b rnd") (simp_all add: Big_Mul_def)
qed

section \<open>The product with a word\<close>

lemma leading_bit_top_word:
  assumes "length t = Suc n" "2 ^ k \<le> p" "p < 2 ^ Suc k" "64 * n \<le> Suc k" "uval t = p"
  shows "UInt_FindLeadingBitInWord (t ! n) = Some (if Suc k = 64 * n then - 1 else of_nat (k - 64 * n))"
proof -
  have W: "W ^ n = 2 ^ (64 * n)" by (rule W_power)
  have p: "p < W ^ Suc n" using uval_less [of t] assms(1,5) by simp
  then have "p div W ^ n < W" by (intro less_mult_imp_div_less) (simp add: mult.commute)
  then have u: "unat (t ! n) = p div W ^ n"
    using uval_nth [of n t] assms(1,5) by simp
  show ?thesis
  proof (cases "Suc k = 64 * n")
    case True
    then have "p < W ^ n" using assms(3) unfolding W by simp
    then have "t ! n = 0" using u by (simp add: unat_eq_zero [symmetric])
    then show ?thesis using True by (simp add: UInt_FindLeadingBitInWord_def)
  next
    case False
    then have k: "k = 64 * n + (k - 64 * n)" using assms(4) by linarith
    let ?j = "k - 64 * n"
    have e: "(2 :: nat) ^ k = 2 ^ ?j * 2 ^ (64 * n)" by (metis k power_add mult.commute)
    have "2 ^ ?j \<le> p div W ^ n" using assms(2) unfolding W by (simp add: e less_eq_div_iff_mult_less_eq)
    moreover have hi: "p div W ^ n < 2 ^ Suc ?j"
      using assms(3) unfolding W by (intro less_mult_imp_div_less) (simp add: e)
    moreover have "?j \<le> 63"
    proof -
      have "(2 :: nat) ^ k < 2 ^ (64 * Suc n)" using p assms(2) by (simp only: W_power le_less_trans)
      then have "k < 64 * Suc n" by (rule power_less_imp_less_exp [rotated]) simp
      then show ?thesis by simp
    qed
    ultimately show ?thesis using False FindLeadingBitInWord_value [of ?j "t ! n"] u by simp
  qed
qed

text \<open>
  A product of \<open>k + 1\<close> bits is moved to the right by the bits it has more than the mantissa, and
  these bits are dropped. Both branches of the method come to this.
\<close>

definition word_product :: "big \<Rightarrow> nat \<Rightarrow> nat \<Rightarrow> big" where
  "word_product b p d = (b\<lparr>exponent := itab (length (exponent b)) (ival (exponent b) + int d),
     mantissa := utab (length (mantissa b)) (p div 2 ^ d)\<rparr>)"

lemma word_product_fields [simp]:
  "length (mantissa (word_product b p d)) = length (mantissa b)"
  "length (exponent (word_product b p d)) = length (exponent b)"
  "Big_IsNan (word_product b p d) = Big_IsNan b" "Big_IsSign (word_product b p d) = Big_IsSign b"
  by (simp_all add: word_product_def itab_def)

lemma new_sint_of_nat:
  assumes "t \<noteq> []" "n < 2 ^ 62"
  shows "Int_new_sint t (of_nat n) = Int_new_uint t (of_nat n)"
proof -
  have "sint (of_nat n :: uint) = int n" using sint_of_int_small [of "int n"] assms(2) by simp
  moreover have "unat (of_nat n :: uint) = n" using assms(2) by (intro unat_of_nat_small) (simp add: W_def)
  ultimately show ?thesis
    by (simp only: Int_new_sint_def Int_new_uint_def FromInt_ival [OF assms(1)] FromUInt_ival [OF assms(1)] snd_conv)
qed

lemma MulUInt_step:
  assumes "big_shape b" "length t = Suc (length (mantissa b))" "2 ^ k \<le> uval t" "uval t < 2 ^ Suc k" "man_bits b \<le> Suc k"
  defines "d \<equiv> Suc k - man_bits b"
  assumes lead: "lead = (if Suc k = man_bits b then - 1 else of_nat (k - man_bits b))"
  shows "(if lead \<noteq> - 1 \<and> lead > of_nat (TTMATH_BITS_PER_UINT div 2) then do {
             (i, man_result) \<leftarrow> UInt_CompensationToLeft t;
             let (c, e) = Int_Add (exponent b) (Int_new_uint (exponent b) (of_nat (TTMATH_BITS_PER_UINT - i)));
             Some (c, b\<lparr>exponent := e, mantissa := take (length (mantissa b)) (drop 1 man_result)\<rparr>)
           } else do {
             (c, e, man_result) \<leftarrow>
               (if lead \<noteq> - 1 then do {
                  (_, man_result) \<leftarrow> UInt_Rcr t (unat (lead + 1)) 0;
                  let (c, e) = Int_Add (exponent b) (Int_new_sint (exponent b) (lead + 1));
                  Some (c, e, man_result)
                } else Some (0, exponent b, t));
             Some (c, b\<lparr>exponent := e, mantissa := take (length (mantissa b)) man_result\<rparr>)
           }) = Some (of_bool (\<not> fits (length (exponent b)) (ival (exponent b) + int d)), word_product b (uval t) d)"
proof -
  let ?n = "length (mantissa b)" and ?x = "length (exponent b)" and ?p = "uval t"
  note e = shape_Nil(1) [OF assms(1)]
  have t: "t \<noteq> []" "take ?n (drop 1 t) = drop 1 t" using assms(2) by auto
  have p: "?p < W ^ Suc ?n" using uval_less [of t] assms(2) by simp
  show ?thesis
  proof (cases "Suc k = man_bits b")
    case True
    then have "?p < W ^ ?n" using assms(4) by (simp only: W_power)
    then have "take ?n t = utab ?n ?p" using assms(2) by (intro utab_eqI) (simp_all add: uval_take)
    then show ?thesis using True lead ival_bounds [of "exponent b"]
      by (simp add: d_def word_product_def)
  next
    case False
    then have d: "0 < d" "k - man_bits b = d - 1" using assms(5) by (simp_all add: d_def)
    have "(2 :: nat) ^ k < 2 ^ (64 * Suc ?n)" using p assms(3) by (simp only: W_power le_less_trans)
    then have "k < 64 * Suc ?n" by (rule power_less_imp_less_exp [rotated]) simp
    then have d64: "d \<le> 64" by (simp add: d_def)
    have ld: "lead = of_nat (d - 1)" "lead + 1 = of_nat d" "unat (of_nat d :: uint) = d" "lead \<noteq> - 1"
    proof -
      show 1: "lead = of_nat (d - 1)" using lead False d by simp
      then show "lead + 1 = of_nat d" using d(1) by (metis Suc_diff_1 of_nat_Suc add.commute)
      show u: "unat (of_nat d :: uint) = d" using d64 by (intro unat_of_nat_small) (simp add: W_def)
      then have "(of_nat d :: uint) \<noteq> 0" using d(1) by (metis less_not_refl unat_0)
      then show "lead \<noteq> - 1" using \<open>lead + 1 = of_nat d\<close> by auto
    qed
    have "d < 2 ^ 62" using d64 by simp
    note N = new_uint_ival [OF e this]
    have A: "Int_Add (exponent b) (Int_new_uint (exponent b) (of_nat d)) =
       (of_bool (\<not> fits ?x (ival (exponent b) + int d)), itab ?x (ival (exponent b) + int d))"
      using Add_ival [OF N(1) e] N(2) by simp
    note A' = A [folded new_sint_of_nat [OF e \<open>d < 2 ^ 62\<close>]]
    have small: "?p div 2 ^ d < W ^ ?n"
      using assms(4,5) False by (intro less_mult_imp_div_less) (simp add: W_power d_def flip: power_add)
    show ?thesis
    proof (cases "lead > of_nat (TTMATH_BITS_PER_UINT div 2)")
      case True
      have i: "64 * length t - 1 - k = 64 - d" using assms(2,5) by (simp add: d_def)
      note C = CompensationToLeft_value [OF t(1) assms(3,4), unfolded i, unfolded assms(2)]
      have "uval (drop 1 (utab (Suc ?n) (?p * 2 ^ (64 - d)))) = ?p * 2 ^ (64 - d) div W"
        using C(3) by (simp only: uval_drop uval_utab mod_less power_one_right)
      also have "W = 2 ^ d * 2 ^ (64 - d)" by (rule W_split [OF d64])
      finally have v: "uval (drop 1 (utab (Suc ?n) (?p * 2 ^ (64 - d)))) = ?p div 2 ^ d" by simp
      have "drop 1 (utab (Suc ?n) (?p * 2 ^ (64 - d))) = utab ?n (?p div 2 ^ d)"
        by (rule utab_eqI) (use v small in \<open>simp_all\<close>)
      then show ?thesis
        using True ld(4) C(1) A d64
        by (simp add: TTMATH_BITS_PER_UINT_def word_product_def del: utab.simps)
    next
      case F: False
      have "shr_value t d 0 = ?p div 2 ^ d" by (simp add: shr_value_def fill_bits_def)
      moreover have "take ?n (utab (Suc ?n) (?p div 2 ^ d)) = utab ?n (?p div 2 ^ d)"
        by (rule utab_eqI) (simp_all add: uval_take uval_utab mod_mod_cancel del: utab.simps)
      ultimately show ?thesis
        using F ld A' Rcr_result [OF t(1), of d 0] assms(2) by (simp add: word_product_def del: utab.simps)
    qed
  qed
qed

lemma word_product_mantissa:
  assumes "big_shape b" "man_bits b \<le> Suc k" "2 ^ k \<le> p" "p < 2 ^ Suc k"
  defines "d \<equiv> Suc k - man_bits b"
  shows "uval (mantissa (word_product b p d)) = p div 2 ^ d" "UInt_IsTheHighestBitSet (mantissa (word_product b p d))"
proof -
  let ?N = "man_bits b"
  have n: "0 < length (mantissa b)" using shape_Nil(2) [OF assms(1)] by simp
  then have "k = (?N - 1) + d" "Suc k = ?N + d" using assms(2) unfolding d_def by linarith+
  then have e: "(2 :: nat) ^ k = 2 ^ (?N - 1) * 2 ^ d" "(2 :: nat) ^ Suc k = 2 ^ ?N * 2 ^ d" by (metis power_add)+
  have lo: "2 ^ (?N - 1) \<le> p div 2 ^ d" using assms(3) unfolding e by (simp add: less_eq_div_iff_mult_less_eq)
  have "p div 2 ^ d < 2 ^ ?N" using assms(4) unfolding e by (rule less_mult_imp_div_less)
  then show u: "uval (mantissa (word_product b p d)) = p div 2 ^ d"
    unfolding word_product_def by (simp add: uval_utab W_power)
  have "mantissa (word_product b p d) \<noteq> []" using n by (metis length_greater_0_conv word_product_fields(1))
  from IsTheHighestBitSet_iff [OF this] show "UInt_IsTheHighestBitSet (mantissa (word_product b p d))"
    using lo half_top [OF n] by (simp add: u)
qed

lemma MulUInt_result:
  assumes "standard b" "\<not> Big_IsZero b" "\<not> Big_IsNan b" "v \<noteq> 0"
  defines "p \<equiv> uval (mantissa b) * unat v"
  obtains k where "man_bits b \<le> Suc k" "2 ^ k \<le> p" "p < 2 ^ Suc k"
    "Big_MulUInt b v = Some (Big_CheckCarry (Big_ClearInfoBit (word_product b p (Suc k - man_bits b)) TTMATH_BIG_ZERO)
       (of_bool (\<not> fits (length (exponent b)) (ival (exponent b) + int (Suc k - man_bits b)))))"
proof -
  let ?n = "length (mantissa b)"
  let ?t = "utab (Suc ?n) p"
  note sh = standard_shape [OF assms(1)]
  have n: "0 < ?n" using shape_Nil(2) [OF sh] by simp
  have v: "1 \<le> unat v" using assms(4) by (simp add: Suc_le_eq unat_gt_0)
  have lo: "2 ^ (man_bits b - 1) \<le> p"
    using standard_mantissa(1) [OF assms(1,2)] v unfolding p_def by (metis mult.right_neutral mult_le_mono)
  have hi: "p < W ^ Suc ?n" unfolding p_def using uval_less [of "mantissa b"] unat_less_W [of v]
    by (simp add: mult.commute mult_strict_mono)
  have "0 < p" using lo by (metis gr_zeroI le_zero_eq power_not_zero zero_neq_numeral)
  then obtain k where k: "2 ^ k \<le> p" "p < 2 ^ Suc k" by (rule leading_bit_exists)
  have "(2 :: nat) ^ (man_bits b - 1) < 2 ^ Suc k" using lo k(2) by (rule le_less_trans)
  then have "man_bits b - 1 < Suc k" by (rule power_less_imp_less_exp [rotated]) simp
  then have N: "man_bits b \<le> Suc k" by linarith
  have u: "uval ?t = p" using hi by (simp add: uval_utab del: utab.simps)
  have M: "UInt_MulIntBig (mantissa b) v (replicate (?n + 1) 0) = Some ?t"
    using MulIntBig_result [of "mantissa b" "replicate (?n + 1) 0" v] by (simp add: p_def del: utab.simps)
  note L = leading_bit_top_word [OF length_utab k N u]
  have k': "2 ^ k \<le> uval ?t" "uval ?t < 2 ^ Suc k" unfolding u by (rule k)+
  note S = MulUInt_step [OF sh length_utab k' N refl, unfolded u Let_def]
  note T = word_product_mantissa [OF sh N k]
  have "Big_MulUInt b v = Some (Big_CheckCarry (Big_ClearInfoBit (word_product b p (Suc k - man_bits b)) TTMATH_BIG_ZERO)
       (of_bool (\<not> fits (length (exponent b)) (ival (exponent b) + int (Suc k - man_bits b)))))"
    unfolding Big_MulUInt_def
    by (simp only: assms(2-4) if_False Let_def M Option.bind.bind_lunit L S prod.case Standardizing_top [OF T(2)] add_0_right)
  with N k show ?thesis by (rule that)
qed

lemma trunc_scaled:
  assumes "0 < d" "\<bar>s\<bar> = (1 :: real)"
  shows "\<bar>s * real (p div d) * 2 powi E\<bar> \<le> \<bar>s * (real p / real d) * 2 powi E\<bar>"
    "\<bar>s * real (p div d) * 2 powi E - s * (real p / real d) * 2 powi E\<bar> < 2 powi E"
proof -
  note D = div_bounds_real [OF assms(1), of p]
  show "\<bar>s * real (p div d) * 2 powi E\<bar> \<le> \<bar>s * (real p / real d) * 2 powi E\<bar>"
    using mult_right_mono [OF D(1), of "2 powi E"] assms(2) by (simp add: abs_mult)
  have "\<bar>s * real (p div d) * 2 powi E - s * (real p / real d) * 2 powi E\<bar> = \<bar>s\<bar> * \<bar>real (p div d) - real p / real d\<bar> * \<bar>2 powi E\<bar>"
    by (simp only: abs_mult [symmetric] left_diff_distrib right_diff_distrib)
  also have "\<dots> = \<bar>real (p div d) - real p / real d\<bar> * 2 powi E" using assms(2) by simp
  also have "\<dots> < 2 powi E" using D by (simp add: abs_less_iff)
  finally show "\<bar>s * real (p div d) * 2 powi E - s * (real p / real d) * 2 powi E\<bar> < 2 powi E" .
qed

lemma MulUInt_value:
  assumes "standard b" "\<not> Big_IsNan b"
  shows "\<exists>c z. Big_MulUInt b v = Some (c, z) \<and> same_type z b \<and> (c \<noteq> 0 \<longrightarrow> c = 1 \<and> Big_IsNan z) \<and>
    (c = 0 \<longrightarrow> standard z \<and> \<not> Big_IsNan z \<and>
      \<bar>bval z\<bar> \<le> \<bar>bval b * real (unat v)\<bar> \<and> \<bar>bval z - bval b * real (unat v)\<bar> < 2 powi ival (exponent z))"
proof (cases "Big_IsZero b \<or> v = 0")
  case True
  have "same_type b b" "same_type (Big_SetZero b) b" by (simp_all add: same_type_def Big_SetZero_def)
  then show ?thesis
    using True assms standard_zero_iff [OF assms(1)] SetZero_value [OF standard_shape [OF assms(1)]]
    by (cases "Big_IsZero b") (simp_all add: Big_MulUInt_def)
next
  case False
  let ?p = "uval (mantissa b) * unat v"
  obtain k where k: "man_bits b \<le> Suc k" "2 ^ k \<le> ?p" "?p < 2 ^ Suc k" and
    r: "Big_MulUInt b v = Some (Big_CheckCarry (Big_ClearInfoBit (word_product b ?p (Suc k - man_bits b)) TTMATH_BIG_ZERO)
       (of_bool (\<not> fits (length (exponent b)) (ival (exponent b) + int (Suc k - man_bits b)))))"
    using MulUInt_result [OF assms(1) _ assms(2)] False by blast
  let ?d = "Suc k - man_bits b"
  let ?z = "Big_ClearInfoBit (word_product b ?p ?d) TTMATH_BIG_ZERO"
  note T = word_product_mantissa [OF standard_shape [OF assms(1)] k]
  have t: "same_type ?z b" by (simp add: same_type_def)
  show ?thesis
  proof (cases "fits (length (exponent b)) (ival (exponent b) + int ?d)")
    case True
    then have e: "ival (exponent ?z) = ival (exponent b) + int ?d" by (simp add: word_product_def)
    have "standard ?z" using T(2) shape_same_type [OF t] standard_shape [OF assms(1)] by (simp add: standard_def)
    moreover have z: "bval ?z = bsign b * real (?p div 2 ^ ?d) * 2 powi ival (exponent ?z)"
      using T(1) by (simp add: bval_def bsign_def)
    moreover have x: "bval b * real (unat v) = bsign b * (real ?p / real (2 ^ ?d)) * 2 powi ival (exponent ?z)"
      unfolding e powi_add_2 powi_nat_2 by (simp add: bval_def)
    moreover note trunc_scaled [of "2 ^ ?d" "bsign b" ?p "ival (exponent ?z)", folded z x]
    ultimately show ?thesis
      using True r t assms(2) by (simp add: Big_CheckCarry_def abs_bsign)
  next
    case False
    have "same_type (Big_SetNan ?z) b" using t by (simp add: same_type_def)
    then show ?thesis using False r by (simp add: Big_CheckCarry_def)
  qed
qed

lemma signed_standard:
  assumes "standard b" "\<not> Big_IsZero b"
  defines "z s \<equiv> if s then Big_Abs b else Big_SetSign b"
  shows "standard (z s)" "bval (z s) = (if s then 1 else - 1) * \<bar>bval b\<bar>" "same_type (z s) b"
    "Big_IsNan (z s) = Big_IsNan b" "\<not> Big_IsZero (z s)"
proof -
  show t: "same_type (z s) b" "Big_IsNan (z s) = Big_IsNan b" "\<not> Big_IsZero (z s)"
    using assms(2) by (simp_all add: z_def same_type_def)
  show "standard (z s)" using assms shape_same_type [OF t(1)] by (simp add: standard_def z_def)
  show "bval (z s) = (if s then 1 else - 1) * \<bar>bval b\<bar>" by (simp add: abs_bval bval_def bsign_def z_def)
qed

lemma sint_magnitude: "real (unat (if v <s 0 then - v else v)) = (if v <s 0 then - 1 else 1) * real_of_int (sint (v :: uint))"
proof -
  have "int (unat (if v <s 0 then - v else v)) = (if v <s 0 then - 1 else 1) * sint v"
    unfolding sint_unat(2) using sint_unat(1) [of v] by simp
  then have "real_of_int (int (unat (if v <s 0 then - v else v))) = real_of_int ((if v <s 0 then - 1 else 1) * sint v)" by (rule arg_cong)
  then show ?thesis by (simp only: of_int_of_nat_eq of_int_mult if_distrib [of real_of_int] of_int_minus of_int_1)
qed

lemma MulInt_value:
  assumes "standard b" "\<not> Big_IsNan b"
  shows "\<exists>c z. Big_MulInt b v = Some (c, z) \<and> same_type z b \<and> (c \<noteq> 0 \<longrightarrow> c = 1 \<and> Big_IsNan z) \<and>
    (c = 0 \<longrightarrow> standard z \<and> \<not> Big_IsNan z \<and>
      \<bar>bval z\<bar> \<le> \<bar>bval b * real_of_int (sint v)\<bar> \<and> \<bar>bval z - bval b * real_of_int (sint v)\<bar> < 2 powi ival (exponent z))"
proof (cases "Big_IsZero b \<or> v = 0")
  case True
  have "same_type b b" "same_type (Big_SetZero b) b" by (simp_all add: same_type_def Big_SetZero_def)
  then show ?thesis
    using True assms standard_zero_iff [OF assms(1)] SetZero_value [OF standard_shape [OF assms(1)]]
    by (cases "v = 0") (simp_all add: Big_MulInt_def)
next
  case False
  let ?s = "Big_IsSign b = (v <s 0)"
  let ?b = "if ?s then Big_Abs b else Big_SetSign b" and ?v = "if v <s 0 then - v else v"
  note S = signed_standard [OF assms(1), of ?s]
  note u = sint_magnitude [of v]
  have "bval ?b * real (unat ?v) = (if ?s then 1 else - 1) * (if v <s 0 then - 1 else 1) * \<bar>bval b\<bar> * real_of_int (sint v)"
    using S(2) False unfolding u by (simp only: mult.assoc mult.left_commute simp_thms de_Morgan_disj)
  also have "(if ?s then 1 else - 1) * (if v <s 0 then - 1 else 1) * \<bar>bval b\<bar> = bsign b * \<bar>bval b\<bar>" by (simp add: bsign_def)
  also have "\<dots> = bval b" by (simp add: bval_def bsign_def abs_mult)
  finally have x: "bval ?b * real (unat ?v) = bval b * real_of_int (sint v)" .
  have r: "Big_MulInt b v = Big_MulUInt ?b ?v" using False assms(2) by (simp add: Big_MulInt_def Let_def)
  have "same_type z b" if "same_type z ?b" for z using that S(3) False by (simp add: same_type_def)
  then show ?thesis
    using MulUInt_value [of ?b ?v] S(1,4) False assms(2) unfolding r x by blast
qed

text \<open>
  The intermediate exponent can overflow although the product does not: the largest number times
  one is not a number.
\<close>

lemma SetMax_standard:
  assumes "big_shape b"
  shows "standard (Big_SetMax b)" "\<not> Big_IsNan (Big_SetMax b)" "\<not> Big_IsZero (Big_SetMax b)" "same_type (Big_SetMax b) b"
    "2 * ival (exponent (Big_SetMax b)) = int (W ^ length (exponent b)) - 2"
proof -
  note n = shape_Nil [OF assms]
  note E = SetMax_result [OF n(1)]
  show f: "\<not> Big_IsNan (Big_SetMax b)" "\<not> Big_IsZero (Big_SetMax b)" by (simp_all add: flags_iff Big_SetMax_def)
  have "length (UInt_SetMax (mantissa b)) = length (mantissa b)" by (simp add: UInt_SetMax_def)
  then show t: "same_type (Big_SetMax b) b" using E(1) by (simp add: same_type_def Big_SetMax_def)
  have "1 \<le> W ^ length (mantissa b) div 2" "W ^ length (mantissa b) = 2 * (W ^ length (mantissa b) div 2)"
    using half_top half_W_power n(2) by auto
  then have "W ^ length (mantissa b) div 2 \<le> uval (UInt_SetMax (mantissa b))" unfolding SetMax_value by linarith
  moreover have "mantissa (Big_SetMax b) \<noteq> []" using n(2) t by (metis length_0_conv same_type_def)
  ultimately have "UInt_IsTheHighestBitSet (mantissa (Big_SetMax b))"
    using IsTheHighestBitSet_iff t by (simp add: same_type_def Big_SetMax_def)
  then show "standard (Big_SetMax b)" using f shape_same_type [OF t] assms by (simp add: standard_def)
  show "2 * ival (exponent (Big_SetMax b)) = int (W ^ length (exponent b)) - 2" using E(2) by (simp add: Big_SetMax_def)
qed

lemma Mul_max_one:
  assumes "big_shape b"
  obtains z where "Big_Mul (Big_SetMax b) (Big_SetOne b) rnd = Some (1, z)" "Big_IsNan z"
proof -
  let ?a = "Big_SetMax b" and ?o = "Big_SetOne b"
  note A = SetMax_standard [OF assms] and O = SetOne_standard [OF assms]
  have o: "same_type ?o b" using assms(1) shape_Nil(1) [OF assms] assign_sint_ival(2)
    by (simp add: same_type_def Big_SetOne_def Let_def)
  then have t: "same_type ?a ?o" using A(4) by (simp add: same_type_def)
  have l: "length (exponent ?a) = length (exponent b)" "length (mantissa ?a) = length (mantissa b)"
    using A(4) by (simp_all add: same_type_def)
  have "0 < length (mantissa b)" "mul_shift ?a ?o \<le> 1" using shape_Nil(2) [OF assms] by (simp_all add: mul_shift_def)
  then have "1 \<le> man_bits ?a - mul_shift ?a ?o" using l by linarith
  then have "1 \<le> int (man_bits ?a - mul_shift ?a ?o)" by (simp only: of_nat_le_iff [symmetric, where ?'a = int] of_nat_1)
  then have "\<not> fits (length (exponent ?a)) (mul_exponent ?a ?o)"
    using A(5) unfolding fits_def mul_exponent_def l(1) by (simp only: distrib_left) simp
  then have "\<not> mul_in_range ?a ?o rnd" by (simp add: mul_in_range_def exponent_ok_def)
  with Mul_value [OF A(1) O(1) t A(2) O(3), of rnd] A(3) O(4) that show ?thesis by metis
qed

end
