(* ===== verification/Big_Div.thy ===== *)
theory Big_Div
  imports Big_Mul
begin

text \<open>
  Division of \<^verbatim>\<open>Big\<close> numbers (\<^verbatim>\<open>ttmathbig.h\<close>): the mantissa, followed by as many zero words, is
  divided by the other mantissa, moved to the left and rounded. The remainder is not looked at, so
  that the result is within one unit of the last place but not always the nearest number.
\<close>

section \<open>Definitions\<close>

definition Big_DivRef :: "big \<Rightarrow> big \<Rightarrow> bool \<Rightarrow> (uint \<times> big) option" where
  "Big_DivRef b ss2 rnd =
     (if Big_IsNan b \<or> Big_IsNan ss2 then Some (Big_CheckCarry b 1)
      else if Big_IsZero ss2 then Some (2, Big_SetNan b)
      else if Big_IsZero b then Some (0, b)
      else do {
        let man = length (mantissa b);
        let man1 = replicate man 0 @ mantissa b;
        let man2 = mantissa ss2 @ replicate man 0;
        (_, man1, _) \<leftarrow> UInt_Div man1 man2 None 3;
        (i, man1) \<leftarrow> UInt_CompensationToLeft man1;
        let (c, b) = (if i \<noteq> 0
          then let (c, e) = Int_Sub (exponent b) (Int_new_uint (exponent b) (of_nat i)) in (c, b\<lparr>exponent := e\<rparr>)
          else (0, b));
        let (d, e) = Int_Sub (exponent b) (exponent ss2);
        let c = c + d;
        let b = b\<lparr>exponent := e, mantissa := take man (drop man man1)\<rparr>;
        (c, b) \<leftarrow>
          (if rnd \<and> man1 ! (man - 1) AND TTMATH_UINT_HIGHEST_BIT \<noteq> 0 then do {
             is_half \<leftarrow> Big_CheckGreaterOrEqualHalf man1 man;
             (d, b) \<leftarrow> Big_RoundHalfToEven b is_half True;
             Some (c + d, b)
           } else Some (c, b));
        let b = (if Big_IsSign b = Big_IsSign ss2 then Big_Abs b else Big_SetSign b);
        (d, b) \<leftarrow> Big_Standardizing b;
        Some (Big_CheckCarry b (c + d))
      })"

definition Big_Div :: "big \<Rightarrow> big \<Rightarrow> bool \<Rightarrow> (uint \<times> big) option" where
  "Big_Div b ss2 rnd = Big_DivRef b ss2 rnd"

section \<open>The quotient of two mantissas\<close>

text \<open>The quotient has as many bits as a mantissa, or one more if the dividend is not the smaller one.\<close>

definition man_quotient :: "big \<Rightarrow> big \<Rightarrow> nat" where
  "man_quotient a b = uval (mantissa a) * W ^ length (mantissa a) div uval (mantissa b)"

definition div_shift :: "big \<Rightarrow> big \<Rightarrow> nat" where
  "div_shift a b = (if uval (mantissa b) \<le> uval (mantissa a) then man_bits a - 1 else man_bits a)"

definition div_mantissa :: "big \<Rightarrow> big \<Rightarrow> bool \<Rightarrow> nat" where
  "div_mantissa a b rnd = upper_half rnd (length (mantissa a)) (man_quotient a b * 2 ^ div_shift a b)"

definition div_exponent :: "big \<Rightarrow> big \<Rightarrow> int" where
  "div_exponent a b = ival (exponent a) - int (div_shift a b)"

definition div_in_range :: "big \<Rightarrow> big \<Rightarrow> bool \<Rightarrow> bool" where
  "div_in_range a b rnd \<longleftrightarrow> exponent_ok (length (exponent a)) (div_exponent a b) (div_exponent a b - ival (exponent b))
     (div_mantissa a b rnd = W ^ length (mantissa a))"

lemma div_shift_bounds:
  assumes "big_shape a"
  shows "0 < div_shift a b" "div_shift a b \<le> man_bits a" "man_bits a \<le> div_shift a b + 1"
proof -
  have "64 \<le> man_bits a" using shape_Nil(2) [OF assms] by (cases "mantissa a") simp_all
  moreover have "div_shift a b = man_bits a - 1 \<or> div_shift a b = man_bits a" by (simp add: div_shift_def)
  ultimately show "0 < div_shift a b" "div_shift a b \<le> man_bits a" "man_bits a \<le> div_shift a b + 1"
    by linarith+
qed

lemma quotient_bits:
  assumes "standard a" "standard b" "same_type a b" "\<not> Big_IsZero a" "\<not> Big_IsZero b"
  defines "k \<equiv> 2 * man_bits a - 1 - div_shift a b"
  shows "2 ^ k \<le> man_quotient a b" "man_quotient a b < 2 ^ Suc k"
proof -
  let ?N = "man_bits a" and ?a = "uval (mantissa a)" and ?b = "uval (mantissa b)"
  have "0 < length (mantissa a)" using shape_Nil(2) [OF standard_shape [OF assms(1)]] by simp
  then have N: "(2 :: nat) ^ ?N = 2 * 2 ^ (?N - 1)" "0 < ?N" by (simp_all flip: power_Suc)
  have bN: "man_bits b = ?N" using assms(3) by (simp add: same_type_def)
  note A = standard_mantissa [OF assms(1,4)] and B = standard_mantissa [OF assms(2,5), unfolded bN]
  have b0: "0 < ?b" using B(1) by (metis gr_zeroI le_zero_eq power_not_zero zero_neq_numeral)
  have W: "W ^ length (mantissa a) = 2 ^ ?N" by (rule W_power)
  have "2 ^ k * ?b \<le> ?a * 2 ^ ?N \<and> ?a * 2 ^ ?N < 2 ^ Suc k * ?b"
  proof (cases "?b \<le> ?a")
    case True
    then have k: "k = ?N" using N(2) by (simp add: k_def div_shift_def)
    have "?a < 2 * ?b" using A(2) B(1) N(1) by linarith
    with True show ?thesis by (simp add: k mult.commute)
  next
    case False
    then have k: "k = ?N - 1" "Suc k = ?N" using N(2) by (simp_all add: k_def div_shift_def)
    have "2 ^ k * ?b \<le> 2 ^ k * 2 ^ ?N" using B(2) by simp
    also have "\<dots> \<le> ?a * 2 ^ ?N" using A(1) by (simp add: k)
    finally show ?thesis using False unfolding k(2) by (simp add: mult.commute)
  qed
  then show "2 ^ k \<le> man_quotient a b" "man_quotient a b < 2 ^ Suc k"
    unfolding man_quotient_def W by (simp_all add: less_eq_div_iff_mult_less_eq less_mult_imp_div_less b0)
qed

lemma mantissa_quotient:
  assumes "standard a" "standard b" "same_type a b" "\<not> Big_IsZero a" "\<not> Big_IsZero b"
  defines "n \<equiv> length (mantissa a)"
  shows "UInt_Div (replicate n 0 @ mantissa a) (mantissa b @ replicate n 0) None 3 = Some (0, utab (2 * n) (man_quotient a b), None)"
    "UInt_CompensationToLeft (utab (2 * n) (man_quotient a b)) = Some (div_shift a b, utab (2 * n) (man_quotient a b * 2 ^ div_shift a b))"
    "W ^ (2 * n) \<le> 2 * (man_quotient a b * 2 ^ div_shift a b)" "man_quotient a b * 2 ^ div_shift a b < W ^ (2 * n)"
proof -
  let ?t = "replicate n 0 @ mantissa a" and ?v = "mantissa b @ replicate n 0"
  have n: "0 < n" using shape_Nil(2) [OF standard_shape [OF assms(1)]] by (simp add: n_def)
  have bn: "length (mantissa b) = n" using assms(3) by (simp add: same_type_def n_def)
  have z: "uval (replicate n 0) = 0" by (simp flip: all_zero_iff)
  have u: "uval ?t = uval (mantissa a) * W ^ n" "uval ?v = uval (mantissa b)" by (simp_all add: uval_append z)
  have b0: "uval (mantissa b) \<noteq> 0" using standard_zero_iff_mantissa [OF assms(2)] assms(5) by simp
  have l: "length ?v = length ?t" "?t \<noteq> []" "length ?t = 2 * n" using n bn by (auto simp: n_def)
  show "UInt_Div ?t ?v None 3 = Some (0, utab (2 * n) (man_quotient a b), None)"
    using Div_default_result [OF l(1,2), of 3 None] b0 unfolding u l(3)
    by (simp add: divided_def man_quotient_def n_def put_remainder_def)
  note q = quotient_bits [OF assms(1-5)]
  let ?k = "2 * man_bits a - 1 - div_shift a b"
  have "man_quotient a b < W ^ (2 * n)"
  proof -
    have "Suc ?k \<le> 64 * (2 * n)" using n div_shift_bounds [OF standard_shape [OF assms(1)], of b] unfolding n_def by linarith
    then have "(2 :: nat) ^ Suc ?k \<le> W ^ (2 * n)" unfolding W_power by (rule power_increasing) simp
    with q(2) show ?thesis by linarith
  qed
  then have uq: "uval (utab (2 * n) (man_quotient a b)) = man_quotient a b" by (simp add: uval_utab)
  have "utab (2 * n) (man_quotient a b) \<noteq> []" using n by simp
  note C = CompensationToLeft_value [OF this, unfolded uq, OF q, unfolded length_utab]
  have "64 * (2 * n) - 1 - ?k = div_shift a b" using n by (auto simp: div_shift_def n_def)
  with C show "UInt_CompensationToLeft (utab (2 * n) (man_quotient a b)) = Some (div_shift a b, utab (2 * n) (man_quotient a b * 2 ^ div_shift a b))"
    "W ^ (2 * n) \<le> 2 * (man_quotient a b * 2 ^ div_shift a b)" "man_quotient a b * 2 ^ div_shift a b < W ^ (2 * n)"
    using half_W_power [of "2 * n"] n by simp_all
qed

section \<open>The quotient of two numbers\<close>

lemma DivRef_result:
  assumes "standard a" "standard b" "same_type a b" "\<not> Big_IsZero a" "\<not> Big_IsZero b" "\<not> Big_IsNan a" "\<not> Big_IsNan b"
  shows "\<exists>z. Big_DivRef a b rnd = Some (if div_in_range a b rnd then (0, z) else (1, Big_SetNan z)) \<and> same_type z a \<and>
    (div_in_range a b rnd \<longrightarrow> standard z \<and> \<not> Big_IsNan z \<and>
       bval z = bsign a * bsign b * real (div_mantissa a b rnd) * 2 powi (div_exponent a b - ival (exponent b)) \<and>
       div_exponent a b - ival (exponent b) \<le> ival (exponent z))"
proof -
  let ?n = "length (mantissa a)" and ?x = "length (exponent a)" and ?i = "div_shift a b"
  let ?E1 = "div_exponent a b" and ?s = "Big_IsSign a = Big_IsSign b" and ?T = "utab (2 * ?n) (man_quotient a b * 2 ^ div_shift a b)"
  note sh = standard_shape [OF assms(1)] and ab = assms(3) [unfolded same_type_def]
  note n = shape_Nil [OF sh]
  note P = mantissa_quotient [OF assms(1-5)]
  note I = div_shift_bounds [OF sh, of b]
  have y: "0 < ?i" "?i < 2 ^ 62" using I(1) I(2) shape_bits [OF sh] by simp_all
  note e = new_uint_ival [OF n(1) y(2)]
  define e1 where "e1 = itab ?x ?E1"
  define E2 where "E2 = ival e1 - ival (exponent b)"
  have l1: "length e1 = ?x" "e1 \<noteq> []" using n(1) by (simp_all add: e1_def itab_def)
  have A: "Int_Sub (exponent a) (Int_new_uint (exponent a) (of_nat ?i)) = (of_bool (\<not> fits ?x ?E1), e1)"
    "Int_Sub e1 (exponent b) = (of_bool (\<not> fits ?x E2), itab ?x E2)"
    using Sub_ival [OF e(1) n(1), unfolded e(2)] Sub_ival [of "exponent b" e1] l1 ab
    by (simp add: div_exponent_def e1_def, simp add: E2_def)
  define b1 where "b1 = a\<lparr>exponent := itab ?x E2, mantissa := take ?n (drop ?n ?T)\<rparr>"
  have b1: "same_type b1 a" "\<not> Big_IsNan b1" "Big_IsSign b1 = Big_IsSign a"
    "exponent b1 = itab ?x (ival (itab ?x ?E1) + - ival (exponent b))" "mantissa b1 = take ?n (drop ?n ?T)"
    using assms(6) by (simp_all add: b1_def same_type_def E2_def e1_def)
  have sh1: "big_shape b1" using shape_same_type [OF b1(1)] sh by simp
  have m1: "length (mantissa b1) = ?n" "length (exponent b1) = ?x" using b1(1) by (simp_all add: same_type_def)
  have sel: "exponent (a\<lparr>exponent := e1\<rparr>) = e1"
    "(a\<lparr>exponent := e1\<rparr>)\<lparr>exponent := itab ?x E2, mantissa := take ?n (drop ?n ?T)\<rparr> = b1" by (simp_all add: b1_def)
  let ?R = "div_mantissa a b rnd" and ?z = "finished ?s (rounded b1 (div_mantissa a b rnd))"
  have res: "Big_DivRef a b rnd = Some (Big_CheckCarry ?z (of_bool (\<not> fits ?x ?E1) + of_bool (\<not> fits ?x E2) +
     of_bool (?R = W ^ ?n \<and> \<not> fits ?x (ival (exponent b1) + 1))))"
    unfolding Big_DivRef_def
    by (simp only: assms(4-7) if_False simp_thms Let_def Option.bind.bind_lunit prod.case P(1,2) y(1) [THEN less_imp_neq, symmetric]
        if_True not_False_eq_True A sel rounding_tail [OF sh1 m1(1) P(3,4) b1(5)] m1 b1(3) div_mantissa_def)
  note B = upper_half_bounds [OF P(3,4), of rnd, folded div_mantissa_def]
  have E2: "ival (itab ?x ?E1) + - ival (exponent b) = E2" "?E1 + - ival (exponent b) = ?E1 - ival (exponent b)"
    by (simp_all add: E2_def e1_def)
  note Z = rounded_outcome [OF sh1 b1(2), unfolded m1, OF B b1(4), of ?s, unfolded E2, folded div_in_range_def]
  have "same_type ?z a" using Z(2) b1(1) by (simp add: same_type_def)
  then show ?thesis
    using Z(1,3) by (intro exI [of _ ?z]) (simp add: res bsign_mult)
qed

text \<open>The quotient is cut before it is rounded: together an error of less than one unit.\<close>

lemma div_mantissa_error:
  assumes "standard a" "standard b" "same_type a b" "\<not> Big_IsZero b"
  shows "\<bar>real (div_mantissa a b rnd) - real (uval (mantissa a)) / real (uval (mantissa b)) * 2 ^ div_shift a b\<bar> < 1"
proof -
  let ?n = "length (mantissa a)" and ?i = "div_shift a b" and ?q = "man_quotient a b"
  let ?Q = "real (uval (mantissa a) * W ^ length (mantissa a)) / real (uval (mantissa b))"
  have "0 < ?n" using shape_Nil(2) [OF standard_shape [OF assms(1)]] by simp
  have D: "real (W ^ ?n) = 2 ^ man_bits a" by (simp only: W_power of_nat_power of_nat_numeral)
  have "0 < uval (mantissa b)" using standard_zero_iff_mantissa [OF assms(2)] assms(4) by simp
  note q = div_bounds_real [OF this, of "uval (mantissa a) * W ^ ?n", folded man_quotient_def]
  have x: "real (uval (mantissa a)) / real (uval (mantissa b)) * 2 ^ ?i = ?Q * 2 ^ ?i / real (W ^ ?n)" by simp
  show ?thesis
  proof (cases "uval (mantissa b) \<le> uval (mantissa a)")
    case False
    then have i: "?i = man_bits a" by (simp add: div_shift_def)
    have "?q * 2 ^ ?i = ?q * W ^ ?n" by (simp add: i W_power)
    then have "div_mantissa a b rnd = ?q" unfolding div_mantissa_def by (simp only: upper_half_exact)
    moreover have "?Q * 2 ^ ?i / real (W ^ ?n) = ?Q" unfolding i D by simp
    ultimately show ?thesis using q unfolding x by (simp only: abs_less_iff, intro conjI; linarith)
  next
    case True
    have "man_bits a = Suc ?i" using True \<open>0 < ?n\<close> by (simp add: div_shift_def)
    then have D2: "real (W ^ ?n) = 2 * 2 ^ ?i" "W ^ ?n = 2 * 2 ^ ?i" unfolding D by (simp, simp only: W_power power_Suc)
    have e: "?Q * 2 ^ ?i / real (W ^ ?n) = ?Q / 2" "real (?q * 2 ^ ?i) / real (W ^ ?n) = real ?q / 2" unfolding D2 by simp_all
    have u: "\<bar>real (div_mantissa a b rnd) - real ?q / 2\<bar> \<le> 1 / 2"
      unfolding div_mantissa_def by (rule upper_half_parity [OF D2(2)])
    have "\<bar>d - y / 2\<bar> < 1" if "\<bar>d - x / 2\<bar> \<le> 1 / 2" "x \<le> y" "y < x + 1" for d x y :: real
      using that by (simp add: abs_if field_simps split: if_splits)
    from this [OF u q] show ?thesis unfolding x e .
  qed
qed

lemma exact_quotient:
  "bval a / bval b = bsign a * bsign b * (real (uval (mantissa a)) / real (uval (mantissa b)) * 2 ^ div_shift a b) *
    2 powi (div_exponent a b - ival (exponent b))"
proof -
  have "(2 :: real) powi (div_exponent a b - ival (exponent b)) = 2 powi ival (exponent a) / 2 ^ div_shift a b / 2 powi ival (exponent b)"
    unfolding div_exponent_def by (simp only: power_int_diff powi_nat_2 zero_neq_numeral [symmetric] not_False_eq_True simp_thms)
  then show ?thesis by (simp add: bval_def bsign_def)
qed

lemma Div_nan:
  assumes "Big_IsNan a \<or> Big_IsNan b"
  shows "Big_Div a b rnd = Some (1, Big_SetNan a)"
  using assms by (simp add: Big_Div_def Big_DivRef_def Big_CheckCarry_def)

lemma Div_zero_divisor:
  assumes "Big_IsZero b" "\<not> Big_IsNan a" "\<not> Big_IsNan b"
  shows "Big_Div a b rnd = Some (2, Big_SetNan a)"
  using assms by (simp add: Big_Div_def Big_DivRef_def)

lemma strict_scaled_error:
  assumes "\<bar>r - q\<bar> < (1 :: real)" "\<bar>s\<bar> = 1" "E \<le> E'"
  shows "\<bar>s * r * 2 powi E - s * q * 2 powi E\<bar> < 2 powi E'"
proof -
  have "\<bar>s * r * 2 powi E - s * q * 2 powi E\<bar> \<le> \<bar>r - q\<bar> * 2 powi E'"
    by (rule scaled_error [OF order_refl assms(2,3)])
  also have "\<dots> < 2 powi E'" using assms(1) by simp
  finally show ?thesis .
qed

lemma Div_value:
  assumes "standard a" "standard b" "same_type a b" "\<not> Big_IsNan a" "\<not> Big_IsNan b" "\<not> Big_IsZero b"
  shows "\<exists>c z. Big_Div a b rnd = Some (c, z) \<and> same_type z a \<and>
    (c = 0 \<longleftrightarrow> Big_IsZero a \<or> div_in_range a b rnd) \<and> (c \<noteq> 0 \<longrightarrow> c = 1 \<and> Big_IsNan z) \<and>
    (c = 0 \<longrightarrow> standard z \<and> \<not> Big_IsNan z \<and> \<bar>bval z - bval a / bval b\<bar> < 2 powi ival (exponent z))"
proof (cases "Big_IsZero a")
  case True
  moreover have "bval a = 0" "same_type a a" using True standard_zero_iff [OF assms(1)] by (simp_all add: same_type_def)
  ultimately show ?thesis using assms by (simp add: Big_Div_def Big_DivRef_def)
next
  case False
  obtain z where z: "Big_DivRef a b rnd = Some (if div_in_range a b rnd then (0, z) else (1, Big_SetNan z))"
      "same_type z a"
    and r: "div_in_range a b rnd \<longrightarrow> standard z \<and> \<not> Big_IsNan z \<and>
       bval z = bsign a * bsign b * real (div_mantissa a b rnd) * 2 powi (div_exponent a b - ival (exponent b)) \<and>
       div_exponent a b - ival (exponent b) \<le> ival (exponent z)"
    using DivRef_result [OF assms(1-3) False assms(6,4,5)] by blast
  have "\<bar>bval z - bval a / bval b\<bar> < 2 powi ival (exponent z)" if "div_in_range a b rnd"
  proof -
    from r that have v: "bval z = bsign a * bsign b * real (div_mantissa a b rnd) * 2 powi (div_exponent a b - ival (exponent b))"
      and e: "div_exponent a b - ival (exponent b) \<le> ival (exponent z)" by blast+
    show ?thesis unfolding v exact_quotient
      by (rule strict_scaled_error [OF div_mantissa_error [OF assms(1-3,6)] abs_bsign(2) e])
  qed
  moreover have "same_type (Big_SetNan z) a" using z(2) by (simp add: same_type_def)
  ultimately show ?thesis using z r False by (cases "div_in_range a b rnd") (simp_all add: Big_Div_def)
qed

text \<open>
  A quotient with one bit more than the mantissa is taken for a tie if that bit is set, even when
  there is a remainder. The result below is the even neighbour, the nearest number is the odd one.
\<close>

definition div_sample :: "uint \<Rightarrow> big" where
  "div_sample w = \<lparr>exponent = [0], mantissa = [w], info = 0\<rparr>"

lemma div_sample_fields [simp]:
  "exponent (div_sample w) = [0]" "mantissa (div_sample w) = [w]" "\<not> Big_IsNan (div_sample w)"
  "\<not> Big_IsZero (div_sample w)" "\<not> Big_IsSign (div_sample w)" "same_type (div_sample w) (div_sample v)"
  by (simp_all add: div_sample_def flags_iff same_type_def)

lemma div_sample_standard:
  assumes "2 ^ 63 \<le> unat w"
  shows "standard (div_sample w)"
proof -
  have "big_shape (div_sample w)" by (simp add: big_shape_def man_limit_def)
  moreover have "UInt_IsTheHighestBitSet (mantissa (div_sample w))"
    using IsTheHighestBitSet_iff [of "[w]"] assms by (simp add: W_def)
  ultimately show ?thesis by (simp add: standard_def)
qed

lemma Div_sample:
  defines "a \<equiv> div_sample (3 * 2 ^ 62 + 1)" and "b \<equiv> div_sample (3 * 2 ^ 62)"
  shows "standard a" "standard b" "same_type a b" "bval a / bval b = 1 + 2 / 3 * 2 powi (- 63)"
    "\<exists>z. Big_Div a b True = Some (0, z) \<and> standard z \<and> bval z = 1"
proof -
  show S: "standard a" "standard b" unfolding a_def b_def by (rule div_sample_standard, simp)+
  show t: "same_type a b" by (simp add: a_def b_def)
  have f: "\<not> Big_IsNan a" "\<not> Big_IsNan b" "\<not> Big_IsZero a" "\<not> Big_IsZero b" by (simp_all add: a_def b_def)
  have q: "man_quotient a b = 2 ^ 64 + 1" by (simp add: a_def b_def man_quotient_def W_def)
  have i: "div_shift a b = 63" by (simp add: a_def b_def div_shift_def)
  have m: "div_mantissa a b True = 2 ^ 63" unfolding div_mantissa_def q i
    by (simp add: upper_half_def round_even_def a_def W_def)
  have e: "div_exponent a b = - 63" unfolding div_exponent_def i by (simp add: a_def ival_single)
  have "div_in_range a b True"
    unfolding div_in_range_def exponent_ok_def fits_def m e by (simp add: a_def b_def W_def ival_single)
  with DivRef_result [OF S t f(3,4,1,2), of True]
  show "\<exists>z. Big_Div a b True = Some (0, z) \<and> standard z \<and> bval z = 1"
    unfolding m e Big_Div_def by (auto simp: a_def b_def bsign_def ival_single power_int_minus)
  show "bval a / bval b = 1 + 2 / 3 * 2 powi (- 63)"
    by (simp add: a_def b_def bval_def bsign_def ival_single power_int_minus)
qed

end
