(* ===== verification/Big_Integer.thy ===== *)
theory Big_Integer
  imports Big_Add Big_Div
begin

text \<open>
  Integer parts, rounding to an integer, remainders and bit operations of \<^verbatim>\<open>Big\<close> numbers
  (\<^verbatim>\<open>ttmathbig.h\<close>). A standard number with an exponent of zero or more is an integer; otherwise the
  lowest bits of the mantissa are its fraction.
\<close>

section \<open>Definitions\<close>

abbreviation minus_man_bits :: "big \<Rightarrow> utable" where
  "minus_man_bits b \<equiv> Int_new_sint (exponent b) (- of_nat (length (mantissa b) * TTMATH_BITS_PER_UINT))"

definition Big_SkipFraction :: "big \<Rightarrow> big" where
  "Big_SkipFraction b =
     (if Big_IsNan b \<or> Big_IsZero b then b
      else if \<not> Int_IsSign (exponent b) then b
      else if Int_less_equal (exponent b) (minus_man_bits b) then Big_SetZero b
      else let e = Int_ToInt (exponent b)
           in b\<lparr>mantissa := UInt_ClearFirstBits (mantissa b) (unat (- e))\<rparr>)"

definition Big_RemainFraction :: "big \<Rightarrow> big option" where
  "Big_RemainFraction b =
     (if Big_IsNan b \<or> Big_IsZero b then Some b
      else if \<not> Int_IsSign (exponent b) then Some (Big_SetZero b)
      else if Int_less_equal (exponent b) (minus_man_bits b) then Some b
      else do {
        let e = Int_ToInt (exponent b);
        let how_many_bits_leave = of_nat (length (mantissa b) * TTMATH_BITS_PER_UINT) + e;
        (_, m) \<leftarrow> UInt_Rcl (mantissa b) (unat how_many_bits_leave) 0;
        let (_, e) = Int_Sub (exponent b) (Int_new_sint (exponent b) how_many_bits_leave);
        (_, b) \<leftarrow> Big_Standardizing (b\<lparr>mantissa := m, exponent := e\<rparr>);
        Some b
      })"

definition Big_IsInteger :: "big \<Rightarrow> bool" where
  "Big_IsInteger b =
     (if Big_IsZero b then True
      else if \<not> Int_IsSign (exponent b) then True
      else if Int_less_equal (exponent b) (minus_man_bits b) then False
      else let e = unat (- Int_ToInt (exponent b));
               len = e div TTMATH_BITS_PER_UINT;
               rest = e mod TTMATH_BITS_PER_UINT
           in if \<not> all_zero (take len (mantissa b)) then False
              else if rest > 0 \<and>
                      mantissa b ! len AND drop_bit (TTMATH_BITS_PER_UINT - rest) TTMATH_UINT_MAX_VALUE \<noteq> 0 then False
              else True)"

definition Big_Round :: "big \<Rightarrow> (uint \<times> big) option" where
  "Big_Round b =
     (if Big_IsNan b then Some (1, b)
      else if Big_IsZero b then Some (0, b)
      else do {
        half \<leftarrow> Big_Set05 b;
        (c, b) \<leftarrow> (if Big_IsSign b then Big_Sub b half True else Big_Add b half True True);
        Some (Big_CheckCarry (Big_SkipFraction b) c)
      })"

definition Big_ModRef :: "big \<Rightarrow> big \<Rightarrow> (uint \<times> big) option" where
  "Big_ModRef b ss2 =
     (if Big_IsNan b \<or> Big_IsNan ss2 then Some (Big_CheckCarry b 1)
      else if Big_IsZero ss2 then Some (2, Big_SetNan b)
      else do {
        (c, b) \<leftarrow>
          (if \<not> Big_SmallerWithoutSignThan b ss2 then do {
             (c, temp) \<leftarrow> Big_Div b ss2 True;
             let temp = Big_SkipFraction temp;
             (d, temp) \<leftarrow> Big_Mul temp ss2 True;
             let c = c + d;
             (d, b) \<leftarrow> Big_Sub b temp True;
             let c = c + d;
             Some (if \<not> Big_SmallerWithoutSignThan b ss2 then c + 1 else c, b)
           } else Some (0, b));
        Some (Big_CheckCarry b c)
      })"

definition Big_Mod :: "big \<Rightarrow> big \<Rightarrow> (uint \<times> big) option" where
  "Big_Mod b ss2 = Big_ModRef b ss2"

definition Big_Mod2 :: "big \<Rightarrow> uint option" where
  "Big_Mod2 b =
     (if Int_greater (exponent b) (Int_new_sint (exponent b) 0) \<or> Int_less_equal (exponent b) (minus_man_bits b) then Some 0
      else let exp_int = - Int_ToInt (exponent b)
           in UInt_GetBit (mantissa b) (unat exp_int))"

text \<open>The three bit operations differ in what they do with zero and with a number that is too small.\<close>

definition Big_BitAnd :: "big \<Rightarrow> big \<Rightarrow> (uint \<times> big) option" where
  "Big_BitAnd b ss2 =
     (if Big_IsNan b \<or> Big_IsNan ss2 then Some (Big_CheckCarry b 1)
      else if Big_IsSign b \<or> Big_IsSign ss2 then Some (2, Big_SetNan b)
      else if Big_IsZero b then Some (0, b)
      else if Big_IsZero ss2 then Some (0, Big_SetZero b)
      else let exp_offset = exponent b;
               mantissa_size_in_bits = Int_new_uint exp_offset (of_nat (length (mantissa b) * TTMATH_BITS_PER_UINT));
               (_, exp_offset) = Int_Sub exp_offset (exponent ss2);
               (_, exp_offset) = Int_Abs exp_offset;
               (b, ss2) = (if Big_SmallerWithoutSignThan b ss2 then Big_Swap b ss2 else (b, ss2))
           in if Int_greater_equal exp_offset mantissa_size_in_bits then Some (0, Big_SetZero b)
              else do {
                (_, m) \<leftarrow> UInt_Rcr (mantissa ss2) (unat (Int_ToInt exp_offset)) 0;
                (c, b) \<leftarrow> Big_Standardizing (b\<lparr>mantissa := UInt_BitAnd (mantissa b) m\<rparr>);
                Some (Big_CheckCarry b c)
              })"

definition Big_BitOr :: "big \<Rightarrow> big \<Rightarrow> (uint \<times> big) option" where
  "Big_BitOr b ss2 =
     (if Big_IsNan b \<or> Big_IsNan ss2 then Some (Big_CheckCarry b 1)
      else if Big_IsSign b \<or> Big_IsSign ss2 then Some (2, Big_SetNan b)
      else if Big_IsZero b then Some (0, ss2)
      else if Big_IsZero ss2 then Some (0, b)
      else let exp_offset = exponent b;
               mantissa_size_in_bits = Int_new_uint exp_offset (of_nat (length (mantissa b) * TTMATH_BITS_PER_UINT));
               (_, exp_offset) = Int_Sub exp_offset (exponent ss2);
               (_, exp_offset) = Int_Abs exp_offset;
               (b, ss2) = (if Big_SmallerWithoutSignThan b ss2 then Big_Swap b ss2 else (b, ss2))
           in if Int_greater_equal exp_offset mantissa_size_in_bits then Some (0, b)
              else do {
                (_, m) \<leftarrow> UInt_Rcr (mantissa ss2) (unat (Int_ToInt exp_offset)) 0;
                (c, b) \<leftarrow> Big_Standardizing (b\<lparr>mantissa := UInt_BitOr (mantissa b) m\<rparr>);
                Some (Big_CheckCarry b c)
              })"

definition Big_BitXor :: "big \<Rightarrow> big \<Rightarrow> (uint \<times> big) option" where
  "Big_BitXor b ss2 =
     (if Big_IsNan b \<or> Big_IsNan ss2 then Some (Big_CheckCarry b 1)
      else if Big_IsSign b \<or> Big_IsSign ss2 then Some (2, Big_SetNan b)
      else if Big_IsZero ss2 then Some (0, b)
      else if Big_IsZero b then Some (0, ss2)
      else let exp_offset = exponent b;
               mantissa_size_in_bits = Int_new_uint exp_offset (of_nat (length (mantissa b) * TTMATH_BITS_PER_UINT));
               (_, exp_offset) = Int_Sub exp_offset (exponent ss2);
               (_, exp_offset) = Int_Abs exp_offset;
               (b, ss2) = (if Big_SmallerWithoutSignThan b ss2 then Big_Swap b ss2 else (b, ss2))
           in if Int_greater_equal exp_offset mantissa_size_in_bits then Some (0, b)
              else do {
                (_, m) \<leftarrow> UInt_Rcr (mantissa ss2) (unat (Int_ToInt exp_offset)) 0;
                (c, b) \<leftarrow> Big_Standardizing (b\<lparr>mantissa := UInt_BitXor (mantissa b) m\<rparr>);
                Some (Big_CheckCarry b c)
              })"

section \<open>Integer and fractional part\<close>

text \<open>The two limits a negative exponent is compared with.\<close>

lemma minus_man_bits_ival:
  assumes "big_shape b"
  shows "ival (minus_man_bits b) = - int (man_bits b)" "length (minus_man_bits b) = length (exponent b)"
proof -
  have "- of_nat (length (mantissa b) * TTMATH_BITS_PER_UINT) = (of_int (- int (man_bits b)) :: uint)"
    by (simp add: TTMATH_BITS_PER_UINT_def)
  moreover have "sint (of_int (- int (man_bits b)) :: uint) = - int (man_bits b)"
    using shape_bits [OF assms] by (intro sint_of_int_small) simp_all
  ultimately show "ival (minus_man_bits b) = - int (man_bits b)" "length (minus_man_bits b) = length (exponent b)"
    using assign_sint_ival [OF shape_Nil(1) [OF assms]] by (simp_all add: Int_new_sint_def Int_assign_sint_def)
qed

lemma exponent_tests:
  assumes "big_shape b"
  shows "Int_IsSign (exponent b) \<longleftrightarrow> ival (exponent b) < 0"
    "Int_less_equal (exponent b) (minus_man_bits b) \<longleftrightarrow> ival (exponent b) \<le> - int (man_bits b)"
  using shape_Nil(1) [OF assms] Int_comparison(3) [OF minus_man_bits_ival(2) [OF assms] shape_Nil(1) [OF assms]]
    minus_man_bits_ival(1) [OF assms] by simp_all

lemma fraction_bits:
  assumes "big_shape b" "ival (exponent b) < 0" "- int (man_bits b) < ival (exponent b)"
  defines "k \<equiv> nat (- ival (exponent b))"
  shows "unat (- Int_ToInt (exponent b)) = k" "0 < k" "k < man_bits b" "ival (exponent b) = - int k"
proof -
  note n = shape_Nil(1) [OF assms(1)]
  show k: "0 < k" "k < man_bits b" "ival (exponent b) = - int k" using assms(2,3) by (simp_all add: k_def)
  have "Int_ToInt (exponent b) = of_int (ival (exponent b))"
    using ToInt_ival [OF n] by (simp add: Int_ToInt_def Int_ToInt_sint_def Let_def split: if_splits)
  then have "- Int_ToInt (exponent b) = (of_nat k :: uint)" by (simp add: k(3))
  moreover have "k < W" using k(2) shape_bits [OF assms(1)] by (simp add: W_def)
  ultimately show "unat (- Int_ToInt (exponent b)) = k" by (simp add: unat_of_nat_small)
qed

text \<open>The absolute value of a number in the four ranges of the exponent.\<close>

lemma abs_bval_integer: "0 \<le> ival (exponent b) \<Longrightarrow> \<bar>bval b\<bar> = real (uval (mantissa b) * 2 ^ nat (ival (exponent b)))"
  using powi_nat_2 [of "nat (ival (exponent b))"] by (simp add: abs_bval)

lemma abs_bval_small:
  assumes "ival (exponent b) \<le> - int (man_bits b)"
  shows "\<bar>bval b\<bar> < 1"
proof -
  have "real (uval (mantissa b)) < real (W ^ length (mantissa b))" using uval_less by (simp only: of_nat_less_iff)
  then have "real (uval (mantissa b)) < 2 ^ man_bits b" by (simp only: W_power of_nat_power of_nat_numeral)
  then have "\<bar>bval b\<bar> < 2 ^ man_bits b * 2 powi ival (exponent b)"
    unfolding abs_bval by (simp only: mult_less_cancel_right_pos zero_less_power_int zero_less_numeral)
  also have "\<dots> \<le> 2 ^ man_bits b * 2 powi (- int (man_bits b))"
    using assms by (intro mult_left_mono power_int_increasing) simp_all
  also have "\<dots> = 1" by (simp flip: powi_nat_2 powi_add_2)
  finally show ?thesis .
qed

lemma abs_bval_fraction: "ival (exponent b) = - int k \<Longrightarrow> \<bar>bval b\<bar> = real (uval (mantissa b)) / real (2 ^ k)"
  by (simp add: abs_bval power_int_minus divide_inverse)

lemma real_dvd_iff: "2 ^ k dvd u \<longleftrightarrow> real u / real (2 ^ k) \<in> \<int>"
proof
  assume "real u / real (2 ^ k) \<in> \<int>"
  then obtain i where "real u / real (2 ^ k) = real_of_int i" by (auto elim: Ints_cases)
  then have "real_of_int (int u) = real_of_int (i * 2 ^ k)" by (simp add: field_simps)
  then have "int u = i * 2 ^ k" by (simp only: of_int_eq_iff)
  then have "int (2 ^ k) dvd int u" by simp
  then show "2 ^ k dvd u" by (simp only: int_dvd_int_iff)
qed (auto simp: dvd_def)

lemma floor_fraction: "\<lfloor>real u / real (2 ^ k)\<rfloor> = int (u div 2 ^ k)"
  by (simp only: floor_divide_of_nat_eq)

lemma frac_fraction: "frac (real u / real (2 ^ k)) = real (u mod 2 ^ k) / real (2 ^ k)"
proof -
  have "real u = real (2 ^ k) * real (u div 2 ^ k) + real (u mod 2 ^ k)" by (metis mult_div_mod_eq of_nat_add of_nat_mult)
  then have "real u / real (2 ^ k) = real (u div 2 ^ k) + real (u mod 2 ^ k) / real (2 ^ k)" by (simp add: field_simps)
  then show ?thesis unfolding frac_def floor_fraction by simp
qed

lemma bval_bsign: "bval b = bsign b * \<bar>bval b\<bar>"
  by (simp add: bval_def bsign_def abs_mult)

lemma big_ranges:
  assumes "big_shape b"
  obtains "0 \<le> ival (exponent b)" | "ival (exponent b) < 0" "ival (exponent b) \<le> - int (man_bits b)"
    | k where "ival (exponent b) < 0" "- int (man_bits b) < ival (exponent b)" "ival (exponent b) = - int k" "0 < k" "k < man_bits b"
      "unat (- Int_ToInt (exponent b)) = k"
  using fraction_bits [OF assms] by (metis not_le)

lemma SkipFraction_value:
  assumes "standard b" "\<not> Big_IsNan b"
  defines "z \<equiv> Big_SkipFraction b"
  shows "standard z \<and> \<not> Big_IsNan z \<and> same_type z b \<and> bval z = bsign b * real_of_int \<lfloor>\<bar>bval b\<bar>\<rfloor>"
proof (cases "Big_IsZero b")
  case True
  then have "bval b = 0" "z = b" using standard_zero_iff [OF assms(1)] by (simp_all add: z_def Big_SkipFraction_def)
  then show ?thesis using assms by (simp add: same_type_def)
next
  case False
  note sh = standard_shape [OF assms(1)]
  note T = exponent_tests [OF sh]
  from sh show ?thesis
  proof (cases rule: big_ranges)
    case 1
    then have "z = b" using T by (simp add: z_def Big_SkipFraction_def)
    moreover have "real_of_int \<lfloor>\<bar>bval b\<bar>\<rfloor> = \<bar>bval b\<bar>" unfolding abs_bval_integer [OF 1] by (simp only: floor_of_nat of_int_of_nat_eq)
    then have "bval b = bsign b * real_of_int \<lfloor>\<bar>bval b\<bar>\<rfloor>" using bval_bsign [of b] by metis
    ultimately show ?thesis using assms(1,2) by (simp add: same_type_def)
  next
    case 2
    then have "z = Big_SetZero b" using T False assms(2) by (simp add: z_def Big_SkipFraction_def)
    moreover have "\<lfloor>\<bar>bval b\<bar>\<rfloor> = 0" using abs_bval_small [OF 2(2)] by (simp add: floor_eq_iff)
    moreover have "same_type (Big_SetZero b) b" by (simp add: same_type_def Big_SetZero_def)
    ultimately show ?thesis using SetZero_value [OF sh] by simp
  next
    case (3 k)
    let ?u = "uval (mantissa b)" and ?m = "UInt_ClearFirstBits (mantissa b) k"
    have z: "z = b\<lparr>mantissa := ?m\<rparr>" using 3 T False assms(2) by (simp add: z_def Big_SkipFraction_def Let_def)
    have m: "uval ?m = ?u div 2 ^ k * 2 ^ k" "length ?m = length (mantissa b)"
      by (rule ClearFirstBits_value, simp add: UInt_ClearFirstBits_def)
    have n: "0 < length (mantissa b)" using shape_Nil(2) [OF sh] by simp
    have "(2 :: nat) ^ (man_bits b - 1) = 2 ^ (man_bits b - 1 - k) * 2 ^ k" using 3(5) by (simp flip: power_add)
    then have "2 ^ (man_bits b - 1) div 2 ^ k * 2 ^ k = (2 :: nat) ^ (man_bits b - 1)" by simp
    moreover have "2 ^ (man_bits b - 1) div 2 ^ k * 2 ^ k \<le> ?u div 2 ^ k * 2 ^ k"
      using standard_mantissa(1) [OF assms(1) False] by (intro mult_le_mono1 div_le_mono)
    ultimately have "W ^ length ?m div 2 \<le> uval ?m" by (simp add: m half_top [OF n])
    moreover have "?m \<noteq> []" using m(2) n by auto
    ultimately have "UInt_IsTheHighestBitSet ?m" using IsTheHighestBitSet_iff by simp
    moreover have t: "same_type z b" by (simp add: z same_type_def m(2))
    ultimately have "standard z" using shape_same_type [OF t] sh False by (simp add: standard_def z)
    moreover have "bval z = bsign b * real_of_int \<lfloor>\<bar>bval b\<bar>\<rfloor>"
      unfolding abs_bval_fraction [OF 3(3)] floor_fraction
      by (simp add: bval_def bsign_def z m(1) 3(3) power_int_minus)
    ultimately show ?thesis using t assms(2) by (simp add: z)
  qed
qed

lemma IsInteger_value:
  assumes "standard b"
  shows "Big_IsInteger b \<longleftrightarrow> \<bar>bval b\<bar> \<in> \<int>"
proof (cases "Big_IsZero b")
  case True
  then show ?thesis using standard_zero_iff [OF assms] by (simp add: Big_IsInteger_def)
next
  case False
  note sh = standard_shape [OF assms]
  note T = exponent_tests [OF sh]
  from sh show ?thesis
  proof (cases rule: big_ranges)
    case 1
    have "\<bar>bval b\<bar> \<in> \<int>" unfolding abs_bval_integer [OF 1] by (rule Ints_of_nat)
    then show ?thesis using 1 T by (simp add: Big_IsInteger_def)
  next
    case 2
    have "bval b \<noteq> 0" using False standard_zero_iff [OF assms] by simp
    then have "\<bar>bval b\<bar> \<notin> \<int>" using abs_bval_small [OF 2(2)] Ints_nonzero_abs_less1 [of "\<bar>bval b\<bar>"] by auto
    then show ?thesis using 2 T False by (simp add: Big_IsInteger_def)
  next
    case (3 k)
    let ?u = "uval (mantissa b)"
    have "Some (Big_IsInteger b) = UInt_AreFirstBitsZero (mantissa b) k"
      using 3 T False by (auto simp: Big_IsInteger_def UInt_AreFirstBitsZero_def Let_def TTMATH_BITS_PER_UINT_def)
    then have "Big_IsInteger b \<longleftrightarrow> 2 ^ k dvd ?u" using AreFirstBitsZero_value [of k "mantissa b"] 3(5) by simp
    also have "\<dots> \<longleftrightarrow> real ?u / real (2 ^ k) \<in> \<int>" by (rule real_dvd_iff)
    finally show ?thesis unfolding abs_bval_fraction [OF 3(3)] .
  qed
qed

lemma fits_small:
  assumes "t \<noteq> []" "\<bar>x\<bar> < 2 ^ 62"
  shows "fits (length t) x"
proof -
  have "int (W ^ 1) \<le> int (W ^ length t)" using assms(1) by (intro of_nat_mono W_power_mono) (cases t, simp_all)
  moreover have "int (W ^ 1) = 2 ^ 64" by (simp add: W_def)
  ultimately have "2 ^ 64 \<le> int (W ^ length t)" by linarith
  then show ?thesis using assms(2) unfolding fits_def by (simp del: of_nat_power add: abs_less_iff)
qed

lemma RemainFraction_inside:
  assumes "standard b" "\<not> Big_IsNan b" "\<not> Big_IsZero b" "ival (exponent b) < 0" "- int (man_bits b) < ival (exponent b)"
    "ival (exponent b) = - int k" "0 < k" "k < man_bits b" "unat (- Int_ToInt (exponent b)) = k"
  shows "\<exists>z. Big_RemainFraction b = Some z \<and> standard z \<and> \<not> Big_IsNan z \<and> same_type z b \<and> bval z = bsign b * frac \<bar>bval b\<bar>"
proof -
  note sh = standard_shape [OF assms(1)]
  note T = exponent_tests [OF sh]
  let ?u = "uval (mantissa b)" and ?n = "length (mantissa b)" and ?N = "man_bits b" and ?x = "length (exponent b)"
  have bits: "?N < 2 ^ 56" by (rule shape_bits [OF sh])
  define h where "h = ?N - k"
  have h: "0 < h" "h < 2 ^ 62" "k + h = ?N" using assms(7,8) bits by (simp_all add: h_def)
  have "of_nat (unat (- Int_ToInt (exponent b))) = - Int_ToInt (exponent b)" by simp
  then have "Int_ToInt (exponent b) = - (of_nat k :: uint)" unfolding assms(9) by (metis minus_minus)
  then have "of_nat (?n * TTMATH_BITS_PER_UINT) + Int_ToInt (exponent b) = (of_nat ?N - of_nat k :: uint)"
    by (simp add: TTMATH_BITS_PER_UINT_def)
  also have "\<dots> = of_nat h" using assms(8) by (simp add: h_def)
  finally have hb: "of_nat (?n * TTMATH_BITS_PER_UINT) + Int_ToInt (exponent b) = (of_nat h :: uint)" .
  have uh: "unat (of_nat h :: uint) = h" using h(2) by (intro unat_of_nat_small) (simp add: W_def)
  define m where "m = utab ?n (?u * 2 ^ h)"
  have R: "\<exists>c. UInt_Rcl (mantissa b) h 0 = Some (c, m)"
    using Rcl_result [OF shape_Nil(2) [OF sh], of h 0] by (simp add: m_def shl_value_def fill_bits_def)
  note E = new_uint_ival [OF shape_Nil(1) [OF sh] h(2)]
  have f: "fits ?x (- int ?N)" "fits ?x (- int ?N - int ?N)"
    using bits by (auto intro!: fits_small [OF shape_Nil(1) [OF sh]])
  have S: "Int_Sub (exponent b) (Int_new_sint (exponent b) (of_nat h)) = (0, itab ?x (- int ?N))"
  proof -
    have "ival (exponent b) - int h = - int ?N" using h(3) assms(6) by linarith
    then show ?thesis using Sub_ival [OF E(1) shape_Nil(1) [OF sh]] f(1)
      unfolding new_sint_of_nat [OF shape_Nil(1) [OF sh] h(2)] E(2) by simp
  qed
  let ?b = "b\<lparr>mantissa := m, exponent := itab ?x (- int ?N)\<rparr>"
  have t: "same_type ?b b" by (simp add: same_type_def m_def)
  have shb: "big_shape ?b" using shape_same_type [OF t] sh by simp
  obtain c z where z: "Big_Standardizing ?b = Some (c, z)" "length (mantissa z) = length (mantissa ?b)"
    "length (exponent z) = length (exponent ?b)" "Big_IsNan z = Big_IsNan ?b" "c = 0 \<longrightarrow> standard z \<and> bval z = bval ?b"
    using Standardizing_value [OF shb] by blast
  have "c = 0" by (rule Standardizing_in_range [OF shb _ z(1)]) (use f in \<open>simp add: m_def\<close>)
  moreover have "Big_RemainFraction b = Some z"
    using assms(4,5) T assms(3) assms(2) R S z(1) uh unfolding Big_RemainFraction_def hb Let_def by auto
  moreover have "bval ?b = bsign b * frac \<bar>bval b\<bar>"
  proof -
    have "?u * 2 ^ h mod W ^ ?n = (?u mod 2 ^ k) * 2 ^ h"
      unfolding W_power h(3) [symmetric] by (simp add: power_add mod_mult_mult2)
    then have m: "uval m = (?u mod 2 ^ k) * 2 ^ h" by (simp add: m_def uval_utab)
    have "frac (real ?u / real (2 ^ k)) = real (?u mod 2 ^ k) / real (2 ^ k)" by (rule frac_fraction)
    moreover have "(2 :: real) ^ h * 2 powi (- int ?N) = 1 / 2 ^ k"
    proof -
      have "int h + - int ?N = - int k" using h(3) by linarith
      then have "(2 :: real) powi int h * 2 powi (- int ?N) = 2 powi (- int k)" by (simp only: powi_add_2 [symmetric])
      then show ?thesis by (simp only: powi_nat_2 power_int_minus divide_inverse mult_1)
    qed
    ultimately show ?thesis
      unfolding abs_bval_fraction [OF assms(6)] using f(1) by (simp add: bval_def bsign_def m mult.assoc)
  qed
  ultimately show ?thesis using z assms(2) by (simp add: same_type_def m_def)
qed

lemma RemainFraction_value:
  assumes "standard b" "\<not> Big_IsNan b"
  shows "\<exists>z. Big_RemainFraction b = Some z \<and> standard z \<and> \<not> Big_IsNan z \<and> same_type z b \<and> bval z = bsign b * frac \<bar>bval b\<bar>"
proof (cases "Big_IsZero b")
  case True
  then have "bval b = 0" using standard_zero_iff [OF assms(1)] by simp
  with True show ?thesis using assms by (simp add: Big_RemainFraction_def same_type_def)
next
  case False
  note sh = standard_shape [OF assms(1)]
  note T = exponent_tests [OF sh]
  from sh show ?thesis
  proof (cases rule: big_ranges)
    case 1
    then have "Big_RemainFraction b = Some (Big_SetZero b)" using T False assms(2) by (simp add: Big_RemainFraction_def)
    moreover have "frac \<bar>bval b\<bar> = 0" unfolding abs_bval_integer [OF 1] by (simp add: frac_def del: of_nat_mult)
    moreover have "same_type (Big_SetZero b) b" by (simp add: same_type_def Big_SetZero_def)
    ultimately show ?thesis using SetZero_value [OF sh] by simp
  next
    case 2
    have "frac \<bar>bval b\<bar> = \<bar>bval b\<bar>" using abs_bval_small [OF 2(2)] by (simp add: frac_eq)
    then show ?thesis using 2 T False assms bval_bsign [of b] by (simp add: Big_RemainFraction_def same_type_def)
  next
    case (3 k)
    with RemainFraction_inside [OF assms False] show ?thesis by blast
  qed
qed

section \<open>Parity\<close>

lemma Mod2_value:
  assumes "standard b"
  shows "Big_Mod2 b = Some (of_bool (odd \<lfloor>\<bar>bval b\<bar>\<rfloor>))"
proof -
  note sh = standard_shape [OF assms]
  note n = shape_Nil [OF sh]
  have z: "ival (Int_new_sint (exponent b) 0) = 0" "length (Int_new_sint (exponent b) 0) = length (exponent b)"
    using new_sint_of_nat [OF n(1), of 0] new_uint_ival [OF n(1), of 0] by simp_all
  note G = Int_comparison(2) [OF z(2) n(1), unfolded z(1)] and T = exponent_tests [OF sh]
  consider "0 < ival (exponent b)" | "ival (exponent b) \<le> - int (man_bits b)" | "- int (man_bits b) < ival (exponent b)" "ival (exponent b) \<le> 0"
    by linarith
  then show ?thesis
  proof cases
    case 1
    have "\<lfloor>\<bar>bval b\<bar>\<rfloor> = int (uval (mantissa b) * 2 ^ nat (ival (exponent b)))"
      unfolding abs_bval_integer [OF less_imp_le [OF 1]] by (rule floor_of_nat)
    moreover have "even (uval (mantissa b) * 2 ^ nat (ival (exponent b)))" using 1 by simp
    ultimately show ?thesis using 1 G by (simp add: Big_Mod2_def)
  next
    case 2
    have "\<lfloor>\<bar>bval b\<bar>\<rfloor> = 0" using abs_bval_small [OF 2] by (simp add: floor_eq_iff)
    then show ?thesis using 2 T(2) by (simp add: Big_Mod2_def)
  next
    case 3
    define k where "k = nat (- ival (exponent b))"
    have k: "ival (exponent b) = - int k" "k < man_bits b" using 3 by (simp_all add: k_def)
    have "Int_ToInt (exponent b) = of_int (ival (exponent b))"
      using ToInt_ival [OF n(1)] by (simp add: Int_ToInt_def Int_ToInt_sint_def Let_def split: if_splits)
    then have "- Int_ToInt (exponent b) = (of_nat k :: uint)" by (simp add: k(1))
    moreover have "k < W" using k(2) shape_bits [OF sh] by (simp add: W_def)
    ultimately have "unat (- Int_ToInt (exponent b)) = k" by (simp add: unat_of_nat_small)
    moreover have "\<lfloor>\<bar>bval b\<bar>\<rfloor> = int (uval (mantissa b) div 2 ^ k)"
      unfolding abs_bval_fraction [OF k(1)] by (rule floor_fraction)
    moreover have "bit (uval (mantissa b)) k \<longleftrightarrow> odd (uval (mantissa b) div 2 ^ k)" by (rule bit_iff_odd)
    ultimately show ?thesis using 3 G T GetBit_value [of k "mantissa b"] k(2) by (simp add: Big_Mod2_def Let_def)
  qed
qed

section \<open>Bit operations\<close>

text \<open>A standard number that is a natural number of at most as many bits as the mantissa has.\<close>

lemma natural_mantissa:
  assumes "standard b" "bval b = real x" "0 < x" "x < 2 ^ man_bits b"
  obtains k where "ival (exponent b) = - int k" "k < man_bits b" "uval (mantissa b) = x * 2 ^ k"
proof -
  note sh = standard_shape [OF assms(1)]
  have nz: "\<not> Big_IsZero b" using standard_zero_iff [OF assms(1)] assms(2,3) by simp
  have ab: "\<bar>bval b\<bar> = real x" by (simp add: assms(2))
  have "\<not> 0 < ival (exponent b)"
  proof
    assume "0 < ival (exponent b)"
    then have "x = uval (mantissa b) * 2 ^ nat (ival (exponent b))"
      using abs_bval_integer [of b] ab by (simp only: of_nat_eq_iff less_imp_le)
    moreover have "(2 :: nat) ^ 1 \<le> 2 ^ nat (ival (exponent b))" using \<open>0 < ival (exponent b)\<close> by (intro power_increasing) simp_all
    ultimately have "2 ^ (man_bits b - 1) * 2 ^ 1 \<le> x" using standard_mantissa(1) [OF assms(1) nz] by (simp only: mult_le_mono)
    moreover have "2 ^ (man_bits b - 1) * 2 ^ 1 = (2 :: nat) ^ man_bits b" using shape_Nil(2) [OF sh] by (simp flip: power_Suc2)
    ultimately show False using assms(4) by simp
  qed
  moreover have "\<not> ival (exponent b) \<le> - int (man_bits b)" using abs_bval_small [of b] ab assms(3) by auto
  ultimately obtain k where k: "ival (exponent b) = - int k" "k < man_bits b"
    using that [of "nat (- ival (exponent b))"] by (metis le_nat_iff int_nat_eq minus_equation_iff neg_less_iff_less not_less nat_less_iff neg_0_le_iff_le nat_int of_nat_less_iff)
  have "real (uval (mantissa b)) = real (x * 2 ^ k)" using abs_bval_fraction [OF k(1)] ab by (simp add: field_simps)
  then show ?thesis using that k by (simp only: of_nat_eq_iff)
qed

text \<open>What the three operations share: one on the words of the mantissas and one on numbers.\<close>

locale bit_operation =
  fixes on_words :: "utable \<Rightarrow> utable \<Rightarrow> utable" and on_numbers :: "nat \<Rightarrow> nat \<Rightarrow> nat"
  assumes words_value: "length s = length t \<Longrightarrow> uval (on_words t s) = on_numbers (uval t) (uval s)"
    and words_length: "length s = length t \<Longrightarrow> length (on_words t s) = length t"
    and numbers_commute: "on_numbers x y = on_numbers y x"
    and numbers_shift: "on_numbers (x * 2 ^ j) (y * 2 ^ j) = on_numbers x y * 2 ^ j"
begin

lemma aligned:
  assumes "standard a" "standard b" "same_type a b" "\<not> Big_IsNan a" "\<not> Big_IsSign a" "off \<noteq> []" "ival off = int d"
    "ival (exponent a) = - int k" "k < man_bits a" "uval (mantissa a) = x * 2 ^ k" "uval (mantissa b) = y * 2 ^ (k + d)" "d < man_bits a"
  shows "\<exists>z. do {
      (_, m) \<leftarrow> UInt_Rcr (mantissa b) (unat (Int_ToInt off)) 0;
      (c, z) \<leftarrow> Big_Standardizing (a\<lparr>mantissa := on_words (mantissa a) m\<rparr>);
      Some (Big_CheckCarry z c)
    } = Some (0, z) \<and> standard z \<and> \<not> Big_IsNan z \<and> same_type z a \<and> bval z = real (on_numbers x y)"
proof -
  let ?n = "length (mantissa a)" and ?x = "length (exponent a)"
  note sh = standard_shape [OF assms(1)]
  have bits: "man_bits a < 2 ^ 56" by (rule shape_bits [OF sh])
  have bn: "mantissa b \<noteq> []" "length (mantissa b) = ?n" using shape_Nil(2) [OF standard_shape [OF assms(2)]] assms(3) by (simp_all add: same_type_def)
  have off: "unat (Int_ToInt off) = d" using first_word_small [OF assms(6,7)] assms(12) bits by simp
  define m where "m = utab ?n (y * 2 ^ k)"
  have "uval (mantissa b) div 2 ^ d = y * 2 ^ k" unfolding assms(11) by (simp add: power_add)
  then have R: "\<exists>c. UInt_Rcr (mantissa b) d 0 = Some (c, m)"
    using Rcr_result [OF bn(1), of d 0] bn(2) by (simp add: shr_value_def fill_bits_def m_def)
  have "y * 2 ^ k \<le> uval (mantissa b)" unfolding assms(11) by simp
  then have "y * 2 ^ k < W ^ ?n" using uval_less [of "mantissa b"] bn(2) by (simp only: le_less_trans)
  then have m: "uval m = y * 2 ^ k" "length m = ?n" by (simp_all add: m_def uval_utab)
  let ?a = "a\<lparr>mantissa := on_words (mantissa a) m\<rparr>"
  have t: "same_type ?a a" using words_length m(2) by (simp add: same_type_def)
  then have sha: "big_shape ?a" using shape_same_type sh by simp
  have v: "bval ?a = real (on_numbers x y)"
    using words_value [of m "mantissa a"] m assms(5,8,10)
    by (simp add: bval_def bsign_def numbers_shift power_int_minus)
  obtain c z where z: "Big_Standardizing ?a = Some (c, z)" "length (mantissa z) = length (mantissa ?a)"
    "length (exponent z) = length (exponent ?a)" "Big_IsNan z = Big_IsNan ?a" "c = 0 \<longrightarrow> standard z \<and> bval z = bval ?a"
    using Standardizing_value [OF sha] by blast
  have "fits ?x (- int k - int (man_bits a))" using assms(9) bits by (intro fits_small [OF shape_Nil(1) [OF sh]]) simp
  then have "fits (length (exponent ?a)) (ival (exponent ?a) - int (man_bits ?a))" using assms(8) t by (simp add: same_type_def)
  then have "c = 0" by (rule Standardizing_in_range [OF sha _ z(1)])
  moreover have "same_type z a" using z(2,3) t by (simp add: same_type_def)
  ultimately show ?thesis using R off z v assms(4) by (auto simp: Big_CheckCarry_def)
qed

lemma naturals:
  assumes "standard a" "standard b" "same_type a b" "\<not> Big_IsNan a" "\<not> Big_IsNan b"
    "bval a = real x" "bval b = real y" "0 < x" "0 < y" "x < 2 ^ man_bits a" "y < 2 ^ man_bits a"
  shows "\<exists>z. (let exp_offset = exponent a;
        mantissa_size_in_bits = Int_new_uint exp_offset (of_nat (length (mantissa a) * TTMATH_BITS_PER_UINT));
        (_, exp_offset) = Int_Sub exp_offset (exponent b);
        (_, exp_offset) = Int_Abs exp_offset;
        (a, b) = (if Big_SmallerWithoutSignThan a b then Big_Swap a b else (a, b))
    in if Int_greater_equal exp_offset mantissa_size_in_bits then too_small a
       else do {
         (_, m) \<leftarrow> UInt_Rcr (mantissa b) (unat (Int_ToInt exp_offset)) 0;
         (c, a) \<leftarrow> Big_Standardizing (a\<lparr>mantissa := on_words (mantissa a) m\<rparr>);
         Some (Big_CheckCarry a c)
       }) = Some (0, z) \<and> standard z \<and> \<not> Big_IsNan z \<and> same_type z a \<and> bval z = real (on_numbers x y)"
proof -
  note sh = standard_shape [OF assms(1)]
  note n = shape_Nil(1) [OF sh]
  have bits: "man_bits a < 2 ^ 56" by (rule shape_bits [OF sh])
  have ab: "man_bits b = man_bits a" "length (exponent b) = length (exponent a)" "same_type b a" using assms(3) by (simp_all add: same_type_def)
  have nz: "\<not> Big_IsZero a" "\<not> Big_IsZero b" "\<not> Big_IsSign a" "\<not> Big_IsSign b"
    using standard_zero_iff assms(1,2,6-9) bval_sign by simp_all
  obtain k where k: "ival (exponent a) = - int k" "k < man_bits a" "uval (mantissa a) = x * 2 ^ k"
    using natural_mantissa [OF assms(1,6,8,10)] by blast
  obtain j where j: "ival (exponent b) = - int j" "j < man_bits a" "uval (mantissa b) = y * 2 ^ j"
    using natural_mantissa [OF assms(2,7,9)] assms(11) ab(1) by metis
  define t where "t = snd (Int_Abs (snd (Int_Sub (exponent a) (exponent b))))"
  have "fits (length (exponent a)) \<bar>ival (exponent a) - ival (exponent b)\<bar>" using k j bits by (intro fits_small [OF n]) simp
  from exponent_distance [OF n ab(2) this]
  have t: "t \<noteq> []" "ival t = int (nat \<bar>ival (exponent a) - ival (exponent b)\<bar>)" by (simp_all add: t_def)
  have lt: "length t = length (exponent a)"
    using Sub_ival [OF ab(2) n] Abs_result [of "itab (length (exponent a)) (ival (exponent a) - ival (exponent b))"] n
    by (metis t_def length_0_conv length_itab snd_conv)
  have bits62: "man_bits a < 2 ^ 62" using bits by simp
  have M: "length (mantissa a) * TTMATH_BITS_PER_UINT = man_bits a" by (simp add: TTMATH_BITS_PER_UINT_def)
  note N = new_uint_ival [OF n bits62]
  have ge: "Int_greater_equal t (Int_new_uint (exponent a) (of_nat (man_bits a))) = False"
    using Int_comparison(4) [of "Int_new_uint (exponent a) (of_nat (man_bits a))" t] t lt N k j by simp
  have snd_t: "snd (Int_Abs (snd (Int_Sub (exponent a) (exponent b)))) = t" by (simp add: t_def)
  show ?thesis
  proof (cases "Big_SmallerWithoutSignThan a b")
    case True
    then have "\<bar>bval a\<bar> \<le> \<bar>bval b\<bar>" using WithoutSign_values(1) [OF assms(1-3)] by simp
    then have le: "j \<le> k" using larger_exponent(1) [OF assms(2,1) ab(3) nz(2,1)] k j by simp
    have "uval (mantissa a) = x * 2 ^ (j + (k - j))" "ival t = int (k - j)" "k - j < man_bits b"
      using le k j t(2) ab(1) by simp_all
    from aligned [OF assms(2,1) ab(3) assms(5) nz(4) t(1) this(2) j(1) _ j(3) this(1,3)] j(2) ab(1)
    have "\<exists>z. do {
        (_, m) \<leftarrow> UInt_Rcr (mantissa a) (unat (Int_ToInt t)) 0;
        (c, z) \<leftarrow> Big_Standardizing (b\<lparr>mantissa := on_words (mantissa b) m\<rparr>);
        Some (Big_CheckCarry z c)
      } = Some (0, z) \<and> standard z \<and> \<not> Big_IsNan z \<and> same_type z b \<and> bval z = real (on_numbers y x)" by simp
    moreover have "same_type z b = same_type z a" for z using assms(3) by (simp add: same_type_def)
    ultimately show ?thesis
      using True unfolding Let_def M Swap_big [OF assms(3)] numbers_commute [of y]
      by (simp only: if_True prod.case case_prod_beta' fst_conv snd_conv snd_t ge if_False)
  next
    case False
    then have "\<bar>bval b\<bar> \<le> \<bar>bval a\<bar>" using WithoutSign_values(1) [OF assms(1-3)] by simp
    then have le: "k \<le> j" using larger_exponent(1) [OF assms(1-3) nz(1,2)] k j by simp
    have "uval (mantissa b) = y * 2 ^ (k + (j - k))" "ival t = int (j - k)" "j - k < man_bits a"
      using le k j t(2) by simp_all
    from aligned [OF assms(1-4) nz(3) t(1) this(2) k(1,2,3) this(1,3)] False
    show ?thesis unfolding Let_def M
      by (simp only: if_False prod.case case_prod_beta' fst_conv snd_conv snd_t ge)
  qed
qed

end

lemma bits_shift:
  fixes x y :: nat
  shows "x * 2 ^ j AND y * 2 ^ j = (x AND y) * 2 ^ j" "x * 2 ^ j OR y * 2 ^ j = (x OR y) * 2 ^ j"
    "x * 2 ^ j XOR y * 2 ^ j = (x XOR y) * 2 ^ j"
  using push_bit_and [of j x y] push_bit_or [of j x y] push_bit_xor [of j x y] by (simp_all add: push_bit_eq_mult)

lemma bits_length:
  assumes "length s = length t"
  shows "length (UInt_BitAnd t s) = length t" "length (UInt_BitOr t s) = length t" "length (UInt_BitXor t s) = length t"
  using assms by (simp_all add: UInt_BitAnd_def UInt_BitOr_def UInt_BitXor_def)

interpretation bit_and: bit_operation UInt_BitAnd "(AND)"
  by unfold_locales (simp_all only: BitAnd_value bits_length bits_shift and.commute)

interpretation bit_or: bit_operation UInt_BitOr "(OR)"
  by unfold_locales (simp_all only: BitOr_value bits_length bits_shift or.commute)

interpretation bit_xor: bit_operation UInt_BitXor "(XOR)"
  by unfold_locales (simp_all only: BitXor_value bits_length bits_shift xor.commute)

text \<open>On natural numbers of at most as many bits as the mantissa has, the operations are exact.\<close>

lemma bit_operations_natural:
  assumes "standard a" "standard b" "same_type a b" "\<not> Big_IsNan a" "\<not> Big_IsNan b"
    "bval a = real x" "bval b = real y" "x < 2 ^ man_bits a" "y < 2 ^ man_bits a"
  shows "\<exists>z. Big_BitAnd a b = Some (0, z) \<and> standard z \<and> \<not> Big_IsNan z \<and> same_type z a \<and> bval z = real (x AND y)"
    "\<exists>z. Big_BitOr a b = Some (0, z) \<and> standard z \<and> \<not> Big_IsNan z \<and> same_type z a \<and> bval z = real (x OR y)"
    "\<exists>z. Big_BitXor a b = Some (0, z) \<and> standard z \<and> \<not> Big_IsNan z \<and> same_type z a \<and> bval z = real (x XOR y)"
proof -
  have z: "Big_IsZero a \<longleftrightarrow> x = 0" "Big_IsZero b \<longleftrightarrow> y = 0" "\<not> Big_IsSign a" "\<not> Big_IsSign b"
    using standard_zero_iff assms(1,2,6,7) bval_sign by simp_all
  note S = SetZero_value [OF standard_shape [OF assms(1)]]
  have t: "same_type a a" "same_type b a" "same_type (Big_SetZero a) a" using assms(3) by (simp_all add: same_type_def Big_SetZero_def)
  consider "x = 0 \<or> y = 0" | "0 < x" "0 < y" by linarith
  then have "(\<exists>z. Big_BitAnd a b = Some (0, z) \<and> standard z \<and> \<not> Big_IsNan z \<and> same_type z a \<and> bval z = real (x AND y)) \<and>
    (\<exists>z. Big_BitOr a b = Some (0, z) \<and> standard z \<and> \<not> Big_IsNan z \<and> same_type z a \<and> bval z = real (x OR y)) \<and>
    (\<exists>z. Big_BitXor a b = Some (0, z) \<and> standard z \<and> \<not> Big_IsNan z \<and> same_type z a \<and> bval z = real (x XOR y))"
  proof cases
    case 1
    then show ?thesis using assms z S t by (auto simp: Big_BitAnd_def Big_BitOr_def Big_BitXor_def)
  next
    case 2
    note N = assms(1-7) 2 assms(8,9)
    show ?thesis
      using bit_and.naturals [OF N, of "\<lambda>b. Some (0, Big_SetZero b)"] bit_or.naturals [OF N, of "\<lambda>b. Some (0, b)"]
        bit_xor.naturals [OF N, of "\<lambda>b. Some (0, b)"] assms(4,5) z 2
      by (simp only: Big_BitAnd_def Big_BitOr_def Big_BitXor_def if_False simp_thms less_imp_neq [symmetric] neq0_conv)
  qed
  then show "\<exists>z. Big_BitAnd a b = Some (0, z) \<and> standard z \<and> \<not> Big_IsNan z \<and> same_type z a \<and> bval z = real (x AND y)"
    "\<exists>z. Big_BitOr a b = Some (0, z) \<and> standard z \<and> \<not> Big_IsNan z \<and> same_type z a \<and> bval z = real (x OR y)"
    "\<exists>z. Big_BitXor a b = Some (0, z) \<and> standard z \<and> \<not> Big_IsNan z \<and> same_type z a \<and> bval z = real (x XOR y)"
    by blast+
qed

text \<open>
  Rounding to an integer adds one half, which is itself rounded: an odd integer that fills the
  mantissa becomes the next one, and the number below one half becomes one.
\<close>

lemma Round_samples:
  "Big_Round \<lparr>exponent = [0], mantissa = [2 ^ 63 + 1], info = 0\<rparr> = Some (0, \<lparr>exponent = [0], mantissa = [2 ^ 63 + 2], info = 0\<rparr>)"
  "Big_Round \<lparr>exponent = [- 65], mantissa = [- 1], info = 0\<rparr> = Some (0, \<lparr>exponent = [- 63], mantissa = [2 ^ 63], info = 0\<rparr>)"
  by code_simp+

end
