(* ===== verification/Big_Convert.thy ===== *)
theory Big_Convert
  imports Big_Integer "HOL-Library.Log_Nat"
begin

text \<open>
  Conversions between \<^verbatim>\<open>Big\<close> and integers, machine ones and those of \<^verbatim>\<open>UInt\<close> and \<^verbatim>\<open>Int\<close>, and
  between sizes of \<^verbatim>\<open>Big\<close> (\<^verbatim>\<open>ttmathbig.h\<close>), with the constructors and assignments that call them.
  To an integer the fraction is dropped.
\<close>

section \<open>From integers\<close>

definition Big_FromUInt :: "big \<Rightarrow> uint \<Rightarrow> (uint \<times> big) option" where
  "Big_FromUInt b value =
     (if value = 0 then Some (0, Big_SetZero b)
      else do {
        let man = length (mantissa b);
        let b = b\<lparr>info := 0, mantissa := replicate (man - 1) 0 @ [value],
                 exponent := Int_assign_sint (exponent b) (- of_nat (man - 1) * of_nat TTMATH_BITS_PER_UINT)\<rparr>;
        (_, b) \<leftarrow> Big_Standardizing b;
        Some (0, b)
      })"

definition Big_FromInt_uint :: "big \<Rightarrow> uint \<Rightarrow> (uint \<times> big) option" where
  "Big_FromInt_uint b value = Big_FromUInt b value"

definition Big_FromInt_sint :: "big \<Rightarrow> sint \<Rightarrow> (uint \<times> big) option" where
  "Big_FromInt_sint b value = do {
     let (value, is_sign) = (if value <s 0 then (- value, True) else (value, False));
     (_, b) \<leftarrow> Big_FromUInt b value;
     Some (0, if is_sign then Big_SetSign b else b)
   }"

definition Big_FromUInt_32 :: "big \<Rightarrow> uint32 \<Rightarrow> (uint \<times> big) option" where
  "Big_FromUInt_32 b value = Big_FromUInt b (ucast value)"

definition Big_FromInt_unsigned32 :: "big \<Rightarrow> uint32 \<Rightarrow> (uint \<times> big) option" where
  "Big_FromInt_unsigned32 b value = Big_FromUInt b (ucast value)"

definition Big_FromInt_32 :: "big \<Rightarrow> uint32 \<Rightarrow> (uint \<times> big) option" where
  "Big_FromInt_32 b value = Big_FromInt_sint b (scast value)"

text \<open>The highest words of a table, and zeros below them if it is shorter than the mantissa.\<close>

definition copy_highest :: "nat \<Rightarrow> utable \<Rightarrow> utable" where
  "copy_highest man table = replicate (man - length table) 0 @ drop (length table - man) table"

definition Big_FromUIntOrInt :: "big \<Rightarrow> utable \<Rightarrow> sint \<Rightarrow> uint \<times> big" where
  "Big_FromUIntOrInt b value compensation =
     (let man = length (mantissa b); int_size = length value;
          b = b\<lparr>exponent := Int_assign_sint (exponent b)
                  ((of_nat int_size - of_nat man) * of_nat TTMATH_BITS_PER_UINT - compensation),
                mantissa := copy_highest man value\<rparr>;
          (_, b) = Big_CorrectZero b
      in (0, b))"

definition Big_FromUInt_UInt :: "big \<Rightarrow> utable \<Rightarrow> (uint \<times> big) option" where
  "Big_FromUInt_UInt b value = do {
     let b = b\<lparr>info := 0\<rparr>;
     (compensation, value) \<leftarrow> UInt_CompensationToLeft value;
     Some (Big_FromUIntOrInt b value (of_nat compensation))
   }"

definition Big_FromInt_UInt :: "big \<Rightarrow> utable \<Rightarrow> (uint \<times> big) option" where
  "Big_FromInt_UInt b value = Big_FromUInt_UInt b value"

definition Big_FromInt_Int :: "big \<Rightarrow> utable \<Rightarrow> (uint \<times> big) option" where
  "Big_FromInt_Int b value = do {
     let b = b\<lparr>info := 0\<rparr>;
     let (value, is_sign) = (if Int_IsSign value then (snd (Int_ChangeSign value), True) else (value, False));
     (compensation, value) \<leftarrow> UInt_CompensationToLeft value;
     let (_, b) = Big_FromUIntOrInt b value (of_nat compensation);
     Some (0, if is_sign then Big_SetSign b else b)
   }"

definition Big_FromBig :: "big \<Rightarrow> big \<Rightarrow> (uint \<times> big) option" where
  "Big_FromBig b another =
     (let b = b\<lparr>info := info another\<rparr>
      in if Big_IsNan b then Some (1, b)
         else let (c, e) = Int_FromInt_Int (exponent b) (exponent another);
                  b = b\<lparr>exponent := e\<rparr>
              in if c \<noteq> 0 then Some (1, Big_SetNan b)
                 else do {
                   let man = length (mantissa b);
                   let another_man = length (mantissa another);
                   let b = b\<lparr>mantissa := copy_highest man (mantissa another)\<rparr>;
                   (c, e) \<leftarrow>
                     (if man > another_man
                      then Int_SubInt (exponent b) (of_nat ((man - another_man) * TTMATH_BITS_PER_UINT)) 0
                      else if man < another_man
                      then Int_AddInt (exponent b) (of_nat ((another_man - man) * TTMATH_BITS_PER_UINT)) 0
                      else Some (0, exponent b));
                   let (_, b) = Big_CorrectZero (b\<lparr>exponent := e\<rparr>);
                   Some (Big_CheckCarry b c)
                 })"

section \<open>To integers\<close>

definition Big_ToUIntOrInt :: "big \<Rightarrow> uint \<times> uint" where
  "Big_ToUIntOrInt b =
     (if Big_IsZero b then (0, 0)
      else let man = length (mantissa b);
               maxbit = - of_nat (man * TTMATH_BITS_PER_UINT)
           in if Int_greater (exponent b) (Int_new_sint (exponent b) (maxbit + of_nat TTMATH_BITS_PER_UINT)) then (1, 0)
              else if Int_less_equal (exponent b) (Int_new_sint (exponent b) maxbit) then (0, 0)
              else let how_many_bits = - Int_ToInt (exponent b)
                   in (0, drop_bit (unat how_many_bits mod TTMATH_BITS_PER_UINT) (mantissa b ! (man - 1))))"

definition Big_ToUInt_uint :: "big \<Rightarrow> uint \<times> uint" where
  "Big_ToUInt_uint b =
     (let (c, result) = Big_ToUIntOrInt b
      in (if c \<noteq> 0 then 1 else if Big_IsSign b then 1 else 0, result))"

definition Big_ToUInt :: "big \<Rightarrow> uint" where
  "Big_ToUInt b = snd (Big_ToUInt_uint b)"

definition Big_ToInt_sint :: "big \<Rightarrow> uint \<times> sint" where
  "Big_ToInt_sint b =
     (let (c, result) = Big_ToUIntOrInt b
      in if c \<noteq> 0 then (1, result)
         else let (mask, result) = (if Big_IsSign b then (TTMATH_UINT_MAX_VALUE, - result) else (0, result))
              in (if result AND TTMATH_UINT_HIGHEST_BIT = mask AND TTMATH_UINT_HIGHEST_BIT then 0 else 1, result))"

definition Big_ToInt :: "big \<Rightarrow> sint" where
  "Big_ToInt b = snd (Big_ToInt_sint b)"

definition Big_ToInt_uint :: "big \<Rightarrow> uint \<times> uint" where
  "Big_ToInt_uint b = Big_ToUInt_uint b"

definition Big_ToUInt_32 :: "big \<Rightarrow> uint \<times> uint32" where
  "Big_ToUInt_32 b =
     (let (c, result_uint) = Big_ToUInt_uint b; result = ucast result_uint
      in (if c \<noteq> 0 \<or> result_uint \<noteq> ucast result then 1 else 0, result))"

definition Big_ToInt_unsigned32 :: "big \<Rightarrow> uint \<times> uint32" where
  "Big_ToInt_unsigned32 b = Big_ToUInt_32 b"

definition Big_ToInt_32 :: "big \<Rightarrow> uint \<times> uint32" where
  "Big_ToInt_32 b =
     (let (c, result_sint) = Big_ToInt_sint b; result = ucast result_sint
      in (if c \<noteq> 0 \<or> result_sint \<noteq> scast result then 1 else 0, result))"

text \<open>
  Into a table: the words of the mantissa are copied, a write behind the end of the table being
  \<open>None\<close>.
\<close>

definition Big_ToUIntOrInt_UInt :: "big \<Rightarrow> utable \<Rightarrow> (uint \<times> utable) option" where
  "Big_ToUIntOrInt_UInt b result =
     (let result = UInt_SetZero result; int_size = length result
      in if Big_IsZero b then Some (0, result)
         else let man = length (mantissa b);
                  maxbit = - of_nat (man * TTMATH_BITS_PER_UINT)
              in if Int_greater (exponent b) (Int_new_sint (exponent b) (maxbit + of_nat (int_size * TTMATH_BITS_PER_UINT)))
                 then Some (1, result)
                 else if Int_less_equal (exponent b) (Int_new_sint (exponent b) maxbit) then Some (0, result)
                 else let how_many_bits = Int_ToInt (exponent b)
                      in if how_many_bits <s 0 then do {
                           let how_many_bits = unat (- how_many_bits);
                           let index = how_many_bits div TTMATH_BITS_PER_UINT;
                           (_, mantissa_temp) \<leftarrow> UInt_Rcr (mantissa b) (how_many_bits mod TTMATH_BITS_PER_UINT) 0;
                           if man - index \<le> int_size
                           then Some (0, drop index mantissa_temp @ drop (man - index) result)
                           else None
                         } else do {
                           let how_many_bits = unat how_many_bits;
                           let index = how_many_bits div TTMATH_BITS_PER_UINT;
                           let result = (if index + (man - 1) < int_size
                             then take index result @ mantissa b @ drop (index + man) result else result);
                           (_, result) \<leftarrow> UInt_Rcl result (how_many_bits mod TTMATH_BITS_PER_UINT) 0;
                           Some (0, result)
                         })"

definition Big_ToUInt_UInt :: "big \<Rightarrow> utable \<Rightarrow> (uint \<times> utable) option" where
  "Big_ToUInt_UInt b result = do {
     (c, result) \<leftarrow> Big_ToUIntOrInt_UInt b result;
     Some (if c \<noteq> 0 then 1 else if Big_IsSign b then 1 else 0, result)
   }"

definition Big_ToInt_UInt :: "big \<Rightarrow> utable \<Rightarrow> (uint \<times> utable) option" where
  "Big_ToInt_UInt b result = Big_ToUInt_UInt b result"

definition Big_ToInt_Int :: "big \<Rightarrow> utable \<Rightarrow> (uint \<times> utable) option" where
  "Big_ToInt_Int b result = do {
     (c, result) \<leftarrow> Big_ToUIntOrInt_UInt b result;
     if c \<noteq> 0 then Some (1, result)
     else let (mask, result) = (if Big_IsSign b then (TTMATH_UINT_MAX_VALUE, snd (Int_ChangeSign result)) else (0, result))
          in Some (if result ! (length result - 1) AND TTMATH_UINT_HIGHEST_BIT = mask AND TTMATH_UINT_HIGHEST_BIT then 0 else 1, result)
   }"

section \<open>Constructors and assignments\<close>

definition Big_assign :: "big \<Rightarrow> big \<Rightarrow> big" where
  "Big_assign b value = b\<lparr>info := info value, exponent := Int_assign (exponent b) (exponent value),
     mantissa := UInt_assign (mantissa b) (mantissa value)\<rparr>"

definition Big_new :: "big \<Rightarrow> big" where
  "Big_new b = b\<lparr>info := TTMATH_BIG_NAN\<rparr>"

definition Big_new_copy :: "big \<Rightarrow> big \<Rightarrow> big" where
  "Big_new_copy b value = Big_assign b value"

definition Big_assign_sint :: "big \<Rightarrow> sint \<Rightarrow> big option" where
  "Big_assign_sint b value = map_option snd (Big_FromInt_sint b value)"

definition Big_assign_uint :: "big \<Rightarrow> uint \<Rightarrow> big option" where
  "Big_assign_uint b value = map_option snd (Big_FromUInt b value)"

definition Big_new_sint :: "big \<Rightarrow> sint \<Rightarrow> big option" where
  "Big_new_sint b value = map_option snd (Big_FromInt_sint b value)"

definition Big_new_uint :: "big \<Rightarrow> uint \<Rightarrow> big option" where
  "Big_new_uint b value = map_option snd (Big_FromUInt b value)"

definition Big_assign_unsigned32 :: "big \<Rightarrow> uint32 \<Rightarrow> big option" where
  "Big_assign_unsigned32 b value = map_option snd (Big_FromUInt_32 b value)"

definition Big_new_unsigned32 :: "big \<Rightarrow> uint32 \<Rightarrow> big option" where
  "Big_new_unsigned32 b value = map_option snd (Big_FromUInt_32 b value)"

definition Big_assign_int32 :: "big \<Rightarrow> uint32 \<Rightarrow> big option" where
  "Big_assign_int32 b value = map_option snd (Big_FromInt_32 b value)"

definition Big_new_int32 :: "big \<Rightarrow> uint32 \<Rightarrow> big option" where
  "Big_new_int32 b value = map_option snd (Big_FromInt_32 b value)"

definition Big_assign_Int :: "big \<Rightarrow> utable \<Rightarrow> big option" where
  "Big_assign_Int b value = map_option snd (Big_FromInt_Int b value)"

definition Big_new_Int :: "big \<Rightarrow> utable \<Rightarrow> big option" where
  "Big_new_Int b value = map_option snd (Big_FromInt_Int b value)"

definition Big_assign_UInt :: "big \<Rightarrow> utable \<Rightarrow> big option" where
  "Big_assign_UInt b value = map_option snd (Big_FromUInt_UInt b value)"

definition Big_new_UInt :: "big \<Rightarrow> utable \<Rightarrow> big option" where
  "Big_new_UInt b value = map_option snd (Big_FromUInt_UInt b value)"

definition Big_assign_Big :: "big \<Rightarrow> big \<Rightarrow> big option" where
  "Big_assign_Big b value = map_option snd (Big_FromBig b value)"

definition Big_new_Big :: "big \<Rightarrow> big \<Rightarrow> big option" where
  "Big_new_Big b value = map_option snd (Big_FromBig b value)"

section \<open>Values of converted integers\<close>

text \<open>An exponent that is a small machine integer.\<close>

lemma assign_sint_small:
  assumes "t \<noteq> []" "\<bar>x\<bar> < 2 ^ 62"
  shows "ival (Int_assign_sint t (of_int x)) = x" "length (Int_assign_sint t (of_int x)) = length t"
  using assign_sint_ival [OF assms(1), of "of_int x"] sint_of_int_small [of x] assms(2) by (simp_all add: abs_less_iff)

lemma new_sint_small:
  assumes "t \<noteq> []" "\<bar>x\<bar> < 2 ^ 62"
  shows "ival (Int_new_sint t (of_int x)) = x" "length (Int_new_sint t (of_int x)) = length t"
  using assign_sint_small [OF assms] by (simp_all add: Int_new_sint_def Int_assign_sint_def)

lemma FromUInt_value:
  assumes "big_shape b"
  shows "\<exists>z. Big_FromUInt b v = Some (0, z) \<and> standard z \<and> \<not> Big_IsNan z \<and> same_type z b \<and> bval z = real (unat v)"
proof (cases "v = 0")
  case True
  have "same_type (Big_SetZero b) b" by (simp add: same_type_def Big_SetZero_def)
  then show ?thesis using True SetZero_value [OF assms] by (simp add: Big_FromUInt_def)
next
  case False
  let ?n = "length (mantissa b)" and ?x = "length (exponent b)"
  have n: "0 < ?n" using shape_Nil(2) [OF assms] by simp
  have bits: "man_bits b < 2 ^ 56" by (rule shape_bits [OF assms])
  define e where "e = - int (64 * (?n - 1))"
  have small: "\<bar>e\<bar> < 2 ^ 62" "\<bar>e - int (man_bits b)\<bar> < 2 ^ 62" using bits n by (simp_all add: e_def)
  have w: "- of_nat (?n - 1) * of_nat TTMATH_BITS_PER_UINT = (of_int e :: uint)" by (simp add: e_def TTMATH_BITS_PER_UINT_def)
  note E = assign_sint_small [OF shape_Nil(1) [OF assms] small(1)]
  let ?b = "b\<lparr>info := 0, mantissa := replicate (?n - 1) 0 @ [v], exponent := Int_assign_sint (exponent b) (of_int e)\<rparr>"
  have t: "same_type ?b b" using n E(2) by (simp add: same_type_def)
  then have sh: "big_shape ?b" using shape_same_type assms by simp
  have "uval (replicate (?n - 1) 0 @ [v]) = W ^ (?n - 1) * unat v" by (simp add: uval_append)
  then have "bval ?b = real (unat v) * (real (W ^ (?n - 1)) * 2 powi e)"
    using E(1) by (simp add: bval_def bsign_def flags_iff)
  moreover have "real (W ^ (?n - 1)) * 2 powi e = 1"
    unfolding e_def W_power using powi_add_2 [of "int (64 * (?n - 1))" "- int (64 * (?n - 1))"] by (simp only: powi_nat_2 of_nat_power of_nat_numeral) simp
  ultimately have v: "bval ?b = real (unat v)" by simp
  obtain c z where z: "Big_Standardizing ?b = Some (c, z)" "length (mantissa z) = length (mantissa ?b)"
    "length (exponent z) = length (exponent ?b)" "Big_IsNan z = Big_IsNan ?b" "c = 0 \<longrightarrow> standard z \<and> bval z = bval ?b"
    using Standardizing_value [OF sh] by blast
  have "fits ?x (e - int (man_bits b))" using small(2) by (rule fits_small [OF shape_Nil(1) [OF assms]])
  then have "fits (length (exponent ?b)) (ival (exponent ?b) - int (man_bits ?b))" using E n by simp
  then have "c = 0" by (rule Standardizing_in_range [OF sh _ z(1)])
  moreover have "same_type z b" using z(2,3) t by (simp add: same_type_def)
  moreover have "\<not> Big_IsNan z" using z(4) by (simp add: flags_iff)
  ultimately show ?thesis using z(1,5) v False w by (simp add: Big_FromUInt_def Let_def)
qed

lemma FromInt_sint_value:
  assumes "big_shape b"
  shows "\<exists>z. Big_FromInt_sint b v = Some (0, z) \<and> standard z \<and> \<not> Big_IsNan z \<and> same_type z b \<and> bval z = real_of_int (sint v)"
proof -
  let ?v = "if v <s 0 then - v else v"
  obtain z where z: "Big_FromUInt b ?v = Some (0, z)" "standard z" "\<not> Big_IsNan z" "same_type z b" "bval z = real (unat ?v)"
    using FromUInt_value [OF assms, of ?v] by blast
  have u: "real (unat ?v) = (if v <s 0 then - 1 else 1) * real_of_int (sint v)" by (rule sint_magnitude)
  show ?thesis
  proof (cases "v <s 0")
    case False
    then show ?thesis using z u by (simp add: Big_FromInt_sint_def)
  next
    case True
    then have "sint v < 0" by (simp only: sint_unat(1))
    then have "bval z \<noteq> 0" unfolding z(5) u using True by (simp only: if_True mult_eq_0_iff of_int_eq_0_iff) simp
    then have "\<not> Big_IsZero z" using standard_zero_iff [OF z(2)] by simp
    note S = signed_standard [OF z(2) this, of False]
    have "bval z = - real_of_int (sint v)" unfolding z(5) u using True by (simp only: if_True mult_minus1)
    moreover have "0 \<le> bval z" unfolding z(5) by (rule of_nat_0_le_iff)
    ultimately have "bval (Big_SetSign z) = real_of_int (sint v)" using S(2) by simp
    moreover have "same_type (Big_SetSign z) b" using z(4) by (simp add: same_type_def)
    ultimately show ?thesis using True z S by (simp add: Big_FromInt_sint_def)
  qed
qed

section \<open>Values as integers\<close>

text \<open>The comparison of the exponent with a constant tells whether the value is below a power of two.\<close>

lemma at_least_power_iff:
  assumes "standard b" "\<not> Big_IsZero b"
  shows "n - int (man_bits b) < ival (exponent b) \<longleftrightarrow> 2 powi n \<le> \<bar>bval b\<bar>"
proof -
  let ?e = "ival (exponent b)" and ?u = "real (uval (mantissa b))" and ?B = "man_bits b"
  note M = standard_mantissa [OF assms]
  have B: "0 < ?B" using shape_Nil(2) [OF standard_shape [OF assms(1)]] by simp
  have u: "2 ^ (?B - 1) \<le> ?u" "?u < 2 ^ ?B"
    using M by (metis of_nat_le_iff of_nat_numeral of_nat_power, metis of_nat_less_iff of_nat_numeral of_nat_power)
  show ?thesis
  proof (cases "n - int ?B < ?e")
    case True
    have "n = int (?B - 1) + (n - int ?B + 1)" using B by linarith
    then have "(2 :: real) powi n = 2 powi (int (?B - 1) + (n - int ?B + 1))" by presburger
    also have "\<dots> = 2 ^ (?B - 1) * 2 powi (n - int ?B + 1)" by (simp only: powi_add_2 powi_nat_2)
    also have "\<dots> \<le> ?u * 2 powi ?e"
      using u(1) True by (intro mult_mono power_int_increasing) simp_all
    finally show ?thesis using True by (simp add: abs_bval)
  next
    case False
    have "?u * 2 powi ?e < 2 ^ ?B * 2 powi ?e" using u(2) by simp
    also have "\<dots> \<le> 2 ^ ?B * 2 powi (n - int ?B)" using False by (intro mult_left_mono power_int_increasing) simp_all
    also have "\<dots> = 2 powi (int ?B + (n - int ?B))" by (simp only: powi_add_2 powi_nat_2)
    also have "\<dots> = 2 powi n" by simp
    finally show ?thesis using False by (simp add: abs_bval)
  qed
qed

lemma too_big_iff:
  assumes "standard b" "\<not> Big_IsZero b"
  shows "int n - int (man_bits b) < ival (exponent b) \<longleftrightarrow> 2 ^ n \<le> \<bar>bval b\<bar>"
  using at_least_power_iff [OF assms, of "int n"] by (simp only: powi_nat_2)

lemma exponent_limit_tests:
  assumes "big_shape b" "n < 2 ^ 56"
  shows "Int_greater (exponent b) (Int_new_sint (exponent b) (- of_nat (man_bits b) + of_nat n)) \<longleftrightarrow>
      int n - int (man_bits b) < ival (exponent b)"
    and "Int_less_equal (exponent b) (Int_new_sint (exponent b) (- of_nat (man_bits b))) \<longleftrightarrow> ival (exponent b) \<le> - int (man_bits b)"
proof -
  have bits: "man_bits b < 2 ^ 56" by (rule shape_bits [OF assms(1)])
  note E = shape_Nil(1) [OF assms(1)]
  have C: "Int_greater (exponent b) (Int_new_sint (exponent b) (of_int x)) \<longleftrightarrow> x < ival (exponent b)"
    "Int_less_equal (exponent b) (Int_new_sint (exponent b) (of_int x)) \<longleftrightarrow> ival (exponent b) \<le> x" if "\<bar>x\<bar> < 2 ^ 62" for x
    using Int_comparison [OF new_sint_small(2) [OF E that] E] new_sint_small(1) [OF E that] by simp_all
  have "\<bar>int n - int (man_bits b)\<bar> < 2 ^ 62" "\<bar>- int (man_bits b)\<bar> < 2 ^ 62" using bits assms(2) by simp_all
  from C(1) [OF this(1)] C(2) [OF this(2)]
  show "Int_greater (exponent b) (Int_new_sint (exponent b) (- of_nat (man_bits b) + of_nat n)) \<longleftrightarrow>
      int n - int (man_bits b) < ival (exponent b)"
    "Int_less_equal (exponent b) (Int_new_sint (exponent b) (- of_nat (man_bits b))) \<longleftrightarrow> ival (exponent b) \<le> - int (man_bits b)"
    by simp_all
qed

lemma exponent_ToInt: "big_shape b \<Longrightarrow> Int_ToInt (exponent b) = of_int (ival (exponent b))"
  using first_word(2) shape_Nil(1) by (simp add: Int_ToInt_def)

lemma uval_top: "t \<noteq> [] \<Longrightarrow> uval t div W ^ (length t - 1) = unat (t ! (length t - 1))"
proof -
  assume t: "t \<noteq> []"
  then have "uval t < W * W ^ (length t - 1)" using uval_less [of t] by (cases t) simp_all
  then have "uval t div W ^ (length t - 1) < W" by (simp add: less_mult_imp_div_less)
  then show ?thesis using t by (simp add: uval_nth)
qed

lemma ToUIntOrInt_value:
  assumes "standard b"
  shows "Big_ToUIntOrInt b = (of_bool (2 ^ 64 \<le> \<bar>bval b\<bar>), if 2 ^ 64 \<le> \<bar>bval b\<bar> then 0 else of_nat (nat \<lfloor>\<bar>bval b\<bar>\<rfloor>))"
proof (cases "Big_IsZero b")
  case True
  then show ?thesis using standard_zero_iff [OF assms] by (simp add: Big_ToUIntOrInt_def)
next
  case False
  let ?e = "ival (exponent b)" and ?B = "man_bits b" and ?n = "length (mantissa b)" and ?u = "uval (mantissa b)"
  note sh = standard_shape [OF assms]
  note T = exponent_limit_tests [OF sh, of 64] and I = too_big_iff [OF assms False, of 64]
  have def: "Big_ToUIntOrInt b = (if 64 - int ?B < ?e then (1, 0) else if ?e \<le> - int ?B then (0, 0)
     else (0, drop_bit (unat (- Int_ToInt (exponent b)) mod 64) (mantissa b ! (?n - 1))))"
    using T False by (simp add: Big_ToUIntOrInt_def TTMATH_BITS_PER_UINT_def mult.commute Let_def)
  consider "64 - int ?B < ?e" | "?e \<le> - int ?B" | "- int ?B < ?e" "?e \<le> 64 - int ?B" by linarith
  then show ?thesis
  proof cases
    case 1
    then show ?thesis using I by (simp add: def)
  next
    case 2
    have "\<lfloor>\<bar>bval b\<bar>\<rfloor> = 0" using abs_bval_small [OF 2] by (simp add: floor_eq_iff)
    then show ?thesis using 2 I by (simp add: def)
  next
    case 3
    define h where "h = nat (- ?e)"
    have n: "0 < ?n" using shape_Nil(2) [OF sh] by simp
    have h: "?e = - int h" "?B - 64 \<le> h" "h < ?B" using 3 n unfolding h_def by linarith+
    define r where "r = h - (?B - 64)"
    have r: "h = 64 * (?n - 1) + r" "r < 64" using h n by (simp_all add: r_def diff_mult_distrib2)
    have "h < 2 ^ 64" using shape_bits [OF sh] h(3) by simp
    then have "unat (- Int_ToInt (exponent b)) = h"
      unfolding exponent_ToInt [OF sh] h(1) by (simp add: unat_of_nat_small W_def)
    moreover have "h mod 64 = r" using r by simp
    moreover have "drop_bit r (mantissa b ! (?n - 1)) = of_nat (?u div 2 ^ h)"
    proof -
      have "?u div 2 ^ (64 * (?n - 1)) = unat (mantissa b ! (?n - 1))"
        using uval_top [OF shape_Nil(2) [OF sh]] by (simp only: W_power)
      then have "?u div 2 ^ h = unat (mantissa b ! (?n - 1)) div 2 ^ r" by (simp add: r(1) power_add div_mult2_eq)
      then show ?thesis by (simp flip: drop_bit_eq_div unat_drop_bit_eq)
    qed
    ultimately show ?thesis
      using 3 I unfolding def abs_bval_fraction [OF h(1)] floor_fraction by simp
  qed
qed

lemma floor_div_words:
  assumes "mantissa b \<noteq> []" "h < man_bits b" "man_bits b \<le> h + 64 * n"
  shows "\<exists>t. UInt_Rcr (mantissa b) (h mod 64) 0 = Some t \<and> length (mantissa b) - h div 64 \<le> n \<and>
    drop (h div 64) (snd t) @ drop (length (mantissa b) - h div 64) (replicate n 0) = utab n (uval (mantissa b) div 2 ^ h)"
proof -
  let ?m = "mantissa b" and ?u = "uval (mantissa b)" and ?l = "length (mantissa b)" and ?i = "h div 64" and ?r = "h mod 64"
  have h: "h = 64 * ?i + ?r" "?r < 64" by simp_all
  have p: "(2 :: nat) ^ h = 2 ^ ?r * 2 ^ (64 * ?i)" unfolding power_add [symmetric] by simp
  have i: "?i < ?l" "?l - ?i \<le> n" using assms(2,3) h by linarith+
  let ?t = "utab ?l (?u div 2 ^ ?r)"
  have s: "shr_value ?m ?r 0 = ?u div 2 ^ ?r" by (simp add: shr_value_def fill_bits_def)
  have "?u div 2 ^ ?r < W ^ ?l" using uval_less [of ?m] by (meson div_le_dividend le_less_trans)
  then have "uval (drop ?i ?t) = ?u div 2 ^ ?r div W ^ ?i" by (simp add: uval_drop uval_utab_exact)
  also have "\<dots> = ?u div 2 ^ h" unfolding W_power p div_mult2_eq ..
  finally have v: "uval (drop ?i ?t) = ?u div 2 ^ h" .
  have "drop ?i ?t @ drop (?l - ?i) (replicate n 0) = utab n (?u div 2 ^ h)"
  proof (rule utab_eqI)
    show len: "length (drop ?i ?t @ drop (?l - ?i) (replicate n 0)) = n" using i by simp
    have "uval (drop ?i ?t @ drop (?l - ?i) (replicate n 0)) = ?u div 2 ^ h" using v by (simp add: uval_append)
    then show "uval (drop ?i ?t @ drop (?l - ?i) (replicate n 0)) = ?u div 2 ^ h mod W ^ n"
      using uval_less [of "drop ?i ?t @ drop (?l - ?i) (replicate n 0)"] len by simp
  qed
  then show ?thesis using Rcr_result [OF assms(1), of ?r 0] i(2) s by auto
qed

lemma times_power_words:
  assumes "man_bits b + h \<le> 64 * n" "mantissa b \<noteq> []"
  shows "h div 64 + (length (mantissa b) - 1) < n \<and> (\<exists>c. UInt_Rcl (take (h div 64) (replicate n 0) @ mantissa b @
    drop (h div 64 + length (mantissa b)) (replicate n 0)) (h mod 64) 0 = Some (c, utab n (uval (mantissa b) * 2 ^ h)))"
proof -
  let ?m = "mantissa b" and ?u = "uval (mantissa b)" and ?l = "length (mantissa b)" and ?i = "h div 64" and ?r = "h mod 64"
  have h: "h = 64 * ?i + ?r" "?r < 64" by simp_all
  have p: "(2 :: nat) ^ h = 2 ^ ?r * 2 ^ (64 * ?i)" unfolding power_add [symmetric] by simp
  have i: "?i + ?l \<le> n" "0 < ?l" using assms h by (linarith, simp)
  let ?t = "take ?i (replicate n 0) @ ?m @ drop (?i + ?l) (replicate n 0)"
  have len: "length ?t = n" using i by simp
  have "uval ?t = W ^ ?i * ?u" using i by (simp add: uval_append)
  then have "shl_value ?t ?r 0 = ?u * 2 ^ h"
    unfolding shl_value_def W_power p by (simp add: fill_bits_def ac_simps)
  moreover have "?t \<noteq> []" using assms(2) by simp
  ultimately have "\<exists>c. UInt_Rcl ?t ?r 0 = Some (c, utab n (?u * 2 ^ h))" using Rcl_result [of ?t ?r 0] len by simp
  moreover have "?i + (?l - 1) < n" using i by linarith
  ultimately show ?thesis by blast
qed

lemma ToUIntOrInt_UInt_value:
  assumes "standard b" "length t = n" "0 < n" "n < man_limit"
  shows "Big_ToUIntOrInt_UInt b t = Some (of_bool (2 ^ (64 * n) \<le> \<bar>bval b\<bar>),
    utab n (if 2 ^ (64 * n) \<le> \<bar>bval b\<bar> then 0 else nat \<lfloor>\<bar>bval b\<bar>\<rfloor>))"
proof (cases "Big_IsZero b")
  case True
  then have "bval b = 0" using standard_zero_iff [OF assms(1)] by simp
  then have "\<not> 2 ^ (64 * n) \<le> \<bar>bval b\<bar>" "nat \<lfloor>\<bar>bval b\<bar>\<rfloor> = 0" by (simp_all add: not_le)
  with True show ?thesis using assms(2) by (simp add: Big_ToUIntOrInt_UInt_def Let_def)
next
  case False
  let ?e = "ival (exponent b)" and ?B = "man_bits b" and ?u = "uval (mantissa b)"
  note sh = standard_shape [OF assms(1)]
  have n: "64 * n < 2 ^ 56" using assms(4) by (simp add: man_limit_def)
  note T = exponent_limit_tests [OF sh n] and I = too_big_iff [OF assms(1) False, of "64 * n"]
  have w: "Int_ToInt (exponent b) = of_int ?e" by (rule exponent_ToInt [OF sh])
  have B: "0 < ?B" using shape_Nil(2) [OF sh] by simp
  consider "int (64 * n) - int ?B < ?e" | "?e \<le> - int ?B" "?e \<le> int (64 * n) - int ?B"
    | (fraction) h where "?e = - int h" "0 < h" "h < ?B" "?B \<le> h + 64 * n"
    | (whole) h where "?e = int h" "?B + h \<le> 64 * n"
  proof -
    have "(\<exists>h. ?e = - int h \<and> 0 < h \<and> h < ?B \<and> ?B \<le> h + 64 * n) \<or> (\<exists>h. ?e = int h \<and> ?B + h \<le> 64 * n)"
      if "?e \<le> int (64 * n) - int ?B" "- int ?B < ?e"
    proof (cases "?e < 0")
      case True
      then show ?thesis using that by (intro disjI1 exI [of _ "nat (- ?e)"] conjI) linarith+
    next
      case False
      then show ?thesis using that by (intro disjI2 exI [of _ "nat ?e"] conjI) linarith+
    qed
    then show ?thesis using that by (meson not_le)
  qed
  then show ?thesis
  proof cases
    case 1
    then show ?thesis
      using I False T assms(2) by (simp add: Big_ToUIntOrInt_UInt_def Let_def TTMATH_BITS_PER_UINT_def mult.commute)
  next
    case 2
    have "\<lfloor>\<bar>bval b\<bar>\<rfloor> = 0" using abs_bval_small [OF 2(1)] by (simp add: floor_eq_iff)
    then show ?thesis
      using I 2 False T assms(2) by (simp add: Big_ToUIntOrInt_UInt_def Let_def TTMATH_BITS_PER_UINT_def mult.commute)
  next
    case fraction
    have hs: "h < 2 ^ 62" using shape_bits [OF sh] fraction(3) by simp
    have "sint (Int_ToInt (exponent b)) < 0" unfolding w fraction(1) using hs fraction(2) by (subst sint_of_int_small) simp_all
    moreover have "unat (- Int_ToInt (exponent b)) = h" unfolding w fraction(1) using hs by (simp add: unat_of_nat_small W_def)
    moreover have "\<lfloor>\<bar>bval b\<bar>\<rfloor> = int (?u div 2 ^ h)" unfolding abs_bval_fraction [OF fraction(1)] by (rule floor_fraction)
    ultimately show ?thesis
      using I fraction False T assms(2) floor_div_words [OF shape_Nil(2) [OF sh] fraction(3,4)]
      by (auto simp: Big_ToUIntOrInt_UInt_def Let_def TTMATH_BITS_PER_UINT_def mult.commute word_sless_alt)
  next
    case whole
    have hs: "h < 2 ^ 62" using n whole(2) by simp
    have "\<not> sint (Int_ToInt (exponent b)) < 0" unfolding w whole(1) using hs by (subst sint_of_int_small) simp_all
    moreover have "unat (Int_ToInt (exponent b)) = h" unfolding w whole(1) using hs by (simp add: unat_of_nat_small W_def)
    moreover have "nat \<lfloor>\<bar>bval b\<bar>\<rfloor> = ?u * 2 ^ h" using abs_bval_integer [of b] whole(1) by (simp only: floor_of_nat nat_int of_nat_0_le_iff)
    moreover have "\<not> ?e \<le> - int ?B" using whole(1) B by linarith
    ultimately show ?thesis
      using I whole False T assms(2) times_power_words [OF whole(2) shape_Nil(2) [OF sh]]
      by (auto simp: Big_ToUIntOrInt_UInt_def Let_def TTMATH_BITS_PER_UINT_def mult.commute word_sless_alt)
  qed
qed

section \<open>Signed results\<close>

text \<open>The value without its fraction.\<close>

definition truncated :: "real \<Rightarrow> int" where
  "truncated x = (if x < 0 then - \<lfloor>\<bar>x\<bar>\<rfloor> else \<lfloor>\<bar>x\<bar>\<rfloor>)"

text \<open>
  The carry of the conversions to signed integers: a number that does not fit, but also a number
  between minus one and zero, whose result zero has not the sign of the number.
\<close>

definition signed_carry :: "nat \<Rightarrow> real \<Rightarrow> bool" where
  "signed_carry n x \<longleftrightarrow> \<not> fits n (truncated x) \<or> - 1 < x \<and> x < 0"

lemma sign_of_itab:
  assumes "0 < n" "0 \<le> y" "y < int (W ^ n)"
  shows "(ival (itab n (if s then - y else y)) < 0) = s \<longleftrightarrow> fits n (if s then - y else y) \<and> \<not> (s \<and> y = 0)" (is "(ival (itab n ?x) < 0) = s \<longleftrightarrow> _")
proof (cases "fits n ?x")
  case True
  then show ?thesis using assms by (auto simp: ival_itab)
next
  case False
  have "uval (itab n ?x) = nat (if s then int (W ^ n) - y else y)"
  proof -
    have "?x mod int (W ^ n) = (if s then int (W ^ n) - y else y)"
    proof (cases s)
      case True
      have "0 < y" using False True assms(2) by (cases "y = 0") (auto simp: fits_def)
      then have "(- y + int (W ^ n)) mod int (W ^ n) = - y + int (W ^ n)" using assms(3) by (intro mod_pos_pos_trivial) linarith+
      then show ?thesis using True by simp
    qed (use assms in simp)
    then show ?thesis using uval_itab [of n ?x] by (metis nat_int)
  qed
  then show ?thesis
    using False assms by (auto simp: ival_def fits_def split: if_splits simp del: of_nat_power)
qed

lemma truncated_bval:
  assumes "standard b"
  shows "truncated (bval b) = (if Big_IsSign b then - \<lfloor>\<bar>bval b\<bar>\<rfloor> else \<lfloor>\<bar>bval b\<bar>\<rfloor>)"
    "signed_carry n (bval b) \<longleftrightarrow> \<not> fits n (truncated (bval b)) \<or> Big_IsSign b \<and> \<lfloor>\<bar>bval b\<bar>\<rfloor> = 0"
  using bval_sign [OF assms] by (auto simp: truncated_def signed_carry_def floor_eq_iff)

lemma too_big_not_fits:
  assumes "2 ^ (64 * n) \<le> \<bar>x\<bar>"
  shows "\<not> fits n (truncated x)"
proof -
  have "2 ^ (64 * n) \<le> \<lfloor>\<bar>x\<bar>\<rfloor>" using assms by (simp add: le_floor_iff)
  then have "int (W ^ n) \<le> \<bar>truncated x\<bar>" by (auto simp: truncated_def W_power)
  moreover have "0 < int (W ^ n)" by simp
  ultimately show ?thesis unfolding fits_def by linarith
qed

lemma floor_below:
  assumes "\<not> 2 ^ (64 * n) \<le> \<bar>x\<bar>"
  shows "\<lfloor>\<bar>x\<bar>\<rfloor> < int (W ^ n)" "0 \<le> \<lfloor>\<bar>x\<bar>\<rfloor>"
  using assms by (simp_all add: floor_less_iff W_power)

lemma top_bit_mask:
  assumes "r \<noteq> []"
  shows "r ! (length r - 1) AND TTMATH_UINT_HIGHEST_BIT = (if s then TTMATH_UINT_MAX_VALUE else 0) AND TTMATH_UINT_HIGHEST_BIT
    \<longleftrightarrow> (ival r < 0) = s"
proof -
  have h: "TTMATH_UINT_HIGHEST_BIT \<noteq> 0" by (simp add: TTMATH_UINT_HIGHEST_BIT_def)
  have "r ! (length r - 1) AND TTMATH_UINT_HIGHEST_BIT = (if ival r < 0 then TTMATH_UINT_HIGHEST_BIT else 0)"
    using top_bit_iff [OF assms] and_highest_bit_value [of "r ! (length r - 1)"] by presburger
  then show ?thesis using h by (simp add: max_value_mask)
qed

lemma ToInt_Int_value:
  assumes "standard b" "length t = n" "0 < n" "n < man_limit"
  shows "Big_ToInt_Int b t = Some (of_bool (signed_carry n (bval b)),
    itab n (if 2 ^ (64 * n) \<le> \<bar>bval b\<bar> then 0 else truncated (bval b)))"
proof (cases "2 ^ (64 * n) \<le> \<bar>bval b\<bar>")
  case True
  then have "signed_carry n (bval b)" using too_big_not_fits by (simp add: signed_carry_def)
  then show ?thesis
    using True ToUIntOrInt_UInt_value [OF assms] utab_itab [of n 0] by (simp add: Big_ToInt_Int_def)
next
  case False
  let ?y = "\<lfloor>\<bar>bval b\<bar>\<rfloor>"
  note y = floor_below [OF False] and T = truncated_bval [OF assms(1)]
  let ?t = "utab n (nat ?y)" and ?r = "itab n (truncated (bval b))"
  have u: "?t = itab n ?y" using y by (simp add: utab_itab)
  have "?t \<noteq> []" using assms(3) by simp
  then have "snd (Int_ChangeSign ?t) = itab n (- ival ?t)" by (simp add: ChangeSign_result)
  also have "\<dots> = itab n (- ?y)"
  proof (rule itab_cong)
    have "ival ?t mod int (W ^ n) = ?y mod int (W ^ n)" using ival_cong_uval [of ?t] uval_itab [of n ?y] by (simp add: u)
    then show "- ival ?t mod int (W ^ n) = - ?y mod int (W ^ n)" by (metis mod_minus_eq)
  qed
  finally have c: "(if Big_IsSign b then snd (Int_ChangeSign ?t) else ?t) = ?r" using u T(1) by simp
  have "(?r ! (n - 1) AND TTMATH_UINT_HIGHEST_BIT =
      (if Big_IsSign b then TTMATH_UINT_MAX_VALUE else 0) AND TTMATH_UINT_HIGHEST_BIT) \<longleftrightarrow> \<not> signed_carry n (bval b)"
    using top_bit_mask [of ?r "Big_IsSign b"] sign_of_itab [OF assms(3) y(2,1), of "Big_IsSign b"] T assms(3) by simp
  then show ?thesis
    using False ToUIntOrInt_UInt_value [OF assms] c by (auto simp: Big_ToInt_Int_def Let_def)
qed

lemma ToInt_sint_value:
  assumes "standard b"
  shows "Big_ToInt_sint b = (of_bool (signed_carry 1 (bval b)),
    if 2 ^ 64 \<le> \<bar>bval b\<bar> then 0 else of_int (truncated (bval b)))"
proof (cases "2 ^ 64 \<le> \<bar>bval b\<bar>")
  case True
  then have "signed_carry 1 (bval b)" using too_big_not_fits [of 1] by (simp add: signed_carry_def)
  then show ?thesis using True ToUIntOrInt_value [OF assms] by (simp add: Big_ToInt_sint_def)
next
  case False
  let ?y = "\<lfloor>\<bar>bval b\<bar>\<rfloor>" and ?r = "of_int (truncated (bval b)) :: uint"
  have F: "\<not> 2 ^ (64 * 1) \<le> \<bar>bval b\<bar>" using False by simp
  note y = floor_below [OF F] and T = truncated_bval [OF assms]
  have u: "of_nat (nat ?y) = (of_int ?y :: uint)" using y(2) by simp
  then have c: "(if Big_IsSign b then - of_nat (nat ?y) else of_nat (nat ?y)) = ?r" using T(1) by simp
  have "itab 1 (truncated (bval b)) = [?r]"
  proof (rule itab_eqI [symmetric])
    show "int (uval [?r]) = truncated (bval b) mod int (W ^ 1)" by (simp add: W_def unsigned_of_int take_bit_eq_mod)
  qed simp
  then have "(?r AND TTMATH_UINT_HIGHEST_BIT =
      (if Big_IsSign b then TTMATH_UINT_MAX_VALUE else 0) AND TTMATH_UINT_HIGHEST_BIT) \<longleftrightarrow> \<not> signed_carry 1 (bval b)"
    using top_bit_mask [of "[?r]" "Big_IsSign b"] sign_of_itab [OF zero_less_one y(2,1), of "Big_IsSign b"] T by simp
  then show ?thesis
    using False ToUIntOrInt_value [OF assms] c by (auto simp: Big_ToInt_sint_def Let_def)
qed

section \<open>From tables\<close>

text \<open>The leading \<open>B\<close> bits of a number, with zeros below them.\<close>

definition leading_part :: "nat \<Rightarrow> nat \<Rightarrow> nat" where
  "leading_part B u = u div 2 ^ (floorlog 2 u - B) * 2 ^ (floorlog 2 u - B)"

lemma leading_part_exact: "u < 2 ^ B \<Longrightarrow> leading_part B u = u"
  using floorlog_leI [of u 2 B] by (simp add: leading_part_def)

lemma CompensationToLeft_zero: "t \<noteq> [] \<Longrightarrow> uval t = 0 \<Longrightarrow> UInt_CompensationToLeft t = Some (0, t)"
  using FindTop_value [of t] by (simp add: UInt_CompensationToLeft_def Let_def)

lemma copy_highest_value:
  shows "length (copy_highest n t) = n"
    and "uval (copy_highest n t) = (if length t \<le> n then W ^ (n - length t) * uval t else uval t div W ^ (length t - n))"
  by (simp_all add: copy_highest_def uval_append uval_drop)

lemma leading_words:
  assumes "2 ^ k \<le> u" "u < 2 ^ Suc k" "k < 64 * l"
  shows "real (if l \<le> n then W ^ (n - l) * (u * 2 ^ (64 * l - 1 - k)) else u * 2 ^ (64 * l - 1 - k) div W ^ (l - n))
      * 2 powi (int (64 * l) - int (64 * n) - int (64 * l - 1 - k)) = real (leading_part (64 * n) u)"
proof -
  have fl: "floorlog 2 u = Suc k" using assms(1,2) floorlog_leI [of u 2 "Suc k"] floorlog_ge_SucI [of 2 k u] by simp
  define d where "d = 64 * l - 1 - k"
  have d: "d + Suc k = 64 * l" using assms(3) by (simp add: d_def)
  show ?thesis
  proof (cases "Suc k \<le> 64 * n")
    case True
    have m: "(if l \<le> n then W ^ (n - l) * (u * 2 ^ d) else u * 2 ^ d div W ^ (l - n)) = u * 2 ^ (64 * n - Suc k)"
    proof (cases "l \<le> n")
      case True
      then have "64 * (n - l) + d = 64 * n - Suc k" using d by linarith
      then show ?thesis using True unfolding W_power by (simp flip: power_add)
    next
      case False
      then have "d = 64 * n - Suc k + 64 * (l - n)" using d True by linarith
      then show ?thesis using False unfolding W_power by (simp add: power_add)
    qed
    have "int (64 * l) - int (64 * n) - int d = - int (64 * n - Suc k)" using d True by linarith
    then have "2 ^ (64 * n - Suc k) * (2 :: real) powi (int (64 * l) - int (64 * n) - int d) = 1"
      by (simp add: power_int_minus)
    moreover have "leading_part (64 * n) u = u" using fl True by (simp add: leading_part_def)
    ultimately show ?thesis unfolding d_def [symmetric] m by simp
  next
    case False
    define j where "j = Suc k - 64 * n"
    have "64 * (l - n) = d + j" "\<not> l \<le> n" using d False assms(3) unfolding j_def by linarith+
    then have m: "(if l \<le> n then W ^ (n - l) * (u * 2 ^ d) else u * 2 ^ d div W ^ (l - n)) = u div 2 ^ j"
      unfolding W_power by (simp add: power_add mult.commute [of u])
    have "int (64 * l) - int (64 * n) - int d = int j" using d False unfolding j_def by linarith
    then show ?thesis unfolding d_def [symmetric] m
      by (simp add: leading_part_def fl j_def [symmetric] powi_nat_2)
  qed
qed

lemma FromUIntOrInt_zero:
  fixes c :: sint
  assumes "big_shape b" "\<not> Big_IsNan b" "uval t = 0"
  defines "z \<equiv> snd (Big_FromUIntOrInt b t c)"
  shows "standard z \<and> \<not> Big_IsNan z \<and> same_type z b \<and> bval z = 0"
proof -
  let ?m = "copy_highest (length (mantissa b)) t"
  have "uval ?m = 0" using assms(3) by (simp add: copy_highest_value)
  moreover have "?m \<noteq> []" using copy_highest_value(1) [of "length (mantissa b)" t] shape_Nil(2) [OF assms(1)] by auto
  ultimately show ?thesis
    using assms(1,2) copy_highest_value(1) shape_Nil [OF assms(1)] assign_sint_ival(2)
    by (auto simp: z_def Big_FromUIntOrInt_def Let_def Big_CorrectZero_def standard_def big_shape_def same_type_def bval_def
        simp flip: all_zero_iff)
qed

lemma FromUIntOrInt_value:
  assumes "big_shape b" "\<not> Big_IsNan b" "\<not> Big_IsSign b" "length t < man_limit" "2 ^ k \<le> u" "u < 2 ^ Suc k" "k < 64 * length t"
  assumes "uval t = u * 2 ^ (64 * length t - 1 - k)"
  defines "z \<equiv> snd (Big_FromUIntOrInt b t (of_nat (64 * length t - 1 - k)))"
  shows "standard z \<and> \<not> Big_IsNan z \<and> \<not> Big_IsZero z \<and> same_type z b \<and> bval z = real (leading_part (man_bits b) u)"
proof -
  let ?n = "length (mantissa b)" and ?l = "length t"
  let ?c = "64 * ?l - 1 - k" and ?m = "copy_highest ?n t"
  have n: "0 < ?n" using shape_Nil(2) [OF assms(1)] by simp
  have bits: "man_bits b < 2 ^ 56" "64 * ?l < 2 ^ 56" using shape_bits [OF assms(1)] assms(4) by (simp_all add: man_limit_def)
  define e where "e = int (64 * ?l) - int (man_bits b) - int ?c"
  have small: "\<bar>e\<bar> < 2 ^ 62" using bits unfolding e_def by (simp add: abs_less_iff)
  have w: "(of_nat ?l - of_nat ?n) * of_nat TTMATH_BITS_PER_UINT - of_nat ?c = (of_int e :: uint)"
    by (simp add: e_def TTMATH_BITS_PER_UINT_def algebra_simps)
  note E = assign_sint_small [OF shape_Nil(1) [OF assms(1)] small]
  have top: "W ^ ?n div 2 \<le> uval ?m"
  proof -
    have "2 ^ k * 2 ^ ?c \<le> uval t" unfolding assms(8) using assms(5) by (rule mult_le_mono1)
    moreover have "k + ?c = 64 * ?l - 1" using assms(7) by linarith
    ultimately have t: "2 ^ (64 * ?l - 1) \<le> uval t" by (simp flip: power_add)
    show ?thesis
    proof (cases "?l \<le> ?n")
      case True
      then have "64 * (?n - ?l) + (64 * ?l - 1) = 64 * ?n - 1" using assms(7) by linarith
      then have "(2 :: nat) ^ (64 * ?n - 1) = 2 ^ (64 * (?n - ?l)) * 2 ^ (64 * ?l - 1)" by (simp flip: power_add)
      also have "\<dots> \<le> uval ?m" using True t by (simp add: copy_highest_value W_power)
      finally show ?thesis by (simp add: half_top [OF n])
    next
      case False
      then have "64 * ?l - 1 = (64 * ?n - 1) + 64 * (?l - ?n)" using n by linarith
      then have "2 ^ (64 * ?n - 1) = (2 :: nat) ^ (64 * ?l - 1) div 2 ^ (64 * (?l - ?n))" by (simp add: power_add)
      also have "\<dots> \<le> uval ?m" using False t by (simp add: copy_highest_value W_power div_le_mono)
      finally show ?thesis by (simp add: half_top [OF n])
    qed
  qed
  then have nz: "uval ?m \<noteq> 0" using half_top [OF n] by (metis le_zero_eq power_not_zero zero_neq_numeral)
  have z: "z = (Big_ClearInfoBit b TTMATH_BIG_ZERO)\<lparr>exponent := Int_assign_sint (exponent b) (of_int e), mantissa := ?m\<rparr>"
    using nz w all_zero_iff [of ?m]
    by (simp add: z_def Big_FromUIntOrInt_def Let_def Big_CorrectZero_def Big_ClearInfoBit_def)
  have t: "same_type z b" using E(2) copy_highest_value(1) by (simp add: z same_type_def)
  have "?m \<noteq> []" using copy_highest_value(1) [of ?n t] n by (metis length_0_conv less_irrefl)
  then have "UInt_IsTheHighestBitSet (mantissa z)" using IsTheHighestBitSet_iff [of ?m] top by (simp add: z copy_highest_value(1))
  moreover have "bval z = real (uval ?m) * 2 powi e" using assms(3) E(1) by (simp add: bval_def bsign_def z)
  then have "bval z = real (leading_part (man_bits b) u)"
    unfolding copy_highest_value(2) assms(8) e_def by (simp only: leading_words [OF assms(5-7), of ?n])
  ultimately show ?thesis using t shape_same_type [OF t] assms(1,2) by (simp add: standard_def z)
qed

lemma FromUInt_UInt_value:
  assumes "big_shape b" "t \<noteq> []" "length t < man_limit"
  shows "\<exists>z. Big_FromUInt_UInt b t = Some (0, z) \<and> standard z \<and> \<not> Big_IsNan z \<and> same_type z b \<and>
    bval z = real (leading_part (man_bits b) (uval t))"
proof -
  let ?b = "b\<lparr>info := 0\<rparr>"
  have b: "big_shape ?b" "\<not> Big_IsNan ?b" "\<not> Big_IsSign ?b" using assms(1) by (simp_all add: big_shape_def flags_iff)
  have c: "fst (Big_FromUIntOrInt x y w) = 0" for x y w by (simp add: Big_FromUIntOrInt_def Let_def split: prod.splits)
  have ty: "same_type z ?b = same_type z b" for z by (simp add: same_type_def)
  show ?thesis
  proof (cases "uval t = 0")
    case True
    then show ?thesis
      using CompensationToLeft_zero [OF assms(2)] FromUIntOrInt_zero [OF b(1,2) True, of 0] c [of ?b t 0] ty
      by (cases "Big_FromUIntOrInt ?b t 0") (simp add: Big_FromUInt_UInt_def leading_part_def)
  next
    case False
    then obtain k where k: "2 ^ k \<le> uval t" "uval t < 2 ^ Suc k" using leading_bit_exists [of "uval t"] by blast
    note C = CompensationToLeft_value [OF assms(2) k]
    let ?c = "64 * length t - 1 - k"
    let ?t = "utab (length t) (uval t * 2 ^ ?c)"
    have "uval ?t = uval t * 2 ^ (64 * length ?t - 1 - k)" using C(3) by (simp add: uval_utab_exact)
    note V = FromUIntOrInt_value [OF b _ k _ this]
    have "k < 64 * length t" by (rule leading_bit_less [OF k(1)])
    then show ?thesis
      using C(1) V assms(3) c [of ?b ?t "of_nat ?c"] ty
      by (cases "Big_FromUIntOrInt ?b ?t (of_nat ?c)") (simp add: Big_FromUInt_UInt_def)
  qed
qed

lemma leading_part_pos:
  assumes "0 < u" "0 < B"
  shows "0 < leading_part B u"
proof -
  have "(2 :: nat) ^ (floorlog 2 u - B) \<le> 2 ^ (floorlog 2 u - 1)" using assms(2) by (intro power_increasing) simp_all
  also have "\<dots> \<le> u" using floorlog_bounds [of u 2] assms(1) by simp
  finally show ?thesis by (simp add: leading_part_def div_greater_zero_iff)
qed

lemma FromInt_Int_unsigned:
  "Big_FromInt_Int b t = do {
     (c, z) \<leftarrow> Big_FromUInt_UInt b (if Int_IsSign t then snd (Int_ChangeSign t) else t);
     Some (0, if Int_IsSign t then Big_SetSign z else z)
   }"
proof -
  have c: "fst (Big_FromUIntOrInt x y w) = 0" for x y w by (simp add: Big_FromUIntOrInt_def Let_def split: prod.splits)
  show ?thesis
    by (cases "Int_IsSign t"; cases "UInt_CompensationToLeft (if Int_IsSign t then snd (Int_ChangeSign t) else t)")
      (simp_all add: Big_FromInt_Int_def Big_FromUInt_UInt_def case_prod_beta c)
qed

lemma magnitude_table:
  assumes "t \<noteq> []"
  defines "m \<equiv> (if Int_IsSign t then snd (Int_ChangeSign t) else t)"
  shows "uval m = nat \<bar>ival t\<bar>" "length m = length t"
proof -
  note I = IsSign_iff [OF assms(1)] and C = ChangeSign_result [OF assms(1)]
  show "length m = length t" using C by (simp add: m_def)
  show "uval m = nat \<bar>ival t\<bar>"
  proof (cases "ival t < 0")
    case True
    have "- ival t mod int (W ^ length t) = - ival t" using True ival_bounds [of t] unfolding fits_def by (intro mod_pos_pos_trivial) linarith+
    then have "int (uval m) = - ival t" using True I C uval_itab [of "length t" "- ival t"] by (simp add: m_def)
    then show ?thesis using True by linarith
  next
    case False
    then have "int (uval t) = ival t" using uval_less [of t] by (simp add: ival_def split: if_splits del: of_nat_power)
    then show ?thesis using False I by (simp add: m_def)
  qed
qed

lemma FromInt_Int_value:
  assumes "big_shape b" "t \<noteq> []" "length t < man_limit"
  shows "\<exists>z. Big_FromInt_Int b t = Some (0, z) \<and> standard z \<and> \<not> Big_IsNan z \<and> same_type z b \<and>
    bval z = (if ival t < 0 then - 1 else 1) * real (leading_part (man_bits b) (nat \<bar>ival t\<bar>))"
proof -
  let ?m = "if Int_IsSign t then snd (Int_ChangeSign t) else t"
  note M = magnitude_table [OF assms(2)] and I = IsSign_iff [OF assms(2)]
  have "?m \<noteq> []" "length ?m < man_limit" using M(2) assms(2,3) by (metis length_0_conv, simp)
  from FromUInt_UInt_value [OF assms(1) this] obtain z where z: "Big_FromUInt_UInt b ?m = Some (0, z)" "standard z"
    "\<not> Big_IsNan z" "same_type z b" "bval z = real (leading_part (man_bits b) (nat \<bar>ival t\<bar>))" unfolding M(1) by blast
  show ?thesis
  proof (cases "ival t < 0")
    case True
    then have "0 < leading_part (man_bits b) (nat \<bar>ival t\<bar>)" using shape_Nil(2) [OF assms(1)] by (intro leading_part_pos) simp_all
    then have "\<not> Big_IsZero z" "\<bar>bval z\<bar> = bval z" using standard_zero_iff [OF z(2)] z(5) by simp_all
    note S = signed_standard [OF z(2) this(1), of False] and this
    have "same_type (Big_SetSign z) b" using z(4) by (simp add: same_type_def)
    then show ?thesis using True I z S \<open>\<bar>bval z\<bar> = bval z\<close> unfolding FromInt_Int_unsigned by simp
  next
    case False
    then show ?thesis using I z unfolding FromInt_Int_unsigned by simp
  qed
qed

section \<open>Round trips\<close>

lemma truncated_of_int [simp]: "truncated (real_of_int x) = x"
  by (simp add: truncated_def del: of_int_abs)

lemma not_signed_carry: "fits n x \<Longrightarrow> \<not> signed_carry n (real_of_int x)"
  by (auto simp: signed_carry_def)

lemma sint_round_trip:
  assumes "big_shape b"
  shows "\<exists>z. Big_FromInt_sint b v = Some (0, z) \<and> Big_ToInt_sint z = (0, v)"
proof -
  obtain z where z: "Big_FromInt_sint b v = Some (0, z)" "standard z" "bval z = real_of_int (sint v)"
    using FromInt_sint_value [OF assms] by blast
  have f: "fits 1 (sint v)" using ival_bounds [of "[v]"] by (simp add: ival_single)
  have "\<bar>sint v\<bar> < 2 ^ 64" using f by (simp add: fits_def W_def abs_less_iff)
  then have "\<not> 2 ^ 64 \<le> \<bar>bval z\<bar>" unfolding z(3) of_int_abs [symmetric] by (metis not_le of_int_less_numeral_power_cancel_iff)
  then have "Big_ToInt_sint z = (0, of_int (sint v))"
    using ToInt_sint_value [OF z(2)] not_signed_carry [OF f] unfolding z(3) by (simp only: if_False of_bool_eq truncated_of_int)
  then show ?thesis using z(1) by simp
qed

lemma uint_round_trip:
  assumes "big_shape b"
  shows "\<exists>z. Big_FromUInt b v = Some (0, z) \<and> Big_ToUInt_uint z = (0, v)"
proof -
  obtain z where z: "Big_FromUInt b v = Some (0, z)" "standard z" "bval z = real (unat v)"
    using FromUInt_value [OF assms] by blast
  have "real (unat v) < 2 ^ 64" using unat_less_W [of v] unfolding W_def by (simp only: of_nat_less_numeral_power_cancel_iff)
  moreover have "\<not> Big_IsSign z" using bval_sign [OF z(2)] z(3) by (simp only: of_nat_0_le_iff not_less)
  ultimately have "\<not> Big_IsSign z" "Big_ToUIntOrInt z = (0, of_nat (unat v))"
    unfolding ToUIntOrInt_value [OF z(2)] z(3) abs_of_nat floor_of_nat nat_int not_le [symmetric] by simp_all
  then have "Big_ToUInt_uint z = (0, v)" by (simp add: Big_ToUInt_uint_def)
  then show ?thesis using z(1) by blast
qed

lemma Int_round_trip:
  assumes "big_shape b" "t \<noteq> []" "length t \<le> length (mantissa b)" "length s = length t"
  shows "\<exists>z. Big_FromInt_Int b t = Some (0, z) \<and> bval z = real_of_int (ival t) \<and> Big_ToInt_Int z s = Some (0, t)"
proof -
  let ?n = "length t"
  have n: "0 < ?n" "?n < man_limit" using assms by (simp_all add: big_shape_def)
  obtain z where z: "Big_FromInt_Int b t = Some (0, z)" "standard z"
    "bval z = (if ival t < 0 then - 1 else 1) * real (leading_part (man_bits b) (nat \<bar>ival t\<bar>))"
    using FromInt_Int_value [OF assms(1,2) n(2)] by blast
  have f: "fits ?n (ival t)" by (rule ival_bounds)
  have "\<bar>ival t\<bar> < int (W ^ ?n)" using f unfolding fits_def by (simp add: abs_less_iff del: of_nat_power) linarith?
  then have a: "nat \<bar>ival t\<bar> < 2 ^ (64 * ?n)" by (simp add: W_power nat_less_iff)
  also have "\<dots> \<le> 2 ^ man_bits b" using assms(3) by (intro power_increasing) simp_all
  finally have v: "bval z = real_of_int (ival t)" using z(3) by (simp add: leading_part_exact)
  have "real (nat \<bar>ival t\<bar>) < 2 ^ (64 * ?n)" using a by (simp only: of_nat_less_numeral_power_cancel_iff)
  then have "\<not> 2 ^ (64 * ?n) \<le> \<bar>bval z\<bar>" unfolding v by simp
  then have "Big_ToInt_Int z s = Some (0, itab ?n (ival t))"
    using ToInt_Int_value [OF z(2) assms(4) n] not_signed_carry [OF f] unfolding v by simp
  then show ?thesis using z(1) v by simp
qed

lemma UInt_round_trip:
  assumes "big_shape b" "t \<noteq> []" "length t \<le> length (mantissa b)" "length s = length t"
  shows "\<exists>z. Big_FromUInt_UInt b t = Some (0, z) \<and> bval z = real (uval t) \<and> Big_ToUInt_UInt z s = Some (0, t)"
proof -
  let ?n = "length t"
  have n: "0 < ?n" "?n < man_limit" using assms by (simp_all add: big_shape_def)
  obtain z where z: "Big_FromUInt_UInt b t = Some (0, z)" "standard z"
    "bval z = real (leading_part (man_bits b) (uval t))"
    using FromUInt_UInt_value [OF assms(1,2) n(2)] by blast
  have a: "uval t < 2 ^ (64 * ?n)" using uval_less [of t] by (simp only: W_power)
  also have "\<dots> \<le> 2 ^ man_bits b" using assms(3) by (intro power_increasing) simp_all
  finally have v: "bval z = real (uval t)" using z(3) by (simp add: leading_part_exact)
  have "real (uval t) < 2 ^ (64 * ?n)" using a by (simp only: of_nat_less_numeral_power_cancel_iff)
  then have "Big_ToUIntOrInt_UInt z s = Some (0, t)"
    using ToUIntOrInt_UInt_value [OF z(2) assms(4) n] v by simp
  moreover have "\<not> Big_IsSign z" using bval_sign [OF z(2)] v by simp
  ultimately show ?thesis using z(1) v by (simp add: Big_ToUInt_UInt_def)
qed

section \<open>Between sizes\<close>

text \<open>
  A mantissa with more words keeps the value, one with fewer words drops the lowest ones. A carry
  is reported when the exponent does not fit.
\<close>

definition FromBig_exponent :: "big \<Rightarrow> big \<Rightarrow> int" where
  "FromBig_exponent b another = ival (exponent another) + int (man_bits another) - int (man_bits b)"

lemma FromBig_exponents:
  assumes "big_shape b" "big_shape a" "e = itab (length (exponent b)) (ival (exponent a))" "fits (length (exponent b)) (ival (exponent a))"
  shows "(if length (mantissa b) > length (mantissa a)
      then Int_SubInt e (of_nat ((length (mantissa b) - length (mantissa a)) * TTMATH_BITS_PER_UINT)) 0
      else if length (mantissa b) < length (mantissa a)
      then Int_AddInt e (of_nat ((length (mantissa a) - length (mantissa b)) * TTMATH_BITS_PER_UINT)) 0
      else Some (0, e)) =
    Some (of_bool (\<not> fits (length (exponent b)) (FromBig_exponent b a)), itab (length (exponent b)) (FromBig_exponent b a))"
proof -
  let ?n = "length (exponent b)"
  have i: "0 < ?n" using shape_Nil(1) [OF assms(1)] by simp
  have e: "length e = ?n" "ival e = ival (exponent a)" using assms(3,4) by (simp_all add: ival_itab)
  have u: "unat (of_nat (x * TTMATH_BITS_PER_UINT) :: uint) = 64 * x" "2 * (W ^ 0 * (64 * x)) < W ^ length e" if "x < 2 ^ 50" for x
  proof -
    have "64 * x < W" using that by (simp add: W_def)
    then show "unat (of_nat (x * TTMATH_BITS_PER_UINT) :: uint) = 64 * x"
      using unat_of_nat_small by (metis TTMATH_BITS_PER_UINT_def mult.commute)
    have "2 * (W ^ 0 * (64 * x)) < W ^ 1" using that by (simp add: W_def)
    also have "\<dots> \<le> W ^ length e" using i e(1) by (intro W_power_mono) linarith
    finally show "2 * (W ^ 0 * (64 * x)) < W ^ length e" .
  qed
  have l: "length (mantissa b) - length (mantissa a) < 2 ^ 50" "length (mantissa a) - length (mantissa b) < 2 ^ 50"
    using assms(1,2) unfolding big_shape_def man_limit_def by linarith+
  note S = SubInt_ival [of 0 e "of_nat ((length (mantissa b) - length (mantissa a)) * TTMATH_BITS_PER_UINT)", unfolded u(1) [OF l(1)]]
    and A = AddInt_ival [of 0 e "of_nat ((length (mantissa a) - length (mantissa b)) * TTMATH_BITS_PER_UINT)", unfolded u(1) [OF l(2)]]
  consider "length (mantissa a) < length (mantissa b)" | "length (mantissa b) < length (mantissa a)"
    | "length (mantissa a) = length (mantissa b)" by linarith
  then show ?thesis
  proof cases
    case 1
    then show ?thesis using S u(2) [OF l(1)] i e by (simp add: FromBig_exponent_def of_nat_diff algebra_simps)
  next
    case 2
    then show ?thesis using A u(2) [OF l(2)] i e by (simp add: FromBig_exponent_def of_nat_diff algebra_simps)
  next
    case 3
    then show ?thesis using assms(3,4) by (simp add: FromBig_exponent_def)
  qed
qed

lemma highest_bit_not_zero:
  assumes "t \<noteq> []" "UInt_IsTheHighestBitSet t"
  shows "\<not> UInt_IsZero t"
proof -
  have "2 ^ (64 * length t - 1) \<le> uval t" using assms IsTheHighestBitSet_iff [OF assms(1)] half_top [of "length t"] by simp
  then have "uval t \<noteq> 0" by (metis le_zero_eq power_not_zero zero_neq_numeral)
  then show ?thesis by (simp add: UInt_IsZero_def all_zero_iff)
qed

lemma copy_highest_top:
  assumes "t \<noteq> []" "UInt_IsTheHighestBitSet t" "0 < n"
  shows "UInt_IsTheHighestBitSet (copy_highest n t)"
proof -
  have "0 < length t" using assms(1) by simp
  then have "\<not> n - 1 < n - length t" "length t - n + (n - 1 - (n - length t)) = length t - 1" using assms(3) by linarith+
  then have "copy_highest n t ! (n - 1) = t ! (length t - 1)" by (simp add: copy_highest_def nth_append)
  then show ?thesis using assms(2) copy_highest_value(1) by (simp add: UInt_IsTheHighestBitSet_def)
qed

lemma copy_highest_scaled:
  "real (uval (copy_highest n t)) * 2 powi (x + int (64 * length t) - int (64 * n)) =
   real (uval t div 2 ^ (64 * (length t - n)) * 2 ^ (64 * (length t - n))) * 2 powi x"
proof (cases "length t \<le> n")
  case True
  then have "int (64 * (n - length t)) + (x + int (64 * length t) - int (64 * n)) = x" by (simp add: of_nat_diff)
  then have "2 ^ (64 * (n - length t)) * (2 :: real) powi (x + int (64 * length t) - int (64 * n)) = 2 powi x"
    by (simp only: powi_add_2 [symmetric] powi_nat_2 [symmetric])
  moreover have "uval (copy_highest n t) = uval t * 2 ^ (64 * (n - length t))" using True by (simp add: copy_highest_value W_power)
  ultimately show ?thesis using True by (simp only: of_nat_mult of_nat_power of_nat_numeral mult.assoc) simp
next
  case False
  then have "x + int (64 * length t) - int (64 * n) = x + int (64 * (length t - n))" by (simp add: of_nat_diff)
  then show ?thesis using False by (simp only: powi_add_2 powi_nat_2) (simp add: copy_highest_value W_power)
qed

lemma FromBig_value:
  assumes "big_shape b" "standard a" "\<not> Big_IsNan a"
  defines "d \<equiv> 64 * (length (mantissa a) - length (mantissa b))"
  defines "ok \<equiv> fits (length (exponent b)) (ival (exponent a)) \<and> fits (length (exponent b)) (FromBig_exponent b a)"
  shows "\<exists>c z. Big_FromBig b a = Some (c, z) \<and> same_type z b \<and> (\<not> ok \<longrightarrow> c = 1 \<and> Big_IsNan z) \<and>
    (ok \<longrightarrow> c = 0 \<and> standard z \<and> \<not> Big_IsNan z \<and>
      bval z = bsign a * real (uval (mantissa a) div 2 ^ d * 2 ^ d) * 2 powi ival (exponent a))"
proof -
  let ?b = "b\<lparr>info := info a\<rparr>" and ?n = "length (exponent b)"
  note sa = standard_shape [OF assms(2)]
  have F: "Int_FromInt_Int (exponent b) (exponent a) = (of_bool (\<not> fits ?n (ival (exponent a))), itab ?n (ival (exponent a)))"
    by (rule FromInt_Int_result) (rule shape_Nil(1) [OF assms(1)], rule shape_Nil(1) [OF sa])
  have nan: "\<not> Big_IsNan ?b" using assms(3) by (simp add: flags_iff)
  show ?thesis
  proof (cases "fits ?n (ival (exponent a))")
    case False
    then show ?thesis using F nan by (simp add: Big_FromBig_def ok_def same_type_def Let_def)
  next
    case True
    let ?m = "copy_highest (length (mantissa b)) (mantissa a)" and ?e = "itab ?n (FromBig_exponent b a)"
    let ?z = "snd (Big_CorrectZero (?b\<lparr>exponent := ?e, mantissa := ?m\<rparr>))"
    note E = FromBig_exponents [OF assms(1) sa refl True]
    have fields: "exponent (x\<lparr>info := i\<rparr>) = exponent x" "mantissa (x\<lparr>info := i\<rparr>) = mantissa x" "mantissa (x\<lparr>exponent := e\<rparr>) = mantissa x"
      "exponent (x\<lparr>mantissa := m\<rparr>) = exponent x" "exponent (x\<lparr>exponent := e\<rparr>) = e"
      "x\<lparr>exponent := e, mantissa := m, exponent := e'\<rparr> = x\<lparr>exponent := e', mantissa := m\<rparr>" for x :: big and i e e' m by simp_all
    have r: "Big_FromBig b a = Some (Big_CheckCarry ?z (of_bool (\<not> fits ?n (FromBig_exponent b a))))"
      using True nan
      by (simp only: Big_FromBig_def Let_def F simp_thms if_False if_True prod.case of_bool_eq case_prod_beta fst_conv snd_conv
          fields E Option.bind.bind_lunit)
    have t: "same_type ?z b" by (simp add: same_type_def Big_CorrectZero_def copy_highest_value Let_def)
    have zn: "\<not> Big_IsNan ?z" using nan by (simp add: Big_CorrectZero_def Let_def)
    show ?thesis
    proof (cases "fits ?n (FromBig_exponent b a)")
      case False
      then show ?thesis using r t by (simp add: Big_CheckCarry_def ok_def same_type_def)
    next
      case fe: True
      have "standard ?z \<and> bval ?z = bsign a * real (uval (mantissa a) div 2 ^ d * 2 ^ d) * 2 powi ival (exponent a)"
      proof (cases "Big_IsZero a")
        case True
        then have "uval (mantissa a) = 0" "uval ?m = 0" using standard_zero_iff_mantissa [OF assms(2)] by (simp_all add: copy_highest_value)
        moreover have "uval (replicate k 0) = 0" for k by (simp flip: all_zero_iff)
        ultimately show ?thesis
          using assms(1) shape_same_type [OF t] by (simp add: standard_def Big_CorrectZero_def Let_def bval_def)
      next
        case False
        have "UInt_IsTheHighestBitSet ?m"
          using copy_highest_top shape_Nil(2) [OF sa] shape_Nil(2) [OF assms(1)] assms(2) False by (simp add: standard_def)
        moreover from this have "\<not> UInt_IsZero ?m"
          using shape_Nil(2) [OF assms(1)] copy_highest_value(1) by (intro highest_bit_not_zero) (metis length_0_conv)
        moreover have "bsign ?z = bsign a" if "\<not> UInt_IsZero ?m" using that by (simp add: bsign_def Big_CorrectZero_def) (simp add: flags_iff)
        ultimately show ?thesis
          using assms(1) shape_same_type [OF t] copy_highest_scaled [of "length (mantissa b)" "mantissa a" "ival (exponent a)"] fe
          by (simp add: standard_def Big_CorrectZero_def bval_def ival_itab FromBig_exponent_def d_def)
      qed
      then show ?thesis using r t zn fe True by (simp add: Big_CheckCarry_def ok_def)
    qed
  qed
qed

end
