(* ===== verification/Big_Pow.thy ===== *)
theory Big_Pow
  imports Big_Convert Big_Div
begin

text \<open>
  Powers of \<^verbatim>\<open>Big\<close> numbers with integer exponents (\<^verbatim>\<open>ttmathbig.h\<close>): the exponent is a \<^verbatim>\<open>UInt\<close>, an
  \<^verbatim>\<open>Int\<close>, or the integer part of another \<^verbatim>\<open>Big\<close>. The loops square and multiply from the lowest bit of
  the exponent. Every product is rounded, so the result is within as many rounding errors of the
  power as the exponent says (\<open>near\<close>).
\<close>

section \<open>Definitions\<close>

partial_function (option) Big_Pow_loop :: "big \<Rightarrow> big \<Rightarrow> utable \<Rightarrow> uint \<Rightarrow> (uint \<times> big) option" where
  "Big_Pow_loop start result pow c =
     (if c = 0
      then do {
        (c, result) \<leftarrow> (if pow ! 0 AND 1 \<noteq> 0
                         then do { (d, result) \<leftarrow> Big_Mul result start True; Some (c + d, result) }
                         else Some (c, result));
        (_, pow) \<leftarrow> UInt_Rcr pow 1 0;
        if UInt_IsZero pow then Some (c, result)
        else do {
          (d, start) \<leftarrow> Big_Mul start start True;
          Big_Pow_loop start result pow (c + d)
        }
      }
      else Some (c, result))"

declare Big_Pow_loop.simps [code]

definition Big_Pow_UInt :: "big \<Rightarrow> utable \<Rightarrow> (uint \<times> big) option" where
  "Big_Pow_UInt b pow =
     (if Big_IsNan b then Some (1, b)
      else if Big_IsZero b
      then if UInt_IsZero pow then Some (2, Big_SetNan b) else Some (0, b)
      else do {
        (c, result) \<leftarrow> Big_Pow_loop b (Big_SetOne b) pow 0;
        Some (Big_CheckCarry (Big_assign b result) c)
      })"

definition Big_Pow_Int :: "big \<Rightarrow> utable \<Rightarrow> (uint \<times> big) option" where
  "Big_Pow_Int b pow =
     (if Big_IsNan b then Some (1, b)
      else if \<not> Int_IsSign pow then Big_Pow_UInt b pow
      else if Big_IsZero b then Some (2, Big_SetNan b)
      else do {
        let (c, pow) = Int_ChangeSign pow;
        (d, t) \<leftarrow> Big_Pow_UInt b pow;
        (e, b) \<leftarrow> Big_Div (Big_SetOne b) t True;
        Some (Big_CheckCarry b (c + d + e))
      })"

partial_function (option) Big_PowUInt_loop :: "big \<Rightarrow> big \<Rightarrow> big \<Rightarrow> big \<Rightarrow> uint \<Rightarrow> (uint \<times> big) option" where
  "Big_PowUInt_loop one start result pow c =
     (if c = 0
      then do {
        odd \<leftarrow> Big_Mod2 pow;
        (c, result) \<leftarrow> (if odd \<noteq> 0
                         then do { (d, result) \<leftarrow> Big_Mul result start True; Some (c + d, result) }
                         else Some (c, result));
        (d, e) \<leftarrow> Int_SubOne (exponent pow);
        let pow = pow\<lparr>exponent := e\<rparr>;
        let c = c + d;
        if Big_less pow one then Some (c, result)
        else do {
          (d, start) \<leftarrow> Big_Mul start start True;
          Big_PowUInt_loop one start result pow (c + d)
        }
      }
      else Some (c, result))"

declare Big_PowUInt_loop.simps [code]

definition Big_PowUInt :: "big \<Rightarrow> big \<Rightarrow> (uint \<times> big) option" where
  "Big_PowUInt b pow =
     (if Big_IsNan b \<or> Big_IsNan pow then Some (Big_CheckCarry b 1)
      else if Big_IsZero b
      then if Big_IsZero pow then Some (2, Big_SetNan b) else Some (0, b)
      else do {
        let pow = (if Big_IsSign pow then Big_Abs pow else pow);
        let one = Big_SetOne b;
        (c, result) \<leftarrow> Big_PowUInt_loop one b one pow 0;
        Some (Big_CheckCarry (Big_assign b result) c)
      })"

definition Big_PowInt :: "big \<Rightarrow> big \<Rightarrow> (uint \<times> big) option" where
  "Big_PowInt b pow =
     (if Big_IsNan b \<or> Big_IsNan pow then Some (Big_CheckCarry b 1)
      else if \<not> Big_IsSign pow then Big_PowUInt b pow
      else if Big_IsZero b then Some (2, Big_SetNan b)
      else do {
        (c, temp) \<leftarrow> Big_PowUInt b pow;
        (d, b) \<leftarrow> Big_Div (Big_SetOne b) temp True;
        Some (Big_CheckCarry b (c + d))
      })"

section \<open>Relative errors\<close>

text \<open>\<open>x\<close> is \<open>y\<close> up to \<open>n\<close> relative errors of at most \<open>\<epsilon>\<close>.\<close>

definition near :: "real \<Rightarrow> nat \<Rightarrow> real \<Rightarrow> real \<Rightarrow> bool" where
  "near \<epsilon> n x y \<longleftrightarrow> y \<noteq> 0 \<and> (1 - \<epsilon>) ^ n \<le> x / y \<and> x / y \<le> (1 + \<epsilon>) ^ n"

lemma near_refl: "x \<noteq> 0 \<Longrightarrow> near \<epsilon> 0 x x"
  by (simp add: near_def)

lemma near_mult:
  assumes "near \<epsilon> n x y" "near \<epsilon> m x' y'" "0 \<le> \<epsilon>" "\<epsilon> < 1"
  shows "near \<epsilon> (n + m) (x * x') (y * y')"
proof -
  have l: "0 \<le> (1 - \<epsilon>) ^ m" "0 \<le> (1 - \<epsilon>) ^ n" using assms(4) by simp_all
  have n: "(1 - \<epsilon>) ^ n \<le> x / y" "x / y \<le> (1 + \<epsilon>) ^ n" and m: "(1 - \<epsilon>) ^ m \<le> x' / y'" "x' / y' \<le> (1 + \<epsilon>) ^ m"
    using assms(1,2) by (simp_all add: near_def)
  have "(1 - \<epsilon>) ^ n * (1 - \<epsilon>) ^ m \<le> x / y * (x' / y')" using n(1) m(1) l by (intro mult_mono) linarith+
  moreover have "x / y * (x' / y') \<le> (1 + \<epsilon>) ^ n * (1 + \<epsilon>) ^ m" using n m l by (intro mult_mono) linarith+
  ultimately have "(1 - \<epsilon>) ^ n * (1 - \<epsilon>) ^ m \<le> x / y * (x' / y')" "x / y * (x' / y') \<le> (1 + \<epsilon>) ^ n * (1 + \<epsilon>) ^ m" .
  then show ?thesis using assms(1,2) by (simp add: near_def power_add)
qed

lemma near_nonzero:
  assumes "near \<epsilon> n x y" "\<epsilon> < 1"
  shows "x \<noteq> 0"
proof
  assume "x = 0"
  then have "(1 - \<epsilon>) ^ n \<le> 0" using assms(1) by (simp add: near_def)
  moreover have "0 < (1 - \<epsilon>) ^ n" using assms(2) by simp
  ultimately show False by linarith
qed

lemma near_product:
  assumes "near \<epsilon> 1 z (x * x')" "near \<epsilon> n x y" "near \<epsilon> m x' y'" "0 \<le> \<epsilon>" "\<epsilon> < 1"
  shows "near \<epsilon> (n + m + 1) z (y * y')"
proof -
  have xx: "x * x' \<noteq> 0" using assms(1) by (simp add: near_def)
  have "near \<epsilon> (n + m + 1) (x * x' * (z / (x * x'))) (y * y' * 1)"
    using near_mult [OF near_mult [OF assms(2,3,4,5)] _ assms(4,5), of 1 "z / (x * x')" 1] assms(1) by (simp add: near_def)
  then show ?thesis using xx by simp
qed

lemma relative_quotient:
  fixes r p :: real
  assumes "\<bar>r - p\<bar> \<le> \<epsilon> * p" "0 < p"
  shows "1 - \<epsilon> \<le> r / p" "r / p \<le> 1 + \<epsilon>"
  unfolding pos_le_divide_eq [OF assms(2)] pos_divide_le_eq [OF assms(2)]
  using assms(1) by (simp_all add: abs_le_iff algebra_simps)

text \<open>The relative error of one product.\<close>

definition man_eps :: "big \<Rightarrow> real" where
  "man_eps b = 1 / 2 ^ man_bits b"

lemma man_eps_bounds:
  assumes "big_shape b"
  shows "0 \<le> man_eps b" "man_eps b < 1"
proof -
  have "0 < man_bits b" using shape_Nil(2) [OF assms] by simp
  then have "(1 :: real) < 2 ^ man_bits b" by (simp add: one_less_power)
  then show "0 \<le> man_eps b" "man_eps b < 1" by (simp_all add: man_eps_def)
qed

lemma Mul_near:
  assumes "standard a" "standard b" "same_type a b" "\<not> Big_IsNan a" "\<not> Big_IsNan b" "\<not> Big_IsZero a" "\<not> Big_IsZero b"
  obtains z where "Big_Mul a b True = Some (0, z)" "same_type z a" "standard z" "\<not> Big_IsNan z" "\<not> Big_IsZero z"
      "near (man_eps a) 1 (bval z) (bval a * bval b)"
    | z where "Big_Mul a b True = Some (1, z)" "same_type z a" "Big_IsNan z"
proof -
  obtain z where z: "Big_MulRef a b True = Some (if mul_in_range a b True then (0, z) else (1, Big_SetNan z))" "same_type z a"
    and r: "mul_in_range a b True \<longrightarrow> standard z \<and> \<not> Big_IsNan z \<and>
       bval z = bsign a * bsign b * real (mul_mantissa a b True) * 2 powi (mul_exponent a b + ival (exponent b))"
    using MulRef_result [OF assms(1-3,6,7,4,5)] by blast
  show thesis
  proof (cases "mul_in_range a b True")
    case False
    then show thesis using z that(2) [of "Big_SetNan z"] by (simp add: Big_Mul_def same_type_def)
  next
    case True
    let ?n = "length (mantissa a)" and ?p = "uval (mantissa a) * uval (mantissa b) * 2 ^ mul_shift a b"
    let ?P = "real ?p / real (W ^ ?n)" and ?R = "real (mul_mantissa a b True)" and ?s = "bsign a * bsign b"
      and ?E = "2 powi (mul_exponent a b + ival (exponent b)) :: real"
    have v: "bval z = ?s * ?R * ?E" and std: "standard z" "\<not> Big_IsNan z" using r True by blast+
    have x: "bval a * bval b = ?s * ?P * ?E" by (rule exact_product [OF assms(1)])
    have "W ^ (2 * ?n) \<le> 2 * ?p" by (rule mantissa_product(2) [OF assms(1-3,6,7), folded mul_shift_def])
    then have "real (W ^ ?n) * real (W ^ ?n) \<le> 2 * real ?p"
      by (metis mult_2 of_nat_le_iff of_nat_mult of_nat_numeral power_add)
    then have P: "real (W ^ ?n) \<le> 2 * ?P" by (simp add: pos_le_divide_eq del: of_nat_power)
    have Wn: "real (W ^ ?n) = 2 ^ man_bits a" by (simp only: W_power of_nat_power of_nat_numeral)
    have "\<bar>?R - ?P\<bar> \<le> 1 / 2" using upper_half_error [of True ?n ?p] by (simp add: mul_mantissa_def)
    also have "1 / 2 \<le> man_eps a * ?P" using P unfolding man_eps_def Wn by (simp add: field_simps)
    finally have e: "\<bar>?R - ?P\<bar> \<le> man_eps a * ?P" .
    have pos: "0 < ?P" using P Wn by (smt (verit) zero_less_power)
    have s: "?s \<noteq> 0" by (simp add: bsign_def)
    have q: "bval z / (bval a * bval b) = ?R / ?P" unfolding v x using s by simp
    have "near (man_eps a) 1 (bval z) (bval a * bval b)"
      using relative_quotient [OF e pos] standard_zero_iff [OF assms(1)] standard_zero_iff [OF assms(2)] assms(6,7)
      unfolding near_def q power_one_right by simp
    moreover from near_nonzero [OF this man_eps_bounds(2) [OF standard_shape [OF assms(1)]]]
    have "\<not> Big_IsZero z" using standard_zero_iff [OF std(1)] by simp
    ultimately show thesis using that(1) [of z] z True std by (simp add: Big_Mul_def)
  qed
qed

section \<open>Powers\<close>

lemma Pow_loop_carry:
  assumes "c \<noteq> 0"
  shows "Big_Pow_loop s r p c = Some (c, r)" "Big_PowUInt_loop one s r q c = Some (c, r)"
  using assms by (simp_all add: Big_Pow_loop.simps Big_PowUInt_loop.simps)

text \<open>What the loops promise: they return, and a result without carry is near the power.\<close>

definition power_result :: "big \<Rightarrow> nat \<Rightarrow> real \<Rightarrow> (uint \<times> big) option \<Rightarrow> bool" where
  "power_result b n y res \<longleftrightarrow> (\<exists>c z. res = Some (c, z) \<and> same_type z b \<and> (c = 0 \<longrightarrow> standard z \<and> \<not> Big_IsNan z \<and> \<not> Big_IsZero z \<and>
     near (man_eps b) n (bval z) y))"

definition factor :: "big \<Rightarrow> big \<Rightarrow> bool" where
  "factor b x \<longleftrightarrow> standard x \<and> \<not> Big_IsNan x \<and> \<not> Big_IsZero x \<and> same_type x b"

lemma factor_Mul:
  assumes "big_shape b" "factor b x" "factor b y" "near (man_eps b) n (bval x) X" "near (man_eps b) m (bval y) Y"
  obtains z where "Big_Mul x y True = Some (0, z)" "factor b z" "near (man_eps b) (n + m + 1) (bval z) (X * Y)"
    | z where "Big_Mul x y True = Some (1, z)" "same_type z b"
proof -
  have t: "same_type x y" "same_type x b" "man_eps x = man_eps b"
    using assms(2,3) by (simp_all add: factor_def same_type_def man_eps_def)
  have tr: "same_type z x \<Longrightarrow> same_type z b" for z using t(2) by (simp add: same_type_def)
  show thesis
  proof (rule Mul_near [of x y])
    fix z assume z: "Big_Mul x y True = Some (0, z)" "same_type z x" "standard z" "\<not> Big_IsNan z" "\<not> Big_IsZero z"
      "near (man_eps x) 1 (bval z) (bval x * bval y)"
    then have "factor b z" using tr by (simp add: factor_def)
    moreover have "near (man_eps b) (n + m + 1) (bval z) (X * Y)"
      by (rule near_product [OF z(6) [unfolded t(3)] assms(4,5) man_eps_bounds [OF assms(1)]])
    ultimately show thesis using that(1) z(1) by blast
  next
    fix z assume "Big_Mul x y True = Some (1, z)" "same_type z x"
    then show thesis using that(2) tr by blast
  qed (use assms(2,3) t(1) in \<open>simp_all add: factor_def\<close>)
qed

lemma power_step: "(a :: real) * s ^ n = a * s ^ (n mod 2) * (s * s) ^ (n div 2)"
proof -
  have "s ^ n = s ^ (n mod 2 + 2 * (n div 2))" by simp
  then show ?thesis by (simp only: power_add power_mult power2_eq_square mult.assoc)
qed

lemma odd_step: "n + (m + 1) * k = n + (m + 1) * (k mod 2) + (2 * m + 2) * (k div 2)" for n m k :: nat
proof -
  have "n + (m + 1) * (r + 2 * q) = n + (m + 1) * r + (2 * m + 2) * q" for r q :: nat by (simp add: algebra_simps)
  from this [of "k mod 2" "k div 2"] show ?thesis by simp
qed

text \<open>One round of the loops multiplies the result when the exponent is odd and squares the factor.\<close>

lemma multiply_when_odd:
  assumes "big_shape b" "factor b s" "factor b r" "near (man_eps b) m (bval s) S" "near (man_eps b) n (bval r) R"
  obtains r' where "(if odd k then do { (d, result) \<leftarrow> Big_Mul r s True; Some (0 + d, result) } else Some (0, r)) = Some (0, r')"
      "factor b r'" "near (man_eps b) (n + (m + 1) * (k mod 2)) (bval r') (R * S ^ (k mod 2))"
    | r' where "(if odd k then do { (d, result) \<leftarrow> Big_Mul r s True; Some (0 + d, result) } else Some (0, r)) = Some (1, r')" "same_type r' b"
proof (cases "odd k")
  case False
  then show thesis using that(1) [of r] assms(3,5) by (simp add: even_iff_mod_2_eq_zero)
next
  case True
  show thesis
  proof (rule factor_Mul [OF assms(1,3,2,5,4)])
    fix z assume "Big_Mul r s True = Some (0, z)" "factor b z" "near (man_eps b) (n + m + 1) (bval z) (R * S)"
    then show thesis using True that(1) [of z] by (simp add: odd_iff_mod_2_eq_one)
  next
    fix z assume "Big_Mul r s True = Some (1, z)" "same_type z b"
    then show thesis using True that(2) [of z] by simp
  qed
qed

text \<open>After a carry the loops end with a result of the same type.\<close>

lemma power_result_carry: "c \<noteq> 0 \<Longrightarrow> same_type r b \<Longrightarrow> power_result b n y (Some (c, r))"
  by (simp add: power_result_def)

lemma power_result_done: "factor b r \<Longrightarrow> near (man_eps b) n (bval r) y \<Longrightarrow> power_result b n y (Some (0, r))"
  by (simp add: power_result_def factor_def)

lemma Big_Pow_loop_value:
  assumes "big_shape b"
  shows "factor b s \<Longrightarrow> factor b r \<Longrightarrow> near (man_eps b) m (bval s) S \<Longrightarrow> near (man_eps b) n (bval r) R \<Longrightarrow> p \<noteq> [] \<Longrightarrow>
    power_result b (n + (m + 1) * uval p) (R * S ^ uval p) (Big_Pow_loop s r p 0)"
proof (induction "uval p" arbitrary: s r p m n S R rule: less_induct)
  case less
  let ?k = "uval p" and ?p = "utab (length p) (uval p div 2)"
  obtain d where rcr: "UInt_Rcr p 1 0 = Some (d, ?p)"
    using Rcr_result [OF less.prems(5), of 1 0] by (simp add: shr_value_def fill_bits_def)
  have "?k div 2 < W ^ length p" using uval_less [of p] by (meson div_le_dividend le_less_trans)
  then have up: "uval ?p = ?k div 2" by (rule uval_utab_exact)
  have pz: "UInt_IsZero ?p \<longleftrightarrow> ?k div 2 = 0" by (simp only: UInt_IsZero_def all_zero_iff up)
  have loop: "Big_Pow_loop s r p 0 =
      (if odd ?k then do { (d, result) \<leftarrow> Big_Mul r s True; Some (0 + d, result) } else Some (0, r)) \<bind>
      (\<lambda>(c, result). if ?k div 2 = 0 then Some (c, result)
         else Big_Mul s s True \<bind> (\<lambda>(d, start). Big_Pow_loop start result ?p (c + d)))"
    by (subst Big_Pow_loop.simps) (simp only: and_1_table [OF less.prems(5)] rcr if_True pz Option.bind.bind_lunit prod.case simp_thms)
  show ?case
  proof (rule multiply_when_odd [OF assms less.prems(1-4), of ?k])
    fix r' assume r': "(if odd ?k then do { (d, result) \<leftarrow> Big_Mul r s True; Some (0 + d, result) } else Some (0, r)) = Some (1, r')" "same_type r' b"
    show ?case
      by (rule factor_Mul [OF assms less.prems(1,1,3,3)])
        (simp_all add: loop r' power_result_carry Pow_loop_carry)
  next
    fix r' assume r': "(if odd ?k then do { (d, result) \<leftarrow> Big_Mul r s True; Some (0 + d, result) } else Some (0, r)) = Some (0, r')" "factor b r'"
      "near (man_eps b) (n + (m + 1) * (?k mod 2)) (bval r') (R * S ^ (?k mod 2))"
    show ?case
    proof (cases "?k div 2 = 0")
      case True
      then have "?k mod 2 = ?k" by simp
      then show ?thesis
        using True power_result_done [OF r'(2,3)] by (simp only: loop r'(1) Option.bind.bind_lunit prod.case if_True simp_thms)
    next
      case False
      then have k: "uval ?p < ?k" "?p \<noteq> []" using up less.prems(5) by simp_all
      show ?thesis
      proof (rule factor_Mul [OF assms less.prems(1,1,3,3)])
        fix s' assume s': "Big_Mul s s True = Some (0, s')" "factor b s'" "near (man_eps b) (m + m + 1) (bval s') (S * S)"
        have "power_result b (n + (m + 1) * ?k) (R * S ^ ?k) (Big_Pow_loop s' r' ?p 0)"
          using less.hyps [OF k(1) s'(2) r'(2) s'(3) r'(3) k(2)] unfolding up odd_step [of n m ?k] power_step [of R S ?k] by (simp add: mult_2)
        then show ?thesis using False r'(1) s'(1) by (simp add: loop)
      next
        fix s' assume "Big_Mul s s True = Some (1, s')" "same_type s' b"
        then show ?thesis using False r'(1,2) by (simp add: loop Pow_loop_carry power_result_carry factor_def)
      qed
    qed
  qed
qed

lemma assign_same_type:
  assumes "same_type x b" "exponent b \<noteq> []"
  shows "Big_assign b x = x"
proof -
  have l: "length (exponent x) = length (exponent b)" "length (mantissa x) = length (mantissa b)"
    using assms(1) by (simp_all add: same_type_def)
  have "exponent x \<noteq> []" using l(1) assms(2) by (metis length_0_conv)
  then have "Int_FromInt_Int (exponent b) (exponent x) = (of_bool (\<not> fits (length (exponent b)) (ival (exponent x))), exponent x)"
    using FromInt_Int_result [OF assms(2)] itab_ival [of "exponent x"] by (simp add: l(1))
  then show ?thesis using l(2) by (simp add: Big_assign_def Int_assign_def UInt_assign_def)
qed

text \<open>What \<^verbatim>\<open>Pow\<close> returns: a carry and a value that is not a number, or a number near the power.\<close>

definition power_outcome :: "big \<Rightarrow> nat \<Rightarrow> (uint \<times> big) option \<Rightarrow> bool" where
  "power_outcome b k res \<longleftrightarrow> (\<exists>c z. res = Some (c, z) \<and> same_type z b \<and> (c \<noteq> 0 \<longrightarrow> c = 1 \<and> Big_IsNan z) \<and>
     (c = 0 \<longrightarrow> standard z \<and> \<not> Big_IsNan z \<and> \<not> Big_IsZero z \<and> near (man_eps b) k (bval z) (bval b ^ k)))"

lemma power_outcomeI:
  assumes "big_shape b" "power_result b k (bval b ^ k) res"
  shows "power_outcome b k (res \<bind> (\<lambda>(c, result). Some (Big_CheckCarry (Big_assign b result) c)))"
proof -
  from assms(2) obtain c z where z: "res = Some (c, z)" "same_type z b" "c = 0 \<longrightarrow> standard z \<and> \<not> Big_IsNan z \<and> \<not> Big_IsZero z \<and>
     near (man_eps b) k (bval z) (bval b ^ k)" by (auto simp: power_result_def)
  have "Big_assign b z = z" by (rule assign_same_type [OF z(2) shape_Nil(1) [OF assms(1)]])
  then show ?thesis using z by (cases "c = 0") (simp_all add: power_outcome_def Big_CheckCarry_def same_type_def)
qed

lemma factor_start:
  assumes "standard b" "\<not> Big_IsNan b" "\<not> Big_IsZero b"
  shows "big_shape b" "factor b b" "factor b (Big_SetOne b)" "near (man_eps b) 0 (bval b) (bval b)" "near (man_eps b) 0 (bval (Big_SetOne b)) 1"
proof -
  note sh = standard_shape [OF assms(1)]
  have "same_type (Big_SetOne b) b" using assign_sint_ival(2) [OF shape_Nil(1) [OF sh]] by (simp add: same_type_def Big_SetOne_def Let_def)
  then show "big_shape b" "factor b b" "factor b (Big_SetOne b)" "near (man_eps b) 0 (bval b) (bval b)" "near (man_eps b) 0 (bval (Big_SetOne b)) 1"
    using sh assms SetOne_standard [OF sh] standard_zero_iff [OF assms(1)] by (simp_all add: factor_def same_type_def near_def)
qed

lemma Pow_UInt_value:
  assumes "standard b" "\<not> Big_IsNan b" "\<not> Big_IsZero b" "p \<noteq> []"
  shows "power_outcome b (uval p) (Big_Pow_UInt b p)"
proof -
  note F = factor_start [OF assms(1-3)]
  have "power_result b (uval p) (bval b ^ uval p) (Big_Pow_loop b (Big_SetOne b) p 0)"
    using Big_Pow_loop_value [OF F assms(4)] by simp
  from power_outcomeI [OF F(1) this] show ?thesis using assms by (simp add: Big_Pow_UInt_def)
qed

lemma Pow_UInt_zero:
  assumes "Big_IsZero b" "\<not> Big_IsNan b"
  shows "Big_Pow_UInt b p = Some (if uval p = 0 then (2, Big_SetNan b) else (0, b))"
  using assms by (simp add: Big_Pow_UInt_def UInt_IsZero_def all_zero_iff)

text \<open>A negative exponent: the reciprocal of the power, with the rounding of one division.\<close>

definition reciprocal_outcome :: "big \<Rightarrow> nat \<Rightarrow> (uint \<times> big) option \<Rightarrow> bool" where
  "reciprocal_outcome b k res \<longleftrightarrow> (\<exists>c z. res = Some (c, z) \<and> same_type z b \<and> (c \<noteq> 0 \<longrightarrow> c = 1 \<and> Big_IsNan z) \<and>
     (c = 0 \<longrightarrow> standard z \<and> \<not> Big_IsNan z \<and>
       (\<exists>y. near (man_eps b) k y (bval b ^ k) \<and> \<bar>bval z - 1 / y\<bar> < 2 powi ival (exponent z))))"

lemma reciprocal_outcomeI:
  assumes "standard b" "\<not> Big_IsNan b" "\<not> Big_IsZero b" "power_outcome b k res" "x = 0 \<or> x = 1"
  shows "reciprocal_outcome b k (res \<bind> (\<lambda>(d, t). Big_Div (Big_SetOne b) t True \<bind> (\<lambda>(e, b). Some (Big_CheckCarry b (x + d + e)))))"
proof -
  from assms(4) obtain d t where t: "res = Some (d, t)" "same_type t b" "d \<noteq> 0 \<longrightarrow> d = 1 \<and> Big_IsNan t"
    "d = 0 \<longrightarrow> standard t \<and> \<not> Big_IsNan t \<and> \<not> Big_IsZero t \<and> near (man_eps b) k (bval t) (bval b ^ k)" by (auto simp: power_outcome_def)
  note F = factor_start(3) [OF assms(1-3), unfolded factor_def]
  show ?thesis
  proof (cases "d = 0")
    case False
    then have "x + 1 + 1 \<noteq> 0" "Big_Div (Big_SetOne b) t True = Some (1, Big_SetNan (Big_SetOne b))"
      using t(3) assms(5) Div_nan by auto
    then show ?thesis using False t(1,3) F by (simp add: reciprocal_outcome_def Big_CheckCarry_def same_type_def)
  next
    case True
    have "same_type (Big_SetOne b) t" using F t(2) by (simp add: same_type_def)
    from Div_value [OF _ _ this, of True] obtain e z where z: "Big_Div (Big_SetOne b) t True = Some (e, z)" "same_type z (Big_SetOne b)"
      "e \<noteq> 0 \<longrightarrow> e = 1 \<and> Big_IsNan z" "e = 0 \<longrightarrow> standard z \<and> \<not> Big_IsNan z \<and> \<bar>bval z - bval (Big_SetOne b) / bval t\<bar> < 2 powi ival (exponent z)"
      using F t(4) True by auto
    have one: "bval (Big_SetOne b) = 1" by (rule SetOne_standard(2) [OF standard_shape [OF assms(1)]])
    have zb: "same_type z b" "same_type (Big_SetNan z) b" using z(2) F by (simp_all add: same_type_def)
    have "x + e \<noteq> 0 \<longleftrightarrow> x \<noteq> 0 \<or> e \<noteq> 0" using assms(5) z(3) by auto
    then show ?thesis using True t z zb one by (auto simp: reciprocal_outcome_def Big_CheckCarry_def)
  qed
qed

lemma Pow_Int_negative:
  assumes "standard b" "\<not> Big_IsNan b" "\<not> Big_IsZero b" "p \<noteq> []" "ival p < 0"
  shows "reciprocal_outcome b (nat \<bar>ival p\<bar>) (Big_Pow_Int b p)"
proof -
  have s: "Int_IsSign p" using IsSign_iff [OF assms(4)] assms(5) by simp
  note M = magnitude_table [OF assms(4)]
  have "snd (Int_ChangeSign p) \<noteq> []" using M(2) s assms(4) by (metis length_0_conv)
  note P = Pow_UInt_value [OF assms(1-3) this]
  have c: "fst (Int_ChangeSign p) = 0 \<or> fst (Int_ChangeSign p) = 1" by (simp add: ChangeSign_result [OF assms(4)])
  have "uval (snd (Int_ChangeSign p)) = nat \<bar>ival p\<bar>" using M(1) s by simp
  with reciprocal_outcomeI [OF assms(1-3) P c] show ?thesis
    using assms(2,3) s by (simp add: Big_Pow_Int_def case_prod_beta)
qed

section \<open>The exponent as a Big\<close>

text \<open>Halving the exponent of the power, by subtracting one from its own exponent.\<close>

lemma halved:
  assumes "standard p" "\<not> Big_IsNan p" "\<not> Big_IsSign p" "fits (length (exponent p)) (ival (exponent p) - 1)"
  defines "q \<equiv> p\<lparr>exponent := itab (length (exponent p)) (ival (exponent p) - 1)\<rparr>"
  shows "Int_SubOne (exponent p) = Some (0, exponent q)" "same_type q p" "\<not> Big_IsNan q" "\<not> Big_IsSign q"
    "\<not> Big_IsZero p \<Longrightarrow> standard q \<and> bval q = bval p / 2"
proof -
  note sh = standard_shape [OF assms(1)]
  show "Int_SubOne (exponent p) = Some (0, exponent q)" using SubOne_ival [OF shape_Nil(1) [OF sh]] assms(4) by (simp add: q_def)
  show t: "same_type q p" "\<not> Big_IsNan q" "\<not> Big_IsSign q" using assms(2,3) by (simp_all add: q_def same_type_def)
  assume z: "\<not> Big_IsZero p"
  have "standard q" using assms(1) z shape_same_type [OF t(1)] by (simp add: standard_def q_def)
  moreover have "bval q = bval p / 2"
  proof -
    have "(2 :: real) powi ival (exponent p) = 2 powi (ival (exponent p) - 1) * 2"
      using powi_add_2 [of "ival (exponent p) - 1" 1] by simp
    then show ?thesis using assms(3,4) by (simp add: q_def bval_def bsign_def ival_itab)
  qed
  ultimately show "standard q \<and> bval q = bval p / 2" ..
qed

lemma halved_less_one:
  assumes "standard p" "\<not> Big_IsNan p" "\<not> Big_IsSign p" "fits (length (exponent p)) (ival (exponent p) - 1)" "same_type p b" "big_shape b"
  defines "q \<equiv> p\<lparr>exponent := itab (length (exponent p)) (ival (exponent p) - 1)\<rparr>"
  shows "Big_less q (Big_SetOne b) \<longleftrightarrow> bval p / 2 < 1"
proof (cases "Big_IsZero p")
  case True
  note O = SetOne_standard [OF assms(6)]
  have "bval p = 0" using True standard_zero_iff [OF assms(1)] by simp
  moreover have "\<not> Big_IsSign (Big_SetOne b)" using bval_sign [OF O(1)] O(2) by simp
  ultimately show ?thesis using True O(4) assms(3) by (simp add: Big_less_def Big_SmallerWithoutSignThan_def q_def)
next
  case False
  note H = halved [OF assms(1-4), folded q_def] and O = SetOne_standard [OF assms(6)]
  have "same_type (Big_SetOne b) b" using assign_sint_ival(2) [OF shape_Nil(1) [OF assms(6)]] by (simp add: same_type_def Big_SetOne_def Let_def)
  then have "same_type q (Big_SetOne b)" using H(2) assms(5) by (simp add: same_type_def)
  then show ?thesis using Big_comparison(1) [of q "Big_SetOne b"] H(5) [OF False] O by simp
qed

lemma whole_exponent:
  assumes "standard p" "1 \<le> bval p"
  shows "fits (length (exponent p)) (ival (exponent p) - 1)"
proof -
  note sh = standard_shape [OF assms(1)]
  have "\<not> Big_IsZero p" using standard_zero_iff [OF assms(1)] assms(2) by auto
  then have "- int (man_bits p) < ival (exponent p)" using too_big_iff [OF assms(1), of 0] assms(2) by simp
  moreover have "fits (length (exponent p)) (- int (man_bits p))"
    using shape_bits [OF sh] by (intro fits_small shape_Nil(1) [OF sh]) simp
  moreover have "fits (length (exponent p)) (ival (exponent p))" by (rule ival_bounds)
  ultimately show ?thesis using fits_between [of _ "- int (man_bits p)" "ival (exponent p)" "ival (exponent p) - 1"] by simp
qed

lemma PowUInt_loop_value:
  assumes "big_shape b"
  shows "factor b s \<Longrightarrow> factor b r \<Longrightarrow> near (man_eps b) m (bval s) S \<Longrightarrow> near (man_eps b) n (bval r) R \<Longrightarrow>
    standard p \<Longrightarrow> \<not> Big_IsNan p \<Longrightarrow> \<not> Big_IsSign p \<Longrightarrow> same_type p b \<Longrightarrow> fits (length (exponent p)) (ival (exponent p) - 1) \<Longrightarrow>
    power_result b (n + (m + 1) * nat \<lfloor>bval p\<rfloor>) (R * S ^ nat \<lfloor>bval p\<rfloor>) (Big_PowUInt_loop (Big_SetOne b) s r p 0)"
proof (induction "nat \<lfloor>bval p\<rfloor>" arbitrary: s r p m n S R rule: less_induct)
  case less
  let ?k = "nat \<lfloor>bval p\<rfloor>" and ?q = "p\<lparr>exponent := itab (length (exponent p)) (ival (exponent p) - 1)\<rparr>"
  have sel: "exponent ?q = itab (length (exponent p)) (ival (exponent p) - 1)" by simp
  note H = halved [OF less.prems(5-7,9), unfolded sel] and L = halved_less_one [OF less.prems(5-7,9,8) assms]
  have nonneg: "0 \<le> bval p" using bval_sign [OF less.prems(5)] less.prems(7) by simp
  have mod2: "Big_Mod2 p = Some (of_bool (odd ?k))"
    using Mod2_value [OF less.prems(5)] nonneg by (simp add: even_nat_iff)
  have k2: "nat \<lfloor>bval p / 2\<rfloor> = ?k div 2" using nonneg floor_divide_real_eq_div [of 2 "bval p"] by (simp add: nat_div_distrib)
  have lt: "Big_less ?q (Big_SetOne b) \<longleftrightarrow> ?k div 2 = 0"
    unfolding L k2 [symmetric] using nonneg by (simp add: floor_less_iff)
  have loop: "Big_PowUInt_loop (Big_SetOne b) s r p 0 =
      (if odd ?k then do { (d, result) \<leftarrow> Big_Mul r s True; Some (0 + d, result) } else Some (0, r)) \<bind>
      (\<lambda>(c, result). if ?k div 2 = 0 then Some (c, result)
         else Big_Mul s s True \<bind> (\<lambda>(d, start). Big_PowUInt_loop (Big_SetOne b) start result ?q (c + d)))"
    by (subst Big_PowUInt_loop.simps)
      (simp only: mod2 H(1) Option.bind.bind_lunit prod.case Let_def simp_thms if_True add_0_right lt of_bool_eq_0_iff not_not)
  show ?case
  proof (rule multiply_when_odd [OF assms less.prems(1-4), of ?k])
    fix r' assume r': "(if odd ?k then do { (d, result) \<leftarrow> Big_Mul r s True; Some (0 + d, result) } else Some (0, r)) = Some (1, r')" "same_type r' b"
    show ?case
      by (rule factor_Mul [OF assms less.prems(1,1,3,3)]) (simp_all add: loop r' power_result_carry Pow_loop_carry)
  next
    fix r' assume r': "(if odd ?k then do { (d, result) \<leftarrow> Big_Mul r s True; Some (0 + d, result) } else Some (0, r)) = Some (0, r')" "factor b r'"
      "near (man_eps b) (n + (m + 1) * (?k mod 2)) (bval r') (R * S ^ (?k mod 2))"
    show ?case
    proof (cases "?k div 2 = 0")
      case True
      then have "?k mod 2 = ?k" by simp
      then show ?thesis
        using True power_result_done [OF r'(2,3)] by (simp only: loop r'(1) Option.bind.bind_lunit prod.case if_True simp_thms)
    next
      case False
      then have "\<not> Big_IsZero p" using standard_zero_iff [OF less.prems(5)] by auto
      then have q: "standard ?q" "bval ?q = bval p / 2" using H(5) by simp_all
      have "0 < nat \<lfloor>bval p / 2\<rfloor>" unfolding k2 using False by simp
      then have big: "1 \<le> bval p / 2" by simp
      have k: "nat \<lfloor>bval ?q\<rfloor> < ?k" unfolding q(2) k2 using False by simp
      have t: "same_type ?q b" using H(2) less.prems(8) by (simp add: same_type_def)
      have f: "fits (length (exponent ?q)) (ival (exponent ?q) - 1)" by (rule whole_exponent [OF q(1)]) (use big q(2) in simp)
      show ?thesis
      proof (rule factor_Mul [OF assms less.prems(1,1,3,3)])
        fix s' assume s': "Big_Mul s s True = Some (0, s')" "factor b s'" "near (man_eps b) (m + m + 1) (bval s') (S * S)"
        have "power_result b (n + (m + 1) * ?k) (R * S ^ ?k) (Big_PowUInt_loop (Big_SetOne b) s' r' ?q 0)"
          using less.hyps [OF k s'(2) r'(2) s'(3) r'(3) q(1) H(3,4) t f]
          unfolding q(2) k2 odd_step [of n m ?k] power_step [of R S ?k] by (simp add: mult_2)
        then show ?thesis using False r'(1) s'(1) by (simp add: loop)
      next
        fix s' assume "Big_Mul s s True = Some (1, s')" "same_type s' b"
        then show ?thesis using False r'(1,2) by (simp add: loop Pow_loop_carry power_result_carry factor_def)
      qed
    qed
  qed
qed

lemma PowUInt_value:
  assumes "standard b" "\<not> Big_IsNan b" "\<not> Big_IsZero b"
  assumes "standard p" "\<not> Big_IsNan p" "same_type p b" "fits (length (exponent p)) (ival (exponent p) - 1)"
  shows "power_outcome b (nat \<lfloor>\<bar>bval p\<bar>\<rfloor>) (Big_PowUInt b p)"
proof -
  note F = factor_start [OF assms(1-3)]
  define q where "q = (if Big_IsSign p then Big_Abs p else p)"
  have q: "standard q" "\<not> Big_IsNan q" "\<not> Big_IsSign q" "same_type q b" "exponent q = exponent p"
    using assms(4-6) by (auto simp: q_def standard_def big_shape_def same_type_def)
  have v: "bval q = \<bar>bval p\<bar>" by (auto simp: q_def abs_bval bval_def bsign_def)
  have "power_result b (nat \<lfloor>\<bar>bval p\<bar>\<rfloor>) (bval b ^ nat \<lfloor>\<bar>bval p\<bar>\<rfloor>) (Big_PowUInt_loop (Big_SetOne b) b (Big_SetOne b) q 0)"
    using PowUInt_loop_value [OF F(1-5) q(1-4)] assms(7) q(5) v by simp
  from power_outcomeI [OF F(1) this] show ?thesis
    using assms(2,3,5) by (simp add: Big_PowUInt_def q_def [symmetric] Let_def)
qed

text \<open>
  An exponent so small that it cannot be halved: its integer part is zero, but the exponent wraps around
  and the carry ends the loop.
\<close>

lemma PowUInt_wrapped:
  assumes "standard b" "\<not> Big_IsNan b" "\<not> Big_IsZero b"
  assumes "standard p" "\<not> Big_IsNan p" "same_type p b" "\<not> fits (length (exponent p)) (ival (exponent p) - 1)"
  shows "\<exists>z. Big_PowUInt b p = Some (1, z) \<and> same_type z b \<and> Big_IsNan z"
proof -
  note F = factor_start [OF assms(1-3)]
  let ?one = "Big_SetOne b"
  define q where "q = (if Big_IsSign p then Big_Abs p else p)"
  have q: "standard q" "exponent q = exponent p" using assms(4) by (auto simp: q_def standard_def big_shape_def)
  have v: "bval q = \<bar>bval p\<bar>" by (auto simp: q_def abs_bval bval_def bsign_def)
  have "\<not> 1 \<le> bval q" using whole_exponent [OF q(1)] assms(7) q(2) by auto
  then have "\<lfloor>\<bar>bval q\<bar>\<rfloor> = 0" by (simp add: floor_eq_iff v not_le)
  then have "Big_Mod2 q = Some 0" using Mod2_value [OF q(1)] by simp
  moreover obtain e where e: "Int_SubOne (exponent q) = Some (1, e)"
    using SubOne_ival [of "exponent q"] shape_Nil(1) [OF standard_shape [OF q(1)]] assms(7) q(2) by simp
  moreover obtain d s where ds: "Big_Mul b b True = Some (d, s)" "d = 0 \<or> d = 1"
    using Mul_near [OF assms(1,1) _ assms(2,2,3,3)] by (metis same_type_def)
  ultimately obtain c where c: "Big_PowUInt_loop ?one b ?one q 0 = Some (c, ?one)" "c \<noteq> 0"
    using Pow_loop_carry(2) by (cases "Big_less (q\<lparr>exponent := e\<rparr>) ?one") (auto simp: Big_PowUInt_loop.simps Let_def)
  have "same_type ?one b" using F(3) by (simp add: factor_def)
  moreover have "Big_assign b ?one = ?one" by (rule assign_same_type [OF calculation shape_Nil(1) [OF F(1)]])
  ultimately show ?thesis
    using assms(2,3,5) c by (simp add: Big_PowUInt_def q_def [symmetric] Let_def Big_CheckCarry_def same_type_def)
qed

lemma PowInt_negative:
  assumes "standard b" "\<not> Big_IsNan b" "\<not> Big_IsZero b"
  assumes "standard p" "\<not> Big_IsNan p" "same_type p b" "fits (length (exponent p)) (ival (exponent p) - 1)" "bval p < 0"
  shows "reciprocal_outcome b (nat \<lfloor>\<bar>bval p\<bar>\<rfloor>) (Big_PowInt b p)"
  using reciprocal_outcomeI [OF assms(1-3) PowUInt_value [OF assms(1-7)], of 0] bval_sign [OF assms(4)] assms(2,3,5,8)
  by (simp add: Big_PowInt_def)

text \<open>Arguments without a power.\<close>

lemma Pow_errors:
  assumes "\<not> Big_IsNan b" "Big_IsZero b"
  shows "Int_IsSign e \<Longrightarrow> Big_Pow_Int b e = Some (2, Big_SetNan b)"
    "Big_IsZero p \<Longrightarrow> \<not> Big_IsNan p \<Longrightarrow> Big_PowUInt b p = Some (2, Big_SetNan b)"
    "Big_IsSign p \<Longrightarrow> \<not> Big_IsNan p \<Longrightarrow> Big_PowInt b p = Some (2, Big_SetNan b)"
  using assms by (simp_all add: Big_Pow_Int_def Big_PowUInt_def Big_PowInt_def)

lemma Pow_nan:
  assumes "Big_IsNan b"
  shows "Big_Pow_UInt b e = Some (1, b)" "Big_Pow_Int b e = Some (1, b)"
    "Big_PowUInt b p = Some (1, Big_SetNan b)" "Big_PowInt b p = Some (1, Big_SetNan b)"
  using assms by (simp_all add: Big_Pow_UInt_def Big_Pow_Int_def Big_PowUInt_def Big_PowInt_def Big_CheckCarry_def)

text \<open>
  The smallest positive number as an exponent: its integer part is zero, but halving it wraps the
  exponent around, and the power is not a number.
\<close>

definition tiny :: big where
  "tiny = \<lparr>exponent = [TTMATH_UINT_HIGHEST_BIT], mantissa = [TTMATH_UINT_HIGHEST_BIT], info = 0\<rparr>"

lemma PowUInt_tiny: "map_option fst (Big_PowUInt (Big_SetOne tiny) tiny) = Some 1"
  by code_simp

end
