(* ===== verification/Big_Operators.thy ===== *)
theory Big_Operators
  imports Big_Pow
begin

text \<open>
  The operators of \<^verbatim>\<open>Big\<close> (\<^verbatim>\<open>ttmathbig.h\<close>), which call the methods and drop the carry: what is left
  of an error is the flag of the result.
\<close>

section \<open>Definitions\<close>

definition Big_uminus :: "big \<Rightarrow> big" where
  "Big_uminus b = (let temp = b in Big_ChangeSign temp)"

definition Big_minus :: "big \<Rightarrow> big \<Rightarrow> big option" where
  "Big_minus b ss2 = (let temp = b in map_option snd (Big_Sub temp ss2 True))"

definition Big_minus_assign :: "big \<Rightarrow> big \<Rightarrow> big option" where
  "Big_minus_assign b ss2 = map_option snd (Big_Sub b ss2 True)"

definition Big_plus :: "big \<Rightarrow> big \<Rightarrow> big option" where
  "Big_plus b ss2 = (let temp = b in map_option snd (Big_Add temp ss2 True True))"

definition Big_plus_assign :: "big \<Rightarrow> big \<Rightarrow> big option" where
  "Big_plus_assign b ss2 = map_option snd (Big_Add b ss2 True True)"

definition Big_times :: "big \<Rightarrow> big \<Rightarrow> big option" where
  "Big_times b ss2 = (let temp = b in map_option snd (Big_Mul temp ss2 True))"

definition Big_times_assign :: "big \<Rightarrow> big \<Rightarrow> big option" where
  "Big_times_assign b ss2 = map_option snd (Big_Mul b ss2 True)"

definition Big_divide :: "big \<Rightarrow> big \<Rightarrow> big option" where
  "Big_divide b ss2 = (let temp = b in map_option snd (Big_Div temp ss2 True))"

definition Big_divide_assign :: "big \<Rightarrow> big \<Rightarrow> big option" where
  "Big_divide_assign b ss2 = map_option snd (Big_Div b ss2 True)"

definition Big_pre_inc :: "big \<Rightarrow> big option" where
  "Big_pre_inc b = map_option snd (Big_AddOne b)"

definition Big_post_inc :: "big \<Rightarrow> (big \<times> big) option" where
  "Big_post_inc b = (let temp = b in map_option (\<lambda>(_, b). (temp, b)) (Big_AddOne b))"

definition Big_pre_dec :: "big \<Rightarrow> big option" where
  "Big_pre_dec b = map_option snd (Big_SubOne b)"

definition Big_post_dec :: "big \<Rightarrow> (big \<times> big) option" where
  "Big_post_dec b = (let temp = b in map_option (\<lambda>(_, b). (temp, b)) (Big_SubOne b))"

definition Big_and :: "big \<Rightarrow> big \<Rightarrow> big option" where
  "Big_and b p2 = (let temp = b in map_option snd (Big_BitAnd temp p2))"

definition Big_and_assign :: "big \<Rightarrow> big \<Rightarrow> big option" where
  "Big_and_assign b p2 = map_option snd (Big_BitAnd b p2)"

definition Big_or :: "big \<Rightarrow> big \<Rightarrow> big option" where
  "Big_or b p2 = (let temp = b in map_option snd (Big_BitOr temp p2))"

definition Big_or_assign :: "big \<Rightarrow> big \<Rightarrow> big option" where
  "Big_or_assign b p2 = map_option snd (Big_BitOr b p2)"

definition Big_xor :: "big \<Rightarrow> big \<Rightarrow> big option" where
  "Big_xor b p2 = (let temp = b in map_option snd (Big_BitXor temp p2))"

definition Big_xor_assign :: "big \<Rightarrow> big \<Rightarrow> big option" where
  "Big_xor_assign b p2 = map_option snd (Big_BitXor b p2)"

end
