(* ===== verification/Big_Double.thy ===== *)
theory Big_Double
  imports Big_Convert Geos_Coordinate
begin

text \<open>
  Conversions between \<^verbatim>\<open>Big\<close> and \<^verbatim>\<open>double\<close> on 64-bit platforms (\<^verbatim>\<open>ttmathbig.h\<close>). A \<^verbatim>\<open>double\<close> is its
  64 bits, as in the comparisons of coordinates; \<open>dvalue\<close> is its value. Every finite \<^verbatim>\<open>double\<close>
  is converted exactly, back the mantissa is cut.
\<close>

section \<open>Definitions\<close>

definition Big_FromDouble_SetExpAndMan :: "big \<Rightarrow> bool \<Rightarrow> sint \<Rightarrow> uint \<Rightarrow> uint \<Rightarrow> big option" where
  "Big_FromDouble_SetExpAndMan b is_sign e mhighest m =
     (let man = length (mantissa b);
          b = b\<lparr>exponent := Int_assign_sint (exponent b) e, mantissa := replicate (man - 1) 0 @ [m OR mhighest], info := 0\<rparr>
      in if UInt_IsZero (mantissa b) then None
         else Some (if is_sign then Big_SetSign b else b))"

definition Big_FromDouble :: "big \<Rightarrow> double \<Rightarrow> (uint \<times> big) option" where
  "Big_FromDouble b value =
     (let man = length (mantissa b);
          e = drop_bit 52 (value AND 0x7FF0000000000000);
          m = push_bit 11 (value AND 0xFFFFFFFFFFFFF)
      in if e = 2047 then Some (0, Big_SetNan b)
         else if 0 <s e then do {
           b \<leftarrow> Big_FromDouble_SetExpAndMan b (value AND 0x8000000000000000 \<noteq> 0)
             (e - 1023 - of_nat (man * TTMATH_BITS_PER_UINT) + 1) 0x8000000000000000 m;
           Some (0, b)
         } else if m \<noteq> 0 then do {
           b \<leftarrow> Big_FromDouble_SetExpAndMan b (value AND 0x8000000000000000 \<noteq> 0)
             (e - 1022 - of_nat (man * TTMATH_BITS_PER_UINT) + 1) 0 m;
           (_, b) \<leftarrow> Big_Standardizing b;
           Some (0, b)
         } else Some (0, Big_SetZero b))"

definition Big_ToDouble_SetDouble :: "big \<Rightarrow> bool \<Rightarrow> uint \<Rightarrow> sint \<Rightarrow> bool \<Rightarrow> bool \<Rightarrow> double" where
  "Big_ToDouble_SetDouble b is_sign e move infinity nan =
     (let u = 0;
          u = (if is_sign then u OR 0x8000000000000000 else u);
          u = u OR (push_bit 52 e AND 0x7FF0000000000000)
      in if nan then u OR 1
         else if infinity then u
         else let m = mantissa b ! (length (mantissa b) - 1);
                  m = drop_bit (unat (12 + move)) m;
                  m = m AND 0xFFFFFFFFFFFFF
              in u OR m)"

definition Big_ToDouble :: "big \<Rightarrow> uint \<times> double" where
  "Big_ToDouble b =
     (if Big_IsZero b then (0, d_zero)
      else if Big_IsNan b then (0, Big_ToDouble_SetDouble b False 2047 0 False True)
      else let e_correction = of_nat (length (mantissa b) * TTMATH_BITS_PER_UINT) - 1
           in if Int_greater_equal (exponent b) (Int_new_sint (exponent b) (1024 - e_correction))
              then (1, Big_ToDouble_SetDouble b (Big_IsSign b) 2047 0 True False)
              else if Int_less_equal (exponent b) (Int_new_sint (exponent b) (- 1023 - 52 - e_correction))
              then (1, d_zero)
              else let e = Int_ToInt (exponent b) + e_correction
                   in if e \<le>s - 1023
                      then (0, Big_ToDouble_SetDouble b (Big_IsSign b) 0 (- (e + 1023)) False False)
                      else (0, Big_ToDouble_SetDouble b (Big_IsSign b) (e + 1023) (- 1) False False))"

definition Big_ToDouble_value :: "big \<Rightarrow> double" where
  "Big_ToDouble_value b = snd (Big_ToDouble b)"

definition Big_assign_double :: "big \<Rightarrow> double \<Rightarrow> big option" where
  "Big_assign_double b value = map_option snd (Big_FromDouble b value)"

definition Big_new_double :: "big \<Rightarrow> double \<Rightarrow> big option" where
  "Big_new_double b value = map_option snd (Big_FromDouble b value)"

section \<open>Values of doubles\<close>

text \<open>The magnitude of a double counts the doubles up to it; their values are multiples of \<open>2 ^ - 1074\<close>.\<close>

definition mag_value :: "nat \<Rightarrow> nat" where
  "mag_value n = (if n div 2 ^ 52 = 0 then n mod 2 ^ 52 else (2 ^ 52 + n mod 2 ^ 52) * 2 ^ (n div 2 ^ 52 - 1))"

definition dvalue :: "double \<Rightarrow> real" where
  "dvalue d = (if bit d 63 then - 1 else 1) * real (mag_value (dmag d)) * 2 powi (- 1074)"

definition d_finite :: "double \<Rightarrow> bool" where
  "d_finite d \<longleftrightarrow> dmag d < 0x7FF0000000000000"

lemma mag_value_Suc: "mag_value (Suc n) = mag_value n + 2 ^ (n div 2 ^ 52 - 1)"
proof -
  define P :: nat where "P = 2 ^ 52"
  have v: "mag_value m = (if m div P = 0 then m mod P else (P + m mod P) * 2 ^ (m div P - 1))" for m
    by (simp only: mag_value_def P_def)
  have "mag_value (Suc n) = mag_value n + 2 ^ (n div P - 1)"
  proof (cases "Suc (n mod P) = P")
    case True
    then have "Suc n div P = Suc (n div P)" "Suc n mod P = 0" by (simp_all add: div_Suc mod_Suc)
    then have "mag_value (Suc n) = P * 2 ^ (n div P)" by (simp add: v)
    also have "\<dots> = Suc (n mod P) * 2 ^ (n div P)" using True by simp
    also have "\<dots> = mag_value n + 2 ^ (n div P - 1)"
    proof (cases "n div P")
      case (Suc q)
      have "(P + n mod P) * 2 ^ q + 2 ^ q = (P + Suc (n mod P)) * 2 ^ q" by simp
      also have "\<dots> = Suc (n mod P) * 2 ^ Suc q" using True by simp
      finally show ?thesis using Suc by (simp only: v nat.distinct if_False diff_Suc_1)
    qed (simp add: v)
    finally show ?thesis .
  next
    case False
    then have "Suc n div P = n div P" "Suc n mod P = Suc (n mod P)" by (simp_all add: div_Suc mod_Suc)
    then show ?thesis by (simp add: v)
  qed
  then show ?thesis by (simp only: P_def)
qed

lemma mag_value_mono: "strict_mono mag_value"
  unfolding strict_mono_Suc_iff by (simp add: mag_value_Suc)

lemma mag_value_0 [simp]: "mag_value 0 = 0"
  by (simp add: mag_value_def)

text \<open>The order of doubles is the order of their values.\<close>

lemma dvalue_dkey: "dvalue d = (if dkey d < 0 then - real (mag_value (nat (- dkey d))) else real (mag_value (nat (dkey d)))) * 2 powi (- 1074)"
  by (auto simp: dvalue_def dkey_def)

lemma dvalue_less_iff: "dvalue a < dvalue b \<longleftrightarrow> dkey a < dkey b"
proof -
  define f where "f x = (if x < 0 then - real (mag_value (nat (- x))) else real (mag_value (nat x)))" for x :: int
  have pos: "real (mag_value m) < real (mag_value n) \<longleftrightarrow> m < n" for m n
    using strict_mono_less [OF mag_value_mono] by simp
  have f: "f x < f y" if "x < y" for x y
  proof -
    have "0 < real (mag_value n)" if "0 < n" for n using pos [of 0 n] that by simp
    moreover have "0 \<le> real (mag_value n)" for n by simp
    ultimately show ?thesis using that pos by (auto simp: f_def intro: order_less_le_trans [of _ 0])
  qed
  have "dvalue a < dvalue b \<longleftrightarrow> f (dkey a) < f (dkey b)" by (simp add: dvalue_dkey f_def)
  then show ?thesis using f [of "dkey a" "dkey b"] f [of "dkey b" "dkey a"] by (cases "dkey a" "dkey b" rule: linorder_cases) auto
qed

lemma dvalue_eq_iff: "dvalue a = dvalue b \<longleftrightarrow> dkey a = dkey b"
  using dvalue_less_iff [of a b] dvalue_less_iff [of b a] by (metis linorder_less_linear less_irrefl)

section \<open>The fields of a double\<close>

lemma dmag_mod: "dmag d = unat d mod 2 ^ 63"
proof -
  have "d AND 0x7FFFFFFFFFFFFFFF = take_bit 63 d" by (simp add: take_bit_eq_mask mask_eq_exp_minus_1)
  then have "dmag d = take_bit 63 (unat d)" by (simp only: dmag_def unsigned_take_bit_eq)
  then show ?thesis by (simp only: take_bit_eq_mod)
qed

lemma double_fields:
  shows "unat (drop_bit 52 (d AND 0x7FF0000000000000)) = dmag d div 2 ^ 52" "unat (d AND 0xFFFFFFFFFFFFF) = dmag d mod 2 ^ 52"
    "d AND 0x8000000000000000 \<noteq> 0 \<longleftrightarrow> bit d 63"
proof -
  have "drop_bit 52 (d AND 0x7FF0000000000000) = take_bit 11 (drop_bit 52 d)" by (simp add: drop_bit_and take_bit_eq_mask mask_eq_exp_minus_1)
  then have "unat (drop_bit 52 (d AND 0x7FF0000000000000)) = take_bit 11 (drop_bit 52 (unat d))"
    by (simp only: unsigned_take_bit_eq unat_drop_bit_eq)
  also have "\<dots> = drop_bit 52 (take_bit 63 (unat d))" using take_bit_drop_bit [of 11 52 "unat d"] by simp
  also have "\<dots> = dmag d div 2 ^ 52" by (simp only: dmag_mod take_bit_eq_mod drop_bit_eq_div)
  finally show "unat (drop_bit 52 (d AND 0x7FF0000000000000)) = dmag d div 2 ^ 52" .
  have "d AND 0xFFFFFFFFFFFFF = take_bit 52 d" by (simp add: take_bit_eq_mask mask_eq_exp_minus_1)
  then have "unat (d AND 0xFFFFFFFFFFFFF) = take_bit 52 (unat d)" by (simp only: unsigned_take_bit_eq)
  then show "unat (d AND 0xFFFFFFFFFFFFF) = dmag d mod 2 ^ 52" by (simp only: take_bit_eq_mod dmag_mod) (simp add: mod_mod_cancel)
  show "d AND 0x8000000000000000 \<noteq> 0 \<longleftrightarrow> bit d 63" using and_exp_eq_0_iff_not_bit [of d 63] by simp
qed

section \<open>From doubles\<close>

lemma SetExpAndMan_value:
  assumes "big_shape b" "\<bar>x\<bar> < 2 ^ 61" "m OR h \<noteq> 0"
  shows "\<exists>z. Big_FromDouble_SetExpAndMan b s (of_int x) h m = Some z \<and> same_type z b \<and> \<not> Big_IsNan z \<and> \<not> Big_IsZero z \<and>
    bval z = (if s then - 1 else 1) * real (unat (m OR h)) * 2 powi (x + int (man_bits b) - 64) \<and>
    ival (exponent z) = x \<and> (2 ^ 63 \<le> unat (m OR h) \<longrightarrow> standard z)"
proof -
  let ?n = "length (mantissa b)" and ?w = "m OR h"
  let ?z = "b\<lparr>exponent := Int_assign_sint (exponent b) (of_int x), mantissa := replicate (?n - 1) 0 @ [?w], info := 0\<rparr>"
  let ?r = "if s then Big_SetSign ?z else ?z"
  have n: "0 < ?n" using shape_Nil(2) [OF assms(1)] by simp
  have "\<bar>x\<bar> < 2 ^ 62" using assms(2) by simp
  note E = assign_sint_small [OF shape_Nil(1) [OF assms(1)] this]
  have u: "uval (replicate (?n - 1) 0 @ [?w]) = W ^ (?n - 1) * unat ?w" by (simp add: uval_append)
  then have "\<not> UInt_IsZero (replicate (?n - 1) 0 @ [?w])" using assms(3) by (simp add: UInt_IsZero_def all_zero_iff unat_eq_0)
  then have res: "Big_FromDouble_SetExpAndMan b s (of_int x) h m = Some ?r" by (simp add: Big_FromDouble_SetExpAndMan_def Let_def)
  have f: "\<not> Big_IsSign ?z" "\<not> Big_IsNan ?z" "\<not> Big_IsZero ?z" by (simp_all add: flags_iff)
  have t: "same_type ?r b" using n E(2) by (simp add: same_type_def)
  have "real (W ^ (?n - 1)) * 2 powi x = 2 powi (x + int (man_bits b) - 64)"
  proof -
    have "x + int (man_bits b) - 64 = int (64 * (?n - 1)) + x" using n by linarith
    then show ?thesis by (simp only: powi_add_2 powi_nat_2 W_power of_nat_power of_nat_numeral)
  qed
  moreover have "bval ?r = (if s then - 1 else 1) * real (W ^ (?n - 1) * unat ?w) * 2 powi x"
    using f(1) E(1) u by (simp add: bval_def bsign_def)
  ultimately have v: "bval ?r = (if s then - 1 else 1) * real (unat ?w) * 2 powi (x + int (man_bits b) - 64)" by (simp add: ac_simps)
  have top: "UInt_IsTheHighestBitSet (mantissa ?r)" if "2 ^ 63 \<le> unat ?w"
  proof -
    have "bit ?w 63" unfolding bit_63_iff using that by (simp add: W_def)
    then show ?thesis using n by (simp add: UInt_IsTheHighestBitSet_def nth_append and_highest_bit_iff)
  qed
  have "standard ?r" if "2 ^ 63 \<le> unat ?w" using top [OF that] f shape_same_type [OF t] assms(1) by (simp add: standard_def)
  then show ?thesis using res t f E(1) v by (intro exI [of _ ?r]) simp
qed

lemma mantissa_word:
  fixes m :: uint
  assumes "F < 2 ^ 52" "unat m = F * 2 ^ 11"
  shows "unat (m OR 0x8000000000000000) = 2 ^ 63 + F * 2 ^ 11"
proof -
  have "F * 2 ^ 11 < 2 ^ 63" using assms(1) by simp
  then have m: "unat m < 2 ^ 63" using assms(2) by simp
  then have "\<not> bit m 63" unfolding bit_63_iff by (simp add: W_def)
  then have "m AND 2 ^ 63 = 0" by (simp only: and_exp_eq_0_iff_not_bit simp_thms)
  then have "m + 2 ^ 63 = m OR 2 ^ 63" by (rule disjunctive_add_eq_or)
  moreover have "unat (m + 2 ^ 63) = unat m + 2 ^ 63"
    using m by (subst unat_plus_simple [THEN iffD1]) (simp_all add: no_olen_add_nat)
  ultimately show ?thesis using assms(2) by simp
qed

lemma double_mantissa:
  fixes d :: double
  defines "m \<equiv> push_bit 11 (d AND 0xFFFFFFFFFFFFF)"
  shows "unat m = (dmag d mod 2 ^ 52) * 2 ^ 11"
proof -
  have F: "unat (d AND 0xFFFFFFFFFFFFF) = dmag d mod 2 ^ 52" by (rule double_fields(2))
  have "dmag d mod 2 ^ 52 < 2 ^ 52" by simp
  then have "2 ^ 11 * (dmag d mod 2 ^ 52) < 2 ^ 64" by simp
  then show ?thesis unfolding m_def push_bit_eq_mult
    using F by (subst unat_mult_lem [THEN iffD1]) (simp_all add: mult.commute)
qed

lemma FromDouble_nan:
  assumes "\<not> d_finite d"
  shows "Big_FromDouble b d = Some (0, Big_SetNan b)"
proof -
  have "dmag d < 2 ^ 63" by (simp add: dmag_mod)
  then have "dmag d div 2 ^ 52 = 2047" using assms by (simp add: d_finite_def)
  then have "drop_bit 52 (d AND 0x7FF0000000000000) = 2047" using double_fields(1) [of d] by (simp add: word_unat_eq_iff)
  then show ?thesis by (simp add: Big_FromDouble_def Let_def)
qed

lemma FromDouble_value:
  assumes "big_shape b" "d_finite d"
  shows "\<exists>z. Big_FromDouble b d = Some (0, z) \<and> standard z \<and> \<not> Big_IsNan z \<and> same_type z b \<and> bval z = dvalue d"
proof -
  define E F where "E = dmag d div 2 ^ 52" and "F = dmag d mod 2 ^ 52"
  let ?e = "drop_bit 52 (d AND 0x7FF0000000000000)" and ?m = "push_bit 11 (d AND 0xFFFFFFFFFFFFF)" and ?B = "man_bits b"
  have E: "unat ?e = E" "E < 2047" using double_fields(1) [of d] assms(2) by (simp_all add: E_def d_finite_def less_mult_imp_div_less)
  have F: "unat ?m = F * 2 ^ 11" "F < 2 ^ 52" unfolding F_def by (rule double_mantissa, simp)
  have e: "?e = of_nat E" unfolding E(1) [symmetric] by simp
  have ne: "?e \<noteq> 2047" using E by (auto simp: word_unat_eq_iff)
  have "sint ?e = int E" unfolding e using sint_of_int_small [of "int E"] E(2) by simp
  then have pos: "0 <s ?e \<longleftrightarrow> E \<noteq> 0" by (simp only: word_sless_alt sint_0) simp
  have B: "?B < 2 ^ 56" by (rule shape_bits [OF assms(1)])
  have w: "?e - c - of_nat (length (mantissa b) * TTMATH_BITS_PER_UINT) + 1 = of_int (int E - k - int ?B + 1)" if "c = of_int k" for c k
    unfolding e that by (simp add: TTMATH_BITS_PER_UINT_def mult.commute)
  have s: "(d AND 0x8000000000000000 \<noteq> 0) = bit d 63" by (rule double_fields(3))
  show ?thesis
  proof (cases "E = 0")
    case False
    let ?x = "int E - 1023 - int ?B + 1"
    have "\<bar>?x\<bar> < 2 ^ 61" using B E(2) by simp
    moreover have M: "unat (?m OR 0x8000000000000000) = 2 ^ 63 + F * 2 ^ 11" by (rule mantissa_word [OF F(2,1)])
    moreover have "?m OR 0x8000000000000000 \<noteq> 0" using M by auto
    ultimately obtain z where z: "Big_FromDouble_SetExpAndMan b (bit d 63) (of_int ?x) 0x8000000000000000 ?m = Some z" "same_type z b"
      "\<not> Big_IsNan z" "bval z = (if bit d 63 then - 1 else 1) * real (2 ^ 63 + F * 2 ^ 11) * 2 powi (?x + int ?B - 64)" "standard z"
      using SetExpAndMan_value [OF assms(1), of ?x ?m "0x8000000000000000" "bit d 63"] by auto
    have "real (2 ^ 63 + F * 2 ^ 11) * 2 powi (?x + int ?B - 64) = real (mag_value (dmag d)) * 2 powi (- 1074)"
    proof -
      have "mag_value (dmag d) = (2 ^ 52 + F) * 2 ^ (E - 1)" using False by (simp add: mag_value_def E_def F_def)
      moreover have "2 ^ 63 + F * 2 ^ 11 = (2 ^ 52 + F) * 2 ^ 11" by simp
      moreover have "int 11 + (?x + int ?B - 64) = int (E - 1) + (- 1074)" using False by simp
      then have "2 ^ 11 * (2 :: real) powi (?x + int ?B - 64) = 2 ^ (E - 1) * 2 powi (- 1074)" by (simp only: powi_add_2 [symmetric] powi_nat_2 [symmetric])
      ultimately show ?thesis by (simp only: of_nat_mult of_nat_power of_nat_numeral mult.assoc)
    qed
    then have "bval z = dvalue d" unfolding z(4) dvalue_def by (simp only: mult.assoc)
    moreover have "Big_FromDouble b d = Some (0, z)"
      using ne False pos z(1) w [of 1023 1023] s by (simp add: Big_FromDouble_def Let_def)
    ultimately show ?thesis using z by blast
  next
    case True
    have x: "dvalue d = (if bit d 63 then - 1 else 1) * real F * 2 powi (- 1074)"
      using True by (simp add: dvalue_def mag_value_def E_def F_def)
    show ?thesis
    proof (cases "F = 0")
      case True
      then have "?m = 0" using F(1) by (simp add: unat_eq_0)
      then have "Big_FromDouble b d = Some (0, Big_SetZero b)" using ne pos \<open>E = 0\<close> by (simp add: Big_FromDouble_def Let_def)
      moreover have "same_type (Big_SetZero b) b" by (simp add: same_type_def Big_SetZero_def)
      ultimately show ?thesis using SetZero_value [OF assms(1)] True x by simp
    next
      case False
      let ?x = "int E - 1022 - int ?B + 1"
      have m: "?m \<noteq> 0" "?m OR 0 \<noteq> 0" using False F(1) by (auto simp: unat_eq_0)
      have x1: "\<bar>?x\<bar> < 2 ^ 61" "\<bar>?x - int ?B\<bar> < 2 ^ 62" using B E(2) by simp_all
      have m0: "unat (?m OR 0) = F * 2 ^ 11" unfolding F(1) [symmetric] by (simp only: or.right_neutral)
      from SetExpAndMan_value [OF assms(1) x1(1) m(2), of "bit d 63", unfolded m0] obtain y where
        y: "Big_FromDouble_SetExpAndMan b (bit d 63) (of_int ?x) 0 ?m = Some y" "same_type y b"
          "\<not> Big_IsNan y" "bval y = (if bit d 63 then - 1 else 1) * real (F * 2 ^ 11) * 2 powi (?x + int ?B - 64)" "ival (exponent y) = ?x"
        by blast
      have sh: "big_shape y" "length (exponent y) = length (exponent b)" "length (mantissa y) = length (mantissa b)"
        using shape_same_type [OF y(2)] assms(1) y(2) by (simp_all add: same_type_def)
      obtain c z where z: "Big_Standardizing y = Some (c, z)" "length (mantissa z) = length (mantissa y)"
        "length (exponent z) = length (exponent y)" "Big_IsNan z = Big_IsNan y" "c = 0 \<longrightarrow> standard z \<and> bval z = bval y"
        using Standardizing_value [OF sh(1)] by blast
      have "fits (length (exponent y)) (ival (exponent y) - int (man_bits y))"
        unfolding y(5) sh using x1(2) by (intro fits_small shape_Nil(1) [OF assms(1)])
      then have "c = 0" by (rule Standardizing_in_range [OF sh(1) _ z(1)])
      moreover have "bval y = dvalue d"
      proof -
        have "?x + int ?B - 64 = - int 11 + (- 1074)" using True by simp
        then have "2 ^ 11 * (2 :: real) powi (?x + int ?B - 64) = 2 powi (- 1074)"
          by (simp only: powi_add_2 mult.assoc [symmetric]) (simp add: power_int_minus)
        then show ?thesis unfolding y(4) x by (simp only: of_nat_mult of_nat_power of_nat_numeral mult.assoc)
      qed
      moreover have "same_type z b" using z(2,3) sh by (simp add: same_type_def)
      moreover have "Big_FromDouble b d = Some (0, z)"
      proof -
        have np: "\<not> 0 <s ?e" and w2: "?e - 1022 - of_nat (length (mantissa b) * TTMATH_BITS_PER_UINT) + 1 = of_int ?x"
          unfolding pos using True by (simp, intro w) simp
        show ?thesis
          by (simp only: Big_FromDouble_def Let_def ne np m(1) s w2 y(1) z(1) \<open>c = 0\<close> if_False if_True simp_thms Option.bind.bind_lunit prod.case)
      qed
      ultimately show ?thesis using z(4,5) y(3) by (intro exI [of _ z]) simp
    qed
  qed
qed

section \<open>To doubles\<close>

lemma or_nat_parts: "y < 2 ^ k \<Longrightarrow> x * 2 ^ k OR y = x * 2 ^ k + y" for x y :: nat
proof -
  assume "y < 2 ^ k"
  then have y: "take_bit k y = y" by (simp add: take_bit_eq_mod)
  have "push_bit k x AND take_bit k y = 0" by (rule bit_eqI) (auto simp: bit_and_iff bit_push_bit_iff bit_take_bit_iff)
  then have "x * 2 ^ k AND y = 0" unfolding y by (simp add: push_bit_eq_mult)
  then show ?thesis by (simp add: disjunctive_add_eq_or)
qed

lemma SetDouble_value:
  fixes b :: big and move :: sint and s :: bool
  assumes "E < 2 ^ 11" "unat e = E"
  defines "F \<equiv> unat (mantissa b ! (length (mantissa b) - 1)) div 2 ^ unat (12 + move) mod 2 ^ 52"
  defines "d \<equiv> Big_ToDouble_SetDouble b s e move False False"
  shows "dmag d = E * 2 ^ 52 + F" "bit d 63 = s"
proof -
  let ?m = "drop_bit (unat (12 + move)) (mantissa b ! (length (mantissa b) - 1))"
  have "?m AND 0xFFFFFFFFFFFFF = take_bit 52 ?m" by (simp add: take_bit_eq_mask mask_eq_exp_minus_1)
  then have m: "unat (?m AND 0xFFFFFFFFFFFFF) = F"
    unfolding F_def by (simp only: unsigned_take_bit_eq unat_drop_bit_eq) (simp only: take_bit_eq_mod drop_bit_eq_div)
  have E2: "E * 2 ^ 52 < 2 ^ 63" using assms(1) by simp
  have te: "take_bit 11 e = e" using assms(1,2) by (simp add: take_bit_eq_mod word_unat_eq_iff unat_mod)
  have "push_bit 52 e AND 0x7FF0000000000000 = push_bit 52 (take_bit 11 e)"
    by (simp add: take_bit_eq_mask push_bit_and mask_eq_exp_minus_1)
  then have "push_bit 52 e AND 0x7FF0000000000000 = 2 ^ 52 * e" unfolding te by (simp add: push_bit_eq_mult mult.commute)
  moreover have "unat (2 ^ 52 * e) = 2 ^ 52 * E" using E2 assms(2) by (subst unat_mult_lem [THEN iffD1]) simp_all
  ultimately have e: "unat (push_bit 52 e AND 0x7FF0000000000000) = E * 2 ^ 52" by (simp only: mult.commute)
  have F: "F < 2 ^ 52" by (simp add: F_def)
  have "d = ((if s then 0x8000000000000000 else 0) OR (push_bit 52 e AND 0x7FF0000000000000)) OR (?m AND 0xFFFFFFFFFFFFF)"
    by (simp only: d_def Big_ToDouble_SetDouble_def Let_def if_False or.left_neutral)
  then have "unat d = (unat (if s then 0x8000000000000000 else 0 :: uint) OR E * 2 ^ 52) OR F" by (simp only: unsigned_or_eq e m)
  also have "unat (if s then 0x8000000000000000 else 0 :: uint) = of_bool s * 2 ^ 63" by simp
  also have "of_bool s * 2 ^ 63 OR E * 2 ^ 52 = of_bool s * 2 ^ 63 + E * 2 ^ 52" by (rule or_nat_parts [OF E2])
  also have "of_bool s * 2 ^ 63 + E * 2 ^ 52 = (of_bool s * 2 ^ 11 + E) * 2 ^ 52" by simp
  also have "(of_bool s * 2 ^ 11 + E) * 2 ^ 52 OR F = (of_bool s * 2 ^ 11 + E) * 2 ^ 52 + F" by (rule or_nat_parts [OF F])
  finally have u: "unat d = of_bool s * 2 ^ 63 + (E * 2 ^ 52 + F)" by simp
  moreover have lt: "E * 2 ^ 52 + F < 2 ^ 63" using assms(1) F by simp
  ultimately show "dmag d = E * 2 ^ 52 + F" by (simp add: dmag_mod)
  show "bit d 63 = s" unfolding bit_63_iff u using lt by (simp add: W_def)
qed

text \<open>The magnitude of the result is the largest one whose value is not above that of the number.\<close>

definition magnitude_below :: "double \<Rightarrow> real \<Rightarrow> bool" where
  "magnitude_below d y \<longleftrightarrow> real (mag_value (dmag d)) \<le> y * 2 ^ 1074 \<and> y * 2 ^ 1074 < real (mag_value (Suc (dmag d)))"

lemma magnitude_belowI:
  assumes "mag_value (dmag d) = u div 2 ^ k * 2 ^ j" "dmag d div 2 ^ 52 - 1 = j" "y * 2 ^ 1074 = real u / real (2 ^ k) * 2 ^ j"
  shows "magnitude_below d y"
proof -
  have "real (u div 2 ^ k) \<le> real u / real (2 ^ k)" "real u / real (2 ^ k) < real (u div 2 ^ k) + 1"
    using floor_fraction [of u k] floor_correct [of "real u / real (2 ^ k)"] by simp_all
  then have "real (u div 2 ^ k) * 2 ^ j \<le> real u / real (2 ^ k) * 2 ^ j" "real u / real (2 ^ k) * 2 ^ j < (real (u div 2 ^ k) + 1) * 2 ^ j"
    by (intro mult_right_mono mult_strict_right_mono; simp)+
  moreover have "real (mag_value (Suc (dmag d))) = (real (u div 2 ^ k) + 1) * 2 ^ j"
    unfolding mag_value_Suc assms(1,2) by (simp add: algebra_simps)
  moreover have "real (mag_value (dmag d)) = real (u div 2 ^ k) * 2 ^ j" unfolding assms(1) by simp
  ultimately show ?thesis unfolding magnitude_below_def assms(3) by simp
qed

lemma ToDouble_ranges:
  assumes "standard b" "\<not> Big_IsNan b" "\<not> Big_IsZero b"
  defines "x \<equiv> ival (exponent b) + int (man_bits b) - 1"
  shows "Big_ToDouble b =
    (if 1024 \<le> x then (1, Big_ToDouble_SetDouble b (Big_IsSign b) 2047 0 True False)
     else if x \<le> - 1075 then (1, d_zero)
     else if x \<le> - 1023 then (0, Big_ToDouble_SetDouble b (Big_IsSign b) 0 (of_int (- (x + 1023))) False False)
     else (0, Big_ToDouble_SetDouble b (Big_IsSign b) (of_int (x + 1023)) (- 1) False False))"
proof -
  note sh = standard_shape [OF assms(1)]
  let ?B = "int (man_bits b)"
  have B: "?B < 2 ^ 56" using shape_bits [OF sh] by simp
  note E = shape_Nil(1) [OF sh]
  have c: "of_nat (length (mantissa b) * TTMATH_BITS_PER_UINT) - 1 = (of_int (?B - 1) :: uint)"
    by (simp add: TTMATH_BITS_PER_UINT_def mult.commute)
  have C: "Int_greater_equal (exponent b) (Int_new_sint (exponent b) (of_int y)) \<longleftrightarrow> y \<le> ival (exponent b)"
    "Int_less_equal (exponent b) (Int_new_sint (exponent b) (of_int y)) \<longleftrightarrow> ival (exponent b) \<le> y" if "\<bar>y\<bar> < 2 ^ 62" for y
    using Int_comparison [OF new_sint_small(2) [OF E that] E] new_sint_small(1) [OF E that] by simp_all
  have w: "1024 - of_int (?B - 1) = (of_int (1024 - (?B - 1)) :: uint)" "- 1023 - 52 - of_int (?B - 1) = (of_int (- 1075 - (?B - 1)) :: uint)"
    by simp_all
  have small: "\<bar>1024 - (?B - 1)\<bar> < 2 ^ 62" "\<bar>- 1075 - (?B - 1)\<bar> < 2 ^ 62" using B by simp_all
  have t: "Int_greater_equal (exponent b) (Int_new_sint (exponent b) (1024 - of_int (?B - 1))) \<longleftrightarrow> 1024 \<le> x"
    "Int_less_equal (exponent b) (Int_new_sint (exponent b) (- 1023 - 52 - of_int (?B - 1))) \<longleftrightarrow> x \<le> - 1075"
    unfolding w C [OF small(1)] C [OF small(2)] x_def by auto
  have e: "Int_ToInt (exponent b) + of_int (?B - 1) = of_int x" unfolding exponent_ToInt [OF sh] by (simp add: x_def)
  have s: "(of_int x :: uint) \<le>s - 1023 \<longleftrightarrow> x \<le> - 1023" if "\<not> 1024 \<le> x" "\<not> x \<le> - 1075"
  proof -
    have "sint (of_int x :: uint) = x" "sint (of_int (- 1023) :: uint) = - 1023" using that by (intro sint_of_int_small; simp)+
    then show ?thesis by (simp add: word_sle_eq)
  qed
  have "- (of_int x + 1023) = (of_int (- (x + 1023)) :: uint)" "of_int x + 1023 = (of_int (x + 1023) :: uint)" by simp_all
  then show ?thesis
    unfolding Big_ToDouble_def Let_def c t e using assms(2,3) s by (cases "1024 \<le> x"; cases "x \<le> - 1075") (simp_all only: if_True if_False simp_thms split: if_split)
qed

lemma ToDouble_value:
  assumes "standard b" "\<not> Big_IsNan b" "2 powi (- 1074) \<le> \<bar>bval b\<bar>" "\<bar>bval b\<bar> < 2 ^ 1024"
  shows "\<exists>d. Big_ToDouble b = (0, d) \<and> d_finite d \<and> bit d 63 = Big_IsSign b \<and> magnitude_below d \<bar>bval b\<bar>"
proof -
  let ?u = "uval (mantissa b)" and ?B = "man_bits b" and ?T = "mantissa b ! (length (mantissa b) - 1)"
  have "(0 :: real) < 2 powi (- 1074)" by simp
  then have "bval b \<noteq> 0" using assms(3) by linarith
  then have nz: "\<not> Big_IsZero b" using standard_zero_iff [OF assms(1)] by simp
  note sh = standard_shape [OF assms(1)] and M = standard_mantissa [OF assms(1) nz]
  have B: "64 \<le> ?B" using shape_Nil(2) [OF sh] by (cases "mantissa b") simp_all
  define x where "x = ival (exponent b) + int ?B - 1"
  have lo: "- 1075 < x" using at_least_power_iff [OF assms(1) nz, of "- 1074"] assms(3) by (simp add: x_def)
  have hi: "x < 1024" using too_big_iff [OF assms(1) nz, of 1024] assms(4) by (simp add: x_def)
  note R = ToDouble_ranges [OF assms(1,2) nz, folded x_def]
  have T: "unat ?T = ?u div 2 ^ (?B - 64)"
    using uval_top [OF shape_Nil(2) [OF sh]] by (simp only: W_power) (simp add: diff_mult_distrib2)
  have v: "\<bar>bval b\<bar> * 2 ^ 1074 = real ?u * 2 powi (x + 1075 - int ?B)"
  proof -
    have "x + 1075 - int ?B = ival (exponent b) + int 1074" by (simp add: x_def)
    then show ?thesis by (simp only: abs_bval powi_add_2 powi_nat_2 mult.assoc)
  qed
  show ?thesis
  proof (cases "x \<le> - 1023")
    case True
    define k where "k = nat (12 - (x + 1023))"
    have k: "unat (12 + (of_int (- (x + 1023)) :: sint)) = k" "12 \<le> k" "k < 64" "int k = 12 - (x + 1023)"
    proof -
      show k3: "int k = 12 - (x + 1023)" "12 \<le> k" "k < 64" using True lo by (simp_all add: k_def)
      have "12 + (of_int (- (x + 1023)) :: sint) = of_int (int k)" unfolding k3(1) by simp
      then have "12 + (of_int (- (x + 1023)) :: sint) = of_nat k" by simp
      then show "unat (12 + (of_int (- (x + 1023)) :: sint)) = k" using k3(3) by (simp only: unat_of_nat_small W_def) (simp add: unat_of_nat_small W_def)
    qed
    let ?d = "Big_ToDouble_SetDouble b (Big_IsSign b) 0 (of_int (- (x + 1023))) False False" and ?q = "?u div 2 ^ (?B - 64 + k)"
    have "unat ?T div 2 ^ k = ?q" unfolding T by (simp only: power_add div_mult2_eq)
    moreover have q: "?q < 2 ^ 52"
    proof -
      have "unat ?T < 2 ^ 64" using unat_less_W [of ?T] by (simp only: W_def)
      also have "\<dots> \<le> 2 ^ (52 + k)" using k(2) by (intro power_increasing) simp_all
      finally show ?thesis unfolding \<open>unat ?T div 2 ^ k = ?q\<close> [symmetric] by (simp only: power_add less_mult_imp_div_less)
    qed
    ultimately have d: "dmag ?d = ?q" "bit ?d 63 = Big_IsSign b"
      using SetDouble_value [where E = 0 and e = 0 and b = b and move = "of_int (- (x + 1023))" and s = "Big_IsSign b", unfolded k(1)] by simp_all
    have "magnitude_below ?d \<bar>bval b\<bar>"
    proof (rule magnitude_belowI)
      show "mag_value (dmag ?d) = ?u div 2 ^ (?B - 64 + k) * 2 ^ 0" unfolding d(1) using q by (simp add: mag_value_def)
      show "dmag ?d div 2 ^ 52 - 1 = 0" unfolding d(1) using q by simp
      have "x + 1075 - int ?B = - int (?B - 64 + k)" using B k(4) by linarith
      then show "\<bar>bval b\<bar> * 2 ^ 1074 = real ?u / real (2 ^ (?B - 64 + k)) * 2 ^ 0"
        unfolding v by (simp only: power_int_minus powi_nat_2 of_nat_power of_nat_numeral divide_inverse power_0 mult_1_right)
    qed
    moreover have "d_finite ?d" unfolding d_finite_def d(1) using q by simp
    moreover have "Big_ToDouble b = (0, ?d)" using R True lo by simp
    ultimately show ?thesis using d(2) by blast
  next
    case False
    define E where "E = nat (x + 1023)"
    have E: "int E = x + 1023" "1 \<le> E" "E < 2047" using False hi by (simp_all add: E_def)
    let ?d = "Big_ToDouble_SetDouble b (Big_IsSign b) (of_int (x + 1023)) (- 1) False False" and ?q = "?u div 2 ^ (?B - 64 + 11)"
    have Q: "unat ?T div 2 ^ 11 = ?q" unfolding T by (simp only: power_add div_mult2_eq)
    have "?B - 1 = 63 + (?B - 64)" using B by linarith
    then have "(2 :: nat) ^ (?B - 1) = 2 ^ 63 * 2 ^ (?B - 64)" by (simp only: power_add)
    then have "2 ^ 63 \<le> unat ?T" using M(1) unfolding T by (simp add: less_eq_div_iff_mult_less_eq)
    then have q: "2 ^ 52 \<le> ?q" "?q < 2 ^ 53" unfolding Q [symmetric] using unat_less_W [of ?T] by (simp_all add: W_def)
    have "unat (of_int (x + 1023) :: uint) = E" unfolding E(1) [symmetric] using E(3) by (simp add: unat_of_nat_small W_def)
    moreover have "unat (12 + (- 1) :: sint) = 11" by simp
    ultimately have d: "dmag ?d = E * 2 ^ 52 + ?q mod 2 ^ 52" "bit ?d 63 = Big_IsSign b"
      using SetDouble_value [where E = E and e = "of_int (x + 1023)" and b = b and move = "- 1" and s = "Big_IsSign b"] E(3) Q by simp_all
    have dd: "dmag ?d div 2 ^ 52 = E" "dmag ?d mod 2 ^ 52 = ?q mod 2 ^ 52" unfolding d(1) by simp_all
    have "?q mod 2 ^ 52 = ?q - 2 ^ 52" using q by (simp add: mod_if [of ?q])
    then have q2: "2 ^ 52 + ?q mod 2 ^ 52 = ?q" using q by simp
    have "magnitude_below ?d \<bar>bval b\<bar>"
    proof (rule magnitude_belowI)
      show "mag_value (dmag ?d) = ?u div 2 ^ (?B - 64 + 11) * 2 ^ (E - 1)" unfolding mag_value_def dd q2 using E(2) by simp
      show "dmag ?d div 2 ^ 52 - 1 = E - 1" unfolding dd ..
      have "x + 1075 - int ?B = - int (?B - 64 + 11) + int (E - 1)" using B E by linarith
      then show "\<bar>bval b\<bar> * 2 ^ 1074 = real ?u / real (2 ^ (?B - 64 + 11)) * 2 ^ (E - 1)"
        unfolding v by (simp only: powi_add_2 power_int_minus powi_nat_2 of_nat_power of_nat_numeral divide_inverse mult.assoc)
    qed
    moreover have "d_finite ?d"
    proof -
      have "?q mod 2 ^ 52 < 2 ^ 52" by simp
      then show ?thesis unfolding d_finite_def d(1) using E(3) by simp
    qed
    moreover have "Big_ToDouble b = (0, ?d)" using R False lo hi by simp
    ultimately show ?thesis using d(2) by blast
  qed
qed

section \<open>Round trip and order\<close>

lemma double_eqI: "dmag a = dmag b \<Longrightarrow> bit a 63 = bit b 63 \<Longrightarrow> a = b"
proof -
  have "unat d = of_bool (bit d 63) * 2 ^ 63 + dmag d" for d
  proof -
    have "unat d = unat d div 2 ^ 63 * 2 ^ 63 + unat d mod 2 ^ 63" by simp
    moreover have "unat d div 2 ^ 63 = of_bool (bit d 63)"
      unfolding bit_63_iff using unat_less_W [of d] by (auto simp: W_def not_le div_nat_eqI)
    ultimately show ?thesis by (simp only: dmag_mod)
  qed
  then show "dmag a = dmag b \<Longrightarrow> bit a 63 = bit b 63 \<Longrightarrow> a = b" by (simp only: word_unat_eq_iff)
qed

lemma abs_dvalue: "\<bar>dvalue d\<bar> * 2 ^ 1074 = real (mag_value (dmag d))"
proof -
  have "(2 :: real) powi (- 1074) * 2 ^ 1074 = 2 powi (- 1074 + int 1074)" by (simp only: powi_add_2 powi_nat_2)
  then show ?thesis by (simp add: dvalue_def abs_mult)
qed

lemma finite_range:
  assumes "d_finite d"
  shows "\<bar>dvalue d\<bar> < 2 ^ 1024"
proof -
  have "mag_value (dmag d) < mag_value (2047 * 2 ^ 52)"
    using assms strict_mono_less [OF mag_value_mono] by (simp add: d_finite_def)
  also have "mag_value (2047 * 2 ^ 52) = 2 ^ 52 * 2 ^ 2046"
  proof -
    have "2047 * 2 ^ 52 div 2 ^ 52 = (2047 :: nat)" "2047 * 2 ^ 52 mod 2 ^ 52 = (0 :: nat)" by simp_all
    then show ?thesis unfolding mag_value_def by (simp only:) simp
  qed
  also have "\<dots> = 2 ^ 1024 * 2 ^ 1074" unfolding power_add [symmetric] by (rule arg_cong [where f = "power 2"]) simp
  finally have "real (mag_value (dmag d)) < 2 ^ 1024 * 2 ^ 1074" by (simp only: of_nat_less_iff [symmetric, where 'a = real] of_nat_mult of_nat_power of_nat_numeral)
  then have "\<bar>dvalue d\<bar> * 2 ^ 1074 < 2 ^ 1024 * 2 ^ 1074" by (simp only: abs_dvalue)
  then show ?thesis by (rule mult_right_less_imp_less) simp
qed

lemma double_round_trip:
  assumes "big_shape b" "d_finite d" "d \<noteq> 0x8000000000000000"
  shows "\<exists>z. Big_FromDouble b d = Some (0, z) \<and> Big_ToDouble z = (0, d)"
proof -
  obtain z where z: "Big_FromDouble b d = Some (0, z)" "standard z" "\<not> Big_IsNan z" "bval z = dvalue d"
    using FromDouble_value [OF assms(1,2)] by blast
  show ?thesis
  proof (cases "dmag d = 0")
    case True
    then have "bval z = 0" using z(4) by (simp add: dvalue_def)
    then have "Big_ToDouble z = (0, 0)" using standard_zero_iff [OF z(2)] by (simp add: Big_ToDouble_def d_zero_def)
    moreover have "d = 0"
    proof (rule ccontr)
      assume "d \<noteq> 0"
      then have "bit d 63" using True double_eqI [of d 0] by (auto simp: dmag_def)
      then have "d = 0x8000000000000000" using True double_eqI [of d "0x8000000000000000"] by (simp add: dmag_def bit_63_iff W_def)
      then show False using assms(3) by simp
    qed
    ultimately show ?thesis using z(1) by simp
  next
    case False
    then have "mag_value 0 < mag_value (dmag d)" by (simp only: strict_mono_less [OF mag_value_mono] neq0_conv)
    then have "1 \<le> real (mag_value (dmag d))" by simp
    then have m: "1 \<le> \<bar>dvalue d\<bar> * 2 ^ 1074" by (simp only: abs_dvalue)
    have "(2 :: real) powi (- 1074) * 2 ^ 1074 = 2 powi (- 1074 + int 1074)" by (simp only: powi_add_2 powi_nat_2)
    then have "(2 :: real) powi (- 1074) * 2 ^ 1074 \<le> \<bar>dvalue d\<bar> * 2 ^ 1074" using m by simp
    then have "2 powi (- 1074) \<le> \<bar>dvalue d\<bar>" by (rule mult_right_le_imp_le) simp
    then obtain d' where d': "Big_ToDouble z = (0, d')" "bit d' 63 = Big_IsSign z" "magnitude_below d' \<bar>bval z\<bar>"
      using ToDouble_value [OF z(2,3)] finite_range [OF assms(2)] unfolding z(4) by blast
    have "mag_value (dmag d') \<le> mag_value (dmag d)" "mag_value (dmag d) < mag_value (Suc (dmag d'))"
      using d'(3) unfolding magnitude_below_def z(4) abs_dvalue by simp_all
    then have "dmag d' = dmag d" using strict_mono_less [OF mag_value_mono] strict_mono_less_eq [OF mag_value_mono] by simp
    moreover have "Big_IsSign z \<longleftrightarrow> bit d 63"
      unfolding bval_sign [OF z(2)] z(4) using \<open>mag_value 0 < mag_value (dmag d)\<close> by (auto simp: dvalue_def)
    ultimately have "d' = d" using d'(2) by (intro double_eqI) simp_all
    then show ?thesis using z(1) d'(1) by blast
  qed
qed

lemma double_order:
  assumes "big_shape b" "d_finite x" "d_finite y"
  shows "\<exists>u v. Big_FromDouble b x = Some (0, u) \<and> Big_FromDouble b y = Some (0, v) \<and>
    Big_less u v = d_less x y \<and> Big_equal u v = d_eq x y \<and> Big_less_equal u v = d_le x y"
proof -
  obtain u where u: "Big_FromDouble b x = Some (0, u)" "standard u" "same_type u b" "bval u = dvalue x"
    using FromDouble_value [OF assms(1,2)] by blast
  obtain v where v: "Big_FromDouble b y = Some (0, v)" "standard v" "same_type v b" "bval v = dvalue y"
    using FromDouble_value [OF assms(1,3)] by blast
  have "same_type u v" using u(3) v(3) by (simp add: same_type_def)
  note C = Big_comparison [OF u(2) v(2) this]
  have n: "\<not> isnan x" "\<not> isnan y" using assms(2,3) by (simp_all add: d_finite_def isnan_def)
  have "dvalue x \<le> dvalue y \<longleftrightarrow> dkey x \<le> dkey y" using dvalue_less_iff [of y x] by linarith
  then show ?thesis using u(1,4) v(1,4) C n dvalue_less_iff dvalue_eq_iff by (intro exI [of _ u] exI [of _ v]) simp
qed

section \<open>Numbers that are no doubles\<close>

lemma ToDouble_outside:
  assumes "standard b" "\<not> Big_IsNan b" "\<not> Big_IsZero b"
  shows "2 ^ 1024 \<le> \<bar>bval b\<bar> \<Longrightarrow> Big_ToDouble b = (1, if Big_IsSign b then 0xFFF0000000000000 else 0x7FF0000000000000)"
    and "\<bar>bval b\<bar> < 2 powi (- 1074) \<Longrightarrow> Big_ToDouble b = (1, 0)"
proof -
  let ?x = "ival (exponent b) + int (man_bits b) - 1"
  note R = ToDouble_ranges [OF assms]
  show "Big_ToDouble b = (1, if Big_IsSign b then 0xFFF0000000000000 else 0x7FF0000000000000)" if "2 ^ 1024 \<le> \<bar>bval b\<bar>"
  proof -
    have "1024 \<le> ?x" using too_big_iff [OF assms(1,3), of 1024] that by linarith
    then show ?thesis using R by (simp add: Big_ToDouble_SetDouble_def)
  qed
  show "Big_ToDouble b = (1, 0)" if "\<bar>bval b\<bar> < 2 powi (- 1074)"
  proof -
    have "?x \<le> - 1075" using at_least_power_iff [OF assms(1,3), of "- 1074"] that by linarith
    then show ?thesis using R by (simp add: d_zero_def)
  qed
qed

text \<open>
  A value that is not a number becomes a \<^verbatim>\<open>double\<close> that is not a number, but not if the object held
  zero before: the zero flag stays and is looked at first.
\<close>

lemma ToDouble_nan:
  assumes "Big_IsNan b"
  shows "\<not> Big_IsZero b \<Longrightarrow> isnan (snd (Big_ToDouble b))" "Big_IsZero b \<Longrightarrow> Big_ToDouble b = (0, 0)"
  using assms by (simp_all add: Big_ToDouble_def Big_ToDouble_SetDouble_def isnan_def dmag_def d_zero_def)

lemma nan_through_zero:
  assumes "big_shape b" "isnan d"
  shows "\<exists>z. Big_FromDouble (Big_SetZero b) d = Some (0, z) \<and> Big_IsNan z \<and> Big_ToDouble z = (0, 0)"
proof -
  have "\<not> d_finite d" using assms(2) by (simp add: d_finite_def isnan_def)
  then show ?thesis using FromDouble_nan ToDouble_nan(2) SetZero_value(2) [OF assms(1)] by simp
qed

end
