(* ===== verification/Big_Numbers.thy ===== *)
theory Big_Numbers
  imports Big_Operators Big_Double
begin

text \<open>
  The invariant of \<^verbatim>\<open>Big\<close>: an object has the sizes it was declared with and is standard or flagged as not
  a number. \<open>big_built\<close> are the objects a program gets from the constructors and methods, in any order;
  the operators call these methods. A binary operation promises \<open>number_operation\<close>, which is
  enough to keep the invariant.
\<close>

section \<open>Numbers\<close>

definition number :: "big \<Rightarrow> big \<Rightarrow> bool" where
  "number b z \<longleftrightarrow> same_type z b \<and> big_shape z \<and> (Big_IsNan z \<or> standard z)"

lemma numberI:
  assumes "same_type z b" "big_shape b" "Big_IsNan z \<or> standard z"
  shows "number b z"
  using assms shape_same_type by (simp add: number_def)

lemma numberD:
  assumes "number b x"
  shows "same_type x b" "big_shape x" "big_shape b" "\<not> Big_IsNan x \<Longrightarrow> standard x"
  using assms shape_same_type by (auto simp: number_def)

text \<open>A number of the type of a number.\<close>

lemma number_trans: "number b x \<Longrightarrow> same_type z x \<Longrightarrow> Big_IsNan z \<or> standard z \<Longrightarrow> number b z"
  using shape_same_type [of z x] by (simp add: number_def same_type_def)

lemma number_SetNan: "number b x \<Longrightarrow> number b (Big_SetNan x)"
  by (rule number_trans) (simp_all add: same_type_def)

lemma number_CheckCarry: "number b x \<Longrightarrow> number b (snd (Big_CheckCarry x c))"
  by (simp add: Big_CheckCarry_def number_SetNan)

lemma number_SetZero: "number b x \<Longrightarrow> number b (Big_SetZero x)"
proof -
  assume x: "number b x"
  have "same_type (Big_SetZero x) x" by (simp add: same_type_def Big_SetZero_def)
  then show "number b (Big_SetZero x)" using SetZero_value(1) [OF numberD(2) [OF x]] by (intro number_trans [OF x]) simp_all
qed

lemma same_type_SetOne: "big_shape b \<Longrightarrow> same_type (Big_SetOne b) b"
  using assign_sint_ival(2) [OF shape_Nil(1)] by (simp add: same_type_def Big_SetOne_def Let_def)

lemma number_SetOne: "number b x \<Longrightarrow> number b (Big_SetOne x)"
  using same_type_SetOne [of x] SetOne_standard(1) [of x] numberD(2) [of b x] number_trans [of b x "Big_SetOne x"] by simp

lemma number_self: "big_shape b \<Longrightarrow> Big_IsNan b \<Longrightarrow> number b b"
  by (simp add: number_def same_type_def)

text \<open>Standardizing makes a number of everything that has the sizes of the type.\<close>

lemma number_Standardizing:
  assumes "same_type x b" "big_shape b" "Big_Standardizing x = Some (c, z)"
  shows "number b (snd (Big_CheckCarry z c))"
proof -
  have sh: "big_shape x" using shape_same_type [OF assms(1)] assms(2) by simp
  obtain c' z' where z: "Big_Standardizing x = Some (c', z')" "same_type z' x" "c' = 0 \<longrightarrow> standard z'"
    using Standardizing_value [OF sh] unfolding same_type_def by blast
  then have "same_type z b" "c = 0 \<longrightarrow> standard z" using assms(1,3) by (auto simp: same_type_def)
  then show ?thesis
    using assms(2) by (intro numberI) (auto simp: Big_CheckCarry_def same_type_def)
qed

lemma number_checked: "number b x \<Longrightarrow> Big_CheckCarry x d = (c, z) \<Longrightarrow> number b z"
  using number_CheckCarry [of b x d] by simp

section \<open>The contract of a binary operation\<close>

locale number_operation =
  fixes op :: "big \<Rightarrow> big \<Rightarrow> (uint \<times> big) option"
  assumes nan: "Big_IsNan x \<or> Big_IsNan y \<Longrightarrow> op x y = Some (1, Big_SetNan x)"
    and good: "standard x \<Longrightarrow> standard y \<Longrightarrow> same_type x y \<Longrightarrow> \<not> Big_IsNan x \<Longrightarrow> \<not> Big_IsNan y \<Longrightarrow>
      op x y = Some (c, z) \<Longrightarrow> same_type z x \<and> (Big_IsNan z \<or> standard z)"
begin

lemma result_is_number:
  assumes "number b x" "number b y" "op x y = Some (c, z)"
  shows "number b z"
proof (cases "Big_IsNan x \<or> Big_IsNan y")
  case True
  then show ?thesis using nan [OF True] assms(1,3) by (simp add: number_SetNan)
next
  case False
  moreover have "same_type x y" using assms(1,2) by (simp add: number_def same_type_def)
  ultimately show ?thesis using good [of x y c z] assms numberD(4) by (intro number_trans [OF assms(1)]) simp_all
qed

end

lemma Add_nan: "Big_IsNan x \<or> Big_IsNan y \<Longrightarrow> Big_Add x y rnd adding = Some (1, Big_SetNan x)"
  by (simp add: Big_Add_def Big_CheckCarry_def)

interpretation addition: number_operation "\<lambda>x y. Big_Add x y rnd adding" for rnd adding
  by unfold_locales (use Add_nan Add_any in blast)+

interpretation multiplication: number_operation "\<lambda>x y. Big_Mul x y rnd" for rnd
proof unfold_locales
  fix x y c z assume A: "standard x" "standard y" "same_type x y" "\<not> Big_IsNan x" "\<not> Big_IsNan y" "Big_Mul x y rnd = Some (c, z)"
  show "same_type z x \<and> (Big_IsNan z \<or> standard z)" using Mul_value [OF A(1-5), of rnd] A(6) by auto
qed (rule Mul_nan)

interpretation division: number_operation "\<lambda>x y. Big_Div x y rnd" for rnd
proof unfold_locales
  fix x y c z assume A: "standard x" "standard y" "same_type x y" "\<not> Big_IsNan x" "\<not> Big_IsNan y" "Big_Div x y rnd = Some (c, z)"
  show "same_type z x \<and> (Big_IsNan z \<or> standard z)"
  proof (cases "Big_IsZero y")
    case True
    then show ?thesis using Div_zero_divisor A(4-6) by (auto simp: same_type_def)
  next
    case False
    then show ?thesis using Div_value [OF A(1-5), of rnd] A(6) by auto
  qed
qed (rule Div_nan)

text \<open>The bit operations put a combination of the mantissas in the place of the larger one.\<close>

definition combined :: "(utable \<Rightarrow> utable \<Rightarrow> utable) \<Rightarrow> big \<Rightarrow> big \<Rightarrow> nat \<Rightarrow> (uint \<times> big) option" where
  "combined f b ss2 k = do {
     (_, m) \<leftarrow> UInt_Rcr (mantissa ss2) k 0;
     (c, b) \<leftarrow> Big_Standardizing (b\<lparr>mantissa := f (mantissa b) m\<rparr>);
     Some (Big_CheckCarry b c)
   }"

lemma number_combined:
  assumes "number b x" "number b y" "combined f x y k = Some (c, z)"
    "\<And>s t :: utable. length s = length t \<Longrightarrow> length (f t s) = length t"
  shows "number b z"
proof -
  note x = numberD [OF assms(1)] and y = numberD [OF assms(2)]
  have l: "length (mantissa y) = length (mantissa x)" using x(1) y(1) by (simp add: same_type_def)
  let ?m = "utab (length (mantissa y)) (shr_value (mantissa y) k 0)"
  let ?x = "x\<lparr>mantissa := f (mantissa x) ?m\<rparr>"
  have "same_type ?x b" using x(1) assms(4) [of ?m "mantissa x"] l by (simp add: same_type_def)
  moreover obtain d w where "Big_Standardizing ?x = Some (d, w)" "Big_CheckCarry w d = (c, z)"
    using assms(3) Rcr_result [OF shape_Nil(2) [OF y(2)], of k 0]
    by (auto simp: combined_def split: Option.bind_splits)
  ultimately show ?thesis using number_Standardizing [of ?x b d w] x(3) by simp
qed

lemma bit_operation_cases:
  assumes "\<not> Big_IsNan x" "\<not> Big_IsNan y" "same_type x y"
    "Big_BitAnd x y = Some (c, z) \<and> f = UInt_BitAnd \<or> Big_BitOr x y = Some (c, z) \<and> f = UInt_BitOr \<or>
     Big_BitXor x y = Some (c, z) \<and> f = UInt_BitXor"
  shows "z \<in> {x, y, Big_SetNan x, Big_SetZero x, Big_SetZero y} \<or> (\<exists>k. combined f x y k = Some (c, z) \<or> combined f y x k = Some (c, z))"
  using assms(1,2,4) Swap_big [OF assms(3)]
  unfolding Big_BitAnd_def Big_BitOr_def Big_BitXor_def combined_def Let_def split_beta
  by (auto split: if_splits)

lemma number_bit_operation:
  assumes "number b x" "number b y" "\<not> Big_IsNan x" "\<not> Big_IsNan y"
    "Big_BitAnd x y = Some (c, z) \<or> Big_BitOr x y = Some (c, z) \<or> Big_BitXor x y = Some (c, z)"
  shows "number b z"
proof -
  have t: "same_type x y" using assms(1,2) by (simp add: number_def same_type_def)
  obtain f where f: "f = UInt_BitAnd \<or> f = UInt_BitOr \<or> f = UInt_BitXor"
    "z \<in> {x, y, Big_SetNan x, Big_SetZero x, Big_SetZero y} \<or> (\<exists>k. combined f x y k = Some (c, z) \<or> combined f y x k = Some (c, z))"
    using bit_operation_cases [OF assms(3,4) t, of c z] assms(5) by metis
  have "length (f t s) = length t" if "length s = length t" for s t :: utable using f(1) bits_length [OF that] by auto
  then show ?thesis
    using f(2) number_combined [OF assms(1,2)] number_combined [OF assms(2,1)] assms(1,2) number_SetNan number_SetZero by blast
qed

interpretation bit_and_number: number_operation Big_BitAnd
proof unfold_locales
  fix x y c z assume "standard x" "standard y" "same_type x y" "\<not> Big_IsNan x" "\<not> Big_IsNan y" "Big_BitAnd x y = Some (c, z)"
  then show "same_type z x \<and> (Big_IsNan z \<or> standard z)"
    using number_bit_operation [of x x y c z] by (simp add: number_def same_type_def standard_shape)
qed (simp add: Big_BitAnd_def Big_CheckCarry_def)

interpretation bit_or_number: number_operation Big_BitOr
proof unfold_locales
  fix x y c z assume "standard x" "standard y" "same_type x y" "\<not> Big_IsNan x" "\<not> Big_IsNan y" "Big_BitOr x y = Some (c, z)"
  then show "same_type z x \<and> (Big_IsNan z \<or> standard z)"
    using number_bit_operation [of x x y c z] by (simp add: number_def same_type_def standard_shape)
qed (simp add: Big_BitOr_def Big_CheckCarry_def)

interpretation bit_xor_number: number_operation Big_BitXor
proof unfold_locales
  fix x y c z assume "standard x" "standard y" "same_type x y" "\<not> Big_IsNan x" "\<not> Big_IsNan y" "Big_BitXor x y = Some (c, z)"
  then show "same_type z x \<and> (Big_IsNan z \<or> standard z)"
    using number_bit_operation [of x x y c z] by (simp add: number_def same_type_def standard_shape)
qed (simp add: Big_BitXor_def Big_CheckCarry_def)

section \<open>Methods that keep the invariant\<close>

lemma number_unary:
  assumes "number b x"
  shows "number b (Big_ChangeSign x)" "number b (Big_Abs x)" "number b (Big_Sgn x)" "number b (Big_SkipFraction x)"
proof -
  note x = numberD [OF assms] and one = SetOne_standard [OF numberD(2) [OF assms]]
  have "same_type (Big_ChangeSign x) x" by (simp add: same_type_def)
  moreover have "Big_IsNan (Big_ChangeSign x) \<or> standard (Big_ChangeSign x)"
    using x(4) ChangeSign_value [of x] by (cases "Big_IsNan x") (auto simp: Big_ChangeSign_def)
  ultimately show "number b (Big_ChangeSign x)" by (rule number_trans [OF assms])
  have "Big_IsNan (Big_Abs x) \<or> standard (Big_Abs x)" using x(4) by (auto simp: standard_def big_shape_def)
  then show "number b (Big_Abs x)" by (intro number_trans [OF assms]) (simp_all add: same_type_def)
  have "same_type (Big_SetSign (Big_SetOne x)) x" using same_type_SetOne [OF x(2)] by (simp add: same_type_def)
  moreover have "\<not> Big_IsZero (Big_SetOne x)" using one standard_zero_iff by simp
  then have "standard (Big_SetSign (Big_SetOne x))" using one(1) by (simp add: standard_def big_shape_def)
  ultimately have "number b (Big_SetSign (Big_SetOne x))" by (intro number_trans [OF assms]) simp_all
  then show "number b (Big_Sgn x)" using assms by (simp add: Big_Sgn_def number_SetOne number_SetZero)
  show "number b (Big_SkipFraction x)"
  proof (cases "Big_IsNan x")
    case True
    then show ?thesis using assms by (simp add: Big_SkipFraction_def)
  next
    case False
    then show ?thesis using SkipFraction_value [of x] x(4) by (intro number_trans [OF assms]) simp_all
  qed
qed

lemma number_RemainFraction:
  assumes "number b x" "Big_RemainFraction x = Some z"
  shows "number b z"
proof (cases "Big_IsNan x")
  case True
  then show ?thesis using assms by (simp add: Big_RemainFraction_def)
next
  case False
  then show ?thesis
    using RemainFraction_value [OF numberD(4) [OF assms(1) False] False] assms by (intro number_trans [OF assms(1)]) auto
qed

lemma Set05_standard:
  assumes "big_shape x" "Big_Set05 x = Some z"
  shows "same_type z x" "standard z"
proof -
  note one = SetOne_standard [OF assms(1)]
  have t: "same_type (Big_SetOne x) x" by (rule same_type_SetOne [OF assms(1)])
  have "exponent (Big_SetOne x) \<noteq> []" using t shape_Nil(1) [OF assms(1)] by (auto simp: same_type_def)
  from SubOne_ival [OF this] obtain e where e: "z = Big_SetOne x\<lparr>exponent := e\<rparr>" "length e = length (exponent x)"
    using assms(2) t by (auto simp: Big_Set05_def Let_def same_type_def)
  have "\<not> Big_IsZero (Big_SetOne x)" using one standard_zero_iff by simp
  then show "standard z" using one(1) e shape_Nil(1) [OF assms(1)] by (auto simp: standard_def big_shape_def)
  show "same_type z x" using t e by (simp add: same_type_def)
qed

lemma number_Set05: "number b x \<Longrightarrow> Big_Set05 x = Some z \<Longrightarrow> number b z"
  using Set05_standard [OF numberD(2)] number_trans by blast

lemma number_Round:
  assumes "number b x" "Big_Round x = Some (c, z)"
  shows "number b z"
proof -
  consider "z = x" | h d y where "Big_Set05 x = Some h" "Big_Sub x h True = Some (d, y) \<or> Big_Add x h True True = Some (d, y)"
      "Big_CheckCarry (Big_SkipFraction y) d = (c, z)"
    using assms(2) by (auto simp: Big_Round_def split: if_splits Option.bind_splits)
  then show ?thesis
  proof cases
    case (2 h d y)
    have "number b y" using 2(2) addition.result_is_number [OF assms(1) number_Set05 [OF assms(1) 2(1)]] by (auto simp: Big_Sub_def)
    then show ?thesis using 2(3) number_checked number_unary(4) by blast
  qed (use assms in simp)
qed

lemma number_Mod:
  assumes "number b x" "number b y" "Big_Mod x y = Some (c, z)"
  shows "number b z"
proof -
  consider "z = Big_SetNan x" | d where "Big_CheckCarry x d = (c, z)"
    | q p w e where "Big_Div x y True = Some q" "Big_Mul (Big_SkipFraction (snd q)) y True = Some p" "Big_Sub x (snd p) True = Some w"
      "Big_CheckCarry (snd w) e = (c, z)"
    using assms(3) unfolding Big_Mod_def Big_ModRef_def Let_def
    by (auto simp: split_beta split: if_splits Option.bind_splits)
  then show ?thesis
  proof cases
    case 1
    then show ?thesis using assms(1) by (simp add: number_SetNan)
  next
    case (2 d)
    then show ?thesis using assms(1) number_checked by blast
  next
    case (3 q p w e)
    have "number b (snd q)" using division.result_is_number [OF assms(1,2)] 3(1) by (cases q) auto
    then have "number b (snd p)" using multiplication.result_is_number [OF number_unary(4) assms(2)] 3(2) by (cases p) auto
    then have "number b (snd w)" using addition.result_is_number [OF assms(1)] 3(3) unfolding Big_Sub_def by (cases w) auto
    then show ?thesis using 3(4) by (rule number_checked)
  qed
qed

lemma number_MulUInt:
  assumes "number b x" "Big_MulUInt x v = Some (c, z)"
  shows "number b z"
proof (cases "Big_IsNan x")
  case True
  then show ?thesis using assms by (simp add: Big_MulUInt_def)
next
  case False
  then show ?thesis
    using MulUInt_value [OF numberD(4) [OF assms(1) False] False, of v] assms by (intro number_trans [OF assms(1)]) auto
qed

lemma number_MulInt:
  assumes "number b x" "Big_MulInt x v = Some (c, z)"
  shows "number b z"
proof (cases "Big_IsNan x")
  case True
  then show ?thesis using assms by (simp add: Big_MulInt_def)
next
  case False
  then show ?thesis
    using MulInt_value [OF numberD(4) [OF assms(1) False] False, of v] assms by (intro number_trans [OF assms(1)]) auto
qed

section \<open>Powers\<close>

text \<open>The loops multiply numbers, whatever the exponent is and however they end.\<close>

lemma number_Pow_loop:
  assumes "Big_Pow_loop s r p c = Some (d, z)" "number b s" "number b r"
  shows "number b z"
proof -
  have "number b s \<longrightarrow> number b r \<longrightarrow> number b (snd (d, z))"
  proof (rule Big_Pow_loop.raw_induct [OF _ assms(1)], intro impI)
    fix f s r p c y
    assume IH: "\<And>s r p c y. f s r p c = Some y \<Longrightarrow> number b s \<longrightarrow> number b r \<longrightarrow> number b (snd y)"
      and body: "(if c = 0 then do {
          (c, result) \<leftarrow> (if p ! 0 AND 1 \<noteq> 0 then do { (d, result) \<leftarrow> Big_Mul r s True; Some (c + d, result) } else Some (c, r));
          (_, pow) \<leftarrow> UInt_Rcr p 1 0;
          if UInt_IsZero pow then Some (c, result)
          else do { (d, start) \<leftarrow> Big_Mul s s True; f start result pow (c + d) }
        } else Some (c, r)) = Some y" and s: "number b s" and r: "number b r"
    note mul = multiplication.result_is_number [OF r s, of True] multiplication.result_is_number [OF s s, of True]
    show "number b (snd y)"
      using body r by (auto split: if_splits Option.bind_splits dest!: mul IH)
  qed
  then show ?thesis using assms(2,3) by simp
qed

lemma number_PowUInt_loop:
  assumes "Big_PowUInt_loop one s r p c = Some (d, z)" "number b s" "number b r"
  shows "number b z"
proof -
  have "number b s \<longrightarrow> number b r \<longrightarrow> number b (snd (d, z))"
  proof (rule Big_PowUInt_loop.raw_induct [OF _ assms(1)], intro impI)
    fix f one s r p c y
    assume IH: "\<And>one s r p c y. f one s r p c = Some y \<Longrightarrow> number b s \<longrightarrow> number b r \<longrightarrow> number b (snd y)"
      and body: "(if c = 0 then do {
          odd \<leftarrow> Big_Mod2 p;
          (c, result) \<leftarrow> (if odd \<noteq> 0 then do { (d, result) \<leftarrow> Big_Mul r s True; Some (c + d, result) } else Some (c, r));
          (d, e) \<leftarrow> Int_SubOne (exponent p);
          let pow = p\<lparr>exponent := e\<rparr>;
          let c = c + d;
          if Big_less pow one then Some (c, result)
          else do { (d, start) \<leftarrow> Big_Mul s s True; f one start result pow (c + d) }
        } else Some (c, r)) = Some y" and s: "number b s" and r: "number b r"
    note mul = multiplication.result_is_number [OF r s, of True] multiplication.result_is_number [OF s s, of True]
    show "number b (snd y)"
      using body r by (auto simp: Let_def split: if_splits Option.bind_splits dest!: mul IH)
  qed
  then show ?thesis using assms(2,3) by simp
qed

lemma number_assign: "number b x \<Longrightarrow> number b y \<Longrightarrow> number b (Big_assign x y)"
proof -
  assume x: "number b x" and y: "number b y"
  have "same_type y x" using numberD(1) [OF x] numberD(1) [OF y] by (simp add: same_type_def)
  from assign_same_type [OF this shape_Nil(1) [OF numberD(2) [OF x]]] show "number b (Big_assign x y)" using y by simp
qed

lemma number_Pow_UInt:
  assumes "number b x" "Big_Pow_UInt x p = Some (c, z)"
  shows "number b z"
proof -
  consider "z \<in> {x, Big_SetNan x}"
    | d y where "Big_Pow_loop x (Big_SetOne x) p 0 = Some (d, y)" "Big_CheckCarry (Big_assign x y) d = (c, z)"
    using assms(2) by (auto simp: Big_Pow_UInt_def split: if_splits Option.bind_splits)
  then show ?thesis
  proof cases
    case (2 d y)
    have "number b y" by (rule number_Pow_loop [OF 2(1) assms(1) number_SetOne [OF assms(1)]])
    then show ?thesis using number_checked [OF number_assign [OF assms(1)] 2(2)] by blast
  qed (use assms(1) number_SetNan in auto)
qed

lemma number_PowUInt:
  assumes "number b x" "Big_PowUInt x p = Some (c, z)"
  shows "number b z"
proof -
  consider d where "Big_CheckCarry x d = (c, z)" | "z \<in> {x, Big_SetNan x}"
    | q d y where "Big_PowUInt_loop (Big_SetOne x) x (Big_SetOne x) q 0 = Some (d, y)" "Big_CheckCarry (Big_assign x y) d = (c, z)"
    using assms(2) by (auto simp: Big_PowUInt_def Let_def split: if_splits Option.bind_splits)
  then show ?thesis
  proof cases
    case (3 q d y)
    have "number b y" by (rule number_PowUInt_loop [OF 3(1) assms(1) number_SetOne [OF assms(1)]])
    then show ?thesis using number_checked [OF number_assign [OF assms(1)] 3(2)] by blast
  qed (use assms(1) number_SetNan number_checked in blast)+
qed

lemma number_reciprocal:
  assumes "number b x" "number b t" "Big_Div (Big_SetOne x) t True = Some (e, y)" "Big_CheckCarry y d = (c, z)"
  shows "number b z"
  using division.result_is_number [OF number_SetOne [OF assms(1)] assms(2,3)] assms(4) by (rule number_checked)

lemma number_Pow_Int:
  assumes "number b x" "Big_Pow_Int x p = Some (c, z)"
  shows "number b z"
proof -
  consider "z \<in> {x, Big_SetNan x}" | "Big_Pow_UInt x p = Some (c, z)"
    | q d t e y k where "Big_Pow_UInt x q = Some (d, t)" "Big_Div (Big_SetOne x) t True = Some (e, y)" "Big_CheckCarry y k = (c, z)"
    using assms(2) by (auto simp: Big_Pow_Int_def split_beta Let_def split: if_splits Option.bind_splits)
  then show ?thesis
    by cases (use assms(1) number_SetNan number_Pow_UInt number_reciprocal in blast)+
qed

lemma number_PowInt:
  assumes "number b x" "Big_PowInt x p = Some (c, z)"
  shows "number b z"
proof -
  consider d where "Big_CheckCarry x d = (c, z)" | "z \<in> {x, Big_SetNan x}" | "Big_PowUInt x p = Some (c, z)"
    | d t e y k where "Big_PowUInt x p = Some (d, t)" "Big_Div (Big_SetOne x) t True = Some (e, y)" "Big_CheckCarry y k = (c, z)"
    using assms(2) by (auto simp: Big_PowInt_def split_beta Let_def split: if_splits Option.bind_splits)
  then show ?thesis
    by cases (use assms(1) number_SetNan number_checked number_PowUInt number_reciprocal in blast)+
qed

section \<open>Constructors\<close>

lemma number_extremes:
  assumes "number b x"
  shows "number b (Big_SetMax x)" "number b (Big_SetMin x)"
proof -
  note M = SetMax_standard [OF numberD(2) [OF assms]]
  show "number b (Big_SetMax x)" using M by (intro number_trans [OF assms]) simp_all
  have "Big_SetMin x = Big_SetSign (Big_SetMax x)" by (simp add: Big_SetMin_def Big_SetMax_def)
  moreover have "\<not> Big_IsZero (Big_SetMax x)" by (simp add: Big_SetMax_def flags_iff)
  then have "standard (Big_SetSign (Big_SetMax x))" using M(1) by (simp add: standard_def big_shape_def)
  ultimately show "number b (Big_SetMin x)" using M by (intro number_trans [OF assms]) (simp_all add: same_type_def)
qed

lemma constructed_number:
  assumes "big_shape b"
  shows "number b (Big_new b)"
    "Big_new_sint b v = Some z \<Longrightarrow> number b z" "Big_new_uint b w = Some z \<Longrightarrow> number b z" "Big_new_double b d = Some z \<Longrightarrow> number b z"
proof -
  have "Big_IsNan (Big_new b)" by (simp add: Big_new_def flags_iff TTMATH_BIG_NAN_def)
  then show "number b (Big_new b)" using assms by (intro numberI) (simp_all add: Big_new_def same_type_def)
  have nan: "number b (Big_SetNan b)" using assms by (intro numberI) (simp_all add: same_type_def)
  show "number b z" if "Big_new_sint b v = Some z" using that FromInt_sint_value [OF assms, of v] assms by (auto simp: Big_new_sint_def intro: numberI)
  show "number b z" if "Big_new_uint b w = Some z" using that FromUInt_value [OF assms, of w] assms by (auto simp: Big_new_uint_def intro: numberI)
  show "number b z" if "Big_new_double b d = Some z"
    using that FromDouble_value [OF assms, of d] FromDouble_nan [of d b] nan assms
    by (cases "d_finite d") (auto simp: Big_new_double_def intro: numberI)
qed

lemma constructed_from_tables:
  assumes "big_shape b"
  shows "t \<noteq> [] \<Longrightarrow> length t < man_limit \<Longrightarrow> Big_new_Int b t = Some z \<Longrightarrow> number b z"
    "t \<noteq> [] \<Longrightarrow> length t < man_limit \<Longrightarrow> Big_new_UInt b t = Some z \<Longrightarrow> number b z"
    "number a' a \<Longrightarrow> Big_new_Big b a = Some z \<Longrightarrow> number b z"
proof -
  show "number b z" if "t \<noteq> []" "length t < man_limit" "Big_new_Int b t = Some z"
    using that FromInt_Int_value [OF assms that(1,2)] assms by (auto simp: Big_new_Int_def intro: numberI)
  show "number b z" if "t \<noteq> []" "length t < man_limit" "Big_new_UInt b t = Some z"
    using that FromUInt_UInt_value [OF assms that(1,2)] assms by (auto simp: Big_new_UInt_def intro: numberI)
  show "number b z" if a: "number a' a" "Big_new_Big b a = Some z"
  proof (cases "Big_IsNan a")
    case True
    then have "z = b\<lparr>info := info a\<rparr>" using a(2) by (simp add: Big_new_Big_def Big_FromBig_def flags_iff)
    then show ?thesis using True assms by (intro numberI) (simp_all add: same_type_def flags_iff)
  next
    case False
    then show ?thesis
      using FromBig_value [OF assms numberD(4) [OF a(1)]] a(2) assms by (auto simp: Big_new_Big_def intro: numberI)
  qed
qed

section \<open>Everything a program builds\<close>

text \<open>
  The objects of the type of \<open>b\<close> that constructors and methods leave, whatever carry they return.
  \<^verbatim>\<open>SetSign\<close> and the methods that write single flags are not among them: a zero with a sign is not standard.
\<close>

inductive big_built :: "big \<Rightarrow> big \<Rightarrow> bool" where
  built_new: "big_built b (Big_new b)"
| built_sint: "Big_new_sint b v = Some z \<Longrightarrow> big_built b z"
| built_uint: "Big_new_uint b w = Some z \<Longrightarrow> big_built b z"
| built_double: "Big_new_double b d = Some z \<Longrightarrow> big_built b z"
| built_Int: "t \<noteq> [] \<Longrightarrow> length t < man_limit \<Longrightarrow> Big_new_Int b t = Some z \<Longrightarrow> big_built b z"
| built_UInt: "t \<noteq> [] \<Longrightarrow> length t < man_limit \<Longrightarrow> Big_new_UInt b t = Some z \<Longrightarrow> big_built b z"
| built_Big: "big_shape a' \<Longrightarrow> big_built a' a \<Longrightarrow> Big_new_Big b a = Some z \<Longrightarrow> big_built b z"
| built_assign: "big_built b x \<Longrightarrow> big_built b y \<Longrightarrow> big_built b (Big_assign x y)"
| built_zero: "big_built b x \<Longrightarrow> big_built b (Big_SetZero x)"
| built_one: "big_built b x \<Longrightarrow> big_built b (Big_SetOne x)"
| built_half: "big_built b x \<Longrightarrow> Big_Set05 x = Some z \<Longrightarrow> big_built b z"
| built_max: "big_built b x \<Longrightarrow> big_built b (Big_SetMax x)"
| built_min: "big_built b x \<Longrightarrow> big_built b (Big_SetMin x)"
| built_nan: "big_built b x \<Longrightarrow> big_built b (Big_SetNan x)"
| built_ChangeSign: "big_built b x \<Longrightarrow> big_built b (Big_ChangeSign x)"
| built_Abs: "big_built b x \<Longrightarrow> big_built b (Big_Abs x)"
| built_Sgn: "big_built b x \<Longrightarrow> big_built b (Big_Sgn x)"
| built_skip: "big_built b x \<Longrightarrow> big_built b (Big_SkipFraction x)"
| built_fraction: "big_built b x \<Longrightarrow> Big_RemainFraction x = Some z \<Longrightarrow> big_built b z"
| built_Round: "big_built b x \<Longrightarrow> Big_Round x = Some (c, z) \<Longrightarrow> big_built b z"
| built_Add: "big_built b x \<Longrightarrow> big_built b y \<Longrightarrow> Big_Add x y rnd adding = Some (c, z) \<Longrightarrow> big_built b z"
| built_MulUInt: "big_built b x \<Longrightarrow> Big_MulUInt x w = Some (c, z) \<Longrightarrow> big_built b z"
| built_MulInt: "big_built b x \<Longrightarrow> Big_MulInt x v = Some (c, z) \<Longrightarrow> big_built b z"
| built_Mul: "big_built b x \<Longrightarrow> big_built b y \<Longrightarrow> Big_Mul x y rnd = Some (c, z) \<Longrightarrow> big_built b z"
| built_Div: "big_built b x \<Longrightarrow> big_built b y \<Longrightarrow> Big_Div x y rnd = Some (c, z) \<Longrightarrow> big_built b z"
| built_Mod: "big_built b x \<Longrightarrow> big_built b y \<Longrightarrow> Big_Mod x y = Some (c, z) \<Longrightarrow> big_built b z"
| built_BitAnd: "big_built b x \<Longrightarrow> big_built b y \<Longrightarrow> Big_BitAnd x y = Some (c, z) \<Longrightarrow> big_built b z"
| built_BitOr: "big_built b x \<Longrightarrow> big_built b y \<Longrightarrow> Big_BitOr x y = Some (c, z) \<Longrightarrow> big_built b z"
| built_BitXor: "big_built b x \<Longrightarrow> big_built b y \<Longrightarrow> Big_BitXor x y = Some (c, z) \<Longrightarrow> big_built b z"
| built_Pow_UInt: "big_built b x \<Longrightarrow> Big_Pow_UInt x p = Some (c, z) \<Longrightarrow> big_built b z"
| built_Pow_Int: "big_built b x \<Longrightarrow> Big_Pow_Int x p = Some (c, z) \<Longrightarrow> big_built b z"
| built_PowUInt: "big_built b x \<Longrightarrow> Big_PowUInt x y = Some (c, z) \<Longrightarrow> big_built b z"
| built_PowInt: "big_built b x \<Longrightarrow> Big_PowInt x y = Some (c, z) \<Longrightarrow> big_built b z"

text \<open>The operators call these methods.\<close>

lemma built_operators:
  assumes "big_built b x" "big_built b y"
  shows "big_built b (Big_uminus x)"
    "Big_plus x y = Some z \<or> Big_plus_assign x y = Some z \<Longrightarrow> big_built b z"
    "Big_minus x y = Some z \<or> Big_minus_assign x y = Some z \<Longrightarrow> big_built b z"
    "Big_times x y = Some z \<or> Big_times_assign x y = Some z \<Longrightarrow> big_built b z"
    "Big_divide x y = Some z \<or> Big_divide_assign x y = Some z \<Longrightarrow> big_built b z"
    "Big_and x y = Some z \<or> Big_and_assign x y = Some z \<Longrightarrow> big_built b z"
    "Big_or x y = Some z \<or> Big_or_assign x y = Some z \<Longrightarrow> big_built b z"
    "Big_xor x y = Some z \<or> Big_xor_assign x y = Some z \<Longrightarrow> big_built b z"
    "Big_pre_inc x = Some z \<or> Big_pre_dec x = Some z \<Longrightarrow> big_built b z"
    "Big_post_inc x = Some (u, z) \<or> Big_post_dec x = Some (u, z) \<Longrightarrow> u = x \<and> big_built b z"
  using assms built_one [OF assms(1)]
  by (auto simp: Big_uminus_def Big_plus_def Big_plus_assign_def Big_minus_def Big_minus_assign_def Big_Sub_def
      Big_times_def Big_times_assign_def Big_divide_def Big_divide_assign_def Big_and_def Big_and_assign_def
      Big_or_def Big_or_assign_def Big_xor_def Big_xor_assign_def Big_pre_inc_def Big_pre_dec_def Big_post_inc_def Big_post_dec_def
      Big_AddOne_def Big_SubOne_def Let_def
      intro: built_ChangeSign built_Add built_Mul built_Div built_BitAnd built_BitOr built_BitXor)

lemma built_number:
  assumes "big_built b z" "big_shape b"
  shows "number b z"
  using assms
proof (induction rule: big_built.induct)
  case (built_Add b x y rnd adding c z)
  then show ?case using addition.result_is_number by blast
next
  case (built_Mul b x y rnd c z)
  then show ?case using multiplication.result_is_number by blast
next
  case (built_Div b x y rnd c z)
  then show ?case using division.result_is_number by blast
next
  case (built_BitAnd b x y c z)
  then show ?case using bit_and_number.result_is_number by blast
next
  case (built_BitOr b x y c z)
  then show ?case using bit_or_number.result_is_number by blast
next
  case (built_BitXor b x y c z)
  then show ?case using bit_xor_number.result_is_number by blast
qed (blast intro: constructed_number constructed_from_tables number_assign number_SetZero number_SetOne number_Set05 number_extremes
    number_SetNan number_unary number_RemainFraction number_Round number_MulUInt number_MulInt number_Mod
    number_Pow_UInt number_Pow_Int number_PowUInt number_PowInt)+

end
