(* ===== verification/Big_Properties.thy ===== *)
theory Big_Properties
  imports Big_Numbers
begin

text \<open>The properties of the floating point class \<^verbatim>\<open>Big\<close>. Witnesses use numbers with one word each.\<close>

lemma sample_number:
  assumes "2 ^ 63 \<le> unat w"
  defines "a \<equiv> div_sample w"
  shows "standard a" "\<not> Big_IsNan a" "\<not> Big_IsZero a" "\<not> Big_IsSign a" "big_shape a" "bval a = real (unat w)" "ival (exponent a) = 0"
    "length (exponent a) = 1" "length (mantissa a) = 1"
proof -
  show s: "standard a" unfolding a_def using assms(1) by (intro div_sample_standard) (simp add: word_le_nat_alt)
  show "\<not> Big_IsNan a" "\<not> Big_IsZero a" "\<not> Big_IsSign a" "ival (exponent a) = 0" "length (exponent a) = 1" "length (mantissa a) = 1"
    by (simp_all add: a_def div_sample_def flags_iff ival_single)
  then show "big_shape a" "bval a = real (unat w)" using standard_shape [OF s] by (simp_all add: bval_def bsign_def a_def div_sample_def)
qed

lemma sample_same_type: "same_type (div_sample v) (div_sample w)"
  by (simp add: same_type_def div_sample_def)

lemmas samples = sample_number sample_same_type

section \<open>Order\<close>

text \<open>
  C20. The comparison operators of \<^verbatim>\<open>Big\<close> are the order of the values.
\<close>

theorem Big_comparison_refines_order:
  assumes "standard a" "standard b" "same_type a b"
  shows "Big_less a b = (bval a < bval b) \<and> Big_greater a b = (bval b < bval a) \<and> Big_equal a b = (bval a = bval b) \<and>
    Big_less_equal a b = (bval a \<le> bval b) \<and> Big_greater_equal a b = (bval b \<le> bval a) \<and> Big_not_equal a b = (bval a \<noteq> bval b)"
  using Big_comparison [OF assms] by simp

theorem Big_comparison_refines_order_witness: "Big_less (div_sample (2 ^ 63)) (div_sample (3 * 2 ^ 62))"
  using Big_comparison_refines_order [of "div_sample (2 ^ 63)" "div_sample (3 * 2 ^ 62)"]
    samples(1,6,10) by simp

section \<open>Arithmetic\<close>

text \<open>
  C17. \<^verbatim>\<open>Add\<close> (and \<^verbatim>\<open>Sub\<close>, which is \<^verbatim>\<open>Add\<close> with the last argument false) of two standard numbers of which one is
  zero or the distance of the exponents is in the range of an exponent (\<open>close_exponents\<close>; otherwise
  the code adds with a wrapped distance): the result is standard and within half a unit of the
  largest of the three exponents of the exact sum, a whole unit without rounding; or there is a carry
  and the result is not a number. There is no carry when both exponents have room.
\<close>

theorem Big_Add_error:
  assumes "standard a" "standard b" "same_type a b" "\<not> Big_IsNan a" "\<not> Big_IsNan b" "close_exponents a b"
  shows "\<exists>c z. Big_Add a b rnd adding = Some (c, z) \<and> same_type z a \<and> (c \<noteq> 0 \<longrightarrow> c = 1 \<and> Big_IsNan z) \<and>
    (c = 0 \<longrightarrow> standard z \<and> \<not> Big_IsNan z \<and>
      \<bar>bval z - (bval a + (if adding then bval b else - bval b))\<bar> \<le> (if rnd then 1 / 2 else 1) * 2 powi max_exponent a b z) \<and>
    (exponent_room a \<and> exponent_room b \<longrightarrow> c = 0)"
  using assms by (rule Add_value)

theorem Big_Add_error_witness:
  "\<exists>z. Big_Add (div_sample (2 ^ 63)) (div_sample (3 * 2 ^ 62)) True True = Some (0, z) \<and>
    \<bar>bval z - (2 ^ 63 + 3 * 2 ^ 62)\<bar> \<le> 1 / 2 * 2 powi max_exponent (div_sample (2 ^ 63)) (div_sample (3 * 2 ^ 62)) z"
proof -
  have "close_exponents (div_sample (2 ^ 63)) (div_sample (3 * 2 ^ 62))" "exponent_room (div_sample (2 ^ 63))" "exponent_room (div_sample (3 * 2 ^ 62))"
    by (simp_all add: close_exponents_def exponent_room_def div_sample_def ival_single fits_def W_def)
  then show ?thesis
    using Big_Add_error [of "div_sample (2 ^ 63)" "div_sample (3 * 2 ^ 62)" True True] samples(1,2,6,10) by auto
qed

text \<open>
  \<^verbatim>\<open>Sub\<close> rounds before the leading bits cancel: the difference of the two neighbours
  \<open>2 ^ 64\<close> and \<open>2 ^ 64 - 1\<close>, which is one, is computed as zero without a carry.
\<close>

lemma Big_Sub_loses_difference:
  "let a = \<lparr>exponent = [1], mantissa = [0x8000000000000000], info = 0\<rparr>; b = \<lparr>exponent = [0], mantissa = [0xFFFFFFFFFFFFFFFF], info = 0\<rparr>
   in bval a - bval b = 1 \<and> (\<exists>z. Big_Sub a b True = Some (0, z) \<and> Big_IsZero z \<and> bval z = 0)"
proof -
  have "Big_Sub \<lparr>exponent = [1], mantissa = [0x8000000000000000], info = 0\<rparr> \<lparr>exponent = [0], mantissa = [0xFFFFFFFFFFFFFFFF], info = 0\<rparr> True =
    Some (0, \<lparr>exponent = [0], mantissa = [0], info = 32\<rparr>)" by code_simp
  moreover have "Big_IsZero \<lparr>exponent = [0], mantissa = [0], info = 32\<rparr>" by code_simp
  ultimately show ?thesis by (simp add: Let_def bval_def bsign_def flags_iff ival_single)
qed

text \<open>
  C18. \<^verbatim>\<open>Mul\<close> returns the exact product to half a unit of the last place, one unit without rounding;
  there is a carry, and the result is not a number, exactly when the two steps that add the exponents
  leave the range.
\<close>

theorem Big_Mul_error:
  assumes "standard a" "standard b" "same_type a b" "\<not> Big_IsNan a" "\<not> Big_IsNan b"
  shows "\<exists>c z. Big_Mul a b rnd = Some (c, z) \<and> same_type z a \<and>
    (c = 0 \<longleftrightarrow> Big_IsZero a \<or> Big_IsZero b \<or> mul_in_range a b rnd) \<and> (c \<noteq> 0 \<longrightarrow> c = 1 \<and> Big_IsNan z) \<and>
    (c = 0 \<longrightarrow> standard z \<and> \<not> Big_IsNan z \<and> \<bar>bval z - bval a * bval b\<bar> \<le> (if rnd then 1 / 2 else 1) * 2 powi ival (exponent z))"
  using assms by (rule Mul_value)

theorem Big_Mul_error_witness:
  "\<exists>c z. Big_Mul (div_sample (2 ^ 63)) (div_sample (3 * 2 ^ 62)) True = Some (c, z) \<and>
    (c = 0 \<longrightarrow> \<bar>bval z - 2 ^ 63 * (3 * 2 ^ 62)\<bar> \<le> 1 / 2 * 2 powi ival (exponent z))"
  using Big_Mul_error [of "div_sample (2 ^ 63)" "div_sample (3 * 2 ^ 62)" True] samples(1,2,6,10) by auto

text \<open>
  C19. \<^verbatim>\<open>Div\<close> reports a zero divisor with 2 and a result that is not a number; otherwise the result is
  within one unit of the last place of the quotient, or there is a carry.
\<close>

theorem Big_Div_error:
  assumes "standard a" "standard b" "same_type a b" "\<not> Big_IsNan a" "\<not> Big_IsNan b"
  shows "(Big_IsZero b \<longrightarrow> Big_Div a b rnd = Some (2, Big_SetNan a)) \<and>
    (\<not> Big_IsZero b \<longrightarrow> (\<exists>c z. Big_Div a b rnd = Some (c, z) \<and> same_type z a \<and>
      (c = 0 \<longleftrightarrow> Big_IsZero a \<or> div_in_range a b rnd) \<and> (c \<noteq> 0 \<longrightarrow> c = 1 \<and> Big_IsNan z) \<and>
      (c = 0 \<longrightarrow> standard z \<and> \<not> Big_IsNan z \<and> \<bar>bval z - bval a / bval b\<bar> < 2 powi ival (exponent z))))"
  using Div_value [OF assms] Div_zero_divisor assms(4,5) by blast

theorem Big_Div_error_witness:
  "Big_Div (div_sample (2 ^ 63)) (Big_SetZero (div_sample 0)) True = Some (2, Big_SetNan (div_sample (2 ^ 63)))"
proof -
  have sh: "big_shape (div_sample 0)" by (simp add: big_shape_def div_sample_def man_limit_def)
  have "same_type (div_sample (2 ^ 63)) (Big_SetZero (div_sample 0))" by (simp add: same_type_def div_sample_def Big_SetZero_def)
  then show ?thesis
    using Big_Div_error [of "div_sample (2 ^ 63)" "Big_SetZero (div_sample 0)" True] samples(1,2) SetZero_value [OF sh] by simp
qed

text \<open>
  C21. \<^verbatim>\<open>PowUInt\<close> returns for every standard base and exponent that are numbers. A zero base gives zero,
  or the code 2 when the exponent is zero too. For any other base and an exponent that can be halved,
  a result without carry is a standard number that is the power up to as many relative rounding
  errors as the integer part of the exponent says. An exponent that is too small to be halved always gives a
  carry. Whenever a code other than 0 is returned, the result is not a number.
\<close>

theorem Big_PowUInt_returns:
  assumes "standard b" "\<not> Big_IsNan b" "standard p" "\<not> Big_IsNan p" "same_type p b"
  shows "\<exists>c z. Big_PowUInt b p = Some (c, z) \<and> same_type z b \<and> (c \<noteq> 0 \<longrightarrow> Big_IsNan z) \<and>
    (if Big_IsZero b then if Big_IsZero p then c = 2 else c = 0 \<and> z = b
     else if fits (length (exponent p)) (ival (exponent p) - 1) then c = 1 \<or>
       c = 0 \<and> standard z \<and> \<not> Big_IsNan z \<and> \<not> Big_IsZero z \<and>
       near (man_eps b) (nat \<lfloor>\<bar>bval p\<bar>\<rfloor>) (bval z) (bval b ^ nat \<lfloor>\<bar>bval p\<bar>\<rfloor>)
     else c = 1)"
proof (cases "Big_IsZero b")
  case True
  then show ?thesis using assms(2,4) by (simp add: Big_PowUInt_def same_type_def)
next
  case False
  show ?thesis
  proof (cases "fits (length (exponent p)) (ival (exponent p) - 1)")
    case True
    then show ?thesis using PowUInt_value [OF assms(1,2) False assms(3-5)] False by (auto simp: power_outcome_def)
  next
    case F: False
    then show ?thesis using PowUInt_wrapped [OF assms(1,2) False assms(3-5)] False by auto
  qed
qed

text \<open>The cube of three, computed without a carry.\<close>

theorem Big_PowUInt_returns_witness:
  "\<exists>z. Big_PowUInt \<lparr>exponent = [-62], mantissa = [0xC000000000000000], info = 0\<rparr> \<lparr>exponent = [-62], mantissa = [0xC000000000000000], info = 0\<rparr> =
      Some (0, z) \<and> near (man_eps z) 3 (bval z) 27"
proof -
  let ?b = "\<lparr>exponent = [-62], mantissa = [0xC000000000000000], info = 0\<rparr>"
  have e: "map_option fst (Big_PowUInt ?b ?b) = Some 0" by code_simp
  have b: "standard ?b" "\<not> Big_IsNan ?b" "\<not> Big_IsZero ?b" "same_type ?b ?b" "fits (length (exponent ?b)) (ival (exponent ?b) - 1)"
    by (simp_all add: standard_def big_shape_def man_limit_def flags_iff same_type_def UInt_IsTheHighestBitSet_def fits_def W_def ival_def
        TTMATH_UINT_HIGHEST_BIT_def)
  have v: "bval ?b = 3" by (simp add: bval_def bsign_def flags_iff ival_def W_def power_int_def power_divide)
  obtain c z where z: "Big_PowUInt ?b ?b = Some (c, z)" "same_type z ?b" "c = 1 \<or> c = 0 \<and> near (man_eps ?b) (nat \<lfloor>\<bar>bval ?b\<bar>\<rfloor>) (bval z) (bval ?b ^ nat \<lfloor>\<bar>bval ?b\<bar>\<rfloor>)"
    using Big_PowUInt_returns [OF b(1,2,1,2,4)] b(3,5) by auto
  have "c = 0" using e z(1) by simp
  moreover have "man_eps z = man_eps ?b" using z(2) by (simp add: man_eps_def same_type_def)
  ultimately show ?thesis using z unfolding v by auto
qed

section \<open>Integer parts\<close>

text \<open>
  C26. \<^verbatim>\<open>SkipFraction\<close> and \<^verbatim>\<open>RemainFraction\<close> split a number exactly: the first is an integer not larger in
  absolute value, the second is smaller than one, both have the sign of the number, and their sum is
  the number. \<^verbatim>\<open>IsInteger\<close> tells whether the second is zero.
\<close>

theorem Big_fraction_split:
  assumes "standard b" "\<not> Big_IsNan b"
  shows "\<exists>z. Big_RemainFraction b = Some z \<and> standard z \<and> standard (Big_SkipFraction b) \<and>
    \<bar>bval (Big_SkipFraction b)\<bar> \<in> \<int> \<and> \<bar>bval z\<bar> < 1 \<and> bval (Big_SkipFraction b) + bval z = bval b \<and> 0 \<le> bval z * bval b \<and>
    (Big_IsInteger b \<longleftrightarrow> bval z = 0)"
proof -
  have s: "\<bar>bsign b\<bar> = 1" "bsign b \<noteq> 0" by (simp_all add: bsign_def)
  obtain z where z: "Big_RemainFraction b = Some z" "standard z" "bval z = bsign b * frac \<bar>bval b\<bar>"
    using RemainFraction_value [OF assms] by blast
  have k: "standard (Big_SkipFraction b)" "bval (Big_SkipFraction b) = bsign b * real_of_int \<lfloor>\<bar>bval b\<bar>\<rfloor>"
    using SkipFraction_value [OF assms] by blast+
  have "\<bar>bval (Big_SkipFraction b)\<bar> \<in> \<int>" "\<bar>bval z\<bar> < 1" unfolding z(3) k(2) using s(1) frac_lt_1 [of "\<bar>bval b\<bar>"] frac_ge_0 [of "\<bar>bval b\<bar>"]
    by (simp_all add: abs_mult)
  moreover have "bval (Big_SkipFraction b) + bval z = bsign b * \<bar>bval b\<bar>" unfolding z(3) k(2) by (simp add: frac_def algebra_simps)
  moreover have "bval z * (bsign b * \<bar>bval b\<bar>) = frac \<bar>bval b\<bar> * \<bar>bval b\<bar>" unfolding z(3) by (simp add: bsign_def)
  then have "0 \<le> bval z * (bsign b * \<bar>bval b\<bar>)" by (simp only: mult_nonneg_nonneg frac_ge_0 abs_ge_zero)
  then have "0 \<le> bval z * bval b" by (simp only: bval_bsign [symmetric])
  moreover have "Big_IsInteger b \<longleftrightarrow> bval z = 0" unfolding IsInteger_value [OF assms(1)] z(3) using s(2) by (simp add: frac_eq_0_iff)
  ultimately show ?thesis using z k(1) bval_bsign [of b] by auto
qed

theorem Big_fraction_split_witness:
  "\<exists>z. Big_RemainFraction (div_sample (2 ^ 63)) = Some z \<and> bval (Big_SkipFraction (div_sample (2 ^ 63))) + bval z = 2 ^ 63"
  using Big_fraction_split [of "div_sample (2 ^ 63)"] samples(1,2,6) by auto

text \<open>
  C27. On natural numbers that fit the mantissa \<^verbatim>\<open>BitAnd\<close>, \<^verbatim>\<open>BitOr\<close> and \<^verbatim>\<open>BitXor\<close> are the bit operations of
  the numbers.
\<close>

theorem Big_bit_operations:
  assumes "standard a" "standard b" "same_type a b" "\<not> Big_IsNan a" "\<not> Big_IsNan b"
    "bval a = real x" "bval b = real y" "x < 2 ^ man_bits a" "y < 2 ^ man_bits a"
  shows "\<exists>u v w. Big_BitAnd a b = Some (0, u) \<and> Big_BitOr a b = Some (0, v) \<and> Big_BitXor a b = Some (0, w) \<and>
    bval u = real (x AND y) \<and> bval v = real (x OR y) \<and> bval w = real (x XOR y)"
  using bit_operations_natural [OF assms] by blast

theorem Big_bit_operations_witness:
  "\<exists>u. Big_BitAnd (div_sample (2 ^ 63 + 12)) (div_sample (2 ^ 63 + 10)) = Some (0, u) \<and> bval u = 2 ^ 63 + 8"
proof -
  have n: "((2 ^ 63 + 12) AND (2 ^ 63 + 10) :: nat) = 2 ^ 63 + 8" by simp
  have "standard (div_sample (2 ^ 63 + 12))" "standard (div_sample (2 ^ 63 + 10))"
    "bval (div_sample (2 ^ 63 + 12)) = real (2 ^ 63 + 12)" "bval (div_sample (2 ^ 63 + 10)) = real (2 ^ 63 + 10)"
    using samples(1,6) by simp_all
  from Big_bit_operations [OF this(1,2) _ _ _ this(3,4)] show ?thesis unfolding n by auto
qed

section \<open>Conversions\<close>

text \<open>
  C24. An \<^verbatim>\<open>Int\<close> that is not longer than the mantissa is converted exactly and converted back unchanged.
\<close>

theorem Big_Int_round_trip:
  assumes "big_shape b" "t \<noteq> []" "length t \<le> length (mantissa b)" "length s = length t"
  shows "\<exists>z. Big_FromInt_Int b t = Some (0, z) \<and> bval z = real_of_int (ival t) \<and> Big_ToInt_Int z s = Some (0, t)"
  using assms by (rule Int_round_trip)

theorem Big_Int_round_trip_witness:
  "\<exists>z. Big_FromInt_Int (div_sample 0) [18446744073709551609] = Some (0, z) \<and> Big_ToInt_Int z [0] = Some (0, [18446744073709551609])"
  using Big_Int_round_trip [of "div_sample 0" "[18446744073709551609]" "[0]"]
  by (auto simp: big_shape_def man_limit_def)

text \<open>
  C25. \<^verbatim>\<open>ToInt\<close> into an \<^verbatim>\<open>Int\<close> drops the fraction. The carry is set when the result does not fit, and also
  for every number between minus one and zero, although its result zero is right.
\<close>

theorem Big_ToInt_truncates:
  assumes "standard b" "t \<noteq> []" "length t < man_limit"
  shows "\<exists>c r. Big_ToInt_Int b t = Some (c, r) \<and> length r = length t \<and>
    (c = 0 \<longleftrightarrow> fits (length t) (truncated (bval b)) \<and> \<not> (- 1 < bval b \<and> bval b < 0)) \<and>
    (fits (length t) (truncated (bval b)) \<longrightarrow> ival r = truncated (bval b))"
proof -
  have n: "0 < length t" using assms(2) by simp
  note V = ToInt_Int_value [OF assms(1) refl n assms(3)]
  have "\<not> 2 ^ (64 * length t) \<le> \<bar>bval b\<bar>" if "fits (length t) (truncated (bval b))" using that too_big_not_fits by blast
  then show ?thesis unfolding V by (auto simp: signed_carry_def ival_itab)
qed

theorem Big_ToInt_truncates_witness:
  "\<exists>c r. Big_ToInt_Int (div_sample (2 ^ 63)) [0] = Some (c, r) \<and> c \<noteq> 0"
proof -
  have s: "standard (div_sample (2 ^ 63))" "bval (div_sample (2 ^ 63)) = real_of_int (2 ^ 63)" using samples(1,6) by simp_all
  have "\<not> fits (length [0 :: uint]) (truncated (bval (div_sample (2 ^ 63))))" unfolding s(2) truncated_of_int by (simp add: fits_def W_def)
  then show ?thesis using Big_ToInt_truncates [OF s(1), of "[0]"] by (auto simp: man_limit_def)
qed

text \<open>
  C22. A finite \<^verbatim>\<open>double\<close> other than negative zero that is converted to \<^verbatim>\<open>Big\<close> and back is unchanged.
\<close>

theorem Big_double_round_trip:
  assumes "big_shape b" "d_finite d" "d \<noteq> 0x8000000000000000"
  shows "\<exists>z. Big_FromDouble b d = Some (0, z) \<and> bval z = dvalue d \<and> Big_ToDouble z = (0, d)"
  using double_round_trip [OF assms] FromDouble_value [OF assms(1,2)] by auto

theorem Big_double_round_trip_witness:
  "\<exists>z. Big_FromDouble (div_sample 0) 0xBFF8000000000000 = Some (0, z) \<and> Big_ToDouble z = (0, 0xBFF8000000000000)"
  using Big_double_round_trip [of "div_sample 0" "0xBFF8000000000000"]
  by (auto simp: big_shape_def man_limit_def d_finite_def dmag_def)

text \<open>
  C23. The order of coordinates and the order of \<^verbatim>\<open>Big\<close> agree: finite values of \<^verbatim>\<open>double\<close>, compared as the
  geometry library compares them, compare the same after the conversion.
\<close>

theorem Big_double_order:
  assumes "big_shape b" "d_finite x" "d_finite y"
  shows "\<exists>u v. Big_FromDouble b x = Some (0, u) \<and> Big_FromDouble b y = Some (0, v) \<and>
    Big_less u v = d_less x y \<and> Big_equal u v = d_eq x y \<and> Big_less_equal u v = d_le x y"
  using assms by (rule double_order)

theorem Big_double_order_witness:
  "\<exists>u v. Big_FromDouble (div_sample 0) 0xBFF8000000000000 = Some (0, u) \<and> Big_FromDouble (div_sample 0) 0x3FF0000000000000 = Some (0, v) \<and>
    Big_less u v = d_less 0xBFF8000000000000 0x3FF0000000000000"
  using Big_double_order [of "div_sample 0" "0xBFF8000000000000" "0x3FF0000000000000"]
  by (auto simp: big_shape_def man_limit_def d_finite_def dmag_def)

text \<open>
  C28. A \<^verbatim>\<open>double\<close> that is not a number, converted into an object that held zero, comes back as the number
  zero: the zero flag of the object stays set and \<^verbatim>\<open>ToDouble\<close> looks at it first.
\<close>

theorem Big_nan_becomes_zero:
  assumes "big_shape b" "isnan d"
  shows "\<exists>z. Big_FromDouble (Big_SetZero b) d = Some (0, z) \<and> Big_IsNan z \<and> Big_ToDouble z = (0, d_zero)"
  using nan_through_zero [OF assms] by (simp add: d_zero_def)

theorem Big_nan_becomes_zero_witness:
  "\<exists>z. Big_FromDouble (Big_SetZero (div_sample 0)) DoubleNotANumber = Some (0, z) \<and> Big_IsNan z \<and> Big_ToDouble z = (0, d_zero)"
  using Big_nan_becomes_zero [of "div_sample 0" DoubleNotANumber] by (simp add: big_shape_def man_limit_def)

section \<open>The invariant\<close>

text \<open>
  C16. An object that is made by a constructor (from nothing, from machine integers, doubles, \<^verbatim>\<open>Int\<close>, \<^verbatim>\<open>UInt\<close> or
  another \<^verbatim>\<open>Big\<close>) and changed by the methods listed in \<open>big_built\<close>, in any order and number of steps and whatever
  carry they return, has the sizes it was declared with and is standard or flagged as not a
  number. The methods are assignment, the setters of special values but \<^verbatim>\<open>SetSign\<close>, negation, absolute value and
  sign, integer and fractional part, rounding, addition and subtraction, the multiplications, division,
  remainder, the bit operations and the powers with integer exponents.
\<close>

theorem Big_built_standard:
  assumes "big_built b z" "big_shape b"
  shows "same_type z b \<and> big_shape z \<and> (Big_IsNan z \<or> standard z)"
  using built_number [OF assms] by (simp add: number_def)

text \<open>The largest number plus one half, whose exponents are far apart.\<close>

theorem Big_built_standard_witness:
  "\<exists>h z. Big_Set05 (Big_new (div_sample 0)) = Some h \<and> Big_Add (Big_SetMax (Big_new (div_sample 0))) h True True = Some (0, z) \<and>
    standard z"
proof -
  let ?b = "div_sample 0"
  have "map_option (\<lambda>(c, z). (c, Big_IsNan z)) (Big_Set05 (Big_new ?b) \<bind> (\<lambda>h. Big_Add (Big_SetMax (Big_new ?b)) h True True)) = Some (0, False)"
    by code_simp
  then obtain h z where h: "Big_Set05 (Big_new ?b) = Some h" and z: "Big_Add (Big_SetMax (Big_new ?b)) h True True = Some (0, z)" "\<not> Big_IsNan z"
    by (auto split: Option.bind_splits)
  have "big_built ?b z" by (intro built_Add [OF _ _ z(1)] built_max built_half [OF _ h] built_new)
  then have "standard z" using Big_built_standard [of ?b z] z(2) by (simp add: big_shape_def man_limit_def)
  then show ?thesis using h z(1) by blast
qed

end
