(* ===== verification/Std_Map.thy ===== *)
theory Std_Map
  imports Main "HOL-Library.Char_ord" "HOL-Library.List_Lexorder"
begin

text \<open>
  The containers of the C++ standard library the parser uses. A \<^verbatim>\<open>std::map\<close> is its sequence of
  pairs in the order of the keys (\<open>std_map\<close>); strings are ordered lexicographically by their
  bytes, as \<^verbatim>\<open>std::string\<close> is. The locale \<open>finite_map\<close> is what a client relies on: the result of
  a search after an insertion and after an erasure, and that both keep the invariant. It is
  interpreted on the sorted sequences.
\<close>

type_synonym ('k, 'v) std_map = "('k \<times> 'v) list"

section \<open>Operations\<close>

text \<open>\<^verbatim>\<open>find\<close>: the value of the key, \<open>None\<close> for \<^verbatim>\<open>end()\<close>.\<close>

fun map_find :: "('k::linorder, 'v) std_map \<Rightarrow> 'k \<Rightarrow> 'v option" where
  "map_find [] k = None"
| "map_find ((a, v) # m) k = (if a = k then Some v else if k < a then None else map_find m k)"

text \<open>\<^verbatim>\<open>insert\<close>: a key that is present keeps its value.\<close>

fun map_insert :: "('k::linorder, 'v) std_map \<Rightarrow> 'k \<Rightarrow> 'v \<Rightarrow> ('k, 'v) std_map" where
  "map_insert [] k w = [(k, w)]"
| "map_insert ((a, v) # m) k w =
     (if a = k then (a, v) # m
      else if k < a then (k, w) # (a, v) # m
      else (a, v) # map_insert m k w)"

text \<open>Assignment through an iterator: a key that is present gets the value.\<close>

fun map_assign :: "('k::linorder, 'v) std_map \<Rightarrow> 'k \<Rightarrow> 'v \<Rightarrow> ('k, 'v) std_map" where
  "map_assign [] k w = []"
| "map_assign ((a, v) # m) k w = (if a = k then (a, w) # m else (a, v) # map_assign m k w)"

fun map_erase :: "('k::linorder, 'v) std_map \<Rightarrow> 'k \<Rightarrow> ('k, 'v) std_map" where
  "map_erase [] k = []"
| "map_erase ((a, v) # m) k = (if a = k then m else (a, v) # map_erase m k)"

text \<open>\<^verbatim>\<open>lower_bound\<close>: the first entry whose key is not less.\<close>

fun map_lower_bound :: "('k::linorder, 'v) std_map \<Rightarrow> 'k \<Rightarrow> ('k \<times> 'v) option" where
  "map_lower_bound [] k = None"
| "map_lower_bound ((a, v) # m) k = (if a < k then map_lower_bound m k else Some (a, v))"

definition map_inv :: "('k::linorder, 'v) std_map \<Rightarrow> bool" where
  "map_inv m \<longleftrightarrow> sorted_wrt (<) (map fst m)"

lemma map_inv_simps [simp]:
  "map_inv []" "map_inv ((a, v) # m) \<longleftrightarrow> (\<forall>k \<in> fst ` set m. a < k) \<and> map_inv m"
  by (auto simp: map_inv_def)

section \<open>The finite map a sequence stands for\<close>

lemma map_of_below: "\<forall>p \<in> set m. (k :: 'k::linorder) < fst p \<Longrightarrow> map_of m k = None"
  by (induction m) auto

lemma map_find_map_of: "map_inv m \<Longrightarrow> map_find m k = map_of m k"
proof (induction m)
  case (Cons p m)
  obtain a v where p: "p = (a, v)" by (cases p)
  have "map_of m k = None" if "k < a"
    using Cons.prems that p by (intro map_of_below) (auto intro: order.strict_trans)
  with Cons p show ?case by auto
qed simp

lemma keys_map_insert [simp]: "fst ` set (map_insert m k w) = insert k (fst ` set m)"
  by (induction m k w rule: map_insert.induct) auto

lemma keys_map_erase: "fst ` set (map_erase m k) \<subseteq> fst ` set m"
  by (induction m k rule: map_erase.induct) auto

lemma keys_map_assign [simp]: "fst ` set (map_assign m k w) = fst ` set m"
  by (induction m k w rule: map_assign.induct) auto

lemma map_inv_insert [simp]: "map_inv m \<Longrightarrow> map_inv (map_insert m k w)"
proof (induction m k w rule: map_insert.induct)
  case (2 a v m k w)
  have "\<forall>b \<in> fst ` set m. k < b" if "k < a"
    using "2.prems" that by (auto intro: order.strict_trans)
  with 2 show ?case
    by (cases a k rule: linorder_cases) (auto simp del: ball_simps)
qed simp

lemma map_inv_assign [simp]: "map_inv m \<Longrightarrow> map_inv (map_assign m k w)"
  by (induction m k w rule: map_assign.induct) (auto simp del: ball_simps)

lemma map_inv_erase [simp]: "map_inv m \<Longrightarrow> map_inv (map_erase m k)"
proof (induction m k rule: map_erase.induct)
  case (2 a v m k)
  then show ?case using keys_map_erase [of m k] by (simp del: ball_simps) blast
qed simp

lemma map_of_insert:
  "map_inv m \<Longrightarrow> map_of (map_insert m k w) = (if map_of m k = None then (map_of m)(k \<mapsto> w) else map_of m)"
proof (induction m k w rule: map_insert.induct)
  case (2 a v m k w)
  have "map_of m k = None" if "k < a"
    using "2.prems" that by (intro map_of_below) (auto intro: order.strict_trans)
  with 2 show ?case by (auto simp: fun_eq_iff)
qed (simp add: fun_eq_iff)

lemma map_of_assign: "map_of (map_assign m k w) = (if map_of m k = None then map_of m else (map_of m)(k \<mapsto> w))"
  by (induction m k w rule: map_assign.induct) (auto simp: fun_eq_iff)

lemma map_of_erase: "map_inv m \<Longrightarrow> map_of (map_erase m k) = (map_of m)(k := None)"
proof (induction m k rule: map_erase.induct)
  case (2 a v m k)
  have "map_of m k = None" if "a = k"
    using 2(2) that by (intro map_of_below) auto
  with 2 show ?case by (auto simp: fun_eq_iff)
qed (simp add: fun_eq_iff)

lemma map_lower_bound_Some:
  "map_lower_bound m k = Some (a, v) \<Longrightarrow> (a, v) \<in> set m \<and> \<not> a < k"
  by (induction m k rule: map_lower_bound.induct) (auto split: if_splits)

section \<open>The interface\<close>

locale finite_map =
  fixes find :: "'m \<Rightarrow> 'k \<Rightarrow> 'v option"
    and ins :: "'m \<Rightarrow> 'k \<Rightarrow> 'v \<Rightarrow> 'm"
    and asg :: "'m \<Rightarrow> 'k \<Rightarrow> 'v \<Rightarrow> 'm"
    and erase :: "'m \<Rightarrow> 'k \<Rightarrow> 'm"
    and inv :: "'m \<Rightarrow> bool"
  assumes find_insert: "inv m \<Longrightarrow> find m k = None \<Longrightarrow> find (ins m k w) = (find m)(k \<mapsto> w)"
    and find_insert_present: "inv m \<Longrightarrow> find m k = Some v \<Longrightarrow> find (ins m k w) = find m"
    and find_assign: "inv m \<Longrightarrow> find m k = Some v \<Longrightarrow> find (asg m k w) = (find m)(k \<mapsto> w)"
    and find_erase: "inv m \<Longrightarrow> find (erase m k) = (find m)(k := None)"
    and inv_insert: "inv m \<Longrightarrow> inv (ins m k w)"
    and inv_assign: "inv m \<Longrightarrow> inv (asg m k w)"
    and inv_erase: "inv m \<Longrightarrow> inv (erase m k)"
begin

text \<open>Renaming a key, as \<^verbatim>\<open>EditName\<close> does it: insertion under the new name, then erasure.\<close>

lemma find_rename:
  assumes "inv m" "find m a = Some v" "find m b = None"
  shows "find (erase (ins m b v) a) = (find m)(a := None, b \<mapsto> v)"
proof -
  have "a \<noteq> b" using assms(2,3) by auto
  then show ?thesis
    using assms by (simp add: find_insert find_erase inv_insert fun_upd_twist)
qed

lemma inv_rename: "inv m \<Longrightarrow> inv (erase (ins m b v) a)"
  by (simp add: inv_insert inv_erase)

end

interpretation sm: finite_map map_find map_insert map_assign map_erase map_inv
proof
  fix m :: "('a, 'b) std_map" and k w v
  assume m: "map_inv m"
  note find [simp] = map_find_map_of
  show "map_find (map_insert m k w) = (map_find m)(k \<mapsto> w)" if "map_find m k = None"
    using m that by (auto simp: fun_eq_iff map_of_insert)
  show "map_find (map_insert m k w) = map_find m" if "map_find m k = Some v"
    using m that by (auto simp: fun_eq_iff map_of_insert)
  show "map_find (map_assign m k w) = (map_find m)(k \<mapsto> w)" if "map_find m k = Some v"
    using m that by (auto simp: fun_eq_iff map_of_assign)
  show "map_find (map_erase m k) = (map_find m)(k := None)"
    using m by (auto simp: fun_eq_iff map_of_erase)
qed simp_all

end
