(* ===== verification/Ttmath_Objects.thy ===== *)
theory Ttmath_Objects
  imports Prelude Std_Map
begin

text \<open>
  The error codes, the conversion settings and the stop object of \<^verbatim>\<open>ttmathtypes.h\<close>, and the classes
  of \<^verbatim>\<open>ttmathobjects.h\<close>: \<^verbatim>\<open>Objects\<close>, a table of user-defined variables or functions, \<^verbatim>\<open>History\<close>, a
  bounded buffer of calculated values, and \<^verbatim>\<open>CGamma\<close>, the coefficients that go with it. The variants
  for wide strings convert their arguments and call the ones modelled here. A string is the list
  of its characters; a \<^verbatim>\<open>char\<close> is signed on the platform.
\<close>

section \<open>Error codes, settings, stop object\<close>

datatype error_code =
    err_ok | err_nothing_has_read | err_unknown_character | err_unexpected_final_bracket
  | err_stack_not_clear | err_unknown_variable | err_division_by_zero | err_interrupt
  | err_overflow | err_unknown_function | err_unknown_operator | err_unexpected_semicolon_operator
  | err_improper_amount_of_arguments | err_improper_argument | err_unexpected_end
  | err_internal_error | err_incorrect_name | err_incorrect_value | err_variable_exists
  | err_variable_loop | err_functions_loop | err_must_be_only_one_value | err_object_exists
  | err_unknown_object | err_still_calculating | err_in_short_form_used_function
  | err_percent_from

record conv =
  conv_base :: uint
  conv_scient :: bool
  conv_scient_from :: sint
  conv_base_round :: bool
  conv_round :: sint
  conv_trim_zeroes :: bool
  conv_comma :: uint
  conv_comma2 :: uint
  conv_group :: uint
  conv_group_digits :: uint
  conv_group_exp :: uint

text \<open>A \<^verbatim>\<open>char\<close> as an \<^verbatim>\<open>int\<close>.\<close>

definition char_int :: "char \<Rightarrow> int" where
  "char_int c = (let n = of_char c in if n < 128 then n else n - 256)"

definition Conv_new :: conv where
  "Conv_new = \<lparr>conv_base = 10, conv_scient = False, conv_scient_from = 15, conv_base_round = True,
     conv_round = - 1, conv_trim_zeroes = True, conv_comma = word_of_int (char_int CHR ''.''),
     conv_comma2 = word_of_int (char_int CHR '',''), conv_group = 0, conv_group_digits = 3,
     conv_group_exp = 0\<rparr>"

text \<open>
  A stop object is the sequence of answers it will give; when the answers are used up it says no,
  as the base class always does.
\<close>

type_synonym stop_calculating = "bool list"

fun StopCalculating_WasStopSignal :: "stop_calculating \<Rightarrow> bool \<times> stop_calculating" where
  "StopCalculating_WasStopSignal [] = (False, [])"
| "StopCalculating_WasStopSignal (b # bs) = (b, bs)"

section \<open>Objects\<close>

record object_item =
  object_value :: string
  object_param :: int

type_synonym object_table = "(string, object_item) std_map"

record objects =
  obj_table :: object_table

definition Objects_Item_new :: object_item where
  "Objects_Item_new = \<lparr>object_value = [], object_param = 0\<rparr>"

definition Objects_CorrectCharacter :: "int \<Rightarrow> bool \<Rightarrow> bool" where
  "Objects_CorrectCharacter c can_be_digit =
     (if (c \<ge> char_int CHR ''a'' \<and> c \<le> char_int CHR ''z'') \<or> (c \<ge> char_int CHR ''A'' \<and> c \<le> char_int CHR ''Z'')
      then True
      else if can_be_digit \<and> ((c \<ge> char_int CHR ''0'' \<and> c \<le> char_int CHR ''9'') \<or> c = char_int CHR ''_'')
      then True
      else False)"

fun IsNameCorrect_loop :: "string \<Rightarrow> bool" where
  "IsNameCorrect_loop [] = True"
| "IsNameCorrect_loop (c # s) =
     (if \<not> Objects_CorrectCharacter (char_int c) True then False else IsNameCorrect_loop s)"

definition Objects_IsNameCorrect :: "string \<Rightarrow> bool" where
  "Objects_IsNameCorrect name =
     (case name of [] \<Rightarrow> False
      | c # s \<Rightarrow> if \<not> Objects_CorrectCharacter (char_int c) False then False else IsNameCorrect_loop s)"

definition Objects_IsDefined :: "objects \<Rightarrow> string \<Rightarrow> bool" where
  "Objects_IsDefined this name = (case map_find (obj_table this) name of None \<Rightarrow> False | Some _ \<Rightarrow> True)"

definition Objects_Add :: "objects \<Rightarrow> string \<Rightarrow> string \<Rightarrow> int \<Rightarrow> error_code \<times> objects" where
  "Objects_Add this name value param =
     (if \<not> Objects_IsNameCorrect name then (err_incorrect_name, this)
      else case map_find (obj_table this) name of
        Some _ \<Rightarrow> (err_object_exists, this)
      | None \<Rightarrow> (err_ok, this\<lparr>obj_table :=
          map_insert (obj_table this) name \<lparr>object_value = value, object_param = param\<rparr>\<rparr>))"

definition Objects_Empty :: "objects \<Rightarrow> bool" where
  "Objects_Empty this = List.null (obj_table this)"

definition Objects_Clear :: "objects \<Rightarrow> objects" where
  "Objects_Clear this = this\<lparr>obj_table := []\<rparr>"

definition Objects_EditValue :: "objects \<Rightarrow> string \<Rightarrow> string \<Rightarrow> int \<Rightarrow> error_code \<times> objects" where
  "Objects_EditValue this name value param =
     (if \<not> Objects_IsNameCorrect name then (err_incorrect_name, this)
      else case map_find (obj_table this) name of
        None \<Rightarrow> (err_unknown_object, this)
      | Some i \<Rightarrow> (err_ok, this\<lparr>obj_table :=
          map_assign (obj_table this) name (i\<lparr>object_value := value, object_param := param\<rparr>)\<rparr>))"

text \<open>The assertion that the old name is still there is the last \<open>None\<close>.\<close>

definition Objects_EditName :: "objects \<Rightarrow> string \<Rightarrow> string \<Rightarrow> (error_code \<times> objects) option" where
  "Objects_EditName this old_name new_name =
     (if \<not> Objects_IsNameCorrect old_name \<or> \<not> Objects_IsNameCorrect new_name
      then Some (err_incorrect_name, this)
      else case map_find (obj_table this) old_name of
        None \<Rightarrow> Some (err_unknown_object, this)
      | Some old_i \<Rightarrow>
          if old_name = new_name then Some (err_ok, this)
          else let (err, this) = Objects_Add this new_name (object_value old_i) (object_param old_i)
            in if err = err_ok
               then (case map_find (obj_table this) old_name of
                   None \<Rightarrow> None
                 | Some _ \<Rightarrow> Some (err, this\<lparr>obj_table := map_erase (obj_table this) old_name\<rparr>))
               else Some (err, this))"

definition Objects_Delete :: "objects \<Rightarrow> string \<Rightarrow> error_code \<times> objects" where
  "Objects_Delete this name =
     (if \<not> Objects_IsNameCorrect name then (err_incorrect_name, this)
      else case map_find (obj_table this) name of
        None \<Rightarrow> (err_unknown_object, this)
      | Some _ \<Rightarrow> (err_ok, this\<lparr>obj_table := map_erase (obj_table this) name\<rparr>))"

text \<open>The string a \<^verbatim>\<open>const char *\<close> into a \<^verbatim>\<open>std::string\<close> points to ends at the first zero.\<close>

definition c_str :: "string \<Rightarrow> string" where
  "c_str s = takeWhile (\<lambda>c. c \<noteq> CHR 0x00) s"

text \<open>
  The getters return the error code and what they leave in the arguments passed by reference; the
  versions without a copy write a pointer, \<open>None\<close> being the null pointer.
\<close>

definition Objects_GetValue :: "objects \<Rightarrow> string \<Rightarrow> string \<Rightarrow> error_code \<times> string" where
  "Objects_GetValue this name value =
     (if \<not> Objects_IsNameCorrect name then (err_incorrect_name, value)
      else case map_find (obj_table this) name of
        None \<Rightarrow> (err_unknown_object, [])
      | Some i \<Rightarrow> (err_ok, object_value i))"

definition Objects_GetValue_ptr ::
  "objects \<Rightarrow> string \<Rightarrow> string option \<Rightarrow> error_code \<times> string option" where
  "Objects_GetValue_ptr this name value =
     (if \<not> Objects_IsNameCorrect name then (err_incorrect_name, value)
      else case map_find (obj_table this) name of
        None \<Rightarrow> (err_unknown_object, None)
      | Some i \<Rightarrow> (err_ok, Some (c_str (object_value i))))"

definition Objects_GetValueAndParam ::
  "objects \<Rightarrow> string \<Rightarrow> string \<Rightarrow> int \<Rightarrow> error_code \<times> string \<times> int" where
  "Objects_GetValueAndParam this name value param =
     (if \<not> Objects_IsNameCorrect name then (err_incorrect_name, value, param)
      else case map_find (obj_table this) name of
        None \<Rightarrow> (err_unknown_object, [], 0)
      | Some i \<Rightarrow> (err_ok, object_value i, object_param i))"

definition Objects_GetValueAndParam_ptr ::
  "objects \<Rightarrow> string \<Rightarrow> string option \<Rightarrow> int \<Rightarrow> error_code \<times> string option \<times> int" where
  "Objects_GetValueAndParam_ptr this name value param =
     (if \<not> Objects_IsNameCorrect name then (err_incorrect_name, value, param)
      else case map_find (obj_table this) name of
        None \<Rightarrow> (err_unknown_object, None, 0)
      | Some i \<Rightarrow> (err_ok, Some (c_str (object_value i)), object_param i))"

section \<open>History\<close>

record 'v history_item =
  hist_key :: 'v
  hist_value :: 'v
  hist_err :: error_code

record 'v history =
  buffer :: "'v history_item list"
  buffer_max_size :: nat

definition History_new :: "'v history" where
  "History_new = \<lparr>buffer = [], buffer_max_size = 15\<rparr>"

definition History_new_size :: "nat \<Rightarrow> 'v history" where
  "History_new_size new_size = \<lparr>buffer = [], buffer_max_size = new_size\<rparr>"

definition History_Add :: "'v history \<Rightarrow> 'v \<Rightarrow> 'v \<Rightarrow> error_code \<Rightarrow> 'v history" where
  "History_Add this key value err =
     (let item = \<lparr>hist_key = key, hist_value = value, hist_err = err\<rparr>;
          this = this\<lparr>buffer := buffer this @ [item]\<rparr>
      in if length (buffer this) > buffer_max_size this
         then this\<lparr>buffer := tl (buffer this)\<rparr> else this)"

text \<open>The comparison of keys is the operator of the template argument.\<close>

fun History_Get_loop ::
  "('v \<Rightarrow> 'v \<Rightarrow> bool) \<Rightarrow> 'v history_item list \<Rightarrow> 'v \<Rightarrow> 'v \<Rightarrow> error_code \<Rightarrow> bool \<times> 'v \<times> error_code" where
  "History_Get_loop eq [] key value err = (False, value, err)"
| "History_Get_loop eq (i # is') key value err =
     (if eq (hist_key i) key then (True, hist_value i, hist_err i)
      else History_Get_loop eq is' key value err)"

definition History_Get ::
  "('v \<Rightarrow> 'v \<Rightarrow> bool) \<Rightarrow> 'v history \<Rightarrow> 'v \<Rightarrow> 'v \<Rightarrow> error_code \<Rightarrow> bool \<times> 'v \<times> error_code" where
  "History_Get eq this key value err = History_Get_loop eq (buffer this) key value err"

fun History_Remove_loop ::
  "('v \<Rightarrow> 'v \<Rightarrow> bool) \<Rightarrow> 'v history_item list \<Rightarrow> 'v \<Rightarrow> bool \<times> 'v history_item list" where
  "History_Remove_loop eq [] key = (False, [])"
| "History_Remove_loop eq (i # is') key =
     (if eq (hist_key i) key then (True, is')
      else let (b, is') = History_Remove_loop eq is' key in (b, i # is'))"

definition History_Remove :: "('v \<Rightarrow> 'v \<Rightarrow> bool) \<Rightarrow> 'v history \<Rightarrow> 'v \<Rightarrow> bool \<times> 'v history" where
  "History_Remove eq this key =
     (let (b, is') = History_Remove_loop eq (buffer this) key in (b, this\<lparr>buffer := is'\<rparr>))"

record 'v cgamma_table =
  fact_table :: "'v list"
  bern_table :: "'v list"
  gamma_history :: "'v history"

definition CGamma_new :: "'v cgamma_table" where
  "CGamma_new = \<lparr>fact_table = [], bern_table = [], gamma_history = History_new\<rparr>"

section \<open>A table of objects is a finite map\<close>

text \<open>The invariant: the names are sorted and each of them is a correct name.\<close>

definition objects_ok :: "objects \<Rightarrow> bool" where
  "objects_ok this \<longleftrightarrow> map_inv (obj_table this) \<and> (\<forall>p \<in> set (obj_table this). Objects_IsNameCorrect (fst p))"

definition object_map :: "objects \<Rightarrow> string \<Rightarrow> object_item option" where
  "object_map this = map_find (obj_table this)"

lemma name_of_object: "objects_ok this \<Longrightarrow> object_map this name = Some i \<Longrightarrow> Objects_IsNameCorrect name"
  by (fastforce simp: objects_ok_def object_map_def map_find_map_of dest: map_of_SomeD)

lemma IsDefined_object_map: "Objects_IsDefined this name \<longleftrightarrow> name \<in> dom (object_map this)"
  by (auto simp: Objects_IsDefined_def object_map_def split: option.split)

lemma objects_ok_Clear [simp]: "objects_ok (Objects_Clear this)"
  by (simp add: objects_ok_def Objects_Clear_def)

lemma names_insert:
  "(\<forall>p \<in> set (map_insert m k w). P (fst p)) \<longleftrightarrow> P k \<and> (\<forall>p \<in> set m. P (fst p))"
  using keys_map_insert [of m k w] by (metis (no_types, lifting) image_iff insert_iff)

lemma names_erase: "\<forall>p \<in> set m. P (fst p) \<Longrightarrow> \<forall>p \<in> set (map_erase m k). P (fst p)"
  using keys_map_erase [of m k] by (metis (no_types, lifting) image_iff subsetD)

lemma names_assign: "(\<forall>p \<in> set (map_assign m k w). P (fst p)) \<longleftrightarrow> (\<forall>p \<in> set m. P (fst p))"
  using keys_map_assign [of m k w] by (metis (no_types, lifting) image_iff)

lemma Add_cases:
  assumes "objects_ok this"
  shows "Objects_Add this name value param =
    (if \<not> Objects_IsNameCorrect name then (err_incorrect_name, this)
     else if name \<in> dom (object_map this) then (err_object_exists, this)
     else (err_ok, snd (Objects_Add this name value param)))"
    and "fst (Objects_Add this name value param) = err_ok \<Longrightarrow>
      object_map (snd (Objects_Add this name value param)) =
        (object_map this)(name \<mapsto> \<lparr>object_value = value, object_param = param\<rparr>)"
    and "objects_ok (snd (Objects_Add this name value param))"
  using assms
  by (auto simp: Objects_Add_def object_map_def objects_ok_def sm.find_insert names_insert
      split: option.splits if_splits)

lemma EditValue_cases:
  assumes "objects_ok this"
  shows "fst (Objects_EditValue this name value param) =
    (if \<not> Objects_IsNameCorrect name then err_incorrect_name
     else if name \<in> dom (object_map this) then err_ok else err_unknown_object)"
    and "object_map (snd (Objects_EditValue this name value param)) =
      (if name \<in> dom (object_map this)
       then (object_map this)(name \<mapsto> \<lparr>object_value = value, object_param = param\<rparr>)
       else object_map this)"
    and "objects_ok (snd (Objects_EditValue this name value param))"
  using assms name_of_object [OF assms, of name]
  by (auto simp: Objects_EditValue_def object_map_def objects_ok_def sm.find_assign names_assign
      split: option.splits)

lemma Delete_cases:
  assumes "objects_ok this"
  shows "fst (Objects_Delete this name) =
    (if \<not> Objects_IsNameCorrect name then err_incorrect_name
     else if name \<in> dom (object_map this) then err_ok else err_unknown_object)"
    and "object_map (snd (Objects_Delete this name)) = (object_map this)(name := None)"
    and "objects_ok (snd (Objects_Delete this name))"
  using assms name_of_object [OF assms, of name]
    names_erase [of "obj_table this" Objects_IsNameCorrect name]
  by (auto simp: Objects_Delete_def object_map_def objects_ok_def sm.find_erase fun_eq_iff
      split: option.splits)

lemma EditName_cases:
  assumes "objects_ok this"
  shows "\<exists>err this'. Objects_EditName this old_name new_name = Some (err, this') \<and> objects_ok this' \<and>
    err = (if \<not> Objects_IsNameCorrect old_name \<or> \<not> Objects_IsNameCorrect new_name then err_incorrect_name
       else if old_name \<notin> dom (object_map this) then err_unknown_object
       else if new_name \<in> dom (object_map this) \<and> old_name \<noteq> new_name then err_object_exists
       else err_ok) \<and>
    object_map this' = (if err = err_ok
       then (object_map this)(old_name := None, new_name := object_map this old_name)
       else object_map this)"
proof (cases "Objects_IsNameCorrect old_name \<and> Objects_IsNameCorrect new_name \<and> old_name \<noteq> new_name
    \<and> old_name \<in> dom (object_map this) \<and> new_name \<notin> dom (object_map this)")
  case True
  then obtain i where i: "map_find (obj_table this) old_name = Some i" "map_find (obj_table this) new_name = None"
    by (auto simp: object_map_def)
  have inv: "map_inv (obj_table this)" using assms by (simp add: objects_ok_def)
  let ?m = "map_insert (obj_table this) new_name \<lparr>object_value = object_value i, object_param = object_param i\<rparr>"
  have m: "?m = map_insert (obj_table this) new_name i" by (cases i) simp
  have "map_find ?m old_name = Some i"
    using True i by (simp add: m sm.find_insert [OF inv])
  then have "Objects_EditName this old_name new_name = Some (err_ok, this\<lparr>obj_table := map_erase ?m old_name\<rparr>)"
    using True i by (simp add: Objects_EditName_def Objects_Add_def)
  moreover have "\<forall>p \<in> set (map_erase ?m old_name). Objects_IsNameCorrect (fst p)"
    using True assms by (intro names_erase) (simp only: names_insert objects_ok_def, simp)
  ultimately show ?thesis
    using True i assms sm.find_rename [OF inv i] sm.inv_rename [OF inv]
    by (auto simp: m objects_ok_def object_map_def)
next
  case False
  then show ?thesis
    using assms by (auto simp: Objects_EditName_def Objects_Add_def object_map_def fun_eq_iff split: option.splits)
qed

text \<open>
  A table under any sequence of calls, and the specification: the same calls on a partial function from
  names to items.
\<close>

datatype object_call =
    Call_Add string string int | Call_EditValue string string int | Call_EditName string string
  | Call_Delete string | Call_Clear

fun object_step :: "object_call \<Rightarrow> objects \<Rightarrow> (error_code \<times> objects) option" where
  "object_step (Call_Add name value param) this = Some (Objects_Add this name value param)"
| "object_step (Call_EditValue name value param) this = Some (Objects_EditValue this name value param)"
| "object_step (Call_EditName old_name new_name) this = Objects_EditName this old_name new_name"
| "object_step (Call_Delete name) this = Some (Objects_Delete this name)"
| "object_step Call_Clear this = Some (err_ok, Objects_Clear this)"

fun object_run :: "object_call list \<Rightarrow> objects \<Rightarrow> (error_code list \<times> objects) option" where
  "object_run [] this = Some ([], this)"
| "object_run (c # cs) this = (case object_step c this of
     None \<Rightarrow> None
   | Some (err, this) \<Rightarrow> map_option (\<lambda>(errs, this). (err # errs, this)) (object_run cs this))"

fun spec_error :: "object_call \<Rightarrow> (string \<Rightarrow> object_item option) \<Rightarrow> error_code" where
  "spec_error (Call_Add name value param) m =
     (if \<not> Objects_IsNameCorrect name then err_incorrect_name else if name \<in> dom m then err_object_exists else err_ok)"
| "spec_error (Call_EditName old_name new_name) m =
     (if \<not> Objects_IsNameCorrect old_name \<or> \<not> Objects_IsNameCorrect new_name then err_incorrect_name
      else if old_name \<notin> dom m then err_unknown_object
      else if new_name \<in> dom m \<and> old_name \<noteq> new_name then err_object_exists else err_ok)"
| "spec_error (Call_EditValue name value param) m =
     (if \<not> Objects_IsNameCorrect name then err_incorrect_name else if name \<in> dom m then err_ok else err_unknown_object)"
| "spec_error (Call_Delete name) m =
     (if \<not> Objects_IsNameCorrect name then err_incorrect_name else if name \<in> dom m then err_ok else err_unknown_object)"
| "spec_error Call_Clear m = err_ok"

fun spec_map :: "object_call \<Rightarrow> (string \<Rightarrow> object_item option) \<Rightarrow> string \<Rightarrow> object_item option" where
  "spec_map (Call_Add name value param) m = m(name \<mapsto> \<lparr>object_value = value, object_param = param\<rparr>)"
| "spec_map (Call_EditValue name value param) m = m(name \<mapsto> \<lparr>object_value = value, object_param = param\<rparr>)"
| "spec_map (Call_EditName old_name new_name) m = m(old_name := None, new_name := m old_name)"
| "spec_map (Call_Delete name) m = m(name := None)"
| "spec_map Call_Clear m = Map.empty"

fun spec_run :: "object_call list \<Rightarrow> (string \<Rightarrow> object_item option) \<Rightarrow> error_code list \<times> (string \<Rightarrow> object_item option)" where
  "spec_run [] m = ([], m)"
| "spec_run (c # cs) m =
     (let err = spec_error c m; (errs, m) = spec_run cs (if err = err_ok then spec_map c m else m) in (err # errs, m))"

lemma object_step_refines:
  assumes "objects_ok this"
  shows "\<exists>this'. object_step c this = Some (spec_error c (object_map this), this') \<and> objects_ok this' \<and>
    object_map this' = (if spec_error c (object_map this) = err_ok then spec_map c (object_map this) else object_map this)"
proof (cases c)
  case (Call_Add name v param)
  have "fst (Objects_Add this name v param) = spec_error c (object_map this)"
    using Add_cases(1) [OF assms, of name v param] Call_Add by (auto simp: prod_eq_iff)
  moreover have "snd (Objects_Add this name v param) = this" if "fst (Objects_Add this name v param) \<noteq> err_ok"
    using Add_cases(1) [OF assms, of name v param] that by (auto simp: prod_eq_iff split: if_splits)
  ultimately show ?thesis using Add_cases(2,3) [OF assms, of name v param] Call_Add by (force simp: prod_eq_iff)
next
  case (Call_EditValue name v param)
  then show ?thesis using EditValue_cases [OF assms, of name v param] name_of_object [OF assms, of name]
    by (auto simp: prod_eq_iff)
next
  case (Call_EditName old_name new_name)
  then show ?thesis using EditName_cases [OF assms, of old_name new_name] by fastforce
next
  case (Call_Delete name)
  then show ?thesis using Delete_cases [OF assms, of name] name_of_object [OF assms, of name]
    by (cases "Objects_Delete this name") (auto split: if_splits)
next
  case Call_Clear
  then show ?thesis by (auto simp: object_map_def Objects_Clear_def objects_ok_def)
qed

lemma object_run_refines:
  "objects_ok t \<Longrightarrow> \<exists>t'. object_run cs t = Some (fst (spec_run cs (object_map t)), t') \<and> objects_ok t' \<and>
    object_map t' = snd (spec_run cs (object_map t))"
proof (induction cs arbitrary: t)
  case (Cons c cs)
  obtain t' where t': "object_step c t = Some (spec_error c (object_map t), t')" "objects_ok t'"
    "object_map t' = (if spec_error c (object_map t) = err_ok then spec_map c (object_map t) else object_map t)"
    using object_step_refines [OF Cons.prems] by blast
  then show ?case using Cons.IH [OF t'(2)] by (auto simp: Let_def split_beta)
qed simp

lemma GetValueAndParam_object_map:
  "Objects_GetValueAndParam this name value param =
    (if \<not> Objects_IsNameCorrect name then (err_incorrect_name, value, param)
     else case object_map this name of None \<Rightarrow> (err_unknown_object, [], 0) | Some i \<Rightarrow> (err_ok, object_value i, object_param i))"
  by (simp add: Objects_GetValueAndParam_def object_map_def)

section \<open>The history is a bounded buffer of the latest entries\<close>

lemma History_Add_latest:
  assumes "length (buffer h) \<le> buffer_max_size h"
  shows "buffer (History_Add h key value err) =
      (let xs = buffer h @ [\<lparr>hist_key = key, hist_value = value, hist_err = err\<rparr>]
       in drop (length xs - buffer_max_size h) xs)"
    and "length (buffer (History_Add h key value err)) \<le> buffer_max_size (History_Add h key value err)"
    and "buffer_max_size (History_Add h key value err) = buffer_max_size h"
proof -
  have "Suc (length (buffer h)) - buffer_max_size h = 1"
    if "\<not> Suc (length (buffer h)) \<le> buffer_max_size h" using assms that by linarith
  then show "buffer (History_Add h key value err) =
      (let xs = buffer h @ [\<lparr>hist_key = key, hist_value = value, hist_err = err\<rparr>]
       in drop (length xs - buffer_max_size h) xs)"
    by (auto simp: History_Add_def Let_def drop_Suc not_less_eq_eq simp del: drop_append)
qed (use assms in \<open>auto simp: History_Add_def Let_def\<close>)

lemma History_Get_find:
  "History_Get eq h key value err =
    (case List.find (\<lambda>i. eq (hist_key i) key) (buffer h) of
       None \<Rightarrow> (False, value, err) | Some i \<Rightarrow> (True, hist_value i, hist_err i))"
proof -
  have "History_Get_loop eq b key value err =
    (case List.find (\<lambda>i. eq (hist_key i) key) b of
       None \<Rightarrow> (False, value, err) | Some i \<Rightarrow> (True, hist_value i, hist_err i))" for b :: "'a history_item list"
    by (induction b) auto
  then show ?thesis by (simp add: History_Get_def)
qed

lemma History_Remove_first:
  "History_Remove eq h key =
    (\<exists>i \<in> set (buffer h). eq (hist_key i) key,
     h\<lparr>buffer := takeWhile (\<lambda>i. \<not> eq (hist_key i) key) (buffer h) @
        tl (dropWhile (\<lambda>i. \<not> eq (hist_key i) key) (buffer h))\<rparr>)"
proof -
  have "History_Remove_loop eq b key =
    (\<exists>i \<in> set b. eq (hist_key i) key,
     takeWhile (\<lambda>i. \<not> eq (hist_key i) key) b @ tl (dropWhile (\<lambda>i. \<not> eq (hist_key i) key) b))"
    for b :: "'a history_item list"
    by (induction b) (auto split: prod.splits)
  then show ?thesis by (simp add: History_Remove_def)
qed

fun history_run :: "'v history_item list \<Rightarrow> 'v history \<Rightarrow> 'v history" where
  "history_run [] h = h"
| "history_run (i # is') h = history_run is' (History_Add h (hist_key i) (hist_value i) (hist_err i))"

lemma history_run_latest:
  assumes "length (buffer h) \<le> buffer_max_size h"
  shows "buffer (history_run is' h) = drop (length (buffer h) + length is' - buffer_max_size h) (buffer h @ is')"
  using assms
proof (induction is' arbitrary: h)
  case (Cons i is')
  let ?h = "History_Add h (hist_key i) (hist_value i) (hist_err i)"
  note h = History_Add_latest [OF Cons.prems, of "hist_key i" "hist_value i" "hist_err i"]
  have i: "\<lparr>hist_key = hist_key i, hist_value = hist_value i, hist_err = hist_err i\<rparr> = i" by simp
  define xs where "xs = buffer h @ [i]"
  have b: "buffer ?h = drop (length xs - buffer_max_size h) xs" using h(1) unfolding i xs_def Let_def .
  have dd: "drop j (drop k xs @ ys) = drop (j + k) (xs @ ys)" if "k \<le> length xs" for j k ys
    using that by (simp add: add.commute)
  have "buffer (history_run (i # is') h) = drop (length (buffer ?h) + length is' - buffer_max_size h) (buffer ?h @ is')"
    using Cons.IH [OF h(2)] h(3) by simp
  also have "\<dots> = drop (length (buffer ?h) + length is' - buffer_max_size h + (length xs - buffer_max_size h)) (xs @ is')"
    unfolding b by (rule dd) simp
  also have "length (buffer ?h) + length is' - buffer_max_size h + (length xs - buffer_max_size h) =
      length xs + length is' - buffer_max_size h"
    unfolding b by simp
  finally show ?case by (simp add: xs_def)
qed simp

end
