(* ===== verification/Action.thy ===== *)
theory Action
  imports Ttmath_Objects
begin

text \<open>
  Methods that change the object and may throw an error code. An \<open>action\<close> maps the state before
  the call to the state after it and either the error code that was thrown (\<open>Inl\<close>) or the value
  returned (\<open>Inr\<close>); \<open>None\<close> means undefined behaviour, a failed assertion or a call that does not
  return. \<open>triple\<close> is the triple for total correctness with a postcondition for both ways out; its
  rules are collected in \<open>triple_intros\<close>.
\<close>

named_theorems triple_intros \<open>rules for triples\<close>

type_synonym ('s, 'a) action = "'s \<Rightarrow> ((error_code + 'a) \<times> 's) option"

definition ret :: "'a \<Rightarrow> ('s, 'a) action" where
  "ret x s = Some (Inr x, s)"

definition throw :: "error_code \<Rightarrow> ('s, 'a) action" where
  "throw e s = Some (Inl e, s)"

definition stuck :: "('s, 'a) action" where
  "stuck s = None"

definition andthen :: "('s, 'a) action \<Rightarrow> ('a \<Rightarrow> ('s, 'b) action) \<Rightarrow> ('s, 'b) action" where
  "andthen m f s = Option.bind (m s) (\<lambda>(r, s). case r of Inl e \<Rightarrow> Some (Inl e, s) | Inr x \<Rightarrow> f x s)"

definition gets :: "('s \<Rightarrow> 'a) \<Rightarrow> ('s, 'a) action" where
  "gets f s = Some (Inr (f s), s)"

definition modify :: "('s \<Rightarrow> 's) \<Rightarrow> ('s, unit) action" where
  "modify f s = Some (Inr (), f s)"

definition from_option :: "'a option \<Rightarrow> ('s, 'a) action" where
  "from_option x s = map_option (\<lambda>x. (Inr x, s)) x"

definition throw_if :: "bool \<Rightarrow> error_code \<Rightarrow> ('s, unit) action" where
  "throw_if b e = (if b then throw e else ret ())"

section \<open>Laws\<close>

lemma ret_apply [simp]: "ret x s = Some (Inr x, s)" by (simp add: ret_def)
lemma throw_apply [simp]: "throw e s = Some (Inl e, s)" by (simp add: throw_def)
lemma stuck_apply [simp]: "stuck s = None" by (simp add: stuck_def)
lemma gets_apply [simp]: "gets f s = Some (Inr (f s), s)" by (simp add: gets_def)
lemma modify_apply [simp]: "modify f s = Some (Inr (), f s)" by (simp add: modify_def)
lemma from_option_simps [simp]: "from_option (Some x) s = Some (Inr x, s)" "from_option None s = None"
  by (simp_all add: from_option_def)
lemma throw_if_simps [simp]: "throw_if True e s = Some (Inl e, s)" "throw_if False e s = Some (Inr (), s)"
  by (simp_all add: throw_if_def)

lemma andthen_None: "m s = None \<Longrightarrow> andthen m f s = None"
  by (simp add: andthen_def)

lemma andthen_Inl: "m s = Some (Inl e, s') \<Longrightarrow> andthen m f s = Some (Inl e, s')"
  by (simp add: andthen_def)

lemma andthen_Inr: "m s = Some (Inr x, s') \<Longrightarrow> andthen m f s = f x s'"
  by (simp add: andthen_def)

lemmas andthen_simps [simp] = andthen_None andthen_Inl andthen_Inr

lemma andthen_ret [simp]: "andthen (ret x) f = f x"
  by (simp add: fun_eq_iff)

lemma andthen_throw [simp]: "andthen (throw e) f = throw e"
  by (simp add: fun_eq_iff)

lemma andthen_throw_if [simp]:
  "andthen (throw_if False e) f = f ()" "andthen (throw_if True e) f = throw e"
  by (simp_all add: fun_eq_iff)

lemma andthen_assoc: "andthen (andthen m f) g = andthen m (\<lambda>x. andthen (f x) g)"
  by (auto simp: fun_eq_iff andthen_def split: Option.bind_splits sum.splits)

lemma andthen_mono [partial_function_mono]:
  assumes "mono_option (\<lambda>f. m f s)" "\<And>x s. mono_option (\<lambda>f. k f x s)"
  shows "mono_option (\<lambda>f. andthen (m f) (k f) s)"
  unfolding andthen_def
proof (rule bind_mono [OF assms(1)])
  fix p :: "(error_code + 'c) \<times> 'd"
  obtain r t where p: "p = (r, t)" by (cases p)
  show "mono_option (\<lambda>f. case p of (r, s) \<Rightarrow> (case r of Inl e \<Rightarrow> Some (Inl e, s) | Inr x \<Rightarrow> k f x s))"
    using assms(2) by (cases r) (simp_all add: p, simp add: monotone_on_def flat_ord_def)
qed

lemma if_apply_mono [partial_function_mono]:
  "mono_option (\<lambda>f. m f s) \<Longrightarrow> mono_option (\<lambda>f. n f s) \<Longrightarrow> mono_option (\<lambda>f. (if b then m f else n f) s)"
  by (cases b) simp_all

lemma case_prod_apply_mono [partial_function_mono]:
  "(\<And>x y. mono_option (\<lambda>f. k f x y s)) \<Longrightarrow> mono_option (\<lambda>f. (case p of (x, y) \<Rightarrow> k f x y) s)"
  by (cases p) simp

section \<open>Triples\<close>

definition triple ::
  "('s \<Rightarrow> bool) \<Rightarrow> ('s, 'a) action \<Rightarrow> ('a \<Rightarrow> 's \<Rightarrow> bool) \<Rightarrow> (error_code \<Rightarrow> 's \<Rightarrow> bool) \<Rightarrow> bool" where
  "triple P m Q E \<longleftrightarrow>
     (\<forall>s. P s \<longrightarrow> (\<exists>r s'. m s = Some (r, s') \<and> (case r of Inl e \<Rightarrow> E e s' | Inr x \<Rightarrow> Q x s')))"

lemma tripleI:
  assumes "\<And>s. P s \<Longrightarrow> \<exists>r s'. m s = Some (r, s') \<and> (case r of Inl e \<Rightarrow> E e s' | Inr x \<Rightarrow> Q x s')"
  shows "triple P m Q E"
  using assms by (simp add: triple_def)

lemma tripleE:
  assumes "triple P m Q E" "P s"
  obtains e s' where "m s = Some (Inl e, s')" "E e s'"
  | x s' where "m s = Some (Inr x, s')" "Q x s'"
proof -
  from assms obtain r s' where "m s = Some (r, s')" "case r of Inl e \<Rightarrow> E e s' | Inr x \<Rightarrow> Q x s'"
    unfolding triple_def by blast
  with that show thesis by (cases r) auto
qed

lemma triple_weaken:
  assumes "triple P' m Q' E'" "\<And>s. P s \<Longrightarrow> P' s" "\<And>x s. Q' x s \<Longrightarrow> Q x s" "\<And>e s. E' e s \<Longrightarrow> E e s"
  shows "triple P m Q E"
proof (rule tripleI)
  fix s assume "P s"
  then have "P' s" by (rule assms(2))
  with assms(1) show "\<exists>r s'. m s = Some (r, s') \<and> (case r of Inl e \<Rightarrow> E e s' | Inr x \<Rightarrow> Q x s')"
    by (cases rule: tripleE) (use assms(3,4) in auto)
qed

lemma triple_pre: "triple P' m Q E \<Longrightarrow> (\<And>s. P s \<Longrightarrow> P' s) \<Longrightarrow> triple P m Q E"
  by (simp add: triple_def)

lemma triple_ret [triple_intros]: "(\<And>s. P s \<Longrightarrow> Q x s) \<Longrightarrow> triple P (ret x) Q E"
  by (simp add: triple_def)

lemma triple_throw [triple_intros]: "(\<And>s. P s \<Longrightarrow> E e s) \<Longrightarrow> triple P (throw e) Q E"
  by (simp add: triple_def)

lemma triple_throw_if [triple_intros]:
  "(\<And>s. P s \<Longrightarrow> b \<Longrightarrow> E e s) \<Longrightarrow> (\<And>s. P s \<Longrightarrow> \<not> b \<Longrightarrow> Q () s) \<Longrightarrow> triple P (throw_if b e) Q E"
  by (cases b) (auto simp: triple_def)

lemma triple_gets: "triple P (gets f) (\<lambda>x s. P s \<and> x = f s) E"
  by (simp add: triple_def)

lemma triple_modify: "(\<And>s. P s \<Longrightarrow> Q () (f s)) \<Longrightarrow> triple P (modify f) Q E"
  by (simp add: triple_def)

lemma triple_from_option: "x \<noteq> None \<Longrightarrow> (\<And>s y. P s \<Longrightarrow> x = Some y \<Longrightarrow> Q y s) \<Longrightarrow> triple P (from_option x) Q E"
  by (auto simp: triple_def)

lemma triple_andthen:
  assumes "triple P m R E" "\<And>x. triple (R x) (f x) Q E"
  shows "triple P (andthen m f) Q E"
proof (rule tripleI)
  fix s assume "P s"
  with assms(1) show "\<exists>r s'. andthen m f s = Some (r, s') \<and> (case r of Inl e \<Rightarrow> E e s' | Inr x \<Rightarrow> Q x s')"
  proof (cases rule: tripleE)
    case (2 x s')
    with assms(2) [of x] show ?thesis by (simp add: triple_def)
  qed simp
qed

lemma triple_if [triple_intros]:
  "(b \<Longrightarrow> triple P m Q E) \<Longrightarrow> (\<not> b \<Longrightarrow> triple P n Q E) \<Longrightarrow> triple P (if b then m else n) Q E"
  by simp

end
