(* ===== verification/Parser_State.thy ===== *)
theory Parser_State
  imports Action
begin

text \<open>
  The data of the class template \<^verbatim>\<open>Parser<ValueType>\<close> (\<^verbatim>\<open>ttmathparser.h\<close>): operators, items of the
  stack, the object itself, its constructors and setters. The template argument is the type variable
  \<open>'v\<close>; the methods of \<^verbatim>\<open>ValueType\<close> and the functions of \<^verbatim>\<open>ttmath\<close> on it that the parser calls are the
  fields of a record \<open>value_type\<close>, which every operation takes as an argument. A method of
  \<^verbatim>\<open>ValueType\<close> returns \<open>None\<close> where it fails an assertion. Pointers to member functions are the values of
  \<open>pfunction\<close> and \<open>pfunction_var\<close>. The copy of a string for wide characters is left out.
\<close>

section \<open>The template argument\<close>

datatype tt_function1 =
    tt_Sin | tt_Cos | tt_Tan | tt_Cot | tt_Ln | tt_Exp | tt_ASin | tt_ACos
  | tt_DegToRad | tt_RadToDeg | tt_GradToRad | tt_RadToGrad | tt_DegToGrad | tt_GradToDeg
  | tt_Ceil | tt_Floor | tt_Sqrt | tt_Sinh | tt_Cosh | tt_Tanh | tt_Coth
  | tt_ASinh | tt_ACosh | tt_ATanh | tt_ACoth

datatype tt_function2 = tt_Log | tt_Root

datatype tt_function3 = tt_DegToRad3 | tt_DegToDeg3 | tt_DegToGrad3

datatype tt_plain = tt_Abs | tt_SkipFraction | tt_ATan | tt_ACot | tt_Sgn

record 'v value_type =
  v_new :: 'v
  v_of_int :: "int \<Rightarrow> 'v"
  v_SetZero :: "'v \<Rightarrow> 'v"
  v_SetOne :: "'v \<Rightarrow> 'v"
  v_SetMax :: "'v \<Rightarrow> 'v"
  v_SetMin :: "'v \<Rightarrow> 'v"
  v_SetPi :: "'v \<Rightarrow> 'v"
  v_SetE :: "'v \<Rightarrow> 'v"
  v_IsZero :: "'v \<Rightarrow> bool"
  v_ChangeSign :: "'v \<Rightarrow> 'v"
  v_equal :: "'v \<Rightarrow> 'v \<Rightarrow> bool"
  v_not_equal :: "'v \<Rightarrow> 'v \<Rightarrow> bool"
  v_less :: "'v \<Rightarrow> 'v \<Rightarrow> bool"
  v_greater :: "'v \<Rightarrow> 'v \<Rightarrow> bool"
  v_less_equal :: "'v \<Rightarrow> 'v \<Rightarrow> bool"
  v_greater_equal :: "'v \<Rightarrow> 'v \<Rightarrow> bool"
  v_Add :: "'v \<Rightarrow> 'v \<Rightarrow> (uint \<times> 'v) option"
  v_Sub :: "'v \<Rightarrow> 'v \<Rightarrow> (uint \<times> 'v) option"
  v_Mul :: "'v \<Rightarrow> 'v \<Rightarrow> (uint \<times> 'v) option"
  v_Div :: "'v \<Rightarrow> 'v \<Rightarrow> (uint \<times> 'v) option"
  v_Pow :: "'v \<Rightarrow> 'v \<Rightarrow> (uint \<times> 'v) option"
  v_Mod :: "'v \<Rightarrow> 'v \<Rightarrow> (uint \<times> 'v) option"
  v_BitAnd :: "'v \<Rightarrow> 'v \<Rightarrow> (uint \<times> 'v) option"
  v_BitOr :: "'v \<Rightarrow> 'v \<Rightarrow> (uint \<times> 'v) option"
  v_BitXor :: "'v \<Rightarrow> 'v \<Rightarrow> (uint \<times> 'v) option"
  v_Round :: "'v \<Rightarrow> (uint \<times> 'v) option"
  v_RemainFraction :: "'v \<Rightarrow> 'v option"
  v_FromString :: "'v \<Rightarrow> string \<Rightarrow> conv \<Rightarrow> (uint \<times> 'v \<times> string \<times> bool) option"
  v_function1 :: "tt_function1 \<Rightarrow> 'v \<Rightarrow> ('v \<times> error_code) option"
  v_function2 :: "tt_function2 \<Rightarrow> 'v \<Rightarrow> 'v \<Rightarrow> ('v \<times> error_code) option"
  v_function3 :: "tt_function3 \<Rightarrow> 'v \<Rightarrow> 'v \<Rightarrow> 'v \<Rightarrow> ('v \<times> error_code) option"
  v_plain :: "tt_plain \<Rightarrow> 'v \<Rightarrow> 'v option"
  v_Gamma :: "'v \<Rightarrow> 'v cgamma_table \<Rightarrow> stop_calculating option \<Rightarrow>
    ('v \<times> error_code \<times> 'v cgamma_table \<times> stop_calculating option) option"
  v_Factorial :: "'v \<Rightarrow> 'v cgamma_table \<Rightarrow> stop_calculating option \<Rightarrow>
    ('v \<times> error_code \<times> 'v cgamma_table \<times> stop_calculating option) option"

section \<open>Operators\<close>

datatype mat_type =
    mat_none | mat_add | mat_sub | mat_mul | mat_div | mat_pow | mat_lt | mat_gt | mat_let
  | mat_get | mat_eq | mat_neq | mat_lor | mat_land | mat_shortmul

datatype assoc = assoc_right | assoc_non_right

record mat_op =
  mat_optype :: mat_type
  mat_priority :: int
  mat_assoc :: assoc

definition MatOperator_new :: mat_op where
  "MatOperator_new = \<lparr>mat_optype = mat_none, mat_priority = 0, mat_assoc = assoc_non_right\<rparr>"

definition MatOperator_GetType :: "mat_op \<Rightarrow> mat_type" where
  "MatOperator_GetType m = mat_optype m"

definition MatOperator_GetPriority :: "mat_op \<Rightarrow> int" where
  "MatOperator_GetPriority m = mat_priority m"

definition MatOperator_GetAssoc :: "mat_op \<Rightarrow> assoc" where
  "MatOperator_GetAssoc m = mat_assoc m"

definition MatOperator_SetType :: "mat_op \<Rightarrow> mat_type \<Rightarrow> ('s, mat_op) action" where
  "MatOperator_SetType m t =
     (let m = m\<lparr>mat_optype := t, mat_assoc := assoc_non_right\<rparr>
      in case t of
           mat_lor \<Rightarrow> ret (m\<lparr>mat_priority := 4\<rparr>)
         | mat_land \<Rightarrow> ret (m\<lparr>mat_priority := 5\<rparr>)
         | mat_eq \<Rightarrow> ret (m\<lparr>mat_priority := 7\<rparr>)
         | mat_neq \<Rightarrow> ret (m\<lparr>mat_priority := 7\<rparr>)
         | mat_lt \<Rightarrow> ret (m\<lparr>mat_priority := 7\<rparr>)
         | mat_gt \<Rightarrow> ret (m\<lparr>mat_priority := 7\<rparr>)
         | mat_let \<Rightarrow> ret (m\<lparr>mat_priority := 7\<rparr>)
         | mat_get \<Rightarrow> ret (m\<lparr>mat_priority := 7\<rparr>)
         | mat_add \<Rightarrow> ret (m\<lparr>mat_priority := 10\<rparr>)
         | mat_sub \<Rightarrow> ret (m\<lparr>mat_priority := 10\<rparr>)
         | mat_mul \<Rightarrow> ret (m\<lparr>mat_priority := 12\<rparr>)
         | mat_shortmul \<Rightarrow> ret (m\<lparr>mat_priority := 12\<rparr>)
         | mat_div \<Rightarrow> ret (m\<lparr>mat_priority := 12\<rparr>)
         | mat_pow \<Rightarrow> ret (m\<lparr>mat_priority := 14, mat_assoc := assoc_right\<rparr>)
         | mat_none \<Rightarrow> throw err_internal_error)"

section \<open>Items\<close>

datatype item_type =
    item_none | numerical_value | mat_operator | first_bracket | last_bracket | variable | semicolon

record 'v item =
  itype :: item_type
  ivalue :: 'v
  moperator :: mat_op
  ifunction :: bool
  function_name :: string
  isign :: bool

definition Item_new :: "'v value_type \<Rightarrow> 'v item" where
  "Item_new V = \<lparr>itype = item_none, ivalue = v_new V, moperator = MatOperator_new, ifunction = False,
     function_name = [], isign = False\<rparr>"

section \<open>Pointers to functions\<close>

datatype pfunction =
    pf_Gamma | pf_Factorial | pf_Abs | pf_Sin | pf_Cos | pf_Tan | pf_Cot | pf_Int | pf_Round
  | pf_Ln | pf_Log | pf_Exp | pf_Max | pf_Min | pf_ASin | pf_ACos | pf_ATan | pf_ACot | pf_Sgn
  | pf_Mod | pf_If | pf_Or | pf_And | pf_Not | pf_DegToRad | pf_RadToDeg | pf_DegToDeg
  | pf_GradToRad | pf_RadToGrad | pf_DegToGrad | pf_GradToDeg | pf_Ceil | pf_Floor | pf_Sqrt
  | pf_Sinh | pf_Cosh | pf_Tanh | pf_Coth | pf_Root | pf_ASinh | pf_ACosh | pf_ATanh | pf_ACoth
  | pf_BitAnd | pf_BitOr | pf_BitXor | pf_Sum | pf_Avg | pf_Frac

datatype pfunction_var = pfv_SetPi | pfv_SetE

type_synonym functions_table = "(string, pfunction) std_map"
type_synonym operators_table = "(string, mat_type) std_map"
type_synonym variables_table = "(string, pfunction_var) std_map"
type_synonym 'v local_variables = "(string, 'v) std_map"

section \<open>The object\<close>

record 'v parser =
  stack :: "'v item list"
  stack_index :: nat
  error :: error_code
  pstring :: string
  base :: int
  deg_rad_grad :: int
  pstop_calculating :: "stop_calculating option"
  puser_variables :: "objects option"
  puser_functions :: "objects option"
  pfunction_local_variables :: "'v local_variables option"
  visited_variables :: "string set"
  visited_functions :: "string set"
  functions_table :: functions_table
  operators_table :: operators_table
  variables_table :: variables_table
  cgamma :: "'v cgamma_table"
  group :: int
  comma :: int
  comma2 :: int
  param_sep :: int
  calculated :: bool

definition default_stack_size :: nat where
  "default_stack_size = 100"

definition Parser_Error :: "error_code \<Rightarrow> ('v parser, 'a) action" where
  "Parser_Error code = throw code"

definition Parser_InsertFunctionToTable :: "string \<Rightarrow> pfunction \<Rightarrow> 'v parser \<Rightarrow> 'v parser" where
  "Parser_InsertFunctionToTable name pf s = s\<lparr>functions_table := map_insert (functions_table s) name pf\<rparr>"

definition Parser_InsertVariableToTable :: "string \<Rightarrow> pfunction_var \<Rightarrow> 'v parser \<Rightarrow> 'v parser" where
  "Parser_InsertVariableToTable name pf s = s\<lparr>variables_table := map_insert (variables_table s) name pf\<rparr>"

definition Parser_InsertOperatorToTable :: "string \<Rightarrow> mat_type \<Rightarrow> 'v parser \<Rightarrow> 'v parser" where
  "Parser_InsertOperatorToTable name type s = s\<lparr>operators_table := map_insert (operators_table s) name type\<rparr>"

definition Parser_CreateFunctionsTable :: "'v parser \<Rightarrow> 'v parser" where
  "Parser_CreateFunctionsTable =
     fold (\<lambda>(name, pf). Parser_InsertFunctionToTable name pf)
      [(''gamma'', pf_Gamma), (''factorial'', pf_Factorial), (''abs'', pf_Abs), (''sin'', pf_Sin),
       (''cos'', pf_Cos), (''tan'', pf_Tan), (''tg'', pf_Tan), (''cot'', pf_Cot), (''ctg'', pf_Cot),
       (''int'', pf_Int), (''round'', pf_Round), (''ln'', pf_Ln), (''log'', pf_Log), (''exp'', pf_Exp),
       (''max'', pf_Max), (''min'', pf_Min), (''asin'', pf_ASin), (''acos'', pf_ACos),
       (''atan'', pf_ATan), (''atg'', pf_ATan), (''acot'', pf_ACot), (''actg'', pf_ACot),
       (''sgn'', pf_Sgn), (''mod'', pf_Mod), (''if'', pf_If), (''or'', pf_Or), (''and'', pf_And),
       (''not'', pf_Not), (''degtorad'', pf_DegToRad), (''radtodeg'', pf_RadToDeg),
       (''degtodeg'', pf_DegToDeg), (''gradtorad'', pf_GradToRad), (''radtograd'', pf_RadToGrad),
       (''degtograd'', pf_DegToGrad), (''gradtodeg'', pf_GradToDeg), (''ceil'', pf_Ceil),
       (''floor'', pf_Floor), (''sqrt'', pf_Sqrt), (''sinh'', pf_Sinh), (''cosh'', pf_Cosh),
       (''tanh'', pf_Tanh), (''tgh'', pf_Tanh), (''coth'', pf_Coth), (''ctgh'', pf_Coth),
       (''root'', pf_Root), (''asinh'', pf_ASinh), (''acosh'', pf_ACosh), (''atanh'', pf_ATanh),
       (''atgh'', pf_ATanh), (''acoth'', pf_ACoth), (''actgh'', pf_ACoth), (''bitand'', pf_BitAnd),
       (''bitor'', pf_BitOr), (''bitxor'', pf_BitXor), (''band'', pf_BitAnd), (''bor'', pf_BitOr),
       (''bxor'', pf_BitXor), (''sum'', pf_Sum), (''avg'', pf_Avg), (''frac'', pf_Frac)]"

definition Parser_CreateVariablesTable :: "'v parser \<Rightarrow> 'v parser" where
  "Parser_CreateVariablesTable s =
     Parser_InsertVariableToTable ''e'' pfv_SetE (Parser_InsertVariableToTable ''pi'' pfv_SetPi s)"

definition Parser_CreateMathematicalOperatorsTable :: "'v parser \<Rightarrow> 'v parser" where
  "Parser_CreateMathematicalOperatorsTable =
     fold (\<lambda>(name, type). Parser_InsertOperatorToTable name type)
      [(''||'', mat_lor), (''&&'', mat_land), (''!='', mat_neq), (''=='', mat_eq), (''>='', mat_get),
       (''<='', mat_let), (''>'', mat_gt), (''<'', mat_lt), (''-'', mat_sub), (''+'', mat_add),
       (''/'', mat_div), (''*'', mat_mul), (''^'', mat_pow)]"

text \<open>
  The members without an initialiser (\<^verbatim>\<open>stack_index\<close>, \<^verbatim>\<open>pstring\<close>, \<^verbatim>\<open>calculated\<close>) hold an arbitrary
  value until \<^verbatim>\<open>Parse\<close> sets them; here it is a zero.
\<close>

definition parser_blank :: "'v parser" where
  "parser_blank = \<lparr>stack = [], stack_index = 0, error = err_ok, pstring = [], base = 0, deg_rad_grad = 0,
     pstop_calculating = None, puser_variables = None, puser_functions = None,
     pfunction_local_variables = None, visited_variables = {}, visited_functions = {},
     functions_table = [], operators_table = [], variables_table = [], cgamma = CGamma_new,
     group = 0, comma = 0, comma2 = 0, param_sep = 0, calculated = False\<rparr>"

definition Parser_new :: "'v parser" where
  "Parser_new =
     (let s = parser_blank\<lparr>pstop_calculating := None, puser_variables := None, puser_functions := None,
            pfunction_local_variables := None, base := 10, deg_rad_grad := 1, error := err_ok, group := 0,
            comma := char_int CHR ''.'', comma2 := char_int CHR '','', param_sep := 0\<rparr>
      in Parser_CreateMathematicalOperatorsTable (Parser_CreateVariablesTable (Parser_CreateFunctionsTable s)))"

definition Parser_assign :: "'v parser \<Rightarrow> 'v parser \<Rightarrow> 'v parser" where
  "Parser_assign this p = this\<lparr>
     pstop_calculating := pstop_calculating p,
     puser_variables := puser_variables p,
     puser_functions := puser_functions p,
     pfunction_local_variables := None,
     base := base p,
     deg_rad_grad := deg_rad_grad p,
     error := error p,
     group := group p,
     comma := comma p,
     comma2 := comma2 p,
     param_sep := param_sep p,
     functions_table := functions_table p,
     variables_table := variables_table p,
     operators_table := operators_table p,
     visited_variables := visited_variables p,
     visited_functions := visited_functions p\<rparr>"

definition Parser_new_copy :: "'v parser \<Rightarrow> 'v parser" where
  "Parser_new_copy p = Parser_assign parser_blank p"

definition Parser_SetBase :: "'v parser \<Rightarrow> int \<Rightarrow> 'v parser" where
  "Parser_SetBase s b = (if b \<ge> 2 \<and> b \<le> 16 then s\<lparr>base := b\<rparr> else s)"

definition Parser_SetDegRadGrad :: "'v parser \<Rightarrow> int \<Rightarrow> 'v parser" where
  "Parser_SetDegRadGrad s angle = (if angle \<ge> 0 \<and> angle \<le> 2 then s\<lparr>deg_rad_grad := angle\<rparr> else s)"

definition Parser_SetStopObject :: "'v parser \<Rightarrow> stop_calculating option \<Rightarrow> 'v parser" where
  "Parser_SetStopObject s ps = s\<lparr>pstop_calculating := ps\<rparr>"

definition Parser_SetVariables :: "'v parser \<Rightarrow> objects option \<Rightarrow> 'v parser" where
  "Parser_SetVariables s pv = s\<lparr>puser_variables := pv\<rparr>"

definition Parser_SetFunctions :: "'v parser \<Rightarrow> objects option \<Rightarrow> 'v parser" where
  "Parser_SetFunctions s pf = s\<lparr>puser_functions := pf\<rparr>"

definition Parser_SetGroup :: "'v parser \<Rightarrow> int \<Rightarrow> 'v parser" where
  "Parser_SetGroup s g = s\<lparr>group := g\<rparr>"

definition Parser_SetComma :: "'v parser \<Rightarrow> int \<Rightarrow> int \<Rightarrow> 'v parser" where
  "Parser_SetComma s c c2 = s\<lparr>comma := c, comma2 := c2\<rparr>"

definition Parser_SetParamSep :: "'v parser \<Rightarrow> int \<Rightarrow> 'v parser" where
  "Parser_SetParamSep s p = s\<lparr>param_sep := p\<rparr>"

definition Parser_Calculated :: "'v parser \<Rightarrow> bool" where
  "Parser_Calculated s = calculated s"

end
