(* ===== verification/Parser_Functions.thy ===== *)
theory Parser_Functions
  imports Parser_State
begin

text \<open>
  The wrappers of the mathematical functions (\<^verbatim>\<open>ttmathparser.h\<close>, \<^verbatim>\<open>Gamma\<close> to \<^verbatim>\<open>Frac\<close>), user-defined
  variables and functions, and \<^verbatim>\<open>CallFunction\<close>. A wrapper gets the index of its first argument on
  the stack, the number of arguments and the element its result goes to; it returns the result. Where
  it throws, the element may have been written in the program but not here; the stack is cleared
  then before anybody sees it.

  A user-defined variable or function is parsed by a copy of the parser. \<open>nested\<close> stands for
  \<^verbatim>\<open>Parse\<close> of that copy; the recursion is closed in \<open>Parser_Loop\<close>.
\<close>

section \<open>Wrappers\<close>

text \<open>\<^verbatim>\<open>stack[i].value\<close>; an index out of range is undefined behaviour.\<close>

definition stack_value :: "nat \<Rightarrow> ('v parser, 'v) action" where
  "stack_value i = andthen (gets stack) (\<lambda>st. if i < length st then ret (ivalue (st ! i)) else stuck)"

text \<open>The test of the error code after a call.\<close>

definition check_err :: "'v \<times> error_code \<Rightarrow> ('v parser, 'v) action" where
  "check_err r = (case r of (v, err) \<Rightarrow> andthen (throw_if (err \<noteq> err_ok) err) (\<lambda>_. ret v))"

definition Parser_ConvertAngleToRad :: "'v value_type \<Rightarrow> 'v \<Rightarrow> ('v parser, 'v) action" where
  "Parser_ConvertAngleToRad V input =
     andthen (gets deg_rad_grad) (\<lambda>d.
     if d = 1 then ret input
     else andthen (from_option (if d = 0 then v_function1 V tt_DegToRad input else v_function1 V tt_GradToRad input)) check_err)"

definition Parser_ConvertRadToAngle :: "'v value_type \<Rightarrow> 'v \<Rightarrow> ('v parser, 'v) action" where
  "Parser_ConvertRadToAngle V input =
     andthen (gets deg_rad_grad) (\<lambda>d.
     if d = 1 then ret input
     else andthen (from_option (if d = 0 then v_function1 V tt_RadToDeg input else v_function1 V tt_RadToGrad input)) check_err)"

text \<open>The wrappers of one argument and an error code have the same body.\<close>

definition function1_wrapper :: "'v value_type \<Rightarrow> tt_function1 \<Rightarrow> nat \<Rightarrow> nat \<Rightarrow> ('v parser, 'v) action" where
  "function1_wrapper V f sindex amount_of_args =
     andthen (throw_if (amount_of_args \<noteq> 1) err_improper_amount_of_arguments) (\<lambda>_.
     andthen (stack_value sindex) (\<lambda>x.
     andthen (from_option (v_function1 V f x)) check_err))"

definition Parser_Gamma :: "'v value_type \<Rightarrow> nat \<Rightarrow> nat \<Rightarrow> 'v \<Rightarrow> ('v parser, 'v) action" where
  "Parser_Gamma V sindex amount_of_args result =
     andthen (throw_if (amount_of_args \<noteq> 1) err_improper_amount_of_arguments) (\<lambda>_.
     andthen (stack_value sindex) (\<lambda>x.
     andthen (gets cgamma) (\<lambda>g.
     andthen (gets pstop_calculating) (\<lambda>stop.
     andthen (from_option (v_Gamma V x g stop)) (\<lambda>(v, err, g, stop).
     andthen (modify (\<lambda>s. s\<lparr>cgamma := g, pstop_calculating := stop\<rparr>)) (\<lambda>_.
     check_err (v, err)))))))"

definition Parser_Factorial :: "'v value_type \<Rightarrow> nat \<Rightarrow> nat \<Rightarrow> 'v \<Rightarrow> ('v parser, 'v) action" where
  "Parser_Factorial V sindex amount_of_args result =
     andthen (throw_if (amount_of_args \<noteq> 1) err_improper_amount_of_arguments) (\<lambda>_.
     andthen (stack_value sindex) (\<lambda>x.
     andthen (gets cgamma) (\<lambda>g.
     andthen (gets pstop_calculating) (\<lambda>stop.
     andthen (from_option (v_Factorial V x g stop)) (\<lambda>(v, err, g, stop).
     andthen (modify (\<lambda>s. s\<lparr>cgamma := g, pstop_calculating := stop\<rparr>)) (\<lambda>_.
     check_err (v, err)))))))"

definition Parser_Abs :: "'v value_type \<Rightarrow> nat \<Rightarrow> nat \<Rightarrow> 'v \<Rightarrow> ('v parser, 'v) action" where
  "Parser_Abs V sindex amount_of_args result =
     andthen (throw_if (amount_of_args \<noteq> 1) err_improper_amount_of_arguments) (\<lambda>_.
     andthen (stack_value sindex) (\<lambda>x. from_option (v_plain V tt_Abs x)))"

definition Parser_Sin :: "'v value_type \<Rightarrow> nat \<Rightarrow> nat \<Rightarrow> 'v \<Rightarrow> ('v parser, 'v) action" where
  "Parser_Sin V sindex amount_of_args result =
     andthen (throw_if (amount_of_args \<noteq> 1) err_improper_amount_of_arguments) (\<lambda>_.
     andthen (stack_value sindex) (\<lambda>x.
     andthen (Parser_ConvertAngleToRad V x) (\<lambda>x.
     andthen (from_option (v_function1 V tt_Sin x)) check_err)))"

definition Parser_Cos :: "'v value_type \<Rightarrow> nat \<Rightarrow> nat \<Rightarrow> 'v \<Rightarrow> ('v parser, 'v) action" where
  "Parser_Cos V sindex amount_of_args result =
     andthen (throw_if (amount_of_args \<noteq> 1) err_improper_amount_of_arguments) (\<lambda>_.
     andthen (stack_value sindex) (\<lambda>x.
     andthen (Parser_ConvertAngleToRad V x) (\<lambda>x.
     andthen (from_option (v_function1 V tt_Cos x)) check_err)))"

definition Parser_Tan :: "'v value_type \<Rightarrow> nat \<Rightarrow> nat \<Rightarrow> 'v \<Rightarrow> ('v parser, 'v) action" where
  "Parser_Tan V sindex amount_of_args result =
     andthen (throw_if (amount_of_args \<noteq> 1) err_improper_amount_of_arguments) (\<lambda>_.
     andthen (stack_value sindex) (\<lambda>x.
     andthen (Parser_ConvertAngleToRad V x) (\<lambda>x.
     andthen (from_option (v_function1 V tt_Tan x)) check_err)))"

definition Parser_Cot :: "'v value_type \<Rightarrow> nat \<Rightarrow> nat \<Rightarrow> 'v \<Rightarrow> ('v parser, 'v) action" where
  "Parser_Cot V sindex amount_of_args result =
     andthen (throw_if (amount_of_args \<noteq> 1) err_improper_amount_of_arguments) (\<lambda>_.
     andthen (stack_value sindex) (\<lambda>x.
     andthen (Parser_ConvertAngleToRad V x) (\<lambda>x.
     andthen (from_option (v_function1 V tt_Cot x)) check_err)))"

definition Parser_Int :: "'v value_type \<Rightarrow> nat \<Rightarrow> nat \<Rightarrow> 'v \<Rightarrow> ('v parser, 'v) action" where
  "Parser_Int V sindex amount_of_args result =
     andthen (throw_if (amount_of_args \<noteq> 1) err_improper_amount_of_arguments) (\<lambda>_.
     andthen (stack_value sindex) (\<lambda>x. from_option (v_plain V tt_SkipFraction x)))"

definition Parser_Round :: "'v value_type \<Rightarrow> nat \<Rightarrow> nat \<Rightarrow> 'v \<Rightarrow> ('v parser, 'v) action" where
  "Parser_Round V sindex amount_of_args result =
     andthen (throw_if (amount_of_args \<noteq> 1) err_improper_amount_of_arguments) (\<lambda>_.
     andthen (stack_value sindex) (\<lambda>x.
     andthen (from_option (v_Round V x)) (\<lambda>(c, result).
     andthen (throw_if (c \<noteq> 0) err_overflow) (\<lambda>_. ret result))))"

definition Parser_Ln :: "'v value_type \<Rightarrow> nat \<Rightarrow> nat \<Rightarrow> 'v \<Rightarrow> ('v parser, 'v) action" where
  "Parser_Ln V sindex amount_of_args result =
     function1_wrapper V tt_Ln sindex amount_of_args"

definition Parser_Log :: "'v value_type \<Rightarrow> nat \<Rightarrow> nat \<Rightarrow> 'v \<Rightarrow> ('v parser, 'v) action" where
  "Parser_Log V sindex amount_of_args result =
     andthen (throw_if (amount_of_args \<noteq> 2) err_improper_amount_of_arguments) (\<lambda>_.
     andthen (stack_value sindex) (\<lambda>x.
     andthen (stack_value (sindex + 2)) (\<lambda>y.
     andthen (from_option (v_function2 V tt_Log x y)) check_err)))"

definition Parser_Exp :: "'v value_type \<Rightarrow> nat \<Rightarrow> nat \<Rightarrow> 'v \<Rightarrow> ('v parser, 'v) action" where
  "Parser_Exp V sindex amount_of_args result =
     function1_wrapper V tt_Exp sindex amount_of_args"

fun Max_loop :: "'v value_type \<Rightarrow> nat \<Rightarrow> nat \<Rightarrow> nat \<Rightarrow> 'v \<Rightarrow> ('v parser, 'v) action" where
  "Max_loop V sindex i 0 result = ret result"
| "Max_loop V sindex i (Suc n) result =
     andthen (stack_value (sindex + i * 2)) (\<lambda>x.
     Max_loop V sindex (i + 1) n (if v_less V result x then x else result))"

definition Parser_Max :: "'v value_type \<Rightarrow> nat \<Rightarrow> nat \<Rightarrow> 'v \<Rightarrow> ('v parser, 'v) action" where
  "Parser_Max V sindex amount_of_args result =
     (if amount_of_args = 0 then ret (v_SetMax V result)
      else andthen (stack_value sindex) (\<lambda>result.
      Max_loop V sindex 1 (amount_of_args - 1) result))"

fun Min_loop :: "'v value_type \<Rightarrow> nat \<Rightarrow> nat \<Rightarrow> nat \<Rightarrow> 'v \<Rightarrow> ('v parser, 'v) action" where
  "Min_loop V sindex i 0 result = ret result"
| "Min_loop V sindex i (Suc n) result =
     andthen (stack_value (sindex + i * 2)) (\<lambda>x.
     Min_loop V sindex (i + 1) n (if v_greater V result x then x else result))"

definition Parser_Min :: "'v value_type \<Rightarrow> nat \<Rightarrow> nat \<Rightarrow> 'v \<Rightarrow> ('v parser, 'v) action" where
  "Parser_Min V sindex amount_of_args result =
     (if amount_of_args = 0 then ret (v_SetMin V result)
      else andthen (stack_value sindex) (\<lambda>result.
      Min_loop V sindex 1 (amount_of_args - 1) result))"

definition Parser_ASin :: "'v value_type \<Rightarrow> nat \<Rightarrow> nat \<Rightarrow> 'v \<Rightarrow> ('v parser, 'v) action" where
  "Parser_ASin V sindex amount_of_args result =
     andthen (throw_if (amount_of_args \<noteq> 1) err_improper_amount_of_arguments) (\<lambda>_.
     andthen (stack_value sindex) (\<lambda>x.
     andthen (from_option (v_function1 V tt_ASin x)) (\<lambda>r.
     andthen (check_err r) (\<lambda>temp.
     Parser_ConvertRadToAngle V temp))))"

definition Parser_ACos :: "'v value_type \<Rightarrow> nat \<Rightarrow> nat \<Rightarrow> 'v \<Rightarrow> ('v parser, 'v) action" where
  "Parser_ACos V sindex amount_of_args result =
     andthen (throw_if (amount_of_args \<noteq> 1) err_improper_amount_of_arguments) (\<lambda>_.
     andthen (stack_value sindex) (\<lambda>x.
     andthen (from_option (v_function1 V tt_ACos x)) (\<lambda>r.
     andthen (check_err r) (\<lambda>temp.
     Parser_ConvertRadToAngle V temp))))"

definition Parser_ATan :: "'v value_type \<Rightarrow> nat \<Rightarrow> nat \<Rightarrow> 'v \<Rightarrow> ('v parser, 'v) action" where
  "Parser_ATan V sindex amount_of_args result =
     andthen (throw_if (amount_of_args \<noteq> 1) err_improper_amount_of_arguments) (\<lambda>_.
     andthen (stack_value sindex) (\<lambda>x.
     andthen (from_option (v_plain V tt_ATan x)) (\<lambda>temp.
     Parser_ConvertRadToAngle V temp)))"

definition Parser_ACot :: "'v value_type \<Rightarrow> nat \<Rightarrow> nat \<Rightarrow> 'v \<Rightarrow> ('v parser, 'v) action" where
  "Parser_ACot V sindex amount_of_args result =
     andthen (throw_if (amount_of_args \<noteq> 1) err_improper_amount_of_arguments) (\<lambda>_.
     andthen (stack_value sindex) (\<lambda>x.
     andthen (from_option (v_plain V tt_ACot x)) (\<lambda>temp.
     Parser_ConvertRadToAngle V temp)))"

definition Parser_Sgn :: "'v value_type \<Rightarrow> nat \<Rightarrow> nat \<Rightarrow> 'v \<Rightarrow> ('v parser, 'v) action" where
  "Parser_Sgn V sindex amount_of_args result =
     andthen (throw_if (amount_of_args \<noteq> 1) err_improper_amount_of_arguments) (\<lambda>_.
     andthen (stack_value sindex) (\<lambda>x. from_option (v_plain V tt_Sgn x)))"

definition Parser_Mod :: "'v value_type \<Rightarrow> nat \<Rightarrow> nat \<Rightarrow> 'v \<Rightarrow> ('v parser, 'v) action" where
  "Parser_Mod V sindex amount_of_args result =
     andthen (throw_if (amount_of_args \<noteq> 2) err_improper_amount_of_arguments) (\<lambda>_.
     andthen (stack_value (sindex + 2)) (\<lambda>y.
     andthen (throw_if (v_IsZero V y) err_improper_argument) (\<lambda>_.
     andthen (stack_value sindex) (\<lambda>x.
     andthen (from_option (v_Mod V x y)) (\<lambda>(c, result).
     andthen (throw_if (c \<noteq> 0) err_overflow) (\<lambda>_. ret result))))))"

definition Parser_If :: "'v value_type \<Rightarrow> nat \<Rightarrow> nat \<Rightarrow> 'v \<Rightarrow> ('v parser, 'v) action" where
  "Parser_If V sindex amount_of_args result =
     andthen (throw_if (amount_of_args \<noteq> 3) err_improper_amount_of_arguments) (\<lambda>_.
     andthen (stack_value sindex) (\<lambda>x.
     if \<not> v_IsZero V x then stack_value (sindex + 2) else stack_value (sindex + 4)))"

fun Or_loop :: "'v value_type \<Rightarrow> nat \<Rightarrow> nat \<Rightarrow> nat \<Rightarrow> 'v \<Rightarrow> ('v parser, 'v) action" where
  "Or_loop V sindex i 0 result = ret (v_SetZero V result)"
| "Or_loop V sindex i (Suc n) result =
     andthen (stack_value (sindex + i * 2)) (\<lambda>x.
     if \<not> v_IsZero V x then ret (v_SetOne V result)
     else Or_loop V sindex (i + 1) n result)"

definition Parser_Or :: "'v value_type \<Rightarrow> nat \<Rightarrow> nat \<Rightarrow> 'v \<Rightarrow> ('v parser, 'v) action" where
  "Parser_Or V sindex amount_of_args result =
     andthen (throw_if (amount_of_args < 2) err_improper_amount_of_arguments) (\<lambda>_.
     Or_loop V sindex 0 amount_of_args result)"

fun And_loop :: "'v value_type \<Rightarrow> nat \<Rightarrow> nat \<Rightarrow> nat \<Rightarrow> 'v \<Rightarrow> ('v parser, 'v) action" where
  "And_loop V sindex i 0 result = ret (v_SetOne V result)"
| "And_loop V sindex i (Suc n) result =
     andthen (stack_value (sindex + i * 2)) (\<lambda>x.
     if v_IsZero V x then ret (v_SetZero V result)
     else And_loop V sindex (i + 1) n result)"

definition Parser_And :: "'v value_type \<Rightarrow> nat \<Rightarrow> nat \<Rightarrow> 'v \<Rightarrow> ('v parser, 'v) action" where
  "Parser_And V sindex amount_of_args result =
     andthen (throw_if (amount_of_args < 2) err_improper_amount_of_arguments) (\<lambda>_.
     And_loop V sindex 0 amount_of_args result)"

definition Parser_Not :: "'v value_type \<Rightarrow> nat \<Rightarrow> nat \<Rightarrow> 'v \<Rightarrow> ('v parser, 'v) action" where
  "Parser_Not V sindex amount_of_args result =
     andthen (throw_if (amount_of_args \<noteq> 1) err_improper_amount_of_arguments) (\<lambda>_.
     andthen (stack_value sindex) (\<lambda>x.
     if v_IsZero V x then ret (v_SetOne V result) else ret (v_SetZero V result)))"

definition Parser_DegToRad :: "'v value_type \<Rightarrow> nat \<Rightarrow> nat \<Rightarrow> 'v \<Rightarrow> ('v parser, 'v) action" where
  "Parser_DegToRad V sindex amount_of_args result =
     (if amount_of_args = 1
      then andthen (stack_value sindex) (\<lambda>x. andthen (from_option (v_function1 V tt_DegToRad x)) check_err)
      else if amount_of_args = 3
      then andthen (stack_value sindex) (\<lambda>x.
           andthen (stack_value (sindex + 2)) (\<lambda>y.
           andthen (stack_value (sindex + 4)) (\<lambda>z.
           andthen (from_option (v_function3 V tt_DegToRad3 x y z)) check_err)))
      else Parser_Error err_improper_amount_of_arguments)"

definition Parser_RadToDeg :: "'v value_type \<Rightarrow> nat \<Rightarrow> nat \<Rightarrow> 'v \<Rightarrow> ('v parser, 'v) action" where
  "Parser_RadToDeg V sindex amount_of_args result =
     function1_wrapper V tt_RadToDeg sindex amount_of_args"

definition Parser_DegToDeg :: "'v value_type \<Rightarrow> nat \<Rightarrow> nat \<Rightarrow> 'v \<Rightarrow> ('v parser, 'v) action" where
  "Parser_DegToDeg V sindex amount_of_args result =
     andthen (throw_if (amount_of_args \<noteq> 3) err_improper_amount_of_arguments) (\<lambda>_.
     andthen (stack_value sindex) (\<lambda>x.
     andthen (stack_value (sindex + 2)) (\<lambda>y.
     andthen (stack_value (sindex + 4)) (\<lambda>z.
     andthen (from_option (v_function3 V tt_DegToDeg3 x y z)) check_err))))"

definition Parser_GradToRad :: "'v value_type \<Rightarrow> nat \<Rightarrow> nat \<Rightarrow> 'v \<Rightarrow> ('v parser, 'v) action" where
  "Parser_GradToRad V sindex amount_of_args result =
     function1_wrapper V tt_GradToRad sindex amount_of_args"

definition Parser_RadToGrad :: "'v value_type \<Rightarrow> nat \<Rightarrow> nat \<Rightarrow> 'v \<Rightarrow> ('v parser, 'v) action" where
  "Parser_RadToGrad V sindex amount_of_args result =
     function1_wrapper V tt_RadToGrad sindex amount_of_args"

definition Parser_DegToGrad :: "'v value_type \<Rightarrow> nat \<Rightarrow> nat \<Rightarrow> 'v \<Rightarrow> ('v parser, 'v) action" where
  "Parser_DegToGrad V sindex amount_of_args result =
     (if amount_of_args = 1
      then andthen (stack_value sindex) (\<lambda>x. andthen (from_option (v_function1 V tt_DegToGrad x)) check_err)
      else if amount_of_args = 3
      then andthen (stack_value sindex) (\<lambda>x.
           andthen (stack_value (sindex + 2)) (\<lambda>y.
           andthen (stack_value (sindex + 4)) (\<lambda>z.
           andthen (from_option (v_function3 V tt_DegToGrad3 x y z)) check_err)))
      else Parser_Error err_improper_amount_of_arguments)"

definition Parser_GradToDeg :: "'v value_type \<Rightarrow> nat \<Rightarrow> nat \<Rightarrow> 'v \<Rightarrow> ('v parser, 'v) action" where
  "Parser_GradToDeg V sindex amount_of_args result =
     function1_wrapper V tt_GradToDeg sindex amount_of_args"

definition Parser_Ceil :: "'v value_type \<Rightarrow> nat \<Rightarrow> nat \<Rightarrow> 'v \<Rightarrow> ('v parser, 'v) action" where
  "Parser_Ceil V sindex amount_of_args result =
     function1_wrapper V tt_Ceil sindex amount_of_args"

definition Parser_Floor :: "'v value_type \<Rightarrow> nat \<Rightarrow> nat \<Rightarrow> 'v \<Rightarrow> ('v parser, 'v) action" where
  "Parser_Floor V sindex amount_of_args result =
     function1_wrapper V tt_Floor sindex amount_of_args"

definition Parser_Sqrt :: "'v value_type \<Rightarrow> nat \<Rightarrow> nat \<Rightarrow> 'v \<Rightarrow> ('v parser, 'v) action" where
  "Parser_Sqrt V sindex amount_of_args result =
     function1_wrapper V tt_Sqrt sindex amount_of_args"

definition Parser_Sinh :: "'v value_type \<Rightarrow> nat \<Rightarrow> nat \<Rightarrow> 'v \<Rightarrow> ('v parser, 'v) action" where
  "Parser_Sinh V sindex amount_of_args result =
     function1_wrapper V tt_Sinh sindex amount_of_args"

definition Parser_Cosh :: "'v value_type \<Rightarrow> nat \<Rightarrow> nat \<Rightarrow> 'v \<Rightarrow> ('v parser, 'v) action" where
  "Parser_Cosh V sindex amount_of_args result =
     function1_wrapper V tt_Cosh sindex amount_of_args"

definition Parser_Tanh :: "'v value_type \<Rightarrow> nat \<Rightarrow> nat \<Rightarrow> 'v \<Rightarrow> ('v parser, 'v) action" where
  "Parser_Tanh V sindex amount_of_args result =
     function1_wrapper V tt_Tanh sindex amount_of_args"

definition Parser_Coth :: "'v value_type \<Rightarrow> nat \<Rightarrow> nat \<Rightarrow> 'v \<Rightarrow> ('v parser, 'v) action" where
  "Parser_Coth V sindex amount_of_args result =
     function1_wrapper V tt_Coth sindex amount_of_args"

definition Parser_Root :: "'v value_type \<Rightarrow> nat \<Rightarrow> nat \<Rightarrow> 'v \<Rightarrow> ('v parser, 'v) action" where
  "Parser_Root V sindex amount_of_args result =
     andthen (throw_if (amount_of_args \<noteq> 2) err_improper_amount_of_arguments) (\<lambda>_.
     andthen (stack_value sindex) (\<lambda>x.
     andthen (stack_value (sindex + 2)) (\<lambda>y.
     andthen (from_option (v_function2 V tt_Root x y)) check_err)))"

definition Parser_ASinh :: "'v value_type \<Rightarrow> nat \<Rightarrow> nat \<Rightarrow> 'v \<Rightarrow> ('v parser, 'v) action" where
  "Parser_ASinh V sindex amount_of_args result =
     function1_wrapper V tt_ASinh sindex amount_of_args"

definition Parser_ACosh :: "'v value_type \<Rightarrow> nat \<Rightarrow> nat \<Rightarrow> 'v \<Rightarrow> ('v parser, 'v) action" where
  "Parser_ACosh V sindex amount_of_args result =
     function1_wrapper V tt_ACosh sindex amount_of_args"

definition Parser_ATanh :: "'v value_type \<Rightarrow> nat \<Rightarrow> nat \<Rightarrow> 'v \<Rightarrow> ('v parser, 'v) action" where
  "Parser_ATanh V sindex amount_of_args result =
     function1_wrapper V tt_ATanh sindex amount_of_args"

definition Parser_ACoth :: "'v value_type \<Rightarrow> nat \<Rightarrow> nat \<Rightarrow> 'v \<Rightarrow> ('v parser, 'v) action" where
  "Parser_ACoth V sindex amount_of_args result =
     function1_wrapper V tt_ACoth sindex amount_of_args"

definition Parser_BitAnd :: "'v value_type \<Rightarrow> nat \<Rightarrow> nat \<Rightarrow> 'v \<Rightarrow> ('v parser, 'v) action" where
  "Parser_BitAnd V sindex amount_of_args result =
     andthen (throw_if (amount_of_args \<noteq> 2) err_improper_amount_of_arguments) (\<lambda>_.
     andthen (stack_value sindex) (\<lambda>x.
     andthen (stack_value (sindex + 2)) (\<lambda>y.
     andthen (from_option (v_BitAnd V x y)) (\<lambda>(err, result).
     if err = 1 then Parser_Error err_overflow
     else if err = 2 then Parser_Error err_improper_argument
     else ret result))))"

definition Parser_BitOr :: "'v value_type \<Rightarrow> nat \<Rightarrow> nat \<Rightarrow> 'v \<Rightarrow> ('v parser, 'v) action" where
  "Parser_BitOr V sindex amount_of_args result =
     andthen (throw_if (amount_of_args \<noteq> 2) err_improper_amount_of_arguments) (\<lambda>_.
     andthen (stack_value sindex) (\<lambda>x.
     andthen (stack_value (sindex + 2)) (\<lambda>y.
     andthen (from_option (v_BitOr V x y)) (\<lambda>(err, result).
     if err = 1 then Parser_Error err_overflow
     else if err = 2 then Parser_Error err_improper_argument
     else ret result))))"

definition Parser_BitXor :: "'v value_type \<Rightarrow> nat \<Rightarrow> nat \<Rightarrow> 'v \<Rightarrow> ('v parser, 'v) action" where
  "Parser_BitXor V sindex amount_of_args result =
     andthen (throw_if (amount_of_args \<noteq> 2) err_improper_amount_of_arguments) (\<lambda>_.
     andthen (stack_value sindex) (\<lambda>x.
     andthen (stack_value (sindex + 2)) (\<lambda>y.
     andthen (from_option (v_BitXor V x y)) (\<lambda>(err, result).
     if err = 1 then Parser_Error err_overflow
     else if err = 2 then Parser_Error err_improper_argument
     else ret result))))"

fun Sum_loop :: "'v value_type \<Rightarrow> nat \<Rightarrow> nat \<Rightarrow> nat \<Rightarrow> 'v \<Rightarrow> ('v parser, 'v) action" where
  "Sum_loop V sindex i 0 result = ret result"
| "Sum_loop V sindex i (Suc n) result =
     andthen (stack_value (sindex + i * 2)) (\<lambda>x.
     andthen (from_option (v_Add V result x)) (\<lambda>(c, result).
     if c \<noteq> 0 then Parser_Error err_overflow else Sum_loop V sindex (i + 1) n result))"

definition Parser_Sum :: "'v value_type \<Rightarrow> nat \<Rightarrow> nat \<Rightarrow> 'v \<Rightarrow> ('v parser, 'v) action" where
  "Parser_Sum V sindex amount_of_args result =
     andthen (throw_if (amount_of_args = 0) err_improper_amount_of_arguments) (\<lambda>_.
     andthen (stack_value sindex) (\<lambda>result.
     Sum_loop V sindex 1 (amount_of_args - 1) result))"

definition Parser_Avg :: "'v value_type \<Rightarrow> nat \<Rightarrow> nat \<Rightarrow> 'v \<Rightarrow> ('v parser, 'v) action" where
  "Parser_Avg V sindex amount_of_args result =
     andthen (throw_if (amount_of_args = 0) err_improper_amount_of_arguments) (\<lambda>_.
     andthen (stack_value sindex) (\<lambda>result.
     andthen (Sum_loop V sindex 1 (amount_of_args - 1) result) (\<lambda>result.
     andthen (from_option (v_Div V result (v_of_int V (int amount_of_args)))) (\<lambda>(c, result).
     if c \<noteq> 0 then Parser_Error err_overflow else ret result))))"

definition Parser_Frac :: "'v value_type \<Rightarrow> nat \<Rightarrow> nat \<Rightarrow> 'v \<Rightarrow> ('v parser, 'v) action" where
  "Parser_Frac V sindex amount_of_args result =
     andthen (throw_if (amount_of_args \<noteq> 1) err_improper_amount_of_arguments) (\<lambda>_.
     andthen (stack_value sindex) (\<lambda>result. from_option (v_RemainFraction V result)))"

text \<open>The call through a pointer to a member function.\<close>

fun call_pfunction :: "pfunction \<Rightarrow> 'v value_type \<Rightarrow> nat \<Rightarrow> nat \<Rightarrow> 'v \<Rightarrow> ('v parser, 'v) action" where
  "call_pfunction pf_Gamma = Parser_Gamma"
| "call_pfunction pf_Factorial = Parser_Factorial"
| "call_pfunction pf_Abs = Parser_Abs"
| "call_pfunction pf_Sin = Parser_Sin"
| "call_pfunction pf_Cos = Parser_Cos"
| "call_pfunction pf_Tan = Parser_Tan"
| "call_pfunction pf_Cot = Parser_Cot"
| "call_pfunction pf_Int = Parser_Int"
| "call_pfunction pf_Round = Parser_Round"
| "call_pfunction pf_Ln = Parser_Ln"
| "call_pfunction pf_Log = Parser_Log"
| "call_pfunction pf_Exp = Parser_Exp"
| "call_pfunction pf_Max = Parser_Max"
| "call_pfunction pf_Min = Parser_Min"
| "call_pfunction pf_ASin = Parser_ASin"
| "call_pfunction pf_ACos = Parser_ACos"
| "call_pfunction pf_ATan = Parser_ATan"
| "call_pfunction pf_ACot = Parser_ACot"
| "call_pfunction pf_Sgn = Parser_Sgn"
| "call_pfunction pf_Mod = Parser_Mod"
| "call_pfunction pf_If = Parser_If"
| "call_pfunction pf_Or = Parser_Or"
| "call_pfunction pf_And = Parser_And"
| "call_pfunction pf_Not = Parser_Not"
| "call_pfunction pf_DegToRad = Parser_DegToRad"
| "call_pfunction pf_RadToDeg = Parser_RadToDeg"
| "call_pfunction pf_DegToDeg = Parser_DegToDeg"
| "call_pfunction pf_GradToRad = Parser_GradToRad"
| "call_pfunction pf_RadToGrad = Parser_RadToGrad"
| "call_pfunction pf_DegToGrad = Parser_DegToGrad"
| "call_pfunction pf_GradToDeg = Parser_GradToDeg"
| "call_pfunction pf_Ceil = Parser_Ceil"
| "call_pfunction pf_Floor = Parser_Floor"
| "call_pfunction pf_Sqrt = Parser_Sqrt"
| "call_pfunction pf_Sinh = Parser_Sinh"
| "call_pfunction pf_Cosh = Parser_Cosh"
| "call_pfunction pf_Tanh = Parser_Tanh"
| "call_pfunction pf_Coth = Parser_Coth"
| "call_pfunction pf_Root = Parser_Root"
| "call_pfunction pf_ASinh = Parser_ASinh"
| "call_pfunction pf_ACosh = Parser_ACosh"
| "call_pfunction pf_ATanh = Parser_ATanh"
| "call_pfunction pf_ACoth = Parser_ACoth"
| "call_pfunction pf_BitAnd = Parser_BitAnd"
| "call_pfunction pf_BitOr = Parser_BitOr"
| "call_pfunction pf_BitXor = Parser_BitXor"
| "call_pfunction pf_Sum = Parser_Sum"
| "call_pfunction pf_Avg = Parser_Avg"
| "call_pfunction pf_Frac = Parser_Frac"

section \<open>Variables and functions defined by the user\<close>

type_synonym 'v nested = "'v parser \<Rightarrow> string \<Rightarrow> (error_code \<times> 'v parser) option"

definition RecurrenceParsingVariablesOrFunction_CheckStopCondition ::
  "bool \<Rightarrow> string \<Rightarrow> ('v parser, unit) action" where
  "RecurrenceParsingVariablesOrFunction_CheckStopCondition is_variable name =
     (if is_variable
      then andthen (gets visited_variables) (\<lambda>v. throw_if (name \<in> v) err_variable_loop)
      else andthen (gets visited_functions) (\<lambda>v. throw_if (name \<in> v) err_functions_loop))"

definition RecurrenceParsingVariablesOrFunction_AddName ::
  "bool \<Rightarrow> string \<Rightarrow> 'v parser \<Rightarrow> 'v parser" where
  "RecurrenceParsingVariablesOrFunction_AddName is_variable name s =
     (if is_variable then s\<lparr>visited_variables := insert name (visited_variables s)\<rparr>
      else s\<lparr>visited_functions := insert name (visited_functions s)\<rparr>)"

definition RecurrenceParsingVariablesOrFunction_DeleteName ::
  "bool \<Rightarrow> string \<Rightarrow> 'v parser \<Rightarrow> 'v parser" where
  "RecurrenceParsingVariablesOrFunction_DeleteName is_variable name s =
     (if is_variable then s\<lparr>visited_variables := visited_variables s - {name}\<rparr>
      else s\<lparr>visited_functions := visited_functions s - {name}\<rparr>)"

text \<open>The stop object is shared with the copy, so that the answers the copy has used up are gone.\<close>

definition Parser_RecurrenceParsingVariablesOrFunction ::
  "'v nested \<Rightarrow> bool \<Rightarrow> string \<Rightarrow> string \<Rightarrow> 'v local_variables option \<Rightarrow> ('v parser, 'v) action" where
  "Parser_RecurrenceParsingVariablesOrFunction nested is_variable name new_string local_variables =
     andthen (RecurrenceParsingVariablesOrFunction_CheckStopCondition is_variable name) (\<lambda>_.
     andthen (modify (RecurrenceParsingVariablesOrFunction_AddName is_variable name)) (\<lambda>_.
     andthen (gets Parser_new_copy) (\<lambda>NewParser.
     andthen (from_option (nested (NewParser\<lparr>pfunction_local_variables := local_variables\<rparr>) new_string))
       (\<lambda>(err, NewParser).
     andthen (modify (\<lambda>s. RecurrenceParsingVariablesOrFunction_DeleteName is_variable name
       (s\<lparr>pstop_calculating := pstop_calculating NewParser\<rparr>))) (\<lambda>_.
     andthen (throw_if (err \<noteq> err_ok) err) (\<lambda>_.
     andthen (throw_if (length (stack NewParser) \<noteq> 1) err_must_be_only_one_value) (\<lambda>_.
     andthen (throw_if (itype (stack NewParser ! 0) \<noteq> numerical_value) err_incorrect_value) (\<lambda>_.
     ret (ivalue (stack NewParser ! 0))))))))))"

text \<open>The getters of the next three return \<open>None\<close> where the program returns \<^verbatim>\<open>false\<close>.\<close>

definition Parser_GetValueOfUserDefinedVariable ::
  "'v nested \<Rightarrow> string \<Rightarrow> ('v parser, 'v option) action" where
  "Parser_GetValueOfUserDefinedVariable nested variable_name =
     andthen (gets puser_variables) (\<lambda>pv. case pv of
       None \<Rightarrow> ret None
     | Some pv \<Rightarrow>
         let (err, string_value) = Objects_GetValue_ptr pv variable_name None
         in if err \<noteq> err_ok then ret None
            else andthen (from_option string_value) (\<lambda>string_value.
                 andthen (Parser_RecurrenceParsingVariablesOrFunction nested True variable_name string_value None) (\<lambda>result.
                 andthen (modify (\<lambda>s. s\<lparr>calculated := True\<rparr>)) (\<lambda>_.
                 ret (Some result)))))"

definition Parser_GetValueOfFunctionLocalVariable :: "string \<Rightarrow> ('v parser, 'v option) action" where
  "Parser_GetValueOfFunctionLocalVariable variable_name =
     andthen (gets pfunction_local_variables) (\<lambda>lv. case lv of
       None \<Rightarrow> ret None
     | Some lv \<Rightarrow> (case map_find lv variable_name of None \<Rightarrow> ret None | Some v \<Rightarrow> ret (Some v)))"

fun call_pfunction_var :: "'v value_type \<Rightarrow> pfunction_var \<Rightarrow> 'v \<Rightarrow> 'v" where
  "call_pfunction_var V pfv_SetPi result = v_SetPi V result"
| "call_pfunction_var V pfv_SetE result = v_SetE V result"

definition Parser_GetValueOfVariable ::
  "'v value_type \<Rightarrow> 'v nested \<Rightarrow> string \<Rightarrow> ('v parser, 'v) action" where
  "Parser_GetValueOfVariable V nested variable_name =
     andthen (Parser_GetValueOfFunctionLocalVariable variable_name) (\<lambda>r. case r of
       Some result \<Rightarrow> ret result
     | None \<Rightarrow>
     andthen (Parser_GetValueOfUserDefinedVariable nested variable_name) (\<lambda>r. case r of
       Some result \<Rightarrow> ret result
     | None \<Rightarrow>
     andthen (gets variables_table) (\<lambda>t. case map_find t variable_name of
       None \<Rightarrow> Parser_Error err_unknown_variable
     | Some i \<Rightarrow>
         andthen (modify (\<lambda>s. s\<lparr>calculated := True\<rparr>)) (\<lambda>_.
         ret (call_pfunction_var V i (v_new V))))))"

text \<open>\<^verbatim>\<open>sprintf(buf, "%d", par)\<close> for the positive numbers it is called with.\<close>

fun decimal :: "nat \<Rightarrow> string" where
  "decimal n = (if n < 10 then [char_of (48 + n)] else decimal (n div 10) @ [char_of (48 + n mod 10)])"

declare decimal.simps [simp del]

definition Parser_Sprintf :: "nat \<Rightarrow> string" where
  "Parser_Sprintf par = decimal par"

fun local_variables_loop ::
  "nat \<Rightarrow> nat \<Rightarrow> nat \<Rightarrow> 'v local_variables \<Rightarrow> ('v parser, 'v local_variables) action" where
  "local_variables_loop sindex i 0 lv = ret lv"
| "local_variables_loop sindex i (Suc n) lv =
     andthen (stack_value (sindex + i * 2)) (\<lambda>x.
     local_variables_loop sindex (i + 1) n (map_insert lv (CHR ''x'' # Parser_Sprintf (i + 1)) x))"

definition set_stack_value :: "nat \<Rightarrow> 'v \<Rightarrow> ('v parser, unit) action" where
  "set_stack_value i v =
     andthen (gets stack) (\<lambda>st.
     if i < length st then modify (\<lambda>s. s\<lparr>stack := st[i := (st ! i)\<lparr>ivalue := v\<rparr>]\<rparr>) else stuck)"

definition Parser_GetValueOfUserDefinedFunction ::
  "'v nested \<Rightarrow> string \<Rightarrow> nat \<Rightarrow> nat \<Rightarrow> ('v parser, bool) action" where
  "Parser_GetValueOfUserDefinedFunction nested fname amount_of_args sindex =
     andthen (gets puser_functions) (\<lambda>pf. case pf of
       None \<Rightarrow> ret False
     | Some pf \<Rightarrow>
         let (err, string_value, param) = Objects_GetValueAndParam_ptr pf fname None 0
         in if err \<noteq> err_ok then ret False
            else andthen (throw_if (param \<noteq> int amount_of_args) err_improper_amount_of_arguments) (\<lambda>_.
                 andthen (if amount_of_args > 0
                   then andthen (stack_value sindex) (\<lambda>x.
                        local_variables_loop sindex 0 amount_of_args (map_insert [] ''x'' x))
                   else ret []) (\<lambda>local_variables.
                 andthen (from_option string_value) (\<lambda>string_value.
                 andthen (Parser_RecurrenceParsingVariablesOrFunction nested False fname string_value (Some local_variables)) (\<lambda>v.
                 andthen (set_stack_value (sindex - 1) v) (\<lambda>_.
                 andthen (modify (\<lambda>s. s\<lparr>calculated := True\<rparr>)) (\<lambda>_.
                 ret True)))))))"

definition Parser_CallFunction ::
  "'v value_type \<Rightarrow> 'v nested \<Rightarrow> string \<Rightarrow> nat \<Rightarrow> nat \<Rightarrow> ('v parser, unit) action" where
  "Parser_CallFunction V nested fname amount_of_args sindex =
     andthen (Parser_GetValueOfUserDefinedFunction nested fname amount_of_args sindex) (\<lambda>found.
     if found then ret ()
     else andthen (gets functions_table) (\<lambda>t. case map_find t fname of
       None \<Rightarrow> Parser_Error err_unknown_function
     | Some i \<Rightarrow>
         andthen (stack_value (sindex - 1)) (\<lambda>result.
         andthen (call_pfunction i V sindex amount_of_args result) (\<lambda>result.
         andthen (set_stack_value (sindex - 1) result) (\<lambda>_.
         modify (\<lambda>s. s\<lparr>calculated := True\<rparr>))))))"

end
