(* ===== verification/Parser_Reader.thy ===== *)
theory Parser_Reader
  imports Parser_Functions UInt_String
begin

text \<open>
  Reading the string (\<^verbatim>\<open>ttmathparser.h\<close>, \<^verbatim>\<open>SkipWhiteCharacters\<close> and \<^verbatim>\<open>ToLowerCase\<close> to \<^verbatim>\<open>ReadOperator\<close>).
  \<^verbatim>\<open>pstring\<close> is the rest of the string from the pointer to the terminating zero; \<open>peek\<close> is the
  character it points to. An item passed by reference is an argument and a part of the result.
\<close>

definition peek :: "('v parser, int) action" where
  "peek = gets (\<lambda>s. case pstring s of [] \<Rightarrow> 0 | c # _ \<Rightarrow> char_int c)"

text \<open>\<^verbatim>\<open>++pstring\<close>; beyond the terminating zero it is undefined behaviour.\<close>

definition advance :: "('v parser, unit) action" where
  "advance = andthen (gets pstring) (\<lambda>p. case p of
     [] \<Rightarrow> stuck
   | c # p \<Rightarrow> modify (\<lambda>s. s\<lparr>pstring := p\<rparr>))"

fun skip_white :: "string \<Rightarrow> string" where
  "skip_white [] = []"
| "skip_white (c # s) = (if c = CHR '' '' \<or> c = CHR 0x09 then skip_white s else c # s)"

definition Parser_SkipWhiteCharacters :: "('v parser, unit) action" where
  "Parser_SkipWhiteCharacters = modify (\<lambda>s. s\<lparr>pstring := skip_white (pstring s)\<rparr>)"

definition Parser_ToLowerCase :: "int \<Rightarrow> int" where
  "Parser_ToLowerCase c =
     (if c \<ge> char_int CHR ''A'' \<and> c \<le> char_int CHR ''Z'' then c - char_int CHR ''A'' + char_int CHR ''a'' else c)"

section \<open>Names\<close>

definition is_small :: "int \<Rightarrow> bool" where
  "is_small c \<longleftrightarrow> c \<ge> char_int CHR ''a'' \<and> c \<le> char_int CHR ''z''"

definition is_big :: "int \<Rightarrow> bool" where
  "is_big c \<longleftrightarrow> c \<ge> char_int CHR ''A'' \<and> c \<le> char_int CHR ''Z''"

definition is_name_char :: "int \<Rightarrow> bool" where
  "is_name_char c \<longleftrightarrow> is_small c \<or> is_big c \<or> (c \<ge> char_int CHR ''0'' \<and> c \<le> char_int CHR ''9'') \<or> c = char_int CHR ''_''"

text \<open>The loop of \<^verbatim>\<open>ReadName\<close> after its first character: the name and the rest of the string.\<close>

fun ReadName_loop :: "string \<Rightarrow> string \<Rightarrow> string \<times> string" where
  "ReadName_loop result [] = (result, [])"
| "ReadName_loop result (c # p) =
     (if is_name_char (char_int c) then ReadName_loop (result @ [c]) p else (result, c # p))"

definition Parser_ReadName :: "('v parser, bool \<times> string) action" where
  "Parser_ReadName =
     andthen peek (\<lambda>character.
     andthen (throw_if (\<not> (is_small character \<or> is_big character)) err_unknown_character) (\<lambda>_.
     andthen (gets (\<lambda>s. ReadName_loop [hd (pstring s)] (tl (pstring s)))) (\<lambda>(result, p).
     andthen (modify (\<lambda>s. s\<lparr>pstring := p\<rparr>)) (\<lambda>_.
     andthen Parser_SkipWhiteCharacters (\<lambda>_.
     andthen peek (\<lambda>c.
     if c = char_int CHR ''('' then andthen advance (\<lambda>_. ret (True, result))
     else ret (False, result)))))))"

definition Parser_TestSign :: "'v item \<Rightarrow> ('v parser, bool \<times> 'v item) action" where
  "Parser_TestSign result =
     andthen Parser_SkipWhiteCharacters (\<lambda>_.
     let result = result\<lparr>isign := False\<rparr>
     in andthen peek (\<lambda>c.
        if c = char_int CHR ''-'' \<or> c = char_int CHR ''+''
        then andthen advance (\<lambda>_.
             ret (True, if c = char_int CHR ''-'' then result\<lparr>isign := True\<rparr> else result))
        else ret (False, result)))"

definition Parser_ReadVariableOrFunction ::
  "'v value_type \<Rightarrow> 'v nested \<Rightarrow> 'v item \<Rightarrow> ('v parser, bool \<times> 'v item) action" where
  "Parser_ReadVariableOrFunction V nested result =
     andthen Parser_ReadName (\<lambda>(is_it_name_of_function, name).
     if is_it_name_of_function
     then ret (True, result\<lparr>function_name := name, itype := first_bracket, ifunction := True\<rparr>)
     else andthen (Parser_GetValueOfVariable V nested name) (\<lambda>v.
          ret (False, result\<lparr>ivalue := v\<rparr>)))"

section \<open>Values\<close>

definition Parser_ReadValue :: "'v value_type \<Rightarrow> 'v item \<Rightarrow> int \<Rightarrow> ('v parser, 'v item) action" where
  "Parser_ReadValue V result reading_base =
     andthen (gets (\<lambda>s. Conv_new\<lparr>conv_base := word_of_int reading_base, conv_comma := word_of_int (comma s),
       conv_comma2 := word_of_int (comma2 s), conv_group := word_of_int (group s)\<rparr>)) (\<lambda>conv.
     andthen (gets pstring) (\<lambda>p.
     andthen (from_option (v_FromString V (ivalue result) p conv)) (\<lambda>(carry, v, new_stack_pointer, value_read).
     andthen (modify (\<lambda>s. s\<lparr>pstring := new_stack_pointer\<rparr>)) (\<lambda>_.
     andthen (throw_if (carry \<noteq> 0) err_overflow) (\<lambda>_.
     andthen (throw_if (\<not> value_read) err_unknown_character) (\<lambda>_.
     ret (result\<lparr>ivalue := v\<rparr>)))))))"

definition Parser_ValueStarts :: "int \<Rightarrow> int \<Rightarrow> ('v parser, bool) action" where
  "Parser_ValueStarts character character_base =
     gets (\<lambda>s. if character = comma s then True
       else if comma2 s \<noteq> 0 \<and> character = comma2 s then True
       else if Misc_CharToDigit (word_of_int character) (word_of_int character_base) \<noteq> - 1 then True
       else False)"

text \<open>
  After a prefix for the base, \<^verbatim>\<open>#\<close> or \<^verbatim>\<open>&\<close>: the two branches of \<^verbatim>\<open>ReadValueVariableOrFunction\<close>
  differ in the base only.
\<close>

definition read_prefixed :: "'v value_type \<Rightarrow> 'v item \<Rightarrow> int \<Rightarrow> ('v parser, 'v item) action" where
  "read_prefixed V result b =
     andthen advance (\<lambda>_.
     andthen Parser_SkipWhiteCharacters (\<lambda>_.
     andthen peek (\<lambda>c.
     andthen (Parser_ValueStarts c b) (\<lambda>starts.
     if starts then Parser_ReadValue V result b else Parser_Error err_unknown_character))))"

text \<open>The end of \<^verbatim>\<open>ReadValueVariableOrFunction\<close>, reached with a value in the item.\<close>

definition finish_value :: "'v value_type \<Rightarrow> 'v item \<Rightarrow> int \<times> 'v item" where
  "finish_value V result =
     (let result = result\<lparr>itype := numerical_value\<rparr>
      in (0, if isign result then result\<lparr>ivalue := v_ChangeSign V (ivalue result), isign := False\<rparr> else result))"

definition Parser_ReadValueVariableOrFunction ::
  "'v value_type \<Rightarrow> 'v nested \<Rightarrow> 'v item \<Rightarrow> ('v parser, int \<times> 'v item) action" where
  "Parser_ReadValueVariableOrFunction V nested result =
     andthen (Parser_TestSign result) (\<lambda>(it_was_sign, result).
     andthen Parser_SkipWhiteCharacters (\<lambda>_.
     andthen peek (\<lambda>c.
     let character = Parser_ToLowerCase c
     in if character = 0
        then andthen (throw_if it_was_sign err_unexpected_end) (\<lambda>_. ret (1, result))
        else if character = char_int CHR ''(''
        then andthen advance (\<lambda>_. ret (0, result\<lparr>itype := first_bracket, ifunction := False\<rparr>))
        else if character = char_int CHR '')''
        then andthen (throw_if it_was_sign err_unexpected_final_bracket) (\<lambda>_.
             ret (2, result\<lparr>itype := last_bracket\<rparr>))
        else if character = char_int CHR ''#''
        then andthen (read_prefixed V result 16) (\<lambda>result. ret (finish_value V result))
        else if character = char_int CHR ''&''
        then andthen (read_prefixed V result 2) (\<lambda>result. ret (finish_value V result))
        else andthen (gets base) (\<lambda>b.
             andthen (Parser_ValueStarts character b) (\<lambda>starts.
             if starts
             then andthen (Parser_ReadValue V result b) (\<lambda>result. ret (finish_value V result))
             else if is_small character
             then andthen (Parser_ReadVariableOrFunction V nested result) (\<lambda>(is_function, result).
                  if is_function then ret (0, result) else ret (finish_value V result))
             else Parser_Error err_unknown_character)))))"

section \<open>Operators\<close>

definition Parser_IsSubstring :: "string \<Rightarrow> string \<Rightarrow> bool" where
  "Parser_IsSubstring str1 str2 =
     (if length str2 > length str1 then False else list_all (\<lambda>i. str1 ! i = str2 ! i) [0..<length str2])"

text \<open>
  The loop over the characters of an operator. At the end of the string the terminating zero is
  appended; a loop that went on from there would leave the string.
\<close>

definition oper_matches :: "operators_table \<Rightarrow> string \<Rightarrow> (string \<times> mat_type) option" where
  "oper_matches t oper = (case map_lower_bound t oper of
     None \<Rightarrow> None
   | Some (name, type) \<Rightarrow> if \<not> Parser_IsSubstring name oper then None else Some (name, type))"

definition finish_operator ::
  "'v item \<Rightarrow> string \<Rightarrow> (string \<times> mat_type) option \<Rightarrow> ('v parser, 'v item) action" where
  "finish_operator result oper iter_old = (case iter_old of
     Some (name, type) \<Rightarrow>
       if name = oper
       then andthen (MatOperator_SetType (moperator result) type) (\<lambda>m.
            ret (result\<lparr>itype := mat_operator, moperator := m\<rparr>))
       else Parser_Error err_unknown_operator
   | None \<Rightarrow> Parser_Error err_unknown_operator)"

fun ReadMathematicalOperator_loop ::
  "'v item \<Rightarrow> operators_table \<Rightarrow> string \<Rightarrow> (string \<times> mat_type) option \<Rightarrow> string \<Rightarrow> ('v parser, 'v item) action" where
  "ReadMathematicalOperator_loop result t oper iter_old [] =
     (case oper_matches t (oper @ [CHR 0x00]) of
        None \<Rightarrow> finish_operator result oper iter_old
      | Some iter_new \<Rightarrow> stuck)"
| "ReadMathematicalOperator_loop result t oper iter_old (c # p) =
     (case oper_matches t (oper @ [c]) of
        None \<Rightarrow> finish_operator result oper iter_old
      | Some iter_new \<Rightarrow>
          andthen (modify (\<lambda>s. s\<lparr>pstring := p\<rparr>)) (\<lambda>_.
          ReadMathematicalOperator_loop result t (oper @ [c]) (Some iter_new) p))"

definition Parser_ReadMathematicalOperator :: "'v item \<Rightarrow> ('v parser, 'v item) action" where
  "Parser_ReadMathematicalOperator result =
     andthen (gets operators_table) (\<lambda>t.
     andthen (gets pstring) (\<lambda>p.
     ReadMathematicalOperator_loop result t [] None p))"

text \<open>\<^verbatim>\<open>stack[stack_index - k]\<close>.\<close>

definition top_item :: "nat \<Rightarrow> ('v parser, 'v item) action" where
  "top_item k = andthen (gets stack) (\<lambda>st. andthen (gets stack_index) (\<lambda>n.
     if k \<le> n \<and> n - k < length st then ret (st ! (n - k)) else stuck))"

definition set_top_item :: "nat \<Rightarrow> ('v item \<Rightarrow> 'v item) \<Rightarrow> ('v parser, unit) action" where
  "set_top_item k f = andthen (gets stack) (\<lambda>st. andthen (gets stack_index) (\<lambda>n.
     if k \<le> n \<and> n - k < length st
     then modify (\<lambda>s. s\<lparr>stack := st[n - k := f (st ! (n - k))]\<rparr>) else stuck))"

text \<open>Whether the types of the items below the index are the given ones, the topmost first.\<close>

definition top_types :: "item_type list \<Rightarrow> ('v parser, bool) action" where
  "top_types ts = andthen (gets stack_index) (\<lambda>n.
     if n < length ts then ret False
     else andthen (gets stack) (\<lambda>st.
       if n \<le> length st then ret (map itype (take (length ts) (rev (take n st))) = ts) else stuck))"

definition Parser_OperatorPercentage :: "'v value_type \<Rightarrow> ('v parser, unit) action" where
  "Parser_OperatorPercentage V =
     andthen (top_types [numerical_value, mat_operator, numerical_value]) (\<lambda>b.
     andthen (throw_if (\<not> b) err_percent_from) (\<lambda>_.
     andthen advance (\<lambda>_.
     andthen Parser_SkipWhiteCharacters (\<lambda>_.
     andthen (top_item 1) (\<lambda>i.
     andthen (from_option (v_Div V (ivalue i) (v_of_int V 100))) (\<lambda>(c, v).
     andthen (top_item 3) (\<lambda>j.
     andthen (from_option (v_Mul V v (ivalue j))) (\<lambda>(d, v).
     andthen (set_top_item 1 (\<lambda>i. i\<lparr>ivalue := v\<rparr>)) (\<lambda>_.
     throw_if (c + d \<noteq> 0) err_overflow)))))))))"

definition Parser_ReadOperator :: "'v value_type \<Rightarrow> 'v item \<Rightarrow> ('v parser, int \<times> 'v item) action" where
  "Parser_ReadOperator V result =
     andthen Parser_SkipWhiteCharacters (\<lambda>_.
     andthen peek (\<lambda>c.
     andthen (if c = char_int CHR ''%'' then Parser_OperatorPercentage V else ret ()) (\<lambda>_.
     andthen peek (\<lambda>c.
     andthen (gets param_sep) (\<lambda>sep.
     if c = 0 then ret (1, result)
     else if c = char_int CHR '')''
     then andthen advance (\<lambda>_. ret (0, result\<lparr>itype := last_bracket\<rparr>))
     else if c = char_int CHR '';'' \<or> (sep \<noteq> 0 \<and> c = sep)
     then andthen advance (\<lambda>_. ret (0, result\<lparr>itype := semicolon\<rparr>))
     else if is_small c \<or> is_big c
     then andthen (MatOperator_SetType (moperator result) mat_shortmul) (\<lambda>m.
          ret (0, result\<lparr>itype := mat_operator, moperator := m\<rparr>))
     else andthen (Parser_ReadMathematicalOperator result) (\<lambda>result. ret (0, result)))))))"

end
