(* ===== verification/Parser_Loop.thy ===== *)
theory Parser_Loop
  imports Parser_Reader
begin

text \<open>
  The stack and the main loop (\<^verbatim>\<open>ttmathparser.h\<close>, \<^verbatim>\<open>MakeStandardMathematicOperation\<close> to \<^verbatim>\<open>NormalizeStack\<close>
  and \<^verbatim>\<open>Parse(const char *)\<close>). The three \<^verbatim>\<open>while\<close> loops that need not be structural are partial
  functions; that they end is shown in \<open>Parser_Safety\<close>.
\<close>

section \<open>Operations\<close>

definition set_bool :: "'v value_type \<Rightarrow> bool \<Rightarrow> 'v \<Rightarrow> 'v" where
  "set_bool V b value1 = (if b then v_SetOne V value1 else v_SetZero V value1)"

definition carry_overflow :: "(uint \<times> 'v) option \<Rightarrow> ('v parser, 'v) action" where
  "carry_overflow r = andthen (from_option r) (\<lambda>(c, v). andthen (throw_if (c \<noteq> 0) err_overflow) (\<lambda>_. ret v))"

definition Parser_MakeStandardMathematicOperation ::
  "'v value_type \<Rightarrow> 'v \<Rightarrow> mat_type \<Rightarrow> 'v \<Rightarrow> ('v parser, 'v) action" where
  "Parser_MakeStandardMathematicOperation V value1 mat value2 =
     andthen (modify (\<lambda>s. s\<lparr>calculated := True\<rparr>)) (\<lambda>_. case mat of
       mat_land \<Rightarrow> ret (set_bool V (\<not> v_IsZero V value1 \<and> \<not> v_IsZero V value2) value1)
     | mat_lor \<Rightarrow> ret (set_bool V (\<not> v_IsZero V value1 \<or> \<not> v_IsZero V value2) value1)
     | mat_eq \<Rightarrow> ret (set_bool V (v_equal V value1 value2) value1)
     | mat_neq \<Rightarrow> ret (set_bool V (v_not_equal V value1 value2) value1)
     | mat_lt \<Rightarrow> ret (set_bool V (v_less V value1 value2) value1)
     | mat_gt \<Rightarrow> ret (set_bool V (v_greater V value1 value2) value1)
     | mat_let \<Rightarrow> ret (set_bool V (v_less_equal V value1 value2) value1)
     | mat_get \<Rightarrow> ret (set_bool V (v_greater_equal V value1 value2) value1)
     | mat_sub \<Rightarrow> carry_overflow (v_Sub V value1 value2)
     | mat_add \<Rightarrow> carry_overflow (v_Add V value1 value2)
     | mat_mul \<Rightarrow> carry_overflow (v_Mul V value1 value2)
     | mat_shortmul \<Rightarrow> carry_overflow (v_Mul V value1 value2)
     | mat_div \<Rightarrow> andthen (throw_if (v_IsZero V value2) err_division_by_zero) (\<lambda>_.
         carry_overflow (v_Div V value1 value2))
     | mat_pow \<Rightarrow> andthen (from_option (v_Pow V value1 value2)) (\<lambda>(res, v).
         if res = 1 then Parser_Error err_overflow
         else if res = 2 then Parser_Error err_improper_argument
         else ret v)
     | mat_none \<Rightarrow> Parser_Error err_internal_error)"

section \<open>Rolling up the stack\<close>

text \<open>The condition of the loop of \<^verbatim>\<open>TryRollingUpStackWithOperatorPriority\<close>.\<close>

definition can_roll_up :: "('v parser, bool) action" where
  "can_roll_up =
     andthen (top_types [mat_operator, numerical_value, mat_operator, numerical_value]) (\<lambda>b.
     if \<not> b then ret False
     else andthen (top_item 3) (\<lambda>i.
          andthen (top_item 1) (\<lambda>j.
          let p = MatOperator_GetPriority (moperator i); q = MatOperator_GetPriority (moperator j)
          in ret (p > q \<or> (p = q \<and> MatOperator_GetAssoc (moperator i) = assoc_non_right)))))"

text \<open>
  The bodies of the two loops: the operation on the items \<open>k + 2\<close>, \<open>k + 1\<close> and \<open>k\<close> below the index,
  whose result replaces the first of them.
\<close>

definition roll_up_at :: "'v value_type \<Rightarrow> nat \<Rightarrow> ('v parser, unit) action" where
  "roll_up_at V k =
     andthen (top_item (k + 2)) (\<lambda>i.
     andthen (top_item (k + 1)) (\<lambda>m.
     andthen (top_item k) (\<lambda>j.
     andthen (Parser_MakeStandardMathematicOperation V (ivalue i) (MatOperator_GetType (moperator m)) (ivalue j)) (\<lambda>v.
     set_top_item (k + 2) (\<lambda>i. i\<lparr>ivalue := v\<rparr>)))))"

partial_function (option) Parser_TryRollingUpStackWithOperatorPriority ::
  "'v value_type \<Rightarrow> ('v parser, unit) action" where
  "Parser_TryRollingUpStackWithOperatorPriority V s =
     andthen can_roll_up (\<lambda>b.
     if b
     then andthen (roll_up_at V 2) (\<lambda>_.
          andthen (top_item 1) (\<lambda>lst.
          andthen (set_top_item 3 (\<lambda>_. lst)) (\<lambda>_.
          andthen (modify (\<lambda>s. s\<lparr>stack_index := stack_index s - 2\<rparr>)) (\<lambda>_.
          Parser_TryRollingUpStackWithOperatorPriority V))))
     else ret ()) s"

partial_function (option) Parser_TryRollingUpStack :: "'v value_type \<Rightarrow> ('v parser, unit) action" where
  "Parser_TryRollingUpStack V s =
     andthen (top_types [numerical_value, mat_operator, numerical_value]) (\<lambda>b.
     if b
     then andthen (roll_up_at V 1) (\<lambda>_.
          andthen (modify (\<lambda>s. s\<lparr>stack_index := stack_index s - 2\<rparr>)) (\<lambda>_.
          Parser_TryRollingUpStack V))
     else ret ()) s"

definition Parser_PushOperatorIntoStack :: "'v item \<Rightarrow> ('v parser, unit) action" where
  "Parser_PushOperatorIntoStack temp =
     modify (\<lambda>s. s\<lparr>
       stack := (if stack_index s < length (stack s) then (stack s)[stack_index s := temp] else stack s @ [temp]),
       stack_index := stack_index s + 1\<rparr>)"

definition Parser_ReadValueVariableOrFunctionAndPushItIntoStack ::
  "'v value_type \<Rightarrow> 'v nested \<Rightarrow> 'v item \<Rightarrow> ('v parser, int \<times> 'v item) action" where
  "Parser_ReadValueVariableOrFunctionAndPushItIntoStack V nested temp =
     andthen (Parser_ReadValueVariableOrFunction V nested temp) (\<lambda>(code, temp).
     andthen (if code = 0
       then modify (\<lambda>s. s\<lparr>
         stack := (if stack_index s < length (stack s) then (stack s)[stack_index s := temp] else stack s @ [temp]),
         stack_index := stack_index s + 1\<rparr>)
       else ret ()) (\<lambda>_.
     ret (if code = 2 then 0 else code, temp)))"

section \<open>Brackets\<close>

text \<open>
  The loop of \<^verbatim>\<open>HowManyParameters\<close> over the indices \<open>index\<close>, \<open>index - 2\<close>, ... and the test after it.
  The index is a \<^verbatim>\<open>int\<close> there and may become negative; the first two equations are the case that the
  loop has ended with an index below one.
\<close>

fun HowManyParameters_loop :: "'v item list \<Rightarrow> nat \<Rightarrow> nat \<Rightarrow> ('v parser, nat \<times> nat) action" where
  "HowManyParameters_loop st n 0 = Parser_Error err_unexpected_final_bracket"
| "HowManyParameters_loop st n (Suc index) =
     (if itype (st ! Suc index) \<noteq> numerical_value then Parser_Error err_internal_error
      else if itype (st ! index) \<noteq> semicolon
      then if itype (st ! index) \<noteq> first_bracket then Parser_Error err_unexpected_final_bracket
           else ret (n + 1, Suc index)
      else case index of
          0 \<Rightarrow> Parser_Error err_unexpected_final_bracket
        | Suc index \<Rightarrow> HowManyParameters_loop st (n + 1) index)"

definition Parser_HowManyParameters :: "('v parser, nat \<times> nat) action" where
  "Parser_HowManyParameters =
     andthen (gets stack_index) (\<lambda>index.
     andthen (gets stack) (\<lambda>st.
     if index = 0 then Parser_Error err_unexpected_final_bracket
     else if \<not> index \<le> length st then stuck
     else if itype (st ! (index - 1)) = first_bracket then ret (0, index)
     else HowManyParameters_loop st 0 (index - 1)))"

text \<open>
  The second half of \<^verbatim>\<open>RollingUpFinalBracket\<close>, after the parameters have been counted: the value that
  takes the place of the bracket, and then its sign, its type and the new index.
\<close>

definition close_bracket :: "'v value_type \<Rightarrow> nat \<Rightarrow> bool \<Rightarrow> 'v parser \<Rightarrow> 'v parser" where
  "close_bracket V index was_sign s =
     (let i = (stack s ! (index - 1))\<lparr>isign := False\<rparr>;
          i = (if was_sign then i\<lparr>ivalue := v_ChangeSign V (ivalue i)\<rparr> else i)
      in s\<lparr>stack := (stack s)[index - 1 := i\<lparr>itype := numerical_value\<rparr>], stack_index := index\<rparr>)"

definition apply_bracket :: "'v value_type \<Rightarrow> 'v nested \<Rightarrow> nat \<Rightarrow> nat \<Rightarrow> ('v parser, unit) action" where
  "apply_bracket V nested amount_of_parameters index =
     andthen (gets (\<lambda>s. stack s ! (index - 1))) (\<lambda>bracket.
     andthen (throw_if (amount_of_parameters = 0 \<and> \<not> ifunction bracket) err_unexpected_final_bracket) (\<lambda>_.
     andthen (if ifunction bracket
       then Parser_CallFunction V nested (function_name bracket) amount_of_parameters index
       else andthen (throw_if (amount_of_parameters \<noteq> 1) err_unexpected_semicolon_operator) (\<lambda>_.
            modify (\<lambda>s. s\<lparr>stack := (stack s)[index - 1 := stack s ! index]\<rparr>))) (\<lambda>_.
     modify (close_bracket V index (isign bracket)))))"

definition Parser_RollingUpFinalBracket :: "'v value_type \<Rightarrow> 'v nested \<Rightarrow> ('v parser, unit) action" where
  "Parser_RollingUpFinalBracket V nested =
     andthen (top_types [numerical_value]) (\<lambda>b.
     andthen (top_types [first_bracket]) (\<lambda>c.
     andthen (throw_if (\<not> b \<and> \<not> c) err_unexpected_final_bracket) (\<lambda>_.
     andthen (Parser_TryRollingUpStack V) (\<lambda>_.
     andthen Parser_HowManyParameters (\<lambda>(amount_of_parameters, index).
     apply_bracket V nested amount_of_parameters index)))))"

partial_function (option) Parser_ReadOperatorAndCheckFinalBracket ::
  "'v value_type \<Rightarrow> 'v nested \<Rightarrow> 'v item \<Rightarrow> ('v parser, int \<times> 'v item) action" where
  "Parser_ReadOperatorAndCheckFinalBracket V nested temp s =
     andthen (Parser_ReadOperator V temp) (\<lambda>(code, temp).
     if code = 1 then ret (1, temp)
     else if itype temp = last_bracket
     then andthen (Parser_RollingUpFinalBracket V nested) (\<lambda>_.
          Parser_ReadOperatorAndCheckFinalBracket V nested temp)
     else ret (0, temp)) s"

definition Parser_CheckIntegrityOfStack :: "('v parser, unit) action" where
  "Parser_CheckIntegrityOfStack =
     andthen (gets (\<lambda>s. take (stack_index s) (stack s))) (\<lambda>st.
     throw_if (\<not> list_all (\<lambda>i. itype i = numerical_value \<or> itype i = semicolon) st) err_stack_not_clear)"

section \<open>The main loop\<close>

text \<open>One iteration of the loop of \<^verbatim>\<open>Parse()\<close>: whether it has returned, and the item.\<close>

definition Parse_iteration ::
  "'v value_type \<Rightarrow> 'v nested \<Rightarrow> 'v item \<Rightarrow> ('v parser, bool \<times> 'v item) action" where
  "Parse_iteration V nested item =
     andthen (gets pstop_calculating) (\<lambda>stop.
     andthen (case stop of
         None \<Rightarrow> ret ()
       | Some stop \<Rightarrow>
           let (b, stop) = StopCalculating_WasStopSignal stop
           in andthen (modify (\<lambda>s. s\<lparr>pstop_calculating := Some stop\<rparr>)) (\<lambda>_. throw_if b err_interrupt)) (\<lambda>_.
     andthen (Parser_ReadValueVariableOrFunctionAndPushItIntoStack V nested item) (\<lambda>(result_code, item).
     if result_code = 0 \<and> itype item = first_bracket then ret (False, item)
     else
     andthen (if result_code = 0 then Parser_ReadOperatorAndCheckFinalBracket V nested item
       else ret (result_code, item)) (\<lambda>(result_code, item).
     andthen (if result_code = 1 \<or> itype item = semicolon
       then andthen (gets stack_index) (\<lambda>n.
            andthen (throw_if (n = 0) err_nothing_has_read) (\<lambda>_.
            Parser_TryRollingUpStack V))
       else ret ()) (\<lambda>_.
     if result_code = 1
     then andthen Parser_CheckIntegrityOfStack (\<lambda>_. ret (True, item))
     else andthen (Parser_PushOperatorIntoStack item) (\<lambda>_.
          andthen (Parser_TryRollingUpStackWithOperatorPriority V) (\<lambda>_.
          ret (False, item))))))))"

partial_function (option) Parse_loop ::
  "'v value_type \<Rightarrow> 'v nested \<Rightarrow> 'v item \<Rightarrow> ('v parser, unit) action" where
  "Parse_loop V nested item s =
     andthen (Parse_iteration V nested item) (\<lambda>(finished, item).
     if finished then ret () else Parse_loop V nested item) s"

definition NormalizeStack :: "'v parser \<Rightarrow> 'v parser" where
  "NormalizeStack s =
     (if error s \<noteq> err_ok \<or> stack_index s = 0 then s\<lparr>stack := []\<rparr>
      else s\<lparr>stack := filter (\<lambda>i. itype i = numerical_value) (take (stack_index s) (stack s))\<rparr>)"

definition vector_resize :: "nat \<Rightarrow> 'a \<Rightarrow> 'a list \<Rightarrow> 'a list" where
  "vector_resize n x xs = take n xs @ replicate (n - length xs) x"

definition Parse_with :: "'v value_type \<Rightarrow> 'v nested \<Rightarrow> 'v nested" where
  "Parse_with V nested s str =
     (let s = s\<lparr>stack_index := 0, pstring := str, error := err_ok, calculated := False\<rparr>;
          s = s\<lparr>stack := vector_resize default_stack_size (Item_new V) (stack s)\<rparr>
      in map_option (\<lambda>(r, s).
           let s = (case r of Inl c \<Rightarrow> s\<lparr>error := c, calculated := False\<rparr> | Inr _ \<Rightarrow> s);
               s = NormalizeStack s
           in (error s, s)) (Parse_loop V nested (Item_new V) s))"

text \<open>
  The recursion through user-defined variables and functions, to a given depth: \<open>None\<close> when it is
  exceeded. \<open>Parser_Safety\<close> shows that a depth of one more than the number of names is enough.
\<close>

fun Parser_Parse :: "nat \<Rightarrow> 'v value_type \<Rightarrow> 'v nested" where
  "Parser_Parse 0 V s str = None"
| "Parser_Parse (Suc depth) V s str = Parse_with V (Parser_Parse depth V) s str"

definition Parser_Parse_std_string :: "nat \<Rightarrow> 'v value_type \<Rightarrow> 'v nested" where
  "Parser_Parse_std_string depth V s str = Parser_Parse depth V s (c_str str)"

lemmas [code] = Parser_TryRollingUpStackWithOperatorPriority.simps Parser_TryRollingUpStack.simps
  Parser_ReadOperatorAndCheckFinalBracket.simps Parse_loop.simps

end
