(* ===== verification/Parser_Frame.thy ===== *)
theory Parser_Frame
  imports Parser_Loop
begin

text \<open>
  Which part of the parser an action uses. The program keeps its stack in a vector that is larger than
  the stack, in items whose unused members hold what was left from earlier uses. Here the stack is a list
  of symbols, the topmost first (\<open>sym\<close>, \<open>sees\<close>), and the rest of the object a parser with an empty
  vector (\<open>env\<close>). \<open>refines\<close> compares a run of the program with a run on these two. Actions that read
  the string leave the stack alone (\<open>frame\<close>), the wrappers of the functions look at it only at
  the places of their arguments (\<open>takes_args\<close>).
\<close>

section \<open>Symbols\<close>

datatype 'v sym =
    Val 'v
  | Op mat_type
  | Bracket bool "string option" 'v
  | Semi

fun priority :: "mat_type \<Rightarrow> int" where
  "priority mat_lor = 4"
| "priority mat_land = 5"
| "priority mat_add = 10"
| "priority mat_sub = 10"
| "priority mat_mul = 12"
| "priority mat_shortmul = 12"
| "priority mat_div = 12"
| "priority mat_pow = 14"
| "priority mat_none = 0"
| "priority _ = 7"

definition std_op :: "mat_type \<Rightarrow> mat_op" where
  "std_op t = \<lparr>mat_optype = t, mat_priority = priority t,
     mat_assoc = (if t = mat_pow then assoc_right else assoc_non_right)\<rparr>"

lemma SetType_std_op: "t \<noteq> mat_none \<Longrightarrow> MatOperator_SetType m t = ret (std_op t)"
  by (cases m; cases t) (simp_all add: MatOperator_SetType_def std_op_def Let_def)

lemma SetType_none: "MatOperator_SetType m mat_none = throw err_internal_error"
  by (simp add: MatOperator_SetType_def)

definition sym_of :: "'v item \<Rightarrow> 'v sym option" where
  "sym_of i = (case itype i of
     numerical_value \<Rightarrow> Some (Val (ivalue i))
   | mat_operator \<Rightarrow> (let t = mat_optype (moperator i)
       in if t \<noteq> mat_none \<and> moperator i = std_op t then Some (Op t) else None)
   | first_bracket \<Rightarrow> Some (Bracket (isign i) (if ifunction i then Some (function_name i) else None) (ivalue i))
   | semicolon \<Rightarrow> Some Semi
   | _ \<Rightarrow> None)"

lemma sym_of_iff:
  "sym_of i = Some (Val v) \<longleftrightarrow> itype i = numerical_value \<and> ivalue i = v"
  "sym_of i = Some (Op t) \<longleftrightarrow> itype i = mat_operator \<and> moperator i = std_op t \<and> t \<noteq> mat_none"
  "sym_of i = Some (Bracket b f v) \<longleftrightarrow> itype i = first_bracket \<and> isign i = b \<and> ivalue i = v \<and>
     f = (if ifunction i then Some (function_name i) else None)"
  "sym_of i = Some Semi \<longleftrightarrow> itype i = semicolon"
  by (cases "itype i"; auto simp: sym_of_def Let_def std_op_def)+

fun kind :: "'v sym \<Rightarrow> item_type" where
  "kind (Val _) = numerical_value"
| "kind (Op _) = mat_operator"
| "kind (Bracket _ _ _) = first_bracket"
| "kind Semi = semicolon"

lemma kind_sym_of: "sym_of i = Some x \<Longrightarrow> itype i = kind x"
  by (cases x) (auto simp: sym_of_iff)

text \<open>The list of symbols a parser holds.\<close>

definition sees :: "'v parser \<Rightarrow> 'v sym list \<Rightarrow> bool" where
  "sees s \<tau> \<longleftrightarrow> stack_index s \<le> length (stack s) \<and> map sym_of (rev (take (stack_index s) (stack s))) = map Some \<tau>"

lemma sees_length: "sees s \<tau> \<Longrightarrow> stack_index s = length \<tau>"
  unfolding sees_def by (metis length_map length_rev length_take min.absorb2)

lemma sees_nth:
  assumes "sees s \<tau>" "k < length \<tau>"
  shows "stack_index s - Suc k < length (stack s)" "sym_of (stack s ! (stack_index s - Suc k)) = Some (\<tau> ! k)"
proof -
  have n: "stack_index s = length \<tau>" "length \<tau> \<le> length (stack s)"
    using sees_length [OF assms(1)] assms(1) by (simp_all add: sees_def)
  then show "stack_index s - Suc k < length (stack s)" using assms(2) by simp
  have "map sym_of (rev (take (stack_index s) (stack s))) ! k = map Some \<tau> ! k"
    using assms(1) by (simp add: sees_def)
  then show "sym_of (stack s ! (stack_index s - Suc k)) = Some (\<tau> ! k)"
    using n assms(2) by (simp add: rev_nth)
qed

lemma seesI:
  assumes "stack_index s = length \<tau>" "length \<tau> \<le> length (stack s)"
    "\<And>k. k < length \<tau> \<Longrightarrow> sym_of (stack s ! (length \<tau> - Suc k)) = Some (\<tau> ! k)"
  shows "sees s \<tau>"
proof -
  have "map sym_of (rev (take (stack_index s) (stack s))) = map Some \<tau>"
    using assms by (intro nth_equalityI) (simp_all add: rev_nth)
  then show ?thesis using assms by (simp add: sees_def)
qed

lemma sees_cong:
  "sees s \<tau> \<Longrightarrow> stack s' = stack s \<Longrightarrow> stack_index s' = stack_index s \<Longrightarrow> sees s' \<tau>"
  by (simp add: sees_def)

lemma sees_drop:
  assumes "sees s \<tau>" "n \<le> length \<tau>" "stack s' = stack s" "stack_index s' = stack_index s - n"
  shows "sees s' (drop n \<tau>)"
proof (rule seesI)
  note n = sees_length [OF assms(1)]
  fix k assume k: "k < length (drop n \<tau>)"
  then have "n + k < length \<tau>" "length (drop n \<tau>) - Suc k = length \<tau> - Suc (n + k)" by simp_all
  then show "sym_of (stack s' ! (length (drop n \<tau>) - Suc k)) = Some (drop n \<tau> ! k)"
    using sees_nth(2) [OF assms(1), of "n + k"] assms(2,3) n by simp
qed (use assms sees_length [OF assms(1)] in \<open>auto simp: sees_def\<close>)

text \<open>Replacing an item below the index replaces a symbol.\<close>

lemma sees_update:
  assumes "sees s \<tau>" "k < length \<tau>" "sym_of i = Some x"
    "stack s' = (stack s)[stack_index s - Suc k := i]" "stack_index s' = stack_index s"
  shows "sees s' (\<tau>[k := x])"
proof (rule seesI)
  note n = sees_length [OF assms(1)]
  fix j assume j: "j < length (\<tau>[k := x])"
  then have "length \<tau> - Suc j = length \<tau> - Suc k \<longleftrightarrow> j = k" using assms(2) by auto
  moreover have "length \<tau> \<le> length (stack s)" using assms(1) n by (simp add: sees_def)
  ultimately show "sym_of (stack s' ! (length (\<tau>[k := x]) - Suc j)) = Some (\<tau>[k := x] ! j)"
    using sees_nth(2) [OF assms(1), of j] assms(2-5) n j by (cases "j = k") (auto simp: nth_list_update)
qed (use assms sees_length [OF assms(1)] in \<open>auto simp: sees_def\<close>)

lemma sees_push:
  assumes "sees s \<tau>" "sym_of i = Some x"
    "stack s' = (if stack_index s < length (stack s) then (stack s)[stack_index s := i] else stack s @ [i])"
    "stack_index s' = Suc (stack_index s)"
  shows "sees s' (x # \<tau>)"
proof (rule seesI)
  note n = sees_length [OF assms(1)]
  have le: "length \<tau> \<le> length (stack s)" using assms(1) n by (simp add: sees_def)
  then show "length (x # \<tau>) \<le> length (stack s')" using assms(3) n by auto
  fix k assume k: "k < length (x # \<tau>)"
  show "sym_of (stack s' ! (length (x # \<tau>) - Suc k)) = Some ((x # \<tau>) ! k)"
  proof (cases k)
    case 0
    then show ?thesis using assms(2,3) n le by (auto simp: nth_append)
  next
    case (Suc j)
    then show ?thesis
      using sees_nth [OF assms(1), of j] assms(3) n k le by (auto simp: nth_append)
  qed
qed (use assms sees_length [OF assms(1)] in simp)

section \<open>Refinement of actions\<close>

definition env :: "'v parser \<Rightarrow> 'v parser" where
  "env s = s\<lparr>stack := [], stack_index := 0\<rparr>"

lemma env_simps [simp]:
  "env (env s) = env s" "stack (env s) = []" "stack_index (env s) = 0" "error (env s) = error s"
  "pstring (env s) = pstring s" "base (env s) = base s" "deg_rad_grad (env s) = deg_rad_grad s"
  "pstop_calculating (env s) = pstop_calculating s" "puser_variables (env s) = puser_variables s"
  "puser_functions (env s) = puser_functions s"
  "pfunction_local_variables (env s) = pfunction_local_variables s"
  "visited_variables (env s) = visited_variables s" "visited_functions (env s) = visited_functions s"
  "functions_table (env s) = functions_table s" "operators_table (env s) = operators_table s"
  "variables_table (env s) = variables_table s" "cgamma (env s) = cgamma s" "group (env s) = group s"
  "comma (env s) = comma s" "comma2 (env s) = comma2 s" "param_sep (env s) = param_sep s"
  "calculated (env s) = calculated s" "Parser_new_copy (env s) = Parser_new_copy s"
  by (simp_all add: env_def Parser_new_copy_def Parser_assign_def)

lemma env_updates [simp]:
  "env (s\<lparr>stack := st\<rparr>) = env s" "env (s\<lparr>stack_index := n\<rparr>) = env s"
  "env (s\<lparr>pstring := p\<rparr>) = (env s)\<lparr>pstring := p\<rparr>" "env (s\<lparr>calculated := b\<rparr>) = (env s)\<lparr>calculated := b\<rparr>"
  "env (s\<lparr>pstop_calculating := x\<rparr>) = (env s)\<lparr>pstop_calculating := x\<rparr>"
  "env (s\<lparr>cgamma := g\<rparr>) = (env s)\<lparr>cgamma := g\<rparr>"
  "env (s\<lparr>visited_variables := vs\<rparr>) = (env s)\<lparr>visited_variables := vs\<rparr>"
  "env (s\<lparr>visited_functions := vs\<rparr>) = (env s)\<lparr>visited_functions := vs\<rparr>"
  by (simp_all add: env_def)

text \<open>
  \<open>refines Q c a\<close>: when the machine comes to an end, so does the program, in the same way and with
  the same environment; \<open>Q\<close> relates the values returned and the state of the program.
\<close>

definition refines ::
  "('a \<Rightarrow> 'b \<Rightarrow> 'v parser \<Rightarrow> bool) \<Rightarrow> ((error_code + 'a) \<times> 'v parser) option \<Rightarrow>
   ((error_code + 'b) \<times> 'v parser) option \<Rightarrow> bool" where
  "refines Q c a \<longleftrightarrow> (\<forall>r \<epsilon>. a = Some (r, \<epsilon>) \<longrightarrow> (\<exists>q s. c = Some (q, s) \<and> env s = \<epsilon> \<and>
     (case r of Inl e \<Rightarrow> q = Inl e | Inr y \<Rightarrow> (\<exists>x. q = Inr x \<and> Q x y s))))"

lemma refines_None [simp]: "refines Q c None"
  by (simp add: refines_def)

lemma refines_Inl [simp]: "refines Q c (Some (Inl e, \<epsilon>)) \<longleftrightarrow> (\<exists>s. c = Some (Inl e, s) \<and> env s = \<epsilon>)"
  by (auto simp: refines_def)

lemma refines_Inr: "refines Q (Some (Inr x, s)) (Some (Inr y, \<epsilon>)) \<longleftrightarrow> env s = \<epsilon> \<and> Q x y s"
  by (auto simp: refines_def)

lemma refines_andthen:
  assumes "refines R (m s) (a \<epsilon>)"
    and "\<And>x y s'. R x y s' \<Longrightarrow> refines Q (f x s') (g y (env s'))"
  shows "refines Q (andthen m f s) (andthen a g \<epsilon>)"
proof (cases "a \<epsilon>")
  case None
  then show ?thesis by simp
next
  case (Some p)
  then obtain r \<epsilon>' where a: "a \<epsilon> = Some (r, \<epsilon>')" by (cases p) auto
  show ?thesis
  proof (cases r)
    case (Inl e)
    then obtain s' where "m s = Some (Inl e, s')" "env s' = \<epsilon>'" using assms(1) a by auto
    then show ?thesis using a Inl by simp
  next
    case (Inr y)
    then obtain x s' where "m s = Some (Inr x, s')" "env s' = \<epsilon>'" "R x y s'"
      using assms(1) a by (auto simp: refines_def)
    then show ?thesis using a Inr assms(2) [of x y s'] by simp
  qed
qed

lemma refines_weaken:
  assumes "refines R c a" "\<And>x y s. R x y s \<Longrightarrow> Q x y s"
  shows "refines Q c a"
  unfolding refines_def
proof (intro allI impI)
  fix r \<epsilon> assume "a = Some (r, \<epsilon>)"
  with assms(1) obtain q s where "c = Some (q, s)" "env s = \<epsilon>"
    "case r of Inl e \<Rightarrow> q = Inl e | Inr y \<Rightarrow> \<exists>x. q = Inr x \<and> R x y s"
    unfolding refines_def by blast
  with assms(2) show "\<exists>q s. c = Some (q, s) \<and> env s = \<epsilon> \<and>
      (case r of Inl e \<Rightarrow> q = Inl e | Inr y \<Rightarrow> \<exists>x. q = Inr x \<and> Q x y s)"
    by (cases r) auto
qed

section \<open>Actions that leave the stack alone\<close>

definition put :: "'v item list \<Rightarrow> nat \<Rightarrow> 'v parser \<Rightarrow> 'v parser" where
  "put st n s = s\<lparr>stack := st, stack_index := n\<rparr>"

lemma put_simps [simp]:
  "put st n (put st' n' s) = put st n s" "stack (put st n s) = st" "stack_index (put st n s) = n"
  "put (stack s) (stack_index s) s = s" "env (put st n s) = env s" "put st n (env s) = put st n s"
  by (simp_all add: put_def env_def)

lemma put_env: "put (stack s) (stack_index s) (env s) = s"
  by (simp add: put_def env_def)

lemma env_put: "env s = put [] 0 s"
  by (simp add: put_def env_def)

text \<open>Such an action does the same whatever the stack is, and keeps it.\<close>

definition frame :: "('v parser, 'a) action \<Rightarrow> bool" where
  "frame m \<longleftrightarrow> (\<forall>st n s. m (put st n s) = map_option (map_prod id (put st n)) (m s))"

named_theorems frame_intros \<open>actions that leave the stack alone\<close>

lemma frameD: "frame m \<Longrightarrow> m (put st n s) = map_option (map_prod id (put st n)) (m s)"
  by (simp add: frame_def)

lemma frame_stack:
  assumes "frame m" "m s = Some (r, s')"
  shows "stack s' = stack s" "stack_index s' = stack_index s"
  using frameD [OF assms(1), of "stack s" "stack_index s" s] assms(2) by (auto simp: map_prod_def)
    (metis put_simps(2,3))+

lemma frame_refines:
  assumes "frame m"
  shows "refines (\<lambda>x y s'. x = y \<and> stack s' = stack s \<and> stack_index s' = stack_index s) (m s) (m (env s))"
proof (cases "m s")
  case None
  then show ?thesis using frameD [OF assms, of "[]" 0 s] by (simp add: env_put)
next
  case (Some p)
  obtain r s' where p: "p = (r, s')" by (cases p)
  with Some have "m (env s) = Some (r, env s')"
    using frameD [OF assms, of "[]" 0 s] by (simp add: env_put)
  then show ?thesis using Some p frame_stack [OF assms, of s r s']
    by (auto simp: refines_def split: sum.splits)
qed

lemma refines_frame:
  assumes "frame m"
    and "\<And>x s'. stack s' = stack s \<Longrightarrow> stack_index s' = stack_index s \<Longrightarrow> refines Q (f x s') (g x (env s'))"
  shows "refines Q (andthen m f s) (andthen m g (env s))"
  by (rule refines_andthen, rule frame_refines [OF assms(1)]) (use assms(2) in auto)

lemma frame_ret [frame_intros]: "frame (ret x)" by (simp add: frame_def)
lemma frame_throw [frame_intros]: "frame (throw e)" by (simp add: frame_def)
lemma frame_stuck [frame_intros]: "frame stuck" by (simp add: frame_def)
lemma frame_Error [frame_intros]: "frame (Parser_Error e)" by (simp add: frame_def Parser_Error_def)
lemma frame_throw_if [frame_intros]: "frame (throw_if b e)" by (cases b) (simp_all add: frame_def)
lemma frame_from_option [frame_intros]: "frame (from_option x)" by (cases x) (simp_all add: frame_def)

lemma frame_gets [frame_intros]: "(\<And>st n s. f (put st n s) = f s) \<Longrightarrow> frame (gets f)"
  by (simp add: frame_def)

lemma frame_modify [frame_intros]: "(\<And>st n s. f (put st n s) = put st n (f s)) \<Longrightarrow> frame (modify f)"
  by (simp add: frame_def)

lemma frame_andthen [frame_intros]:
  assumes "frame m" "\<And>x. frame (f x)"
  shows "frame (andthen m f)"
  unfolding frame_def
proof (intro allI)
  fix st n s
  note m = frameD [OF assms(1), of st n s]
  show "andthen m f (put st n s) = map_option (map_prod id (put st n)) (andthen m f s)"
  proof (cases "m s")
    case None
    then show ?thesis using m by simp
  next
    case (Some p)
    then show ?thesis using m frameD [OF assms(2)] by (cases p; cases "fst p") simp_all
  qed
qed

lemma frame_if [frame_intros]: "frame m \<Longrightarrow> frame n \<Longrightarrow> frame (if b then m else n)"
  by simp

lemma frame_option [frame_intros]:
  "frame m \<Longrightarrow> (\<And>x. frame (f x)) \<Longrightarrow> frame (case r of None \<Rightarrow> m | Some x \<Rightarrow> f x)"
  by (cases r) simp_all

lemma frame_prod [frame_intros]: "(\<And>x y. frame (f x y)) \<Longrightarrow> frame (case p of (x, y) \<Rightarrow> f x y)"
  by (cases p) simp

lemma frame_list [frame_intros]:
  "frame m \<Longrightarrow> (\<And>x xs. frame (f x xs)) \<Longrightarrow> frame (case r of [] \<Rightarrow> m | x # xs \<Rightarrow> f x xs)"
  by (cases r) simp_all

lemma frame_SetType [frame_intros]: "frame (MatOperator_SetType m t)"
  by (cases "t = mat_none") (simp_all add: SetType_std_op SetType_none frame_intros)

lemma frame_check_err [frame_intros]: "frame (check_err r)"
  unfolding check_err_def by (intro frame_intros)

lemma put_copy: "Parser_new_copy (put st n s) = Parser_new_copy s"
  by (simp add: Parser_new_copy_def Parser_assign_def put_def)

lemma frame_Recurrence [frame_intros]: "frame (Parser_RecurrenceParsingVariablesOrFunction nested b name str lv)"
  unfolding Parser_RecurrenceParsingVariablesOrFunction_def RecurrenceParsingVariablesOrFunction_CheckStopCondition_def
    RecurrenceParsingVariablesOrFunction_AddName_def RecurrenceParsingVariablesOrFunction_DeleteName_def
  by (intro frame_intros put_copy) (simp_all add: put_def)

lemma frame_GetValueOfVariable [frame_intros]: "frame (Parser_GetValueOfVariable V nested name)"
  unfolding Parser_GetValueOfVariable_def Parser_GetValueOfUserDefinedVariable_def
    Parser_GetValueOfFunctionLocalVariable_def Let_def
  by (intro frame_intros) (simp_all add: put_def)

lemma frame_Convert [frame_intros]:
  "frame (Parser_ConvertAngleToRad V x)" "frame (Parser_ConvertRadToAngle V x)"
  unfolding Parser_ConvertAngleToRad_def Parser_ConvertRadToAngle_def
  by (intro frame_intros; simp add: put_def)+

lemma frame_MakeStandard [frame_intros]: "frame (Parser_MakeStandardMathematicOperation V x m y)"
  unfolding Parser_MakeStandardMathematicOperation_def carry_overflow_def
  by (cases m) (simp_all, (intro frame_intros; simp add: put_def)+)

lemma frame_reader [frame_intros]:
  "frame peek" "frame advance" "frame Parser_SkipWhiteCharacters" "frame Parser_ReadName"
  "frame (Parser_TestSign i)" "frame (Parser_ReadValue V i b)" "frame (Parser_ValueStarts c b)"
proof -
  show [frame_intros]: "frame peek"
    unfolding peek_def by (intro frame_intros; simp add: put_def)
  show [frame_intros]: "frame advance"
    unfolding advance_def by (intro frame_intros; simp add: put_def)
  show [frame_intros]: "frame Parser_SkipWhiteCharacters"
    unfolding Parser_SkipWhiteCharacters_def by (intro frame_intros; simp add: put_def)
  show "frame Parser_ReadName"
    unfolding Parser_ReadName_def by (intro frame_intros; simp add: put_def)
  show "frame (Parser_TestSign i)"
    unfolding Parser_TestSign_def Let_def by (intro frame_intros; simp add: put_def)
  show "frame (Parser_ReadValue V i b)"
    unfolding Parser_ReadValue_def by (intro frame_intros; simp add: put_def)
  show "frame (Parser_ValueStarts c b)"
    unfolding Parser_ValueStarts_def by (intro frame_intros; simp add: put_def)
qed

lemma frame_ReadValueVariableOrFunction [frame_intros]:
  "frame (Parser_ReadValueVariableOrFunction V nested i)"
  unfolding Parser_ReadValueVariableOrFunction_def Parser_ReadVariableOrFunction_def read_prefixed_def Let_def
  by (intro frame_intros; simp add: put_def)

lemma frame_ReadMathematicalOperator [frame_intros]: "frame (Parser_ReadMathematicalOperator i)"
proof -
  have f: "frame (finish_operator i oper old)" for oper old and i :: "'a item"
    unfolding finish_operator_def by (intro frame_intros)
  have "frame (ReadMathematicalOperator_loop i t oper old p)" for t oper old p
  proof (induction i t oper old p rule: ReadMathematicalOperator_loop.induct)
    case (2 result t oper old c p)
    then show ?case
      by (auto simp: f put_def split: option.split intro!: frame_andthen frame_modify)
  qed (auto simp: f intro: frame_intros split: option.split)
  then show ?thesis
    unfolding Parser_ReadMathematicalOperator_def by (intro frame_intros) (simp_all add: put_def)
qed

section \<open>Calls of functions\<close>

text \<open>
  A wrapper looks at the stack only at the places of its arguments. Here it is run on a stack that
  holds nothing but the arguments.
\<close>

definition val_item :: "'v \<Rightarrow> 'v item" where
  "val_item v = \<lparr>itype = numerical_value, ivalue = v, moperator = MatOperator_new, ifunction = False,
     function_name = [], isign = False\<rparr>"

definition args_stack :: "'v list \<Rightarrow> 'v item list" where
  "args_stack vs = concat (map (\<lambda>v. [val_item v, val_item v]) vs)"

lemma length_args_stack [simp]: "length (args_stack vs) = 2 * length vs"
  by (induction vs) (simp_all add: args_stack_def)

lemma args_stack_nth: "i < length vs \<Longrightarrow> ivalue (args_stack vs ! Suc (i * 2)) = vs ! i"
proof (induction vs arbitrary: i)
  case (Cons v vs)
  then show ?case by (cases i) (simp_all add: args_stack_def val_item_def)
qed simp

definition holds_args :: "nat \<Rightarrow> 'v list \<Rightarrow> 'v parser \<Rightarrow> bool" where
  "holds_args k vs s \<longleftrightarrow> (\<forall>i < length vs. k + i * 2 < length (stack s) \<and> ivalue (stack s ! (k + i * 2)) = vs ! i)"

lemma holds_args_stack [simp]: "holds_args (Suc 0) vs (put (args_stack vs) n s)"
  by (auto simp: holds_args_def args_stack_nth)

text \<open>An action that takes its arguments from the place \<open>k\<close> on.\<close>

definition takes_args :: "nat \<Rightarrow> (nat \<Rightarrow> ('v parser, 'a) action) \<Rightarrow> bool" where
  "takes_args n f \<longleftrightarrow> (\<forall>vs s k st' k' i. length vs = n \<and> holds_args k vs s \<and> holds_args k' vs (put st' i s) \<longrightarrow>
     f k' (put st' i s) = map_option (map_prod id (put st' i)) (f k s) \<and>
     (\<forall>r s'. f k s = Some (r, s') \<longrightarrow> stack s' = stack s \<and> stack_index s' = stack_index s))"

named_theorems args_intros \<open>actions that take their arguments from the stack\<close>

lemma takes_args_frame [args_intros]: "frame m \<Longrightarrow> takes_args n (\<lambda>_. m)"
  unfolding takes_args_def using frame_stack frameD by blast

lemma takes_args_value: "i < n \<Longrightarrow> takes_args n (\<lambda>k. stack_value (k + i * 2))"
  by (auto simp: takes_args_def holds_args_def stack_value_def)

lemma takes_args_value_0 [args_intros]: "0 < n \<Longrightarrow> takes_args n (\<lambda>k. stack_value k)"
  using takes_args_value [of 0 n] by simp

lemma takes_args_value_1 [args_intros]: "1 < n \<Longrightarrow> takes_args n (\<lambda>k. stack_value (k + 2))"
  using takes_args_value [of 1 n] by simp

lemma takes_args_value_2 [args_intros]: "2 < n \<Longrightarrow> takes_args n (\<lambda>k. stack_value (k + 4))"
  using takes_args_value [of 2 n] by simp

lemma takes_args_andthen [args_intros]:
  assumes "takes_args n m" "\<And>x. takes_args n (f x)"
  shows "takes_args n (\<lambda>k. andthen (m k) (\<lambda>x. f x k))"
  unfolding takes_args_def
proof (intro allI impI)
  fix vs :: "'a list" and s k st' k' i
  assume h: "length vs = n \<and> holds_args k vs s \<and> holds_args k' vs (put st' i s)"
  then have m: "m k' (put st' i s) = map_option (map_prod id (put st' i)) (m k s)"
    "\<And>r s'. m k s = Some (r, s') \<Longrightarrow> stack s' = stack s \<and> stack_index s' = stack_index s"
    using assms(1) unfolding takes_args_def by blast+
  show "andthen (m k') (\<lambda>x. f x k') (put st' i s) =
      map_option (map_prod id (put st' i)) (andthen (m k) (\<lambda>x. f x k) s) \<and>
    (\<forall>r s'. andthen (m k) (\<lambda>x. f x k) s = Some (r, s') \<longrightarrow> stack s' = stack s \<and> stack_index s' = stack_index s)"
  proof (cases "m k s")
    case None
    then show ?thesis using m by simp
  next
    case (Some p)
    obtain r s' where p: "p = (r, s')" by (cases p)
    show ?thesis
    proof (cases r)
      case (Inl e)
      then show ?thesis using Some p m by simp
    next
      case (Inr x)
      have same: "stack s' = stack s" "stack_index s' = stack_index s" using m(2) Some p by blast+
      then have "holds_args k vs s'" "holds_args k' vs (put st' i s')"
        using h by (simp_all add: holds_args_def)
      then have f: "f x k' (put st' i s') = map_option (map_prod id (put st' i)) (f x k s')"
        "\<And>r t. f x k s' = Some (r, t) \<Longrightarrow> stack t = stack s' \<and> stack_index t = stack_index s'"
        using h assms(2) [of x] unfolding takes_args_def by blast+
      have "andthen (m k) (\<lambda>x. f x k) s = f x k s'"
        "andthen (m k') (\<lambda>x. f x k') (put st' i s) = f x k' (put st' i s')"
        using Some p Inr m(1) by simp_all
      then show ?thesis using f same by metis
    qed
  qed
qed

lemma takes_args_if [args_intros]:
  "(b \<Longrightarrow> takes_args n m) \<Longrightarrow> (\<not> b \<Longrightarrow> takes_args n m') \<Longrightarrow> takes_args n (\<lambda>k. if b then m k else m' k)"
  by (cases b) simp_all

lemma takes_args_guard:
  assumes "\<not> b \<Longrightarrow> takes_args n f"
  shows "takes_args n (\<lambda>k. andthen (throw_if b e) (\<lambda>_. f k))"
proof (cases b)
  case True
  then have "(\<lambda>k. andthen (throw_if b e) (\<lambda>_. f k)) = (\<lambda>_. throw e)"
    by (auto simp: fun_eq_iff)
  then show ?thesis by (simp add: takes_args_frame frame_throw)
next
  case False
  then have "(\<lambda>k. andthen (throw_if b e) (\<lambda>_. f k)) = f" by (auto simp: fun_eq_iff)
  then show ?thesis using assms False by simp
qed

lemma takes_args_prod [args_intros]:
  "(\<And>x y. takes_args n (f x y)) \<Longrightarrow> takes_args n (\<lambda>k. case p of (x, y) \<Rightarrow> f x y k)"
  by (cases p) simp

lemma takes_args_loops:
  "i + m \<le> n \<Longrightarrow> takes_args n (\<lambda>k. Max_loop V k i m r)"
  "i + m \<le> n \<Longrightarrow> takes_args n (\<lambda>k. Min_loop V k i m r)"
  "i + m \<le> n \<Longrightarrow> takes_args n (\<lambda>k. Or_loop V k i m r)"
  "i + m \<le> n \<Longrightarrow> takes_args n (\<lambda>k. And_loop V k i m r)"
  "i + m \<le> n \<Longrightarrow> takes_args n (\<lambda>k. Sum_loop V k i m r)"
  by (induction m arbitrary: i r) (auto intro!: args_intros takes_args_value frame_intros)

lemma takes_args_call: "takes_args n (\<lambda>k. call_pfunction pf V k n r)"
  by (cases pf; simp only: call_pfunction.simps Parser_Gamma_def Parser_Factorial_def Parser_Abs_def
      Parser_Sin_def Parser_Cos_def Parser_Tan_def Parser_Cot_def Parser_Int_def Parser_Round_def
      Parser_Ln_def Parser_Log_def Parser_Exp_def Parser_Max_def Parser_Min_def Parser_ASin_def
      Parser_ACos_def Parser_ATan_def Parser_ACot_def Parser_Sgn_def Parser_Mod_def Parser_If_def
      Parser_Or_def Parser_And_def Parser_Not_def Parser_DegToRad_def Parser_RadToDeg_def
      Parser_DegToDeg_def Parser_GradToRad_def Parser_RadToGrad_def Parser_DegToGrad_def
      Parser_GradToDeg_def Parser_Ceil_def Parser_Floor_def Parser_Sqrt_def Parser_Sinh_def
      Parser_Cosh_def Parser_Tanh_def Parser_Coth_def Parser_Root_def Parser_ASinh_def
      Parser_ACosh_def Parser_ATanh_def Parser_ACoth_def Parser_BitAnd_def Parser_BitOr_def
      Parser_BitXor_def Parser_Sum_def Parser_Avg_def Parser_Frac_def function1_wrapper_def;
      (rule takes_args_guard args_intros takes_args_loops frame_intros | simp add: put_def)+)

end
