(* ===== verification/Parser_Machine.thy ===== *)
theory Parser_Machine
  imports Parser_Frame
begin

text \<open>
  The parser as a machine on a stack of symbols, the abstract view of the main loop, and the proof that
  the program implements it: the lemmas \<open>*_refines\<close> say for each operation that what the program does
  on its vector of items is what the machine does on the list of symbols, and \<open>Parse_loop_refines\<close>
  says so of the whole loop.
\<close>

section \<open>The machine\<close>

fun m_roll :: "'v value_type \<Rightarrow> 'v sym list \<Rightarrow> ('v parser, 'v sym list) action" where
  "m_roll V (Val b # Op m # Val a # \<tau>) =
     andthen (Parser_MakeStandardMathematicOperation V a m b) (\<lambda>v. m_roll V (Val v # \<tau>))"
| "m_roll V \<tau> = ret \<tau>"

definition binds :: "mat_type \<Rightarrow> mat_type \<Rightarrow> bool" where
  "binds p q \<longleftrightarrow> priority p > priority q \<or> (priority p = priority q \<and> p \<noteq> mat_pow)"

fun m_roll_priority :: "'v value_type \<Rightarrow> 'v sym list \<Rightarrow> ('v parser, 'v sym list) action" where
  "m_roll_priority V (Op q # Val b # Op p # Val a # \<tau>) =
     (if binds p q
      then andthen (Parser_MakeStandardMathematicOperation V a p b) (\<lambda>v. m_roll_priority V (Op q # Val v # \<tau>))
      else ret (Op q # Val b # Op p # Val a # \<tau>))"
| "m_roll_priority V \<tau> = ret \<tau>"

text \<open>The arguments above the last bracket, the bracket, and what is below it.\<close>

fun m_args :: "'v list \<Rightarrow> 'v sym list \<Rightarrow> ('v parser, 'v list \<times> 'v sym \<times> 'v sym list) action" where
  "m_args vs [] = throw err_unexpected_final_bracket"
| "m_args vs [x] = throw err_unexpected_final_bracket"
| "m_args vs (x # y # \<tau>) = (case x of
     Val v \<Rightarrow> (case y of
         Semi \<Rightarrow> m_args (v # vs) \<tau>
       | Bracket b f r \<Rightarrow> ret (v # vs, y, \<tau>)
       | _ \<Rightarrow> throw err_unexpected_final_bracket)
   | _ \<Rightarrow> throw err_internal_error)"

fun m_parameters :: "'v sym list \<Rightarrow> ('v parser, 'v list \<times> 'v sym \<times> 'v sym list) action" where
  "m_parameters (Bracket b f r # \<tau>) = ret ([], Bracket b f r, \<tau>)"
| "m_parameters \<tau> = m_args [] \<tau>"

fun m_locals :: "nat \<Rightarrow> 'v list \<Rightarrow> 'v local_variables \<Rightarrow> 'v local_variables" where
  "m_locals i [] lv = lv"
| "m_locals i (v # vs) lv = m_locals (i + 1) vs (map_insert lv (CHR ''x'' # Parser_Sprintf (i + 1)) v)"

definition m_user_function :: "'v nested \<Rightarrow> string \<Rightarrow> 'v list \<Rightarrow> ('v parser, 'v option) action" where
  "m_user_function nested fname vs =
     andthen (gets puser_functions) (\<lambda>pf. case pf of
       None \<Rightarrow> ret None
     | Some pf \<Rightarrow>
         let (err, string_value, param) = Objects_GetValueAndParam_ptr pf fname None 0
         in if err \<noteq> err_ok then ret None
            else andthen (throw_if (param \<noteq> int (length vs)) err_improper_amount_of_arguments) (\<lambda>_.
                 andthen (from_option string_value) (\<lambda>string_value.
                 andthen (Parser_RecurrenceParsingVariablesOrFunction nested False fname string_value
                   (Some (case vs of [] \<Rightarrow> [] | v # _ \<Rightarrow> m_locals 0 vs (map_insert [] ''x'' v)))) (\<lambda>v.
                 andthen (modify (\<lambda>s. s\<lparr>calculated := True\<rparr>)) (\<lambda>_.
                 ret (Some v))))))"

definition m_builtin :: "'v value_type \<Rightarrow> pfunction \<Rightarrow> 'v \<Rightarrow> 'v list \<Rightarrow> ('v parser, 'v) action" where
  "m_builtin V pf r vs \<epsilon> =
     map_option (map_prod id env) (call_pfunction pf V 1 (length vs) r (put (args_stack vs) 0 \<epsilon>))"

definition m_call :: "'v value_type \<Rightarrow> 'v nested \<Rightarrow> string \<Rightarrow> 'v \<Rightarrow> 'v list \<Rightarrow> ('v parser, 'v) action" where
  "m_call V nested fname r vs =
     andthen (m_user_function nested fname vs) (\<lambda>x. case x of
       Some v \<Rightarrow> ret v
     | None \<Rightarrow> andthen (gets functions_table) (\<lambda>t. case map_find t fname of
         None \<Rightarrow> throw err_unknown_function
       | Some pf \<Rightarrow> andthen (m_builtin V pf r vs) (\<lambda>v.
           andthen (modify (\<lambda>s. s\<lparr>calculated := True\<rparr>)) (\<lambda>_. ret v))))"

fun m_apply :: "'v value_type \<Rightarrow> 'v nested \<Rightarrow> 'v sym \<Rightarrow> 'v list \<Rightarrow> ('v parser, 'v) action" where
  "m_apply V nested (Bracket b f r) vs =
     andthen (throw_if (vs = [] \<and> f = None) err_unexpected_final_bracket) (\<lambda>_.
     andthen (case f of
         Some fname \<Rightarrow> m_call V nested fname r vs
       | None \<Rightarrow> andthen (throw_if (length vs \<noteq> 1) err_unexpected_semicolon_operator) (\<lambda>_. ret (hd vs))) (\<lambda>v.
     ret (if b then v_ChangeSign V v else v)))"
| "m_apply V nested _ vs = stuck"

definition m_final_bracket :: "'v value_type \<Rightarrow> 'v nested \<Rightarrow> 'v sym list \<Rightarrow> ('v parser, 'v sym list) action" where
  "m_final_bracket V nested \<tau> =
     andthen (throw_if (\<not> (\<exists>x \<in> set (take 1 \<tau>). kind x \<in> {numerical_value, first_bracket})) err_unexpected_final_bracket) (\<lambda>_.
     andthen (m_roll V \<tau>) (\<lambda>\<tau>.
     andthen (m_parameters \<tau>) (\<lambda>(vs, br, \<tau>).
     andthen (m_apply V nested br vs) (\<lambda>v. ret (Val v # \<tau>)))))"

fun m_percent :: "'v value_type \<Rightarrow> 'v sym list \<Rightarrow> ('v parser, 'v sym list) action" where
  "m_percent V (Val b # Op m # Val a # \<tau>) =
     andthen advance (\<lambda>_.
     andthen Parser_SkipWhiteCharacters (\<lambda>_.
     andthen (from_option (v_Div V b (v_of_int V 100))) (\<lambda>(c, v).
     andthen (from_option (v_Mul V v a)) (\<lambda>(d, v).
     andthen (throw_if (c + d \<noteq> 0) err_overflow) (\<lambda>_.
     ret (Val v # Op m # Val a # \<tau>))))))"
| "m_percent V \<tau> = throw err_percent_from"

definition m_read_operator ::
  "'v value_type \<Rightarrow> 'v item \<Rightarrow> 'v sym list \<Rightarrow> ('v parser, int \<times> 'v item \<times> 'v sym list) action" where
  "m_read_operator V item \<tau> =
     andthen Parser_SkipWhiteCharacters (\<lambda>_.
     andthen peek (\<lambda>c.
     andthen (if c = char_int CHR ''%'' then m_percent V \<tau> else ret \<tau>) (\<lambda>\<tau>.
     andthen peek (\<lambda>c.
     andthen (gets param_sep) (\<lambda>sep.
     if c = 0 then ret (1, item, \<tau>)
     else if c = char_int CHR '')''
     then andthen advance (\<lambda>_. ret (0, item\<lparr>itype := last_bracket\<rparr>, \<tau>))
     else if c = char_int CHR '';'' \<or> (sep \<noteq> 0 \<and> c = sep)
     then andthen advance (\<lambda>_. ret (0, item\<lparr>itype := semicolon\<rparr>, \<tau>))
     else if is_small c \<or> is_big c
     then andthen (MatOperator_SetType (moperator item) mat_shortmul) (\<lambda>m.
          ret (0, item\<lparr>itype := mat_operator, moperator := m\<rparr>, \<tau>))
     else andthen (Parser_ReadMathematicalOperator item) (\<lambda>item. ret (0, item, \<tau>)))))))"

partial_function (option) m_operator ::
  "'v value_type \<Rightarrow> 'v nested \<Rightarrow> 'v item \<Rightarrow> 'v sym list \<Rightarrow> ('v parser, int \<times> 'v item \<times> 'v sym list) action" where
  "m_operator V nested item \<tau> s =
     andthen (m_read_operator V item \<tau>) (\<lambda>(code, item, \<tau>).
     if code = 1 then ret (1, item, \<tau>)
     else if itype item = last_bracket
     then andthen (m_final_bracket V nested \<tau>) (\<lambda>\<tau>. m_operator V nested item \<tau>)
     else ret (0, item, \<tau>)) s"

text \<open>What happens after an operator has been read: \<open>None\<close> when the loop has returned.\<close>

definition m_after_operator ::
  "'v value_type \<Rightarrow> int \<Rightarrow> 'v item \<Rightarrow> 'v sym list \<Rightarrow> ('v parser, bool \<times> 'v item \<times> 'v sym list) action" where
  "m_after_operator V code item \<tau> =
     andthen (if code = 1 \<or> itype item = semicolon
       then andthen (throw_if (\<tau> = []) err_nothing_has_read) (\<lambda>_. m_roll V \<tau>)
       else ret \<tau>) (\<lambda>\<tau>.
     if code = 1
     then andthen (throw_if (\<not> (\<forall>x \<in> set \<tau>. kind x \<in> {numerical_value, semicolon})) err_stack_not_clear) (\<lambda>_.
          ret (True, item, \<tau>))
     else andthen (from_option (sym_of item)) (\<lambda>x.
          andthen (m_roll_priority V (x # \<tau>)) (\<lambda>\<tau>.
          ret (False, item, \<tau>))))"

definition m_stop :: "('v parser, unit) action" where
  "m_stop = andthen (gets pstop_calculating) (\<lambda>stop. case stop of
     None \<Rightarrow> ret ()
   | Some stop \<Rightarrow>
       let (b, stop) = StopCalculating_WasStopSignal stop
       in andthen (modify (\<lambda>s. s\<lparr>pstop_calculating := Some stop\<rparr>)) (\<lambda>_. throw_if b err_interrupt))"

definition m_iteration ::
  "'v value_type \<Rightarrow> 'v nested \<Rightarrow> 'v item \<Rightarrow> 'v sym list \<Rightarrow> ('v parser, bool \<times> 'v item \<times> 'v sym list) action" where
  "m_iteration V nested item \<tau> =
     andthen m_stop (\<lambda>_.
     andthen (Parser_ReadValueVariableOrFunction V nested item) (\<lambda>(code, item).
     andthen (if code = 0 then andthen (from_option (sym_of item)) (\<lambda>x. ret (x # \<tau>)) else ret \<tau>) (\<lambda>\<tau>.
     if (code = 0 \<or> code = 2) \<and> itype item = first_bracket then ret (False, item, \<tau>)
     else andthen (if code = 0 \<or> code = 2 then m_operator V nested item \<tau> else ret (code, item, \<tau>))
          (\<lambda>(code, item, \<tau>). m_after_operator V code item \<tau>))))"

partial_function (option) m_loop ::
  "'v value_type \<Rightarrow> 'v nested \<Rightarrow> 'v item \<Rightarrow> 'v sym list \<Rightarrow> ('v parser, 'v sym list) action" where
  "m_loop V nested item \<tau> s =
     andthen (m_iteration V nested item \<tau>) (\<lambda>(finished, item, \<tau>).
     if finished then ret \<tau> else m_loop V nested item \<tau>) s"

section \<open>The program implements the machine: the stack\<close>

lemma top_types_sees:
  assumes "sees s \<tau>"
  shows "top_types ts s = Some (Inr (map kind (take (length ts) \<tau>) = ts), s)"
proof -
  note n = sees_length [OF assms]
  have "map itype (take (length ts) (rev (take (stack_index s) (stack s)))) = map kind (take (length ts) \<tau>)"
  proof (rule nth_equalityI)
    fix i assume "i < length (map itype (take (length ts) (rev (take (stack_index s) (stack s)))))"
    then have i: "i < length ts" "i < length \<tau>" using n by simp_all
    then show "map itype (take (length ts) (rev (take (stack_index s) (stack s)))) ! i = map kind (take (length ts) \<tau>) ! i"
      using sees_nth [OF assms i(2)] n assms by (simp add: rev_nth kind_sym_of sees_def)
  qed (use n assms in \<open>simp add: sees_def\<close>)
  moreover have "length \<tau> < length ts \<Longrightarrow> map kind (take (length ts) \<tau>) \<noteq> ts"
    by (metis length_map length_take min_less_iff_conj nat_neq_iff)
  ultimately show ?thesis using n assms by (auto simp: top_types_def sees_def)
qed

lemma top_item_sees:
  assumes "sees s \<tau>" "k < length \<tau>"
  obtains i where "top_item (Suc k) s = Some (Inr i, s)" "sym_of i = Some (\<tau> ! k)"
  using sees_nth [OF assms] sees_length [OF assms(1)] assms(2) by (simp add: top_item_def)

lemma set_top_item_sees:
  assumes "sees s \<tau>" "k < length \<tau>" "\<And>i. sym_of i = Some (\<tau> ! k) \<Longrightarrow> sym_of (f i) = Some x"
  obtains s' where "set_top_item (Suc k) f s = Some (Inr (), s')" "sees s' (\<tau>[k := x])" "env s' = env s"
proof -
  let ?j = "stack_index s - Suc k"
  let ?s = "s\<lparr>stack := (stack s)[?j := f (stack s ! ?j)]\<rparr>"
  have "sees ?s (\<tau>[k := x])"
    using sees_nth [OF assms(1,2)] assms(3) by (intro sees_update [OF assms(1,2)]) simp_all
  moreover have "set_top_item (Suc k) f s = Some (Inr (), ?s)"
    using sees_nth [OF assms(1,2)] sees_length [OF assms(1)] assms(2) by (simp add: set_top_item_def)
  ultimately show thesis by (intro that [of ?s]) simp_all
qed

lemma roll_up_at_refines:
  assumes "sees s \<tau>" "Suc (Suc k) < length \<tau>"
    "\<tau> ! k = Val b" "\<tau> ! Suc k = Op m" "\<tau> ! Suc (Suc k) = Val a"
  shows "refines (\<lambda>_ v s'. sees s' (\<tau>[Suc (Suc k) := Val v])) (roll_up_at V (Suc k) s)
    (Parser_MakeStandardMathematicOperation V a m b (env s))"
proof -
  obtain i where i: "top_item (Suc (Suc (Suc k))) s = Some (Inr i, s)" "sym_of i = Some (Val a)"
    using top_item_sees [OF assms(1,2)] assms(5) by metis
  obtain p where p: "top_item (Suc (Suc k)) s = Some (Inr p, s)" "sym_of p = Some (Op m)"
    using top_item_sees [OF assms(1), of "Suc k"] assms(2,4) by (metis Suc_lessD)
  obtain j where j: "top_item (Suc k) s = Some (Inr j, s)" "sym_of j = Some (Val b)"
    using top_item_sees [OF assms(1), of k] assms(2,3) by (metis Suc_lessD)
  have eq: "roll_up_at V (Suc k) s =
    andthen (Parser_MakeStandardMathematicOperation V a m b)
      (\<lambda>v. set_top_item (Suc (Suc (Suc k))) (\<lambda>i. i\<lparr>ivalue := v\<rparr>)) s"
    using i p j by (simp add: roll_up_at_def sym_of_iff MatOperator_GetType_def std_op_def)
  have "refines (\<lambda>_ v s'. sees s' (\<tau>[Suc (Suc k) := Val v])) (roll_up_at V (Suc k) s)
    (andthen (Parser_MakeStandardMathematicOperation V a m b) ret (env s))"
    unfolding eq
  proof (rule refines_frame [OF frame_MakeStandard])
    fix x and s' :: "'a parser"
    assume "stack s' = stack s" "stack_index s' = stack_index s"
    then have "sees s' \<tau>" using sees_cong [OF assms(1)] by simp
    then obtain s'' where "set_top_item (Suc (Suc (Suc k))) (\<lambda>i. i\<lparr>ivalue := x\<rparr>) s' = Some (Inr (), s'')"
      "sees s'' (\<tau>[Suc (Suc k) := Val x])" "env s'' = env s'"
      using set_top_item_sees [of s' \<tau> "Suc (Suc k)" "\<lambda>i. i\<lparr>ivalue := x\<rparr>" "Val x"] assms(2,5)
      by (auto simp: sym_of_iff)
    then show "refines (\<lambda>_ v s'. sees s' (\<tau>[Suc (Suc k) := Val v]))
        (set_top_item (Suc (Suc (Suc k))) (\<lambda>i. i\<lparr>ivalue := x\<rparr>) s') (ret x (env s'))"
      by (simp add: refines_Inr)
  qed
  moreover have "andthen (Parser_MakeStandardMathematicOperation V a m b) ret (env s) =
      Parser_MakeStandardMathematicOperation V a m b (env s)"
    by (auto simp: andthen_def bind_eq_None_conv split: Option.bind_splits sum.splits)
  ultimately show ?thesis by simp
qed

lemma TryRollingUpStack_stop:
  assumes "sees s \<tau>" "map kind (take 3 \<tau>) \<noteq> [numerical_value, mat_operator, numerical_value]"
  shows "Parser_TryRollingUpStack V s = Some (Inr (), s)"
  using top_types_sees [OF assms(1), of "[numerical_value, mat_operator, numerical_value]"] assms(2)
  by (subst Parser_TryRollingUpStack.simps) (simp add: numeral_3_eq_3)

lemma TryRollingUpStack_refines:
  "sees s \<tau> \<Longrightarrow> refines (\<lambda>_ \<tau>' s'. sees s' \<tau>') (Parser_TryRollingUpStack V s) (m_roll V \<tau> (env s))"
proof (induction V \<tau> arbitrary: s rule: m_roll.induct)
  case (1 V b m a \<tau>)
  have "Parser_TryRollingUpStack V s = andthen (roll_up_at V 1) (\<lambda>_.
      andthen (modify (\<lambda>s. s\<lparr>stack_index := stack_index s - 2\<rparr>)) (\<lambda>_. Parser_TryRollingUpStack V)) s"
    using top_types_sees [OF "1.prems", of "[numerical_value, mat_operator, numerical_value]"]
    by (subst Parser_TryRollingUpStack.simps) simp
  moreover have "refines (\<lambda>_ v s'. sees s' (Val b # Op m # Val v # \<tau>)) (roll_up_at V 1 s)
      (Parser_MakeStandardMathematicOperation V a m b (env s))"
    using roll_up_at_refines [OF "1.prems", of 0] by simp
  moreover have "refines (\<lambda>_ \<tau>' s'. sees s' \<tau>')
      (andthen (modify (\<lambda>s. s\<lparr>stack_index := stack_index s - 2\<rparr>)) (\<lambda>_. Parser_TryRollingUpStack V) s')
      (m_roll V (Val v # \<tau>) (env s'))" if "sees s' (Val b # Op m # Val v # \<tau>)" for v and s' :: "'a parser"
    using "1.IH" [of "s'\<lparr>stack_index := stack_index s' - 2\<rparr>" v] sees_drop [OF that, of 2] by simp
  ultimately show ?case
    by (simp del: One_nat_def) (rule refines_andthen, assumption, simp)
qed (simp_all add: TryRollingUpStack_stop refines_Inr)

lemma can_roll_up_sees:
  assumes "sees s (Op q # Val b # Op p # Val a # \<tau>)"
  shows "can_roll_up s = Some (Inr (binds p q), s)"
proof -
  obtain i where i: "top_item (Suc 0) s = Some (Inr i, s)" "sym_of i = Some (Op q)"
    using top_item_sees [OF assms, of 0] by auto
  obtain j where j: "top_item (Suc (Suc (Suc 0))) s = Some (Inr j, s)" "sym_of j = Some (Op p)"
    using top_item_sees [OF assms, of "Suc (Suc 0)"] by auto
  show ?thesis
    using i j top_types_sees [OF assms, of "[mat_operator, numerical_value, mat_operator, numerical_value]"]
    by (simp add: can_roll_up_def numeral_3_eq_3 sym_of_iff MatOperator_GetPriority_def
        MatOperator_GetAssoc_def std_op_def binds_def Let_def)
qed

lemma RollingWithPriority_stop:
  assumes "sees s \<tau>"
    "map kind (take 4 \<tau>) \<noteq> [mat_operator, numerical_value, mat_operator, numerical_value]"
  shows "Parser_TryRollingUpStackWithOperatorPriority V s = Some (Inr (), s)"
proof -
  have "can_roll_up s = Some (Inr False, s)"
    using top_types_sees [OF assms(1), of "[mat_operator, numerical_value, mat_operator, numerical_value]"] assms(2)
    by (simp add: can_roll_up_def eval_nat_numeral)
  then show ?thesis
    by (subst Parser_TryRollingUpStackWithOperatorPriority.simps) (simp add: andthen_def)
qed

lemma RollingWithPriority_refines:
  "sees s \<tau> \<Longrightarrow> refines (\<lambda>_ \<tau>' s'. sees s' \<tau>') (Parser_TryRollingUpStackWithOperatorPriority V s)
    (m_roll_priority V \<tau> (env s))"
proof (induction V \<tau> arbitrary: s rule: m_roll_priority.induct)
  case (1 V q b p a \<tau>)
  show ?case
  proof (cases "binds p q")
    case False
    then show ?thesis
      using can_roll_up_sees [OF "1.prems"] "1.prems"
      by (subst Parser_TryRollingUpStackWithOperatorPriority.simps) (simp add: refines_Inr)
  next
    case True
    let ?rest = "andthen (top_item 1) (\<lambda>lst. andthen (set_top_item 3 (\<lambda>_. lst)) (\<lambda>_.
      andthen (modify (\<lambda>s. s\<lparr>stack_index := stack_index s - 2\<rparr>)) (\<lambda>_.
      Parser_TryRollingUpStackWithOperatorPriority V)))"
    have "Parser_TryRollingUpStackWithOperatorPriority V s = andthen (roll_up_at V 2) (\<lambda>_. ?rest) s"
      using can_roll_up_sees [OF "1.prems"] True
      by (subst Parser_TryRollingUpStackWithOperatorPriority.simps) simp
    moreover have "refines (\<lambda>_ v s'. sees s' (Op q # Val b # Op p # Val v # \<tau>)) (roll_up_at V 2 s)
        (Parser_MakeStandardMathematicOperation V a p b (env s))"
      using roll_up_at_refines [OF "1.prems", of 1] by (simp add: numeral_2_eq_2)
    moreover have "refines (\<lambda>_ \<tau>' s'. sees s' \<tau>') (?rest s') (m_roll_priority V (Op q # Val v # \<tau>) (env s'))"
      if s': "sees s' (Op q # Val b # Op p # Val v # \<tau>)" for v and s' :: "'a parser"
    proof -
      obtain i where i: "top_item (Suc 0) s' = Some (Inr i, s')" "sym_of i = Some (Op q)"
        using top_item_sees [OF s', of 0] by auto
      obtain s'' where s'': "set_top_item (Suc (Suc (Suc 0))) (\<lambda>_. i) s' = Some (Inr (), s'')"
        "sees s'' (Op q # Val b # Op q # Val v # \<tau>)" "env s'' = env s'"
        using set_top_item_sees [OF s', of "Suc (Suc 0)" "\<lambda>_. i" "Op q"] i(2) by auto
      have "?rest s' = Parser_TryRollingUpStackWithOperatorPriority V (s''\<lparr>stack_index := stack_index s'' - 2\<rparr>)"
        using i s'' by (simp add: numeral_3_eq_3)
      then show ?thesis
        using "1.IH" [OF True, of "s''\<lparr>stack_index := stack_index s'' - 2\<rparr>" v] sees_drop [OF s''(2), of 2] s''(3)
        by simp
    qed
    ultimately show ?thesis
      using True by simp (rule refines_andthen, assumption, simp)
  qed
qed (simp_all add: RollingWithPriority_stop refines_Inr)

lemma push_refines:
  assumes "sees s \<tau>" "sym_of i = Some x"
  obtains s' where "Parser_PushOperatorIntoStack i s = Some (Inr (), s')" "sees s' (x # \<tau>)" "env s' = env s"
  using sees_push [OF assms, of "s\<lparr>stack := (if stack_index s < length (stack s) then (stack s)[stack_index s := i] else stack s @ [i]),
      stack_index := stack_index s + 1\<rparr>"]
  by (simp add: Parser_PushOperatorIntoStack_def)

section \<open>The program implements the machine: brackets and functions\<close>

text \<open>
  The result of \<^verbatim>\<open>HowManyParameters\<close>: the index of the first parameter, with the parameters from there
  on at every second place and the bracket just below.
\<close>

definition found_args :: "'v parser \<Rightarrow> nat \<times> nat \<Rightarrow> 'v list \<times> 'v sym \<times> 'v sym list \<Rightarrow> 'v parser \<Rightarrow> bool" where
  "found_args s = (\<lambda>(n, index) (vs, br, \<tau>) s'. s' = s \<and> n = length vs \<and> index = Suc (length \<tau>) \<and>
     holds_args index vs s \<and> sees (s\<lparr>stack_index := index\<rparr>) (br # \<tau>) \<and> (\<exists>b f r. br = Bracket b f r))"

lemma holds_args_Cons:
  "holds_args k (v # vs) s \<longleftrightarrow> k < length (stack s) \<and> ivalue (stack s ! k) = v \<and> holds_args (k + 2) vs s"
proof -
  have "holds_args k (v # vs) s \<longleftrightarrow> (\<forall>i < Suc (length vs). k + i * 2 < length (stack s) \<and>
      ivalue (stack s ! (k + i * 2)) = (v # vs) ! i)"
    by (simp add: holds_args_def)
  then show ?thesis by (simp only: All_less_Suc2) (simp add: holds_args_def add.assoc)
qed

lemma sees_top:
  assumes "sees (s\<lparr>stack_index := Suc k\<rparr>) (x # \<tau>)"
  shows "sym_of (stack s ! k) = Some x" "k < length (stack s)" "length \<tau> = k"
    "sees (s\<lparr>stack_index := k\<rparr>) \<tau>"
  using sees_nth [OF assms, of 0] sees_length [OF assms] sees_drop [OF assms, of 1 "s\<lparr>stack_index := k\<rparr>"]
  by simp_all

lemma HowManyParameters_loop_refines:
  assumes "sees (s\<lparr>stack_index := Suc j\<rparr>) \<tau>" "holds_args (Suc (Suc j)) vs s" "\<epsilon> = env s"
  shows "refines (found_args s) (HowManyParameters_loop (stack s) (length vs) j s) (m_args vs \<tau> \<epsilon>)"
  using assms
proof (induction vs \<tau> arbitrary: j rule: m_args.induct)
  case (1 vs)
  then show ?case by (auto dest: sees_length)
next
  case (2 vs x)
  then show ?case using sees_top(3) [OF "2.prems"(1)] by (simp add: Parser_Error_def)
next
  case (3 vs x y \<tau>)
  obtain k where j: "j = Suc k" using sees_top(3) [OF "3.prems"(1)] by (metis length_Cons)
  note top = sees_top [OF "3.prems"(1)] and snd = sees_top [OF sees_top(4) [OF "3.prems"(1), unfolded j]]
  note t = kind_sym_of [OF top(1), unfolded j] kind_sym_of [OF snd(1)]
  show ?case
  proof (cases x)
    case (Val v)
    then have args: "holds_args (Suc k) (v # vs) s"
      using "3.prems"(2) top(1,2) j by (simp add: holds_args_Cons sym_of_iff)
    show ?thesis
    proof (cases y)
      case Semi
      show ?thesis
      proof (cases k)
        case 0
        then have "\<tau> = []" using snd(3) by simp
        then show ?thesis using t Val Semi 0 j "3.prems"(3) by (simp add: Parser_Error_def)
      next
        case (Suc i)
        then have "refines (found_args s) (HowManyParameters_loop (stack s) (length (v # vs)) i s) (m_args (v # vs) \<tau> \<epsilon>)"
          using snd(4) "3.prems"(3) args by (intro "3.IH" [OF Val Semi]) simp_all
        then show ?thesis using t Val Semi j Suc by simp
      qed
    next
      case (Bracket b f r)
      then show ?thesis
        using t Val "3.prems"(3) args snd(3) sees_top(4) [OF "3.prems"(1), unfolded j] j
        by (simp add: refines_Inr found_args_def)
    qed (use t Val j "3.prems"(3) in \<open>simp_all add: Parser_Error_def\<close>)
  qed (use t j "3.prems"(3) in \<open>simp_all add: Parser_Error_def\<close>)
qed

lemma HowManyParameters_refines:
  assumes "sees s \<tau>"
  shows "refines (found_args s) (Parser_HowManyParameters s) (m_parameters \<tau> (env s))"
proof (cases \<tau>)
  case Nil
  then show ?thesis using sees_length [OF assms] by (simp add: Parser_HowManyParameters_def Parser_Error_def)
next
  case (Cons x \<tau>')
  then have s: "sees (s\<lparr>stack_index := Suc (length \<tau>')\<rparr>) (x # \<tau>')"
    using assms sees_length [OF assms] by (metis length_Cons sees_cong select_convs(1,2) surjective update_convs(2))
  note top = sees_top [OF s] kind_sym_of [OF sees_top(1) [OF s]]
  have n: "stack_index s = Suc (length \<tau>')" using sees_length [OF assms] Cons by simp
  show ?thesis
  proof (cases "kind x = first_bracket")
    case True
    then obtain b f r where "x = Bracket b f r" by (cases x) auto
    then show ?thesis
      using top s n Cons
      by (simp add: Parser_HowManyParameters_def Suc_le_eq refines_Inr found_args_def holds_args_def)
  next
    case False
    then have "m_parameters (x # \<tau>') = m_args [] (x # \<tau>')" by (cases x) auto
    moreover have "refines (found_args s) (HowManyParameters_loop (stack s) (length ([] :: 'a list)) (length \<tau>') s)
        (m_args [] (x # \<tau>') (env s))"
      using s by (intro HowManyParameters_loop_refines) (simp_all add: holds_args_def)
    ultimately show ?thesis
      using top n Cons False by (simp add: Parser_HowManyParameters_def Suc_le_eq)
  qed
qed

lemma local_variables_loop_args:
  "holds_args (k + i * 2) vs s \<Longrightarrow> local_variables_loop k i (length vs) lv s = Some (Inr (m_locals i vs lv), s)"
proof (induction vs arbitrary: i lv)
  case (Cons v vs)
  then have "holds_args (k + (i + 1) * 2) vs s" "stack_value (k + i * 2) s = Some (Inr v, s)"
    by (simp_all add: holds_args_Cons stack_value_def algebra_simps)
  with Cons.IH show ?case by simp
qed simp

definition stored :: "'v parser \<Rightarrow> nat \<Rightarrow> 'v \<Rightarrow> 'v parser \<Rightarrow> bool" where
  "stored s d v s' \<longleftrightarrow> stack s' = (stack s)[d := (stack s ! d)\<lparr>ivalue := v\<rparr>] \<and> stack_index s' = stack_index s"

lemma set_stack_value_stored:
  assumes "d < length (stack s)" "stack s = stack s0" "stack_index s = stack_index s0"
  obtains s' where "set_stack_value d v s = Some (Inr (), s')" "stored s0 d v s'" "env s' = env s"
  using assms by (simp add: set_stack_value_def stored_def)

lemma user_function_refines:
  assumes "holds_args (Suc d) vs s" "d < length (stack s)"
  shows "refines (\<lambda>found x s'. case x of
      None \<Rightarrow> \<not> found \<and> stack s' = stack s \<and> stack_index s' = stack_index s
    | Some v \<Rightarrow> found \<and> stored s d v s')
    (Parser_GetValueOfUserDefinedFunction nested fname (length vs) (Suc d) s) (m_user_function nested fname vs (env s))"
proof (cases "puser_functions s")
  case None
  then show ?thesis
    by (simp add: Parser_GetValueOfUserDefinedFunction_def m_user_function_def refines_Inr)
next
  case (Some pf)
  obtain err str param where g: "Objects_GetValueAndParam_ptr pf fname None 0 = (err, str, param)"
    by (cases "Objects_GetValueAndParam_ptr pf fname None 0")
  let ?lv = "case vs of [] \<Rightarrow> [] | v # _ \<Rightarrow> m_locals 0 vs (map_insert [] ''x'' v)"
  have lv: "(if length vs > 0 then andthen (stack_value (Suc d)) (\<lambda>x.
      local_variables_loop (Suc d) 0 (length vs) (map_insert [] ''x'' x)) else ret []) s = Some (Inr ?lv, s)"
  proof (cases vs)
    case (Cons v ws)
    then have "stack_value (Suc d) s = Some (Inr v, s)"
      using assms(1) by (simp add: holds_args_Cons stack_value_def)
    moreover have "local_variables_loop (Suc d) 0 (length vs) lv s = Some (Inr (m_locals 0 vs lv), s)" for lv
      using assms(1) by (intro local_variables_loop_args) simp
    ultimately have "andthen (stack_value (Suc d)) (\<lambda>x. local_variables_loop (Suc d) 0 (length vs) (map_insert [] ''x'' x)) s =
        Some (Inr (m_locals 0 vs (map_insert [] ''x'' v)), s)"
      by (simp only: andthen_Inr)
    then show ?thesis
      using Cons by (simp del: m_locals.simps local_variables_loop.simps map_insert.simps)
  qed simp
  show ?thesis
  proof (cases "err \<noteq> err_ok \<or> param \<noteq> int (length vs)")
    case True
    then show ?thesis
      using Some g by (cases "err = err_ok")
        (simp_all add: Parser_GetValueOfUserDefinedFunction_def m_user_function_def refines_Inr andthen_def)
  next
    case False
    let ?rec = "\<lambda>str. Parser_RecurrenceParsingVariablesOrFunction nested False fname str (Some ?lv)"
    have c: "Parser_GetValueOfUserDefinedFunction nested fname (length vs) (Suc d) s =
      andthen (from_option str) (\<lambda>str. andthen (?rec str) (\<lambda>v. andthen (set_stack_value d v) (\<lambda>_.
        andthen (modify (\<lambda>s. s\<lparr>calculated := True\<rparr>)) (\<lambda>_. ret True)))) s"
      using Some g False lv
      by (simp add: Parser_GetValueOfUserDefinedFunction_def andthen_Inr [of "gets puser_functions"]
          andthen_Inr [of "throw_if False _"] del: length_greater_0_conv)
    have a: "m_user_function nested fname vs (env s) =
      andthen (from_option str) (\<lambda>str. andthen (?rec str) (\<lambda>v.
        andthen (modify (\<lambda>s. s\<lparr>calculated := True\<rparr>)) (\<lambda>_. ret (Some v)))) (env s)"
      using Some g False by (simp add: m_user_function_def)
    show ?thesis
      unfolding c a
    proof (intro refines_frame frame_intros)
      fix str v and s' s'' :: "'a parser"
      assume "stack s' = stack s" "stack_index s' = stack_index s" "stack s'' = stack s'" "stack_index s'' = stack_index s'"
      then obtain t where "set_stack_value d v s'' = Some (Inr (), t)" "stored s d v t" "env t = env s''"
        using set_stack_value_stored [of d s'' s v] assms(2) by auto
      then show "refines (\<lambda>found x s'. case x of
          None \<Rightarrow> \<not> found \<and> stack s' = stack s \<and> stack_index s' = stack_index s
        | Some v \<Rightarrow> found \<and> stored s d v s')
        (andthen (set_stack_value d v) (\<lambda>_. andthen (modify (\<lambda>s. s\<lparr>calculated := True\<rparr>)) (\<lambda>_. ret True)) s'')
        (andthen (modify (\<lambda>s. s\<lparr>calculated := True\<rparr>)) (\<lambda>_. ret (Some v)) (env s''))"
        by (simp add: refines_Inr stored_def)
    qed
  qed
qed

lemma builtin_refines:
  assumes "holds_args (Suc d) vs s"
  shows "refines (\<lambda>x v s'. x = v \<and> stack s' = stack s \<and> stack_index s' = stack_index s)
    (call_pfunction pf V (Suc d) (length vs) r s) (m_builtin V pf r vs (env s))"
proof -
  have "call_pfunction pf V 1 (length vs) r (put (args_stack vs) 0 s) =
      map_option (map_prod id (put (args_stack vs) 0)) (call_pfunction pf V (Suc d) (length vs) r s) \<and>
    (\<forall>q s'. call_pfunction pf V (Suc d) (length vs) r s = Some (q, s') \<longrightarrow> stack s' = stack s \<and> stack_index s' = stack_index s)"
    by (rule takes_args_call [of "length vs" pf V r, unfolded takes_args_def, rule_format, where vs = vs])
      (use assms in \<open>simp add: holds_args_stack\<close>)
  then have *: "m_builtin V pf r vs (env s) = map_option (map_prod id env) (call_pfunction pf V (Suc d) (length vs) r s)"
    "\<And>q s'. call_pfunction pf V (Suc d) (length vs) r s = Some (q, s') \<Longrightarrow> stack s' = stack s \<and> stack_index s' = stack_index s"
    by (simp_all add: m_builtin_def option.map_comp comp_def map_prod_def split_def)
  show ?thesis
  proof (cases "call_pfunction pf V (Suc d) (length vs) r s")
    case (Some p)
    obtain q s' where p: "p = (q, s')" by (cases p)
    have "stack s' = stack s \<and> stack_index s' = stack_index s" using Some p *(2) by blast
    then show ?thesis unfolding *(1) using Some p by (cases q) (simp_all add: refines_Inr)
  qed (simp add: *(1))
qed

lemma CallFunction_refines:
  assumes "holds_args (Suc d) vs s" "d < length (stack s)" "ivalue (stack s ! d) = r"
  shows "refines (\<lambda>_ v s'. stored s d v s')
    (Parser_CallFunction V nested fname (length vs) (Suc d) s) (m_call V nested fname r vs (env s))"
  unfolding Parser_CallFunction_def m_call_def
proof (rule refines_andthen, rule user_function_refines [OF assms(1,2)])
  fix found x and s' :: "'a parser"
  assume u: "case x of None \<Rightarrow> \<not> found \<and> stack s' = stack s \<and> stack_index s' = stack_index s | Some v \<Rightarrow> found \<and> stored s d v s'"
  show "refines (\<lambda>_ v s'. stored s d v s')
    ((if found then ret () else andthen (gets functions_table) (\<lambda>t. case map_find t fname of
        None \<Rightarrow> Parser_Error err_unknown_function
      | Some i \<Rightarrow> andthen (stack_value (Suc d - 1)) (\<lambda>result.
          andthen (call_pfunction i V (Suc d) (length vs) result) (\<lambda>result.
          andthen (set_stack_value (Suc d - 1) result) (\<lambda>_. modify (\<lambda>s. s\<lparr>calculated := True\<rparr>)))))) s')
    ((case x of None \<Rightarrow> andthen (gets functions_table) (\<lambda>t. case map_find t fname of
        None \<Rightarrow> throw err_unknown_function
      | Some pf \<Rightarrow> andthen (m_builtin V pf r vs) (\<lambda>v. andthen (modify (\<lambda>s. s\<lparr>calculated := True\<rparr>)) (\<lambda>_. ret v)))
      | Some v \<Rightarrow> ret v) (env s'))"
  proof (cases x)
    case (Some v)
    then show ?thesis using u by (simp add: refines_Inr)
  next
    case None
    note s' = u [unfolded None option.case]
    show ?thesis
    proof (cases "map_find (functions_table s') fname")
      case (Some pf)
      have v: "stack_value d s' = Some (Inr r, s')" using s' assms(2,3) by (simp add: stack_value_def)
      have args: "holds_args (Suc d) vs s'" using s' assms(1) by (simp add: holds_args_def)
      have "refines (\<lambda>_ v s'. stored s d v s')
        (andthen (call_pfunction pf V (Suc d) (length vs) r) (\<lambda>result. andthen (set_stack_value d result)
           (\<lambda>_. modify (\<lambda>s. s\<lparr>calculated := True\<rparr>))) s')
        (andthen (m_builtin V pf r vs) (\<lambda>v. andthen (modify (\<lambda>s. s\<lparr>calculated := True\<rparr>)) (\<lambda>_. ret v)) (env s'))"
      proof (rule refines_andthen, rule builtin_refines [OF args])
        fix y v :: 'a and t :: "'a parser"
        assume "y = v \<and> stack t = stack s' \<and> stack_index t = stack_index s'"
        then show "refines (\<lambda>_ v s'. stored s d v s')
          (andthen (set_stack_value d y) (\<lambda>_. modify (\<lambda>s. s\<lparr>calculated := True\<rparr>)) t)
          (andthen (modify (\<lambda>s. s\<lparr>calculated := True\<rparr>)) (\<lambda>_. ret v) (env t))"
          using s' assms(2) set_stack_value_stored [of d t s v] by (auto simp: refines_Inr stored_def set_stack_value_def)
      qed
      then show ?thesis using None s' Some v by (simp add: andthen_Inr [of "gets functions_table"])
    qed (use None s' in \<open>simp add: Parser_Error_def\<close>)
  qed
qed

lemma sees_set:
  assumes "sees (s\<lparr>stack_index := Suc d\<rparr>) (x # \<tau>)" "sym_of i = Some y"
    "stack s' = (stack s)[d := i]" "stack_index s' = Suc d"
  shows "sees s' (y # \<tau>)"
  using sees_update [OF assms(1) _ assms(2), of 0 s'] assms(3,4) by simp

lemma close_bracket_sees:
  assumes "sees (s\<lparr>stack_index := Suc d\<rparr>) (x # \<tau>)" "stack s' = (stack s)[d := i]" "ivalue i = v"
  shows "sees (close_bracket V (Suc d) b s') (Val (if b then v_ChangeSign V v else v) # \<tau>)"
  using assms(2,3) sees_top(2) [OF assms(1)]
  by (intro sees_set [OF assms(1)]) (auto simp: close_bracket_def Let_def sym_of_iff)

lemma env_close_bracket [simp]: "env (close_bracket V d b s) = env s"
  by (simp add: close_bracket_def Let_def)

lemma apply_bracket_refines:
  assumes "found_args s (n, index) (vs, br, \<tau>) s"
  shows "refines (\<lambda>_ \<tau>' s'. sees s' \<tau>') (apply_bracket V nested n index s)
    (andthen (m_apply V nested br vs) (\<lambda>v. ret (Val v # \<tau>)) (env s))"
proof -
  obtain b f r where br: "br = Bracket b f r" using assms by (auto simp: found_args_def)
  define d where "d = length \<tau>"
  have h: "n = length vs" "index = Suc d" "holds_args (Suc d) vs s" "sees (s\<lparr>stack_index := Suc d\<rparr>) (br # \<tau>)"
    using assms by (auto simp: found_args_def d_def)
  note top = sees_top(1,2) [OF h(4)]
  let ?i = "stack s ! d"
  have i: "isign ?i = b" "ivalue ?i = r" "f = (if ifunction ?i then Some (function_name ?i) else None)"
    using top(1) br by (simp_all add: sym_of_iff)
  let ?Q = "\<lambda>_ \<tau>' s'. sees s' \<tau>'"
  show ?thesis
  proof (cases f)
    case (Some fname)
    then have f: "ifunction ?i" "function_name ?i = fname" using i(3) by (simp_all split: if_splits)
    have "refines ?Q (andthen (Parser_CallFunction V nested fname (length vs) (Suc d)) (\<lambda>_. modify (close_bracket V (Suc d) b)) s)
      (andthen (m_call V nested fname r vs) (\<lambda>v. ret (Val (if b then v_ChangeSign V v else v) # \<tau>)) (env s))"
    proof (rule refines_andthen, rule CallFunction_refines [OF h(3) top(2) i(2)])
      fix x v and s' :: "'a parser"
      assume "stored s d v s'"
      then have "sees (close_bracket V (Suc d) b s') (Val (if b then v_ChangeSign V v else v) # \<tau>)"
        by (intro close_bracket_sees [OF h(4)]) (auto simp: stored_def)
      then show "refines ?Q (modify (close_bracket V (Suc d) b) s') (ret (Val (if b then v_ChangeSign V v else v) # \<tau>) (env s'))"
        by (simp add: refines_Inr)
    qed
    moreover have "apply_bracket V nested n index s =
        andthen (Parser_CallFunction V nested fname (length vs) (Suc d)) (\<lambda>_. modify (close_bracket V (Suc d) b)) s"
      using f h(1,2) i by (simp add: apply_bracket_def)
    moreover have "andthen (m_apply V nested br vs) (\<lambda>v. ret (Val v # \<tau>)) =
        andthen (m_call V nested fname r vs) (\<lambda>v. ret (Val (if b then v_ChangeSign V v else v) # \<tau>))"
      using Some by (simp add: br andthen_assoc del: ret_apply)
    ultimately show ?thesis by (simp only:)
  next
    case None
    then have f: "\<not> ifunction ?i" using i(3) by (simp split: if_splits)
    show ?thesis
    proof (cases "length vs = 1")
      case False
      then show ?thesis using f h(1,2) None by (cases "vs = []") (simp_all add: apply_bracket_def br andthen_def)
    next
      case True
      then obtain v where v: "vs = [v]" by (auto simp: length_Suc_conv)
      then have a: "Suc d < length (stack s)" "ivalue (stack s ! Suc d) = v"
        using h(3) by (simp_all add: holds_args_Cons)
      have "sees (close_bracket V (Suc d) b (s\<lparr>stack := (stack s)[d := stack s ! Suc d]\<rparr>))
          (Val (if b then v_ChangeSign V v else v) # \<tau>)"
        using a by (intro close_bracket_sees [OF h(4)]) simp_all
      then show ?thesis
        using f h(1,2) None v i(1) by (simp add: apply_bracket_def br andthen_def refines_Inr)
    qed
  qed
qed

lemma RollingUpFinalBracket_refines:
  assumes "sees s \<tau>"
  shows "refines (\<lambda>_ \<tau>' s'. sees s' \<tau>') (Parser_RollingUpFinalBracket V nested s) (m_final_bracket V nested \<tau> (env s))"
proof (cases "\<exists>x \<in> set (take 1 \<tau>). kind x \<in> {numerical_value, first_bracket}")
  case False
  then have "map kind (take (Suc 0) \<tau>) \<noteq> [numerical_value]" "map kind (take (Suc 0) \<tau>) \<noteq> [first_bracket]"
    by (auto simp: map_eq_Cons_conv)
  then have "Parser_RollingUpFinalBracket V nested s = Some (Inl err_unexpected_final_bracket, s)"
    by (simp add: Parser_RollingUpFinalBracket_def top_types_sees [OF assms] andthen_def)
  with False show ?thesis by (simp add: m_final_bracket_def andthen_def)
next
  case True
  then have t: "map kind (take (Suc 0) \<tau>) = [numerical_value] \<or> map kind (take (Suc 0) \<tau>) = [first_bracket]"
    by (cases \<tau>) auto
  have "Parser_RollingUpFinalBracket V nested s = andthen (Parser_TryRollingUpStack V) (\<lambda>_.
      andthen Parser_HowManyParameters (\<lambda>(n, index). apply_bracket V nested n index)) s"
    using t by (auto simp: Parser_RollingUpFinalBracket_def top_types_sees [OF assms] andthen_def)
  moreover have "m_final_bracket V nested \<tau> (env s) = andthen (m_roll V \<tau>) (\<lambda>\<tau>.
      andthen (m_parameters \<tau>) (\<lambda>(vs, br, \<tau>). andthen (m_apply V nested br vs) (\<lambda>v. ret (Val v # \<tau>)))) (env s)"
    using True by (simp add: m_final_bracket_def andthen_def)
  moreover have "refines (\<lambda>_ \<tau>' s'. sees s' \<tau>')
      (andthen Parser_HowManyParameters (\<lambda>(n, index). apply_bracket V nested n index) s')
      (andthen (m_parameters \<tau>') (\<lambda>(vs, br, \<tau>). andthen (m_apply V nested br vs) (\<lambda>v. ret (Val v # \<tau>))) (env s'))"
    if "sees s' \<tau>'" for \<tau>' and s' :: "'a parser"
  proof (rule refines_andthen, rule HowManyParameters_refines [OF that])
    fix p q and t :: "'a parser"
    assume "found_args s' p q t"
    then have "found_args t p q t" "s' = t" by (auto simp: found_args_def split: prod.splits)
    then show "refines (\<lambda>_ \<tau>' s'. sees s' \<tau>') ((case p of (n, index) \<Rightarrow> apply_bracket V nested n index) t)
      ((case q of (vs, br, \<tau>) \<Rightarrow> andthen (m_apply V nested br vs) (\<lambda>v. ret (Val v # \<tau>))) (env t))"
      using apply_bracket_refines by (cases p; cases q) fastforce
  qed
  ultimately show ?thesis
    by (simp only:) (rule refines_andthen, rule TryRollingUpStack_refines [OF assms])
qed

section \<open>The program implements the machine: the loop\<close>

lemma OperatorPercentage_refines:
  assumes "sees s \<tau>"
  shows "refines (\<lambda>_ \<tau>' s'. sees s' \<tau>') (Parser_OperatorPercentage V s) (m_percent V \<tau> (env s))"
proof (cases "\<exists>b m a \<tau>'. \<tau> = Val b # Op m # Val a # \<tau>'")
  case False
  then have "map kind (take 3 \<tau>) \<noteq> [numerical_value, mat_operator, numerical_value]"
    by (auto simp: map_eq_Cons_conv elim!: kind.elims) (metis append_Cons append_Nil append_take_drop_id)
  moreover have "m_percent V \<tau> = throw err_percent_from"
    using False by (cases "(V, \<tau>)" rule: m_percent.cases) auto
  ultimately show ?thesis
    using top_types_sees [OF assms, of "[numerical_value, mat_operator, numerical_value]"]
    by (simp add: Parser_OperatorPercentage_def andthen_def numeral_3_eq_3)
next
  case True
  then obtain b m a \<tau>' where \<tau>: "\<tau> = Val b # Op m # Val a # \<tau>'" by blast
  let ?rest = "andthen (top_item 1) (\<lambda>i.
     andthen (from_option (v_Div V (ivalue i) (v_of_int V 100))) (\<lambda>(c, v).
     andthen (top_item 3) (\<lambda>j.
     andthen (from_option (v_Mul V v (ivalue j))) (\<lambda>(d, v).
     andthen (set_top_item 1 (\<lambda>i. i\<lparr>ivalue := v\<rparr>)) (\<lambda>_.
     throw_if (c + d \<noteq> 0) err_overflow)))))"
  let ?m = "andthen (from_option (v_Div V b (v_of_int V 100))) (\<lambda>(c, v).
     andthen (from_option (v_Mul V v a)) (\<lambda>(d, v).
     andthen (throw_if (c + d \<noteq> 0) err_overflow) (\<lambda>_.
     ret (Val v # Op m # Val a # \<tau>'))))"
  have "Parser_OperatorPercentage V s = andthen advance (\<lambda>_. andthen Parser_SkipWhiteCharacters (\<lambda>_. ?rest)) s"
    using top_types_sees [OF assms, of "[numerical_value, mat_operator, numerical_value]"]
    by (simp add: Parser_OperatorPercentage_def \<tau> andthen_Inr [of "throw_if False _"])
  moreover have r: "refines (\<lambda>_ \<tau>' s'. sees s' \<tau>') (?rest s') (?m (env s'))" if s': "sees s' \<tau>" for s' :: "'a parser"
  proof -
    obtain i where i: "top_item (Suc 0) s' = Some (Inr i, s')" "ivalue i = b"
      using top_item_sees [OF s', of 0] by (auto simp: \<tau> sym_of_iff)
    obtain j where j: "top_item (Suc (Suc (Suc 0))) s' = Some (Inr j, s')" "ivalue j = a"
      using top_item_sees [OF s', of "Suc (Suc 0)"] by (auto simp: \<tau> sym_of_iff)
    have set: "\<exists>t. set_top_item (Suc 0) (\<lambda>i. i\<lparr>ivalue := v\<rparr>) s' = Some (Inr (), t) \<and>
        sees t (Val v # Op m # Val a # \<tau>') \<and> env t = env s'" for v
      using set_top_item_sees [OF s', of 0 "\<lambda>i. i\<lparr>ivalue := v\<rparr>" "Val v"] by (auto simp: \<tau> sym_of_iff)
    show ?thesis
    proof (cases "v_Div V b (v_of_int V 100)")
      case (Some p)
      obtain c v where p: "p = (c, v)" by (cases p)
      show ?thesis
      proof (cases "v_Mul V v a")
        case (Some q)
        obtain d w where q: "q = (d, w)" by (cases q)
        obtain t where "set_top_item (Suc 0) (\<lambda>i. i\<lparr>ivalue := w\<rparr>) s' = Some (Inr (), t)"
          "sees t (Val w # Op m # Val a # \<tau>')" "env t = env s'" using set by blast
        then show ?thesis
          using i j Some \<open>v_Div V b _ = Some p\<close> p q
          by (cases "c + d = 0") (simp_all add: numeral_3_eq_3 refines_Inr andthen_def)
      qed (use i Some p j in \<open>simp add: andthen_def\<close>)
    qed (simp add: andthen_def)
  qed
  moreover have "refines (\<lambda>_ \<tau>' s'. sees s' \<tau>') (andthen advance (\<lambda>_. andthen Parser_SkipWhiteCharacters (\<lambda>_. ?rest)) s)
      (andthen advance (\<lambda>_. andthen Parser_SkipWhiteCharacters (\<lambda>_. ?m)) (env s))"
    by (intro refines_frame frame_intros r) (rule sees_cong [OF assms]; simp)
  ultimately show ?thesis by (simp only: \<tau> m_percent.simps)
qed

lemma ReadOperator_refines:
  assumes "sees s \<tau>"
  shows "refines (\<lambda>(code, item) (code', item', \<tau>') s'. code = code' \<and> item = item' \<and> sees s' \<tau>')
    (Parser_ReadOperator V item s) (m_read_operator V item \<tau> (env s))"
  unfolding Parser_ReadOperator_def m_read_operator_def
proof (intro refines_frame frame_intros)
  fix c and s1 s2 :: "'a parser"
  assume "stack s1 = stack s" "stack_index s1 = stack_index s" "stack s2 = stack s1" "stack_index s2 = stack_index s1"
  then have s2: "sees s2 \<tau>" using sees_cong [OF assms] by simp
  let ?Q = "\<lambda>(code, item) (code', item', \<tau>') s'. code = code' \<and> item = item' \<and> sees s' \<tau>'"
  show "refines ?Q (andthen (if c = char_int CHR ''%'' then Parser_OperatorPercentage V else ret ()) (\<lambda>_. andthen peek (\<lambda>c.
     andthen (gets param_sep) (\<lambda>sep.
     if c = 0 then ret (1, item)
     else if c = char_int CHR '')''
     then andthen advance (\<lambda>_. ret (0, item\<lparr>itype := last_bracket\<rparr>))
     else if c = char_int CHR '';'' \<or> (sep \<noteq> 0 \<and> c = sep)
     then andthen advance (\<lambda>_. ret (0, item\<lparr>itype := semicolon\<rparr>))
     else if is_small c \<or> is_big c
     then andthen (MatOperator_SetType (moperator item) mat_shortmul) (\<lambda>m.
          ret (0, item\<lparr>itype := mat_operator, moperator := m\<rparr>))
     else andthen (Parser_ReadMathematicalOperator item) (\<lambda>result. ret (0, result))))) s2)
    (andthen (if c = char_int CHR ''%'' then m_percent V \<tau> else ret \<tau>) (\<lambda>\<tau>. andthen peek (\<lambda>c.
     andthen (gets param_sep) (\<lambda>sep.
     if c = 0 then ret (1, item, \<tau>)
     else if c = char_int CHR '')''
     then andthen advance (\<lambda>_. ret (0, item\<lparr>itype := last_bracket\<rparr>, \<tau>))
     else if c = char_int CHR '';'' \<or> (sep \<noteq> 0 \<and> c = sep)
     then andthen advance (\<lambda>_. ret (0, item\<lparr>itype := semicolon\<rparr>, \<tau>))
     else if is_small c \<or> is_big c
     then andthen (MatOperator_SetType (moperator item) mat_shortmul) (\<lambda>m.
          ret (0, item\<lparr>itype := mat_operator, moperator := m\<rparr>, \<tau>))
     else andthen (Parser_ReadMathematicalOperator item) (\<lambda>item. ret (0, item, \<tau>))))) (env s2))"
  proof (rule refines_andthen [where R = "\<lambda>_ \<tau>' s'. sees s' \<tau>'"])
    show "refines (\<lambda>_ \<tau>' s'. sees s' \<tau>') ((if c = char_int CHR ''%'' then Parser_OperatorPercentage V else ret ()) s2)
        ((if c = char_int CHR ''%'' then m_percent V \<tau> else ret \<tau>) (env s2))"
      using OperatorPercentage_refines [OF s2] s2 by (simp add: refines_Inr)
  qed (auto intro!: refines_frame frame_intros simp: refines_Inr put_def sees_cong split del: if_split
      split: if_split)
qed

lemma refines_iff: "refines Q c a \<longleftrightarrow> (\<forall>y. a = Some y \<longrightarrow> refines Q c (Some y))"
  by (cases a) simp_all

lemma operator_refines:
  assumes "sees s \<tau>"
  shows "refines (\<lambda>(code, item) (code', item', \<tau>') s'. code = code' \<and> item = item' \<and> sees s' \<tau>')
    (Parser_ReadOperatorAndCheckFinalBracket V nested item s) (m_operator V nested item \<tau> (env s))"
proof -
  let ?Q = "\<lambda>(code, item) (code', item', \<tau>') s'. code = code' \<and> item = item' \<and> sees s' \<tau>'"
  have "\<forall>s. sees s \<tau> \<and> env s = \<epsilon> \<longrightarrow> refines ?Q (Parser_ReadOperatorAndCheckFinalBracket V nested item s) (Some y)"
    if "m_operator V nested item \<tau> \<epsilon> = Some y" for \<epsilon> y
  proof (rule m_operator.raw_induct [where P = "\<lambda>V nested item \<tau> \<epsilon> y. \<forall>s. sees s \<tau> \<and> env s = \<epsilon> \<longrightarrow>
      refines ?Q (Parser_ReadOperatorAndCheckFinalBracket V nested item s) (Some y)", OF _ that])
    fix f V nested and item :: "'a item" and \<tau> and \<epsilon> :: "'a parser" and y
    assume 1: "\<And>V nested item \<tau> \<epsilon> y. f V nested item \<tau> \<epsilon> = Some y \<Longrightarrow> \<forall>s. sees s \<tau> \<and> env s = \<epsilon> \<longrightarrow>
        refines ?Q (Parser_ReadOperatorAndCheckFinalBracket V nested item s) (Some y)"
      "andthen (m_read_operator V item \<tau>) (\<lambda>(code, item, \<tau>).
           if code = 1 then ret (1, item, \<tau>)
           else if itype item = last_bracket then andthen (m_final_bracket V nested \<tau>) (f V nested item)
           else ret (0, item, \<tau>)) \<epsilon> = Some y"
    have IH: "refines ?Q (Parser_ReadOperatorAndCheckFinalBracket V nested item s) (f V nested item \<tau> (env s))"
      if "sees s \<tau>" for item \<tau> s
      using 1(1) that by (subst refines_iff) blast
    have step: "refines ?Q (andthen (Parser_RollingUpFinalBracket V nested) (\<lambda>_. Parser_ReadOperatorAndCheckFinalBracket V nested item) s)
        (andthen (m_final_bracket V nested \<tau>) (f V nested item) (env s))" if "sees s \<tau>" for item \<tau> s
      by (rule refines_andthen, rule RollingUpFinalBracket_refines [OF that], rule IH)
    show "\<forall>s. sees s \<tau> \<and> env s = \<epsilon> \<longrightarrow> refines ?Q (Parser_ReadOperatorAndCheckFinalBracket V nested item s) (Some y)"
    proof (intro allI impI)
      fix s assume s: "sees s \<tau> \<and> env s = \<epsilon>"
      have "refines ?Q (Parser_ReadOperatorAndCheckFinalBracket V nested item s)
        (andthen (m_read_operator V item \<tau>) (\<lambda>(code, item, \<tau>).
           if code = 1 then ret (1, item, \<tau>)
           else if itype item = last_bracket then andthen (m_final_bracket V nested \<tau>) (f V nested item)
           else ret (0, item, \<tau>)) (env s))"
        using s step
        by (subst Parser_ReadOperatorAndCheckFinalBracket.simps)
          (rule refines_andthen, rule ReadOperator_refines, auto simp: refines_Inr)
      then show "refines ?Q (Parser_ReadOperatorAndCheckFinalBracket V nested item s) (Some y)"
        using 1(2) s by simp
    qed
  qed
  then show ?thesis using assms by (subst refines_iff) blast
qed

lemma CheckIntegrity_sees:
  assumes "sees s \<tau>"
  shows "Parser_CheckIntegrityOfStack s =
    throw_if (\<not> (\<forall>x \<in> set \<tau>. kind x \<in> {numerical_value, semicolon})) err_stack_not_clear s"
proof -
  have "map kind \<tau> = map itype (rev (take (stack_index s) (stack s)))"
  proof (rule nth_equalityI)
    fix i assume "i < length (map kind \<tau>)"
    then show "map kind \<tau> ! i = map itype (rev (take (stack_index s) (stack s))) ! i"
      using sees_nth [OF assms, of i] sees_length [OF assms] assms by (simp add: sees_def rev_nth kind_sym_of)
  qed (use assms sees_length [OF assms] in \<open>simp add: sees_def\<close>)
  then have "kind ` set \<tau> = itype ` set (take (stack_index s) (stack s))"
    by (metis image_set set_rev)
  moreover have "(\<forall>x \<in> set \<tau>. kind x \<in> {numerical_value, semicolon}) \<longleftrightarrow> kind ` set \<tau> \<subseteq> {numerical_value, semicolon}"
    by auto
  moreover have "list_all (\<lambda>i. itype i = numerical_value \<or> itype i = semicolon) st \<longleftrightarrow>
      itype ` set st \<subseteq> {numerical_value, semicolon}" for st :: "'a item list"
    by (auto simp: list_all_iff)
  ultimately have "(\<forall>x \<in> set \<tau>. kind x \<in> {numerical_value, semicolon}) \<longleftrightarrow>
      list_all (\<lambda>i. itype i = numerical_value \<or> itype i = semicolon) (take (stack_index s) (stack s))"
    by simp
  then show ?thesis by (simp add: Parser_CheckIntegrityOfStack_def)
qed

definition after_operator :: "'v value_type \<Rightarrow> int \<Rightarrow> 'v item \<Rightarrow> ('v parser, bool \<times> 'v item) action" where
  "after_operator V result_code item =
     andthen (if result_code = 1 \<or> itype item = semicolon
       then andthen (gets stack_index) (\<lambda>n.
            andthen (throw_if (n = 0) err_nothing_has_read) (\<lambda>_.
            Parser_TryRollingUpStack V))
       else ret ()) (\<lambda>_.
     if result_code = 1
     then andthen Parser_CheckIntegrityOfStack (\<lambda>_. ret (True, item))
     else andthen (Parser_PushOperatorIntoStack item) (\<lambda>_.
          andthen (Parser_TryRollingUpStackWithOperatorPriority V) (\<lambda>_.
          ret (False, item))))"

lemma after_operator_refines:
  assumes "sees s \<tau>"
  shows "refines (\<lambda>(fin, item) (fin', item', \<tau>') s'. fin = fin' \<and> item = item' \<and> sees s' \<tau>')
    (after_operator V code item s) (m_after_operator V code item \<tau> (env s))"
  unfolding after_operator_def m_after_operator_def
proof (rule refines_andthen [where R = "\<lambda>_ \<tau>' s'. sees s' \<tau>'"])
  show "refines (\<lambda>_ \<tau>' s'. sees s' \<tau>')
    ((if code = 1 \<or> itype item = semicolon
       then andthen (gets stack_index) (\<lambda>n. andthen (throw_if (n = 0) err_nothing_has_read) (\<lambda>_. Parser_TryRollingUpStack V))
       else ret ()) s)
    ((if code = 1 \<or> itype item = semicolon
       then andthen (throw_if (\<tau> = []) err_nothing_has_read) (\<lambda>_. m_roll V \<tau>) else ret \<tau>) (env s))"
    using TryRollingUpStack_refines [OF assms] assms sees_length [OF assms]
    by (cases "\<tau> = []") (simp_all add: refines_Inr)
  fix x :: unit and \<tau>' and s' :: "'a parser"
  assume s': "sees s' \<tau>'"
  let ?Q = "\<lambda>(fin, item) (fin', item', \<tau>') s'. fin = fin' \<and> item = item' \<and> sees s' \<tau>'"
  show "refines ?Q ((if code = 1 then andthen Parser_CheckIntegrityOfStack (\<lambda>_. ret (True, item))
      else andthen (Parser_PushOperatorIntoStack item) (\<lambda>_.
           andthen (Parser_TryRollingUpStackWithOperatorPriority V) (\<lambda>_. ret (False, item)))) s')
    ((if code = 1 then andthen (throw_if (\<not> (\<forall>x \<in> set \<tau>'. kind x \<in> {numerical_value, semicolon})) err_stack_not_clear)
        (\<lambda>_. ret (True, item, \<tau>'))
      else andthen (from_option (sym_of item)) (\<lambda>x. andthen (m_roll_priority V (x # \<tau>')) (\<lambda>\<tau>. ret (False, item, \<tau>)))) (env s'))"
  proof (cases "code = 1")
    case True
    then show ?thesis
      using s' CheckIntegrity_sees [OF s']
      by (cases "\<forall>x \<in> set \<tau>'. kind x \<in> {numerical_value, semicolon}")
        (simp_all only: andthen_def throw_if_def if_True if_False not_True_eq_False not_False_eq_True
          ret_apply throw_apply bind.simps prod.case sum.case refines_Inr refines_Inl, auto simp: refines_Inr)
  next
    case False
    show ?thesis
    proof (cases "sym_of item")
      case (Some x)
      obtain t where t: "Parser_PushOperatorIntoStack item s' = Some (Inr (), t)" "sees t (x # \<tau>')" "env t = env s'"
        using push_refines [OF s' Some] .
      have "refines ?Q (andthen (Parser_TryRollingUpStackWithOperatorPriority V) (\<lambda>_. ret (False, item)) t)
        (andthen (m_roll_priority V (x # \<tau>')) (\<lambda>\<tau>. ret (False, item, \<tau>)) (env t))"
        by (rule refines_andthen, rule RollingWithPriority_refines [OF t(2)]) (simp add: refines_Inr)
      then show ?thesis using False Some t by simp
    qed (use False in simp)
  qed
qed

lemma frame_stop [frame_intros]: "frame m_stop"
  unfolding m_stop_def Let_def by (intro frame_intros; simp add: put_def)

lemma iteration_refines:
  assumes "sees s \<tau>"
  shows "refines (\<lambda>(fin, item) (fin', item', \<tau>') s'. fin = fin' \<and> item = item' \<and> sees s' \<tau>')
    (Parse_iteration V nested item s) (m_iteration V nested item \<tau> (env s))"
proof -
  let ?Q = "\<lambda>(fin, item) (fin', item', \<tau>') s'. fin = fin' \<and> item = item' \<and> sees s' \<tau>'"
  let ?c = "\<lambda>code item. if code = 0 \<and> itype item = first_bracket then ret (False, item)
     else andthen (if code = 0 then Parser_ReadOperatorAndCheckFinalBracket V nested item else ret (code, item))
          (\<lambda>(code, item). after_operator V code item)"
  let ?a = "\<lambda>code item \<tau>. if (code = 0 \<or> code = 2) \<and> itype item = first_bracket then ret (False, item, \<tau>)
     else andthen (if code = 0 \<or> code = 2 then m_operator V nested item \<tau> else ret (code, item, \<tau>))
          (\<lambda>(code, item, \<tau>). m_after_operator V code item \<tau>)"
  have c: "Parse_iteration V nested item = andthen m_stop (\<lambda>_.
     andthen (Parser_ReadValueVariableOrFunction V nested item) (\<lambda>(code, item).
     andthen (if code = 0 then Parser_PushOperatorIntoStack item else ret ()) (\<lambda>_.
     ?c (if code = 2 then 0 else code) item)))"
    unfolding Parse_iteration_def m_stop_def Parser_ReadValueVariableOrFunctionAndPushItIntoStack_def
      Parser_PushOperatorIntoStack_def after_operator_def
    by (simp only: andthen_assoc split_def fst_conv snd_conv andthen_ret)
  have rest: "refines ?Q (?c (if code = 2 then 0 else code) item s') (?a code item \<tau>' (env s'))"
    if s': "sees s' \<tau>'" for code item \<tau>' and s' :: "'a parser"
  proof (cases "(code = 0 \<or> code = 2) \<and> itype item = first_bracket")
    case True
    then show ?thesis using s' by (cases "code = 2") (simp_all add: refines_Inr)
  next
    case False
    have "refines ?Q (andthen (if code = 0 \<or> code = 2 then Parser_ReadOperatorAndCheckFinalBracket V nested item else ret (code, item))
        (\<lambda>(code, item). after_operator V code item) s')
      (andthen (if code = 0 \<or> code = 2 then m_operator V nested item \<tau>' else ret (code, item, \<tau>'))
        (\<lambda>(code, item, \<tau>). m_after_operator V code item \<tau>) (env s'))"
      by (rule refines_andthen [where R = "\<lambda>(code, item) (code', item', \<tau>') s'. code = code' \<and> item = item' \<and> sees s' \<tau>'"])
        (use operator_refines [OF s'] s' after_operator_refines in \<open>auto simp: refines_Inr\<close>)
    then show ?thesis using False by (cases "code = 2"; cases "code = 0") simp_all
  qed
  show ?thesis
    unfolding c m_iteration_def
  proof (intro refines_frame frame_intros)
    fix p :: "int \<times> 'a item" and s1 s2 :: "'a parser"
    assume "stack s1 = stack s" "stack_index s1 = stack_index s" "stack s2 = stack s1" "stack_index s2 = stack_index s1"
    then have s2: "sees s2 \<tau>" using sees_cong [OF assms] by simp
    obtain code item where p: "p = (code, item)" by (cases p)
    have "refines ?Q (andthen (if code = 0 then Parser_PushOperatorIntoStack item else ret ()) (\<lambda>_. ?c (if code = 2 then 0 else code) item) s2)
      (andthen (if code = 0 then andthen (from_option (sym_of item)) (\<lambda>x. ret (x # \<tau>)) else ret \<tau>) (\<lambda>\<tau>. ?a code item \<tau>) (env s2))"
    proof (rule refines_andthen [where R = "\<lambda>_ \<tau>' s'. sees s' \<tau>'"])
      show "refines (\<lambda>_ \<tau>' s'. sees s' \<tau>') ((if code = 0 then Parser_PushOperatorIntoStack item else ret ()) s2)
        ((if code = 0 then andthen (from_option (sym_of item)) (\<lambda>x. ret (x # \<tau>)) else ret \<tau>) (env s2))"
      proof (cases "sym_of item")
        case (Some x)
        obtain t where "Parser_PushOperatorIntoStack item s2 = Some (Inr (), t)" "sees t (x # \<tau>)" "env t = env s2"
          using push_refines [OF s2 Some] .
        then show ?thesis using s2 Some by (simp add: refines_Inr)
      qed (use s2 in \<open>simp add: refines_Inr\<close>)
    qed (rule rest)
    then show "refines ?Q ((case p of (code, item) \<Rightarrow> andthen (if code = 0 then Parser_PushOperatorIntoStack item else ret ())
        (\<lambda>_. ?c (if code = 2 then 0 else code) item)) s2)
      ((case p of (code, item) \<Rightarrow> andthen (if code = 0 then andthen (from_option (sym_of item)) (\<lambda>x. ret (x # \<tau>)) else ret \<tau>)
        (\<lambda>\<tau>. ?a code item \<tau>)) (env s2))"
      by (simp only: p prod.case)
  qed
qed

lemma Parse_loop_refines:
  assumes "sees s \<tau>"
  shows "refines (\<lambda>_ \<tau>' s'. sees s' \<tau>') (Parse_loop V nested item s) (m_loop V nested item \<tau> (env s))"
proof -
  have "\<forall>s. sees s \<tau> \<and> env s = \<epsilon> \<longrightarrow> refines (\<lambda>_ \<tau>' s'. sees s' \<tau>') (Parse_loop V nested item s) (Some y)"
    if "m_loop V nested item \<tau> \<epsilon> = Some y" for \<epsilon> y
  proof (rule m_loop.raw_induct [where P = "\<lambda>V nested item \<tau> \<epsilon> y. \<forall>s. sees s \<tau> \<and> env s = \<epsilon> \<longrightarrow>
      refines (\<lambda>_ \<tau>' s'. sees s' \<tau>') (Parse_loop V nested item s) (Some y)", OF _ that])
    fix f V nested and item :: "'a item" and \<tau> and \<epsilon> :: "'a parser" and y
    assume 1: "\<And>V nested item \<tau> \<epsilon> y. f V nested item \<tau> \<epsilon> = Some y \<Longrightarrow> \<forall>s. sees s \<tau> \<and> env s = \<epsilon> \<longrightarrow>
        refines (\<lambda>_ \<tau>' s'. sees s' \<tau>') (Parse_loop V nested item s) (Some y)"
      "andthen (m_iteration V nested item \<tau>) (\<lambda>(finished, item, \<tau>).
           if finished then ret \<tau> else f V nested item \<tau>) \<epsilon> = Some y"
    have IH: "refines (\<lambda>_ \<tau>' s'. sees s' \<tau>') (Parse_loop V nested item s) (f V nested item \<tau> (env s))"
      if "sees s \<tau>" for item \<tau> s
      using 1(1) that by (subst refines_iff) blast
    show "\<forall>s. sees s \<tau> \<and> env s = \<epsilon> \<longrightarrow> refines (\<lambda>_ \<tau>' s'. sees s' \<tau>') (Parse_loop V nested item s) (Some y)"
    proof (intro allI impI)
      fix s assume s: "sees s \<tau> \<and> env s = \<epsilon>"
      have "refines (\<lambda>_ \<tau>' s'. sees s' \<tau>') (Parse_loop V nested item s)
        (andthen (m_iteration V nested item \<tau>) (\<lambda>(finished, item, \<tau>).
           if finished then ret \<tau> else f V nested item \<tau>) (env s))"
        using s IH
        by (subst Parse_loop.simps)
          (rule refines_andthen, rule iteration_refines, auto simp: refines_Inr)
      then show "refines (\<lambda>_ \<tau>' s'. sees s' \<tau>') (Parse_loop V nested item s) (Some y)"
        using 1(2) s by simp
    qed
  qed
  then show ?thesis using assms by (subst refines_iff) blast
qed

end
