(* ===== verification/Parser_Safety.thy ===== *)
theory Parser_Safety
  imports Parser_Machine
begin

text \<open>
  What the steps of the machine keep. What is asked of the template argument is \<open>value_type_ok\<close>; an
  action that \<open>keeps\<close> the parser changes neither its settings nor its tables, moves the pointer into
  the string only forward and throws no error that is internal to the parser (\<open>ok_error\<close>).
  The invariant of the stack is \<open>operand_pos\<close>, a stack on which an operand may follow, and
  \<open>operator_pos\<close>, the same with a value on top.
\<close>

definition ok_error :: "error_code \<Rightarrow> bool" where
  "ok_error e \<longleftrightarrow> e \<noteq> err_ok \<and> e \<noteq> err_internal_error"

text \<open>
  The methods of the template argument do not fail assertions, their error codes are not
  \<^verbatim>\<open>err_internal_error\<close>, and \<^verbatim>\<open>FromString\<close> leaves a pointer into the string, behind at least one
  character when it has read a value.
\<close>

definition value_total :: "'v value_type \<Rightarrow> bool" where
  "value_total V \<longleftrightarrow>
     (\<forall>x y. v_Add V x y \<noteq> None \<and> v_Sub V x y \<noteq> None \<and> v_Mul V x y \<noteq> None \<and> v_Div V x y \<noteq> None \<and>
       v_Pow V x y \<noteq> None \<and> v_Mod V x y \<noteq> None \<and> v_BitAnd V x y \<noteq> None \<and> v_BitOr V x y \<noteq> None \<and>
       v_BitXor V x y \<noteq> None \<and> v_Round V x \<noteq> None \<and> v_RemainFraction V x \<noteq> None) \<and>
     (\<forall>f x. v_plain V f x \<noteq> None) \<and>
     (\<forall>f x. v_function1 V f x \<noteq> None) \<and> (\<forall>f x y. v_function2 V f x y \<noteq> None) \<and>
     (\<forall>f x y z. v_function3 V f x y z \<noteq> None) \<and>
     (\<forall>x g st. v_Gamma V x g st \<noteq> None \<and> v_Factorial V x g st \<noteq> None) \<and>
     (\<forall>x p c. v_FromString V x p c \<noteq> None)"

definition value_codes :: "'v value_type \<Rightarrow> bool" where
  "value_codes V \<longleftrightarrow>
     (\<forall>f x v e. v_function1 V f x = Some (v, e) \<longrightarrow> e \<noteq> err_internal_error) \<and>
     (\<forall>f x y v e. v_function2 V f x y = Some (v, e) \<longrightarrow> e \<noteq> err_internal_error) \<and>
     (\<forall>f x y z v e. v_function3 V f x y z = Some (v, e) \<longrightarrow> e \<noteq> err_internal_error) \<and>
     (\<forall>x g st v e g' st'. v_Gamma V x g st = Some (v, e, g', st') \<longrightarrow> e \<noteq> err_internal_error) \<and>
     (\<forall>x g st v e g' st'. v_Factorial V x g st = Some (v, e, g', st') \<longrightarrow> e \<noteq> err_internal_error)"

definition value_reads :: "'v value_type \<Rightarrow> bool" where
  "value_reads V \<longleftrightarrow>
     (\<forall>x p c carry v r b. v_FromString V x p c = Some (carry, v, r, b) \<longrightarrow> (\<exists>u. p = u @ r \<and> (b \<longrightarrow> u \<noteq> [])))"

definition value_type_ok :: "'v value_type \<Rightarrow> bool" where
  "value_type_ok V \<longleftrightarrow> value_total V \<and> value_codes V \<and> value_reads V"

lemma value_type_ok_total:
  assumes "value_type_ok V"
  shows "v_Add V x y \<noteq> None" "v_Sub V x y \<noteq> None" "v_Mul V x y \<noteq> None" "v_Div V x y \<noteq> None" "v_Pow V x y \<noteq> None"
    "v_Mod V x y \<noteq> None" "v_BitAnd V x y \<noteq> None" "v_BitOr V x y \<noteq> None" "v_BitXor V x y \<noteq> None"
    "v_Round V x \<noteq> None" "v_RemainFraction V x \<noteq> None" "v_plain V f0 x \<noteq> None"
    "v_function1 V f1 x \<noteq> None" "v_function2 V f2 x y \<noteq> None" "v_function3 V f3 x y z \<noteq> None"
    "v_Gamma V x g st \<noteq> None" "v_Factorial V x g st \<noteq> None" "v_FromString V x p cv \<noteq> None"
  using assms unfolding value_type_ok_def value_total_def by (simp_all only: simp_thms not_False_eq_True)

lemma value_type_ok_codes:
  assumes "value_type_ok V"
  shows "v_function1 V f1 x = Some (v, e) \<Longrightarrow> e \<noteq> err_internal_error"
    "v_function2 V f2 x y = Some (v, e) \<Longrightarrow> e \<noteq> err_internal_error"
    "v_function3 V f3 x y z = Some (v, e) \<Longrightarrow> e \<noteq> err_internal_error"
    "v_Gamma V x g st = Some (v, e, g', st') \<Longrightarrow> e \<noteq> err_internal_error"
    "v_Factorial V x g st = Some (v, e, g', st') \<Longrightarrow> e \<noteq> err_internal_error"
proof -
  have "value_codes V" using assms by (simp add: value_type_ok_def)
  note * = this [unfolded value_codes_def]
  show "v_function1 V f1 x = Some (v, e) \<Longrightarrow> e \<noteq> err_internal_error" using * by metis
  show "v_function2 V f2 x y = Some (v, e) \<Longrightarrow> e \<noteq> err_internal_error" using * by metis
  show "v_function3 V f3 x y z = Some (v, e) \<Longrightarrow> e \<noteq> err_internal_error" using * by metis
  show "v_Gamma V x g st = Some (v, e, g', st') \<Longrightarrow> e \<noteq> err_internal_error" using * by metis
  show "v_Factorial V x g st = Some (v, e, g', st') \<Longrightarrow> e \<noteq> err_internal_error" using * by metis
qed

section \<open>What the actions keep\<close>

definition fixed :: "'v parser \<Rightarrow> 'v parser" where
  "fixed s = (env s)\<lparr>pstring := [], calculated := False, cgamma := CGamma_new, pstop_calculating := None\<rparr>"

lemma fixed_updates [simp]:
  "fixed (s\<lparr>stack := st\<rparr>) = fixed s" "fixed (s\<lparr>stack_index := n\<rparr>) = fixed s"
  "fixed (s\<lparr>pstring := p\<rparr>) = fixed s" "fixed (s\<lparr>calculated := b\<rparr>) = fixed s"
  "fixed (s\<lparr>cgamma := g\<rparr>) = fixed s" "fixed (s\<lparr>pstop_calculating := x\<rparr>) = fixed s"
  "fixed (env s) = fixed s" "fixed (put st n s) = fixed s"
  by (simp_all add: fixed_def env_def put_def)

lemma fixed_fields:
  assumes "fixed s = fixed t"
  shows "operators_table s = operators_table t" "puser_variables s = puser_variables t"
    "puser_functions s = puser_functions t" "visited_variables s = visited_variables t"
    "visited_functions s = visited_functions t" "param_sep s = param_sep t" "comma s = comma t" "comma2 s = comma2 t"
  using arg_cong [where f = operators_table, OF assms] arg_cong [where f = puser_variables, OF assms]
    arg_cong [where f = puser_functions, OF assms] arg_cong [where f = visited_variables, OF assms]
    arg_cong [where f = visited_functions, OF assms] arg_cong [where f = param_sep, OF assms]
    arg_cong [where f = comma, OF assms] arg_cong [where f = comma2, OF assms]
  by (simp_all add: fixed_def)

text \<open>The part of a parser that does not change while it parses, and a bound for the rest of the string.\<close>

definition within :: "'v parser \<Rightarrow> nat \<Rightarrow> 'v parser \<Rightarrow> bool" where
  "within c n s \<longleftrightarrow> fixed s = fixed c \<and> length (pstring s) \<le> n"

definition keeps :: "'v parser \<Rightarrow> ('v parser, 'a) action \<Rightarrow> bool" where
  "keeps c m \<longleftrightarrow> (\<forall>n. triple (within c n) m (\<lambda>_. within c n) (\<lambda>e _. ok_error e))"

named_theorems keeps_intros \<open>actions that keep the fixed part\<close>

lemma keeps_ret [keeps_intros]: "keeps c (ret x)"
  by (simp add: keeps_def triple_ret)

lemma keeps_gets [keeps_intros]: "keeps c (gets f)"
  by (simp add: keeps_def triple_def)

lemma keeps_throw: "ok_error e \<Longrightarrow> keeps c (throw e)"
  by (simp add: keeps_def triple_throw)

lemma keeps_Error: "ok_error e \<Longrightarrow> keeps c (Parser_Error e)"
  by (simp add: Parser_Error_def keeps_throw)

lemma keeps_throw_if: "(b \<Longrightarrow> ok_error e) \<Longrightarrow> keeps c (throw_if b e)"
  by (cases b) (simp_all add: throw_if_def keeps_throw keeps_ret)

lemma keeps_modify [keeps_intros]:
  "(\<And>s. fixed (f s) = fixed s) \<Longrightarrow> (\<And>s. length (pstring (f s)) \<le> length (pstring s)) \<Longrightarrow> keeps c (modify f)"
  by (fastforce simp: keeps_def triple_def within_def intro: order_trans)

lemma keeps_from_option:
  assumes "x \<noteq> None" "\<And>y. x = Some y \<Longrightarrow> keeps c (f y)"
  shows "keeps c (andthen (from_option x) f)"
proof -
  obtain y where y: "x = Some y" using assms(1) by auto
  then have "andthen (from_option x) f = f y" by (simp add: fun_eq_iff)
  then show ?thesis using assms(2) [OF y] by simp
qed

lemma keeps_andthen [keeps_intros]:
  "keeps c m \<Longrightarrow> (\<And>x. keeps c (f x)) \<Longrightarrow> keeps c (andthen m f)"
  unfolding keeps_def by (blast intro: triple_andthen)

lemma keeps_guard: "(b \<Longrightarrow> ok_error e) \<Longrightarrow> (\<not> b \<Longrightarrow> keeps c (f ())) \<Longrightarrow> keeps c (andthen (throw_if b e) f)"
  by (cases b) (simp_all add: keeps_throw)

lemma keeps_if [keeps_intros]: "(b \<Longrightarrow> keeps c m) \<Longrightarrow> (\<not> b \<Longrightarrow> keeps c n) \<Longrightarrow> keeps c (if b then m else n)"
  by simp

lemma keeps_option [keeps_intros]:
  "(r = None \<Longrightarrow> keeps c m) \<Longrightarrow> (\<And>x. r = Some x \<Longrightarrow> keeps c (f x)) \<Longrightarrow> keeps c (case r of None \<Rightarrow> m | Some x \<Rightarrow> f x)"
  by (cases r) simp_all

lemma keeps_prod [keeps_intros]: "(\<And>x y. p = (x, y) \<Longrightarrow> keeps c (f x y)) \<Longrightarrow> keeps c (case p of (x, y) \<Rightarrow> f x y)"
  by (cases p) simp

lemma keeps_check_err: "snd r \<noteq> err_internal_error \<Longrightarrow> keeps c (check_err r)"
  by (cases r; cases "snd r = err_ok") (simp_all add: check_err_def keeps_ret keeps_throw ok_error_def del: ret_apply)

lemma ok_error_simps [simp]:
  "ok_error err_nothing_has_read" "ok_error err_unknown_character" "ok_error err_unexpected_final_bracket"
  "ok_error err_stack_not_clear" "ok_error err_unknown_variable" "ok_error err_division_by_zero"
  "ok_error err_interrupt" "ok_error err_overflow" "ok_error err_unknown_function"
  "ok_error err_unknown_operator" "ok_error err_unexpected_semicolon_operator"
  "ok_error err_improper_amount_of_arguments" "ok_error err_improper_argument" "ok_error err_unexpected_end"
  "ok_error err_incorrect_value" "ok_error err_variable_loop" "ok_error err_functions_loop"
  "ok_error err_must_be_only_one_value" "ok_error err_percent_from"
  by (simp_all add: ok_error_def)

lemma keeps_carry: "r \<noteq> None \<Longrightarrow> keeps c (carry_overflow r)"
  unfolding carry_overflow_def
  by (auto intro!: keeps_from_option keeps_prod keeps_guard keeps_ret)

lemma keeps_MakeStandard:
  assumes "value_type_ok V" "m \<noteq> mat_none"
  shows "keeps c (Parser_MakeStandardMathematicOperation V x m y)"
proof -
  have pow: "keeps c (andthen (from_option (v_Pow V x y)) (\<lambda>(res, v).
      if res = 1 then Parser_Error err_overflow else if res = 2 then Parser_Error err_improper_argument else ret v))"
    by (intro keeps_from_option value_type_ok_total [OF assms(1)] keeps_prod keeps_if keeps_ret keeps_Error) simp_all
  have "keeps c (carry_overflow (v_Add V x y))" "keeps c (carry_overflow (v_Sub V x y))"
    "keeps c (carry_overflow (v_Mul V x y))" "keeps c (carry_overflow (v_Div V x y))"
    by (intro keeps_carry value_type_ok_total [OF assms(1)])+
  with assms(2) pow show ?thesis
    unfolding Parser_MakeStandardMathematicOperation_def
    by (cases m) (auto intro!: keeps_andthen keeps_modify keeps_guard keeps_ret)
qed

section \<open>Functions\<close>

definition keeps_args :: "'v parser \<Rightarrow> nat \<Rightarrow> (nat \<Rightarrow> ('v parser, 'a) action) \<Rightarrow> bool" where
  "keeps_args c n f \<longleftrightarrow> (\<forall>vs k l. length vs = n \<longrightarrow>
     triple (\<lambda>s. within c l s \<and> holds_args k vs s) (f k) (\<lambda>_ s. within c l s \<and> holds_args k vs s) (\<lambda>e _. ok_error e))"

lemma keeps_args_frame: "frame m \<Longrightarrow> keeps c m \<Longrightarrow> keeps_args c n (\<lambda>_. m)"
  unfolding keeps_args_def
proof (intro allI impI tripleI)
  fix vs :: "'a list" and k l s
  assume m: "frame m" "keeps c m" and s: "within c l s \<and> holds_args k vs s"
  from m(2) have "triple (within c l) m (\<lambda>_. within c l) (\<lambda>e _. ok_error e)" by (simp add: keeps_def)
  moreover from s have "within c l s" by simp
  ultimately show "\<exists>r s'. m s = Some (r, s') \<and>
      (case r of Inl e \<Rightarrow> ok_error e | Inr x \<Rightarrow> within c l s' \<and> holds_args k vs s')"
  proof (cases rule: tripleE)
    case (2 x s')
    then show ?thesis using s frame_stack(1) [OF m(1) 2(1)] by (simp add: holds_args_def)
  qed simp
qed

lemma keeps_args_value: "i < n \<Longrightarrow> keeps_args c n (\<lambda>k. stack_value (k + i * 2))"
  by (auto simp: keeps_args_def holds_args_def stack_value_def triple_def)

lemma keeps_args_values:
  "0 < n \<Longrightarrow> keeps_args c n (\<lambda>k. stack_value k)"
  "1 < n \<Longrightarrow> keeps_args c n (\<lambda>k. stack_value (k + 2))"
  "2 < n \<Longrightarrow> keeps_args c n (\<lambda>k. stack_value (k + 4))"
  using keeps_args_value [of 0 n c] keeps_args_value [of 1 n c] keeps_args_value [of 2 n c] by simp_all

lemma keeps_args_andthen:
  "keeps_args c n m \<Longrightarrow> (\<And>x. keeps_args c n (f x)) \<Longrightarrow> keeps_args c n (\<lambda>k. andthen (m k) (\<lambda>x. f x k))"
  unfolding keeps_args_def by (blast intro: triple_andthen)

lemma keeps_args_if:
  "(b \<Longrightarrow> keeps_args c n m) \<Longrightarrow> (\<not> b \<Longrightarrow> keeps_args c n m') \<Longrightarrow> keeps_args c n (\<lambda>k. if b then m k else m' k)"
  by (cases b) simp_all

lemma keeps_args_guard:
  assumes "b \<Longrightarrow> ok_error e" "\<not> b \<Longrightarrow> keeps_args c n f"
  shows "keeps_args c n (\<lambda>k. andthen (throw_if b e) (\<lambda>_. f k))"
  using assms by (cases b) (simp_all add: keeps_args_frame frame_throw keeps_throw)

lemma keeps_args_option:
  assumes "x \<noteq> None" "\<And>y. x = Some y \<Longrightarrow> keeps_args c n (f y)"
  shows "keeps_args c n (\<lambda>k. andthen (from_option x) (\<lambda>y. f y k))"
proof -
  obtain y where y: "x = Some y" using assms(1) by auto
  then have "(\<lambda>k. andthen (from_option x) (\<lambda>y. f y k)) = f y" by (simp add: fun_eq_iff)
  then show ?thesis using assms(2) [OF y] by simp
qed

lemma keeps_args_option_plain: "x \<noteq> None \<Longrightarrow> keeps_args c n (\<lambda>_. from_option x)"
  by (cases x) (simp_all add: keeps_args_def triple_def)

lemma keeps_args_prod: "(\<And>x y. p = (x, y) \<Longrightarrow> keeps_args c n (f x y)) \<Longrightarrow> keeps_args c n (\<lambda>k. case p of (x, y) \<Rightarrow> f x y k)"
  by (cases p) simp

lemmas keeps_args_basic = keeps_args_frame [OF frame_ret keeps_ret]
  keeps_args_frame [OF frame_Error keeps_Error] keeps_args_frame [OF frame_throw keeps_throw]
  keeps_args_frame [OF frame_gets keeps_gets] keeps_args_frame [OF frame_modify keeps_modify]
  keeps_args_frame [OF frame_check_err keeps_check_err] keeps_args_frame [OF frame_throw_if keeps_throw_if]

lemma keeps_args_loops:
  assumes "value_type_ok V"
  shows "i + m \<le> n \<Longrightarrow> keeps_args c n (\<lambda>k. Max_loop V k i m r)"
    "i + m \<le> n \<Longrightarrow> keeps_args c n (\<lambda>k. Min_loop V k i m r)"
    "i + m \<le> n \<Longrightarrow> keeps_args c n (\<lambda>k. Or_loop V k i m r)"
    "i + m \<le> n \<Longrightarrow> keeps_args c n (\<lambda>k. And_loop V k i m r)"
    "i + m \<le> n \<Longrightarrow> keeps_args c n (\<lambda>k. Sum_loop V k i m r)"
  by (induction m arbitrary: i r)
    (auto intro!: keeps_args_basic keeps_args_andthen keeps_args_value keeps_args_if keeps_args_option
      keeps_args_prod value_type_ok_total [OF assms] simp del: ret_apply)

lemma value_type_ok_snd:
  "value_type_ok V \<Longrightarrow> v_function1 V f1 x = Some r \<Longrightarrow> snd r \<noteq> err_internal_error"
  by (cases r) (simp add: value_type_ok_codes)

lemma keeps_functions:
  assumes "value_type_ok V"
  shows "keeps c (andthen (from_option (v_function1 V f1 x)) check_err)"
    "keeps c (andthen (from_option (v_function2 V f2 x y)) check_err)"
    "keeps c (andthen (from_option (v_function3 V f3 x y z)) check_err)"
  by (rule keeps_from_option, rule value_type_ok_total [OF assms],
      auto intro!: keeps_check_err dest: value_type_ok_codes [OF assms])+

lemma keeps_Convert:
  assumes "value_type_ok V"
  shows "keeps c (Parser_ConvertAngleToRad V x)" "keeps c (Parser_ConvertRadToAngle V x)"
  unfolding Parser_ConvertAngleToRad_def Parser_ConvertRadToAngle_def
  by (rule keeps_andthen [OF keeps_gets], rule keeps_if, rule keeps_ret, simp add: keeps_functions [OF assms])+

lemma keeps_args_call:
  assumes V: "value_type_ok V"
  shows "keeps_args c n (\<lambda>k. call_pfunction pf V k n r)"
  by (cases pf; simp only: call_pfunction.simps Parser_Gamma_def Parser_Factorial_def Parser_Abs_def
      Parser_Sin_def Parser_Cos_def Parser_Tan_def Parser_Cot_def Parser_Int_def Parser_Round_def
      Parser_Ln_def Parser_Log_def Parser_Exp_def Parser_Max_def Parser_Min_def Parser_ASin_def
      Parser_ACos_def Parser_ATan_def Parser_ACot_def Parser_Sgn_def Parser_Mod_def Parser_If_def
      Parser_Or_def Parser_And_def Parser_Not_def Parser_DegToRad_def Parser_RadToDeg_def
      Parser_DegToDeg_def Parser_GradToRad_def Parser_RadToGrad_def Parser_DegToGrad_def
      Parser_GradToDeg_def Parser_Ceil_def Parser_Floor_def Parser_Sqrt_def Parser_Sinh_def
      Parser_Cosh_def Parser_Tanh_def Parser_Coth_def Parser_Root_def Parser_ASinh_def
      Parser_ACosh_def Parser_ATanh_def Parser_ACoth_def Parser_BitAnd_def Parser_BitOr_def
      Parser_BitXor_def Parser_Sum_def Parser_Avg_def Parser_Frac_def function1_wrapper_def;
      (rule keeps_args_guard keeps_args_frame [OF _ keeps_functions(1) [OF V]]
        keeps_args_frame [OF _ keeps_functions(2) [OF V]] keeps_args_frame [OF _ keeps_functions(3) [OF V]]
        keeps_args_option keeps_args_andthen keeps_args_values keeps_args_if keeps_args_prod
        keeps_args_loops [OF V] value_type_ok_total [OF V] keeps_args_frame [OF frame_Convert(1) keeps_Convert(1) [OF V]]
        keeps_args_frame [OF frame_Convert(2) keeps_Convert(2) [OF V]] keeps_args_basic frame_intros
        keeps_args_option_plain
      | simp add: put_def; fail | simp add: value_type_ok_snd [OF V]; fail | simp add: value_type_ok_codes [OF V]; fail)+)

section \<open>Names defined by the user\<close>

text \<open>A name that is defined and that is not being parsed already.\<close>

definition fresh :: "'v parser \<Rightarrow> bool \<Rightarrow> string \<Rightarrow> bool" where
  "fresh c v name \<longleftrightarrow> name \<notin> (if v then visited_variables c else visited_functions c) \<and>
     (\<exists>t. (if v then puser_variables c else puser_functions c) = Some t \<and> map_find (obj_table t) name \<noteq> None)"

text \<open>The copy of the parser that parses the definition of a name returns.\<close>

definition nested_ok :: "'v nested \<Rightarrow> 'v parser \<Rightarrow> bool" where
  "nested_ok nested c \<longleftrightarrow> (\<forall>s v name lv str. fixed s = fixed c \<and> fresh c v name \<longrightarrow>
     (\<exists>err s'. nested ((Parser_new_copy (RecurrenceParsingVariablesOrFunction_AddName v name s))
         \<lparr>pfunction_local_variables := lv\<rparr>) str = Some (err, s') \<and> err \<noteq> err_internal_error))"

lemma fixed_AddName_DeleteName:
  assumes "name \<notin> (if v then visited_variables s else visited_functions s)"
  shows "fixed (RecurrenceParsingVariablesOrFunction_DeleteName v name
    ((RecurrenceParsingVariablesOrFunction_AddName v name s)\<lparr>pstop_calculating := x\<rparr>)) = fixed s"
    "pstring (RecurrenceParsingVariablesOrFunction_DeleteName v name
    ((RecurrenceParsingVariablesOrFunction_AddName v name s)\<lparr>pstop_calculating := x\<rparr>)) = pstring s"
  using assms by (auto simp: RecurrenceParsingVariablesOrFunction_DeleteName_def
      RecurrenceParsingVariablesOrFunction_AddName_def fixed_def env_def)

lemma keeps_Recurrence:
  assumes "nested_ok nested c"
    and "\<exists>t. (if v then puser_variables c else puser_functions c) = Some t \<and> map_find (obj_table t) name \<noteq> None"
  shows "keeps c (Parser_RecurrenceParsingVariablesOrFunction nested v name str lv)"
  unfolding keeps_def
proof (intro allI tripleI)
  fix n s assume s: "within c n s"
  then have vis: "visited_variables s = visited_variables c" "visited_functions s = visited_functions c"
    using fixed_fields(4,5) [of s c] by (simp_all add: within_def)
  let ?m = "Parser_RecurrenceParsingVariablesOrFunction nested v name str lv"
  let ?visited = "if v then visited_variables c else visited_functions c"
  show "\<exists>r s'. ?m s = Some (r, s') \<and> (case r of Inl e \<Rightarrow> ok_error e | Inr _ \<Rightarrow> within c n s')"
  proof (cases "name \<in> ?visited")
    case True
    then have "?m s = Some (Inl (if v then err_variable_loop else err_functions_loop), s)"
      using vis by (cases v) (simp_all add: Parser_RecurrenceParsingVariablesOrFunction_def
          RecurrenceParsingVariablesOrFunction_CheckStopCondition_def andthen_def)
    then show ?thesis by (cases v) simp_all
  next
    case False
    then have "fresh c v name" using assms(2) by (simp add: fresh_def)
    moreover have "fixed s = fixed c" using s by (simp add: within_def)
    ultimately obtain err s1 where n: "nested ((Parser_new_copy (RecurrenceParsingVariablesOrFunction_AddName v name s))
         \<lparr>pfunction_local_variables := lv\<rparr>) str = Some (err, s1)" "err \<noteq> err_internal_error"
      using assms(1) unfolding nested_ok_def by blast
    define s' where "s' = RecurrenceParsingVariablesOrFunction_DeleteName v name
      ((RecurrenceParsingVariablesOrFunction_AddName v name s)\<lparr>pstop_calculating := pstop_calculating s1\<rparr>)"
    have "name \<notin> (if v then visited_variables s else visited_functions s)"
      using False vis by (simp split: if_splits)
    from fixed_AddName_DeleteName [OF this, of "pstop_calculating s1"] have s': "within c n s'"
      using s by (simp add: within_def s'_def)
    have "RecurrenceParsingVariablesOrFunction_CheckStopCondition v name s = Some (Inr (), s)"
      using False vis by (cases v) (simp_all add: RecurrenceParsingVariablesOrFunction_CheckStopCondition_def)
    then have "?m s = andthen (throw_if (err \<noteq> err_ok) err) (\<lambda>_.
       andthen (throw_if (length (stack s1) \<noteq> 1) err_must_be_only_one_value) (\<lambda>_.
       andthen (throw_if (itype (stack s1 ! 0) \<noteq> numerical_value) err_incorrect_value) (\<lambda>_.
       ret (ivalue (stack s1 ! 0))))) s'"
      unfolding Parser_RecurrenceParsingVariablesOrFunction_def s'_def using n(1) by (simp add: andthen_Inr)
    moreover have "keeps c (andthen (throw_if (err \<noteq> err_ok) err) (\<lambda>_.
       andthen (throw_if (length (stack s1) \<noteq> 1) err_must_be_only_one_value) (\<lambda>_.
       andthen (throw_if (itype (stack s1 ! 0) \<noteq> numerical_value) err_incorrect_value) (\<lambda>_.
       ret (ivalue (stack s1 ! 0))))))"
      using n(2) by (intro keeps_guard keeps_ret) (simp_all add: ok_error_def)
    ultimately show ?thesis using s' by (simp add: keeps_def triple_def)
  qed
qed

lemma GetValue_ptr_found:
  "Objects_GetValue_ptr t name x = (err_ok, str) \<Longrightarrow> map_find (obj_table t) name \<noteq> None \<and> str \<noteq> None"
  "Objects_GetValueAndParam_ptr t name x p = (err_ok, str, q) \<Longrightarrow> map_find (obj_table t) name \<noteq> None \<and> str \<noteq> None"
  by (auto simp: Objects_GetValue_ptr_def Objects_GetValueAndParam_ptr_def split: if_splits option.splits)

text \<open>Reading a field that does not change.\<close>

lemma keeps_gets_fixed:
  assumes "\<And>s. fixed s = fixed c \<Longrightarrow> f s = f c" "keeps c (g (f c))"
  shows "keeps c (andthen (gets f) g)"
  unfolding keeps_def
proof (intro allI tripleI)
  fix n s assume s: "within c n s"
  then have "andthen (gets f) g s = g (f c) s"
    using assms(1) [of s] by (simp add: within_def)
  then show "\<exists>r s'. andthen (gets f) g s = Some (r, s') \<and> (case r of Inl e \<Rightarrow> ok_error e | Inr _ \<Rightarrow> within c n s')"
    using assms(2) s by (simp add: keeps_def triple_def)
qed

lemma keeps_GetValueOfVariable:
  assumes "nested_ok nested c"
  shows "keeps c (Parser_GetValueOfVariable V nested name)"
proof -
  have user: "keeps c (Parser_GetValueOfUserDefinedVariable nested name)"
    unfolding Parser_GetValueOfUserDefinedVariable_def
  proof (rule keeps_gets_fixed, erule fixed_fields, intro keeps_option keeps_ret)
    fix pv assume pv: "puser_variables c = Some pv"
    obtain err str where g: "Objects_GetValue_ptr pv name None = (err, str)" by (cases "Objects_GetValue_ptr pv name None")
    show "keeps c (let (err, string_value) = Objects_GetValue_ptr pv name None
         in if err \<noteq> err_ok then ret None
            else andthen (from_option string_value) (\<lambda>string_value.
                 andthen (Parser_RecurrenceParsingVariablesOrFunction nested True name string_value None) (\<lambda>result.
                 andthen (modify (\<lambda>s. s\<lparr>calculated := True\<rparr>)) (\<lambda>_. ret (Some result)))))"
    proof (cases "err = err_ok")
      case True
      then have "keeps c (andthen (from_option str) (\<lambda>string_value.
           andthen (Parser_RecurrenceParsingVariablesOrFunction nested True name string_value None) (\<lambda>result.
           andthen (modify (\<lambda>s. s\<lparr>calculated := True\<rparr>)) (\<lambda>_. ret (Some result)))))"
        using pv g GetValue_ptr_found(1) [of pv name None str]
        by (intro keeps_from_option keeps_andthen keeps_Recurrence [OF assms] keeps_modify keeps_ret) auto
      then show ?thesis using g True by (simp add: Let_def del: ret_apply)
    qed (use g in \<open>simp add: Let_def keeps_ret del: ret_apply\<close>)
  qed
  show ?thesis
    unfolding Parser_GetValueOfVariable_def Parser_GetValueOfFunctionLocalVariable_def
    by (intro keeps_andthen keeps_gets keeps_option keeps_ret keeps_modify user keeps_Error) simp_all
qed

lemma keeps_m_call:
  assumes "nested_ok nested c" "value_type_ok V"
  shows "keeps c (m_call V nested fname r vs)"
proof -
  have user: "keeps c (m_user_function nested fname vs)"
    unfolding m_user_function_def
  proof (rule keeps_gets_fixed, erule fixed_fields, intro keeps_option keeps_ret)
    fix pf assume pf: "puser_functions c = Some pf"
    obtain err str p where g: "Objects_GetValueAndParam_ptr pf fname None 0 = (err, str, p)"
      by (cases "Objects_GetValueAndParam_ptr pf fname None 0")
    have "keeps c (andthen (throw_if (p \<noteq> int (length vs)) err_improper_amount_of_arguments) (\<lambda>_.
         andthen (from_option str) (\<lambda>string_value.
         andthen (Parser_RecurrenceParsingVariablesOrFunction nested False fname string_value lv) (\<lambda>v.
         andthen (modify (\<lambda>s. s\<lparr>calculated := True\<rparr>)) (\<lambda>_. ret (Some v))))))" if "err = err_ok" for lv
      using pf g that GetValue_ptr_found(2) [of pf fname None 0 str p]
      by (intro keeps_guard keeps_from_option keeps_andthen keeps_Recurrence [OF assms(1)] keeps_modify keeps_ret) auto
    then show "keeps c (let (err, string_value, param) = Objects_GetValueAndParam_ptr pf fname None 0
         in if err \<noteq> err_ok then ret None
            else andthen (throw_if (param \<noteq> int (length vs)) err_improper_amount_of_arguments) (\<lambda>_.
                 andthen (from_option string_value) (\<lambda>string_value.
                 andthen (Parser_RecurrenceParsingVariablesOrFunction nested False fname string_value
                   (Some (case vs of [] \<Rightarrow> [] | v # _ \<Rightarrow> m_locals 0 vs (map_insert [] ''x'' v)))) (\<lambda>v.
                 andthen (modify (\<lambda>s. s\<lparr>calculated := True\<rparr>)) (\<lambda>_.
                 ret (Some v))))))"
      using g by (simp add: Let_def keeps_ret del: ret_apply)
  qed
  have builtin: "keeps c (m_builtin V pf r vs)" for pf
    unfolding keeps_def
  proof (intro allI tripleI)
    fix n s assume "within c n s"
    then have s: "within c n (put (args_stack vs) 0 s) \<and> holds_args 1 vs (put (args_stack vs) 0 s)"
      by (simp add: within_def) (simp add: put_def)
    have "triple (\<lambda>s. within c n s \<and> holds_args 1 vs s) (call_pfunction pf V 1 (length vs) r)
        (\<lambda>_ s. within c n s \<and> holds_args 1 vs s) (\<lambda>e _. ok_error e)"
      using keeps_args_call [OF assms(2), of c "length vs" pf r] by (simp add: keeps_args_def)
    then show "\<exists>q s'. m_builtin V pf r vs s = Some (q, s') \<and> (case q of Inl e \<Rightarrow> ok_error e | Inr _ \<Rightarrow> within c n s')"
      using s by (cases rule: tripleE) (auto simp: m_builtin_def within_def)
  qed
  show ?thesis
    unfolding m_call_def
    by (intro keeps_andthen user builtin keeps_option keeps_gets keeps_modify keeps_ret keeps_throw) simp_all
qed

section \<open>The shape of the stack\<close>

text \<open>The stack where an operand may follow: empty, or an open bracket, an operator or a semicolon on top.\<close>

fun operand_pos :: "'v sym list \<Rightarrow> bool" where
  "operand_pos [] = True"
| "operand_pos (Bracket _ _ _ # \<tau>) = operand_pos \<tau>"
| "operand_pos (Op m # Val _ # \<tau>) = (m \<noteq> mat_none \<and> operand_pos \<tau>)"
| "operand_pos (Semi # Val _ # \<tau>) = operand_pos \<tau>"
| "operand_pos _ = False"

fun operator_pos :: "'v sym list \<Rightarrow> bool" where
  "operator_pos (Val _ # \<tau>) = operand_pos \<tau>"
| "operator_pos _ = False"

lemma operand_pos_Op: "operand_pos (Op m # \<tau>) \<longleftrightarrow> m \<noteq> mat_none \<and> operator_pos \<tau>"
  by (cases \<tau> rule: operator_pos.cases) auto

lemma operand_pos_Semi: "operand_pos (Semi # \<tau>) \<longleftrightarrow> operator_pos \<tau>"
  by (cases \<tau> rule: operator_pos.cases) auto

lemma operator_posE:
  assumes "operator_pos \<tau>"
  obtains v \<tau>' where "\<tau> = Val v # \<tau>'" "operand_pos \<tau>'"
  using assms by (cases \<tau> rule: operator_pos.cases) auto

text \<open>Triples with a postcondition on the symbols; the error codes are always the harmless ones.\<close>

definition yields :: "'v parser \<Rightarrow> nat \<Rightarrow> ('v parser, 'a) action \<Rightarrow> ('a \<Rightarrow> 'v parser \<Rightarrow> bool) \<Rightarrow> bool" where
  "yields c n m Q \<longleftrightarrow> triple (within c n) m (\<lambda>x s. within c n s \<and> Q x s) (\<lambda>e _. ok_error e)"

lemma yields_keeps: "keeps c m \<Longrightarrow> yields c n m (\<lambda>_ _. True)"
  by (simp add: keeps_def yields_def)

lemma yields_ret: "(\<And>s. within c n s \<Longrightarrow> Q x s) \<Longrightarrow> yields c n (ret x) Q"
  by (simp add: yields_def triple_def)

lemma yields_throw: "ok_error e \<Longrightarrow> yields c n (throw e) Q"
  by (simp add: yields_def triple_def)

lemma yields_andthen:
  assumes "yields c n m R" "\<And>x. triple (\<lambda>s. within c n s \<and> R x s) (f x) (\<lambda>x s. within c n s \<and> Q x s) (\<lambda>e _. ok_error e)"
  shows "yields c n (andthen m f) Q"
  using assms unfolding yields_def by (rule triple_andthen)

lemma yields_bind:
  assumes "yields c n m (\<lambda>x _. R x)" "\<And>x. R x \<Longrightarrow> yields c n (f x) Q"
  shows "yields c n (andthen m f) Q"
proof (rule yields_andthen [OF assms(1)], rule tripleI)
  fix x s assume s: "within c n s \<and> R x"
  then have "triple (within c n) (f x) (\<lambda>x s. within c n s \<and> Q x s) (\<lambda>e _. ok_error e)"
    using assms(2) by (simp add: yields_def)
  then show "\<exists>r s'. f x s = Some (r, s') \<and> (case r of Inl e \<Rightarrow> ok_error e | Inr x \<Rightarrow> within c n s' \<and> Q x s')"
    using s by (simp add: triple_def)
qed

lemma m_roll_yields:
  "value_type_ok V \<Longrightarrow> operator_pos \<tau> \<Longrightarrow> yields c n (m_roll V \<tau>) (\<lambda>\<tau>' _. operator_pos \<tau>')"
proof (induction V \<tau> rule: m_roll.induct)
  case (1 V b m a \<tau>)
  then have "m \<noteq> mat_none" "operand_pos \<tau>" by (simp_all add: operand_pos_Op)
  then show ?case
    using 1 by (auto intro!: yields_bind [OF yields_keeps] keeps_MakeStandard simp del: m_roll.simps simp: m_roll.simps(1))
qed (auto intro!: yields_ret simp del: ret_apply)

lemma m_roll_operand: "operand_pos \<tau> \<Longrightarrow> m_roll V \<tau> = ret \<tau>"
  by (cases "(V, \<tau>)" rule: m_roll.cases) auto

lemma m_roll_priority_yields:
  "value_type_ok V \<Longrightarrow> operand_pos \<tau> \<Longrightarrow> yields c n (m_roll_priority V \<tau>) (\<lambda>\<tau>' _. operand_pos \<tau>')"
proof (induction V \<tau> rule: m_roll_priority.induct)
  case (1 V q b p a \<tau>)
  then have "p \<noteq> mat_none" "q \<noteq> mat_none" "operand_pos \<tau>" by (simp_all add: operand_pos_Op)
  then show ?case
    using 1 by (auto intro!: yields_bind [OF yields_keeps] keeps_MakeStandard yields_ret simp del: ret_apply)
qed (auto intro!: yields_ret simp del: ret_apply)

lemma m_args_yields:
  "operator_pos \<tau> \<Longrightarrow> yields c n (m_args vs \<tau>) (\<lambda>p _. (\<exists>b f r. fst (snd p) = Bracket b f r) \<and> operand_pos (snd (snd p)))"
proof (induction vs \<tau> rule: m_args.induct)
  case (3 vs x y \<tau>)
  then obtain v where x: "x = Val v" and y: "operand_pos (y # \<tau>)" by (auto elim!: operator_posE)
  show ?case
  proof (cases y)
    case Semi
    then show ?thesis using 3(1) [OF x Semi] x y by (simp add: operand_pos_Semi)
  qed (use x y in \<open>auto intro!: yields_ret yields_throw simp del: ret_apply throw_apply\<close>)
qed (auto intro!: yields_throw simp del: throw_apply)

lemma m_final_bracket_yields:
  assumes "value_type_ok V" "nested_ok nested c" "operator_pos \<tau> \<or> operand_pos \<tau>"
  shows "yields c n (m_final_bracket V nested \<tau>) (\<lambda>\<tau>' _. operator_pos \<tau>')"
proof -
  have "keeps c (m_apply V nested (Bracket b f r) vs)" for b f r vs
    using keeps_m_call [OF assms(2,1)]
    by (auto intro!: keeps_andthen keeps_throw_if keeps_option keeps_guard keeps_ret)
  then have app: "yields c n (andthen (m_apply V nested br vs) (\<lambda>v. ret (Val v # \<tau>'))) (\<lambda>\<tau>' _. operator_pos \<tau>')"
    if "\<exists>b f r. br = Bracket b f r" "operand_pos \<tau>'" for br vs \<tau>'
    using that by (auto intro!: yields_bind [OF yields_keeps] yields_ret simp del: ret_apply m_apply.simps)
  have params: "yields c n (m_parameters \<tau>') (\<lambda>p _. (\<exists>b f r. fst (snd p) = Bracket b f r) \<and> operand_pos (snd (snd p)))"
    if "operator_pos \<tau>' \<or> (\<exists>b f r \<tau>''. \<tau>' = Bracket b f r # \<tau>'' \<and> operand_pos \<tau>'')" for \<tau>' :: "'a sym list"
    using that by (auto elim!: operator_posE intro!: yields_ret m_args_yields [of "Val _ # _", simplified] simp del: ret_apply)
  have roll: "yields c n (m_roll V \<tau>) (\<lambda>\<tau>' _. operator_pos \<tau>' \<or> (\<exists>b f r \<tau>''. \<tau>' = Bracket b f r # \<tau>'' \<and> operand_pos \<tau>''))"
    if top: "\<exists>x \<in> set (take 1 \<tau>). kind x \<in> {numerical_value, first_bracket}"
  proof (cases "operator_pos \<tau>")
    case True
    with m_roll_yields [OF assms(1) True, of c n] show ?thesis by (auto simp: yields_def intro: triple_weaken)
  next
    case False
    then have "operand_pos \<tau>" using assms(3) by simp
    moreover from this obtain b f r \<tau>'' where "\<tau> = Bracket b f r # \<tau>''"
      using top by (cases \<tau> rule: operand_pos.cases) auto
    ultimately show ?thesis by (auto simp: m_roll_operand intro!: yields_ret simp del: ret_apply)
  qed
  show ?thesis
    unfolding m_final_bracket_def
    by (cases "\<exists>x \<in> set (take 1 \<tau>). kind x \<in> {numerical_value, first_bracket}")
      (simp_all only: not_True_eq_False not_False_eq_True andthen_throw_if,
        rule yields_bind [OF roll], assumption, rule yields_bind [OF params], assumption,
        auto intro!: app yields_throw simp: split_beta)
qed

section \<open>Reading\<close>

definition next_char :: "'v parser \<Rightarrow> int" where
  "next_char s = (case pstring s of [] \<Rightarrow> 0 | c # _ \<Rightarrow> char_int c)"

lemma peek_apply [simp]: "peek s = Some (Inr (next_char s), s)"
  by (simp add: peek_def next_char_def)

lemma advance_apply: "next_char s \<noteq> 0 \<Longrightarrow> advance s = Some (Inr (), s\<lparr>pstring := tl (pstring s)\<rparr>)"
  by (auto simp: advance_def next_char_def split: list.splits)

lemma advance_shorter: "next_char s \<noteq> 0 \<Longrightarrow> length (tl (pstring s)) < length (pstring s)"
  by (auto simp: next_char_def split: list.splits)

lemma skip_apply [simp]: "Parser_SkipWhiteCharacters s = Some (Inr (), s\<lparr>pstring := skip_white (pstring s)\<rparr>)"
  by (simp add: Parser_SkipWhiteCharacters_def)

lemma length_skip_white: "length (skip_white p) \<le> length p"
  by (induction p) auto

lemma skip_white_idem [simp]: "skip_white (skip_white p) = skip_white p"
  by (induction p) auto

lemma within_pstring: "within c n s \<Longrightarrow> length p \<le> length (pstring s) \<Longrightarrow> within c n (s\<lparr>pstring := p\<rparr>)"
  by (simp add: within_def)

lemma within_skip [simp]: "within c n s \<Longrightarrow> within c n (s\<lparr>pstring := skip_white (pstring s)\<rparr>)"
  by (simp add: within_pstring length_skip_white)

text \<open>The table of operators: no entry is the type \<^verbatim>\<open>none\<close> and no name has a zero in it.\<close>

definition operators_ok :: "operators_table \<Rightarrow> bool" where
  "operators_ok t \<longleftrightarrow> (\<forall>(name, m) \<in> set t. m \<noteq> mat_none \<and> CHR 0x00 \<notin> set name)"

lemma IsSubstring_take: "Parser_IsSubstring name oper \<longleftrightarrow> take (length oper) name = oper"
proof
  assume "Parser_IsSubstring name oper"
  then have "length oper \<le> length name" "\<forall>i < length oper. name ! i = oper ! i"
    by (auto simp: Parser_IsSubstring_def list_all_iff not_less split: if_splits)
  then show "take (length oper) name = oper" by (intro nth_equalityI) simp_all
next
  assume *: "take (length oper) name = oper"
  then have "length oper \<le> length name" by (metis length_take min.cobounded1)
  moreover have "name ! i = oper ! i" if "i < length oper" for i
    using * that by (metis nth_take)
  ultimately show "Parser_IsSubstring name oper"
    by (simp add: Parser_IsSubstring_def list_all_iff not_less)
qed

lemma oper_matches_zero:
  assumes "operators_ok t"
  shows "oper_matches t (oper @ [CHR 0x00]) = None"
proof (cases "map_lower_bound t (oper @ [CHR 0x00])")
  case (Some p)
  obtain name m where p: "p = (name, m)" by (cases p)
  then have "CHR 0x00 \<notin> set name"
    using Some map_lower_bound_Some [of t _ name m] assms by (auto simp: operators_ok_def)
  then have "take (length (oper @ [CHR 0x00])) name \<noteq> oper @ [CHR 0x00]"
    by (metis in_set_conv_decomp in_set_takeD)
  then show ?thesis using Some p by (simp add: oper_matches_def IsSubstring_take del: length_append)
qed (simp add: oper_matches_def)

lemma oper_matches_type:
  "operators_ok t \<Longrightarrow> oper_matches t oper = Some (name, m) \<Longrightarrow> m \<noteq> mat_none"
  using map_lower_bound_Some [of t oper name m]
  by (auto simp: oper_matches_def operators_ok_def split: option.splits prod.splits if_splits)

lemma ReadMathematicalOperator_yields:
  assumes "operators_ok (operators_table c)"
  shows "yields c n (Parser_ReadMathematicalOperator item) (\<lambda>item' _. \<exists>m. sym_of item' = Some (Op m))"
proof -
  let ?Q = "\<lambda>item' _. \<exists>m. sym_of item' = Some (Op m)"
  have fin: "yields c n (finish_operator item oper old) ?Q"
    if "\<And>name m. old = Some (name, m) \<Longrightarrow> m \<noteq> mat_none" for item :: "'a item" and oper old
    using that by (cases old; auto simp: finish_operator_def SetType_std_op Parser_Error_def sym_of_iff
        simp del: ret_apply intro!: yields_throw yields_ret; blast)
  have loop: "triple (\<lambda>s. within c n s \<and> length p \<le> length (pstring s)) (ReadMathematicalOperator_loop item t oper old p)
      (\<lambda>item' s. within c n s \<and> (\<exists>m. sym_of item' = Some (Op m))) (\<lambda>e _. ok_error e)"
    if "operators_ok t" "\<And>name m. old = Some (name, m) \<Longrightarrow> m \<noteq> mat_none"
    for item :: "'a item" and t oper old p
    using that
  proof (induction item t oper old p rule: ReadMathematicalOperator_loop.induct)
    case (1 item t oper old)
    then show ?case
      using fin [of old item oper] by (simp add: oper_matches_zero yields_def triple_def)
  next
    case (2 item t oper old ch p)
    show ?case
    proof (cases "oper_matches t (oper @ [ch])")
      case None
      then show ?thesis using fin [of old item oper] 2(3) by (simp add: yields_def triple_def)
    next
      case (Some new)
      then have "triple (\<lambda>s. within c n s \<and> length p \<le> length (pstring s))
          (ReadMathematicalOperator_loop item t (oper @ [ch]) (Some new) p)
          (\<lambda>item' s. within c n s \<and> (\<exists>m. sym_of item' = Some (Op m))) (\<lambda>e _. ok_error e)"
        using 2(1) [OF Some 2(2)] oper_matches_type [OF 2(2)] by (metis option.inject)
      then show ?thesis
        using Some by (auto simp: triple_def within_def)
    qed
  qed
  show ?thesis
    unfolding yields_def
  proof (rule tripleI)
    fix s assume s: "within c n s"
    then have "operators_table s = operators_table c" using fixed_fields(1) [of s c] by (simp add: within_def)
    then have "Parser_ReadMathematicalOperator item s =
        ReadMathematicalOperator_loop item (operators_table c) [] None (pstring s) s"
      by (simp add: Parser_ReadMathematicalOperator_def)
    then show "\<exists>r s'. Parser_ReadMathematicalOperator item s = Some (r, s') \<and>
        (case r of Inl e \<Rightarrow> ok_error e | Inr x \<Rightarrow> within c n s' \<and> (\<exists>m. sym_of x = Some (Op m)))"
      using loop [OF assms, of None "pstring s" item "[]"] s by (simp add: triple_def)
  qed
qed

end
