(* ===== verification/Parser_Returns.thy ===== *)
theory Parser_Returns
  imports Parser_Safety
begin

text \<open>
  Reading, the main loop and the recursion through the definitions of the user: the parser returns on
  every string. \<open>operator_read\<close>, \<open>value_read\<close> and \<open>iteration_done\<close> say what a step leaves; each iteration
  that is not the last one shortens the string, and each definition that is entered takes a name
  from \<open>names_left\<close>. \<open>Parse_with_machine\<close> is what the caller sees of a run of the machine.
\<close>

lemma m_percent_valid:
  assumes "value_type_ok V" "operator_pos \<tau>"
  shows "triple (\<lambda>s. within c n s \<and> next_char s \<noteq> 0) (m_percent V \<tau>) (\<lambda>\<tau>' s. within c n s \<and> operator_pos \<tau>') (\<lambda>e _. ok_error e)"
proof (cases "(V, \<tau>)" rule: m_percent.cases)
  case (1 V' b m a \<tau>')
  then have \<tau>: "\<tau> = Val b # Op m # Val a # \<tau>'" by simp
  have op: "operator_pos (Val v # Op m # Val a # \<tau>')" for v using assms(2) \<tau> by simp
  let ?rest = "andthen (from_option (v_Div V b (v_of_int V 100))) (\<lambda>(c, v).
     andthen (from_option (v_Mul V v a)) (\<lambda>(d, v).
     andthen (throw_if (c + d \<noteq> 0) err_overflow) (\<lambda>_. ret (Val v # Op m # Val a # \<tau>'))))"
  obtain d v where d: "v_Div V b (v_of_int V 100) = Some (d, v)" using value_type_ok_total(4) [OF assms(1)] by fast
  obtain e w where e: "v_Mul V v a = Some (e, w)" using value_type_ok_total(3) [OF assms(1)] by fast
  have rest: "?rest s = (if d + e \<noteq> 0 then Some (Inl err_overflow, s) else Some (Inr (Val w # Op m # Val a # \<tau>'), s))" for s
    using d e by (cases "d + e = 0") (simp_all add: andthen_def)
  show ?thesis
  proof (rule tripleI)
    fix s assume s: "within c n s \<and> next_char s \<noteq> 0"
    let ?s = "s\<lparr>pstring := skip_white (tl (pstring s))\<rparr>"
    have "m_percent V \<tau> s = ?rest ?s" using s by (simp add: \<tau> advance_apply)
    also have "\<dots> = (if d + e \<noteq> 0 then Some (Inl err_overflow, ?s) else Some (Inr (Val w # Op m # Val a # \<tau>'), ?s))"
      by (rule rest)
    finally have m: "m_percent V \<tau> s = \<dots>" .
    have "length (skip_white (tl (pstring s))) \<le> length (pstring s)"
      using length_skip_white [of "tl (pstring s)"] by simp
    then have "within c n ?s" using s by (simp add: within_pstring)
    then show "\<exists>r s'. m_percent V \<tau> s = Some (r, s') \<and>
        (case r of Inl e \<Rightarrow> ok_error e | Inr \<tau>' \<Rightarrow> within c n s' \<and> operator_pos \<tau>')"
      unfolding m using op by (cases "d + e = 0") simp_all
  qed
qed (auto simp: triple_def)

text \<open>
  After an operator has been read. The first two cases go on in the same iteration, and what was read
  before a final bracket makes the string shorter.
\<close>

definition operator_read :: "nat \<Rightarrow> int \<times> 'v item \<times> 'v sym list \<Rightarrow> 'v parser \<Rightarrow> bool" where
  "operator_read n = (\<lambda>(code, item, \<tau>) s.
     (code = 1 \<and> operator_pos \<tau>) \<or>
     (code = 0 \<and> itype item = last_bracket \<and> length (pstring s) < n \<and> (operator_pos \<tau> \<or> operand_pos \<tau>)) \<or>
     (code = 0 \<and> (sym_of item = Some Semi \<or> (\<exists>m. sym_of item = Some (Op m))) \<and> operator_pos \<tau>))"

lemma char_int_distinct:
  "char_int CHR '')'' \<noteq> char_int CHR ''%''" "char_int CHR '')'' \<noteq> 0" "char_int CHR '';'' \<noteq> 0"
  "char_int CHR ''%'' \<noteq> 0" "char_int CHR ''('' \<noteq> 0" "char_int CHR ''-'' \<noteq> 0" "char_int CHR ''+'' \<noteq> 0"
  "char_int CHR ''#'' \<noteq> 0" "char_int CHR ''&'' \<noteq> 0"
  by (simp_all add: char_int_def)

definition closes :: "'v parser \<Rightarrow> bool" where
  "closes s \<longleftrightarrow> next_char (s\<lparr>pstring := skip_white (pstring s)\<rparr>) = char_int CHR '')''"

lemma m_read_operator_valid:
  assumes "value_type_ok V" "operators_ok (operators_table c)"
  shows "triple (\<lambda>s. within c n s \<and> (operator_pos \<tau> \<or> operand_pos \<tau> \<and> closes s)) (m_read_operator V item \<tau>)
    (\<lambda>x s. within c n s \<and> operator_read n x s) (\<lambda>e _. ok_error e)"
proof -
  define rest where "rest = (\<lambda>\<tau> :: 'a sym list. andthen peek (\<lambda>c.
     andthen (gets param_sep) (\<lambda>sep.
     if c = 0 then ret (1 :: int, item, \<tau>)
     else if c = char_int CHR '')''
     then andthen advance (\<lambda>_. ret (0, item\<lparr>itype := last_bracket\<rparr>, \<tau>))
     else if c = char_int CHR '';'' \<or> (sep \<noteq> 0 \<and> c = sep)
     then andthen advance (\<lambda>_. ret (0, item\<lparr>itype := semicolon\<rparr>, \<tau>))
     else if is_small c \<or> is_big c
     then andthen (MatOperator_SetType (moperator item) mat_shortmul) (\<lambda>m.
          ret (0, item\<lparr>itype := mat_operator, moperator := m\<rparr>, \<tau>))
     else andthen (Parser_ReadMathematicalOperator item) (\<lambda>item. ret (0, item, \<tau>)))))"
  let ?Q = "\<lambda>r s'. case r of Inl e \<Rightarrow> ok_error e | Inr x \<Rightarrow> within c n s' \<and> operator_read n x s'"
  have adv: "advance s = Some (Inr (), s\<lparr>pstring := tl (pstring s)\<rparr>)" "within c n (s\<lparr>pstring := tl (pstring s)\<rparr>)"
      "length (pstring s) - Suc 0 < n" if "within c n s" "next_char s \<noteq> 0" for s
    using advance_apply [OF that(2)] advance_shorter [OF that(2)] that(1) by (auto simp: within_def)
  have close: "\<exists>r s'. rest \<tau> s = Some (r, s') \<and> ?Q r s'"
    if "within c n s" "next_char s = char_int CHR '')''" "operator_pos \<tau> \<or> operand_pos \<tau>" for \<tau> s
    using that adv [OF that(1)] by (simp add: rest_def operator_read_def char_int_distinct)
  have val: "\<exists>r s'. rest \<tau> s = Some (r, s') \<and> ?Q r s'" if s: "within c n s" and \<tau>: "operator_pos \<tau>" for \<tau> s
  proof (cases "next_char s = 0 \<or> next_char s = char_int CHR '')''")
    case True
    then show ?thesis using s \<tau> close [OF s] by (auto simp: rest_def operator_read_def)
  next
    case False
    then have nz: "next_char s \<noteq> 0" "next_char s \<noteq> char_int CHR '')''" by simp_all
    consider (sep) "next_char s = char_int CHR '';'' \<or> (param_sep s \<noteq> 0 \<and> next_char s = param_sep s)"
      | (name) "\<not> (next_char s = char_int CHR '';'' \<or> (param_sep s \<noteq> 0 \<and> next_char s = param_sep s))"
        "is_small (next_char s) \<or> is_big (next_char s)"
      | (oper) "\<not> (next_char s = char_int CHR '';'' \<or> (param_sep s \<noteq> 0 \<and> next_char s = param_sep s))"
        "\<not> (is_small (next_char s) \<or> is_big (next_char s))"
      by blast
    then show ?thesis
    proof cases
      case sep
      then have "rest \<tau> s = Some (Inr (0, item\<lparr>itype := semicolon\<rparr>, \<tau>), s\<lparr>pstring := tl (pstring s)\<rparr>)"
        using nz adv [OF s nz(1)] by (simp only: rest_def andthen_Inr [OF peek_apply] andthen_Inr [OF gets_apply] if_True if_False)
          simp
      then show ?thesis using adv [OF s nz(1)] \<tau> by (simp add: operator_read_def sym_of_iff)
    next
      case name
      then have "rest \<tau> s = Some (Inr (0, item\<lparr>itype := mat_operator, moperator := std_op mat_shortmul\<rparr>, \<tau>), s)"
        using nz by (simp only: rest_def andthen_Inr [OF peek_apply] andthen_Inr [OF gets_apply] if_True if_False)
          (simp add: SetType_std_op)
      then show ?thesis using s \<tau> by (auto simp: operator_read_def sym_of_iff)
    next
      case oper
      then have r: "rest \<tau> s = andthen (Parser_ReadMathematicalOperator item) (\<lambda>item. ret (0, item, \<tau>)) s"
        using nz by (simp only: rest_def andthen_Inr [OF peek_apply] andthen_Inr [OF gets_apply] if_True if_False)
      have "yields c n (Parser_ReadMathematicalOperator item) (\<lambda>item' _. \<exists>m. sym_of item' = Some (Op m))"
        by (rule ReadMathematicalOperator_yields [OF assms(2)])
      then show ?thesis
        unfolding r yields_def using s
        by (cases rule: tripleE) (use \<tau> in \<open>auto simp: operator_read_def\<close>)
    qed
  qed
  show ?thesis
  proof (rule tripleI)
    fix s assume s: "within c n s \<and> (operator_pos \<tau> \<or> operand_pos \<tau> \<and> closes s)"
    let ?s = "s\<lparr>pstring := skip_white (pstring s)\<rparr>"
    have w: "within c n ?s" using s by simp
    have m: "m_read_operator V item \<tau> s =
        andthen (if next_char ?s = char_int CHR ''%'' then m_percent V \<tau> else ret \<tau>) rest ?s"
      unfolding m_read_operator_def rest_def by simp
    show "\<exists>r s'. m_read_operator V item \<tau> s = Some (r, s') \<and> ?Q r s'"
    proof (cases "operator_pos \<tau>")
      case False
      then have "operand_pos \<tau>" "next_char ?s = char_int CHR '')''" using s by (auto simp: closes_def)
      then show ?thesis using close [OF w] by (simp add: m char_int_distinct)
    next
      case True
      show ?thesis
      proof (cases "next_char ?s = char_int CHR ''%''")
        case False
        then show ?thesis using val [OF w True] by (simp add: m)
      next
        case pc: True
        have "triple (\<lambda>s. within c n s \<and> next_char s \<noteq> 0) (m_percent V \<tau>) (\<lambda>\<tau>' s. within c n s \<and> operator_pos \<tau>') (\<lambda>e _. ok_error e)"
          by (rule m_percent_valid [OF assms(1) True])
        moreover have "within c n ?s \<and> next_char ?s \<noteq> 0" using w pc by (simp add: char_int_distinct)
        ultimately show ?thesis
          by (cases rule: tripleE) (use val pc in \<open>auto simp: m\<close>)
      qed
    qed
  qed
qed

text \<open>Fewer characters are left than \<open>n\<close>.\<close>

lemma within_less: "0 < n \<and> within c (n - 1) s \<longleftrightarrow> within c n s \<and> length (pstring s) < n"
  by (auto simp: within_def)

lemma within_less_intro: "within c n s \<Longrightarrow> length (pstring s) < n \<Longrightarrow> 0 < n \<and> within c (n - 1) s"
  by (auto simp: within_def)

lemma within_mono: "within c m s \<Longrightarrow> m \<le> n \<Longrightarrow> within c n s"
  by (simp add: within_def)

definition operator_done :: "int \<times> 'v item \<times> 'v sym list \<Rightarrow> bool" where
  "operator_done = (\<lambda>(code, item, \<tau>). operator_pos \<tau> \<and>
     (code = 1 \<or> (code = 0 \<and> (sym_of item = Some Semi \<or> (\<exists>m. sym_of item = Some (Op m))))))"

lemma m_operator_valid:
  assumes "value_type_ok V" "operators_ok (operators_table c)" "nested_ok nested c"
  shows "triple (\<lambda>s. within c n s \<and> (operator_pos \<tau> \<or> operand_pos \<tau> \<and> closes s)) (m_operator V nested item \<tau>)
    (\<lambda>x s. within c n s \<and> operator_done x) (\<lambda>e _. ok_error e)"
proof (induction n arbitrary: item \<tau> rule: less_induct)
  case (less n)
  have again: "\<exists>r s'. andthen (m_final_bracket V nested \<tau>) (m_operator V nested item) s = Some (r, s') \<and>
      (case r of Inl e \<Rightarrow> ok_error e | Inr x \<Rightarrow> within c n s' \<and> operator_done x)"
    if s: "within c n s" "length (pstring s) < n" and \<tau>: "operator_pos \<tau> \<or> operand_pos \<tau>" for item \<tau> s
  proof -
    have n: "0 < n" "within c (n - 1) s" using within_less_intro [OF s] by simp_all
    have "yields c (n - 1) (andthen (m_final_bracket V nested \<tau>) (m_operator V nested item)) (\<lambda>x _. operator_done x)"
    proof (rule yields_bind [OF m_final_bracket_yields [OF assms(1,3) \<tau>]])
      fix \<tau>' :: "'a sym list" assume "operator_pos \<tau>'"
      then show "yields c (n - 1) (m_operator V nested item \<tau>') (\<lambda>x _. operator_done x)"
        using less [of "n - 1" \<tau>' item] n(1) by (simp add: yields_def)
    qed
    then show ?thesis
      unfolding yields_def using n(2) by (cases rule: tripleE) (auto intro: within_mono)
  qed
  show ?case
  proof (rule tripleI)
    fix s assume s: "within c n s \<and> (operator_pos \<tau> \<or> operand_pos \<tau> \<and> closes s)"
    show "\<exists>r s'. m_operator V nested item \<tau> s = Some (r, s') \<and>
      (case r of Inl e \<Rightarrow> ok_error e | Inr x \<Rightarrow> within c n s' \<and> operator_done x)"
      using m_read_operator_valid [OF assms(1,2), of n \<tau> item] s
    proof (cases rule: tripleE)
      case (1 e s')
      then show ?thesis by (subst m_operator.simps) simp
    next
      case (2 x s')
      obtain code item' \<tau>' where x: "x = (code, item', \<tau>')" by (cases x)
      show ?thesis
        using 2 x again [of s' \<tau>' item']
        by (subst m_operator.simps) (auto simp: operator_read_def operator_done_def sym_of_iff)
    qed
  qed
qed

section \<open>Reading a value\<close>

text \<open>An action that returns a value has read a character.\<close>

definition consumes :: "'v parser \<Rightarrow> nat \<Rightarrow> ('v parser, 'a) action \<Rightarrow> ('a \<Rightarrow> bool) \<Rightarrow> bool" where
  "consumes c n m Q \<longleftrightarrow> triple (within c n) m (\<lambda>x s. (0 < n \<and> within c (n - 1) s) \<and> Q x) (\<lambda>e _. ok_error e)"

lemma consumes_bind:
  assumes "consumes c n m R" "\<And>x. R x \<Longrightarrow> yields c (n - 1) (f x) (\<lambda>x _. Q x)"
  shows "consumes c n (andthen m f) Q"
  unfolding consumes_def
proof (rule triple_andthen [OF assms(1) [unfolded consumes_def]], rule tripleI)
  fix x s assume s: "(0 < n \<and> within c (n - 1) s) \<and> R x"
  then have "triple (within c (n - 1)) (f x) (\<lambda>x s. within c (n - 1) s \<and> Q x) (\<lambda>e _. ok_error e)"
    using assms(2) by (simp add: yields_def)
  then show "\<exists>r s'. f x s = Some (r, s') \<and> (case r of Inl e \<Rightarrow> ok_error e | Inr x \<Rightarrow> (0 < n \<and> within c (n - 1) s') \<and> Q x)"
    using s unfolding triple_def by (metis (mono_tags, lifting) sum.case_eq_if)
qed

lemma yields_consumes:
  assumes "yields c n m (\<lambda>x _. R x)" "\<And>x. R x \<Longrightarrow> consumes c n (f x) Q"
  shows "consumes c n (andthen m f) Q"
  unfolding consumes_def
proof (rule triple_andthen [OF assms(1) [unfolded yields_def]], rule tripleI)
  fix x s assume s: "within c n s \<and> R x"
  then have "triple (within c n) (f x) (\<lambda>x s. (0 < n \<and> within c (n - 1) s) \<and> Q x) (\<lambda>e _. ok_error e)"
    using assms(2) by (simp add: consumes_def)
  then show "\<exists>r s'. f x s = Some (r, s') \<and> (case r of Inl e \<Rightarrow> ok_error e | Inr x \<Rightarrow> (0 < n \<and> within c (n - 1) s') \<and> Q x)"
    using s unfolding triple_def by blast
qed

lemma ReadValue_consumes:
  assumes "value_type_ok V"
  shows "consumes c n (Parser_ReadValue V item b) (\<lambda>_. True)"
  unfolding consumes_def
proof (rule tripleI)
  fix s assume s: "within c n s"
  define cv where "cv = Conv_new\<lparr>conv_base := word_of_int b, conv_comma := word_of_int (comma s),
       conv_comma2 := word_of_int (comma2 s), conv_group := word_of_int (group s)\<rparr>"
  obtain carry v r read where f: "v_FromString V (ivalue item) (pstring s) cv = Some (carry, v, r, read)"
    using value_type_ok_total(18) [OF assms] by fast
  then obtain u where u: "pstring s = u @ r" "read \<longrightarrow> u \<noteq> []"
    using assms unfolding value_type_ok_def value_reads_def by blast
  let ?s = "s\<lparr>pstring := r\<rparr>"
  have "Parser_ReadValue V item b s = andthen (throw_if (carry \<noteq> 0) err_overflow) (\<lambda>_.
     andthen (throw_if (\<not> read) err_unknown_character) (\<lambda>_. ret (item\<lparr>ivalue := v\<rparr>))) ?s"
    unfolding Parser_ReadValue_def using f by (simp add: cv_def)
  moreover have "0 < n \<and> within c (n - 1) ?s" if read
    using s u that by (cases u) (auto simp: within_def)
  ultimately show "\<exists>x s'. Parser_ReadValue V item b s = Some (x, s') \<and>
      (case x of Inl e \<Rightarrow> ok_error e | Inr _ \<Rightarrow> (0 < n \<and> within c (n - 1) s') \<and> True)"
    by (cases "carry = 0"; cases read) simp_all
qed

lemma length_ReadName_loop: "length (snd (ReadName_loop result p)) \<le> length p"
  by (induction result p rule: ReadName_loop.induct) auto

lemma consumes_ReadName: "consumes c n Parser_ReadName (\<lambda>_. True)"
  unfolding consumes_def
proof (rule tripleI)
  fix s assume s: "within c n s"
  show "\<exists>r s'. Parser_ReadName s = Some (r, s') \<and>
      (case r of Inl e \<Rightarrow> ok_error e | Inr _ \<Rightarrow> (0 < n \<and> within c (n - 1) s') \<and> True)"
  proof (cases "is_small (next_char s) \<or> is_big (next_char s)")
    case False
    then show ?thesis by (simp add: Parser_ReadName_def)
  next
    case True
    then obtain ch p where p: "pstring s = ch # p"
      by (cases "pstring s") (auto simp: next_char_def is_small_def is_big_def char_int_def)
    obtain result q where q: "ReadName_loop [ch] p = (result, q)" by (cases "ReadName_loop [ch] p")
    let ?s = "s\<lparr>pstring := skip_white q\<rparr>"
    have r: "Parser_ReadName s = (if next_char ?s = char_int CHR ''('' then andthen advance (\<lambda>_. ret (True, result))
        else ret (False, result)) ?s"
      using True p q by (cases "is_small (next_char s)") (simp_all add: Parser_ReadName_def)
    have "length (skip_white q) < length (pstring s)"
      using length_skip_white [of q] length_ReadName_loop [of "[ch]" p] p q by simp
    then have "0 < n \<and> within c (n - 1) ?s" using s by (auto simp: within_def)
    then show ?thesis
      unfolding r using advance_apply [of ?s]
      by (cases "next_char ?s = char_int CHR ''(''") (auto simp: char_int_distinct within_def)
  qed
qed

definition operand_item :: "'v item \<Rightarrow> bool" where
  "operand_item item \<longleftrightarrow> (\<exists>v. sym_of item = Some (Val v)) \<or> (\<exists>b f r. sym_of item = Some (Bracket b f r))"

lemma operand_item_finish: "fst (finish_value V item) = 0" "operand_item (snd (finish_value V item))"
  by (simp_all add: finish_value_def Let_def operand_item_def sym_of_iff)

definition value_read :: "nat \<Rightarrow> int \<times> 'v item \<Rightarrow> 'v parser \<Rightarrow> bool" where
  "value_read n = (\<lambda>(code, item) s.
     (code = 0 \<and> length (pstring s) < n \<and> operand_item item) \<or> code = 1 \<or>
     (code = 2 \<and> closes s \<and> itype item = last_bracket))"

lemma yields_value_read:
  assumes "consumes c n m (\<lambda>x. fst x = 0 \<and> operand_item (snd x))"
  shows "yields c n m (value_read n)"
  using assms unfolding consumes_def yields_def
  by (rule triple_weaken) (auto simp: value_read_def within_def)

lemma ReadVariableOrFunction_consumes:
  assumes "nested_ok nested c"
  shows "consumes c n (Parser_ReadVariableOrFunction V nested item) (\<lambda>x. fst x \<longrightarrow> operand_item (snd x))"
  unfolding Parser_ReadVariableOrFunction_def
proof (rule consumes_bind [OF consumes_ReadName])
  fix x :: "bool \<times> string"
  have "yields c (n - 1) (andthen (Parser_GetValueOfVariable V nested name) (\<lambda>v. ret (False, item\<lparr>ivalue := v\<rparr>)))
      (\<lambda>x _. fst x \<longrightarrow> operand_item (snd x))" for name
    by (rule yields_bind [OF yields_keeps [OF keeps_GetValueOfVariable [OF assms]]], rule yields_ret) simp
  then show "yields c (n - 1) (case x of (is_function, name) \<Rightarrow>
      if is_function then ret (True, item\<lparr>function_name := name, itype := first_bracket, ifunction := True\<rparr>)
      else andthen (Parser_GetValueOfVariable V nested name) (\<lambda>v. ret (False, item\<lparr>ivalue := v\<rparr>)))
      (\<lambda>x _. fst x \<longrightarrow> operand_item (snd x))"
    by (cases x; cases "fst x") (auto intro!: yields_ret simp: operand_item_def sym_of_iff simp del: ret_apply)
qed

lemma advance_consumes: "triple (\<lambda>s. within c n s \<and> next_char s \<noteq> 0) advance (\<lambda>_ s. 0 < n \<and> within c (n - 1) s) E"
  using advance_apply advance_shorter by (fastforce simp: triple_def within_def)

lemma yields_pre: "yields c n m Q \<Longrightarrow> triple (\<lambda>s. within c n s \<and> R s) m (\<lambda>x s. within c n s \<and> Q x s) (\<lambda>e _. ok_error e)"
  unfolding yields_def by (erule triple_pre) simp

lemma consumes_finish:
  "consumes c n m (\<lambda>_. True) \<Longrightarrow> yields c n (andthen m (\<lambda>item. ret (finish_value V item))) (value_read n)"
  by (rule yields_value_read, rule consumes_bind, assumption, rule yields_ret) (simp add: operand_item_finish)

lemma read_prefixed_valid:
  assumes "value_type_ok V"
  shows "triple (\<lambda>s. within c n s \<and> next_char s \<noteq> 0) (read_prefixed V item b) (\<lambda>_ s. 0 < n \<and> within c (n - 1) s) (\<lambda>e _. ok_error e)"
  unfolding read_prefixed_def
proof (rule triple_andthen [OF advance_consumes], rule tripleI)
  fix x s assume s: "0 < n \<and> within c (n - 1) s"
  have "yields c (n - 1) (Parser_ReadValue V item b) (\<lambda>_ _. True)"
    using ReadValue_consumes [OF assms, of c "n - 1" item b] unfolding consumes_def yields_def
    by (rule triple_weaken) (auto intro: within_mono)
  then have "yields c (n - 1) (andthen Parser_SkipWhiteCharacters (\<lambda>_. andthen peek (\<lambda>ch.
      andthen (Parser_ValueStarts ch b) (\<lambda>starts.
      if starts then Parser_ReadValue V item b else Parser_Error err_unknown_character)))) (\<lambda>_ _. True)"
    unfolding Parser_SkipWhiteCharacters_def peek_def Parser_ValueStarts_def Parser_Error_def
    by (auto intro!: yields_bind [OF yields_keeps] keeps_modify keeps_gets yields_throw length_skip_white)
  then show "\<exists>r s'. andthen Parser_SkipWhiteCharacters (\<lambda>_. andthen peek (\<lambda>ch.
      andthen (Parser_ValueStarts ch b) (\<lambda>starts.
      if starts then Parser_ReadValue V item b else Parser_Error err_unknown_character))) s = Some (r, s') \<and>
      (case r of Inl e \<Rightarrow> ok_error e | Inr _ \<Rightarrow> 0 < n \<and> within c (n - 1) s')"
    unfolding yields_def using s by (auto elim!: tripleE)
qed

lemma ToLowerCase_eq:
  "\<not> is_small k \<Longrightarrow> \<not> is_big k \<Longrightarrow> Parser_ToLowerCase c = k \<longleftrightarrow> c = k"
  by (auto simp: Parser_ToLowerCase_def is_small_def is_big_def char_int_def)

lemma ToLowerCase_signs:
  "Parser_ToLowerCase c = 0 \<longleftrightarrow> c = 0" "Parser_ToLowerCase c = char_int CHR ''('' \<longleftrightarrow> c = char_int CHR ''(''"
  "Parser_ToLowerCase c = char_int CHR '')'' \<longleftrightarrow> c = char_int CHR '')''"
  "Parser_ToLowerCase c = char_int CHR ''#'' \<longleftrightarrow> c = char_int CHR ''#''"
  "Parser_ToLowerCase c = char_int CHR ''&'' \<longleftrightarrow> c = char_int CHR ''&''"
  by (rule ToLowerCase_eq; simp add: is_small_def is_big_def char_int_def)+

text \<open>\<^verbatim>\<open>ReadValueVariableOrFunction\<close> behind the sign and the white characters.\<close>

definition read_unsigned ::
  "'v value_type \<Rightarrow> 'v nested \<Rightarrow> bool \<Rightarrow> 'v item \<Rightarrow> int \<Rightarrow> ('v parser, int \<times> 'v item) action" where
  "read_unsigned V nested it_was_sign result character =
     (if character = 0
        then andthen (throw_if it_was_sign err_unexpected_end) (\<lambda>_. ret (1, result))
        else if character = char_int CHR ''(''
        then andthen advance (\<lambda>_. ret (0, result\<lparr>itype := first_bracket, ifunction := False\<rparr>))
        else if character = char_int CHR '')''
        then andthen (throw_if it_was_sign err_unexpected_final_bracket) (\<lambda>_.
             ret (2, result\<lparr>itype := last_bracket\<rparr>))
        else if character = char_int CHR ''#''
        then andthen (read_prefixed V result 16) (\<lambda>result. ret (finish_value V result))
        else if character = char_int CHR ''&''
        then andthen (read_prefixed V result 2) (\<lambda>result. ret (finish_value V result))
        else andthen (gets base) (\<lambda>b.
             andthen (Parser_ValueStarts character b) (\<lambda>starts.
             if starts
             then andthen (Parser_ReadValue V result b) (\<lambda>result. ret (finish_value V result))
             else if is_small character
             then andthen (Parser_ReadVariableOrFunction V nested result) (\<lambda>(is_function, result).
                  if is_function then ret (0, result) else ret (finish_value V result))
             else Parser_Error err_unknown_character)))"

lemma ReadValueVariableOrFunction_unsigned:
  "Parser_ReadValueVariableOrFunction V nested result =
     andthen (Parser_TestSign result) (\<lambda>(it_was_sign, result).
     andthen Parser_SkipWhiteCharacters (\<lambda>_.
     andthen peek (\<lambda>c. read_unsigned V nested it_was_sign result (Parser_ToLowerCase c))))"
  unfolding Parser_ReadValueVariableOrFunction_def read_unsigned_def Let_def ..

lemma read_unsigned_valid:
  assumes V: "value_type_ok V" and nested: "nested_ok nested c"
    and s: "within c n s" "skip_white (pstring s) = pstring s"
  shows "\<exists>r s'. read_unsigned V nested b item (Parser_ToLowerCase (next_char s)) s = Some (r, s') \<and>
    (case r of Inl e \<Rightarrow> ok_error e | Inr x \<Rightarrow> within c n s' \<and> value_read n x s')"
proof -
  have use: "\<exists>r s'. m s = Some (r, s') \<and> (case r of Inl e \<Rightarrow> ok_error e | Inr x \<Rightarrow> within c n s' \<and> value_read n x s')"
    if "yields c n m (value_read n)" for m using that s(1) by (simp add: yields_def triple_def)
  have prefixed: "\<exists>r s'. andthen (read_prefixed V item k) (\<lambda>item. ret (finish_value V item)) s = Some (r, s') \<and>
      (case r of Inl e \<Rightarrow> ok_error e | Inr x \<Rightarrow> within c n s' \<and> value_read n x s')" if "next_char s \<noteq> 0" for k
  proof -
    have "triple (\<lambda>s. within c n s \<and> next_char s \<noteq> 0) (andthen (read_prefixed V item k) (\<lambda>item. ret (finish_value V item)))
        (\<lambda>x s. within c n s \<and> value_read n x s) (\<lambda>e _. ok_error e)"
      by (rule triple_andthen [OF read_prefixed_valid [OF V]], rule triple_ret)
        (auto simp: value_read_def within_def split_beta operand_item_finish)
    then show ?thesis using s(1) that by (simp add: triple_def)
  qed
  have name: "yields c n (andthen (Parser_ReadVariableOrFunction V nested item) (\<lambda>(is_function, result).
      if is_function then ret (0, result) else ret (finish_value V result))) (value_read n)"
    by (rule yields_value_read, rule consumes_bind, rule ReadVariableOrFunction_consumes [OF nested])
      (auto intro!: yields_ret simp: operand_item_finish simp del: ret_apply split: prod.splits)
  let ?k = "Parser_ToLowerCase (next_char s)"
  consider "?k = 0" | "?k = char_int CHR ''(''" | "?k = char_int CHR '')''" | "?k = char_int CHR ''#''"
    | "?k = char_int CHR ''&''" | (other) "?k \<noteq> 0" "?k \<noteq> char_int CHR ''(''" "?k \<noteq> char_int CHR '')''"
      "?k \<noteq> char_int CHR ''#''" "?k \<noteq> char_int CHR ''&''" by blast
  then show ?thesis
  proof cases
    case 1
    then show ?thesis using s(1) by (cases b) (simp_all add: read_unsigned_def value_read_def)
  next
    case 2
    then have "next_char s \<noteq> 0" by (simp add: ToLowerCase_signs char_int_distinct)
    from advance_apply [OF this] advance_shorter [OF this] show ?thesis
      using 2 s(1) by (auto simp: read_unsigned_def char_int_distinct value_read_def operand_item_def sym_of_iff within_def)
  next
    case 3
    moreover have "char_int CHR '')'' \<noteq> char_int CHR ''(''" by (simp add: char_int_def)
    ultimately show ?thesis using s
      by (cases b) (simp_all add: read_unsigned_def value_read_def closes_def ToLowerCase_signs char_int_distinct)
  next
    case 4
    moreover have "char_int CHR ''#'' \<noteq> char_int CHR ''(''" "char_int CHR ''#'' \<noteq> char_int CHR '')''"
      by (simp_all add: char_int_def)
    ultimately show ?thesis using prefixed [of 16]
      by (simp add: read_unsigned_def ToLowerCase_signs char_int_distinct)
  next
    case 5
    moreover have "char_int CHR ''&'' \<noteq> char_int CHR ''(''" "char_int CHR ''&'' \<noteq> char_int CHR '')''"
      "char_int CHR ''&'' \<noteq> char_int CHR ''#''" by (simp_all add: char_int_def)
    ultimately show ?thesis using prefixed [of 2]
      by (simp add: read_unsigned_def ToLowerCase_signs char_int_distinct)
  next
    case other
    have "yields c n (andthen (gets base) (\<lambda>b. andthen (Parser_ValueStarts ?k b) (\<lambda>starts.
             if starts then andthen (Parser_ReadValue V item b) (\<lambda>result. ret (finish_value V result))
             else if is_small ?k
             then andthen (Parser_ReadVariableOrFunction V nested item) (\<lambda>(is_function, result).
                  if is_function then ret (0, result) else ret (finish_value V result))
             else Parser_Error err_unknown_character))) (value_read n)"
      unfolding Parser_ValueStarts_def Parser_Error_def
      using name consumes_finish [OF ReadValue_consumes [OF V]]
      by (auto intro!: yields_bind [OF yields_keeps] keeps_gets yields_throw)
    from use [OF this] show ?thesis using other by (simp add: read_unsigned_def)
  qed
qed

lemma TestSign_yields: "yields c n (Parser_TestSign item) (\<lambda>_ _. True)"
  unfolding yields_def
proof (rule tripleI)
  fix s assume "within c n s"
  then have s: "within c n (s\<lparr>pstring := skip_white (pstring s)\<rparr>)" by simp
  let ?s = "s\<lparr>pstring := skip_white (pstring s)\<rparr>"
  show "\<exists>r s'. Parser_TestSign item s = Some (r, s') \<and> (case r of Inl e \<Rightarrow> ok_error e | Inr _ \<Rightarrow> within c n s' \<and> True)"
  proof (cases "next_char ?s = char_int CHR ''-'' \<or> next_char ?s = char_int CHR ''+''")
    case True
    then have "next_char ?s \<noteq> 0" by (auto simp: char_int_distinct)
    from advance_apply [OF this] True s show ?thesis
      by (auto simp: Parser_TestSign_def Let_def within_def)
  qed (use s in \<open>simp add: Parser_TestSign_def Let_def\<close>)
qed

lemma ReadValueVariableOrFunction_yields:
  assumes "value_type_ok V" "nested_ok nested c"
  shows "yields c n (Parser_ReadValueVariableOrFunction V nested item) (value_read n)"
  unfolding ReadValueVariableOrFunction_unsigned
proof (rule yields_bind [OF TestSign_yields])
  fix x :: "bool \<times> 'a item"
  show "yields c n (case x of (it_was_sign, result) \<Rightarrow> andthen Parser_SkipWhiteCharacters (\<lambda>_.
     andthen peek (\<lambda>c. read_unsigned V nested it_was_sign result (Parser_ToLowerCase c)))) (value_read n)"
    unfolding yields_def
  proof (rule tripleI)
    fix s assume "within c n s"
    then show "\<exists>r s'. (case x of (it_was_sign, result) \<Rightarrow> andthen Parser_SkipWhiteCharacters (\<lambda>_.
       andthen peek (\<lambda>c. read_unsigned V nested it_was_sign result (Parser_ToLowerCase c)))) s = Some (r, s') \<and>
       (case r of Inl e \<Rightarrow> ok_error e | Inr x \<Rightarrow> within c n s' \<and> value_read n x s')"
      using read_unsigned_valid [OF assms, of n "s\<lparr>pstring := skip_white (pstring s)\<rparr>" "fst x" "snd x"]
      by (simp add: split_beta)
  qed
qed

section \<open>The main loop\<close>

definition iteration_done :: "nat \<Rightarrow> bool \<times> 'v item \<times> 'v sym list \<Rightarrow> 'v parser \<Rightarrow> bool" where
  "iteration_done n = (\<lambda>(finished, item, \<tau>) s.
     if finished then \<tau> \<noteq> [] \<and> (operand_pos \<tau> \<or> operator_pos \<tau>) \<and> (\<forall>x \<in> set \<tau>. kind x \<in> {numerical_value, semicolon})
     else operand_pos \<tau> \<and> length (pstring s) < n)"

lemma m_after_operator_yields:
  assumes "value_type_ok V"
  shows "operator_done (0, item, \<tau>) \<Longrightarrow>
      yields c n (m_after_operator V 0 item \<tau>) (\<lambda>(finished, item, \<tau>) _. \<not> finished \<and> operand_pos \<tau>)"
    "operator_pos \<tau> \<or> operand_pos \<tau> \<Longrightarrow> yields c n (m_after_operator V 1 item \<tau>) (iteration_done m)"
proof -
  assume d: "operator_done (0, item, \<tau>)"
  then have "sym_of item = Some Semi \<or> (\<exists>m. sym_of item = Some (Op m) \<and> m \<noteq> mat_none)"
    by (auto simp: operator_done_def sym_of_iff)
  then obtain x where x: "sym_of item = Some x" "\<And>\<tau>. operator_pos \<tau> \<Longrightarrow> operand_pos (x # \<tau>)"
    by (elim disjE exE conjE) (simp_all add: operand_pos_Op operand_pos_Semi)
  have "yields c n (if itype item = semicolon
       then andthen (throw_if (\<tau> = []) err_nothing_has_read) (\<lambda>_. m_roll V \<tau>) else ret \<tau>) (\<lambda>\<tau> _. operator_pos \<tau>)"
    using d m_roll_yields [OF assms, of \<tau> c n]
    by (cases \<tau>) (auto simp: operator_done_def intro!: yields_ret simp del: ret_apply)
  then show "yields c n (m_after_operator V 0 item \<tau>) (\<lambda>(finished, item, \<tau>) _. \<not> finished \<and> operand_pos \<tau>)"
    unfolding m_after_operator_def
  proof (simp only: zero_neq_one if_False simp_thms, rule yields_bind)
    fix \<tau>' :: "'a sym list" assume "operator_pos \<tau>'"
    then have "yields c n (m_roll_priority V (x # \<tau>')) (\<lambda>\<tau>' _. operand_pos \<tau>')"
      by (intro m_roll_priority_yields [OF assms] x(2))
    then have "yields c n (andthen (m_roll_priority V (x # \<tau>')) (\<lambda>\<tau>. ret (False, item, \<tau>)))
        (\<lambda>(finished, item, \<tau>) _. \<not> finished \<and> operand_pos \<tau>)"
      by (rule yields_bind) (auto intro!: yields_ret simp del: ret_apply)
    then show "yields c n (andthen (from_option (sym_of item)) (\<lambda>x. andthen (m_roll_priority V (x # \<tau>'))
        (\<lambda>\<tau>. ret (False, item, \<tau>)))) (\<lambda>(finished, item, \<tau>) _. \<not> finished \<and> operand_pos \<tau>)"
      using x(1) by (simp add: yields_def triple_def)
  qed
next
  assume \<tau>: "operator_pos \<tau> \<or> operand_pos \<tau>"
  have "m_roll V [] = ret []" by simp
  have "yields c n (andthen (throw_if (\<tau> = []) err_nothing_has_read) (\<lambda>_. m_roll V \<tau>))
      (\<lambda>\<tau> _. \<tau> \<noteq> [] \<and> (operator_pos \<tau> \<or> operand_pos \<tau>))"
  proof (cases "\<tau> = []")
    case True
    then show ?thesis by (simp add: yields_throw)
  next
    case False
    show ?thesis
    proof (cases "operand_pos \<tau>")
      case True
      then show ?thesis using False by (auto simp: m_roll_operand intro!: yields_ret simp del: ret_apply)
    next
      case no: False
      then have "operator_pos \<tau>" using \<tau> by simp
      from m_roll_yields [OF assms this, of c n] show ?thesis
        using False unfolding yields_def
        by (simp, elim triple_weaken) (auto elim: operator_posE)
    qed
  qed
  then show "yields c n (m_after_operator V 1 item \<tau>) (iteration_done m)"
    unfolding m_after_operator_def
  proof (simp only: simp_thms if_True, rule yields_bind)
    fix \<tau>' :: "'a sym list" assume "\<tau>' \<noteq> [] \<and> (operator_pos \<tau>' \<or> operand_pos \<tau>')"
    then show "yields c n (andthen (throw_if (\<not> (\<forall>x \<in> set \<tau>'. kind x \<in> {numerical_value, semicolon})) err_stack_not_clear)
        (\<lambda>_. ret (True, item, \<tau>'))) (iteration_done m)"
      by (cases "\<forall>x \<in> set \<tau>'. kind x \<in> {numerical_value, semicolon}")
        (simp_all only: not_True_eq_False not_False_eq_True andthen_throw_if,
          auto intro!: yields_ret yields_throw simp: iteration_done_def simp del: ret_apply throw_apply)
  qed
qed

lemma keeps_m_stop: "keeps c m_stop"
  unfolding m_stop_def Let_def
  by (intro keeps_andthen keeps_gets keeps_option keeps_ret keeps_prod keeps_modify keeps_throw_if) simp_all

lemma m_operator_closes:
  assumes "value_type_ok V" "operators_ok (operators_table c)" "nested_ok nested c"
    and "operand_pos \<tau>" "within c n s" "closes s"
  shows "\<exists>r s'. m_operator V nested item \<tau> s = Some (r, s') \<and>
    (case r of Inl e \<Rightarrow> ok_error e | Inr x \<Rightarrow> (0 < n \<and> within c (n - 1) s') \<and> operator_done x)"
proof -
  let ?s = "s\<lparr>pstring := skip_white (pstring s)\<rparr>" and ?t = "s\<lparr>pstring := tl (skip_white (pstring s))\<rparr>"
  have c: "next_char ?s = char_int CHR '')''" using assms(6) by (simp add: closes_def)
  then have nz: "next_char ?s \<noteq> 0" by (simp add: char_int_distinct)
  have "m_read_operator V item \<tau> s = Some (Inr (0, item\<lparr>itype := last_bracket\<rparr>, \<tau>), ?t)"
    using c advance_apply [OF nz] by (simp add: m_read_operator_def char_int_distinct)
  then have m: "m_operator V nested item \<tau> s =
      andthen (m_final_bracket V nested \<tau>) (m_operator V nested (item\<lparr>itype := last_bracket\<rparr>)) ?t"
    by (subst m_operator.simps) simp
  have t: "0 < n" "within c (n - 1) ?t"
    using advance_shorter [OF nz] length_skip_white [of "pstring s"] assms(5) by (auto simp: within_def)
  have "yields c (n - 1) (andthen (m_final_bracket V nested \<tau>) (m_operator V nested (item\<lparr>itype := last_bracket\<rparr>)))
      (\<lambda>x _. operator_done x)"
  proof (rule yields_bind [OF m_final_bracket_yields [OF assms(1,3)]])
    fix \<tau>' :: "'a sym list" assume "operator_pos \<tau>'"
    then show "yields c (n - 1) (m_operator V nested (item\<lparr>itype := last_bracket\<rparr>) \<tau>') (\<lambda>x _. operator_done x)"
      using m_operator_valid [OF assms(1-3), of "n - 1" \<tau>' "item\<lparr>itype := last_bracket\<rparr>"] by (simp add: yields_def)
  qed (use assms(4) in simp)
  then show ?thesis unfolding m yields_def using t by (auto elim!: tripleE)
qed

lemma m_iteration_yields:
  assumes "value_type_ok V" "operators_ok (operators_table c)" "nested_ok nested c" "operand_pos \<tau>"
  shows "yields c n (m_iteration V nested item \<tau>) (iteration_done n)"
proof -
  let ?Q = "\<lambda>r s'. case r of Inl e \<Rightarrow> ok_error e | Inr x \<Rightarrow> within c n s' \<and> iteration_done n x s'"
  let ?after = "\<lambda>(code, item, \<tau>). m_after_operator V code item \<tau>"
  have after: "\<exists>r s'. ?after x s = Some (r, s') \<and> ?Q r s'"
    if s: "0 < n \<and> within c (n - 1) s" and x: "operator_done x" for x s
  proof -
    obtain code item' \<tau>' where x': "x = (code, item', \<tau>')" by (cases x)
    consider "code = 1" "operator_pos \<tau>'" | "code = 0" using x x' by (auto simp: operator_done_def)
    then show ?thesis
    proof cases
      case 1
      then have "yields c n (m_after_operator V 1 item' \<tau>') (iteration_done n)"
        by (intro m_after_operator_yields [OF assms(1)]) simp
      then show ?thesis using 1 s x' within_mono [of c "n - 1" s n] by (simp add: yields_def triple_def)
    next
      case 2
      then have "yields c (n - 1) (m_after_operator V 0 item' \<tau>') (\<lambda>(finished, item, \<tau>) _. \<not> finished \<and> operand_pos \<tau>)"
        using x x' by (intro m_after_operator_yields [OF assms(1)]) simp
      then show ?thesis
        unfolding yields_def using conjunct2 [OF s]
        by (cases rule: tripleE) (use 2 x' s in \<open>auto simp: iteration_done_def within_def split: prod.splits\<close>)
    qed
  qed
  have oper: "\<exists>r s'. andthen m ?after s = Some (r, s') \<and> ?Q r s'"
    if "\<exists>r s'. m s = Some (r, s') \<and> (case r of Inl e \<Rightarrow> ok_error e | Inr x \<Rightarrow> (0 < n \<and> within c (n - 1) s') \<and> operator_done x)" for m s
  proof -
    from that obtain r s' where r: "m s = Some (r, s')"
      "case r of Inl e \<Rightarrow> ok_error e | Inr x \<Rightarrow> (0 < n \<and> within c (n - 1) s') \<and> operator_done x" by blast
    show ?thesis
    proof (cases r)
      case (Inr x)
      then have "andthen m ?after s = ?after x s'" using r(1) by (simp add: andthen_Inr)
      then show ?thesis using after [of s' x] r(2) Inr by simp
    qed (use r in simp)
  qed
  show ?thesis
    unfolding m_iteration_def
  proof (rule yields_bind [OF yields_keeps [OF keeps_m_stop]],
      rule yields_andthen [OF ReadValueVariableOrFunction_yields [OF assms(1,3)]], rule tripleI)
    fix x :: "int \<times> 'a item" and s assume s: "within c n s \<and> value_read n x s"
    obtain code item' where x: "x = (code, item')" by (cases x)
    let ?rest = "case x of (code, item) \<Rightarrow>
        andthen (if code = 0 then andthen (from_option (sym_of item)) (\<lambda>x. ret (x # \<tau>)) else ret \<tau>) (\<lambda>\<tau>.
        if (code = 0 \<or> code = 2) \<and> itype item = first_bracket then ret (False, item, \<tau>)
        else andthen (if code = 0 \<or> code = 2 then m_operator V nested item \<tau> else ret (code, item, \<tau>)) ?after)"
    consider (val) v where "code = 0" "length (pstring s) < n" "sym_of item' = Some (Val v)"
      | (br) b f r where "code = 0" "length (pstring s) < n" "sym_of item' = Some (Bracket b f r)"
      | (fin) "code = 1" | (close) "code = 2" "closes s" "itype item' = last_bracket"
      using s x by (auto simp: value_read_def operand_item_def)
    then show "\<exists>r s'. ?rest s = Some (r, s') \<and> ?Q r s'"
    proof cases
      case val
      then have "?rest s = andthen (m_operator V nested item' (Val v # \<tau>)) ?after s"
        using x val(1) kind_sym_of [OF val(3)] by (simp add: val(3))
      moreover have n: "0 < n \<and> within c (n - 1) s" using val s within_less_intro by blast
      then have "\<exists>r s'. m_operator V nested item' (Val v # \<tau>) s = Some (r, s') \<and>
          (case r of Inl e \<Rightarrow> ok_error e | Inr x \<Rightarrow> (0 < n \<and> within c (n - 1) s') \<and> operator_done x)"
        using tripleE [OF m_operator_valid [OF assms(1-3), of "n - 1" "Val v # \<tau>" item'], of s] assms(4)
        by (metis (mono_tags, lifting) operator_pos.simps(1) sum.simps(5,6))
      ultimately show ?thesis using oper [of "m_operator V nested item' (Val v # \<tau>)" s] by simp
    next
      case br
      then have "?rest s = Some (Inr (False, item', Bracket b f r # \<tau>), s)"
        using x kind_sym_of [OF br(3)] by simp
      then show ?thesis using br s assms(4) by (simp add: iteration_done_def)
    next
      case fin
      then have "?rest s = m_after_operator V 1 item' \<tau> s" using x by simp
      moreover have "yields c n (m_after_operator V 1 item' \<tau>) (iteration_done n)"
        using assms(4) by (intro m_after_operator_yields [OF assms(1)]) simp
      ultimately show ?thesis using s by (simp add: yields_def triple_def)
    next
      case close
      then have "?rest s = andthen (m_operator V nested item' \<tau>) ?after s" using x by simp
      then show ?thesis
        using oper [of "m_operator V nested item' \<tau>" s, OF m_operator_closes [OF assms(1-4) conjunct1 [OF s] close(2)]]
        by simp
    qed
  qed
qed

lemma m_loop_yields:
  assumes "value_type_ok V" "operators_ok (operators_table c)" "nested_ok nested c" "operand_pos \<tau>"
  shows "yields c n (m_loop V nested item \<tau>) (\<lambda>\<tau> _. \<tau> \<noteq> [] \<and> (operand_pos \<tau> \<or> operator_pos \<tau>) \<and>
    (\<forall>x \<in> set \<tau>. kind x \<in> {numerical_value, semicolon}))"
  using assms(4)
proof (induction n arbitrary: item \<tau> rule: less_induct)
  case (less n)
  let ?Q = "\<lambda>\<tau> _. \<tau> \<noteq> [] \<and> (operand_pos \<tau> \<or> operator_pos \<tau>) \<and> (\<forall>x \<in> set \<tau>. kind x \<in> {numerical_value, semicolon})"
  have "yields c n (andthen (m_iteration V nested item \<tau>) (\<lambda>(finished, item, \<tau>).
     if finished then ret \<tau> else m_loop V nested item \<tau>)) ?Q"
  proof (rule yields_andthen [OF m_iteration_yields [OF assms(1-3) less.prems]], rule tripleI)
    fix x :: "bool \<times> 'a item \<times> 'a sym list" and s assume s: "within c n s \<and> iteration_done n x s"
    obtain fin item' \<tau>' where x: "x = (fin, item', \<tau>')" by (cases x)
    show "\<exists>r s'. (case x of (finished, item, \<tau>) \<Rightarrow> if finished then ret \<tau> else m_loop V nested item \<tau>) s = Some (r, s') \<and>
        (case r of Inl e \<Rightarrow> ok_error e | Inr \<tau> \<Rightarrow> within c n s' \<and> ?Q \<tau> s')"
    proof (cases fin)
      case True
      then show ?thesis using s x by (simp add: iteration_done_def)
    next
      case False
      then have n: "n - 1 < n" "within c (n - 1) s" "operand_pos \<tau>'"
        using s x by (auto simp: iteration_done_def within_def)
      have "yields c (n - 1) (m_loop V nested item' \<tau>') ?Q" by (rule less.IH [OF n(1,3)])
      then show ?thesis
        unfolding yields_def using n(2)
        by (cases rule: tripleE) (use False x within_mono [of c "n - 1" _ n] in auto)
    qed
  qed
  then show ?case unfolding yields_def triple_def by (subst m_loop.simps)
qed

section \<open>A call of the parser\<close>

fun value_of :: "'v sym \<Rightarrow> 'v option" where
  "value_of (Val v) = Some v"
| "value_of _ = None"

definition sym_values :: "'v sym list \<Rightarrow> 'v list" where
  "sym_values \<tau> = List.map_filter value_of (rev \<tau>)"

lemma sym_values_simps [simp]:
  "sym_values [] = []" "sym_values (Val v # \<tau>) = sym_values \<tau> @ [v]" "sym_values (Op m # \<tau>) = sym_values \<tau>"
  "sym_values (Bracket b f r # \<tau>) = sym_values \<tau>" "sym_values (Semi # \<tau>) = sym_values \<tau>"
  by (simp_all add: sym_values_def List.map_filter_def)

lemma sym_values_nonempty:
  assumes "operand_pos \<tau> \<or> operator_pos \<tau>" "\<forall>x \<in> set \<tau>. kind x \<in> {numerical_value, semicolon}" "\<tau> \<noteq> []"
  shows "sym_values \<tau> \<noteq> []"
  using assms by (cases \<tau> rule: operand_pos.cases) (auto elim: operator_posE)

lemma map_filter_sym_of:
  assumes "map sym_of st = map Some \<tau>"
  shows "map ivalue (filter (\<lambda>i. itype i = numerical_value) st) = List.map_filter value_of \<tau>"
  using assms
proof (induction st arbitrary: \<tau>)
  case (Cons i st)
  then obtain x \<tau>' where x: "\<tau> = x # \<tau>'" "sym_of i = Some x" "map sym_of st = map Some \<tau>'" by (cases \<tau>) auto
  then show ?case using Cons.IH [OF x(3)] kind_sym_of [OF x(2)]
    by (cases x) (auto simp: sym_of_iff List.map_filter_def)
qed (simp add: List.map_filter_def)

definition Parse_start :: "'v value_type \<Rightarrow> 'v parser \<Rightarrow> string \<Rightarrow> 'v parser" where
  "Parse_start V s str = s\<lparr>stack_index := 0, pstring := str, error := err_ok, calculated := False,
     stack := vector_resize default_stack_size (Item_new V) (stack s)\<rparr>"

text \<open>What the caller sees of a run of the machine.\<close>

lemma Parse_with_machine:
  assumes "m_loop V nested (Item_new V) [] (env (Parse_start V s str)) = Some (r, \<epsilon>)"
  shows "case r of
      Inl e \<Rightarrow> \<exists>s'. Parse_with V nested s str = Some (e, s') \<and> error s' = e \<and> (e \<noteq> err_ok \<longrightarrow> stack s' = [])
    | Inr \<tau> \<Rightarrow> error \<epsilon> = err_ok \<and> \<tau> \<noteq> [] \<longrightarrow> (\<exists>s'. Parse_with V nested s str = Some (err_ok, s') \<and> error s' = err_ok \<and>
        map ivalue (stack s') = sym_values \<tau> \<and> (\<forall>i \<in> set (stack s'). itype i = numerical_value))"
proof -
  let ?s = "Parse_start V s str"
  have "sees ?s []" by (simp add: sees_def Parse_start_def)
  from Parse_loop_refines [OF this, of V nested "Item_new V"] assms
  have l: "refines (\<lambda>_ \<tau>' s'. sees s' \<tau>') (Parse_loop V nested (Item_new V) ?s) (Some (r, \<epsilon>))" by simp
  have p: "Parse_with V nested s str = map_option (\<lambda>(r, s).
           let s = (case r of Inl c \<Rightarrow> s\<lparr>error := c, calculated := False\<rparr> | Inr _ \<Rightarrow> s);
               s = NormalizeStack s
           in (error s, s)) (Parse_loop V nested (Item_new V) ?s)"
    by (simp add: Parse_with_def Parse_start_def Let_def)
  show ?thesis
  proof (cases r)
    case (Inl e)
    then obtain s' where "Parse_loop V nested (Item_new V) ?s = Some (Inl e, s')" using l by auto
    then show ?thesis using Inl by (simp add: p NormalizeStack_def Let_def)
  next
    case (Inr \<tau>)
    then obtain s' where s': "Parse_loop V nested (Item_new V) ?s = Some (Inr (), s')" "env s' = \<epsilon>" "sees s' \<tau>"
      using l by (auto simp: refines_def split: sum.splits)
    have "map ivalue (filter (\<lambda>i. itype i = numerical_value) (take (stack_index s') (stack s'))) = sym_values \<tau>"
      unfolding sym_values_def
    proof (rule map_filter_sym_of)
      have "map sym_of (rev (take (stack_index s') (stack s'))) = map Some \<tau>" using s'(3) by (simp add: sees_def)
      from arg_cong [OF this, of rev] show "map sym_of (take (stack_index s') (stack s')) = map Some (rev \<tau>)"
        by (simp add: rev_map)
    qed
    moreover have "error \<epsilon> = error s'" using s'(2) by auto
    ultimately show ?thesis
      using Inr s'(1) sees_length [OF s'(3)] by (auto simp: p NormalizeStack_def Let_def)
  qed
qed

section \<open>The parser returns\<close>

definition table_names :: "objects option \<Rightarrow> string set" where
  "table_names t = (case t of None \<Rightarrow> {} | Some t \<Rightarrow> fst ` set (obj_table t))"

definition names_left :: "'v parser \<Rightarrow> nat" where
  "names_left s = card (table_names (puser_variables s) - visited_variables s) +
     card (table_names (puser_functions s) - visited_functions s)"

lemma map_find_fst: "map_find m k \<noteq> None \<Longrightarrow> k \<in> fst ` set m"
  by (induction m k rule: map_find.induct) (auto split: if_splits)

lemma finite_table_names: "finite (table_names t)"
  by (simp add: table_names_def split: option.splits)

lemma names_left_copy:
  assumes "fresh c v name" "fixed s = fixed c"
  shows "names_left ((Parser_new_copy (RecurrenceParsingVariablesOrFunction_AddName v name s))\<lparr>pfunction_local_variables := lv\<rparr>)
    < names_left c"
proof -
  have "table_names t - insert name vis \<subset> table_names t - vis"
    if n: "name \<notin> vis" "\<exists>u. t = Some u \<and> map_find (obj_table u) name \<noteq> None" for t vis
  proof -
    from n(2) obtain u where u: "t = Some u" "map_find (obj_table u) name \<noteq> None" by blast
    from map_find_fst [OF u(2)] u(1) have "name \<in> table_names t" by (simp add: table_names_def)
    then show ?thesis using n(1) by blast
  qed
  then have *: "card (table_names t - insert name vis) < card (table_names t - vis)"
    if "name \<notin> vis" "\<exists>u. t = Some u \<and> map_find (obj_table u) name \<noteq> None" for t vis
    using that by (intro psubset_card_mono finite_Diff finite_table_names)
  show ?thesis
    using assms(1) fixed_fields(2-5) [OF assms(2)] *
    by (cases v) (simp_all add: names_left_def fresh_def Parser_new_copy_def Parser_assign_def
        RecurrenceParsingVariablesOrFunction_AddName_def)
qed

lemma operators_copy:
  "operators_table ((Parser_new_copy (RecurrenceParsingVariablesOrFunction_AddName v name s))\<lparr>pfunction_local_variables := lv\<rparr>)
    = operators_table s"
  by (simp add: Parser_new_copy_def Parser_assign_def RecurrenceParsingVariablesOrFunction_AddName_def)

lemma Parse_with_returns:
  assumes "value_type_ok V" "operators_ok (operators_table s)" "nested_ok nested (Parse_start V s str)"
  shows "\<exists>err s'. Parse_with V nested s str = Some (err, s') \<and> error s' = err \<and> err \<noteq> err_internal_error \<and>
    (if err = err_ok then stack s' \<noteq> [] \<and> (\<forall>i \<in> set (stack s'). itype i = numerical_value) else stack s' = [])"
proof -
  let ?s = "Parse_start V s str"
  have op: "operators_ok (operators_table ?s)" using assms(2) by (simp add: Parse_start_def)
  have w: "within ?s (length str) (env ?s)" by (simp add: within_def) (simp add: Parse_start_def)
  show ?thesis
    using m_loop_yields [OF assms(1) op assms(3), of "[]" "length str" "Item_new V", simplified] w
    unfolding yields_def
  proof (cases rule: tripleE)
    case (1 e \<epsilon>)
    with Parse_with_machine [OF 1(1)] show ?thesis by (auto simp: ok_error_def)
  next
    case (2 \<tau> \<epsilon>)
    have "error (fixed \<epsilon>) = error (fixed ?s)" using 2(2) by (simp add: within_def)
    then have "error \<epsilon> = err_ok" by (simp add: fixed_def) (simp add: Parse_start_def)
    with 2 Parse_with_machine [OF 2(1)] sym_values_nonempty [of \<tau>] show ?thesis by auto
  qed
qed

lemma Parse_returns:
  assumes "value_type_ok V" "operators_ok (operators_table s)" "names_left s < depth"
  shows "\<exists>err s'. Parser_Parse depth V s str = Some (err, s') \<and> error s' = err \<and> err \<noteq> err_internal_error \<and>
    (if err = err_ok then stack s' \<noteq> [] \<and> (\<forall>i \<in> set (stack s'). itype i = numerical_value) else stack s' = [])"
  using assms(2,3)
proof (induction depth arbitrary: s str)
  case (Suc depth)
  let ?c = "Parse_start V s str"
  have left: "names_left ?c = names_left s" by (simp add: names_left_def Parse_start_def)
  have "nested_ok (Parser_Parse depth V) ?c"
    unfolding nested_ok_def
  proof (intro allI impI, elim conjE)
    fix t :: "'a parser" and v name lv str'
    assume t: "fixed t = fixed ?c" "fresh ?c v name"
    have "operators_table t = operators_table s" using fixed_fields(1) [OF t(1)] by (simp add: Parse_start_def)
    then show "\<exists>err s'. Parser_Parse depth V ((Parser_new_copy (RecurrenceParsingVariablesOrFunction_AddName v name t))
         \<lparr>pfunction_local_variables := lv\<rparr>) str' = Some (err, s') \<and> err \<noteq> err_internal_error"
      using Suc.IH [of "(Parser_new_copy (RecurrenceParsingVariablesOrFunction_AddName v name t))\<lparr>pfunction_local_variables := lv\<rparr>" str']
        Suc.prems names_left_copy [OF t(2,1), of lv] left
      by (force simp: operators_copy)
  qed
  from Parse_with_returns [OF assms(1) Suc.prems(1) this] show ?case by simp
qed simp

end
