(* ===== verification/Parser_Depth.thy ===== *)
theory Parser_Depth
  imports Parser_Returns
begin

text \<open>
  The depth to which definitions of the user may be nested is no part of the program. Here it is shown
  not to matter: a deeper recursion gives the same result (\<open>Parse_deeper\<close>), because every operation
  that has a result with a recursion \<open>f\<close> has the same result with one that extends \<open>f\<close>.
\<close>

definition extends :: "('s, 'a) action \<Rightarrow> ('s, 'a) action \<Rightarrow> bool" where
  "extends m m' \<longleftrightarrow> (\<forall>s r. m s = Some r \<longrightarrow> m' s = Some r)"

definition extends_nested :: "'v nested \<Rightarrow> 'v nested \<Rightarrow> bool" where
  "extends_nested f g \<longleftrightarrow> (\<forall>s str r. f s str = Some r \<longrightarrow> g s str = Some r)"

lemma extendsD: "extends m m' \<Longrightarrow> m s = Some r \<Longrightarrow> m' s = Some r"
  unfolding extends_def by blast

lemma extends_nestedD: "extends_nested f g \<Longrightarrow> f s str = Some r \<Longrightarrow> g s str = Some r"
  unfolding extends_nested_def by blast

named_theorems extends_intros \<open>operations are monotone in the recursion\<close>

lemma extends_refl [extends_intros]: "extends m m"
  by (simp add: extends_def)

lemma extends_andthen [extends_intros]:
  assumes "extends m m'" "\<And>x. extends (f x) (f' x)"
  shows "extends (andthen m f) (andthen m' f')"
  unfolding extends_def
proof (intro allI impI)
  fix s r assume "andthen m f s = Some r"
  then obtain q t where q: "m s = Some (q, t)" "(case q of Inl e \<Rightarrow> Some (Inl e, t) | Inr x \<Rightarrow> f x t) = Some r"
    by (auto simp: andthen_def bind_eq_Some_conv)
  then have "m' s = Some (q, t)" using assms(1) by (simp add: extends_def)
  then show "andthen m' f' s = Some r"
    using q(2) extendsD [OF assms(2)] by (cases q) simp_all
qed

lemma extends_if [extends_intros]:
  "extends m m' \<Longrightarrow> extends n n' \<Longrightarrow> extends (if b then m else n) (if b then m' else n')"
  by simp

lemma extends_option [extends_intros]:
  "extends m m' \<Longrightarrow> (\<And>x. extends (f x) (f' x)) \<Longrightarrow>
    extends (case r of None \<Rightarrow> m | Some x \<Rightarrow> f x) (case r of None \<Rightarrow> m' | Some x \<Rightarrow> f' x)"
  by (cases r) simp_all

lemma extends_prod [extends_intros]:
  "(\<And>x y. extends (f x y) (f' x y)) \<Longrightarrow> extends (case p of (x, y) \<Rightarrow> f x y) (case p of (x, y) \<Rightarrow> f' x y)"
  by (cases p) simp

lemma extends_from_option [extends_intros]:
  "(\<And>r. x = Some r \<Longrightarrow> y = Some r) \<Longrightarrow> extends (from_option x) (from_option y)"
  by (cases x) (auto simp: extends_def)

section \<open>The operations\<close>

lemma extends_Recurrence:
  "extends_nested f g \<Longrightarrow> extends (Parser_RecurrenceParsingVariablesOrFunction f v name str lv)
    (Parser_RecurrenceParsingVariablesOrFunction g v name str lv)"
  unfolding Parser_RecurrenceParsingVariablesOrFunction_def
  by (intro extends_intros) (erule (1) extends_nestedD)

lemma extends_GetValueOfVariable:
  "extends_nested f g \<Longrightarrow> extends (Parser_GetValueOfVariable V f name) (Parser_GetValueOfVariable V g name)"
  unfolding Parser_GetValueOfVariable_def Parser_GetValueOfUserDefinedVariable_def Let_def
  by (intro extends_intros extends_Recurrence) simp_all

lemma extends_CallFunction:
  "extends_nested f g \<Longrightarrow> extends (Parser_CallFunction V f name n i) (Parser_CallFunction V g name n i)"
  unfolding Parser_CallFunction_def Parser_GetValueOfUserDefinedFunction_def Let_def
  by (intro extends_intros extends_Recurrence) simp_all

lemma extends_RollingUpFinalBracket:
  "extends_nested f g \<Longrightarrow> extends (Parser_RollingUpFinalBracket V f) (Parser_RollingUpFinalBracket V g)"
  unfolding Parser_RollingUpFinalBracket_def apply_bracket_def
  by (intro extends_intros extends_CallFunction)

lemma extends_ReadOperatorAndCheckFinalBracket:
  assumes "extends_nested f g"
  shows "extends (Parser_ReadOperatorAndCheckFinalBracket V f item) (Parser_ReadOperatorAndCheckFinalBracket V g item)"
proof -
  have "Parser_ReadOperatorAndCheckFinalBracket V g item s = Some r"
    if "Parser_ReadOperatorAndCheckFinalBracket V f item s = Some r" for s r
  proof -
    have "f = f \<longrightarrow> Parser_ReadOperatorAndCheckFinalBracket V g item s = Some r"
    proof (rule Parser_ReadOperatorAndCheckFinalBracket.raw_induct [where P = "\<lambda>V f' item s r.
        f' = f \<longrightarrow> Parser_ReadOperatorAndCheckFinalBracket V g item s = Some r", OF _ that], rule impI)
    fix F V f' item s r
    assume 1: "\<And>V f' item s r. F V f' item s = Some r \<Longrightarrow> f' = f \<longrightarrow>
        Parser_ReadOperatorAndCheckFinalBracket V g item s = Some r"
      "andthen (Parser_ReadOperator V item) (\<lambda>(code, temp). if code = 1 then ret (1, temp)
         else if itype temp = last_bracket then andthen (Parser_RollingUpFinalBracket V f') (\<lambda>_. F V f' temp)
         else ret (0, temp)) s = Some r" "f' = f"
    have "extends (F V f temp) (Parser_ReadOperatorAndCheckFinalBracket V g temp)" for temp
      unfolding extends_def using 1(1) by blast
    then have "extends (andthen (Parser_ReadOperator V item) (\<lambda>(code, temp). if code = 1 then ret (1, temp)
         else if itype temp = last_bracket then andthen (Parser_RollingUpFinalBracket V f) (\<lambda>_. F V f temp)
         else ret (0, temp)))
       (andthen (Parser_ReadOperator V item) (\<lambda>(code, temp). if code = 1 then ret (1, temp)
         else if itype temp = last_bracket
         then andthen (Parser_RollingUpFinalBracket V g) (\<lambda>_. Parser_ReadOperatorAndCheckFinalBracket V g temp)
         else ret (0, temp)))"
      by (intro extends_intros extends_RollingUpFinalBracket [OF assms])
    then show "Parser_ReadOperatorAndCheckFinalBracket V g item s = Some r"
      using 1(2,3) by (subst Parser_ReadOperatorAndCheckFinalBracket.simps) (simp only: extendsD)
    qed
    then show ?thesis by simp
  qed
  then show ?thesis unfolding extends_def by blast
qed

lemma extends_iteration:
  assumes "extends_nested f g"
  shows "extends (Parse_iteration V f item) (Parse_iteration V g item)"
  unfolding Parse_iteration_def Parser_ReadValueVariableOrFunctionAndPushItIntoStack_def Let_def
    Parser_ReadValueVariableOrFunction_def Parser_ReadVariableOrFunction_def
  by (intro extends_intros extends_ReadOperatorAndCheckFinalBracket [OF assms] extends_GetValueOfVariable [OF assms])

lemma extends_loop:
  assumes "extends_nested f g"
  shows "extends (Parse_loop V f item) (Parse_loop V g item)"
proof -
  have "Parse_loop V g item s = Some r" if "Parse_loop V f item s = Some r" for s r
  proof -
    have "f = f \<longrightarrow> Parse_loop V g item s = Some r"
    proof (rule Parse_loop.raw_induct [where P = "\<lambda>V f' item s r.
        f' = f \<longrightarrow> Parse_loop V g item s = Some r", OF _ that], rule impI)
    fix F V f' item s r
    assume 1: "\<And>V f' item s r. F V f' item s = Some r \<Longrightarrow> f' = f \<longrightarrow> Parse_loop V g item s = Some r"
      "andthen (Parse_iteration V f' item) (\<lambda>(finished, item). if finished then ret () else F V f' item) s = Some r" "f' = f"
    have "extends (F V f item) (Parse_loop V g item)" for item
      unfolding extends_def using 1(1) by blast
    then have "extends (andthen (Parse_iteration V f item) (\<lambda>(finished, item). if finished then ret () else F V f item))
       (andthen (Parse_iteration V g item) (\<lambda>(finished, item). if finished then ret () else Parse_loop V g item))"
      by (intro extends_intros extends_iteration [OF assms])
    then show "Parse_loop V g item s = Some r"
      using 1(2,3) by (subst Parse_loop.simps) (simp only: extendsD)
    qed
    then show ?thesis by simp
  qed
  then show ?thesis unfolding extends_def by blast
qed

lemma extends_Parse_with:
  assumes "extends_nested f g"
  shows "extends_nested (Parse_with V f) (Parse_with V g)"
  unfolding extends_nested_def
proof (intro allI impI)
  fix s str r assume r: "Parse_with V f s str = Some r"
  then obtain q where "Parse_loop V f (Item_new V) (Parse_start V s str) = Some q"
    by (auto simp: Parse_with_def Parse_start_def Let_def)
  moreover from this have "Parse_loop V g (Item_new V) (Parse_start V s str) = Some q"
    by (rule extendsD [OF extends_loop [OF assms]])
  ultimately show "Parse_with V g s str = Some r"
    using r by (simp add: Parse_with_def Parse_start_def Let_def)
qed

lemma extends_Parse_Suc: "extends_nested (Parser_Parse depth V) (Parser_Parse (Suc depth) V)"
proof (induction depth)
  case 0
  show ?case by (simp add: extends_nested_def del: Parser_Parse.simps(2))
next
  case (Suc depth)
  have "Parser_Parse (Suc n) V = Parse_with V (Parser_Parse n V)" for n
    by (simp add: fun_eq_iff)
  then show ?case using extends_Parse_with [OF Suc.IH, of V] by simp
qed

lemma Parse_deeper:
  assumes "Parser_Parse depth V s str = Some r" "depth \<le> depth'"
  shows "Parser_Parse depth' V s str = Some r"
  using assms(2,1)
proof (induction depth' rule: dec_induct)
  case (step n)
  then show ?case using extends_nestedD [OF extends_Parse_Suc] by blast
qed simp

end
