(* ===== verification/Parser_Unread.thy ===== *)
theory Parser_Unread
  imports Parser_Depth
begin

text \<open>
  Actions that do not look at the rest of the string: operations on values, variables and calls. What
  they do is the same wherever the pointer into the string is, and they leave it where it is.
\<close>

definition unread :: "('v parser, 'a) action \<Rightarrow> bool" where
  "unread m \<longleftrightarrow> (\<forall>s p. m (s\<lparr>pstring := p\<rparr>) = map_option (map_prod id (\<lambda>s. s\<lparr>pstring := p\<rparr>)) (m s))"

named_theorems unread_intros \<open>actions that do not look at the string\<close>

lemma unreadD: "unread m \<Longrightarrow> m (s\<lparr>pstring := p\<rparr>) = map_option (map_prod id (\<lambda>s. s\<lparr>pstring := p\<rparr>)) (m s)"
  by (simp add: unread_def)

lemma unread_ret [unread_intros]: "unread (ret x)" by (simp add: unread_def)
lemma unread_throw [unread_intros]: "unread (throw e)" by (simp add: unread_def)
lemma unread_stuck [unread_intros]: "unread stuck" by (simp add: unread_def)
lemma unread_Error [unread_intros]: "unread (Parser_Error e)" by (simp add: unread_def Parser_Error_def)
lemma unread_throw_if [unread_intros]: "unread (throw_if b e)" by (cases b) (simp_all add: unread_def)
lemma unread_from_option [unread_intros]: "unread (from_option x)" by (cases x) (simp_all add: unread_def)

lemma unread_gets [unread_intros]: "(\<And>s p. f (s\<lparr>pstring := p\<rparr>) = f s) \<Longrightarrow> unread (gets f)"
  by (simp add: unread_def)

lemma unread_modify [unread_intros]:
  "(\<And>s p. f (s\<lparr>pstring := p\<rparr>) = (f s)\<lparr>pstring := p\<rparr>) \<Longrightarrow> unread (modify f)"
  by (simp add: unread_def)

lemma unread_andthen [unread_intros]:
  assumes "unread m" "\<And>x. unread (f x)"
  shows "unread (andthen m f)"
  unfolding unread_def
proof (intro allI)
  fix s p
  show "andthen m f (s\<lparr>pstring := p\<rparr>) = map_option (map_prod id (\<lambda>s. s\<lparr>pstring := p\<rparr>)) (andthen m f s)"
    using unreadD [OF assms(1), where s = s and p = p] unreadD [OF assms(2)]
    by (cases "m s") (auto simp: andthen_def split: sum.splits)
qed

lemma unread_if [unread_intros]: "unread m \<Longrightarrow> unread n \<Longrightarrow> unread (if b then m else n)"
  by simp

lemma unread_option [unread_intros]:
  "unread m \<Longrightarrow> (\<And>x. unread (f x)) \<Longrightarrow> unread (case r of None \<Rightarrow> m | Some x \<Rightarrow> f x)"
  by (cases r) simp_all

lemma unread_prod [unread_intros]: "(\<And>x y. unread (f x y)) \<Longrightarrow> unread (case p of (x, y) \<Rightarrow> f x y)"
  by (cases p) simp

lemma unread_stack_value [unread_intros]: "unread (stack_value i)"
  unfolding stack_value_def by (intro unread_intros) simp

lemma unread_check_err [unread_intros]: "unread (check_err r)"
  by (cases r) (auto simp: check_err_def intro!: unread_intros)

lemma unread_Convert [unread_intros]:
  "unread (Parser_ConvertAngleToRad V x)" "unread (Parser_ConvertRadToAngle V x)"
  unfolding Parser_ConvertAngleToRad_def Parser_ConvertRadToAngle_def by (intro unread_intros; simp)+

lemma unread_loops [unread_intros]:
  "unread (Max_loop V k i m r)" "unread (Min_loop V k i m r)" "unread (Or_loop V k i m r)"
  "unread (And_loop V k i m r)" "unread (Sum_loop V k i m r)"
  by (induction m arbitrary: i r) (auto intro!: unread_intros)

lemma unread_call: "unread (call_pfunction pf V k n r)"
  by (cases pf; simp only: call_pfunction.simps Parser_Gamma_def Parser_Factorial_def Parser_Abs_def
      Parser_Sin_def Parser_Cos_def Parser_Tan_def Parser_Cot_def Parser_Int_def Parser_Round_def
      Parser_Ln_def Parser_Log_def Parser_Exp_def Parser_Max_def Parser_Min_def Parser_ASin_def
      Parser_ACos_def Parser_ATan_def Parser_ACot_def Parser_Sgn_def Parser_Mod_def Parser_If_def
      Parser_Or_def Parser_And_def Parser_Not_def Parser_DegToRad_def Parser_RadToDeg_def
      Parser_DegToDeg_def Parser_GradToRad_def Parser_RadToGrad_def Parser_DegToGrad_def
      Parser_GradToDeg_def Parser_Ceil_def Parser_Floor_def Parser_Sqrt_def Parser_Sinh_def
      Parser_Cosh_def Parser_Tanh_def Parser_Coth_def Parser_Root_def Parser_ASinh_def
      Parser_ACosh_def Parser_ATanh_def Parser_ACoth_def Parser_BitAnd_def Parser_BitOr_def
      Parser_BitXor_def Parser_Sum_def Parser_Avg_def Parser_Frac_def function1_wrapper_def;
      intro unread_intros; simp)

lemma unread_MakeStandard [unread_intros]: "unread (Parser_MakeStandardMathematicOperation V x m y)"
  unfolding Parser_MakeStandardMathematicOperation_def carry_overflow_def
  by (cases m; simp only: mat_type.case; intro unread_intros; simp)

lemma unread_m_stop [unread_intros]: "unread m_stop"
  unfolding m_stop_def Let_def by (intro unread_intros; simp)

lemma unread_Recurrence [unread_intros]:
  "unread (Parser_RecurrenceParsingVariablesOrFunction nested v name str lv)"
  unfolding Parser_RecurrenceParsingVariablesOrFunction_def RecurrenceParsingVariablesOrFunction_CheckStopCondition_def
  by (intro unread_intros; simp add: RecurrenceParsingVariablesOrFunction_AddName_def
      RecurrenceParsingVariablesOrFunction_DeleteName_def Parser_new_copy_def Parser_assign_def)

lemma unread_GetValueOfVariable [unread_intros]: "unread (Parser_GetValueOfVariable V nested name)"
  unfolding Parser_GetValueOfVariable_def Parser_GetValueOfUserDefinedVariable_def
    Parser_GetValueOfFunctionLocalVariable_def Let_def
  by (intro unread_intros; simp)

lemma unread_m_builtin [unread_intros]: "unread (m_builtin V pf r vs)"
  unfolding unread_def
proof (intro allI)
  fix s p
  have "put (args_stack vs) 0 (s\<lparr>pstring := p\<rparr>) = (put (args_stack vs) 0 s)\<lparr>pstring := p\<rparr>"
    by (simp add: put_def)
  moreover have "env (t\<lparr>pstring := p\<rparr>) = (env t)\<lparr>pstring := p\<rparr>" for t :: "'a parser" by (simp add: env_def)
  ultimately show "m_builtin V pf r vs (s\<lparr>pstring := p\<rparr>) = map_option (map_prod id (\<lambda>s. s\<lparr>pstring := p\<rparr>)) (m_builtin V pf r vs s)"
    using unreadD [OF unread_call, where s = "put (args_stack vs) 0 s" and p = p]
    by (auto simp: m_builtin_def option.map_comp intro!: option.map_cong)
qed

lemma unread_m_call [unread_intros]: "unread (m_call V nested f r vs)"
  unfolding m_call_def m_user_function_def Let_def by (intro unread_intros; simp)

end
