(* ===== verification/Parser_Eval.thy ===== *)
theory Parser_Eval
  imports Parser_Unread
begin

text \<open>
  Expressions: \<open>expr\<close> is the abstract syntax (signed numbers, names, brackets and calls under the binary
  operators), \<open>print_expr\<close> the concrete syntax and \<open>eval\<close> the value, defined by recursion on the tree.
  A tree is well formed (\<open>wf_expr\<close>) when its brackets are where priority and associativity of the
  operators ask for them.

  The value of a call depends on what is left in the item from the last value that was read, since the
  wrappers of the functions find it in the object for their result; \<open>eval\<close> carries it along.
\<close>

section \<open>Expressions\<close>

datatype expr =
    Number bool string
  | Name bool string
  | Parens bool expr
  | Apply bool string "expr list"
  | Binary mat_type expr expr

fun operator_text :: "mat_type \<Rightarrow> string" where
  "operator_text mat_lor = ''||''"
| "operator_text mat_land = ''&&''"
| "operator_text mat_neq = ''!=''"
| "operator_text mat_eq = ''==''"
| "operator_text mat_get = ''>=''"
| "operator_text mat_let = ''<=''"
| "operator_text mat_gt = ''>''"
| "operator_text mat_lt = ''<''"
| "operator_text mat_sub = ''-''"
| "operator_text mat_add = ''+''"
| "operator_text mat_div = ''/''"
| "operator_text mat_mul = ''*''"
| "operator_text mat_pow = ''^''"
| "operator_text mat_shortmul = []"
| "operator_text mat_none = []"

definition sign_text :: "bool \<Rightarrow> string" where
  "sign_text b = (if b then ''-'' else [])"

fun print_expr :: "expr \<Rightarrow> string" and print_exprs :: "expr list \<Rightarrow> string" where
  "print_expr (Number b t) = sign_text b @ t @ '' ''"
| "print_expr (Name b x) = sign_text b @ x @ '' ''"
| "print_expr (Parens b e) = sign_text b @ ''('' @ print_expr e @ '') ''"
| "print_expr (Apply b f es) = sign_text b @ f @ ''('' @ print_exprs es @ '') ''"
| "print_expr (Binary m l r) = print_expr l @ operator_text m @ '' '' @ print_expr r"
| "print_exprs [] = []"
| "print_exprs [e] = print_expr e"
| "print_exprs (e # e' # es) = print_expr e @ '';'' @ print_exprs (e' # es)"

section \<open>Values\<close>

definition with_sign :: "'v value_type \<Rightarrow> bool \<Rightarrow> 'v \<Rightarrow> 'v" where
  "with_sign V b v = (if b then v_ChangeSign V v else v)"

definition reading_conv :: "'v parser \<Rightarrow> conv" where
  "reading_conv c = Conv_new\<lparr>conv_base := word_of_int (base c), conv_comma := word_of_int (comma c),
     conv_comma2 := word_of_int (comma2 c), conv_group := word_of_int (group c)\<rparr>"

definition literal_value :: "'v value_type \<Rightarrow> 'v parser \<Rightarrow> string \<Rightarrow> 'v" where
  "literal_value V c t = (case v_FromString V (v_new V) t (reading_conv c) of Some (_, v, _) \<Rightarrow> v | None \<Rightarrow> v_new V)"

text \<open>
  The value of a tree and what is left in the item. The settings are those of \<open>c\<close>; the stop object is
  asked before every operand, and once more before the bracket that closes an empty list of arguments.
\<close>

fun eval :: "'v value_type \<Rightarrow> 'v nested \<Rightarrow> 'v parser \<Rightarrow> expr \<Rightarrow> 'v \<Rightarrow> ('v parser, 'v \<times> 'v) action"
and evals :: "'v value_type \<Rightarrow> 'v nested \<Rightarrow> 'v parser \<Rightarrow> expr list \<Rightarrow> 'v \<Rightarrow> ('v parser, 'v list \<times> 'v) action" where
  "eval V nested c (Number b t) r =
     andthen m_stop (\<lambda>_. ret (with_sign V b (literal_value V c t), with_sign V b (literal_value V c t)))"
| "eval V nested c (Name b x) r =
     andthen m_stop (\<lambda>_. andthen (Parser_GetValueOfVariable V nested x) (\<lambda>v. ret (with_sign V b v, with_sign V b v)))"
| "eval V nested c (Parens b e) r =
     andthen m_stop (\<lambda>_. andthen (eval V nested c e r) (\<lambda>(v, r). ret (with_sign V b v, r)))"
| "eval V nested c (Apply b f es) r =
     andthen m_stop (\<lambda>_. andthen (evals V nested c es r) (\<lambda>(vs, r').
     andthen (m_call V nested f r vs) (\<lambda>v. ret (with_sign V b v, r'))))"
| "eval V nested c (Binary m e e') r =
     andthen (eval V nested c e r) (\<lambda>(v, r).
     andthen (eval V nested c e' r) (\<lambda>(w, r).
     andthen (Parser_MakeStandardMathematicOperation V v m w) (\<lambda>u. ret (u, r))))"
| "evals V nested c [] r = andthen m_stop (\<lambda>_. ret ([], r))"
| "evals V nested c [e] r = andthen (eval V nested c e r) (\<lambda>(v, r). ret ([v], r))"
| "evals V nested c (e # e' # es) r =
     andthen (eval V nested c e r) (\<lambda>(v, r).
     andthen (evals V nested c (e' # es) r) (\<lambda>(vs, r). ret (v # vs, r)))"

section \<open>Well-formed expressions\<close>

definition value_starts :: "'v parser \<Rightarrow> int \<Rightarrow> bool" where
  "value_starts c k \<longleftrightarrow> k = comma c \<or> (comma2 c \<noteq> 0 \<and> k = comma2 c) \<or>
     Misc_CharToDigit (word_of_int k) (word_of_int (base c)) \<noteq> - 1"

definition letter :: "char \<Rightarrow> bool" where
  "letter ch \<longleftrightarrow> is_small (char_int ch) \<or> is_big (char_int ch)"

text \<open>A literal is read as a whole, whatever the item holds and whatever follows it behind a space.\<close>

definition literal_ok :: "'v value_type \<Rightarrow> 'v parser \<Rightarrow> string \<Rightarrow> bool" where
  "literal_ok V c t \<longleftrightarrow> t \<noteq> [] \<and> value_starts c (Parser_ToLowerCase (char_int (hd t))) \<and>
     hd t \<notin> {CHR '' '', CHR 0x09, CHR ''-'', CHR ''+'', CHR ''('', CHR '')'', CHR ''#'', CHR ''&'', CHR 0x00} \<and>
     (\<forall>x p. \<exists>q. v_FromString V x (t @ '' '' @ p) (reading_conv c) = Some (0, literal_value V c t, q, True) \<and>
        skip_white q = skip_white p)"

definition name_ok :: "'v parser \<Rightarrow> string \<Rightarrow> bool" where
  "name_ok c x \<longleftrightarrow> x \<noteq> [] \<and> letter (hd x) \<and> list_all (\<lambda>ch. is_name_char (char_int ch)) (tl x) \<and>
     \<not> value_starts c (Parser_ToLowerCase (char_int (hd x)))"

text \<open>
  \<open>binds p q\<close> says that of two operators on both sides of an operand the first one is applied first. All
  operators at the right end of the left operand must be applied before the operator, and no operator
  at the left end of the right operand may lose its operand to it.
\<close>

fun right_binds :: "expr \<Rightarrow> mat_type \<Rightarrow> bool" where
  "right_binds (Binary m e e') q = (binds m q \<and> right_binds e' q)"
| "right_binds _ q = True"

fun left_free :: "mat_type \<Rightarrow> expr \<Rightarrow> bool" where
  "left_free p (Binary m e e') = (\<not> binds p m \<and> left_free p e)"
| "left_free p _ = True"

fun starts_name :: "expr \<Rightarrow> bool" where
  "starts_name (Name b x) = (\<not> b)"
| "starts_name (Apply b f es) = (\<not> b)"
| "starts_name (Binary m e e') = starts_name e"
| "starts_name _ = False"

fun wf_expr :: "'v value_type \<Rightarrow> 'v parser \<Rightarrow> expr \<Rightarrow> bool" where
  "wf_expr V c (Number b t) = literal_ok V c t"
| "wf_expr V c (Name b x) = name_ok c x"
| "wf_expr V c (Parens b e) = wf_expr V c e"
| "wf_expr V c (Apply b f es) = (name_ok c f \<and> (\<forall>e \<in> set es. wf_expr V c e))"
| "wf_expr V c (Binary m e e') = (m \<noteq> mat_none \<and> wf_expr V c e \<and> wf_expr V c e' \<and> right_binds e m \<and> left_free m e' \<and>
     (m = mat_shortmul \<longrightarrow> starts_name e'))"

end
