(* ===== verification/Parser_Operands.thy ===== *)
theory Parser_Operands
  imports Parser_Eval
begin

text \<open>
  The machine on printed expressions, one operand at a time: what it reads at each kind of operand
  (\<open>operand_number\<close>, \<open>operand_name\<close>, \<open>operand_parens\<close>, \<open>operand_apply\<close>) and what it does behind one
  (\<open>after_operand_follows\<close>, \<open>roll_runs\<close>).
\<close>

section \<open>Runs\<close>

text \<open>
  \<open>runs c x y k\<close>: the result \<open>y\<close> of the machine agrees with the result \<open>x\<close> of an evaluation. After an error
  it is this error; after a value \<open>z\<close> in the state \<open>s'\<close>, \<open>k z s'\<close> says how the machine goes on.
\<close>

definition runs :: "'v parser \<Rightarrow> ((error_code + 'a) \<times> 'v parser) option \<Rightarrow> ((error_code + 'b) \<times> 'v parser) option \<Rightarrow>
    ('a \<Rightarrow> 'v parser \<Rightarrow> bool) \<Rightarrow> bool" where
  "runs c x y k \<longleftrightarrow> (case x of
     None \<Rightarrow> True
   | Some (Inl e, s') \<Rightarrow> (\<exists>p. y = Some (Inl e, s'\<lparr>pstring := p\<rparr>))
   | Some (Inr z, s') \<Rightarrow> fixed s' = fixed c \<and> k z s')"

lemma runs_simps [simp]:
  "runs c None y k" "runs c (Some (Inl e, s')) y k \<longleftrightarrow> (\<exists>p. y = Some (Inl e, s'\<lparr>pstring := p\<rparr>))"
  "runs c (Some (Inr z, s')) y k \<longleftrightarrow> fixed s' = fixed c \<and> k z s'"
  by (simp_all add: runs_def)

lemma runs_andthen:
  assumes "runs c (m s) y k" "\<And>z s'. fixed s' = fixed c \<Longrightarrow> k z s' \<Longrightarrow> runs c (f z s') y k'"
  shows "runs c (andthen m f s) y k'"
proof (cases "m s")
  case (Some q)
  obtain r s' where q: "q = (r, s')" by (cases q)
  show ?thesis using assms Some q by (cases r) simp_all
qed simp

lemma runs_ret: "fixed s = fixed c \<Longrightarrow> k z s \<Longrightarrow> runs c (ret z s) y k"
  by (simp add: runs_def)

lemma runs_action:
  assumes "unread m" "keeps c m" "fixed s = fixed c" "y = andthen m g (s\<lparr>pstring := p\<rparr>)"
  shows "runs c (m s) y (\<lambda>z s'. y = g z (s'\<lparr>pstring := p\<rparr>))"
proof (cases "m s")
  case (Some q)
  obtain r s' where q: "q = (r, s')" by (cases q)
  have m: "m (s\<lparr>pstring := p\<rparr>) = Some (r, s'\<lparr>pstring := p\<rparr>)"
    using unreadD [OF assms(1), where s = s and p = p] Some q by simp
  show ?thesis
  proof (cases r)
    case (Inl e)
    then show ?thesis using Some q m assms(4) by (auto simp: runs_def)
  next
    case (Inr z)
    have "within c (length (pstring s)) s" using assms(3) by (simp add: within_def)
    moreover have "triple (within c (length (pstring s))) m (\<lambda>_. within c (length (pstring s))) (\<lambda>e _. ok_error e)"
      using assms(2) by (simp add: keeps_def)
    ultimately have "fixed s' = fixed c" using Some q Inr by (auto simp: triple_def within_def)
    then show ?thesis using Some q m assms(4) Inr by (simp add: runs_def)
  qed
qed (simp add: runs_def)

section \<open>The machine between two operands\<close>

definition settle ::
  "'v value_type \<Rightarrow> 'v nested \<Rightarrow> int \<Rightarrow> 'v item \<Rightarrow> 'v sym list \<Rightarrow> ('v parser, 'v sym list) action" where
  "settle V nested code item \<tau> = andthen (m_after_operator V code item \<tau>) (\<lambda>(finished, item, \<tau>).
     if finished then ret \<tau> else m_loop V nested item \<tau>)"

definition after_operand ::
  "'v value_type \<Rightarrow> 'v nested \<Rightarrow> 'v item \<Rightarrow> 'v sym list \<Rightarrow> ('v parser, 'v sym list) action" where
  "after_operand V nested item \<tau> =
     andthen (m_operator V nested item \<tau>) (\<lambda>(code, item, \<tau>). settle V nested code item \<tau>)"

definition operand ::
  "'v value_type \<Rightarrow> 'v nested \<Rightarrow> 'v item \<Rightarrow> 'v sym list \<Rightarrow> ('v parser, 'v sym list) action" where
  "operand V nested item \<tau> =
     andthen (Parser_ReadValueVariableOrFunction V nested item) (\<lambda>(code, item).
     andthen (if code = 0 then andthen (from_option (sym_of item)) (\<lambda>x. ret (x # \<tau>)) else ret \<tau>) (\<lambda>\<tau>.
     if (code = 0 \<or> code = 2) \<and> itype item = first_bracket then m_loop V nested item \<tau>
     else if code = 0 \<or> code = 2 then after_operand V nested item \<tau>
     else settle V nested code item \<tau>))"

lemma andthen_cong: "(\<And>x. f x = g x) \<Longrightarrow> andthen m f = andthen m g"
  by (rule arg_cong [of _ _ "andthen m"]) (rule ext)

lemma m_loop_operand: "m_loop V nested item \<tau> s = andthen m_stop (\<lambda>_. operand V nested item \<tau>) s"
proof -
  have "andthen (m_iteration V nested item \<tau>) (\<lambda>(finished, item, \<tau>). if finished then ret \<tau> else m_loop V nested item \<tau>) =
      andthen m_stop (\<lambda>_. operand V nested item \<tau>)"
    unfolding m_iteration_def operand_def after_operand_def settle_def andthen_assoc
    by (intro andthen_cong) (auto simp: andthen_assoc split_beta intro!: andthen_cong)
  then show ?thesis by (subst m_loop.simps) simp
qed

lemma char_int_inject [simp]: "char_int a = char_int b \<longleftrightarrow> a = b"
proof
  assume "char_int a = char_int b"
  moreover have "(of_char a :: int) < 256" "(of_char b :: int) < 256" "0 \<le> (of_char a :: int)" "0 \<le> (of_char b :: int)"
    by (simp_all add: of_char_def)
  ultimately have "(of_char a :: int) = of_char b" by (auto simp: char_int_def Let_def split: if_splits)
  then show "a = b" by simp
qed simp

lemma char_int_zero [simp]: "char_int a = 0 \<longleftrightarrow> a = CHR 0x00"
  using char_int_inject [of a "CHR 0x00"] by (simp add: char_int_def)

lemma next_char_Cons [simp]: "next_char (s\<lparr>pstring := ch # p\<rparr>) = char_int ch" "next_char (s\<lparr>pstring := []\<rparr>) = 0"
  by (simp_all add: next_char_def)

lemma advance_Cons [simp]: "advance (s\<lparr>pstring := ch # p\<rparr>) = Some (Inr (), s\<lparr>pstring := p\<rparr>)"
  by (simp add: advance_def)

lemma m_read_operator_skip:
  "skip_white p = skip_white q \<Longrightarrow> m_read_operator V item \<tau> (s\<lparr>pstring := p\<rparr>) = m_read_operator V item \<tau> (s\<lparr>pstring := q\<rparr>)"
  by (simp add: m_read_operator_def)

lemma after_operand_skip:
  "skip_white p = skip_white q \<Longrightarrow>
    after_operand V nested item \<tau> (s\<lparr>pstring := p\<rparr>) = after_operand V nested item \<tau> (s\<lparr>pstring := q\<rparr>)"
  unfolding after_operand_def andthen_def
  by (simp add: m_operator.simps [of V nested item \<tau> "s\<lparr>pstring := p\<rparr>"] m_operator.simps [of V nested item \<tau> "s\<lparr>pstring := q\<rparr>"]
      andthen_def m_read_operator_skip [of p q])

lemma operand_skip:
  "skip_white p = skip_white q \<Longrightarrow> operand V nested item \<tau> (s\<lparr>pstring := p\<rparr>) = operand V nested item \<tau> (s\<lparr>pstring := q\<rparr>)"
  unfolding operand_def Parser_ReadValueVariableOrFunction_def Parser_TestSign_def by (simp add: andthen_assoc)

section \<open>Reading the operands\<close>

lemma fixed_settings:
  assumes "fixed s = fixed c"
  shows "base s = base c" "group s = group c"
  using arg_cong [where f = base, OF assms] arg_cong [where f = group, OF assms] by (simp_all add: fixed_def)

definition plain_char :: "char \<Rightarrow> bool" where
  "plain_char ch \<longleftrightarrow> ch \<notin> {CHR '' '', CHR 0x09, CHR ''-'', CHR ''+''}"

lemma letter_plain: "letter ch \<Longrightarrow> plain_char ch"
  by (auto simp: letter_def plain_char_def is_small_def is_big_def char_int_def)

lemma skip_plain [simp]: "plain_char ch \<Longrightarrow> skip_white (ch # p) = ch # p"
  by (simp add: plain_char_def)

lemma ReadValue_signed:
  assumes "plain_char ch"
  shows "Parser_ReadValueVariableOrFunction V nested item (s\<lparr>pstring := sign_text b @ ch # p\<rparr>) =
    read_unsigned V nested b (item\<lparr>isign := b\<rparr>) (Parser_ToLowerCase (char_int ch)) (s\<lparr>pstring := ch # p\<rparr>)"
proof -
  have "Parser_TestSign item (s\<lparr>pstring := sign_text b @ ch # p\<rparr>) = Some (Inr (b, item\<lparr>isign := b\<rparr>), s\<lparr>pstring := ch # p\<rparr>)"
    using assms by (cases b) (auto simp: Parser_TestSign_def Let_def sign_text_def plain_char_def)
  then show ?thesis
    using assms unfolding ReadValueVariableOrFunction_unsigned by (auto simp: plain_char_def)
qed

lemma ValueStarts_value_starts:
  assumes "fixed s = fixed c"
  shows "Parser_ValueStarts k (base c) s = Some (Inr (value_starts c k), s)"
  using fixed_fields(7,8) [OF assms] by (auto simp: Parser_ValueStarts_def value_starts_def)

lemma ReadName_reads:
  assumes "list_all (\<lambda>ch. is_name_char (char_int ch)) x" "p = [] \<or> \<not> is_name_char (char_int (hd p))"
  shows "ReadName_loop result (x @ p) = (result @ x, p)"
  using assms(1)
proof (induction x arbitrary: result)
  case Nil
  then show ?case using assms(2) by (cases p) simp_all
qed simp

lemma name_charD:
  assumes "name_ok c x"
  obtains ch y where "x = ch # y" "letter ch" "list_all (\<lambda>ch. is_name_char (char_int ch)) y"
    "is_small (Parser_ToLowerCase (char_int ch))" "Parser_ToLowerCase (char_int ch) \<noteq> 0"
    "Parser_ToLowerCase (char_int ch) \<notin> char_int ` {CHR ''('', CHR '')'', CHR ''#'', CHR ''&''}"
    "\<not> value_starts c (Parser_ToLowerCase (char_int ch))"
proof -
  obtain ch y where x: "x = ch # y" using assms by (cases x) (auto simp: name_ok_def)
  have l: "letter ch" using assms x by (simp add: name_ok_def)
  then have small: "is_small (Parser_ToLowerCase (char_int ch))"
    by (auto simp: letter_def is_small_def is_big_def Parser_ToLowerCase_def char_int_def)
  have "k \<noteq> 0" "k \<notin> char_int ` {CHR ''('', CHR '')'', CHR ''#'', CHR ''&''}" if "is_small k" for k
    using that by (auto simp: is_small_def char_int_def)
  from this [OF small] show thesis using that [OF x l _ small] assms x by (simp add: name_ok_def)
qed

lemma read_number:
  assumes "literal_ok V c t" "fixed s = fixed c"
  obtains q where "skip_white q = skip_white p"
    "read_unsigned V nested b item (Parser_ToLowerCase (char_int (hd t))) (s\<lparr>pstring := t @ '' '' @ p\<rparr>) =
      Some (Inr (finish_value V (item\<lparr>ivalue := literal_value V c t\<rparr>)), s\<lparr>pstring := q\<rparr>)"
proof -
  let ?k = "Parser_ToLowerCase (char_int (hd t))"
  obtain q where q: "skip_white q = skip_white p"
    "v_FromString V (ivalue item) (t @ '' '' @ p) (reading_conv c) = Some (0, literal_value V c t, q, True)"
    using assms(1) unfolding literal_ok_def by blast
  have k: "?k \<noteq> 0" "?k \<noteq> char_int CHR ''(''" "?k \<noteq> char_int CHR '')''" "?k \<noteq> char_int CHR ''#''" "?k \<noteq> char_int CHR ''&''"
    using assms(1) by (auto simp: literal_ok_def ToLowerCase_signs)
  let ?s = "s\<lparr>pstring := t @ '' '' @ p\<rparr>"
  have s: "fixed ?s = fixed c" using assms(2) by simp
  have "Parser_ReadValue V item (base c) ?s = Some (Inr (item\<lparr>ivalue := literal_value V c t\<rparr>), s\<lparr>pstring := q\<rparr>)"
    using q(2) fixed_fields(7,8) [OF s] fixed_settings [OF s]
    by (simp add: Parser_ReadValue_def reading_conv_def)
  then have "read_unsigned V nested b item ?k ?s = Some (Inr (finish_value V (item\<lparr>ivalue := literal_value V c t\<rparr>)), s\<lparr>pstring := q\<rparr>)"
    using k ValueStarts_value_starts [OF s, of ?k] fixed_settings [OF s] assms(1)
    by (simp add: read_unsigned_def literal_ok_def)
  with q(1) show thesis by (rule that)
qed

lemma ReadName_name:
  assumes "name_ok c x" "p = [] \<or> \<not> is_name_char (char_int (hd p))"
  shows "Parser_ReadName (s\<lparr>pstring := x @ p\<rparr>) =
    (if next_char (s\<lparr>pstring := skip_white p\<rparr>) = char_int CHR ''('' then andthen advance (\<lambda>_. ret (True, x)) else ret (False, x))
      (s\<lparr>pstring := skip_white p\<rparr>)"
proof -
  obtain ch y where x: "x = ch # y" "letter ch" "list_all (\<lambda>ch. is_name_char (char_int ch)) y"
    using assms(1) by (rule name_charD)
  then show ?thesis
    using ReadName_reads [OF x(3) assms(2), of "[ch]"]
    by (cases "is_small (char_int ch)") (simp_all add: Parser_ReadName_def letter_def)
qed

lemma read_unsigned_name:
  assumes "name_ok c x" "fixed s = fixed c" "x = ch # y"
  shows "read_unsigned V nested b item (Parser_ToLowerCase (char_int ch)) (s\<lparr>pstring := p\<rparr>) =
    andthen (Parser_ReadVariableOrFunction V nested item) (\<lambda>(is_function, result).
      if is_function then ret (0, result) else ret (finish_value V result)) (s\<lparr>pstring := p\<rparr>)"
proof -
  have s: "fixed (s\<lparr>pstring := p\<rparr>) = fixed c" using assms(2) by simp
  show ?thesis
    using assms(1,3) ValueStarts_value_starts [OF s] fixed_settings [OF s]
    by (elim name_charD) (simp add: read_unsigned_def)
qed

lemma read_name:
  assumes "name_ok c x" "fixed s = fixed c" "next_char (s\<lparr>pstring := skip_white p\<rparr>) \<noteq> char_int CHR ''(''"
  shows "read_unsigned V nested b item (Parser_ToLowerCase (char_int (hd x))) (s\<lparr>pstring := x @ '' '' @ p\<rparr>) =
    andthen (Parser_GetValueOfVariable V nested x) (\<lambda>v. ret (finish_value V (item\<lparr>ivalue := v\<rparr>)))
      (s\<lparr>pstring := skip_white p\<rparr>)"
proof -
  obtain ch y where x: "x = ch # y" using assms(1) by (rule name_charD)
  have sp: "'' '' @ p = [] \<or> \<not> is_name_char (char_int (hd ('' '' @ p)))"
    by (simp add: is_name_char_def is_small_def is_big_def char_int_def)
  have "Parser_ReadName (s\<lparr>pstring := x @ '' '' @ p\<rparr>) = Some (Inr (False, x), s\<lparr>pstring := skip_white p\<rparr>)"
    using ReadName_name [OF assms(1) sp, of s] assms(3) by simp
  then show ?thesis
    using read_unsigned_name [OF assms(1,2) x, of V nested b item "x @ '' '' @ p"]
    by (simp add: x Parser_ReadVariableOrFunction_def andthen_assoc del: ret_apply)
qed

lemma read_call:
  assumes "name_ok c f" "fixed s = fixed c"
  shows "read_unsigned V nested b item (Parser_ToLowerCase (char_int (hd f))) (s\<lparr>pstring := f @ ''('' @ p\<rparr>) =
    Some (Inr (0, item\<lparr>function_name := f, itype := first_bracket, ifunction := True\<rparr>), s\<lparr>pstring := p\<rparr>)"
proof -
  obtain ch y where f: "f = ch # y" using assms(1) by (rule name_charD)
  have sp: "''('' @ p = [] \<or> \<not> is_name_char (char_int (hd (''('' @ p)))"
    by (simp add: is_name_char_def is_small_def is_big_def char_int_def)
  have "Parser_ReadName (s\<lparr>pstring := f @ ''('' @ p\<rparr>) = Some (Inr (True, f), s\<lparr>pstring := p\<rparr>)"
    using ReadName_name [OF assms(1) sp, of s] by simp
  then show ?thesis
    using read_unsigned_name [OF assms f, of V nested b item "f @ ''('' @ p"]
    by (simp add: f Parser_ReadVariableOrFunction_def)
qed

lemma read_open:
  "read_unsigned V nested b item (Parser_ToLowerCase (char_int CHR ''('')) (s\<lparr>pstring := ''('' @ p\<rparr>) =
    Some (Inr (0, item\<lparr>itype := first_bracket, ifunction := False\<rparr>), s\<lparr>pstring := p\<rparr>)"
  by (simp add: read_unsigned_def ToLowerCase_signs char_int_distinct)

lemma finish_value_sym:
  "fst (finish_value V item) = 0" "sym_of (snd (finish_value V item)) = Some (Val (with_sign V (isign item) (ivalue item)))"
  "ivalue (snd (finish_value V item)) = with_sign V (isign item) (ivalue item)"
  by (simp_all add: finish_value_def Let_def sym_of_iff with_sign_def)

lemma operand_value:
  "Parser_ReadValueVariableOrFunction V nested item s = Some (Inr (0, item'), s') \<Longrightarrow> sym_of item' = Some (Val v) \<Longrightarrow>
    operand V nested item \<sigma> s = after_operand V nested item' (Val v # \<sigma>) s'"
  using kind_sym_of [of item' "Val v"] by (simp add: operand_def)

lemma operand_bracket:
  "Parser_ReadValueVariableOrFunction V nested item s = Some (Inr (0, item'), s') \<Longrightarrow> sym_of item' = Some (Bracket b f r) \<Longrightarrow>
    operand V nested item \<sigma> s = m_loop V nested item' (Bracket b f r # \<sigma>) s'"
  using kind_sym_of [of item' "Bracket b f r"] by (simp add: operand_def)

lemma operand_number:
  assumes "literal_ok V c t" "fixed s = fixed c"
  obtains item' where "ivalue item' = with_sign V b (literal_value V c t)"
    "operand V nested item \<sigma> (s\<lparr>pstring := print_expr (Number b t) @ p\<rparr>) =
      after_operand V nested item' (Val (with_sign V b (literal_value V c t)) # \<sigma>) (s\<lparr>pstring := p\<rparr>)"
proof -
  obtain ch y where t: "t = ch # y" "plain_char ch"
    using assms(1) by (cases t) (auto simp: literal_ok_def plain_char_def)
  let ?i = "item\<lparr>isign := b, ivalue := literal_value V c t\<rparr>"
  obtain q where q: "skip_white q = skip_white p"
    "read_unsigned V nested b (item\<lparr>isign := b\<rparr>) (Parser_ToLowerCase (char_int (hd t))) (s\<lparr>pstring := t @ '' '' @ p\<rparr>) =
      Some (Inr (finish_value V ?i), s\<lparr>pstring := q\<rparr>)"
    using read_number [OF assms, of p nested b "item\<lparr>isign := b\<rparr>"] by auto
  have "Parser_ReadValueVariableOrFunction V nested item (s\<lparr>pstring := print_expr (Number b t) @ p\<rparr>) =
      Some (Inr (0, snd (finish_value V ?i)), s\<lparr>pstring := q\<rparr>)"
    using q(2) ReadValue_signed [OF t(2), where V = V and nested = nested and item = item and s = s and b = b and p = "y @ '' '' @ p"] finish_value_sym(1) [of V ?i]
    by (simp add: t(1) prod_eq_iff)
  from operand_value [OF this finish_value_sym(2)] show thesis
    using after_operand_skip [OF q(1)] finish_value_sym(3) [of V ?i] by (intro that) simp_all
qed

lemma operand_name:
  assumes "name_ok c x" "fixed s = fixed c" "next_char (s\<lparr>pstring := skip_white p\<rparr>) \<noteq> char_int CHR ''(''"
  obtains item' where "\<And>v. ivalue (item' v) = with_sign V b v"
    "operand V nested item \<sigma> (s\<lparr>pstring := print_expr (Name b x) @ p\<rparr>) =
      andthen (Parser_GetValueOfVariable V nested x) (\<lambda>v. after_operand V nested (item' v) (Val (with_sign V b v) # \<sigma>))
        (s\<lparr>pstring := skip_white p\<rparr>)"
proof -
  obtain ch y where x: "x = ch # y" "letter ch" using assms(1) by (rule name_charD)
  let ?i = "\<lambda>v. item\<lparr>isign := b, ivalue := v\<rparr>"
  have "Parser_ReadValueVariableOrFunction V nested item (s\<lparr>pstring := print_expr (Name b x) @ p\<rparr>) =
      andthen (Parser_GetValueOfVariable V nested x) (\<lambda>v. ret (finish_value V (?i v))) (s\<lparr>pstring := skip_white p\<rparr>)"
    using read_name [OF assms, of V nested b "item\<lparr>isign := b\<rparr>"]
      ReadValue_signed [OF letter_plain [OF x(2)], where V = V and nested = nested and item = item and s = s and b = b and p = "y @ '' '' @ p"]
    by (simp add: x(1) del: ret_apply)
  then have "operand V nested item \<sigma> (s\<lparr>pstring := print_expr (Name b x) @ p\<rparr>) =
      andthen (Parser_GetValueOfVariable V nested x) (\<lambda>v. after_operand V nested (snd (finish_value V (?i v))) (Val (with_sign V b v) # \<sigma>))
        (s\<lparr>pstring := skip_white p\<rparr>)"
    using finish_value_sym [of V "?i _"] kind_sym_of [OF finish_value_sym(2) [of V "?i _"]]
    by (simp add: operand_def andthen_def split_beta split: Option.bind_split sum.split)
  then show thesis by (rule that [rotated]) (simp add: finish_value_sym(3))
qed

lemma operand_parens:
  obtains item' where "ivalue item' = ivalue item"
    "operand V nested item \<sigma> (s\<lparr>pstring := sign_text b @ ''('' @ p\<rparr>) =
      m_loop V nested item' (Bracket b None (ivalue item) # \<sigma>) (s\<lparr>pstring := p\<rparr>)"
proof -
  let ?i = "item\<lparr>isign := b, itype := first_bracket, ifunction := False\<rparr>"
  have "plain_char CHR ''(''" by (simp add: plain_char_def)
  from ReadValue_signed [OF this, where V = V and nested = nested and item = item and s = s and b = b and p = p]
  have "Parser_ReadValueVariableOrFunction V nested item (s\<lparr>pstring := sign_text b @ ''('' @ p\<rparr>) = Some (Inr (0, ?i), s\<lparr>pstring := p\<rparr>)"
    using read_open [where V = V and nested = nested and b = b and item = "item\<lparr>isign := b\<rparr>" and s = s and p = p] by simp
  from operand_bracket [OF this, of b None "ivalue item" \<sigma>] show thesis
    by (intro that [of ?i]) (simp_all add: sym_of_iff)
qed

lemma operand_apply:
  assumes "name_ok c f" "fixed s = fixed c"
  obtains item' where "ivalue item' = ivalue item"
    "operand V nested item \<sigma> (s\<lparr>pstring := sign_text b @ f @ ''('' @ p\<rparr>) =
      m_loop V nested item' (Bracket b (Some f) (ivalue item) # \<sigma>) (s\<lparr>pstring := p\<rparr>)"
proof -
  obtain ch y where f: "f = ch # y" "letter ch" using assms(1) by (rule name_charD)
  let ?i = "item\<lparr>isign := b, function_name := f, itype := first_bracket, ifunction := True\<rparr>"
  from ReadValue_signed [OF letter_plain [OF f(2)], where V = V and nested = nested and item = item and s = s and b = b and p = "y @ ''('' @ p"]
  have "Parser_ReadValueVariableOrFunction V nested item (s\<lparr>pstring := sign_text b @ f @ ''('' @ p\<rparr>) = Some (Inr (0, ?i), s\<lparr>pstring := p\<rparr>)"
    using read_call [OF assms, where V = V and nested = nested and b = b and item = "item\<lparr>isign := b\<rparr>" and p = p] by (simp add: f)
  from operand_bracket [OF this, of b "Some f" "ivalue item" \<sigma>] show thesis
    by (intro that [of ?i]) (simp_all add: sym_of_iff)
qed

section \<open>What follows an operand\<close>

definition standard_operators :: operators_table where
  "standard_operators =
    [(''!='', mat_neq), (''&&'', mat_land), (''*'', mat_mul), (''+'', mat_add), (''-'', mat_sub), (''/'', mat_div),
     (''<'', mat_lt), (''<='', mat_let), (''=='', mat_eq), (''>'', mat_gt), (''>='', mat_get), (''^'', mat_pow),
     (''||'', mat_lor)]"

lemma operators_table_new: "operators_table Parser_new = standard_operators"
  by code_simp

lemma standard_operators_ok: "operators_ok standard_operators"
  by (simp add: standard_operators_def operators_ok_def)

definition standard_settings :: "'v parser \<Rightarrow> bool" where
  "standard_settings c \<longleftrightarrow> operators_table c = standard_operators \<and>
     (param_sep c = 0 \<or> param_sep c = char_int CHR '';'')"

text \<open>Behind an operand: the end, a closing bracket or a semicolon; or an operator.\<close>

fun follows :: "string \<Rightarrow> mat_type option \<Rightarrow> bool" where
  "follows p None \<longleftrightarrow> skip_white p = [] \<or> (\<exists>p'. skip_white p = CHR '')'' # p') \<or> (\<exists>p'. skip_white p = CHR '';'' # p')"
| "follows p (Some q) \<longleftrightarrow> q \<noteq> mat_none \<and>
     (\<exists>p'. p = operator_text q @ '' '' @ p' \<and> (q = mat_shortmul \<longrightarrow> p' \<noteq> [] \<and> letter (hd p')))"

lemma follows_not_open:
  assumes "follows p nx"
  shows "next_char (s\<lparr>pstring := skip_white p\<rparr>) \<noteq> char_int CHR ''(''"
proof (cases nx)
  case None
  then show ?thesis using assms by auto
next
  case (Some q)
  then obtain p' where p: "p = operator_text q @ '' '' @ p'" "q = mat_shortmul \<longrightarrow> p' \<noteq> [] \<and> letter (hd p')" "q \<noteq> mat_none"
    using assms by auto
  show ?thesis
  proof (cases "q = mat_shortmul")
    case True
    then obtain ch y where "p' = ch # y" "letter ch" using p(2) by (cases p') auto
    moreover from this have "ch \<noteq> CHR ''(''" by (auto simp: letter_def is_small_def is_big_def char_int_def)
    ultimately show ?thesis using p(1) True letter_plain [of ch] by (auto simp: plain_char_def)
  qed (use p in \<open>cases q; simp\<close>)
qed

lemma oper_matches_text:
  "oper_matches standard_operators ''!'' = Some (''!='', mat_neq)"
  "oper_matches standard_operators ''!='' = Some (''!='', mat_neq)"
  "oper_matches standard_operators ''&'' = Some (''&&'', mat_land)"
  "oper_matches standard_operators ''&&'' = Some (''&&'', mat_land)"
  "oper_matches standard_operators ''*'' = Some (''*'', mat_mul)"
  "oper_matches standard_operators ''+'' = Some (''+'', mat_add)"
  "oper_matches standard_operators ''-'' = Some (''-'', mat_sub)"
  "oper_matches standard_operators ''/'' = Some (''/'', mat_div)"
  "oper_matches standard_operators ''<'' = Some (''<'', mat_lt)"
  "oper_matches standard_operators ''<='' = Some (''<='', mat_let)"
  "oper_matches standard_operators ''='' = Some (''=='', mat_eq)"
  "oper_matches standard_operators ''=='' = Some (''=='', mat_eq)"
  "oper_matches standard_operators ''>'' = Some (''>'', mat_gt)"
  "oper_matches standard_operators ''>='' = Some (''>='', mat_get)"
  "oper_matches standard_operators ''^'' = Some (''^'', mat_pow)"
  "oper_matches standard_operators ''|'' = Some (''||'', mat_lor)"
  "oper_matches standard_operators ''||'' = Some (''||'', mat_lor)"
  by code_simp+

lemma oper_matches_space:
  "oper_matches standard_operators (operator_text q @ '' '') = None"
  by (cases q; simp only: operator_text.simps append.simps; code_simp)

lemma reads_operator:
  assumes "q \<noteq> mat_none" "q \<noteq> mat_shortmul"
  shows "ReadMathematicalOperator_loop item standard_operators [] None (operator_text q @ '' '' @ p) s =
    Some (Inr (item\<lparr>itype := mat_operator, moperator := std_op q\<rparr>), s\<lparr>pstring := '' '' @ p\<rparr>)"
  using assms oper_matches_space [of q]
  by (cases q) (simp_all add: oper_matches_text finish_operator_def SetType_std_op)

lemma m_read_operator_text:
  assumes "q \<noteq> mat_none" "q = mat_shortmul \<longrightarrow> p \<noteq> [] \<and> letter (hd p)" "standard_settings c"
  obtains p' where "skip_white p' = skip_white p"
    "\<And>item \<tau> s. fixed s = fixed c \<Longrightarrow> m_read_operator V item \<tau> (s\<lparr>pstring := operator_text q @ '' '' @ p\<rparr>) =
      Some (Inr (0, item\<lparr>itype := mat_operator, moperator := std_op q\<rparr>, \<tau>), s\<lparr>pstring := p'\<rparr>)"
proof (cases "q = mat_shortmul")
  case True
  then obtain ch y where p: "p = ch # y" "letter ch" using assms(2) by (cases p) auto
  have "m_read_operator V item \<tau> (s\<lparr>pstring := operator_text q @ '' '' @ p\<rparr>) =
      Some (Inr (0, item\<lparr>itype := mat_operator, moperator := std_op q\<rparr>, \<tau>), s\<lparr>pstring := p\<rparr>)"
    if "fixed s = fixed c" for item \<tau> and s :: "'a parser"
  proof -
    have "param_sep s = 0 \<or> param_sep s = char_int CHR '';''"
      using assms(3) fixed_fields(6) [OF that] by (simp add: standard_settings_def)
    moreover have "ch \<notin> {CHR ''%'', CHR '')'', CHR '';'', CHR 0x00, CHR '' '', CHR 0x09}" "is_small (char_int ch) \<or> is_big (char_int ch)"
      using p(2) by (auto simp: letter_def is_small_def is_big_def char_int_def)
    ultimately show ?thesis
      using True p(1) by (auto simp: m_read_operator_def SetType_std_op)
  qed
  then show thesis by (intro that [of p]) simp_all
next
  case False
  have "m_read_operator V item \<tau> (s\<lparr>pstring := operator_text q @ '' '' @ p\<rparr>) =
      Some (Inr (0, item\<lparr>itype := mat_operator, moperator := std_op q\<rparr>, \<tau>), s\<lparr>pstring := '' '' @ p\<rparr>)"
    if "fixed s = fixed c" for item \<tau> and s :: "'a parser"
  proof -
    have sep: "param_sep s = 0 \<or> param_sep s = char_int CHR '';''" "operators_table s = standard_operators"
      using assms(3) fixed_fields(1,6) [OF that] by (simp_all add: standard_settings_def)
    obtain ch y where t: "operator_text q = ch # y" "ch \<notin> {CHR ''%'', CHR '')'', CHR '';'', CHR 0x00, CHR '' '', CHR 0x09}"
      "\<not> is_small (char_int ch)" "\<not> is_big (char_int ch)"
      using assms(1) False by (cases q) (auto simp: is_small_def is_big_def char_int_def)
    have "Parser_ReadMathematicalOperator item (s\<lparr>pstring := operator_text q @ '' '' @ p\<rparr>) =
        Some (Inr (item\<lparr>itype := mat_operator, moperator := std_op q\<rparr>), s\<lparr>pstring := '' '' @ p\<rparr>)"
      using reads_operator [OF assms(1) False, of item p "s\<lparr>pstring := operator_text q @ '' '' @ p\<rparr>"] sep(2)
      by (simp add: Parser_ReadMathematicalOperator_def)
    then show ?thesis using t sep(1) by (auto simp: m_read_operator_def)
  qed
  then show thesis by (intro that [of "'' '' @ p"]) simp_all
qed

lemma andthen_from_Some [simp]: "andthen (from_option (Some x)) f = f x"
  by (simp add: fun_eq_iff)

lemma settle_operator:
  "sym_of item = Some (Op q) \<Longrightarrow> settle V nested 0 item \<tau> = andthen (m_roll_priority V (Op q # \<tau>)) (\<lambda>\<tau>. m_loop V nested item \<tau>)"
  using kind_sym_of [of item "Op q"] by (simp add: settle_def m_after_operator_def andthen_assoc)

lemma settle_semicolon:
  "itype item = semicolon \<Longrightarrow>
    settle V nested 0 item (Val v # \<sigma>) = andthen (m_roll V (Val v # \<sigma>)) (\<lambda>\<tau>. m_loop V nested item (Semi # \<tau>))"
  using sym_of_iff(4) [of item] by (simp add: settle_def m_after_operator_def andthen_assoc del: m_roll.simps ret_apply)

lemma settle_end:
  "settle V nested 1 item (Val v # \<sigma>) = andthen (m_roll V (Val v # \<sigma>)) (\<lambda>\<tau>.
     andthen (throw_if (\<not> (\<forall>x \<in> set \<tau>. kind x \<in> {numerical_value, semicolon})) err_stack_not_clear) (\<lambda>_. ret \<tau>))"
  by (simp add: settle_def m_after_operator_def andthen_assoc del: m_roll.simps ret_apply)

lemma after_operand_code:
  assumes "m_read_operator V item \<tau> (s\<lparr>pstring := p\<rparr>) = Some (Inr (code, item', \<tau>), s\<lparr>pstring := p'\<rparr>)"
    "code = 1 \<or> code = 0 \<and> itype item' \<noteq> last_bracket"
  shows "after_operand V nested item \<tau> (s\<lparr>pstring := p\<rparr>) = settle V nested code item' \<tau> (s\<lparr>pstring := p'\<rparr>)"
proof -
  have "m_operator V nested item \<tau> (s\<lparr>pstring := p\<rparr>) = Some (Inr (code, item', \<tau>), s\<lparr>pstring := p'\<rparr>)"
    using assms by (subst m_operator.simps) auto
  then show ?thesis by (simp add: after_operand_def)
qed

lemma after_operand_close:
  assumes "skip_white p = CHR '')'' # p'"
  shows "after_operand V nested item \<tau> (s\<lparr>pstring := p\<rparr>) =
    andthen (m_final_bracket V nested \<tau>) (\<lambda>\<tau>'. after_operand V nested (item\<lparr>itype := last_bracket\<rparr>) \<tau>') (s\<lparr>pstring := p'\<rparr>)"
proof -
  have "m_read_operator V item \<tau> (s\<lparr>pstring := p\<rparr>) = Some (Inr (0, item\<lparr>itype := last_bracket\<rparr>, \<tau>), s\<lparr>pstring := p'\<rparr>)"
    using assms by (simp add: m_read_operator_def)
  then have "m_operator V nested item \<tau> (s\<lparr>pstring := p\<rparr>) =
      andthen (m_final_bracket V nested \<tau>) (m_operator V nested (item\<lparr>itype := last_bracket\<rparr>)) (s\<lparr>pstring := p'\<rparr>)"
    by (subst m_operator.simps) simp
  then have "after_operand V nested item \<tau> (s\<lparr>pstring := p\<rparr>) =
      andthen (andthen (m_final_bracket V nested \<tau>) (m_operator V nested (item\<lparr>itype := last_bracket\<rparr>)))
        (\<lambda>(code, item, \<tau>). settle V nested code item \<tau>) (s\<lparr>pstring := p'\<rparr>)"
    unfolding after_operand_def by (simp add: andthen_def)
  then show ?thesis by (simp add: andthen_assoc after_operand_def)
qed

lemma after_operand_semicolon:
  assumes "skip_white p = CHR '';'' # p'"
  shows "after_operand V nested item \<tau> (s\<lparr>pstring := p\<rparr>) = settle V nested 0 (item\<lparr>itype := semicolon\<rparr>) \<tau> (s\<lparr>pstring := p'\<rparr>)"
  using assms by (intro after_operand_code) (simp_all add: m_read_operator_def)

lemma after_operand_end:
  assumes "skip_white p = []"
  shows "after_operand V nested item \<tau> (s\<lparr>pstring := p\<rparr>) = settle V nested 1 item \<tau> (s\<lparr>pstring := []\<rparr>)"
  using assms by (intro after_operand_code) (simp_all add: m_read_operator_def)

text \<open>
  Whatever follows, an operation that binds its operands is done next: what the machine does with the
  operands on the stack is what it does with the result.
\<close>

lemma after_operand_follows:
  assumes "follows p nx" "standard_settings c"
  obtains X p' where "\<And>s v \<sigma>. fixed s = fixed c \<Longrightarrow>
      after_operand V nested item (Val v # \<sigma>) (s\<lparr>pstring := p\<rparr>) = X (Val v # \<sigma>) (s\<lparr>pstring := p'\<rparr>)"
    "\<And>m a w \<sigma>. (\<And>q. nx = Some q \<Longrightarrow> binds m q) \<Longrightarrow> X (Val w # Op m # Val a # \<sigma>) =
      andthen (Parser_MakeStandardMathematicOperation V a m w) (\<lambda>u. X (Val u # \<sigma>))"
proof (cases nx)
  case None
  then consider (fin) "skip_white p = []" | (close) p' where "skip_white p = CHR '')'' # p'" | (semi) p' where "skip_white p = CHR '';'' # p'"
    using assms(1) by auto
  then show thesis
  proof cases
    case fin
    show thesis
      by (rule that [of "settle V nested 1 item" "[]"])
        (simp_all only: after_operand_end [OF fin] settle_end m_roll.simps(1) andthen_assoc)
  next
    case close
    show thesis
    proof (rule that [of "\<lambda>\<tau>. andthen (m_final_bracket V nested \<tau>) (\<lambda>\<tau>'. after_operand V nested (item\<lparr>itype := last_bracket\<rparr>) \<tau>')" p'])
      show "andthen (m_final_bracket V nested (Val w # Op m # Val a # \<sigma>)) (\<lambda>\<tau>'. after_operand V nested (item\<lparr>itype := last_bracket\<rparr>) \<tau>') =
          andthen (Parser_MakeStandardMathematicOperation V a m w) (\<lambda>u. andthen (m_final_bracket V nested (Val u # \<sigma>))
            (\<lambda>\<tau>'. after_operand V nested (item\<lparr>itype := last_bracket\<rparr>) \<tau>'))" for w m a \<sigma>
        unfolding m_final_bracket_def m_roll.simps(1) by (simp add: andthen_assoc del: m_roll.simps)
    qed (simp add: after_operand_close [OF close])
  next
    case semi
    have sc: "settle V nested 0 (item\<lparr>itype := semicolon\<rparr>) (Val v # \<sigma>) =
        andthen (m_roll V (Val v # \<sigma>)) (\<lambda>\<tau>. m_loop V nested (item\<lparr>itype := semicolon\<rparr>) (Semi # \<tau>))" for v \<sigma>
      by (rule settle_semicolon) simp
    show thesis
      by (rule that [of "settle V nested 0 (item\<lparr>itype := semicolon\<rparr>)" p'])
        (simp_all only: after_operand_semicolon [OF semi] sc m_roll.simps(1) andthen_assoc)
  qed
next
  case (Some q)
  then obtain p'' where p: "p = operator_text q @ '' '' @ p''" "q \<noteq> mat_none" "q = mat_shortmul \<longrightarrow> p'' \<noteq> [] \<and> letter (hd p'')"
    using assms(1) by auto
  obtain p' where p': "\<And>item \<tau> s. fixed s = fixed c \<Longrightarrow> m_read_operator V item \<tau> (s\<lparr>pstring := p\<rparr>) =
      Some (Inr (0, item\<lparr>itype := mat_operator, moperator := std_op q\<rparr>, \<tau>), s\<lparr>pstring := p'\<rparr>)"
    unfolding p(1) using m_read_operator_text [OF p(2,3) assms(2)] by metis
  let ?i = "item\<lparr>itype := mat_operator, moperator := std_op q\<rparr>"
  have i: "sym_of ?i = Some (Op q)" using p(2) by (simp add: sym_of_iff)
  show thesis
  proof (rule that [of "settle V nested 0 ?i" p'])
    show "after_operand V nested item (Val v # \<sigma>) (s\<lparr>pstring := p\<rparr>) = settle V nested 0 ?i (Val v # \<sigma>) (s\<lparr>pstring := p'\<rparr>)"
      if "fixed s = fixed c" for s v \<sigma>
      by (rule after_operand_code [OF p' [OF that]]) simp
    show "settle V nested 0 ?i (Val w # Op m # Val a # \<sigma>) =
        andthen (Parser_MakeStandardMathematicOperation V a m w) (\<lambda>u. settle V nested 0 ?i (Val u # \<sigma>))"
      if "\<And>q. nx = Some q \<Longrightarrow> binds m q" for m a w \<sigma>
      using that [OF Some] by (simp add: settle_operator [OF i] andthen_assoc)
  qed
qed

lemma keeps_eval:
  shows "value_type_ok V \<Longrightarrow> nested_ok nested c \<Longrightarrow> wf_expr V c e \<Longrightarrow> keeps c (eval V nested c e r)"
    "value_type_ok V \<Longrightarrow> nested_ok nested c \<Longrightarrow> \<forall>e \<in> set es. wf_expr V c e \<Longrightarrow> keeps c (evals V nested c es r)"
proof (induction V nested c e r and V nested c es r rule: eval_evals.induct)
  case (5 V nested c m e e' r)
  then show ?case
    by (auto intro!: keeps_andthen keeps_prod keeps_MakeStandard keeps_ret simp del: ret_apply)
qed (auto intro!: keeps_andthen keeps_prod keeps_m_stop keeps_GetValueOfVariable keeps_m_call keeps_ret simp del: ret_apply)

lemma roll_runs:
  assumes V: "value_type_ok V" and p: "follows p nx" "standard_settings c" "\<And>q. nx = Some q \<Longrightarrow> binds m q"
    and s: "fixed s = fixed c" and m: "m \<noteq> mat_none"
    and y: "y = after_operand V nested item (Val w # Op m # Val a # \<sigma>) (s\<lparr>pstring := p\<rparr>)"
  shows "runs c (Parser_MakeStandardMathematicOperation V a m w s) y
    (\<lambda>u s'. y = after_operand V nested item (Val u # \<sigma>) (s'\<lparr>pstring := p\<rparr>))"
proof -
  obtain X p' where X: "\<And>s v \<sigma>. fixed s = fixed c \<Longrightarrow>
      after_operand V nested item (Val v # \<sigma>) (s\<lparr>pstring := p\<rparr>) = X (Val v # \<sigma>) (s\<lparr>pstring := p'\<rparr>)"
    "\<And>m a w \<sigma>. (\<And>q. nx = Some q \<Longrightarrow> binds m q) \<Longrightarrow> X (Val w # Op m # Val a # \<sigma>) =
      andthen (Parser_MakeStandardMathematicOperation V a m w) (\<lambda>u. X (Val u # \<sigma>))"
    using after_operand_follows [OF p(1,2), of V nested item] by blast
  have "y = andthen (Parser_MakeStandardMathematicOperation V a m w) (\<lambda>u. X (Val u # \<sigma>)) (s\<lparr>pstring := p'\<rparr>)"
    using y X(1) [OF s] X(2) [OF p(3)] by simp
  from runs_action [OF unread_MakeStandard keeps_MakeStandard [OF V m] s this]
  show ?thesis using X(1) by (auto simp: runs_def split: option.splits sum.splits)
qed

end
