(* ===== verification/Parser_Correct.thy ===== *)
theory Parser_Correct
  imports Parser_Operands
begin

text \<open>
  The parser evaluates expressions. \<open>wf_evaluates\<close> is the induction over the tree, \<open>loop_evaluates\<close> says that
  the machine run on printed expressions computes their values in the order of the trees, with the
  first error, and \<open>Parse_evaluates_exprs\<close> says so of the program.
\<close>

section \<open>Arguments\<close>

text \<open>The symbols of a list of values separated by semicolons, above \<open>\<tau>\<close>.\<close>

fun arg_syms :: "'v list \<Rightarrow> 'v sym list \<Rightarrow> 'v sym list" where
  "arg_syms [] \<tau> = \<tau>"
| "arg_syms [v] \<tau> = Val v # \<tau>"
| "arg_syms (v # w # vs) \<tau> = arg_syms (w # vs) (Semi # Val v # \<tau>)"

text \<open>No operator is on top.\<close>

fun calm :: "'v sym list \<Rightarrow> bool" where
  "calm (Op m # \<tau>) = False"
| "calm _ = True"

lemma m_roll_calm: "calm \<sigma> \<Longrightarrow> m_roll V (Val v # \<sigma>) = ret (Val v # \<sigma>)"
  by (cases \<sigma> rule: calm.cases) simp_all

lemma arg_syms_top:
  assumes "calm \<tau>" "vs \<noteq> []"
  obtains v \<sigma> where "arg_syms vs \<tau> = Val v # \<sigma>" "calm \<sigma>"
  using assms
proof (induction vs \<tau> arbitrary: thesis rule: arg_syms.induct)
  case (3 v w vs \<tau>)
  then show ?case using 3(1) [of thesis] by simp
qed simp_all

lemma m_args_semis:
  "vs \<noteq> [] \<Longrightarrow> m_args acc (arg_syms vs (Semi # \<tau>)) = m_args (vs @ acc) \<tau>"
proof (induction vs "Semi # \<tau>" arbitrary: \<tau> rule: arg_syms.induct)
  case (3 v w vs)
  then show ?case by simp
qed simp_all

lemma m_args_arg_syms:
  "vs \<noteq> [] \<Longrightarrow> m_args [] (arg_syms vs (Bracket b f r # \<tau>)) = ret (vs, Bracket b f r, \<tau>)"
proof (cases vs rule: remdups_adj.cases)
  case (3 v w vs')
  then show ?thesis by (simp add: m_args_semis)
qed simp_all

lemma sym_values_arg_syms: "sym_values (arg_syms vs \<tau>) = sym_values \<tau> @ vs"
  by (induction vs \<tau> rule: arg_syms.induct) simp_all

lemma kinds_arg_syms: "(\<forall>x \<in> set \<tau>. kind x \<in> {numerical_value, semicolon}) \<Longrightarrow>
    \<forall>x \<in> set (arg_syms vs \<tau>). kind x \<in> {numerical_value, semicolon}"
  by (induction vs \<tau> rule: arg_syms.induct) simp_all

lemma final_bracket_args:
  assumes "vs \<noteq> [] \<or> f \<noteq> None"
  shows "m_final_bracket V nested (arg_syms vs (Bracket b f r # \<tau>)) =
    andthen (m_apply V nested (Bracket b f r) vs) (\<lambda>v. ret (Val v # \<tau>))"
proof (cases "vs = []")
  case True
  then show ?thesis by (simp add: m_final_bracket_def del: ret_apply m_apply.simps)
next
  case False
  obtain v \<sigma> where top: "arg_syms vs (Bracket b f r # \<tau>) = Val v # \<sigma>" "calm \<sigma>"
    using arg_syms_top [of "Bracket b f r # \<tau>" vs] False by auto
  have "m_parameters (Val v # \<sigma>) = ret (vs, Bracket b f r, \<tau>)"
    using m_args_arg_syms [OF False, of b f r \<tau>] top(1) by simp
  then show ?thesis unfolding top(1) m_final_bracket_def
    by (simp add: m_roll_calm [OF top(2)] del: ret_apply m_apply.simps m_roll.simps m_parameters.simps)
qed

section \<open>The machine evaluates expressions\<close>

lemma m_loop_runs:
  assumes "fixed s = fixed c" "skip_white P = skip_white p" "y = m_loop V nested item \<sigma> (s\<lparr>pstring := P\<rparr>)"
  shows "runs c (m_stop s) y (\<lambda>_ s'. y = operand V nested item \<sigma> (s'\<lparr>pstring := p\<rparr>))"
proof -
  have "y = andthen m_stop (\<lambda>_. operand V nested item \<sigma>) (s\<lparr>pstring := P\<rparr>)" using assms(3) by (simp only: m_loop_operand)
  from runs_action [OF unread_m_stop keeps_m_stop assms(1) this] show ?thesis by (simp only: operand_skip [OF assms(2)])
qed

lemma operand_close:
  assumes "skip_white p = CHR '')'' # p'"
  obtains item' where "ivalue item' = ivalue item"
    "operand V nested item \<tau> (s\<lparr>pstring := p\<rparr>) = after_operand V nested item' \<tau> (s\<lparr>pstring := p\<rparr>)"
proof -
  let ?i = "item\<lparr>isign := False, itype := last_bracket\<rparr>"
  have "Parser_ReadValueVariableOrFunction V nested item (s\<lparr>pstring := p\<rparr>) = Some (Inr (2, ?i), s\<lparr>pstring := skip_white p\<rparr>)"
    using assms unfolding ReadValueVariableOrFunction_unsigned
    by (simp add: Parser_TestSign_def Let_def read_unsigned_def ToLowerCase_signs)
  then have "operand V nested item \<tau> (s\<lparr>pstring := p\<rparr>) = after_operand V nested ?i \<tau> (s\<lparr>pstring := skip_white p\<rparr>)"
    by (simp add: operand_def)
  then show thesis using after_operand_skip [of "skip_white p" p V nested ?i \<tau> s] by (intro that [of ?i]) simp_all
qed

lemma after_operand_operator:
  assumes "m \<noteq> mat_none" "m = mat_shortmul \<longrightarrow> p \<noteq> [] \<and> letter (hd p)" "standard_settings c" "fixed s = fixed c"
    and free: "\<And>q a \<tau>. \<sigma> = Op q # Val a # \<tau> \<Longrightarrow> \<not> binds q m"
  obtains item' p' where "ivalue item' = ivalue item" "skip_white p' = skip_white p"
    "after_operand V nested item (Val v # \<sigma>) (s\<lparr>pstring := operator_text m @ '' '' @ p\<rparr>) =
      m_loop V nested item' (Op m # Val v # \<sigma>) (s\<lparr>pstring := p'\<rparr>)"
proof -
  let ?i = "item\<lparr>itype := mat_operator, moperator := std_op m\<rparr>"
  have i: "sym_of ?i = Some (Op m)" using assms(1) by (simp add: sym_of_iff)
  obtain p' where p': "skip_white p' = skip_white p"
    "m_read_operator V item (Val v # \<sigma>) (s\<lparr>pstring := operator_text m @ '' '' @ p\<rparr>) = Some (Inr (0, ?i, Val v # \<sigma>), s\<lparr>pstring := p'\<rparr>)"
    using m_read_operator_text [OF assms(1-3)] assms(4) by metis
  have "m_roll_priority V (Op m # Val v # \<sigma>) = ret (Op m # Val v # \<sigma>)"
    using free by (cases "(V, Op m # Val v # \<sigma>)" rule: m_roll_priority.cases) (simp_all del: ret_apply)
  then have "after_operand V nested item (Val v # \<sigma>) (s\<lparr>pstring := operator_text m @ '' '' @ p\<rparr>) =
      m_loop V nested ?i (Op m # Val v # \<sigma>) (s\<lparr>pstring := p'\<rparr>)"
    using after_operand_code [OF p'(2)] settle_operator [OF i] by simp
  then show thesis using p'(1) by (intro that [of ?i p']) simp_all
qed

lemma close_runs:
  assumes "fixed s = fixed c" "skip_white p = CHR '')'' # p'" "vs \<noteq> [] \<or> f \<noteq> None"
    and y: "y = after_operand V nested item (arg_syms vs (Bracket b f r # \<sigma>)) (s\<lparr>pstring := p\<rparr>)"
  shows "y = andthen (m_apply V nested (Bracket b f r) vs)
    (\<lambda>v. after_operand V nested (item\<lparr>itype := last_bracket\<rparr>) (Val v # \<sigma>)) (s\<lparr>pstring := p'\<rparr>)"
  using y after_operand_close [OF assms(2), of V nested item] final_bracket_args [OF assms(3), of V nested b r \<sigma>]
  by (simp add: andthen_assoc del: m_apply.simps)

text \<open>The machine stands behind an operand, with its value on the stack; behind arguments.\<close>

definition reached :: "'v value_type \<Rightarrow> 'v nested \<Rightarrow> 'v sym list \<Rightarrow> string \<Rightarrow> ((error_code + 'v sym list) \<times> 'v parser) option \<Rightarrow>
    'v \<times> 'v \<Rightarrow> 'v parser \<Rightarrow> bool" where
  "reached V nested \<sigma> p y z s \<longleftrightarrow>
     (\<exists>item. ivalue item = snd z \<and> y = after_operand V nested item (Val (fst z) # \<sigma>) (s\<lparr>pstring := p\<rparr>))"

definition reached_args :: "'v value_type \<Rightarrow> 'v nested \<Rightarrow> 'v sym list \<Rightarrow> string \<Rightarrow> ((error_code + 'v sym list) \<times> 'v parser) option \<Rightarrow>
    'v list \<times> 'v \<Rightarrow> 'v parser \<Rightarrow> bool" where
  "reached_args V nested \<sigma> p y z s \<longleftrightarrow>
     (\<exists>item. ivalue item = snd z \<and> y = after_operand V nested item (arg_syms (fst z) \<sigma>) (s\<lparr>pstring := p\<rparr>))"

lemma reachedI:
  assumes "y = after_operand V nested item (Val v # \<sigma>) (s\<lparr>pstring := q\<rparr>)" "skip_white q = skip_white p" "ivalue item = r"
  shows "reached V nested \<sigma> p y (v, r) s"
  unfolding reached_def fst_conv snd_conv assms(1) after_operand_skip [OF assms(2)] using assms(3) by blast

definition evaluates :: "'v value_type \<Rightarrow> 'v nested \<Rightarrow> 'v parser \<Rightarrow> expr \<Rightarrow> bool" where
  "evaluates V nested c e \<longleftrightarrow> (\<forall>item \<sigma> P p nx s y. fixed s = fixed c \<longrightarrow> follows p nx \<longrightarrow>
     (\<forall>q. nx = Some q \<longrightarrow> right_binds e q) \<longrightarrow> (\<forall>m a \<tau>. \<sigma> = Op m # Val a # \<tau> \<longrightarrow> left_free m e) \<longrightarrow>
     skip_white P = skip_white (print_expr e @ p) \<longrightarrow> y = m_loop V nested item \<sigma> (s\<lparr>pstring := P\<rparr>) \<longrightarrow>
     runs c (eval V nested c e (ivalue item) s) y (reached V nested \<sigma> p y))"

lemma evaluatesD:
  assumes "evaluates V nested c e" "fixed s = fixed c" "follows p nx" "\<And>q. nx = Some q \<Longrightarrow> right_binds e q"
    "\<And>m a \<tau>. \<sigma> = Op m # Val a # \<tau> \<Longrightarrow> left_free m e" "skip_white P = skip_white (print_expr e @ p)"
    "y = m_loop V nested item \<sigma> (s\<lparr>pstring := P\<rparr>)" "r = ivalue item"
  shows "runs c (eval V nested c e r s) y (reached V nested \<sigma> p y)"
  using assms unfolding evaluates_def by blast

lemma evaluatesI:
  assumes "\<And>item \<sigma> P p nx s y. fixed s = fixed c \<Longrightarrow> follows p nx \<Longrightarrow> (\<And>q. nx = Some q \<Longrightarrow> right_binds e q) \<Longrightarrow>
    (\<And>m a \<tau>. \<sigma> = Op m # Val a # \<tau> \<Longrightarrow> left_free m e) \<Longrightarrow> skip_white P = skip_white (print_expr e @ p) \<Longrightarrow>
    y = m_loop V nested item \<sigma> (s\<lparr>pstring := P\<rparr>) \<Longrightarrow>
    runs c (eval V nested c e (ivalue item) s) y (reached V nested \<sigma> p y)"
  shows "evaluates V nested c e"
  unfolding evaluates_def using assms by blast

lemma evals_runs:
  assumes "\<forall>e \<in> set es. evaluates V nested c e" "fixed s = fixed c" "follows p None" "calm \<sigma>" "es \<noteq> []"
    "y = m_loop V nested item \<sigma> (s\<lparr>pstring := print_exprs es @ p\<rparr>)" "r = ivalue item"
  shows "runs c (evals V nested c es r s) y (\<lambda>z s. fst z \<noteq> [] \<and> reached_args V nested \<sigma> p y z s)"
  using assms
proof (induction es arbitrary: s \<sigma> item r rule: induct_list012)
  case (2 e)
  have "runs c (eval V nested c e r s) y (reached V nested \<sigma> p y)"
    using 2 by (intro evaluatesD [where nx = None]) auto
  then show ?case unfolding evals.simps
    by (rule runs_andthen) (auto simp: reached_def reached_args_def split: prod.splits)
next
  case (3 e e' es)
  let ?p = "'';'' @ print_exprs (e' # es) @ p"
  have "runs c (eval V nested c e r s) y (reached V nested \<sigma> ?p y)"
    using 3(3-) by (intro evaluatesD [where nx = None]) auto
  then show ?case
    unfolding evals.simps
  proof (rule runs_andthen)
    fix z s' assume s': "fixed s' = fixed c" and "reached V nested \<sigma> ?p y z s'"
    then obtain v item' where z: "z = (v, ivalue item')" and y: "y = after_operand V nested item' (Val v # \<sigma>) (s'\<lparr>pstring := ?p\<rparr>)"
      by (cases z) (auto simp: reached_def)
    let ?i = "item'\<lparr>itype := semicolon\<rparr>"
    have "y = m_loop V nested ?i (Semi # Val v # \<sigma>) (s'\<lparr>pstring := print_exprs (e' # es) @ p\<rparr>)"
      using y after_operand_semicolon [of ?p "print_exprs (e' # es) @ p" V nested item' "Val v # \<sigma>" s']
        settle_semicolon [of ?i V nested v \<sigma>] m_roll_calm [OF 3(6)] by simp
    then have "runs c (evals V nested c (e' # es) (ivalue item') s') y
        (\<lambda>z s. fst z \<noteq> [] \<and> reached_args V nested (Semi # Val v # \<sigma>) p y z s)"
      using 3(2) [of s' "Semi # Val v # \<sigma>" ?i "ivalue item'"] 3(3-) s' by simp
    then have "runs c (andthen (evals V nested c (e' # es) (ivalue item')) (\<lambda>(vs, r). ret (v # vs, r)) s') y
        (\<lambda>z s. fst z \<noteq> [] \<and> reached_args V nested \<sigma> p y z s)"
    proof (rule runs_andthen)
      fix z' s'' assume s'': "fixed s'' = fixed c" and "fst z' \<noteq> [] \<and> reached_args V nested (Semi # Val v # \<sigma>) p y z' s''"
      then show "runs c ((case z' of (vs, r) \<Rightarrow> ret (v # vs, r)) s'') y (\<lambda>z s. fst z \<noteq> [] \<and> reached_args V nested \<sigma> p y z s)"
        by (cases z'; cases "fst z'") (auto simp: reached_args_def)
    qed
    then show "runs c ((case z of (v, r) \<Rightarrow> andthen (evals V nested c (e' # es) r) (\<lambda>(vs, r). ret (v # vs, r))) s') y
        (\<lambda>z s. fst z \<noteq> [] \<and> reached_args V nested \<sigma> p y z s)"
      using z by simp
  qed
qed simp

lemma bracket_runs:
  assumes "fixed s = fixed c" "vs \<noteq> [] \<or> f \<noteq> None" "reached_args V nested (Bracket b f r # \<sigma>) ('') '' @ p) y (vs, r') s"
  obtains item where "ivalue item = r'" "y = andthen (m_apply V nested (Bracket b f r) vs)
    (\<lambda>v. after_operand V nested item (Val v # \<sigma>)) (s\<lparr>pstring := '' '' @ p\<rparr>)"
proof -
  obtain item where item: "ivalue item = r'" "y = after_operand V nested item (arg_syms vs (Bracket b f r # \<sigma>)) (s\<lparr>pstring := '') '' @ p\<rparr>)"
    using assms(3) by (auto simp: reached_args_def)
  have "skip_white ('') '' @ p) = CHR '')'' # '' '' @ p" by simp
  from close_runs [OF assms(1) this assms(2) item(2)] show thesis
    using item(1) by (intro that [of "item\<lparr>itype := last_bracket\<rparr>"]) simp_all
qed

lemma evaluates_Number:
  assumes "literal_ok V c t"
  shows "evaluates V nested c (Number b t)"
proof (rule evaluatesI)
  fix item \<sigma> P p nx s y
  assume s: "fixed s = fixed c" and P: "skip_white P = skip_white (print_expr (Number b t) @ p)"
    and y: "y = m_loop V nested item \<sigma> (s\<lparr>pstring := P\<rparr>)"
  from m_loop_runs [OF s P y] show "runs c (eval V nested c (Number b t) (ivalue item) s) y (reached V nested \<sigma> p y)"
    unfolding eval.simps
  proof (rule runs_andthen)
    fix z s' assume s': "fixed s' = fixed c" "y = operand V nested item \<sigma> (s'\<lparr>pstring := print_expr (Number b t) @ p\<rparr>)"
    from operand_number [OF assms s'(1), of b nested item \<sigma> p] obtain item' where
      "ivalue item' = with_sign V b (literal_value V c t)"
      "y = after_operand V nested item' (Val (with_sign V b (literal_value V c t)) # \<sigma>) (s'\<lparr>pstring := p\<rparr>)"
      unfolding s'(2) by blast
    then show "runs c (ret (with_sign V b (literal_value V c t), with_sign V b (literal_value V c t)) s') y (reached V nested \<sigma> p y)"
      using s'(1) by (auto simp: reached_def)
  qed
qed

lemma evaluates_Name:
  assumes "name_ok c x" "nested_ok nested c"
  shows "evaluates V nested c (Name b x)"
proof (rule evaluatesI)
  fix item \<sigma> P p nx s y
  assume s: "fixed s = fixed c" and p: "follows p nx" and P: "skip_white P = skip_white (print_expr (Name b x) @ p)"
    and y: "y = m_loop V nested item \<sigma> (s\<lparr>pstring := P\<rparr>)"
  from m_loop_runs [OF s P y] show "runs c (eval V nested c (Name b x) (ivalue item) s) y (reached V nested \<sigma> p y)"
    unfolding eval.simps
  proof (rule runs_andthen)
    fix z s' assume s': "fixed s' = fixed c" "y = operand V nested item \<sigma> (s'\<lparr>pstring := print_expr (Name b x) @ p\<rparr>)"
    obtain i where i: "\<And>v. ivalue (i v) = with_sign V b v"
      "operand V nested item \<sigma> (s'\<lparr>pstring := print_expr (Name b x) @ p\<rparr>) =
        andthen (Parser_GetValueOfVariable V nested x) (\<lambda>v. after_operand V nested (i v) (Val (with_sign V b v) # \<sigma>))
          (s'\<lparr>pstring := skip_white p\<rparr>)"
      by (rule operand_name [OF assms(1) s'(1) follows_not_open [OF p], where V = V and b = b and nested = nested and item = item and \<sigma> = \<sigma>])
        blast
    from runs_action [OF unread_GetValueOfVariable keeps_GetValueOfVariable [OF assms(2)] s'(1) s'(2) [unfolded i(2)]]
    show "runs c (andthen (Parser_GetValueOfVariable V nested x) (\<lambda>v. ret (with_sign V b v, with_sign V b v)) s') y
        (reached V nested \<sigma> p y)"
    proof (rule runs_andthen)
      fix v s'' assume "fixed s'' = fixed c" "y = after_operand V nested (i v) (Val (with_sign V b v) # \<sigma>) (s''\<lparr>pstring := skip_white p\<rparr>)"
      then show "runs c (ret (with_sign V b v, with_sign V b v) s'') y (reached V nested \<sigma> p y)"
        using i(1) by (auto intro!: runs_ret reachedI [where q = "skip_white p"] simp del: ret_apply)
    qed
  qed
qed

lemma evaluates_Parens:
  assumes "evaluates V nested c e"
  shows "evaluates V nested c (Parens b e)"
proof (rule evaluatesI)
  fix item \<sigma> P p nx s y
  assume s: "fixed s = fixed c" and P: "skip_white P = skip_white (print_expr (Parens b e) @ p)"
    and y: "y = m_loop V nested item \<sigma> (s\<lparr>pstring := P\<rparr>)"
  from m_loop_runs [OF s P y] show "runs c (eval V nested c (Parens b e) (ivalue item) s) y (reached V nested \<sigma> p y)"
    unfolding eval.simps
  proof (rule runs_andthen)
    fix z s' assume s': "fixed s' = fixed c" "y = operand V nested item \<sigma> (s'\<lparr>pstring := print_expr (Parens b e) @ p\<rparr>)"
    obtain i where i: "ivalue i = ivalue item"
      "operand V nested item \<sigma> (s'\<lparr>pstring := sign_text b @ ''('' @ print_expr e @ '') '' @ p\<rparr>) =
        m_loop V nested i (Bracket b None (ivalue item) # \<sigma>) (s'\<lparr>pstring := print_expr e @ '') '' @ p\<rparr>)"
      by (rule operand_parens)
    then have i2: "y = m_loop V nested i (Bracket b None (ivalue item) # \<sigma>) (s'\<lparr>pstring := print_expr e @ '') '' @ p\<rparr>)"
      using s'(2) by simp
    have "runs c (evals V nested c [e] (ivalue item) s') y
        (\<lambda>z s. fst z \<noteq> [] \<and> reached_args V nested (Bracket b None (ivalue item) # \<sigma>) ('') '' @ p) y z s)"
      using assms s'(1) i(1) i2 by (intro evals_runs [where item = i]) simp_all
    then have "runs c (eval V nested c e (ivalue item) s') y
        (\<lambda>z. reached_args V nested (Bracket b None (ivalue item) # \<sigma>) ('') '' @ p) y ([fst z], snd z))"
      by (auto simp: runs_def andthen_def split: option.splits sum.splits)
    then show "runs c (andthen (eval V nested c e (ivalue item)) (\<lambda>(v, r). ret (with_sign V b v, r)) s') y (reached V nested \<sigma> p y)"
    proof (rule runs_andthen)
      fix z s'' assume s'': "fixed s'' = fixed c" "reached_args V nested (Bracket b None (ivalue item) # \<sigma>) ('') '' @ p) y ([fst z], snd z) s''"
      obtain j where "ivalue j = snd z" "y = andthen (m_apply V nested (Bracket b None (ivalue item)) [fst z])
          (\<lambda>v. after_operand V nested j (Val v # \<sigma>)) (s''\<lparr>pstring := '' '' @ p\<rparr>)"
        using bracket_runs [OF s''(1) _ s''(2)] by auto
      then show "runs c ((case z of (v, r) \<Rightarrow> ret (with_sign V b v, r)) s'') y (reached V nested \<sigma> p y)"
        using s''(1) by (cases z) (auto intro!: runs_ret reachedI [where q = "'' '' @ p"] simp: with_sign_def simp del: ret_apply)
    qed
  qed
qed

lemma evaluates_Apply:
  assumes V: "value_type_ok V" and nested: "nested_ok nested c" and f: "name_ok c f" and es: "\<forall>e \<in> set es. evaluates V nested c e"
  shows "evaluates V nested c (Apply b f es)"
proof (rule evaluatesI)
  fix item \<sigma> P p nx s y
  assume s: "fixed s = fixed c" and P: "skip_white P = skip_white (print_expr (Apply b f es) @ p)"
    and y: "y = m_loop V nested item \<sigma> (s\<lparr>pstring := P\<rparr>)"
  let ?br = "Bracket b (Some f) (ivalue item)"
  from m_loop_runs [OF s P y] show "runs c (eval V nested c (Apply b f es) (ivalue item) s) y (reached V nested \<sigma> p y)"
    unfolding eval.simps
  proof (rule runs_andthen)
    fix z s' assume s': "fixed s' = fixed c" "y = operand V nested item \<sigma> (s'\<lparr>pstring := print_expr (Apply b f es) @ p\<rparr>)"
    obtain i where i: "ivalue i = ivalue item"
      "operand V nested item \<sigma> (s'\<lparr>pstring := sign_text b @ f @ ''('' @ print_exprs es @ '') '' @ p\<rparr>) =
        m_loop V nested i (?br # \<sigma>) (s'\<lparr>pstring := print_exprs es @ '') '' @ p\<rparr>)"
      by (rule operand_apply [OF f s'(1)])
    then have i2: "y = m_loop V nested i (?br # \<sigma>) (s'\<lparr>pstring := print_exprs es @ '') '' @ p\<rparr>)" using s'(2) by simp
    have "runs c (evals V nested c es (ivalue item) s') y (reached_args V nested (?br # \<sigma>) ('') '' @ p) y)"
    proof (cases "es = []")
      case False
      then have "runs c (evals V nested c es (ivalue item) s') y (\<lambda>z s. fst z \<noteq> [] \<and> reached_args V nested (?br # \<sigma>) ('') '' @ p) y z s)"
        using es s'(1) i(1) i2 by (intro evals_runs [where item = i]) simp_all
      then show ?thesis by (auto simp: runs_def split: option.splits sum.splits)
    next
      case True
      have "y = m_loop V nested i (?br # \<sigma>) (s'\<lparr>pstring := '') '' @ p\<rparr>)" using i2 True by simp
      from m_loop_runs [OF s'(1) refl this] show ?thesis
        unfolding True evals.simps
      proof (rule runs_andthen)
        fix u s'' assume s'': "fixed s'' = fixed c" "y = operand V nested i (?br # \<sigma>) (s''\<lparr>pstring := '') '' @ p\<rparr>)"
        have "skip_white ('') '' @ p) = CHR '')'' # '' '' @ p" by simp
        then obtain j where "ivalue j = ivalue i"
          "operand V nested i (?br # \<sigma>) (s''\<lparr>pstring := '') '' @ p\<rparr>) = after_operand V nested j (?br # \<sigma>) (s''\<lparr>pstring := '') '' @ p\<rparr>)"
          by (rule operand_close)
        then show "runs c (ret ([], ivalue item) s'') y (reached_args V nested (?br # \<sigma>) ('') '' @ p) y)"
          using s'' i(1) by (auto simp: reached_args_def)
      qed
    qed
    then show "runs c (andthen (evals V nested c es (ivalue item)) (\<lambda>(vs, r'). andthen (m_call V nested f (ivalue item) vs)
        (\<lambda>v. ret (with_sign V b v, r'))) s') y (reached V nested \<sigma> p y)"
    proof (rule runs_andthen)
      fix z s'' assume s'': "fixed s'' = fixed c" "reached_args V nested (?br # \<sigma>) ('') '' @ p) y z s''"
      obtain vs r' where z: "z = (vs, r')" by (cases z)
      obtain j where j: "ivalue j = r'" "y = andthen (m_apply V nested ?br vs)
          (\<lambda>v. after_operand V nested j (Val v # \<sigma>)) (s''\<lparr>pstring := '' '' @ p\<rparr>)"
        using bracket_runs [OF s''(1) _ s''(2) [unfolded z]] by blast
      then have "y = andthen (m_call V nested f (ivalue item) vs)
          (\<lambda>v. after_operand V nested j (Val (with_sign V b v) # \<sigma>)) (s''\<lparr>pstring := '' '' @ p\<rparr>)"
        by (simp add: andthen_assoc with_sign_def del: ret_apply)
      from runs_action [OF unread_m_call keeps_m_call [OF nested V] s''(1) this]
      have "runs c (andthen (m_call V nested f (ivalue item) vs) (\<lambda>v. ret (with_sign V b v, r')) s'') y (reached V nested \<sigma> p y)"
        by (rule runs_andthen) (use j(1) in \<open>auto intro!: runs_ret reachedI [where q = "'' '' @ p"] simp del: ret_apply\<close>)
      then show "runs c ((case z of (vs, r') \<Rightarrow> andthen (m_call V nested f (ivalue item) vs) (\<lambda>v. ret (with_sign V b v, r'))) s'') y
          (reached V nested \<sigma> p y)" by (simp add: z del: ret_apply)
    qed
  qed
qed

lemma starts_name_letter:
  "starts_name e \<Longrightarrow> wf_expr V c e \<Longrightarrow> \<exists>ch y. print_expr e = ch # y \<and> letter ch"
proof (induction e)
  case (Name b x)
  then show ?case by (cases x) (simp_all add: sign_text_def name_ok_def)
next
  case (Apply b f es)
  from Apply.prems show ?case by (cases f) (simp_all add: sign_text_def name_ok_def)
next
  case (Binary m e e')
  then have "\<exists>ch y. print_expr e = ch # y \<and> letter ch" by simp
  then show ?case by auto
qed simp_all

lemma evaluates_Binary:
  assumes V: "value_type_ok V" and set: "standard_settings c" and wf: "wf_expr V c (Binary m e e')"
    and e: "evaluates V nested c e" and e': "evaluates V nested c e'"
  shows "evaluates V nested c (Binary m e e')"
proof (rule evaluatesI)
  fix item \<sigma> P p nx s y
  assume s: "fixed s = fixed c" and p: "follows p nx" and right: "\<And>q. nx = Some q \<Longrightarrow> right_binds (Binary m e e') q"
    and left: "\<And>q a \<tau>. \<sigma> = Op q # Val a # \<tau> \<Longrightarrow> left_free q (Binary m e e')"
    and P: "skip_white P = skip_white (print_expr (Binary m e e') @ p)"
    and y: "y = m_loop V nested item \<sigma> (s\<lparr>pstring := P\<rparr>)"
  let ?p = "operator_text m @ '' '' @ print_expr e' @ p"
  have sm: "m = mat_shortmul \<longrightarrow> print_expr e' @ p \<noteq> [] \<and> letter (hd (print_expr e' @ p))"
    using starts_name_letter [of e' V c] wf by auto
  have "runs c (eval V nested c e (ivalue item) s) y (reached V nested \<sigma> ?p y)"
    using wf left s y P sm by (intro evaluatesD [OF e, where nx = "Some m" and P = P]) auto
  then show "runs c (eval V nested c (Binary m e e') (ivalue item) s) y (reached V nested \<sigma> p y)"
    unfolding eval.simps
  proof (rule runs_andthen)
    fix z s' assume s': "fixed s' = fixed c" "reached V nested \<sigma> ?p y z s'"
    obtain v i where z: "z = (v, ivalue i)" and i: "y = after_operand V nested i (Val v # \<sigma>) (s'\<lparr>pstring := ?p\<rparr>)"
      using s'(2) by (cases z) (auto simp: reached_def)
    obtain j p' where j: "ivalue j = ivalue i" "skip_white p' = skip_white (print_expr e' @ p)"
      "after_operand V nested i (Val v # \<sigma>) (s'\<lparr>pstring := ?p\<rparr>) = m_loop V nested j (Op m # Val v # \<sigma>) (s'\<lparr>pstring := p'\<rparr>)"
      using wf left by (rule_tac after_operand_operator [OF _ sm set s'(1), of \<sigma> i V nested v]) auto
    have "runs c (eval V nested c e' (ivalue i) s') y (reached V nested (Op m # Val v # \<sigma>) p y)"
      using wf right p i j by (intro evaluatesD [OF e' s'(1), where nx = nx and P = p' and item = j]) auto
    then have "runs c (andthen (eval V nested c e' (ivalue i)) (\<lambda>(w, r). andthen (Parser_MakeStandardMathematicOperation V v m w)
        (\<lambda>u. ret (u, r))) s') y (reached V nested \<sigma> p y)"
    proof (rule runs_andthen)
      fix z' s'' assume s'': "fixed s'' = fixed c" "reached V nested (Op m # Val v # \<sigma>) p y z' s''"
      obtain w k where z': "z' = (w, ivalue k)" and k: "y = after_operand V nested k (Val w # Op m # Val v # \<sigma>) (s''\<lparr>pstring := p\<rparr>)"
        using s''(2) by (cases z') (auto simp: reached_def)
      have "runs c (Parser_MakeStandardMathematicOperation V v m w s'') y
          (\<lambda>u s'. y = after_operand V nested k (Val u # \<sigma>) (s'\<lparr>pstring := p\<rparr>))"
        using right wf by (intro roll_runs [OF V p set _ s''(1) _ k]) auto
      then have "runs c (andthen (Parser_MakeStandardMathematicOperation V v m w) (\<lambda>u. ret (u, ivalue k)) s'') y (reached V nested \<sigma> p y)"
        by (rule runs_andthen) (auto simp: reached_def)
      then show "runs c ((case z' of (w, r) \<Rightarrow> andthen (Parser_MakeStandardMathematicOperation V v m w) (\<lambda>u. ret (u, r))) s'') y
          (reached V nested \<sigma> p y)" by (simp add: z' del: ret_apply)
    qed
    then show "runs c ((case z of (v, r) \<Rightarrow> andthen (eval V nested c e' r) (\<lambda>(w, r). andthen (Parser_MakeStandardMathematicOperation V v m w)
        (\<lambda>u. ret (u, r)))) s') y (reached V nested \<sigma> p y)" by (simp add: z del: ret_apply)
  qed
qed

lemma wf_evaluates:
  assumes "value_type_ok V" "nested_ok nested c" "standard_settings c"
  shows "wf_expr V c e \<Longrightarrow> evaluates V nested c e"
  using assms
  by (induction e) (auto intro!: evaluates_Number evaluates_Name evaluates_Parens evaluates_Apply evaluates_Binary)

lemma loop_evaluates:
  assumes "value_type_ok V" "nested_ok nested c" "standard_settings c" "es \<noteq> []" "\<forall>e \<in> set es. wf_expr V c e" "fixed s = fixed c"
    and y: "y = m_loop V nested item [] (s\<lparr>pstring := print_exprs es\<rparr>)"
  shows "runs c (evals V nested c es (ivalue item) s) y (\<lambda>z s'. y = Some (Inr (arg_syms (fst z) []), s'\<lparr>pstring := []\<rparr>) \<and> fst z \<noteq> [])"
proof -
  have "runs c (evals V nested c es (ivalue item) s) y (\<lambda>z s. fst z \<noteq> [] \<and> reached_args V nested [] [] y z s)"
    using assms wf_evaluates [OF assms(1-3)] by (intro evals_runs) simp_all
  moreover have "y = Some (Inr (arg_syms (fst z) []), s'\<lparr>pstring := []\<rparr>)"
    if z: "fst z \<noteq> [] \<and> reached_args V nested [] [] y z s'" for z s'
  proof -
    obtain i where i: "y = after_operand V nested i (arg_syms (fst z) []) (s'\<lparr>pstring := []\<rparr>)"
      using z by (auto simp: reached_args_def)
    obtain v \<sigma> where top: "arg_syms (fst z) [] = Val v # \<sigma>" "calm \<sigma>"
      using z arg_syms_top [of "[]" "fst z"] by auto
    have nb: "(\<not> (\<forall>x \<in> set (Val v # \<sigma>). kind x \<in> {numerical_value, semicolon})) = False"
      using kinds_arg_syms [of "[]" "fst z"] top(1) by simp
    then show ?thesis
      unfolding i top(1) after_operand_end [OF skip_white.simps(1)] settle_end m_roll_calm [OF top(2)]
      by (simp only: andthen_ret nb andthen_throw_if ret_apply)
  qed
  ultimately show ?thesis by (auto simp: runs_def split: option.splits sum.splits)
qed

section \<open>The parser evaluates expressions\<close>

lemma wf_expr_cong:
  assumes "base c = base d" "comma c = comma d" "comma2 c = comma2 d" "group c = group d"
  shows "wf_expr V c e \<longleftrightarrow> wf_expr V d e"
proof -
  have c: "reading_conv c = reading_conv d" "value_starts c = value_starts d"
    using assms by (simp_all add: reading_conv_def value_starts_def fun_eq_iff)
  then have "literal_ok V c t \<longleftrightarrow> literal_ok V d t" "name_ok c x \<longleftrightarrow> name_ok d x" for t x
    by (simp_all add: literal_ok_def literal_value_def name_ok_def)
  then show ?thesis by (induction e) auto
qed

lemma eval_cong:
  assumes "base c = base d" "comma c = comma d" "comma2 c = comma2 d" "group c = group d"
  shows "eval V nested c e r = eval V nested d e r" "evals V nested c es r = evals V nested d es r"
proof -
  have "literal_value V c t = literal_value V d t" for t
    using assms by (simp add: literal_value_def reading_conv_def)
  then show "eval V nested c e r = eval V nested d e r" "evals V nested c es r = evals V nested d es r"
    by (induction V nested d e r and V nested d es r rule: eval_evals.induct) (simp_all del: ret_apply)
qed

lemma nested_ok_Parse:
  assumes "value_type_ok V" "operators_ok (operators_table c)" "names_left c \<le> depth"
  shows "nested_ok (Parser_Parse depth V) c"
  unfolding nested_ok_def
proof (intro allI impI, elim conjE)
  fix t :: "'a parser" and v name lv str
  assume t: "fixed t = fixed c" "fresh c v name"
  have "operators_table t = operators_table c" by (rule fixed_fields [OF t(1)])
  then show "\<exists>err s'. Parser_Parse depth V ((Parser_new_copy (RecurrenceParsingVariablesOrFunction_AddName v name t))
       \<lparr>pfunction_local_variables := lv\<rparr>) str = Some (err, s') \<and> err \<noteq> err_internal_error"
    using Parse_returns [OF assms(1), of "(Parser_new_copy (RecurrenceParsingVariablesOrFunction_AddName v name t))\<lparr>pfunction_local_variables := lv\<rparr>" depth str]
      assms names_left_copy [OF t(2,1), of lv]
    by (force simp: operators_copy)
qed

text \<open>The state in which the evaluation of an input starts.\<close>

definition eval_start :: "'v parser \<Rightarrow> 'v parser" where
  "eval_start s = s\<lparr>stack := [], stack_index := 0, pstring := [], error := err_ok, calculated := False\<rparr>"

lemma Parse_evaluates_exprs:
  assumes V: "value_type_ok V" and set: "standard_settings s" and names: "names_left s \<le> depth"
    and es: "es \<noteq> []" "\<forall>e \<in> set es. wf_expr V s e"
  shows "case evals V (Parser_Parse depth V) s es (v_new V) (eval_start s) of
      None \<Rightarrow> False
    | Some (Inl e, _) \<Rightarrow> e \<noteq> err_ok \<and> (\<exists>s'. Parser_Parse (Suc depth) V s (print_exprs es) = Some (e, s') \<and> stack s' = [])
    | Some (Inr (vs, _), _) \<Rightarrow> (\<exists>s'. Parser_Parse (Suc depth) V s (print_exprs es) = Some (err_ok, s') \<and>
        map ivalue (stack s') = vs \<and> (\<forall>i \<in> set (stack s'). itype i = numerical_value))"
proof -
  let ?c = "Parse_start V s (print_exprs es)" and ?s = "eval_start s" and ?f = "Parser_Parse depth V"
  have c: "standard_settings ?c" "operators_ok (operators_table ?c)" "names_left ?c = names_left s"
    using set by (simp_all add: standard_settings_def names_left_def Parse_start_def standard_operators_ok)
  have f: "nested_ok ?f ?c" using names c by (intro nested_ok_Parse [OF V c(2)]) simp
  have wf: "\<forall>e \<in> set es. wf_expr V ?c e" using es(2) wf_expr_cong [of ?c s V] by (simp add: Parse_start_def)
  have ev: "evals V ?f ?c es r = evals V ?f s es r" for r by (rule eval_cong) (simp_all add: Parse_start_def)
  have fx: "fixed ?s = fixed ?c" by (simp add: fixed_def env_def eval_start_def Parse_start_def)
  define y where "y = m_loop V ?f (Item_new V) [] (?s\<lparr>pstring := print_exprs es\<rparr>)"
  have start: "env ?c = ?s\<lparr>pstring := print_exprs es\<rparr>" by (simp add: env_def eval_start_def Parse_start_def)
  have y: "m_loop V ?f (Item_new V) [] (env ?c) = y" by (simp only: y_def start)
  have run: "runs ?c (evals V ?f s es (v_new V) ?s) y (\<lambda>z s'. y = Some (Inr (arg_syms (fst z) []), s'\<lparr>pstring := []\<rparr>) \<and> fst z \<noteq> [])"
    using loop_evaluates [OF V f c(1) es(1) wf fx y_def] by (simp add: ev Item_new_def)
  have "keeps ?c (evals V ?f s es (v_new V))" using keeps_eval(2) [OF V f wf] by (simp add: ev)
  then have tr: "triple (within ?c 0) (evals V ?f s es (v_new V)) (\<lambda>_. within ?c 0) (\<lambda>e _. ok_error e)" by (simp add: keeps_def)
  have "within ?c 0 ?s" using fx by (simp add: within_def eval_start_def)
  from tr this show ?thesis
  proof (cases rule: tripleE)
    case (1 e s')
    then obtain p where "m_loop V ?f (Item_new V) [] (env ?c) = Some (Inl e, s'\<lparr>pstring := p\<rparr>)" using run y by auto
    from Parse_with_machine [OF this] show ?thesis using 1 by (auto simp: ok_error_def)
  next
    case (2 z s')
    then have m: "m_loop V ?f (Item_new V) [] (env ?c) = Some (Inr (arg_syms (fst z) []), s'\<lparr>pstring := []\<rparr>)" "fst z \<noteq> []"
      using run y by auto
    have "error (fixed s') = error (fixed ?c)" using 2(2) by (simp add: within_def)
    then have "error s' = err_ok" by (simp add: fixed_def) (simp add: Parse_start_def)
    moreover have "arg_syms (fst z) [] \<noteq> ([] :: 'a sym list)"
      by (rule arg_syms_top [of "[]" "fst z"]) (use m(2) in simp_all)
    ultimately obtain t where "Parse_with V ?f s (print_exprs es) = Some (err_ok, t)"
      "map ivalue (stack t) = sym_values (arg_syms (fst z) [])" "\<forall>i \<in> set (stack t). itype i = numerical_value"
      using Parse_with_machine [OF m(1)] by auto
    then show ?thesis using 2(1) by (cases z) (simp add: sym_values_arg_syms)
  qed
qed

end
