(* ===== verification/Parser_Cycles.thy ===== *)
theory Parser_Cycles
  imports Parser_Correct
begin

text \<open>
  Variables defined in terms of each other. \<open>cyclic\<close> is a set of variables each of which is defined by an
  expression that mentions a variable of the set. The names the parser remembers in
  \<^verbatim>\<open>visited_variables\<close> make every input that mentions such a variable fail, with
  \<^verbatim>\<open>err_variable_loop\<close> where the variable is the operand that is read first.
\<close>

section \<open>Expressions that mention a variable\<close>

fun mentions :: "string set \<Rightarrow> expr \<Rightarrow> bool" where
  "mentions X (Number b t) = False"
| "mentions X (Name b x) = (x \<in> X)"
| "mentions X (Parens b e) = mentions X e"
| "mentions X (Apply b f es) = (\<exists>e \<in> set es. mentions X e)"
| "mentions X (Binary m e e') = (mentions X e \<or> mentions X e')"

text \<open>The first operand is one of the variables.\<close>

fun leads :: "string set \<Rightarrow> expr \<Rightarrow> bool" where
  "leads X (Number b t) = False"
| "leads X (Name b x) = (x \<in> X)"
| "leads X (Parens b e) = leads X e"
| "leads X (Apply b f es) = (case es of [] \<Rightarrow> False | e # es \<Rightarrow> leads X e)"
| "leads X (Binary m e e') = leads X e"

definition defined_by :: "'v parser \<Rightarrow> string \<Rightarrow> string \<Rightarrow> bool" where
  "defined_by s x str \<longleftrightarrow>
     (case puser_variables s of None \<Rightarrow> False | Some t \<Rightarrow> Objects_GetValue_ptr t x None = (err_ok, Some str))"

definition cyclic :: "'v value_type \<Rightarrow> 'v parser \<Rightarrow> string set \<Rightarrow> bool" where
  "cyclic V s X \<longleftrightarrow> (\<forall>x \<in> X. \<exists>e. defined_by s x (print_expr e) \<and> wf_expr V s e \<and> mentions X e)"

definition cyclic_first :: "'v value_type \<Rightarrow> 'v parser \<Rightarrow> string set \<Rightarrow> bool" where
  "cyclic_first V s X \<longleftrightarrow> (\<forall>x \<in> X. \<exists>e. defined_by s x (print_expr e) \<and> wf_expr V s e \<and> leads X e)"

section \<open>Actions that always throw\<close>

definition fails :: "'v parser \<Rightarrow> ('v parser, 'a) action \<Rightarrow> bool" where
  "fails c m \<longleftrightarrow> (\<forall>n. triple (within c n) m (\<lambda>_ _. False) (\<lambda>e _. ok_error e))"

lemma fails_first: "fails c m \<Longrightarrow> fails c (andthen m f)"
  unfolding fails_def by (blast intro: triple_andthen [where R = "\<lambda>_ _. False"] tripleI)

lemma fails_then: "keeps c m \<Longrightarrow> (\<And>x. fails c (f x)) \<Longrightarrow> fails c (andthen m f)"
  unfolding fails_def keeps_def by (blast intro: triple_andthen)

lemma fails_prod: "(\<And>x y. fails c (f x y)) \<Longrightarrow> fails c (case p of (x, y) \<Rightarrow> f x y)"
  by (cases p) simp

lemma eval_fails:
  shows "value_type_ok V \<Longrightarrow> nested_ok nested c \<Longrightarrow> wf_expr V c e \<Longrightarrow> mentions X e \<Longrightarrow>
      (\<And>x. x \<in> X \<Longrightarrow> fails c (Parser_GetValueOfVariable V nested x)) \<Longrightarrow> fails c (eval V nested c e r)"
    "value_type_ok V \<Longrightarrow> nested_ok nested c \<Longrightarrow> \<forall>e \<in> set es. wf_expr V c e \<Longrightarrow> \<exists>e \<in> set es. mentions X e \<Longrightarrow>
      (\<And>x. x \<in> X \<Longrightarrow> fails c (Parser_GetValueOfVariable V nested x)) \<Longrightarrow> fails c (evals V nested c es r)"
proof (induction V nested c e r and V nested c es r rule: eval_evals.induct)
  case (5 V nested c m e e' r)
  show ?case
  proof (cases "mentions X e")
    case True
    with 5 show ?thesis by (auto intro!: fails_first)
  next
    case False
    with 5 show ?thesis unfolding eval.simps by (intro fails_then keeps_eval fails_prod fails_first) auto
  qed
next
  case (8 V nested c e e' es r)
  show ?case
  proof (cases "mentions X e")
    case True
    with 8 show ?thesis by (auto intro!: fails_first)
  next
    case False
    with 8 show ?thesis unfolding evals.simps by (intro fails_then keeps_eval fails_prod fails_first) auto
  qed
qed (auto intro: fails_first fails_then keeps_m_stop)

lemma eval_leads:
  shows "leads X e \<Longrightarrow> m_stop s = Some (Inr (), s) \<Longrightarrow>
      (\<And>x. x \<in> X \<Longrightarrow> \<exists>s'. Parser_GetValueOfVariable V nested x s = Some (Inl err, s')) \<Longrightarrow>
      \<exists>s'. eval V nested c e r s = Some (Inl err, s')"
    "es \<noteq> [] \<Longrightarrow> leads X (hd es) \<Longrightarrow> m_stop s = Some (Inr (), s) \<Longrightarrow>
      (\<And>x. x \<in> X \<Longrightarrow> \<exists>s'. Parser_GetValueOfVariable V nested x s = Some (Inl err, s')) \<Longrightarrow>
      \<exists>s'. evals V nested c es r s = Some (Inl err, s')"
proof (induction V nested c e r and V nested c es r rule: eval_evals.induct)
qed (fastforce split: list.splits)+

section \<open>Cycles\<close>

lemma cyclic_cong:
  assumes "puser_variables c = puser_variables d" "base c = base d" "comma c = comma d" "comma2 c = comma2 d" "group c = group d"
  shows "cyclic V c X \<longleftrightarrow> cyclic V d X" "cyclic_first V c X \<longleftrightarrow> cyclic_first V d X"
  using wf_expr_cong [OF assms(2-5), of V] assms(1)
  by (simp_all add: cyclic_def cyclic_first_def defined_by_def)

text \<open>A name of the cycle throws when it has been visited, or when the copy of the parser fails on its definition.\<close>

lemma GetValueOfVariable_throws:
  assumes "defined_by s x str" "pfunction_local_variables s = None"
    and "x \<in> visited_variables s \<and> err = err_variable_loop \<or>
      x \<notin> visited_variables s \<and> err \<noteq> err_ok \<and>
      nested ((Parser_new_copy (RecurrenceParsingVariablesOrFunction_AddName True x s))\<lparr>pfunction_local_variables := None\<rparr>) str
        = Some (err, q)"
  shows "\<exists>s'. Parser_GetValueOfVariable V nested x s = Some (Inl err, s')"
proof -
  obtain t where t: "puser_variables s = Some t" "Objects_GetValue_ptr t x None = (err_ok, Some str)"
    using assms(1) by (auto simp: defined_by_def split: option.splits)
  have "\<exists>s'. Parser_RecurrenceParsingVariablesOrFunction nested True x str None s = Some (Inl err, s')"
    using assms(3)
    by (auto simp: Parser_RecurrenceParsingVariablesOrFunction_def RecurrenceParsingVariablesOrFunction_CheckStopCondition_def)
  then have "\<exists>s'. Parser_GetValueOfUserDefinedVariable nested x s = Some (Inl err, s')"
    using t by (auto simp: Parser_GetValueOfUserDefinedVariable_def)
  then show ?thesis
    using assms(2) by (auto simp: Parser_GetValueOfVariable_def Parser_GetValueOfFunctionLocalVariable_def)
qed

definition entered :: "string \<Rightarrow> 'v parser \<Rightarrow> 'v parser" where
  "entered x s = (Parser_new_copy (RecurrenceParsingVariablesOrFunction_AddName True x s))\<lparr>pfunction_local_variables := None\<rparr>"

lemma entered_fields:
  "standard_settings (entered x s) = standard_settings s" "cyclic V (entered x s) X = cyclic V s X"
  "cyclic_first V (entered x s) X = cyclic_first V s X" "wf_expr V (entered x s) e = wf_expr V s e"
  "pfunction_local_variables (entered x s) = None" "pstop_calculating (entered x s) = pstop_calculating s"
proof -
  have "base (entered x s) = base s" "comma (entered x s) = comma s" "comma2 (entered x s) = comma2 s" "group (entered x s) = group s"
    "puser_variables (entered x s) = puser_variables s"
    by (simp_all add: entered_def Parser_new_copy_def Parser_assign_def RecurrenceParsingVariablesOrFunction_AddName_def)
  note this [simp]
  show "cyclic V (entered x s) X = cyclic V s X" "cyclic_first V (entered x s) X = cyclic_first V s X"
    by (rule cyclic_cong; simp)+
  show "wf_expr V (entered x s) e = wf_expr V s e" by (rule wf_expr_cong) simp_all
  show "standard_settings (entered x s) = standard_settings s" "pfunction_local_variables (entered x s) = None"
    "pstop_calculating (entered x s) = pstop_calculating s"
    by (simp_all add: entered_def standard_settings_def Parser_new_copy_def Parser_assign_def RecurrenceParsingVariablesOrFunction_AddName_def)
qed

lemma names_left_entered:
  assumes "defined_by s x str" "x \<notin> visited_variables s"
  shows "names_left (entered x s) < names_left s"
proof -
  have "fresh s True x"
    using assms by (auto simp: fresh_def defined_by_def Objects_GetValue_ptr_def split: option.splits if_splits)
  from names_left_copy [OF this refl] show ?thesis by (simp add: entered_def)
qed

lemma fixed_context:
  assumes "fixed s = fixed c"
  shows "standard_settings s = standard_settings c" "cyclic V s X = cyclic V c X" "wf_expr V s e = wf_expr V c e"
    "pfunction_local_variables s = pfunction_local_variables c" "names_left s = names_left c" "defined_by s x str = defined_by c x str"
proof -
  note f = fixed_fields [OF assms]
  have g: "base s = base c" "group s = group c" "pfunction_local_variables s = pfunction_local_variables c"
    using arg_cong [where f = base, OF assms] arg_cong [where f = group, OF assms]
      arg_cong [where f = pfunction_local_variables, OF assms]
    by (simp_all add: fixed_def)
  show "standard_settings s = standard_settings c" "pfunction_local_variables s = pfunction_local_variables c"
    "names_left s = names_left c" "defined_by s x str = defined_by c x str"
    by (simp_all add: standard_settings_def names_left_def defined_by_def f g)
  show "cyclic V s X = cyclic V c X" by (rule cyclic_cong) (simp_all add: f g)
  show "wf_expr V s e = wf_expr V c e" by (rule wf_expr_cong) (simp_all add: f g)
qed

lemma eval_start_fields [simp]:
  "standard_settings (eval_start s) = standard_settings s" "cyclic V (eval_start s) X = cyclic V s X"
  "cyclic_first V (eval_start s) X = cyclic_first V s X"
  "wf_expr V (eval_start s) e = wf_expr V s e" "names_left (eval_start s) = names_left s"
  "pfunction_local_variables (eval_start s) = pfunction_local_variables s" "pstop_calculating (eval_start s) = pstop_calculating s"
  "evals V nested (eval_start s) es r = evals V nested s es r"
proof -
  show "cyclic V (eval_start s) X = cyclic V s X" "cyclic_first V (eval_start s) X = cyclic_first V s X"
    by (rule cyclic_cong; simp add: eval_start_def)+
  show "wf_expr V (eval_start s) e = wf_expr V s e" by (rule wf_expr_cong) (simp_all add: eval_start_def)
  show "evals V nested (eval_start s) es r = evals V nested s es r" by (rule eval_cong) (simp_all add: eval_start_def)
qed (simp_all add: eval_start_def standard_settings_def names_left_def)

lemma cyclic_name_fails:
  assumes "cyclic V c X" "pfunction_local_variables c = None" "standard_settings c" "x \<in> X"
    and nested: "\<And>t e. standard_settings t \<Longrightarrow> cyclic V t X \<Longrightarrow> pfunction_local_variables t = None \<Longrightarrow> names_left t < names_left c \<Longrightarrow>
      wf_expr V t e \<Longrightarrow> mentions X e \<Longrightarrow> \<exists>err t'. nested t (print_expr e) = Some (err, t') \<and> ok_error err"
  shows "fails c (Parser_GetValueOfVariable V nested x)"
  unfolding fails_def
proof (intro allI tripleI)
  fix n u assume "within c n u"
  then have u: "fixed u = fixed c" by (simp add: within_def)
  note k = fixed_context [OF u]
  from assms(1,4) obtain e where e: "defined_by u x (print_expr e)" "wf_expr V u e" "mentions X e"
    unfolding cyclic_def k by blast
  have loc: "pfunction_local_variables u = None" using assms(2) k(4) by simp
  have "\<exists>err u'. Parser_GetValueOfVariable V nested x u = Some (Inl err, u') \<and> ok_error err"
  proof (cases "x \<in> visited_variables u")
    case True
    then have "\<exists>u'. Parser_GetValueOfVariable V nested x u = Some (Inl err_variable_loop, u')"
      by (intro GetValueOfVariable_throws [OF e(1) loc]) simp
    then show ?thesis by (auto simp: ok_error_def intro: exI [of _ err_variable_loop])
  next
    case False
    have "standard_settings (entered x u)" "cyclic V (entered x u) X" "wf_expr V (entered x u) e"
      "pfunction_local_variables (entered x u) = None" "names_left (entered x u) < names_left c"
      using assms(1,3) e(2) names_left_entered [OF e(1) False] by (simp_all add: entered_fields k)
    from nested [OF this(1,2,4,5,3) e(3)] obtain err q where q: "nested (entered x u) (print_expr e) = Some (err, q)" "ok_error err" by blast
    have "\<exists>u'. Parser_GetValueOfVariable V nested x u = Some (Inl err, u')"
      by (rule GetValueOfVariable_throws [OF e(1) loc]) (use False q in \<open>auto simp: entered_def ok_error_def\<close>)
    with q(2) show ?thesis by blast
  qed
  then show "\<exists>r u'. Parser_GetValueOfVariable V nested x u = Some (r, u') \<and> (case r of Inl e \<Rightarrow> ok_error e | Inr x \<Rightarrow> False)"
    by (metis sum.simps(5))
qed

lemma cycle_fails_step:
  assumes V: "value_type_ok V" and s: "standard_settings s" "cyclic V s X" "pfunction_local_variables s = None" "names_left s \<le> depth"
    and es: "es \<noteq> []" "\<forall>e \<in> set es. wf_expr V s e" "\<exists>e \<in> set es. mentions X e"
    and nested: "\<And>t e. standard_settings t \<Longrightarrow> cyclic V t X \<Longrightarrow> pfunction_local_variables t = None \<Longrightarrow> names_left t < names_left s \<Longrightarrow>
      wf_expr V t e \<Longrightarrow> mentions X e \<Longrightarrow> \<exists>err t'. Parser_Parse depth V t (print_expr e) = Some (err, t') \<and> ok_error err"
  shows "\<exists>err s'. Parser_Parse (Suc depth) V s (print_exprs es) = Some (err, s') \<and> ok_error err"
proof -
  let ?c = "eval_start s" and ?f = "Parser_Parse depth V"
  have ops: "operators_ok (operators_table ?c)" using s(1) by (simp add: eval_start_def standard_settings_def standard_operators_ok)
  have ok: "nested_ok ?f ?c" using s(4) by (intro nested_ok_Parse [OF V ops]) simp
  have "fails ?c (Parser_GetValueOfVariable V ?f x)" if "x \<in> X" for x
    by (rule cyclic_name_fails [OF _ _ _ that]) (use s nested in auto)
  then have "fails ?c (evals V ?f ?c es (v_new V))"
    using eval_fails(2) [OF V ok, of es X] es by auto
  then have "triple (within ?c 0) (evals V ?f s es (v_new V)) (\<lambda>_ _. False) (\<lambda>e _. ok_error e)"
    unfolding fails_def by simp
  moreover have "within ?c 0 ?c" by (simp add: within_def) (simp add: eval_start_def)
  ultimately obtain err u where u: "evals V ?f s es (v_new V) ?c = Some (Inl err, u)" "ok_error err"
    by (cases rule: tripleE) auto
  with Parse_evaluates_exprs [OF V s(1,4) es(1,2)] show ?thesis by auto
qed

lemma cycle_fails:
  assumes V: "value_type_ok V"
  shows "standard_settings s \<Longrightarrow> cyclic V s X \<Longrightarrow> pfunction_local_variables s = None \<Longrightarrow> names_left s \<le> depth \<Longrightarrow>
    es \<noteq> [] \<Longrightarrow> \<forall>e \<in> set es. wf_expr V s e \<Longrightarrow> \<exists>e \<in> set es. mentions X e \<Longrightarrow>
    \<exists>err s'. Parser_Parse (Suc depth) V s (print_exprs es) = Some (err, s') \<and> ok_error err"
proof (induction depth arbitrary: s es)
  case (0 s es)
  then show ?case by (intro cycle_fails_step [OF V]) auto
next
  case (Suc depth s es)
  have "\<exists>err t'. Parser_Parse (Suc depth) V t (print_expr e) = Some (err, t') \<and> ok_error err"
    if "standard_settings t" "cyclic V t X" "pfunction_local_variables t = None" "names_left t < names_left s" "wf_expr V t e" "mentions X e" for t e
    using Suc.IH [of t "[e]"] that Suc.prems(4) by simp
  with Suc.prems show ?case by (intro cycle_fails_step [OF V])
qed

text \<open>Where the cycle is met first, the error is the one for it.\<close>

lemma cyclic_name_loops:
  assumes "cyclic_first V c X" "pfunction_local_variables c = None" "pstop_calculating c = None" "standard_settings c" "x \<in> X"
    and nested: "\<And>t e. standard_settings t \<Longrightarrow> cyclic_first V t X \<Longrightarrow> pfunction_local_variables t = None \<Longrightarrow>
      pstop_calculating t = None \<Longrightarrow> names_left t < names_left c \<Longrightarrow> wf_expr V t e \<Longrightarrow> leads X e \<Longrightarrow>
      \<exists>t'. nested t (print_expr e) = Some (err_variable_loop, t')"
  shows "\<exists>u. Parser_GetValueOfVariable V nested x c = Some (Inl err_variable_loop, u)"
proof -
  from assms(1,5) obtain e where e: "defined_by c x (print_expr e)" "wf_expr V c e" "leads X e"
    unfolding cyclic_first_def by blast
  show ?thesis
  proof (cases "x \<in> visited_variables c")
    case True
    then show ?thesis by (intro GetValueOfVariable_throws [OF e(1) assms(2)]) simp
  next
    case False
    have "standard_settings (entered x c)" "cyclic_first V (entered x c) X" "pfunction_local_variables (entered x c) = None"
      "pstop_calculating (entered x c) = None" "names_left (entered x c) < names_left c" "wf_expr V (entered x c) e"
      using assms(1,3,4) e(2) names_left_entered [OF e(1) False] by (simp_all add: entered_fields)
    from nested [OF this e(3)] obtain q where "nested (entered x c) (print_expr e) = Some (err_variable_loop, q)" by blast
    then show ?thesis by (intro GetValueOfVariable_throws [OF e(1) assms(2)]) (use False in \<open>simp add: entered_def\<close>)
  qed
qed

lemma cycle_loops_step:
  assumes V: "value_type_ok V" and s: "standard_settings s" "cyclic_first V s X" "pfunction_local_variables s = None"
      "pstop_calculating s = None" "names_left s \<le> depth"
    and es: "es \<noteq> []" "\<forall>e \<in> set es. wf_expr V s e" "leads X (hd es)"
    and nested: "\<And>t e. standard_settings t \<Longrightarrow> cyclic_first V t X \<Longrightarrow> pfunction_local_variables t = None \<Longrightarrow>
      pstop_calculating t = None \<Longrightarrow> names_left t < names_left s \<Longrightarrow> wf_expr V t e \<Longrightarrow> leads X e \<Longrightarrow>
      \<exists>t'. Parser_Parse depth V t (print_expr e) = Some (err_variable_loop, t')"
  shows "\<exists>s'. Parser_Parse (Suc depth) V s (print_exprs es) = Some (err_variable_loop, s')"
proof -
  let ?c = "eval_start s" and ?f = "Parser_Parse depth V"
  have "\<exists>u. Parser_GetValueOfVariable V ?f x ?c = Some (Inl err_variable_loop, u)" if "x \<in> X" for x
    by (rule cyclic_name_loops [OF _ _ _ _ that]) (use s nested in auto)
  moreover have "m_stop ?c = Some (Inr (), ?c)" using s(4) by (simp add: m_stop_def)
  ultimately obtain u where "evals V ?f s es (v_new V) ?c = Some (Inl err_variable_loop, u)"
    using eval_leads(2) [OF es(1,3), of ?c V ?f] by blast
  with Parse_evaluates_exprs [OF V s(1,5) es(1,2)] show ?thesis by auto
qed

lemma cycle_loops:
  assumes V: "value_type_ok V"
  shows "standard_settings s \<Longrightarrow> cyclic_first V s X \<Longrightarrow> pfunction_local_variables s = None \<Longrightarrow> pstop_calculating s = None \<Longrightarrow>
    names_left s \<le> depth \<Longrightarrow> es \<noteq> [] \<Longrightarrow> \<forall>e \<in> set es. wf_expr V s e \<Longrightarrow> leads X (hd es) \<Longrightarrow>
    \<exists>s'. Parser_Parse (Suc depth) V s (print_exprs es) = Some (err_variable_loop, s')"
proof (induction depth arbitrary: s es)
  case (0 s es)
  then show ?case by (intro cycle_loops_step [OF V]) auto
next
  case (Suc depth s es)
  have "\<exists>t'. Parser_Parse (Suc depth) V t (print_expr e) = Some (err_variable_loop, t')"
    if "standard_settings t" "cyclic_first V t X" "pfunction_local_variables t = None" "pstop_calculating t = None"
      "names_left t < names_left s" "wf_expr V t e" "leads X e" for t e
    using Suc.IH [of t "[e]"] that Suc.prems(5) by simp
  with Suc.prems show ?case by (intro cycle_loops_step [OF V])
qed

end
