(* ===== verification/Parser_Properties.thy ===== *)
theory Parser_Properties
  imports Parser_Cycles
begin

text \<open>
  The properties of the expression parser and of the objects it uses. \<open>int_value\<close> is an instance of the
  template argument, the integers, on which the witnesses evaluate the parser.
\<close>

section \<open>An instance of the template argument\<close>

fun digits_value :: "int \<Rightarrow> string \<Rightarrow> int \<times> string" where
  "digits_value n [] = (n, [])"
| "digits_value n (c # s) =
     (if char_int c \<ge> 48 \<and> char_int c \<le> 57 then digits_value (10 * n + (char_int c - 48)) s else (n, c # s))"

definition int_value :: "int value_type" where
  "int_value = \<lparr>v_new = 0, v_of_int = id, v_SetZero = (\<lambda>_. 0), v_SetOne = (\<lambda>_. 1), v_SetMax = id, v_SetMin = id,
     v_SetPi = (\<lambda>_. 3), v_SetE = (\<lambda>_. 2), v_IsZero = (\<lambda>x. x = 0), v_ChangeSign = uminus,
     v_equal = (=), v_not_equal = (\<noteq>), v_less = (<), v_greater = (>), v_less_equal = (\<le>), v_greater_equal = (\<ge>),
     v_Add = (\<lambda>x y. Some (0, x + y)), v_Sub = (\<lambda>x y. Some (0, x - y)), v_Mul = (\<lambda>x y. Some (0, x * y)),
     v_Div = (\<lambda>x y. Some (0, x div y)), v_Pow = (\<lambda>x y. Some (if y < 0 then 2 else 0, x ^ nat y)),
     v_Mod = (\<lambda>x y. Some (0, x mod y)), v_BitAnd = (\<lambda>x y. Some (0, x)), v_BitOr = (\<lambda>x y. Some (0, x)),
     v_BitXor = (\<lambda>x y. Some (0, x)), v_Round = (\<lambda>x. Some (0, x)), v_RemainFraction = (\<lambda>_. Some 0),
     v_FromString = (\<lambda>_ s _. let (n, r) = digits_value 0 s in Some (0, n, r, length r < length s)),
     v_function1 = (\<lambda>_ x. Some (x, err_ok)), v_function2 = (\<lambda>_ x _. Some (x, err_ok)),
     v_function3 = (\<lambda>_ x _ _. Some (x, err_ok)), v_plain = (\<lambda>_ x. Some x),
     v_Gamma = (\<lambda>x g s. Some (x, err_ok, g, s)), v_Factorial = (\<lambda>x g s. Some (x, err_ok, g, s))\<rparr>"

lemma digits_value_rest: "\<exists>u. s = u @ snd (digits_value n s)"
proof (induction n s rule: digits_value.induct)
  case (2 n c s)
  show ?case
  proof (cases "48 \<le> char_int c \<and> char_int c \<le> 57")
    case True
    with 2 obtain u where "s = u @ snd (digits_value (10 * n + (char_int c - 48)) s)" by auto
    then have "c # s = (c # u) @ snd (digits_value n (c # s))" using True by simp
    then show ?thesis by blast
  qed auto
qed simp

lemma int_value_ok: "value_type_ok int_value"
proof -
  have "value_reads int_value"
    unfolding value_reads_def
  proof (intro allI impI)
    fix x p cv carry v r b
    assume f: "v_FromString int_value x p cv = Some (carry, v, r, b)"
    then have r: "r = snd (digits_value 0 p)" "b \<longleftrightarrow> length r < length p"
      by (auto simp: int_value_def split_beta Let_def)
    from digits_value_rest [of p 0] obtain u where "p = u @ r" unfolding r(1) by blast
    then show "\<exists>u. p = u @ r \<and> (b \<longrightarrow> u \<noteq> [])" using r(2) by (intro exI [of _ u]) auto
  qed
  then show ?thesis
    by (auto simp: value_type_ok_def value_total_def value_codes_def int_value_def split_beta Let_def)
qed





lemma new_parser:
  "base Parser_new = 10" "comma Parser_new = 46" "comma2 Parser_new = 44" "group Parser_new = 0" "param_sep Parser_new = 0"
  "puser_variables Parser_new = None" "puser_functions Parser_new = None" "pfunction_local_variables Parser_new = None"
  "pstop_calculating Parser_new = None" "visited_variables Parser_new = {}" "visited_functions Parser_new = {}"
  by code_simp+



section \<open>The parser\<close>

text \<open>
  C30. The parser returns on every input, whatever the tables of variables and functions define: once the bound on nested
  copies of the parser exceeds the number of names not yet visited, the result does not depend on it. The result is no
  internal error; without an error the stack has at least one value and only values, with an error it is empty.
\<close>

theorem Parse_always_returns:
  assumes "value_type_ok V" "operators_ok (operators_table s)"
  shows "\<exists>err s'. (\<forall>depth > names_left s. Parser_Parse depth V s str = Some (err, s')) \<and> error s' = err \<and> err \<noteq> err_internal_error \<and>
    (if err = err_ok then stack s' \<noteq> [] \<and> (\<forall>i \<in> set (stack s'). itype i = numerical_value) else stack s' = [])"
proof -
  obtain err s' where r: "Parser_Parse (Suc (names_left s)) V s str = Some (err, s')" "error s' = err" "err \<noteq> err_internal_error"
    "if err = err_ok then stack s' \<noteq> [] \<and> (\<forall>i \<in> set (stack s'). itype i = numerical_value) else stack s' = []"
    using Parse_returns [OF assms lessI, of str] by blast
  have "Parser_Parse depth V s str = Some (err, s')" if "names_left s < depth" for depth
    by (rule Parse_deeper [OF r(1)]) (use that in simp)
  with r(2-4) show ?thesis by blast
qed

theorem Parse_always_returns_witness:
  "\<exists>err s'. Parser_Parse 1 int_value Parser_new ''2+*'' = Some (err, s') \<and> error s' = err \<and> err \<noteq> err_internal_error"
proof -
  have "operators_ok (operators_table (Parser_new :: int parser))" by (simp add: operators_table_new standard_operators_ok)
  moreover have "names_left (Parser_new :: int parser) = 0" by (simp add: names_left_def new_parser table_names_def)
  ultimately show ?thesis using Parse_always_returns [OF int_value_ok, of Parser_new "''2+*''"] by (auto simp del: Parser_Parse.simps)
qed





end
