(* ===== verification/Spec2Isabelle.thy ===== *)
theory Spec2Isabelle
  imports UInt_Properties Int_Properties Geos_Properties Big_Properties Parser_Properties
begin

text \<open>
  Verification of the C++ code in the headers that imposm3 for Windows builds against
  (\<^verbatim>\<open>src/includes\<close>): the multi-precision arithmetic of ttmath and inline code of GEOS and LevelDB.

  \<^bold>\<open>The program.\<close> imposm3 imports OpenStreetMap data into PostGIS. It is a Go program (caches,
  readers, mapping, writers) on top of C and C++ libraries, whose headers the repository carries
  in \<^verbatim>\<open>src/includes\<close>. Most of these headers declare code that is linked in; the exception is
  ttmath (\<^verbatim>\<open>src/includes/geos/algorithm/ttmath\<close>), the multi-precision arithmetic the geometry
  library uses for robust predicates, which is a library of headers and so is here with all its
  bodies. This development models its two integer classes, \<^verbatim>\<open>UInt\<close> and \<^verbatim>\<open>Int\<close>, the
  arithmetic of the floating point class \<^verbatim>\<open>Big\<close>, which is built on them, the parser that evaluates
  expressions over such numbers with its tables of variables and functions, and besides the inline classes of
  GEOS (coordinates, envelopes, topology labels, quadrants, quad edges) and LevelDB (slices,
  statuses) that have a state or a contract of their own.

  \<^bold>\<open>State.\<close> An object of \<^verbatim>\<open>UInt<value_size>\<close> or \<^verbatim>\<open>Int<value_size>\<close> is its array
  \<^verbatim>\<open>table\<close> of words, least significant first: a list of \<open>64 word\<close> (\<open>utable\<close>) whose length is
  the template argument. A method is a function from the table before the call (and the
  arguments) to what it returns, paired with the table after it; an argument passed by reference
  and written is one more component of the result, an optional pointer an \<open>option\<close>. Failing
  assertions, and loops that would not end, are \<open>None\<close>; a carry, an error code or a parse result
  is a value. The platform is the 64-bit one (\<^verbatim>\<open>TTMATH_PLATFORM64\<close>) with
  \<^verbatim>\<open>TTMATH_NOASM\<close>, and assertions are on (\<^verbatim>\<open>TTMATH_DEBUG\<close>). Two objects passed to one method
  are different objects; where the source first copies an argument because it may be the object
  itself, the model takes its value.

  An object of \<^verbatim>\<open>Big<exp, man>\<close> is a record (\<open>big\<close>) of the table of the exponent, the table of the
  mantissa and the byte of flags; its value is a real number (\<open>bval\<close>). Only tables of less than
  \<open>2 ^ 50\<close> words are considered for the mantissa (\<open>big_shape\<close>), so that its bits can be counted in
  the machine integers the code uses.

  An object of \<^verbatim>\<open>Parser<ValueType>\<close> is a record (\<open>parser\<close>) of its members, the rest of the input in place of the
  pointer into it. A method is an action (\<open>action\<close>): a function from the parser to an error code that is
  thrown or a result, with the parser after it. The template argument is a record (\<open>value_type\<close>) of the methods
  of the number type and the functions of \<^verbatim>\<open>ttmath.h\<close> the parser calls, a parameter of everything; \<open>value_type_ok\<close> is
  what the properties ask of it: its methods fail no assertion, do not return \<^verbatim>\<open>err_internal_error\<close>, and
  \<^verbatim>\<open>FromString\<close> leaves a pointer into the string it was given.

  \<^bold>\<open>Theories.\<close>
  \<^item> \<open>Prelude\<close>: machine types (\<^verbatim>\<open>ttmathtypes.h\<close>), \<open>uval\<close> (the number of a table), \<open>utab\<close>
    (the table of a number), carries and borrows in closed form, the \<^verbatim>\<open>for\<close> loop.
  \<^item> \<open>UInt_Words\<close>, \<open>UInt_DivWords\<close>: operations on one or two words (\<^verbatim>\<open>ttmathuint_noasm.h\<close>).
    \<open>Knuth_Estimate\<close> is the arithmetic of one estimated digit of a quotient, a locale over the
    radix, interpreted for half words (\<^verbatim>\<open>DivTwoWords2\<close>) and words (\<^verbatim>\<open>Div3\<close>).
  \<^item> \<open>UInt_Vectors\<close>, \<open>UInt_Shifts\<close>: addition, subtraction and rotations of tables
    (\<^verbatim>\<open>ttmathuint_noasm.h\<close>, \<^verbatim>\<open>ttmathuint.h\<close>).
  \<^item> \<open>UInt_Basic\<close>, \<open>UInt_Bits\<close>: special values, comparison, tests, bits, normalisation.
  \<^item> \<open>UInt_Mul\<close>, \<open>UInt_Karatsuba\<close>, \<open>UInt_Multiply\<close>: the multiplications. The locale
    \<open>big_multiplier\<close> is the contract of a double-size product, interpreted for each algorithm.
  \<^item> \<open>UInt_Div\<close>, \<open>UInt_Div2\<close>, \<open>UInt_Div3\<close>, \<open>UInt_Divide\<close>: division by a word and the three long
    divisions. The locale \<open>divider\<close> is their contract.
  \<^item> \<open>UInt_Power\<close>: power and square root. \<open>UInt_Convert\<close>: conversions and operators.
    \<open>UInt_String\<close>: strings (\<^verbatim>\<open>ttmathuint.h\<close>, \<^verbatim>\<open>ttmathmisc.h\<close>).
  \<^item> \<open>Int_Basic\<close>, \<open>Int_Arith\<close>, \<open>Int_Convert\<close>, \<open>Int_Operators\<close>: the signed class
    (\<^verbatim>\<open>ttmathint.h\<close>), with \<open>ival\<close> and \<open>itab\<close> in place of \<open>uval\<close> and \<open>utab\<close>.
  \<^item> \<open>Big_Basic\<close>, \<open>Big_Compare\<close>: flags, special values, \<^verbatim>\<open>Standardizing\<close> and comparison of
    \<^verbatim>\<open>Big\<close> (\<^verbatim>\<open>ttmathbig.h\<close>); \<open>standard\<close> is the invariant of the class. \<open>Big_Round\<close>, \<open>Big_Mul\<close>,
    \<open>Big_Div\<close>, \<open>Big_Add\<close>: rounding and arithmetic, with error bounds. \<open>Big_Integer\<close>: integer parts,
    remainders and bit operations (the locale \<open>bit_operation\<close>). \<open>Big_Convert\<close>, \<open>Big_Double\<close>:
    conversions to and from integers, other sizes and \<^verbatim>\<open>double\<close>. \<open>Big_Pow\<close>: powers with integer
    exponents. \<open>Big_Operators\<close>: the operators. \<open>Big_Numbers\<close>: the locale \<open>number_operation\<close> with what the
    invariant needs of an operation, and \<open>big_built\<close>, the numbers a program can build.
  \<^item> \<open>Std_Map\<close>, \<open>Ttmath_Objects\<close>: the ordered map of the standard library, and the tables of variables and functions and
    the history of results (\<^verbatim>\<open>ttmathobjects.h\<close>), which refine maps from names (\<open>object_step_refines\<close>).
  \<^item> \<open>Action\<close>, \<open>Parser_State\<close>, \<open>Parser_Functions\<close>, \<open>Parser_Reader\<close>, \<open>Parser_Loop\<close>: the parser
    (\<^verbatim>\<open>ttmathparser.h\<close>), from the members and the wrappers of the functions to the loop over the input.
  \<^item> \<open>Parser_Frame\<close>, \<open>Parser_Machine\<close>: what the methods leave alone, and an abstract machine on a list of symbols
    (\<open>m_loop\<close>) which the loop on the array of the stack refines. \<open>Parser_Safety\<close>, \<open>Parser_Returns\<close>,
    \<open>Parser_Depth\<close>: the machine never gets stuck, consumes input and returns. \<open>Parser_Unread\<close>, \<open>Parser_Eval\<close>,
    \<open>Parser_Operands\<close>, \<open>Parser_Correct\<close>: expressions, their text and their value (\<open>eval\<close>), and that
    the parser computes it. \<open>Parser_Cycles\<close>: variables defined in terms of each other.
  \<^item> \<open>Geos_Coordinate\<close>, \<open>Geos_Envelope\<close>, \<open>Geos_CoordinateList\<close> (\<^verbatim>\<open>geos/geom\<close>): comparisons of
    coordinates, a \<^verbatim>\<open>double\<close> being its 64 bits; the locale \<open>strict_weak_order\<close> is what ordered
    containers ask of them. \<open>Geos_Label\<close>, \<open>Geos_Quadrant\<close> (\<^verbatim>\<open>geos/geomgraph\<close>): topology labels
    as a state machine (\<open>label_call\<close>, \<open>label_reachable\<close>) with what a client reads after every call (\<open>shown\<close>), quadrants, depths. \<open>Geos_QuadEdge\<close>
    (\<^verbatim>\<open>geos/triangulate/quadedge\<close>): quartets of edges in a store, the locale \<open>edge_algebra\<close> and
    its interpretation on every store that satisfies the axioms.
  \<^item> \<open>Leveldb_Slice\<close>, \<open>Leveldb_Status\<close> (\<^verbatim>\<open>leveldb/slice.h\<close>, \<^verbatim>\<open>leveldb/status.h\<close>): strings of bytes
    and the ownership of the error messages (\<open>status_step\<close>, \<open>owned\<close>); the constructor for errors and \<^verbatim>\<open>CopyState\<close>
    are parameters with contracts (\<open>constructs_errors\<close>, \<open>copies_states\<close>).
  \<^item> \<open>UInt_Properties\<close>, \<open>Int_Properties\<close>, \<open>Big_Properties\<close>, \<open>Parser_Properties\<close>, \<open>Geos_Properties\<close> and this theory:
    the properties.

  A definition has the name of the method it models, after \<open>UInt_\<close>, \<open>Int_\<close>, \<open>Big_\<close>, \<open>Misc_\<close> or the name of its class; an
  overloaded method has its argument type added, an operator a word for it, and a loop inside a
  method the name of the method and \<open>_loop\<close>.

  \<^bold>\<open>What is shown.\<close> Lemmas state the results of the methods in closed form over the numbers: the exact result modulo the range of the table and the exact condition of the
  carry (\<open>*_result\<close>, \<open>*_value\<close>, \<open>*_ival\<close>). The properties put these together: word and long
  division are division with remainder, all multiplication algorithms agree and none fails an
  assertion, the operators of \<^verbatim>\<open>UInt\<close> are arithmetic modulo the range and those of
  \<^verbatim>\<open>Int\<close> truncated integer arithmetic, comparison is the order of the numbers, strings and
  conversions round trip, errors are reported exactly. The exceptions are findings and are stated
  as lemmas too: \<^verbatim>\<open>Div1\<close> for large divisors (\<open>Div1_wrong_quotient\<close>), the smallest \<^verbatim>\<open>Int\<close> divided by minus one
  (\<open>Int_Div_smallest\<close>), the carry of
  \<^verbatim>\<open>Int::Pow\<close> (\<open>Int_Pow_wrong_carry\<close>) and of \<^verbatim>\<open>Int::AddInt\<close> (\<open>Int_AddInt_missed_carry\<close>),
  \<^verbatim>\<open>operator%\<close> by zero (\<open>modulo_by_zero_uninitialised\<close>), the rounding of \<^verbatim>\<open>SetFromTable\<close>
  (\<open>SetFromTable_drops_words\<close>), the last bit of long shifts (\<open>Rcl_last_bit\<close>).
  For \<^verbatim>\<open>Big\<close>: every number that is built stays standard or is flagged as not a number, comparison is
  the order of the values, products are within half and quotients within one unit of the last
  place, sums within half a unit of the largest exponent involved, powers within as many rounding
  errors as the exponent says (sums when the exponents are not too far apart, powers when the exponent can be halved), conversions from integers and \<^verbatim>\<open>double\<close> are exact and round trip. The
  findings: \<^verbatim>\<open>Sub\<close> of neighbours is zero (\<open>Big_Sub_loses_difference\<close>), exponents that are too far apart
  (\<open>Add_far_sample\<close>), the carry of \<^verbatim>\<open>Mul\<close> (\<open>Mul_max_one\<close>), the rounding of \<^verbatim>\<open>Div\<close> (\<open>Div_sample\<close>) and of
  \<^verbatim>\<open>Round\<close> (\<open>Round_samples\<close>), the carry of \<^verbatim>\<open>ToInt\<close> (\<open>Big_ToInt_truncates\<close>), a NaN that becomes zero
  (\<open>Big_nan_becomes_zero\<close>).
  For GEOS and LevelDB: the order of coordinates is a strict weak order (not with NaN,
  \<open>coordinate_less_nan\<close>), envelopes are sets of points (not with NaN, \<open>nan_envelope_intersects\<close>),
  every call on a label changes what can be read from it as it should, the functions on quad edges obey the edge algebra, slices compare as
  strings, and statuses never release an array twice nor leak one.
  For the parser: it returns on every input, whatever the variables and functions are defined by; it
  evaluates the text of an expression to the value of its tree, with priorities and associativity; and
  variables defined in terms of each other give an error. An object or history method does what the same step does to a map
  or a list.

  \<^bold>\<open>Loops.\<close> Only the parser has a bound: to get the value of a variable or a user function it runs a copy of
  itself on the definition, and \<open>Parser_Parse\<close> has the number of such copies that may be nested as an argument. A copy has one
  more name in its lists of visited names, so any bound above \<open>names_left\<close>, the number of names not yet visited, is enough
  (\<open>Parse_returns\<close>), and a larger one gives the same result (\<open>Parse_deeper\<close>). There is no other fuel. Loops over a table are structural recursions, the \<^verbatim>\<open>goto\<close> loop of
  \<^verbatim>\<open>Div1\<close> and the reversal of a string have termination proofs, and the \<^verbatim>\<open>while\<close> loops (\<^verbatim>\<open>Pow\<close>, \<^verbatim>\<open>Sqrt\<close>, \<^verbatim>\<open>PowUInt\<close>, the parser's) and the
  recursion of \<^verbatim>\<open>Div2\<close> are partial functions in the option monad, so that the lemmas that give
  their value also say that they end.

  \<^bold>\<open>Not modelled.\<close> The assembler variants of the word operations and the variants for 32-bit
  platforms; wide strings (the same templates on another character type) and the stream operators;
  the logging macros, which do not change the state; \<^verbatim>\<open>ToStringLog2\<close>, which only sizes a buffer;
  passing one object as two arguments of a division (the copies that \<^verbatim>\<open>Div2\<close> and \<^verbatim>\<open>Div3\<close> make then; \<open>UInt_Div2\<close> and
  \<open>UInt_Div3\<close> are \<^verbatim>\<open>Div2Ref\<close> and \<^verbatim>\<open>Div3Ref\<close>); the Karatsuba threshold of compilers other than GCC. Of \<^verbatim>\<open>Big\<close>: the constants, roots,
  exponentials, logarithms and powers with fractions, and strings, which use logarithms to find
  the decimal exponent; conversions of \<^verbatim>\<open>float\<close>. Of the rest of the repository: the functions of
  \<^verbatim>\<open>ttmath.h\<close>, which the parser calls through \<open>value_type\<close>; floating point arithmetic (distances, areas, precision models); the rest
  of the headers of GEOS and LevelDB, which declare code that is not in the repository; the Go
  packages. Of the parser: wide strings and the thread helpers. Functions that are declared but compiled elsewhere are parameters where the inline code
  calls them (\<^verbatim>\<open>TopologyLocation::merge\<close>, \<^verbatim>\<open>Envelope::covers\<close>, \<^verbatim>\<open>Status::CopyState\<close>, \<^verbatim>\<open>Status(Code, msg, msg2)\<close>).
\<close>

section \<open>Words\<close>

text \<open>
  C1. The division of two words by one, \<^verbatim>\<open>DivTwoWords\<close>, returns for every dividend \<open>a * 2^64 + b\<close> with \<open>a < c\<close> the exact quotient and remainder by \<open>c\<close>.
\<close>

theorem DivTwoWords_correct:
  assumes "a < c"
  shows "\<exists>r rest. UInt_DivTwoWords a b c = Some (r, rest) \<and>
    unat r = (W * unat a + unat b) div unat c \<and> unat rest = (W * unat a + unat b) mod unat c"
  using assms by (rule DivTwoWords_value)

theorem DivTwoWords_correct_witness:
  "\<exists>r rest. UInt_DivTwoWords 1 5 3 = Some (r, rest) \<and>
    unat r = (W * 1 + 5) div 3 \<and> unat rest = (W * 1 + 5) mod 3"
  using DivTwoWords_correct [of 1 3 5] by simp

section \<open>Multiplication\<close>

text \<open>
  C2. \<^verbatim>\<open>Mul\<close> with any algorithm number returns, its carry is 1 exactly when the product does
  not fit the table, and when it fits the table holds the product.
\<close>

theorem Mul_correct:
  assumes "length s = length t" "t \<noteq> []"
  shows "\<exists>r. UInt_Mul t s algorithm = Some (of_bool (W ^ length t \<le> uval t * uval s), r) \<and>
    (uval t * uval s < W ^ length t \<longrightarrow> r = utab (length t) (uval t * uval s))"
  using assms by (rule Mul_result)

theorem Mul_correct_witness: "UInt_Mul [3, 5] [7, 0] 1 = Some (0, [21, 35])"
  using Mul_correct [of "[7, 0]" "[3, 5]" 1] by (simp add: W_def)

section \<open>Strings and signed arithmetic together\<close>

text \<open>
  C32. A client that reads two printed integers, multiplies them and prints the result sees integer
  multiplication: when the product is in range, the printed result is the string of the product.
\<close>

theorem parse_multiply_print:
  assumes "2 \<le> b" "b \<le> 16" "t \<noteq> []" "length u = length t" "fits (length t) (ival t * ival u)"
  shows "\<exists>s1 s2 x. Int_ToString t b = Some s1 \<and> Int_ToString u b = Some s2 \<and>
    length x = length t \<and> ival x = ival t * ival u \<and>
    do {
      (_, p, _) \<leftarrow> Int_FromString t s1 b;
      (_, q, _) \<leftarrow> Int_FromString t s2 b;
      (c, p) \<leftarrow> Int_Mul p q;
      if c = 0 then Int_ToString p b else None
    } = Int_ToString x b"
proof -
  have u: "u \<noteq> []" "length t = length u" using assms(3,4) by auto
  obtain s1 where s1: "Int_ToString t b = Some s1" "Int_FromString t s1 b = Some (0, t, [], True)"
    using Int_FromString_ToString [OF assms(1-3), of t] by auto
  obtain s2 where s2: "Int_ToString u b = Some s2" "Int_FromString t s2 b = Some (0, u, [], True)"
    using Int_FromString_ToString [OF assms(1,2) u] by auto
  let ?x = "itab (length t) (ival t * ival u)"
  have "Int_Mul t u = Some (0, ?x)" using Mul_ival [OF assms(4,3)] assms(5) by auto
  then show ?thesis using s1 s2 assms(5) by (intro exI [of _ s1] exI [of _ s2] exI [of _ ?x]) simp
qed

theorem parse_multiply_print_witness:
  "\<exists>s1 s2 x. Int_ToString [18446744073709551609] 10 = Some s1 \<and> Int_ToString [6] 10 = Some s2 \<and>
    length x = Suc 0 \<and> ival x = - 42 \<and>
    do {
      (_, p, _) \<leftarrow> Int_FromString [18446744073709551609] s1 10;
      (_, q, _) \<leftarrow> Int_FromString [18446744073709551609] s2 10;
      (c, p) \<leftarrow> Int_Mul p q;
      if c = 0 then Int_ToString p 10 else None
    } = Int_ToString x 10"
  using parse_multiply_print [of 10 "[18446744073709551609]" "[6]"]
  by (simp add: word_le_nat_alt ival_def fits_def W_def)

end
